(* ===== verification/Nespy_Prelude.thy ===== *)
theory Nespy_Prelude
  imports Main "HOL-Library.Word"
begin

text \<open>
  Shared vocabulary of the development: pointers, C integer widths, the option-based
  "may not return" convention, and generic lemmas on lists that several components use.
\<close>

section \<open>Pointers\<close>

text \<open>An address; the null pointer is address 0.\<close>

type_synonym ptr = nat

abbreviation (input) NULL :: ptr where
  "NULL \<equiv> 0"

section \<open>Singly linked chains in a heap\<close>

text \<open>
  A heap of link fields maps the address of a structure to the pointer stored in its
  \<open>next\<close> member. \<open>chain nx p xs\<close>: following \<open>next\<close> from \<open>p\<close> visits exactly the
  addresses \<open>xs\<close>, in order, and ends at \<open>NULL\<close>.
\<close>

fun chain :: "(ptr \<Rightarrow> ptr) \<Rightarrow> ptr \<Rightarrow> ptr list \<Rightarrow> bool" where
  "chain nx p [] \<longleftrightarrow> p = NULL"
| "chain nx p (x # xs) \<longleftrightarrow> p = x \<and> x \<noteq> NULL \<and> chain nx (nx x) xs"

text \<open>\<open>path nx p xs q\<close>: the same, ending at \<open>q\<close> rather than at \<open>NULL\<close>.\<close>

fun path :: "(ptr \<Rightarrow> ptr) \<Rightarrow> ptr \<Rightarrow> ptr list \<Rightarrow> ptr \<Rightarrow> bool" where
  "path nx p [] q \<longleftrightarrow> p = q"
| "path nx p (x # xs) q \<longleftrightarrow> p = x \<and> x \<noteq> NULL \<and> path nx (nx x) xs q"

named_theorems chain_intros \<open>rules that build a chain after a heap update\<close>

lemma chain_NULL [simp]: "chain nx NULL xs \<longleftrightarrow> xs = []"
  by (cases xs) auto

lemma chain_nonnull:
  "p \<noteq> NULL \<Longrightarrow> chain nx p xs \<longleftrightarrow> (\<exists>ys. xs = p # ys \<and> chain nx (nx p) ys)"
  by (cases xs) auto

lemma chain_append:
  "chain nx p (xs @ ys) \<longleftrightarrow> (\<exists>q. path nx p xs q \<and> chain nx q ys)"
  by (induction xs arbitrary: p) auto

lemma chain_deterministic: "chain nx p xs \<Longrightarrow> chain nx p ys \<Longrightarrow> xs = ys"
  by (induction xs arbitrary: p ys) (auto simp: chain_nonnull)

lemma chain_no_revisit: "chain nx (nx x) xs \<Longrightarrow> x \<notin> set xs"
proof
  assume c: "chain nx (nx x) xs" and "x \<in> set xs"
  then obtain as bs where xs: "xs = as @ x # bs"
    by (auto simp: in_set_conv_decomp)
  with c have "chain nx (nx x) bs"
    by (auto simp: chain_append)
  with c have "xs = bs" by (rule chain_deterministic)
  with xs show False by simp
qed

lemma chain_distinct: "chain nx p xs \<Longrightarrow> distinct xs"
  by (induction xs arbitrary: p) (auto dest: chain_no_revisit)

lemma chain_not_NULL: "chain nx p xs \<Longrightarrow> NULL \<notin> set xs"
  by (induction xs arbitrary: p) auto

lemma chain_update_other [simp]:
  "u \<notin> set xs \<Longrightarrow> chain (nx(u := v)) p xs = chain nx p xs"
  by (induction xs arbitrary: p) auto

lemma path_update_other [simp]:
  "u \<notin> set xs \<Longrightarrow> path (nx(u := v)) p xs q = path nx p xs q"
  by (induction xs arbitrary: p) auto

lemma path_snoc: "path nx p (xs @ [x]) q \<longleftrightarrow> path nx p xs x \<and> x \<noteq> NULL \<and> nx x = q"
  by (induction xs arbitrary: p) auto

lemma chain_snoc: "chain nx p (xs @ [x]) \<longleftrightarrow> path nx p xs x \<and> x \<noteq> NULL \<and> nx x = NULL"
  by (auto simp: chain_append)

section \<open>Circular arrays\<close>

text \<open>
  \<open>ring_contents xs g c\<close>: the \<open>c\<close> elements of the array \<open>xs\<close> read from index \<open>g\<close>
  upwards, wrapping at the end of the array.
\<close>

definition ring_contents :: "'a list \<Rightarrow> nat \<Rightarrow> nat \<Rightarrow> 'a list" where
  "ring_contents xs g c = map (\<lambda>i. xs ! ((g + i) mod length xs)) [0..<c]"

lemma length_ring_contents [simp]: "length (ring_contents xs g c) = c"
  by (simp add: ring_contents_def)

lemma ring_contents_0 [simp]: "ring_contents xs g 0 = []"
  by (simp add: ring_contents_def)

lemma mod_less_twice: "(x::nat) < 2 * n \<Longrightarrow> x mod n = (if x < n then x else x - n)"
  by (simp add: mod_if)

lemma ring_index_distinct:
  "i < j \<Longrightarrow> j < (n::nat) \<Longrightarrow> g < n \<Longrightarrow> (g + i) mod n \<noteq> (g + j) mod n"
  by (auto simp: mod_less_twice split: if_splits)

lemma ring_contents_put:
  assumes "c < length xs" and "g < length xs"
  shows "ring_contents (xs[(g + c) mod length xs := x]) g (Suc c) = ring_contents xs g c @ [x]"
proof -
  have "(g + c) mod length xs < length xs" using assms(1) by (cases xs) auto
  moreover have "xs[(g + c) mod length xs := x] ! ((g + i) mod length xs) = xs ! ((g + i) mod length xs)"
    if "i < c" for i
    using ring_index_distinct [OF that assms] by simp
  ultimately show ?thesis by (simp add: ring_contents_def)
qed

lemma ring_contents_get:
  assumes "g < length xs"
  shows "ring_contents xs g (Suc c) = xs ! g # ring_contents xs (Suc g mod length xs) c"
proof -
  have "(Suc g mod length xs + i) mod length xs = (g + Suc i) mod length xs" for i
    by (metis add_Suc_shift mod_add_left_eq)
  then show ?thesis
    using assms by (simp add: ring_contents_def upt_conv_Cons map_Suc_upt [symmetric] comp_def
        del: upt_Suc map_Suc_upt)
qed

text \<open>The number of elements between a read index and a write index.\<close>

definition ring_count :: "nat \<Rightarrow> nat \<Rightarrow> nat \<Rightarrow> nat" where
  "ring_count n p g = (p + n - g) mod n"

lemma ring_count_less: "0 < n \<Longrightarrow> ring_count n p g < n"
  by (simp add: ring_count_def)

lemma ring_count_write: "p < n \<Longrightarrow> g < n \<Longrightarrow> (g + ring_count n p g) mod n = p"
  by (simp add: ring_count_def mod_less_twice)

lemma ring_count_put:
  "p < n \<Longrightarrow> g < n \<Longrightarrow> ring_count n p g \<noteq> n - 1 \<Longrightarrow>
   ring_count n (Suc p mod n) g = Suc (ring_count n p g)"
  by (auto simp: ring_count_def mod_less_twice split: if_splits)

lemma ring_count_get:
  "p < n \<Longrightarrow> g < n \<Longrightarrow> ring_count n p g = Suc c \<Longrightarrow> ring_count n p (Suc g mod n) = c"
  by (auto simp: ring_count_def mod_less_twice split: if_splits)

end
