(* ===== verification/Contiki_List.thy ===== *)
theory Contiki_List
  imports Nespy_Prelude
begin

text \<open>
  The linked-list library of \<open>ns/lib/list.c\<close>. A list element is any structure whose first
  member is its \<open>next\<close> pointer; a \<open>list_t\<close> is the address of a cell holding the pointer to
  the first element. The memory the library touches is the contents of the head cells and
  of the \<open>next\<close> members. Every loop walks \<open>next\<close> pointers and does not return on a cyclic
  structure, so the loops are \<open>partial_function (option)\<close>: \<open>None\<close> is "does not return".
\<close>

section \<open>State and operations\<close>

type_synonym list_t = nat

record list_mem =
  head_cell :: "list_t \<Rightarrow> ptr"
  next_field :: "ptr \<Rightarrow> ptr"

definition set_head :: "list_t \<Rightarrow> ptr \<Rightarrow> list_mem \<Rightarrow> list_mem" where
  "set_head l p m = m\<lparr>head_cell := (head_cell m)(l := p)\<rparr>"

definition set_next :: "ptr \<Rightarrow> ptr \<Rightarrow> list_mem \<Rightarrow> list_mem" where
  "set_next x p m = m\<lparr>next_field := (next_field m)(x := p)\<rparr>"

definition list_init :: "list_t \<Rightarrow> list_mem \<Rightarrow> list_mem" where
  "list_init l m = set_head l NULL m"

definition list_head :: "list_t \<Rightarrow> list_mem \<Rightarrow> ptr" where
  "list_head l m = head_cell m l"

definition list_copy :: "list_t \<Rightarrow> list_t \<Rightarrow> list_mem \<Rightarrow> list_mem" where
  "list_copy dest src m = set_head dest (head_cell m src) m"

partial_function (option) list_tail_loop :: "(ptr \<Rightarrow> ptr) \<Rightarrow> ptr \<Rightarrow> ptr option" where
  "list_tail_loop nx l = (if nx l \<noteq> NULL then list_tail_loop nx (nx l) else Some l)"

definition list_tail :: "list_t \<Rightarrow> list_mem \<Rightarrow> ptr option" where
  "list_tail l m =
     (if head_cell m l = NULL then Some NULL
      else list_tail_loop (next_field m) (head_cell m l))"

partial_function (option) list_remove_loop ::
    "list_t \<Rightarrow> ptr \<Rightarrow> ptr \<Rightarrow> ptr \<Rightarrow> list_mem \<Rightarrow> list_mem option" where
  "list_remove_loop lst item l r m =
     (if l = NULL then Some m
      else if l = item then
        (let m1 = (if r = NULL then set_head lst (next_field m l) m
                   else set_next r (next_field m l) m)
         in Some (set_next l NULL m1))
      else list_remove_loop lst item (next_field m l) l m)"

definition list_remove :: "list_t \<Rightarrow> ptr \<Rightarrow> list_mem \<Rightarrow> list_mem option" where
  "list_remove lst item m =
     (if head_cell m lst = NULL then Some m
      else list_remove_loop lst item (head_cell m lst) NULL m)"

definition list_add :: "list_t \<Rightarrow> ptr \<Rightarrow> list_mem \<Rightarrow> list_mem option" where
  "list_add lst item m =
     Option.bind (list_remove lst item m) (\<lambda>m1.
       let m2 = set_next item NULL m1
       in Option.bind (list_tail lst m2) (\<lambda>l.
            Some (if l = NULL then set_head lst item m2 else set_next l item m2)))"

definition list_push :: "list_t \<Rightarrow> ptr \<Rightarrow> list_mem \<Rightarrow> list_mem option" where
  "list_push lst item m =
     Option.bind (list_remove lst item m) (\<lambda>m1.
       Some (set_head lst item (set_next item (head_cell m1 lst) m1)))"

partial_function (option) list_chop_loop :: "(ptr \<Rightarrow> ptr) \<Rightarrow> ptr \<Rightarrow> ptr option" where
  "list_chop_loop nx l = (if nx (nx l) \<noteq> NULL then list_chop_loop nx (nx l) else Some l)"

definition list_chop :: "list_t \<Rightarrow> list_mem \<Rightarrow> (ptr \<times> list_mem) option" where
  "list_chop lst m =
     (if head_cell m lst = NULL then Some (NULL, m)
      else if next_field m (head_cell m lst) = NULL
      then Some (head_cell m lst, set_head lst NULL m)
      else Option.bind (list_chop_loop (next_field m) (head_cell m lst)) (\<lambda>l.
        Some (next_field m l, set_next l NULL m)))"

definition list_pop :: "list_t \<Rightarrow> list_mem \<Rightarrow> ptr \<times> list_mem" where
  "list_pop lst m =
     (let l = head_cell m lst
      in (l, if l \<noteq> NULL then set_head lst (next_field m l) m else m))"

partial_function (option) list_length_loop :: "(ptr \<Rightarrow> ptr) \<Rightarrow> ptr \<Rightarrow> nat \<Rightarrow> nat option" where
  "list_length_loop nx l n = (if l \<noteq> NULL then list_length_loop nx (nx l) (n + 1) else Some n)"

definition list_length :: "list_t \<Rightarrow> list_mem \<Rightarrow> nat option" where
  "list_length lst m = list_length_loop (next_field m) (head_cell m lst) 0"

definition list_insert :: "list_t \<Rightarrow> ptr \<Rightarrow> ptr \<Rightarrow> list_mem \<Rightarrow> list_mem option" where
  "list_insert lst previtem newitem m =
     (if previtem = NULL then list_push lst newitem m
      else Option.bind (list_remove lst newitem m) (\<lambda>m1.
        let m2 = set_next newitem (next_field m1 previtem) m1
        in Some (set_next previtem newitem m2)))"

definition list_item_next :: "ptr \<Rightarrow> list_mem \<Rightarrow> ptr" where
  "list_item_next item m = (if item = NULL then NULL else next_field m item)"

partial_function (option) list_contains_loop :: "(ptr \<Rightarrow> ptr) \<Rightarrow> ptr \<Rightarrow> ptr \<Rightarrow> bool option" where
  "list_contains_loop nx item l =
     (if l \<noteq> NULL then (if item = l then Some True else list_contains_loop nx item (nx l))
      else Some False)"

definition list_contains :: "list_t \<Rightarrow> ptr \<Rightarrow> list_mem \<Rightarrow> bool option" where
  "list_contains lst item m = list_contains_loop (next_field m) item (head_cell m lst)"

section \<open>Abstraction to HOL lists\<close>

definition is_list :: "list_t \<Rightarrow> list_mem \<Rightarrow> ptr list \<Rightarrow> bool" where
  "is_list l m xs \<longleftrightarrow> chain (next_field m) (head_cell m l) xs"

lemmas mem_defs = set_head_def set_next_def

lemma set_head_sel [simp]:
  "head_cell (set_head l p m) = (head_cell m)(l := p)"
  "next_field (set_head l p m) = next_field m"
  by (simp_all add: mem_defs)

lemma set_next_sel [simp]:
  "head_cell (set_next x p m) = head_cell m"
  "next_field (set_next x p m) = (next_field m)(x := p)"
  by (simp_all add: mem_defs)

lemma list_tail_loop_path:
  "path nx l xs x \<Longrightarrow> x \<noteq> NULL \<Longrightarrow> nx x = NULL \<Longrightarrow> list_tail_loop nx l = Some x"
proof (induction xs arbitrary: l)
  case Nil
  then show ?case by (simp add: list_tail_loop.simps)
next
  case (Cons y ys)
  then have p: "l = y" "path nx (nx y) ys x" by auto
  then have "nx y \<noteq> NULL" using Cons.prems(2) by (cases ys) auto
  with Cons p show ?case by (simp add: list_tail_loop.simps [of nx y])
qed

lemma list_tail_spec:
  "is_list l m xs \<Longrightarrow> list_tail l m = Some (if xs = [] then NULL else last xs)"
proof (cases xs rule: rev_cases)
  case (snoc ys y)
  assume "is_list l m xs"
  with snoc have p: "path (next_field m) (head_cell m l) ys y" "y \<noteq> NULL" "next_field m y = NULL"
    by (auto simp: is_list_def chain_snoc)
  then have "head_cell m l \<noteq> NULL" by (cases ys) auto
  with p snoc show ?thesis by (simp add: list_tail_def list_tail_loop_path)
qed (simp add: is_list_def list_tail_def)

lemma list_remove_loop_absent:
  "chain (next_field m) l xs \<Longrightarrow> item \<notin> set xs \<Longrightarrow> list_remove_loop lst item l r m = Some m"
proof (induction xs arbitrary: l r)
  case Nil
  then show ?case by (simp add: list_remove_loop.simps)
next
  case (Cons x xs)
  then show ?case by (auto simp: list_remove_loop.simps [of lst item x r m])
qed

lemma list_remove_loop_present:
  "path (next_field m) l xs item \<Longrightarrow> item \<noteq> NULL \<Longrightarrow> item \<notin> set xs \<Longrightarrow>
   list_remove_loop lst item l r m =
     (let prev = (if xs = [] then r else last xs) in
      Some (set_next item NULL
        (if prev = NULL then set_head lst (next_field m item) m
         else set_next prev (next_field m item) m)))"
proof (induction xs arbitrary: l r)
  case Nil
  then show ?case by (simp add: list_remove_loop.simps Let_def)
next
  case (Cons x xs)
  then have "l = x" "x \<noteq> NULL" "x \<noteq> item" "path (next_field m) (next_field m x) xs item"
    by auto
  with Cons show ?case
    by (auto simp: list_remove_loop.simps [of lst item x r m] Let_def)
qed

lemma chain_unlink:
  assumes "chain nx p (as @ x # bs)" and "as \<noteq> []"
  shows "chain (nx(last as := nx x, x := NULL)) p (as @ bs)"
proof -
  from assms(2) obtain cs c where as: "as = cs @ [c]" by (cases as rule: rev_cases) auto
  from chain_distinct [OF assms(1)] as have d: "distinct (cs @ c # x # bs)" by simp
  from assms(1) as have *: "path nx p cs c" "c \<noteq> NULL" "x \<noteq> NULL" "chain nx (nx x) bs"
    by (auto simp: chain_append)
  with d show ?thesis
    by (auto simp: as chain_append intro!: exI [of _ c])
qed

text \<open>
  The frame of an operation: only the head cell of \<open>lst\<close> and the \<open>next\<close> members of the
  elements in \<open>S\<close> may differ.
\<close>

definition touches_only :: "list_t \<Rightarrow> ptr set \<Rightarrow> list_mem \<Rightarrow> list_mem \<Rightarrow> bool" where
  "touches_only lst S m m' \<longleftrightarrow>
     (\<forall>x. x \<notin> S \<longrightarrow> next_field m' x = next_field m x) \<and>
     (\<forall>l. l \<noteq> lst \<longrightarrow> head_cell m' l = head_cell m l)"

lemma touches_only_trans [trans]:
  "touches_only l S m m1 \<Longrightarrow> touches_only l T m1 m2 \<Longrightarrow> touches_only l (S \<union> T) m m2"
  by (simp add: touches_only_def)

lemma touches_only_mono: "touches_only l S m m' \<Longrightarrow> S \<subseteq> T \<Longrightarrow> touches_only l T m m'"
  by (auto simp: touches_only_def)

lemma touches_only_set_head: "touches_only l S m (set_head l p m)"
  by (simp add: touches_only_def)

lemma touches_only_set_next: "x \<in> S \<Longrightarrow> touches_only l S m (set_next x p m)"
  by (auto simp: touches_only_def)

lemma chain_cong:
  "(\<And>x. x \<in> set xs \<Longrightarrow> nx x = nx' x) \<Longrightarrow> chain nx p xs = chain nx' p xs"
  by (induction xs arbitrary: p) auto

text \<open>A list that shares no element with the touched ones keeps its contents.\<close>

lemma is_list_frame:
  assumes "touches_only lst S m m'" and "is_list l m ys" and "l \<noteq> lst" and "set ys \<inter> S = {}"
  shows "is_list l m' ys"
proof -
  have "chain (next_field m') (head_cell m l) ys = chain (next_field m) (head_cell m l) ys"
    using assms(1,4) by (intro chain_cong) (auto simp: touches_only_def)
  with assms show ?thesis by (simp add: is_list_def touches_only_def)
qed

lemma list_remove_spec:
  assumes "is_list lst m xs"
  shows "\<exists>m'. list_remove lst item m = Some m' \<and> is_list lst m' (remove1 item xs) \<and>
           touches_only lst (set xs) m m'"
proof (cases "item \<in> set xs")
  case False
  with assms show ?thesis
    by (auto simp: list_remove_def is_list_def touches_only_def remove1_idem list_remove_loop_absent)
next
  case True
  then obtain as bs where xs: "xs = as @ item # bs" and notin: "item \<notin> set as"
    by (auto dest: split_list_first)
  from assms xs have c: "chain (next_field m) (head_cell m lst) (as @ item # bs)"
    by (simp add: is_list_def)
  then have p: "path (next_field m) (head_cell m lst) as item" "item \<noteq> NULL"
      "chain (next_field m) (next_field m item) bs"
    by (auto simp: chain_append)
  have d: "distinct (as @ item # bs)" using c by (rule chain_distinct)
  have nn: "NULL \<notin> set as" using chain_not_NULL [OF c] by simp
  have r: "remove1 item xs = as @ bs" using xs notin by (simp add: remove1_append)
  have hd: "head_cell m lst \<noteq> NULL" using p by (cases as) auto
  show ?thesis
  proof (cases "as = []")
    case True
    with list_remove_loop_present [OF p(1,2) notin, of lst NULL] p d hd r xs show ?thesis
      by (auto simp: list_remove_def is_list_def touches_only_def Let_def)
  next
    case False
    then have l: "last as \<in> set as" "last as \<noteq> NULL" using nn last_in_set [of as] by metis+
    from chain_unlink [OF c False] False l p hd notin r xs show ?thesis
      by (auto simp: list_remove_def list_remove_loop_present is_list_def touches_only_def Let_def)
  qed
qed


lemma chain_last_not_NULL: "chain nx p xs \<Longrightarrow> xs \<noteq> [] \<Longrightarrow> last xs \<noteq> NULL"
  using chain_not_NULL last_in_set by metis

lemma chain_append_item:
  assumes "chain nx p xs" and "xs \<noteq> []" and "x \<notin> set xs" and "x \<noteq> NULL"
  shows "chain (nx(x := NULL, last xs := x)) p (xs @ [x])"
proof -
  from assms(2) obtain ys y where xs: "xs = ys @ [y]" by (cases xs rule: rev_cases) auto
  with assms chain_distinct [OF assms(1)] show ?thesis
    by (auto simp: chain_append chain_snoc path_snoc)
qed

lemma list_add_spec:
  assumes "is_list lst m xs" and "item \<noteq> NULL"
  shows "\<exists>m'. list_add lst item m = Some m' \<and> is_list lst m' (remove1 item xs @ [item]) \<and>
           touches_only lst (insert item (set xs)) m m'"
proof -
  let ?ys = "remove1 item xs"
  from list_remove_spec [OF assms(1)] obtain m1 where m1: "list_remove lst item m = Some m1"
      "is_list lst m1 ?ys" "touches_only lst (set xs) m m1" by blast
  have nin: "item \<notin> set ?ys" using assms(1) by (simp add: is_list_def chain_distinct)
  let ?m2 = "set_next item NULL m1"
  have m2: "is_list lst ?m2 ?ys" using m1(2) nin by (simp add: is_list_def)
  have t2: "touches_only lst (insert item (set xs)) m ?m2"
    using m1(3) by (auto simp: touches_only_def)
  define m' where
    "m' = (if ?ys = [] then set_head lst item ?m2 else set_next (last ?ys) item ?m2)"
  have eq: "list_add lst item m = Some m'"
    using m1(1) list_tail_spec [OF m2] chain_last_not_NULL [OF m2 [unfolded is_list_def]]
    by (auto simp: list_add_def m'_def Let_def)
  have "is_list lst m' (?ys @ [item])"
  proof (cases "?ys = []")
    case True
    then show ?thesis using assms(2) by (simp add: m'_def is_list_def)
  next
    case False
    with chain_append_item [OF m1(2) [unfolded is_list_def] False nin assms(2)] show ?thesis
      by (simp add: m'_def is_list_def)
  qed
  moreover have "touches_only lst (insert item (set xs)) m m'"
  proof (cases "?ys = []")
    case True
    then show ?thesis using t2 by (auto simp: m'_def touches_only_def)
  next
    case False
    then have "last ?ys \<in> set xs"
      using last_in_set [OF False] set_remove1_subset [of item xs] by (rule_tac subsetD)
    then show ?thesis using t2 False by (simp add: m'_def touches_only_def)
  qed
  ultimately show ?thesis using eq by blast
qed

lemma list_push_spec:
  assumes "is_list lst m xs" and "item \<noteq> NULL"
  shows "\<exists>m'. list_push lst item m = Some m' \<and> is_list lst m' (item # remove1 item xs) \<and>
           touches_only lst (insert item (set xs)) m m'"
proof -
  from list_remove_spec [OF assms(1)] obtain m1 where m1: "list_remove lst item m = Some m1"
      "is_list lst m1 (remove1 item xs)" "touches_only lst (set xs) m m1" by blast
  have "item \<notin> set (remove1 item xs)" using assms(1) by (simp add: is_list_def chain_distinct)
  with m1 assms(2) show ?thesis
    by (auto simp: list_push_def is_list_def touches_only_def)
qed

lemma list_pop_spec:
  assumes "is_list lst m xs" and "list_pop lst m = (p, m')"
  shows "p = (case xs of [] \<Rightarrow> NULL | x # _ \<Rightarrow> x)" and "is_list lst m' (tl xs)"
    and "touches_only lst {} m m'"
  using assms
  by (cases xs; auto simp: list_pop_def is_list_def touches_only_def Let_def split: if_splits)+

lemma list_chop_loop_path:
  "path nx l xs y \<Longrightarrow> y \<noteq> NULL \<Longrightarrow> nx y \<noteq> NULL \<Longrightarrow> nx (nx y) = NULL \<Longrightarrow> list_chop_loop nx l = Some y"
proof (induction xs arbitrary: l)
  case Nil
  then show ?case by (simp add: list_chop_loop.simps)
next
  case (Cons x xs)
  then have p: "l = x" "path nx (nx x) xs y" by auto
  then have "nx (nx x) \<noteq> NULL" using Cons.prems by (cases xs; cases "tl xs") auto
  with Cons p show ?case by (simp add: list_chop_loop.simps [of nx x])
qed

lemma list_chop_spec:
  assumes "is_list lst m xs"
  shows "\<exists>m'. list_chop lst m = Some (if xs = [] then NULL else last xs, m') \<and>
           is_list lst m' (butlast xs) \<and> touches_only lst (set xs) m m'"
proof (cases xs rule: rev_cases)
  case Nil
  with assms show ?thesis by (auto simp: list_chop_def is_list_def touches_only_def)
next
  case (snoc ys y)
  show ?thesis
  proof (cases ys rule: rev_cases)
    case Nil
    with snoc assms show ?thesis by (auto simp: list_chop_def is_list_def touches_only_def)
  next
    case (snoc zs z)
    with \<open>xs = ys @ [y]\<close> assms have
      c: "path (next_field m) (head_cell m lst) zs z" "z \<noteq> NULL" "next_field m z = y" "y \<noteq> NULL"
        "next_field m y = NULL" and d: "distinct (zs @ [z, y])"
      using chain_distinct [of "next_field m" "head_cell m lst" xs]
      by (auto simp: is_list_def chain_append)
    from c have h: "head_cell m lst \<noteq> NULL" "next_field m (head_cell m lst) \<noteq> NULL"
      by (cases zs; cases "tl zs"; auto)+
    have "chain ((next_field m)(z := NULL)) (head_cell m lst) (zs @ [z])"
      using c d by (auto simp: chain_snoc)
    with c h snoc \<open>xs = ys @ [y]\<close> show ?thesis
      by (auto simp: list_chop_def list_chop_loop_path is_list_def touches_only_def butlast_append)
  qed
qed

lemma list_length_loop_chain:
  "chain nx p xs \<Longrightarrow> list_length_loop nx p n = Some (n + length xs)"
proof (induction xs arbitrary: p n)
  case Nil
  then show ?case by (simp add: list_length_loop.simps)
next
  case (Cons x xs)
  then show ?case by (auto simp: list_length_loop.simps [of nx x])
qed

lemma list_length_spec: "is_list lst m xs \<Longrightarrow> list_length lst m = Some (length xs)"
  by (simp add: list_length_def is_list_def list_length_loop_chain)

lemma list_contains_loop_chain:
  "chain nx p xs \<Longrightarrow> list_contains_loop nx item p = Some (item \<in> set xs)"
proof (induction xs arbitrary: p)
  case Nil
  then show ?case by (simp add: list_contains_loop.simps)
next
  case (Cons x xs)
  then show ?case by (auto simp: list_contains_loop.simps [of nx item x])
qed

lemma list_contains_spec: "is_list lst m xs \<Longrightarrow> list_contains lst item m = Some (item \<in> set xs)"
  by (simp add: list_contains_def is_list_def list_contains_loop_chain)

lemma list_insert_after_spec:
  assumes "is_list lst m xs" and "newitem \<noteq> NULL" and "prev \<noteq> NULL"
    and "remove1 newitem xs = as @ prev # bs"
  shows "\<exists>m'. list_insert lst prev newitem m = Some m' \<and>
           is_list lst m' (as @ prev # newitem # bs) \<and>
           touches_only lst (insert newitem (set xs)) m m'"
proof -
  from list_remove_spec [OF assms(1), of newitem] assms(4) obtain m1 where m1:
      "list_remove lst newitem m = Some m1" "is_list lst m1 (as @ prev # bs)"
      "touches_only lst (set xs) m m1" by auto
  have nin: "newitem \<notin> set (as @ prev # bs)"
    using assms(1,4) chain_distinct unfolding is_list_def by (metis distinct.simps(2) in_set_remove1 set_remove1_eq DiffD2 singletonI)
  have d: "distinct (as @ prev # bs)" using m1(2) chain_distinct unfolding is_list_def by blast
  have p: "prev \<in> set xs" using assms(4) set_remove1_subset [of newitem xs] by auto
  have "is_list lst (set_next prev newitem (set_next newitem (next_field m1 prev) m1))
          (as @ prev # newitem # bs)"
    using m1(2) nin d assms(2) by (auto simp: is_list_def chain_append)
  moreover have "touches_only lst (insert newitem (set xs)) m
     (set_next prev newitem (set_next newitem (next_field m1 prev) m1))"
    using m1(3) p by (auto simp: touches_only_def)
  ultimately show ?thesis
    using m1(1) assms(3) by (simp add: list_insert_def Let_def)
qed

section \<open>Any sequence of operations\<close>

datatype list_op =
  Op_add ptr | Op_push ptr | Op_remove ptr | Op_pop | Op_chop | Op_head | Op_length
  | Op_contains ptr

text \<open>One operation on the memory; the result is the returned pointer or number.\<close>

fun list_exec :: "list_t \<Rightarrow> list_op \<Rightarrow> list_mem \<Rightarrow> (nat \<times> list_mem) option" where
  "list_exec l (Op_add x) m = map_option (Pair 0) (list_add l x m)"
| "list_exec l (Op_push x) m = map_option (Pair 0) (list_push l x m)"
| "list_exec l (Op_remove x) m = map_option (Pair 0) (list_remove l x m)"
| "list_exec l Op_pop m = Some (list_pop l m)"
| "list_exec l Op_chop m = list_chop l m"
| "list_exec l Op_head m = Some (list_head l m, m)"
| "list_exec l Op_length m = map_option (\<lambda>n. (n, m)) (list_length l m)"
| "list_exec l (Op_contains x) m = map_option (\<lambda>b. (of_bool b, m)) (list_contains l x m)"

text \<open>The same operation on the sequence of elements.\<close>

fun list_exec_spec :: "list_op \<Rightarrow> ptr list \<Rightarrow> nat \<times> ptr list" where
  "list_exec_spec (Op_add x) xs = (0, remove1 x xs @ [x])"
| "list_exec_spec (Op_push x) xs = (0, x # remove1 x xs)"
| "list_exec_spec (Op_remove x) xs = (0, remove1 x xs)"
| "list_exec_spec Op_pop xs = (case xs of [] \<Rightarrow> (NULL, []) | x # ys \<Rightarrow> (x, ys))"
| "list_exec_spec Op_chop xs = (if xs = [] then NULL else last xs, butlast xs)"
| "list_exec_spec Op_head xs = (case xs of [] \<Rightarrow> NULL | x # _ \<Rightarrow> x, xs)"
| "list_exec_spec Op_length xs = (length xs, xs)"
| "list_exec_spec (Op_contains x) xs = (of_bool (x \<in> set xs), xs)"

fun op_items :: "list_op \<Rightarrow> ptr set" where
  "op_items (Op_add x) = {x}"
| "op_items (Op_push x) = {x}"
| "op_items _ = {}"

fun list_run :: "list_t \<Rightarrow> list_op list \<Rightarrow> list_mem \<Rightarrow> (nat list \<times> list_mem) option" where
  "list_run l [] m = Some ([], m)"
| "list_run l (op # ops) m =
     Option.bind (list_exec l op m) (\<lambda>(r, m1).
       map_option (\<lambda>(rs, m2). (r # rs, m2)) (list_run l ops m1))"

fun list_run_spec :: "list_op list \<Rightarrow> ptr list \<Rightarrow> nat list \<times> ptr list" where
  "list_run_spec [] xs = ([], xs)"
| "list_run_spec (op # ops) xs =
     (let (r, ys) = list_exec_spec op xs; (rs, zs) = list_run_spec ops ys in (r # rs, zs))"

lemma list_exec_refines:
  assumes "is_list l m xs" and "NULL \<notin> op_items op"
  shows "\<exists>m'. list_exec l op m = Some (fst (list_exec_spec op xs), m') \<and>
           is_list l m' (snd (list_exec_spec op xs)) \<and>
           touches_only l (set xs \<union> op_items op) m m'"
proof (cases op)
  case (Op_add x)
  with list_add_spec [OF assms(1), of x] assms(2) show ?thesis by auto
next
  case (Op_push x)
  with list_push_spec [OF assms(1), of x] assms(2) show ?thesis by auto
next
  case (Op_remove x)
  with list_remove_spec [OF assms(1), of x] show ?thesis by auto
next
  case Op_pop
  obtain p m' where pm: "list_pop l m = (p, m')" by fastforce
  note spec = list_pop_spec [OF assms(1) pm]
  from spec(3) have "touches_only l (set xs \<union> op_items op) m m'"
    by (rule touches_only_mono) simp
  with Op_pop pm spec(1,2) show ?thesis by (cases xs) auto
next
  case Op_chop
  with list_chop_spec [OF assms(1)] show ?thesis by auto
next
  case Op_head
  then show ?thesis using assms(1)
    by (cases xs) (auto simp: list_head_def is_list_def touches_only_def)
next
  case Op_length
  then show ?thesis using assms(1) by (auto simp: list_length_spec touches_only_def)
next
  case (Op_contains x)
  then show ?thesis using assms(1) by (auto simp: list_contains_spec touches_only_def)
qed

lemma list_exec_spec_elems: "set (snd (list_exec_spec op xs)) \<subseteq> set xs \<union> op_items op"
  by (cases op) (auto split: list.splits dest: in_set_butlastD set_remove1_subset [THEN subsetD])

text \<open>
  C9: every sequence of list operations whose added items are non-null returns, gives the
  results the sequence of elements prescribes, leaves a well-formed list holding the
  prescribed elements, and touches nothing but this list's head cell and the \<open>next\<close>
  members of its old elements and of the items added.
\<close>

theorem list_run_refines:
  assumes "is_list l m xs" and "\<forall>op \<in> set ops. NULL \<notin> op_items op"
  shows "\<exists>m'. list_run l ops m = Some (fst (list_run_spec ops xs), m') \<and>
           is_list l m' (snd (list_run_spec ops xs)) \<and>
           touches_only l (set xs \<union> (\<Union>op \<in> set ops. op_items op)) m m'"
  using assms
proof (induction ops arbitrary: m xs)
  case Nil
  then show ?case by (simp add: touches_only_def)
next
  case (Cons op ops)
  let ?ys = "snd (list_exec_spec op xs)"
  from Cons.prems obtain m1 where m1:
      "list_exec l op m = Some (fst (list_exec_spec op xs), m1)"
      "is_list l m1 ?ys" "touches_only l (set xs \<union> op_items op) m m1"
    using list_exec_refines [of l m xs op] by auto
  from Cons.IH [OF m1(2)] Cons.prems obtain m2 where m2:
      "list_run l ops m1 = Some (fst (list_run_spec ops ?ys), m2)"
      "is_list l m2 (snd (list_run_spec ops ?ys))"
      "touches_only l (set ?ys \<union> (\<Union>op \<in> set ops. op_items op)) m1 m2"
    by auto
  have "touches_only l (set xs \<union> (\<Union>op \<in> set (op # ops). op_items op)) m m2"
    by (rule touches_only_mono [OF touches_only_trans [OF m1(3) m2(3)]])
      (use list_exec_spec_elems [of op xs] in auto)
  with m1(1) m2 show ?case by (simp add: case_prod_unfold Let_def)
qed

theorem list_run_refines_witness:
  "\<exists>m'. list_run 1 [Op_add 10, Op_push 20, Op_add 10, Op_pop]
          \<lparr>head_cell = (\<lambda>_. NULL), next_field = (\<lambda>_. NULL)\<rparr> = Some ([0, 0, 0, 20], m')
      \<and> is_list 1 m' [10]"
  using list_run_refines [of 1 "\<lparr>head_cell = (\<lambda>_. NULL), next_field = (\<lambda>_. NULL)\<rparr>" "[]"
      "[Op_add 10, Op_push 20, Op_add 10, Op_pop]"]
  by (auto simp: is_list_def)

text \<open>
  \<open>list_insert\<close> with a previous item on the list puts the new item right after it (the
  new item is first taken off the list if it was on it), and touches no other list.
\<close>

theorem list_insert_after:
  assumes "is_list lst m xs" and "newitem \<noteq> NULL" and "prev \<noteq> NULL"
    and "remove1 newitem xs = as @ prev # bs"
  shows "\<exists>m'. list_insert lst prev newitem m = Some m' \<and>
           is_list lst m' (as @ prev # newitem # bs) \<and>
           (\<forall>l ys. l \<noteq> lst \<longrightarrow> is_list l m ys \<longrightarrow> set ys \<inter> insert newitem (set xs) = {} \<longrightarrow>
              is_list l m' ys)"
  using list_insert_after_spec [OF assms] is_list_frame by blast

theorem list_insert_after_witness:
  "\<exists>m'. list_insert 1 10 30 \<lparr>head_cell = (\<lambda>_. NULL)(1 := 10),
          next_field = (\<lambda>_. NULL)(10 := 20)\<rparr> = Some m' \<and> is_list 1 m' [10, 30, 20]"
  using list_insert_after [of 1 "\<lparr>head_cell = (\<lambda>_. NULL)(1 := 10),
      next_field = (\<lambda>_. NULL)(10 := 20)\<rparr>" "[10, 20]" 30 10 "[]" "[20]"]
  by (auto simp: is_list_def)

end
