(* ===== verification/Interfaces.thy ===== *)
theory Interfaces
  imports Nespy_Prelude
begin

text \<open>
  Interfaces several components implement. Each is a locale whose assumptions are the
  contract a client relies on; the client's lemmas are proved once inside it, and the
  providers' theories interpret it on the model of the code.
\<close>

section \<open>Bounded first-in first-out buffers\<close>

datatype 'a fifo_op = Put 'a | Get

text \<open>
  Running puts and gets: the elements accepted, the elements delivered and the final
  buffer. A refused put and a get on an empty buffer leave the buffer as it is.
\<close>

fun fifo_run ::
    "('a \<Rightarrow> 'q \<Rightarrow> 'q option) \<Rightarrow> ('q \<Rightarrow> ('a \<times> 'q) option) \<Rightarrow> 'a fifo_op list \<Rightarrow> 'q
      \<Rightarrow> 'a list \<times> 'a list \<times> 'q" where
  "fifo_run put get [] q = ([], [], q)"
| "fifo_run put get (Put x # ops) q =
     (case put x q of
        None \<Rightarrow> fifo_run put get ops q
      | Some q1 \<Rightarrow> (case fifo_run put get ops q1 of (acc, out, q2) \<Rightarrow> (x # acc, out, q2)))"
| "fifo_run put get (Get # ops) q =
     (case get q of
        None \<Rightarrow> fifo_run put get ops q
      | Some (x, q1) \<Rightarrow> (case fifo_run put get ops q1 of (acc, out, q2) \<Rightarrow> (acc, x # out, q2)))"

locale bounded_fifo =
  fixes put :: "'a \<Rightarrow> 'q \<Rightarrow> 'q option"
    and get :: "'q \<Rightarrow> ('a \<times> 'q) option"
    and contents :: "'q \<Rightarrow> 'a list"
    and capacity :: "'q \<Rightarrow> nat"
    and invar :: "'q \<Rightarrow> bool"
  assumes bounded: "invar q \<Longrightarrow> length (contents q) \<le> capacity q"
    and put_refused: "invar q \<Longrightarrow> put x q = None \<longleftrightarrow> length (contents q) = capacity q"
    and put_accepted: "invar q \<Longrightarrow> put x q = Some q' \<Longrightarrow>
          contents q' = contents q @ [x] \<and> capacity q' = capacity q \<and> invar q'"
    and get_empty: "invar q \<Longrightarrow> get q = None \<longleftrightarrow> contents q = []"
    and get_first: "invar q \<Longrightarrow> get q = Some (x, q') \<Longrightarrow>
          contents q = x # contents q' \<and> capacity q' = capacity q \<and> invar q'"
begin

text \<open>Nothing is lost, duplicated or reordered, and the buffer never exceeds its capacity.\<close>

lemma run_fifo:
  assumes "invar q" and "fifo_run put get ops q = (acc, out, q')"
  shows "contents q @ acc = out @ contents q' \<and> capacity q' = capacity q \<and> invar q'"
  using assms
proof (induction ops arbitrary: q acc out)
  case Nil
  then show ?case by simp
next
  case (Cons op ops)
  show ?case
  proof (cases op)
    case (Put x)
    show ?thesis
    proof (cases "put x q")
      case None
      with Put Cons show ?thesis by simp
    next
      case (Some q1)
      from put_accepted [OF Cons.prems(1) Some] show ?thesis
        using Cons.prems(2) Put Some by (auto split: prod.splits dest: Cons.IH)
    qed
  next
    case Get
    show ?thesis
    proof (cases "get q")
      case None
      with Get Cons show ?thesis by simp
    next
      case (Some p)
      then obtain x q1 where p: "get q = Some (x, q1)" by (cases p) auto
      from get_first [OF Cons.prems(1) p] show ?thesis
        using Cons.prems(2) Get p by (auto split: prod.splits dest: Cons.IH)
    qed
  qed
qed

end

section \<open>Pools of blocks\<close>

text \<open>
  A client of a pool asks for blocks and gives back blocks it holds. \<open>Free_nth n\<close> gives back
  the \<open>n\<close>-th block held, if there is one. The run returns the blocks held at the end.
\<close>

datatype pool_op = Alloc | Free_nth nat

fun pool_run ::
    "('m \<Rightarrow> 'b option \<times> 'm) \<Rightarrow> ('b \<Rightarrow> 'm \<Rightarrow> 'm) \<Rightarrow> pool_op list \<Rightarrow> 'b list \<Rightarrow> 'm
      \<Rightarrow> 'b list \<times> 'm" where
  "pool_run alloc free [] held m = (held, m)"
| "pool_run alloc free (Alloc # ops) held m =
     (case alloc m of
        (None, m1) \<Rightarrow> pool_run alloc free ops held m1
      | (Some b, m1) \<Rightarrow> pool_run alloc free ops (b # held) m1)"
| "pool_run alloc free (Free_nth n # ops) held m =
     (if n < length held
      then pool_run alloc free ops (take n held @ drop (Suc n) held) (free (held ! n) m)
      else pool_run alloc free ops held m)"

locale block_pool =
  fixes alloc :: "'m \<Rightarrow> 'b option \<times> 'm"
    and free :: "'b \<Rightarrow> 'm \<Rightarrow> 'm"
    and used :: "'m \<Rightarrow> 'b set"
    and capacity :: "'m \<Rightarrow> nat"
    and invar :: "'m \<Rightarrow> bool"
  assumes finite_used: "invar m \<Longrightarrow> finite (used m)"
    and used_le: "invar m \<Longrightarrow> card (used m) \<le> capacity m"
    and alloc_fails: "invar m \<Longrightarrow> fst (alloc m) = None \<longleftrightarrow> card (used m) = capacity m"
    and alloc_fail_state: "invar m \<Longrightarrow> alloc m = (None, m') \<Longrightarrow> m' = m"
    and alloc_fresh: "invar m \<Longrightarrow> alloc m = (Some b, m') \<Longrightarrow>
          b \<notin> used m \<and> used m' = insert b (used m) \<and> capacity m' = capacity m \<and> invar m'"
    and free_used: "invar m \<Longrightarrow> b \<in> used m \<Longrightarrow>
          used (free b m) = used m - {b} \<and> capacity (free b m) = capacity m \<and> invar (free b m)"
begin

text \<open>The blocks held are always distinct and are exactly the used ones.\<close>

lemma run_held:
  assumes "invar m" and "distinct held" and "set held = used m"
    and "pool_run alloc free ops held m = (held', m')"
  shows "distinct held' \<and> set held' = used m' \<and> invar m' \<and> capacity m' = capacity m"
  using assms
proof (induction ops arbitrary: held m)
  case Nil
  then show ?case by simp
next
  case (Cons op ops)
  show ?case
  proof (cases op)
    case Alloc
    obtain r m1 where a: "alloc m = (r, m1)" by (cases "alloc m")
    show ?thesis
    proof (cases r)
      case None
      with a Cons.prems(1) have "m1 = m" by (simp add: alloc_fail_state)
      with Cons Alloc a None show ?thesis by simp
    next
      case (Some b)
      with alloc_fresh [OF Cons.prems(1)] a
      have "b \<notin> used m" "used m1 = insert b (used m)" "capacity m1 = capacity m" "invar m1"
        by auto
      with Cons.IH [of m1 "b # held"] Cons.prems Alloc a Some show ?thesis by simp
    qed
  next
    case (Free_nth n)
    show ?thesis
    proof (cases "n < length held")
      case False
      with Cons Free_nth show ?thesis by simp
    next
      case True
      let ?b = "held ! n" and ?rest = "take n held @ drop (Suc n) held"
      have split: "held = take n held @ ?b # drop (Suc n) held"
        using True by (rule id_take_nth_drop)
      have "?b \<in> used m" using True Cons.prems(3) by force
      note free = free_used [OF Cons.prems(1) this]
      have "distinct (take n held @ ?b # drop (Suc n) held)" using Cons.prems(2) split by simp
      then have d: "distinct ?rest" "?b \<notin> set ?rest" by auto
      have "set held = insert ?b (set ?rest)" by (subst split) auto
      with d free Cons.prems(3) have "set ?rest = used (free ?b m)" by auto
      with Cons.IH [of "free ?b m" ?rest] d free Cons.prems(4) Free_nth True
      show ?thesis by simp
    qed
  qed
qed

end

end
