(* ===== verification/Contiki_Ringbuf.thy ===== *)
theory Contiki_Ringbuf
  imports Interfaces
begin

unbundle bit_operations_syntax

text \<open>
  The byte ring buffer of \<open>ns/lib/ringbuf.c\<close> and the index ring buffer of
  \<open>ns/lib/ringbufindex.c\<close>. All pointers and the mask are \<open>uint8_t\<close>, modelled as
  \<open>8 word\<close>: C computes \<open>put_ptr - get_ptr\<close> as an \<open>int\<close> and masks it with a value below
  256, which is the 8-bit difference masked.
\<close>

section \<open>ringbuf.c\<close>

type_synonym u8 = "8 word"

record ringbuf =
  rb_data :: "u8 list"
  rb_mask :: u8
  rb_put_ptr :: u8
  rb_get_ptr :: u8

definition ringbuf_init :: "u8 list \<Rightarrow> u8 \<Rightarrow> ringbuf" where
  "ringbuf_init dataptr sz =
     \<lparr>rb_data = dataptr, rb_mask = sz - 1, rb_put_ptr = 0, rb_get_ptr = 0\<rparr>"

definition ringbuf_put :: "ringbuf \<Rightarrow> u8 \<Rightarrow> int \<times> ringbuf" where
  "ringbuf_put r c =
     (if (rb_put_ptr r - rb_get_ptr r) AND rb_mask r = rb_mask r then (0, r)
      else (1, r\<lparr>rb_data := (rb_data r)[unat (rb_put_ptr r) := c],
                 rb_put_ptr := (rb_put_ptr r + 1) AND rb_mask r\<rparr>))"

definition ringbuf_get :: "ringbuf \<Rightarrow> int \<times> ringbuf" where
  "ringbuf_get r =
     (if (rb_put_ptr r - rb_get_ptr r) AND rb_mask r > 0
      then (uint (rb_data r ! unat (rb_get_ptr r)),
            r\<lparr>rb_get_ptr := (rb_get_ptr r + 1) AND rb_mask r\<rparr>)
      else (-1, r))"

definition ringbuf_size :: "ringbuf \<Rightarrow> int" where
  "ringbuf_size r = uint (rb_mask r) + 1"

definition ringbuf_elements :: "ringbuf \<Rightarrow> int" where
  "ringbuf_elements r = uint ((rb_put_ptr r - rb_get_ptr r) AND rb_mask r)"

section \<open>ringbufindex.c\<close>

record ringbufindex =
  ri_mask :: u8
  ri_put_ptr :: u8
  ri_get_ptr :: u8

definition ringbufindex_init :: "u8 \<Rightarrow> ringbufindex" where
  "ringbufindex_init sz = \<lparr>ri_mask = sz - 1, ri_put_ptr = 0, ri_get_ptr = 0\<rparr>"

definition ringbufindex_put :: "ringbufindex \<Rightarrow> int \<times> ringbufindex" where
  "ringbufindex_put r =
     (if (ri_put_ptr r - ri_get_ptr r) AND ri_mask r = ri_mask r then (0, r)
      else (1, r\<lparr>ri_put_ptr := (ri_put_ptr r + 1) AND ri_mask r\<rparr>))"

definition ringbufindex_peek_put :: "ringbufindex \<Rightarrow> int" where
  "ringbufindex_peek_put r =
     (if (ri_put_ptr r - ri_get_ptr r) AND ri_mask r = ri_mask r then -1
      else uint (ri_put_ptr r))"

definition ringbufindex_get :: "ringbufindex \<Rightarrow> int \<times> ringbufindex" where
  "ringbufindex_get r =
     (if (ri_put_ptr r - ri_get_ptr r) AND ri_mask r > 0
      then (uint (ri_get_ptr r), r\<lparr>ri_get_ptr := (ri_get_ptr r + 1) AND ri_mask r\<rparr>)
      else (-1, r))"

definition ringbufindex_peek_get :: "ringbufindex \<Rightarrow> int" where
  "ringbufindex_peek_get r =
     (if (ri_put_ptr r - ri_get_ptr r) AND ri_mask r > 0 then uint (ri_get_ptr r) else -1)"

definition ringbufindex_size :: "ringbufindex \<Rightarrow> int" where
  "ringbufindex_size r = uint (ri_mask r) + 1"

definition ringbufindex_elements :: "ringbufindex \<Rightarrow> int" where
  "ringbufindex_elements r = uint ((ri_put_ptr r - ri_get_ptr r) AND ri_mask r)"

definition ringbufindex_full :: "ringbufindex \<Rightarrow> bool" where
  "ringbufindex_full r \<longleftrightarrow> (ri_put_ptr r - ri_get_ptr r) AND ri_mask r = ri_mask r"

definition ringbufindex_empty :: "ringbufindex \<Rightarrow> bool" where
  "ringbufindex_empty r \<longleftrightarrow> ringbufindex_elements r = 0"

section \<open>Masked 8-bit arithmetic\<close>

text \<open>A mask one below a power of two, as \<open>init\<close> sets it for a power-of-two size.\<close>

definition pow2_mask :: "u8 \<Rightarrow> bool" where
  "pow2_mask msk \<longleftrightarrow> (\<exists>k \<le> 8. unat msk + 1 = 2 ^ k)"

lemma pow2_mask_eq:
  assumes "k \<le> 8" and "unat (msk :: u8) + 1 = 2 ^ k"
  shows "msk = mask k"
proof -
  from assms(2) have "unat msk = 2 ^ k - 1" by simp
  then have "msk = of_nat (2 ^ k - 1)" by (metis of_nat_unat unsigned_of_nat ucast_id)
  then show ?thesis by (simp add: mask_eq_exp_minus_1 of_nat_diff)
qed

lemma unat_and_mask:
  assumes "pow2_mask msk"
  shows "unat (x AND msk) = unat x mod (unat msk + 1)"
proof -
  from assms obtain k where k: "k \<le> 8" "unat msk + 1 = 2 ^ k" by (auto simp: pow2_mask_def)
  have "unat (x AND msk) = unat (take_bit k x)"
    using pow2_mask_eq [OF k] by (simp add: take_bit_eq_mask)
  also have "\<dots> = take_bit k (unat x)" by (rule unsigned_take_bit_eq)
  finally show ?thesis using k by (simp add: take_bit_eq_mod)
qed

lemma unat_masked_diff:
  assumes "pow2_mask msk" and "unat g \<le> unat msk"
  shows "unat ((p - g) AND msk) = ring_count (unat msk + 1) (unat p) (unat g)"
proof -
  let ?n = "unat msk + 1"
  from assms(1) obtain k where k: "k \<le> 8" "?n = 2 ^ k" by (auto simp: pow2_mask_def)
  have dvd: "?n dvd 256"
    unfolding k(2) using le_imp_power_dvd [of k 8 "2::nat"] k(1) by simp
  then obtain c where c: "256 = ?n * c" by (elim dvdE)
  then have "c \<noteq> 0" by (metis mult_0_right zero_neq_numeral)
  then obtain d where d: "256 = ?n + ?n * d" using c by (cases c) auto
  have "int (unat (p - g)) = (int (unat p) - int (unat g)) mod 256"
    by (simp add: uint_word_ariths)
  also have "\<dots> = (int (unat p) + 256 - int (unat g)) mod 256"
    using mod_add_self2 [of "int (unat p) - int (unat g)" 256] by (simp add: algebra_simps)
  also have "\<dots> = int ((unat p + 256 - unat g) mod 256)"
    using unsigned_less [of g, where ?'a = nat] by (simp add: of_nat_mod)
  finally have "unat (p - g) = (unat p + 256 - unat g) mod 256" by (simp only: of_nat_eq_iff)
  then have "unat (p - g) mod ?n = (unat p + 256 - unat g) mod ?n"
    using dvd by (simp add: mod_mod_cancel)
  also have "\<dots> = ((unat p + ?n - unat g) + ?n * d) mod ?n"
    using d assms(2) by (simp only:) (rule arg_cong [where f = "\<lambda>x. x mod ?n"], linarith)
  also have "\<dots> = (unat p + ?n - unat g) mod ?n" by (rule mod_mult_self2)
  finally show ?thesis by (simp only: unat_and_mask [OF assms(1)] ring_count_def)
qed

lemma unat_masked_inc:
  assumes "pow2_mask msk" and "unat p \<le> unat msk"
  shows "unat ((p + 1) AND msk) = Suc (unat p) mod (unat msk + 1)"
proof -
  let ?n = "unat msk + 1"
  from assms(1) obtain k where k: "k \<le> 8" "?n = 2 ^ k" by (auto simp: pow2_mask_def)
  have "?n dvd 256" unfolding k(2) using le_imp_power_dvd [of k 8 "2::nat"] k(1) by simp
  then show ?thesis
    by (simp add: unat_and_mask [OF assms(1)] unat_word_ariths mod_mod_cancel)
qed

section \<open>An array indexed by ringbufindex is a bounded FIFO\<close>

text \<open>
  How clients use \<open>ringbufindex.c\<close>: to put, write the element at the index
  \<open>ringbufindex_peek_put\<close> gives and then call \<open>ringbufindex_put\<close>; to get, read the array
  at the index \<open>ringbufindex_get\<close> returns.
\<close>

type_synonym 'a ri_array = "ringbufindex \<times> 'a list"

definition ri_put :: "'a \<Rightarrow> 'a ri_array \<Rightarrow> 'a ri_array option" where
  "ri_put x = (\<lambda>(r, arr).
     let i = ringbufindex_peek_put r
     in if i = -1 then None else Some (snd (ringbufindex_put r), arr[nat i := x]))"

definition ri_get :: "'a ri_array \<Rightarrow> ('a \<times> 'a ri_array) option" where
  "ri_get = (\<lambda>(r, arr).
     case ringbufindex_get r of (i, r') \<Rightarrow> if i = -1 then None else Some (arr ! nat i, r', arr))"

definition ri_count :: "ringbufindex \<Rightarrow> nat" where
  "ri_count r = nat (ringbufindex_elements r)"

definition ri_contents :: "'a ri_array \<Rightarrow> 'a list" where
  "ri_contents q = ring_contents (snd q) (unat (ri_get_ptr (fst q))) (ri_count (fst q))"

definition ri_capacity :: "'a ri_array \<Rightarrow> nat" where
  "ri_capacity q = unat (ri_mask (fst q))"

definition ri_ok :: "ringbufindex \<Rightarrow> bool" where
  "ri_ok r \<longleftrightarrow> pow2_mask (ri_mask r) \<and>
     unat (ri_put_ptr r) \<le> unat (ri_mask r) \<and> unat (ri_get_ptr r) \<le> unat (ri_mask r)"

definition ri_invar :: "'a ri_array \<Rightarrow> bool" where
  "ri_invar q \<longleftrightarrow> ri_ok (fst q) \<and> length (snd q) = ri_capacity q + 1"

lemma uint_not_m1 [simp]: "uint (w :: 'a::len word) \<noteq> -1"
  using uint_ge_0 [of w] by linarith

lemma ri_count_ring:
  "ri_ok r \<Longrightarrow>
   ri_count r = ring_count (unat (ri_mask r) + 1) (unat (ri_put_ptr r)) (unat (ri_get_ptr r))"
  by (simp add: ri_ok_def ri_count_def ringbufindex_elements_def unat_masked_diff
      flip: unat_eq_nat_uint)

lemma ri_full_iff: "ringbufindex_full r \<longleftrightarrow> ri_count r = unat (ri_mask r)"
  by (simp add: ringbufindex_full_def ri_count_def ringbufindex_elements_def word_unat_eq_iff
      flip: unat_eq_nat_uint)

lemma ri_nonempty_iff: "(ri_put_ptr r - ri_get_ptr r) AND ri_mask r > 0 \<longleftrightarrow> ri_count r \<noteq> 0"
  by (simp add: ri_count_def ringbufindex_elements_def word_gt_0 unat_eq_0 flip: unat_eq_nat_uint)

lemma ringbufindex_put_ok:
  assumes "ri_ok r" and "\<not> ringbufindex_full r"
  shows "ri_ok (snd (ringbufindex_put r)) \<and> ri_count (snd (ringbufindex_put r)) = Suc (ri_count r)"
proof -
  let ?n = "unat (ri_mask r) + 1"
  let ?r' = "snd (ringbufindex_put r)"
  have r': "?r' = r\<lparr>ri_put_ptr := (ri_put_ptr r + 1) AND ri_mask r\<rparr>"
    using assms(2) by (simp add: ringbufindex_put_def ringbufindex_full_def)
  have lt: "unat (ri_put_ptr r) < ?n" "unat (ri_get_ptr r) < ?n"
    using assms(1) by (auto simp: ri_ok_def)
  have p': "unat (ri_put_ptr ?r') = Suc (unat (ri_put_ptr r)) mod ?n"
    using assms(1) by (simp add: r' ri_ok_def unat_masked_inc)
  have ok: "ri_ok ?r'"
    using assms(1) p' mod_less_divisor [of ?n "Suc (unat (ri_put_ptr r))"]
    by (simp add: ri_ok_def) (simp add: r')
  moreover have "ri_count r \<noteq> ?n - 1" using assms(2) by (simp add: ri_full_iff)
  ultimately show ?thesis
    using ring_count_put [OF lt] p' by (simp add: ri_count_ring assms(1)) (simp add: r')
qed

lemma ringbufindex_get_ok:
  assumes "ri_ok r" and "ri_count r = Suc c"
  shows "ri_ok (snd (ringbufindex_get r)) \<and> ri_count (snd (ringbufindex_get r)) = c \<and>
    unat (ri_get_ptr (snd (ringbufindex_get r))) =
      Suc (unat (ri_get_ptr r)) mod (unat (ri_mask r) + 1)"
proof -
  let ?n = "unat (ri_mask r) + 1"
  let ?r' = "snd (ringbufindex_get r)"
  have r': "?r' = r\<lparr>ri_get_ptr := (ri_get_ptr r + 1) AND ri_mask r\<rparr>"
    using assms(2) by (simp add: ringbufindex_get_def ri_nonempty_iff)
  have lt: "unat (ri_put_ptr r) < ?n" "unat (ri_get_ptr r) < ?n"
    using assms(1) by (auto simp: ri_ok_def)
  have g': "unat (ri_get_ptr ?r') = Suc (unat (ri_get_ptr r)) mod ?n"
    using assms(1) by (simp add: r' ri_ok_def unat_masked_inc)
  have ok: "ri_ok ?r'"
    using assms(1) g' mod_less_divisor [of ?n "Suc (unat (ri_get_ptr r))"]
    by (simp add: ri_ok_def) (simp add: r')
  moreover have "ri_count ?r' = c"
    using ring_count_get [OF lt] assms(2) g' by (simp add: ri_count_ring assms(1) ok) (simp add: r')
  ultimately show ?thesis using g' by simp
qed

lemma ri_count_le: "ri_ok r \<Longrightarrow> ri_count r \<le> unat (ri_mask r)"
  using ring_count_less [of "unat (ri_mask r) + 1"] by (simp add: ri_count_ring less_Suc_eq_le)

lemma ri_put_cases:
  "ri_put x (r, arr) =
     (if ringbufindex_full r then None
      else Some (snd (ringbufindex_put r), arr[unat (ri_put_ptr r) := x]))"
  by (simp add: ri_put_def ringbufindex_peek_put_def ringbufindex_full_def Let_def
      flip: unat_eq_nat_uint)

lemma ri_get_cases:
  "ri_get (r, arr) =
     (if ri_count r = 0 then None
      else Some (arr ! unat (ri_get_ptr r), snd (ringbufindex_get r), arr))"
  by (simp add: ri_get_def ringbufindex_get_def ri_nonempty_iff flip: unat_eq_nat_uint)

lemma ringbufindex_mask [simp]:
  "ri_mask (snd (ringbufindex_put r)) = ri_mask r"
  "ri_mask (snd (ringbufindex_get r)) = ri_mask r"
  "ri_get_ptr (snd (ringbufindex_put r)) = ri_get_ptr r"
  by (simp_all add: ringbufindex_put_def ringbufindex_get_def)

lemma ri_put_contents:
  assumes "ri_invar q" and "ri_put x q = Some q'"
  shows "ri_contents q' = ri_contents q @ [x] \<and> ri_capacity q' = ri_capacity q \<and> ri_invar q'"
proof -
  obtain r arr where q: "q = (r, arr)" by (cases q)
  from assms(2) q have nf: "\<not> ringbufindex_full r"
      and q': "q' = (snd (ringbufindex_put r), arr[unat (ri_put_ptr r) := x])"
    by (auto simp: ri_put_cases split: if_splits)
  from assms(1) q have ok: "ri_ok r" and len: "length arr = unat (ri_mask r) + 1"
    by (auto simp: ri_invar_def ri_capacity_def)
  note put = ringbufindex_put_ok [OF ok nf]
  have lt: "unat (ri_put_ptr r) < length arr" "unat (ri_get_ptr r) < length arr"
    using ok len by (auto simp: ri_ok_def)
  have "(unat (ri_get_ptr r) + ri_count r) mod length arr = unat (ri_put_ptr r)"
    using ring_count_write [OF lt] len by (simp add: ri_count_ring ok)
  with ring_contents_put [of "ri_count r" arr "unat (ri_get_ptr r)" x]
  have "ri_contents q' = ri_contents q @ [x]"
    using put ri_count_le [OF ok] len lt by (simp add: ri_contents_def q q')
  with put len show ?thesis by (simp add: q q' ri_capacity_def ri_invar_def)
qed

lemma ri_get_contents:
  assumes "ri_invar q" and "ri_get q = Some (x, q')"
  shows "ri_contents q = x # ri_contents q' \<and> ri_capacity q' = ri_capacity q \<and> ri_invar q'"
proof -
  obtain r arr where q: "q = (r, arr)" by (cases q)
  from assms(2) q have ne: "ri_count r \<noteq> 0" and x: "x = arr ! unat (ri_get_ptr r)"
      and q': "q' = (snd (ringbufindex_get r), arr)"
    by (auto simp: ri_get_cases split: if_splits)
  then obtain c where c: "ri_count r = Suc c" by (cases "ri_count r") auto
  from assms(1) q have ok: "ri_ok r" and len: "length arr = unat (ri_mask r) + 1"
    by (auto simp: ri_invar_def ri_capacity_def)
  note get = ringbufindex_get_ok [OF ok c]
  have "unat (ri_get_ptr r) < length arr" using ok len by (auto simp: ri_ok_def)
  then have "ri_contents q = x # ri_contents q'"
    using get c len by (simp add: ri_contents_def q q' x ring_contents_get)
  with get len show ?thesis by (simp add: q q' ri_capacity_def ri_invar_def)
qed

interpretation ri: bounded_fifo ri_put ri_get ri_contents ri_capacity ri_invar
proof unfold_locales
  fix q q' :: "'a ri_array" and x :: 'a
  assume inv: "ri_invar q"
  obtain r arr where q: "q = (r, arr)" by (cases q)
  show "length (ri_contents q) \<le> ri_capacity q"
    using inv by (simp add: ri_contents_def ri_capacity_def ri_invar_def ri_count_le)
  show "ri_put x q = None \<longleftrightarrow> length (ri_contents q) = ri_capacity q"
    by (simp add: q ri_put_cases ri_contents_def ri_capacity_def ri_full_iff)
  show "ri_get q = None \<longleftrightarrow> ri_contents q = []"
    by (simp add: q ri_get_cases ri_contents_def flip: length_0_conv)
qed (rule ri_put_contents ri_get_contents; assumption)+

section \<open>The byte ring buffer is a bounded FIFO\<close>

text \<open>A \<open>ringbuf\<close> is an index buffer together with its data array.\<close>

definition to_ri :: "ringbuf \<Rightarrow> u8 ri_array" where
  "to_ri r = (\<lparr>ri_mask = rb_mask r, ri_put_ptr = rb_put_ptr r, ri_get_ptr = rb_get_ptr r\<rparr>, rb_data r)"

definition rb_put :: "u8 \<Rightarrow> ringbuf \<Rightarrow> ringbuf option" where
  "rb_put c r = (case ringbuf_put r c of (ok, r') \<Rightarrow> if ok = 0 then None else Some r')"

definition rb_get :: "ringbuf \<Rightarrow> (u8 \<times> ringbuf) option" where
  "rb_get r = (case ringbuf_get r of (c, r') \<Rightarrow> if c = -1 then None else Some (word_of_int c, r'))"

definition rb_contents :: "ringbuf \<Rightarrow> u8 list" where
  "rb_contents r = ri_contents (to_ri r)"

definition rb_capacity :: "ringbuf \<Rightarrow> nat" where
  "rb_capacity r = unat (rb_mask r)"

definition rb_invar :: "ringbuf \<Rightarrow> bool" where
  "rb_invar r \<longleftrightarrow> ri_invar (to_ri r)"

lemma rb_put_ri: "map_option to_ri (rb_put c r) = ri_put c (to_ri r)"
  by (simp add: rb_put_def ringbuf_put_def to_ri_def ri_put_cases ringbufindex_full_def
      ringbufindex_put_def)

lemma rb_get_ri: "map_option (map_prod id to_ri) (rb_get r) = ri_get (to_ri r)"
  by (simp add: rb_get_def ringbuf_get_def to_ri_def ri_get_def ringbufindex_get_def
      flip: unat_eq_nat_uint)

interpretation rb: bounded_fifo rb_put rb_get rb_contents rb_capacity rb_invar
proof unfold_locales
  fix q q' x
  assume inv: "rb_invar q"
  note ri = inv [unfolded rb_invar_def]
  have cap: "rb_capacity r = ri_capacity (to_ri r)" for r
    by (simp add: rb_capacity_def ri_capacity_def to_ri_def)
  show "length (rb_contents q) \<le> rb_capacity q"
    using ri.bounded [OF ri] by (simp add: rb_contents_def cap)
  show "rb_put x q = None \<longleftrightarrow> length (rb_contents q) = rb_capacity q"
    using ri.put_refused [OF ri, of x] rb_put_ri [of x q] by (auto simp: rb_contents_def cap)
  show "rb_get q = None \<longleftrightarrow> rb_contents q = []"
    using ri.get_empty [OF ri] rb_get_ri [of q] by (auto simp: rb_contents_def)
  show "rb_contents q' = rb_contents q @ [x] \<and> rb_capacity q' = rb_capacity q \<and> rb_invar q'"
    if "rb_put x q = Some q'"
    using ri.put_accepted [OF ri, of x "to_ri q'"] rb_put_ri [of x q] that
    by (simp add: rb_contents_def cap rb_invar_def)
  show "rb_contents q = x # rb_contents q' \<and> rb_capacity q' = rb_capacity q \<and> rb_invar q'"
    if "rb_get q = Some (x, q')"
    using ri.get_first [OF ri, of x "to_ri q'"] rb_get_ri [of q] that
    by (simp add: rb_contents_def cap rb_invar_def)
qed

lemma pow2_mask_init: "k \<le> 8 \<Longrightarrow> unat (of_nat (2 ^ k) - 1 :: u8) = 2 ^ k - 1"
proof -
  assume "k \<le> 8"
  then have "k = 0 \<or> k = 1 \<or> k = 2 \<or> k = 3 \<or> k = 4 \<or> k = 5 \<or> k = 6 \<or> k = 7 \<or> k = 8" by arith
  then show ?thesis by (elim disjE) simp_all
qed

lemma ringbuf_init_invar:
  assumes "k \<le> 8" and "length d = 2 ^ k"
  shows "rb_invar (ringbuf_init d (of_nat (2 ^ k)))"
  using pow2_mask_init [OF assms(1)] assms
  by (auto simp: rb_invar_def ri_invar_def ri_ok_def ri_capacity_def to_ri_def ringbuf_init_def
      pow2_mask_def intro!: exI [of _ k])

text \<open>
  C26: a ring buffer initialised over an array of \<open>2 ^ k\<close> bytes is a first-in first-out
  queue: over any sequence of puts and gets, the bytes accepted so far are exactly the bytes
  delivered followed by the bytes still held, in order, and at most \<open>2 ^ k - 1\<close> are held.
\<close>

theorem ringbuf_fifo:
  assumes "k \<le> 8" and "length d = 2 ^ k"
    and "fifo_run rb_put rb_get ops (ringbuf_init d (of_nat (2 ^ k))) = (acc, out, r)"
  shows "acc = out @ rb_contents r \<and> length (rb_contents r) \<le> 2 ^ k - 1 \<and>
         int (length (rb_contents r)) = ringbuf_elements r \<and> ringbuf_size r = 2 ^ k"
proof -
  let ?r0 = "ringbuf_init d (of_nat (2 ^ k))"
  note inv = ringbuf_init_invar [OF assms(1,2)]
  have "rb_contents ?r0 = []"
    by (simp add: rb_contents_def ri_contents_def to_ri_def ringbuf_init_def ri_count_def
        ringbufindex_elements_def)
  moreover have "rb_capacity ?r0 = 2 ^ k - 1"
    using pow2_mask_init [OF assms(1)] by (simp add: rb_capacity_def ringbuf_init_def)
  moreover note run = rb.run_fifo [OF inv assms(3)]
  ultimately have "acc = out @ rb_contents r" "rb_capacity r = 2 ^ k - 1" "rb_invar r" by auto
  moreover have "int (length (rb_contents r)) = ringbuf_elements r"
    by (simp add: rb_contents_def ri_contents_def ri_count_def to_ri_def ringbufindex_elements_def
        ringbuf_elements_def)
  moreover have "ringbuf_size r = int (rb_capacity r) + 1"
    by (simp add: ringbuf_size_def rb_capacity_def)
  ultimately show ?thesis using rb.bounded [of r] by (simp add: of_nat_diff)
qed

theorem ringbuf_fifo_witness:
  "\<exists>acc out r. fifo_run rb_put rb_get [Put 7, Put 8, Get, Put 9, Put 10, Put 11]
       (ringbuf_init [0, 0, 0, 0] (of_nat (2 ^ 2))) = (acc, out, r) \<and>
     acc = out @ rb_contents r \<and> length (rb_contents r) \<le> 2 ^ 2 - 1"
proof -
  obtain acc out r where run: "fifo_run rb_put rb_get [Put 7, Put 8, Get, Put 9, Put 10, Put 11]
       (ringbuf_init [0, 0, 0, 0] (of_nat (2 ^ 2))) = (acc, out, r)"
    by (rule prod_cases3)
  have "(2::nat) \<le> 8" and "length [0, 0, 0, 0 :: u8] = 2 ^ 2" by simp_all
  from ringbuf_fifo [OF this run] run show ?thesis by blast
qed

text \<open>
  an array indexed through \<open>ringbufindex\<close> by one writer and one reader is a first-in
  first-out queue, for elements of any type.
\<close>

theorem ringbufindex_fifo:
  assumes "ri_invar q" and "fifo_run ri_put ri_get ops q = (acc, out, q')"
  shows "ri_contents q @ acc = out @ ri_contents q' \<and>
         length (ri_contents q') \<le> nat (ringbufindex_size (fst q)) - 1 \<and>
         (ringbufindex_full (fst q') \<longleftrightarrow>
            length (ri_contents q') = nat (ringbufindex_size (fst q)) - 1) \<and>
         (ringbufindex_empty (fst q') \<longleftrightarrow> ri_contents q' = [])"
proof -
  note run = ri.run_fifo [OF assms]
  have cap: "nat (ringbufindex_size (fst q)) - 1 = ri_capacity q"
    by (simp add: ringbufindex_size_def ri_capacity_def nat_add_distrib)
  have "ringbufindex_full (fst q') \<longleftrightarrow> length (ri_contents q') = ri_capacity q'"
    by (simp add: ri_full_iff ri_contents_def ri_capacity_def)
  moreover have "ringbufindex_empty (fst q') \<longleftrightarrow> ri_contents q' = []"
    by (simp add: ringbufindex_empty_def ri_contents_def ri_count_def ringbufindex_elements_def
        uint_0_iff unat_0_iff flip: length_0_conv)
  ultimately show ?thesis using run ri.bounded [of q'] cap by simp
qed

theorem ringbufindex_fifo_witness:
  "\<exists>acc out q'. fifo_run ri_put ri_get [Put True, Get, Get, Put False]
       (ringbufindex_init 2, [False, False]) = (acc, out, q') \<and>
     ri_contents (ringbufindex_init 2, [False, False]) @ acc = out @ ri_contents q'"
proof -
  obtain acc out q' where run: "fifo_run ri_put ri_get [Put True, Get, Get, Put False]
       (ringbufindex_init 2, [False, False]) = (acc, out, q')"
    by (rule prod_cases3)
  have "ri_invar (ringbufindex_init 2, [False, False])"
    by (auto simp: ri_invar_def ri_ok_def ri_capacity_def ringbufindex_init_def pow2_mask_def
        intro!: exI [of _ 1])
  from ringbufindex_fifo [OF this run] run show ?thesis by blast
qed

end
