(* ===== verification/Contiki_Memb.thy ===== *)
theory Contiki_Memb
  imports Interfaces
begin

text \<open>
  The memory block allocator of \<open>ns/lib/memb.c\<close>. A pool is an array of \<open>num\<close> blocks of
  \<open>size\<close> bytes at address \<open>mem\<close>, with one reference count per block. Block addresses are
  computed as the code does; the memory contents are kept because \<open>memb_init\<close> clears them.
\<close>

section \<open>State and operations\<close>

record memb =
  mb_size :: nat
  mb_num :: nat
  mb_count :: "int list"
  mb_mem :: ptr
  mb_bytes :: "nat list"

definition memb_init :: "memb \<Rightarrow> memb" where
  "memb_init m = m\<lparr>mb_count := replicate (mb_num m) 0,
                   mb_bytes := replicate (mb_size m * mb_num m) 0\<rparr>"

text \<open>The search loop of \<open>memb_alloc\<close>, from index \<open>i\<close>.\<close>

function memb_alloc_loop :: "memb \<Rightarrow> nat \<Rightarrow> ptr \<times> memb" where
  "memb_alloc_loop m i =
     (if i < mb_num m then
        (if mb_count m ! i = 0
         then (mb_mem m + i * mb_size m,
               m\<lparr>mb_count := (mb_count m)[i := mb_count m ! i + 1]\<rparr>)
         else memb_alloc_loop m (i + 1))
      else (NULL, m))"
  by pat_completeness auto
termination by (relation "measure (\<lambda>(m, i). mb_num m - i)") auto

definition memb_alloc :: "memb \<Rightarrow> ptr \<times> memb" where
  "memb_alloc m = memb_alloc_loop m 0"

text \<open>The search loop of \<open>memb_free\<close>: index \<open>i\<close>, address \<open>ptr2\<close> of block \<open>i\<close>.\<close>

function memb_free_loop :: "memb \<Rightarrow> ptr \<Rightarrow> nat \<Rightarrow> ptr \<Rightarrow> int \<times> memb" where
  "memb_free_loop m p i ptr2 =
     (if i < mb_num m then
        (if ptr2 = p then
           (let c = (if mb_count m ! i > 0 then mb_count m ! i - 1 else mb_count m ! i)
            in (c, m\<lparr>mb_count := (mb_count m)[i := c]\<rparr>))
         else memb_free_loop m p (i + 1) (ptr2 + mb_size m))
      else (-1, m))"
  by pat_completeness auto
termination by (relation "measure (\<lambda>(m, p, i, ptr2). mb_num m - i)") auto

definition memb_free :: "memb \<Rightarrow> ptr \<Rightarrow> int \<times> memb" where
  "memb_free m p = memb_free_loop m p 0 (mb_mem m)"

definition memb_inmemb :: "memb \<Rightarrow> ptr \<Rightarrow> bool" where
  "memb_inmemb m p \<longleftrightarrow> mb_mem m \<le> p \<and> p < mb_mem m + mb_num m * mb_size m"

fun memb_numfree_loop :: "int list \<Rightarrow> nat \<Rightarrow> nat" where
  "memb_numfree_loop [] num_free = num_free"
| "memb_numfree_loop (c # cs) num_free =
     memb_numfree_loop cs (if c = 0 then num_free + 1 else num_free)"

definition memb_numfree :: "memb \<Rightarrow> nat" where
  "memb_numfree m = memb_numfree_loop (take (mb_num m) (mb_count m)) 0"

declare memb_alloc_loop.simps [simp del] memb_free_loop.simps [simp del]

section \<open>Invariant and abstraction\<close>

definition memb_invar :: "memb \<Rightarrow> bool" where
  "memb_invar m \<longleftrightarrow> length (mb_count m) = mb_num m \<and> mb_mem m \<noteq> NULL \<and> mb_size m > 0 \<and>
     (\<forall>c \<in> set (mb_count m). c = 0 \<or> c = 1)"

definition memb_block :: "memb \<Rightarrow> nat \<Rightarrow> ptr" where
  "memb_block m i = mb_mem m + i * mb_size m"

definition memb_used :: "memb \<Rightarrow> ptr set" where
  "memb_used m = memb_block m ` {i. i < mb_num m \<and> mb_count m ! i \<noteq> 0}"

lemma memb_block_inj: "mb_size m > 0 \<Longrightarrow> memb_block m i = memb_block m j \<longleftrightarrow> i = j"
  by (simp add: memb_block_def)

lemma memb_block_update [simp]: "memb_block (m\<lparr>mb_count := cs\<rparr>) = memb_block m"
  by (simp add: memb_block_def fun_eq_iff)

lemma memb_alloc_loop_spec:
  "memb_alloc_loop m i = (NULL, m) \<and> (\<forall>j. i \<le> j \<longrightarrow> j < mb_num m \<longrightarrow> mb_count m ! j \<noteq> 0) \<or>
   (\<exists>j. i \<le> j \<and> j < mb_num m \<and> mb_count m ! j = 0 \<and>
      (\<forall>k. i \<le> k \<longrightarrow> k < j \<longrightarrow> mb_count m ! k \<noteq> 0) \<and>
      memb_alloc_loop m i = (memb_block m j, m\<lparr>mb_count := (mb_count m)[j := 1]\<rparr>))"
proof (induction m i rule: memb_alloc_loop.induct)
  case (1 m i)
  consider "i < mb_num m" "mb_count m ! i = 0" | "i < mb_num m" "mb_count m ! i \<noteq> 0"
    | "\<not> i < mb_num m" by blast
  then show ?case
  proof cases
    case 1
    then show ?thesis
      by (intro disjI2 exI [of _ i]) (simp add: memb_alloc_loop.simps [of m i] memb_block_def)
  next
    case 2
    then have "memb_alloc_loop m i = memb_alloc_loop m (Suc i)"
      by (simp add: memb_alloc_loop.simps [of m i])
    moreover have "i \<le> k \<longleftrightarrow> k = i \<or> Suc i \<le> k" for k by auto
    ultimately show ?thesis using 1 2 by auto
  qed (simp add: memb_alloc_loop.simps [of m i])
qed

lemma memb_free_loop_spec:
  assumes "mb_size m > 0" and "i \<le> j" and "j < mb_num m"
  shows "memb_free_loop m (memb_block m j) i (memb_block m i) =
     (let c = (if mb_count m ! j > 0 then mb_count m ! j - 1 else mb_count m ! j)
      in (c, m\<lparr>mb_count := (mb_count m)[j := c]\<rparr>))"
  using assms(2)
proof (induction i rule: inc_induct)
  case base
  then show ?case using assms by (simp add: memb_free_loop.simps Let_def)
next
  case (step i)
  have "memb_block m i + mb_size m = memb_block m (Suc i)" by (simp add: memb_block_def)
  with step assms show ?case
    by (simp add: memb_free_loop.simps [of m _ i] memb_block_inj)
qed

lemma memb_free_spec:
  assumes "mb_size m > 0" and "j < mb_num m"
  shows "memb_free m (memb_block m j) =
     (let c = (if mb_count m ! j > 0 then mb_count m ! j - 1 else mb_count m ! j)
      in (c, m\<lparr>mb_count := (mb_count m)[j := c]\<rparr>))"
  using memb_free_loop_spec [OF assms(1) _ assms(2), of 0]
  by (simp add: memb_free_def memb_block_def)

lemma memb_free_foreign:
  "(\<And>j. i \<le> j \<Longrightarrow> j < mb_num m \<Longrightarrow> p \<noteq> memb_block m j) \<Longrightarrow>
   memb_free_loop m p i (memb_block m i) = (-1, m)"
proof (induction "mb_num m - i" arbitrary: i)
  case 0
  then show ?case by (simp add: memb_free_loop.simps)
next
  case (Suc n)
  have "memb_block m i + mb_size m = memb_block m (Suc i)" by (simp add: memb_block_def)
  with Suc show ?case by (auto simp: memb_free_loop.simps [of m _ i])
qed

section \<open>The pool contract\<close>

definition mb_alloc :: "memb \<Rightarrow> ptr option \<times> memb" where
  "mb_alloc m = (case memb_alloc m of (p, m') \<Rightarrow> (if p = NULL then None else Some p, m'))"

definition mb_free :: "ptr \<Rightarrow> memb \<Rightarrow> memb" where
  "mb_free p m = snd (memb_free m p)"

lemma card_memb_used:
  "mb_size m > 0 \<Longrightarrow> card (memb_used m) = card {i. i < mb_num m \<and> mb_count m ! i \<noteq> 0}"
  unfolding memb_used_def by (rule card_image) (simp add: inj_on_def memb_block_inj)

lemma finite_memb_used: "finite (memb_used m)"
  by (simp add: memb_used_def)

lemma card_filter_split:
  "card {i. i < (n::nat) \<and> P i} + card {i. i < n \<and> \<not> P i} = n"
proof -
  have "{..<n} = {i. i < n \<and> P i} \<union> {i. i < n \<and> \<not> P i}" by auto
  then have "card {..<n} = card {i. i < n \<and> P i} + card {i. i < n \<and> \<not> P i}"
    by (metis (no_types, lifting) card_Un_disjoint disjoint_iff finite_Un finite_lessThan mem_Collect_eq)
  then show ?thesis by simp
qed

lemma memb_numfree_loop_acc: "memb_numfree_loop cs n = n + length (filter (\<lambda>c. c = 0) cs)"
  by (induction cs arbitrary: n) auto

lemma memb_numfree_used:
  assumes "memb_invar m"
  shows "memb_numfree m + card (memb_used m) = mb_num m"
proof -
  have "memb_numfree m = card {i. i < mb_num m \<and> \<not> mb_count m ! i \<noteq> 0}"
    using assms
    by (simp add: memb_numfree_def memb_numfree_loop_acc memb_invar_def length_filter_conv_card)
  then show ?thesis
    using assms card_filter_split [of "mb_num m" "\<lambda>i. mb_count m ! i \<noteq> 0"]
    by (simp add: card_memb_used memb_invar_def)
qed

lemma memb_alloc_cases:
  assumes "memb_invar m"
  obtains (full) "memb_alloc m = (NULL, m)" "card (memb_used m) = mb_num m"
  | (block) j where "memb_alloc m = (memb_block m j, m\<lparr>mb_count := (mb_count m)[j := 1]\<rparr>)"
      "j < mb_num m" "mb_count m ! j = 0" "\<forall>i < j. mb_count m ! i \<noteq> 0"
  using memb_alloc_loop_spec [of m 0]
proof (elim disjE exE conjE)
  assume "memb_alloc_loop m 0 = (NULL, m)"
    and "\<forall>j. 0 \<le> j \<longrightarrow> j < mb_num m \<longrightarrow> mb_count m ! j \<noteq> 0"
  moreover from this have "{i. i < mb_num m \<and> mb_count m ! i \<noteq> 0} = {..<mb_num m}" by auto
  ultimately show ?thesis
    using assms by (intro full) (auto simp: memb_alloc_def card_memb_used memb_invar_def)
next
  fix j
  assume "j < mb_num m" "mb_count m ! j = 0" "\<forall>k. 0 \<le> k \<longrightarrow> k < j \<longrightarrow> mb_count m ! k \<noteq> 0"
    "memb_alloc_loop m 0 = (memb_block m j, m\<lparr>mb_count := (mb_count m)[j := 1]\<rparr>)"
  then show ?thesis by (intro block) (auto simp: memb_alloc_def)
qed

lemma memb_used_update:
  assumes "length (mb_count m) = mb_num m" and "j < mb_num m"
  shows "memb_used (m\<lparr>mb_count := (mb_count m)[j := c]\<rparr>) =
     (if c = 0 then memb_block m ` ({i. i < mb_num m \<and> mb_count m ! i \<noteq> 0} - {j})
      else insert (memb_block m j) (memb_used m))"
  using assms by (auto simp: memb_used_def nth_list_update split: if_splits)

lemma memb_invar_update:
  assumes "memb_invar m" and "c = 0 \<or> c = 1"
  shows "memb_invar (m\<lparr>mb_count := (mb_count m)[j := c]\<rparr>)"
  using assms by (auto simp: memb_invar_def dest!: set_update_subset_insert [THEN subsetD])

lemma memb_block_nonnull: "memb_invar m \<Longrightarrow> memb_block m j \<noteq> NULL"
  by (simp add: memb_invar_def memb_block_def)

definition memb_at :: "ptr \<Rightarrow> nat \<Rightarrow> memb \<Rightarrow> bool" where
  "memb_at base sz m \<longleftrightarrow> memb_invar m \<and> mb_mem m = base \<and> mb_size m = sz"

interpretation mb: block_pool mb_alloc mb_free memb_used mb_num "memb_at base sz" for base sz
proof unfold_locales
  fix m m' :: memb and b
  assume at: "memb_at base sz m"
  then have inv: "memb_invar m" by (simp add: memb_at_def)
  then have sz: "mb_size m > 0" "length (mb_count m) = mb_num m" by (auto simp: memb_invar_def)
  show "finite (memb_used m)" by (rule finite_memb_used)
  show "card (memb_used m) \<le> mb_num m" using memb_numfree_used [OF inv] by simp
  show "fst (mb_alloc m) = None \<longleftrightarrow> card (memb_used m) = mb_num m"
    using inv
  proof (cases rule: memb_alloc_cases)
    case full
    then show ?thesis by (simp add: mb_alloc_def)
  next
    case (block j)
    then have "{i. i < mb_num m \<and> mb_count m ! i \<noteq> 0} \<subset> {..<mb_num m}" by auto
    then have "card (memb_used m) < mb_num m"
      using psubset_card_mono [of "{..<mb_num m}"] sz by (simp add: card_memb_used)
    with block inv show ?thesis by (simp add: mb_alloc_def memb_block_nonnull)
  qed
  show "m' = m" if "mb_alloc m = (None, m')"
    using inv
  proof (cases rule: memb_alloc_cases)
    case full
    with that show ?thesis by (simp add: mb_alloc_def)
  next
    case (block j)
    with that memb_block_nonnull [OF inv, of j] show ?thesis by (simp add: mb_alloc_def)
  qed
  show "b \<notin> memb_used m \<and> memb_used m' = insert b (memb_used m) \<and> mb_num m' = mb_num m \<and>
      memb_at base sz m'"
    if "mb_alloc m = (Some b, m')"
    using inv
  proof (cases rule: memb_alloc_cases)
    case full
    with that show ?thesis by (simp add: mb_alloc_def)
  next
    case (block j)
    with that have "b = memb_block m j" "m' = m\<lparr>mb_count := (mb_count m)[j := 1]\<rparr>"
      by (auto simp: mb_alloc_def split: if_splits)
    moreover have "memb_block m j \<notin> memb_used m"
      using block sz by (auto simp: memb_used_def memb_block_inj)
    ultimately show ?thesis
      using block sz inv at by (simp add: memb_used_update memb_invar_update memb_at_def)
  qed
  show "memb_used (mb_free b m) = memb_used m - {b} \<and> mb_num (mb_free b m) = mb_num m \<and>
      memb_at base sz (mb_free b m)" if b: "b \<in> memb_used m"
  proof -
    from b obtain j where j: "j < mb_num m" "mb_count m ! j \<noteq> 0" "b = memb_block m j"
      by (auto simp: memb_used_def)
    with inv sz have "mb_count m ! j = 1" by (auto simp: memb_invar_def)
    with j sz have "mb_free b m = m\<lparr>mb_count := (mb_count m)[j := 0]\<rparr>"
      by (simp add: mb_free_def memb_free_spec Let_def)
    moreover have "memb_block m ` ({i. i < mb_num m \<and> mb_count m ! i \<noteq> 0} - {j}) = memb_used m - {b}"
      using j sz by (auto simp: memb_used_def memb_block_inj)
    ultimately show ?thesis
      using j sz inv at by (simp add: memb_used_update memb_invar_update memb_at_def)
  qed
qed

section \<open>Properties\<close>

lemma memb_init_at:
  "mb_mem m \<noteq> NULL \<Longrightarrow> mb_size m > 0 \<Longrightarrow> memb_at (mb_mem m) (mb_size m) (memb_init m)"
  by (simp add: memb_at_def memb_invar_def memb_init_def)

lemma memb_init_used: "memb_used (memb_init m) = {}"
  by (auto simp: memb_used_def memb_init_def)

lemma memb_blocks_apart:
  assumes "a \<in> memb_used m" and "b \<in> memb_used m" and "a < b"
  shows "a + mb_size m \<le> b"
proof -
  from assms obtain i j where ij: "a = memb_block m i" "b = memb_block m j"
    by (auto simp: memb_used_def)
  with assms(3) have "i * mb_size m < j * mb_size m" by (simp add: memb_block_def)
  then have "i < j" by simp
  then have "Suc i * mb_size m \<le> j * mb_size m" by (intro mult_le_mono1) simp
  with ij show ?thesis by (simp add: memb_block_def)
qed

lemma memb_used_inmemb:
  assumes "a \<in> memb_used m"
  shows "mb_mem m \<le> a \<and> a + mb_size m \<le> mb_mem m + mb_num m * mb_size m"
proof -
  from assms obtain i where i: "a = memb_block m i" "i < mb_num m" by (auto simp: memb_used_def)
  then have "Suc i * mb_size m \<le> mb_num m * mb_size m" by (intro mult_le_mono1) simp
  with i show ?thesis by (simp add: memb_block_def)
qed

text \<open>
  C23: after \<open>memb_init\<close>, whatever sequence of allocations and frees of held blocks a client
  makes, the blocks it holds are pairwise distinct, lie inside the pool's memory without
  overlapping, and \<open>memb_numfree\<close> counts exactly the remaining ones.
\<close>

theorem memb_no_double_allocation:
  assumes "mb_mem m \<noteq> NULL" and "mb_size m > 0"
    and "pool_run mb_alloc mb_free ops [] (memb_init m) = (held, m')"
  shows "distinct held \<and> memb_numfree m' + length held = mb_num m \<and>
         (\<forall>a b. a \<in> set held \<longrightarrow> b \<in> set held \<longrightarrow> a < b \<longrightarrow> a + mb_size m \<le> b) \<and>
         (\<forall>a. a \<in> set held \<longrightarrow> memb_inmemb m a \<and> memb_inmemb m (a + mb_size m - 1))"
proof -
  have run: "distinct held \<and> set held = memb_used m' \<and> memb_at (mb_mem m) (mb_size m) m' \<and>
      mb_num m' = mb_num (memb_init m)"
    by (rule mb.run_held [OF memb_init_at [OF assms(1,2)] _ _ assms(3)])
      (simp_all add: memb_init_used)
  then have m': "mb_num m' = mb_num m" "mb_mem m' = mb_mem m" "mb_size m' = mb_size m" "memb_invar m'"
    by (auto simp: memb_init_def memb_at_def)
  have "length held = card (memb_used m')" using run distinct_card by force
  then have "memb_numfree m' + length held = mb_num m"
    using memb_numfree_used [OF m'(4)] m' by simp
  moreover have "memb_inmemb m a \<and> memb_inmemb m (a + mb_size m - 1)" if "a \<in> set held" for a
    using memb_used_inmemb [of a m'] that run m' assms(2) by (auto simp: memb_inmemb_def)
  ultimately show ?thesis using run m' memb_blocks_apart [of _ m'] by simp
qed

theorem memb_no_double_allocation_witness:
  "distinct (fst (pool_run mb_alloc mb_free [Alloc, Alloc, Free_nth 1, Alloc, Alloc, Alloc] []
      (memb_init \<lparr>mb_size = 8, mb_num = 3, mb_count = [], mb_mem = 1000, mb_bytes = []\<rparr>)))"
proof -
  let ?m = "\<lparr>mb_size = 8, mb_num = 3, mb_count = [], mb_mem = 1000, mb_bytes = []\<rparr>"
  let ?ops = "[Alloc, Alloc, Free_nth 1, Alloc, Alloc, Alloc]"
  obtain held m' where run: "pool_run mb_alloc mb_free ?ops [] (memb_init ?m) = (held, m')"
    by (rule prod.exhaust)
  have "mb_mem ?m \<noteq> NULL" and "mb_size ?m > 0" by simp_all
  from memb_no_double_allocation [OF this run] run show ?thesis by simp
qed

text \<open>
  \<open>memb_free\<close> on a pointer that is not the address of a block of the pool returns \<open>-1\<close>
  and changes nothing; on a block in use it returns 0 and the block becomes free; on a block
  that is already free it returns 0 and changes nothing.
\<close>

theorem memb_free_result:
  assumes "memb_invar m"
  shows "memb_free m p =
     (if \<exists>j < mb_num m. p = memb_block m j
      then (0, m\<lparr>mb_count := (mb_count m)[(p - mb_mem m) div mb_size m := 0]\<rparr>)
      else (-1, m))"
proof (cases "\<exists>j < mb_num m. p = memb_block m j")
  case True
  then obtain j where j: "j < mb_num m" "p = memb_block m j" by blast
  from assms j(1) have "mb_count m ! j = 0 \<or> mb_count m ! j = 1" and sz: "mb_size m > 0"
    by (auto simp: memb_invar_def)
  moreover have "(p - mb_mem m) div mb_size m = j" using j sz by (simp add: memb_block_def)
  moreover from calculation have
    "(if mb_count m ! j > 0 then mb_count m ! j - 1 else mb_count m ! j) = 0" by auto
  ultimately show ?thesis
    using True memb_free_spec [OF sz j(1)] j(2) by (simp only: Let_def if_True)
next
  case False
  then show ?thesis
    using memb_free_foreign [of 0 m p] by (auto simp: memb_free_def memb_block_def)
qed

theorem memb_free_result_witness:
  "memb_free \<lparr>mb_size = 8, mb_num = 2, mb_count = [1, 1], mb_mem = 1000, mb_bytes = []\<rparr> 1004 =
     (-1, \<lparr>mb_size = 8, mb_num = 2, mb_count = [1, 1], mb_mem = 1000, mb_bytes = []\<rparr>)"
  using memb_free_result
    [of "\<lparr>mb_size = 8, mb_num = 2, mb_count = [1, 1], mb_mem = 1000, mb_bytes = []\<rparr>" 1004]
  by (simp add: memb_invar_def memb_block_def split: if_splits)

end
