(* ===== verification/Contiki_Process.thy ===== *)
theory Contiki_Process
  imports Interfaces
begin

unbundle bit_operations_syntax

text \<open>
  The process kernel of \<open>ns/sys/process.c\<close>: the list of processes, the event queue, polls,
  and the delivery of events to the protothreads of the processes.

  A protothread is code of the application, so it is a parameter: \<open>th t l ev data\<close> is what the
  thread function at address \<open>t\<close> does when it is entered at the local continuation \<open>l\<close> with an
  event and its data. What it does is a tree of actions (\<open>act\<close>): a call of the kernel, whose
  result the rest depends on, an access to the memory of the application, or the return of a
  protothread result together with the new local continuation. A thread that posts an event
  synchronously re-enters the kernel, which calls the thread of another process; the depth
  of this nesting is the fuel of \<open>call_process\<close>, and \<open>None\<close> is "no result" (the fuel is too
  small, a walk over the processes does not end, or a null pointer is followed).
\<close>

section \<open>Data\<close>

type_synonym event = "8 word"

abbreviation (input) PROCESS_EVENT_INIT :: event where "PROCESS_EVENT_INIT \<equiv> 0x81"
abbreviation (input) PROCESS_EVENT_POLL :: event where "PROCESS_EVENT_POLL \<equiv> 0x82"
abbreviation (input) PROCESS_EVENT_EXIT :: event where "PROCESS_EVENT_EXIT \<equiv> 0x83"
abbreviation (input) PROCESS_EVENT_EXITED :: event where "PROCESS_EVENT_EXITED \<equiv> 0x87"
abbreviation (input) PROCESS_EVENT_MAX :: event where "PROCESS_EVENT_MAX \<equiv> 0x8a"

abbreviation (input) PROCESS_STATE_NONE :: "8 word" where "PROCESS_STATE_NONE \<equiv> 0"
abbreviation (input) PROCESS_STATE_RUNNING :: "8 word" where "PROCESS_STATE_RUNNING \<equiv> 1"
abbreviation (input) PROCESS_STATE_CALLED :: "8 word" where "PROCESS_STATE_CALLED \<equiv> 2"

abbreviation (input) PROCESS_BROADCAST :: ptr where "PROCESS_BROADCAST \<equiv> NULL"

abbreviation (input) PROCESS_ERR_OK :: int where "PROCESS_ERR_OK \<equiv> 0"
abbreviation (input) PROCESS_ERR_FULL :: int where "PROCESS_ERR_FULL \<equiv> 1"

definition PROCESS_CONF_NUMEVENTS :: nat where
  "PROCESS_CONF_NUMEVENTS = 32"

datatype pt_result = PT_WAITING | PT_YIELDED | PT_EXITED | PT_ENDED

record process =
  nxt :: ptr
  thread :: ptr
  pt :: nat
  state :: "8 word"
  needspoll :: bool

record event_data =
  ed_ev :: event
  ed_data :: ptr
  ed_p :: ptr

record 'g kernel =
  procs :: "ptr \<Rightarrow> process"
  process_list :: ptr
  process_current :: ptr
  lastevent :: event
  nevents :: "8 word"
  fevent :: "8 word"
  events :: "event_data list"
  poll_requested :: bool
  mem :: 'g

datatype kcall =
    Post ptr event ptr
  | Post_synch ptr event ptr
  | Poll ptr
  | Start ptr ptr
  | Exit ptr
  | Alloc_event
  | Is_running ptr
  | Nevents

datatype 'g act =
    Return pt_result nat
  | Call kcall "int \<Rightarrow> 'g act"
  | Access "'g \<Rightarrow> 'g" "'g \<Rightarrow> 'g act"

type_synonym 'g threads = "ptr \<Rightarrow> nat \<Rightarrow> event \<Rightarrow> ptr \<Rightarrow> 'g act"

definition upd_proc :: "ptr \<Rightarrow> (process \<Rightarrow> process) \<Rightarrow> 'g kernel \<Rightarrow> 'g kernel" where
  "upd_proc p f s = s\<lparr>procs := (procs s)(p := f (procs s p))\<rparr>"

abbreviation next_of :: "'g kernel \<Rightarrow> ptr \<Rightarrow> ptr" where
  "next_of s \<equiv> \<lambda>q. nxt (procs s q)"

abbreviation state_of :: "'g kernel \<Rightarrow> ptr \<Rightarrow> 8 word" where
  "state_of s p \<equiv> state (procs s p)"

definition set_state :: "ptr \<Rightarrow> 8 word \<Rightarrow> 'g kernel \<Rightarrow> 'g kernel" where
  "set_state p v = upd_proc p (state_update (\<lambda>_. v))"

section \<open>Operations without calls of threads\<close>

definition process_alloc_event :: "'g kernel \<Rightarrow> event \<times> 'g kernel" where
  "process_alloc_event s = (lastevent s, s\<lparr>lastevent := lastevent s + 1\<rparr>)"

text \<open>The walk \<open>for(q = process_list; q != p && q != NULL; q = q->next)\<close>.\<close>

partial_function (option) find_loop :: "(ptr \<Rightarrow> ptr) \<Rightarrow> ptr \<Rightarrow> ptr \<Rightarrow> ptr option" where
  "find_loop nx p q = (if q \<noteq> p \<and> q \<noteq> NULL then find_loop nx p (nx q) else Some q)"

text \<open>The walk to the process before \<open>p\<close>, which then points to the process after it.\<close>

partial_function (option) unlink_loop :: "ptr \<Rightarrow> ptr \<Rightarrow> 'g kernel \<Rightarrow> 'g kernel option" where
  "unlink_loop p q s =
     (if q = NULL then Some s
      else if next_of s q = p then Some (upd_proc q (nxt_update (\<lambda>_. next_of s p)) s)
      else unlink_loop p (next_of s q) s)"

definition unlink :: "ptr \<Rightarrow> 'g kernel \<Rightarrow> 'g kernel option" where
  "unlink p s =
     (if p = process_list s then Some (s\<lparr>process_list := next_of s (process_list s)\<rparr>)
      else unlink_loop p (process_list s) s)"

definition process_is_running :: "ptr \<Rightarrow> 'g kernel \<Rightarrow> bool" where
  "process_is_running p s \<longleftrightarrow> state_of s p \<noteq> PROCESS_STATE_NONE"

definition process_nevents :: "'g kernel \<Rightarrow> int" where
  "process_nevents s = uint (nevents s) + of_bool (poll_requested s)"

definition process_post :: "ptr \<Rightarrow> event \<Rightarrow> ptr \<Rightarrow> 'g kernel \<Rightarrow> int \<times> 'g kernel" where
  "process_post p ev data s =
     (if unat (nevents s) = PROCESS_CONF_NUMEVENTS then (PROCESS_ERR_FULL, s)
      else
        let snum = unat (fevent s + nevents s) mod PROCESS_CONF_NUMEVENTS
        in (PROCESS_ERR_OK,
            s\<lparr>events := (events s)[snum := \<lparr>ed_ev = ev, ed_data = data, ed_p = p\<rparr>],
              nevents := nevents s + 1\<rparr>))"

definition process_poll :: "ptr \<Rightarrow> 'g kernel \<Rightarrow> 'g kernel" where
  "process_poll p s =
     (if p \<noteq> NULL \<and>
         (state_of s p = PROCESS_STATE_RUNNING \<or> state_of s p = PROCESS_STATE_CALLED)
      then (upd_proc p (needspoll_update (\<lambda>_. True)) s)\<lparr>poll_requested := True\<rparr>
      else s)"

definition process_init :: "'g kernel \<Rightarrow> 'g kernel" where
  "process_init s =
     s\<lparr>lastevent := PROCESS_EVENT_MAX, nevents := 0, fevent := 0,
       process_current := NULL, process_list := NULL\<rparr>"

section \<open>Operations that call threads\<close>

text \<open>
  A thread re-enters the kernel through \<open>call_process\<close> and \<open>exit_process\<close>, so the
  operations take these two functions as arguments, \<open>cp\<close> and \<open>ep\<close>.
\<close>

type_synonym 'g callf = "ptr \<Rightarrow> event \<Rightarrow> ptr \<Rightarrow> 'g kernel \<Rightarrow> 'g kernel option"
type_synonym 'g exitf = "ptr \<Rightarrow> ptr \<Rightarrow> 'g kernel \<Rightarrow> 'g kernel option"

definition process_post_synch :: "'g callf \<Rightarrow> ptr \<Rightarrow> event \<Rightarrow> ptr \<Rightarrow> 'g kernel \<Rightarrow> 'g kernel option" where
  "process_post_synch cp p ev data s =
     (let caller = process_current s
      in Option.bind (cp p ev data s) (\<lambda>s1. Some (s1\<lparr>process_current := caller\<rparr>)))"

definition process_start :: "'g callf \<Rightarrow> ptr \<Rightarrow> ptr \<Rightarrow> 'g kernel \<Rightarrow> 'g kernel option" where
  "process_start cp p data s =
     Option.bind (find_loop (next_of s) p (process_list s)) (\<lambda>q.
       if q = p then Some s
       else
         let s1 = upd_proc p (nxt_update (\<lambda>_. process_list s)) s;
             s2 = s1\<lparr>process_list := p\<rparr>;
             s3 = upd_proc p (\<lambda>r. r\<lparr>state := PROCESS_STATE_RUNNING, pt := 0\<rparr>) s2
         in process_post_synch cp p PROCESS_EVENT_INIT data s3)"

definition process_exit :: "'g exitf \<Rightarrow> ptr \<Rightarrow> 'g kernel \<Rightarrow> 'g kernel option" where
  "process_exit ep p s = ep p (process_current s) s"

fun kernel_call :: "'g callf \<Rightarrow> 'g exitf \<Rightarrow> kcall \<Rightarrow> 'g kernel \<Rightarrow> (int \<times> 'g kernel) option" where
  "kernel_call cp ep (Post p ev d) s = Some (process_post p ev d s)"
| "kernel_call cp ep (Post_synch p ev d) s =
     Option.bind (process_post_synch cp p ev d s) (\<lambda>s1. Some (0, s1))"
| "kernel_call cp ep (Poll p) s = Some (0, process_poll p s)"
| "kernel_call cp ep (Start p d) s = Option.bind (process_start cp p d s) (\<lambda>s1. Some (0, s1))"
| "kernel_call cp ep (Exit p) s = Option.bind (process_exit ep p s) (\<lambda>s1. Some (0, s1))"
| "kernel_call cp ep Alloc_event s = (case process_alloc_event s of (e, s1) \<Rightarrow> Some (uint e, s1))"
| "kernel_call cp ep (Is_running p) s =
     (if p = NULL then None else Some (of_bool (process_is_running p s), s))"
| "kernel_call cp ep Nevents s = Some (process_nevents s, s)"

text \<open>The run of a thread of the process \<open>p\<close>; at its return it has stored its continuation.\<close>

primrec run_act ::
    "'g callf \<Rightarrow> 'g exitf \<Rightarrow> ptr \<Rightarrow> 'g act \<Rightarrow> 'g kernel \<Rightarrow> (pt_result \<times> 'g kernel) option" where
  "run_act cp ep p (Return r l) = (\<lambda>s. Some (r, upd_proc p (pt_update (\<lambda>_. l)) s))"
| "run_act cp ep p (Call c k) =
     (\<lambda>s. Option.bind (kernel_call cp ep c s) (\<lambda>(r, s1). run_act cp ep p (k r) s1))"
| "run_act cp ep p (Access f k) =
     (\<lambda>s. run_act cp ep p (k (f (mem s))) (s\<lparr>mem := f (mem s)\<rparr>))"

definition call_thread ::
    "'g threads \<Rightarrow> 'g callf \<Rightarrow> 'g exitf \<Rightarrow> ptr \<Rightarrow> event \<Rightarrow> ptr \<Rightarrow> 'g kernel
      \<Rightarrow> (pt_result \<times> 'g kernel) option" where
  "call_thread th cp ep p ev data s =
     run_act cp ep p (th (thread (procs s p)) (pt (procs s p)) ev data) s"

definition call_process_body ::
    "'g threads \<Rightarrow> 'g callf \<Rightarrow> 'g exitf \<Rightarrow> ptr \<Rightarrow> event \<Rightarrow> ptr \<Rightarrow> 'g kernel \<Rightarrow> 'g kernel option" where
  "call_process_body th cp ep p ev data s =
     (if p = NULL then None
      else if state_of s p AND PROCESS_STATE_RUNNING \<noteq> 0 \<and> thread (procs s p) \<noteq> NULL then
        let s1 = set_state p PROCESS_STATE_CALLED (s\<lparr>process_current := p\<rparr>)
        in Option.bind (call_thread th cp ep p ev data s1) (\<lambda>(ret, s2).
             if ret = PT_EXITED \<or> ret = PT_ENDED \<or> ev = PROCESS_EVENT_EXIT
             then ep p p s2
             else Some (set_state p PROCESS_STATE_RUNNING s2))
      else Some s)"

text \<open>The walk that tells every other process that \<open>p\<close> exits.\<close>

partial_function (option) exited_loop ::
    "'g callf \<Rightarrow> ptr \<Rightarrow> ptr \<Rightarrow> 'g kernel \<Rightarrow> 'g kernel option" where
  "exited_loop cp p q s =
     (if q = NULL then Some s
      else Option.bind (if p \<noteq> q then cp q PROCESS_EVENT_EXITED p s else Some s)
             (\<lambda>s1. exited_loop cp p (next_of s1 q) s1))"

definition exit_process_body ::
    "'g threads \<Rightarrow> 'g callf \<Rightarrow> 'g exitf \<Rightarrow> ptr \<Rightarrow> ptr \<Rightarrow> 'g kernel \<Rightarrow> 'g kernel option" where
  "exit_process_body th cp ep p fromprocess s =
     (let old_current = process_current s
      in Option.bind (find_loop (next_of s) p (process_list s)) (\<lambda>q.
           if q = NULL then Some s
           else
             Option.bind
               (if process_is_running p s then
                  let s1 = set_state p PROCESS_STATE_NONE s
                  in Option.bind (exited_loop cp p (process_list s1) s1) (\<lambda>s2.
                       if thread (procs s2 p) \<noteq> NULL \<and> p \<noteq> fromprocess then
                         Option.bind
                           (call_thread th cp ep p PROCESS_EVENT_EXIT NULL (s2\<lparr>process_current := p\<rparr>))
                           (\<lambda>(_, s3). Some s3)
                       else Some s2)
                else Some s)
               (\<lambda>s4. Option.bind (unlink p s4) (\<lambda>s5. Some (s5\<lparr>process_current := old_current\<rparr>)))))"

text \<open>
  The two functions, with the number of nested entries into the kernel as fuel. An exit
  inside \<open>call_process\<close> is not a nested entry.
\<close>

primrec kernel_fns :: "'g threads \<Rightarrow> nat \<Rightarrow> 'g callf \<times> 'g exitf" where
  "kernel_fns th 0 = ((\<lambda>p ev data s. None), (\<lambda>p fromprocess s. None))"
| "kernel_fns th (Suc n) =
     (let cp = fst (kernel_fns th n);
          ep = exit_process_body th cp (snd (kernel_fns th n))
      in (call_process_body th cp ep, ep))"

definition call_process :: "'g threads \<Rightarrow> nat \<Rightarrow> 'g callf" where
  "call_process th n = fst (kernel_fns th n)"

definition exit_process :: "'g threads \<Rightarrow> nat \<Rightarrow> 'g exitf" where
  "exit_process th n = snd (kernel_fns th n)"

lemma kernel_fns_simps:
  "call_process th 0 p ev data s = None"
  "exit_process th 0 p from s = None"
  "call_process th (Suc n) = call_process_body th (call_process th n) (exit_process th (Suc n))"
  "exit_process th (Suc n) = exit_process_body th (call_process th n) (exit_process th n)"
  by (simp_all add: call_process_def exit_process_def Let_def)

text \<open>The walk of \<open>do_poll\<close> over the processes.\<close>

partial_function (option) poll_loop :: "'g callf \<Rightarrow> ptr \<Rightarrow> 'g kernel \<Rightarrow> 'g kernel option" where
  "poll_loop cp p s =
     (if p = NULL then Some s
      else Option.bind
        (if needspoll (procs s p) then
           cp p PROCESS_EVENT_POLL NULL
             (upd_proc p (\<lambda>r. r\<lparr>state := PROCESS_STATE_RUNNING, needspoll := False\<rparr>) s)
         else Some s)
        (\<lambda>s1. poll_loop cp (next_of s1 p) s1))"

definition do_poll :: "'g callf \<Rightarrow> 'g kernel \<Rightarrow> 'g kernel option" where
  "do_poll cp s = poll_loop cp (process_list s) (s\<lparr>poll_requested := False\<rparr>)"

definition poll_if_requested :: "'g callf \<Rightarrow> 'g kernel \<Rightarrow> 'g kernel option" where
  "poll_if_requested cp s = (if poll_requested s then do_poll cp s else Some s)"

text \<open>The walk of \<open>do_event\<close> over the processes for a broadcast event.\<close>

partial_function (option) broadcast_loop ::
    "'g callf \<Rightarrow> ptr \<Rightarrow> event \<Rightarrow> ptr \<Rightarrow> 'g kernel \<Rightarrow> 'g kernel option" where
  "broadcast_loop cp p ev data s =
     (if p = NULL then Some s
      else Option.bind (poll_if_requested cp s) (\<lambda>s1.
           Option.bind (cp p ev data s1) (\<lambda>s2.
             broadcast_loop cp (next_of s2 p) ev data s2)))"

definition take_event :: "'g kernel \<Rightarrow> (event_data \<times> 'g kernel) option" where
  "take_event s =
     (if unat (nevents s) > 0 then
        Some (events s ! unat (fevent s),
              s\<lparr>fevent := of_nat ((unat (fevent s) + 1) mod PROCESS_CONF_NUMEVENTS),
                nevents := nevents s - 1\<rparr>)
      else None)"

definition do_event :: "'g callf \<Rightarrow> 'g kernel \<Rightarrow> 'g kernel option" where
  "do_event cp s =
     (case take_event s of
        None \<Rightarrow> Some s
      | Some (e, s1) \<Rightarrow>
          if ed_p e = PROCESS_BROADCAST
          then broadcast_loop cp (process_list s1) (ed_ev e) (ed_data e) s1
          else
            let s2 = (if ed_ev e = PROCESS_EVENT_INIT
                      then set_state (ed_p e) PROCESS_STATE_RUNNING s1 else s1)
            in cp (ed_p e) (ed_ev e) (ed_data e) s2)"

definition process_run :: "'g callf \<Rightarrow> 'g kernel \<Rightarrow> (int \<times> 'g kernel) option" where
  "process_run cp s =
     Option.bind (poll_if_requested cp s) (\<lambda>s1.
       Option.bind (do_event cp s1) (\<lambda>s2. Some (process_nevents s2, s2)))"

section \<open>The event queue\<close>

definition queue_invar :: "'g kernel \<Rightarrow> bool" where
  "queue_invar s \<longleftrightarrow> length (events s) = PROCESS_CONF_NUMEVENTS \<and>
     unat (nevents s) \<le> PROCESS_CONF_NUMEVENTS \<and> unat (fevent s) < PROCESS_CONF_NUMEVENTS"

definition event_queue :: "'g kernel \<Rightarrow> event_data list" where
  "event_queue s = ring_contents (events s) (unat (fevent s)) (unat (nevents s))"

definition post_event :: "event_data \<Rightarrow> 'g kernel \<Rightarrow> 'g kernel option" where
  "post_event e s =
     (case process_post (ed_p e) (ed_ev e) (ed_data e) s of
        (r, s1) \<Rightarrow> if r = PROCESS_ERR_OK then Some s1 else None)"

lemma unat_add_small: "unat (a::8 word) + unat b < 256 \<Longrightarrow> unat (a + b) = unat a + unat b"
  by (simp add: unat_word_ariths)

lemma process_post_full:
  "unat (nevents s) = PROCESS_CONF_NUMEVENTS \<Longrightarrow> process_post p ev d s = (PROCESS_ERR_FULL, s)"
  by (simp add: process_post_def)

lemma process_post_room:
  assumes "queue_invar s" and "unat (nevents s) \<noteq> PROCESS_CONF_NUMEVENTS"
  obtains s' where "process_post p ev d s = (PROCESS_ERR_OK, s')" "queue_invar s'"
    "event_queue s' = event_queue s @ [\<lparr>ed_ev = ev, ed_data = d, ed_p = p\<rparr>]"
    "procs s' = procs s" "process_list s' = process_list s"
proof -
  let ?n = "unat (nevents s)" and ?f = "unat (fevent s)"
  have b: "length (events s) = 32" "?n < 32" "?f < 32"
    using assms by (auto simp: queue_invar_def PROCESS_CONF_NUMEVENTS_def)
  have sum: "unat (fevent s + nevents s) = ?f + ?n" using b by (intro unat_add_small) simp
  have suc: "unat (nevents s + 1) = Suc ?n" using b by (subst unat_add_small) simp_all
  let ?s = "snd (process_post p ev d s)"
  have "process_post p ev d s = (PROCESS_ERR_OK, ?s)" "queue_invar ?s"
    "procs ?s = procs s" "process_list ?s = process_list s"
    using assms b by (auto simp: process_post_def queue_invar_def suc PROCESS_CONF_NUMEVENTS_def Let_def)
  moreover have "event_queue ?s = event_queue s @ [\<lparr>ed_ev = ev, ed_data = d, ed_p = p\<rparr>]"
    using assms(2) ring_contents_put [of ?n "events s" ?f "\<lparr>ed_ev = ev, ed_data = d, ed_p = p\<rparr>"] b
    by (simp add: process_post_def event_queue_def PROCESS_CONF_NUMEVENTS_def Let_def sum suc)
  ultimately show ?thesis using that by blast
qed

lemma take_event_first:
  assumes "queue_invar s" and "take_event s = Some (e, s')"
  shows "event_queue s = e # event_queue s' \<and> queue_invar s' \<and> procs s' = procs s \<and>
         process_list s' = process_list s \<and> poll_requested s' = poll_requested s"
proof -
  let ?n = "unat (nevents s)" and ?f = "unat (fevent s)"
  have b: "length (events s) = 32" "0 < ?n" "?n \<le> 32" "?f < 32"
    using assms by (auto simp: queue_invar_def take_event_def PROCESS_CONF_NUMEVENTS_def split: if_splits)
  have pred: "unat (nevents s - 1) = ?n - 1" using b(2) by (intro unat_minus_one) auto
  have idx: "unat (word_of_nat (Suc ?f mod 32) :: 8 word) = Suc ?f mod 32"
    by (simp add: unat_of_nat)
  obtain m where m: "?n = Suc m" using b(2) by (cases "?n") auto
  from assms(2) b have e: "e = events s ! ?f"
    "s' = s\<lparr>fevent := word_of_nat (Suc ?f mod 32), nevents := nevents s - 1\<rparr>"
    by (auto simp: take_event_def PROCESS_CONF_NUMEVENTS_def split: if_splits)
  then show ?thesis
    using ring_contents_get [of ?f "events s" m] b m
    by (simp add: event_queue_def queue_invar_def PROCESS_CONF_NUMEVENTS_def pred idx del: of_nat_Suc)
qed

lemma take_event_None: "take_event s = None \<longleftrightarrow> event_queue s = []"
  by (simp add: take_event_def event_queue_def ring_contents_def)

interpretation eq: bounded_fifo post_event take_event event_queue "\<lambda>_. PROCESS_CONF_NUMEVENTS" queue_invar
proof (unfold_locales, goal_cases)
  case (1 q)
  then show ?case by (simp add: event_queue_def queue_invar_def)
next
  case (2 q x)
  show ?case
  proof (cases "unat (nevents q) = PROCESS_CONF_NUMEVENTS")
    case False
    obtain q' where "process_post (ed_p x) (ed_ev x) (ed_data x) q = (PROCESS_ERR_OK, q')"
      by (rule process_post_room [OF 2 False])
    with False show ?thesis by (simp add: post_event_def event_queue_def)
  qed (simp add: post_event_def process_post_full event_queue_def)
next
  case (3 q x q')
  then have "unat (nevents q) \<noteq> PROCESS_CONF_NUMEVENTS"
    by (auto simp: post_event_def process_post_full)
  then obtain s' where "process_post (ed_p x) (ed_ev x) (ed_data x) q = (PROCESS_ERR_OK, s')"
    "queue_invar s'" "event_queue s' = event_queue q @ [x]"
    by (rule process_post_room [OF 3(1), where p = "ed_p x" and ev = "ed_ev x" and d = "ed_data x"]) auto
  with 3(2) show ?case by (simp add: post_event_def)
next
  case (4 q)
  show ?case by (rule take_event_None)
next
  case (5 q x q')
  then show ?case using take_event_first by auto
qed

section \<open>Walks over the process list\<close>

lemma find_loop_result: "find_loop nx p q = Some r \<Longrightarrow> r = p \<or> r = NULL"
  by (erule find_loop.raw_induct [of "\<lambda>nx p q r. r = p \<or> r = NULL", rotated]) (auto split: if_splits)

lemma find_loop_chain:
  "chain nx q xs \<Longrightarrow> find_loop nx p q = Some (if p \<in> set xs then p else NULL)"
  by (induction xs arbitrary: q) (auto simp: find_loop.simps)

section \<open>What every kernel operation keeps, whatever the threads do\<close>

text \<open>
  A reflexive and transitive relation that holds for every elementary change of the kernel's
  state holds for every operation, for all threads and any nesting.
\<close>

locale kernel_relation =
  fixes R :: "'g kernel \<Rightarrow> 'g kernel \<Rightarrow> bool"
  assumes refl: "R s s"
    and trans: "R s s1 \<Longrightarrow> R s1 s2 \<Longrightarrow> R s s2"
    and current: "R s (s\<lparr>process_current := c\<rparr>)"
    and memory: "R s (s\<lparr>mem := g\<rparr>)"
    and continuation: "R s (upd_proc p (pt_update f) s)"
    and set_state: "R s (set_state p v s)"
    and post: "R s (snd (process_post p ev d s))"
    and poll: "R s (process_poll p s)"
    and alloc_event: "R s (snd (process_alloc_event s))"
    and unlink: "p \<noteq> NULL \<Longrightarrow> unlink p s = Some s' \<Longrightarrow> R s s'"
    and polled: "R s (upd_proc p (\<lambda>r. r\<lparr>state := v, needspoll := False\<rparr>) s)"
    and poll_flag: "R s (s\<lparr>poll_requested := b\<rparr>)"
    and link: "find_loop (next_of s) p (process_list s) = Some q \<Longrightarrow> q \<noteq> p \<Longrightarrow>
          R s ((upd_proc p (nxt_update (\<lambda>_. process_list s)) s)\<lparr>process_list := p\<rparr>)"
begin

definition calls_ok :: "'g callf \<Rightarrow> bool" where
  "calls_ok cp \<longleftrightarrow> (\<forall>p ev d s s'. cp p ev d s = Some s' \<longrightarrow> R s s')"

definition exits_ok :: "'g exitf \<Rightarrow> bool" where
  "exits_ok ep \<longleftrightarrow> (\<forall>p f s s'. ep p f s = Some s' \<longrightarrow> R s s')"

lemma post_synch_R:
  "calls_ok cp \<Longrightarrow> process_post_synch cp p ev d s = Some s' \<Longrightarrow> R s s'"
  by (auto simp: calls_ok_def process_post_synch_def Let_def bind_eq_Some_conv intro!: trans [OF _ current])

lemma started_R: "R s (upd_proc p (\<lambda>r. r\<lparr>state := v, pt := 0\<rparr>) s)"
proof -
  have "upd_proc p (\<lambda>r. r\<lparr>state := v, pt := 0\<rparr>) s = upd_proc p (pt_update (\<lambda>_. 0)) (set_state p v s)"
    by (simp add: upd_proc_def set_state_def)
  then show ?thesis using trans [OF set_state continuation] by simp
qed

lemma start_R:
  assumes "calls_ok cp" and "process_start cp p d s = Some s'"
  shows "R s s'"
proof -
  from assms(2) obtain q where q: "find_loop (next_of s) p (process_list s) = Some q"
    by (auto simp: process_start_def bind_eq_Some_conv)
  show ?thesis
  proof (cases "q = p")
    case True
    then show ?thesis using assms(2) q by (simp add: process_start_def refl)
  next
    case False
    from assms(2) q False show ?thesis
      by (auto simp: process_start_def Let_def
          intro!: trans [OF trans [OF link [OF q False] started_R] post_synch_R [OF assms(1)]])
  qed
qed

lemma kernel_call_R:
  assumes "calls_ok cp" "exits_ok ep"
  shows "kernel_call cp ep c s = Some (r, s') \<Longrightarrow> R s s'"
  using assms post [of s] alloc_event [of s]
  by (cases c) (auto simp: bind_eq_Some_conv exits_ok_def process_exit_def poll refl
      intro: post_synch_R start_R split: if_splits prod.splits, (metis snd_conv)+)

lemma run_act_R:
  assumes "calls_ok cp" "exits_ok ep"
  shows "run_act cp ep p a s = Some (r, s') \<Longrightarrow> R s s'"
proof (induction a arbitrary: s)
  case (Call c k)
  then obtain v s1 where "kernel_call cp ep c s = Some (v, s1)" "run_act cp ep p (k v) s1 = Some (r, s')"
    by (auto simp: bind_eq_Some_conv)
  with Call.IH show ?case by (blast intro: trans kernel_call_R [OF assms])
next
  case (Access f k)
  from Access.IH [OF rangeI Access.prems [unfolded run_act.simps]] show ?case by (rule trans [OF memory])
qed (auto simp: continuation)

lemma call_process_body_R:
  assumes "calls_ok cp" "exits_ok ep"
  shows "calls_ok (call_process_body th cp ep)"
  unfolding calls_ok_def
proof (intro allI impI)
  fix p ev d s s'
  assume call: "call_process_body th cp ep p ev d s = Some s'"
  let ?s1 = "set_state p 2 (s\<lparr>process_current := p\<rparr>)"
  have s1: "R s ?s1" by (blast intro: trans current set_state)
  show "R s s'"
  proof (cases "state_of s p AND 1 \<noteq> 0 \<and> thread (procs s p) \<noteq> NULL")
    case False
    with call show ?thesis by (auto simp: call_process_body_def refl split: if_splits)
  next
    case True
    with call obtain ret s2 where t: "call_thread th cp ep p ev d ?s1 = Some (ret, s2)"
      and r: "s' = set_state p 1 s2 \<or> ep p p s2 = Some s'"
      by (auto simp: call_process_body_def Let_def bind_eq_Some_conv split: if_splits)
    have "R ?s1 s2" using t unfolding call_thread_def by (rule run_act_R [OF assms])
    moreover have "R s2 s'" using r assms(2) by (auto simp: exits_ok_def set_state)
    ultimately show ?thesis using s1 by (blast intro: trans)
  qed
qed

lemma exited_loop_R:
  assumes ok: "calls_ok cp" and loop: "exited_loop cp p q s = Some s'"
  shows "R s s'"
proof -
  have "calls_ok cp \<longrightarrow> R s s'"
  proof (rule exited_loop.raw_induct [of "\<lambda>cp p q s s'. calls_ok cp \<longrightarrow> R s s'", OF _ loop], intro impI)
    fix f :: "'g callf \<Rightarrow> ptr \<Rightarrow> ptr \<Rightarrow> 'g kernel \<Rightarrow> 'g kernel option" and cp p q s s'
    assume IH: "\<And>cp p q s s'. f cp p q s = Some s' \<Longrightarrow> calls_ok cp \<longrightarrow> R s s'"
      and step: "(if q = NULL then Some s
        else Option.bind (if p \<noteq> q then cp q 135 p s else Some s) (\<lambda>s1. f cp p (next_of s1 q) s1)) = Some s'"
      and ok: "calls_ok cp"
    show "R s s'"
    proof (cases "q = NULL")
      case False
      with step obtain s1 where "(if p \<noteq> q then cp q 135 p s else Some s) = Some s1"
        and rest: "f cp p (next_of s1 q) s1 = Some s'" by (auto simp: bind_eq_Some_conv)
      then have "R s s1" using ok by (auto simp: calls_ok_def refl split: if_splits)
      with IH [OF rest] ok show ?thesis by (blast intro: trans)
    qed (use step in \<open>simp add: refl\<close>)
  qed
  with ok show ?thesis by simp
qed

lemma exit_process_body_R:
  assumes "calls_ok cp" "exits_ok ep"
  shows "exits_ok (exit_process_body th cp ep)"
  unfolding exits_ok_def
proof (intro allI impI)
  fix p f s s'
  assume ex: "exit_process_body th cp ep p f s = Some s'"
  then obtain q where q: "find_loop (next_of s) p (process_list s) = Some q"
    by (auto simp: exit_process_body_def Let_def bind_eq_Some_conv)
  show "R s s'"
  proof (cases "q = NULL")
    case True
    then show ?thesis using ex q by (simp add: exit_process_body_def refl)
  next
    case False
    with find_loop_result [OF q] have "p \<noteq> NULL" by auto
    let ?s1 = "set_state p 0 s"
    obtain s4 s5 where s4: "s4 = s \<or> (\<exists>s2. exited_loop cp p (process_list ?s1) ?s1 = Some s2 \<and>
          (s4 = s2 \<or> (\<exists>r. call_thread th cp ep p 131 NULL (s2\<lparr>process_current := p\<rparr>) = Some (r, s4))))"
      and s5: "unlink p s4 = Some s5" "s' = s5\<lparr>process_current := process_current s\<rparr>"
      using ex q False
      by (auto simp: exit_process_body_def Let_def bind_eq_Some_conv split: if_splits)
    from s4 have "R s s4"
    proof (elim disjE exE conjE)
      fix s2 assume l: "exited_loop cp p (process_list ?s1) ?s1 = Some s2"
      note s2 = trans [OF set_state exited_loop_R [OF assms(1) l]]
      show "R s s4" if "s4 = s2" using s2 that by simp
      show "R s s4" if "call_thread th cp ep p 131 NULL (s2\<lparr>process_current := p\<rparr>) = Some (r, s4)" for r
        using that unfolding call_thread_def by (intro trans [OF trans [OF s2 current]] run_act_R [OF assms])
    qed (simp add: refl)
    from trans [OF trans [OF this unlink [OF \<open>p \<noteq> NULL\<close> s5(1)]] current]
    show ?thesis by (simp add: s5(2))
  qed
qed

lemma kernel_fns_R: "calls_ok (call_process th n) \<and> exits_ok (exit_process th n)"
proof (induction n)
  case 0
  show ?case by (simp add: calls_ok_def exits_ok_def kernel_fns_simps)
next
  case (Suc n)
  then show ?case by (simp add: kernel_fns_simps call_process_body_R exit_process_body_R)
qed

lemmas call_process_R = kernel_fns_R [THEN conjunct1]
lemmas exit_process_R = kernel_fns_R [THEN conjunct2]

lemma poll_loop_R:
  assumes ok: "calls_ok cp" and loop: "poll_loop cp p s = Some s'"
  shows "R s s'"
proof -
  have "calls_ok cp \<longrightarrow> R s s'"
  proof (rule poll_loop.raw_induct [of "\<lambda>cp p s s'. calls_ok cp \<longrightarrow> R s s'", OF _ loop], intro impI)
    fix f :: "'g callf \<Rightarrow> ptr \<Rightarrow> 'g kernel \<Rightarrow> 'g kernel option" and cp p and s s' :: "'g kernel"
    let ?u = "upd_proc p (\<lambda>r. r\<lparr>state := 1, needspoll := False\<rparr>) s"
    assume IH: "\<And>cp p s s'. f cp p s = Some s' \<Longrightarrow> calls_ok cp \<longrightarrow> R s s'"
      and step: "(if p = NULL then Some s
        else Option.bind (if needspoll (procs s p) then cp p 130 NULL ?u else Some s)
          (\<lambda>s1. f cp (next_of s1 p) s1)) = Some s'"
      and ok: "calls_ok cp"
    show "R s s'"
    proof (cases "p = NULL")
      case False
      with step obtain s1 where s1: "(if needspoll (procs s p) then cp p 130 NULL ?u else Some s) = Some s1"
        and rest: "f cp (next_of s1 p) s1 = Some s'" by (auto simp: bind_eq_Some_conv)
      have "R s s1"
      proof (cases "needspoll (procs s p)")
        case True
        with s1 ok have "R ?u s1" by (auto simp: calls_ok_def)
        then show ?thesis by (rule trans [OF polled])
      qed (use s1 refl in simp)
      with IH [OF rest] ok show ?thesis by (blast intro: trans)
    qed (use step in \<open>simp add: refl\<close>)
  qed
  with ok show ?thesis by simp
qed

lemma poll_if_requested_R:
  "calls_ok cp \<Longrightarrow> poll_if_requested cp s = Some s' \<Longrightarrow> R s s'"
  by (auto simp: poll_if_requested_def do_poll_def refl split: if_splits
      intro: trans [OF poll_flag poll_loop_R])

lemma broadcast_loop_R:
  assumes ok: "calls_ok cp" and loop: "broadcast_loop cp p ev d s = Some s'"
  shows "R s s'"
proof -
  have "calls_ok cp \<longrightarrow> R s s'"
  proof (rule broadcast_loop.raw_induct [of "\<lambda>cp p ev d s s'. calls_ok cp \<longrightarrow> R s s'", OF _ loop], intro impI)
    fix f :: "'g callf \<Rightarrow> ptr \<Rightarrow> event \<Rightarrow> ptr \<Rightarrow> 'g kernel \<Rightarrow> 'g kernel option" and cp p ev d s s'
    assume IH: "\<And>cp p ev d s s'. f cp p ev d s = Some s' \<Longrightarrow> calls_ok cp \<longrightarrow> R s s'"
      and step: "(if p = NULL then Some s
        else Option.bind (poll_if_requested cp s) (\<lambda>s1. Option.bind (cp p ev d s1)
          (\<lambda>s2. f cp (next_of s2 p) ev d s2))) = Some s'"
      and ok: "calls_ok cp"
    show "R s s'"
    proof (cases "p = NULL")
      case False
      with step obtain s1 s2 where s1: "poll_if_requested cp s = Some s1" and s2: "cp p ev d s1 = Some s2"
        and rest: "f cp (next_of s2 p) ev d s2 = Some s'" by (auto simp: bind_eq_Some_conv)
      have "R s1 s2" using s2 ok by (auto simp: calls_ok_def)
      then have "R s s2" by (rule trans [OF poll_if_requested_R [OF ok s1]])
      then show ?thesis using IH [OF rest] ok by (blast intro: trans)
    qed (use step in \<open>simp add: refl\<close>)
  qed
  with ok show ?thesis by simp
qed

end

subsection \<open>The list stays a list and the queue only grows\<close>

definition list_invar :: "'g kernel \<Rightarrow> bool" where
  "list_invar s \<longleftrightarrow> (\<exists>ps. chain (next_of s) (process_list s) ps)"

definition queue_grows :: "'g kernel \<Rightarrow> 'g kernel \<Rightarrow> bool" where
  "queue_grows s s' \<longleftrightarrow> (list_invar s \<and> queue_invar s \<longrightarrow>
     list_invar s' \<and> queue_invar s' \<and> (\<exists>new. event_queue s' = event_queue s @ new))"

lemma next_of_upd_proc:
  "nxt (procs (upd_proc p f s) q) = (if q = p then nxt (f (procs s p)) else nxt (procs s q))"
  by (simp add: upd_proc_def)

lemma upd_proc_sel [simp]:
  "process_list (upd_proc p f s) = process_list s" "process_current (upd_proc p f s) = process_current s"
  "nevents (upd_proc p f s) = nevents s" "fevent (upd_proc p f s) = fevent s"
  "events (upd_proc p f s) = events s" "poll_requested (upd_proc p f s) = poll_requested s"
  "mem (upd_proc p f s) = mem s" "procs (upd_proc p f s) = (procs s)(p := f (procs s p))"
  by (simp_all add: upd_proc_def)

lemma upd_next_fun: "(\<lambda>q. nxt (procs (upd_proc p (nxt_update (\<lambda>_. v)) s) q)) = (next_of s)(p := v)"
  by auto

lemma queue_growsI:
  assumes "next_of s' = next_of s" "process_list s' = process_list s" "events s' = events s"
    "nevents s' = nevents s" "fevent s' = fevent s"
  shows "queue_grows s s'"
  using assms by (simp add: queue_grows_def list_invar_def queue_invar_def event_queue_def)

lemma chain_skip:
  assumes "chain nx p (as @ u # x # bs)"
  shows "chain (nx(u := nx x)) p (as @ u # bs)"
proof -
  from chain_distinct [OF assms] have d: "distinct (as @ u # x # bs)" .
  from assms have "path nx p as u" "u \<noteq> NULL" "chain nx (nx x) bs"
    by (auto simp: chain_append)
  with d show ?thesis by (auto simp: chain_append)
qed

lemma unlink_loop_chain:
  assumes "chain (next_of s) q xs" "p \<noteq> NULL"
  shows "unlink_loop p q s = Some s \<and> p \<notin> set (tl xs) \<or>
    (\<exists>as u bs. xs = as @ u # p # bs \<and> unlink_loop p q s = Some (upd_proc u (nxt_update (\<lambda>_. next_of s p)) s))"
  using assms(1)
proof (induction xs arbitrary: q)
  case Nil
  then show ?case by (simp add: unlink_loop.simps)
next
  case (Cons x xs)
  show ?case
  proof (cases "next_of s x = p")
    case True
    with Cons.prems assms(2) obtain bs where "xs = p # bs" by (auto simp: chain_nonnull)
    then have "x # xs = [] @ x # p # bs" by simp
    moreover have "unlink_loop p q s = Some (upd_proc x (nxt_update (\<lambda>_. next_of s p)) s)"
      using Cons.prems True by (subst unlink_loop.simps) auto
    ultimately show ?thesis by blast
  next
    case False
    have q: "q = x" "x \<noteq> NULL" "chain (next_of s) (next_of s x) xs" using Cons.prems by auto
    have "hd xs \<noteq> p" if "xs \<noteq> []" using False q(3) that by (cases xs) auto
    then have hd: "p \<notin> set xs" if "p \<notin> set (tl xs)" using that by (cases xs) auto
    have step: "unlink_loop p q s = unlink_loop p (next_of s x) s"
      using False q by (subst unlink_loop.simps) simp
    from Cons.IH [OF q(3)] show ?thesis
    proof (elim disjE exE conjE)
      assume "unlink_loop p (next_of s x) s = Some s" "p \<notin> set (tl xs)"
      with step hd show ?thesis by simp
    next
      fix as u bs
      assume "xs = as @ u # p # bs"
        "unlink_loop p (next_of s x) s = Some (upd_proc u (nxt_update (\<lambda>_. next_of s p)) s)"
      with step show ?thesis by (intro disjI2 exI [of _ "x # as"]) auto
    qed
  qed
qed

lemma unlink_cases:
  assumes "chain (next_of s) (process_list s) ps" "p \<noteq> NULL"
  obtains (absent) "p \<notin> set ps" "unlink p s = Some s"
  | (first) bs where "ps = p # bs" "unlink p s = Some (s\<lparr>process_list := next_of s p\<rparr>)"
  | (inner) as u bs where "ps = as @ u # p # bs" "u \<noteq> p"
      "unlink p s = Some (upd_proc u (nxt_update (\<lambda>_. next_of s p)) s)"
proof (cases "p = process_list s")
  case True
  with assms have "ps = p # tl ps" by (cases ps) auto
  with True show ?thesis by (auto simp: unlink_def intro: first)
next
  case False
  then have u: "unlink p s = unlink_loop p (process_list s) s" by (simp add: unlink_def)
  from False assms have hd: "p \<notin> set ps" if "p \<notin> set (tl ps)" using that by (cases ps) auto
  from unlink_loop_chain [OF assms] show ?thesis
  proof (elim disjE exE conjE)
    fix as v bs
    assume "ps = as @ v # p # bs"
      "unlink_loop p (process_list s) s = Some (upd_proc v (nxt_update (\<lambda>_. next_of s p)) s)"
    with u chain_distinct [OF assms(1)] show ?thesis by (intro inner) auto
  qed (use u hd absent in auto)
qed

lemma unlink_chain:
  assumes c: "chain (next_of s) (process_list s) ps" "p \<noteq> NULL" and u: "unlink p s = Some s'"
  shows "chain (next_of s') (process_list s') (removeAll p ps)"
  using c
proof (cases rule: unlink_cases)
  case (first bs)
  with c u chain_distinct [OF c(1)] show ?thesis by auto
next
  case (inner as v bs)
  with u have s': "s' = upd_proc v (nxt_update (\<lambda>_. next_of s p)) s" by simp
  from c(1) inner(1) have "chain (next_of s) (process_list s) (as @ v # p # bs)" by simp
  from chain_skip [OF this] chain_distinct [OF this] show ?thesis
    by (simp add: s' upd_next_fun inner(1) del: upd_proc_sel(8))
qed (use u c in simp)

lemma unlink_frame:
  assumes "chain (next_of s) (process_list s) ps" "p \<noteq> NULL" "unlink p s = Some s'"
  shows "nevents s' = nevents s \<and> fevent s' = fevent s \<and> events s' = events s \<and>
    poll_requested s' = poll_requested s \<and> state (procs s' q) = state (procs s q) \<and>
    thread (procs s' q) = thread (procs s q) \<and> nxt (procs s' p) = nxt (procs s p)"
  using assms(1,2) by (cases rule: unlink_cases) (use assms(3) in auto)

lemma process_post_grows: "queue_grows s (snd (process_post p ev d s))"
proof (cases "queue_invar s \<and> unat (nevents s) \<noteq> PROCESS_CONF_NUMEVENTS")
  case True
  then obtain s' where "process_post p ev d s = (PROCESS_ERR_OK, s')" "queue_invar s'"
    "event_queue s' = event_queue s @ [\<lparr>ed_ev = ev, ed_data = d, ed_p = p\<rparr>]"
    "procs s' = procs s" "process_list s' = process_list s" using process_post_room by metis
  then show ?thesis by (simp add: queue_grows_def list_invar_def)
qed (auto simp: queue_grows_def process_post_full)

interpretation kr: kernel_relation "queue_grows :: 'g kernel \<Rightarrow> 'g kernel \<Rightarrow> bool"
proof (unfold_locales, goal_cases)
  case (2 s s1 s2)
  then show ?case by (auto simp: queue_grows_def)
next
  case (7 s p ev d)
  show ?case by (rule process_post_grows)
next
  case (10 p s s')
  show ?case
  proof (cases "list_invar s")
    case True
    then obtain ps where c: "chain (next_of s) (process_list s) ps" by (auto simp: list_invar_def)
    have "list_invar s'" using unlink_chain [OF c 10] by (auto simp: list_invar_def)
    with unlink_frame [OF c 10] show ?thesis
      by (simp add: queue_grows_def queue_invar_def event_queue_def)
  qed (simp add: queue_grows_def)
next
  case (13 s p q)
  show ?case
  proof (cases "list_invar s")
    case True
    then obtain ps where c: "chain (next_of s) (process_list s) ps" by (auto simp: list_invar_def)
    with 13 have p: "p \<notin> set ps" "p \<noteq> NULL" by (auto simp: find_loop_chain split: if_splits)
    let ?s = "(upd_proc p (nxt_update (\<lambda>_. process_list s)) s)\<lparr>process_list := p\<rparr>"
    have "next_of ?s = (next_of s)(p := process_list s)" by auto
    with p c have "chain (next_of ?s) (process_list ?s) (p # ps)" by simp
    then have "list_invar ?s" unfolding list_invar_def by blast
    then show ?thesis by (simp add: queue_grows_def queue_invar_def event_queue_def)
  qed (simp add: queue_grows_def)
qed (auto intro!: queue_growsI simp: set_state_def process_poll_def process_alloc_event_def)

lemma queue_growsD:
  assumes "queue_grows s s'" "list_invar s" "queue_invar s"
  obtains new where "list_invar s'" "queue_invar s'" "event_queue s' = event_queue s @ new"
  using assms unfolding queue_grows_def by blast

lemma list_invar_cong: "procs s' = procs s \<Longrightarrow> process_list s' = process_list s \<Longrightarrow> list_invar s' = list_invar s"
  by (simp add: list_invar_def)

lemma do_event_queue:
  assumes cp: "kr.calls_ok cp" and inv: "list_invar s" "queue_invar s" and ev: "do_event cp s = Some s'"
  shows "list_invar s' \<and> queue_invar s' \<and> (\<exists>new. event_queue s' = tl (event_queue s @ new))"
proof (cases "take_event s")
  case None
  with ev inv show ?thesis by (auto simp: do_event_def intro!: exI [of _ "[]"] dest: take_event_None [THEN iffD1])
next
  case (Some es)
  then obtain e s1 where t: "take_event s = Some (e, s1)" by (cases es) auto
  note first = take_event_first [OF inv(2) t]
  have s1: "list_invar s1" "queue_invar s1" using first inv(1) by (auto simp: list_invar_def)
  have "queue_grows s1 s'"
  proof (cases "ed_p e = NULL")
    case True
    with ev t show ?thesis by (simp add: do_event_def kr.broadcast_loop_R [OF cp])
  next
    case False
    let ?s2 = "if ed_ev e = 129 then set_state (ed_p e) 1 s1 else s1"
    have "queue_grows s1 ?s2" by (simp add: kr.set_state kr.refl)
    moreover have "queue_grows ?s2 s'" using ev t False cp by (simp add: do_event_def kr.calls_ok_def Let_def)
    ultimately show ?thesis by (rule kr.trans)
  qed
  then obtain new where "list_invar s'" "queue_invar s'" "event_queue s' = event_queue s1 @ new"
    by (rule queue_growsD [OF _ s1])
  with first show ?thesis by auto
qed

lemma process_run_queue:
  assumes cp: "kr.calls_ok cp" and inv: "list_invar s" "queue_invar s" and run: "process_run cp s = Some (r, s')"
  shows "list_invar s' \<and> queue_invar s' \<and> (\<exists>new. event_queue s' = tl (event_queue s @ new)) \<and>
    r = int (length (event_queue s')) + of_bool (poll_requested s')"
proof -
  from run obtain s1 where s1: "poll_if_requested cp s = Some s1" "do_event cp s1 = Some s'"
    "r = process_nevents s'" by (auto simp: process_run_def bind_eq_Some_conv)
  obtain n1 where n1: "list_invar s1" "queue_invar s1" "event_queue s1 = event_queue s @ n1"
    by (rule queue_growsD [OF kr.poll_if_requested_R [OF cp s1(1)] inv])
  from do_event_queue [OF cp n1(1,2) s1(2)] n1(3)
  have "list_invar s' \<and> queue_invar s' \<and> (\<exists>new. event_queue s' = tl (event_queue s @ new))" by auto
  then show ?thesis by (simp add: s1(3) process_nevents_def event_queue_def)
qed

end
