(* ===== verification/Contiki_Process_Run.thy ===== *)
theory Contiki_Process_Run
  imports Contiki_Process "HOL-Library.Sublist"
begin

text \<open>
  Runs of the process kernel for threads that make asynchronous calls and synchronous posts,
  and that exit by returning (\<open>plain\<close>): the kernel functions return, a nesting depth above
  the number of processes is enough, and events reach the processes in the order of the list.
\<close>

section \<open>Plain threads\<close>

fun plain_call :: "kcall \<Rightarrow> bool" where
  "plain_call (Post p ev d) \<longleftrightarrow> ev \<noteq> PROCESS_EVENT_INIT"
| "plain_call (Post_synch p ev d) \<longleftrightarrow> p \<noteq> NULL"
| "plain_call (Is_running p) \<longleftrightarrow> p \<noteq> NULL"
| "plain_call (Start p d) \<longleftrightarrow> False"
| "plain_call (Exit p) \<longleftrightarrow> False"
| "plain_call c \<longleftrightarrow> True"

primrec plain :: "'g act \<Rightarrow> bool" where
  "plain (Return r l) \<longleftrightarrow> True"
| "plain (Call c k) \<longleftrightarrow> plain_call c \<and> (\<forall>r. plain (k r))"
| "plain (Access f k) \<longleftrightarrow> (\<forall>g. plain (k g))"

definition threads_plain :: "'g threads \<Rightarrow> bool" where
  "threads_plain th \<longleftrightarrow> (\<forall>t l ev d. plain (th t l ev d))"

section \<open>How the kernel state evolves\<close>

lemma subseq_distinct: "subseq xs ys \<Longrightarrow> distinct ys \<Longrightarrow> distinct xs"
proof (induction xs ys rule: list_emb.induct)
  case (list_emb_Cons2 x y xs ys)
  then show ?case by (auto dest: list_emb_set)
qed auto

definition procs_ok :: "'g kernel \<Rightarrow> ptr list \<Rightarrow> bool" where
  "procs_ok s ps \<longleftrightarrow> chain (next_of s) (process_list s) ps \<and>
     (\<forall>p. state_of s p = 0 \<or> p \<in> set ps \<and> (state_of s p = 1 \<or> state_of s p = 2))"

definition no_init :: "'g kernel \<Rightarrow> bool" where
  "no_init s \<longleftrightarrow> (\<forall>e \<in> set (event_queue s). ed_ev e \<noteq> PROCESS_EVENT_INIT)"

text \<open>What remains of a list of processes when those that exited since \<open>s\<close> are left out.\<close>

definition left_of :: "'g kernel \<Rightarrow> 'g kernel \<Rightarrow> ptr list \<Rightarrow> ptr list" where
  "left_of s s' = filter (\<lambda>x. state_of s x = 0 \<or> state_of s' x \<noteq> 0)"

text \<open>
  States change only from running to none; the list loses exactly the processes that did so;
  following \<open>next\<close> from any structure, listed or not, misses only exited processes.
\<close>

definition evolves :: "'g kernel \<Rightarrow> 'g kernel \<Rightarrow> bool" where
  "evolves s s' \<longleftrightarrow>
     (\<forall>x. state_of s' x = state_of s x \<or> state_of s x = 1 \<and> state_of s' x = 0) \<and>
     (\<forall>ps. procs_ok s ps \<longrightarrow> procs_ok s' (left_of s s' ps)) \<and>
     (\<forall>x cs. chain (next_of s) (next_of s x) cs \<longrightarrow>
        (\<exists>cs'. chain (next_of s') (next_of s' x) cs' \<and> subseq cs' cs \<and>
               (\<forall>y \<in> set cs - set cs'. state_of s' y = 0))) \<and>
     (queue_invar s \<and> no_init s \<longrightarrow> queue_invar s' \<and> no_init s')"

lemma evolves_state:
  "evolves s s' \<Longrightarrow> state_of s' x = state_of s x \<or> state_of s x = 1 \<and> state_of s' x = 0"
  by (simp add: evolves_def)

lemma evolves_dead: "evolves s s' \<Longrightarrow> state_of s x = 0 \<Longrightarrow> state_of s' x = 0"
  using evolves_state [of s s' x] by auto

lemma evolves_procs: "evolves s s' \<Longrightarrow> procs_ok s ps \<Longrightarrow> procs_ok s' (left_of s s' ps)"
  by (simp add: evolves_def)

lemma evolves_walk:
  assumes "evolves s s'" "chain (next_of s) (next_of s x) cs"
  obtains cs' where "chain (next_of s') (next_of s' x) cs'" "subseq cs' cs"
    "\<forall>y \<in> set cs - set cs'. state_of s' y = 0"
  using assms unfolding evolves_def by blast

lemma left_of_trans:
  assumes "evolves s s1" "evolves s1 s2"
  shows "left_of s1 s2 (left_of s s1 ps) = left_of s s2 ps"
proof -
  have "(state_of s x = 0 \<or> state_of s1 x \<noteq> 0) \<and> (state_of s1 x = 0 \<or> state_of s2 x \<noteq> 0) \<longleftrightarrow>
      state_of s x = 0 \<or> state_of s2 x \<noteq> 0" for x
    using evolves_state [OF assms(1), of x] evolves_state [OF assms(2), of x] by auto
  then show ?thesis by (simp add: left_of_def conj_commute)
qed

lemma evolves_trans:
  assumes "evolves s s1" "evolves s1 s2"
  shows "evolves s s2"
  unfolding evolves_def
proof (intro conjI allI impI)
  show "state_of s2 x = state_of s x \<or> state_of s x = 1 \<and> state_of s2 x = 0" for x
    using evolves_state [OF assms(1), of x] evolves_state [OF assms(2), of x] by auto
  show "procs_ok s2 (left_of s s2 ps)" if "procs_ok s ps" for ps
    using evolves_procs [OF assms(2) evolves_procs [OF assms(1) that]] left_of_trans [OF assms] by simp
  show "\<exists>cs'. chain (next_of s2) (next_of s2 x) cs' \<and> subseq cs' cs \<and>
      (\<forall>y \<in> set cs - set cs'. state_of s2 y = 0)"
    if c: "chain (next_of s) (next_of s x) cs" for x cs
  proof -
    obtain c1 where c1: "chain (next_of s1) (next_of s1 x) c1" "subseq c1 cs"
      "\<forall>y \<in> set cs - set c1. state_of s1 y = 0" by (rule evolves_walk [OF assms(1) c])
    obtain c2 where c2: "chain (next_of s2) (next_of s2 x) c2" "subseq c2 c1"
      "\<forall>y \<in> set c1 - set c2. state_of s2 y = 0" by (rule evolves_walk [OF assms(2) c1(1)])
    have "\<forall>y \<in> set cs - set c2. state_of s2 y = 0"
      using c1(3) c2(3) evolves_dead [OF assms(2)] by blast
    with c2 c1(2) show ?thesis by (blast intro: subseq_order.trans)
  qed
qed (use assms in \<open>simp_all add: evolves_def\<close>)

lemma same_queue: "events s' = events s \<Longrightarrow> nevents s' = nevents s \<Longrightarrow> fevent s' = fevent s \<Longrightarrow>
    queue_invar s' = queue_invar s \<and> no_init s' = no_init s"
  by (simp add: queue_invar_def no_init_def event_queue_def)

lemma evolvesI:
  assumes nx: "\<And>q. nxt (procs s' q) = nxt (procs s q)"
    and st: "\<And>q. state (procs s' q) = state (procs s q)"
    and hd: "process_list s' = process_list s"
    and q: "queue_invar s \<and> no_init s \<longrightarrow> queue_invar s' \<and> no_init s'"
  shows "evolves s s'"
  unfolding evolves_def
proof (intro conjI allI impI)
  have left: "left_of s s' ps = ps" for ps by (simp add: left_of_def st)
  show "procs_ok s' (left_of s s' ps)" if "procs_ok s ps" for ps
    using that by (simp add: left procs_ok_def st nx hd)
  show "\<exists>cs'. chain (next_of s') (next_of s' x) cs' \<and> subseq cs' cs \<and>
      (\<forall>y \<in> set cs - set cs'. state_of s' y = 0)" if "chain (next_of s) (next_of s x) cs" for x cs
    using that by (intro exI [of _ cs]) (simp add: nx)
qed (use q st in auto)

lemma evolves_same_procs:
  assumes "\<And>q. nxt (procs s' q) = nxt (procs s q)" "\<And>q. state (procs s' q) = state (procs s q)"
    "process_list s' = process_list s"
    "events s' = events s" "nevents s' = nevents s" "fevent s' = fevent s"
  shows "evolves s s'"
  by (rule evolvesI) (use assms same_queue [OF assms(4-6)] in auto)

lemma evolves_refl: "evolves s s"
  by (rule evolves_same_procs) auto

lemma process_post_evolves:
  assumes "ev \<noteq> PROCESS_EVENT_INIT"
  shows "evolves s (snd (process_post p ev d s))"
proof (rule evolvesI)
  show "queue_invar s \<and> no_init s \<longrightarrow>
      queue_invar (snd (process_post p ev d s)) \<and> no_init (snd (process_post p ev d s))"
  proof (cases "queue_invar s \<and> unat (nevents s) \<noteq> PROCESS_CONF_NUMEVENTS")
    case True
    then obtain s' where "process_post p ev d s = (PROCESS_ERR_OK, s')" "queue_invar s'"
      "event_queue s' = event_queue s @ [\<lparr>ed_ev = ev, ed_data = d, ed_p = p\<rparr>]"
      using process_post_room by metis
    with assms show ?thesis by (auto simp: no_init_def)
  qed (auto simp: process_post_full)
qed (simp_all add: process_post_def Let_def)

section \<open>Running and listed processes\<close>

definition running :: "'g kernel \<Rightarrow> ptr list \<Rightarrow> nat" where
  "running s ps = length (filter (\<lambda>x. state_of s x = 1) ps)"

lemma running_evolves: "evolves s s' \<Longrightarrow> running s' (left_of s s' ps) \<le> running s ps"
proof (induction ps)
  case (Cons x xs)
  then show ?case using evolves_state [of s s' x] by (auto simp: running_def left_of_def)
qed (simp add: running_def left_of_def)

lemma running_call:
  assumes "distinct ps" "p \<in> set ps" "state_of s p = 1"
    "\<And>q. state_of s' q = (if q = p then v else state_of s q)" "v \<noteq> 1"
  shows "running s ps = Suc (running s' ps)"
  using assms
proof (induction ps)
  case (Cons x xs)
  have "running s xs = running s' xs" if "p \<notin> set xs"
    using that assms(4) unfolding running_def by (metis (mono_tags, lifting) filter_cong)
  with Cons show ?case by (auto simp: running_def)
qed simp

section \<open>A call returns\<close>

text \<open>What the kernel relies on when it calls a process whose depth of nesting is \<open>n\<close>.\<close>

definition calls_return :: "nat \<Rightarrow> 'g callf \<Rightarrow> bool" where
  "calls_return n cp \<longleftrightarrow> (\<forall>p ev d s ps. p \<noteq> NULL \<longrightarrow> procs_ok s ps \<longrightarrow> running s ps < n \<longrightarrow>
     (\<exists>s'. cp p ev d s = Some s' \<and> evolves s s' \<and>
       (\<forall>as bs. ps = as @ p # bs \<longrightarrow> chain (next_of s') (next_of s' p) (left_of s s' bs))))"

lemma calls_returnE:
  assumes "calls_return n cp" "p \<noteq> NULL" "procs_ok s ps" "running s ps < n"
  obtains s' where "cp p ev d s = Some s'" "evolves s s'"
    "\<And>as bs. ps = as @ p # bs \<Longrightarrow> chain (next_of s') (next_of s' p) (left_of s s' bs)"
  using assms unfolding calls_return_def by blast

lemma kernel_call_returns:
  assumes "calls_return n cp" "procs_ok s ps" "running s ps < n" "plain_call c"
  shows "\<exists>r s'. kernel_call cp ep c s = Some (r, s') \<and> evolves s s'"
proof (cases c)
  case (Post p ev d)
  then show ?thesis using assms(4) process_post_evolves [of ev s p d]
    by (cases "process_post p ev d s") auto
next
  case (Post_synch p ev d)
  with assms(4) have "p \<noteq> NULL" by simp
  then obtain s1 where s1: "cp p ev d s = Some s1" "evolves s s1"
    by (rule calls_returnE [OF assms(1) _ assms(2,3)])
  have "evolves s1 (s1\<lparr>process_current := process_current s\<rparr>)" by (rule evolves_same_procs) auto
  with s1 Post_synch show ?thesis
    by (auto simp: process_post_synch_def Let_def intro: evolves_trans)
next
  case (Poll p)
  have "evolves s (process_poll p s)" by (rule evolves_same_procs) (auto simp: process_poll_def)
  with Poll show ?thesis by simp
next
  case Alloc_event
  have "evolves s (snd (process_alloc_event s))"
    by (rule evolves_same_procs) (auto simp: process_alloc_event_def)
  with Alloc_event show ?thesis by (simp add: process_alloc_event_def)
qed (use assms(4) evolves_refl in auto)

lemma run_act_returns:
  assumes "calls_return n cp"
  shows "plain a \<Longrightarrow> procs_ok s ps \<Longrightarrow> running s ps < n \<Longrightarrow>
    \<exists>r s'. run_act cp ep p a s = Some (r, s') \<and> evolves s s'"
proof (induction a arbitrary: s ps)
  case (Return r l)
  have "evolves s (upd_proc p (pt_update (\<lambda>_. l)) s)" by (rule evolves_same_procs) auto
  then show ?case by simp
next
  case (Call c k)
  obtain r s1 where s1: "kernel_call cp ep c s = Some (r, s1)" "evolves s s1"
    using kernel_call_returns [OF assms Call.prems(2,3), of c ep] Call.prems(1) by auto
  have "running s1 (left_of s s1 ps) < n"
    using running_evolves [OF s1(2), of ps] Call.prems(3) by simp
  with Call.IH [OF rangeI _ evolves_procs [OF s1(2) Call.prems(2)], of r] Call.prems(1)
  obtain r' s2 where "run_act cp ep p (k r) s1 = Some (r', s2)" "evolves s1 s2" by auto
  with s1 show ?case by (auto intro: evolves_trans)
next
  case (Access f k)
  let ?s = "s\<lparr>mem := f (mem s)\<rparr>"
  have e: "evolves s ?s" by (rule evolves_same_procs) auto
  have "procs_ok ?s ps" "running ?s ps < n" using Access.prems by (simp_all add: procs_ok_def running_def)
  with Access.IH [OF rangeI _ this, of "f (mem s)"] Access.prems(1)
  obtain r s2 where "run_act cp ep p (k (f (mem s))) ?s = Some (r, s2)" "evolves ?s s2" by auto
  with e show ?case by (auto intro: evolves_trans)
qed

lemma state_set_state [simp]: "state (procs (set_state p v s) q) = (if q = p then v else state (procs s q))"
  by (simp add: set_state_def)

lemma set_state_sel [simp]:
  "nxt (procs (set_state p v s) q) = nxt (procs s q)" "thread (procs (set_state p v s) q) = thread (procs s q)"
  "pt (procs (set_state p v s) q) = pt (procs s q)"
  "process_list (set_state p v s) = process_list s" "events (set_state p v s) = events s"
  "nevents (set_state p v s) = nevents s" "fevent (set_state p v s) = fevent s"
  by (simp_all add: set_state_def)

lemma set_state_twice [simp]: "set_state p v (set_state p w s) = set_state p v s"
  by (simp add: set_state_def upd_proc_def)

lemma exited_loop_returns:
  assumes cp: "calls_return n cp"
  shows "procs_ok s (as @ bs) \<Longrightarrow> chain (next_of s) q bs \<Longrightarrow> running s (as @ bs) < n \<Longrightarrow>
    \<exists>s'. exited_loop cp p q s = Some s' \<and> evolves s s'"
proof (induction "length bs" arbitrary: s as bs q rule: less_induct)
  case less
  show ?case
  proof (cases bs)
    case Nil
    with less.prems show ?thesis by (subst exited_loop.simps) (simp add: evolves_refl)
  next
    case (Cons b cs)
    with less.prems have q: "q = b" "b \<noteq> NULL" by auto
    obtain s1 where s1: "(if p \<noteq> b then cp b PROCESS_EVENT_EXITED p s else Some s) = Some s1" "evolves s s1"
      "chain (next_of s1) (next_of s1 b) (left_of s s1 cs)"
    proof (cases "p = b")
      case True
      have "left_of s s cs = cs" by (simp add: left_of_def)
      with True less.prems Cons evolves_refl show ?thesis by (intro that [of s]) simp_all
    next
      case False
      obtain s1 where "cp b PROCESS_EVENT_EXITED p s = Some s1" "evolves s s1"
        "\<And>as' bs'. as @ bs = as' @ b # bs' \<Longrightarrow> chain (next_of s1) (next_of s1 b) (left_of s s1 bs')"
        by (rule calls_returnE [OF cp q(2) less.prems(1,3)]) blast
      with False Cons show ?thesis by (intro that [of s1]) auto
    qed
    let ?as = "left_of s s1 (as @ [b])" and ?bs = "left_of s s1 cs"
    have split: "left_of s s1 (as @ bs) = ?as @ ?bs" by (simp add: left_of_def Cons)
    have "length ?bs < length bs" using Cons by (simp add: left_of_def le_imp_less_Suc)
    moreover have "procs_ok s1 (?as @ ?bs)" using evolves_procs [OF s1(2) less.prems(1)] split by simp
    moreover have "running s1 (?as @ ?bs) < n"
      using running_evolves [OF s1(2), of "as @ bs"] split less.prems(3) by simp
    ultimately obtain s' where "exited_loop cp p (next_of s1 b) s1 = Some s'" "evolves s1 s'"
      using less.hyps s1(3) by blast
    with s1 q show ?thesis by (subst exited_loop.simps) (auto intro: evolves_trans)
  qed
qed

lemma unlink_walk:
  assumes c: "chain (next_of s) (process_list s) ps" "p \<noteq> NULL" and u: "unlink p s = Some s'"
    and w: "chain (next_of s) (next_of s x) cs"
  shows "\<exists>cs'. chain (next_of s') (next_of s' x) cs' \<and> subseq cs' cs \<and> set cs - set cs' \<subseteq> {p}"
  using c
proof (cases rule: unlink_cases)
  case (inner as v bs)
  have s': "next_of s' = (next_of s)(v := next_of s p)" using u inner(3) by auto
  have s'x: "nxt (procs s' y) = (if y = v then next_of s p else next_of s y)" for y
    using fun_cong [OF s', of y] by simp
  have v: "next_of s v = p" using c(1) inner(1) by (simp add: chain_append)
  show ?thesis
  proof (cases "x = v")
    case True
    with w v c(2) obtain c2 where c2: "cs = p # c2" "chain (next_of s) (next_of s p) c2"
      by (auto simp: chain_nonnull)
    have "v \<notin> set c2" using chain_no_revisit [of "next_of s" v cs] w True c2 by simp
    with c2 True show ?thesis by (intro exI [of _ c2]) (auto simp: s' s'x [of v])
  next
    case x: False
    show ?thesis
    proof (cases "v \<in> set cs")
      case True
      then obtain c1 c2 where cs: "cs = c1 @ v # c2" by (auto simp: in_set_conv_decomp)
      with w have "chain (next_of s) p c2" by (auto simp: chain_append v)
      with c(2) obtain c3 where c3: "c2 = p # c3" by (auto simp: chain_nonnull)
      have "chain ((next_of s)(v := next_of s p)) (next_of s x) (c1 @ v # c3)"
        using w by (intro chain_skip) (simp add: cs c3)
      moreover have "subseq (c1 @ v # c3) cs" unfolding cs c3 by (intro list_emb_append_mono) auto
      ultimately show ?thesis using x by (intro exI [of _ "c1 @ v # c3"]) (auto simp: s' s'x [of x] cs c3)
    next
      case False
      with w x show ?thesis by (intro exI [of _ cs]) (simp add: s' s'x [of x])
    qed
  qed
qed (use u w in auto)

lemma procs_ok_listed: "procs_ok s ps \<Longrightarrow> state_of s p \<noteq> 0 \<Longrightarrow> p \<in> set ps"
  unfolding procs_ok_def by blast

lemma procs_ok_set_state:
  "procs_ok s ps \<Longrightarrow> p \<in> set ps \<Longrightarrow> v \<in> {0, 1, 2} \<Longrightarrow> procs_ok (set_state p v s) ps"
  by (auto simp: procs_ok_def)

lemma unlink_exact:
  assumes c: "chain (next_of s) (process_list s) (as @ p # bs)" and p: "p \<noteq> NULL" and u: "unlink p s = Some s'"
  shows "chain (next_of s') (next_of s' p) bs"
  using c p
proof (cases rule: unlink_cases)
  case (inner as' v bs')
  have "v \<in> set as"
    using inner(1) chain_distinct [OF c] by (auto simp: append_eq_append_conv2 append_eq_Cons_conv Cons_eq_append_conv)
  then have "v \<notin> set bs" using chain_distinct [OF c] by auto
  moreover have "next_of s' = (next_of s)(v := next_of s p)" "nxt (procs s' p) = nxt (procs s p)"
    using u inner(2,3) by auto
  ultimately show ?thesis using c by (auto simp: chain_append)
next
  case (first bs')
  with chain_distinct [OF c] have "as = []" by (cases as) auto
  with c u first show ?thesis by auto
qed (use u c in auto)

text \<open>Marking a process as called while its thread runs, and as running again afterwards.\<close>

lemma evolves_called:
  assumes p: "state_of s p = 1"
    and e: "evolves (set_state p 2 (s\<lparr>process_current := c\<rparr>)) s2"
  shows "evolves s (set_state p 1 s2)"
  unfolding evolves_def
proof (intro conjI allI impI)
  let ?s1 = "set_state p 2 (s\<lparr>process_current := c\<rparr>)" and ?s' = "set_state p 1 s2"
  have p2: "state_of s2 p = 2" using evolves_state [OF e, of p] by simp
  show "state_of ?s' x = state_of s x \<or> state_of s x = 1 \<and> state_of ?s' x = 0" for x
    using evolves_state [OF e, of x] p by (auto split: if_splits)
  have left: "left_of s ?s' ps = left_of ?s1 s2 ps" for ps
    by (auto simp: left_of_def p p2 intro!: filter_cong)
  show "procs_ok ?s' (left_of s ?s' ps)" if "procs_ok s ps" for ps
  proof -
    have "procs_ok (s\<lparr>process_current := c\<rparr>) ps" using that by (simp add: procs_ok_def)
    moreover have "p \<in> set ps" using procs_ok_listed [OF that, of p] p by simp
    ultimately have "procs_ok ?s1 ps" by (simp add: procs_ok_set_state)
    from evolves_procs [OF e this] p2 show ?thesis
      unfolding left by (intro procs_ok_set_state) (auto dest: procs_ok_listed [of _ _ p])
  qed
  show "\<exists>cs'. chain (next_of ?s') (next_of ?s' x) cs' \<and> subseq cs' cs \<and>
      (\<forall>y \<in> set cs - set cs'. state_of ?s' y = 0)" if w: "chain (next_of s) (next_of s x) cs" for x cs
  proof -
    from w have "chain (next_of ?s1) (next_of ?s1 x) cs" by simp
    then obtain cs' where "chain (next_of s2) (next_of s2 x) cs'" "subseq cs' cs"
      "\<forall>y \<in> set cs - set cs'. state_of s2 y = 0" by (rule evolves_walk [OF e])
    with p2 show ?thesis by (intro exI [of _ cs']) auto
  qed
  assume "queue_invar s \<and> no_init s"
  then have "queue_invar ?s1 \<and> no_init ?s1" by (simp add: queue_invar_def no_init_def event_queue_def)
  with e have "queue_invar s2 \<and> no_init s2" by (simp add: evolves_def)
  then show "queue_invar ?s'" "no_init ?s'" by (simp_all add: queue_invar_def no_init_def event_queue_def)
qed

text \<open>Removing an exiting process after the others were told.\<close>

lemma evolves_exited:
  assumes ok: "procs_ok s2 ps" "p \<in> set ps" "p \<noteq> NULL"
    and e: "evolves (set_state p 0 s2) s4" and u: "unlink p s4 = Some s5"
  shows "evolves (set_state p 1 s2) (s5\<lparr>process_current := c\<rparr>)"
  unfolding evolves_def
proof (intro conjI allI impI)
  let ?s = "set_state p 1 s2" and ?s3 = "set_state p 0 s2" and ?s' = "s5\<lparr>process_current := c\<rparr>"
  have "procs_ok s4 (left_of ?s3 s4 ps)" using evolves_procs [OF e procs_ok_set_state] ok by simp
  then have c4: "chain (next_of s4) (process_list s4) (left_of ?s3 s4 ps)" by (simp add: procs_ok_def)
  note fr = unlink_frame [OF c4 ok(3) u]
  have p4: "state_of s4 p = 0" using evolves_state [OF e, of p] by simp
  show "state_of ?s' x = state_of ?s x \<or> state_of ?s x = 1 \<and> state_of ?s' x = 0" for x
    using evolves_state [OF e, of x] fr [of x] by (auto split: if_splits)
  have left: "left_of ?s ?s' qs = removeAll p (left_of ?s3 s4 qs)" for qs
    unfolding left_of_def removeAll_filter_not_eq filter_filter by (rule filter_cong) (auto simp: p4 fr)
  show "procs_ok ?s' (left_of ?s ?s' qs)" if qs: "procs_ok ?s qs" for qs
  proof -
    have "procs_ok ?s3 qs"
      using procs_ok_set_state [OF qs, of p 0] procs_ok_listed [OF qs, of p] by simp
    note q4 = evolves_procs [OF e this]
    then have "chain (next_of s5) (process_list s5) (removeAll p (left_of ?s3 s4 qs))"
      using unlink_chain [OF _ ok(3) u] by (simp add: procs_ok_def)
    moreover have "state_of s4 x = 0 \<or> x \<in> set (removeAll p (left_of ?s3 s4 qs)) \<and> (state_of s4 x = 1 \<or> state_of s4 x = 2)" for x
      using q4 p4 unfolding procs_ok_def by (cases "x = p") auto
    ultimately show ?thesis unfolding left by (simp add: procs_ok_def fr)
  qed
  show "\<exists>cs'. chain (next_of ?s') (next_of ?s' x) cs' \<and> subseq cs' cs \<and>
      (\<forall>y \<in> set cs - set cs'. state_of ?s' y = 0)" if w: "chain (next_of ?s) (next_of ?s x) cs" for x cs
  proof -
    from w have "chain (next_of ?s3) (next_of ?s3 x) cs" by simp
    then obtain c4' where a: "chain (next_of s4) (next_of s4 x) c4'" "subseq c4' cs"
      "\<forall>y \<in> set cs - set c4'. state_of s4 y = 0" by (rule evolves_walk [OF e])
    from unlink_walk [OF c4 ok(3) u a(1)] obtain cs' where b: "chain (next_of s5) (next_of s5 x) cs'"
      "subseq cs' c4'" "set c4' - set cs' \<subseteq> {p}" by blast
    have "\<forall>y \<in> set cs - set cs'. state_of s4 y = 0" using a(3) b(3) p4 by blast
    with a b show ?thesis by (intro exI [of _ cs']) (auto simp: fr intro: subseq_order.trans)
  qed
  assume "queue_invar ?s \<and> no_init ?s"
  then have "queue_invar ?s3 \<and> no_init ?s3" by (simp add: queue_invar_def no_init_def event_queue_def)
  with e have "queue_invar s4 \<and> no_init s4" by (simp add: evolves_def)
  then show "queue_invar ?s'" "no_init ?s'"
    using fr by (simp_all add: queue_invar_def no_init_def event_queue_def)
qed

lemma walk_after:
  assumes "chain nx h (as @ p # bs)"
  shows "chain nx (nx p) bs"
  using assms by (auto simp: chain_append)

lemma left_of_split: "left_of s s' (as @ p # bs) = left_of s s' as @ left_of s s' [p] @ left_of s s' bs"
  by (simp add: left_of_def)

lemma exit_returns:
  assumes cp: "calls_return n cp" and ok: "procs_ok s2 ps" "p \<noteq> NULL"
    and p: "state_of s2 p = 2" and less: "running s2 ps < n"
  shows "\<exists>s'. exit_process_body th cp ep p p s2 = Some s' \<and> evolves (set_state p 1 s2) s' \<and>
    (\<forall>as bs. ps = as @ p # bs \<longrightarrow> chain (next_of s') (next_of s' p) (left_of (set_state p 1 s2) s' bs))"
proof -
  have c: "chain (next_of s2) (process_list s2) ps" using ok by (simp add: procs_ok_def)
  have mem: "p \<in> set ps" using procs_ok_listed [OF ok(1), of p] p by simp
  let ?s3 = "set_state p 0 s2" and ?s20 = "set_state p 1 s2"
  have ok3: "procs_ok ?s3 ps" using ok(1) mem by (simp add: procs_ok_set_state)
  have "running ?s3 ps = running s2 ps"
    unfolding running_def using p by (auto intro!: arg_cong [of _ _ length] filter_cong)
  with exited_loop_returns [OF cp, of ?s3 "[]" ps] ok3 c less
  obtain s4 where s4: "exited_loop cp p (process_list ?s3) ?s3 = Some s4" "evolves ?s3 s4" by auto
  have c4: "chain (next_of s4) (process_list s4) (left_of ?s3 s4 ps)"
    using evolves_procs [OF s4(2) ok3] by (simp add: procs_ok_def)
  obtain s5 where u: "unlink p s4 = Some s5" by (rule unlink_cases [OF c4 ok(2)])
  let ?s' = "s5\<lparr>process_current := process_current s2\<rparr>"
  have e: "evolves ?s20 ?s'" by (rule evolves_exited [OF ok(1) mem ok(2) s4(2) u])
  have "exit_process_body th cp ep p p s2 = Some ?s'"
    using mem ok(2) s4(1) p by (simp add: exit_process_body_def find_loop_chain [OF c] process_is_running_def u)
  moreover have "chain (next_of ?s') (next_of ?s' p) (left_of ?s20 ?s' bs)" if ps: "ps = as @ p # bs" for as bs
  proof -
    have pp: "left_of ?s3 s4 [p] = [p]" by (simp add: left_of_def)
    have "chain (next_of s4) (process_list s4) (left_of ?s3 s4 as @ p # left_of ?s3 s4 bs)"
      using c4 by (simp add: ps left_of_split pp)
    from unlink_exact [OF this ok(2) u]
    have "chain (next_of s5) (next_of s5 p) (left_of ?s3 s4 bs)" .
    moreover have "left_of ?s20 ?s' bs = left_of ?s3 s4 bs" unfolding left_of_def
    proof (rule filter_cong)
      fix x assume "x \<in> set bs"
      then have "x \<noteq> p" using chain_distinct [OF c] ps by auto
      then show "(state_of ?s20 x = 0 \<or> state_of ?s' x \<noteq> 0) = (state_of ?s3 x = 0 \<or> state_of s4 x \<noteq> 0)"
        using unlink_frame [OF c4 ok(2) u, of x] by simp
    qed simp
    ultimately show ?thesis by simp
  qed
  ultimately show ?thesis using e by blast
qed

lemma call_process_returns:
  fixes th :: "'a threads"
  assumes plain: "threads_plain th" and cp: "calls_return n cp"
  shows "calls_return (Suc n) (call_process_body th cp (exit_process_body th cp ep))"
  unfolding calls_return_def
proof (intro allI impI)
  fix p ev d ps and s :: "'a kernel"
  assume p: "p \<noteq> NULL" and ok: "procs_ok s ps" and less: "running s ps < Suc n"
  let ?ep = "exit_process_body th cp ep" and ?s1 = "set_state p 2 (s\<lparr>process_current := p\<rparr>)"
  let ?exact = "\<lambda>s'. \<forall>as bs. ps = as @ p # bs \<longrightarrow> chain (next_of s') (next_of s' p) (left_of s s' bs)"
  have c: "chain (next_of s) (process_list s) ps" using ok by (simp add: procs_ok_def)
  show "\<exists>s'. call_process_body th cp ?ep p ev d s = Some s' \<and> evolves s s' \<and> ?exact s'"
  proof (cases "state_of s p = 1 \<and> thread (procs s p) \<noteq> NULL")
    case False
    have "state_of s p = 0 \<or> state_of s p = 1 \<or> state_of s p = 2" using ok by (auto simp: procs_ok_def)
    then have "state_of s p AND 1 \<noteq> 0 \<longleftrightarrow> state_of s p = 1" by auto
    with False p have "call_process_body th cp ?ep p ev d s = Some s" by (auto simp: call_process_body_def)
    moreover have "?exact s" using c walk_after by (fastforce simp: left_of_def)
    ultimately show ?thesis using evolves_refl by blast
  next
    case True
    have mem: "p \<in> set ps" using procs_ok_listed [OF ok, of p] True by simp
    have "procs_ok (s\<lparr>process_current := p\<rparr>) ps" using ok by (simp add: procs_ok_def)
    then have ok1: "procs_ok ?s1 ps" using mem by (simp add: procs_ok_set_state)
    have "running s ps = Suc (running ?s1 ps)"
      using chain_distinct [OF c] mem True by (intro running_call) auto
    with less have less1: "running ?s1 ps < n" by simp
    obtain ret s2 where t: "call_thread th cp ?ep p ev d ?s1 = Some (ret, s2)" and e: "evolves ?s1 s2"
      using run_act_returns [OF cp _ ok1 less1] plain unfolding call_thread_def threads_plain_def by metis
    have ok2: "procs_ok s2 (left_of ?s1 s2 ps)" by (rule evolves_procs [OF e ok1])
    have p2: "state_of s2 p = 2" using evolves_state [OF e, of p] by simp
    have e2: "evolves s (set_state p 1 s2)" using True e by (intro evolves_called) auto
    let ?x = "ret = PT_EXITED \<or> ret = PT_ENDED \<or> ev = PROCESS_EVENT_EXIT"
    have call: "call_process_body th cp ?ep p ev d s = (if ?x then ?ep p p s2 else Some (set_state p 1 s2))"
      using True p t by (simp add: call_process_body_def)
    have split: "left_of ?s1 s2 ps = left_of ?s1 s2 as @ p # left_of ?s1 s2 bs" if "ps = as @ p # bs" for as bs
      using that p2 by (simp add: left_of_def)
    have left: "left_of ?s1 s2 bs = left_of s (set_state p 1 s2) bs" if "ps = as @ p # bs" for as bs
      unfolding left_of_def using that True p2 by (intro filter_cong) auto
    show ?thesis
    proof (cases ?x)
      case False
      have "?exact (set_state p 1 s2)"
      proof (intro allI impI)
        fix as bs assume ps: "ps = as @ p # bs"
        from ok2 have "chain (next_of s2) (process_list s2) (left_of ?s1 s2 as @ p # left_of ?s1 s2 bs)"
          by (simp add: procs_ok_def split [OF ps])
        from walk_after [OF this] show "chain (next_of (set_state p 1 s2)) (next_of (set_state p 1 s2) p)
            (left_of s (set_state p 1 s2) bs)" by (simp add: left [OF ps])
      qed
      with call False e2 show ?thesis by simp
    next
      case x: True
      have "running s2 (left_of ?s1 s2 ps) < n" using running_evolves [OF e, of ps] less1 by simp
      from exit_returns [OF cp ok2 p p2 this, of th ep] obtain s' where s': "?ep p p s2 = Some s'"
        "evolves (set_state p 1 s2) s'" "\<And>as bs. left_of ?s1 s2 ps = as @ p # bs \<Longrightarrow>
          chain (next_of s') (next_of s' p) (left_of (set_state p 1 s2) s' bs)" by blast
      have "?exact s'"
      proof (intro allI impI)
        fix as bs assume ps: "ps = as @ p # bs"
        from s'(3) [OF split [OF ps]] show "chain (next_of s') (next_of s' p) (left_of s s' bs)"
          by (simp only: left [OF ps] left_of_trans [OF e2 s'(2)])
      qed
      with call x s' evolves_trans [OF e2 s'(2)] show ?thesis by simp
    qed
  qed
qed

lemma kernel_returns: "threads_plain th \<Longrightarrow> calls_return n (call_process th n)"
proof (induction n)
  case (Suc n)
  then show ?case using call_process_returns [of th n] by (simp add: kernel_fns_simps)
qed (simp add: calls_return_def)

section \<open>Between two runs: polls, broadcasts and events\<close>

text \<open>No thread is active: exactly the listed processes are running.\<close>

definition idle :: "'g kernel \<Rightarrow> ptr list \<Rightarrow> bool" where
  "idle s ps \<longleftrightarrow> procs_ok s ps \<and> (\<forall>p \<in> set ps. state_of s p = 1)"

abbreviation alive :: "'g kernel \<Rightarrow> ptr list \<Rightarrow> ptr list" where
  "alive s \<equiv> filter (\<lambda>x. state_of s x \<noteq> 0)"

lemma left_of_idle: "\<forall>p \<in> set ps. state_of s p = 1 \<Longrightarrow> left_of s s' ps = alive s' ps"
  unfolding left_of_def by (rule filter_cong) auto

lemma alive_evolves: "evolves s s' \<Longrightarrow> alive s' (alive s ps) = alive s' ps"
  unfolding filter_filter by (rule filter_cong) (auto dest: evolves_dead)

lemma evolves_idle:
  assumes "evolves s s'" "idle s ps"
  shows "idle s' (alive s' ps)"
proof -
  have "left_of s s' ps = alive s' ps" using assms(2) by (simp add: idle_def left_of_idle)
  then have "procs_ok s' (alive s' ps)"
    using evolves_procs [OF assms(1), of ps] assms(2) by (simp add: idle_def)
  moreover have "state_of s' p = 1" if "p \<in> set ps" "state_of s' p \<noteq> 0" for p
    using evolves_state [OF assms(1), of p] assms(2) that by (auto simp: idle_def)
  ultimately show ?thesis by (simp add: idle_def)
qed

lemma idle_running: "running s ps \<le> length ps"
  by (simp add: running_def)

text \<open>Polling a list of processes in order: those that have exited meanwhile are left out.\<close>

definition poll_one :: "'g callf \<Rightarrow> ptr \<Rightarrow> 'g kernel \<Rightarrow> 'g kernel option" where
  "poll_one cp p s =
     (if state_of s p \<noteq> PROCESS_STATE_NONE \<and> needspoll (procs s p)
      then cp p PROCESS_EVENT_POLL NULL
             (upd_proc p (\<lambda>r. r\<lparr>state := PROCESS_STATE_RUNNING, needspoll := False\<rparr>) s)
      else Some s)"

fun poll_all :: "'g callf \<Rightarrow> ptr list \<Rightarrow> 'g kernel \<Rightarrow> 'g kernel option" where
  "poll_all cp [] s = Some s"
| "poll_all cp (p # ps) s = Option.bind (poll_one cp p s) (poll_all cp ps)"

text \<open>Delivering an event to a list of processes in order, with polls in between.\<close>

fun deliver_all :: "'g callf \<Rightarrow> ptr list \<Rightarrow> event \<Rightarrow> ptr \<Rightarrow> 'g kernel \<Rightarrow> 'g kernel option" where
  "deliver_all cp [] ev d s = Some s"
| "deliver_all cp (p # ps) ev d s =
     Option.bind (poll_if_requested cp s) (\<lambda>s1. Option.bind (cp p ev d s1) (deliver_all cp ps ev d))"

lemma poll_one_returns:
  assumes cp: "calls_return n cp" and idle: "idle s (as @ p # bs)" and n: "length (as @ p # bs) < n"
  shows "\<exists>s1. poll_one cp p s = Some s1 \<and> evolves s s1 \<and> chain (next_of s1) (next_of s1 p) (alive s1 bs)"
proof -
  let ?u = "upd_proc p (\<lambda>r. r\<lparr>state := 1, needspoll := False\<rparr>) s"
  have c: "chain (next_of s) (process_list s) (as @ p # bs)" using idle by (simp add: idle_def procs_ok_def)
  have p: "p \<noteq> NULL" "state_of s p = 1" "\<forall>x \<in> set bs. state_of s x = 1"
    using idle chain_not_NULL [OF c] by (auto simp: idle_def)
  show ?thesis
  proof (cases "needspoll (procs s p)")
    case False
    moreover have "alive s bs = bs" using p(3) by (simp add: filter_id_conv)
    ultimately show ?thesis using walk_after [OF c] evolves_refl by (auto simp: poll_one_def)
  next
    case True
    have u: "evolves s ?u" using p(2) by (intro evolves_same_procs) auto
    have "left_of s ?u (as @ p # bs) = as @ p # bs" using p(2) by (auto simp: left_of_def)
    then have ok: "procs_ok ?u (as @ p # bs)"
      using evolves_procs [OF u] idle by (metis idle_def)
    have "running ?u (as @ p # bs) < n" using idle_running n by (rule le_less_trans)
    then obtain s1 where s1: "cp p PROCESS_EVENT_POLL NULL ?u = Some s1" "evolves ?u s1"
      "chain (next_of s1) (next_of s1 p) (left_of ?u s1 bs)"
      using calls_returnE [OF cp p(1) ok] by metis
    have "left_of ?u s1 bs = alive s1 bs" using p(2,3) by (intro left_of_idle) auto
    with s1 p(2) True evolves_trans [OF u s1(2)] show ?thesis by (auto simp: poll_one_def)
  qed
qed

lemma poll_loop_all:
  assumes cp: "calls_return n cp"
  shows "idle s (as @ alive s bs) \<Longrightarrow> chain (next_of s) q (alive s bs) \<Longrightarrow>
    length (as @ alive s bs) < n \<Longrightarrow>
    \<exists>s'. poll_loop cp q s = Some s' \<and> poll_all cp bs s = Some s' \<and> evolves s s'"
proof (induction bs arbitrary: s q as)
  case Nil
  then show ?case by (subst poll_loop.simps) (simp add: evolves_refl)
next
  case (Cons b bs)
  show ?case
  proof (cases "state_of s b = 0")
    case True
    then show ?thesis using Cons.IH [OF _ _ _] Cons.prems by (simp add: poll_one_def)
  next
    case False
    with Cons.prems have q: "q = b" "b \<noteq> NULL" by auto
    obtain s1 where s1: "poll_one cp b s = Some s1" "evolves s s1"
      "chain (next_of s1) (next_of s1 b) (alive s1 (alive s bs))"
      using poll_one_returns [OF cp, of s as b "alive s bs"] Cons.prems False by auto
    let ?as = "alive s1 (as @ [b])"
    have al: "alive s1 (alive s bs) = alive s1 bs" by (rule alive_evolves [OF s1(2)])
    have "alive s1 (as @ alive s (b # bs)) = ?as @ alive s1 bs" using False al by simp
    then have idle1: "idle s1 (?as @ alive s1 bs)" using evolves_idle [OF s1(2) Cons.prems(1)] by simp
    have "length (?as @ alive s1 bs) \<le> length (as @ alive s (b # bs))"
      unfolding \<open>alive s1 (as @ alive s (b # bs)) = ?as @ alive s1 bs\<close> [symmetric] by (rule length_filter_le)
    then have "length (?as @ alive s1 bs) < n" using Cons.prems(3) by simp
    from Cons.IH [OF idle1 _ this] s1(3) al obtain s' where s': "poll_loop cp (next_of s1 b) s1 = Some s'"
      "poll_all cp bs s1 = Some s'" "evolves s1 s'" by auto
    have "poll_loop cp q s = Some s'" using q s1(1) s'(1) False
      by (subst poll_loop.simps) (auto simp: poll_one_def split: if_splits)
    with s1 s' show ?thesis by (auto intro: evolves_trans)
  qed
qed

lemma do_poll_all:
  assumes cp: "calls_return n cp" and idle: "idle s ps" and n: "length ps < n"
  shows "\<exists>s'. do_poll cp s = Some s' \<and> poll_all cp ps (s\<lparr>poll_requested := False\<rparr>) = Some s' \<and> evolves s s'"
proof -
  let ?s = "s\<lparr>poll_requested := False\<rparr>"
  have e: "evolves s ?s" by (rule evolves_same_procs) auto
  have "alive ?s ps = ps" using idle by (auto simp: idle_def filter_id_conv)
  moreover from this have "idle ?s ps" using evolves_idle [OF e idle] by simp
  ultimately have "\<exists>s'. poll_loop cp (process_list ?s) ?s = Some s' \<and> poll_all cp ps ?s = Some s' \<and> evolves ?s s'"
    using poll_loop_all [OF cp, of ?s "[]" ps "process_list ?s"] n by (simp add: idle_def procs_ok_def)
  with e show ?thesis by (auto simp: do_poll_def intro: evolves_trans)
qed

lemma poll_if_requested_returns:
  "calls_return n cp \<Longrightarrow> idle s ps \<Longrightarrow> length ps < n \<Longrightarrow>
   \<exists>s'. poll_if_requested cp s = Some s' \<and> evolves s s'"
  using do_poll_all [of n cp s ps] evolves_refl by (auto simp: poll_if_requested_def)

lemma call_returns_idle:
  assumes "calls_return n cp" "idle s ps" "length ps < n" "p \<noteq> NULL"
  shows "\<exists>s'. cp p ev d s = Some s' \<and> evolves s s'"
proof -
  have "running s ps < n" using idle_running assms(3) by (rule le_less_trans)
  then show ?thesis using calls_returnE [OF assms(1,4)] assms(2) unfolding idle_def by metis
qed

lemma broadcast_loop_all:
  assumes cp: "calls_return n cp"
  shows "idle s ps \<Longrightarrow> length ps < n \<Longrightarrow> chain (next_of s) q cs \<Longrightarrow>
    \<exists>s' vs. broadcast_loop cp q ev d s = Some s' \<and> deliver_all cp vs ev d s = Some s' \<and>
      subseq vs cs \<and> (\<forall>y \<in> set cs - set vs. state_of s' y = 0) \<and> evolves s s'"
proof (induction "length cs" arbitrary: s ps q cs rule: less_induct)
  case less
  show ?case
  proof (cases cs)
    case Nil
    with less.prems show ?thesis
      by (intro exI [of _ s] exI [of _ "[]"]) (subst broadcast_loop.simps, simp add: evolves_refl)
  next
    case (Cons b bs)
    with less.prems have q: "q = b" "b \<noteq> NULL" "chain (next_of s) (next_of s b) bs" by auto
    obtain s1 where s1: "poll_if_requested cp s = Some s1" "evolves s s1"
      using poll_if_requested_returns [OF cp less.prems(1,2)] by blast
    have idle1: "idle s1 (alive s1 ps)" "length (alive s1 ps) < n"
      using evolves_idle [OF s1(2) less.prems(1)] le_less_trans [OF length_filter_le less.prems(2)] by auto
    obtain s2 where s2: "cp b ev d s1 = Some s2" "evolves s1 s2"
      using call_returns_idle [OF cp idle1 q(2)] by blast
    have e: "evolves s s2" by (rule evolves_trans [OF s1(2) s2(2)])
    have idle2: "idle s2 (alive s2 ps)" "length (alive s2 ps) < n"
      using evolves_idle [OF e less.prems(1)] le_less_trans [OF length_filter_le less.prems(2)] by auto
    obtain cs2 where cs2: "chain (next_of s2) (next_of s2 b) cs2" "subseq cs2 bs"
      "\<forall>y \<in> set bs - set cs2. state_of s2 y = 0" by (rule evolves_walk [OF e q(3)])
    have "length cs2 < length cs" using list_emb_length [OF cs2(2)] Cons by simp
    from less.hyps [OF this idle2 cs2(1)] obtain s' vs where s': "broadcast_loop cp (next_of s2 b) ev d s2 = Some s'"
      "deliver_all cp vs ev d s2 = Some s'" "subseq vs cs2" "\<forall>y \<in> set cs2 - set vs. state_of s' y = 0"
      "evolves s2 s'" by blast
    have "broadcast_loop cp q ev d s = Some s'" using q(1,2) s1(1) s2(1) s'(1) by (subst broadcast_loop.simps) simp
    moreover have "deliver_all cp (b # vs) ev d s = Some s'" using s1(1) s2(1) s'(2) by simp
    moreover have "subseq (b # vs) cs" using s'(3) cs2(2) Cons by (auto intro: subseq_order.trans)
    moreover have "\<forall>y \<in> set cs - set (b # vs). state_of s' y = 0"
      using cs2(3) s'(4) evolves_dead [OF s'(5)] Cons by auto
    ultimately show ?thesis using evolves_trans [OF e s'(5)] by blast
  qed
qed

lemma take_event_idle:
  assumes "take_event s = Some (e, s1)" "idle s ps" "queue_invar s" "no_init s"
  shows "idle s1 ps" "queue_invar s1" "no_init s1" "ed_ev e \<noteq> PROCESS_EVENT_INIT"
  using take_event_first [OF assms(3,1)] assms by (auto simp: idle_def procs_ok_def no_init_def)

lemma do_event_returns:
  assumes cp: "calls_return n cp" and idle: "idle s ps" and n: "length ps < n"
    and q: "queue_invar s" "no_init s"
  shows "\<exists>s'. do_event cp s = Some s' \<and> idle s' (alive s' ps) \<and> queue_invar s' \<and> no_init s' \<and>
    (\<forall>x. state_of s x = 0 \<longrightarrow> state_of s' x = 0)"
proof (cases "take_event s")
  case None
  moreover have "alive s ps = ps" using idle by (auto simp: idle_def filter_id_conv)
  ultimately show ?thesis using idle q by (simp add: do_event_def)
next
  case (Some es)
  then obtain e s1 where t: "take_event s = Some (e, s1)" by (cases es) auto
  note i = take_event_idle [OF t idle q]
  have "\<exists>s'. do_event cp s = Some s' \<and> evolves s1 s'"
  proof (cases "ed_p e = NULL")
    case True
    have "chain (next_of s1) (process_list s1) ps" using i(1) by (simp add: idle_def procs_ok_def)
    from broadcast_loop_all [OF cp i(1) n this, of "ed_ev e" "ed_data e"] True t
    show ?thesis by (auto simp: do_event_def)
  next
    case False
    from call_returns_idle [OF cp i(1) n False] False t i(4) show ?thesis by (simp add: do_event_def)
  qed
  then obtain s' where "do_event cp s = Some s'" and e: "evolves s1 s'" by blast
  moreover have "procs s1 = procs s" using take_event_first [OF q(1) t] by simp
  ultimately show ?thesis using i evolves_idle [OF e i(1)] evolves_dead [OF e] by (auto simp: evolves_def)
qed

section \<open>The properties\<close>

text \<open>
  The example: two processes, 8 in front of 4; every thread yields at once, except that of
  process 4, which exits when it gets an event. A broadcast of event 5 is queued.
\<close>

definition demo_threads :: "unit threads" where
  "demo_threads t l ev d = Return (if t = 40 then PT_EXITED else PT_YIELDED) 0"

definition demo_process :: "ptr \<Rightarrow> ptr \<Rightarrow> process" where
  "demo_process nx t = \<lparr>nxt = nx, thread = t, pt = 0, state = 1, needspoll = False\<rparr>"

definition demo_kernel :: "unit kernel" where
  "demo_kernel = \<lparr>procs = (\<lambda>_. \<lparr>nxt = 0, thread = 0, pt = 0, state = 0, needspoll = False\<rparr>)
       (8 := demo_process 4 80, 4 := demo_process 0 40),
     process_list = 8, process_current = 0, lastevent = 0x8a, nevents = 1, fevent = 0,
     events = replicate 32 \<lparr>ed_ev = 5, ed_data = 0, ed_p = 0\<rparr>, poll_requested = False, mem = ()\<rparr>"

lemma demo_plain: "threads_plain demo_threads"
  by (simp add: threads_plain_def demo_threads_def)

lemma demo_idle: "idle demo_kernel [8, 4]"
  by (simp add: idle_def procs_ok_def demo_kernel_def demo_process_def)

text \<open>The same kernel when process 4 has asked to be polled.\<close>

definition demo_polled :: "unit kernel" where
  "demo_polled = demo_kernel\<lparr>procs := (procs demo_kernel)(4 := (procs demo_kernel 4)\<lparr>needspoll := True\<rparr>), poll_requested := True\<rparr>"

lemma demo_polled_idle: "idle demo_polled [8, 4]" "needspoll (procs demo_polled 4)"
  by (simp_all add: idle_def procs_ok_def demo_polled_def demo_kernel_def demo_process_def)

lemma demo_queue: "queue_invar demo_kernel" "no_init demo_kernel"
  by (simp_all add: queue_invar_def no_init_def event_queue_def ring_contents_def demo_kernel_def
      PROCESS_CONF_NUMEVENTS_def)

text \<open>
  C2: A step of the main loop returns: from an idle kernel (no thread is active and every listed
  process is running) with no initialisation event in the queue, for threads that post events
  other than the initialisation, poll and post synchronously and that exit by returning (they call
  neither \<open>process_start\<close> nor \<open>process_exit\<close>), \<open>process_run\<close> ends, with no more nested calls than
  there are processes, in an idle kernel whose list has lost exactly the exited processes. The
  first queued event is taken, the new ones are behind the others, and the result is the number
  of queued events plus one when a poll is requested, where the documentation of \<open>process_run\<close> in
  \<open>process.h\<close> has only the number of queued events.
\<close>

theorem process_run_returns:
  assumes "threads_plain th" "idle s ps" "queue_invar s" "no_init s" "length ps < n"
  shows "\<exists>s'. process_run (call_process th n) s =
      Some (int (length (event_queue s')) + of_bool (poll_requested s'), s') \<and>
    idle s' (alive s' ps) \<and> queue_invar s' \<and> no_init s' \<and>
    (\<exists>new. event_queue s' = tl (event_queue s @ new))"
proof -
  let ?cp = "call_process th n"
  have cp: "calls_return n ?cp" by (rule kernel_returns [OF assms(1)])
  obtain s1 where s1: "poll_if_requested ?cp s = Some s1" "evolves s s1"
    using poll_if_requested_returns [OF cp assms(2,5)] by blast
  have q1: "queue_invar s1" "no_init s1" using s1(2) assms(3,4) by (auto simp: evolves_def)
  have i1: "idle s1 (alive s1 ps)" by (rule evolves_idle [OF s1(2) assms(2)])
  have n1: "length (alive s1 ps) < n" using le_less_trans [OF length_filter_le assms(5)] .
  obtain s' where s': "do_event ?cp s1 = Some s'" "idle s' (alive s' (alive s1 ps))" "queue_invar s'" "no_init s'"
    and dead: "\<forall>x. state_of s1 x = 0 \<longrightarrow> state_of s' x = 0"
    using do_event_returns [OF cp i1 n1 q1] by blast
  have "alive s' (alive s1 ps) = alive s' ps" unfolding filter_filter using dead by (intro filter_cong) auto
  moreover have run: "process_run ?cp s = Some (process_nevents s', s')"
    using s1(1) s'(1) by (simp add: process_run_def)
  moreover have "list_invar s" using assms(2) by (auto simp: list_invar_def idle_def procs_ok_def)
  ultimately show ?thesis
    using process_run_queue [OF kr.call_process_R _ assms(3) run] s' by (intro exI [of _ s']) simp
qed

theorem process_run_returns_witness:
  "\<exists>s'. process_run (call_process demo_threads 3) demo_kernel =
      Some (int (length (event_queue s')) + of_bool (poll_requested s'), s') \<and>
    idle s' (alive s' [8, 4]) \<and> queue_invar s' \<and> no_init s' \<and>
    (\<exists>new. event_queue s' = tl (event_queue demo_kernel @ new))"
  by (rule process_run_returns [OF demo_plain demo_idle demo_queue]) simp

text \<open>
  C22: A broadcast reaches the processes in the order of the list: from an idle kernel (no thread is
  active and every listed process is running) and for threads that post, poll and post
  synchronously and exit by returning (they neither start nor exit processes by a call nor post the
  initialisation event), the walk over \<open>next\<close> pointers, during which processes exit and leave the
  list, returns and is the delivery in turn to processes of the list as it was, each at most once,
  and to all but those that have exited. A thread that exits and restarts a process can make the walk
  start again from the front of the list.
\<close>

theorem broadcast_in_order:
  assumes "threads_plain th" "idle s ps" "length ps < n"
  shows "\<exists>s' vs. broadcast_loop (call_process th n) (process_list s) ev d s = Some s' \<and>
    deliver_all (call_process th n) vs ev d s = Some s' \<and> subseq vs ps \<and> distinct vs \<and>
    (\<forall>p. p \<in> set ps \<longrightarrow> p \<in> set vs \<or> state_of s' p = PROCESS_STATE_NONE) \<and> idle s' (alive s' ps)"
proof -
  have c: "chain (next_of s) (process_list s) ps" using assms(2) by (simp add: idle_def procs_ok_def)
  from broadcast_loop_all [OF kernel_returns [OF assms(1)] assms(2,3) c, of ev d] obtain s' vs where
    "broadcast_loop (call_process th n) (process_list s) ev d s = Some s'"
    "deliver_all (call_process th n) vs ev d s = Some s'" "subseq vs ps"
    "\<forall>y \<in> set ps - set vs. state_of s' y = 0" "evolves s s'" by blast
  with evolves_idle [OF this(5) assms(2)] subseq_distinct [OF this(3) chain_distinct [OF c]]
  show ?thesis by (intro exI [of _ s'] exI [of _ vs]) auto
qed

theorem broadcast_in_order_witness:
  "\<exists>s' vs. broadcast_loop (call_process demo_threads 3) (process_list demo_kernel) 5 0 demo_kernel = Some s' \<and>
    deliver_all (call_process demo_threads 3) vs 5 0 demo_kernel = Some s' \<and> subseq vs [8, 4] \<and> distinct vs \<and>
    (\<forall>p. p \<in> set [8, 4] \<longrightarrow> p \<in> set vs \<or> state_of s' p = PROCESS_STATE_NONE) \<and> idle s' (alive s' [8, 4])"
  by (rule broadcast_in_order [OF demo_plain demo_idle]) simp

text \<open>
  C28: From an idle kernel (no thread is active and every listed process is running) and for threads
  that post, poll and post synchronously and exit by returning (they neither start nor exit
  processes by a call nor post the initialisation event), \<open>do_poll\<close> returns and polls, in the order
  of the list as it was, every process that asked for it and has not exited when its turn comes,
  and no other.
\<close>

theorem do_poll_in_order:
  assumes "threads_plain th" "idle s ps" "length ps < n"
  shows "\<exists>s'. do_poll (call_process th n) s = Some s' \<and>
    poll_all (call_process th n) ps (s\<lparr>poll_requested := False\<rparr>) = Some s' \<and> idle s' (alive s' ps)"
  using do_poll_all [OF kernel_returns [OF assms(1)] assms(2,3)] evolves_idle [OF _ assms(2)] by blast

theorem do_poll_in_order_witness:
  "\<exists>s'. do_poll (call_process demo_threads 3) demo_polled = Some s' \<and>
    poll_all (call_process demo_threads 3) [8, 4] (demo_polled\<lparr>poll_requested := False\<rparr>) = Some s' \<and>
    idle s' (alive s' [8, 4]) \<and> needspoll (procs demo_polled 4)"
  using do_poll_in_order [OF demo_plain demo_polled_idle(1), of 3] demo_polled_idle(2) by auto

text \<open>
  Whatever the threads do, a run that returns (within the nested calls allowed) leaves the process list a proper list and takes
  exactly the first event from the queue; events are added only at its end.
\<close>

theorem process_run_any_threads:
  assumes "list_invar s" "queue_invar s" "process_run (call_process th n) s = Some (r, s')"
  shows "list_invar s' \<and> queue_invar s' \<and> (\<exists>new. event_queue s' = tl (event_queue s @ new)) \<and>
    r = int (length (event_queue s')) + of_bool (poll_requested s')"
  by (rule process_run_queue [OF kr.call_process_R assms])

theorem process_run_any_threads_witness:
  "\<exists>r s'. process_run (call_process demo_threads 3) demo_kernel = Some (r, s') \<and> list_invar s' \<and>
    (\<exists>new. event_queue s' = tl (event_queue demo_kernel @ new))"
proof -
  obtain s1 where s1: "do_event (call_process demo_threads 3) demo_kernel = Some s1"
    using do_event_returns [OF kernel_returns [OF demo_plain] demo_idle _ demo_queue, of 3] by auto
  have "poll_if_requested (call_process demo_threads 3) demo_kernel = Some demo_kernel"
    by (simp add: poll_if_requested_def demo_kernel_def)
  with s1 have run: "process_run (call_process demo_threads 3) demo_kernel = Some (process_nevents s1, s1)"
    by (simp add: process_run_def)
  have "list_invar demo_kernel"
    using demo_idle unfolding list_invar_def idle_def procs_ok_def by blast
  from process_run_any_threads [OF this demo_queue(1) run] run show ?thesis by blast
qed

definition exit_self_threads :: "nat threads" where
  "exit_self_threads t l ev d = Access Suc (\<lambda>_. Call (Exit 8) (\<lambda>_. Return PT_YIELDED 0))"

definition lone_kernel :: "nat kernel" where
  "lone_kernel = \<lparr>procs = (\<lambda>_. demo_process 0 80), process_list = 8, process_current = 0, lastevent = 0x8a,
     nevents = 0, fevent = 0, events = [], poll_requested = False, mem = 0\<rparr>"

lemma event_5_not_exit: "(5::8 word) \<noteq> 0x83"
  by simp

lemmas exit_self_eval = call_process_body_def call_thread_def exit_self_threads_def process_exit_def
  exit_process_body_def process_is_running_def find_loop.simps exited_loop.simps unlink_def upd_proc_def
  set_state_def Let_def

lemma exit_self_listed:
  assumes "process_list s = 8" "nxt (procs s 8) = 0" "thread (procs s 8) = 80" "state (procs s 8) = 1"
  shows "\<exists>s'. call_process exit_self_threads (Suc (Suc n)) 8 5 0 s = Some s' \<and> process_list s' = 0 \<and>
    state (procs s' 8) = 1 \<and> thread (procs s' 8) = 80 \<and> mem s' = Suc (mem s)"
  using assms event_5_not_exit by (simp add: kernel_fns_simps(3) kernel_fns_simps(4) [of _ "Suc n"] exit_self_eval)

lemma exit_self_unlisted:
  assumes "process_list s = 0" "thread (procs s 8) = 80" "state (procs s 8) = 1"
  shows "\<exists>s'. call_process exit_self_threads (Suc (Suc n)) 8 5 0 s = Some s' \<and> mem s' = Suc (mem s)"
  using assms event_5_not_exit by (simp add: kernel_fns_simps(3) kernel_fns_simps(4) [of _ "Suc n"] exit_self_eval)

text \<open>
  A process that exits itself with \<open>process_exit\<close> and then yields, instead of returning
  \<open>PT_EXITED\<close>, leaves the list but is marked as running again when its thread returns: it is
  no longer listed, yet \<open>process_is_running\<close> holds and the next event still calls its thread.
\<close>

theorem process_exit_self_still_called:
  "\<exists>s1 s2. process_post_synch (call_process exit_self_threads 2) 8 5 0 lone_kernel = Some s1 \<and>
     process_list s1 = NULL \<and> process_is_running 8 s1 \<and> mem s1 = 1 \<and>
     process_post_synch (call_process exit_self_threads 2) 8 5 0 s1 = Some s2 \<and> mem s2 = 2"
proof -
  have "process_list lone_kernel = 8" "nxt (procs lone_kernel 8) = 0" "thread (procs lone_kernel 8) = 80"
    "state (procs lone_kernel 8) = 1" "mem lone_kernel = 0" by (simp_all add: lone_kernel_def demo_process_def)
  with exit_self_listed [of lone_kernel 0] obtain t1 where t1:
    "call_process exit_self_threads 2 8 5 0 lone_kernel = Some t1" "process_list t1 = 0"
    "state (procs t1 8) = 1" "thread (procs t1 8) = 80" "mem t1 = 1" by (auto simp: numeral_2_eq_2)
  let ?s1 = "t1\<lparr>process_current := process_current lone_kernel\<rparr>"
  from exit_self_unlisted [of ?s1 0] t1 obtain t2 where
    "call_process exit_self_threads 2 8 5 0 ?s1 = Some t2" "mem t2 = 2" by (auto simp: numeral_2_eq_2)
  with t1 show ?thesis by (simp add: process_post_synch_def process_is_running_def)
qed

end
