(* ===== verification/Contiki_Timer.thy ===== *)
theory Contiki_Timer
  imports Nespy_Prelude
begin

unbundle bit_operations_syntax

text \<open>
  The passive timers of \<open>ns/sys/timer.c\<close> and \<open>ns/sys/stimer.c\<close>. \<open>clock_time_t\<close> and
  \<open>unsigned long\<close> have 32 bits, and all sums and differences wrap. The value that
  \<open>clock_time()\<close>, or \<open>clock_seconds()\<close>, returns in an operation is the argument \<open>now\<close>.
\<close>

section \<open>Timers\<close>

type_synonym clock = "32 word"

record timer =
  t_start :: clock
  t_interval :: clock

definition timer_set :: "clock \<Rightarrow> clock \<Rightarrow> timer \<Rightarrow> timer" where
  "timer_set now interval t = t\<lparr>t_interval := interval, t_start := now\<rparr>"

definition timer_reset :: "timer \<Rightarrow> timer" where
  "timer_reset t = t\<lparr>t_start := t_start t + t_interval t\<rparr>"

definition timer_restart :: "clock \<Rightarrow> timer \<Rightarrow> timer" where
  "timer_restart now t = t\<lparr>t_start := now\<rparr>"

definition timer_expired :: "clock \<Rightarrow> timer \<Rightarrow> bool" where
  "timer_expired now t = (let diff = (now - t_start t) + 1 in t_interval t < diff)"

definition timer_remaining :: "clock \<Rightarrow> timer \<Rightarrow> clock" where
  "timer_remaining now t = t_start t + t_interval t - now"

section \<open>Timers in seconds\<close>

definition SCLOCK_GEQ :: "clock \<Rightarrow> clock \<Rightarrow> bool" where
  "SCLOCK_GEQ a b \<longleftrightarrow> a - b < drop_bit 1 (NOT 0)"

definition stimer_set :: "clock \<Rightarrow> clock \<Rightarrow> timer \<Rightarrow> timer" where
  "stimer_set now interval t = t\<lparr>t_interval := interval, t_start := now\<rparr>"

definition stimer_reset :: "timer \<Rightarrow> timer" where
  "stimer_reset t = t\<lparr>t_start := t_start t + t_interval t\<rparr>"

definition stimer_restart :: "clock \<Rightarrow> timer \<Rightarrow> timer" where
  "stimer_restart now t = t\<lparr>t_start := now\<rparr>"

definition stimer_expired :: "clock \<Rightarrow> timer \<Rightarrow> bool" where
  "stimer_expired now t = SCLOCK_GEQ now (t_start t + t_interval t)"

definition stimer_remaining :: "clock \<Rightarrow> timer \<Rightarrow> clock" where
  "stimer_remaining now t = t_start t + t_interval t - now"

definition stimer_elapsed :: "clock \<Rightarrow> timer \<Rightarrow> clock" where
  "stimer_elapsed now t = now - t_start t"

section \<open>Elapsed time\<close>

lemma unat_clock_less: "unat (w :: clock) < 2 ^ 32"
  using unsigned_less [of w] by simp

lemma word_of_nat_diff_start: "(t0 + word_of_nat k :: clock) - t0 = word_of_nat k"
  by simp

lemma unat_of_nat_small: "k < 2 ^ 32 \<Longrightarrow> unat (word_of_nat k :: clock) = k"
  by (simp add: unat_of_nat)

lemma timer_expired_elapsed:
  "timer_expired now t \<longleftrightarrow>
     unat (t_interval t) \<le> unat (now - t_start t) \<and> unat (now - t_start t) \<noteq> 2 ^ 32 - 1"
proof -
  let ?e = "now - t_start t"
  have lt: "unat ?e < 2 ^ 32" by (rule unat_clock_less)
  show ?thesis
  proof (cases "unat ?e = 2 ^ 32 - 1")
    case True
    then have "unat (?e + 1) = 0" by (simp add: unat_word_ariths)
    then have "?e + 1 = 0" by (simp add: unat_eq_zero)
    with True show ?thesis by (simp add: timer_expired_def)
  next
    case False
    with lt have "unat (?e + 1) = unat ?e + 1" by (simp add: unat_word_ariths)
    with False show ?thesis by (simp add: timer_expired_def word_less_nat_alt less_Suc_eq_le)
  qed
qed

lemma SCLOCK_GEQ_unat: "SCLOCK_GEQ a b \<longleftrightarrow> unat (a - b) < 2 ^ 31 - 1"
proof -
  have "(drop_bit 1 (NOT 0) :: clock) = 0x7FFFFFFF" by (simp add: drop_bit_eq_div)
  then show ?thesis by (simp add: SCLOCK_GEQ_def word_less_nat_alt)
qed

lemma unat_diff_wrap:
  assumes "k < 2 ^ 32"
  shows "unat (word_of_nat k - i :: clock) = (if unat i \<le> k then k - unat i else k + 2 ^ 32 - unat i)"
  using assms unat_clock_less [of i] by (auto simp: unat_sub_if_size unat_of_nat word_size word_le_nat_alt)

section \<open>The properties\<close>

text \<open>
  A timer set with an interval, looked at \<open>k\<close> ticks later, has expired exactly when \<open>k\<close> has
  reached the interval, and otherwise has the rest of the interval remaining; this holds when
  the clock wraps in between, for all \<open>k\<close> below the range of the clock less one.
\<close>

theorem timer_expiry_wraps:
  assumes "k < 2 ^ 32 - 1"
  shows "timer_expired (t0 + word_of_nat k) (timer_set t0 interval t) = (unat interval \<le> k) \<and>
    (k < unat interval \<longrightarrow>
       timer_remaining (t0 + word_of_nat k) (timer_set t0 interval t) = interval - word_of_nat k \<and>
       unat (interval - word_of_nat k) = unat interval - k)"
proof -
  have k: "unat (word_of_nat k :: clock) = k" using assms by (intro unat_of_nat_small) simp
  have "unat (interval - word_of_nat k) = unat interval - k" if "k < unat interval"
    using that k by (simp add: unat_sub word_le_nat_alt)
  with assms k show ?thesis
    by (simp add: timer_expired_elapsed timer_set_def timer_remaining_def)
qed

theorem timer_expiry_wraps_witness:
  "timer_expired (0xFFFFFFF0 + word_of_nat 40) (timer_set 0xFFFFFFF0 30 \<lparr>t_start = 0, t_interval = 0\<rparr>)"
  using timer_expiry_wraps [of 40 "0xFFFFFFF0" 30 "\<lparr>t_start = 0, t_interval = 0\<rparr>"] by simp

text \<open>
  Resetting a timer keeps its rate: after \<open>n\<close> resets the timer expires \<open>n + 1\<close> intervals after
  it was set, whenever the resets happened.
\<close>

theorem timer_reset_rate:
  assumes "k < 2 ^ 32 - 1" "n * unat interval \<le> k"
  shows "timer_expired (t0 + word_of_nat k) ((timer_reset ^^ n) (timer_set t0 interval t)) \<longleftrightarrow>
    Suc n * unat interval \<le> k"
proof -
  have r: "(timer_reset ^^ n) (timer_set t0 interval t) = timer_set (t0 + word_of_nat n * interval) interval t"
    by (induction n) (simp_all add: timer_reset_def timer_set_def algebra_simps)
  have "word_of_nat n * interval = word_of_nat (n * unat interval)" by simp
  then have e: "(t0 + word_of_nat k) - (t0 + word_of_nat n * interval) = word_of_nat (k - n * unat interval)"
    using assms(2) by (simp add: of_nat_diff)
  have "unat (word_of_nat (k - n * unat interval) :: clock) = k - n * unat interval"
    using assms(1) by (intro unat_of_nat_small) simp
  with assms e show ?thesis unfolding r by (auto simp: timer_expired_elapsed timer_set_def)
qed

theorem timer_reset_rate_witness:
  "timer_expired (0xFFFFFFF0 + word_of_nat 40) ((timer_reset ^^ 3) (timer_set 0xFFFFFFF0 10 \<lparr>t_start = 0, t_interval = 0\<rparr>))"
  using timer_reset_rate [of 40 3 10 "0xFFFFFFF0" "\<lparr>t_start = 0, t_interval = 0\<rparr>"] by simp

text \<open>
  A timer in seconds looked at \<open>k\<close> seconds after it was set reports expiry from its interval on
  and for the next half of the clock's range, and again before the interval when more than half
  of the range remains; the elapsed time is \<open>k\<close>.
\<close>

theorem stimer_expiry_window:
  assumes "k < 2 ^ 32"
  shows "(stimer_expired (t0 + word_of_nat k) (stimer_set t0 interval t) \<longleftrightarrow>
      (if unat interval \<le> k then k < unat interval + (2 ^ 31 - 1) else k + 2 ^ 31 + 1 < unat interval)) \<and>
    unat (stimer_elapsed (t0 + word_of_nat k) (stimer_set t0 interval t)) = k"
proof -
  have "t0 + word_of_nat k - (t0 + interval) = word_of_nat k - interval" by simp
  with unat_diff_wrap [OF assms, of interval] assms unat_clock_less [of interval] show ?thesis
    by (auto simp: stimer_expired_def SCLOCK_GEQ_unat stimer_set_def stimer_elapsed_def unat_of_nat_small)
qed

theorem stimer_expiry_window_witness:
  "stimer_expired (0xFFFFFFF0 + word_of_nat 40) (stimer_set 0xFFFFFFF0 30 \<lparr>t_start = 0, t_interval = 0\<rparr>)"
  using stimer_expiry_window [of 40 "0xFFFFFFF0" 30 "\<lparr>t_start = 0, t_interval = 0\<rparr>"] by simp

end
