(* ===== verification/Contiki_Etimer.thy ===== *)
theory Contiki_Etimer
  imports Contiki_List Contiki_Process_Run Contiki_Timer
begin

text \<open>
  Event timers, \<open>ns/sys/etimer.c\<close>, on top of the process kernel: the list of active timers and
  the time of the next expiration are memory of the kernel's state. Every call of
  \<open>clock_time()\<close> reads the next value of a sequence \<open>clock_at\<close>, so that time may pass between
  any two readings. \<open>None\<close> is a walk over the timers that does not end.
\<close>

section \<open>State\<close>

record etimer =
  et_timer :: timer
  et_next :: ptr
  et_p :: ptr

record etimers =
  timers :: "ptr \<Rightarrow> etimer"
  timerlist :: ptr
  next_expiration :: clock
  etimer_process :: ptr
  clock_at :: "nat \<Rightarrow> clock"
  clock_reads :: nat

type_synonym estate = "etimers kernel"

abbreviation et :: "estate \<Rightarrow> ptr \<Rightarrow> etimer" where
  "et s t \<equiv> timers (mem s) t"

abbreviation et_nx :: "estate \<Rightarrow> ptr \<Rightarrow> ptr" where
  "et_nx s \<equiv> \<lambda>t. et_next (et s t)"

definition upd_et :: "ptr \<Rightarrow> (etimer \<Rightarrow> etimer) \<Rightarrow> estate \<Rightarrow> estate" where
  "upd_et t f s = s\<lparr>mem := (mem s)\<lparr>timers := (timers (mem s))(t := f (timers (mem s) t))\<rparr>\<rparr>"

definition set_timerlist :: "ptr \<Rightarrow> estate \<Rightarrow> estate" where
  "set_timerlist t s = s\<lparr>mem := (mem s)\<lparr>timerlist := t\<rparr>\<rparr>"

definition set_next_expiration :: "clock \<Rightarrow> estate \<Rightarrow> estate" where
  "set_next_expiration c s = s\<lparr>mem := (mem s)\<lparr>next_expiration := c\<rparr>\<rparr>"

definition clock_time :: "estate \<Rightarrow> clock \<times> estate" where
  "clock_time s = (clock_at (mem s) (clock_reads (mem s)),
     s\<lparr>mem := (mem s)\<lparr>clock_reads := clock_reads (mem s) + 1\<rparr>\<rparr>)"

definition expiration :: "etimer \<Rightarrow> clock" where
  "expiration e = t_start (et_timer e) + t_interval (et_timer e)"

section \<open>Operations\<close>

partial_function (option) update_time_loop ::
    "(ptr \<Rightarrow> etimer) \<Rightarrow> clock \<Rightarrow> ptr \<Rightarrow> clock \<Rightarrow> clock option" where
  "update_time_loop tm now t tdist =
     (if t = NULL then Some tdist
      else update_time_loop tm now (et_next (tm t))
             (if expiration (tm t) - now < tdist then expiration (tm t) - now else tdist))"

definition update_time :: "estate \<Rightarrow> estate option" where
  "update_time s =
     (if timerlist (mem s) = NULL then Some (set_next_expiration 0 s)
      else
        let (now, s1) = clock_time s;
            t = timerlist (mem s1)
        in Option.bind (update_time_loop (timers (mem s1)) now (et_next (et s1 t)) (expiration (et s1 t) - now))
             (\<lambda>tdist. Some (set_next_expiration (now + tdist) s1)))"

definition etimer_request_poll :: "estate \<Rightarrow> estate" where
  "etimer_request_poll s = process_poll (etimer_process (mem s)) s"

text \<open>The search of \<open>add_timer\<close> for a timer that may be on the list already.\<close>

partial_function (option) on_list_loop :: "(ptr \<Rightarrow> etimer) \<Rightarrow> ptr \<Rightarrow> ptr \<Rightarrow> bool option" where
  "on_list_loop tm timer t =
     (if t = NULL then Some False
      else if t = timer then Some True
      else on_list_loop tm timer (et_next (tm t)))"

definition add_timer :: "ptr \<Rightarrow> estate \<Rightarrow> estate option" where
  "add_timer timer s =
     (let s1 = etimer_request_poll s
      in Option.bind
           (if et_p (et s1 timer) \<noteq> NULL
            then on_list_loop (timers (mem s1)) timer (timerlist (mem s1)) else Some False)
           (\<lambda>found.
              if found then update_time (upd_et timer (et_p_update (\<lambda>_. process_current s1)) s1)
              else
                let s2 = upd_et timer (et_p_update (\<lambda>_. process_current s1)) s1;
                    s3 = upd_et timer (et_next_update (\<lambda>_. timerlist (mem s2))) s2
                in update_time (set_timerlist timer s3)))"

definition etimer_set :: "ptr \<Rightarrow> clock \<Rightarrow> estate \<Rightarrow> estate option" where
  "etimer_set e interval s =
     (let (now, s1) = clock_time s
      in add_timer e (upd_et e (et_timer_update (timer_set now interval)) s1))"

definition etimer_reset_with_new_interval :: "ptr \<Rightarrow> clock \<Rightarrow> estate \<Rightarrow> estate option" where
  "etimer_reset_with_new_interval e interval s =
     add_timer e (upd_et e (et_timer_update (t_interval_update (\<lambda>_. interval) \<circ> timer_reset)) s)"

definition etimer_reset :: "ptr \<Rightarrow> estate \<Rightarrow> estate option" where
  "etimer_reset e s = add_timer e (upd_et e (et_timer_update timer_reset) s)"

definition etimer_restart :: "ptr \<Rightarrow> estate \<Rightarrow> estate option" where
  "etimer_restart e s =
     (let (now, s1) = clock_time s
      in add_timer e (upd_et e (et_timer_update (timer_restart now)) s1))"

definition etimer_adjust :: "ptr \<Rightarrow> int \<Rightarrow> estate \<Rightarrow> estate option" where
  "etimer_adjust e timediff s =
     update_time (upd_et e (et_timer_update (t_start_update (\<lambda>c. c + word_of_int timediff))) s)"

definition etimer_expired :: "ptr \<Rightarrow> estate \<Rightarrow> bool" where
  "etimer_expired e s \<longleftrightarrow> et_p (et s e) = NULL"

definition etimer_expiration_time :: "ptr \<Rightarrow> estate \<Rightarrow> clock" where
  "etimer_expiration_time e s = t_start (et_timer (et s e)) + t_interval (et_timer (et s e))"

definition etimer_start_time :: "ptr \<Rightarrow> estate \<Rightarrow> clock" where
  "etimer_start_time e s = t_start (et_timer (et s e))"

definition etimer_pending :: "estate \<Rightarrow> bool" where
  "etimer_pending s \<longleftrightarrow> timerlist (mem s) \<noteq> NULL"

definition etimer_next_expiration_time :: "estate \<Rightarrow> clock" where
  "etimer_next_expiration_time s = (if etimer_pending s then next_expiration (mem s) else 0)"

partial_function (option) stop_loop :: "(ptr \<Rightarrow> etimer) \<Rightarrow> ptr \<Rightarrow> ptr \<Rightarrow> ptr option" where
  "stop_loop tm e t =
     (if t \<noteq> NULL \<and> et_next (tm t) \<noteq> e then stop_loop tm e (et_next (tm t)) else Some t)"

definition etimer_stop :: "ptr \<Rightarrow> estate \<Rightarrow> estate option" where
  "etimer_stop e s =
     Option.bind
       (if e = timerlist (mem s) then update_time (set_timerlist (et_next (et s (timerlist (mem s)))) s)
        else Option.bind (stop_loop (timers (mem s)) e (timerlist (mem s))) (\<lambda>t.
          if t \<noteq> NULL then update_time (upd_et t (et_next_update (\<lambda>_. et_next (et s e))) s)
          else Some s))
       (\<lambda>s1. Some (upd_et e (et_p_update (\<lambda>_. NULL)) (upd_et e (et_next_update (\<lambda>_. NULL)) s1)))"

section \<open>The etimer process\<close>

text \<open>The timers of a process that exits: first those at the head, then the others.\<close>

partial_function (option) exited_head_loop :: "ptr \<Rightarrow> estate \<Rightarrow> estate option" where
  "exited_head_loop p s =
     (if timerlist (mem s) \<noteq> NULL \<and> et_p (et s (timerlist (mem s))) = p
      then exited_head_loop p (set_timerlist (et_next (et s (timerlist (mem s)))) s)
      else Some s)"

partial_function (option) exited_tail_loop :: "ptr \<Rightarrow> ptr \<Rightarrow> estate \<Rightarrow> estate option" where
  "exited_tail_loop p t s =
     (if et_next (et s t) \<noteq> NULL then
        if et_p (et s (et_next (et s t))) = p
        then exited_tail_loop p t (upd_et t (et_next_update (\<lambda>_. et_next (et s (et_next (et s t))))) s)
        else exited_tail_loop p (et_next (et s t)) s
      else Some s)"

definition etimer_exited :: "ptr \<Rightarrow> estate \<Rightarrow> estate option" where
  "etimer_exited p s =
     Option.bind (exited_head_loop p s) (\<lambda>s1.
       if timerlist (mem s1) \<noteq> NULL then exited_tail_loop p (timerlist (mem s1)) s1 else Some s1)"

text \<open>The walk from \<open>again\<close>, with the previous timer \<open>u\<close> and the timer \<open>t\<close>.\<close>

partial_function (option) etimer_scan :: "ptr \<Rightarrow> ptr \<Rightarrow> estate \<Rightarrow> estate option" where
  "etimer_scan u t s =
     (if t = NULL then Some s
      else
        let (now, s1) = clock_time s
        in if timer_expired now (et_timer (et s1 t)) then
             let (r, s2) = process_post (et_p (et s1 t)) 0x88 t s1
             in if r = PROCESS_ERR_OK then
                  let s3 = upd_et t (et_p_update (\<lambda>_. NULL)) s2;
                      s4 = (if u \<noteq> NULL then upd_et u (et_next_update (\<lambda>_. et_next (et s3 t))) s3
                            else set_timerlist (et_next (et s3 t)) s3);
                      s5 = upd_et t (et_next_update (\<lambda>_. NULL)) s4
                  in Option.bind (update_time s5) (\<lambda>s6. etimer_scan NULL (timerlist (mem s6)) s6)
                else
                  let s3 = etimer_request_poll s2
                  in etimer_scan t (et_next (et s3 t)) s3
           else etimer_scan t (et_next (et s1 t)) s1)"

text \<open>One activation of the thread: \<open>started\<close> tells whether it has run to its first yield.\<close>

definition etimer_thread :: "bool \<Rightarrow> event \<Rightarrow> ptr \<Rightarrow> estate \<Rightarrow> estate option" where
  "etimer_thread started ev data s =
     (if \<not> started then Some (set_timerlist NULL s)
      else if ev = PROCESS_EVENT_EXITED then etimer_exited data s
      else if ev \<noteq> PROCESS_EVENT_POLL then Some s
      else etimer_scan NULL (timerlist (mem s)) s)"

section \<open>Updates\<close>

lemma upd_et_sel [simp]:
  "timers (mem (upd_et t f s)) = (timers (mem s))(t := f (timers (mem s) t))"
  "timerlist (mem (upd_et t f s)) = timerlist (mem s)"
  "etimer_process (mem (upd_et t f s)) = etimer_process (mem s)"
  "next_expiration (mem (upd_et t f s)) = next_expiration (mem s)"
  "clock_at (mem (upd_et t f s)) = clock_at (mem s)" "clock_reads (mem (upd_et t f s)) = clock_reads (mem s)"
  "procs (upd_et t f s) = procs s" "process_current (upd_et t f s) = process_current s"
  "events (upd_et t f s) = events s" "nevents (upd_et t f s) = nevents s" "fevent (upd_et t f s) = fevent s"
  "poll_requested (upd_et t f s) = poll_requested s"
  by (simp_all add: upd_et_def)

lemma set_timerlist_sel [simp]:
  "timers (mem (set_timerlist t s)) = timers (mem s)" "timerlist (mem (set_timerlist t s)) = t"
  "etimer_process (mem (set_timerlist t s)) = etimer_process (mem s)"
  "clock_at (mem (set_timerlist t s)) = clock_at (mem s)" "clock_reads (mem (set_timerlist t s)) = clock_reads (mem s)"
  "procs (set_timerlist t s) = procs s" "process_current (set_timerlist t s) = process_current s"
  "events (set_timerlist t s) = events s" "nevents (set_timerlist t s) = nevents s" "fevent (set_timerlist t s) = fevent s"
  "poll_requested (set_timerlist t s) = poll_requested s"
  by (simp_all add: set_timerlist_def)

lemma set_next_expiration_sel [simp]:
  "timers (mem (set_next_expiration c s)) = timers (mem s)"
  "timerlist (mem (set_next_expiration c s)) = timerlist (mem s)"
  "next_expiration (mem (set_next_expiration c s)) = c"
  "etimer_process (mem (set_next_expiration c s)) = etimer_process (mem s)"
  "clock_at (mem (set_next_expiration c s)) = clock_at (mem s)"
  "clock_reads (mem (set_next_expiration c s)) = clock_reads (mem s)"
  "procs (set_next_expiration c s) = procs s" "process_current (set_next_expiration c s) = process_current s"
  "events (set_next_expiration c s) = events s" "nevents (set_next_expiration c s) = nevents s"
  "fevent (set_next_expiration c s) = fevent s" "poll_requested (set_next_expiration c s) = poll_requested s"
  by (simp_all add: set_next_expiration_def)

lemma process_poll_sel [simp]:
  "mem (process_poll p s) = mem s" "process_current (process_poll p s) = process_current s"
  "events (process_poll p s) = events s" "nevents (process_poll p s) = nevents s"
  "fevent (process_poll p s) = fevent s" "state (procs (process_poll p s) q) = state (procs s q)"
  by (simp_all add: process_poll_def)

text \<open>Everything but the clock, the next expiration and the poll requests is as before.\<close>

definition same_timers :: "estate \<Rightarrow> estate \<Rightarrow> bool" where
  "same_timers s s' \<longleftrightarrow> timers (mem s') = timers (mem s) \<and> timerlist (mem s') = timerlist (mem s) \<and>
     etimer_process (mem s') = etimer_process (mem s) \<and> clock_at (mem s') = clock_at (mem s) \<and>
     events s' = events s \<and> nevents s' = nevents s \<and> fevent s' = fevent s \<and>
     process_current s' = process_current s \<and> (\<forall>q. state_of s' q = state_of s q) \<and>
     (poll_requested s \<longrightarrow> poll_requested s')"

lemma same_timers_refl: "same_timers s s"
  by (simp add: same_timers_def)


lemma same_timers_queue: "same_timers s s' \<Longrightarrow> event_queue s' = event_queue s \<and> queue_invar s' = queue_invar s"
  by (simp add: same_timers_def event_queue_def queue_invar_def)

lemma clock_time_same: "clock_time s = (now, s1) \<Longrightarrow> same_timers s s1 \<and> now = clock_at (mem s) (clock_reads (mem s))"
  by (auto simp: clock_time_def same_timers_def)

lemma etimer_request_poll_mem [simp]: "mem (etimer_request_poll s) = mem s"
  by (simp add: etimer_request_poll_def)


lemma request_poll_same: "same_timers s (etimer_request_poll s)"
  by (auto simp: etimer_request_poll_def same_timers_def process_poll_def)

section \<open>The list of timers and the next expiration\<close>

definition timers_ok :: "estate \<Rightarrow> ptr list \<Rightarrow> bool" where
  "timers_ok s ts \<longleftrightarrow> chain (et_nx s) (timerlist (mem s)) ts \<and> (\<forall>t \<in> set ts. et_p (et s t) \<noteq> NULL)"

text \<open>
  The recorded expiration is the one, of the active timers, that comes first counted from the
  last reading of the clock.
\<close>

definition due_next :: "estate \<Rightarrow> ptr list \<Rightarrow> bool" where
  "due_next s ts \<longleftrightarrow>
     (if ts = [] then next_expiration (mem s) = 0
      else let now = clock_at (mem s) (clock_reads (mem s) - 1)
           in \<exists>t \<in> set ts. next_expiration (mem s) = expiration (et s t) \<and>
                (\<forall>u \<in> set ts. expiration (et s t) - now \<le> expiration (et s u) - now))"

lemma same_timers_ok: "same_timers s s' \<Longrightarrow> timers_ok s' ts = timers_ok s ts"
  by (simp add: same_timers_def timers_ok_def)

lemma update_time_loop_Min:
  assumes "chain (\<lambda>t. et_next (tm t)) t ts"
  shows "update_time_loop tm now t d = Some (Min (insert d ((\<lambda>t. expiration (tm t) - now) ` set ts)))"
  using assms
proof (induction ts arbitrary: t d)
  case Nil
  then show ?case by (subst update_time_loop.simps) simp
next
  case (Cons x xs)
  let ?f = "\<lambda>t. expiration (tm t) - now"
  have min: "(if ?f x < d then ?f x else d) = min d (?f x)" by (auto simp: min_def)
  have "update_time_loop tm now t d = update_time_loop tm now (et_next (tm x)) (min d (?f x))"
    using Cons.prems by (subst update_time_loop.simps) (simp add: min)
  also have "\<dots> = Some (Min (insert (min d (?f x)) (?f ` set xs)))"
    using Cons.prems by (intro Cons.IH) simp
  also have "Min (insert (min d (?f x)) (?f ` set xs)) = Min (insert d (?f ` set (x # xs)))"
    by (cases "xs = []") (simp_all add: min.assoc)
  finally show ?case .
qed

lemma update_time_spec:
  assumes "chain (et_nx s) (timerlist (mem s)) ts"
  shows "\<exists>s'. update_time s = Some s' \<and> same_timers s s' \<and> due_next s' ts"
proof (cases ts)
  case Nil
  with assms show ?thesis
    by (intro exI [of _ "set_next_expiration 0 s"]) (simp add: update_time_def same_timers_def due_next_def)
next
  case (Cons x xs)
  obtain now s1 where c: "clock_time s = (now, s1)" by (rule prod.exhaust)
  note s1 = clock_time_same [OF c]
  let ?f = "\<lambda>t. expiration (et s t) - now"
  let ?m = "Min (insert (?f x) (?f ` set xs))"
  let ?s' = "set_next_expiration (now + ?m) s1"
  have x: "timerlist (mem s) = x" "x \<noteq> NULL" "chain (et_nx s) (et_next (et s x)) xs" using assms Cons by auto
  have "update_time s = Some ?s'"
    using x s1 update_time_loop_Min [OF x(3), of now "?f x"] by (simp add: update_time_def c same_timers_def)
  moreover have "same_timers s ?s'" using s1 by (simp add: same_timers_def)
  moreover have "due_next ?s' ts"
  proof -
    have "?m \<in> insert (?f x) (?f ` set xs)" by (rule Min_in) auto
    then obtain t where t: "t \<in> set ts" "?m = ?f t" using Cons by auto
    have "\<forall>u \<in> set ts. ?m \<le> ?f u" using Cons by (auto intro: Min_le)
    moreover have "clock_at (mem s) (clock_reads (mem s1) - 1) = now" "timers (mem s1) = timers (mem s)"
      "clock_at (mem s1) = clock_at (mem s)"
      using c by (auto simp: clock_time_def)
    ultimately show ?thesis using t Cons by (auto simp: due_next_def Let_def intro!: bexI [of _ t])
  qed
  ultimately show ?thesis by blast
qed

lemma on_list_loop_chain:
  "chain (\<lambda>t. et_next (tm t)) t ts \<Longrightarrow> on_list_loop tm e t = Some (e \<in> set ts)"
  by (induction ts arbitrary: t) (auto simp: on_list_loop.simps)

text \<open>A timer is active with the given times and will notify the current process.\<close>

definition armed :: "ptr \<Rightarrow> timer \<Rightarrow> ptr list \<Rightarrow> estate \<Rightarrow> estate \<Rightarrow> bool" where
  "armed e tm ts s s' \<longleftrightarrow>
     (let ts' = if e \<in> set ts then ts else e # ts
      in timers_ok s' ts' \<and> due_next s' ts') \<and>
     et_timer (et s' e) = tm \<and> et_p (et s' e) = process_current s \<and>
     (\<forall>u. u \<noteq> e \<longrightarrow> et_timer (et s' u) = et_timer (et s u) \<and> et_p (et s' u) = et_p (et s u)) \<and>
     event_queue s' = event_queue s \<and> process_current s' = process_current s"

lemma add_timer_armed:
  assumes ok: "timers_ok s ts" and e: "e \<noteq> NULL" and cur: "process_current s \<noteq> NULL"
  shows "\<exists>s'. add_timer e s = Some s' \<and> armed e (et_timer (et s e)) ts s s'"
proof -
  let ?s1 = "etimer_request_poll s"
  note s1 = request_poll_same [of s]
  have eqs: "timers (mem ?s1) = timers (mem s)" "timerlist (mem ?s1) = timerlist (mem s)"
    "process_current ?s1 = process_current s" using s1 by (auto simp: same_timers_def)
  have c: "chain (et_nx s) (timerlist (mem s)) ts" using ok by (simp add: timers_ok_def)
  have found: "(if et_p (et ?s1 e) \<noteq> NULL then on_list_loop (timers (mem ?s1)) e (timerlist (mem ?s1)) else Some False)
      = Some (e \<in> set ts)"
    using ok on_list_loop_chain [OF c, of e] by (auto simp: eqs timers_ok_def)
  let ?s2 = "upd_et e (et_p_update (\<lambda>_. process_current s)) ?s1"
  let ?s3 = "set_timerlist e (upd_et e (et_next_update (\<lambda>_. timerlist (mem s))) ?s2)"
  let ?r = "if e \<in> set ts then ?s2 else ?s3" and ?ts = "if e \<in> set ts then ts else e # ts"
  have add: "add_timer e s = update_time ?r" using found by (simp add: add_timer_def Let_def eqs)
  have nx2: "et_nx ?s2 = et_nx s" by (auto simp: eqs)
  have nx3: "et_nx ?s3 = (et_nx s)(e := timerlist (mem s))" by (auto simp: eqs)
  have okr: "timers_ok ?r ?ts"
  proof (cases "e \<in> set ts")
    case True
    have "timers_ok ?s2 ts" unfolding timers_ok_def nx2 using ok cur by (auto simp: timers_ok_def eqs)
    with True show ?thesis by simp
  next
    case False
    have "timers_ok ?s3 (e # ts)" unfolding timers_ok_def nx3
      using ok cur e False by (auto simp: timers_ok_def eqs)
    with False show ?thesis by simp
  qed
  then obtain s' where s': "update_time ?r = Some s'" "same_timers ?r s'" "due_next s' ?ts"
    using update_time_spec [of ?r ?ts] by (auto simp: timers_ok_def)
  have "event_queue ?r = event_queue s" using s1 by (simp add: event_queue_def same_timers_def)
  then have "armed e (et_timer (et s e)) ts s s'"
    using same_timers_ok [OF s'(2)] okr s'(2,3) same_timers_queue [OF s'(2)]
    by (simp add: armed_def Let_def same_timers_def eqs split: if_splits)
  with add s'(1) show ?thesis by simp
qed

lemma stop_loop_absent:
  "chain (\<lambda>t. et_next (tm t)) t ts \<Longrightarrow> e \<noteq> NULL \<Longrightarrow> e \<notin> set (tl ts) \<Longrightarrow> stop_loop tm e t = Some NULL"
proof (induction ts arbitrary: t)
  case (Cons x xs)
  then have "et_next (tm x) \<noteq> e" by (cases xs) auto
  moreover have "e \<notin> set (tl xs)" using Cons.prems by (cases xs) auto
  ultimately show ?case using Cons by (subst stop_loop.simps) auto
qed (simp add: stop_loop.simps)

lemma stop_loop_present:
  "chain (\<lambda>t. et_next (tm t)) t (as @ u # e # bs) \<Longrightarrow> stop_loop tm e t = Some u"
proof (induction as arbitrary: t)
  case (Cons a as)
  have "e \<noteq> et_next (tm a)"
    using chain_distinct [OF Cons.prems] Cons.prems by (cases as) auto
  with Cons show ?case by (subst stop_loop.simps) auto
qed (simp add: stop_loop.simps)

lemma et_nx_upd_next: "et_nx (upd_et t (et_next_update (\<lambda>_. v)) s) = (et_nx s)(t := v)"
  by auto

lemma et_nx_upd_p: "et_nx (upd_et t (et_p_update (\<lambda>_. v)) s) = et_nx s"
  by auto

lemma etimer_stop_spec:
  assumes ok: "timers_ok s ts" and e: "e \<noteq> NULL"
  shows "\<exists>s'. etimer_stop e s = Some s' \<and> timers_ok s' (removeAll e ts) \<and> etimer_expired e s' \<and>
    (e \<in> set ts \<longrightarrow> due_next s' (removeAll e ts)) \<and> event_queue s' = event_queue s \<and>
    (\<forall>u. u \<noteq> e \<longrightarrow> et_timer (et s' u) = et_timer (et s u) \<and> et_p (et s' u) = et_p (et s u))"
proof -
  have c: "chain (et_nx s) (timerlist (mem s)) ts" using ok by (simp add: timers_ok_def)
  let ?fin = "\<lambda>s1. upd_et e (et_p_update (\<lambda>_. NULL)) (upd_et e (et_next_update (\<lambda>_. NULL)) s1)"
  have "\<exists>r s1. etimer_stop e s = Some (?fin s1) \<and> same_timers r s1 \<and>
      timers_ok r (removeAll e ts) \<and> (e \<in> set ts \<longrightarrow> due_next s1 (removeAll e ts)) \<and>
      event_queue r = event_queue s \<and>
      (\<forall>u. et_timer (et r u) = et_timer (et s u) \<and> et_p (et r u) = et_p (et s u))"
  proof (cases "e \<in> set ts")
    case False
    then have "e \<noteq> timerlist (mem s)" "e \<notin> set (tl ts)" using c e by (cases ts; auto)+
    then have "etimer_stop e s = Some (?fin s)"
      using stop_loop_absent [OF c e] by (simp add: etimer_stop_def)
    with ok False show ?thesis by (intro exI [of _ s]) (simp add: same_timers_refl removeAll_id)
  next
    case True
    have "\<exists>r. etimer_stop e s = Option.bind (update_time r) (\<lambda>s1. Some (?fin s1)) \<and>
      timers_ok r (removeAll e ts) \<and> event_queue r = event_queue s \<and>
      (\<forall>u. et_timer (et r u) = et_timer (et s u) \<and> et_p (et r u) = et_p (et s u))"
    proof (cases "e = timerlist (mem s)")
      case first: True
      with c True obtain bs where ts: "ts = e # bs" by (cases ts) auto
      let ?r = "set_timerlist (et_next (et s e)) s"
      have "e \<notin> set bs" using chain_distinct [OF c] ts by simp
      then have "timers_ok ?r (removeAll e ts)" using ok ts by (simp add: timers_ok_def)
      then show ?thesis using first by (intro exI [of _ ?r]) (simp add: etimer_stop_def event_queue_def)
    next
      case False
      from True obtain xs ys where ts: "ts = xs @ e # ys" by (auto simp: in_set_conv_decomp)
      with False c obtain as u where xs: "xs = as @ [u]" by (cases xs rule: rev_cases) auto
      let ?r = "upd_et u (et_next_update (\<lambda>_. et_next (et s e))) s"
      have cc: "chain (et_nx s) (timerlist (mem s)) (as @ u # e # ys)" using c ts xs by simp
      have "u \<noteq> NULL" using chain_not_NULL [OF cc] by auto
      moreover have "removeAll e ts = as @ u # ys" using chain_distinct [OF cc] ts xs by simp
      moreover have "timers_ok ?r (as @ u # ys)"
        unfolding timers_ok_def et_nx_upd_next using chain_skip [OF cc] ok ts xs by (auto simp: timers_ok_def)
      ultimately show ?thesis using False stop_loop_present [OF cc]
        by (intro exI [of _ ?r]) (simp add: etimer_stop_def event_queue_def)
    qed
    then obtain r where r: "etimer_stop e s = Option.bind (update_time r) (\<lambda>s1. Some (?fin s1))"
      "timers_ok r (removeAll e ts)" "event_queue r = event_queue s"
      "\<forall>u. et_timer (et r u) = et_timer (et s u) \<and> et_p (et r u) = et_p (et s u)" by blast
    from r(2) have "chain (et_nx r) (timerlist (mem r)) (removeAll e ts)" by (simp add: timers_ok_def)
    from update_time_spec [OF this] obtain s1 where "update_time r = Some s1" "same_timers r s1"
      "due_next s1 (removeAll e ts)" by blast
    with r show ?thesis by auto
  qed
  then obtain r s1 where s1: "etimer_stop e s = Some (?fin s1)" "same_timers r s1"
    "timers_ok r (removeAll e ts)" "e \<in> set ts \<longrightarrow> due_next s1 (removeAll e ts)"
    "event_queue r = event_queue s"
    "\<forall>u. et_timer (et r u) = et_timer (et s u) \<and> et_p (et r u) = et_p (et s u)" by blast
  have "timers_ok s1 (removeAll e ts)" using s1(2,3) same_timers_ok by blast
  then have "timers_ok (?fin s1) (removeAll e ts)"
    unfolding timers_ok_def et_nx_upd_p et_nx_upd_next by auto
  moreover have "due_next (?fin s1) (removeAll e ts)" if "due_next s1 (removeAll e ts)"
    using that by (auto simp: due_next_def Let_def expiration_def split: if_splits)
  ultimately show ?thesis using s1 same_timers_queue [OF s1(2)]
    by (intro exI [of _ "?fin s1"]) (auto simp: etimer_expired_def event_queue_def same_timers_def)
qed

lemma exited_head_loop_spec:
  "chain (et_nx s) (timerlist (mem s)) ts \<Longrightarrow>
   \<exists>h. exited_head_loop p s = Some (set_timerlist h s) \<and>
     chain (et_nx s) h (dropWhile (\<lambda>t. et_p (et s t) = p) ts)"
proof (induction ts arbitrary: s)
  case Nil
  then have "set_timerlist NULL s = s" by (simp add: set_timerlist_def)
  with Nil show ?case by (intro exI [of _ NULL]) (subst exited_head_loop.simps, simp)
next
  case (Cons x xs)
  then have x: "timerlist (mem s) = x" "x \<noteq> NULL" by auto
  show ?case
  proof (cases "et_p (et s x) = p")
    case True
    have "set_timerlist h (set_timerlist y s) = set_timerlist h s" for h y by (simp add: set_timerlist_def)
    with Cons.IH [of "set_timerlist (et_next (et s x)) s"] Cons.prems x True show ?thesis
      by (subst exited_head_loop.simps) auto
  next
    case False
    have "set_timerlist x s = s" using x by (simp add: set_timerlist_def)
    with False x Cons.prems show ?thesis
      by (intro exI [of _ x]) (subst exited_head_loop.simps, simp)
  qed
qed

lemma exited_tail_loop_spec:
  "chain (et_nx s) h (as @ t # bs) \<Longrightarrow>
   \<exists>s'. exited_tail_loop p t s = Some s' \<and> chain (et_nx s') h (as @ t # filter (\<lambda>t. et_p (et s t) \<noteq> p) bs) \<and>
     timerlist (mem s') = timerlist (mem s) \<and> event_queue s' = event_queue s \<and>
     (\<forall>u. et_timer (et s' u) = et_timer (et s u) \<and> et_p (et s' u) = et_p (et s u))"
proof (induction bs arbitrary: s as t)
  case Nil
  then have "et_next (et s t) = NULL" by (simp add: chain_append)
  with Nil show ?case by (subst exited_tail_loop.simps) simp
next
  case (Cons b bs)
  then have b: "et_next (et s t) = b" "b \<noteq> NULL" by (auto simp: chain_append)
  show ?case
  proof (cases "et_p (et s b) = p")
    case True
    let ?s = "upd_et t (et_next_update (\<lambda>_. et_next (et s b))) s"
    have step: "exited_tail_loop p t s = exited_tail_loop p t ?s"
      using b True by (subst exited_tail_loop.simps) simp
    have "chain (et_nx ?s) h (as @ t # bs)" unfolding et_nx_upd_next using Cons.prems by (rule chain_skip)
    from Cons.IH [OF this] obtain s' where s': "exited_tail_loop p t ?s = Some s'"
      "chain (et_nx s') h (as @ t # filter (\<lambda>u. et_p (et ?s u) \<noteq> p) bs)"
      "timerlist (mem s') = timerlist (mem ?s)" "event_queue s' = event_queue ?s"
      "\<forall>u. et_timer (et s' u) = et_timer (et ?s u) \<and> et_p (et s' u) = et_p (et ?s u)" by blast
    have p: "et_p (et ?s u) = et_p (et s u)" "et_timer (et ?s u) = et_timer (et s u)" for u by simp_all
    from s' True show ?thesis by (intro exI [of _ s']) (simp only: step p, simp add: event_queue_def)
  next
    case False
    have step: "exited_tail_loop p t s = exited_tail_loop p b s"
      using b False by (subst exited_tail_loop.simps) simp
    from Cons.IH [of s "as @ [t]" b] Cons.prems False show ?thesis by (simp add: step)
  qed
qed

lemma filter_dropWhile: "filter P (dropWhile (\<lambda>x. \<not> P x) xs) = filter P xs"
  by (induction xs) auto

lemma etimer_exited_spec:
  assumes ok: "timers_ok s ts"
  shows "\<exists>s'. etimer_exited p s = Some s' \<and> timers_ok s' (filter (\<lambda>t. et_p (et s t) \<noteq> p) ts) \<and>
    event_queue s' = event_queue s \<and>
    (\<forall>u. et_timer (et s' u) = et_timer (et s u) \<and> et_p (et s' u) = et_p (et s u))"
proof -
  let ?ds = "dropWhile (\<lambda>t. et_p (et s t) = p) ts" and ?f = "filter (\<lambda>t. et_p (et s t) \<noteq> p)"
  have c: "chain (et_nx s) (timerlist (mem s)) ts" using ok by (simp add: timers_ok_def)
  have f: "?f ?ds = ?f ts" using filter_dropWhile [of "\<lambda>t. et_p (et s t) \<noteq> p" ts] by simp
  obtain h where h: "exited_head_loop p s = Some (set_timerlist h s)" "chain (et_nx s) h ?ds"
    using exited_head_loop_spec [OF c] by blast
  show ?thesis
  proof (cases ?ds)
    case Nil
    with h have "etimer_exited p s = Some (set_timerlist h s)" by (simp add: etimer_exited_def)
    moreover have "?f ts = []" using f Nil by simp
    ultimately show ?thesis using h(2) Nil
      by (intro exI [of _ "set_timerlist h s"]) (simp add: timers_ok_def event_queue_def)
  next
    case (Cons d ds)
    with h(2) have d: "h = d" "d \<noteq> NULL" "chain (et_nx (set_timerlist h s)) h ([] @ d # ds)" by auto
    have keep: "et_p (et s d) \<noteq> p" using hd_dropWhile [of "\<lambda>t. et_p (et s t) = p" ts] Cons by simp
    from exited_tail_loop_spec [OF d(3), of p] obtain s' where s': "exited_tail_loop p d (set_timerlist h s) = Some s'"
      "chain (et_nx s') h (d # ?f ds)" "timerlist (mem s') = h" "event_queue s' = event_queue s"
      "\<forall>u. et_timer (et s' u) = et_timer (et s u) \<and> et_p (et s' u) = et_p (et s u)"
      by (auto simp: event_queue_def)
    have "?f ts = d # ?f ds" using f Cons keep by simp
    moreover have "etimer_exited p s = Some s'" using h d s' by (simp add: etimer_exited_def)
    moreover have "\<forall>t \<in> set (?f ts). et_p (et s t) \<noteq> NULL" using ok by (auto simp: timers_ok_def)
    then have "timers_ok s' (?f ts)" using s'(2,3,5) calculation(1) by (simp add: timers_ok_def)
    ultimately show ?thesis using s'(4,5) by blast
  qed
qed

section \<open>The poll handler\<close>
















section \<open>The properties\<close>

definition demo_etimers :: "(ptr \<Rightarrow> etimer) \<Rightarrow> ptr \<Rightarrow> ptr \<Rightarrow> estate" where
  "demo_etimers tm h cur = \<lparr>procs = (\<lambda>_. demo_process 0 80), process_list = 8, process_current = cur,
     lastevent = 0x8a, nevents = 0, fevent = 0,
     events = replicate 32 \<lparr>ed_ev = 0, ed_data = 0, ed_p = 0\<rparr>, poll_requested = False,
     mem = \<lparr>timers = tm, timerlist = h, next_expiration = 0, etimer_process = 8,
            clock_at = (\<lambda>_. 1000), clock_reads = 0\<rparr>\<rparr>"

definition demo_timer :: "clock \<Rightarrow> clock \<Rightarrow> ptr \<Rightarrow> ptr \<Rightarrow> etimer" where
  "demo_timer st iv nx p = \<lparr>et_timer = \<lparr>t_start = st, t_interval = iv\<rparr>, et_next = nx, et_p = p\<rparr>"

text \<open>
  C31: Arming a timer from a process - setting, restarting or resetting it - returns, puts it on the
  list of active timers unless it is there already, with the start time and the interval asked
  for and the current process as the one to notify; no other timer changes, and the recorded
  next expiration is the first one among the active timers, counted from the clock across its
  wrap-around.
\<close>

theorem etimer_arming:
  assumes "timers_ok s ts" "e \<noteq> NULL" "process_current s \<noteq> NULL"
  shows "(\<exists>s'. etimer_set e interval s = Some s' \<and>
      armed e \<lparr>t_start = clock_at (mem s) (clock_reads (mem s)), t_interval = interval\<rparr> ts s s') \<and>
    (\<exists>s'. etimer_restart e s = Some s' \<and>
      armed e ((et_timer (et s e))\<lparr>t_start := clock_at (mem s) (clock_reads (mem s))\<rparr>) ts s s') \<and>
    (\<exists>s'. etimer_reset e s = Some s' \<and> armed e (timer_reset (et_timer (et s e))) ts s s') \<and>
    (\<exists>s'. etimer_reset_with_new_interval e interval s = Some s' \<and>
      armed e ((timer_reset (et_timer (et s e)))\<lparr>t_interval := interval\<rparr>) ts s s')"
proof -
  have arm: "\<exists>s'. add_timer e (upd_et e (et_timer_update f) s1) = Some s' \<and> armed e (f (et_timer (et s e))) ts s s'"
    if "same_timers s s1" for f s1
  proof -
    let ?s2 = "upd_et e (et_timer_update f) s1"
    have nx: "et_nx ?s2 = et_nx s" using that by (auto simp: same_timers_def)
    have eq: "timers (mem s1) = timers (mem s)" "process_current s1 = process_current s"
      "event_queue ?s2 = event_queue s"
      using that same_timers_queue [OF that] by (auto simp: same_timers_def event_queue_def)
    have "timers_ok ?s2 ts" unfolding timers_ok_def nx using assms(1) that by (auto simp: timers_ok_def same_timers_def)
    then obtain s' where "add_timer e ?s2 = Some s'" "armed e (et_timer (et ?s2 e)) ts ?s2 s'"
      using add_timer_armed [of ?s2 ts e] assms(2,3) eq(2) by auto
    then show ?thesis by (auto simp: armed_def eq)
  qed
  obtain now s1 where c: "clock_time s = (now, s1)" by (rule prod.exhaust)
  note s1 = clock_time_same [OF c]
  have set: "timer_set n interval t = \<lparr>t_start = n, t_interval = interval\<rparr>" for n t
    by (cases t) (simp add: timer_set_def)
  show ?thesis
    using arm [of s1 "timer_set now interval"] arm [of s1 "timer_restart now"] arm [OF same_timers_refl, of timer_reset]
      arm [OF same_timers_refl, of "t_interval_update (\<lambda>_. interval) \<circ> timer_reset"] s1
    by (simp add: etimer_set_def etimer_restart_def etimer_reset_def etimer_reset_with_new_interval_def c
        timer_restart_def set)
qed

theorem etimer_arming_witness:
  "\<exists>s'. etimer_set 64 30 (demo_etimers (\<lambda>_. demo_timer 0 0 0 8) 32 8) = Some s' \<and>
     armed 64 \<lparr>t_start = 1000, t_interval = 30\<rparr> [32] (demo_etimers (\<lambda>_. demo_timer 0 0 0 8) 32 8) s'"
proof -
  let ?s = "demo_etimers (\<lambda>_. demo_timer 0 0 0 8) 32 8"
  have "timers_ok ?s [32]" "process_current ?s \<noteq> NULL" "clock_at (mem ?s) (clock_reads (mem ?s)) = 1000"
    by (simp_all add: timers_ok_def demo_etimers_def demo_timer_def)
  with etimer_arming [of ?s "[32]" 64 30] show ?thesis by simp
qed

text \<open>The state in which \<open>call_process\<close> runs the thread of the timer process.\<close>

definition entered :: "estate \<Rightarrow> estate" where
  "entered s = set_state (etimer_process (mem s)) PROCESS_STATE_CALLED (s\<lparr>process_current := etimer_process (mem s)\<rparr>)"

lemma entered_sel [simp]:
  "mem (entered s) = mem s" "events (entered s) = events s" "nevents (entered s) = nevents s" "fevent (entered s) = fevent s"
  "state_of (entered s) (etimer_process (mem s)) = PROCESS_STATE_CALLED"
  by (simp_all add: entered_def set_state_def upd_proc_def)




text \<open>
  Stopping a timer takes exactly that timer off the list and marks it as expired; when a process
  exits, exactly the timers that would notify it are taken off the list. No other timer is
  touched and no event is queued.
\<close>

theorem etimer_stop_and_exit:
  assumes "timers_ok s ts" "e \<noteq> NULL"
  shows "(\<exists>s'. etimer_stop e s = Some s' \<and> timers_ok s' (removeAll e ts) \<and> etimer_expired e s' \<and>
      event_queue s' = event_queue s \<and>
      (\<forall>u. u \<noteq> e \<longrightarrow> et_timer (et s' u) = et_timer (et s u) \<and> et_p (et s' u) = et_p (et s u))) \<and>
    (\<exists>s'. etimer_thread True PROCESS_EVENT_EXITED p s = Some s' \<and>
      timers_ok s' (filter (\<lambda>t. et_p (et s t) \<noteq> p) ts) \<and> event_queue s' = event_queue s \<and>
      (\<forall>u. et_timer (et s' u) = et_timer (et s u) \<and> et_p (et s' u) = et_p (et s u)))"
proof
  show "\<exists>s'. etimer_stop e s = Some s' \<and> timers_ok s' (removeAll e ts) \<and> etimer_expired e s' \<and>
      event_queue s' = event_queue s \<and>
      (\<forall>u. u \<noteq> e \<longrightarrow> et_timer (et s' u) = et_timer (et s u) \<and> et_p (et s' u) = et_p (et s u))"
    using etimer_stop_spec [OF assms] by blast
qed (use etimer_exited_spec [OF assms(1), of p] in \<open>simp add: etimer_thread_def\<close>)

theorem etimer_stop_and_exit_witness:
  "\<exists>s'. etimer_stop 32 (demo_etimers ((\<lambda>_. demo_timer 0 0 0 8) (32 := demo_timer 0 0 64 8)) 32 8) = Some s' \<and>
     timers_ok s' [64] \<and> etimer_expired 32 s'"
proof -
  let ?s = "demo_etimers ((\<lambda>_. demo_timer 0 0 0 8) (32 := demo_timer 0 0 64 8)) 32 8"
  have "timers_ok ?s [32, 64]" by (simp add: timers_ok_def demo_etimers_def demo_timer_def)
  from etimer_stop_and_exit [OF this, of 32 8] show ?thesis by auto
qed

lemma update_time_loop_cycle: "et_next (tm t) = t \<Longrightarrow> t \<noteq> NULL \<Longrightarrow> update_time_loop tm now t d = None"
proof (rule ccontr)
  assume "et_next (tm t) = t" "t \<noteq> NULL" "update_time_loop tm now t d \<noteq> None"
  then obtain r where "update_time_loop tm now t d = Some r" by blast
  then have "\<not> (et_next (tm t) = t \<and> t \<noteq> NULL)"
    by (rule update_time_loop.raw_induct [of "\<lambda>tm now t d r. \<not> (et_next (tm t) = t \<and> t \<noteq> NULL)", rotated])
      (auto split: if_splits, blast+)
  with \<open>et_next (tm t) = t\<close> \<open>t \<noteq> NULL\<close> show False by blast
qed

lemma add_timer_cycle:
  assumes "et_p (et s e) = NULL" "timerlist (mem s) = e" "e \<noteq> NULL"
  shows "add_timer e s = None"
  using assms
  by (simp add: add_timer_def Let_def update_time_def clock_time_def update_time_loop_cycle)

text \<open>
  A timer that is set while no process is current has no process to notify, and is therefore
  taken for inactive: setting it once more puts it on the list a second time, the list becomes
  a cycle, and the call does not return.
\<close>

theorem etimer_set_twice_without_process:
  "\<exists>s1. etimer_set 32 30 (demo_etimers (\<lambda>_. demo_timer 0 0 0 0) 0 0) = Some s1 \<and>
     etimer_set 32 30 s1 = None"
proof -
  let ?s = "demo_etimers (\<lambda>_. demo_timer 0 0 0 0) 0 0"
  have "\<exists>s1. etimer_set 32 30 ?s = Some s1 \<and> et_p (et s1 32) = NULL \<and> timerlist (mem s1) = 32"
    by (simp add: etimer_set_def add_timer_def Let_def update_time_def clock_time_def demo_etimers_def
        demo_timer_def update_time_loop.simps [of _ _ NULL] etimer_request_poll_def process_poll_def)
  then obtain s1 where "etimer_set 32 30 ?s = Some s1" "et_p (et s1 32) = NULL" "timerlist (mem s1) = 32" by blast
  moreover from this(2,3) have "etimer_set 32 30 s1 = None"
    by (simp add: etimer_set_def clock_time_def add_timer_cycle)
  ultimately show ?thesis by blast
qed

end
