(* ===== verification/Mpn.thy ===== *)
theory Mpn
  imports Nespy_Prelude
begin

unbundle bit_operations_syntax

text \<open>
  The digit-array arithmetic of MicroPython's big integers: the \<open>mpn_*\<close> functions of
  \<open>py/mpz.c\<close>. A digit array together with its length argument is a list of digits, least
  significant first. The configuration modelled is the one of the 32-bit ports:
  \<open>MPZ_DIG_SIZE = 16\<close> (\<open>py/mpz.h\<close>), so a digit is a \<open>uint16_t\<close>, a double digit a
  \<open>uint32_t\<close>, and the bitwise functions are those of \<open>MICROPY_OPT_MPZ_BITWISE = 1\<close>. Digits
  and double digits are natural numbers; every double-digit computation of the code is
  reduced modulo \<open>2 ^ MPZ_DBL_DIG_SIZE\<close> by \<open>dbl\<close>, every stored digit modulo \<open>DIG_BASE\<close> by
  \<open>dig\<close> or the code's own mask. Where an output array may be the same memory as an input,
  each position is read before it is written, so the functions on lists give the contents
  of the output array.
\<close>

section \<open>Digits and their value\<close>

definition DIG_SIZE :: nat where
  "DIG_SIZE = 16"

definition MPZ_DBL_DIG_SIZE :: nat where
  "MPZ_DBL_DIG_SIZE = 32"

definition DIG_BASE :: nat where
  "DIG_BASE = 2 ^ DIG_SIZE"

definition DIG_MASK :: nat where
  "DIG_MASK = 2 ^ DIG_SIZE - 1"

definition DIG_MSB :: nat where
  "DIG_MSB = 2 ^ (DIG_SIZE - 1)"

text \<open>Conversion to \<open>mpz_dbl_dig_t\<close> and to \<open>mpz_dig_t\<close>.\<close>

definition dbl :: "nat \<Rightarrow> nat" where
  "dbl x = x mod 2 ^ MPZ_DBL_DIG_SIZE"

definition dig :: "nat \<Rightarrow> nat" where
  "dig x = x mod 2 ^ DIG_SIZE"

text \<open>Conversion to \<open>mpz_dbl_dig_signed_t\<close>.\<close>

definition sdbl :: "int \<Rightarrow> int" where
  "sdbl x = (x + 2 ^ (MPZ_DBL_DIG_SIZE - 1)) mod 2 ^ MPZ_DBL_DIG_SIZE - 2 ^ (MPZ_DBL_DIG_SIZE - 1)"

text \<open>The number an array of digits stands for.\<close>

fun dval :: "nat list \<Rightarrow> nat" where
  "dval [] = 0"
| "dval (d # ds) = d + DIG_BASE * dval ds"

definition digits_ok :: "nat list \<Rightarrow> bool" where
  "digits_ok ds \<longleftrightarrow> (\<forall>d \<in> set ds. d < DIG_BASE)"

definition normalised :: "nat list \<Rightarrow> bool" where
  "normalised ds \<longleftrightarrow> ds = [] \<or> last ds \<noteq> 0"

section \<open>Operations\<close>

fun mpn_remove_trailing_zeros :: "nat list \<Rightarrow> nat \<Rightarrow> nat" where
  "mpn_remove_trailing_zeros ds 0 = 0"
| "mpn_remove_trailing_zeros ds (Suc i) =
     (if ds ! i = 0 then mpn_remove_trailing_zeros ds i else Suc i)"

fun mpn_cmp_loop :: "nat list \<Rightarrow> nat list \<Rightarrow> nat \<Rightarrow> int" where
  "mpn_cmp_loop is js 0 = 0"
| "mpn_cmp_loop is js (Suc n) =
     (let cmp = sdbl (int (is ! n) - int (js ! n))
      in if cmp < 0 then -1 else if cmp > 0 then 1 else mpn_cmp_loop is js n)"

definition mpn_cmp :: "nat list \<Rightarrow> nat list \<Rightarrow> int" where
  "mpn_cmp is js =
     (if length is < length js then -1
      else if length is > length js then 1
      else mpn_cmp_loop is js (length is))"

text \<open>
  \<open>mpn_shl\<close>: from the most significant digit down. The loop gets the digits of \<open>j\<close> from
  the top and collects the digits written, least significant first.
\<close>

fun mpn_shl_loop :: "nat \<Rightarrow> nat \<Rightarrow> nat list \<Rightarrow> nat list \<Rightarrow> nat \<times> nat list" where
  "mpn_shl_loop n_part d [] out = (d, out)"
| "mpn_shl_loop n_part d (j # js) out =
     (let d1 = d OR j
      in mpn_shl_loop n_part (dbl (push_bit DIG_SIZE d1)) js
           ((drop_bit (DIG_SIZE - n_part) d1 AND DIG_MASK) # out))"

definition mpn_shl :: "nat list \<Rightarrow> nat \<Rightarrow> nat list" where
  "mpn_shl js n =
     (let n_whole = (n + DIG_SIZE - 1) div DIG_SIZE;
          n_part = (if n mod DIG_SIZE = 0 then DIG_SIZE else n mod DIG_SIZE);
          (d, out) = mpn_shl_loop n_part 0 (rev js) [];
          idig = replicate (n_whole - 1) 0 @ (drop_bit (DIG_SIZE - n_part) d AND DIG_MASK) # out
      in take (mpn_remove_trailing_zeros idig (length js + n_whole)) idig)"

fun mpn_shr_loop :: "nat \<Rightarrow> nat list \<Rightarrow> nat list" where
  "mpn_shr_loop n_part [] = []"
| "mpn_shr_loop n_part [j] = [drop_bit n_part j AND DIG_MASK]"
| "mpn_shr_loop n_part (j # k # js) =
     (drop_bit n_part (j OR dbl (push_bit DIG_SIZE k)) AND DIG_MASK) # mpn_shr_loop n_part (k # js)"

definition mpn_shr :: "nat list \<Rightarrow> nat \<Rightarrow> nat list" where
  "mpn_shr js n =
     (let n_whole = n div DIG_SIZE; n_part = n mod DIG_SIZE
      in if n_whole \<ge> length js then []
         else let idig = mpn_shr_loop n_part (drop n_whole js)
              in if last idig = 0 then butlast idig else idig)"

text \<open>\<open>mpn_add\<close>: the loop over both numbers, the loop over the rest of \<open>j\<close>, the carry.\<close>

fun mpn_add_loop :: "nat \<Rightarrow> nat list \<Rightarrow> nat list \<Rightarrow> nat list" where
  "mpn_add_loop carry (j # js) (k # ks) =
     (let c = dbl (carry + dbl (j + k))
      in (c AND DIG_MASK) # mpn_add_loop (drop_bit DIG_SIZE c) js ks)"
| "mpn_add_loop carry (j # js) [] =
     (let c = dbl (carry + j)
      in (c AND DIG_MASK) # mpn_add_loop (drop_bit DIG_SIZE c) js [])"
| "mpn_add_loop carry [] ks = (if carry \<noteq> 0 then [dig carry] else [])"

definition mpn_add :: "nat list \<Rightarrow> nat list \<Rightarrow> nat list" where
  "mpn_add js ks = mpn_add_loop 0 js ks"

fun mpn_sub_loop :: "int \<Rightarrow> nat list \<Rightarrow> nat list \<Rightarrow> nat list" where
  "mpn_sub_loop borrow (j # js) (k # ks) =
     (let b = sdbl (borrow + (int j - int k))
      in nat (b AND int DIG_MASK) # mpn_sub_loop (drop_bit DIG_SIZE b) js ks)"
| "mpn_sub_loop borrow (j # js) [] =
     (let b = sdbl (borrow + int j)
      in nat (b AND int DIG_MASK) # mpn_sub_loop (drop_bit DIG_SIZE b) js [])"
| "mpn_sub_loop borrow [] ks = []"

definition mpn_sub :: "nat list \<Rightarrow> nat list \<Rightarrow> nat list" where
  "mpn_sub js ks =
     (let idig = mpn_sub_loop 0 js ks
      in take (mpn_remove_trailing_zeros idig (length idig)) idig)"

fun mpn_mul_dig_add_dig_loop :: "nat \<Rightarrow> nat list \<Rightarrow> nat \<Rightarrow> nat list" where
  "mpn_mul_dig_add_dig_loop carry [] dmul = (if carry \<noteq> 0 then [dig carry] else [])"
| "mpn_mul_dig_add_dig_loop carry (i # is) dmul =
     (let c = dbl (carry + dbl (i * dmul))
      in (c AND DIG_MASK) # mpn_mul_dig_add_dig_loop (drop_bit DIG_SIZE c) is dmul)"

definition mpn_mul_dig_add_dig :: "nat list \<Rightarrow> nat \<Rightarrow> nat \<Rightarrow> nat list" where
  "mpn_mul_dig_add_dig is dmul dadd = mpn_mul_dig_add_dig_loop dadd is dmul"

text \<open>
  \<open>mpn_mul\<close>: one row adds \<open>j * k\<close> into the output array from the current position and
  says how many digits it touched; the outer loop runs over the digits of \<open>k\<close>.
\<close>

fun mpn_mul_row :: "nat \<Rightarrow> nat list \<Rightarrow> nat list \<Rightarrow> nat \<Rightarrow> nat list \<times> nat" where
  "mpn_mul_row carry ids [] k = (if carry \<noteq> 0 then (ids[0 := dig carry], 1) else (ids, 0))"
| "mpn_mul_row carry (i # ids) (j # js) k =
     (let c = dbl (carry + dbl (i + dbl (j * k)));
          (r, n) = mpn_mul_row (drop_bit DIG_SIZE c) ids js k
      in ((c AND DIG_MASK) # r, Suc n))"
| "mpn_mul_row carry [] (j # js) k = ([], 0)"

fun mpn_mul_loop :: "nat list \<Rightarrow> nat list \<Rightarrow> nat list \<Rightarrow> nat \<Rightarrow> nat \<Rightarrow> nat list \<times> nat" where
  "mpn_mul_loop idig js [] off ilen = (idig, ilen)"
| "mpn_mul_loop idig js (k # ks) off ilen =
     (let (r, n) = mpn_mul_row 0 idig js k;
          (r', ilen') = mpn_mul_loop (tl r) js ks (Suc off) (off + n)
      in (hd r # r', ilen'))"

definition mpn_mul :: "nat list \<Rightarrow> nat list \<Rightarrow> nat list \<Rightarrow> nat list" where
  "mpn_mul idig js ks = (let (r, ilen) = mpn_mul_loop idig js ks 0 0 in take ilen r)"

section \<open>Arithmetic of the digit operators\<close>

named_theorems dig_arith \<open>masks, shifts and conversions as mod, div and times\<close>

lemma DIG_BASE_eq: "DIG_BASE = 65536"
  by (simp add: DIG_BASE_def DIG_SIZE_def)

lemma DIG_BASE_pos [simp]: "0 < DIG_BASE"
  by (simp add: DIG_BASE_def)

lemma DIG_BASE_nz [simp]: "DIG_BASE \<noteq> 0"
  by (simp add: DIG_BASE_def)

lemma DIG_BASE_gt1: "1 < DIG_BASE"
  by (simp add: DIG_BASE_eq)

lemma dbl_base: "2 ^ MPZ_DBL_DIG_SIZE = DIG_BASE * DIG_BASE"
  by (simp add: MPZ_DBL_DIG_SIZE_def DIG_BASE_eq)

lemma dbl_id [dig_arith]: "x < DIG_BASE * DIG_BASE \<Longrightarrow> dbl x = x"
  by (simp add: dbl_def dbl_base)

lemma dig_eq [dig_arith]: "dig x = x mod DIG_BASE"
  by (simp add: dig_def DIG_BASE_def)

lemma and_DIG_MASK [dig_arith]: "x AND DIG_MASK = x mod DIG_BASE"
proof -
  have "x AND mask DIG_SIZE = take_bit DIG_SIZE x" by (simp add: take_bit_eq_mask)
  then show ?thesis by (simp add: DIG_MASK_def DIG_BASE_def mask_nat_def take_bit_eq_mod)
qed

lemma drop_bit_DIG_SIZE [dig_arith]: "drop_bit DIG_SIZE x = x div DIG_BASE"
  by (simp add: drop_bit_eq_div DIG_BASE_def)

lemma push_bit_DIG_SIZE [dig_arith]: "push_bit DIG_SIZE x = x * DIG_BASE"
  by (simp add: push_bit_eq_mult DIG_BASE_def)

lemma and_DIG_MASK_int [dig_arith]: "x AND int DIG_MASK = x mod int DIG_BASE"
proof -
  have "x AND mask DIG_SIZE = take_bit DIG_SIZE x" by (simp add: take_bit_eq_mask)
  then show ?thesis
    by (simp add: DIG_MASK_def DIG_BASE_def mask_eq_exp_minus_1 take_bit_eq_mod of_nat_diff)
qed

lemma drop_bit_DIG_SIZE_int [dig_arith]: "drop_bit DIG_SIZE (x::int) = x div int DIG_BASE"
  by (simp add: drop_bit_eq_div DIG_BASE_def)

lemma sdbl_id:
  "- (2 ^ 31) \<le> x \<Longrightarrow> x < 2 ^ 31 \<Longrightarrow> sdbl x = x"
  by (simp add: sdbl_def MPZ_DBL_DIG_SIZE_def)

lemma sdbl_0 [simp]: "sdbl 0 = 0"
  by (simp add: sdbl_id)

lemma div_DIG_BASE_le1: "x < 2 * DIG_BASE \<Longrightarrow> x div DIG_BASE \<le> 1"
  using less_mult_imp_div_less [of x 2 DIG_BASE] by simp

lemma div_DIG_BASE_borrow:
  assumes "- int DIG_BASE \<le> x" "x < int DIG_BASE"
  shows "-1 \<le> x div int DIG_BASE" "x div int DIG_BASE \<le> 0"
  using assms by (simp_all add: DIG_BASE_eq)

lemma mod_minus_mult: "(a - b * m) mod m = a mod (m::int)"
  by (metis diff_add_cancel mod_mult_self1)

lemma or_low_high: "b < DIG_BASE \<Longrightarrow> a * DIG_BASE OR b = a * DIG_BASE + (b::nat)"
proof -
  assume b: "b < DIG_BASE"
  have "push_bit DIG_SIZE a AND take_bit DIG_SIZE b = 0"
    by (rule bit_eqI) (auto simp: bit_simps)
  moreover have "take_bit DIG_SIZE b = b" using b by (simp add: take_bit_nat_eq_self DIG_BASE_def)
  ultimately have "push_bit DIG_SIZE a AND b = 0" by simp
  then show ?thesis by (simp add: disjunctive_add_eq_or [symmetric] flip: push_bit_DIG_SIZE)
qed

section \<open>Value and normal form\<close>

lemma digits_ok_simps [simp]:
  "digits_ok []"
  "digits_ok (d # ds) \<longleftrightarrow> d < DIG_BASE \<and> digits_ok ds"
  "digits_ok (ds @ es) \<longleftrightarrow> digits_ok ds \<and> digits_ok es"
  by (auto simp: digits_ok_def)

lemma digits_ok_rev [simp]: "digits_ok (rev ds) = digits_ok ds"
  by (simp add: digits_ok_def)

lemma digits_ok_replicate [simp]: "digits_ok (replicate n 0)"
  by (simp add: digits_ok_def)

lemma digits_ok_take: "digits_ok ds \<Longrightarrow> digits_ok (take n ds)"
  by (auto simp: digits_ok_def dest: in_set_takeD)

lemma digits_ok_drop: "digits_ok ds \<Longrightarrow> digits_ok (drop n ds)"
  by (auto simp: digits_ok_def dest: in_set_dropD)

lemma digits_ok_butlast: "digits_ok ds \<Longrightarrow> digits_ok (butlast ds)"
  by (auto simp: digits_ok_def dest: in_set_butlastD)

lemma digits_ok_nth: "digits_ok ds \<Longrightarrow> i < length ds \<Longrightarrow> ds ! i < DIG_BASE"
  by (simp add: digits_ok_def)

lemma dval_append: "dval (ds @ es) = dval ds + DIG_BASE ^ length ds * dval es"
  by (induction ds) (auto simp: algebra_simps)

lemma dval_replicate_0 [simp]: "dval (replicate n 0) = 0"
  by (induction n) auto

lemma dval_less: "digits_ok ds \<Longrightarrow> dval ds < DIG_BASE ^ length ds"
proof (induction ds)
  case (Cons d ds)
  then have "d + DIG_BASE * dval ds < DIG_BASE + DIG_BASE * dval ds" by simp
  also have "\<dots> = DIG_BASE * Suc (dval ds)" by simp
  also have "\<dots> \<le> DIG_BASE * DIG_BASE ^ length ds"
    using Cons by (intro mult_le_mono2) simp
  finally show ?case by simp
qed simp

lemma dval_eq_0_iff: "dval ds = 0 \<longleftrightarrow> (\<forall>d \<in> set ds. d = 0)"
  by (induction ds) auto

lemma dval_all_zero: "(\<forall>d \<in> set ds. d = 0) \<Longrightarrow> dval ds = 0"
  by (simp add: dval_eq_0_iff)

lemma normalised_Nil [simp]: "normalised []"
  by (simp add: normalised_def)

lemma dval_ge: "normalised ds \<Longrightarrow> ds \<noteq> [] \<Longrightarrow> DIG_BASE ^ (length ds - 1) \<le> dval ds"
proof -
  assume n: "normalised ds" "ds \<noteq> []"
  then obtain es d where ds: "ds = es @ [d]" by (cases ds rule: rev_cases) auto
  with n have "1 \<le> d" by (simp add: normalised_def)
  then have "DIG_BASE ^ length es \<le> DIG_BASE ^ length es * d"
    using mult_le_mono2 [of 1 d "DIG_BASE ^ length es"] by simp
  then show ?thesis by (simp add: ds dval_append trans_le_add2 del: mult_le_cancel1)
qed

lemma dval_0_normalised: "normalised ds \<Longrightarrow> dval ds = 0 \<longleftrightarrow> ds = []"
  using last_in_set [of ds] by (cases "ds = []") (auto simp: normalised_def dval_eq_0_iff)

text \<open>With well-formed normalised digits, the length is determined by the value.\<close>

lemma length_le_of_dval:
  assumes "digits_ok is" "normalised js" "dval js \<le> dval is"
  shows "length js \<le> length is"
proof (rule ccontr)
  assume "\<not> length js \<le> length is"
  then have "js \<noteq> []" "length is \<le> length js - 1" by auto
  then have "DIG_BASE ^ length is \<le> DIG_BASE ^ (length js - 1)"
    by (intro power_increasing) (auto simp: Suc_le_eq)
  also have "\<dots> \<le> dval js" using assms(2) \<open>js \<noteq> []\<close> by (rule dval_ge)
  also have "\<dots> \<le> dval is" by (rule assms(3))
  also have "\<dots> < DIG_BASE ^ length is" using assms(1) by (rule dval_less)
  finally show False by simp
qed

lemma dval_inj:
  "length is = length js \<Longrightarrow> digits_ok is \<Longrightarrow> digits_ok js \<Longrightarrow> dval is = dval js \<Longrightarrow> is = js"
proof (induction "is" js rule: list_induct2)
  case (Cons i "is" j js)
  have "(i + DIG_BASE * dval is) mod DIG_BASE = (j + DIG_BASE * dval js) mod DIG_BASE"
    using Cons.prems by simp
  then have "i = j" using Cons.prems by simp
  with Cons show ?case by simp
qed simp

section \<open>Stripping leading zero digits\<close>

lemma mpn_remove_trailing_zeros_le: "mpn_remove_trailing_zeros ds n \<le> n"
  by (induction n) auto

lemma strip_normalised:
  "n \<le> length ds \<Longrightarrow> normalised (take (mpn_remove_trailing_zeros ds n) ds)"
  by (induction n) (auto simp: normalised_def take_Suc_conv_app_nth)

lemma dval_strip:
  "n \<le> length ds \<Longrightarrow> dval (take (mpn_remove_trailing_zeros ds n) ds) = dval (take n ds)"
proof (induction n)
  case (Suc n)
  then show ?case by (auto simp: take_Suc_conv_app_nth dval_append)
qed simp

lemma strip_all:
  "dval (take (mpn_remove_trailing_zeros ds (length ds)) ds) = dval ds"
  "normalised (take (mpn_remove_trailing_zeros ds (length ds)) ds)"
  "digits_ok ds \<Longrightarrow> digits_ok (take (mpn_remove_trailing_zeros ds (length ds)) ds)"
  by (simp_all add: strip_normalised dval_strip digits_ok_take)

lemmas strip_facts = strip_normalised dval_strip digits_ok_take

section \<open>Comparison\<close>

lemma sdbl_digit_diff:
  "i < DIG_BASE \<Longrightarrow> j < DIG_BASE \<Longrightarrow> sdbl (int i - int j) = int i - int j"
  by (simp add: sdbl_id DIG_BASE_eq)

lemma dval_top_less:
  assumes "digits_ok is" "digits_ok js" "length is = length js" "a < (b::nat)"
  shows "dval (is @ [a]) < dval (js @ [b])"
proof -
  have "dval (is @ [a]) < DIG_BASE ^ length is * Suc a"
    using dval_less [OF assms(1)] by (simp add: dval_append)
  also have "\<dots> \<le> DIG_BASE ^ length is * b" using assms(4) by (intro mult_le_mono2) simp
  also have "\<dots> \<le> dval (js @ [b])" by (simp add: dval_append assms(3))
  finally show ?thesis .
qed

lemma mpn_cmp_loop_sgn:
  "digits_ok is \<Longrightarrow> digits_ok js \<Longrightarrow> n \<le> length is \<Longrightarrow> n \<le> length js \<Longrightarrow>
   mpn_cmp_loop is js n = sgn (int (dval (take n is)) - int (dval (take n js)))"
proof (induction n)
  case (Suc n)
  let ?i = "is ! n" and ?j = "js ! n"
  have b: "?i < DIG_BASE" "?j < DIG_BASE" using Suc.prems by (auto intro: digits_ok_nth)
  have t: "take (Suc n) is = take n is @ [?i]" "take (Suc n) js = take n js @ [?j]"
    using Suc.prems by (simp_all add: take_Suc_conv_app_nth)
  have ok: "digits_ok (take n is)" "digits_ok (take n js)" "length (take n is) = length (take n js)"
    using Suc.prems by (auto intro: digits_ok_take)
  consider "?i < ?j" | "?i > ?j" | "?i = ?j" by linarith
  then show ?case
  proof cases
    case 1
    then show ?thesis using dval_top_less [OF ok 1] b t by (simp add: sdbl_digit_diff)
  next
    case 2
    then show ?thesis
      using dval_top_less [OF ok(2,1) ok(3) [symmetric] 2] b t by (simp add: sdbl_digit_diff)
  next
    case 3
    then show ?thesis using Suc b t ok(3) by (simp add: sdbl_digit_diff dval_append)
  qed
qed simp

text \<open>On normalised numbers \<open>mpn_cmp\<close> is the sign of the difference.\<close>

lemma mpn_cmp_sgn:
  assumes "digits_ok is" "normalised is" "digits_ok js" "normalised js"
  shows "mpn_cmp is js = sgn (int (dval is) - int (dval js))"
proof -
  consider "length is < length js" | "length is > length js" | "length is = length js" by linarith
  then show ?thesis
  proof cases
    case 1
    then have "dval is < dval js"
      using length_le_of_dval [OF assms(1,4)] by (meson not_le_imp_less not_le)
    with 1 show ?thesis by (simp add: mpn_cmp_def)
  next
    case 2
    then have "dval js < dval is"
      using length_le_of_dval [OF assms(3,2)] by (meson not_le_imp_less not_le)
    with 2 show ?thesis by (simp add: mpn_cmp_def)
  next
    case 3
    with assms show ?thesis by (simp add: mpn_cmp_def mpn_cmp_loop_sgn)
  qed
qed

section \<open>Addition\<close>

lemma mpn_add_loop_correct:
  "digits_ok js \<Longrightarrow> digits_ok ks \<Longrightarrow> length ks \<le> length js \<Longrightarrow> carry \<le> 1 \<Longrightarrow>
   dval (mpn_add_loop carry js ks) = carry + dval js + dval ks \<and>
   digits_ok (mpn_add_loop carry js ks)"
proof (induction carry js ks rule: mpn_add_loop.induct)
  case (1 carry j js k ks)
  let ?c = "carry + (j + k)"
  have c: "dbl (carry + dbl (j + k)) = ?c"
    using 1 by (simp add: dbl_id DIG_BASE_eq)
  have "?c div DIG_BASE \<le> 1" using 1 by (intro div_DIG_BASE_le1) simp
  with 1 c show ?case
    by (simp add: dig_arith Let_def algebra_simps)
next
  case (2 carry j js)
  let ?c = "carry + j"
  have c: "dbl ?c = ?c" using 2 by (simp add: dbl_id DIG_BASE_eq)
  have "?c div DIG_BASE \<le> 1" using 2 DIG_BASE_gt1 by (intro div_DIG_BASE_le1) simp
  with 2 c show ?case by (simp add: dig_arith Let_def algebra_simps)
next
  case (3 carry ks)
  then show ?case using DIG_BASE_gt1 by (auto simp: dig_arith)
qed

lemma mpn_add_correct:
  "digits_ok js \<Longrightarrow> digits_ok ks \<Longrightarrow> length ks \<le> length js \<Longrightarrow>
   dval (mpn_add js ks) = dval js + dval ks \<and> digits_ok (mpn_add js ks)"
  using mpn_add_loop_correct [of js ks 0] by (simp add: mpn_add_def)

lemma length_mpn_add_loop:
  "length ks \<le> length js \<Longrightarrow>
   length js \<le> length (mpn_add_loop carry js ks) \<and> length (mpn_add_loop carry js ks) \<le> Suc (length js)"
  by (induction carry js ks rule: mpn_add_loop.induct) (auto simp: Let_def)

text \<open>The output is normalised: it has as many digits as \<open>j\<close> and is at least \<open>j\<close>, or ends in the carry.\<close>

lemma normalisedI_length:
  assumes "digits_ok ds" and "ds \<noteq> []" and "DIG_BASE ^ (length ds - 1) \<le> dval ds"
  shows "normalised ds"
proof -
  from assms(2) obtain es d where ds: "ds = es @ [d]" by (cases ds rule: rev_cases) auto
  have "d \<noteq> 0"
  proof
    assume "d = 0"
    then have "dval ds < DIG_BASE ^ length es"
      using dval_less [of es] assms(1) by (simp add: ds dval_append)
    with assms(3) show False by (simp add: ds)
  qed
  then show ?thesis by (simp add: normalised_def ds)
qed

lemma mpn_add_loop_carry_last:
  assumes "length ks \<le> length js" and "length (mpn_add_loop carry js ks) = Suc (length js)"
    and "digits_ok js" "digits_ok ks" "carry \<le> 1"
  shows "last (mpn_add_loop carry js ks) \<noteq> 0"
  using assms
proof (induction carry js ks rule: mpn_add_loop.induct)
  case (1 carry j js k ks)
  have c: "dbl (carry + dbl (j + k)) = carry + (j + k)" using 1 by (simp add: dbl_id DIG_BASE_eq)
  have "(carry + (j + k)) div DIG_BASE \<le> 1" using 1 by (intro div_DIG_BASE_le1) simp
  with 1 c show ?case by (auto simp: Let_def dig_arith)
next
  case (2 carry j js)
  have c: "dbl (carry + j) = carry + j" using 2 by (simp add: dbl_id DIG_BASE_eq)
  have "(carry + j) div DIG_BASE \<le> 1" using 2 DIG_BASE_gt1 by (intro div_DIG_BASE_le1) simp
  with 2 c show ?case by (auto simp: Let_def dig_arith)
next
  case (3 carry ks)
  then show ?case using DIG_BASE_gt1 by (auto simp: dig_arith split: if_splits)
qed

lemma mpn_add_normalised:
  assumes "digits_ok js" "digits_ok ks" "length ks \<le> length js" "normalised js"
  shows "normalised (mpn_add js ks)"
proof (cases "length (mpn_add js ks) = Suc (length js)")
  case True
  then show ?thesis
    using mpn_add_loop_carry_last [OF assms(3) _ assms(1,2), of 0]
    by (simp add: mpn_add_def normalised_def)
next
  case False
  then have len: "length (mpn_add js ks) = length js"
    using length_mpn_add_loop [OF assms(3), of 0] by (simp add: mpn_add_def)
  show ?thesis
  proof (cases "js = []")
    case True
    with assms(3) show ?thesis by (simp add: mpn_add_def)
  next
    case False
    then have "DIG_BASE ^ (length js - 1) \<le> dval (mpn_add js ks)"
      using dval_ge [OF assms(4)] mpn_add_correct [OF assms(1-3)] by simp
    with False len mpn_add_correct [OF assms(1-3)] show ?thesis
      by (intro normalisedI_length) auto
  qed
qed

section \<open>Subtraction\<close>

lemma mpn_sub_loop_correct:
  "digits_ok js \<Longrightarrow> digits_ok ks \<Longrightarrow> length ks \<le> length js \<Longrightarrow> -1 \<le> borrow \<Longrightarrow> borrow \<le> 0 \<Longrightarrow>
   (\<exists>b. int (dval (mpn_sub_loop borrow js ks)) =
      borrow + int (dval js) - int (dval ks) - b * int (DIG_BASE ^ length js)) \<and>
   digits_ok (mpn_sub_loop borrow js ks) \<and> length (mpn_sub_loop borrow js ks) = length js"
proof (induction borrow js ks rule: mpn_sub_loop.induct)
  case (1 borrow j js k ks)
  let ?x = "borrow + (int j - int k)" and ?B = "int DIG_BASE"
  have x: "sdbl ?x = ?x" using 1 by (simp add: sdbl_id DIG_BASE_eq)
  have "-1 \<le> ?x div ?B" "?x div ?B \<le> 0" using 1 by (intro div_DIG_BASE_borrow; simp)+
  with 1 x obtain b where b: "int (dval (mpn_sub_loop (?x div ?B) js ks)) =
      ?x div ?B + int (dval js) - int (dval ks) - b * int (DIG_BASE ^ length js)"
    and ok: "digits_ok (mpn_sub_loop (?x div ?B) js ks)"
      "length (mpn_sub_loop (?x div ?B) js ks) = length js"
    by (auto simp: dig_arith)
  have m: "int (nat (?x mod ?B)) = ?x mod ?B" "nat (?x mod ?B) < DIG_BASE"
    by (simp_all add: nat_less_iff)
  have "int (dval (mpn_sub_loop borrow (j # js) (k # ks))) =
      ?x mod ?B + ?B * (?x div ?B + int (dval js) - int (dval ks) - b * int (DIG_BASE ^ length js))"
    using x b m by (simp add: Let_def dig_arith)
  also have "\<dots> = (?B * (?x div ?B) + ?x mod ?B) + ?B * int (dval js) - ?B * int (dval ks)
      - b * (?B * int (DIG_BASE ^ length js))"
    by (simp add: algebra_simps)
  also have "\<dots> = borrow + int (dval (j # js)) - int (dval (k # ks))
      - b * int (DIG_BASE ^ length (j # js))"
    by simp
  finally show ?case using x ok m by (auto simp: Let_def dig_arith)
next
  case (2 borrow j js)
  let ?x = "borrow + int j" and ?B = "int DIG_BASE"
  have x: "sdbl ?x = ?x" using 2 by (simp add: sdbl_id DIG_BASE_eq)
  have "-1 \<le> ?x div ?B" "?x div ?B \<le> 0"
    using 2 DIG_BASE_gt1 by (intro div_DIG_BASE_borrow; simp)+
  with 2 x obtain b where b: "int (dval (mpn_sub_loop (?x div ?B) js [])) =
      ?x div ?B + int (dval js) - b * int (DIG_BASE ^ length js)"
    and ok: "digits_ok (mpn_sub_loop (?x div ?B) js [])"
      "length (mpn_sub_loop (?x div ?B) js []) = length js"
    by (auto simp: dig_arith)
  have m: "int (nat (?x mod ?B)) = ?x mod ?B" "nat (?x mod ?B) < DIG_BASE"
    by (simp_all add: nat_less_iff)
  have "int (dval (mpn_sub_loop borrow (j # js) [])) =
      ?x mod ?B + ?B * (?x div ?B + int (dval js) - b * int (DIG_BASE ^ length js))"
    using x b m by (simp add: Let_def dig_arith)
  also have "\<dots> = (?B * (?x div ?B) + ?x mod ?B) + ?B * int (dval js)
      - b * (?B * int (DIG_BASE ^ length js))"
    by (simp add: algebra_simps)
  also have "\<dots> = borrow + int (dval (j # js)) - int (dval [])
      - b * int (DIG_BASE ^ length (j # js))"
    by simp
  finally show ?case using x ok m by (auto simp: Let_def dig_arith)
next
  case (3 borrow ks)
  then show ?case by (auto intro: exI [of _ borrow])
qed

lemma mpn_sub_correct:
  assumes "digits_ok js" "digits_ok ks" "length ks \<le> length js" "dval ks \<le> dval js"
  shows "dval (mpn_sub js ks) = dval js - dval ks \<and> digits_ok (mpn_sub js ks) \<and>
         normalised (mpn_sub js ks) \<and> length (mpn_sub js ks) \<le> length js"
proof -
  let ?ds = "mpn_sub_loop 0 js ks" and ?M = "DIG_BASE ^ length js"
  from mpn_sub_loop_correct [OF assms(1-3), of 0] obtain b where
    b: "int (dval ?ds) = int (dval js) - int (dval ks) - b * int ?M"
    and ok: "digits_ok ?ds" "length ?ds = length js" by auto
  have lt: "dval ?ds < ?M" using dval_less [OF ok(1)] ok(2) by simp
  have lt2: "dval js - dval ks < ?M" using dval_less [OF assms(1)] by simp
  have "int (dval ?ds) mod int ?M = (int (dval js - dval ks)) mod int ?M"
    using b assms(4) by (simp add: of_nat_diff mod_minus_mult)
  then have "int (dval ?ds) = int (dval js - dval ks)" using lt lt2 by (simp del: of_nat_power)
  then have "dval ?ds = dval js - dval ks" by simp
  then show ?thesis
    using ok mpn_remove_trailing_zeros_le [of ?ds "length ?ds"]
    by (simp add: mpn_sub_def Let_def strip_facts min_def)
qed

section \<open>Multiplication\<close>

lemma mul_carry_bound:
  assumes "i < DIG_BASE" "j < DIG_BASE" "k < DIG_BASE" "c < DIG_BASE"
  shows "c + (i + j * k) < DIG_BASE * DIG_BASE"
proof -
  have "j * k \<le> (DIG_BASE - 1) * (DIG_BASE - 1)" using assms by (intro mult_le_mono) auto
  moreover have "(DIG_BASE - 1) * (DIG_BASE - 1) + 2 * (DIG_BASE - 1) = DIG_BASE * DIG_BASE - 1"
    by (simp add: DIG_BASE_eq)
  moreover have "0 < DIG_BASE * DIG_BASE" by simp
  ultimately show ?thesis using assms by linarith
qed

lemma div_DIG_BASE_less: "x < DIG_BASE * DIG_BASE \<Longrightarrow> x div DIG_BASE < DIG_BASE"
  by (rule less_mult_imp_div_less)

text \<open>The double-digit accumulation of a product never wraps around.\<close>

lemma mul_dbl_id:
  assumes "i < DIG_BASE" "j < DIG_BASE" "k < DIG_BASE" "c < DIG_BASE"
  shows "dbl (c + dbl (i + dbl (j * k))) = c + (i + j * k)"
  using mul_carry_bound [OF assms] by (simp add: dbl_id)

lemma mpn_mul_dig_add_dig_loop_correct:
  "digits_ok is \<Longrightarrow> carry < DIG_BASE \<Longrightarrow> dmul < DIG_BASE \<Longrightarrow>
   dval (mpn_mul_dig_add_dig_loop carry is dmul) = dval is * dmul + carry \<and>
   digits_ok (mpn_mul_dig_add_dig_loop carry is dmul)"
proof (induction carry "is" dmul rule: mpn_mul_dig_add_dig_loop.induct)
  case (1 carry dmul)
  then show ?case by (simp add: dig_arith)
next
  case (2 carry i "is" dmul)
  let ?c = "carry + i * dmul"
  have b: "?c < DIG_BASE * DIG_BASE"
    using mul_carry_bound [of 0 i dmul carry] 2 by simp
  then have c: "dbl (carry + dbl (i * dmul)) = ?c" by (simp add: dbl_id)
  have "?c div DIG_BASE < DIG_BASE" using b by (rule div_DIG_BASE_less)
  with 2 c have "dval (mpn_mul_dig_add_dig_loop (?c div DIG_BASE) is dmul) = dval is * dmul + ?c div DIG_BASE"
    "digits_ok (mpn_mul_dig_add_dig_loop (?c div DIG_BASE) is dmul)"
    by (auto simp: dig_arith)
  with c show ?case by (simp add: dig_arith Let_def distrib_left distrib_right)
qed

lemma mpn_mul_dig_add_dig_correct:
  "digits_ok is \<Longrightarrow> dadd < DIG_BASE \<Longrightarrow> dmul < DIG_BASE \<Longrightarrow>
   dval (mpn_mul_dig_add_dig is dmul dadd) = dval is * dmul + dadd \<and>
   digits_ok (mpn_mul_dig_add_dig is dmul dadd)"
  by (simp add: mpn_mul_dig_add_dig_def mpn_mul_dig_add_dig_loop_correct)

lemma length_mpn_mul_dig_add_dig_loop:
  "length is \<le> length (mpn_mul_dig_add_dig_loop carry is dmul) \<and>
   length (mpn_mul_dig_add_dig_loop carry is dmul) \<le> Suc (length is)"
  by (induction carry "is" dmul rule: mpn_mul_dig_add_dig_loop.induct) (auto simp: Let_def)

text \<open>Either one more digit, the nonzero carry, or as many digits as before.\<close>

lemma mpn_mul_dig_add_dig_loop_last:
  "length (mpn_mul_dig_add_dig_loop carry is dmul) = Suc (length is) \<Longrightarrow> digits_ok is \<Longrightarrow>
   carry < DIG_BASE \<Longrightarrow> dmul < DIG_BASE \<Longrightarrow> last (mpn_mul_dig_add_dig_loop carry is dmul) \<noteq> 0"
proof (induction carry "is" dmul rule: mpn_mul_dig_add_dig_loop.induct)
  case (1 carry dmul)
  then show ?case by (auto simp: dig_arith split: if_splits)
next
  case (2 carry i "is" dmul)
  have b: "carry + i * dmul < DIG_BASE * DIG_BASE"
    using mul_carry_bound [of 0 i dmul carry] 2 by simp
  then have "dbl (carry + dbl (i * dmul)) = carry + i * dmul" by (simp add: dbl_id)
  moreover have "(carry + i * dmul) div DIG_BASE < DIG_BASE" using b by (rule div_DIG_BASE_less)
  ultimately show ?case using 2 by (auto simp: Let_def dig_arith)
qed

lemma mpn_mul_dig_add_dig_normalised:
  assumes "digits_ok is" "normalised is" "dadd < DIG_BASE" "dmul < DIG_BASE" "0 < dmul"
  shows "normalised (mpn_mul_dig_add_dig is dmul dadd)"
proof (cases "length (mpn_mul_dig_add_dig is dmul dadd) = Suc (length is)")
  case True
  then show ?thesis
    using mpn_mul_dig_add_dig_loop_last [of dadd "is" dmul] assms
    by (simp add: mpn_mul_dig_add_dig_def normalised_def)
next
  case False
  then have len: "length (mpn_mul_dig_add_dig is dmul dadd) = length is"
    using length_mpn_mul_dig_add_dig_loop [of "is" dadd dmul] by (simp add: mpn_mul_dig_add_dig_def)
  note c = mpn_mul_dig_add_dig_correct [OF assms(1,3,4)]
  show ?thesis
  proof (cases "is = []")
    case True
    with len show ?thesis by simp
  next
    case False
    have "DIG_BASE ^ (length is - 1) \<le> dval is * 1" using dval_ge [OF assms(2) False] by simp
    also have "\<dots> \<le> dval is * dmul" using assms(5) by (intro mult_le_mono2) simp
    finally show ?thesis using c len False by (intro normalisedI_length) auto
  qed
qed

text \<open>
  One row: over an array that holds \<open>is\<close> (as long as \<open>js\<close>) followed by \<open>rest\<close>, the digits of
  \<open>is + js * k + carry\<close> modulo the base to the length, and the overflow digit.
\<close>

lemma mpn_mul_row_correct:
  "length is = length js \<Longrightarrow> digits_ok is \<Longrightarrow> digits_ok js \<Longrightarrow> k < DIG_BASE \<Longrightarrow> carry < DIG_BASE \<Longrightarrow>
   \<exists>ds c. mpn_mul_row carry (is @ rest) js k =
        (ds @ (if c \<noteq> 0 then rest[0 := c] else rest), length js + (if c \<noteq> 0 then 1 else 0)) \<and>
      length ds = length js \<and> digits_ok ds \<and> c < DIG_BASE \<and>
      dval ds + DIG_BASE ^ length js * c = dval is + dval js * k + carry"
proof (induction "is" js arbitrary: carry rule: list_induct2)
  case Nil
  then show ?case by (auto simp: dig_arith intro!: exI [of _ "[]"] exI [of _ carry])
next
  case (Cons i "is" j js)
  let ?x = "carry + (i + j * k)"
  have x: "dbl (carry + dbl (i + dbl (j * k))) = ?x" using Cons.prems by (intro mul_dbl_id) auto
  have b: "?x div DIG_BASE < DIG_BASE"
    using Cons.prems by (intro div_DIG_BASE_less mul_carry_bound) auto
  from Cons.IH [of "?x div DIG_BASE"] b Cons.prems obtain ds c where r:
    "mpn_mul_row (?x div DIG_BASE) (is @ rest) js k =
        (ds @ (if c \<noteq> 0 then rest[0 := c] else rest), length js + (if c \<noteq> 0 then 1 else 0))"
    "length ds = length js" "digits_ok ds" "c < DIG_BASE"
    "dval ds + DIG_BASE ^ length js * c = dval is + dval js * k + ?x div DIG_BASE"
    by auto
  have "dval (?x mod DIG_BASE # ds) + DIG_BASE ^ length (j # js) * c =
      ?x mod DIG_BASE + DIG_BASE * (dval ds + DIG_BASE ^ length js * c)"
    by (simp add: distrib_left mult.assoc)
  also have "\<dots> = (?x mod DIG_BASE + DIG_BASE * (?x div DIG_BASE)) + DIG_BASE * (dval is + dval js * k)"
    unfolding r(5) by (simp add: distrib_left)
  also have "\<dots> = dval (i # is) + dval (j # js) * k + carry"
    by (simp add: algebra_simps)
  finally have "dval (?x mod DIG_BASE # ds) + DIG_BASE ^ length (j # js) * c =
      dval (i # is) + dval (j # js) * k + carry" .
  with r(1-4) x show ?case
    by (intro exI [of _ "?x mod DIG_BASE # ds"] exI [of _ c]) (simp add: dig_arith Let_def)
qed

lemma mpn_mul_loop_correct:
  "digits_ok ks \<Longrightarrow> length is = length js \<Longrightarrow> digits_ok is \<Longrightarrow> digits_ok js \<Longrightarrow> js \<noteq> [] \<Longrightarrow>
   length ks \<le> n \<Longrightarrow> mpn_mul_loop (is @ replicate n 0) js ks off ilen = (r, l) \<Longrightarrow>
   dval r = dval is + dval js * dval ks \<and> digits_ok r \<and> length r = length js + n \<and>
   (ks \<noteq> [] \<longrightarrow> normalised js \<longrightarrow> normalised ks \<longrightarrow>
      off < l \<and> l \<le> off + length js + length ks \<and> r ! (l - off - 1) \<noteq> 0 \<and> (\<forall>d \<in> set (drop (l - off) r). d = 0))"
proof (induction ks arbitrary: "is" n off ilen r l)
  case Nil
  then show ?case by (auto simp: dval_append)
next
  case (Cons k ks)
  from Cons.prems obtain m where n: "n = Suc m" by (cases n) auto
  from Cons.prems obtain ds c where row:
    "mpn_mul_row 0 (is @ replicate n 0) js k =
        (ds @ (if c \<noteq> 0 then (replicate n 0)[0 := c] else replicate n 0),
         length js + (if c \<noteq> 0 then 1 else 0))"
    "length ds = length js" "digits_ok ds" "c < DIG_BASE"
    "dval ds + DIG_BASE ^ length js * c = dval is + dval js * k"
    using mpn_mul_row_correct [of "is" js k 0 "replicate n 0"] by auto
  have arr: "(if c \<noteq> 0 then (replicate n 0)[0 := c] else replicate n 0) = c # replicate m 0"
    by (simp add: n)
  obtain d ds' where ds: "ds = d # ds'" using row(2) Cons.prems(5) by (cases ds) auto
  let ?is = "ds' @ [c]"
  let ?l0 = "off + (length js + (if c \<noteq> 0 then 1 else 0))"
  obtain r' l' where rec: "mpn_mul_loop (?is @ replicate m 0) js ks (Suc off) ?l0 = (r', l')"
    by (rule prod.exhaust)
  have rl: "r = d # r'" "l = l'"
    using Cons.prems(7) row(1) arr ds rec by (simp_all add: Let_def)
  have pre: "digits_ok ks" "length ?is = length js" "digits_ok ?is" "length ks \<le> m"
    using Cons.prems row ds n by auto
  note IH = Cons.IH [OF pre(1-3) Cons.prems(4,5) pre(4) rec]
  have "dval r = d + DIG_BASE * (dval ?is + dval js * dval ks)" using IH rl by simp
  also have "\<dots> = (d + DIG_BASE * dval ds' + DIG_BASE ^ length js * c) + DIG_BASE * (dval js * dval ks)"
    using row(2) ds by (simp add: dval_append distrib_left)
      (metis length_Cons mult.assoc power_Suc)
  also have "\<dots> = dval is + dval js * dval (k # ks)"
    using row(5) ds by (simp add: algebra_simps)
  finally have val: "dval r = dval is + dval js * dval (k # ks)" .
  have top: "off < l \<and> l \<le> off + length js + length (k # ks) \<and> r ! (l - off - 1) \<noteq> 0 \<and> (\<forall>d \<in> set (drop (l - off) r). d = 0)"
    if nj: "normalised js" and nk: "normalised (k # ks)"
  proof (cases "ks = []")
    case True
    with rec have l0: "l = ?l0" "r' = ?is @ replicate m 0" using rl by auto
    show ?thesis
    proof (cases "c = 0")
      case False
      have "length js = Suc (length ds')" using row(2) ds by simp
      with False l0 rl True show ?thesis by (auto simp: nth_append nth_Cons')
    next
      case c0: True
      have "DIG_BASE ^ (length ds - 1) \<le> dval js * 1"
        using dval_ge [OF nj Cons.prems(5)] row(2) by simp
      also have "\<dots> \<le> dval js * k" using nk True by (intro mult_le_mono2) (simp add: normalised_def)
      also have "\<dots> \<le> dval ds" using row(5) c0 by simp
      finally have "normalised ds" using row(3) ds by (intro normalisedI_length) auto
      then have "last ds \<noteq> 0" using ds by (auto simp: normalised_def)
      moreover have r: "r = ds @ replicate n 0" using l0 rl ds c0 n by (simp add: replicate_append_same)
      moreover have l: "l - off = length ds" using l0 c0 row(2) by simp
      moreover have "r ! (l - off - 1) = last ds" using r l ds by (simp add: nth_append last_conv_nth)
      ultimately show ?thesis using l0 c0 row(2) Cons.prems(5) by auto
    qed
  next
    case False
    then have "normalised ks" using nk by (simp add: normalised_def)
    with IH nj False have "Suc off < l'" "l' \<le> Suc off + length js + length ks"
      "r' ! (l' - Suc off - 1) \<noteq> 0" "\<forall>d \<in> set (drop (l' - Suc off) r'). d = 0" by auto
    moreover from this(1) obtain e where "l' = Suc (Suc off) + e" by (auto simp: less_iff_Suc_add)
    ultimately show ?thesis using rl by simp
  qed
  show ?case using val IH rl row(3) ds n top by auto
qed

text \<open>
  \<open>mpn_mul\<close> into a zeroed array with room for all digits: the normalised product. The array
  is at least as long as the two lengths together, as \<open>mpz_mul_inpl\<close> provides.
\<close>

lemma mpn_mul_correct:
  assumes "digits_ok js" "digits_ok ks" "normalised js" "normalised ks" "js \<noteq> []" "ks \<noteq> []"
    and "length js + length ks \<le> n"
  shows "dval (mpn_mul (replicate n 0) js ks) = dval js * dval ks \<and>
         digits_ok (mpn_mul (replicate n 0) js ks) \<and> normalised (mpn_mul (replicate n 0) js ks) \<and>
         length (mpn_mul (replicate n 0) js ks) \<le> length js + length ks"
proof -
  obtain r l where rl: "mpn_mul_loop (replicate n 0) js ks 0 0 = (r, l)" by (rule prod.exhaust)
  have split: "replicate n 0 = replicate (length js) 0 @ replicate (n - length js) (0::nat)"
    using assms(7) by (simp add: replicate_add [symmetric])
  from rl split have rl': "mpn_mul_loop (replicate (length js) 0 @ replicate (n - length js) 0) js ks 0 0 = (r, l)"
    by simp
  have c: "dval r = dval js * dval ks" "digits_ok r" "length r = n" "0 < l"
    "l \<le> length js + length ks" "r ! (l - 1) \<noteq> 0" "\<forall>d \<in> set (drop l r). d = 0"
    using mpn_mul_loop_correct [OF assms(2) _ _ assms(1,5) _ rl'] assms by auto
  have "dval r = dval (take l r) + DIG_BASE ^ length (take l r) * dval (drop l r)"
    by (metis append_take_drop_id dval_append)
  then have "dval (take l r) = dval js * dval ks" using c(1,7) by (simp add: dval_all_zero)
  moreover obtain e where "l = Suc e" using c(4) by (cases l) auto
  then have "normalised (take l r)"
    using c assms(7) by (simp add: normalised_def take_Suc_conv_app_nth)
  ultimately show ?thesis using rl c by (simp add: mpn_mul_def digits_ok_take)
qed

end
