(* ===== verification/Mpn_Bits.thy ===== *)
theory Mpn_Bits
  imports Mpn
begin

unbundle bit_operations_syntax

text \<open>
  Shifts and bitwise operations on digit arrays (\<open>mpn_shl\<close>, \<open>mpn_shr\<close>, \<open>mpn_and\<close>,
  \<open>mpn_and_neg\<close>, \<open>mpn_or\<close>, \<open>mpn_or_neg\<close>, \<open>mpn_xor\<close>, \<open>mpn_xor_neg\<close> of \<open>py/mpz.c\<close>). The functions
  on negative numbers run carries through the digits of the operands and of the result at
  once; they are shown to compute two's complement \<open>AND\<close>, \<open>OR\<close> and \<open>XOR\<close> of the signed
  values. An \<open>assert\<close> of the code that fails is the result \<open>None\<close>.
\<close>

section \<open>Operations\<close>

fun mpn_and_loop :: "nat list \<Rightarrow> nat list \<Rightarrow> nat list" where
  "mpn_and_loop (j # js) (k # ks) = (j AND k) # mpn_and_loop js ks"
| "mpn_and_loop js ks = []"

definition mpn_and :: "nat list \<Rightarrow> nat list \<Rightarrow> nat list" where
  "mpn_and js ks =
     (let idig = mpn_and_loop js ks
      in take (mpn_remove_trailing_zeros idig (length idig)) idig)"

text \<open>
  The next digit of \<open>k\<close>, or nothing once its \<open>klen\<close> digits are used up: the code's
  \<open>(--klen <= --jlen) ? (*kdig++ ^ kmask) : kmask\<close>.
\<close>

definition k_digit :: "nat list \<Rightarrow> nat \<Rightarrow> nat" where
  "k_digit ks kmask = (case ks of [] \<Rightarrow> kmask | k # _ \<Rightarrow> k XOR kmask)"

fun mpn_and_neg_loop ::
  "nat \<Rightarrow> nat \<Rightarrow> nat \<Rightarrow> nat \<Rightarrow> nat \<Rightarrow> nat \<Rightarrow> nat list \<Rightarrow> nat list \<Rightarrow> nat list" where
  "mpn_and_neg_loop imask jmask kmask carryi carryj carryk [] ks =
     (if carryi \<noteq> 0 then [dig carryi] else [])"
| "mpn_and_neg_loop imask jmask kmask carryi carryj carryk (j # js) ks =
     (let cj = dbl (carryj + (j XOR jmask));
          ck = dbl (carryk + k_digit ks kmask);
          ci = dbl (carryi + (((cj AND ck) XOR imask) AND DIG_MASK))
      in (ci AND DIG_MASK) #
         mpn_and_neg_loop imask jmask kmask
           (drop_bit DIG_SIZE ci) (drop_bit DIG_SIZE cj) (drop_bit DIG_SIZE ck) js (tl ks))"

definition mpn_and_neg ::
  "nat list \<Rightarrow> nat list \<Rightarrow> nat \<Rightarrow> nat \<Rightarrow> nat \<Rightarrow> nat list" where
  "mpn_and_neg js ks carryi carryj carryk =
     (let imask = (if 0 = carryi then 0 else DIG_MASK);
          jmask = (if 0 = carryj then 0 else DIG_MASK);
          kmask = (if 0 = carryk then 0 else DIG_MASK);
          idig = mpn_and_neg_loop imask jmask kmask carryi carryj carryk js ks
      in take (mpn_remove_trailing_zeros idig (length idig)) idig)"

fun mpn_or :: "nat list \<Rightarrow> nat list \<Rightarrow> nat list" where
  "mpn_or (j # js) (k # ks) = (j OR k) # mpn_or js ks"
| "mpn_or js [] = js"
| "mpn_or [] ks = []"

fun mpn_or_neg_loop ::
  "nat \<Rightarrow> nat \<Rightarrow> nat \<Rightarrow> nat \<Rightarrow> nat \<Rightarrow> nat list \<Rightarrow> nat list \<Rightarrow> nat list option" where
  "mpn_or_neg_loop jmask kmask carryi carryj carryk [] ks =
     (if carryi = 0 then Some [] else None)"
| "mpn_or_neg_loop jmask kmask carryi carryj carryk (j # js) ks =
     (let cj = dbl (carryj + (j XOR jmask));
          ck = dbl (carryk + k_digit ks kmask);
          ci = dbl (carryi + (((cj OR ck) XOR DIG_MASK) AND DIG_MASK))
      in map_option (\<lambda>ds. (ci AND DIG_MASK) # ds)
         (mpn_or_neg_loop jmask kmask
           (drop_bit DIG_SIZE ci) (drop_bit DIG_SIZE cj) (drop_bit DIG_SIZE ck) js (tl ks)))"

definition mpn_or_neg :: "nat list \<Rightarrow> nat list \<Rightarrow> nat \<Rightarrow> nat \<Rightarrow> nat list option" where
  "mpn_or_neg js ks carryj carryk =
     (let jmask = (if 0 = carryj then 0 else DIG_MASK);
          kmask = (if 0 = carryk then 0 else DIG_MASK)
      in case mpn_or_neg_loop jmask kmask 1 carryj carryk js ks of
           None \<Rightarrow> None
         | Some idig \<Rightarrow> Some (take (mpn_remove_trailing_zeros idig (length idig)) idig))"

fun mpn_xor_loop :: "nat list \<Rightarrow> nat list \<Rightarrow> nat list" where
  "mpn_xor_loop (j # js) (k # ks) = (j XOR k) # mpn_xor_loop js ks"
| "mpn_xor_loop js [] = js"
| "mpn_xor_loop [] ks = []"

definition mpn_xor :: "nat list \<Rightarrow> nat list \<Rightarrow> nat list" where
  "mpn_xor js ks =
     (let idig = mpn_xor_loop js ks
      in take (mpn_remove_trailing_zeros idig (length idig)) idig)"

fun mpn_xor_neg_loop :: "nat \<Rightarrow> nat \<Rightarrow> nat \<Rightarrow> nat list \<Rightarrow> nat list \<Rightarrow> nat list" where
  "mpn_xor_neg_loop carryi carryj carryk [] ks = (if carryi \<noteq> 0 then [dig carryi] else [])"
| "mpn_xor_neg_loop carryi carryj carryk (j # js) ks =
     (let cj = dbl (carryj + (j + DIG_MASK));
          ck = dbl (carryk + (case ks of [] \<Rightarrow> DIG_MASK | k # _ \<Rightarrow> k + DIG_MASK));
          ci = dbl (carryi + ((cj XOR ck) AND DIG_MASK))
      in (ci AND DIG_MASK) #
         mpn_xor_neg_loop
           (drop_bit DIG_SIZE ci) (drop_bit DIG_SIZE cj) (drop_bit DIG_SIZE ck) js (tl ks))"

definition mpn_xor_neg ::
  "nat list \<Rightarrow> nat list \<Rightarrow> nat \<Rightarrow> nat \<Rightarrow> nat \<Rightarrow> nat list" where
  "mpn_xor_neg js ks carryi carryj carryk =
     (let idig = mpn_xor_neg_loop carryi carryj carryk js ks
      in take (mpn_remove_trailing_zeros idig (length idig)) idig)"

section \<open>Shifts\<close>

lemma DIG_BASE_split: "p \<le> DIG_SIZE \<Longrightarrow> DIG_BASE = 2 ^ p * 2 ^ (DIG_SIZE - p)"
  by (simp add: DIG_BASE_def power_add [symmetric])

lemma shl_digit:
  assumes "p \<le> DIG_SIZE"
  shows "(a * DIG_BASE + j) div 2 ^ (DIG_SIZE - p) = a * 2 ^ p + j div 2 ^ (DIG_SIZE - p)"
proof -
  have "a * DIG_BASE + j = j + (a * 2 ^ p) * 2 ^ (DIG_SIZE - p)"
    using DIG_BASE_split [OF assms] by simp
  then have "(a * DIG_BASE + j) div 2 ^ (DIG_SIZE - p) =
      (j + (a * 2 ^ p) * 2 ^ (DIG_SIZE - p)) div 2 ^ (DIG_SIZE - p)" by (rule arg_cong)
  also have "\<dots> = a * 2 ^ p + j div 2 ^ (DIG_SIZE - p)" by (rule div_mult_self1) simp
  finally show ?thesis .
qed

lemma shl_high:
  assumes "p \<le> DIG_SIZE" "digits_ok js"
  shows "dval (js @ [j]) * 2 ^ p div DIG_BASE ^ Suc (length js) = j div 2 ^ (DIG_SIZE - p)"
proof -
  let ?s = "2 ^ (DIG_SIZE - p) :: nat"
  have "DIG_BASE ^ Suc (length js) = (DIG_BASE ^ length js * ?s) * 2 ^ p"
    using DIG_BASE_split [OF assms(1)] by (simp add: mult_ac)
  then have "dval (js @ [j]) * 2 ^ p div DIG_BASE ^ Suc (length js) =
      dval (js @ [j]) div (DIG_BASE ^ length js * ?s)"
    by (simp del: power_Suc)
  also have "\<dots> = j div ?s"
    using dval_less [OF assms(2)] by (simp add: div_mult2_eq dval_append)
  finally show ?thesis .
qed

lemma mpn_shl_loop_correct:
  assumes p: "p \<le> DIG_SIZE"
  shows "digits_ok js \<Longrightarrow> a < DIG_BASE \<Longrightarrow> mpn_shl_loop p (a * DIG_BASE) (rev js) out = (d, r) \<Longrightarrow>
   \<exists>ds. r = ds @ out \<and> length ds = length js \<and> digits_ok ds \<and>
     dval ((drop_bit (DIG_SIZE - p) d AND DIG_MASK) # ds) =
     (dval (js @ [a]) * 2 ^ p) mod DIG_BASE ^ Suc (length js)"
proof (induction js arbitrary: a out d r rule: rev_induct)
  case Nil
  then have "d = a * DIG_BASE" "r = out" by auto
  then show ?case using shl_digit [OF p, of a 0] by (simp add: drop_bit_eq_div dig_arith)
next
  case (snoc j js)
  let ?x = "(a * DIG_BASE + j) div 2 ^ (DIG_SIZE - p) mod DIG_BASE"
  let ?M = "DIG_BASE ^ Suc (length js)"
  have or: "a * DIG_BASE OR j = a * DIG_BASE + j" using snoc.prems by (intro or_low_high) simp
  have "dbl ((a * DIG_BASE + j) * DIG_BASE) = (j * DIG_BASE + a * (DIG_BASE * DIG_BASE)) mod (DIG_BASE * DIG_BASE)"
    by (simp add: dbl_def dbl_base algebra_simps)
  also have "\<dots> = j * DIG_BASE" using snoc.prems by simp
  finally have nxt: "dbl ((a * DIG_BASE + j) * DIG_BASE) = j * DIG_BASE" .
  from snoc.prems have "mpn_shl_loop p (j * DIG_BASE) (rev js) (?x # out) = (d, r)"
    by (simp add: or nxt Let_def dig_arith drop_bit_eq_div)
  from snoc.IH [OF _ _ this] snoc.prems(1) obtain ds where ds: "r = ds @ ?x # out"
    "length ds = length js" "digits_ok ds"
    "dval ((drop_bit (DIG_SIZE - p) d AND DIG_MASK) # ds) = (dval (js @ [j]) * 2 ^ p) mod ?M"
    by auto
  let ?n = "dval ((js @ [j]) @ [a]) * 2 ^ p"
  have n: "?n = dval (js @ [j]) * 2 ^ p + ?M * (a * 2 ^ p)"
    unfolding dval_append [of "js @ [j]" "[a]"] by (simp add: algebra_simps)
  have "?n div ?M = a * 2 ^ p + j div 2 ^ (DIG_SIZE - p)"
    unfolding n using shl_high [OF p, of js j] snoc.prems by (simp del: power_Suc)
  then have "?n div ?M mod DIG_BASE = ?x" by (simp add: shl_digit [OF p])
  moreover have "?n mod ?M = (dval (js @ [j]) * 2 ^ p) mod ?M" unfolding n by simp
  moreover have "?n mod (?M * DIG_BASE) = ?M * (?n div ?M mod DIG_BASE) + ?n mod ?M"
    by (rule mod_mult2_eq)
  ultimately have "?n mod DIG_BASE ^ Suc (length (js @ [j])) = ?M * ?x + (dval (js @ [j]) * 2 ^ p) mod ?M"
    by (simp add: mult_ac)
  moreover have "dval ((drop_bit (DIG_SIZE - p) d AND DIG_MASK) # ds @ [?x]) =
      dval ((drop_bit (DIG_SIZE - p) d AND DIG_MASK) # ds) + ?M * ?x"
    using ds(2) dval_append [of "(drop_bit (DIG_SIZE - p) d AND DIG_MASK) # ds" "[?x]"]
    by simp
  ultimately show ?case using ds by (intro exI [of _ "ds @ [?x]"]) simp
qed

lemma shl_whole_part:
  assumes "0 < n"
  shows "n = DIG_SIZE * ((n + DIG_SIZE - 1) div DIG_SIZE - 1) +
             (if n mod DIG_SIZE = 0 then DIG_SIZE else n mod DIG_SIZE)"
    and "0 < (n + DIG_SIZE - 1) div DIG_SIZE"
proof -
  define q r where "q = n div 16" and "r = n mod 16"
  have n: "n = 16 * q + r" "r < 16" by (simp_all add: q_def r_def)
  have "(n + 15) div 16 = (if r = 0 then q else Suc q)" using n by auto
  moreover have "n mod 16 = r" by (simp add: r_def)
  ultimately show "n = DIG_SIZE * ((n + DIG_SIZE - 1) div DIG_SIZE - 1) +
             (if n mod DIG_SIZE = 0 then DIG_SIZE else n mod DIG_SIZE)"
    and "0 < (n + DIG_SIZE - 1) div DIG_SIZE"
    using n assms by (auto simp: DIG_SIZE_def)
qed

lemma power_DIG_SIZE: "2 ^ (DIG_SIZE * m) = DIG_BASE ^ m"
  by (simp add: DIG_BASE_def power_mult)

text \<open>A left shift multiplies by a power of two, for a shift by at least one bit.\<close>

lemma mpn_shl_correct:
  assumes "digits_ok js" "0 < n"
  shows "dval (mpn_shl js n) = dval js * 2 ^ n \<and> digits_ok (mpn_shl js n) \<and> normalised (mpn_shl js n)"
proof -
  let ?w = "(n + DIG_SIZE - 1) div DIG_SIZE"
  let ?p = "if n mod DIG_SIZE = 0 then DIG_SIZE else n mod DIG_SIZE"
  have p: "?p \<le> DIG_SIZE" by (simp add: DIG_SIZE_def)
  obtain d r where dr: "mpn_shl_loop ?p 0 (rev js) [] = (d, r)" by (rule prod.exhaust)
  let ?lo = "drop_bit (DIG_SIZE - ?p) d AND DIG_MASK"
  from mpn_shl_loop_correct [OF p assms(1), of 0 "[]" d r] dr have r: "length r = length js"
    "digits_ok r" "dval (?lo # r) = (dval (js @ [0]) * 2 ^ ?p) mod DIG_BASE ^ Suc (length js)"
    by auto
  have "dval js * 2 ^ ?p < DIG_BASE ^ length js * 2 ^ ?p" using dval_less [OF assms(1)] by simp
  also have "\<dots> \<le> DIG_BASE ^ length js * DIG_BASE"
    using p by (intro mult_le_mono2) (simp add: DIG_BASE_def)
  finally have v: "dval (?lo # r) = dval js * 2 ^ ?p" using r(3) by (simp add: dval_append mult.commute)
  let ?i = "replicate (?w - 1) 0 @ ?lo # r"
  have ok: "digits_ok ?i" using r(2) by (simp add: dig_arith)
  have "dval ?i = dval js * (2 ^ ?p * DIG_BASE ^ (?w - 1))" using v by (simp add: dval_append)
  also have "2 ^ ?p * DIG_BASE ^ (?w - 1) = 2 ^ (DIG_SIZE * (?w - 1) + ?p)"
    by (simp only: power_add power_DIG_SIZE mult.commute)
  also have "DIG_SIZE * (?w - 1) + ?p = n" using shl_whole_part(1) [OF assms(2)] by simp
  finally have iv: "dval ?i = dval js * 2 ^ n" .
  have len: "length ?i = length js + ?w" using r(1) shl_whole_part(2) [OF assms(2)] by simp
  have "mpn_shl js n = take (mpn_remove_trailing_zeros ?i (length ?i)) ?i"
    unfolding len by (simp add: mpn_shl_def dr Let_def)
  with iv strip_all [of ?i] ok show ?thesis by metis
qed

lemma dval_drop: "digits_ok js \<Longrightarrow> dval (drop m js) = dval js div DIG_BASE ^ m"
proof (induction m arbitrary: js)
  case (Suc m)
  then show ?case by (cases js) (auto simp: div_mult2_eq)
qed simp

lemma shr_digit:
  assumes p: "p \<le> DIG_SIZE"
  shows "(j + DIG_BASE * (k + DIG_BASE * v)) div 2 ^ p =
    (j + k * DIG_BASE) div 2 ^ p mod DIG_BASE + DIG_BASE * ((j + DIG_BASE * (k + DIG_BASE * v)) div DIG_BASE div 2 ^ p)"
proof -
  let ?s = "2 ^ (DIG_SIZE - p) :: nat" and ?n = "j + DIG_BASE * (k + DIG_BASE * v)"
  have B: "DIG_BASE = 2 ^ p * ?s" using p by (rule DIG_BASE_split)
  have "?n = (j + k * DIG_BASE) + DIG_BASE * DIG_BASE * v" by (simp add: algebra_simps)
  also have "DIG_BASE * DIG_BASE * v = (DIG_BASE * ?s * v) * 2 ^ p"
    by (subst B) (simp add: mult_ac)
  finally have "?n div 2 ^ p = ((j + k * DIG_BASE) + (DIG_BASE * ?s * v) * 2 ^ p) div 2 ^ p"
    by (rule arg_cong)
  also have "\<dots> = DIG_BASE * ?s * v + (j + k * DIG_BASE) div 2 ^ p"
    by (rule div_mult_self1) simp
  finally have "?n div 2 ^ p mod DIG_BASE = (j + k * DIG_BASE) div 2 ^ p mod DIG_BASE"
    by (simp add: mult.assoc)
  moreover have "?n div 2 ^ p div DIG_BASE = ?n div DIG_BASE div 2 ^ p"
    by (metis div_mult2_eq mult.commute)
  ultimately show ?thesis by (metis mod_mult_div_eq)
qed

lemma mpn_shr_loop_correct:
  "p < DIG_SIZE \<Longrightarrow> digits_ok js \<Longrightarrow> dval (mpn_shr_loop p js) = dval js div 2 ^ p \<and>
     digits_ok (mpn_shr_loop p js) \<and> length (mpn_shr_loop p js) = length js"
proof (induction p js rule: mpn_shr_loop.induct)
  case (2 p j)
  then have "j div 2 ^ p < DIG_BASE" by (intro le_less_trans [OF div_le_dividend [of j "2 ^ p"]]) simp
  then show ?case by (simp add: drop_bit_eq_div dig_arith)
next
  case (3 p j k js)
  have "k * DIG_BASE < DIG_BASE * DIG_BASE" using 3 by simp
  moreover have "j OR k * DIG_BASE = j + k * DIG_BASE"
    using or_low_high [of j k] 3 by (simp add: or.commute)
  ultimately have d: "drop_bit p (j OR dbl (push_bit DIG_SIZE k)) AND DIG_MASK =
      (j + k * DIG_BASE) div 2 ^ p mod DIG_BASE"
    by (simp only: dbl_id dig_arith drop_bit_eq_div)
  have "(j + DIG_BASE * dval (k # js)) div DIG_BASE = dval (k # js)" using 3 by simp
  with shr_digit [of p j k "dval js"] 3 have
    "dval (j # k # js) div 2 ^ p =
      (j + k * DIG_BASE) div 2 ^ p mod DIG_BASE + DIG_BASE * (dval (k # js) div 2 ^ p)"
    by simp
  with 3 show ?case by (simp only: mpn_shr_loop.simps d) simp
qed simp

lemma DIG_BASE_times_div: "p \<le> DIG_SIZE \<Longrightarrow> c \<le> DIG_BASE * c div 2 ^ p"
  using div_le_mono2 [of "2 ^ p" DIG_BASE "DIG_BASE * c"] by (simp add: DIG_BASE_def)

text \<open>A right shift divides by a power of two, rounding down.\<close>

lemma mpn_shr_correct:
  assumes "digits_ok js" "normalised js"
  shows "dval (mpn_shr js n) = dval js div 2 ^ n \<and> digits_ok (mpn_shr js n) \<and> normalised (mpn_shr js n)"
proof -
  let ?w = "n div DIG_SIZE" and ?p = "n mod DIG_SIZE"
  have p: "?p < DIG_SIZE" by (simp add: DIG_SIZE_def)
  have n: "2 ^ n = DIG_BASE ^ ?w * 2 ^ ?p"
    by (metis mult_div_mod_eq power_DIG_SIZE power_add)
  show ?thesis
  proof (cases "?w \<ge> length js")
    case True
    have "dval js < DIG_BASE ^ length js" using assms(1) by (rule dval_less)
    also have "\<dots> \<le> DIG_BASE ^ ?w" using True by (intro power_increasing) (auto simp: Suc_le_eq)
    also have "\<dots> \<le> 2 ^ n" unfolding n by simp
    finally show ?thesis using True by (simp add: mpn_shr_def)
  next
    case False
    let ?i = "mpn_shr_loop ?p (drop ?w js)"
    have i: "dval ?i = dval js div 2 ^ n" "digits_ok ?i" "length ?i = length js - ?w"
      using mpn_shr_loop_correct [OF p digits_ok_drop, of js ?w] assms(1)
      by (simp_all add: dval_drop n div_mult2_eq)
    with False have "?i \<noteq> []" by auto
    then obtain es e where es: "?i = es @ [e]" by (cases ?i rule: rev_cases) auto
    show ?thesis
    proof (cases "e = 0")
      case False
      with \<open>\<not> _ \<le> _\<close> i es show ?thesis
        by (simp add: mpn_shr_def Let_def normalised_def)
    next
      case True
      have "normalised es"
      proof (cases "es = []")
        case ne: False
        have dw: "normalised (drop ?w js)" "drop ?w js \<noteq> []"
          using assms(2) False by (auto simp: normalised_def)
        have l: "length es = length (drop ?w js) - 1" using i(3) es by simp
        have "DIG_BASE * DIG_BASE ^ (length es - 1) = DIG_BASE ^ length es"
          using ne by (cases es) auto
        also have "\<dots> \<le> dval (drop ?w js)" using dval_ge [OF dw] l by simp
        finally have "DIG_BASE * DIG_BASE ^ (length es - 1) div 2 ^ ?p \<le> dval ?i"
          using mpn_shr_loop_correct [OF p digits_ok_drop, of js ?w] assms(1)
          by (simp add: div_le_mono)
        moreover have "DIG_BASE ^ (length es - 1) \<le> DIG_BASE * DIG_BASE ^ (length es - 1) div 2 ^ ?p"
          using p by (intro DIG_BASE_times_div) simp
        ultimately have "DIG_BASE ^ (length es - 1) \<le> dval es" using es True by (simp add: dval_append)
        then show ?thesis using ne i(2) es by (intro normalisedI_length) auto
      qed simp
      with False i es True show ?thesis
        by (simp add: mpn_shr_def Let_def dval_append)
    qed
  qed
qed

section \<open>Digit-wise operations\<close>

lemma bit_digit: "d < DIG_BASE \<Longrightarrow> DIG_SIZE \<le> n \<Longrightarrow> \<not> bit (d::nat) n"
  by (metis DIG_BASE_def bit_take_bit_iff not_le take_bit_nat_eq_self)

lemma digit_cons_or: "d < DIG_BASE \<Longrightarrow> d + DIG_BASE * v = push_bit DIG_SIZE v OR d"
  using or_low_high [of d v] by (simp add: push_bit_DIG_SIZE mult.commute)

lemma bit_digit_cons:
  "d < DIG_BASE \<Longrightarrow> bit (d + DIG_BASE * v) n = (if n < DIG_SIZE then bit d n else bit v (n - DIG_SIZE))"
  by (auto simp: digit_cons_or bit_simps bit_digit)

lemma digit_iff: "d < DIG_BASE \<longleftrightarrow> take_bit DIG_SIZE d = d"
  by (simp add: DIG_BASE_def take_bit_nat_eq_self_iff)

lemma digit_ops:
  assumes "j < DIG_BASE" "k < DIG_BASE"
  shows "j AND k < DIG_BASE" "j OR k < DIG_BASE" "j XOR k < DIG_BASE"
  using assms by (simp_all add: digit_iff)

lemma digit_cons_ops:
  assumes "j < DIG_BASE" "k < DIG_BASE"
  shows "(j + DIG_BASE * v) AND (k + DIG_BASE * w) = (j AND k) + DIG_BASE * (v AND w)"
    and "(j + DIG_BASE * v) OR (k + DIG_BASE * w) = (j OR k) + DIG_BASE * (v OR w)"
    and "(j + DIG_BASE * v) XOR (k + DIG_BASE * w) = (j XOR k) + DIG_BASE * (v XOR w)"
  using assms digit_ops [OF assms] by (auto intro!: bit_eqI simp: bit_simps bit_digit_cons)

lemma mpn_and_loop_correct:
  "digits_ok js \<Longrightarrow> digits_ok ks \<Longrightarrow>
   dval (mpn_and_loop js ks) = dval js AND dval ks \<and> digits_ok (mpn_and_loop js ks)"
  by (induction js ks rule: mpn_and_loop.induct) (auto simp: digit_cons_ops digit_ops)

lemma mpn_or_correct:
  "digits_ok js \<Longrightarrow> digits_ok ks \<Longrightarrow> length ks \<le> length js \<Longrightarrow>
   dval (mpn_or js ks) = dval js OR dval ks \<and> digits_ok (mpn_or js ks) \<and>
   length (mpn_or js ks) = length js"
  by (induction js ks rule: mpn_or.induct) (auto simp: digit_cons_ops digit_ops)

lemma mpn_xor_loop_correct:
  "digits_ok js \<Longrightarrow> digits_ok ks \<Longrightarrow> length ks \<le> length js \<Longrightarrow>
   dval (mpn_xor_loop js ks) = dval js XOR dval ks \<and> digits_ok (mpn_xor_loop js ks)"
  by (induction js ks rule: mpn_xor_loop.induct) (auto simp: digit_cons_ops digit_ops)

lemma or_nat_ge: "(a::nat) \<le> a OR b"
proof -
  have "int a AND (int a OR int b) = int a" by (rule bit_eqI) (auto simp: bit_simps)
  moreover have "int a AND (int a OR int b) \<le> int a OR int b" by (rule AND_upper2) simp
  ultimately show ?thesis by (simp flip: of_nat_or_eq)
qed

lemma mpn_or_normalised:
  assumes "digits_ok js" "digits_ok ks" "length ks \<le> length js" "normalised js"
  shows "normalised (mpn_or js ks)"
proof (cases "js = []")
  case False
  have "DIG_BASE ^ (length js - 1) \<le> dval (mpn_or js ks)"
    using dval_ge [OF assms(4) False] mpn_or_correct [OF assms(1-3)] or_nat_ge [of "dval js" "dval ks"]
    by simp
  with False mpn_or_correct [OF assms(1-3)] show ?thesis by (intro normalisedI_length) auto
qed (use assms in simp)

text \<open>The functions for operands that are both nonnegative.\<close>

lemma mpn_and_correct:
  "digits_ok js \<Longrightarrow> digits_ok ks \<Longrightarrow>
   dval (mpn_and js ks) = dval js AND dval ks \<and> digits_ok (mpn_and js ks) \<and> normalised (mpn_and js ks)"
  by (simp add: mpn_and_def Let_def strip_all mpn_and_loop_correct)

lemma mpn_xor_correct:
  "digits_ok js \<Longrightarrow> digits_ok ks \<Longrightarrow> length ks \<le> length js \<Longrightarrow>
   dval (mpn_xor js ks) = dval js XOR dval ks \<and> digits_ok (mpn_xor js ks) \<and> normalised (mpn_xor js ks)"
  by (simp add: mpn_xor_def Let_def strip_all mpn_xor_loop_correct)

section \<open>Carries through complemented digits\<close>

text \<open>Add a carry to the digits \<open>g d\<close>, dropping the carry out of the top.\<close>

fun carry_digits :: "(nat \<Rightarrow> nat) \<Rightarrow> nat \<Rightarrow> nat list \<Rightarrow> nat list" where
  "carry_digits g c [] = []"
| "carry_digits g c (d # ds) = (c + g d) mod DIG_BASE # carry_digits g ((c + g d) div DIG_BASE) ds"

lemma length_carry_digits [simp]: "length (carry_digits g c ds) = length ds"
  by (induction g c ds rule: carry_digits.induct) auto

lemma digits_ok_carry_digits [simp]: "digits_ok (carry_digits g c ds)"
  by (induction g c ds rule: carry_digits.induct) auto

lemma dval_carry_digits:
  "dval (carry_digits g c ds) = (c + dval (map g ds)) mod DIG_BASE ^ length ds"
proof (induction g c ds rule: carry_digits.induct)
  case (2 g c d ds)
  let ?n = "c + (g d + DIG_BASE * dval (map g ds))"
  have "?n div DIG_BASE = (c + g d) div DIG_BASE + dval (map g ds)"
    by (metis DIG_BASE_nz add.assoc add.commute div_mult_self2)
  moreover have "?n mod DIG_BASE = (c + g d) mod DIG_BASE"
    by (metis add.assoc mod_mult_self2)
  moreover have "?n mod (DIG_BASE * DIG_BASE ^ length ds) =
      DIG_BASE * (?n div DIG_BASE mod DIG_BASE ^ length ds) + ?n mod DIG_BASE"
    by (rule mod_mult2_eq)
  ultimately show ?case using 2 by simp
qed simp

lemma DIG_MASK_eq: "DIG_MASK = DIG_BASE - 1"
  by (simp add: DIG_MASK_def DIG_BASE_def)

lemma xor_DIG_MASK:
  assumes "d < DIG_BASE"
  shows "d XOR DIG_MASK = DIG_MASK - d" "d XOR DIG_MASK < DIG_BASE"
proof -
  have m: "DIG_MASK = mask DIG_SIZE" by (simp add: DIG_MASK_def mask_nat_def)
  have hb: "n < DIG_SIZE" if "bit d n" for n
    using that bit_digit [OF assms] by (meson not_le)
  have "d AND (d XOR DIG_MASK) = 0" by (rule bit_eqI) (auto simp: m bit_simps dest: hb)
  then have "d + (d XOR DIG_MASK) = d OR (d XOR DIG_MASK)" by (rule disjunctive_add_eq_or)
  also have "\<dots> = DIG_MASK" by (rule bit_eqI) (auto simp: m bit_simps dest: hb)
  finally show "d XOR DIG_MASK = DIG_MASK - d" by simp
  then show "d XOR DIG_MASK < DIG_BASE" by (simp add: DIG_MASK_eq less_imp_diff_less)
qed

lemma dval_map_xor:
  "digits_ok ds \<Longrightarrow> dval (map (\<lambda>d. d XOR DIG_MASK) ds) + dval ds + 1 = DIG_BASE ^ length ds"
proof (induction ds)
  case (Cons d ds)
  have "dval (map (\<lambda>d. d XOR DIG_MASK) (d # ds)) + dval (d # ds) + 1 =
     (DIG_MASK - d) + d + 1 + DIG_BASE * (dval (map (\<lambda>d. d XOR DIG_MASK) ds) + dval ds)"
    using Cons.prems by (simp add: xor_DIG_MASK algebra_simps)
  also have "\<dots> = DIG_BASE + DIG_BASE * (dval (map (\<lambda>d. d XOR DIG_MASK) ds) + dval ds)"
    using Cons.prems by (simp add: DIG_MASK_eq)
  also have "\<dots> = DIG_BASE * (dval (map (\<lambda>d. d XOR DIG_MASK) ds) + dval ds + 1)" by simp
  also have "\<dots> = DIG_BASE * DIG_BASE ^ length ds"
    using Cons.prems by (subst Cons.IH) simp_all
  finally show ?case by simp
qed simp

lemma dval_map_add_mask:
  "dval (map (\<lambda>d. d + DIG_MASK) ds) + 1 = dval ds + DIG_BASE ^ length ds"
proof (induction ds)
  case (Cons d ds)
  have "dval (map (\<lambda>d. d + DIG_MASK) (d # ds)) + 1 = d + DIG_BASE * (dval (map (\<lambda>d. d + DIG_MASK) ds) + 1)"
    using DIG_BASE_gt1 by (simp add: DIG_MASK_eq)
  then show ?case unfolding Cons.IH by (simp add: distrib_left)
qed simp

text \<open>
  The digits of an operand in two's complement: as they are, or complemented with a carry
  of one, are its signed value modulo the base to the length.
\<close>

definition neg_digits :: "bool \<Rightarrow> nat list \<Rightarrow> nat list" where
  "neg_digits b ds = carry_digits (\<lambda>d. d XOR (if b then DIG_MASK else 0)) (if b then 1 else 0) ds"

definition sval :: "bool \<Rightarrow> nat list \<Rightarrow> int" where
  "sval b ds = (if b then - int (dval ds) else int (dval ds))"

lemma neg_digits_simps [simp]: "length (neg_digits b ds) = length ds" "digits_ok (neg_digits b ds)"
  by (simp_all add: neg_digits_def)

lemma dval_neg_digits:
  assumes "digits_ok ds"
  shows "int (dval (neg_digits b ds)) = take_bit (DIG_SIZE * length ds) (sval b ds)"
proof -
  have M: "(2::int) ^ (DIG_SIZE * length ds) = int (DIG_BASE ^ length ds)"
    by (simp add: power_mult DIG_BASE_def)
  have "1 + int (dval (map (\<lambda>d. d XOR DIG_MASK) ds)) = int (DIG_BASE ^ length ds) - int (dval ds)"
    using dval_map_xor [OF assms] by linarith
  then show ?thesis
    by (simp add: neg_digits_def sval_def dval_carry_digits take_bit_eq_mod M zmod_int
        del: of_nat_power)
qed
text \<open>The digits of \<open>k\<close> extended with zeros to the length of \<open>j\<close>.\<close>

fun pad :: "nat \<Rightarrow> nat list \<Rightarrow> nat list" where
  "pad 0 ks = []"
| "pad (Suc n) ks = (case ks of [] \<Rightarrow> 0 | k # _ \<Rightarrow> k) # pad n (tl ks)"

lemma pad_correct:
  "length ks \<le> n \<Longrightarrow> digits_ok ks \<Longrightarrow>
   dval (pad n ks) = dval ks \<and> digits_ok (pad n ks) \<and> length (pad n ks) = n"
  by (induction n ks rule: pad.induct) (auto split: list.splits)

lemma k_digit_pad: "k_digit ks m = (case ks of [] \<Rightarrow> 0 | k # _ \<Rightarrow> k) XOR m"
  by (simp add: k_digit_def split: list.splits)

lemma mod_DIG_BASE_ops:
  "(a AND b) mod DIG_BASE = (a mod DIG_BASE) AND (b mod DIG_BASE)"
  "(a OR b) mod DIG_BASE = (a mod DIG_BASE) OR (b mod DIG_BASE)"
  "(a XOR b) mod DIG_BASE = (a mod DIG_BASE) XOR (b mod DIG_BASE)"
  by (simp_all add: DIG_BASE_def flip: take_bit_eq_mod)

definition mask_ok :: "nat \<Rightarrow> bool" where
  "mask_ok m \<longleftrightarrow> m = 0 \<or> m = DIG_MASK"

lemma mask_ok_if: "mask_ok (if b then DIG_MASK else 0)"
  by (simp add: mask_ok_def)

lemma mask_of_bool:
  "(if 0 = (of_bool b :: nat) then 0 else DIG_MASK) = (if b then DIG_MASK else 0)"
  "(if b then 1 else 0) = (of_bool b :: nat)"
  by simp_all

lemma of_bool_le1: "of_bool b \<le> (1::nat)"
  by simp

lemma mask_okD: "mask_ok m \<Longrightarrow> d < DIG_BASE \<Longrightarrow> d XOR m < DIG_BASE" "mask_ok m \<Longrightarrow> m < DIG_BASE"
  using xor_DIG_MASK(2) [of d] by (auto simp: mask_ok_def) (simp add: DIG_MASK_eq)

lemma carry_step:
  assumes "c \<le> 1" "d < DIG_BASE"
  shows "dbl (c + d) = c + d" "(c + d) div DIG_BASE \<le> 1"
  using assms by (simp_all add: dbl_id DIG_BASE_eq)

lemma hd_pad_ok: "digits_ok ks \<Longrightarrow> (case ks of [] \<Rightarrow> 0 | k # _ \<Rightarrow> k) < DIG_BASE"
  by (auto split: list.splits)

lemma digits_ok_tl: "digits_ok ks \<Longrightarrow> digits_ok (tl ks)"
  by (cases ks) auto

text \<open>
  The three loops are the digit-wise operation between the operands' digits with their
  carries, followed by an addition of the result's carry.
\<close>

lemma mpn_and_neg_loop_eq:
  assumes "mask_ok im" "mask_ok jm" "mask_ok km"
  shows "digits_ok js \<Longrightarrow> digits_ok ks \<Longrightarrow> ci \<le> 1 \<Longrightarrow> cj \<le> 1 \<Longrightarrow> ck \<le> 1 \<Longrightarrow>
   mpn_and_neg_loop im jm km ci cj ck js ks =
   mpn_add_loop ci (map (\<lambda>d. d XOR im) (mpn_and_loop (carry_digits (\<lambda>d. d XOR jm) cj js)
     (carry_digits (\<lambda>d. d XOR km) ck (pad (length js) ks)))) []"
proof (induction js arbitrary: ks ci cj ck)
  case (Cons j js)
  let ?k = "case ks of [] \<Rightarrow> 0 | k # _ \<Rightarrow> k"
  have d: "j XOR jm < DIG_BASE" "?k XOR km < DIG_BASE"
    using Cons.prems assms hd_pad_ok by (auto intro: mask_okD)
  let ?j = "cj + (j XOR jm)" and ?kk = "ck + (?k XOR km)"
  let ?z = "((?j mod DIG_BASE) AND (?kk mod DIG_BASE)) XOR im"
  have z: "?z < DIG_BASE" using assms by (intro mask_okD(1) digit_ops(1,2)) auto
  have eq: "((?j AND ?kk) XOR im) mod DIG_BASE = ?z"
    using mask_okD(2) [OF assms(1)] by (simp add: mod_DIG_BASE_ops)
  note st = carry_step [OF Cons.prems(4) d(1)] carry_step [OF Cons.prems(5) d(2)]
    carry_step [OF Cons.prems(3) z]
  have "mpn_and_neg_loop im jm km ci cj ck (j # js) ks =
      (ci + ?z) mod DIG_BASE # mpn_and_neg_loop im jm km ((ci + ?z) div DIG_BASE)
        (?j div DIG_BASE) (?kk div DIG_BASE) js (tl ks)"
    by (simp only: mpn_and_neg_loop.simps k_digit_pad Let_def st dig_arith eq)
  also have "mpn_and_neg_loop im jm km ((ci + ?z) div DIG_BASE) (?j div DIG_BASE) (?kk div DIG_BASE) js (tl ks) =
     mpn_add_loop ((ci + ?z) div DIG_BASE) (map (\<lambda>d. d XOR im) (mpn_and_loop
       (carry_digits (\<lambda>d. d XOR jm) (?j div DIG_BASE) js)
       (carry_digits (\<lambda>d. d XOR km) (?kk div DIG_BASE) (pad (length js) (tl ks))))) []"
    using Cons.prems st by (intro Cons.IH) (auto intro: digits_ok_tl)
  finally show ?case by (simp add: Let_def st dig_arith)
qed simp

lemma mpn_or_neg_loop_eq:
  assumes "mask_ok jm" "mask_ok km"
  shows "digits_ok js \<Longrightarrow> digits_ok ks \<Longrightarrow> ci \<le> 1 \<Longrightarrow> cj \<le> 1 \<Longrightarrow> ck \<le> 1 \<Longrightarrow>
   mpn_or_neg_loop jm km ci cj ck js ks =
   (let ds = mpn_add_loop ci (map (\<lambda>d. d XOR DIG_MASK) (mpn_or (carry_digits (\<lambda>d. d XOR jm) cj js)
     (carry_digits (\<lambda>d. d XOR km) ck (pad (length js) ks)))) []
    in if length ds = length js then Some ds else None)"
proof (induction js arbitrary: ks ci cj ck)
  case (Cons j js)
  let ?k = "case ks of [] \<Rightarrow> 0 | k # _ \<Rightarrow> k"
  have d: "j XOR jm < DIG_BASE" "?k XOR km < DIG_BASE"
    using Cons.prems assms hd_pad_ok by (auto intro: mask_okD)
  let ?j = "cj + (j XOR jm)" and ?kk = "ck + (?k XOR km)"
  let ?z = "((?j mod DIG_BASE) OR (?kk mod DIG_BASE)) XOR DIG_MASK"
  have z: "?z < DIG_BASE" by (intro mask_okD(1) digit_ops(1,2)) (auto simp: mask_ok_def)
  have eq: "((?j OR ?kk) XOR DIG_MASK) mod DIG_BASE = ?z"
    using mask_okD(2) [of DIG_MASK] by (simp add: mod_DIG_BASE_ops mask_ok_def)
  note st = carry_step [OF Cons.prems(4) d(1)] carry_step [OF Cons.prems(5) d(2)]
    carry_step [OF Cons.prems(3) z]
  have "mpn_or_neg_loop jm km ci cj ck (j # js) ks =
      map_option (\<lambda>ds. (ci + ?z) mod DIG_BASE # ds) (mpn_or_neg_loop jm km ((ci + ?z) div DIG_BASE)
        (?j div DIG_BASE) (?kk div DIG_BASE) js (tl ks))"
    by (simp only: mpn_or_neg_loop.simps k_digit_pad Let_def st dig_arith eq)
  also have "mpn_or_neg_loop jm km ((ci + ?z) div DIG_BASE) (?j div DIG_BASE) (?kk div DIG_BASE) js (tl ks) =
     (let ds = mpn_add_loop ((ci + ?z) div DIG_BASE) (map (\<lambda>d. d XOR DIG_MASK) (mpn_or
       (carry_digits (\<lambda>d. d XOR jm) (?j div DIG_BASE) js)
       (carry_digits (\<lambda>d. d XOR km) (?kk div DIG_BASE) (pad (length js) (tl ks))))) []
      in if length ds = length js then Some ds else None)"
    using Cons.prems st by (intro Cons.IH) (auto intro: digits_ok_tl)
  finally show ?case by (simp add: Let_def st dig_arith)
qed simp

lemma mpn_xor_neg_loop_eq:
  "digits_ok js \<Longrightarrow> digits_ok ks \<Longrightarrow> ci \<le> 1 \<Longrightarrow> cj \<le> 1 \<Longrightarrow> ck \<le> 1 \<Longrightarrow>
   mpn_xor_neg_loop ci cj ck js ks =
   mpn_add_loop ci (mpn_xor_loop (carry_digits (\<lambda>d. d + DIG_MASK) cj js)
     (carry_digits (\<lambda>d. d + DIG_MASK) ck (pad (length js) ks))) []"
proof (induction js arbitrary: ks ci cj ck)
  case (Cons j js)
  let ?k = "case ks of [] \<Rightarrow> 0 | k # _ \<Rightarrow> k"
  let ?j = "cj + (j + DIG_MASK)" and ?kk = "ck + (?k + DIG_MASK)"
  let ?z = "(?j mod DIG_BASE) XOR (?kk mod DIG_BASE)"
  have z: "?z < DIG_BASE" by (intro digit_ops) auto
  have kk: "ck + (case ks of [] \<Rightarrow> DIG_MASK | k # _ \<Rightarrow> k + DIG_MASK) = ?kk"
    by (simp split: list.splits)
  have d: "j < DIG_BASE" "?k < DIG_BASE" using Cons.prems hd_pad_ok by auto
  then have b: "?j < 2 * DIG_BASE" "?kk < 2 * DIG_BASE"
    using Cons.prems by (auto simp: DIG_MASK_eq)
  then have w: "dbl ?j = ?j" "dbl ?kk = ?kk" "?j div DIG_BASE \<le> 1" "?kk div DIG_BASE \<le> 1"
    by (auto intro!: div_DIG_BASE_le1 dbl_id simp: DIG_BASE_eq)
  note st = w carry_step [OF Cons.prems(3) z]
  have "mpn_xor_neg_loop ci cj ck (j # js) ks =
      (ci + ?z) mod DIG_BASE # mpn_xor_neg_loop ((ci + ?z) div DIG_BASE)
        (?j div DIG_BASE) (?kk div DIG_BASE) js (tl ks)"
    by (simp only: mpn_xor_neg_loop.simps kk Let_def st dig_arith mod_DIG_BASE_ops)
  also have "mpn_xor_neg_loop ((ci + ?z) div DIG_BASE) (?j div DIG_BASE) (?kk div DIG_BASE) js (tl ks) =
     mpn_add_loop ((ci + ?z) div DIG_BASE) (mpn_xor_loop
       (carry_digits (\<lambda>d. d + DIG_MASK) (?j div DIG_BASE) js)
       (carry_digits (\<lambda>d. d + DIG_MASK) (?kk div DIG_BASE) (pad (length js) (tl ks)))) []"
    using Cons.prems st by (intro Cons.IH) (auto intro: digits_ok_tl)
  finally show ?case by (simp add: Let_def st dig_arith)
qed simp

section \<open>Two's complement results\<close>

lemma take_bit_neg:
  "- (2 ^ n) \<le> x \<Longrightarrow> x < 0 \<Longrightarrow> take_bit n x = x + 2 ^ n" for x :: int
proof -
  assume x: "- (2 ^ n) \<le> x" "x < 0"
  have "x mod 2 ^ n = (x + 2 ^ n) mod 2 ^ n" by simp
  also have "\<dots> = x + 2 ^ n" using x by (intro mod_pos_pos_trivial) auto
  finally show ?thesis by (simp add: take_bit_eq_mod)
qed

lemma drop_bit_neg: "- (2 ^ n) \<le> x \<Longrightarrow> x < 0 \<Longrightarrow> drop_bit n x = -1" for x :: int
proof -
  assume x: "- (2 ^ n) \<le> x" "x < 0"
  have "x div 2 ^ n + 1 = (x + 2 ^ n) div 2 ^ n" by (rule div_add_self2 [symmetric]) simp
  also have "\<dots> = 0" using x by (intro div_pos_pos_trivial) auto
  finally show ?thesis by (simp add: drop_bit_eq_div)
qed

lemma drop_bit_neg_ge: "drop_bit n x = -1 \<Longrightarrow> - (2 ^ n) \<le> x" for x :: int
proof -
  assume "drop_bit n x = -1"
  then have "x = 2 ^ n * -1 + x mod 2 ^ n" by (metis drop_bit_eq_div mult_div_mod_eq)
  moreover have "0 \<le> x mod 2 ^ n" by simp
  ultimately show ?thesis by linarith
qed

lemma neg_and_range:
  assumes "- (2 ^ n) \<le> x" "x < 0" "- (2 ^ n) \<le> y" "y < 0"
  shows "- (2 ^ n) \<le> x AND y" "x AND y < (0::int)"
  using assms by (auto intro!: drop_bit_neg_ge simp: drop_bit_neg)

lemma neg_or_ge: "x < 0 \<Longrightarrow> x \<le> x OR y" for x :: int
proof -
  assume "x < 0"
  have "x AND (y AND NOT x) = 0" by (rule bit_eqI) (auto simp: bit_simps)
  then have "x + (y AND NOT x) = x OR (y AND NOT x)" by (rule disjunctive_add_eq_or)
  also have "\<dots> = x OR y" by (rule bit_eqI) (auto simp: bit_simps)
  finally have "x OR y = x + (y AND NOT x)" by simp
  with \<open>x < 0\<close> show ?thesis by simp
qed

lemma power_DIG_SIZE_int: "(2::int) ^ (DIG_SIZE * m) = int (DIG_BASE ^ m)"
  by (simp add: power_mult DIG_BASE_def)

lemma sval_range:
  assumes "digits_ok ds" "length ds \<le> n"
  shows "- (2 ^ (DIG_SIZE * n)) < sval b ds" "sval b ds < 2 ^ (DIG_SIZE * n)"
proof -
  have "dval ds < DIG_BASE ^ length ds" using assms(1) by (rule dval_less)
  also have "\<dots> \<le> DIG_BASE ^ n" using assms(2) by (intro power_increasing) (auto simp: Suc_le_eq)
  finally have "int (dval ds) < 2 ^ (DIG_SIZE * n)"
    unfolding power_DIG_SIZE_int by (rule of_nat_less_iff [THEN iffD2])
  moreover have "(0::int) < 2 ^ (DIG_SIZE * n)" "0 \<le> int (dval ds)" by simp_all
  ultimately have "\<bar>sval b ds\<bar> < 2 ^ (DIG_SIZE * n)" by (simp add: sval_def)
  then show "- (2 ^ (DIG_SIZE * n)) < sval b ds" "sval b ds < 2 ^ (DIG_SIZE * n)"
    by linarith+
qed

lemma sval_pad:
  "length ks \<le> n \<Longrightarrow> digits_ok ks \<Longrightarrow> sval b (pad n ks) = sval b ks"
  by (simp add: sval_def pad_correct)

lemma digits_ok_map_xor: "digits_ok ds \<Longrightarrow> digits_ok (map (\<lambda>d. d XOR DIG_MASK) ds)"
  by (auto simp: digits_ok_def intro: xor_DIG_MASK(2))

lemma length_mpn_and_loop: "length (mpn_and_loop js ks) = min (length js) (length ks)"
  by (induction js ks rule: mpn_and_loop.induct) auto

text \<open>\<open>j & k\<close> where at least one is negative: in two's complement, sign and all.\<close>

lemma mpn_and_neg_correct:
  assumes ok: "digits_ok js" "digits_ok ks" "length ks \<le> length js"
    and nz: "jn \<Longrightarrow> 0 < dval js" "kn \<Longrightarrow> 0 < dval ks"
  shows "sval (jn \<and> kn) (mpn_and_neg js ks (of_bool (jn \<and> kn)) (of_bool jn) (of_bool kn)) =
         sval jn js AND sval kn ks"
    and "digits_ok (mpn_and_neg js ks (of_bool (jn \<and> kn)) (of_bool jn) (of_bool kn))"
    and "normalised (mpn_and_neg js ks (of_bool (jn \<and> kn)) (of_bool jn) (of_bool kn))"
proof -
  let ?n = "DIG_SIZE * length js" and ?s = "sval jn js AND sval kn ks"
  let ?x = "mpn_and_loop (neg_digits jn js) (neg_digits kn (pad (length js) ks))"
  let ?im = "if jn \<and> kn then DIG_MASK else 0"
  let ?r = "mpn_add_loop (of_bool (jn \<and> kn)) (map (\<lambda>d. d XOR ?im) ?x) []"
  note pad = pad_correct [OF ok(3,2)]
  have x: "digits_ok ?x" "length ?x = length js" "int (dval ?x) = take_bit ?n ?s"
    using pad ok sval_pad [OF ok(3,2)] dval_neg_digits [OF ok(1), of jn]
      dval_neg_digits [of "pad (length js) ks" kn]
    by (auto simp: mpn_and_loop_correct length_mpn_and_loop of_nat_and_eq)
  have sub: "mpn_and_neg js ks (of_bool (jn \<and> kn)) (of_bool jn) (of_bool kn) =
      take (mpn_remove_trailing_zeros ?r (length ?r)) ?r"
    using mpn_and_neg_loop_eq [OF mask_ok_if mask_ok_if mask_ok_if ok(1,2), of "of_bool (jn \<and> kn)"
        "of_bool jn" "of_bool kn" "jn \<and> kn" jn kn]
    by (simp only: mpn_and_neg_def Let_def neg_digits_def mask_of_bool of_bool_le1 simp_thms)
  have dok: "digits_ok (map (\<lambda>d. d XOR ?im) ?x)"
    using digits_ok_map_xor [OF x(1)] x(1) by (cases "jn \<and> kn") auto
  have r: "dval ?r = of_bool (jn \<and> kn) + dval (map (\<lambda>d. d XOR ?im) ?x)" "digits_ok ?r"
    using mpn_add_loop_correct [OF dok, of "[]" "of_bool (jn \<and> kn)"] by auto
  note rng = sval_range [OF ok(1) order_refl, of jn] sval_range [OF ok(2,3), of kn]
  have "sval (jn \<and> kn) ?r = ?s"
  proof (cases "jn \<and> kn")
    case True
    then have "dval ?r + dval ?x = DIG_BASE ^ length js"
      using r(1) dval_map_xor [OF x(1)] unfolding x(2) by auto
    then have "int (dval ?r) + int (dval ?x) = 2 ^ ?n"
      unfolding power_DIG_SIZE_int by (metis of_nat_add)
    moreover have "take_bit ?n ?s = ?s + 2 ^ ?n"
      using neg_and_range [of ?n "sval jn js" "sval kn ks"] rng True nz
      by (intro take_bit_neg) (auto simp: sval_def)
    ultimately show ?thesis using True x(3) by (simp add: sval_def)
  next
    case False
    have "0 \<le> ?s" using False by (auto simp: sval_def)
    moreover have "?s < 2 ^ ?n"
      using False rng AND_upper1 [of "sval jn js" "sval kn ks"] AND_upper2 [of "sval kn ks" "sval jn js"]
      by (cases jn) (auto simp: sval_def)
    ultimately have "take_bit ?n ?s = ?s" by (rule take_bit_int_eq_self)
    with x(3) have "int (dval ?x) = ?s" by (rule trans)
    moreover have "dval ?r = dval ?x" using r(1) False by auto
    ultimately show ?thesis using False by (simp only: sval_def [of False] if_False)
  qed
  then show "sval (jn \<and> kn) (mpn_and_neg js ks (of_bool (jn \<and> kn)) (of_bool jn) (of_bool kn)) = ?s"
    unfolding sub sval_def strip_all(1) .
  show "digits_ok (mpn_and_neg js ks (of_bool (jn \<and> kn)) (of_bool jn) (of_bool kn))"
    unfolding sub by (rule strip_all(3) [OF r(2)])
  show "normalised (mpn_and_neg js ks (of_bool (jn \<and> kn)) (of_bool jn) (of_bool kn))"
    unfolding sub by (rule strip_all(2))
qed

text \<open>\<open>j | k\<close> where at least one is negative; the assertion on the last carry holds.\<close>

lemma mpn_or_neg_correct:
  assumes ok: "digits_ok js" "digits_ok ks" "length ks \<le> length js"
    and nz: "jn \<Longrightarrow> 0 < dval js" "kn \<Longrightarrow> 0 < dval ks" and neg: "jn \<or> kn"
  shows "\<exists>ds. mpn_or_neg js ks (of_bool jn) (of_bool kn) = Some ds \<and>
    sval True ds = sval jn js OR sval kn ks \<and> digits_ok ds \<and> normalised ds"
proof -
  let ?n = "DIG_SIZE * length js" and ?s = "sval jn js OR sval kn ks"
  let ?x = "mpn_or (neg_digits jn js) (neg_digits kn (pad (length js) ks))"
  let ?r = "mpn_add_loop 1 (map (\<lambda>d. d XOR DIG_MASK) ?x) []"
  note pad = pad_correct [OF ok(3,2)]
  have x: "digits_ok ?x" "length ?x = length js" "int (dval ?x) = take_bit ?n ?s"
    using pad ok sval_pad [OF ok(3,2)] dval_neg_digits [OF ok(1), of jn]
      dval_neg_digits [of "pad (length js) ks" kn]
    by (auto simp: mpn_or_correct of_nat_or_eq)
  have dok: "digits_ok (map (\<lambda>d. d XOR DIG_MASK) ?x)" using x(1) by (simp add: digits_ok_map_xor)
  have r: "dval ?r = 1 + dval (map (\<lambda>d. d XOR DIG_MASK) ?x)" "digits_ok ?r"
    using mpn_add_loop_correct [OF dok, of "[]" 1] by auto
  note rng = sval_range [OF ok(1) order_refl, of jn] sval_range [OF ok(2,3), of kn]
  have "dval ?r + dval ?x = DIG_BASE ^ length js"
    using r(1) dval_map_xor [OF x(1)] unfolding x(2) by linarith
  then have sum: "int (dval ?r) + int (dval ?x) = 2 ^ ?n"
    unfolding power_DIG_SIZE_int by (metis of_nat_add)
  have "sval jn js < 0 \<or> sval kn ks < 0" using neg nz by (auto simp: sval_def)
  then have lt: "?s < 0" "- (2 ^ ?n) < ?s"
    using rng neg_or_ge [of "sval jn js" "sval kn ks"]
      neg_or_ge [of "sval kn ks" "sval jn js", unfolded or.commute [of "sval kn ks"]]
    by (simp_all only: or_negative_int_iff) (meson less_le_trans)
  then have s: "take_bit ?n ?s = ?s + 2 ^ ?n" by (intro take_bit_neg) auto
  with lt x(3) have "0 < int (dval ?x)" by linarith
  with sum have "int (dval ?r) < int (DIG_BASE ^ length js)"
    unfolding power_DIG_SIZE_int by linarith
  then have small: "dval ?r < DIG_BASE ^ length js" by (simp only: of_nat_less_iff)
  have len: "length ?r = length js"
  proof (rule ccontr)
    assume "length ?r \<noteq> length js"
    then have l: "length ?r = Suc (length js)"
      using length_mpn_add_loop [of "[]" "map (\<lambda>d. d XOR DIG_MASK) ?x" 1] x(2) by simp
    then have "normalised ?r"
      using mpn_add_loop_carry_last [of "[]" "map (\<lambda>d. d XOR DIG_MASK) ?x" 1] dok x(2)
      by (simp add: normalised_def)
    with l dval_ge [of ?r] small show False by force
  qed
  have "mpn_or_neg js ks (of_bool jn) (of_bool kn) = Some (take (mpn_remove_trailing_zeros ?r (length ?r)) ?r)"
    using mpn_or_neg_loop_eq [OF mask_ok_if mask_ok_if ok(1,2), of 1 "of_bool jn" "of_bool kn" jn kn] len
    by (simp only: mpn_or_neg_def Let_def neg_digits_def mask_of_bool of_bool_le1 simp_thms
        order_refl if_True option.case)
  moreover have "sval True ?r = ?s" using s sum x(3) by (simp add: sval_def)
  ultimately show ?thesis using strip_all [of ?r] r(2) by (auto simp: sval_def)
qed

text \<open>\<open>j ^ k\<close> where at least one is negative, with \<open>-x = NOT (x - 1)\<close>.\<close>

lemma dval_pred_digits:
  assumes "digits_ok ds" "b \<Longrightarrow> 0 < dval ds"
  shows "dval (carry_digits (\<lambda>d. d + DIG_MASK) (of_bool (\<not> b)) ds) = dval ds - of_bool b"
proof (cases b)
  case True
  with dval_map_add_mask [of ds] assms(2) have
    "dval (map (\<lambda>d. d + DIG_MASK) ds) = (dval ds - 1) + DIG_BASE ^ length ds" by simp
  moreover have "dval ds - 1 < DIG_BASE ^ length ds" using dval_less [OF assms(1)] by simp
  ultimately show ?thesis using True by (simp add: dval_carry_digits)
next
  case False
  have "1 + dval (map (\<lambda>d. d + DIG_MASK) ds) = dval ds + DIG_BASE ^ length ds"
    using dval_map_add_mask [of ds] by simp
  then show ?thesis using False dval_less [OF assms(1)] by (simp add: dval_carry_digits)
qed

lemma sval_not: "b \<Longrightarrow> 0 < dval ds \<Longrightarrow> sval b ds = NOT (int (dval ds - 1))"
  by (simp add: sval_def not_int_def of_nat_diff)

lemma mpn_xor_neg_correct:
  assumes ok: "digits_ok js" "digits_ok ks" "length ks \<le> length js"
    and nz: "jn \<Longrightarrow> 0 < dval js" "kn \<Longrightarrow> 0 < dval ks"
  shows "sval (jn \<noteq> kn) (mpn_xor_neg js ks (of_bool (jn \<noteq> kn)) (of_bool (\<not> jn)) (of_bool (\<not> kn))) =
         sval jn js XOR sval kn ks"
    and "digits_ok (mpn_xor_neg js ks (of_bool (jn \<noteq> kn)) (of_bool (\<not> jn)) (of_bool (\<not> kn)))"
    and "normalised (mpn_xor_neg js ks (of_bool (jn \<noteq> kn)) (of_bool (\<not> jn)) (of_bool (\<not> kn)))"
proof -
  let ?x = "mpn_xor_loop (carry_digits (\<lambda>d. d + DIG_MASK) (of_bool (\<not> jn)) js)
     (carry_digits (\<lambda>d. d + DIG_MASK) (of_bool (\<not> kn)) (pad (length js) ks))"
  let ?r = "mpn_add_loop (of_bool (jn \<noteq> kn)) ?x []"
  let ?j = "dval js - of_bool jn" and ?k = "dval ks - of_bool kn"
  note pad = pad_correct [OF ok(3,2)]
  have x: "digits_ok ?x" "dval ?x = ?j XOR ?k"
    using dval_pred_digits [OF ok(1), of jn] dval_pred_digits [of "pad (length js) ks" kn] pad nz
    by (simp_all add: mpn_xor_loop_correct)
  have r: "dval ?r = of_bool (jn \<noteq> kn) + (?j XOR ?k)" "digits_ok ?r"
    using mpn_add_loop_correct [OF x(1), of "[]" "of_bool (jn \<noteq> kn)"] x(2) by auto
  have sub: "mpn_xor_neg js ks (of_bool (jn \<noteq> kn)) (of_bool (\<not> jn)) (of_bool (\<not> kn)) =
      take (mpn_remove_trailing_zeros ?r (length ?r)) ?r"
    by (simp only: mpn_xor_neg_def Let_def mpn_xor_neg_loop_eq [OF ok(1,2)] of_bool_le1)
  have "sval (jn \<noteq> kn) ?r = sval jn js XOR sval kn ks"
  proof -
    have xi: "int (?j XOR ?k) = int ?j XOR int ?k" by (rule of_nat_xor_eq)
    have v: "sval jn js = (if jn then NOT (int ?j) else int ?j)"
      "sval kn ks = (if kn then NOT (int ?k) else int ?k)"
      using nz sval_not [of jn js] sval_not [of kn ks] by (auto simp: sval_def)
    have "sval (jn \<noteq> kn) ?r = (if jn \<noteq> kn then NOT (int ?j XOR int ?k) else int ?j XOR int ?k)"
      using r(1) xi by (simp only: sval_def) (auto simp: not_int_def)
    also have "\<dots> = sval jn js XOR sval kn ks" unfolding v by auto
    finally show ?thesis .
  qed
  then show "sval (jn \<noteq> kn) (mpn_xor_neg js ks (of_bool (jn \<noteq> kn)) (of_bool (\<not> jn)) (of_bool (\<not> kn))) =
         sval jn js XOR sval kn ks"
    unfolding sub sval_def strip_all(1) .
  show "digits_ok (mpn_xor_neg js ks (of_bool (jn \<noteq> kn)) (of_bool (\<not> jn)) (of_bool (\<not> kn)))"
    unfolding sub by (rule strip_all(3) [OF r(2)])
  show "normalised (mpn_xor_neg js ks (of_bool (jn \<noteq> kn)) (of_bool (\<not> jn)) (of_bool (\<not> kn)))"
    unfolding sub by (rule strip_all(2))
qed
end
