(* ===== verification/Mpn_Div.thy ===== *)
theory Mpn_Div
  imports Mpn_Bits
begin

unbundle bit_operations_syntax

text \<open>
  Long division of digit arrays: \<open>mpn_div\<close> of \<open>py/mpz.c\<close>, in the configuration
  \<open>DIG_SIZE = MPZ_DBL_DIG_SIZE / 2\<close> (16-bit digits, 32-bit double digits). The numerator array
  is a list; the digits between \<open>num_dig - den_len\<close> and \<open>num_dig\<close> are its window. The loop
  that adds the denominator back is a \<open>partial_function\<close>, so that not ending is \<open>None\<close>.
\<close>

section \<open>Operations\<close>

text \<open>Conversion of a difference to \<open>mpz_dbl_dig_t\<close>.\<close>

definition udbl :: "int \<Rightarrow> nat" where
  "udbl x = nat (x mod 2 ^ MPZ_DBL_DIG_SIZE)"

text \<open>Leading zeros of the leading digit of the denominator.\<close>

partial_function (option) mpn_div_norm_shift :: "nat \<Rightarrow> nat \<Rightarrow> nat option" where
  "mpn_div_norm_shift d norm_shift =
     (if d AND DIG_MSB = 0 then mpn_div_norm_shift (dig (push_bit 1 d)) (dig (norm_shift + 1))
      else Some norm_shift)"

text \<open>Shift the numerator left by \<open>norm_shift\<close>, from the least significant digit.\<close>

fun mpn_div_shift_num :: "nat \<Rightarrow> nat \<Rightarrow> nat list \<Rightarrow> nat list" where
  "mpn_div_shift_num norm_shift carry [] = []"
| "mpn_div_shift_num norm_shift carry (n # ns) =
     ((push_bit norm_shift n OR carry) AND DIG_MASK) #
     mpn_div_shift_num norm_shift (dig (drop_bit (DIG_SIZE - norm_shift) n)) ns"

definition mpn_div_lead :: "nat list \<Rightarrow> nat \<Rightarrow> nat" where
  "mpn_div_lead den norm_shift =
     (let l = dbl (push_bit norm_shift (den ! (length den - 1)))
      in if length den \<ge> 2
         then l OR drop_bit (DIG_SIZE - norm_shift) (den ! (length den - 2)) else l)"

text \<open>Subtract \<open>quo * den\<close> from the window; the result and the borrow.\<close>

fun mpn_div_sub :: "nat \<Rightarrow> nat \<Rightarrow> nat \<Rightarrow> nat \<Rightarrow> nat list \<Rightarrow> nat list \<Rightarrow> nat list \<times> nat" where
  "mpn_div_sub norm_shift quo d_norm borrow (n # ns) (d # ds) =
     (let d_norm' = dbl (push_bit norm_shift d) OR drop_bit DIG_SIZE d_norm;
          x = dbl (quo * (d_norm' AND DIG_MASK));
          (n', borrow') =
            (if x \<ge> n \<or> udbl (int n - int x) \<le> borrow then
               let b = udbl (int borrow + (int x - int n))
               in (udbl (- int b) AND DIG_MASK,
                   dbl (drop_bit DIG_SIZE b + (if b AND DIG_MASK = 0 then 0 else 1)))
             else (udbl (int n - int x - int borrow) AND DIG_MASK, 0));
          (r, b') = mpn_div_sub norm_shift quo d_norm' borrow' ns ds
      in (n' # r, b'))"
| "mpn_div_sub norm_shift quo d_norm borrow ns ds = ([], borrow)"

text \<open>Add the denominator back to the window; the result and the carry.\<close>

fun mpn_div_addback :: "nat \<Rightarrow> nat \<Rightarrow> nat \<Rightarrow> nat list \<Rightarrow> nat list \<Rightarrow> nat list \<times> nat" where
  "mpn_div_addback norm_shift d_norm carry (n # ns) (d # ds) =
     (let d_norm' = dbl (push_bit norm_shift d) OR drop_bit DIG_SIZE d_norm;
          c = dbl (carry + dbl (n + (d_norm' AND DIG_MASK)));
          (r, c') = mpn_div_addback norm_shift d_norm' (drop_bit DIG_SIZE c) ns ds
      in ((c AND DIG_MASK) # r, c'))"
| "mpn_div_addback norm_shift d_norm carry ns ds = ([], carry)"

partial_function (option) mpn_div_fix ::
  "nat \<Rightarrow> nat list \<Rightarrow> nat list \<Rightarrow> nat \<Rightarrow> nat \<Rightarrow> (nat list \<times> nat) option" where
  "mpn_div_fix norm_shift den win borrow quo =
     (if borrow = 0 then Some (win, quo)
      else let (win', carry) = mpn_div_addback norm_shift 0 0 win den
           in mpn_div_fix norm_shift den win' (udbl (int borrow - int carry)) (udbl (int quo - 1)))"

text \<open>
  One digit of the quotient: the window above the \<open>p\<close> lowest digits, the digit \<open>*num_dig\<close> on
  top of it, and the new window with the digit of the quotient.
\<close>

definition mpn_div_step :: "nat list \<Rightarrow> nat \<Rightarrow> nat \<Rightarrow> nat \<Rightarrow> nat list \<Rightarrow> (nat list \<times> nat) option" where
  "mpn_div_step den norm_shift lead p num =
     (let num_top = num ! (p + length den);
          quo = (dbl (push_bit DIG_SIZE num_top) OR num ! (p + length den - 1)) div lead;
          (win, borrow) = mpn_div_sub norm_shift quo 0 0 (take (length den) (drop p num)) den
      in map_option (\<lambda>(win', quo'). (take p num @ win' @ drop (p + length den) num, quo' AND DIG_MASK))
           (mpn_div_fix norm_shift den win (udbl (int borrow - int num_top)) quo))"

fun mpn_div_loop ::
  "nat list \<Rightarrow> nat \<Rightarrow> nat \<Rightarrow> nat \<Rightarrow> nat list \<Rightarrow> nat list \<Rightarrow> (nat list \<times> nat list) option" where
  "mpn_div_loop den norm_shift lead 0 num quo_dig = Some (num, quo_dig)"
| "mpn_div_loop den norm_shift lead (Suc p) num quo_dig =
     Option.bind (mpn_div_step den norm_shift lead p num)
       (\<lambda>(num', quo). mpn_div_loop den norm_shift lead p num' (quo_dig[p := quo]))"

text \<open>Shift the remainder back, from its most significant digit.\<close>

fun mpn_div_unshift :: "nat \<Rightarrow> nat \<Rightarrow> nat list \<Rightarrow> nat list \<Rightarrow> nat list" where
  "mpn_div_unshift norm_shift carry [] out = out"
| "mpn_div_unshift norm_shift carry (n # ns) out =
     mpn_div_unshift norm_shift (dig (push_bit (DIG_SIZE - norm_shift) n)) ns
       (((drop_bit norm_shift n OR carry) AND DIG_MASK) # out)"

text \<open>The remainder and the quotient of a numerator and a denominator that is not zero.\<close>

definition mpn_div :: "nat list \<Rightarrow> nat list \<Rightarrow> (nat list \<times> nat list) option" where
  "mpn_div num den =
     (let cmp = mpn_cmp num den
      in if cmp = 0 then Some ([], [1])
         else if cmp < 0 then Some (num, [])
         else Option.bind (mpn_div_norm_shift (den ! (length den - 1)) 0) (\<lambda>norm_shift.
           let num1 = mpn_div_shift_num norm_shift 0 (num @ [0]);
               lead = mpn_div_lead den norm_shift;
               quo_len = length num1 - length den
           in Option.bind (mpn_div_loop den norm_shift lead quo_len num1 (replicate quo_len 0))
             (\<lambda>(num2, quo_dig).
               let r = mpn_div_unshift norm_shift 0 (rev (take (length den) num2)) []
               in Some (take (mpn_remove_trailing_zeros r (length r)) r,
                        take (mpn_remove_trailing_zeros quo_dig (length quo_dig)) quo_dig))))"

section \<open>The normalised denominator\<close>

text \<open>
  Normalisation on the fly gives the digits of the denominator shifted left; the digit
  above the last one is what is shifted out.
\<close>

fun norm_digits :: "nat \<Rightarrow> nat \<Rightarrow> nat list \<Rightarrow> nat list" where
  "norm_digits sh c [] = []"
| "norm_digits sh c (d # ds) =
     (d * 2 ^ sh + c) mod DIG_BASE # norm_digits sh ((d * 2 ^ sh + c) div DIG_BASE) ds"

fun norm_carry :: "nat \<Rightarrow> nat \<Rightarrow> nat list \<Rightarrow> nat" where
  "norm_carry sh c [] = c"
| "norm_carry sh c (d # ds) = norm_carry sh ((d * 2 ^ sh + c) div DIG_BASE) ds"

lemma length_norm_digits [simp]: "length (norm_digits sh c ds) = length ds"
  by (induction sh c ds rule: norm_digits.induct) auto

lemma digits_ok_norm_digits [simp]: "digits_ok (norm_digits sh c ds)"
  by (induction sh c ds rule: norm_digits.induct) auto

lemma dval_norm_digits:
  "dval (norm_digits sh c ds) + DIG_BASE ^ length ds * norm_carry sh c ds = dval ds * 2 ^ sh + c"
proof (induction sh c ds rule: norm_digits.induct)
  case (2 sh c d ds)
  let ?x = "d * 2 ^ sh + c"
  have "dval (norm_digits sh c (d # ds)) + DIG_BASE ^ length (d # ds) * norm_carry sh c (d # ds) =
      ?x mod DIG_BASE + DIG_BASE * (dval (norm_digits sh (?x div DIG_BASE) ds) +
        DIG_BASE ^ length ds * norm_carry sh (?x div DIG_BASE) ds)"
    by (simp add: algebra_simps)
  also have "\<dots> = (?x mod DIG_BASE + DIG_BASE * (?x div DIG_BASE)) + DIG_BASE * (dval ds * 2 ^ sh)"
    unfolding 2 by (simp add: algebra_simps)
  finally show ?case by (simp add: algebra_simps)
qed simp

lemma or_shift:
  assumes "c < 2 ^ sh"
  shows "push_bit sh d OR c = d * 2 ^ sh + (c::nat)"
proof -
  have "push_bit sh d AND take_bit sh c = 0" by (rule bit_eqI) (auto simp: bit_simps)
  moreover have "take_bit sh c = c" using assms by (simp add: take_bit_nat_eq_self)
  ultimately have "push_bit sh d AND c = 0" by simp
  then have "push_bit sh d OR c = push_bit sh d + c" by (rule disjunctive_add_eq_or [symmetric])
  then show ?thesis by (simp add: push_bit_eq_mult)
qed

lemma shift_bounds:
  assumes "d < DIG_BASE" "sh < DIG_SIZE" "c < 2 ^ sh"
  shows "d * 2 ^ sh + c < DIG_BASE * 2 ^ sh" "(d * 2 ^ sh + c) div DIG_BASE < 2 ^ sh"
    "d * 2 ^ sh < DIG_BASE * DIG_BASE"
proof -
  have "d * 2 ^ sh + c < Suc d * 2 ^ sh" using assms(3) by simp
  also have "\<dots> \<le> DIG_BASE * 2 ^ sh" using assms(1) by (intro mult_le_mono1) simp
  finally show *: "d * 2 ^ sh + c < DIG_BASE * 2 ^ sh" .
  then show "(d * 2 ^ sh + c) div DIG_BASE < 2 ^ sh"
    by (simp add: less_mult_imp_div_less mult.commute)
  have "2 ^ sh \<le> DIG_BASE" using assms(2) by (simp add: DIG_BASE_def)
  then have "DIG_BASE * 2 ^ sh \<le> DIG_BASE * DIG_BASE" by (rule mult_le_mono2)
  with * show "d * 2 ^ sh < DIG_BASE * DIG_BASE" by linarith
qed

text \<open>The code's \<open>d_norm\<close> as a number.\<close>

lemma d_norm_eq:
  assumes "d < DIG_BASE" "sh < DIG_SIZE" "d_norm div DIG_BASE < 2 ^ sh"
  shows "dbl (push_bit sh d) OR drop_bit DIG_SIZE d_norm = d * 2 ^ sh + d_norm div DIG_BASE"
proof -
  have "dbl (push_bit sh d) = push_bit sh d"
    using shift_bounds(3) [OF assms] by (simp add: push_bit_eq_mult dbl_id)
  then show ?thesis using or_shift [OF assms(3), of d] by (simp only: drop_bit_DIG_SIZE)
qed

section \<open>Subtracting a multiple of the denominator\<close>

definition sub_rest :: "nat \<Rightarrow> nat \<Rightarrow> nat \<Rightarrow> int" where
  "sub_rest x b n = int n - int x - int b"

definition sub_borrow1 :: "nat \<Rightarrow> nat \<Rightarrow> nat \<Rightarrow> nat" where
  "sub_borrow1 x b n = nat (- (sub_rest x b n div int DIG_BASE))"

fun sub_digits :: "nat \<Rightarrow> nat \<Rightarrow> nat list \<Rightarrow> nat list \<Rightarrow> nat list" where
  "sub_digits quo b (n # ns) (d # ds) =
     nat (sub_rest (quo * d) b n mod int DIG_BASE) # sub_digits quo (sub_borrow1 (quo * d) b n) ns ds"
| "sub_digits quo b ns ds = []"

fun sub_borrow :: "nat \<Rightarrow> nat \<Rightarrow> nat list \<Rightarrow> nat list \<Rightarrow> nat" where
  "sub_borrow quo b (n # ns) (d # ds) = sub_borrow quo (sub_borrow1 (quo * d) b n) ns ds"
| "sub_borrow quo b ns ds = b"

text \<open>No double-digit computation of the subtraction wraps around.\<close>

fun sub_safe :: "nat \<Rightarrow> nat \<Rightarrow> nat list \<Rightarrow> nat list \<Rightarrow> bool" where
  "sub_safe quo b (n # ns) (d # ds) \<longleftrightarrow>
     b + quo * d < DIG_BASE * DIG_BASE + n \<and> sub_safe quo (sub_borrow1 (quo * d) b n) ns ds"
| "sub_safe quo b ns ds \<longleftrightarrow> True"

lemma DIG_BASE_int_nz: "int DIG_BASE \<noteq> 0"
  by simp

lemma udbl_id: "0 \<le> x \<Longrightarrow> x < int (DIG_BASE * DIG_BASE) \<Longrightarrow> udbl x = nat x"
  by (simp add: udbl_def MPZ_DBL_DIG_SIZE_def DIG_BASE_eq)

lemma udbl_mask: "udbl x AND DIG_MASK = nat (x mod int DIG_BASE)"
proof -
  have "int DIG_BASE dvd 2 ^ MPZ_DBL_DIG_SIZE" by (simp add: DIG_BASE_eq MPZ_DBL_DIG_SIZE_def)
  then have "x mod 2 ^ MPZ_DBL_DIG_SIZE mod int DIG_BASE = x mod int DIG_BASE" by (rule mod_mod_cancel)
  moreover have "nat (x mod 2 ^ MPZ_DBL_DIG_SIZE) mod DIG_BASE = nat (x mod 2 ^ MPZ_DBL_DIG_SIZE mod int DIG_BASE)"
    by (subst nat_mod_distrib) simp_all
  ultimately show ?thesis by (simp only: udbl_def and_DIG_MASK)
qed

lemma sub_rest_ge0:
  assumes "0 < sub_rest x b n" "n < DIG_BASE"
  shows "sub_rest x b n div int DIG_BASE = 0"
    "sub_rest x b n mod int DIG_BASE = sub_rest x b n"
  using assms by (auto simp: sub_rest_def intro!: div_pos_pos_trivial mod_pos_pos_trivial)

text \<open>One digit: the code's two branches, with the rounding-up shift, are div and mod.\<close>

lemma mpn_div_sub_digit:
  assumes n: "n < DIG_BASE"
    and t: "b + x < DIG_BASE * DIG_BASE + n"
  shows "(if x \<ge> n \<or> udbl (int n - int x) \<le> b then
            let b' = udbl (int b + (int x - int n))
            in (udbl (- int b') AND DIG_MASK,
                dbl (drop_bit DIG_SIZE b' + (if b' AND DIG_MASK = 0 then 0 else 1)))
          else (udbl (int n - int x - int b) AND DIG_MASK, 0)) =
         (nat (sub_rest x b n mod int DIG_BASE), sub_borrow1 x b n)"
proof -
  let ?r = "sub_rest x b n"
  have small: "udbl (int n - int x) = n - x" if "x < n"
    using that n by (subst udbl_id) (auto simp: DIG_BASE_eq)
  have cond: "x \<ge> n \<or> udbl (int n - int x) \<le> b \<longleftrightarrow> ?r \<le> 0"
    using small by (cases "x < n") (auto simp: sub_rest_def)
  show ?thesis
  proof (cases "?r \<le> 0")
    case True
    obtain m where m: "?r = - int m" using True by (metis nonpos_int_cases)
    have b: "udbl (int b + (int x - int n)) = m"
      using m t by (subst udbl_id) (auto simp: sub_rest_def DIG_BASE_eq)
    have bb: "m < DIG_BASE * DIG_BASE" using m t by (simp add: sub_rest_def DIG_BASE_eq)
    have "(- int m) div int DIG_BASE = (if int m mod int DIG_BASE = 0 then - (int m div int DIG_BASE)
        else - (int m div int DIG_BASE) - 1)"
      by (rule zdiv_zminus1_eq_if) simp
    then have up: "m div DIG_BASE + (if m mod DIG_BASE = 0 then 0 else 1) = nat (- (- int m div int DIG_BASE))"
      by (simp add: nat_add_distrib flip: zdiv_int zmod_int)
    have "m div DIG_BASE + 1 < DIG_BASE * DIG_BASE"
      using div_DIG_BASE_less [OF bb] by (simp add: DIG_BASE_eq)
    then have "dbl (m div DIG_BASE + (if m mod DIG_BASE = 0 then 0 else 1)) =
        m div DIG_BASE + (if m mod DIG_BASE = 0 then 0 else 1)"
      by (intro dbl_id) auto
    then show ?thesis
      unfolding cond b Let_def sub_borrow1_def m and_DIG_MASK [of m] drop_bit_DIG_SIZE [of m] up udbl_mask
      using True m by simp
  next
    case False
    then have "?r mod int DIG_BASE = ?r" "?r div int DIG_BASE = 0" using sub_rest_ge0 [of x b n] n by auto
    then show ?thesis unfolding cond using False
      by (simp add: udbl_mask sub_borrow1_def flip: sub_rest_def)
  qed
qed

lemma mpn_div_sub_eq:
  "length ns = length den \<Longrightarrow> digits_ok ns \<Longrightarrow> digits_ok den \<Longrightarrow> sh < DIG_SIZE \<Longrightarrow>
   quo \<le> DIG_BASE + 1 \<Longrightarrow> dn div DIG_BASE < 2 ^ sh \<Longrightarrow>
   sub_safe quo b ns (norm_digits sh (dn div DIG_BASE) den) \<Longrightarrow>
   mpn_div_sub sh quo dn b ns den =
     (sub_digits quo b ns (norm_digits sh (dn div DIG_BASE) den),
      sub_borrow quo b ns (norm_digits sh (dn div DIG_BASE) den))"
proof (induction ns den arbitrary: dn b rule: list_induct2)
  case (Cons n ns d ds)
  let ?dn = "d * 2 ^ sh + dn div DIG_BASE"
  let ?m = "?dn mod DIG_BASE"
  have dn: "dbl (push_bit sh d) OR drop_bit DIG_SIZE dn = ?dn"
    using Cons.prems by (intro d_norm_eq) auto
  have "quo * ?m \<le> (DIG_BASE + 1) * (DIG_BASE - 1)"
    using Cons.prems(4) by (intro mult_le_mono) (auto simp: less_Suc_eq_le [symmetric])
  also have "\<dots> < DIG_BASE * DIG_BASE" by (simp add: DIG_BASE_eq)
  finally have x: "quo * ?m < DIG_BASE * DIG_BASE" .
  then have dx: "dbl (quo * ?m) = quo * ?m" by (rule dbl_id)
  have lt: "?dn div DIG_BASE < 2 ^ sh" using Cons.prems by (intro shift_bounds) auto
  have IH: "mpn_div_sub sh quo ?dn (sub_borrow1 (quo * ?m) b n) ns ds =
     (sub_digits quo (sub_borrow1 (quo * ?m) b n) ns (norm_digits sh (?dn div DIG_BASE) ds),
      sub_borrow quo (sub_borrow1 (quo * ?m) b n) ns (norm_digits sh (?dn div DIG_BASE) ds))"
    using Cons.prems lt by (intro Cons.IH) auto
  have "n < DIG_BASE" "b + quo * ?m < DIG_BASE * DIG_BASE + n" using Cons.prems by auto
  note step = mpn_div_sub_digit [OF this]
  show ?case
    unfolding mpn_div_sub.simps dn Let_def and_DIG_MASK [of ?dn] dx
    using step unfolding Let_def by (simp add: IH)
qed simp

lemma sub_digits_ok: "digits_ok (sub_digits quo b ns ds)"
  by (induction quo b ns ds rule: sub_digits.induct) (auto simp: nat_less_iff)

lemma length_sub_digits: "length ns = length ds \<Longrightarrow> length (sub_digits quo b ns ds) = length ns"
  by (induction quo b ns ds rule: sub_digits.induct) auto

lemma sub_borrow1_int: "n < DIG_BASE \<Longrightarrow> int (sub_borrow1 x b n) = - (sub_rest x b n div int DIG_BASE)"
proof -
  assume "n < DIG_BASE"
  then have "sub_rest x b n div int DIG_BASE \<le> (int DIG_BASE - 1) div int DIG_BASE"
    by (intro zdiv_mono1) (auto simp: sub_rest_def)
  also have "\<dots> = 0" by (simp add: DIG_BASE_eq)
  finally show ?thesis by (simp add: sub_borrow1_def)
qed

lemma sub_value:
  "length ns = length ds \<Longrightarrow> digits_ok ns \<Longrightarrow>
   int (dval (sub_digits quo b ns ds)) - int (DIG_BASE ^ length ns) * int (sub_borrow quo b ns ds) =
   int (dval ns) - int (quo * dval ds) - int b"
proof (induction quo b ns ds rule: sub_digits.induct)
  case (1 quo b n ns d ds)
  let ?r = "sub_rest (quo * d) b n" and ?b = "sub_borrow1 (quo * d) b n" and ?B = "int DIG_BASE"
  have n: "n < DIG_BASE" using 1 by simp
  have IH: "int (dval (sub_digits quo ?b ns ds)) - int (DIG_BASE ^ length ns) * int (sub_borrow quo ?b ns ds) =
    int (dval ns) - int (quo * dval ds) - int ?b" using 1 by simp
  have "int (dval (sub_digits quo b (n # ns) (d # ds))) -
      int (DIG_BASE ^ length (n # ns)) * int (sub_borrow quo b (n # ns) (d # ds)) =
      ?r mod ?B + ?B * (int (dval (sub_digits quo ?b ns ds)) -
        int (DIG_BASE ^ length ns) * int (sub_borrow quo ?b ns ds))"
    by (simp add: algebra_simps)
  also have "\<dots> = ?r mod ?B + ?B * (int (dval ns) - int (quo * dval ds) + ?r div ?B)"
    unfolding IH sub_borrow1_int [OF n] by simp
  also have "\<dots> = (?B * (?r div ?B) + ?r mod ?B) + ?B * int (dval ns) - ?B * int (quo * dval ds)"
    by (simp add: algebra_simps)
  also have "\<dots> = int (dval (n # ns)) - int (quo * dval (d # ds)) - int b"
    by (simp add: sub_rest_def algebra_simps)
  finally show ?case .
qed auto

subsection \<open>When the borrow does not wrap around\<close>

lemma sub_borrow1_le:
  assumes "b + x \<le> c * DIG_BASE + n"
  shows "sub_borrow1 x b n \<le> c"
proof -
  have "int (b + x) \<le> int (c * DIG_BASE + n)" using assms by (rule of_nat_mono)
  then have "- int c * int DIG_BASE \<le> sub_rest x b n" by (simp add: sub_rest_def)
  then have "- int c * int DIG_BASE div int DIG_BASE \<le> sub_rest x b n div int DIG_BASE"
    by (rule zdiv_mono1) simp
  then have "- int c \<le> sub_rest x b n div int DIG_BASE"
    by (simp only: nonzero_mult_div_cancel_right [OF DIG_BASE_int_nz])
  then show ?thesis by (simp add: sub_borrow1_def)
qed

lemma sub_append:
  "length ns = length ds \<Longrightarrow>
   sub_borrow quo b (ns @ ms) (ds @ es) = sub_borrow quo (sub_borrow quo b ns ds) ms es \<and>
   sub_safe quo b (ns @ ms) (ds @ es) =
     (sub_safe quo b ns ds \<and> sub_safe quo (sub_borrow quo b ns ds) ms es)"
  by (induction ns ds arbitrary: b rule: list_induct2) auto

lemma sub_safe_uniform:
  "length ns = length ds \<Longrightarrow> b \<le> c \<Longrightarrow>
   \<forall>d \<in> set ds. c + quo * d \<le> c * DIG_BASE \<and> c + quo * d < DIG_BASE * DIG_BASE \<Longrightarrow>
   sub_safe quo b ns ds \<and> sub_borrow quo b ns ds \<le> c"
proof (induction ns ds arbitrary: b rule: list_induct2)
  case (Cons n ns d ds)
  have "b + quo * d \<le> c * DIG_BASE + n" using Cons.prems by fastforce
  then have "sub_borrow1 (quo * d) b n \<le> c" by (rule sub_borrow1_le)
  moreover have "b + quo * d < DIG_BASE * DIG_BASE + n" using Cons.prems by fastforce
  ultimately show ?case using Cons by simp
qed simp

text \<open>A trial quotient below the base: the borrow never exceeds the quotient.\<close>

lemma sub_safe_small:
  assumes "quo < DIG_BASE" "digits_ok ds" "length ns = length ds"
  shows "sub_safe quo 0 ns ds"
proof -
  have "quo + quo * d \<le> quo * DIG_BASE" if "d \<in> set ds" for d
    using that assms(2) mult_le_mono2 [of "Suc d" DIG_BASE quo] by (auto simp: digits_ok_def)
  moreover have "quo * DIG_BASE < DIG_BASE * DIG_BASE" using assms(1) by simp
  ultimately show ?thesis
    using sub_safe_uniform [of ns ds 0 quo quo] assms(3) by (meson le_less_trans le0)
qed

text \<open>
  A trial quotient of \<open>DIG_BASE\<close> or \<open>DIG_BASE + 1\<close>, which the leading digits can suggest: then
  the digits of the denominator between the first and the last must not be \<open>DIG_MASK\<close>.
\<close>

definition no_full_middle :: "nat list \<Rightarrow> bool" where
  "no_full_middle ds \<longleftrightarrow> (\<forall>d \<in> set (butlast (tl ds)). d \<noteq> DIG_MASK)"

lemma dval_snoc_less_split:
  assumes "dval (ns @ [n]) + DIG_BASE ^ Suc (length ns) * h < dval (ds @ [l]) * DIG_BASE"
    and "length ns = length ds" "digits_ok ds"
  shows "h \<le> l"
proof (rule ccontr)
  assume "\<not> h \<le> l"
  then have "Suc l \<le> h" by simp
  then have "DIG_BASE ^ Suc (length ds) * Suc l \<le> DIG_BASE ^ Suc (length ds) * h" by (rule mult_le_mono2)
  moreover have "dval (ds @ [l]) * DIG_BASE < DIG_BASE ^ Suc (length ds) * Suc l"
    using dval_less [OF assms(3)] by (simp add: dval_append algebra_simps)
  ultimately show False using assms(1,2) by simp
qed

lemma big_quo_top:
  assumes "DIG_BASE \<le> (h * DIG_BASE + n) div l" "h \<le> l" "n < DIG_BASE" "0 < l"
  shows "h = l" "((h * DIG_BASE + n) div l) * l \<le> l * DIG_BASE + n"
proof -
  have le: "((h * DIG_BASE + n) div l) * l \<le> h * DIG_BASE + n" by (simp add: div_times_less_eq_dividend)
  have "DIG_BASE * l \<le> ((h * DIG_BASE + n) div l) * l" using assms(1) by (rule mult_le_mono1)
  from this le have ge: "DIG_BASE * l \<le> h * DIG_BASE + n" by (rule order_trans)
  show "h = l"
  proof (rule ccontr)
    assume "h \<noteq> l"
    with assms(2) have "Suc h * DIG_BASE \<le> l * DIG_BASE" by (intro mult_le_mono1) simp
    with ge assms(3) show False by (simp add: mult.commute)
  qed
  with le show "((h * DIG_BASE + n) div l) * l \<le> l * DIG_BASE + n" by simp
qed

lemma dval_low_mid:
  assumes "\<forall>d \<in> set mids. d < DIG_BASE - 1" "d0 < DIG_BASE"
  shows "dval (d0 # mids) * DIG_BASE \<le> DIG_BASE ^ Suc (length mids) * (DIG_BASE - 1)"
proof (cases mids rule: rev_cases)
  case Nil
  then show ?thesis using assms(2) by (simp add: DIG_BASE_eq)
next
  case (snoc es e)
  have ok: "digits_ok (d0 # es)" using assms snoc by (auto simp: digits_ok_def)
  have "dval (d0 # mids) < DIG_BASE ^ length (d0 # es) * Suc e"
    using dval_less [OF ok] snoc dval_append [of "d0 # es" "[e]"] by simp
  also have "\<dots> \<le> DIG_BASE ^ length (d0 # es) * (DIG_BASE - 1)"
    using assms(1) snoc by (intro mult_le_mono2) auto
  finally have "dval (d0 # mids) * DIG_BASE \<le> DIG_BASE ^ length (d0 # es) * (DIG_BASE - 1) * DIG_BASE"
    by (intro mult_le_mono1 less_imp_le)
  also have "\<dots> = DIG_BASE ^ Suc (length mids) * (DIG_BASE - 1)" using snoc by simp
  finally show ?thesis .
qed

lemma sub_safe_big:
  assumes len: "length ns = length ds" and ok: "digits_ok (ns @ [n])" "digits_ok (ds @ [l])"
    and less: "dval (ns @ [n]) + DIG_BASE ^ Suc (length ns) * h < dval (ds @ [l]) * DIG_BASE"
    and quo: "quo = (h * DIG_BASE + n) div l" "DIG_BASE \<le> quo" and l: "DIG_BASE \<le> 2 * l"
    and mid: "no_full_middle (ds @ [l])"
  shows "sub_safe quo 0 (ns @ [n]) (ds @ [l])" "quo \<le> DIG_BASE + 1"
proof -
  have hl: "h \<le> l" using dval_snoc_less_split [OF less len] ok by simp
  have l0: "0 < l" "n < DIG_BASE" "l < DIG_BASE" using l ok by auto
  have top: "h = l" "quo * l \<le> l * DIG_BASE + n"
    using big_quo_top [of h n l] quo hl l0 by auto
  have "quo < DIG_BASE + 2"
  proof (rule ccontr)
    assume "\<not> quo < DIG_BASE + 2"
    then have "(DIG_BASE + 2) * l \<le> quo * l" by (intro mult_le_mono1) simp
    with top(2) l l0 show False by (simp add: algebra_simps)
  qed
  then show q: "quo \<le> DIG_BASE + 1" by simp
  have "ds \<noteq> []"
  proof
    assume "ds = []"
    with less len top(1) show False by (simp add: mult.commute)
  qed
  then obtain d0 mids where ds: "ds = d0 # mids" by (cases ds) auto
  then obtain n0 ms where ns: "ns = n0 # ms" using len by (cases ns) auto
  have d0: "d0 < DIG_BASE" using ok ds by simp
  have mlt: "d < DIG_BASE - 1" if "d \<in> set mids" for d
    using that mid ok ds by (auto simp: no_full_middle_def DIG_MASK_eq digits_ok_def nat_less_le less_Suc_eq_le
        dest!: bspec)
  have qv: "quo = 65536 \<or> quo = 65537" using q quo(2) by (auto simp: DIG_BASE_eq)
  then have first: "0 + quo * d0 \<le> (quo - 1) * DIG_BASE + n0" "0 + quo * d0 < DIG_BASE * DIG_BASE + n0"
    using d0 by (auto simp: DIG_BASE_eq)
  have rest: "\<forall>d \<in> set mids. quo - 1 + quo * d \<le> (quo - 1) * DIG_BASE \<and>
      quo - 1 + quo * d < DIG_BASE * DIG_BASE"
  proof
    fix d
    assume "d \<in> set mids"
    then have "d < 65535" using mlt by (simp add: DIG_BASE_eq)
    with qv show "quo - 1 + quo * d \<le> (quo - 1) * DIG_BASE \<and> quo - 1 + quo * d < DIG_BASE * DIG_BASE"
      by (auto simp: DIG_BASE_eq)
  qed
  have "sub_borrow1 (quo * d0) 0 n0 \<le> quo - 1" using first(1) by (rule sub_borrow1_le)
  then have sm: "sub_safe quo 0 ns ds" "sub_borrow quo 0 ns ds \<le> quo - 1"
    using sub_safe_uniform [of ms mids "sub_borrow1 (quo * d0) 0 n0" "quo - 1" quo] rest first(2) len ns ds
    by auto
  have "quo \<le> DIG_BASE \<or> l \<le> DIG_BASE - 2"
  proof (rule ccontr)
    assume "\<not> ?thesis"
    with q l0 have ql: "quo = DIG_BASE + 1" "l = DIG_BASE - 1" by auto
    with top(2) l0 have n: "n = DIG_BASE - 1" by (simp add: DIG_BASE_eq)
    have "DIG_BASE ^ length ds * (DIG_BASE - 1) < dval ds * DIG_BASE"
      using less top(1) len unfolding n ql by (simp add: dval_append algebra_simps)
    with dval_low_mid [of mids d0] mlt d0 ds show False by auto
  qed
  then have "sub_borrow quo 0 ns ds + quo * l < DIG_BASE * DIG_BASE + n"
    using sm(2) top(2) q l0 by (auto simp: DIG_BASE_eq)
  then show "sub_safe quo 0 (ns @ [n]) (ds @ [l])"
    using sub_append [OF len, of quo 0 "[n]" "[l]"] sm(1) by simp
qed

section \<open>Adding the denominator back\<close>

lemma dbl_add2: "c \<le> 1 \<Longrightarrow> n < DIG_BASE \<Longrightarrow> m < DIG_BASE \<Longrightarrow> dbl (c + dbl (n + m)) = c + (n + m)"
  by (simp add: dbl_id DIG_BASE_eq)

lemma mpn_div_addback_correct:
  "length ns = length den \<Longrightarrow> digits_ok ns \<Longrightarrow> digits_ok den \<Longrightarrow> sh < DIG_SIZE \<Longrightarrow>
   dn div DIG_BASE < 2 ^ sh \<Longrightarrow> c \<le> 1 \<Longrightarrow> mpn_div_addback sh dn c ns den = (r, c') \<Longrightarrow>
   dval r + DIG_BASE ^ length ns * c' = dval ns + dval (norm_digits sh (dn div DIG_BASE) den) + c \<and>
   digits_ok r \<and> length r = length ns \<and> c' \<le> 1"
proof (induction ns den arbitrary: dn c r c' rule: list_induct2)
  case (Cons n ns d ds)
  let ?dn = "d * 2 ^ sh + dn div DIG_BASE"
  let ?m = "?dn mod DIG_BASE"
  let ?x = "c + (n + ?m)"
  have dn: "dbl (push_bit sh d) OR drop_bit DIG_SIZE dn = ?dn"
    using Cons.prems by (intro d_norm_eq) auto
  have m: "?m < DIG_BASE" by simp
  have x: "dbl (c + dbl (n + ?m)) = ?x" using Cons.prems m by (intro dbl_add2) auto
  have "n < DIG_BASE" using Cons.prems by simp
  then have "?x < 2 * DIG_BASE" using m Cons.prems(5) by linarith
  then have c1: "?x div DIG_BASE \<le> 1" by (rule div_DIG_BASE_le1)
  have lt: "?dn div DIG_BASE < 2 ^ sh" using Cons.prems by (intro shift_bounds) auto
  obtain r' c'' where rec: "mpn_div_addback sh ?dn (?x div DIG_BASE) ns ds = (r', c'')" by (rule prod.exhaust)
  have r: "r = ?x mod DIG_BASE # r'" "c' = c''"
    using Cons.prems(6) rec unfolding mpn_div_addback.simps dn Let_def
    by (simp_all only: dig_arith x) auto
  have IH: "dval r' + DIG_BASE ^ length ns * c'' = dval ns + dval (norm_digits sh (?dn div DIG_BASE) ds) + ?x div DIG_BASE"
    "digits_ok r'" "length r' = length ns" "c'' \<le> 1"
    using Cons.IH [OF _ _ _ lt c1 rec] Cons.prems by auto
  have "dval r + DIG_BASE ^ length (n # ns) * c' =
      ?x mod DIG_BASE + DIG_BASE * (dval r' + DIG_BASE ^ length ns * c'')"
    using r by (simp add: algebra_simps)
  also have "\<dots> = (?x mod DIG_BASE + DIG_BASE * (?x div DIG_BASE)) +
      DIG_BASE * (dval ns + dval (norm_digits sh (?dn div DIG_BASE) ds))"
    unfolding IH(1) by (simp add: algebra_simps)
  also have "\<dots> = dval (n # ns) + dval (norm_digits sh (dn div DIG_BASE) (d # ds)) + c"
    by (simp add: algebra_simps)
  finally show ?case using r IH by simp
qed simp

text \<open>The correction loop ends, with the quotient and the remainder.\<close>

lemma mpn_div_fix_correct:
  assumes den: "digits_ok den" "sh < DIG_SIZE" and D: "D = dval (norm_digits sh 0 den)" "0 < D"
  shows "digits_ok win \<Longrightarrow> length win = length den \<Longrightarrow> R div D \<le> quo \<Longrightarrow> quo \<le> DIG_BASE + 1 \<Longrightarrow>
    b < DIG_BASE * DIG_BASE \<Longrightarrow>
    int R - int (quo * D) = int (dval win) - int (DIG_BASE ^ length den) * int b \<Longrightarrow>
    \<exists>win'. mpn_div_fix sh den win b quo = Some (win', R div D) \<and> dval win' = R mod D \<and>
      digits_ok win' \<and> length win' = length den"
proof (induction "quo - R div D" arbitrary: win b quo rule: less_induct)
  case less
  show ?case
  proof (cases "b = 0")
    case True
    then have "int R = int (quo * D + dval win)" using less.prems(6) by simp
    then have R: "R = quo * D + dval win" by (simp only: of_nat_eq_iff)
    then have "quo \<le> R div D" using D(2) by (simp add: less_eq_div_iff_mult_less_eq)
    with less.prems(3) have q: "quo = R div D" by simp
    then have "dval win = R mod D" using R by (metis add_diff_cancel_left' div_mult_mod_eq)
    then show ?thesis using True q less.prems by (subst mpn_div_fix.simps) auto
  next
    case False
    let ?M = "int (DIG_BASE ^ length den)"
    have win: "int (dval win) < ?M" using dval_less [OF less.prems(1)] less.prems(2) by (simp only: of_nat_less_iff)
    obtain win1 c where ab: "mpn_div_addback sh 0 0 win den = (win1, c)" by (rule prod.exhaust)
    have a: "dval win1 + DIG_BASE ^ length den * c = dval win + D" "digits_ok win1"
      "length win1 = length den" "c \<le> 1"
      using mpn_div_addback_correct [OF less.prems(2,1) den _ _ ab] D less.prems(2) by auto
    have b1: "udbl (int b - int c) = b - c"
      using False a(4) less.prems(5) by (subst udbl_id) (auto simp: DIG_BASE_eq)
    have "?M * 1 \<le> ?M * int b" using False by (intro mult_left_mono) auto
    then have "int R < int (quo * D)" using less.prems(6) win by linarith
    then have "R < quo * D" by (simp only: of_nat_less_iff)
    then have q: "R div D < quo" by (rule less_mult_imp_div_less)
    have q1: "udbl (int quo - 1) = quo - 1"
      using q less.prems(4) by (subst udbl_id) (auto simp: DIG_BASE_eq)
    have "int (dval win1) + ?M * int c = int (dval win) + int D"
      using a(1) by (metis of_nat_add of_nat_mult)
    moreover have "int ((quo - 1) * D) = int (quo * D) - int D"
      using q by (cases quo) (auto simp: algebra_simps)
    moreover have "?M * int (b - c) = ?M * int b - ?M * int c"
      using False a(4) by (simp add: of_nat_diff right_diff_distrib)
    ultimately have inv: "int R - int ((quo - 1) * D) = int (dval win1) - ?M * int (b - c)"
      using less.prems(6) by linarith
    have "\<exists>win'. mpn_div_fix sh den win1 (b - c) (quo - 1) = Some (win', R div D) \<and> dval win' = R mod D \<and>
      digits_ok win' \<and> length win' = length den"
      using q a(2,3) less.prems(4,5) inv by (intro less.hyps) auto
    then show ?thesis using False ab b1 q1 by (subst mpn_div_fix.simps) simp
  qed
qed

section \<open>One digit of the quotient\<close>

lemma trial_quo_ge:
  assumes "length ns = length ds" "digits_ok ns" "0 < l"
  shows "(dval (ns @ [n]) + DIG_BASE ^ Suc (length ns) * h) div dval (ds @ [l]) \<le> (h * DIG_BASE + n) div l"
proof -
  let ?P = "DIG_BASE ^ length ns"
  let ?R = "dval (ns @ [n]) + DIG_BASE ^ Suc (length ns) * h"
  have "?R = dval ns + (h * DIG_BASE + n) * ?P" by (simp add: dval_append algebra_simps)
  then have "?R div ?P = h * DIG_BASE + n" using dval_less [OF assms(2)] by simp
  moreover have "?R div dval (ds @ [l]) \<le> ?R div (?P * l)"
    using assms(1,3) by (intro div_le_mono2) (auto simp: dval_append)
  ultimately show ?thesis by (simp add: div_mult2_eq)
qed

lemma div_borrow_range:
  fixes w M :: int
  assumes "int R - int (q * D) = w - M * (int b - int h)" "w < M" "0 \<le> w" "R div D \<le> q" "0 < D"
    "int D \<le> M" "q \<le> DIG_BASE + 1"
  shows "h \<le> b" "b - h < DIG_BASE * DIG_BASE"
proof -
  have "R < (q + 1) * D"
    using assms(4,5) by (metis add.commute div_less_iff_less_mult less_Suc_eq_le plus_1_eq_Suc)
  then have "int R < int (q * D) + int D" by (simp add: distrib_right flip: of_nat_add of_nat_mult)
  then have "M * (int b - int h) > - M" using assms(1,3,6) by linarith
  then have "M * (int b - int h + 1) > 0" by (simp add: distrib_left)
  then have "int b - int h + 1 > 0" using assms(2,3) by (simp add: zero_less_mult_iff)
  then show hb: "h \<le> b" by simp
  have "int (q * D) \<le> (int DIG_BASE + 1) * M"
    using assms(6,7) unfolding of_nat_mult by (intro mult_mono) auto
  then have "M * (int b - int h) < M * (int DIG_BASE + 2)"
    using assms(1,2) by (simp add: algebra_simps)
  then have "int b - int h < int DIG_BASE + 2" using assms(2,3) by (simp add: mult_less_cancel_left)
  then show "b - h < DIG_BASE * DIG_BASE" using hb by (simp add: DIG_BASE_eq)
qed

lemma mpn_div_step_correct:
  assumes den: "digits_ok den" "den \<noteq> []" "sh < DIG_SIZE"
    and nd: "nd = norm_digits sh 0 den" "DIG_BASE \<le> 2 * last nd" "no_full_middle nd"
    and lead: "lead = last nd" and num: "digits_ok num" "p + length den < length num"
    and R: "R = dval (take (Suc (length den)) (drop p num))" "R < dval nd * DIG_BASE"
  shows "\<exists>num'. mpn_div_step den sh lead p num = Some (num', R div dval nd) \<and>
    length num' = length num \<and> digits_ok num' \<and> take p num' = take p num \<and>
    dval (take (length den) (drop p num')) = R mod dval nd"
proof -
  let ?L = "length den" and ?D = "dval nd"
  let ?win = "take ?L (drop p num)" and ?h = "num ! (p + ?L)"
  have wl: "length ?win = ?L" using num by simp
  obtain ns n where win: "?win = ns @ [n]" using wl den(2) by (cases ?win rule: rev_cases) auto
  have ndlen: "length nd = ?L" using nd(1) by simp
  then have "nd \<noteq> []" using den(2) by auto
  then obtain ds l where ndl: "nd = ds @ [l]" by (metis append_butlast_last_id)
  have len: "length ns = length ds" "?L = Suc (length ns)" using wl win ndl ndlen by auto
  have n: "num ! (p + ?L - 1) = n"
  proof -
    have "?win ! length ns = n" by (simp add: win)
    then show ?thesis using len num by simp
  qed
  have okw: "digits_ok ?win" "?h < DIG_BASE" using num by (auto intro: digits_ok_take digits_ok_drop digits_ok_nth)
  have "take (Suc ?L) (drop p num) = ?win @ [?h]"
    using num by (simp add: take_Suc_conv_app_nth)
  then have Rv: "R = dval (ns @ [n]) + DIG_BASE ^ Suc (length ns) * ?h"
    using R(1) dval_append [of "ns @ [n]" "[?h]"] by (simp add: win)
  let ?q = "(?h * DIG_BASE + n) div l"
  have l: "lead = l" "DIG_BASE \<le> 2 * l" using lead nd(2) ndl by auto
  have nlt: "n < DIG_BASE" using okw win by simp
  have quo: "(dbl (push_bit DIG_SIZE ?h) OR num ! (p + ?L - 1)) div lead = ?q"
    using okw(2) nlt n l(1) or_low_high [OF nlt, of ?h] by (simp add: dig_arith)
  have oknd: "digits_ok (ds @ [l])" using nd(1) ndl by (metis digits_ok_norm_digits)
  have safe: "sub_safe ?q 0 ?win nd" "?q \<le> DIG_BASE + 1"
  proof -
    have "sub_safe ?q 0 (ns @ [n]) (ds @ [l]) \<and> ?q \<le> DIG_BASE + 1"
    proof (cases "?q < DIG_BASE")
      case True
      then show ?thesis using sub_safe_small [OF True oknd] len by simp
    next
      case False
      then show ?thesis
        using sub_safe_big [OF len(1) _ oknd _ refl _ l(2)] R(2) Rv okw(1) win ndl nd(3) by simp
    qed
    then show "sub_safe ?q 0 ?win nd" "?q \<le> DIG_BASE + 1" using win ndl by auto
  qed
  obtain w b where sub: "mpn_div_sub sh ?q 0 0 ?win den = (w, b)" by (rule prod.exhaust)
  have wb: "w = sub_digits ?q 0 ?win nd" "b = sub_borrow ?q 0 ?win nd"
    using mpn_div_sub_eq [OF wl okw(1) den(1,3) safe(2), of 0 0] safe(1) sub nd(1) by auto
  let ?M = "int (DIG_BASE ^ ?L)" and ?r = "int R - int (?q * ?D)"
  have "0 < l" using l(2) DIG_BASE_pos by linarith
  then have "0 < dval nd" by (simp add: ndl dval_append)
  have qge: "R div ?D \<le> ?q"
    unfolding Rv ndl using len okw(1) win l(2) DIG_BASE_pos by (intro trial_quo_ge) auto
  have val: "?r = int (dval w) - ?M * (int b - int ?h)"
    using sub_value [OF _ okw(1), of nd ?q 0] wl nd(1) wb Rv win len
    by (simp add: right_diff_distrib)
  have Dlt: "?D < DIG_BASE ^ ?L" using dval_less [of nd] nd(1) by simp
  have wok: "digits_ok w" "length w = ?L" using wb sub_digits_ok length_sub_digits wl nd(1) by auto
  have wlt: "int (dval w) < ?M" using dval_less [OF wok(1)] wok(2) by (simp only: of_nat_less_iff)
  have bh: "?h \<le> b" "b - ?h < DIG_BASE * DIG_BASE"
    using div_borrow_range [OF val wlt] qge Dlt \<open>0 < dval nd\<close> safe(2) by auto
  have ub: "udbl (int b - int ?h) = b - ?h"
    using bh by (subst udbl_id) (auto simp: DIG_BASE_eq)
  have "?r = int (dval w) - int (DIG_BASE ^ length den) * int (b - ?h)"
    using val bh(1) by (simp add: of_nat_diff)
  from mpn_div_fix_correct [OF den(1,3) _ \<open>0 < dval nd\<close> wok qge safe(2) bh(2) this] nd(1)
  obtain w' where w': "mpn_div_fix sh den w (b - ?h) ?q = Some (w', R div ?D)" "dval w' = R mod ?D"
    "digits_ok w'" "length w' = ?L" by auto
  have "R div ?D < DIG_BASE" using R(2) by (intro less_mult_imp_div_less) (simp add: mult.commute)
  then have "mpn_div_step den sh lead p num = Some (take p num @ w' @ drop (p + ?L) num, R div ?D)"
    unfolding mpn_div_step_def Let_def quo sub using w'(1) by (simp add: ub dig_arith)
  then show ?thesis using w' num by (auto intro: digits_ok_take digits_ok_drop)
qed

section \<open>The loop over the digits of the quotient\<close>

lemma mpn_div_loop_correct:
  assumes den: "digits_ok den" "den \<noteq> []" "sh < DIG_SIZE"
    and nd: "nd = norm_digits sh 0 den" "DIG_BASE \<le> 2 * last nd" "no_full_middle nd"
    and lead: "lead = last nd"
  shows "digits_ok num \<Longrightarrow> m + length den \<le> length num \<Longrightarrow> m \<le> length qs \<Longrightarrow> digits_ok qs \<Longrightarrow>
    dval (take (length den) (drop m num)) < dval nd \<Longrightarrow>
    \<exists>num' qs'. mpn_div_loop den sh lead m num qs = Some (num', qs') \<and>
      dval (take m qs') = dval (take (m + length den) num) div dval nd \<and> drop m qs' = drop m qs \<and>
      digits_ok qs' \<and> length qs' = length qs \<and> digits_ok num' \<and> length num' = length num \<and>
      dval (take (length den) num') = dval (take (m + length den) num) mod dval nd"
proof (induction m arbitrary: num qs)
  case 0
  then show ?case by simp
next
  case (Suc p)
  let ?L = "length den" and ?D = "dval nd"
  define R where "R = dval (take (Suc ?L) (drop p num))"
  have p: "p < length num" "p + ?L < length num" using Suc.prems by auto
  have "R = num ! p + DIG_BASE * dval (take ?L (drop (Suc p) num))"
    unfolding R_def using p by (simp add: Cons_nth_drop_Suc [symmetric])
  moreover have "num ! p < DIG_BASE" using Suc.prems(1) p(1) by (rule digits_ok_nth)
  moreover have "DIG_BASE * Suc (dval (take ?L (drop (Suc p) num))) \<le> DIG_BASE * ?D"
    using Suc.prems(5) by (intro mult_le_mono2) simp
  ultimately have RD: "R < ?D * DIG_BASE" by (simp add: mult.commute)
  obtain num1 where st: "mpn_div_step den sh lead p num = Some (num1, R div ?D)"
    "length num1 = length num" "digits_ok num1" "take p num1 = take p num"
    "dval (take ?L (drop p num1)) = R mod ?D"
    using mpn_div_step_correct [OF den nd lead Suc.prems(1) p(2) R_def RD] by blast
  have D0: "0 < ?D" using Suc.prems(5) by simp
  have q: "R div ?D < DIG_BASE" using RD by (intro less_mult_imp_div_less) (simp add: mult.commute)
  let ?qs = "qs[p := R div ?D]"
  have okq: "digits_ok ?qs" using Suc.prems(4) q by (auto simp: digits_ok_def dest!: set_update_subset_insert [THEN subsetD])
  have le: "p + ?L \<le> length num1" "p \<le> length ?qs" "dval (take ?L (drop p num1)) < ?D"
    using st p Suc.prems D0 by auto
  from Suc.IH [OF st(3) le(1,2) okq le(3)] obtain num' qs' where IH:
    "mpn_div_loop den sh lead p num1 ?qs = Some (num', qs')"
    "dval (take p qs') = dval (take (p + ?L) num1) div ?D" "drop p qs' = drop p ?qs"
    "digits_ok qs'" "length qs' = length qs" "digits_ok num'" "length num' = length num"
    "dval (take ?L num') = dval (take (p + ?L) num1) mod ?D" using st(2) by auto
  have split: "dval (take (p + k) xs) = dval (take p xs) + DIG_BASE ^ p * dval (take k (drop p xs))"
    if "p \<le> length xs" for k xs
    using that by (simp add: take_add dval_append)
  let ?V = "dval (take (p + ?L) num1)"
  have V: "dval (take (Suc p + ?L) num) = ?V + DIG_BASE ^ p * (R div ?D) * ?D"
  proof -
    have "dval (take (p + Suc ?L) num) = dval (take p num) + DIG_BASE ^ p * R"
      using split [of num "Suc ?L"] p by (simp add: R_def)
    moreover have "DIG_BASE ^ p * R = DIG_BASE ^ p * (R mod ?D) + DIG_BASE ^ p * (R div ?D) * ?D"
      by (metis distrib_left mult.assoc mod_div_mult_eq)
    ultimately show ?thesis using split [of num1 ?L] st p by simp
  qed
  have pq: "p < length qs'" using Suc.prems(3) IH(5) by simp
  have nth: "qs' ! p = R div ?D"
    using IH(3) pq Suc.prems(3) by (metis IH(5) hd_drop_conv_nth length_list_update nth_list_update_eq)
  have "dval (take (Suc p) qs') = ?V div ?D + DIG_BASE ^ p * (R div ?D)"
    using IH(2) nth pq by (simp add: take_Suc_conv_app_nth dval_append)
  also have "\<dots> = dval (take (Suc p + ?L) num) div ?D" unfolding V using D0 by simp
  finally have A: "dval (take (Suc p) qs') = dval (take (Suc p + ?L) num) div ?D" .
  have B: "drop (Suc p) qs' = drop (Suc p) qs"
    using IH(3) by (metis drop_Suc drop_tl drop_update_cancel lessI tl_drop)
  have C: "dval (take ?L num') = dval (take (Suc p + ?L) num) mod ?D" unfolding V using IH(8) by simp
  show ?case using st(1) IH A B C by simp
qed

section \<open>Normalisation\<close>

lemma shift_out:
  assumes "n < DIG_BASE" "sh < DIG_SIZE" "c < 2 ^ sh"
  shows "drop_bit (DIG_SIZE - sh) n = (n * 2 ^ sh + c) div DIG_BASE" "drop_bit (DIG_SIZE - sh) n < 2 ^ sh"
proof -
  have B: "DIG_BASE = 2 ^ sh * 2 ^ (DIG_SIZE - sh)" using assms(2) by (intro DIG_BASE_split) simp
  have "(n * 2 ^ sh + c) div DIG_BASE = (n * 2 ^ sh + c) div 2 ^ sh div 2 ^ (DIG_SIZE - sh)"
    unfolding B by (rule div_mult2_eq)
  then show eq: "drop_bit (DIG_SIZE - sh) n = (n * 2 ^ sh + c) div DIG_BASE"
    using assms(3) by (simp add: drop_bit_eq_div)
  show "drop_bit (DIG_SIZE - sh) n < 2 ^ sh" unfolding eq using assms by (intro shift_bounds)
qed

lemma shift_out_dig:
  "n < DIG_BASE \<Longrightarrow> sh < DIG_SIZE \<Longrightarrow> dig (drop_bit (DIG_SIZE - sh) n) = drop_bit (DIG_SIZE - sh) n"
  by (simp add: dig_arith drop_bit_eq_div le_less_trans [OF div_le_dividend])

lemma mpn_div_shift_num_eq:
  "digits_ok ns \<Longrightarrow> sh < DIG_SIZE \<Longrightarrow> c < 2 ^ sh \<Longrightarrow> mpn_div_shift_num sh c ns = norm_digits sh c ns"
proof (induction sh c ns rule: mpn_div_shift_num.induct)
  case (2 sh c n ns)
  then have "push_bit sh n OR c = n * 2 ^ sh + c" by (intro or_shift) auto
  moreover have "dig (drop_bit (DIG_SIZE - sh) n) = (n * 2 ^ sh + c) div DIG_BASE"
    using shift_out(1) [of n sh c] shift_out_dig [of n sh] 2 by simp
  moreover have "(n * 2 ^ sh + c) div DIG_BASE < 2 ^ sh" using 2 by (intro shift_bounds) auto
  ultimately show ?case using 2 by (simp add: dig_arith)
qed simp

lemma norm_digits_append:
  "norm_digits sh c (ds @ es) = norm_digits sh c ds @ norm_digits sh (norm_carry sh c ds) es"
  "norm_carry sh c (ds @ es) = norm_carry sh (norm_carry sh c ds) es"
  by (induction sh c ds rule: norm_digits.induct) auto

lemma norm_carry_less:
  "digits_ok ds \<Longrightarrow> sh < DIG_SIZE \<Longrightarrow> c < 2 ^ sh \<Longrightarrow> norm_carry sh c ds < 2 ^ sh"
  by (induction sh c ds rule: norm_carry.induct) (auto intro: shift_bounds)

lemma DIG_MSB_eq: "DIG_MSB = 32768" "2 * DIG_MSB = DIG_BASE"
  by (simp_all add: DIG_MSB_def DIG_BASE_def DIG_SIZE_def)

lemma and_DIG_MSB: "d < DIG_BASE \<Longrightarrow> d AND DIG_MSB = 0 \<longleftrightarrow> d < DIG_MSB"
proof -
  assume d: "d < DIG_BASE"
  have "d AND DIG_MSB = 0 \<longleftrightarrow> \<not> bit d 15"
    using and_exp_eq_0_iff_not_bit [of d 15] by (simp add: DIG_MSB_def DIG_SIZE_def)
  also have "\<dots> \<longleftrightarrow> d < DIG_MSB"
  proof (cases "d < 32768")
    case True
    then show ?thesis by (simp add: bit_iff_odd DIG_MSB_eq)
  next
    case False
    then have "d div 32768 = 1" using d by (intro div_nat_eqI) (auto simp: DIG_BASE_eq)
    then show ?thesis using False by (simp add: bit_iff_odd DIG_MSB_eq)
  qed
  finally show ?thesis .
qed

text \<open>The shift puts a one in the top bit of the leading digit.\<close>

lemma mpn_div_norm_shift_correct:
  "0 < d \<Longrightarrow> d < DIG_BASE \<Longrightarrow> DIG_BASE \<le> d * 2 ^ k \<Longrightarrow> s + k \<le> DIG_SIZE \<Longrightarrow>
   \<exists>e. mpn_div_norm_shift d s = Some (s + e) \<and> DIG_MSB \<le> d * 2 ^ e \<and> d * 2 ^ e < DIG_BASE \<and> e < k"
proof (induction k arbitrary: d s)
  case (Suc k)
  show ?case
  proof (cases "d < DIG_MSB")
    case True
    have s: "dig (s + 1) = s + 1" "dig (push_bit 1 d) = 2 * d"
      using Suc.prems True by (simp_all add: dig_def DIG_SIZE_def DIG_MSB_eq push_bit_eq_mult)
    have "\<exists>e. mpn_div_norm_shift (2 * d) (s + 1) = Some (s + 1 + e) \<and> DIG_MSB \<le> 2 * d * 2 ^ e \<and>
        2 * d * 2 ^ e < DIG_BASE \<and> e < k"
      using Suc.prems True DIG_MSB_eq by (intro Suc.IH) auto
    then obtain e where "mpn_div_norm_shift (2 * d) (s + 1) = Some (s + Suc e)"
      "DIG_MSB \<le> d * 2 ^ Suc e" "d * 2 ^ Suc e < DIG_BASE" "Suc e < Suc k" by (auto simp: mult_ac)
    then show ?thesis using and_DIG_MSB [OF Suc.prems(2)] True s
      by (subst mpn_div_norm_shift.simps) (auto intro!: exI [of _ "Suc e"])
  next
    case False
    then show ?thesis using and_DIG_MSB [OF Suc.prems(2)] Suc.prems(2)
      by (subst mpn_div_norm_shift.simps) (auto intro!: exI [of _ 0])
  qed
qed simp

lemma mpn_div_lead_eq:
  assumes den: "digits_ok den" "den \<noteq> []" and sh: "sh < DIG_SIZE" and top: "last den * 2 ^ sh < DIG_BASE"
  shows "mpn_div_lead den sh = last (norm_digits sh 0 den)"
    "norm_carry sh 0 den = 0"
    "last den * 2 ^ sh \<le> last (norm_digits sh 0 den)"
proof -
  obtain ds l where dl: "den = ds @ [l]" using den(2) by (cases den rule: rev_cases) auto
  have c: "norm_carry sh 0 ds < 2 ^ sh" using den(1) dl sh by (intro norm_carry_less) auto
  have fit: "l * 2 ^ sh + norm_carry sh 0 ds < DIG_BASE"
  proof -
    have B: "DIG_BASE = 2 ^ (DIG_SIZE - sh) * 2 ^ sh"
      using DIG_BASE_split [of sh] sh by (simp add: mult.commute)
    have "l * 2 ^ sh < 2 ^ (DIG_SIZE - sh) * 2 ^ sh" using top unfolding B by (simp add: dl)
    then have "l < 2 ^ (DIG_SIZE - sh)" by simp
    then have "Suc l * 2 ^ sh \<le> DIG_BASE" unfolding B by (intro mult_le_mono1) simp
    then show ?thesis using c by simp
  qed
  then show "norm_carry sh 0 den = 0" by (simp add: dl norm_digits_append)
  have nl: "last (norm_digits sh 0 den) = l * 2 ^ sh + norm_carry sh 0 ds"
    using fit by (simp add: dl norm_digits_append)
  then show "last den * 2 ^ sh \<le> last (norm_digits sh 0 den)" by (simp add: dl)
  have "l * 2 ^ sh < DIG_BASE * DIG_BASE" using fit by (simp add: DIG_BASE_eq)
  then have p: "dbl (push_bit sh l) = push_bit sh l" by (simp add: push_bit_eq_mult dbl_id)
  show "mpn_div_lead den sh = last (norm_digits sh 0 den)"
  proof (cases ds rule: rev_cases)
    case Nil
    then show ?thesis using nl p dl by (simp add: mpn_div_lead_def push_bit_eq_mult)
  next
    case (snoc es e)
    have "norm_carry sh 0 es < 2 ^ sh" "e < DIG_BASE"
      using den(1) dl snoc sh by (auto intro: norm_carry_less)
    then have "drop_bit (DIG_SIZE - sh) e = norm_carry sh 0 ds"
      using sh snoc by (simp add: norm_digits_append shift_out(1))
    then show ?thesis using nl p dl snoc or_shift [OF c, of l]
      by (simp add: mpn_div_lead_def nth_append)
  qed
qed

text \<open>Shifting the remainder back is a right shift.\<close>

lemma unshift_digit:
  assumes "j < DIG_BASE" "k < DIG_BASE" "sh < DIG_SIZE"
  shows "(drop_bit sh j OR dig (push_bit (DIG_SIZE - sh) k)) AND DIG_MASK =
         drop_bit sh (j OR dbl (push_bit DIG_SIZE k)) AND DIG_MASK"
proof -
  have m: "DIG_MASK = mask DIG_SIZE" by (simp add: DIG_MASK_def mask_nat_def)
  have d: "dbl (push_bit DIG_SIZE k) = push_bit DIG_SIZE k" using assms(2) by (simp add: dig_arith)
  have "dig x = take_bit DIG_SIZE x" for x by (simp add: dig_def take_bit_eq_mod)
  then show ?thesis unfolding d using assms(3)
    by (intro bit_eqI) (auto simp: m bit_simps algebra_simps)
qed

lemma length_mpn_shr_loop [simp]: "length (mpn_shr_loop sh js) = length js"
  by (induction sh js rule: mpn_shr_loop.induct) auto

lemma mpn_shr_loop_Nil_iff [simp]: "mpn_shr_loop sh js = [] \<longleftrightarrow> js = []"
  by (metis length_0_conv length_mpn_shr_loop)

lemma mpn_shr_loop_snoc2:
  "mpn_shr_loop sh (ns @ [n, k]) =
     butlast (mpn_shr_loop sh (ns @ [n])) @
       [drop_bit sh (n OR dbl (push_bit DIG_SIZE k)) AND DIG_MASK, drop_bit sh k AND DIG_MASK]"
proof (induction ns)
  case (Cons a ns)
  then show ?case by (cases ns) auto
qed simp

lemma mpn_div_unshift_eq:
  "digits_ok (ns @ [k]) \<Longrightarrow> sh < DIG_SIZE \<Longrightarrow>
   mpn_div_unshift sh (dig (push_bit (DIG_SIZE - sh) k)) (rev ns) out =
   butlast (mpn_shr_loop sh (ns @ [k])) @ out"
proof (induction ns arbitrary: k out rule: rev_induct)
  case (snoc n ns)
  have "mpn_div_unshift sh (dig (push_bit (DIG_SIZE - sh) n)) (rev ns) out' =
     butlast (mpn_shr_loop sh (ns @ [n])) @ out'" for out'
    using snoc by simp
  moreover have "mpn_shr_loop sh (ns @ [n, k]) =
     butlast (mpn_shr_loop sh (ns @ [n])) @
       [drop_bit sh (n OR dbl (push_bit DIG_SIZE k)) AND DIG_MASK, drop_bit sh k AND DIG_MASK]"
    by (rule mpn_shr_loop_snoc2)
  ultimately show ?case using snoc.prems unshift_digit [of n k sh] by (simp add: butlast_append)
qed simp

lemma mpn_shr_loop_zero_top:
  assumes "digits_ok ns" "sh < DIG_SIZE"
  shows "dval (butlast (mpn_shr_loop sh (ns @ [0]))) = dval ns div 2 ^ sh"
    "digits_ok (butlast (mpn_shr_loop sh (ns @ [0])))"
proof -
  let ?l = "mpn_shr_loop sh (ns @ [0])"
  have ok: "dval ?l = dval ns div 2 ^ sh" "digits_ok ?l"
    using mpn_shr_loop_correct [OF assms(2), of "ns @ [0]"] assms(1) by (auto simp: dval_append)
  have "last ?l = 0"
  proof (cases ns rule: rev_cases)
    case (snoc ms m)
    then show ?thesis using mpn_shr_loop_snoc2 [of sh ms m 0] by simp
  qed simp
  then have "?l = butlast ?l @ [0]" by (metis append_butlast_last_id mpn_shr_loop_Nil_iff snoc_eq_iff_butlast)
  then have "dval ?l = dval (butlast ?l @ [0])" by simp
  then show "dval (butlast ?l) = dval ns div 2 ^ sh" using ok(1) by (simp add: dval_append)
  show "digits_ok (butlast ?l)" using ok(2) by (rule digits_ok_butlast)
qed

section \<open>Division\<close>

text \<open>
  The denominators whose digits, once normalised, have no \<open>DIG_MASK\<close> strictly between the
  first and the last; among them all with one or two digits.
\<close>

definition div_safe :: "nat list \<Rightarrow> bool" where
  "div_safe den \<longleftrightarrow>
     (case mpn_div_norm_shift (last den) 0 of None \<Rightarrow> False
      | Some sh \<Rightarrow> no_full_middle (norm_digits sh 0 den))"

lemma norm_shift_exists:
  assumes "digits_ok den" "normalised den" "den \<noteq> []"
  obtains sh where "mpn_div_norm_shift (last den) 0 = Some sh" "sh < DIG_SIZE"
    "DIG_MSB \<le> last den * 2 ^ sh" "last den * 2 ^ sh < DIG_BASE"
proof -
  have l: "0 < last den" "last den < DIG_BASE"
    using assms by (auto simp: normalised_def digits_ok_def)
  then have "DIG_BASE \<le> last den * 2 ^ DIG_SIZE" by (simp add: DIG_BASE_def)
  from mpn_div_norm_shift_correct [OF l this, of 0] that show thesis by auto
qed

lemma div_safe_short:
  assumes "digits_ok den" "normalised den" "den \<noteq> []" "length den \<le> 2"
  shows "div_safe den"
proof -
  from norm_shift_exists [OF assms(1-3)] obtain sh where sh: "mpn_div_norm_shift (last den) 0 = Some sh" .
  have "butlast (tl ds) = []" if "length ds \<le> 2" for ds :: "nat list"
    using that by (cases ds; cases "tl ds") auto
  then show ?thesis using assms(4) sh by (simp add: div_safe_def no_full_middle_def)
qed

lemma num_window_less:
  assumes num: "digits_ok num" and len: "length den \<le> length num" "den \<noteq> []" and sh: "sh < DIG_SIZE"
    and nd: "length nd = length den" "DIG_MSB \<le> last nd" "digits_ok nd"
  shows "dval (take (length den) (drop (Suc (length num) - length den) (norm_digits sh 0 (num @ [0])))) < dval nd"
proof -
  let ?L = "length den" and ?n1 = "norm_digits sh 0 (num @ [0])"
  define m where "m = Suc (length num) - ?L"
  obtain ds l where ndl: "nd = ds @ [l]" using nd(1) len(2) by (cases nd rule: rev_cases) auto
  have L: "?L = Suc (length ds)" using ndl nd(1) by simp
  have c0: "norm_carry sh 0 (num @ [0]) = 0"
    using norm_carry_less [OF num sh, of 0] sh by (simp add: norm_digits_append DIG_BASE_def power_strict_increasing_iff less_trans)
  have v: "dval ?n1 = dval num * 2 ^ sh"
    using dval_norm_digits [of sh 0 "num @ [0]"] c0 by (simp add: dval_append)
  have "take ?L (drop m ?n1) = drop m ?n1" using len by (simp add: m_def)
  then have "dval (take ?L (drop m ?n1)) = dval num * 2 ^ sh div DIG_BASE ^ m"
    by (simp add: dval_drop v)
  also have "\<dots> < DIG_BASE ^ length ds * DIG_MSB"
  proof (rule less_mult_imp_div_less)
    have "dval num * 2 ^ sh < DIG_BASE ^ length num * 2 ^ sh" using dval_less [OF num] by simp
    also have "\<dots> \<le> DIG_BASE ^ length num * DIG_MSB"
      using sh by (intro mult_le_mono2) (simp add: DIG_MSB_def)
    also have "DIG_BASE ^ length num = DIG_BASE ^ length ds * DIG_BASE ^ m"
      using len L by (simp add: m_def power_add [symmetric])
    finally show "dval num * 2 ^ sh < DIG_BASE ^ length ds * DIG_MSB * DIG_BASE ^ m" by (simp add: mult_ac)
  qed
  also have "\<dots> \<le> DIG_BASE ^ length ds * l" using nd(2) ndl by (intro mult_le_mono2) simp
  also have "\<dots> \<le> dval nd" by (simp add: ndl dval_append)
  finally show ?thesis by (simp add: m_def)
qed

lemma mpn_div_correct:
  assumes num: "digits_ok num" "normalised num" and den: "digits_ok den" "normalised den" "den \<noteq> []"
    and safe: "div_safe den"
  shows "\<exists>r q. mpn_div num den = Some (r, q) \<and> dval r = dval num mod dval den \<and>
    dval q = dval num div dval den \<and> digits_ok r \<and> digits_ok q \<and> normalised r \<and> normalised q"
proof -
  have D0: "0 < dval den" using dval_0_normalised [OF den(2)] den(3) by simp
  consider "dval num = dval den" | "dval num < dval den" | "dval den < dval num" by linarith
  then show ?thesis
  proof cases
    case 1
    then have "mpn_div num den = Some ([], [1])"
      using mpn_cmp_sgn [OF num den(1,2)] by (simp add: mpn_div_def)
    then show ?thesis using 1 D0 DIG_BASE_gt1 by (simp add: normalised_def)
  next
    case 2
    then have "mpn_div num den = Some (num, [])"
      using mpn_cmp_sgn [OF num den(1,2)] by (simp add: mpn_div_def)
    then show ?thesis using 2 num by simp
  next
    case 3
    then have cmp: "mpn_cmp num den = 1" using mpn_cmp_sgn [OF num den(1,2)] by simp
    have len: "length den \<le> length num" using length_le_of_dval [OF num(1) den(2)] 3 by simp
    from norm_shift_exists [OF den] obtain sh where sh: "mpn_div_norm_shift (last den) 0 = Some sh"
      "sh < DIG_SIZE" "DIG_MSB \<le> last den * 2 ^ sh" "last den * 2 ^ sh < DIG_BASE" .
    let ?L = "length den" and ?nd = "norm_digits sh 0 den" and ?n1 = "norm_digits sh 0 (num @ [0])"
    let ?m = "Suc (length num) - ?L"
    note lead = mpn_div_lead_eq [OF den(1,3) sh(2,4)]
    have ndv: "dval ?nd = dval den * 2 ^ sh" using dval_norm_digits [of sh 0 den] lead(2) by simp
    have msb: "DIG_MSB \<le> last ?nd" "DIG_BASE \<le> 2 * last ?nd" using lead(3) sh(3) DIG_MSB_eq(2) by auto
    have c0: "norm_carry sh 0 (num @ [0]) = 0"
      using norm_carry_less [OF num(1) sh(2), of 0] sh(2)
      by (simp add: norm_digits_append DIG_BASE_def power_strict_increasing_iff less_trans)
    have n1v: "dval ?n1 = dval num * 2 ^ sh"
      using dval_norm_digits [of sh 0 "num @ [0]"] c0 by (simp add: dval_append)
    have n1: "mpn_div_shift_num sh 0 (num @ [0]) = ?n1"
      using num(1) sh(2) by (intro mpn_div_shift_num_eq) auto
    have full: "no_full_middle ?nd" using safe sh(1) by (simp add: div_safe_def)
    have win: "dval (take ?L (drop ?m ?n1)) < dval ?nd"
      using num_window_less [OF num(1) len den(3) sh(2), of ?nd] msb(1) by simp
    have mL: "?m + ?L \<le> length ?n1" "take (?m + ?L) ?n1 = ?n1" using len by auto
    obtain num' qs' where loop: "mpn_div_loop den sh (last ?nd) ?m ?n1 (replicate ?m 0) = Some (num', qs')"
      "dval (take ?m qs') = dval ?n1 div dval ?nd" "digits_ok qs'" "length qs' = ?m" "digits_ok num'"
      "dval (take ?L num') = dval ?n1 mod dval ?nd" "length num' = length ?n1"
      using mpn_div_loop_correct [OF den(1,3) sh(2) refl msb(2) full refl _ mL(1), of "replicate ?m 0"] win mL(2)
      by auto
    let ?r = "mpn_div_unshift sh 0 (rev (take ?L num')) []"
    have z: "0 = dig (push_bit (DIG_SIZE - sh) 0)" by (simp add: dig_def)
    have r: "?r = butlast (mpn_shr_loop sh (take ?L num' @ [0]))"
      using mpn_div_unshift_eq [of "take ?L num'" 0 sh "[]"] loop(5) sh(2) z by (simp add: digits_ok_take)
    have "dval ?r = dval (take ?L num') div 2 ^ sh" "digits_ok ?r"
      unfolding r using mpn_shr_loop_zero_top [of "take ?L num'" sh] loop(5) sh(2)
      by (simp_all add: digits_ok_take)
    then have rv: "dval ?r = dval num mod dval den" "digits_ok ?r"
      using loop(6) by (simp_all add: n1v ndv mod_mult_mult2)
    have qv: "dval qs' = dval num div dval den"
      using loop(2,4) by (simp add: n1v ndv)
    have "mpn_div num den = Some (take (mpn_remove_trailing_zeros ?r (length ?r)) ?r,
        take (mpn_remove_trailing_zeros qs' (length qs')) qs')"
      using cmp sh(1) den(3) loop(1) n1 lead(1) by (simp add: mpn_div_def last_conv_nth Let_def)
    then show ?thesis using strip_all [of ?r] strip_all [of qs'] rv qv loop(3) by auto
  qed
qed

lemma mpn_div_short_correct:
  assumes "digits_ok num" "normalised num" "digits_ok den" "normalised den" "den \<noteq> []" "length den \<le> 2"
  shows "\<exists>r q. mpn_div num den = Some (r, q) \<and> dval r = dval num mod dval den \<and>
    dval q = dval num div dval den \<and> digits_ok r \<and> digits_ok q \<and> normalised r \<and> normalised q"
  using assms div_safe_short by (intro mpn_div_correct) auto

section \<open>A denominator with a full middle digit\<close>

lemma dig_eval:
  "dbl x = x mod 4294967296" "udbl y = nat (y mod 4294967296)" "dig x = x mod 65536"
  "x AND DIG_MASK = x mod 65536" "drop_bit DIG_SIZE x = x div 65536" "push_bit DIG_SIZE x = x * 65536"
  "2 ^ DIG_SIZE = (65536::nat)"
  by (simp_all add: dbl_def udbl_def MPZ_DBL_DIG_SIZE_def dig_arith DIG_BASE_eq)
    (simp add: DIG_SIZE_def)

lemma mpn_div_fix_0: "mpn_div_fix sh den win 0 quo = Some (win, quo)"
  by (simp add: mpn_div_fix.simps)

lemma wrong_step1: "mpn_div_step [0xFFFF, 0xFFFF, 0x8000] 0 0x8000 (Suc 0) [0, 0, 0xFFFE, 0x8000, 0] =
   Some ([0, 0, 0xFFFE, 0x8000, 0], 0)"
proof -
  have "mpn_div_sub 0 1 0xFFFF 1 [0x8000] [0x8000] = ([0xFFFF], 1)"
    by (subst mpn_div_sub.simps(1)) (simp add: dig_eval del: mpn_div_sub.simps(1))
  then have "mpn_div_sub 0 1 0xFFFF 1 [0xFFFE, 0x8000] [0xFFFF, 0x8000] = ([0xFFFE, 0xFFFF], 1)"
    by (subst mpn_div_sub.simps(1)) (simp add: dig_eval del: mpn_div_sub.simps(1))
  then have "mpn_div_sub 0 1 0 0 [0, 0xFFFE, 0x8000] [0xFFFF, 0xFFFF, 0x8000] = ([1, 0xFFFE, 0xFFFF], 1)"
    by (subst mpn_div_sub.simps(1)) (simp add: dig_eval del: mpn_div_sub.simps(1))
  moreover have "mpn_div_fix 0 [0xFFFF, 0xFFFF, 0x8000] [1, 0xFFFE, 0xFFFF] 1 1 = Some ([0, 0xFFFE, 0x8000], 0)"
    by (subst mpn_div_fix.simps) (simp add: dig_eval mpn_div_fix_0)
  ultimately show ?thesis by (simp add: mpn_div_step_def dig_eval del: mpn_div_sub.simps(1))
qed

lemma wrong_step0: "mpn_div_step [0xFFFF, 0xFFFF, 0x8000] 0 0x8000 0 [0, 0, 0xFFFE, 0x8000, 0] =
   Some ([1, 1, 0x7FFD, 0x8000, 0], 1)"
proof -
  have "mpn_div_sub 0 65537 0xFFFF 1 [0xFFFE] [0x8000] = ([0x7FFD], 0x8000)"
    by (subst mpn_div_sub.simps(1)) (simp add: dig_eval del: mpn_div_sub.simps(1))
  then have "mpn_div_sub 0 65537 0xFFFF 0x10000 [0, 0xFFFE] [0xFFFF, 0x8000] = ([1, 0x7FFD], 0x8000)"
    by (subst mpn_div_sub.simps(1)) (simp add: dig_eval del: mpn_div_sub.simps(1))
  then have "mpn_div_sub 0 65537 0 0 [0, 0, 0xFFFE] [0xFFFF, 0xFFFF, 0x8000] = ([1, 1, 0x7FFD], 0x8000)"
    by (subst mpn_div_sub.simps(1)) (simp add: dig_eval del: mpn_div_sub.simps(1))
  then show ?thesis by (simp add: mpn_div_step_def dig_eval mpn_div_fix_0 del: mpn_div_sub.simps(1))
qed

lemma mpn_div_wrong:
  "mpn_div [0, 0, 0xFFFE, 0x8000] [0xFFFF, 0xFFFF, 0x8000] = Some ([1, 1, 0x7FFD], [1])"
proof -
  have "mpn_div_norm_shift 0x8000 0 = Some 0"
    using and_DIG_MSB [of "0x8000"] by (simp add: mpn_div_norm_shift.simps DIG_BASE_eq DIG_MSB_eq)
  moreover have "mpn_div_loop [0xFFFF, 0xFFFF, 0x8000] 0 0x8000 2 [0, 0, 0xFFFE, 0x8000, 0] [0, 0] =
      Some ([1, 1, 0x7FFD, 0x8000, 0], [1, 0])"
    by (simp add: numeral_2_eq_2 wrong_step1 wrong_step0)
  moreover have "mpn_div_shift_num 0 0 [0, 0, 0xFFFE, 0x8000, 0] = [0, 0, 0xFFFE, 0x8000, 0]"
    "mpn_div_lead [0xFFFF, 0xFFFF, 0x8000] 0 = 0x8000"
    by (simp_all add: mpn_div_lead_def dig_eval)
  moreover have "replicate 2 (0::nat) = [0, 0]" by (simp add: numeral_2_eq_2)
  moreover have "mpn_div_unshift 0 0 [0x7FFD, 1, 1] [] = [1, 1, 0x7FFD]" by (simp add: dig_eval)
  ultimately show ?thesis by (simp add: mpn_div_def mpn_cmp_def dig_eval wrong_step0 wrong_step1)
qed

lemma mpn_div_wrong2:
  "dval [0, 0, 0xFFFE, 0x8000] div dval [0xFFFF, 0xFFFF, 0x8000] = 0xFFFF"
  by (simp add: DIG_BASE_eq)
end
