(* ===== verification/Mpz.thy ===== *)
theory Mpz
  imports Mpn_Div "HOL-Library.Word"
begin

unbundle bit_operations_syntax

text \<open>
  MicroPython's arbitrary precision integers, \<open>mpz_t\<close> of \<open>py/mpz.h\<close> and the \<open>mpz_*\<close> functions
  of \<open>py/mpz.c\<close>. The record keeps the sign, the flag of a fixed digit buffer, the allocated
  length and the \<open>len\<close> digits in use; \<open>dig == NULL\<close> is \<open>alloc = 0\<close>. A function that writes
  through a pointer returns the record of that pointer; a failed \<open>assert\<close> is \<open>None\<close>, and running
  out of memory is not modelled. Machine integers \<open>mp_int_t\<close> and \<open>mp_uint_t\<close> are 32-bit words.
  Where a function reads one argument after writing another, a flag says whether the two
  are the same object.
\<close>

section \<open>State and operations\<close>

record mpz =
  neg :: bool
  fixed_dig :: bool
  alloc :: nat
  dig :: "nat list"

abbreviation mlen :: "mpz \<Rightarrow> nat" where
  "mlen z \<equiv> length (dig z)"

definition MIN_ALLOC :: nat where
  "MIN_ALLOC = 2"

definition MPZ_NUM_DIG_FOR_INT :: nat where
  "MPZ_NUM_DIG_FOR_INT = (4 * 8 + DIG_SIZE - 1) div DIG_SIZE"

definition MPZ_NUM_DIG_FOR_LL :: nat where
  "MPZ_NUM_DIG_FOR_LL = (8 * 8 + DIG_SIZE - 1) div DIG_SIZE"

definition mpz_init_zero :: mpz where
  "mpz_init_zero = \<lparr>neg = False, fixed_dig = False, alloc = 0, dig = []\<rparr>"

definition mpz_need_dig :: "mpz \<Rightarrow> nat \<Rightarrow> mpz option" where
  "mpz_need_dig z need =
     (let need = (if need < MIN_ALLOC then MIN_ALLOC else need)
      in if alloc z < need then (if fixed_dig z then None else Some (z\<lparr>alloc := need\<rparr>))
         else Some z)"

definition mpz_clone :: "mpz \<Rightarrow> mpz option" where
  "mpz_clone src = (if alloc src \<noteq> 0 then Some (src\<lparr>fixed_dig := False\<rparr>) else None)"

definition mpz_set :: "mpz \<Rightarrow> mpz \<Rightarrow> mpz option" where
  "mpz_set dest src =
     map_option (\<lambda>d. d\<lparr>neg := neg src, dig := dig src\<rparr>) (mpz_need_dig dest (mlen src))"

text \<open>\<open>while (uval > 0) { z->dig[z->len++] = uval & DIG_MASK; uval >>= DIG_SIZE; }\<close>\<close>

function uval_digits :: "nat \<Rightarrow> nat list" where
  "uval_digits uval =
     (if uval > 0 then (uval AND DIG_MASK) # uval_digits (drop_bit DIG_SIZE uval) else [])"
  by pat_completeness auto
termination
  by (relation "measure (\<lambda>n. n)") (auto simp: drop_bit_eq_div DIG_SIZE_def)

declare uval_digits.simps [simp del]

definition mpz_set_from_int :: "mpz \<Rightarrow> 32 word \<Rightarrow> mpz option" where
  "mpz_set_from_int z val =
     (if val = 0 then Some (z\<lparr>dig := []\<rparr>)
      else map_option
        (\<lambda>z. let uval = (if val <s 0 then - val else val)
             in z\<lparr>neg := val <s 0, dig := uval_digits (unat uval)\<rparr>)
        (mpz_need_dig z MPZ_NUM_DIG_FOR_INT))"

definition mpz_init_from_int :: "32 word \<Rightarrow> mpz option" where
  "mpz_init_from_int val = mpz_set_from_int mpz_init_zero val"

definition mpz_init_fixed_from_int :: "nat \<Rightarrow> 32 word \<Rightarrow> mpz option" where
  "mpz_init_fixed_from_int al val =
     mpz_set_from_int \<lparr>neg = False, fixed_dig = True, alloc = al, dig = []\<rparr> val"

definition mpz_set_from_ll :: "mpz \<Rightarrow> 64 word \<Rightarrow> bool \<Rightarrow> mpz option" where
  "mpz_set_from_ll z val is_signed =
     map_option
        (\<lambda>z. let n = (is_signed \<and> val <s 0); uval = (if n then - val else val)
             in z\<lparr>neg := n, dig := uval_digits (unat uval)\<rparr>)
        (mpz_need_dig z MPZ_NUM_DIG_FOR_LL)"

definition mpz_is_zero :: "mpz \<Rightarrow> bool" where
  "mpz_is_zero z \<longleftrightarrow> mlen z = 0"

definition mpz_is_neg :: "mpz \<Rightarrow> bool" where
  "mpz_is_neg z \<longleftrightarrow> mlen z \<noteq> 0 \<and> neg z"

definition mpz_cmp :: "mpz \<Rightarrow> mpz \<Rightarrow> int" where
  "mpz_cmp z1 z2 =
     (if mlen z1 = 0 \<and> mlen z2 = 0 then 0
      else let cmp = of_bool (neg z2) - of_bool (neg z1)
           in if cmp \<noteq> 0 then cmp
              else let cmp = mpn_cmp (dig z1) (dig z2)
                   in if neg z1 then - cmp else cmp)"

text \<open>\<open>same\<close>: \<open>dest == z\<close>.\<close>

definition mpz_abs_inpl :: "bool \<Rightarrow> mpz \<Rightarrow> mpz \<Rightarrow> mpz option" where
  "mpz_abs_inpl same dest z =
     map_option (\<lambda>d. d\<lparr>neg := False\<rparr>) (if same then Some z else mpz_set dest z)"

definition mpz_neg_inpl :: "bool \<Rightarrow> mpz \<Rightarrow> mpz \<Rightarrow> mpz option" where
  "mpz_neg_inpl same dest z =
     map_option (\<lambda>d. d\<lparr>neg := \<not> neg d\<rparr>) (if same then Some z else mpz_set dest z)"

definition mpz_not_inpl :: "bool \<Rightarrow> mpz \<Rightarrow> mpz \<Rightarrow> mpz option" where
  "mpz_not_inpl same dest z =
     Option.bind (if same then Some z else mpz_set dest z) (\<lambda>d.
       if mlen d = 0 then
         map_option (\<lambda>d. d\<lparr>dig := [1], neg := True\<rparr>) (mpz_need_dig d 1)
       else if neg d then
         Some (d\<lparr>neg := False, dig := mpn_sub (dig d) [1]\<rparr>)
       else
         map_option (\<lambda>d. d\<lparr>dig := mpn_add (dig d) [1], neg := True\<rparr>)
           (mpz_need_dig d (mlen d + 1)))"

definition mpz_shl_inpl :: "mpz \<Rightarrow> mpz \<Rightarrow> nat \<Rightarrow> mpz option" where
  "mpz_shl_inpl dest lhs rhs =
     (if mlen lhs = 0 \<or> rhs = 0 then mpz_set dest lhs
      else map_option (\<lambda>d. d\<lparr>dig := mpn_shl (dig lhs) rhs, neg := neg lhs\<rparr>)
        (mpz_need_dig dest (mlen lhs + (rhs + DIG_SIZE - 1) div DIG_SIZE)))"

text \<open>
  \<open>mpz_shr_inpl\<close>: the rounding of a negative number looks at the digits of \<open>lhs\<close> after
  \<open>dest\<close> has been written; \<open>same\<close> says that they are one object.
\<close>

definition shr_round_up :: "nat list \<Rightarrow> nat \<Rightarrow> bool" where
  "shr_round_up ld rhs =
     (let n_whole = rhs div DIG_SIZE; n_part = rhs mod DIG_SIZE
      in (\<exists>i < min (length ld) n_whole. ld ! i \<noteq> 0) \<or>
         (n_whole < length ld \<and> ld ! n_whole AND (push_bit n_part 1 - 1) \<noteq> 0))"

definition mpz_shr_inpl :: "bool \<Rightarrow> mpz \<Rightarrow> mpz \<Rightarrow> nat \<Rightarrow> mpz option" where
  "mpz_shr_inpl same dest lhs rhs =
     (if mlen lhs = 0 \<or> rhs = 0 then mpz_set dest lhs
      else map_option (\<lambda>d.
        let ds = mpn_shr (dig lhs) rhs;
            d = d\<lparr>dig := ds, neg := neg lhs\<rparr>
        in if neg d \<and> shr_round_up (if same then ds else dig lhs) rhs
           then (if length ds = 0 then d\<lparr>dig := [1]\<rparr> else d\<lparr>dig := mpn_add ds [1]\<rparr>)
           else d)
        (mpz_need_dig dest (mlen lhs)))"

text \<open>
  Addition and subtraction read each digit before they write at its place, so that the destination may
  be an operand: \<open>Mpn_Memory\<close> has their loops over one memory, and shows that in place they
  give the digits of \<open>mpn_add\<close> and \<open>mpn_sub\<close>.
\<close>

definition mpz_add_inpl :: "mpz \<Rightarrow> mpz \<Rightarrow> mpz \<Rightarrow> mpz option" where
  "mpz_add_inpl dest lhs0 rhs0 =
     (let (lhs, rhs) = (if mpn_cmp (dig lhs0) (dig rhs0) < 0 then (rhs0, lhs0) else (lhs0, rhs0))
      in map_option (\<lambda>d. d\<lparr>neg := neg lhs\<rparr>)
        (if neg lhs = neg rhs
         then map_option (\<lambda>d. d\<lparr>dig := mpn_add (dig lhs) (dig rhs)\<rparr>) (mpz_need_dig dest (mlen lhs + 1))
         else map_option (\<lambda>d. d\<lparr>dig := mpn_sub (dig lhs) (dig rhs)\<rparr>) (mpz_need_dig dest (mlen lhs))))"

definition mpz_sub_inpl :: "mpz \<Rightarrow> mpz \<Rightarrow> mpz \<Rightarrow> mpz option" where
  "mpz_sub_inpl dest lhs0 rhs0 =
     (let n = (mpn_cmp (dig lhs0) (dig rhs0) < 0);
          (lhs, rhs) = (if n then (rhs0, lhs0) else (lhs0, rhs0))
      in map_option (\<lambda>d. d\<lparr>neg := (if n then \<not> neg lhs else neg lhs)\<rparr>)
        (if neg lhs \<noteq> neg rhs
         then map_option (\<lambda>d. d\<lparr>dig := mpn_add (dig lhs) (dig rhs)\<rparr>) (mpz_need_dig dest (mlen lhs + 1))
         else map_option (\<lambda>d. d\<lparr>dig := mpn_sub (dig lhs) (dig rhs)\<rparr>) (mpz_need_dig dest (mlen lhs))))"

definition mpz_and_inpl :: "mpz \<Rightarrow> mpz \<Rightarrow> mpz \<Rightarrow> mpz option" where
  "mpz_and_inpl dest lhs0 rhs0 =
     (let (lhs, rhs) = (if mlen lhs0 < mlen rhs0 then (rhs0, lhs0) else (lhs0, rhs0))
      in if \<not> neg lhs \<and> \<not> neg rhs
         then map_option (\<lambda>d. d\<lparr>dig := mpn_and (dig lhs) (dig rhs), neg := False\<rparr>)
           (mpz_need_dig dest (mlen lhs))
         else map_option (\<lambda>d. d\<lparr>dig := mpn_and_neg (dig lhs) (dig rhs)
               (of_bool (neg lhs = neg rhs)) (of_bool (neg lhs)) (of_bool (neg rhs)),
             neg := neg lhs \<and> neg rhs\<rparr>)
           (mpz_need_dig dest (mlen lhs + 1)))"

definition mpz_or_inpl :: "mpz \<Rightarrow> mpz \<Rightarrow> mpz \<Rightarrow> mpz option" where
  "mpz_or_inpl dest lhs0 rhs0 =
     (let (lhs, rhs) = (if mlen lhs0 < mlen rhs0 then (rhs0, lhs0) else (lhs0, rhs0))
      in if \<not> neg lhs \<and> \<not> neg rhs
         then map_option (\<lambda>d. d\<lparr>dig := mpn_or (dig lhs) (dig rhs), neg := False\<rparr>)
           (mpz_need_dig dest (mlen lhs))
         else Option.bind (mpz_need_dig dest (mlen lhs + 1)) (\<lambda>d.
           map_option (\<lambda>ds. d\<lparr>dig := ds, neg := True\<rparr>)
             (mpn_or_neg (dig lhs) (dig rhs) (of_bool (neg lhs)) (of_bool (neg rhs)))))"

definition mpz_xor_inpl :: "mpz \<Rightarrow> mpz \<Rightarrow> mpz \<Rightarrow> mpz option" where
  "mpz_xor_inpl dest lhs0 rhs0 =
     (let (lhs, rhs) = (if mlen lhs0 < mlen rhs0 then (rhs0, lhs0) else (lhs0, rhs0))
      in if neg lhs = neg rhs
         then map_option (\<lambda>d. d\<lparr>dig := (if \<not> neg lhs then mpn_xor (dig lhs) (dig rhs)
                 else mpn_xor_neg (dig lhs) (dig rhs) 0 0 0), neg := False\<rparr>)
           (mpz_need_dig dest (mlen lhs))
         else map_option (\<lambda>d. d\<lparr>dig := mpn_xor_neg (dig lhs) (dig rhs) 1
                 (of_bool (\<not> neg lhs)) (of_bool (\<not> neg rhs)), neg := True\<rparr>)
           (mpz_need_dig dest (mlen lhs + 1)))"

text \<open>
  \<open>mpz_mul_inpl\<close> zeroes the destination first, so it copies an operand that is the destination. The two
  flags say which operands are; an operand that still is when the digits are multiplied has the
  digits of the destination, all zero, and then only zeros are written.
\<close>

definition mul_digits :: "nat list \<Rightarrow> bool \<times> mpz \<Rightarrow> nat list" where
  "mul_digits idig z = (if fst z then take (mlen (snd z)) idig else dig (snd z))"

definition mpz_mul_inpl :: "bool \<Rightarrow> bool \<Rightarrow> mpz \<Rightarrow> mpz \<Rightarrow> mpz \<Rightarrow> mpz option" where
  "mpz_mul_inpl dest_is_lhs dest_is_rhs dest lhs0 rhs0 =
     (if mlen lhs0 = 0 \<or> mlen rhs0 = 0 then mpz_set_from_int dest 0
      else Option.bind
        (if dest_is_lhs
         then map_option (\<lambda>t. ((False, t), if dest_is_rhs then (False, t) else (dest_is_rhs, rhs0))) (mpz_clone lhs0)
         else if dest_is_rhs then map_option (\<lambda>t. ((dest_is_lhs, lhs0), (False, t))) (mpz_clone rhs0)
         else Some ((dest_is_lhs, lhs0), (dest_is_rhs, rhs0)))
        (\<lambda>(lhs, rhs).
          map_option (\<lambda>d.
              let idig = replicate (alloc d) 0
              in d\<lparr>dig := mpn_mul idig (mul_digits idig lhs) (mul_digits idig rhs),
                   neg := neg (snd lhs) \<noteq> neg (snd rhs)\<rparr>)
            (mpz_need_dig dest (mlen (snd lhs) + mlen (snd rhs)))))"

definition mpz_divmod_inpl :: "mpz \<Rightarrow> mpz \<Rightarrow> mpz \<Rightarrow> mpz \<Rightarrow> (mpz \<times> mpz) option" where
  "mpz_divmod_inpl dest_quo dest_rem lhs rhs =
     (if mpz_is_zero rhs then None
      else Option.bind (mpz_need_dig dest_quo (mlen lhs + 1)) (\<lambda>dq.
        Option.bind (mpz_need_dig dest_rem (mlen lhs + 1)) (\<lambda>dr.
        Option.bind (mpz_set dr lhs) (\<lambda>dr.
        Option.bind (mpn_div (dig dr) (dig rhs)) (\<lambda>(r, q).
          let dq = dq\<lparr>dig := q\<rparr>; dr = dr\<lparr>dig := r\<rparr>
          in if neg lhs \<noteq> neg rhs then
               let dq = dq\<lparr>neg := True\<rparr>
               in if \<not> mpz_is_zero dr then
                    Option.bind (mpz_init_from_int (-1)) (\<lambda>mpzone.
                    Option.bind (mpz_add_inpl dq dq mpzone) (\<lambda>dq.
                    map_option (\<lambda>dr. (dq, dr)) (mpz_add_inpl dr dr rhs)))
                  else Some (dq, dr)
             else Some (dq, dr))))))"

section \<open>Values and well-formed numbers\<close>

definition mpz_val :: "mpz \<Rightarrow> int" where
  "mpz_val z = sval (neg z) (dig z)"

definition mpz_wf :: "mpz \<Rightarrow> bool" where
  "mpz_wf z \<longleftrightarrow> digits_ok (dig z) \<and> normalised (dig z) \<and> mlen z \<le> alloc z"

text \<open>No negative zero.\<close>

definition canonical :: "mpz \<Rightarrow> bool" where
  "canonical z \<longleftrightarrow> (dig z = [] \<longrightarrow> \<not> neg z)"

text \<open>An operation ends without a failed assertion, in a well-formed number with the value \<open>v\<close>.\<close>

definition yields :: "mpz option \<Rightarrow> int \<Rightarrow> bool" where
  "yields r v \<longleftrightarrow> (\<exists>d. r = Some d \<and> mpz_wf d \<and> \<not> fixed_dig d \<and> mpz_val d = v)"

lemma yieldsI: "r = Some d \<Longrightarrow> mpz_wf d \<Longrightarrow> \<not> fixed_dig d \<Longrightarrow> mpz_val d = v \<Longrightarrow> yields r v"
  by (auto simp: yields_def)

lemma yieldsE:
  assumes "yields r v"
  obtains d where "r = Some d" "mpz_wf d" "\<not> fixed_dig d" "mpz_val d = v"
  using assms by (auto simp: yields_def)

lemma mpz_wfD:
  "mpz_wf z \<Longrightarrow> digits_ok (dig z)" "mpz_wf z \<Longrightarrow> normalised (dig z)" "mpz_wf z \<Longrightarrow> mlen z \<le> alloc z"
  by (auto simp: mpz_wf_def)

lemma sval_abs: "\<bar>sval b ds\<bar> = int (dval ds)"
  by (simp add: sval_def)

lemma mpz_val_abs: "\<bar>mpz_val z\<bar> = int (dval (dig z))"
  by (simp add: mpz_val_def sval_abs)

lemma sval_Nil [simp]: "sval b [] = 0"
  by (simp add: sval_def)

lemma canonical_nz: "mpz_wf z \<Longrightarrow> canonical z \<Longrightarrow> neg z \<Longrightarrow> 0 < dval (dig z)"
  using dval_0_normalised [of "dig z"] by (auto simp: mpz_wf_def canonical_def)

lemma mpz_need_dig_ok:
  assumes "\<not> fixed_dig z"
  obtains al where "mpz_need_dig z n = Some (z\<lparr>alloc := al\<rparr>)" "n \<le> al" "2 \<le> al" "alloc z \<le> al"
proof -
  have "mpz_need_dig z n = Some (z\<lparr>alloc := max (alloc z) (max n 2)\<rparr>)"
    using assms by (cases z) (auto simp: mpz_need_dig_def MIN_ALLOC_def max_def)
  then show thesis by (rule that) auto
qed

lemma normalised_length:
  assumes "normalised ds" "dval ds < DIG_BASE ^ n"
  shows "length ds \<le> n"
proof (rule ccontr)
  assume "\<not> length ds \<le> n"
  then have ne: "ds \<noteq> []" "n \<le> length ds - 1" by auto
  then have "DIG_BASE ^ n \<le> DIG_BASE ^ (length ds - 1)"
    by (intro power_increasing) (auto simp: Suc_le_eq)
  also have "\<dots> \<le> dval ds" using assms(1) ne(1) by (rule dval_ge)
  finally show False using assms(2) by simp
qed

text \<open>Storing digits and a sign into a destination with room for them.\<close>

lemma yields_store_length:
  assumes "\<not> fixed_dig dest" "digits_ok ds" "normalised ds" "length ds \<le> n" "sval b ds = v"
  shows "yields (map_option (\<lambda>d. d\<lparr>dig := ds, neg := b\<rparr>) (mpz_need_dig dest n)) v"
proof -
  from mpz_need_dig_ok [OF assms(1), of n] obtain al where
    al: "mpz_need_dig dest n = Some (dest\<lparr>alloc := al\<rparr>)" "n \<le> al" .
  then show ?thesis
    using assms by (intro yieldsI [OF _ , of _ "dest\<lparr>alloc := al, dig := ds, neg := b\<rparr>"])
      (auto simp: mpz_wf_def mpz_val_def)
qed

lemma yields_store:
  assumes "\<not> fixed_dig dest" "digits_ok ds" "normalised ds" "dval ds < DIG_BASE ^ n" "sval b ds = v"
  shows "yields (map_option (\<lambda>d. d\<lparr>dig := ds, neg := b\<rparr>) (mpz_need_dig dest n)) v"
  using assms normalised_length by (intro yields_store_length) auto

section \<open>Setting\<close>

lemma mpz_set_correct:
  assumes "\<not> fixed_dig dest" "mpz_wf src"
  shows "yields (mpz_set dest src) (mpz_val src)"
proof -
  have "(\<lambda>d. d\<lparr>neg := neg src, dig := dig src\<rparr>) = (\<lambda>d::mpz. d\<lparr>dig := dig src, neg := neg src\<rparr>)"
    by auto
  then show ?thesis unfolding mpz_set_def
    using assms dval_less [of "dig src"] by (simp only:) (intro yields_store; simp add: mpz_wf_def mpz_val_def)
qed

lemma uval_digits_eqs:
  "uval_digits 0 = []" "0 < n \<Longrightarrow> uval_digits n = n mod DIG_BASE # uval_digits (n div DIG_BASE)"
  using uval_digits.simps [of 0] uval_digits.simps [of n] by (simp_all add: dig_arith)

lemma uval_digits_correct:
  "dval (uval_digits n) = n \<and> digits_ok (uval_digits n) \<and> normalised (uval_digits n)"
proof (induction n rule: uval_digits.induct)
  case (1 n)
  show ?case
  proof (cases "n = 0")
    case False
    let ?m = "n div DIG_BASE"
    have IH: "dval (uval_digits ?m) = ?m" "digits_ok (uval_digits ?m)" "normalised (uval_digits ?m)"
      using 1 False by (auto simp: dig_arith)
    have eq: "uval_digits n = n mod DIG_BASE # uval_digits ?m" using False by (simp add: uval_digits_eqs)
    have "normalised (uval_digits n)"
    proof (cases "?m = 0")
      case True
      then have "n mod DIG_BASE = n" by (metis mod_mult_div_eq mult_0_right add_0_right)
      with True False show ?thesis by (simp add: eq normalised_def uval_digits_eqs)
    next
      case m: False
      then have "uval_digits ?m \<noteq> []" using uval_digits_eqs(2) [of ?m] by (auto simp del: neq0_conv)
      then show ?thesis using IH by (simp add: eq normalised_def)
    qed
    then show ?thesis using IH by (simp add: eq)
  qed (simp add: uval_digits_eqs)
qed

lemma unat_abs: "int (unat (if val <s 0 then - val else val)) = \<bar>sint val\<bar>" for val :: "'a::len word"
proof (cases "val <s 0")
  case True
  then have neg: "sint val < 0" by (simp add: word_sless_alt)
  have "uint (- val) = uint (word_of_int (- sint val) :: 'a word)" by simp
  also have "\<dots> = take_bit LENGTH('a) (- sint val)" by (rule uint_word_of_int_eq)
  also have "\<dots> = - sint val"
  proof (rule take_bit_int_eq_self)
    have "- sint val \<le> 2 ^ (LENGTH('a) - 1)" using sint_ge [of val] by simp
    also have "(2::int) ^ (LENGTH('a) - 1) < 2 ^ LENGTH('a)" by (intro power_strict_increasing) auto
    finally show "- sint val < 2 ^ LENGTH('a)" .
  qed (use neg in simp)
  finally show ?thesis using True neg by simp
next
  case False
  then have ge: "0 \<le> sint val" by (simp add: word_sless_alt)
  have "sint val < 2 ^ LENGTH('a)"
    by (rule less_le_trans [OF sint_lt]) (simp add: power_increasing)
  then have "take_bit LENGTH('a) (sint val) = sint val" using ge by (intro take_bit_int_eq_self)
  then show ?thesis using False ge by (simp add: uint_sint)
qed

lemma mpz_set_from_int_correct:
  assumes "\<not> fixed_dig z"
  shows "yields (mpz_set_from_int z val) (sint val)"
proof (cases "val = 0")
  case True
  then show ?thesis using assms
    by (auto simp: mpz_set_from_int_def mpz_wf_def mpz_val_def intro!: yieldsI)
next
  case False
  let ?u = "if val <s 0 then - val else val"
  have u: "int (unat ?u) = \<bar>sint val\<bar>" by (rule unat_abs)
  have "unat ?u < DIG_BASE ^ MPZ_NUM_DIG_FOR_INT"
    using unsigned_less [of ?u, where 'a = nat] by (simp add: MPZ_NUM_DIG_FOR_INT_def DIG_SIZE_def DIG_BASE_eq)
  then have "yields (map_option (\<lambda>d. d\<lparr>dig := uval_digits (unat ?u), neg := val <s 0\<rparr>)
      (mpz_need_dig z MPZ_NUM_DIG_FOR_INT)) (sint val)"
    using assms uval_digits_correct [of "unat ?u"] u
    by (intro yields_store) (auto simp: sval_def word_sless_alt)
  moreover have "(\<lambda>z::mpz. z\<lparr>neg := val <s 0, dig := uval_digits (unat ?u)\<rparr>) =
      (\<lambda>d. d\<lparr>dig := uval_digits (unat ?u), neg := val <s 0\<rparr>)" by auto
  ultimately show ?thesis using False by (simp add: mpz_set_from_int_def Let_def)
qed

section \<open>Comparison, sign and complement\<close>

lemma mpz_cmp_correct:
  assumes "mpz_wf z1" "mpz_wf z2"
  shows "sgn (mpz_cmp z1 z2) = sgn (mpz_val z1 - mpz_val z2)"
proof -
  have d: "dval (dig z) = 0 \<longleftrightarrow> dig z = []" if "mpz_wf z" for z
    using that by (simp add: mpz_wf_def dval_0_normalised)
  have c: "mpn_cmp (dig z1) (dig z2) = sgn (int (dval (dig z1)) - int (dval (dig z2)))"
    using assms by (intro mpn_cmp_sgn) (auto dest: mpz_wfD)
  consider "dig z1 = []" "dig z2 = []" | "\<not> (dig z1 = [] \<and> dig z2 = [])" "neg z1 = neg z2"
    | "\<not> (dig z1 = [] \<and> dig z2 = [])" "neg z1 \<noteq> neg z2" by blast
  then show ?thesis
  proof cases
    case 1
    then show ?thesis by (simp add: mpz_cmp_def mpz_val_def)
  next
    case 2
    then show ?thesis by (cases "neg z1") (auto simp: mpz_cmp_def mpz_val_def sval_def c sgn_if)
  next
    case 3
    then have "0 < dval (dig z1) \<or> 0 < dval (dig z2)" using d [OF assms(1)] d [OF assms(2)] by auto
    then show ?thesis using 3 by (cases "neg z1") (auto simp: mpz_cmp_def mpz_val_def sval_def sgn_if)
  qed
qed

lemma same_or_set:
  assumes "mpz_wf z" "\<not> fixed_dig (if same then z else dest)"
  obtains d where "(if same then Some z else mpz_set dest z) = Some d" "mpz_wf d" "\<not> fixed_dig d"
    "dig d = dig z" "neg d = neg z"
proof (cases same)
  case True
  with assms that show thesis by auto
next
  case False
  from mpz_need_dig_ok [of dest "mlen z"] assms False obtain al where
    al: "mpz_need_dig dest (mlen z) = Some (dest\<lparr>alloc := al\<rparr>)" "mlen z \<le> al" by auto
  have "mpz_set dest z = Some (dest\<lparr>alloc := al, neg := neg z, dig := dig z\<rparr>)"
    by (simp add: mpz_set_def al(1))
  with False al(2) assms that show thesis by (auto simp: mpz_wf_def)
qed

lemma mpz_abs_inpl_correct:
  assumes "mpz_wf z" "\<not> fixed_dig (if same then z else dest)"
  shows "yields (mpz_abs_inpl same dest z) \<bar>mpz_val z\<bar>"
proof -
  obtain d where d: "(if same then Some z else mpz_set dest z) = Some d" "mpz_wf d" "\<not> fixed_dig d"
    "dig d = dig z" "neg d = neg z" using same_or_set [OF assms] .
  then show ?thesis
    by (intro yieldsI [of _ "d\<lparr>neg := False\<rparr>"]) (auto simp: mpz_abs_inpl_def mpz_wf_def mpz_val_def sval_def)
qed

lemma mpz_neg_inpl_correct:
  assumes "mpz_wf z" "\<not> fixed_dig (if same then z else dest)"
  shows "yields (mpz_neg_inpl same dest z) (- mpz_val z)"
proof -
  obtain d where d: "(if same then Some z else mpz_set dest z) = Some d" "mpz_wf d" "\<not> fixed_dig d"
    "dig d = dig z" "neg d = neg z" using same_or_set [OF assms] .
  then show ?thesis
    by (intro yieldsI [of _ "d\<lparr>neg := \<not> neg d\<rparr>"]) (auto simp: mpz_neg_inpl_def mpz_wf_def mpz_val_def sval_def)
qed

lemma dval_one: "dval [1] = 1" "digits_ok [1]" "normalised [1]"
  using DIG_BASE_gt1 by (simp_all add: normalised_def)

lemma mpn_add_one:
  assumes "digits_ok ds" "normalised ds" "ds \<noteq> []"
  shows "dval (mpn_add ds [1]) = dval ds + 1" "digits_ok (mpn_add ds [1])" "normalised (mpn_add ds [1])"
proof -
  have "length [1::nat] \<le> length ds" using assms(3) by (cases ds) auto
  with mpn_add_correct [OF assms(1) dval_one(2)] mpn_add_normalised [OF assms(1) dval_one(2) _ assms(2)]
  show "dval (mpn_add ds [1]) = dval ds + 1" "digits_ok (mpn_add ds [1])" "normalised (mpn_add ds [1])"
    by (simp_all add: dval_one(1))
qed

lemma mpz_not_inpl_correct:
  assumes "mpz_wf z" "\<not> fixed_dig (if same then z else dest)"
  shows "yields (mpz_not_inpl same dest z) (NOT (mpz_val z))"
proof -
  obtain d where d: "(if same then Some z else mpz_set dest z) = Some d" "mpz_wf d" "\<not> fixed_dig d"
    "dig d = dig z" "neg d = neg z" using same_or_set [OF assms] .
  note wf = mpz_wfD [OF d(2)]
  have v: "mpz_val d = mpz_val z" using d by (simp add: mpz_val_def)
  consider "dig d = []" | "dig d \<noteq> []" "neg d" | "dig d \<noteq> []" "\<not> neg d" by blast
  then show ?thesis
  proof cases
    case 1
    have "yields (map_option (\<lambda>d. d\<lparr>dig := [1], neg := True\<rparr>) (mpz_need_dig d 1)) (NOT (mpz_val d))"
      using 1 d(3) DIG_BASE_gt1
      by (intro yields_store) (auto simp: normalised_def mpz_val_def sval_def not_int_def)
    then show ?thesis using 1 d(1) v by (simp add: mpz_not_inpl_def)
  next
    case 2
    have pos: "0 < dval (dig d)" using dval_0_normalised [OF wf(2)] 2(1) by simp
    have "length [1::nat] \<le> mlen d" using 2(1) by (cases "dig d") auto
    then have s: "dval (mpn_sub (dig d) [1]) = dval (dig d) - 1" "digits_ok (mpn_sub (dig d) [1])"
      "normalised (mpn_sub (dig d) [1])" "length (mpn_sub (dig d) [1]) \<le> mlen d"
      using mpn_sub_correct [OF wf(1) dval_one(2)] pos by (auto simp: dval_one(1))
    show ?thesis
      using 2 d(1) v s pos wf(3) d(3)
      by (intro yieldsI [of _ "d\<lparr>neg := False, dig := mpn_sub (dig d) [1]\<rparr>"])
        (auto simp: mpz_not_inpl_def mpz_wf_def mpz_val_def sval_def not_int_def of_nat_diff)
  next
    case 3
    have "dval (dig d) + 1 < DIG_BASE ^ (mlen d + 1)"
    proof -
      have "dval (dig d) + 1 \<le> DIG_BASE ^ mlen d" using dval_less [OF wf(1)] by simp
      also have "\<dots> < DIG_BASE ^ (mlen d + 1)" using DIG_BASE_gt1 by simp
      finally show ?thesis .
    qed
    then have "yields (map_option (\<lambda>d'. d'\<lparr>dig := mpn_add (dig d) [1], neg := True\<rparr>)
        (mpz_need_dig d (mlen d + 1))) (NOT (mpz_val d))"
      using 3 d(3) mpn_add_one [OF wf(1,2) 3(1)]
      by (intro yields_store) (auto simp: mpz_val_def sval_def not_int_def)
    moreover have "map_option (\<lambda>d'. d'\<lparr>dig := mpn_add (dig d) [1], neg := True\<rparr>) (mpz_need_dig d (mlen d + 1)) =
        map_option (\<lambda>d. d\<lparr>dig := mpn_add (dig d) [1], neg := True\<rparr>) (mpz_need_dig d (mlen d + 1))"
      using d(3) by (rule mpz_need_dig_ok [of d "mlen d + 1"]) simp
    ultimately show ?thesis using 3 d(1) v by (simp add: mpz_not_inpl_def)
  qed
qed

section \<open>Shifts\<close>

lemma shl_room:
  assumes "digits_ok ds"
  shows "dval ds * 2 ^ n < DIG_BASE ^ (length ds + (n + DIG_SIZE - 1) div DIG_SIZE)"
proof -
  let ?w = "(n + DIG_SIZE - 1) div DIG_SIZE"
  have "n \<le> DIG_SIZE * ?w" unfolding DIG_SIZE_def by simp
  then have "(2::nat) ^ n \<le> DIG_BASE ^ ?w"
    unfolding power_DIG_SIZE [symmetric] by (intro power_increasing) auto
  then have "dval ds * 2 ^ n < DIG_BASE ^ length ds * DIG_BASE ^ ?w"
    using dval_less [OF assms] by (intro mult_less_le_imp_less) auto
  then show ?thesis by (simp add: power_add)
qed

lemma mpz_shl_inpl_correct:
  assumes "mpz_wf lhs" "\<not> fixed_dig dest"
  shows "yields (mpz_shl_inpl dest lhs n) (mpz_val lhs * 2 ^ n)"
proof (cases "dig lhs = [] \<or> n = 0")
  case True
  then show ?thesis using mpz_set_correct [OF assms(2,1)] by (auto simp: mpz_shl_inpl_def mpz_val_def)
next
  case False
  note wf = mpz_wfD [OF assms(1)]
  have "yields (map_option (\<lambda>d. d\<lparr>dig := mpn_shl (dig lhs) n, neg := neg lhs\<rparr>)
      (mpz_need_dig dest (mlen lhs + (n + DIG_SIZE - 1) div DIG_SIZE))) (mpz_val lhs * 2 ^ n)"
    using mpn_shl_correct [OF wf(1), of n] False shl_room [OF wf(1), of n] assms(2)
    by (intro yields_store) (auto simp: mpz_val_def sval_def)
  then show ?thesis using False by (simp add: mpz_shl_inpl_def)
qed

text \<open>The code's test for a nonzero digit or bit shifted out is the remainder not being zero.\<close>

lemma dval_take_zero: "dval (take n ds) = 0 \<longleftrightarrow> (\<forall>i < min (length ds) n. ds ! i = 0)"
  by (auto simp: dval_eq_0_iff all_set_conv_all_nth)

lemma shr_round_up_iff:
  assumes "digits_ok ds"
  shows "shr_round_up ds n \<longleftrightarrow> dval ds mod 2 ^ n \<noteq> 0"
proof -
  let ?w = "n div DIG_SIZE" and ?p = "n mod DIG_SIZE"
  have n: "(2::nat) ^ n = DIG_BASE ^ ?w * 2 ^ ?p"
    by (metis mult_div_mod_eq power_DIG_SIZE power_add)
  have low: "dval ds mod DIG_BASE ^ ?w = dval (take ?w ds)"
  proof (cases "?w \<le> length ds")
    case True
    have "dval ds = dval (take ?w ds) + DIG_BASE ^ ?w * dval (drop ?w ds)"
      using dval_append [of "take ?w ds" "drop ?w ds"] True by simp
    moreover have "dval (take ?w ds) < DIG_BASE ^ ?w"
      using dval_less [OF digits_ok_take [OF assms], of ?w] True by simp
    ultimately show ?thesis by simp
  next
    case False
    then have "DIG_BASE ^ length ds \<le> DIG_BASE ^ ?w" by (intro power_increasing) (auto simp: Suc_le_eq)
    then show ?thesis using False dval_less [OF assms] by simp
  qed
  have pd: "2 ^ ?p dvd DIG_BASE" unfolding DIG_BASE_def by (rule le_imp_power_dvd) (simp add: DIG_SIZE_def)
  have hi: "dval (drop ?w ds) mod 2 ^ ?p \<noteq> 0 \<longleftrightarrow> ?w < length ds \<and> ds ! ?w AND (push_bit ?p 1 - 1) \<noteq> 0"
  proof (cases "?w < length ds")
    case True
    have "ds ! ?w AND (push_bit ?p 1 - 1) = ds ! ?w mod 2 ^ ?p"
      by (metis mask_nat_def push_bit_of_1 take_bit_eq_mask take_bit_eq_mod)
    moreover have "dval (drop ?w ds) = ds ! ?w + DIG_BASE * dval (drop (Suc ?w) ds)"
      using True by (simp add: Cons_nth_drop_Suc [symmetric])
    moreover have "(ds ! ?w + DIG_BASE * dval (drop (Suc ?w) ds)) mod 2 ^ ?p = ds ! ?w mod 2 ^ ?p"
      using pd by (metis dvd_mult2 mod_add_right_eq mod_0_imp_dvd dvd_imp_mod_0 add_0_right)
    ultimately show ?thesis using True by simp
  qed simp
  have "dval ds mod 2 ^ n = DIG_BASE ^ ?w * (dval ds div DIG_BASE ^ ?w mod 2 ^ ?p) + dval ds mod DIG_BASE ^ ?w"
    unfolding n by (rule mod_mult2_eq)
  then have "dval ds mod 2 ^ n \<noteq> 0 \<longleftrightarrow> dval (drop ?w ds) mod 2 ^ ?p \<noteq> 0 \<or> dval (take ?w ds) \<noteq> 0"
    using low by (auto simp: dval_drop [OF assms])
  then show ?thesis unfolding shr_round_up_def Let_def hi dval_take_zero by auto
qed

lemma neg_div_round: "0 < m \<Longrightarrow> - int (v div m + (if v mod m \<noteq> 0 then 1 else 0)) = (- int v) div int m"
  by (auto simp: zdiv_zminus1_eq_if zdiv_int zmod_int)

lemma mpz_shr_inpl_correct:
  assumes "mpz_wf lhs" "\<not> fixed_dig dest"
  shows "yields (mpz_shr_inpl False dest lhs n) (mpz_val lhs div 2 ^ n)"
proof (cases "dig lhs = [] \<or> n = 0")
  case True
  then show ?thesis using mpz_set_correct [OF assms(2,1)] by (auto simp: mpz_shr_inpl_def mpz_val_def)
next
  case False
  note wf = mpz_wfD [OF assms(1)]
  let ?ds = "mpn_shr (dig lhs) n" and ?v = "dval (dig lhs)"
  note shr = mpn_shr_correct [OF wf(1,2), of n]
  let ?up = "neg lhs \<and> shr_round_up (dig lhs) n"
  let ?out = "if ?up then (if length ?ds = 0 then [1] else mpn_add ?ds [1]) else ?ds"
  have pos: "0 < ?v" using False dval_0_normalised [OF wf(2)] by simp
  have out: "dval ?out = ?v div 2 ^ n + (if ?up then 1 else 0)" "digits_ok ?out" "normalised ?out"
    using shr mpn_add_one [of ?ds] dval_one by auto
  have "?v div 2 ^ n + (if ?up then 1 else 0) \<le> ?v"
  proof -
    have "?v div 2 ^ n \<le> ?v div 2" using False by (intro div_le_mono2) (auto simp: self_le_power)
    also have "\<dots> \<le> ?v - 1" using pos by simp
    finally have "?v div 2 ^ n + 1 \<le> ?v" using pos by linarith
    then show ?thesis by simp
  qed
  also have "?v < DIG_BASE ^ mlen lhs" using wf(1) by (rule dval_less)
  finally have small: "dval ?out < DIG_BASE ^ mlen lhs" using out(1) by simp
  have val: "sval (neg lhs) ?out = mpz_val lhs div 2 ^ n"
  proof (cases "neg lhs")
    case True
    then have "dval ?out = ?v div 2 ^ n + (if ?v mod 2 ^ n \<noteq> 0 then 1 else 0)"
      using out(1) shr_round_up_iff [OF wf(1), of n] by simp
    then have "- int (dval ?out) = (- int ?v) div int (2 ^ n)" 
      by (simp only: neg_div_round zero_less_power zero_less_numeral)
    then show ?thesis using True by (simp only: mpz_val_def sval_def if_True of_nat_power of_nat_numeral)
  next
    case False
    then have "int (dval ?out) = int ?v div 2 ^ n" using out(1) by (simp add: zdiv_int)
    then show ?thesis using False by (simp only: mpz_val_def sval_def if_False)
  qed
  have "mpz_shr_inpl False dest lhs n =
      map_option (\<lambda>d. d\<lparr>dig := ?out, neg := neg lhs\<rparr>) (mpz_need_dig dest (mlen lhs))"
    using False by (auto simp: mpz_shr_inpl_def Let_def intro!: option.map_cong0)
  then show ?thesis using yields_store [OF assms(2) out(2,3) small val] by simp
qed

section \<open>Addition and subtraction\<close>

lemma map_option_store:
  "map_option (\<lambda>d. d\<lparr>neg := b\<rparr>) (map_option (\<lambda>d. d\<lparr>dig := ds\<rparr>) r) =
   map_option (\<lambda>d. d\<lparr>dig := ds, neg := b\<rparr>) r"
  by (simp add: option.map_comp comp_def)

text \<open>The two branches of addition and subtraction, on operands ordered by magnitude.\<close>

lemma add_branch:
  assumes "mpz_wf lhs" "mpz_wf rhs" "\<not> fixed_dig dest" "dval (dig rhs) \<le> dval (dig lhs)"
    and "v = (if b then -1 else 1) * (int (dval (dig lhs)) + int (dval (dig rhs)))"
  shows "yields (map_option (\<lambda>d. d\<lparr>dig := mpn_add (dig lhs) (dig rhs), neg := b\<rparr>)
      (mpz_need_dig dest (Suc (mlen lhs)))) v"
proof -
  note wl = mpz_wfD [OF assms(1)] and wr = mpz_wfD [OF assms(2)]
  have len: "mlen rhs \<le> mlen lhs" using length_le_of_dval [OF wl(1) wr(2) assms(4)] .
  note add = mpn_add_correct [OF wl(1) wr(1) len] mpn_add_normalised [OF wl(1) wr(1) len wl(2)]
  have "dval (dig lhs) + dval (dig rhs) < 2 * DIG_BASE ^ mlen lhs"
    using dval_less [OF wl(1)] assms(4) by simp
  also have "\<dots> \<le> DIG_BASE ^ Suc (mlen lhs)" using DIG_BASE_gt1 by simp
  finally show ?thesis using add assms(3,5) by (intro yields_store) (auto simp: sval_def)
qed

lemma sub_branch:
  assumes "mpz_wf lhs" "mpz_wf rhs" "\<not> fixed_dig dest" "dval (dig rhs) \<le> dval (dig lhs)"
    and "v = (if b then -1 else 1) * (int (dval (dig lhs)) - int (dval (dig rhs)))"
  shows "yields (map_option (\<lambda>d. d\<lparr>dig := mpn_sub (dig lhs) (dig rhs), neg := b\<rparr>)
      (mpz_need_dig dest (mlen lhs))) v"
proof -
  note wl = mpz_wfD [OF assms(1)] and wr = mpz_wfD [OF assms(2)]
  have len: "mlen rhs \<le> mlen lhs" using length_le_of_dval [OF wl(1) wr(2) assms(4)] .
  note sub = mpn_sub_correct [OF wl(1) wr(1) len assms(4)]
  have "dval (dig lhs) - dval (dig rhs) < DIG_BASE ^ mlen lhs" using dval_less [OF wl(1)] by simp
  then show ?thesis using sub assms(3-5) by (intro yields_store) (auto simp: sval_def of_nat_diff)
qed

lemma mpz_add_inpl_correct:
  assumes "mpz_wf lhs" "mpz_wf rhs" "\<not> fixed_dig dest"
  shows "yields (mpz_add_inpl dest lhs rhs) (mpz_val lhs + mpz_val rhs)"
proof -
  have c: "mpn_cmp (dig lhs) (dig rhs) < 0 \<longleftrightarrow> dval (dig lhs) < dval (dig rhs)"
    using mpn_cmp_sgn [of "dig lhs" "dig rhs"] assms by (simp add: mpz_wf_def)
  show ?thesis
  proof (cases "dval (dig lhs) < dval (dig rhs)")
    case True
    then show ?thesis
      using c assms
      by (auto simp: mpz_add_inpl_def map_option_store mpz_val_def sval_def intro!: add_branch sub_branch)
  next
    case False
    then show ?thesis
      using c assms
      by (auto simp: mpz_add_inpl_def map_option_store mpz_val_def sval_def intro!: add_branch sub_branch)
  qed
qed

lemma mpz_sub_inpl_correct:
  assumes "mpz_wf lhs" "mpz_wf rhs" "\<not> fixed_dig dest"
  shows "yields (mpz_sub_inpl dest lhs rhs) (mpz_val lhs - mpz_val rhs)"
proof -
  have c: "mpn_cmp (dig lhs) (dig rhs) < 0 \<longleftrightarrow> dval (dig lhs) < dval (dig rhs)"
    using mpn_cmp_sgn [of "dig lhs" "dig rhs"] assms by (simp add: mpz_wf_def)
  show ?thesis
  proof (cases "dval (dig lhs) < dval (dig rhs)")
    case True
    then show ?thesis
      using c assms
      by (auto simp: mpz_sub_inpl_def map_option_store mpz_val_def sval_def intro!: add_branch sub_branch)
  next
    case False
    then show ?thesis
      using c assms
      by (auto simp: mpz_sub_inpl_def map_option_store mpz_val_def sval_def intro!: add_branch sub_branch)
  qed
qed

section \<open>Multiplication\<close>

lemma mpz_clone_ok:
  assumes "mpz_wf z" "dig z \<noteq> []"
  shows "mpz_clone z = Some (z\<lparr>fixed_dig := False\<rparr>)"
  using assms by (cases "dig z") (auto simp: mpz_clone_def mpz_wf_def)

lemma mpz_mul_inpl_correct:
  assumes "mpz_wf lhs" "mpz_wf rhs" "\<not> fixed_dig dest"
    and "dest_is_lhs \<and> dest_is_rhs \<longrightarrow> lhs = rhs"
  shows "yields (mpz_mul_inpl dest_is_lhs dest_is_rhs dest lhs rhs) (mpz_val lhs * mpz_val rhs)"
proof (cases "dig lhs = [] \<or> dig rhs = []")
  case True
  then show ?thesis using mpz_set_from_int_correct [OF assms(3), of 0] by (auto simp: mpz_mul_inpl_def mpz_val_def)
next
  case False
  note wl = mpz_wfD [OF assms(1)] and wr = mpz_wfD [OF assms(2)]
  from mpz_need_dig_ok [OF assms(3), of "mlen lhs + mlen rhs"] obtain al where
    al: "mpz_need_dig dest (mlen lhs + mlen rhs) = Some (dest\<lparr>alloc := al\<rparr>)" "mlen lhs + mlen rhs \<le> al" .
  let ?m = "mpn_mul (replicate al 0) (dig lhs) (dig rhs)"
  have m: "dval ?m = dval (dig lhs) * dval (dig rhs)" "digits_ok ?m" "normalised ?m" "length ?m \<le> al"
    using mpn_mul_correct [OF wl(1) wr(1) wl(2) wr(2), of al] False al(2) by auto
  have "mpz_mul_inpl dest_is_lhs dest_is_rhs dest lhs rhs =
      Some (dest\<lparr>alloc := al, dig := ?m, neg := neg lhs \<noteq> neg rhs\<rparr>)"
    using False al(1) mpz_clone_ok [OF assms(1)] mpz_clone_ok [OF assms(2)] assms(4)
    by (auto simp: mpz_mul_inpl_def mul_digits_def Let_def)
  then show ?thesis
    by (rule yieldsI) (use m assms(3) in \<open>auto simp: mpz_wf_def mpz_val_def sval_def\<close>)
qed

section \<open>Bitwise operations\<close>

lemma sval_False [simp]: "sval False ds = int (dval ds)"
  by (simp add: sval_def)

lemma length_mpn_and_neg: "length (mpn_and_neg js ks ci cj ck) \<le> Suc (length js)"
proof -
  have "length (mpn_and_neg_loop im jm km ci cj ck js ks) \<le> Suc (length js)" for im jm km
    by (induction im jm km ci cj ck js ks rule: mpn_and_neg_loop.induct) (auto simp: Let_def)
  then show ?thesis by (simp add: mpn_and_neg_def Let_def min.coboundedI1)
qed

lemma length_mpn_or_neg: "mpn_or_neg js ks cj ck = Some ds \<Longrightarrow> length ds \<le> length js"
proof -
  have "mpn_or_neg_loop jm km ci cj ck js ks = Some es \<Longrightarrow> length es = length js" for jm km ci es
    by (induction jm km ci cj ck js ks arbitrary: es rule: mpn_or_neg_loop.induct)
      (auto simp: Let_def split: if_splits)
  then show "mpn_or_neg js ks cj ck = Some ds \<Longrightarrow> length ds \<le> length js"
    by (auto simp: mpn_or_neg_def Let_def split: option.splits)
qed

lemma length_mpn_xor_neg: "length (mpn_xor_neg js ks ci cj ck) \<le> Suc (length js)"
proof -
  have "length (mpn_xor_neg_loop ci cj ck js ks) \<le> Suc (length js)"
    by (induction ci cj ck js ks rule: mpn_xor_neg_loop.induct) (auto simp: Let_def)
  then show ?thesis by (simp add: mpn_xor_neg_def Let_def min.coboundedI1)
qed

lemma length_mpn_and: "length (mpn_and js ks) \<le> length js"
  by (simp add: mpn_and_def Let_def length_mpn_and_loop)

lemma length_mpn_xor: "length (mpn_xor js ks) \<le> length js"
proof -
  have "length (mpn_xor_loop js ks) = length js"
    by (induction js ks rule: mpn_xor_loop.induct) auto
  then show ?thesis by (simp add: mpn_xor_def Let_def)
qed

text \<open>The operations on operands ordered by length.\<close>

lemma mpz_and_ordered:
  assumes "mpz_wf lhs" "mpz_wf rhs" "canonical lhs" "canonical rhs" "\<not> fixed_dig dest" "mlen rhs \<le> mlen lhs"
  shows "yields (mpz_and_inpl dest lhs rhs) (mpz_val lhs AND mpz_val rhs)"
proof -
  note wl = mpz_wfD [OF assms(1)] and wr = mpz_wfD [OF assms(2)]
  have nz: "neg lhs \<Longrightarrow> 0 < dval (dig lhs)" "neg rhs \<Longrightarrow> 0 < dval (dig rhs)"
    using canonical_nz assms by auto
  show ?thesis
  proof (cases "\<not> neg lhs \<and> \<not> neg rhs")
    case True
    have "yields (map_option (\<lambda>d. d\<lparr>dig := mpn_and (dig lhs) (dig rhs), neg := False\<rparr>)
        (mpz_need_dig dest (mlen lhs))) (mpz_val lhs AND mpz_val rhs)"
      using mpn_and_correct [OF wl(1) wr(1)] True assms(5)
      by (intro yields_store_length) (auto simp: length_mpn_and mpz_val_def of_nat_and_eq)
    then show ?thesis using True assms(6) by (simp add: mpz_and_inpl_def)
  next
    case False
    note r = mpn_and_neg_correct [OF wl(1) wr(1) assms(6) nz]
    have "yields (map_option (\<lambda>d. d\<lparr>dig := mpn_and_neg (dig lhs) (dig rhs)
          (of_bool (neg lhs \<and> neg rhs)) (of_bool (neg lhs)) (of_bool (neg rhs)), neg := neg lhs \<and> neg rhs\<rparr>)
        (mpz_need_dig dest (Suc (mlen lhs)))) (mpz_val lhs AND mpz_val rhs)"
      unfolding mpz_val_def using r assms(5) length_mpn_and_neg by (intro yields_store_length) auto
    moreover have "(neg lhs = neg rhs) = (neg lhs \<and> neg rhs)" using False by blast
    moreover have "\<not> mlen lhs < mlen rhs" using assms(6) by simp
    ultimately show ?thesis using False unfolding mpz_and_inpl_def by auto
  qed
qed

lemma mpz_or_ordered:
  assumes "mpz_wf lhs" "mpz_wf rhs" "canonical lhs" "canonical rhs" "\<not> fixed_dig dest" "mlen rhs \<le> mlen lhs"
  shows "yields (mpz_or_inpl dest lhs rhs) (mpz_val lhs OR mpz_val rhs)"
proof -
  note wl = mpz_wfD [OF assms(1)] and wr = mpz_wfD [OF assms(2)]
  have nz: "neg lhs \<Longrightarrow> 0 < dval (dig lhs)" "neg rhs \<Longrightarrow> 0 < dval (dig rhs)"
    using canonical_nz assms by auto
  show ?thesis
  proof (cases "\<not> neg lhs \<and> \<not> neg rhs")
    case True
    have "yields (map_option (\<lambda>d. d\<lparr>dig := mpn_or (dig lhs) (dig rhs), neg := False\<rparr>)
        (mpz_need_dig dest (mlen lhs))) (mpz_val lhs OR mpz_val rhs)"
      using mpn_or_correct [OF wl(1) wr(1) assms(6)] mpn_or_normalised [OF wl(1) wr(1) assms(6) wl(2)]
        True assms(5)
      by (intro yields_store_length) (auto simp: mpz_val_def of_nat_or_eq)
    then show ?thesis using True assms(6) by (simp add: mpz_or_inpl_def)
  next
    case False
    then have "neg lhs \<or> neg rhs" by blast
    from mpn_or_neg_correct [OF wl(1) wr(1) assms(6) nz this] obtain ds where
      ds: "mpn_or_neg (dig lhs) (dig rhs) (of_bool (neg lhs)) (of_bool (neg rhs)) = Some ds"
      "sval True ds = sval (neg lhs) (dig lhs) OR sval (neg rhs) (dig rhs)" "digits_ok ds" "normalised ds"
      by blast
    have "yields (map_option (\<lambda>d. d\<lparr>dig := ds, neg := True\<rparr>) (mpz_need_dig dest (Suc (mlen lhs))))
        (mpz_val lhs OR mpz_val rhs)"
      unfolding mpz_val_def using ds assms(5) length_mpn_or_neg [OF ds(1)] by (intro yields_store_length) auto
    moreover have "Option.bind r (\<lambda>d. map_option (\<lambda>ds. d\<lparr>dig := ds, neg := True\<rparr>) (Some ds)) =
        map_option (\<lambda>d. d\<lparr>dig := ds, neg := True\<rparr>) r" for r :: "mpz option" by (cases r) auto
    moreover have "\<not> mlen lhs < mlen rhs" using assms(6) by simp
    ultimately show ?thesis using False ds(1) unfolding mpz_or_inpl_def by auto
  qed
qed

lemma xor_neg_room:
  assumes "digits_ok js" "digits_ok ks" "length ks \<le> length js" "0 < dval js" "0 < dval ks"
    "int (dval ds) = sval True js XOR sval True ks"
  shows "dval ds < DIG_BASE ^ length js"
proof -
  have "int (dval ds) = int (dval js - 1) XOR int (dval ks - 1)"
    using assms(4-6) by (simp add: sval_not)
  also have "\<dots> < 2 ^ (DIG_SIZE * length js)"
    using sval_range(2) [OF assms(1) order_refl, of False] sval_range(2) [OF assms(2,3), of False]
    by (intro XOR_upper) (auto simp: of_nat_diff)
  finally show ?thesis unfolding power_DIG_SIZE_int by (simp only: of_nat_less_iff)
qed

lemma mpz_xor_ordered:
  assumes "mpz_wf lhs" "mpz_wf rhs" "canonical lhs" "canonical rhs" "\<not> fixed_dig dest" "mlen rhs \<le> mlen lhs"
  shows "yields (mpz_xor_inpl dest lhs rhs) (mpz_val lhs XOR mpz_val rhs)"
proof -
  note wl = mpz_wfD [OF assms(1)] and wr = mpz_wfD [OF assms(2)]
  have nz: "neg lhs \<Longrightarrow> 0 < dval (dig lhs)" "neg rhs \<Longrightarrow> 0 < dval (dig rhs)"
    using canonical_nz assms by auto
  note r = mpn_xor_neg_correct [OF wl(1) wr(1) assms(6), of "neg lhs" "neg rhs", OF nz]
  have sw: "\<not> mlen lhs < mlen rhs" using assms(6) by simp
  consider "\<not> neg lhs" "\<not> neg rhs" | "neg lhs" "neg rhs" | "neg lhs \<noteq> neg rhs" by blast
  then show ?thesis
  proof cases
    case 1
    have "yields (map_option (\<lambda>d. d\<lparr>dig := mpn_xor (dig lhs) (dig rhs), neg := False\<rparr>)
        (mpz_need_dig dest (mlen lhs))) (mpz_val lhs XOR mpz_val rhs)"
      using mpn_xor_correct [OF wl(1) wr(1) assms(6)] 1 assms(5)
      by (intro yields_store_length) (auto simp: length_mpn_xor mpz_val_def of_nat_xor_eq)
    then show ?thesis using 1 sw unfolding mpz_xor_inpl_def by simp
  next
    case 2
    let ?ds = "mpn_xor_neg (dig lhs) (dig rhs) 0 0 0"
    have d: "int (dval ?ds) = sval True (dig lhs) XOR sval True (dig rhs)" "digits_ok ?ds" "normalised ?ds"
      using r 2 by simp_all
    have "yields (map_option (\<lambda>d. d\<lparr>dig := ?ds, neg := False\<rparr>) (mpz_need_dig dest (mlen lhs)))
        (mpz_val lhs XOR mpz_val rhs)"
      using d xor_neg_room [OF wl(1) wr(1) assms(6) nz d(1)] 2 assms(5)
      by (intro yields_store) (auto simp: mpz_val_def)
    then show ?thesis using 2 sw unfolding mpz_xor_inpl_def by simp
  next
    case 3
    let ?ds = "mpn_xor_neg (dig lhs) (dig rhs) 1 (of_bool (\<not> neg lhs)) (of_bool (\<not> neg rhs))"
    have d: "sval True ?ds = mpz_val lhs XOR mpz_val rhs" "digits_ok ?ds" "normalised ?ds"
      using r 3 by (simp_all add: mpz_val_def)
    have "yields (map_option (\<lambda>d. d\<lparr>dig := ?ds, neg := True\<rparr>) (mpz_need_dig dest (Suc (mlen lhs))))
        (mpz_val lhs XOR mpz_val rhs)"
      using d assms(5) by (intro yields_store_length) (auto simp: length_mpn_xor_neg)
    then show ?thesis using 3 sw unfolding mpz_xor_inpl_def by simp
  qed
qed

lemma bitwise_swap:
  assumes "mlen lhs < mlen rhs"
  shows "mpz_and_inpl dest lhs rhs = mpz_and_inpl dest rhs lhs"
    "mpz_or_inpl dest lhs rhs = mpz_or_inpl dest rhs lhs"
    "mpz_xor_inpl dest lhs rhs = mpz_xor_inpl dest rhs lhs"
  using assms by (simp_all add: mpz_and_inpl_def mpz_or_inpl_def mpz_xor_inpl_def)

lemma mpz_bitwise_correct:
  assumes "mpz_wf lhs" "mpz_wf rhs" "canonical lhs" "canonical rhs" "\<not> fixed_dig dest"
  shows "yields (mpz_and_inpl dest lhs rhs) (mpz_val lhs AND mpz_val rhs)"
    and "yields (mpz_or_inpl dest lhs rhs) (mpz_val lhs OR mpz_val rhs)"
    and "yields (mpz_xor_inpl dest lhs rhs) (mpz_val lhs XOR mpz_val rhs)"
proof -
  have "yields (mpz_and_inpl dest lhs rhs) (mpz_val lhs AND mpz_val rhs) \<and>
      yields (mpz_or_inpl dest lhs rhs) (mpz_val lhs OR mpz_val rhs) \<and>
      yields (mpz_xor_inpl dest lhs rhs) (mpz_val lhs XOR mpz_val rhs)"
  proof (cases "mlen lhs < mlen rhs")
    case True
    then show ?thesis
      using mpz_and_ordered [OF assms(2,1,4,3,5)] mpz_or_ordered [OF assms(2,1,4,3,5)]
        mpz_xor_ordered [OF assms(2,1,4,3,5)]
      by (simp add: bitwise_swap [OF True] and.commute or.commute xor.commute)
  next
    case False
    then show ?thesis using mpz_and_ordered [OF assms] mpz_or_ordered [OF assms] mpz_xor_ordered [OF assms] by simp
  qed
  then show "yields (mpz_and_inpl dest lhs rhs) (mpz_val lhs AND mpz_val rhs)"
    "yields (mpz_or_inpl dest lhs rhs) (mpz_val lhs OR mpz_val rhs)"
    "yields (mpz_xor_inpl dest lhs rhs) (mpz_val lhs XOR mpz_val rhs)" by auto
qed

section \<open>Division\<close>

lemma mpz_init_from_int_m1:
  "\<exists>m. mpz_init_from_int (-1) = Some m \<and> mpz_wf m \<and> \<not> fixed_dig m \<and> mpz_val m = -1"
proof -
  have "yields (mpz_init_from_int (-1)) (sint (-1 :: 32 word))"
    unfolding mpz_init_from_int_def by (rule mpz_set_from_int_correct) (simp add: mpz_init_zero_def)
  then show ?thesis by (auto elim!: yieldsE)
qed

text \<open>Python's floor division from the division of the magnitudes.\<close>

lemma floor_div_signs:
  fixes a b :: nat
  assumes "0 < b"
  shows "(- int a) div (- int b) = int (a div b)" "(- int a) mod (- int b) = - int (a mod b)"
    and "(- int a) div int b = (if a mod b = 0 then - int (a div b) else - int (a div b) - 1)"
    and "(- int a) mod int b = (if a mod b = 0 then 0 else int b - int (a mod b))"
    and "int a div (- int b) = (if a mod b = 0 then - int (a div b) else - int (a div b) - 1)"
    and "int a mod (- int b) = (if a mod b = 0 then 0 else int (a mod b) - int b)"
  using assms mod_less_divisor [OF assms, of a]
  by (auto simp add: zdiv_zminus1_eq_if zmod_zminus1_eq_if zdiv_zminus2_eq_if zmod_zminus2_eq_if
      simp flip: zdiv_int zmod_int)

lemma mpz_divmod_inpl_correct:
  assumes "mpz_wf lhs" "mpz_wf rhs" "\<not> fixed_dig dest_quo" "\<not> fixed_dig dest_rem"
    and nz: "dig rhs \<noteq> []" and safe: "div_safe (dig rhs)"
  shows "\<exists>q r. mpz_divmod_inpl dest_quo dest_rem lhs rhs = Some (q, r) \<and>
    mpz_wf q \<and> mpz_wf r \<and> \<not> fixed_dig q \<and> \<not> fixed_dig r \<and>
    (\<not> neg dest_quo \<longrightarrow> mpz_val q = mpz_val lhs div mpz_val rhs) \<and> mpz_val r = mpz_val lhs mod mpz_val rhs"
proof -
  note wl = mpz_wfD [OF assms(1)] and wr = mpz_wfD [OF assms(2)]
  let ?a = "dval (dig lhs)" and ?b = "dval (dig rhs)"
  have b: "0 < ?b" using dval_0_normalised [OF wr(2)] nz by simp
  obtain aq where aq: "mpz_need_dig dest_quo (mlen lhs + 1) = Some (dest_quo\<lparr>alloc := aq\<rparr>)" "mlen lhs + 1 \<le> aq"
    using mpz_need_dig_ok [OF assms(3)] .
  obtain ar where ar: "mpz_need_dig dest_rem (mlen lhs + 1) = Some (dest_rem\<lparr>alloc := ar\<rparr>)" "mlen lhs + 1 \<le> ar"
    using mpz_need_dig_ok [OF assms(4)] .
  obtain ar' where ar': "mpz_need_dig (dest_rem\<lparr>alloc := ar\<rparr>) (mlen lhs) = Some (dest_rem\<lparr>alloc := ar'\<rparr>)" "mlen lhs \<le> ar'"
    using mpz_need_dig_ok [of "dest_rem\<lparr>alloc := ar\<rparr>" "mlen lhs"] assms(4) by auto
  obtain r q where rq: "mpn_div (dig lhs) (dig rhs) = Some (r, q)" "dval r = ?a mod ?b" "dval q = ?a div ?b"
    "digits_ok r" "digits_ok q" "normalised r" "normalised q"
    using mpn_div_correct [OF wl(1,2) wr(1,2) nz safe] by blast
  have small: "dval q < DIG_BASE ^ mlen lhs" "dval r < DIG_BASE ^ mlen lhs"
    using dval_less [OF wl(1)] rq(2,3) by (simp_all add: le_less_trans [OF div_le_dividend] le_less_trans [OF mod_less_eq_dividend])
  have len: "length q \<le> mlen lhs" "length r \<le> mlen lhs"
    using normalised_length rq small by auto
  let ?dr = "dest_rem\<lparr>alloc := ar', neg := neg lhs, dig := r\<rparr>"
  let ?dq = "\<lambda>n. dest_quo\<lparr>alloc := aq, dig := q, neg := n\<rparr>" and ?qz = "dest_quo\<lparr>alloc := aq, dig := q\<rparr>"
  have wf: "mpz_wf ?dr" "mpz_wf (?dq n)" "\<not> fixed_dig ?dr" "\<not> fixed_dig (?dq n)" for n
    using rq len ar' aq assms(3,4) by (auto simp: mpz_wf_def)
  have v: "mpz_val ?dr = (if neg lhs then - int (?a mod ?b) else int (?a mod ?b))"
    "mpz_val (?dq n) = (if n then - int (?a div ?b) else int (?a div ?b))" for n
    using rq by (auto simp: mpz_val_def sval_def)
  have q0: "mpz_wf ?qz" "\<not> fixed_dig ?qz" "\<not> neg dest_quo \<longrightarrow> mpz_val ?qz = int (?a div ?b)"
    using rq len aq assms(3) by (auto simp: mpz_wf_def mpz_val_def)
  have r0: "r = [] \<longleftrightarrow> ?a mod ?b = 0" using dval_0_normalised [OF rq(6)] rq(2) by simp
  have unf: "mpz_divmod_inpl dest_quo dest_rem lhs rhs =
     (if neg lhs \<noteq> neg rhs then
        if r \<noteq> [] then
          Option.bind (mpz_init_from_int (-1)) (\<lambda>m.
            Option.bind (mpz_add_inpl (?dq True) (?dq True) m) (\<lambda>dq.
              map_option (\<lambda>dr. (dq, dr)) (mpz_add_inpl ?dr ?dr rhs)))
        else Some (?dq True, ?dr)
      else Some (?qz, ?dr))"
    using nz aq(1) ar(1) ar'(1) rq(1)
    by (cases dest_quo) (auto simp: mpz_divmod_inpl_def mpz_is_zero_def mpz_set_def Let_def)
  show ?thesis
  proof (cases "neg lhs = neg rhs")
    case True
    then show ?thesis unfolding unf using wf v(1) q0 floor_div_signs [OF b, of ?a]
      by (auto simp: mpz_val_def [of lhs] mpz_val_def [of rhs] sval_def zdiv_int zmod_int)
  next
    case neq: False
    show ?thesis
    proof (cases "r = []")
      case True
      then show ?thesis unfolding unf using wf v b floor_div_signs [OF b, of ?a] neq r0
        by (auto simp: mpz_val_def [of lhs] mpz_val_def [of rhs] sval_def)
    next
      case False
      obtain m where m: "mpz_init_from_int (-1) = Some m" "mpz_wf m" "mpz_val m = -1"
        using mpz_init_from_int_m1 by blast
      obtain dq where dq: "mpz_add_inpl (?dq True) (?dq True) m = Some dq" "mpz_wf dq" "\<not> fixed_dig dq"
        "mpz_val dq = mpz_val (?dq True) + mpz_val m"
        using mpz_add_inpl_correct [OF wf(2) m(2) wf(4)] by (rule yieldsE)
      obtain dr where dr: "mpz_add_inpl ?dr ?dr rhs = Some dr" "mpz_wf dr" "\<not> fixed_dig dr"
        "mpz_val dr = mpz_val ?dr + mpz_val rhs"
        using mpz_add_inpl_correct [OF wf(1) assms(2) wf(3)] by (rule yieldsE)
      show ?thesis unfolding unf using neq False m(1) dq dr v floor_div_signs [OF b, of ?a] r0 m(3)
        by (auto simp: mpz_val_def [of lhs] mpz_val_def [of rhs] sval_def)
    qed
  qed
qed

end
