(* ===== verification/Mpz_Pow.thy ===== *)
theory Mpz_Pow
  imports Mpz
begin

unbundle bit_operations_syntax

text \<open>
  Powers of big integers: \<open>mpz_pow_inpl\<close> and \<open>mpz_pow3_inpl\<close> of \<open>py/mpz.c\<close>, by repeated squaring.
  The loops run over the digits of the exponent, halved in each round; they are
  \<open>partial_function\<close>s, and that they end is part of the theorems. What the functions do on
  \<open>0 ** 0\<close> and when the destination is also the base is stated at the end.
\<close>

section \<open>Operations\<close>

partial_function (option) mpz_pow_loop :: "mpz \<Rightarrow> mpz \<Rightarrow> nat list \<Rightarrow> mpz option" where
  "mpz_pow_loop dest x n =
     (if n = [] then Some dest
      else Option.bind (if hd n AND 1 \<noteq> 0 then mpz_mul_inpl True False dest dest x else Some dest)
        (\<lambda>dest. let n' = mpn_shr n 1
                in if n' = [] then Some dest
                   else Option.bind (mpz_mul_inpl True True x x x)
                     (\<lambda>x. mpz_pow_loop dest x n')))"

definition mpz_pow_inpl :: "mpz \<Rightarrow> mpz \<Rightarrow> mpz \<Rightarrow> mpz option" where
  "mpz_pow_inpl dest lhs rhs =
     (if mlen lhs = 0 \<or> neg rhs then mpz_set_from_int dest 0
      else if mlen rhs = 0 then mpz_set_from_int dest 1
      else Option.bind (mpz_clone lhs) (\<lambda>x. Option.bind (mpz_clone rhs) (\<lambda>n.
        Option.bind (mpz_set_from_int dest 1) (\<lambda>dest. mpz_pow_loop dest x (dig n)))))"

partial_function (option) mpz_pow3_loop :: "mpz \<Rightarrow> mpz \<Rightarrow> mpz \<Rightarrow> nat list \<Rightarrow> mpz \<Rightarrow> mpz option" where
  "mpz_pow3_loop quo dest x n md =
     (if n = [] then Some dest
      else Option.bind
        (if hd n AND 1 \<noteq> 0 then
           Option.bind (mpz_mul_inpl True False dest dest x) (\<lambda>d. mpz_divmod_inpl quo d d md)
         else Some (quo, dest))
        (\<lambda>(quo, dest). let n' = mpn_shr n 1
           in if n' = [] then Some dest
              else Option.bind (mpz_mul_inpl True True x x x) (\<lambda>x1.
                Option.bind (mpz_divmod_inpl quo x1 x1 md) (\<lambda>(quo, x).
                  mpz_pow3_loop quo dest x n' md))))"

text \<open>
  \<open>mpz_pow3_inpl\<close> writes \<open>dest\<close> before it copies \<open>lhs\<close> and \<open>rhs\<close>; the flags say which of them
  are the same object as \<open>dest\<close>.
\<close>

definition mpz_pow3_inpl :: "bool \<Rightarrow> bool \<Rightarrow> mpz \<Rightarrow> mpz \<Rightarrow> mpz \<Rightarrow> mpz \<Rightarrow> mpz option" where
  "mpz_pow3_inpl dest_is_lhs dest_is_rhs dest lhs rhs md =
     (if mlen lhs = 0 \<or> neg rhs \<or> (mlen md = 1 \<and> dig md ! 0 = 1) then mpz_set_from_int dest 0
      else Option.bind (mpz_set_from_int dest 1) (\<lambda>dest.
        let lhs = (if dest_is_lhs then dest else lhs); rhs = (if dest_is_rhs then dest else rhs)
        in if mlen rhs = 0 then Some dest
           else Option.bind (mpz_clone lhs) (\<lambda>x. Option.bind (mpz_clone rhs) (\<lambda>n.
             mpz_pow3_loop mpz_init_zero dest x (dig n) md))))"

section \<open>Power\<close>

lemma odd_dval: "n \<noteq> [] \<Longrightarrow> (hd n AND 1 \<noteq> 0) = odd (dval n)"
proof -
  assume "n \<noteq> []"
  then obtain d ds where "n = d # ds" by (cases n) auto
  moreover have "even DIG_BASE" by (simp add: DIG_BASE_eq)
  ultimately show ?thesis by (auto simp: and_one_eq odd_iff_mod_2_eq_one)
qed

lemma pow_odd_even:
  fixes x :: "'a::comm_monoid_mult"
  shows "x ^ n = (x * x) ^ (n div 2) * (if odd n then x else 1)"
proof -
  have "(x * x) ^ (n div 2) = x ^ (2 * (n div 2))" by (simp add: power_mult power2_eq_square)
  then show ?thesis by (cases "odd n") (auto simp: mult.commute simp flip: power_Suc elim!: oddE)
qed

lemma mpz_pow_loop_correct:
  "digits_ok n \<Longrightarrow> normalised n \<Longrightarrow> mpz_wf dest \<Longrightarrow> mpz_wf x \<Longrightarrow> \<not> fixed_dig dest \<Longrightarrow> \<not> fixed_dig x \<Longrightarrow>
   yields (mpz_pow_loop dest x n) (mpz_val dest * mpz_val x ^ dval n)"
proof (induction "dval n" arbitrary: n dest x rule: less_induct)
  case less
  show ?case
  proof (cases "n = []")
    case True
    then show ?thesis using less.prems by (subst mpz_pow_loop.simps) (auto intro: yieldsI)
  next
    case False
    have pos: "0 < dval n" using False dval_0_normalised [OF less.prems(2)] by simp
    let ?n = "mpn_shr n 1"
    have n1: "dval ?n = dval n div 2" "digits_ok ?n" "normalised ?n"
      using mpn_shr_correct [OF less.prems(1,2), of 1] by auto
    have "yields (if hd n AND 1 \<noteq> 0 then mpz_mul_inpl True False dest dest x else Some dest)
        (mpz_val dest * (if odd (dval n) then mpz_val x else 1))"
      unfolding odd_dval [OF False]
      using mpz_mul_inpl_correct [OF less.prems(3,4,5), of True False] less.prems by (auto intro: yieldsI)
    then obtain d where d: "(if hd n AND 1 \<noteq> 0 then mpz_mul_inpl True False dest dest x else Some dest) = Some d"
      "mpz_wf d" "\<not> fixed_dig d" "mpz_val d = mpz_val dest * (if odd (dval n) then mpz_val x else 1)"
      by (rule yieldsE)
    show ?thesis
    proof (cases "?n = []")
      case True
      then have "dval n div 2 = 0" using n1(1) by simp
      with pos have "dval n = 1" by simp
      then show ?thesis using False d True by (subst mpz_pow_loop.simps) (auto intro: yieldsI)
    next
      case ne: False
      obtain y where y: "mpz_mul_inpl True True x x x = Some y" "mpz_wf y" "\<not> fixed_dig y"
        "mpz_val y = mpz_val x * mpz_val x"
        using mpz_mul_inpl_correct [OF less.prems(4,4,6), of True True] by (auto elim: yieldsE)
      have "yields (mpz_pow_loop d y ?n) (mpz_val d * mpz_val y ^ dval ?n)"
        using n1 d y pos by (intro less.hyps) auto
      moreover have "mpz_val d * mpz_val y ^ dval ?n = mpz_val dest * mpz_val x ^ dval n"
        using d(4) y(4) n1(1) pow_odd_even [of "mpz_val x" "dval n"] by simp
      moreover have "mpz_pow_loop dest x n = mpz_pow_loop d y ?n"
        using False d(1) ne y(1) by (subst mpz_pow_loop.simps) simp
      ultimately show ?thesis by simp
    qed
  qed
qed

lemma mpz_pow_inpl_correct:
  assumes "mpz_wf lhs" "mpz_wf rhs" "\<not> fixed_dig dest" "\<not> neg rhs" "dig lhs \<noteq> [] \<or> dig rhs \<noteq> []"
  shows "yields (mpz_pow_inpl dest lhs rhs) (mpz_val lhs ^ dval (dig rhs))"
proof -
  consider "dig lhs = []" | "dig lhs \<noteq> []" "dig rhs = []" | "dig lhs \<noteq> []" "dig rhs \<noteq> []" by blast
  then show ?thesis
  proof cases
    case 1
    then have "0 < dval (dig rhs)" using assms(2,5) dval_0_normalised [of "dig rhs"] by (auto simp: mpz_wf_def)
    then show ?thesis using 1 mpz_set_from_int_correct [OF assms(3), of 0]
      by (simp add: mpz_pow_inpl_def mpz_val_def zero_power)
  next
    case 2
    then show ?thesis using assms(4) mpz_set_from_int_correct [OF assms(3), of 1]
      by (simp add: mpz_pow_inpl_def)
  next
    case 3
    obtain d where d: "mpz_set_from_int dest 1 = Some d" "mpz_wf d" "\<not> fixed_dig d" "mpz_val d = 1"
      using mpz_set_from_int_correct [OF assms(3), of 1] by (auto elim: yieldsE)
    let ?x = "lhs\<lparr>fixed_dig := False\<rparr>"
    have "yields (mpz_pow_loop d ?x (dig rhs)) (mpz_val d * mpz_val ?x ^ dval (dig rhs))"
      using assms d by (intro mpz_pow_loop_correct) (auto simp: mpz_wf_def)
    then show ?thesis using 3 assms(4) d mpz_clone_ok [OF assms(1)] mpz_clone_ok [OF assms(2)]
      by (simp add: mpz_pow_inpl_def mpz_val_def)
  qed
qed

section \<open>Power modulo a number\<close>

lemma mod_mul_pow:
  "(a * (b mod m) ^ k) mod m = (a * b ^ k) mod (m::int)"
  "(a mod m * (b mod m) ^ k) mod m = (a * b ^ k) mod (m::int)"
proof -
  have "(a * (b mod m) ^ k) mod m = (a * ((b mod m) ^ k mod m)) mod m" by (simp only: mod_mult_right_eq)
  also have "\<dots> = (a * b ^ k) mod m" by (simp only: power_mod mod_mult_right_eq)
  finally show "(a * (b mod m) ^ k) mod m = (a * b ^ k) mod m" .
  then show "(a mod m * (b mod m) ^ k) mod m = (a * b ^ k) mod m" by (simp only: mod_mult_left_eq)
qed

lemma mpz_pow3_loop_correct:
  assumes md: "mpz_wf md" "dig md \<noteq> []" "div_safe (dig md)"
  shows "digits_ok n \<Longrightarrow> normalised n \<Longrightarrow> n \<noteq> [] \<Longrightarrow> mpz_wf dest \<Longrightarrow> mpz_wf x \<Longrightarrow> \<not> fixed_dig dest \<Longrightarrow>
   \<not> fixed_dig x \<Longrightarrow> \<not> fixed_dig quo \<Longrightarrow>
   yields (mpz_pow3_loop quo dest x n md) ((mpz_val dest * mpz_val x ^ dval n) mod mpz_val md)"
proof (induction "dval n" arbitrary: n dest x quo rule: less_induct)
  case less
  have pos: "0 < dval n" using less.prems(3) dval_0_normalised [OF less.prems(2)] by simp
  let ?n = "mpn_shr n 1"
  have n1: "dval ?n = dval n div 2" "digits_ok ?n" "normalised ?n"
    using mpn_shr_correct [OF less.prems(1,2), of 1] by auto
  obtain q d where qd: "(if odd (dval n) then
           Option.bind (mpz_mul_inpl True False dest dest x) (\<lambda>d. mpz_divmod_inpl quo d d md)
         else Some (quo, dest)) = Some (q, d)" "mpz_wf d" "\<not> fixed_dig d" "\<not> fixed_dig q"
    "mpz_val d = (if odd (dval n) then (mpz_val dest * mpz_val x) mod mpz_val md else mpz_val dest)"
  proof (cases "odd (dval n)")
    case True
    obtain e where e: "mpz_mul_inpl True False dest dest x = Some e" "mpz_wf e" "\<not> fixed_dig e"
      "mpz_val e = mpz_val dest * mpz_val x"
      using mpz_mul_inpl_correct [OF less.prems(4,5,6), of True False] by (auto elim: yieldsE)
    from mpz_divmod_inpl_correct [OF e(2) md(1) less.prems(8) e(3) md(2,3)] e(1,4) True that
    show thesis by auto
  next
    case False
    with that less.prems show thesis by auto
  qed
  note qd1 = qd(1) [folded odd_dval [OF less.prems(3)]]
  show ?case
  proof (cases "?n = []")
    case True
    then have "dval n div 2 = 0" using n1(1) by simp
    with pos have "dval n = 1" by simp
    then show ?thesis using less.prems(3) qd1 qd True by (subst mpz_pow3_loop.simps) (auto intro: yieldsI)
  next
    case ne: False
    obtain y where y: "mpz_mul_inpl True True x x x = Some y" "mpz_wf y" "\<not> fixed_dig y"
      "mpz_val y = mpz_val x * mpz_val x"
      using mpz_mul_inpl_correct [OF less.prems(5,5,7), of True True] by (auto elim: yieldsE)
    obtain q' z where z: "mpz_divmod_inpl q y y md = Some (q', z)" "mpz_wf z" "\<not> fixed_dig z" "\<not> fixed_dig q'"
      "mpz_val z = mpz_val x * mpz_val x mod mpz_val md"
      using mpz_divmod_inpl_correct [OF y(2) md(1) qd(4) y(3) md(2,3)] y(4) by auto
    have "yields (mpz_pow3_loop q' d z ?n md) ((mpz_val d * mpz_val z ^ dval ?n) mod mpz_val md)"
      using n1 qd z pos ne by (intro less.hyps) auto
    moreover have "mpz_val d * mpz_val z ^ dval ?n mod mpz_val md =
        (mpz_val dest * (if odd (dval n) then mpz_val x else 1)) * (mpz_val x * mpz_val x) ^ (dval n div 2) mod mpz_val md"
      unfolding qd(5) z(5) n1(1) by (simp add: mod_mul_pow mod_mult_left_eq)
    moreover have "(mpz_val dest * (if odd (dval n) then mpz_val x else 1)) * (mpz_val x * mpz_val x) ^ (dval n div 2) =
        mpz_val dest * mpz_val x ^ dval n"
      using pow_odd_even [of "mpz_val x" "dval n"] by simp
    moreover have "mpz_pow3_loop quo dest x n md = mpz_pow3_loop q' d z ?n md"
      using less.prems(3) qd1 ne y(1) z(1) by (subst mpz_pow3_loop.simps) simp
    ultimately show ?thesis by simp
  qed
qed

lemma normalised_one:
  assumes "digits_ok ds" "normalised ds" "0 < dval ds" "\<not> (length ds = 1 \<and> ds ! 0 = 1)"
  shows "1 < dval ds"
proof (cases "length ds \<le> 1")
  case True
  with assms(3,4) show ?thesis by (cases ds) auto
next
  case False
  have "1 < DIG_BASE" by (rule DIG_BASE_gt1)
  also have "\<dots> \<le> DIG_BASE ^ (length ds - 1)" using False DIG_BASE_gt1 by (intro self_le_power) auto
  also have "\<dots> \<le> dval ds" using False assms(2) by (intro dval_ge) auto
  finally show ?thesis .
qed

lemma mpz_pow3_inpl_correct:
  assumes "mpz_wf lhs" "mpz_wf rhs" "mpz_wf md" "\<not> fixed_dig dest" "\<not> neg rhs"
    "dig lhs \<noteq> [] \<or> dig rhs \<noteq> []" and md: "0 < mpz_val md" "div_safe (dig md)"
  shows "yields (mpz_pow3_inpl False False dest lhs rhs md) (mpz_val lhs ^ dval (dig rhs) mod mpz_val md)"
proof -
  have mdne: "dig md \<noteq> []" using md(1) by (auto simp: mpz_val_def)
  have dm: "mpz_val md = int (dval (dig md))" using md(1) by (auto simp: mpz_val_def sval_def split: if_splits)
  have mdone: "mlen md = 1 \<and> dig md ! 0 = 1 \<Longrightarrow> mpz_val md = 1"
    unfolding dm by (cases "dig md") auto
  have gt1: "\<not> (mlen md = 1 \<and> dig md ! 0 = 1) \<Longrightarrow> 1 < mpz_val md"
    using normalised_one [of "dig md"] assms(3) md(1) unfolding dm by (auto simp: mpz_wf_def)
  obtain d where d: "mpz_set_from_int dest 1 = Some d" "mpz_wf d" "\<not> fixed_dig d" "mpz_val d = 1"
    using mpz_set_from_int_correct [OF assms(4), of 1] by (auto elim: yieldsE)
  let ?x = "lhs\<lparr>fixed_dig := False\<rparr>"
  consider (zero) "dig lhs = []" | (one) "dig lhs \<noteq> []" "mlen md = 1 \<and> dig md ! 0 = 1"
    | (exp0) "dig lhs \<noteq> []" "\<not> (mlen md = 1 \<and> dig md ! 0 = 1)" "dig rhs = []"
    | (run) "dig lhs \<noteq> []" "\<not> (mlen md = 1 \<and> dig md ! 0 = 1)" "dig rhs \<noteq> []" by blast
  then show ?thesis
  proof cases
    case zero
    then have "0 < dval (dig rhs)" using assms(2,6) dval_0_normalised [of "dig rhs"] by (auto simp: mpz_wf_def)
    then show ?thesis using zero mpz_set_from_int_correct [OF assms(4), of 0]
      by (simp add: mpz_pow3_inpl_def mpz_val_def [of lhs] zero_power)
  next
    case one
    then show ?thesis using mpz_set_from_int_correct [OF assms(4), of 0] mdone
      by (simp add: mpz_pow3_inpl_def)
  next
    case exp0
    then show ?thesis using gt1 d assms(5) by (auto simp: mpz_pow3_inpl_def intro!: yieldsI)
  next
    case run
    have "yields (mpz_pow3_loop mpz_init_zero d ?x (dig rhs) md)
        ((mpz_val d * mpz_val ?x ^ dval (dig rhs)) mod mpz_val md)"
      using assms d run mdne by (intro mpz_pow3_loop_correct) (auto simp: mpz_wf_def mpz_init_zero_def)
    then show ?thesis using run assms(5) d mpz_clone_ok [OF assms(1)] mpz_clone_ok [OF assms(2)]
      by (auto simp: mpz_pow3_inpl_def mpz_val_def [of ?x] mpz_val_def [of lhs])
  qed
qed

text \<open>With the base as destination, as its comment allows, the result is one for every base.\<close>

lemma mpz_pow3_inpl_same:
  assumes "mpz_wf lhs" "mpz_wf rhs" "mpz_wf md" "\<not> fixed_dig lhs" "\<not> neg rhs"
    "dig lhs \<noteq> []" "dig rhs \<noteq> []" and md: "1 < mpz_val md" "div_safe (dig md)"
  shows "yields (mpz_pow3_inpl True False lhs lhs rhs md) 1"
proof -
  have mdne: "dig md \<noteq> []" using md(1) by (auto simp: mpz_val_def)
  have dm: "mpz_val md = int (dval (dig md))" using md(1) by (auto simp: mpz_val_def sval_def split: if_splits)
  have ne1: "\<not> (mlen md = 1 \<and> dig md ! 0 = 1)" using md(1) unfolding dm by (cases "dig md") auto
  obtain d where d: "mpz_set_from_int lhs 1 = Some d" "mpz_wf d" "\<not> fixed_dig d" "mpz_val d = 1"
    using mpz_set_from_int_correct [OF assms(4), of 1] by (auto elim: yieldsE)
  then have dne: "dig d \<noteq> []" by (auto simp: mpz_val_def)
  let ?x = "d\<lparr>fixed_dig := False\<rparr>"
  have "yields (mpz_pow3_loop mpz_init_zero d ?x (dig rhs) md)
      ((mpz_val d * mpz_val ?x ^ dval (dig rhs)) mod mpz_val md)"
    using assms d mdne by (intro mpz_pow3_loop_correct) (auto simp: mpz_wf_def mpz_init_zero_def)
  then show ?thesis using assms(5-8) d ne1 mpz_clone_ok [OF d(2) dne] mpz_clone_ok [OF assms(2)]
    by (auto simp: mpz_pow3_inpl_def mpz_val_def [of ?x] mpz_val_def [of d])
qed

text \<open>Zero to the power of zero is zero, not one.\<close>

lemma mpz_pow_inpl_zero_zero:
  assumes "dig lhs = []" "dig rhs = []" "\<not> fixed_dig dest"
  shows "yields (mpz_pow_inpl dest lhs rhs) 0"
  using assms mpz_set_from_int_correct [OF assms(3), of 0] by (simp add: mpz_pow_inpl_def)

end
