(* ===== verification/Mpz_Conv.thy ===== *)
theory Mpz_Conv
  imports Mpz
begin

unbundle bit_operations_syntax

text \<open>
  Conversions of big integers: to machine integers (\<open>mpz_hash\<close>, \<open>mpz_as_int_checked\<close>,
  \<open>mpz_as_uint_checked\<close>), from and to text (\<open>mpz_set_from_str\<close>, \<open>mpz_as_str_inpl\<close>) and from and
  to bytes (\<open>mpz_set_from_bytes\<close>, \<open>mpz_as_bytes\<close>) of \<open>py/mpz.c\<close>. Characters and bytes are their
  codes. A write outside the buffer of \<open>mpz_as_bytes\<close> is the result \<open>None\<close>.
\<close>

section \<open>Operations\<close>

text \<open>Conversions to machine integers, most significant digit first.\<close>

fun mpz_hash_loop :: "32 word \<Rightarrow> nat list \<Rightarrow> 32 word" where
  "mpz_hash_loop val [] = val"
| "mpz_hash_loop val (d # ds) = mpz_hash_loop (push_bit DIG_SIZE val OR of_nat d) ds"

definition mpz_hash :: "mpz \<Rightarrow> 32 word" where
  "mpz_hash z = (let val = mpz_hash_loop 0 (rev (dig z)) in if neg z then - val else val)"

definition WORD_MSBIT_HIGH :: "32 word" where
  "WORD_MSBIT_HIGH = push_bit 31 1"

fun mpz_checked_loop :: "32 word \<Rightarrow> 32 word \<Rightarrow> nat list \<Rightarrow> 32 word option" where
  "mpz_checked_loop lim val [] = Some val"
| "mpz_checked_loop lim val (d # ds) =
     (if val > lim then None
      else mpz_checked_loop lim (push_bit DIG_SIZE val OR of_nat d) ds)"

definition mpz_as_int_checked :: "mpz \<Rightarrow> 32 word option" where
  "mpz_as_int_checked i =
     map_option (\<lambda>val. if neg i then - val else val)
       (mpz_checked_loop (drop_bit DIG_SIZE (NOT WORD_MSBIT_HIGH)) 0 (rev (dig i)))"

definition mpz_as_uint_checked :: "mpz \<Rightarrow> 32 word option" where
  "mpz_as_uint_checked i =
     (if neg i then None
      else mpz_checked_loop (drop_bit (DIG_SIZE - 1) (NOT WORD_MSBIT_HIGH)) 0 (rev (dig i)))"

text \<open>The value of a digit character.\<close>

definition char_value :: "nat \<Rightarrow> nat option" where
  "char_value v =
     (if 48 \<le> v \<and> v \<le> 57 then Some (v - 48)
      else if 65 \<le> v \<and> v \<le> 90 then Some (v - (65 - 10))
      else if 97 \<le> v \<and> v \<le> 122 then Some (v - (97 - 10))
      else None)"

fun mpz_set_from_str_loop :: "nat \<Rightarrow> nat list \<Rightarrow> nat list \<Rightarrow> nat list \<times> nat" where
  "mpz_set_from_str_loop base ds [] = (ds, 0)"
| "mpz_set_from_str_loop base ds (c # cs) =
     (case char_value c of
        None \<Rightarrow> (ds, 0)
      | Some v \<Rightarrow>
          if v \<ge> base then (ds, 0)
          else let (ds', n) = mpz_set_from_str_loop base (mpn_mul_dig_add_dig ds base v) cs
               in (ds', Suc n))"

text \<open>The number set, and the number of characters read.\<close>

definition mpz_set_from_str :: "mpz \<Rightarrow> nat list \<Rightarrow> bool \<Rightarrow> nat \<Rightarrow> (mpz \<times> nat) option" where
  "mpz_set_from_str z str ng base =
     (if base \<le> 36 then
        map_option (\<lambda>z. let (ds, n) = mpz_set_from_str_loop base [] str
                        in (z\<lparr>neg := ng, dig := ds\<rparr>, n))
          (mpz_need_dig z (length str * 8 div DIG_SIZE + 1))
      else None)"

text \<open>One pass of \<open>mpz_as_str_inpl\<close>: divide the digits, given from the top, by the base.\<close>

fun str_div_digits :: "nat \<Rightarrow> nat \<Rightarrow> nat list \<Rightarrow> nat list \<times> nat" where
  "str_div_digits base a [] = ([], a)"
| "str_div_digits base a (d # ds) =
     (let a = dbl (push_bit DIG_SIZE a) OR d;
          (q, r) = str_div_digits base (a mod base) ds
      in (Mpn.dig (a div base) # q, r))"

definition str_char :: "nat \<Rightarrow> nat \<Rightarrow> nat" where
  "str_char base_char a = (let a = a + 48 in (if a > 57 then a + base_char - 57 - 1 else a) mod 256)"

text \<open>The characters in the order they are written, least significant first.\<close>

partial_function (option) mpz_as_str_loop ::
  "nat \<Rightarrow> nat \<Rightarrow> nat \<Rightarrow> nat list \<Rightarrow> nat list \<Rightarrow> nat \<Rightarrow> nat list option" where
  "mpz_as_str_loop base base_char comma ds s last_comma =
     (let (q, a) = str_div_digits base 0 (rev ds);
          s = s @ [str_char base_char a];
          fin = (\<forall>d \<in> set q. d = 0);
          (s, last_comma) = (if comma \<noteq> 0 \<and> length s - last_comma = 3
             then (s @ [comma], length s + 1) else (s, last_comma))
      in if fin then Some s else mpz_as_str_loop base base_char comma (rev q) s last_comma)"

definition mpz_as_str_inpl :: "mpz \<Rightarrow> nat \<Rightarrow> nat list \<Rightarrow> nat \<Rightarrow> nat \<Rightarrow> nat list option" where
  "mpz_as_str_inpl i base prefix base_char comma =
     (if \<not> (2 \<le> base \<and> base \<le> 32) then None
      else if mlen i = 0 then Some (prefix @ [48])
      else map_option (\<lambda>s. rev (s @ rev prefix @ (if neg i then [45] else [])))
        (mpz_as_str_loop base base_char comma (dig i) [] 0))"

text \<open>Bytes to digits: the inner loop fills one digit.\<close>

fun from_bytes_inner :: "nat \<Rightarrow> nat \<Rightarrow> nat list \<Rightarrow> nat \<times> nat list" where
  "from_bytes_inner d num_bits [] = (d, [])"
| "from_bytes_inner d num_bits (b # bs) =
     (if num_bits < DIG_SIZE then from_bytes_inner (Mpn.dig (d OR push_bit num_bits b)) (num_bits + 8) bs
      else (d, b # bs))"

lemma from_bytes_inner_shorter:
  "length (snd (from_bytes_inner d n bs)) \<le> length bs"
  by (induction d n bs rule: from_bytes_inner.induct) auto

function from_bytes_outer :: "nat list \<Rightarrow> nat list" where
  "from_bytes_outer [] = []"
| "from_bytes_outer (b # bs) =
     (let (d, rest) = from_bytes_inner 0 0 (b # bs) in (d AND DIG_MASK) # from_bytes_outer rest)"
  by pat_completeness auto
termination
proof (relation "measure length")
  fix b bs x d rest
  assume "x = from_bytes_inner 0 0 (b # bs)" "(d, rest) = x"
  then have "rest = snd (from_bytes_inner (Mpn.dig (0 OR push_bit 0 b)) (0 + 8) bs)"
    by (metis DIG_SIZE_def from_bytes_inner.simps(2) snd_conv zero_less_numeral)
  then show "(rest, b # bs) \<in> measure length"
    using from_bytes_inner_shorter [of "Mpn.dig (0 OR push_bit 0 b)" "0 + 8" bs] by simp
qed simp

definition mpz_set_from_bytes :: "mpz \<Rightarrow> bool \<Rightarrow> nat list \<Rightarrow> mpz option" where
  "mpz_set_from_bytes z big_endian buf =
     (let bs = (if big_endian then rev buf else buf);
          ds = from_bytes_outer bs
      in map_option (\<lambda>z. z\<lparr>neg := False, dig := take (mpn_remove_trailing_zeros ds (length ds)) ds\<rparr>)
           (mpz_need_dig z ((length buf * 8 + DIG_SIZE - 1) div DIG_SIZE)))"

text \<open>
  Digits to bytes: the bytes of one digit, until \<open>room\<close> bytes have been written. The result is
  the bytes, the room left, the rest of \<open>d\<close> and the carry of the complement.
\<close>

fun as_bytes_inner :: "bool \<Rightarrow> nat \<Rightarrow> nat \<Rightarrow> nat \<Rightarrow> nat \<Rightarrow> (nat list \<times> nat \<times> nat \<times> nat) option" where
  "as_bytes_inner ng room bits d carry =
     (if bits \<ge> 8 then
        (if room = 0 then None
         else let val = Mpn.dig d;
                  val = (if ng then Mpn.dig (nat (NOT (int val) AND 0xff) + carry) else val);
                  carry = (if ng then drop_bit 8 val else carry)
              in if room = 1 then Some ([val mod 256], 0, d, carry)
                 else map_option (\<lambda>(bs, x). (val mod 256 # bs, x))
                   (as_bytes_inner ng (room - 1) (bits - 8) (drop_bit 8 d) carry))
      else Some ([], room, d, carry))"

fun as_bytes_loop :: "bool \<Rightarrow> nat \<Rightarrow> nat \<Rightarrow> nat \<Rightarrow> nat \<Rightarrow> nat list \<Rightarrow> nat list option" where
  "as_bytes_loop ng room bits d carry [] = Some []"
| "as_bytes_loop ng room bits d carry (z # zs) =
     Option.bind (as_bytes_inner ng room (bits + DIG_SIZE) (dbl (push_bit DIG_SIZE d) OR z) carry)
       (\<lambda>(bs, room', d', carry').
          if room' = 0 then Some bs
          else map_option (\<lambda>r. bs @ r)
            (as_bytes_loop ng room' ((bits + DIG_SIZE) mod 8) d' carry' zs))"

definition mpz_as_bytes :: "mpz \<Rightarrow> bool \<Rightarrow> nat list \<Rightarrow> nat list option" where
  "mpz_as_bytes z big_endian buf =
     map_option
       (\<lambda>ws. if big_endian then take (length buf - length ws) buf @ rev ws
             else ws @ drop (length ws) buf)
       (as_bytes_loop (neg z) (length buf) 0 0 1 (dig z))"

declare as_bytes_inner.simps [simp del]

section \<open>Machine integers\<close>

lemma word_shift_or:
  assumes "d < DIG_BASE"
  shows "push_bit DIG_SIZE v OR of_nat d = v * of_nat DIG_BASE + (of_nat d :: 32 word)"
proof -
  have "\<not> bit (of_nat d :: 32 word) n" if "DIG_SIZE \<le> n" for n
    using that bit_digit [OF assms, of n] by (simp add: bit_of_nat_iff)
  then have "push_bit DIG_SIZE v AND (of_nat d :: 32 word) = 0"
    by (intro bit_eqI) (auto simp: bit_simps not_le)
  then have "push_bit DIG_SIZE v OR of_nat d = push_bit DIG_SIZE v + (of_nat d :: 32 word)"
    by (rule disjunctive_add_eq_or [symmetric])
  then show ?thesis by (simp add: push_bit_eq_mult DIG_BASE_def)
qed

lemma mpz_hash_loop_correct:
  "digits_ok ms \<Longrightarrow> mpz_hash_loop (of_nat a) ms = of_nat (a * DIG_BASE ^ length ms + dval (rev ms))"
proof (induction ms arbitrary: a)
  case (Cons d ms)
  have "push_bit DIG_SIZE (of_nat a) OR of_nat d = (of_nat (a * DIG_BASE + d) :: 32 word)"
    using Cons.prems by (simp add: word_shift_or)
  then have "mpz_hash_loop (of_nat a) (d # ms) = mpz_hash_loop (of_nat (a * DIG_BASE + d)) ms"
    by (simp del: of_nat_add of_nat_mult)
  also have "\<dots> = of_nat ((a * DIG_BASE + d) * DIG_BASE ^ length ms + dval (rev ms))"
    using Cons by (simp del: of_nat_add of_nat_mult)
  finally show ?case by (simp add: dval_append algebra_simps)
qed simp

text \<open>The hash is the value, reduced to the width of a machine integer.\<close>

lemma mpz_hash_correct:
  assumes "mpz_wf z"
  shows "mpz_hash z = word_of_int (mpz_val z)"
proof -
  have "mpz_hash_loop 0 (rev (dig z)) = of_nat (dval (dig z))"
    using mpz_hash_loop_correct [of "rev (dig z)" 0] assms by (simp add: mpz_wf_def)
  then show ?thesis by (simp add: mpz_hash_def mpz_val_def sval_def)
qed

lemma mpz_checked_loop_correct:
  assumes lim: "unat lim + 1 = K" "K * DIG_BASE \<le> 2 ^ 32"
  shows "digits_ok ms \<Longrightarrow> a < K * DIG_BASE \<Longrightarrow>
    mpz_checked_loop lim (of_nat a) ms =
      (if a * DIG_BASE ^ length ms + dval (rev ms) < K * DIG_BASE
       then Some (of_nat (a * DIG_BASE ^ length ms + dval (rev ms))) else None)"
proof (induction ms arbitrary: a)
  case (Cons d ms)
  let ?T = "a * DIG_BASE ^ length (d # ms) + dval (rev (d # ms))"
  have ua: "unat (of_nat a :: 32 word) = a" using Cons.prems(2) lim(2) by (simp add: unat_of_nat)
  have gt: "of_nat a > lim \<longleftrightarrow> K \<le> a" using ua lim(1) by (auto simp: word_less_nat_alt)
  show ?case
  proof (cases "K \<le> a")
    case True
    have "K * DIG_BASE \<le> a * DIG_BASE ^ length (d # ms)"
      using True DIG_BASE_gt1 by (intro mult_le_mono) (auto simp: self_le_power)
    then have "\<not> ?T < K * DIG_BASE" by linarith
    then show ?thesis using True gt by (simp only: mpz_checked_loop.simps if_True if_False)
  next
    case False
    have d: "d < DIG_BASE" using Cons.prems by simp
    have "Suc a * DIG_BASE \<le> K * DIG_BASE" using False by (intro mult_le_mono1) simp
    then have lt: "a * DIG_BASE + d < K * DIG_BASE" using d by simp
    have "push_bit DIG_SIZE (of_nat a) OR of_nat d = (of_nat (a * DIG_BASE + d) :: 32 word)"
      using d by (simp add: word_shift_or)
    then have "mpz_checked_loop lim (of_nat a) (d # ms) = mpz_checked_loop lim (of_nat (a * DIG_BASE + d)) ms"
      using False gt by (simp del: of_nat_add of_nat_mult)
    moreover have "(a * DIG_BASE + d) * DIG_BASE ^ length ms + dval (rev ms) = ?T"
      by (simp add: dval_append algebra_simps)
    ultimately show ?thesis using Cons.IH [OF _ lt] Cons.prems by (simp del: of_nat_add of_nat_mult)
  qed
qed simp

lemma mpz_as_int_checked_correct:
  assumes "mpz_wf z"
  shows "mpz_as_int_checked z = (if \<bar>mpz_val z\<bar> < 2 ^ 31 then Some (word_of_int (mpz_val z)) else None)"
proof -
  have "unat (drop_bit DIG_SIZE (NOT WORD_MSBIT_HIGH)) + 1 = 32768"
    by (simp add: WORD_MSBIT_HIGH_def DIG_SIZE_def)
  then show ?thesis
    using mpz_checked_loop_correct [of _ 32768 "rev (dig z)" 0] assms mpz_val_abs [of z]
    by (auto simp: mpz_as_int_checked_def mpz_wf_def mpz_val_def sval_def DIG_BASE_eq)
qed

lemma mpz_as_uint_checked_correct:
  assumes "mpz_wf z"
  shows "mpz_as_uint_checked z = (if \<not> neg z \<and> mpz_val z < 2 ^ 32 then Some (word_of_int (mpz_val z)) else None)"
proof -
  have "unat (drop_bit (DIG_SIZE - 1) (NOT WORD_MSBIT_HIGH)) + 1 = 65536"
    by (simp add: WORD_MSBIT_HIGH_def DIG_SIZE_def)
  then show ?thesis
    using mpz_checked_loop_correct [of _ 65536 "rev (dig z)" 0] assms
    by (auto simp: mpz_as_uint_checked_def mpz_wf_def mpz_val_def sval_def DIG_BASE_eq)
qed

section \<open>Text\<close>

text \<open>The number that a list of digits to a base stands for, least significant first.\<close>

fun pval :: "nat \<Rightarrow> nat list \<Rightarrow> nat" where
  "pval b [] = 0"
| "pval b (d # ds) = d + b * pval b ds"

lemma pval_append: "pval b (ds @ es) = pval b ds + b ^ length ds * pval b es"
  by (induction ds) (auto simp: algebra_simps)

lemma pval_less: "\<forall>d \<in> set ds. d < b \<Longrightarrow> pval b ds < b ^ length ds"
proof (induction ds)
  case (Cons d ds)
  then have "d + b * pval b ds < b * Suc (pval b ds)" by simp
  also have "\<dots> \<le> b * b ^ length ds" using Cons by (intro mult_le_mono2) simp
  finally show ?case by simp
qed simp

definition is_digit :: "nat \<Rightarrow> nat \<Rightarrow> bool" where
  "is_digit base c \<longleftrightarrow> (case char_value c of None \<Rightarrow> False | Some v \<Rightarrow> v < base)"

definition digit_of :: "nat \<Rightarrow> nat" where
  "digit_of c = the (char_value c)"

text \<open>The number a string of digits stands for, most significant first.\<close>

definition str_value :: "nat \<Rightarrow> nat list \<Rightarrow> nat" where
  "str_value base cs = pval base (rev (map digit_of cs))"

lemma str_value_Cons: "str_value base (c # cs) = digit_of c * base ^ length cs + str_value base cs"
  by (simp add: str_value_def pval_append)

lemma str_value_less:
  "\<forall>c \<in> set cs. is_digit base c \<Longrightarrow> str_value base cs < base ^ length cs"
  using pval_less [of "rev (map digit_of cs)" base]
  by (auto simp: str_value_def is_digit_def digit_of_def split: option.splits)

lemma mpz_set_from_str_loop_correct:
  assumes "0 < base" "base \<le> 36"
  shows "digits_ok ds \<Longrightarrow> normalised ds \<Longrightarrow> mpz_set_from_str_loop base ds cs = (ds', n) \<Longrightarrow>
    n = length (takeWhile (is_digit base) cs) \<and> digits_ok ds' \<and> normalised ds' \<and>
    dval ds' = dval ds * base ^ n + str_value base (takeWhile (is_digit base) cs)"
proof (induction cs arbitrary: ds ds' n)
  case Nil
  then show ?case by (simp add: str_value_def)
next
  case (Cons c cs)
  show ?case
  proof (cases "is_digit base c")
    case False
    then have "mpz_set_from_str_loop base ds (c # cs) = (ds, 0)"
      by (auto simp: is_digit_def split: option.splits)
    then show ?thesis using Cons.prems False by (simp add: str_value_def)
  next
    case True
    then obtain v where v: "char_value c = Some v" "v < base" "digit_of c = v"
      by (auto simp: is_digit_def digit_of_def split: option.splits)
    let ?ds = "mpn_mul_dig_add_dig ds base v"
    have b: "base < DIG_BASE" "v < DIG_BASE" using assms v by (auto simp: DIG_BASE_eq)
    have d: "dval ?ds = dval ds * base + v" "digits_ok ?ds" "normalised ?ds"
      using mpn_mul_dig_add_dig_correct [OF Cons.prems(1) b(2,1)]
        mpn_mul_dig_add_dig_normalised [OF Cons.prems(1,2) b(2,1) assms(1)] by auto
    obtain e m where rec: "mpz_set_from_str_loop base ?ds cs = (e, m)" by (rule prod.exhaust)
    have en: "ds' = e" "n = Suc m" using Cons.prems(3) v rec by auto
    note IH = Cons.IH [OF d(2,3) rec]
    show ?thesis using IH en True v(3) d(1) by (simp add: str_value_Cons algebra_simps)
  qed
qed

text \<open>Reading a number: the longest prefix of digits, and its value.\<close>

lemma str_room: "base \<le> 36 \<Longrightarrow> base ^ n < DIG_BASE ^ (n * 8 div DIG_SIZE + 1)"
proof -
  assume "base \<le> 36"
  then have "base ^ n \<le> (2 ^ 8) ^ n" by (intro power_mono) auto
  also have "\<dots> = 2 ^ (n * 8)" by (simp only: power_mult [symmetric] mult.commute)
  also have "\<dots> < 2 ^ (DIG_SIZE * (n * 8 div DIG_SIZE + 1))"
    by (intro power_strict_increasing) (auto simp: DIG_SIZE_def)
  finally show ?thesis by (simp only: power_DIG_SIZE)
qed

lemma mpz_set_from_str_correct:
  assumes "\<not> fixed_dig dest" "0 < base" "base \<le> 36"
  shows "\<exists>d. mpz_set_from_str dest str ng base = Some (d, length (takeWhile (is_digit base) str)) \<and>
    mpz_wf d \<and> \<not> fixed_dig d \<and>
    mpz_val d = (if ng then -1 else 1) * int (str_value base (takeWhile (is_digit base) str))"
proof -
  let ?p = "takeWhile (is_digit base) str"
  obtain ds n where loop: "mpz_set_from_str_loop base [] str = (ds, n)" by (rule prod.exhaust)
  have r: "n = length ?p" "digits_ok ds" "normalised ds" "dval ds = str_value base ?p"
    using mpz_set_from_str_loop_correct [OF assms(2,3) _ _ loop] by auto
  obtain al where al: "mpz_need_dig dest (length str * 8 div DIG_SIZE + 1) = Some (dest\<lparr>alloc := al\<rparr>)"
    "length str * 8 div DIG_SIZE + 1 \<le> al" using mpz_need_dig_ok [OF assms(1)] .
  have "dval ds < base ^ length ?p" unfolding r(4) by (rule str_value_less) (auto dest: set_takeWhileD)
  also have "\<dots> \<le> base ^ length str" using assms(2) by (intro power_increasing) (auto simp: length_takeWhile_le)
  also have "\<dots> < DIG_BASE ^ (length str * 8 div DIG_SIZE + 1)" using assms(3) by (rule str_room)
  finally have "length ds \<le> al" using normalised_length [OF r(3)] al(2) by (meson le_trans)
  then show ?thesis using al(1) assms r loop
    by (auto simp: mpz_set_from_str_def mpz_wf_def mpz_val_def sval_def)
qed

text \<open>Writing a number.\<close>

lemma str_div_digits_correct:
  assumes "2 \<le> base" "base \<le> 32"
  shows "digits_ok ms \<Longrightarrow> a < base \<Longrightarrow> str_div_digits base a ms = (q, r) \<Longrightarrow>
    dval (rev q) * base + r = a * DIG_BASE ^ length ms + dval (rev ms) \<and> r < base \<and>
    digits_ok q \<and> length q = length ms"
proof (induction ms arbitrary: a q r)
  case (Cons d ms)
  let ?a = "a * DIG_BASE + d"
  have d: "d < DIG_BASE" using Cons.prems by simp
  have "a * DIG_BASE < DIG_BASE * DIG_BASE" using Cons.prems(2) assms(2) by (simp add: DIG_BASE_eq)
  then have a: "dbl (push_bit DIG_SIZE a) OR d = ?a" using or_low_high [OF d, of a] by (simp only: push_bit_DIG_SIZE dbl_id)
  have "Suc a * DIG_BASE \<le> base * DIG_BASE" using Cons.prems(2) by (intro mult_le_mono1) simp
  then have "?a < DIG_BASE * base" using d by (simp add: mult.commute)
  then have qd: "?a div base < DIG_BASE" by (rule less_mult_imp_div_less)
  obtain q' r' where rec: "str_div_digits base (?a mod base) ms = (q', r')" by (rule prod.exhaust)
  have q: "q = ?a div base # q'" "r = r'"
    using Cons.prems(3) rec a qd by (simp_all add: Let_def dig_eq)
  have lt: "?a mod base < base" using assms(1) by simp
  have IH: "dval (rev q') * base + r' = (?a mod base) * DIG_BASE ^ length ms + dval (rev ms)" "r' < base"
    "digits_ok q'" "length q' = length ms"
    using Cons.IH [OF _ lt rec] Cons.prems(1) by auto
  have "dval (rev q) * base + r = (dval (rev q') * base + r') + DIG_BASE ^ length ms * (?a div base) * base"
    using q IH(4) by (simp add: dval_append algebra_simps)
  also have "\<dots> = DIG_BASE ^ length ms * (?a div base * base + ?a mod base) + dval (rev ms)"
    unfolding IH(1) by (simp only: distrib_left) (simp add: mult_ac)
  also have "\<dots> = a * DIG_BASE ^ length (d # ms) + dval (rev (d # ms))"
    by (simp add: dval_append algebra_simps)
  finally show ?case using q qd IH by simp
qed simp

lemma str_char_digit: "a < 32 \<Longrightarrow> char_value (str_char 97 a) = Some a"
  by (auto simp: str_char_def char_value_def Let_def)

lemma mpz_as_str_loop_correct:
  assumes "2 \<le> base" "base \<le> 32"
  shows "digits_ok ds \<Longrightarrow>
    \<exists>os. mpz_as_str_loop base 97 0 ds s lc = Some (s @ os) \<and> (\<forall>c \<in> set os. is_digit base c) \<and>
      pval base (map digit_of os) = dval ds"
proof (induction "dval ds" arbitrary: ds s rule: less_induct)
  case less
  obtain q a where qa: "str_div_digits base 0 (rev ds) = (q, a)" by (rule prod.exhaust)
  have q: "dval (rev q) * base + a = dval ds" "a < base" "digits_ok q"
    using str_div_digits_correct [OF assms _ _ qa] assms(1) less.prems by auto
  let ?c = "str_char 97 a"
  have c: "is_digit base ?c" "digit_of ?c = a"
    using str_char_digit [of a] q(2) assms(2) by (auto simp: is_digit_def digit_of_def)
  have fin: "(\<forall>d \<in> set q. d = 0) \<longleftrightarrow> dval (rev q) = 0" by (simp add: dval_eq_0_iff)
  show ?case
  proof (cases "dval (rev q) = 0")
    case True
    then have "mpz_as_str_loop base 97 0 ds s lc = Some (s @ [?c])"
      using fin by (subst mpz_as_str_loop.simps) (simp add: qa)
    then show ?thesis using c q(1) True by (intro exI [of _ "[?c]"]) simp
  next
    case False
    have "dval (rev q) * 1 < dval (rev q) * base" using False assms(1) by (intro mult_less_mono2) auto
    then have "dval (rev q) < dval ds" using q(1) by linarith
    from less.hyps [OF this, of "s @ [?c]"] q(3) obtain os where
      os: "mpz_as_str_loop base 97 0 (rev q) (s @ [?c]) lc = Some ((s @ [?c]) @ os)"
      "\<forall>c \<in> set os. is_digit base c" "pval base (map digit_of os) = dval (rev q)" by auto
    have "mpz_as_str_loop base 97 0 ds s lc = mpz_as_str_loop base 97 0 (rev q) (s @ [?c]) lc"
      using fin False by (subst mpz_as_str_loop.simps) (auto simp: qa Let_def)
    then show ?thesis using os c q(1) by (intro exI [of _ "?c # os"]) (simp add: mult.commute add.commute)
  qed
qed

text \<open>The text of a number is digits only, after a minus sign for a negative number, and has its value.\<close>

lemma mpz_as_str_inpl_correct:
  assumes "mpz_wf z" "2 \<le> base" "base \<le> 32"
  shows "\<exists>cs. mpz_as_str_inpl z base [] 97 0 = Some ((if mpz_is_neg z then [45] else []) @ cs) \<and>
    (\<forall>c \<in> set cs. is_digit base c) \<and> cs \<noteq> [] \<and> int (str_value base cs) = \<bar>mpz_val z\<bar>"
proof (cases "dig z = []")
  case True
  then show ?thesis using assms
    by (intro exI [of _ "[48]"])
      (simp add: mpz_as_str_inpl_def mpz_is_neg_def is_digit_def char_value_def str_value_def digit_of_def mpz_val_def)
next
  case False
  obtain os where os: "mpz_as_str_loop base 97 0 (dig z) [] 0 = Some os" "\<forall>c \<in> set os. is_digit base c"
    "pval base (map digit_of os) = dval (dig z)"
    using mpz_as_str_loop_correct [OF assms(2,3), of "dig z" "[]" 0] assms(1) by (auto simp: mpz_wf_def)
  have "os \<noteq> []" using os(3) dval_0_normalised [of "dig z"] assms(1) False by (auto simp: mpz_wf_def)
  then show ?thesis using os assms(2,3) False
    by (intro exI [of _ "rev os"])
      (simp add: mpz_as_str_inpl_def mpz_is_neg_def str_value_def rev_map mpz_val_abs)
qed

section \<open>Bytes\<close>

lemma or_byte: "a < 2 ^ n \<Longrightarrow> a OR push_bit n b = a + b * 2 ^ n" for a :: nat
  using or_shift [of a n b] by (simp add: or.commute)

lemma from_bytes_inner_two:
  assumes "b0 < 256" "b1 < 256"
  shows "from_bytes_inner 0 0 (b0 # b1 # bs) = (b0 + 256 * b1, bs)"
proof -
  have or8: "b0 OR push_bit 8 b1 = b0 + 256 * b1" using or_byte [of b0 8 b1] assms(1) by simp
  have "b0 mod 65536 = b0" "(b0 + 256 * b1) mod 65536 = b0 + 256 * b1" using assms by simp_all
  moreover have "from_bytes_inner d 16 bs = (d, bs)" for d by (cases bs) (simp_all add: DIG_SIZE_def)
  ultimately show ?thesis using or8 by (simp add: DIG_SIZE_def Mpn.dig_def)
qed

lemma from_bytes_outer_correct:
  "\<forall>b \<in> set bs. b < 256 \<Longrightarrow>
   dval (from_bytes_outer bs) = pval 256 bs \<and> digits_ok (from_bytes_outer bs) \<and>
   length (from_bytes_outer bs) = (length bs + 1) div 2"
proof (induction "length bs" arbitrary: bs rule: less_induct)
  case less
  consider "bs = []" | b where "bs = [b]" | b0 b1 cs where "bs = b0 # b1 # cs"
    by (cases bs; cases "tl bs") auto
  then show ?case
  proof cases
    case 1
    then show ?thesis by simp
  next
    case 2
    then have b: "b < 256" using less.prems by simp
    then have "from_bytes_outer bs = [b]" using 2
      by (simp add: DIG_SIZE_def Mpn.dig_def and_DIG_MASK DIG_BASE_eq)
    then show ?thesis using 2 b by (simp add: DIG_BASE_eq)
  next
    case 3
    then have b: "b0 < 256" "b1 < 256" "\<forall>b \<in> set cs. b < 256" using less.prems by auto
    have "from_bytes_outer bs = (b0 + 256 * b1) # from_bytes_outer cs"
      using 3 from_bytes_inner_two [OF b(1,2), of cs] b
      by (simp add: and_DIG_MASK DIG_BASE_eq del: from_bytes_inner.simps)
    moreover have "dval (from_bytes_outer cs) = pval 256 cs" "digits_ok (from_bytes_outer cs)"
      "length (from_bytes_outer cs) = (length cs + 1) div 2"
      using less.hyps [of cs] 3 b(3) by auto
    ultimately show ?thesis using 3 b by (simp add: DIG_BASE_eq)
  qed
qed

text \<open>Unsigned bytes in either order give their number.\<close>

lemma mpz_set_from_bytes_correct:
  assumes "\<not> fixed_dig dest" "\<forall>b \<in> set buf. b < 256"
  shows "yields (mpz_set_from_bytes dest big_endian buf) (int (pval 256 (if big_endian then rev buf else buf)))"
proof -
  let ?bs = "if big_endian then rev buf else buf"
  let ?ds = "from_bytes_outer ?bs"
  let ?out = "take (mpn_remove_trailing_zeros ?ds (length ?ds)) ?ds"
  have f: "dval ?ds = pval 256 ?bs" "digits_ok ?ds" "length ?ds = (length buf + 1) div 2"
    using from_bytes_outer_correct [of ?bs] assms(2) by auto
  have "length ?out \<le> (length buf * 8 + DIG_SIZE - 1) div DIG_SIZE"
    using f(3) by (simp add: DIG_SIZE_def)
  then have "yields (map_option (\<lambda>d. d\<lparr>dig := ?out, neg := False\<rparr>)
      (mpz_need_dig dest ((length buf * 8 + DIG_SIZE - 1) div DIG_SIZE))) (int (pval 256 ?bs))"
    using assms(1) f(1,2) strip_all [of ?ds] by (intro yields_store_length) auto
  moreover have "(\<lambda>z::mpz. z\<lparr>neg := False, dig := ?out\<rparr>) = (\<lambda>d. d\<lparr>dig := ?out, neg := False\<rparr>)" by auto
  ultimately show ?thesis by (simp add: mpz_set_from_bytes_def Let_def)
qed

subsection \<open>Writing bytes\<close>

definition digit_bytes :: "nat list \<Rightarrow> nat list" where
  "digit_bytes zs = concat (map (\<lambda>z. [z mod 256, z div 256]) zs)"

fun complement_bytes :: "nat \<Rightarrow> nat list \<Rightarrow> nat list" where
  "complement_bytes c [] = []"
| "complement_bytes c (b # bs) = (255 - b + c) mod 256 # complement_bytes ((255 - b + c) div 256) bs"

definition out_bytes :: "bool \<Rightarrow> nat \<Rightarrow> nat list \<Rightarrow> nat list" where
  "out_bytes ng c bs = (if ng then complement_bytes c bs else bs)"

lemma digit_bytes_simps [simp]:
  "digit_bytes [] = []" "digit_bytes (z # zs) = z mod 256 # z div 256 # digit_bytes zs"
  by (simp_all add: digit_bytes_def)

lemma length_digit_bytes [simp]: "length (digit_bytes zs) = 2 * length zs"
  by (induction zs) auto

lemma digit_bytes_correct:
  "digits_ok zs \<Longrightarrow> pval 256 (digit_bytes zs) = dval zs \<and> (\<forall>b \<in> set (digit_bytes zs). b < 256)"
proof (induction zs)
  case (Cons z zs)
  have "z mod 256 + 256 * (z div 256 + 256 * v) = z + 65536 * v" for v by simp
  then show ?case using Cons by (auto simp: DIG_BASE_eq less_mult_imp_div_less)
qed simp

lemma length_complement_bytes [simp]: "length (complement_bytes c bs) = length bs"
  by (induction c bs rule: complement_bytes.induct) auto

lemma complement_bytes_byte: "\<forall>b \<in> set (complement_bytes c bs). b < 256"
  by (induction c bs rule: complement_bytes.induct) auto

lemma complement_bytes_correct:
  "\<forall>b \<in> set bs. b < 256 \<Longrightarrow>
   int (pval 256 (complement_bytes c bs)) = (int c - 1 - int (pval 256 bs)) mod 256 ^ length bs"
proof (induction c bs rule: complement_bytes.induct)
  case (2 c b bs)
  let ?x = "255 - b + c" and ?n = "int c - 1 - int (pval 256 (b # bs))"
  have b: "int ?x = int c - 1 - int b + 256" using 2 by (simp add: of_nat_diff)
  have n0: "?n = (int c - 1 - int b) + 256 * (- int (pval 256 bs))" by simp
  have nm: "?n mod 256 = (int c - 1 - int b) mod 256" unfolding n0 by (rule mod_mult_self2)
  have nd: "?n div 256 = (int c - 1 - int b) div 256 - int (pval 256 bs)" unfolding n0 by simp
  have xm: "int (?x mod 256) = (int c - 1 - int b) mod 256"
    by (simp only: zmod_int b of_nat_numeral mod_add_self2)
  have "(int c - 1 - int b + 256) div 256 = (int c - 1 - int b) div 256 + 1"
    by (rule div_add_self2) simp
  then have xd: "int (?x div 256) = (int c - 1 - int b) div 256 + 1"
    by (simp only: zdiv_int b of_nat_numeral)
  have n: "?n mod 256 = int (?x mod 256)" "?n div 256 = int (?x div 256) - 1 - int (pval 256 bs)"
    unfolding nm nd xm xd by simp_all
  have zm: "?n mod (256 * 256 ^ length bs) = 256 * (?n div 256 mod 256 ^ length bs) + ?n mod 256"
    by (rule zmod_zmult2_eq) simp
  have IH: "int (pval 256 (complement_bytes (?x div 256) bs)) =
      (int (?x div 256) - 1 - int (pval 256 bs)) mod 256 ^ length bs"
    using 2 by simp
  have "int (pval 256 (complement_bytes c (b # bs))) =
      int (?x mod 256) + 256 * int (pval 256 (complement_bytes (?x div 256) bs))"
    by (simp only: complement_bytes.simps pval.simps of_nat_add of_nat_mult of_nat_numeral)
  also have "\<dots> = 256 * (?n div 256 mod 256 ^ length bs) + ?n mod 256"
    unfolding IH n by (rule add.commute)
  also have "\<dots> = ?n mod 256 ^ length (b # bs)" by (simp only: zm length_Cons power_Suc)
  finally show ?case .
qed simp

lemma not_byte: "nat (NOT (int v) AND 0xff) = 255 - v mod 256"
proof -
  have m: "(0xff::int) = mask 8" by (simp add: mask_eq_exp_minus_1)
  have "NOT (int v) AND 0xff = mask 8 - take_bit 8 (int v)"
    unfolding m by (simp only: take_bit_eq_mask [symmetric] take_bit_not_eq_mask_diff)
  also have "\<dots> = int (255 - v mod 256)"
    by (simp add: mask_eq_exp_minus_1 take_bit_eq_mod of_nat_diff zmod_int)
  finally show ?thesis by simp
qed

text \<open>One byte.\<close>

lemma as_bytes_inner_step:
  assumes "8 \<le> bits" "0 < room" "d < 65536" "c \<le> 1"
  shows "as_bytes_inner ng room bits d c =
    (let b = (if ng then 255 - d mod 256 + c else d); c' = (if ng then b div 256 else c)
     in if room = 1 then Some ([b mod 256], 0, d, c')
        else map_option (\<lambda>(bs, x). (b mod 256 # bs, x))
          (as_bytes_inner ng (room - 1) (bits - 8) (d div 256) c'))"
proof -
  have "(255 - d mod 256 + c) mod 65536 = 255 - d mod 256 + c" using assms(4) by simp
  then show ?thesis
    using assms by (subst as_bytes_inner.simps)
      (simp add: not_byte Mpn.dig_def DIG_SIZE_def drop_bit_eq_div Let_def)
qed

lemma as_bytes_loop_correct:
  "digits_ok zs \<Longrightarrow> c \<le> 1 \<Longrightarrow> 0 < room \<Longrightarrow>
   as_bytes_loop ng room 0 0 c zs = Some (out_bytes ng c (take room (digit_bytes zs)))"
proof (induction zs arbitrary: room c)
  case Nil
  then show ?case by (simp add: out_bytes_def)
next
  case (Cons z zs)
  have z: "z < 65536" "z div 256 < 65536" "z div 256 div 256 = 0" "z div 256 mod 256 = z div 256"
    using Cons.prems by (auto simp: DIG_BASE_eq div_mult2_eq [symmetric] less_mult_imp_div_less)
  define b0 where "b0 = (if ng then 255 - z mod 256 + c else z)"
  define c0 where "c0 = (if ng then b0 div 256 else c)"
  define b1 where "b1 = (if ng then 255 - z div 256 mod 256 + c0 else z div 256)"
  define c1 where "c1 = (if ng then b1 div 256 else c0)"
  have c01: "c0 \<le> 1" using Cons.prems(2) by (auto simp: c0_def b0_def)
  then have c11: "c1 \<le> 1" by (auto simp: c1_def b1_def)
  have d: "dbl (push_bit DIG_SIZE 0) OR z = z" "0 + DIG_SIZE = 16" by (simp_all add: Mpn.dbl_def DIG_SIZE_def)
  have s0: "as_bytes_inner ng room 16 z c = (if room = 1 then Some ([b0 mod 256], 0, z, c0)
      else map_option (\<lambda>(bs, x). (b0 mod 256 # bs, x)) (as_bytes_inner ng (room - 1) 8 (z div 256) c0))"
    using as_bytes_inner_step [of 16 room z c ng] z Cons.prems by (simp add: b0_def c0_def Let_def)
  have s1: "as_bytes_inner ng (room - 1) 8 (z div 256) c0 = (if room = 2 then Some ([b1 mod 256], 0, z div 256, c1)
      else map_option (\<lambda>(bs, x). (b1 mod 256 # bs, x)) (as_bytes_inner ng (room - 1 - 1) 0 (z div 256 div 256) c1))"
    if "1 < room"
  proof -
    have "(room - 1 = 1) = (room = 2)" using that by auto
    then show ?thesis
      using as_bytes_inner_step [of 8 "room - 1" "z div 256" c0 ng] z(2) c01 that
      by (simp only: b1_def c1_def Let_def order_refl diff_self_eq_0 zero_less_diff)
  qed
  have s2: "as_bytes_inner ng r 0 0 c1 = Some ([], r, 0, c1)" for r
    by (subst as_bytes_inner.simps) simp
  have ob: "out_bytes ng c (z mod 256 # xs) = b0 mod 256 # out_bytes ng c0 xs" for xs
    by (simp add: out_bytes_def b0_def c0_def)
  have ob1: "out_bytes ng c0 (z div 256 # xs) = b1 mod 256 # out_bytes ng c1 xs" for xs
    using z(4) by (simp add: out_bytes_def b1_def c1_def)
  have unf: "as_bytes_loop ng room 0 0 c (z # zs) =
      Option.bind (as_bytes_inner ng room 16 z c) (\<lambda>(bs, room', d', carry').
        if room' = 0 then Some bs else map_option (\<lambda>r. bs @ r) (as_bytes_loop ng room' 0 d' carry' zs))"
  proof -
    have "(16::nat) mod 8 = 0" by simp
    then show ?thesis by (simp only: as_bytes_loop.simps d)
  qed
  consider "room = 1" | "room = 2" | "2 < room" using Cons.prems(3) by linarith
  then show ?case
  proof cases
    case 1
    then show ?thesis using s0 ob [of "[]"] unfolding unf by (simp add: out_bytes_def)
  next
    case 2
    then show ?thesis using s0 s1 ob [of "[z div 256]"] ob1 [of "[]"] unfolding unf
      by (simp add: numeral_2_eq_2) (simp add: out_bytes_def)
  next
    case 3
    then have r: "room = Suc (Suc (room - 2))" "0 < room - 2" by auto
    define r where "r = room - 2"
    note r = r [folded r_def]
    have "as_bytes_inner ng room 16 z c = Some ([b0 mod 256, b1 mod 256], r, 0, c1)"
      using s0 s1 s2 [of r] r z(3) by simp
    moreover have "as_bytes_loop ng r 0 0 c1 zs = Some (out_bytes ng c1 (take r (digit_bytes zs)))"
      using Cons.prems c11 r by (intro Cons.IH) auto
    ultimately show ?thesis using r unfolding unf by (simp add: ob ob1)
  qed
qed

text \<open>
  The low bytes of the number in two's complement, as many as there are digits for; the
  other bytes of the buffer keep their contents.
\<close>

lemma mpz_as_bytes_correct:
  assumes "mpz_wf z" "buf \<noteq> []" and m: "m = min (length buf) (2 * mlen z)"
  shows "\<exists>ws. length ws = m \<and> (\<forall>b \<in> set ws. b < 256) \<and> int (pval 256 ws) = mpz_val z mod 256 ^ m \<and>
    mpz_as_bytes z big_endian buf =
      Some (if big_endian then take (length buf - m) buf @ rev ws else ws @ drop m buf)"
proof -
  let ?bs = "take (length buf) (digit_bytes (dig z))"
  let ?ws = "out_bytes (neg z) 1 ?bs"
  have ok: "digits_ok (dig z)" using assms(1) by (rule mpz_wfD)
  have len: "length ?bs = m" "length ?ws = m" by (simp_all add: m out_bytes_def)
  have "pval 256 (digit_bytes (dig z)) = pval 256 ?bs + 256 ^ length ?bs * pval 256 (drop (length buf) (digit_bytes (dig z)))"
    by (metis append_take_drop_id pval_append)
  then have "int (dval (dig z)) = int (pval 256 ?bs) + 256 ^ m * int (pval 256 (drop (length buf) (digit_bytes (dig z))))"
    using digit_bytes_correct [OF ok] len(1) by (metis of_nat_add of_nat_mult of_nat_power of_nat_numeral)
  then have v: "int (dval (dig z)) mod 256 ^ m = int (pval 256 ?bs) mod 256 ^ m" by simp
  have byte: "\<forall>b \<in> set ?bs. b < 256" using digit_bytes_correct [OF ok] by (auto dest: in_set_takeD)
  have "int (pval 256 ?ws) = mpz_val z mod 256 ^ m"
  proof (cases "neg z")
    case True
    have "int (pval 256 ?ws) = (- int (pval 256 ?bs)) mod 256 ^ m"
      using complement_bytes_correct [OF byte, of 1] len(1) True by (simp add: out_bytes_def)
    also have "\<dots> = (- int (dval (dig z))) mod 256 ^ m" using v by (metis mod_minus_eq)
    finally show ?thesis using True by (simp add: mpz_val_def sval_def)
  next
    case False
    have "int (pval 256 ?bs) < 256 ^ m" using pval_less [OF byte] len(1)
      by (metis of_nat_less_iff of_nat_numeral of_nat_power)
    then show ?thesis using False v by (simp add: mpz_val_def out_bytes_def)
  qed
  moreover have "as_bytes_loop (neg z) (length buf) 0 0 1 (dig z) = Some ?ws"
    using ok assms(2) by (intro as_bytes_loop_correct) auto
  moreover have "\<forall>b \<in> set ?ws. b < 256"
    using byte complement_bytes_byte [of 1 ?bs] by (auto simp: out_bytes_def)
  ultimately show ?thesis using len by (intro exI [of _ ?ws]) (simp add: mpz_as_bytes_def)
qed

text \<open>A buffer of no bytes is written all the same.\<close>

lemma mpz_as_bytes_empty: "dig z \<noteq> [] \<Longrightarrow> mpz_as_bytes z big_endian [] = None"
proof -
  assume "dig z \<noteq> []"
  then obtain d ds where "dig z = d # ds" by (cases "dig z") auto
  moreover have "as_bytes_inner ng 0 16 e c = None" for ng e c by (subst as_bytes_inner.simps) simp
  ultimately show ?thesis by (simp add: mpz_as_bytes_def DIG_SIZE_def)
qed

text \<open>With separators, a number of a multiple of three digits gets one in front.\<close>

lemma mpz_as_str_inpl_comma:
  "mpz_as_str_inpl \<lparr>neg = False, fixed_dig = False, alloc = 2, dig = [100]\<rparr> 10 [] 97 44 =
   Some [44, 49, 48, 48]"
proof -
  have "mpz_as_str_loop 10 97 44 [1] [48, 48] 0 = Some [48, 48, 49, 44]"
    by (subst mpz_as_str_loop.simps) (simp add: str_char_def dig_eq DIG_BASE_eq dbl_def)
  then have "mpz_as_str_loop 10 97 44 [10] [48] 0 = Some [48, 48, 49, 44]"
    by (subst mpz_as_str_loop.simps) (simp add: str_char_def dig_eq DIG_BASE_eq dbl_def)
  then have "mpz_as_str_loop 10 97 44 [100] [] 0 = Some [48, 48, 49, 44]"
    by (subst mpz_as_str_loop.simps) (simp add: str_char_def dig_eq DIG_BASE_eq dbl_def)
  then show ?thesis by (simp add: mpz_as_str_inpl_def)
qed

end
