(* ===== verification/Mpn_Memory.thy ===== *)
theory Mpn_Memory
  imports Mpn
begin

unbundle bit_operations_syntax

text \<open>
  Addition and subtraction of digit arrays in one memory (\<open>mpn_add\<close> and \<open>mpn_sub\<close> of \<open>py/mpz.c\<close>), with the
  pointers of the code: the destination may be one of the operands, or both. The lemmas show that the
  loops, which read a digit before they write at its place, leave the digits of the list functions
  of \<open>Mpn\<close>; the operations on numbers in \<open>Mpz\<close>, whose comments allow the destination to be an
  operand, are stated over those lists.
\<close>

section \<open>The loops\<close>

type_synonym digit_memory = "nat \<Rightarrow> nat"

text \<open>The memory and the end of the digits written.\<close>

fun add_mem_loop :: "nat \<Rightarrow> digit_memory \<Rightarrow> nat \<Rightarrow> nat \<Rightarrow> nat \<Rightarrow> nat \<Rightarrow> nat \<Rightarrow> digit_memory \<times> nat" where
  "add_mem_loop carry m i j (Suc jlen) k (Suc klen) =
     (let c = dbl (carry + dbl (m j + m k))
      in add_mem_loop (drop_bit DIG_SIZE c) (m(i := c AND DIG_MASK)) (Suc i) (Suc j) jlen (Suc k) klen)"
| "add_mem_loop carry m i j (Suc jlen) k 0 =
     (let c = dbl (carry + m j)
      in add_mem_loop (drop_bit DIG_SIZE c) (m(i := c AND DIG_MASK)) (Suc i) (Suc j) jlen k 0)"
| "add_mem_loop carry m i j 0 k klen = (if carry \<noteq> 0 then (m(i := dig carry), Suc i) else (m, i))"

definition mpn_add_mem :: "digit_memory \<Rightarrow> nat \<Rightarrow> nat \<Rightarrow> nat \<Rightarrow> nat \<Rightarrow> nat \<Rightarrow> digit_memory \<times> nat" where
  "mpn_add_mem m idig jdig jlen kdig klen =
     (let (m', e) = add_mem_loop 0 m idig jdig jlen kdig klen in (m', e - idig))"

fun sub_mem_loop :: "int \<Rightarrow> digit_memory \<Rightarrow> nat \<Rightarrow> nat \<Rightarrow> nat \<Rightarrow> nat \<Rightarrow> nat \<Rightarrow> digit_memory \<times> nat" where
  "sub_mem_loop borrow m i j (Suc jlen) k (Suc klen) =
     (let b = sdbl (borrow + (int (m j) - int (m k)))
      in sub_mem_loop (drop_bit DIG_SIZE b) (m(i := nat (b AND int DIG_MASK))) (Suc i) (Suc j) jlen (Suc k) klen)"
| "sub_mem_loop borrow m i j (Suc jlen) k 0 =
     (let b = sdbl (borrow + int (m j))
      in sub_mem_loop (drop_bit DIG_SIZE b) (m(i := nat (b AND int DIG_MASK))) (Suc i) (Suc j) jlen k 0)"
| "sub_mem_loop borrow m i j 0 k klen = (m, i)"

definition digits_at :: "digit_memory \<Rightarrow> nat \<Rightarrow> nat \<Rightarrow> nat list" where
  "digits_at m p n = map m [p..<p + n]"

definition mpn_sub_mem :: "digit_memory \<Rightarrow> nat \<Rightarrow> nat \<Rightarrow> nat \<Rightarrow> nat \<Rightarrow> nat \<Rightarrow> digit_memory \<times> nat" where
  "mpn_sub_mem m idig jdig jlen kdig klen =
     (let (m', e) = sub_mem_loop 0 m idig jdig jlen kdig klen
      in (m', mpn_remove_trailing_zeros (digits_at m' idig (e - idig)) (e - idig)))"

section \<open>In place is as apart\<close>

lemma digits_at_0 [simp]: "digits_at m p 0 = []"
  by (simp add: digits_at_def)

lemma digits_at_Suc [simp]: "digits_at m p (Suc n) = m p # digits_at m (Suc p) n"
  by (simp add: digits_at_def upt_conv_Cons del: upt_Suc)

lemma length_digits_at [simp]: "length (digits_at m p n) = n"
  by (simp add: digits_at_def)

lemma digits_at_cong: "(\<And>q. p \<le> q \<Longrightarrow> q < p + n \<Longrightarrow> m q = m' q) \<Longrightarrow> digits_at m p n = digits_at m' p n"
  by (simp add: digits_at_def)

lemma take_digits_at: "n \<le> l \<Longrightarrow> take n (digits_at m p l) = digits_at m p n"
  by (simp add: digits_at_def take_map)

text \<open>\<open>n\<close> digits at \<open>p\<close> and the \<open>l + 1\<close> places written from \<open>i\<close> on: at the same place, or apart.\<close>

definition in_place_or_apart :: "nat \<Rightarrow> nat \<Rightarrow> nat \<Rightarrow> nat \<Rightarrow> bool" where
  "in_place_or_apart i l p n \<longleftrightarrow> i = p \<or> i + l < p \<or> p + n \<le> i"

lemma in_place_step:
  "in_place_or_apart i (Suc l) p (Suc n) \<Longrightarrow> in_place_or_apart (Suc i) l (Suc p) n"
  by (auto simp: in_place_or_apart_def)

lemma written_behind: "in_place_or_apart i l p (Suc n) \<Longrightarrow> digits_at (m(i := d)) (Suc p) n = digits_at m (Suc p) n"
  by (rule digits_at_cong) (auto simp: in_place_or_apart_def)

lemma add_mem_loop_digits:
  assumes "klen \<le> jlen" "in_place_or_apart i jlen j jlen" "klen = 0 \<or> in_place_or_apart i jlen k klen"
    and "add_mem_loop carry m i j jlen k klen = (m', e)"
  shows "i \<le> e \<and> digits_at m' i (e - i) = mpn_add_loop carry (digits_at m j jlen) (digits_at m k klen) \<and>
    (\<forall>p. p < i \<or> e \<le> p \<longrightarrow> m' p = m p)"
  using assms
proof (induction carry m i j jlen k klen rule: add_mem_loop.induct)
  case (1 carry m i j jlen k klen)
  let ?c = "dbl (carry + dbl (m j + m k))"
  have apart: "in_place_or_apart i (Suc jlen) j (Suc jlen)" "in_place_or_apart i (Suc jlen) k (Suc klen)" using "1.prems"(2,3) by auto
  have ih: "Suc i \<le> e" "digits_at m' (Suc i) (e - Suc i) = mpn_add_loop (drop_bit DIG_SIZE ?c) (digits_at m (Suc j) jlen) (digits_at m (Suc k) klen)"
    "\<forall>p. p < Suc i \<or> e \<le> p \<longrightarrow> m' p = (m(i := ?c AND DIG_MASK)) p"
    using "1.IH" [OF refl] "1.prems"(1,4) apart in_place_step [OF apart(1)] in_place_step [OF apart(2)] written_behind [OF apart(1)] written_behind [OF apart(2)]
    by (auto simp: Let_def simp del: fun_upd_apply)
  have "e - i = Suc (e - Suc i)" "m' i = ?c AND DIG_MASK" using ih by auto
  then show ?case using ih by (auto simp: Let_def)
next
  case (2 carry m i j jlen k)
  let ?c = "dbl (carry + m j)"
  have ih: "Suc i \<le> e" "digits_at m' (Suc i) (e - Suc i) = mpn_add_loop (drop_bit DIG_SIZE ?c) (digits_at m (Suc j) jlen) []"
    "\<forall>p. p < Suc i \<or> e \<le> p \<longrightarrow> m' p = (m(i := ?c AND DIG_MASK)) p"
    using "2.IH" [OF refl] "2.prems"(1,4) in_place_step [OF "2.prems"(2)] written_behind [OF "2.prems"(2)]
    by (auto simp: Let_def simp del: fun_upd_apply)
  have "e - i = Suc (e - Suc i)" "m' i = ?c AND DIG_MASK" using ih by auto
  then show ?case using ih by (auto simp: Let_def)
next
  case (3 carry m i j k klen)
  then show ?case by (auto split: if_splits)
qed

lemma sub_mem_loop_digits:
  assumes "klen \<le> jlen" "in_place_or_apart i jlen j jlen" "klen = 0 \<or> in_place_or_apart i jlen k klen"
    and "sub_mem_loop borrow m i j jlen k klen = (m', e)"
  shows "e = i + jlen \<and> digits_at m' i jlen = mpn_sub_loop borrow (digits_at m j jlen) (digits_at m k klen) \<and>
    (\<forall>p. p < i \<or> e \<le> p \<longrightarrow> m' p = m p)"
  using assms
proof (induction borrow m i j jlen k klen rule: sub_mem_loop.induct)
  case (1 borrow m i j jlen k klen)
  let ?b = "sdbl (borrow + (int (m j) - int (m k)))"
  have apart: "in_place_or_apart i (Suc jlen) j (Suc jlen)" "in_place_or_apart i (Suc jlen) k (Suc klen)" using "1.prems"(2,3) by auto
  have ih: "e = Suc i + jlen" "digits_at m' (Suc i) jlen = mpn_sub_loop (drop_bit DIG_SIZE ?b) (digits_at m (Suc j) jlen) (digits_at m (Suc k) klen)"
    "\<forall>p. p < Suc i \<or> e \<le> p \<longrightarrow> m' p = (m(i := nat (?b AND int DIG_MASK))) p"
    using "1.IH" [OF refl] "1.prems"(1,4) apart in_place_step [OF apart(1)] in_place_step [OF apart(2)] written_behind [OF apart(1)] written_behind [OF apart(2)]
    by (auto simp: Let_def simp del: fun_upd_apply)
  then show ?case by (auto simp: Let_def)
next
  case (2 borrow m i j jlen k)
  let ?b = "sdbl (borrow + int (m j))"
  have ih: "e = Suc i + jlen" "digits_at m' (Suc i) jlen = mpn_sub_loop (drop_bit DIG_SIZE ?b) (digits_at m (Suc j) jlen) []"
    "\<forall>p. p < Suc i \<or> e \<le> p \<longrightarrow> m' p = (m(i := nat (?b AND int DIG_MASK))) p"
    using "2.IH" [OF refl] "2.prems"(1,4) in_place_step [OF "2.prems"(2)] written_behind [OF "2.prems"(2)]
    by (auto simp: Let_def simp del: fun_upd_apply)
  then show ?case by (auto simp: Let_def)
qed simp

text \<open>The two operations from the loops, for operands in place or apart.\<close>

lemma mpn_add_mem_digits:
  assumes "klen \<le> jlen" "in_place_or_apart idig jlen jdig jlen" "in_place_or_apart idig jlen kdig klen"
    and "mpn_add_mem m idig jdig jlen kdig klen = (m', n)"
  shows "digits_at m' idig n = mpn_add (digits_at m jdig jlen) (digits_at m kdig klen) \<and> n \<le> jlen + 1 \<and>
    (\<forall>p. p < idig \<or> idig + n \<le> p \<longrightarrow> m' p = m p)"
proof -
  obtain e where loop: "add_mem_loop 0 m idig jdig jlen kdig klen = (m', e)" and n: "n = e - idig"
    using assms(4) by (auto simp: mpn_add_mem_def split: prod.splits)
  have ds: "idig \<le> e" "digits_at m' idig (e - idig) = mpn_add_loop 0 (digits_at m jdig jlen) (digits_at m kdig klen)"
    "\<forall>p. p < idig \<or> e \<le> p \<longrightarrow> m' p = m p"
    using add_mem_loop_digits [OF assms(1,2) _ loop] assms(3) by auto
  have "length (digits_at m' idig (e - idig)) \<le> Suc jlen"
    using length_mpn_add_loop [of "digits_at m kdig klen" "digits_at m jdig jlen" 0] assms(1) by (simp only: ds(2) length_digits_at)
  then have "n \<le> jlen + 1" by (simp only: n length_digits_at)
  then show ?thesis using ds n by (simp add: mpn_add_def)
qed

lemma mpn_sub_mem_digits:
  assumes "klen \<le> jlen" "in_place_or_apart idig jlen jdig jlen" "in_place_or_apart idig jlen kdig klen"
    and "mpn_sub_mem m idig jdig jlen kdig klen = (m', n)"
  shows "digits_at m' idig n = mpn_sub (digits_at m jdig jlen) (digits_at m kdig klen) \<and> n \<le> jlen \<and>
    (\<forall>p. p < idig \<or> idig + jlen \<le> p \<longrightarrow> m' p = m p)"
proof -
  obtain e where loop: "sub_mem_loop 0 m idig jdig jlen kdig klen = (m', e)"
    and n: "n = mpn_remove_trailing_zeros (digits_at m' idig (e - idig)) (e - idig)"
    using assms(4) by (auto simp: mpn_sub_mem_def split: prod.splits)
  have ds: "e = idig + jlen" "digits_at m' idig jlen = mpn_sub_loop 0 (digits_at m jdig jlen) (digits_at m kdig klen)"
    "\<forall>p. p < idig \<or> e \<le> p \<longrightarrow> m' p = m p"
    using sub_mem_loop_digits [OF assms(1,2) _ loop] assms(3) by auto
  have le: "n \<le> jlen" using mpn_remove_trailing_zeros_le [of "digits_at m' idig jlen" jlen] n ds(1) by simp
  have "mpn_sub (digits_at m jdig jlen) (digits_at m kdig klen) = take n (digits_at m' idig jlen)"
    using n ds(1) length_digits_at [of m' idig jlen] by (simp add: mpn_sub_def Let_def flip: ds(2))
  then have "digits_at m' idig n = mpn_sub (digits_at m jdig jlen) (digits_at m kdig klen)"
    by (simp only: take_digits_at [OF le])
  then show ?thesis using le ds(1,3) by simp
qed

text \<open>
  Adding and subtracting digit arrays in place gives the digits of the operands taken apart:
  whether the destination is the first operand, the second, both or apart from them, as the
  comments allow, the digits written are those of the list functions, whose values are the sum
  and the difference, the count returned is their number, and nothing else in memory changes. The
  first operand is the longer one and, for the difference, not the smaller.
\<close>

theorem mpn_in_place:
  assumes "klen \<le> jlen" "in_place_or_apart idig jlen jdig jlen" "in_place_or_apart idig jlen kdig klen"
    and "digits_ok (digits_at m jdig jlen)" "digits_ok (digits_at m kdig klen)"
    and "dval (digits_at m kdig klen) \<le> dval (digits_at m jdig jlen)"
  shows "(\<exists>m' n. mpn_add_mem m idig jdig jlen kdig klen = (m', n) \<and> n \<le> jlen + 1 \<and>
      digits_at m' idig n = mpn_add (digits_at m jdig jlen) (digits_at m kdig klen) \<and>
      dval (digits_at m' idig n) = dval (digits_at m jdig jlen) + dval (digits_at m kdig klen) \<and>
      (\<forall>p. p < idig \<or> idig + n \<le> p \<longrightarrow> m' p = m p)) \<and>
    (\<exists>m' n. mpn_sub_mem m idig jdig jlen kdig klen = (m', n) \<and> n \<le> jlen \<and>
      digits_at m' idig n = mpn_sub (digits_at m jdig jlen) (digits_at m kdig klen) \<and>
      dval (digits_at m' idig n) = dval (digits_at m jdig jlen) - dval (digits_at m kdig klen) \<and>
      (\<forall>p. p < idig \<or> idig + jlen \<le> p \<longrightarrow> m' p = m p))"
proof
  show "\<exists>m' n. mpn_add_mem m idig jdig jlen kdig klen = (m', n) \<and> n \<le> jlen + 1 \<and>
      digits_at m' idig n = mpn_add (digits_at m jdig jlen) (digits_at m kdig klen) \<and>
      dval (digits_at m' idig n) = dval (digits_at m jdig jlen) + dval (digits_at m kdig klen) \<and>
      (\<forall>p. p < idig \<or> idig + n \<le> p \<longrightarrow> m' p = m p)"
    using mpn_add_mem_digits [OF assms(1-3)] mpn_add_correct [OF assms(4,5)] assms(1)
    by (cases "mpn_add_mem m idig jdig jlen kdig klen") auto
  show "\<exists>m' n. mpn_sub_mem m idig jdig jlen kdig klen = (m', n) \<and> n \<le> jlen \<and>
      digits_at m' idig n = mpn_sub (digits_at m jdig jlen) (digits_at m kdig klen) \<and>
      dval (digits_at m' idig n) = dval (digits_at m jdig jlen) - dval (digits_at m kdig klen) \<and>
      (\<forall>p. p < idig \<or> idig + jlen \<le> p \<longrightarrow> m' p = m p)"
    using mpn_sub_mem_digits [OF assms(1-3)] mpn_sub_correct [OF assms(4,5)] assms(1,6)
    by (cases "mpn_sub_mem m idig jdig jlen kdig klen") auto
qed

text \<open>Two digits and one, the sum with a carry into a third digit and the difference with a borrow,
  both written over the first operand.\<close>

definition demo_digits :: digit_memory where
  "demo_digits = (\<lambda>p. if p = 0 then 3 else if p = 1 then 65535 else if p = 3 then 65534 else 0)"

theorem mpn_in_place_witness:
  "(\<exists>m' n. mpn_add_mem demo_digits 0 0 2 3 1 = (m', n) \<and> n \<le> 3 \<and> digits_at m' 0 n = [1, 0, 1] \<and>
      (\<forall>p. p < 0 \<or> 0 + n \<le> p \<longrightarrow> m' p = demo_digits p)) \<and>
   (\<exists>m' n. mpn_sub_mem demo_digits 0 0 2 3 1 = (m', n) \<and> n \<le> 2 \<and> digits_at m' 0 n = [5, 65534])"
proof -
  have dec: "digits_at demo_digits 0 2 = [3, 65535]" "digits_at demo_digits 3 1 = [65534]"
    by (simp_all add: digits_at_def demo_digits_def upt_rec)
  have sums: "mpn_add [3, 65535] [65534] = [1, 0, 1]" "mpn_sub [3, 65535] [65534] = [5, 65534]"
    by (simp_all add: mpn_add_def mpn_sub_def Let_def dbl_def sdbl_def dig_def DIG_SIZE_def DIG_BASE_eq drop_bit_eq_div MPZ_DBL_DIG_SIZE_def and_DIG_MASK and_DIG_MASK_int)
  have ok: "digits_ok [3, 65535]" "digits_ok [65534]" "dval [65534] \<le> dval [3, 65535]" by (simp_all add: digits_ok_def DIG_BASE_eq)
  have "(1::nat) \<le> 2" "in_place_or_apart 0 2 0 2" "in_place_or_apart 0 2 3 1" by (simp_all add: in_place_or_apart_def)
  note both = mpn_in_place [OF this, of demo_digits, unfolded dec sums, OF ok]
  obtain m' n where add: "mpn_add_mem demo_digits 0 0 2 3 1 = (m', n)" "n \<le> 2 + 1" "digits_at m' 0 n = [1, 0, 1]"
    "\<forall>p. p < 0 \<or> 0 + n \<le> p \<longrightarrow> m' p = demo_digits p" using conjunct1 [OF both] by (elim exE conjE) (rule that)
  have "n \<le> 3" using add(2) by linarith
  moreover obtain s l where "mpn_sub_mem demo_digits 0 0 2 3 1 = (s, l)" "l \<le> 2" "digits_at s 0 l = [5, 65534]"
    using conjunct2 [OF both] by (elim exE conjE) (rule that)
  ultimately show ?thesis using add(1,3,4) by (intro conjI exI) assumption+
qed

end
