(* ===== verification/Mpz_Props.thy ===== *)
theory Mpz_Props
  imports Mpz_Pow Mpz_Conv Mpn_Memory
begin

unbundle bit_operations_syntax

text \<open>
  What MicroPython's big integers promise to the interpreter, over the definitions of
  \<open>Mpz\<close>, \<open>Mpz_Pow\<close> and \<open>Mpz_Conv\<close>: the arithmetic of Python on the values, without a failed
  assertion and within the allocated digits. \<open>yields r v\<close> says that the operation ends in
  a well-formed number with the value \<open>v\<close>. The examples use \<open>mk_mpz\<close>.
\<close>

definition mk_mpz :: "bool \<Rightarrow> nat list \<Rightarrow> mpz" where
  "mk_mpz n ds = \<lparr>neg = n, fixed_dig = False, alloc = length ds, dig = ds\<rparr>"

lemma mk_mpz_simps [simp]:
  "neg (mk_mpz n ds) = n" "\<not> fixed_dig (mk_mpz n ds)" "dig (mk_mpz n ds) = ds"
  "mpz_wf (mk_mpz n ds) \<longleftrightarrow> digits_ok ds \<and> normalised ds"
  "mpz_val (mk_mpz n ds) = sval n ds"
  by (auto simp: mk_mpz_def mpz_wf_def mpz_val_def)

lemma init_zero_simps [simp]: "\<not> fixed_dig mpz_init_zero" "\<not> neg mpz_init_zero"
  by (simp_all add: mpz_init_zero_def)

lemmas mpz_eval = DIG_BASE_eq normalised_def canonical_def sval_def

text \<open>C18: Addition, subtraction and multiplication are exact, for operands of any sign and length; the
  result is well-formed. Multiplication is so also when the destination, which it zeroes before it
  multiplies, is one of the operands or both. The destination has digits of its own to grow in.\<close>

theorem mpz_arith_exact:
  assumes "mpz_wf lhs" "mpz_wf rhs" "\<not> fixed_dig dest" "dest_is_lhs \<and> dest_is_rhs \<longrightarrow> lhs = rhs"
  shows "yields (mpz_add_inpl dest lhs rhs) (mpz_val lhs + mpz_val rhs) \<and>
         yields (mpz_sub_inpl dest lhs rhs) (mpz_val lhs - mpz_val rhs) \<and>
         yields (mpz_mul_inpl dest_is_lhs dest_is_rhs dest lhs rhs) (mpz_val lhs * mpz_val rhs)"
  using assms mpz_add_inpl_correct mpz_sub_inpl_correct mpz_mul_inpl_correct by blast

theorem mpz_arith_exact_witness:
  "yields (mpz_add_inpl mpz_init_zero (mk_mpz True [0, 1]) (mk_mpz False [7])) (- 65529) \<and>
   yields (mpz_sub_inpl mpz_init_zero (mk_mpz True [0, 1]) (mk_mpz False [7])) (- 65543) \<and>
   yields (mpz_mul_inpl False False mpz_init_zero (mk_mpz True [0, 1]) (mk_mpz False [7])) (- 458752)"
  using mpz_arith_exact [of "mk_mpz True [0, 1]" "mk_mpz False [7]" mpz_init_zero False False]
  by (simp add: mpz_eval)

text \<open>C21: Division and remainder are Python's floor division and modulo, for any signs, whenever the
  normalised divisor has no digit of all ones strictly between its first and its last digit and the
  sign of the destination of the quotient is not set, as in a number just made; the loops of the
  long division end. For a negative divisor the remainder is between the divisor and zero, unlike in
  the comment of the code.\<close>

theorem mpz_divmod_floor:
  assumes "mpz_wf lhs" "mpz_wf rhs" "\<not> fixed_dig dest_quo" "\<not> fixed_dig dest_rem" "\<not> neg dest_quo"
    and "dig rhs \<noteq> []" "div_safe (dig rhs)"
  shows "\<exists>q r. mpz_divmod_inpl dest_quo dest_rem lhs rhs = Some (q, r) \<and> mpz_wf q \<and> mpz_wf r \<and>
    mpz_val q = mpz_val lhs div mpz_val rhs \<and> mpz_val r = mpz_val lhs mod mpz_val rhs"
  using mpz_divmod_inpl_correct [OF assms(1-4,6,7)] assms(5) by blast

theorem mpz_divmod_floor_witness:
  "\<exists>q r. mpz_divmod_inpl mpz_init_zero mpz_init_zero (mk_mpz True [5, 1]) (mk_mpz False [3]) = Some (q, r) \<and>
    mpz_wf q \<and> mpz_wf r \<and> mpz_val q = - 21847 \<and> mpz_val r = 0"
proof -
  have safe: "div_safe [3]" by (rule div_safe_short) (auto simp: mpz_eval)
  from mpz_divmod_floor [of "mk_mpz True [5, 1]" "mk_mpz False [3]" mpz_init_zero mpz_init_zero] safe
  show ?thesis by (simp add: mpz_eval)
qed

text \<open>Without the condition on the divisor the long division is wrong: the borrow of a double
  digit wraps around, and the quotient of these numbers comes out as 1 instead of 65535.\<close>

theorem mpn_div_full_digit_wrong:
  "mpn_div [0, 0, 0xFFFE, 0x8000] [0xFFFF, 0xFFFF, 0x8000] = Some ([1, 1, 0x7FFD], [1]) \<and>
   dval [0, 0, 0xFFFE, 0x8000] div dval [0xFFFF, 0xFFFF, 0x8000] = 0xFFFF"
  by (simp only: mpn_div_wrong mpn_div_wrong2)

text \<open>The sign of the quotient is set when the signs of the operands differ, and never cleared: with a
  destination that was negative, 3 divided by 3 is -1.\<close>

theorem mpz_divmod_keeps_sign:
  "\<exists>q r. mpz_divmod_inpl (mk_mpz True [1]) mpz_init_zero (mk_mpz False [3]) (mk_mpz False [3]) = Some (q, r) \<and> mpz_val q = - 1 \<and> mpz_val r = 0"
proof -
  have "mpn_div [3] [3] = Some ([], [1])" by code_simp
  then show ?thesis
    by (simp add: mpz_divmod_inpl_def mpz_is_zero_def mpz_need_dig_def MIN_ALLOC_def mk_mpz_def mpz_init_zero_def mpz_set_def mpz_val_def sval_def)
qed

text \<open>With a negative divisor the remainder is not between zero and the divisor: 7 divided by -3 leaves -2.\<close>

theorem mpz_divmod_negative_remainder:
  "\<exists>q r. mpz_divmod_inpl mpz_init_zero mpz_init_zero (mk_mpz False [7]) (mk_mpz True [3]) = Some (q, r) \<and> mpz_val q = - 3 \<and> mpz_val r = - 2"
proof -
  have safe: "div_safe [3]" by (rule div_safe_short) (auto simp: mpz_eval)
  have v: "mpz_val (mk_mpz False [7]) = 7" "mpz_val (mk_mpz True [3]) = - 3" by (simp_all add: mpz_eval)
  have "mpz_wf (mk_mpz False [7])" "mpz_wf (mk_mpz True [3])" by (simp_all add: mpz_eval)
  then show ?thesis using mpz_divmod_inpl_correct [of "mk_mpz False [7]" "mk_mpz True [3]" mpz_init_zero mpz_init_zero] safe v by auto
qed

text \<open>C30: The bitwise operations are those of two's complement integers of unbounded length, for
  operands without a negative zero.\<close>

theorem mpz_bitwise_twos_complement:
  assumes "mpz_wf lhs" "mpz_wf rhs" "canonical lhs" "canonical rhs" "\<not> fixed_dig dest"
  shows "yields (mpz_and_inpl dest lhs rhs) (mpz_val lhs AND mpz_val rhs) \<and>
         yields (mpz_or_inpl dest lhs rhs) (mpz_val lhs OR mpz_val rhs) \<and>
         yields (mpz_xor_inpl dest lhs rhs) (mpz_val lhs XOR mpz_val rhs)"
  using mpz_bitwise_correct [OF assms] by blast

theorem mpz_bitwise_twos_complement_witness:
  "yields (mpz_and_inpl mpz_init_zero (mk_mpz True [0, 1]) (mk_mpz True [6])) (- 65536) \<and>
   yields (mpz_or_inpl mpz_init_zero (mk_mpz True [0, 1]) (mk_mpz True [6])) (- 6) \<and>
   yields (mpz_xor_inpl mpz_init_zero (mk_mpz True [0, 1]) (mk_mpz True [6])) 65530"
  using mpz_bitwise_twos_complement [of "mk_mpz True [0, 1]" "mk_mpz True [6]" mpz_init_zero]
  by (simp add: mpz_eval)

text \<open>A negative zero, which subtracting equal negative numbers produces, is a number with the
  value zero on which the bitwise operations go wrong: zero or five is not five.\<close>

theorem mpz_negative_zero_or:
  "\<exists>z d. mpz_sub_inpl mpz_init_zero (mk_mpz True [9]) (mk_mpz True [9]) = Some z \<and> mpz_val z = 0 \<and>
     mpz_or_inpl mpz_init_zero z (mk_mpz False [5]) = Some d \<and> mpz_val d = - 65531"
proof -
  have sub: "mpz_sub_inpl mpz_init_zero (mk_mpz True [9]) (mk_mpz True [9]) =
      Some \<lparr>neg = True, fixed_dig = False, alloc = 2, dig = []\<rparr>"
    by (simp add: mpz_sub_inpl_def mpn_cmp_def mpz_need_dig_def MIN_ALLOC_def mpz_init_zero_def mpn_sub_def)
  have "mpn_or_neg [5] [] 0 1 = Some [65531]"
    by (simp add: mpn_or_neg_def k_digit_def dig_arith DIG_BASE_eq dbl_def MPZ_DBL_DIG_SIZE_def DIG_MASK_eq mod_DIG_BASE_ops)
  then have "mpz_or_inpl mpz_init_zero \<lparr>neg = True, fixed_dig = False, alloc = 2, dig = []\<rparr> (mk_mpz False [5]) =
      Some \<lparr>neg = True, fixed_dig = False, alloc = 2, dig = [65531]\<rparr>"
    by (simp add: mpz_or_inpl_def mpz_need_dig_def MIN_ALLOC_def mpz_init_zero_def)
  with sub show ?thesis by (auto simp: mpz_val_def mpz_eval)
qed

text \<open>A left shift multiplies by a power of two and a right shift divides by it, rounding down,
  also for negative numbers.\<close>

theorem mpz_shift_floor:
  assumes "mpz_wf lhs" "\<not> fixed_dig dest"
  shows "yields (mpz_shl_inpl dest lhs n) (mpz_val lhs * 2 ^ n) \<and>
         yields (mpz_shr_inpl False dest lhs n) (mpz_val lhs div 2 ^ n)"
  using assms mpz_shl_inpl_correct mpz_shr_inpl_correct by blast

theorem mpz_shift_floor_witness:
  "yields (mpz_shl_inpl mpz_init_zero (mk_mpz True [5, 1]) 3) (- 524328) \<and>
   yields (mpz_shr_inpl False mpz_init_zero (mk_mpz True [5, 1]) 3) (- 8193)"
  using mpz_shift_floor [of "mk_mpz True [5, 1]" mpz_init_zero 3] by (simp add: mpz_eval)

text \<open>When the number to shift is also the destination, which the comment of the function
  allows, the bits shifted out are looked up after they are gone: -5 shifted right by one
  becomes -2 where the floor is -3.\<close>

theorem mpz_shr_same_object:
  "\<exists>d. mpz_shr_inpl True (mk_mpz True [5, 0]) (mk_mpz True [5]) 1 = Some d \<and> mpz_val d = - 2 \<and>
     mpz_val (mk_mpz True [5]) div 2 ^ 1 = - 3"
proof -
  have "mpn_shr [5] 1 = [2]"
    by (simp add: mpn_shr_def DIG_SIZE_def drop_bit_eq_div and_DIG_MASK DIG_BASE_eq)
  then have "mpz_shr_inpl True (mk_mpz True [5, 0]) (mk_mpz True [5]) 1 =
      Some \<lparr>neg = True, fixed_dig = False, alloc = 2, dig = [2]\<rparr>"
    by (simp add: mpz_shr_inpl_def shr_round_up_def mpz_need_dig_def MIN_ALLOC_def mk_mpz_def DIG_SIZE_def and_one_eq)
  then show ?thesis by (simp add: mpz_val_def mpz_eval)
qed

text \<open>Powers: a number to the power of a nonnegative number, except zero to the power of zero.
  The loop over the bits of the exponent ends.\<close>

theorem mpz_pow_exact:
  assumes "mpz_wf lhs" "mpz_wf rhs" "\<not> fixed_dig dest" "\<not> neg rhs" "dig lhs \<noteq> [] \<or> dig rhs \<noteq> []"
  shows "yields (mpz_pow_inpl dest lhs rhs) (mpz_val lhs ^ nat (mpz_val rhs))"
  using mpz_pow_inpl_correct [OF assms] assms(4) by (simp add: mpz_val_def [of rhs])

theorem mpz_pow_exact_witness:
  "yields (mpz_pow_inpl mpz_init_zero (mk_mpz True [3]) (mk_mpz False [5])) (- 243)"
  using mpz_pow_exact [of "mk_mpz True [3]" "mk_mpz False [5]" mpz_init_zero] by (simp add: mpz_eval)

text \<open>Zero to the power of zero is computed as zero, where Python has one.\<close>

theorem mpz_pow_zero_zero:
  "yields (mpz_pow_inpl mpz_init_zero (mk_mpz False []) (mk_mpz False [])) 0"
  by (rule mpz_pow_inpl_zero_zero) auto

text \<open>Powers modulo a positive number, by repeated squaring and reduction, when the destination is
  neither of the operands and the modulus is one the long division handles.\<close>

theorem mpz_pow3_modular:
  assumes "mpz_wf lhs" "mpz_wf rhs" "mpz_wf md" "\<not> fixed_dig dest" "\<not> neg rhs"
    "dig lhs \<noteq> [] \<or> dig rhs \<noteq> []" "0 < mpz_val md" "div_safe (dig md)"
  shows "yields (mpz_pow3_inpl False False dest lhs rhs md) (mpz_val lhs ^ nat (mpz_val rhs) mod mpz_val md)"
  using mpz_pow3_inpl_correct [OF assms] assms(5) by (simp add: mpz_val_def [of rhs])

theorem mpz_pow3_modular_witness:
  "yields (mpz_pow3_inpl False False mpz_init_zero (mk_mpz False [3]) (mk_mpz False [5]) (mk_mpz False [7])) 5"
proof -
  have safe: "div_safe [7]" by (rule div_safe_short) (auto simp: mpz_eval)
  from mpz_pow3_modular [of "mk_mpz False [3]" "mk_mpz False [5]" "mk_mpz False [7]" mpz_init_zero] safe
  show ?thesis by (simp add: mpz_eval)
qed

text \<open>When the base is also the destination, which the comment of the function allows, the
  result is one whatever the base: the destination is set before the base is copied.\<close>

theorem mpz_pow3_same_object:
  assumes "mpz_wf lhs" "mpz_wf rhs" "mpz_wf md" "\<not> fixed_dig lhs" "\<not> neg rhs"
    "dig lhs \<noteq> []" "dig rhs \<noteq> []" "1 < mpz_val md" "div_safe (dig md)"
  shows "yields (mpz_pow3_inpl True False lhs lhs rhs md) 1"
  using assms by (rule mpz_pow3_inpl_same)

theorem mpz_pow3_same_object_witness:
  "yields (mpz_pow3_inpl True False (mk_mpz False [3]) (mk_mpz False [3]) (mk_mpz False [5]) (mk_mpz False [7])) 1"
proof -
  have safe: "div_safe [7]" by (rule div_safe_short) (auto simp: mpz_eval)
  from mpz_pow3_same_object [of "mk_mpz False [3]" "mk_mpz False [5]" "mk_mpz False [7]"] safe
  show ?thesis by (simp add: mpz_eval)
qed

text \<open>Comparison has the sign of the difference, and treats the two zeros as equal.\<close>

theorem mpz_cmp_sign:
  assumes "mpz_wf z1" "mpz_wf z2"
  shows "sgn (mpz_cmp z1 z2) = sgn (mpz_val z1 - mpz_val z2)"
  using assms by (rule mpz_cmp_correct)

theorem mpz_cmp_sign_witness:
  "sgn (mpz_cmp (mk_mpz True [5, 1]) (mk_mpz True [6])) = -1"
  using mpz_cmp_sign [of "mk_mpz True [5, 1]" "mk_mpz True [6]"] by (simp add: mpz_eval)

text \<open>The hash of an integer is its value when that fits a machine integer, and is the value
  reduced modulo two to the word size otherwise; the checked conversion succeeds exactly for
  magnitudes below two to the 31 and the unsigned one exactly for nonnegative numbers below
  two to the 32.\<close>

theorem mpz_machine_integers:
  assumes "mpz_wf z"
  shows "mpz_hash z = word_of_int (mpz_val z) \<and>
    mpz_as_int_checked z = (if \<bar>mpz_val z\<bar> < 2 ^ 31 then Some (word_of_int (mpz_val z)) else None) \<and>
    mpz_as_uint_checked z = (if \<not> neg z \<and> mpz_val z < 2 ^ 32 then Some (word_of_int (mpz_val z)) else None)"
  using mpz_hash_correct [OF assms] mpz_as_int_checked_correct [OF assms] mpz_as_uint_checked_correct [OF assms]
  by blast

theorem mpz_machine_integers_witness:
  "mpz_hash (mk_mpz True [1, 0, 1]) = - 1 \<and> mpz_as_int_checked (mk_mpz True [1, 0, 1]) = None \<and>
   mpz_as_uint_checked (mk_mpz False [1, 0x8000]) = Some 0x80000001"
  using mpz_machine_integers [of "mk_mpz True [1, 0, 1]"] mpz_machine_integers [of "mk_mpz False [1, 0x8000]"]
  by (simp add: mpz_eval)

text \<open>Setting from a machine integer gives its signed value, for the most negative one too.\<close>

theorem mpz_from_machine_integer:
  assumes "\<not> fixed_dig z"
  shows "yields (mpz_set_from_int z val) (sint val)"
  using assms by (rule mpz_set_from_int_correct)

theorem mpz_from_machine_integer_witness:
  "yields (mpz_set_from_int mpz_init_zero 0x80000000) (- 2147483648)"
  using mpz_from_machine_integer [of mpz_init_zero "0x80000000"] by simp

text \<open>C27: Printing a number and reading the digits back gives the number, in every base from 2 to 32;
  all characters are read.\<close>

theorem mpz_text_roundtrip:
  assumes "mpz_wf z" "2 \<le> base" "base \<le> 32" "\<not> fixed_dig dest"
  shows "\<exists>cs d. mpz_as_str_inpl z base [] 97 0 = Some ((if mpz_is_neg z then [45] else []) @ cs) \<and>
    mpz_set_from_str dest cs (mpz_is_neg z) base = Some (d, length cs) \<and> mpz_wf d \<and> mpz_val d = mpz_val z"
proof -
  obtain cs where cs: "mpz_as_str_inpl z base [] 97 0 = Some ((if mpz_is_neg z then [45] else []) @ cs)"
    "\<forall>c \<in> set cs. is_digit base c" "int (str_value base cs) = \<bar>mpz_val z\<bar>"
    using mpz_as_str_inpl_correct [OF assms(1-3)] by blast
  have tw: "takeWhile (is_digit base) cs = cs" using cs(2) by (simp add: takeWhile_eq_all_conv)
  obtain d where d: "mpz_set_from_str dest cs (mpz_is_neg z) base = Some (d, length cs)" "mpz_wf d"
    "mpz_val d = (if mpz_is_neg z then -1 else 1) * \<bar>mpz_val z\<bar>"
    using mpz_set_from_str_correct [OF assms(4), of base cs "mpz_is_neg z"] assms(2,3) cs(3)
    unfolding tw by auto
  have "(if mpz_is_neg z then -1 else 1) * \<bar>mpz_val z\<bar> = mpz_val z"
    by (auto simp: mpz_is_neg_def mpz_val_def sval_def)
  then show ?thesis using cs(1) d by auto
qed

theorem mpz_text_roundtrip_witness:
  "\<exists>cs d. mpz_as_str_inpl (mk_mpz True [255]) 16 [] 97 0 =
      Some ((if mpz_is_neg (mk_mpz True [255]) then [45] else []) @ cs) \<and>
    mpz_set_from_str mpz_init_zero cs (mpz_is_neg (mk_mpz True [255])) 16 = Some (d, length cs) \<and>
    mpz_wf d \<and> mpz_val d = - 255"
  using mpz_text_roundtrip [of "mk_mpz True [255]" 16 mpz_init_zero] by (simp add: mpz_eval)

text \<open>With a thousands separator, a number of three digits gets a separator in front of its
  first digit.\<close>

theorem mpz_text_leading_comma:
  "mpz_as_str_inpl \<lparr>neg = False, fixed_dig = False, alloc = 2, dig = [100]\<rparr> 10 [] 97 44 =
   Some [44, 49, 48, 48]"
  by (rule mpz_as_str_inpl_comma)

text \<open>Writing a number into a buffer of zeros gives its bytes in two's complement, in either byte
  order, and reading them back gives the number modulo 256 to the length of the buffer; a
  negative number must have digits for all the bytes asked for.\<close>

theorem mpz_bytes_roundtrip:
  assumes "mpz_wf z" "0 < len" "\<not> fixed_dig dest" "mpz_is_neg z \<longrightarrow> len \<le> 2 * mlen z"
  shows "\<exists>buf. mpz_as_bytes z big_endian (replicate len 0) = Some buf \<and> length buf = len \<and>
    yields (mpz_set_from_bytes dest big_endian buf) (mpz_val z mod 256 ^ len)"
proof -
  let ?m = "min (length (replicate len (0::nat))) (2 * mlen z)"
  obtain ws where ws: "length ws = ?m" "\<forall>b \<in> set ws. b < 256" "int (pval 256 ws) = mpz_val z mod 256 ^ ?m"
    "mpz_as_bytes z big_endian (replicate len 0) = Some (if big_endian
       then take (length (replicate len (0::nat)) - ?m) (replicate len 0) @ rev ws
       else ws @ drop ?m (replicate len 0))"
    using mpz_as_bytes_correct [OF assms(1) _ refl, of "replicate len 0" big_endian] assms(2) by auto
  let ?buf = "if big_endian then take (len - ?m) (replicate len 0) @ rev ws else ws @ drop ?m (replicate len 0)"
  have p0: "pval 256 (replicate k 0) = 0" for k by (induction k) auto
  have "(if big_endian then rev ?buf else ?buf) = ws @ replicate (len - ?m) 0"
    by (auto simp: min_def rev_replicate)
  then have v: "int (pval 256 (if big_endian then rev ?buf else ?buf)) = mpz_val z mod 256 ^ ?m"
    using ws(3) by (simp add: pval_append p0)
  also have "mpz_val z mod 256 ^ ?m = mpz_val z mod 256 ^ len"
  proof (cases "len \<le> 2 * mlen z")
    case False
    have ok: "digits_ok (dig z)" using assms(1) by (rule mpz_wfD)
    have pos: "mpz_val z = int (dval (dig z))" using assms(4) False by (auto simp: mpz_is_neg_def mpz_val_def sval_def)
    have lt: "mpz_val z < 256 ^ (2 * mlen z)"
      unfolding pos using dval_less [OF ok] by (simp add: DIG_BASE_eq power_mult flip: of_nat_less_iff)
    also have "(256::int) ^ (2 * mlen z) \<le> 256 ^ len" using False by (intro power_increasing) auto
    finally have "mpz_val z mod 256 ^ len = mpz_val z" using pos by (intro mod_pos_pos_trivial) auto
    moreover have "mpz_val z mod 256 ^ (2 * mlen z) = mpz_val z" using lt pos by (intro mod_pos_pos_trivial) auto
    moreover have "?m = 2 * mlen z" using False by simp
    ultimately show ?thesis by simp
  qed simp
  finally have v: "int (pval 256 (if big_endian then rev ?buf else ?buf)) = mpz_val z mod 256 ^ len" .
  have byte: "\<forall>b \<in> set ?buf. b < 256" using ws(2) by (auto dest: in_set_takeD in_set_dropD)
  show ?thesis
    using ws(1,4) mpz_set_from_bytes_correct [OF assms(3) byte, of big_endian, unfolded v]
    by (intro exI [of _ ?buf]) (auto simp: min_def)
qed

theorem mpz_bytes_roundtrip_witness:
  "\<exists>buf. mpz_as_bytes (mk_mpz True [2, 1]) True (replicate 3 0) = Some buf \<and> length buf = 3 \<and>
    yields (mpz_set_from_bytes mpz_init_zero True buf) 16711678"
  using mpz_bytes_roundtrip [of "mk_mpz True [2, 1]" 3 mpz_init_zero True] by (simp add: mpz_eval mpz_is_neg_def)

text \<open>A request for no bytes at all writes outside the buffer, for every number but zero.\<close>

theorem mpz_as_bytes_no_room:
  assumes "dig z \<noteq> []"
  shows "mpz_as_bytes z big_endian [] = None"
  using assms by (rule mpz_as_bytes_empty)

theorem mpz_as_bytes_no_room_witness: "mpz_as_bytes (mk_mpz False [1]) False [] = None"
  using mpz_as_bytes_no_room [of "mk_mpz False [1]" False] by simp

end
