(* ===== verification/Py_Hash.thy ===== *)
theory Py_Hash
  imports Nespy_Prelude
begin

text \<open>
  Open addressing with linear probing, the way the hash tables of \<open>py/map.c\<close> use it, for keys
  whose equality is equality of a canonical form and whose hash depends on that form only. A
  slot is empty (\<open>MP_OBJ_NULL\<close>), deleted (\<open>MP_OBJ_SENTINEL\<close>) or filled with a key.
\<close>

datatype 'k slot = Empty | Deleted | Filled 'k

datatype probe_result = Found nat | Missing "nat option"

definition first_free :: "nat option \<Rightarrow> nat \<Rightarrow> nat option" where
  "first_free avail p = (if avail = None then Some p else avail)"

text \<open>
  The probe sequence of a key with hash \<open>h\<close>, from step \<open>i\<close> on with \<open>m\<close> steps to go: it ends at
  the key, at an empty slot, or when it is back at its start; \<open>avail\<close> is the first slot met
  that an insertion may use.
\<close>

fun probe :: "('k \<Rightarrow> bool) \<Rightarrow> 'k slot list \<Rightarrow> nat \<Rightarrow> nat \<Rightarrow> nat \<Rightarrow> nat option \<Rightarrow> probe_result" where
  "probe eq T h i 0 avail = Missing avail"
| "probe eq T h i (Suc m) avail =
     (let p = (h + i) mod length T
      in case T ! p of
           Empty \<Rightarrow> Missing (first_free avail p)
         | Deleted \<Rightarrow> probe eq T h (Suc i) m (first_free avail p)
         | Filled k \<Rightarrow> if eq k then Found p else probe eq T h (Suc i) m avail)"

text \<open>Slot \<open>p\<close> is on the probe sequence of \<open>h\<close> before any empty slot.\<close>

definition reached :: "'k slot list \<Rightarrow> nat \<Rightarrow> nat \<Rightarrow> bool" where
  "reached T h p \<longleftrightarrow> (\<exists>j < length T. p = (h + j) mod length T \<and>
     (\<forall>i < j. T ! ((h + i) mod length T) \<noteq> Empty))"

definition vacate :: "'k slot list \<Rightarrow> nat \<Rightarrow> 'k slot list" where
  "vacate T p = T[p := if T ! ((p + 1) mod length T) = Empty then Empty else Deleted]"

locale hash_keys =
  fixes canon :: "'k \<Rightarrow> 'c" and hash :: "'k \<Rightarrow> nat" and ok :: "'k \<Rightarrow> bool"
  assumes hash_canon: "ok a \<Longrightarrow> ok b \<Longrightarrow> canon a = canon b \<Longrightarrow> hash a = hash b"
begin

definition table_ok :: "'k slot list \<Rightarrow> bool" where
  "table_ok T \<longleftrightarrow> 
     (\<forall>p k. p < length T \<longrightarrow> T ! p = Filled k \<longrightarrow> ok k \<and> reached T (hash k) p) \<and>
     (\<forall>p q k l. p < length T \<longrightarrow> q < length T \<longrightarrow> T ! p = Filled k \<longrightarrow> T ! q = Filled l \<longrightarrow>
        canon k = canon l \<longrightarrow> p = q)"

lemma table_okD:
  assumes "table_ok T" "p < length T" "T ! p = Filled k"
  shows "ok k" "reached T (hash k) p"
  using assms unfolding table_ok_def by blast+

lemma table_ok_unique:
  "table_ok T \<Longrightarrow> p < length T \<Longrightarrow> q < length T \<Longrightarrow> T ! p = Filled k \<Longrightarrow> T ! q = Filled l \<Longrightarrow>
   canon k = canon l \<Longrightarrow> p = q"
  unfolding table_ok_def by blast

lemma table_ok_replicate: "table_ok (replicate n Empty)"
  by (simp add: table_ok_def)

text \<open>What a probe for \<open>k\<close> finds.\<close>

lemma probe_Found:
  "probe eq T h i m avail = Found p \<Longrightarrow> i + m = length T \<Longrightarrow>
   p < length T \<and> (\<exists>l. T ! p = Filled l \<and> eq l)"
proof (induction m arbitrary: i avail)
  case (Suc m)
  let ?p = "(h + i) mod length T"
  have lt: "?p < length T" using Suc.prems(2) by (intro mod_less_divisor) arith
  show ?case
  proof (cases "T ! ?p")
    case (Filled l)
    with Suc.prems lt Suc.IH [of "Suc i" avail] show ?thesis by (auto simp: Let_def split: if_splits)
  next
    case Deleted
    with Suc.prems Suc.IH [of "Suc i" "first_free avail ?p"] show ?thesis by (simp add: Let_def)
  qed (use Suc in \<open>auto simp: Let_def\<close>)
qed simp

lemma probe_misses:
  "probe eq T h i m avail = Missing a \<Longrightarrow> i + m = length T \<Longrightarrow> \<forall>i' < i. T ! ((h + i') mod length T) \<noteq> Empty \<Longrightarrow>
   j < length T \<Longrightarrow> i \<le> j \<Longrightarrow> \<forall>i' < j. T ! ((h + i') mod length T) \<noteq> Empty \<Longrightarrow>
   T ! ((h + j) mod length T) = Filled l \<Longrightarrow> \<not> eq l"
proof (induction m arbitrary: i avail)
  case (Suc m)
  let ?p = "(h + i) mod length T"
  show ?case
  proof (cases "j = i")
    case True
    with Suc.prems show ?thesis by (auto simp: Let_def split: if_splits)
  next
    case False
    then have "i < j" using Suc.prems(5) by simp
    then have ne: "T ! ?p \<noteq> Empty" using Suc.prems(6) by blast
    then have before: "\<forall>i' < Suc i. T ! ((h + i') mod length T) \<noteq> Empty"
      using Suc.prems(3) less_Suc_eq by metis
    from Suc.prems(1) ne obtain av where "probe eq T h (Suc i) m av = Missing a"
      by (cases "T ! ?p") (auto simp: Let_def split: if_splits)
    from Suc.IH [OF this _ before Suc.prems(4) _ Suc.prems(6,7)] Suc.prems(2) \<open>i < j\<close>
    show ?thesis by simp
  qed
qed simp

lemma probe_avail:
  "probe eq T h i m avail = Missing a \<Longrightarrow> i + m = length T \<Longrightarrow>
   \<forall>i' < i. T ! ((h + i') mod length T) \<noteq> Empty \<Longrightarrow>
   (avail = None \<Longrightarrow> \<forall>i' < i. \<exists>k. T ! ((h + i') mod length T) = Filled k) \<Longrightarrow>
   (\<And>q. avail = Some q \<Longrightarrow> reached T h q \<and> (\<forall>k. T ! q \<noteq> Filled k)) \<Longrightarrow>
   (case a of None \<Rightarrow> \<forall>i' < length T. \<exists>k. T ! ((h + i') mod length T) = Filled k
    | Some q \<Rightarrow> reached T h q \<and> (\<forall>k. T ! q \<noteq> Filled k))"
proof (induction m arbitrary: i avail)
  case 0
  then show ?case by (cases a) auto
next
  case (Suc m)
  let ?p = "(h + i) mod length T"
  have here: "reached T h ?p" using Suc.prems(2,3) unfolding reached_def by (intro exI [of _ i]) simp
  have free: "reached T h q \<and> (\<forall>k. T ! q \<noteq> Filled k)" if "first_free avail ?p = Some q" "\<forall>k. T ! ?p \<noteq> Filled k" for q
    using that Suc.prems(5) here by (cases avail) (auto simp: first_free_def)
  show ?case
  proof (cases "T ! ?p")
    case Empty
    then have "a = first_free avail ?p" using Suc.prems(1) by (simp add: Let_def)
    moreover obtain q where "first_free avail ?p = Some q" by (cases avail) (auto simp: first_free_def)
    ultimately show ?thesis using free Empty by simp
  next
    case Deleted
    have "first_free avail ?p \<noteq> None" by (cases avail) (auto simp: first_free_def)
    then show ?thesis using Suc.prems Deleted free
      by (intro Suc.IH [of "Suc i" "first_free avail ?p"]) (auto simp: Let_def less_Suc_eq)
  next
    case (Filled k)
    then show ?thesis using Suc.prems
      by (intro Suc.IH [of "Suc i" avail]) (auto simp: Let_def less_Suc_eq split: if_splits)
  qed
qed

lemma reached_less: "reached T h p \<Longrightarrow> p < length T"
  unfolding reached_def by (metis gr_implies_not0 mod_less_divisor not_gr_zero)

lemma slot_of_step: "p < length T \<Longrightarrow> \<exists>i < length T. p = (h + i) mod length T"
proof -
  assume p: "p < length T"
  let ?n = "length T"
  let ?i = "(p + ?n - h mod ?n) mod ?n"
  have "(h + ?i) mod ?n = (h mod ?n + (p + ?n - h mod ?n)) mod ?n"
    by (simp add: mod_add_left_eq mod_add_right_eq)
  also have "\<dots> = (p + ?n) mod ?n"
    using p mod_less_divisor [of ?n h] by (intro arg_cong [of _ _ "\<lambda>x. x mod ?n"]) linarith
  also have "\<dots> = p" using p by simp
  finally show ?thesis using p mod_less_divisor [of ?n "p + ?n - h mod ?n"] by (intro exI [of _ ?i]) linarith
qed

lemma probe_cases:
  assumes T: "table_ok T" "0 < length T" and k: "ok k"
    and eq: "\<And>p l. p < length T \<Longrightarrow> T ! p = Filled l \<Longrightarrow> eq l \<longleftrightarrow> canon l = canon k"
  obtains (found) p l where "probe eq T (hash k) 0 (length T) None = Found p" "p < length T"
      "T ! p = Filled l" "canon l = canon k"
  | (missing) q where "probe eq T (hash k) 0 (length T) None = Missing (Some q)" "reached T (hash k) q"
      "\<forall>l. T ! q \<noteq> Filled l" "\<forall>p l. p < length T \<longrightarrow> T ! p = Filled l \<longrightarrow> canon l \<noteq> canon k"
  | (full) "probe eq T (hash k) 0 (length T) None = Missing None" "\<forall>p < length T. \<exists>l. T ! p = Filled l"
      "\<forall>p l. p < length T \<longrightarrow> T ! p = Filled l \<longrightarrow> canon l \<noteq> canon k"
proof (cases "probe eq T (hash k) 0 (length T) None")
  case (Found p)
  with probe_Found [OF this] T(2) eq found show ?thesis by auto
next
  case (Missing a)
  have none: "\<forall>p l. p < length T \<longrightarrow> T ! p = Filled l \<longrightarrow> canon l \<noteq> canon k"
  proof (intro allI impI notI)
    fix p l assume p: "p < length T" "T ! p = Filled l" "canon l = canon k"
    have h: "hash l = hash k" using table_okD(1) [OF T(1) p(1,2)] k p(3) by (rule hash_canon)
    obtain j where "j < length T" "p = (hash k + j) mod length T"
      "\<forall>i < j. T ! ((hash k + i) mod length T) \<noteq> Empty"
      using table_okD(2) [OF T(1) p(1,2)] h unfolding reached_def by auto
    with probe_misses [OF Missing, of j l] p eq [OF p(1,2)] show False by simp
  qed
  note av = probe_avail [OF Missing]
  show ?thesis
  proof (cases a)
    case None
    have "\<forall>p < length T. \<exists>l. T ! p = Filled l" using av None slot_of_step [of _ T "hash k"] by fastforce
    with Missing None none full show ?thesis by blast
  next
    case (Some q)
    with av Missing none missing show ?thesis by auto
  qed
qed

lemma table_ok_insert:
  assumes T: "table_ok T" and k: "ok k" and q: "reached T (hash k) q" "\<forall>l. T ! q \<noteq> Filled l"
    and new: "\<forall>p l. p < length T \<longrightarrow> T ! p = Filled l \<longrightarrow> canon l \<noteq> canon k"
  shows "table_ok (T[q := Filled k])"
proof -
  have keep: "reached (T[q := Filled k]) h p" if "reached T h p" for h p
  proof -
    have "T[q := Filled k] ! r \<noteq> Empty" if "T ! r \<noteq> Empty" "r < length T" for r
      using that by (cases "q = r") auto
    moreover have "r mod length T < length T" for r using reached_less [OF \<open>reached T h p\<close>] by (intro mod_less_divisor) linarith
    ultimately show ?thesis using \<open>reached T h p\<close> unfolding reached_def length_list_update by blast
  qed
  have nth: "T[q := Filled k] ! p = (if p = q then Filled k else T ! p)" for p
    using reached_less [OF q(1)] by (cases "p = q") auto
  show ?thesis unfolding table_ok_def
  proof (intro conjI allI impI)
    fix p l assume p: "p < length (T[q := Filled k])" "T[q := Filled k] ! p = Filled l"
    then show "ok l" "reached (T[q := Filled k]) (hash l) p"
      using table_okD [OF T, of p l] k keep q(1) by (auto simp: nth split: if_splits)
  next
    fix p p' l l'
    assume "p < length (T[q := Filled k])" "p' < length (T[q := Filled k])" "T[q := Filled k] ! p = Filled l"
      "T[q := Filled k] ! p' = Filled l'" "canon l = canon l'"
    then show "p = p'" using table_ok_unique [OF T, of p p' l l'] new
      by (auto simp: nth split: if_splits)
  qed
qed

text \<open>A slot may be marked deleted, or empty when the next slot is.\<close>

lemma table_ok_delete:
  assumes T: "table_ok T" and p: "p < length T" and x: "x = Deleted \<or> x = Empty \<and> T ! ((p + 1) mod length T) = Empty"
  shows "table_ok (T[p := x])"
proof -
  let ?n = "length T"
  have keep: "reached (T[p := x]) (hash l) r" if r: "r < ?n" "T ! r = Filled l" "r \<noteq> p" for r l
  proof -
    obtain j where j: "j < ?n" "r = (hash l + j) mod ?n" "\<forall>i < j. T ! ((hash l + i) mod ?n) \<noteq> Empty"
      using table_okD(2) [OF T r(1,2)] unfolding reached_def by blast
    have "T[p := x] ! ((hash l + i) mod ?n) \<noteq> Empty" if i: "i < j" for i
    proof (cases "(hash l + i) mod ?n = p")
      case True
      have next_slot: "(p + 1) mod ?n = (hash l + Suc i) mod ?n" using True by (metis Suc_eq_plus1 add_Suc_right mod_Suc_eq)
      have "T ! ((hash l + Suc i) mod ?n) \<noteq> Empty"
      proof (cases "Suc i = j")
        case True
        then show ?thesis using j(2) r(2) by auto
      next
        case False
        then show ?thesis using j(3) i by (metis Suc_lessI)
      qed
      then show ?thesis using True p x next_slot by auto
    next
      case False
      then show ?thesis using j(3) i by simp
    qed
    with j show ?thesis unfolding reached_def by auto
  qed
  have filled: "r \<noteq> p \<and> T ! r = Filled l" if "r < ?n" "T[p := x] ! r = Filled l" for r l
    using that p x by (auto simp: nth_list_update split: if_splits)
  show ?thesis unfolding table_ok_def length_list_update
  proof (intro conjI allI impI)
    fix r l assume "r < ?n" "T[p := x] ! r = Filled l"
    with filled [OF this] show "ok l" "reached (T[p := x]) (hash l) r"
      using table_okD(1) [OF T, of r l] keep by simp_all
  next
    fix r r' l l'
    assume a: "r < ?n" "r' < ?n" "T[p := x] ! r = Filled l" "T[p := x] ! r' = Filled l'" "canon l = canon l'"
    show "r = r'" using filled [OF a(1,3)] filled [OF a(2,4)] table_ok_unique [OF T a(1,2) _ _ a(5)] by simp
  qed
qed

lemma table_ok_vacate: "table_ok T \<Longrightarrow> p < length T \<Longrightarrow> table_ok (vacate T p)"
  unfolding vacate_def by (rule table_ok_delete) auto

end

end
