(* ===== verification/Py_Obj.thy ===== *)
theory Py_Obj
  imports Nespy_Prelude
begin

unbundle bit_operations_syntax

text \<open>
  The objects that serve as dictionary keys, with their equality (\<open>mp_obj_equal\<close> of
  \<open>py/obj.c\<close>, \<open>mp_obj_str_equal\<close> of \<open>py/objstr.c\<close>, \<open>bool_binary_op\<close> of \<open>py/objbool.c\<close>) and hash
  (\<open>mp_unary_op\<close> of \<open>py/runtime.c\<close>, \<open>qstr_compute_hash\<close> of \<open>py/qstr.c\<close>, \<open>mp_obj_int_unary_op\<close> of
  \<open>py/objint_mpz.c\<close>): \<open>None\<close>, the booleans, small integers, integers on the heap, interned strings
  (qstrs), strings on the heap with their cached hash, and other objects, which compare by identity
  and are hashed by address, or not hashable. An integer on the heap is its address and its value:
  that \<open>mpz_cmp\<close> and \<open>mpz_hash\<close> compute with the value is the subject of \<open>Mpz\<close> and \<open>Mpz_Conv\<close>; it may
  be small, since the results of arithmetic are not converted back. Floating point
  and complex numbers, bytes and user-defined equality are left out. Object pointers are equal
  when the model's values are, so a string on the heap carries its address, and so does the
  constant \<open>None\<close>, which is hashed by it.
\<close>

type_synonym byte = "8 word"

datatype mp_obj =
    None_obj "32 word"
  | Bool_obj bool
  | Small_int int
  | Int_obj ptr int
  | Qstr "byte list"
  | Str_obj ptr "32 word" "byte list"
  | Other_obj "32 word"
  | Unhashable_obj ptr

fun MP_OBJ_IS_QSTR :: "mp_obj \<Rightarrow> bool" where
  "MP_OBJ_IS_QSTR (Qstr _) = True"
| "MP_OBJ_IS_QSTR _ = False"

fun IS_TYPE_str :: "mp_obj \<Rightarrow> bool" where
  "IS_TYPE_str (Str_obj _ _ _) = True"
| "IS_TYPE_str _ = False"

definition MP_OBJ_IS_STR :: "mp_obj \<Rightarrow> bool" where
  "MP_OBJ_IS_STR o1 \<longleftrightarrow> MP_OBJ_IS_QSTR o1 \<or> IS_TYPE_str o1"

fun MP_OBJ_IS_SMALL_INT :: "mp_obj \<Rightarrow> bool" where
  "MP_OBJ_IS_SMALL_INT (Small_int _) = True"
| "MP_OBJ_IS_SMALL_INT _ = False"

definition Q_HASH_MASK :: "32 word" where
  "Q_HASH_MASK = 0xffff"

fun hash_loop :: "32 word \<Rightarrow> byte list \<Rightarrow> 32 word" where
  "hash_loop hash [] = hash"
| "hash_loop hash (b # data) = hash_loop ((push_bit 5 hash + hash) XOR ucast b) data"

definition qstr_compute_hash :: "byte list \<Rightarrow> 32 word" where
  "qstr_compute_hash data =
     (let hash = hash_loop 5381 data AND Q_HASH_MASK
      in if hash = 0 then hash + 1 else hash)"

fun GET_STR_HASH :: "mp_obj \<Rightarrow> 32 word" where
  "GET_STR_HASH (Qstr d) = qstr_compute_hash d"
| "GET_STR_HASH (Str_obj _ h _) = h"
| "GET_STR_HASH _ = 0"

fun GET_STR_DATA :: "mp_obj \<Rightarrow> byte list" where
  "GET_STR_DATA (Qstr d) = d"
| "GET_STR_DATA (Str_obj _ _ d) = d"
| "GET_STR_DATA _ = []"

definition mp_obj_str_equal :: "mp_obj \<Rightarrow> mp_obj \<Rightarrow> bool" where
  "mp_obj_str_equal s1 s2 =
     (if MP_OBJ_IS_QSTR s1 \<and> MP_OBJ_IS_QSTR s2 then s1 = s2
      else
        let h1 = GET_STR_HASH s1; h2 = GET_STR_HASH s2
        in if h1 \<noteq> 0 \<and> h2 \<noteq> 0 \<and> h1 \<noteq> h2 then False
           else
             let d1 = GET_STR_DATA s1; d2 = GET_STR_DATA s2
             in if length d1 \<noteq> length d2 then False else d1 = d2)"

text \<open>
  The generic comparison calls \<open>binary_op\<close> of the first object's type, which the booleans and the
  integers on the heap have here: that of the booleans compares again with the value of the boolean
  as a small integer, that of the integers compares the values of two integers, and again with
  \<open>0\<close> or \<open>1\<close> when the second object is a boolean.
\<close>

fun bool_as_int :: "bool \<Rightarrow> mp_obj" where
  "bool_as_int b = Small_int (of_bool b)"

fun is_bool :: "mp_obj \<Rightarrow> bool" where
  "is_bool (Bool_obj _) = True"
| "is_bool _ = False"

fun is_none :: "mp_obj \<Rightarrow> bool" where
  "is_none (None_obj _) = True"
| "is_none _ = False"

function mp_obj_equal :: "mp_obj \<Rightarrow> mp_obj \<Rightarrow> bool" where
  "mp_obj_equal o1 o2 =
     (if o1 = o2 then True
      else if is_none o1 \<or> is_none o2 then False
      else if MP_OBJ_IS_SMALL_INT o1 \<and> MP_OBJ_IS_SMALL_INT o2 then False
      else
        let (a, b) = (if MP_OBJ_IS_SMALL_INT o1 then (o2, o1) else (o1, o2))
        in if MP_OBJ_IS_STR a then (if MP_OBJ_IS_STR b then mp_obj_str_equal a b else False)
           else if MP_OBJ_IS_STR b then False
           else case a of
                  Bool_obj v \<Rightarrow> mp_obj_equal (bool_as_int v) b
                | Int_obj p v \<Rightarrow>
                    (case b of
                       Small_int w \<Rightarrow> v = w
                     | Int_obj q w \<Rightarrow> v = w
                     | Bool_obj w \<Rightarrow> mp_obj_equal a (bool_as_int w)
                     | _ \<Rightarrow> False)
                | _ \<Rightarrow> False)"
  by pat_completeness auto
termination
  by (relation "measure (\<lambda>(x, y). of_bool (is_bool x) + of_bool (is_bool y))")
    (auto split: if_splits elim: MP_OBJ_IS_SMALL_INT.elims)

text \<open>The value of a small integer made from a machine word: the topmost bit is lost.\<close>

definition small_int_word :: "32 word \<Rightarrow> 32 word" where
  "small_int_word w = signed_take_bit 30 w"

text \<open>The hash, always the value of a small integer; \<open>None\<close> is the exception for an object that is not hashable.\<close>

fun obj_hash :: "mp_obj \<Rightarrow> 32 word option" where
  "obj_hash (None_obj a) = Some (small_int_word a)"
| "obj_hash (Bool_obj b) = Some (word_of_int (of_bool b))"
| "obj_hash (Small_int v) = Some (small_int_word (word_of_int v))"
| "obj_hash (Int_obj p v) = Some (small_int_word (word_of_int v))"
| "obj_hash (Qstr d) = Some (small_int_word (qstr_compute_hash d))"
| "obj_hash (Str_obj p h d) = Some (small_int_word (if h = 0 then qstr_compute_hash d else h))"
| "obj_hash (Other_obj a) = Some (small_int_word a)"
| "obj_hash (Unhashable_obj _) = None"

section \<open>Equality is equality of what the objects stand for\<close>

datatype key = Key_int int | Key_str "byte list" | Key_obj mp_obj

fun canon :: "mp_obj \<Rightarrow> key" where
  "canon (Bool_obj b) = Key_int (of_bool b)"
| "canon (Small_int v) = Key_int v"
| "canon (Int_obj _ v) = Key_int v"
| "canon (Qstr d) = Key_str d"
| "canon (Str_obj _ _ d) = Key_str d"
| "canon x = Key_obj x"

text \<open>The cached hash of a string is absent or right.\<close>

fun obj_ok :: "mp_obj \<Rightarrow> bool" where
  "obj_ok (Str_obj _ h d) \<longleftrightarrow> h = 0 \<or> h = qstr_compute_hash d"
| "obj_ok _ \<longleftrightarrow> True"

lemma qstr_compute_hash_nonzero: "qstr_compute_hash d \<noteq> 0"
  by (simp add: qstr_compute_hash_def Let_def)

lemma mp_obj_str_equal_canon:
  assumes "obj_ok a" "obj_ok b" "MP_OBJ_IS_STR a" "MP_OBJ_IS_STR b"
  shows "mp_obj_str_equal a b \<longleftrightarrow> canon a = canon b"
  using assms by (cases a; cases b) (auto simp: mp_obj_str_equal_def MP_OBJ_IS_STR_def Let_def)

declare mp_obj_equal.simps [simp del]

lemma mp_obj_equal_int:
  "mp_obj_equal (Small_int v) (Small_int w) \<longleftrightarrow> v = w"
  "mp_obj_equal (Bool_obj b) (Small_int w) \<longleftrightarrow> of_bool b = w"
  "mp_obj_equal (Small_int v) (Bool_obj b) \<longleftrightarrow> v = of_bool b"
  "mp_obj_equal (Bool_obj b) (Bool_obj c) \<longleftrightarrow> b = c"
  "mp_obj_equal (Int_obj p v) (Small_int w) \<longleftrightarrow> v = w"
  "mp_obj_equal (Small_int v) (Int_obj p w) \<longleftrightarrow> v = w"
  "mp_obj_equal (Int_obj p v) (Int_obj q w) \<longleftrightarrow> v = w"
  "mp_obj_equal (Bool_obj b) (Int_obj p w) \<longleftrightarrow> of_bool b = w"
  "mp_obj_equal (Int_obj p v) (Bool_obj b) \<longleftrightarrow> v = of_bool b"
proof -
  show ii: "mp_obj_equal (Small_int v) (Small_int w) \<longleftrightarrow> v = w" for v w
    by (subst mp_obj_equal.simps) simp
  show bi: "mp_obj_equal (Bool_obj b) (Small_int w) \<longleftrightarrow> of_bool b = w" for b w
    by (subst mp_obj_equal.simps) (simp add: MP_OBJ_IS_STR_def ii)
  show ib: "mp_obj_equal (Small_int v) (Bool_obj b) \<longleftrightarrow> v = of_bool b" for v b
    by (subst mp_obj_equal.simps) (auto simp: MP_OBJ_IS_STR_def ii)
  show "mp_obj_equal (Bool_obj b) (Bool_obj c) \<longleftrightarrow> b = c"
    by (subst mp_obj_equal.simps) (auto simp: MP_OBJ_IS_STR_def ib)
  show hi: "mp_obj_equal (Int_obj p v) (Small_int w) \<longleftrightarrow> v = w" for p v w
    by (subst mp_obj_equal.simps) (simp add: MP_OBJ_IS_STR_def)
  show ih: "mp_obj_equal (Small_int v) (Int_obj p w) \<longleftrightarrow> v = w" for v p w
    by (subst mp_obj_equal.simps) (auto simp: MP_OBJ_IS_STR_def)
  show "mp_obj_equal (Int_obj p v) (Int_obj q w) \<longleftrightarrow> v = w"
    by (subst mp_obj_equal.simps) (auto simp: MP_OBJ_IS_STR_def)
  show "mp_obj_equal (Bool_obj b) (Int_obj p w) \<longleftrightarrow> of_bool b = w"
    by (subst mp_obj_equal.simps) (simp add: MP_OBJ_IS_STR_def ih)
  show "mp_obj_equal (Int_obj p v) (Bool_obj b) \<longleftrightarrow> v = of_bool b"
    by (subst mp_obj_equal.simps) (simp add: MP_OBJ_IS_STR_def hi)
qed

fun IS_TYPE_int :: "mp_obj \<Rightarrow> bool" where
  "IS_TYPE_int (Int_obj _ _) = True"
| "IS_TYPE_int _ = False"

definition int_like :: "mp_obj \<Rightarrow> bool" where
  "int_like x \<longleftrightarrow> MP_OBJ_IS_SMALL_INT x \<or> is_bool x \<or> IS_TYPE_int x"

lemma mp_obj_equal_str:
  "MP_OBJ_IS_STR a \<Longrightarrow> MP_OBJ_IS_STR b \<Longrightarrow> mp_obj_equal a b \<longleftrightarrow> a = b \<or> mp_obj_str_equal a b"
  by (subst mp_obj_equal.simps) (cases a; cases b; auto simp: MP_OBJ_IS_STR_def)

lemma mp_obj_equal_small_int_other: "\<not> int_like x \<Longrightarrow> \<not> mp_obj_equal (Small_int v) x"
  by (subst mp_obj_equal.simps) (cases x; simp add: MP_OBJ_IS_STR_def int_like_def)

lemma mp_obj_equal_int_other:
  assumes "int_like a" "\<not> int_like b"
  shows "\<not> mp_obj_equal a b"
  using assms mp_obj_equal_small_int_other
  by (cases a; cases b) (auto simp: mp_obj_equal.simps [of "Bool_obj _"] mp_obj_equal.simps [of "Int_obj _ _"] MP_OBJ_IS_STR_def int_like_def)

lemma mp_obj_equal_other:
  assumes "\<not> int_like a" "\<not> (MP_OBJ_IS_STR a \<and> MP_OBJ_IS_STR b)"
  shows "mp_obj_equal a b \<longleftrightarrow> a = b"
  using assms by (subst mp_obj_equal.simps) (cases a; auto simp: MP_OBJ_IS_STR_def int_like_def)

theorem mp_obj_equal_canon:
  assumes "obj_ok a" "obj_ok b"
  shows "mp_obj_equal a b \<longleftrightarrow> canon a = canon b"
proof -
  consider (str) "MP_OBJ_IS_STR a" "MP_OBJ_IS_STR b" | (int) "int_like a" "int_like b"
    | (mixed) "int_like a" "\<not> int_like b" | (other) "\<not> int_like a" "\<not> (MP_OBJ_IS_STR a \<and> MP_OBJ_IS_STR b)"
    by (cases a) (auto simp: MP_OBJ_IS_STR_def int_like_def)
  then show ?thesis
  proof cases
    case str
    then show ?thesis using mp_obj_str_equal_canon [OF assms] by (auto simp: mp_obj_equal_str)
  next
    case int
    then show ?thesis by (cases a; cases b) (auto simp: mp_obj_equal_int int_like_def)
  next
    case mixed
    then show ?thesis using mp_obj_equal_int_other [OF mixed]
      by (cases a; cases b) (auto simp: int_like_def)
  next
    case other
    then have "canon a = canon b \<longleftrightarrow> a = b"
      by (cases a; cases b) (auto simp: MP_OBJ_IS_STR_def int_like_def)
    with mp_obj_equal_other [OF other] show ?thesis by simp
  qed
qed

lemma small_int_word_bool [simp]: "small_int_word 0 = 0" "small_int_word 1 = 1"
  by (simp_all add: small_int_word_def)

theorem obj_hash_canon:
  assumes "obj_ok a" "obj_ok b" "canon a = canon b"
  shows "obj_hash a = obj_hash b"
  using assms by (cases a; cases b) auto

text \<open>
  C33: Objects that compare equal have the same hash, across representations: the boolean \<open>True\<close>
  and the integer \<open>1\<close>, an integer on the heap and a small one with its value, an interned and a heap string with the same bytes, with or without a
  cached hash. Equality is symmetric.
\<close>

theorem equal_objects_hash_equal:
  assumes "obj_ok a" "obj_ok b" "mp_obj_equal a b"
  shows "obj_hash a = obj_hash b \<and> mp_obj_equal b a"
  using assms obj_hash_canon [OF assms(1,2)] mp_obj_equal_canon [OF assms(1,2)] mp_obj_equal_canon [OF assms(2,1)]
  by auto

theorem equal_objects_hash_equal_witness:
  "obj_hash (Qstr [97, 98]) = obj_hash (Str_obj 5 0 [97, 98]) \<and> mp_obj_equal (Str_obj 5 0 [97, 98]) (Qstr [97, 98])"
proof -
  have "mp_obj_equal (Qstr [97, 98]) (Str_obj 5 0 [97, 98])" by (simp add: mp_obj_equal_canon)
  from equal_objects_hash_equal [OF _ _ this] show ?thesis by simp
qed

end
