(* ===== verification/Py_Map.thy ===== *)
theory Py_Map
  imports Py_Hash Py_Obj
begin

unbundle bit_operations_syntax

text \<open>
  MicroPython's maps, \<open>py/map.c\<close>: hash tables with open addressing, and ordered arrays. A slot's key is \<open>Empty\<close> (\<open>MP_OBJ_NULL\<close>), \<open>Deleted\<close> (\<open>MP_OBJ_SENTINEL\<close>) or an object; a
  value is \<open>None\<close> for \<open>MP_OBJ_NULL\<close>. A pointer to a slot is its index. The configuration has
  \<open>MICROPY_PY_COLLECTIONS_ORDEREDDICT\<close>; allocation does not fail. The
  result \<open>None\<close> of an operation is a failed assertion, an exception for a key that is not
  hashable, or no return. Growing a table calls the lookup again, so lookups have the depth of
  this nesting as fuel.
\<close>

section \<open>Sizes\<close>

definition hash_allocation_sizes :: "nat list" where
  "hash_allocation_sizes =
     [0, 2, 4, 6, 8, 10, 12,
      17, 23, 29, 37, 47, 59, 73,
      97, 127, 167, 223, 293, 389, 521, 691, 919, 1223, 1627, 2161,
      3229, 4831, 7243, 10861, 16273, 24407, 36607, 54907]"

fun alloc_loop :: "nat list \<Rightarrow> nat \<Rightarrow> nat" where
  "alloc_loop [] x = (x + x div 2) OR 1"
| "alloc_loop (a # sizes) x = (if a \<ge> x then a else alloc_loop sizes x)"

definition get_hash_alloc_greater_or_equal_to :: "nat \<Rightarrow> nat" where
  "get_hash_alloc_greater_or_equal_to x = alloc_loop hash_allocation_sizes x"

section \<open>Maps\<close>

datatype lookup_kind = LOOKUP | ADD_IF_NOT_FOUND | REMOVE_IF_FOUND | ADD_IF_NOT_FOUND_OR_REMOVE_IF_FOUND

type_synonym 'v elem = "mp_obj slot \<times> 'v option"

record 'v mp_map =
  all_keys_are_qstrs :: bool
  is_fixed :: bool
  is_ordered :: bool
  used :: nat
  alloc :: nat
  table :: "'v elem list"

definition mp_map_init :: "nat \<Rightarrow> 'v mp_map" where
  "mp_map_init n =
     \<lparr>all_keys_are_qstrs = True, is_fixed = False, is_ordered = False, used = 0, alloc = n,
      table = replicate n (Empty, None)\<rparr>"

definition mp_map_init_fixed_table :: "'v elem list \<Rightarrow> 'v mp_map" where
  "mp_map_init_fixed_table tbl =
     \<lparr>all_keys_are_qstrs = True, is_fixed = True, is_ordered = True, used = length tbl,
      alloc = length tbl, table = tbl\<rparr>"

definition mp_map_deinit :: "'v mp_map \<Rightarrow> 'v mp_map" where
  "mp_map_deinit m = (if \<not> is_fixed m then m\<lparr>table := []\<rparr> else m)\<lparr>used := 0, alloc := 0\<rparr>"

definition mp_map_clear :: "'v mp_map \<Rightarrow> 'v mp_map" where
  "mp_map_clear m = m\<lparr>alloc := 0, used := 0, all_keys_are_qstrs := True, is_fixed := False, table := []\<rparr>"

type_synonym 'v lookup_fn = "'v mp_map \<Rightarrow> mp_obj \<Rightarrow> lookup_kind \<Rightarrow> (nat option \<times> 'v mp_map) option"

fun rehash_loop :: "'v lookup_fn \<Rightarrow> 'v elem list \<Rightarrow> 'v mp_map \<Rightarrow> 'v mp_map option" where
  "rehash_loop lk [] m = Some m"
| "rehash_loop lk ((Filled k, v) # old) m =
     Option.bind (lk m k ADD_IF_NOT_FOUND) (\<lambda>(slot, m1).
       case slot of
         None \<Rightarrow> None
       | Some p \<Rightarrow> rehash_loop lk old (m1\<lparr>table := (table m1)[p := (fst (table m1 ! p), v)]\<rparr>))"
| "rehash_loop lk ((_, v) # old) m = rehash_loop lk old m"

definition mp_map_rehash :: "'v lookup_fn \<Rightarrow> 'v mp_map \<Rightarrow> 'v mp_map option" where
  "mp_map_rehash lk m =
     (let new_alloc = get_hash_alloc_greater_or_equal_to (alloc m + 1)
      in rehash_loop lk (table m)
           (m\<lparr>alloc := new_alloc, used := 0, all_keys_are_qstrs := True,
              table := replicate new_alloc (Empty, None)\<rparr>))"

definition key_matches :: "bool \<Rightarrow> mp_obj \<Rightarrow> mp_obj \<Rightarrow> bool" where
  "key_matches compare_only_ptrs index k \<longleftrightarrow> k = index \<or> (\<not> compare_only_ptrs \<and> mp_obj_equal k index)"

fun slot_matches :: "(mp_obj \<Rightarrow> bool) \<Rightarrow> mp_obj slot \<Rightarrow> bool" where
  "slot_matches eq (Filled k) = eq k"
| "slot_matches eq _ = False"

text \<open>The linear search of an ordered array, from slot \<open>i\<close> on.\<close>

fun ordered_find :: "bool \<Rightarrow> mp_obj \<Rightarrow> 'v elem list \<Rightarrow> nat \<Rightarrow> nat option" where
  "ordered_find cop index [] i = None"
| "ordered_find cop index ((Filled k, v) # elems) i =
     (if key_matches cop index k then Some i else ordered_find cop index elems (Suc i))"
| "ordered_find cop index (_ # elems) i = ordered_find cop index elems (Suc i)"

definition ordered_lookup :: "bool \<Rightarrow> 'v lookup_fn" where
  "ordered_lookup cop m index kind =
     (case ordered_find cop index (take (used m) (table m)) 0 of
        Some i \<Rightarrow>
          if kind = REMOVE_IF_FOUND then
            let value = snd (table m ! i);
                u = used m - 1;
                moved = take i (table m) @ drop (Suc i) (take (used m) (table m))
            in Some (Some u, m\<lparr>used := u, table := moved @ (Empty, value) # drop (used m) (table m)\<rparr>)
          else Some (Some i, m)
      | None \<Rightarrow>
          if kind \<noteq> ADD_IF_NOT_FOUND then Some (None, m)
          else
            let m1 = (if used m = alloc m
                      then m\<lparr>alloc := alloc m + 4, table := table m @ replicate 4 (Empty, None)\<rparr> else m);
                p = used m1;
                m2 = m1\<lparr>used := p + 1, table := (table m1)[p := (Filled index, snd (table m1 ! p))]\<rparr>
            in Some (Some p, if \<not> MP_OBJ_IS_QSTR index then m2\<lparr>all_keys_are_qstrs := False\<rparr> else m2))"

definition insert_at :: "mp_obj \<Rightarrow> nat \<Rightarrow> 'v mp_map \<Rightarrow> nat option \<times> 'v mp_map" where
  "insert_at index p m =
     (let m1 = m\<lparr>used := used m + 1, table := (table m)[p := (Filled index, None)]\<rparr>
      in (Some p, if \<not> MP_OBJ_IS_QSTR index then m1\<lparr>all_keys_are_qstrs := False\<rparr> else m1))"

definition delete_at :: "nat \<Rightarrow> 'v mp_map \<Rightarrow> 'v mp_map" where
  "delete_at p m =
     m\<lparr>used := used m - 1,
       table := (table m)[p := (if fst (table m ! ((p + 1) mod alloc m)) = Empty then Empty else Deleted,
                                snd (table m ! p))]\<rparr>"

partial_function (option) lookup_loop ::
    "('v mp_map \<Rightarrow> 'v mp_map option) \<Rightarrow> mp_obj \<Rightarrow> lookup_kind \<Rightarrow> bool \<Rightarrow> nat \<Rightarrow> 'v mp_map \<Rightarrow> nat \<Rightarrow> nat
      \<Rightarrow> nat option \<Rightarrow> (nat option \<times> 'v mp_map) option" where
  "lookup_loop rehash index kind cop hash m pos start_pos avail =
     (let slot = fst (table m ! pos)
      in if slot = Empty then
           Some (if kind = ADD_IF_NOT_FOUND then insert_at index (the (first_free avail pos)) m else (None, m))
         else if slot_matches (key_matches cop index) slot then
           Some (Some pos, if kind = REMOVE_IF_FOUND then delete_at pos m else m)
         else
           let avail1 = (if slot = Deleted then first_free avail pos else avail);
               pos1 = (pos + 1) mod alloc m
           in if pos1 = start_pos then
                if kind = ADD_IF_NOT_FOUND then
                  if avail1 \<noteq> None then Some (insert_at index (the avail1) m)
                  else Option.bind (rehash m) (\<lambda>m1.
                         let p = hash mod alloc m1 in lookup_loop rehash index kind cop hash m1 p p avail1)
                else Some (None, m)
              else lookup_loop rehash index kind cop hash m pos1 start_pos avail1)"

definition lookup_body :: "('v mp_map \<Rightarrow> 'v mp_map option) \<Rightarrow> 'v lookup_fn" where
  "lookup_body rehash m index kind =
     (if is_fixed m \<and> kind \<noteq> LOOKUP then None
      else if all_keys_are_qstrs m \<and> \<not> MP_OBJ_IS_QSTR index \<and> \<not> IS_TYPE_str index \<and> kind \<noteq> ADD_IF_NOT_FOUND
      then Some (None, m)
      else
        let cop = all_keys_are_qstrs m \<and> \<not> (\<not> MP_OBJ_IS_QSTR index \<and> IS_TYPE_str index)
        in if is_ordered m then ordered_lookup cop m index kind
           else if alloc m = 0 \<and> kind \<noteq> ADD_IF_NOT_FOUND then Some (None, m)
           else Option.bind (if alloc m = 0 then rehash m else Some m) (\<lambda>m1.
             Option.bind (obj_hash index) (\<lambda>hash.
               let pos = unat hash mod alloc m1
               in lookup_loop rehash index kind cop (unat hash) m1 pos pos None)))"

primrec mp_map_lookup :: "nat \<Rightarrow> 'v lookup_fn" where
  "mp_map_lookup 0 = (\<lambda>m index kind. None)"
| "mp_map_lookup (Suc n) = lookup_body (mp_map_rehash (mp_map_lookup n))"

text \<open>The object of a filled slot.\<close>

fun slot_obj :: "mp_obj slot \<Rightarrow> mp_obj option" where
  "slot_obj (Filled k) = Some k"
| "slot_obj _ = None"

text \<open>Assigning to the value of the element a lookup returned.\<close>

definition set_value :: "nat \<Rightarrow> 'v option \<Rightarrow> 'v mp_map \<Rightarrow> 'v mp_map" where
  "set_value p v m = m\<lparr>table := (table m)[p := (fst (table m ! p), v)]\<rparr>"

text \<open>The first filled slot (\<open>MP_MAP_SLOT_IS_FILLED\<close>) of a table whose first slot has index \<open>pos\<close>.\<close>

fun first_filled :: "mp_obj slot list \<Rightarrow> nat \<Rightarrow> nat option" where
  "first_filled [] pos = None"
| "first_filled (Filled k # T) pos = Some pos"
| "first_filled (_ # T) pos = first_filled T (Suc pos)"

section \<open>Sizes grow\<close>

lemma or_one_ge: "x \<le> (x OR 1 :: nat)"
  using or_one_eq [of x] by (simp del: One_nat_def)

lemma alloc_loop_ge: "x \<le> alloc_loop sizes x"
proof (induction sizes)
  case Nil
  have "x \<le> x + x div 2" by simp
  also have "\<dots> \<le> (x + x div 2) OR 1" by (rule or_one_ge)
  finally show ?case by simp
qed simp

lemma get_hash_alloc_ge: "x \<le> get_hash_alloc_greater_or_equal_to x"
  by (simp add: get_hash_alloc_greater_or_equal_to_def alloc_loop_ge)

section \<open>Keys\<close>

definition key_ok :: "mp_obj \<Rightarrow> bool" where
  "key_ok k \<longleftrightarrow> obj_ok k \<and> obj_hash k \<noteq> None"

definition key_hash :: "mp_obj \<Rightarrow> nat" where
  "key_hash k = unat (the (obj_hash k))"

interpretation hk: hash_keys canon key_hash key_ok
  by unfold_locales (auto simp: key_ok_def key_hash_def dest: obj_hash_canon)

lemma key_ok_hash: "key_ok k \<Longrightarrow> \<exists>w. obj_hash k = Some w \<and> unat w = key_hash k"
  by (auto simp: key_ok_def key_hash_def)

text \<open>Comparing pointers only is enough when the stored keys are interned strings.\<close>

lemma key_matches_canon:
  assumes "key_ok index" "key_ok k" "cop \<longrightarrow> MP_OBJ_IS_QSTR k \<and> \<not> IS_TYPE_str index"
  shows "key_matches cop index k \<longleftrightarrow> canon k = canon index"
proof (cases cop)
  case True
  then show ?thesis using assms(3) by (cases k; cases index) (auto simp: key_matches_def)
next
  case False
  then show ?thesis using mp_obj_equal_canon [of k index] assms by (auto simp: key_matches_def key_ok_def)
qed

section \<open>Entries of a table\<close>

fun entries :: "'v elem list \<Rightarrow> (key \<times> 'v option) list" where
  "entries [] = []"
| "entries ((Filled k, v) # T) = (canon k, v) # entries T"
| "entries (_ # T) = entries T"

definition filled_count :: "mp_obj slot list \<Rightarrow> nat" where
  "filled_count T = length (filter (\<lambda>s. slot_obj s \<noteq> None) T)"

lemma entries_append [simp]: "entries (S @ T) = entries S @ entries T"
  by (induction S rule: entries.induct) auto

lemma entries_at:
  assumes "p < length T"
  shows "entries T = entries (take p T) @ entries [T ! p] @ entries (drop (Suc p) T)"
    "entries (T[p := x]) = entries (take p T) @ entries [x] @ entries (drop (Suc p) T)"
  using assms by (simp_all add: id_take_nth_drop [of p T, symmetric] upd_conv_take_nth_drop flip: entries_append)

lemma entries_fst: "c \<in> fst ` set (entries T) \<longleftrightarrow> (\<exists>p < length T. \<exists>k. fst (T ! p) = Filled k \<and> canon k = c)"
proof -
  have "c \<in> fst ` set (entries T) \<longleftrightarrow> (\<exists>x \<in> set T. \<exists>k. fst x = Filled k \<and> canon k = c)"
    by (induction T rule: entries.induct) auto
  then show ?thesis by (simp only: Bex_def in_set_conv_nth) blast
qed

lemma entries_None:
  "map_of (entries T) c = None \<longleftrightarrow> (\<forall>p k. p < length T \<longrightarrow> fst (T ! p) = Filled k \<longrightarrow> canon k \<noteq> c)"
  by (auto simp: map_of_eq_None_iff entries_fst)

abbreviation unique_keys :: "'v elem list \<Rightarrow> bool" where
  "unique_keys T \<equiv> distinct (map fst (entries T))"

lemma table_ok_unique_keys: "hk.table_ok (map fst T) \<Longrightarrow> unique_keys T"
proof -
  assume "hk.table_ok (map fst T)"
  then have "\<forall>p q k l. p < length T \<longrightarrow> q < length T \<longrightarrow> fst (T ! p) = Filled k \<longrightarrow> fst (T ! q) = Filled l \<longrightarrow>
      canon k = canon l \<longrightarrow> p = q" using hk.table_ok_unique [of "map fst T"] by (metis length_map nth_map)
  then show ?thesis
  proof (induction T)
    case (Cons x T)
    have T: "\<forall>p q k l. p < length T \<longrightarrow> q < length T \<longrightarrow> fst (T ! p) = Filled k \<longrightarrow> fst (T ! q) = Filled l \<longrightarrow>
        canon k = canon l \<longrightarrow> p = q"
      using Cons.prems by (metis Suc_inject Suc_less_eq length_Cons nth_Cons_Suc)
    show ?case
    proof (cases "fst x")
      case (Filled k)
      have "canon k \<notin> fst ` set (entries T)"
      proof
        assume "canon k \<in> fst ` set (entries T)"
        then obtain q l where "q < length T" "fst (T ! q) = Filled l" "canon l = canon k"
          by (auto simp: entries_fst)
        with Cons.prems [rule_format, of 0 "Suc q" k l] Filled show False by simp
      qed
      with Cons.IH [OF T] Filled show ?thesis by (cases x) auto
    qed (use Cons.IH [OF T] in \<open>cases x; simp\<close>)+
  qed simp
qed

lemma map_of_insert_middle: "c \<notin> fst ` set xs \<Longrightarrow> map_of (xs @ (c, v) # ys) = (map_of (xs @ ys))(c \<mapsto> v)"
  by (induction xs) (auto simp: fun_upd_twist)

lemma map_of_delete_middle:
  "distinct (map fst (xs @ (c, v) # ys)) \<Longrightarrow> map_of (xs @ ys) = (map_of (xs @ (c, v) # ys))(c := None)"
proof -
  assume d: "distinct (map fst (xs @ (c, v) # ys))"
  then have "map_of (xs @ ys) c = None" by (auto simp: map_of_eq_None_iff)
  then have "map_of (xs @ ys) = (map_of (xs @ ys))(c := None)" by (metis fun_upd_triv)
  also have "\<dots> = (map_of (xs @ (c, v) # ys))(c := None)" using d by (subst map_of_insert_middle) auto
  finally show ?thesis .
qed

lemma not_filled_entries: "\<forall>k. fst x \<noteq> Filled k \<Longrightarrow> entries [x] = []"
  by (cases x; cases "fst x") auto

lemma entries_insert:
  assumes "p < length T" "\<forall>l. fst (T ! p) \<noteq> Filled l" "map_of (entries T) (canon k) = None"
  shows "map_of (entries (T[p := (Filled k, v)])) = (map_of (entries T))(canon k \<mapsto> v)"
proof -
  let ?a = "entries (take p T)" and ?b = "entries (drop (Suc p) T)"
  have e: "entries T = ?a @ ?b" using entries_at(1) [OF assms(1)] not_filled_entries [OF assms(2)] by simp
  have "entries (T[p := (Filled k, v)]) = ?a @ (canon k, v) # ?b" using entries_at(2) [OF assms(1)] by simp
  moreover have "canon k \<notin> fst ` set ?a" using assms(3) by (auto simp: e map_of_eq_None_iff)
  ultimately show ?thesis using map_of_insert_middle [of "canon k" ?a v ?b] by (simp only: e not_False_eq_True)
qed

lemma entries_delete:
  assumes "p < length T" "fst (T ! p) = Filled k" "unique_keys T" "\<forall>l. fst x \<noteq> Filled l"
  shows "map_of (entries (T[p := x])) = (map_of (entries T))(canon k := None)"
proof -
  obtain v where v: "T ! p = (Filled k, v)" using assms(2) by (cases "T ! p") auto
  show ?thesis
    using assms(3) map_of_delete_middle [of "entries (take p T)" "canon k" v "entries (drop (Suc p) T)"]
    unfolding entries_at(1) [OF assms(1)] entries_at(2) [OF assms(1)] not_filled_entries [OF assms(4)] v by simp
qed

lemma entries_value:
  assumes "p < length T" "fst (T ! p) = Filled k" "unique_keys T"
  shows "map_of (entries T) (canon k) = Some (snd (T ! p))"
    "map_of (entries (T[p := (fst (T ! p), v)])) = (map_of (entries T))(canon k \<mapsto> v)"
proof -
  obtain w where w: "T ! p = (Filled k, w)" using assms(2) by (cases "T ! p") auto
  have c: "canon k \<notin> fst ` set (entries (take p T))" using assms(3) entries_at(1) [OF assms(1)] w by auto
  show "map_of (entries T) (canon k) = Some (snd (T ! p))"
    unfolding entries_at(1) [OF assms(1)] using c w by (simp add: map_of_insert_middle del: map_of_append)
  show "map_of (entries (T[p := (fst (T ! p), v)])) = (map_of (entries T))(canon k \<mapsto> v)"
    unfolding entries_at(1) [OF assms(1)] entries_at(2) [OF assms(1)] using c w
    by (simp add: map_of_insert_middle del: map_of_append)
qed

lemma filled_count_update:
  assumes "p < length T"
  shows "filled_count (T[p := x]) + of_bool (slot_obj (T ! p) \<noteq> None) = filled_count T + of_bool (slot_obj x \<noteq> None)"
proof -
  have "filled_count (take p T @ y # drop (Suc p) T) =
      filled_count (take p T) + filled_count (drop (Suc p) T) + of_bool (slot_obj y \<noteq> None)" for y
    by (simp add: filled_count_def)
  from this [of x] this [of "T ! p"] show ?thesis
    using assms by (simp add: id_take_nth_drop [of p T, symmetric] upd_conv_take_nth_drop)
qed

lemma filled_count_less: "p < length T \<Longrightarrow> slot_obj (T ! p) = None \<Longrightarrow> filled_count T < length T"
  unfolding filled_count_def by (rule length_filter_less [of "T ! p"]) auto

lemma filled_count_full: "\<forall>p < length T. \<exists>l. T ! p = Filled l \<Longrightarrow> filled_count T = length T"
  unfolding filled_count_def by (metis (mono_tags, lifting) filter_True in_set_conv_nth option.distinct(1) slot_obj.simps(1))

lemma first_filled_bounds: "first_filled T pos = Some i \<Longrightarrow> pos \<le> i \<and> i < pos + length T"
  by (induction T pos rule: first_filled.induct) auto

section \<open>The search loop is a probe\<close>

lemma probe_step:
  assumes "i < n" "0 < n"
  shows "(Suc ((h + i) mod n) mod n = h mod n) \<longleftrightarrow> Suc i = n" "Suc ((h + i) mod n) mod n = (h + Suc i) mod n"
proof -
  show s: "Suc ((h + i) mod n) mod n = (h + Suc i) mod n" by (simp add: mod_Suc_eq)
  have "(h + Suc i) mod n = h mod n \<longleftrightarrow> n dvd Suc i"
    using mod_eq_dvd_iff_nat [of h "h + Suc i" n] by simp
  also have "\<dots> \<longleftrightarrow> Suc i = n" using assms(1) by (auto dest: dvd_imp_le)
  finally show "(Suc ((h + i) mod n) mod n = h mod n) \<longleftrightarrow> Suc i = n" by (simp add: s)
qed

definition after_probe ::
    "('v mp_map \<Rightarrow> 'v mp_map option) \<Rightarrow> mp_obj \<Rightarrow> lookup_kind \<Rightarrow> bool \<Rightarrow> nat \<Rightarrow> 'v mp_map \<Rightarrow> probe_result
      \<Rightarrow> (nat option \<times> 'v mp_map) option" where
  "after_probe rehash index kind cop h m r =
     (case r of
        Found p \<Rightarrow> Some (Some p, if kind = REMOVE_IF_FOUND then delete_at p m else m)
      | Missing a \<Rightarrow>
          if kind = ADD_IF_NOT_FOUND then
            (case a of
               Some q \<Rightarrow> Some (insert_at index q m)
             | None \<Rightarrow> Option.bind (rehash m) (\<lambda>m1.
                 let p = h mod alloc m1 in lookup_loop rehash index kind cop h m1 p p None))
          else Some (None, m))"

lemma lookup_loop_probe:
  assumes n: "length (table m) = alloc m" "0 < alloc m"
  shows "i < alloc m \<Longrightarrow>
    lookup_loop rehash index kind cop h m ((h + i) mod alloc m) (h mod alloc m) avail =
    after_probe rehash index kind cop h m
      (probe (key_matches cop index) (map fst (table m)) h i (alloc m - i) avail)"
proof (induction "alloc m - i" arbitrary: i avail)
  case (Suc r)
  let ?T = "map fst (table m)" and ?p = "(h + i) mod alloc m"
  have lt: "?p < alloc m" using n(2) by simp
  have slot: "fst (table m ! ?p) = ?T ! ?p" using lt n(1) by simp
  have r: "alloc m - i = Suc r" "alloc m - Suc i = r" using Suc.hyps(2) by auto
  have next1: "Suc ?p mod alloc m = h mod alloc m \<longleftrightarrow> Suc i = alloc m" "Suc ?p mod alloc m = (h + Suc i) mod alloc m"
    by (rule probe_step [OF Suc.prems n(2)])+
  have step: "probe (key_matches cop index) ?T h (Suc i) r av = Missing av" if "Suc i = alloc m" for av
    using that r by simp
  have ih: "lookup_loop rehash index kind cop h m ((h + Suc i) mod alloc m) (h mod alloc m) av =
      after_probe rehash index kind cop h m (probe (key_matches cop index) ?T h (Suc i) r av)"
    if "Suc i \<noteq> alloc m" for av
    using Suc.hyps(1) [of "Suc i" av] Suc.prems that r by simp
  show ?case
  proof (cases "?T ! ?p")
    case Empty
    have "the (first_free avail ?p) = q \<longleftrightarrow> first_free avail ?p = Some q" for q
      by (cases avail) (auto simp: first_free_def)
    then show ?thesis
      by (subst lookup_loop.simps, cases avail)
        (auto simp: slot Empty r n(1) after_probe_def first_free_def Let_def)
  next
    case Deleted
    let ?av = "first_free avail ?p"
    obtain q where q: "?av = Some q" by (cases avail) (auto simp: first_free_def)
    show ?thesis
    proof (cases "Suc i = alloc m")
      case True
      then show ?thesis using next1(1) step [of ?av]
        by (subst lookup_loop.simps) (simp add: slot Deleted r n(1) Let_def q after_probe_def)
    next
      case False
      then show ?thesis using next1 ih [of ?av]
        by (subst lookup_loop.simps) (simp add: slot Deleted r n(1) Let_def)
    qed
  next
    case (Filled k)
    show ?thesis
    proof (cases "key_matches cop index k")
      case True
      then show ?thesis by (subst lookup_loop.simps) (simp add: slot Filled r n(1) Let_def after_probe_def)
    next
      case nomatch: False
      show ?thesis
      proof (cases "Suc i = alloc m")
        case True
        then show ?thesis using next1(1) step [of avail] nomatch
          by (subst lookup_loop.simps, cases avail) (simp_all add: slot Filled r n(1) Let_def after_probe_def)
      next
        case False
        then show ?thesis using next1 ih [of avail] nomatch
          by (subst lookup_loop.simps) (simp add: slot Filled r n(1) Let_def)
      qed
    qed
  qed
qed simp

section \<open>Hash maps\<close>

definition map_ok :: "'v mp_map \<Rightarrow> bool" where
  "map_ok m \<longleftrightarrow> \<not> is_fixed m \<and> \<not> is_ordered m \<and> length (table m) = alloc m \<and>
     hk.table_ok (map fst (table m)) \<and> used m = filled_count (map fst (table m)) \<and>
     (all_keys_are_qstrs m \<longrightarrow>
        (\<forall>p k. p < alloc m \<longrightarrow> fst (table m ! p) = Filled k \<longrightarrow> MP_OBJ_IS_QSTR k))"

text \<open>The dictionary a map stands for: from what a key stands for to the stored value.\<close>

definition dict :: "'v mp_map \<Rightarrow> key \<rightharpoonup> 'v option" where
  "dict m = map_of (entries (table m))"

lemma map_okD:
  assumes "map_ok m"
  shows "\<not> is_fixed m" "\<not> is_ordered m" "length (table m) = alloc m" "hk.table_ok (map fst (table m))"
    "used m = filled_count (map fst (table m))" "unique_keys (table m)"
  using assms table_ok_unique_keys by (auto simp: map_ok_def)

lemma map_ok_key:
  assumes "map_ok m" "p < alloc m" "fst (table m ! p) = Filled k"
  shows "key_ok k" "all_keys_are_qstrs m \<Longrightarrow> MP_OBJ_IS_QSTR k"
  using assms hk.table_okD(1) [of "map fst (table m)" p k] by (auto simp: map_ok_def)

lemma dict_at:
  assumes "map_ok m" "p < alloc m" "fst (table m ! p) = Filled k"
  shows "dict m (canon k) = Some (snd (table m ! p))"
  using entries_value(1) [of p "table m" k] assms map_okD [OF assms(1)] by (simp add: dict_def)

lemma insert_at_ok:
  assumes ok: "map_ok m" and k: "key_ok k" and q: "reached (map fst (table m)) (key_hash k) q"
    "\<forall>l. map fst (table m) ! q \<noteq> Filled l" and new: "dict m (canon k) = None"
  shows "\<exists>m'. insert_at k q m = (Some q, m') \<and> map_ok m' \<and> alloc m' = alloc m \<and> q < alloc m' \<and>
    table m' ! q = (Filled k, None) \<and> dict m' = (dict m)(canon k \<mapsto> None) \<and> used m' = Suc (used m) \<and>
    all_keys_are_qstrs m' = (all_keys_are_qstrs m \<and> MP_OBJ_IS_QSTR k)"
proof -
  note d = map_okD [OF ok]
  have ql: "q < length (table m)" using hk.reached_less [OF q(1)] by simp
  have free: "\<forall>l. fst (table m ! q) \<noteq> Filled l" using q(2) ql by simp
  let ?T = "(table m)[q := (Filled k, None)]"
  define m' where "m' = snd (insert_at k q m)"
  have m': "insert_at k q m = (Some q, m')" "table m' = ?T" "alloc m' = alloc m"
    "used m' = Suc (used m)" "is_fixed m' = is_fixed m" "is_ordered m' = is_ordered m"
    "all_keys_are_qstrs m' = (all_keys_are_qstrs m \<and> MP_OBJ_IS_QSTR k)"
    by (auto simp: m'_def insert_at_def Let_def)
  have "\<forall>p l. p < length (map fst (table m)) \<longrightarrow> map fst (table m) ! p = Filled l \<longrightarrow> canon l \<noteq> canon k"
    using new by (auto simp: dict_def entries_None)
  from hk.table_ok_insert [OF d(4) k q(1) q(2) this] have t: "hk.table_ok (map fst ?T)" by (simp add: map_update)
  have "slot_obj (map fst (table m) ! q) = None" using q(2) by (cases "map fst (table m) ! q") auto
  then have "used m' = filled_count (map fst ?T)"
    using filled_count_update [of q "map fst (table m)" "Filled k"] ql d(5) m'(4) by (simp add: map_update)
  then have "map_ok m'" unfolding map_ok_def using m' d(1-3) t map_ok_key(2) [OF ok] ql
    by (auto simp: nth_list_update split: if_splits)
  moreover have "dict m' = (dict m)(canon k \<mapsto> None)"
    using entries_insert [OF ql free, of k None] new m'(2) by (simp add: dict_def)
  ultimately show ?thesis using m' ql d(3) by auto
qed

lemma delete_at_ok:
  assumes ok: "map_ok m" and p: "p < alloc m" "fst (table m ! p) = Filled k"
  shows "map_ok (delete_at p m)" "dict (delete_at p m) = (dict m)(canon k := None)"
    "snd (table (delete_at p m) ! p) = snd (table m ! p)"
proof -
  note d = map_okD [OF ok]
  let ?x = "(if fst (table m ! ((p + 1) mod alloc m)) = Empty then Empty else Deleted, snd (table m ! p))"
  have pl: "p < length (table m)" using p d by simp
  have tab: "table (delete_at p m) = (table m)[p := ?x]" by (simp add: delete_at_def)
  have "(p + 1) mod alloc m < length (table m)" using p(1) d(3) by (metis gr_zeroI mod_less_divisor not_less_zero)
  then have vac: "map fst ((table m)[p := ?x]) = vacate (map fst (table m)) p"
    using d(3) by (simp add: vacate_def map_update)
  have filled: "map fst (table m) ! p = Filled k" using p(2) pl by simp
  have t: "hk.table_ok (map fst (table (delete_at p m)))"
    unfolding tab vac using hk.table_ok_vacate [OF d(4)] pl by simp
  have "filled_count (map fst ((table m)[p := ?x])) = used m - 1"
    using filled_count_update [of p "map fst (table m)" "fst ?x"] pl filled d(5) by (simp add: map_update split: if_splits)
  then have u: "used (delete_at p m) = filled_count (map fst (table (delete_at p m)))"
    unfolding tab by (simp add: delete_at_def)
  show "map_ok (delete_at p m)" unfolding map_ok_def
    using t u d(1-3) map_ok_key(2) [OF ok] pl by (auto simp: delete_at_def nth_list_update split: if_splits)
  show "dict (delete_at p m) = (dict m)(canon k := None)"
    unfolding dict_def tab by (rule entries_delete [OF pl p(2) d(6)]) simp
  show "snd (table (delete_at p m) ! p) = snd (table m ! p)" using pl by (simp add: tab)
qed

lemma set_value_ok:
  assumes ok: "map_ok m" and p: "p < alloc m" "fst (table m ! p) = Filled k"
  shows "map_ok (set_value p v m)" "dict (set_value p v m) = (dict m)(canon k \<mapsto> v)"
    "alloc (set_value p v m) = alloc m" "used (set_value p v m) = used m"
    "all_keys_are_qstrs (set_value p v m) = all_keys_are_qstrs m"
proof -
  note d = map_okD [OF ok]
  have pl: "p < length (table m)" using p d by simp
  have "map fst ((table m)[p := (fst (table m ! p), v)]) = map fst (table m)"
    using pl by (simp add: map_update) (metis list_update_id nth_map)
  moreover have "fst ((table m)[p := (fst (table m ! p), v)] ! q) = fst (table m ! q)" for q
    using pl by (cases "q = p") auto
  ultimately show "map_ok (set_value p v m)" using ok by (simp add: map_ok_def set_value_def)
  show "dict (set_value p v m) = (dict m)(canon k \<mapsto> v)"
    using entries_value(2) [OF pl p(2) d(6)] by (simp add: dict_def set_value_def)
qed (simp_all add: set_value_def)

section \<open>Lookups in hash maps\<close>

text \<open>When pointers may be compared instead of objects.\<close>

definition ptrs_suffice :: "bool \<Rightarrow> mp_obj \<Rightarrow> 'v mp_map \<Rightarrow> bool" where
  "ptrs_suffice cop k m \<longleftrightarrow> (cop \<longrightarrow> all_keys_are_qstrs m \<and> \<not> IS_TYPE_str k)"

lemma probe_map_cases:
  assumes ok: "map_ok m" "0 < alloc m" and k: "key_ok k" and c: "ptrs_suffice cop k m"
  obtains (found) p l where "probe (key_matches cop k) (map fst (table m)) (key_hash k) 0 (alloc m) None = Found p"
      "p < alloc m" "fst (table m ! p) = Filled l" "canon l = canon k"
  | (missing) q where "probe (key_matches cop k) (map fst (table m)) (key_hash k) 0 (alloc m) None = Missing (Some q)"
      "reached (map fst (table m)) (key_hash k) q" "\<forall>l. map fst (table m) ! q \<noteq> Filled l" "dict m (canon k) = None"
      "used m < alloc m"
  | (full) "probe (key_matches cop k) (map fst (table m)) (key_hash k) 0 (alloc m) None = Missing None"
      "dict m (canon k) = None" "used m = alloc m"
proof -
  note d = map_okD [OF ok(1)]
  let ?T = "map fst (table m)"
  have len: "length ?T = alloc m" using d(3) by simp
  have eq: "key_matches cop k l \<longleftrightarrow> canon l = canon k" if "p < length ?T" "?T ! p = Filled l" for p l
    using key_matches_canon [OF k, of l cop] map_ok_key [OF ok(1), of p l] that d(3) c by (auto simp: ptrs_suffice_def)
  have none: "dict m (canon k) = None"
    if "\<forall>p l. p < length ?T \<longrightarrow> ?T ! p = Filled l \<longrightarrow> canon l \<noteq> canon k"
    using that by (auto simp: dict_def entries_None)
  show ?thesis
  proof (rule hk.probe_cases [OF d(4) _ k eq])
    show "0 < length ?T" using ok(2) len by simp
  next
    fix p l assume "probe (key_matches cop k) ?T (key_hash k) 0 (length ?T) None = Found p" "p < length ?T"
      "?T ! p = Filled l" "canon l = canon k"
    then show ?thesis using found [of p l] len d(3) by simp
  next
    fix q assume q: "probe (key_matches cop k) ?T (key_hash k) 0 (length ?T) None = Missing (Some q)"
      "reached ?T (key_hash k) q" "\<forall>l. ?T ! q \<noteq> Filled l"
      "\<forall>p l. p < length ?T \<longrightarrow> ?T ! p = Filled l \<longrightarrow> canon l \<noteq> canon k"
    have "slot_obj (?T ! q) = None" using q(3) by (cases "?T ! q") auto
    then have "used m < alloc m" using filled_count_less [OF hk.reached_less [OF q(2)]] d(5) len by simp
    with q none len show ?thesis by (intro missing) simp_all
  next
    assume "probe (key_matches cop k) ?T (key_hash k) 0 (length ?T) None = Missing None"
      "\<forall>p < length ?T. \<exists>l. ?T ! p = Filled l" "\<forall>p l. p < length ?T \<longrightarrow> ?T ! p = Filled l \<longrightarrow> canon l \<noteq> canon k"
    with none filled_count_full [of ?T] d(5) len show ?thesis by (intro full) simp_all
  qed
qed

lemma lookup_loop_start:
  "map_ok m \<Longrightarrow> 0 < alloc m \<Longrightarrow>
   lookup_loop rehash k kind cop h m (h mod alloc m) (h mod alloc m) None =
   after_probe rehash k kind cop h m (probe (key_matches cop k) (map fst (table m)) h 0 (alloc m) None)"
  using lookup_loop_probe [of m 0 rehash k kind cop h None] by (simp add: map_ok_def)

text \<open>An added key: its slot is returned, and a key that was there keeps its value.\<close>

definition added :: "mp_obj \<Rightarrow> 'v mp_map \<Rightarrow> nat \<Rightarrow> 'v mp_map \<Rightarrow> bool" where
  "added k m p m' \<longleftrightarrow> map_ok m' \<and> p < alloc m' \<and>
     (\<exists>l. fst (table m' ! p) = Filled l \<and> canon l = canon k) \<and>
     dict m' = (if dict m (canon k) = None then (dict m)(canon k \<mapsto> None) else dict m)"

lemma loop_add_room:
  assumes ok: "map_ok m" and room: "used m < alloc m" and k: "key_ok k" and c: "ptrs_suffice cop k m"
  shows "\<exists>p m'. lookup_loop rehash k ADD_IF_NOT_FOUND cop (key_hash k) m
      (key_hash k mod alloc m) (key_hash k mod alloc m) None = Some (Some p, m') \<and> added k m p m' \<and>
    alloc m' = alloc m \<and> (dict m (canon k) = None \<longrightarrow> used m' = Suc (used m)) \<and>
    (all_keys_are_qstrs m \<and> MP_OBJ_IS_QSTR k \<longrightarrow> all_keys_are_qstrs m')"
proof -
  have pos: "0 < alloc m" using room by simp
  note start = lookup_loop_start [OF ok pos, of rehash k ADD_IF_NOT_FOUND cop "key_hash k"]
  from ok pos k c show ?thesis
  proof (cases rule: probe_map_cases)
    case (found p l)
    then have "dict m (canon k) \<noteq> None" using dict_at [OF ok, of p l] by simp
    with found start ok show ?thesis by (auto simp: after_probe_def added_def)
  next
    case (missing q)
    from insert_at_ok [OF ok k missing(2,3,4)] missing start show ?thesis
      by (auto simp: after_probe_def added_def)
  next
    case full
    with room show ?thesis by simp
  qed
qed

definition pointer_compare :: "mp_obj \<Rightarrow> 'v mp_map \<Rightarrow> bool" where
  "pointer_compare k m \<longleftrightarrow> all_keys_are_qstrs m \<and> \<not> (\<not> MP_OBJ_IS_QSTR k \<and> IS_TYPE_str k)"

lemma pointer_compare_ok: "ptrs_suffice (pointer_compare k m) k m"
  by (cases k) (auto simp: ptrs_suffice_def pointer_compare_def)

lemma lookup_body_add:
  assumes "map_ok m" "key_ok k"
  shows "lookup_body rehash m k ADD_IF_NOT_FOUND =
    Option.bind (if alloc m = 0 then rehash m else Some m) (\<lambda>m1.
      lookup_loop rehash k ADD_IF_NOT_FOUND (pointer_compare k m) (key_hash k) m1
        (key_hash k mod alloc m1) (key_hash k mod alloc m1) None)"
  using assms key_ok_hash [OF assms(2)] map_okD(1,2) [OF assms(1)]
  by (auto simp: lookup_body_def pointer_compare_def Let_def)

section \<open>Growing\<close>

lemma rehash_loop_ok:
  assumes "map_ok m" "used m + filled_count (map fst old) < alloc m" "unique_keys old"
    "\<forall>c \<in> fst ` set (entries old). dict m c = None" "\<forall>k v. (Filled k, v) \<in> set old \<longrightarrow> key_ok k"
  shows "\<exists>m'. rehash_loop (lookup_body rehash) old m = Some m' \<and> map_ok m' \<and> alloc m' = alloc m \<and>
    used m' = used m + filled_count (map fst old) \<and> dict m' = dict m ++ map_of (entries old) \<and>
    (all_keys_are_qstrs m \<and> (\<forall>k v. (Filled k, v) \<in> set old \<longrightarrow> MP_OBJ_IS_QSTR k) \<longrightarrow> all_keys_are_qstrs m')"
  using assms
proof (induction old arbitrary: m)
  case Nil
  then show ?case by (simp add: filled_count_def)
next
  case (Cons x old)
  obtain sl v where x: "x = (sl, v)" by (rule prod.exhaust)
  show ?case
  proof (cases sl)
    case (Filled k)
    have k: "key_ok k" using Cons.prems(5) x Filled by simp
    have room: "used m < alloc m" using Cons.prems(2) by simp
    have new: "dict m (canon k) = None" using Cons.prems(4) x Filled by simp
    from loop_add_room [OF Cons.prems(1) room k pointer_compare_ok, of rehash] new obtain p m1 where
      m1: "lookup_body rehash m k ADD_IF_NOT_FOUND = Some (Some p, m1)" "added k m p m1" "alloc m1 = alloc m"
        "used m1 = Suc (used m)" "all_keys_are_qstrs m \<and> MP_OBJ_IS_QSTR k \<longrightarrow> all_keys_are_qstrs m1"
      using lookup_body_add [OF Cons.prems(1) k, of rehash] room by auto
    obtain l where l: "map_ok m1" "p < alloc m1" "fst (table m1 ! p) = Filled l" "canon l = canon k"
      "dict m1 = (dict m)(canon k \<mapsto> None)" using m1(2) new by (auto simp: added_def)
    let ?m2 = "set_value p v m1"
    note m2 = set_value_ok [OF l(1,2,3), of v]
    have d2: "dict ?m2 = (dict m)(canon k \<mapsto> v)" using m2(2) l(4,5) by simp
    have count: "filled_count (map fst (x # old)) = Suc (filled_count (map fst old))"
      using x Filled by (simp add: filled_count_def)
    have notin: "canon k \<notin> fst ` set (entries old)" using Cons.prems(3) x Filled by simp
    have "\<exists>m'. rehash_loop (lookup_body rehash) old ?m2 = Some m' \<and> map_ok m' \<and> alloc m' = alloc ?m2 \<and>
        used m' = used ?m2 + filled_count (map fst old) \<and> dict m' = dict ?m2 ++ map_of (entries old) \<and>
        (all_keys_are_qstrs ?m2 \<and> (\<forall>k v. (Filled k, v) \<in> set old \<longrightarrow> MP_OBJ_IS_QSTR k) \<longrightarrow> all_keys_are_qstrs m')"
    proof (rule Cons.IH [OF m2(1)])
      show "used ?m2 + filled_count (map fst old) < alloc ?m2"
        using Cons.prems(2) m1(3,4) m2(3,4) count by simp
      show "unique_keys old" using Cons.prems(3) x Filled by simp
      show "\<forall>c \<in> fst ` set (entries old). dict ?m2 c = None"
      proof
        fix c assume c: "c \<in> fst ` set (entries old)"
        with notin have "c \<noteq> canon k" by blast
        moreover have "dict m c = None" using Cons.prems(4) x Filled c by auto
        ultimately show "dict ?m2 c = None" by (simp add: d2)
      qed
      show "\<forall>k v. (Filled k, v) \<in> set old \<longrightarrow> key_ok k" using Cons.prems(5) by auto
    qed
    then obtain m' where m': "rehash_loop (lookup_body rehash) old ?m2 = Some m'" "map_ok m'" "alloc m' = alloc ?m2"
      "used m' = used ?m2 + filled_count (map fst old)" "dict m' = dict ?m2 ++ map_of (entries old)"
      "all_keys_are_qstrs ?m2 \<and> (\<forall>k v. (Filled k, v) \<in> set old \<longrightarrow> MP_OBJ_IS_QSTR k) \<longrightarrow> all_keys_are_qstrs m'"
      by blast
    have "rehash_loop (lookup_body rehash) (x # old) m = Some m'"
      using m1(1) m'(1) x Filled by (simp add: set_value_def)
    moreover have "dict m' = dict m ++ map_of (entries (x # old))"
    proof -
      have "canon k \<notin> dom (map_of (entries old))" using notin by (simp add: dom_map_of_conv_image_fst)
      then show ?thesis using m'(5) x Filled by (simp add: d2 map_add_upd_left)
    qed
    moreover have "alloc m' = alloc m" "used m' = used m + filled_count (map fst (x # old))"
      using m'(3,4) m1(3,4) m2(3,4) count by simp_all
    moreover have "all_keys_are_qstrs m \<and> (\<forall>k v. (Filled k, v) \<in> set (x # old) \<longrightarrow> MP_OBJ_IS_QSTR k) \<longrightarrow>
        all_keys_are_qstrs m'" using m'(6) m1(5) m2(5) x Filled by auto
    ultimately show ?thesis using m'(2) by blast
  qed (use Cons x in \<open>auto simp: filled_count_def\<close>)
qed

lemma map_ok_empty:
  assumes "\<not> is_fixed m" "\<not> is_ordered m"
  shows "map_ok (m\<lparr>alloc := n, used := 0, all_keys_are_qstrs := True, table := replicate n (Empty, None)\<rparr>)"
    "dict (m\<lparr>alloc := n, used := 0, all_keys_are_qstrs := True, table := replicate n (Empty, None)\<rparr>) = Map.empty"
proof -
  have e: "entries (replicate n (Empty, None)) = []" by (induction n) auto
  show "map_ok (m\<lparr>alloc := n, used := 0, all_keys_are_qstrs := True, table := replicate n (Empty, None)\<rparr>)"
    using assms hk.table_ok_replicate [of n] by (simp add: map_ok_def filled_count_def)
  show "dict (m\<lparr>alloc := n, used := 0, all_keys_are_qstrs := True, table := replicate n (Empty, None)\<rparr>) = Map.empty"
    by (simp add: dict_def e)
qed

lemma mp_map_rehash_ok:
  assumes ok: "map_ok m"
  shows "\<exists>m'. mp_map_rehash (mp_map_lookup (Suc n)) m = Some m' \<and> map_ok m' \<and> dict m' = dict m \<and>
    alloc m < alloc m' \<and> used m' < alloc m' \<and> (all_keys_are_qstrs m \<longrightarrow> all_keys_are_qstrs m')"
proof -
  note d = map_okD [OF ok]
  let ?n = "get_hash_alloc_greater_or_equal_to (alloc m + 1)"
  let ?m0 = "m\<lparr>alloc := ?n, used := 0, all_keys_are_qstrs := True, table := replicate ?n (Empty, None)\<rparr>"
  have big: "alloc m < ?n" using get_hash_alloc_ge [of "alloc m + 1"] by simp
  have count: "filled_count (map fst (table m)) \<le> alloc m"
    using d(3) by (simp add: filled_count_def) (metis length_filter_le length_map)
  have keys: "key_ok k \<and> (all_keys_are_qstrs m \<longrightarrow> MP_OBJ_IS_QSTR k)" if "(Filled k, v) \<in> set (table m)" for k v
  proof -
    from that obtain p where "p < length (table m)" "table m ! p = (Filled k, v)" by (auto simp: in_set_conv_nth)
    then show ?thesis using map_ok_key [OF ok, of p k] d(3) by simp
  qed
  have "used ?m0 + filled_count (map fst (table m)) < alloc ?m0" using big count by simp
  moreover have empty: "dict ?m0 = Map.empty" by (rule map_ok_empty(2) [OF d(1,2)])
  then have "\<forall>c \<in> fst ` set (entries (table m)). dict ?m0 c = None" by simp
  ultimately obtain m' where m': "rehash_loop (mp_map_lookup (Suc n)) (table m) ?m0 = Some m'" "map_ok m'"
    "alloc m' = alloc ?m0" "used m' = used ?m0 + filled_count (map fst (table m))"
    "dict m' = dict ?m0 ++ map_of (entries (table m))"
    "all_keys_are_qstrs ?m0 \<and> (\<forall>k v. (Filled k, v) \<in> set (table m) \<longrightarrow> MP_OBJ_IS_QSTR k) \<longrightarrow> all_keys_are_qstrs m'"
    using rehash_loop_ok [OF map_ok_empty(1) [OF d(1,2)] _ d(6), of ?n "mp_map_rehash (mp_map_lookup n)"] keys
    unfolding mp_map_lookup.simps by blast
  have "mp_map_rehash (mp_map_lookup (Suc n)) m = Some m'"
    unfolding mp_map_rehash_def Let_def by (rule m'(1))
  moreover have "dict m' = dict m" using m'(5) empty by (simp add: dict_def)
  moreover have "alloc m < alloc m'" "used m' < alloc m'" using m'(3,4) big count by simp_all
  moreover have "all_keys_are_qstrs m \<longrightarrow> all_keys_are_qstrs m'" using m'(6) keys by auto
  ultimately show ?thesis using m'(2) by blast
qed

section \<open>The operations of a hash map\<close>

lemma map_add_spec:
  assumes ok: "map_ok m" and k: "key_ok k"
  shows "\<exists>p m'. mp_map_lookup (Suc (Suc n)) m k ADD_IF_NOT_FOUND = Some (Some p, m') \<and> added k m p m'"
proof -
  let ?rh = "mp_map_rehash (mp_map_lookup (Suc n))"
  obtain r where r: "?rh m = Some r" "map_ok r" "dict r = dict m" "alloc m < alloc r" "used r < alloc r"
    "all_keys_are_qstrs m \<longrightarrow> all_keys_are_qstrs r"
    using mp_map_rehash_ok [OF ok, of n] by blast
  have c: "ptrs_suffice (pointer_compare k m) k m" by (rule pointer_compare_ok)
  then have cr: "ptrs_suffice (pointer_compare k m) k r" using r(6) by (auto simp: ptrs_suffice_def)
  have grown: "\<exists>p m'. lookup_loop ?rh k ADD_IF_NOT_FOUND (pointer_compare k m) (key_hash k) r
      (key_hash k mod alloc r) (key_hash k mod alloc r) None = Some (Some p, m') \<and> added k m p m'"
    using loop_add_room [OF r(2,5) k cr, of ?rh] r(3) by (auto simp: added_def)
  have look: "mp_map_lookup (Suc (Suc n)) m k ADD_IF_NOT_FOUND =
    Option.bind (if alloc m = 0 then ?rh m else Some m) (\<lambda>m1.
      lookup_loop ?rh k ADD_IF_NOT_FOUND (pointer_compare k m) (key_hash k) m1
        (key_hash k mod alloc m1) (key_hash k mod alloc m1) None)"
    unfolding mp_map_lookup.simps(2) [of "Suc n"] by (rule lookup_body_add [OF ok k])
  show ?thesis
  proof (cases "alloc m = 0")
    case True
    then show ?thesis using look r(1) grown by simp
  next
    case False
    then have pos: "0 < alloc m" by simp
    note start = lookup_loop_start [OF ok pos, of ?rh k ADD_IF_NOT_FOUND "pointer_compare k m" "key_hash k"]
    show ?thesis
    proof (cases "used m < alloc m")
      case True
      then show ?thesis using look False loop_add_room [OF ok True k c, of ?rh] by auto
    next
      case nofit: False
      from ok pos k c show ?thesis
      proof (cases rule: probe_map_cases)
        case (found p l)
        then have "dict m (canon k) \<noteq> None" using dict_at [OF ok, of p l] by simp
        with found start look False ok show ?thesis by (auto simp: after_probe_def added_def)
      next
        case (missing q)
        with nofit show ?thesis by simp
      next
        case full
        then show ?thesis using start look False r(1) grown by (simp add: after_probe_def Let_def)
      qed
    qed
  qed
qed

lemma map_find_cases:
  assumes ok: "map_ok m" and k: "key_ok k" and kind: "kind = LOOKUP \<or> kind = REMOVE_IF_FOUND"
  shows "(\<exists>p l. mp_map_lookup (Suc n) m k kind = Some (Some p, if kind = REMOVE_IF_FOUND then delete_at p m else m) \<and>
      p < alloc m \<and> fst (table m ! p) = Filled l \<and> canon l = canon k) \<or>
    mp_map_lookup (Suc n) m k kind = Some (None, m) \<and> dict m (canon k) = None"
proof -
  note d = map_okD [OF ok]
  let ?rh = "mp_map_rehash (mp_map_lookup n)"
  consider (early) "all_keys_are_qstrs m" "\<not> MP_OBJ_IS_QSTR k" "\<not> IS_TYPE_str k" | (empty) "alloc m = 0"
    | (probe) "0 < alloc m" "\<not> (all_keys_are_qstrs m \<and> \<not> MP_OBJ_IS_QSTR k \<and> \<not> IS_TYPE_str k)" by blast
  then show ?thesis
  proof cases
    case early
    have "canon l \<noteq> canon k" if "p < alloc m" "fst (table m ! p) = Filled l" for p l
      using map_ok_key(2) [OF ok that early(1)] early(2,3) by (cases l; cases k) auto
    then have "dict m (canon k) = None" using d(3) by (simp add: dict_def entries_None)
    with early kind d(1) show ?thesis by (auto simp: lookup_body_def)
  next
    case empty
    then have "dict m (canon k) = None" using d(3) by (simp add: dict_def)
    with empty kind d(1,2) show ?thesis by (auto simp: lookup_body_def)
  next
    case probe
    obtain w where w: "obj_hash k = Some w" "unat w = key_hash k" using key_ok_hash [OF k] by blast
    have look: "mp_map_lookup (Suc n) m k kind =
        lookup_loop ?rh k kind (pointer_compare k m) (key_hash k) m (key_hash k mod alloc m) (key_hash k mod alloc m) None"
      using probe kind d(1,2) w by (auto simp: lookup_body_def pointer_compare_def Let_def)
    note start = lookup_loop_start [OF ok probe(1), of ?rh k kind "pointer_compare k m" "key_hash k"]
    have nadd: "kind \<noteq> ADD_IF_NOT_FOUND" using kind by auto
    from ok probe(1) k pointer_compare_ok show ?thesis
      by (cases rule: probe_map_cases) (use look start nadd in \<open>auto simp: after_probe_def\<close>)
  qed
qed

text \<open>
  C25: Growing a hash table keeps the dictionary it stands for and its invariant (every key is
  found by probing from its hash, no key is there twice, \<open>used\<close> counts the keys), and makes room:
  the nested lookups that move the elements never grow the new table again.
\<close>

theorem map_growth_keeps_contents:
  assumes "map_ok m"
  shows "\<exists>m'. mp_map_rehash (mp_map_lookup (Suc n)) m = Some m' \<and> map_ok m' \<and> dict m' = dict m \<and>
    alloc m < alloc m' \<and> used m' < alloc m'"
  using mp_map_rehash_ok [OF assms, of n] by blast

theorem map_growth_keeps_contents_witness:
  "\<exists>m'. mp_map_rehash (mp_map_lookup 1) (mp_map_init 4 :: nat mp_map) = Some m' \<and> dict m' = Map.empty \<and> alloc m' > 4"
proof -
  have "entries (replicate n (Empty, None)) = []" for n by (induction n) auto
  then have "map_ok (mp_map_init 4 :: nat mp_map)" "dict (mp_map_init 4 :: nat mp_map) = Map.empty"
    using hk.table_ok_replicate [of 4] by (auto simp: map_ok_def mp_map_init_def filled_count_def dict_def)
  with map_growth_keeps_contents [of "mp_map_init 4 :: nat mp_map" 0] show ?thesis
    by (fastforce simp: mp_map_init_def)
qed

end
