(* ===== verification/Py_Ordered_Map.thy ===== *)
theory Py_Ordered_Map
  imports Py_Map
begin

text \<open>
  The ordered arrays of \<open>py/map.c\<close> (the maps of \<open>OrderedDict\<close>): the first \<open>used\<close> slots hold the
  elements in the order of their insertion, the keys of the other slots are \<open>MP_OBJ_NULL\<close>. The
  lemmas say what a lookup of each kind does to the list of elements.
\<close>

definition fill :: "mp_obj \<times> 'v option \<Rightarrow> 'v elem" where
  "fill x = (Filled (fst x), snd x)"

text \<open>The map \<open>m\<close> holds the elements \<open>es\<close>; \<open>vs\<close> are the values left in the slots after them.\<close>

definition ordered_rep :: "(mp_obj \<times> 'v option) list \<Rightarrow> 'v option list \<Rightarrow> 'v mp_map \<Rightarrow> bool" where
  "ordered_rep es vs m \<longleftrightarrow> \<not> is_fixed m \<and> is_ordered m \<and> used m = length es \<and> alloc m = length es + length vs \<and>
     table m = map fill es @ map (Pair Empty) vs \<and> distinct (map (\<lambda>x. canon (fst x)) es) \<and>
     (\<forall>x \<in> set es. obj_ok (fst x) \<and> (all_keys_are_qstrs m \<longrightarrow> MP_OBJ_IS_QSTR (fst x)))"

definition alist_dict :: "(mp_obj \<times> 'v option) list \<Rightarrow> key \<rightharpoonup> 'v option" where
  "alist_dict es = map_of (map (\<lambda>x. (canon (fst x), snd x)) es)"

lemma alist_dict_None: "alist_dict es c = None \<longleftrightarrow> c \<notin> (\<lambda>x. canon (fst x)) ` set es"
  by (induction es) (auto simp: alist_dict_def)

lemma entries_fill [simp]: "entries (map fill es) = map (\<lambda>x. (canon (fst x), snd x)) es"
  by (induction es) (auto simp: fill_def)

lemma entries_unfilled [simp]: "entries (map (Pair Empty) vs) = []"
  by (induction vs) auto

lemma ordered_rep_dict: "ordered_rep es vs m \<Longrightarrow> dict m = alist_dict es"
  by (simp add: ordered_rep_def dict_def alist_dict_def)

text \<open>The position of a key in the list of elements.\<close>

fun position :: "key \<Rightarrow> (mp_obj \<times> 'v option) list \<Rightarrow> nat option" where
  "position c [] = None"
| "position c (x # es) = (if canon (fst x) = c then Some 0 else map_option Suc (position c es))"

lemma position_None: "position c es = None \<longleftrightarrow> alist_dict es c = None"
  by (induction es) (auto simp: alist_dict_def)

lemma position_Some:
  "position c es = Some i \<Longrightarrow> i < length es \<and> canon (fst (es ! i)) = c \<and> alist_dict es c = Some (snd (es ! i))"
  by (induction es arbitrary: i) (auto simp: alist_dict_def split: if_splits)

lemma ordered_find_position:
  assumes "obj_ok k" "\<forall>x \<in> set es. obj_ok (fst x) \<and> (cop \<longrightarrow> MP_OBJ_IS_QSTR (fst x))" "cop \<longrightarrow> \<not> IS_TYPE_str k"
  shows "ordered_find cop k (map fill es) i = map_option ((+) i) (position (canon k) es)"
  using assms(2)
proof (induction es arbitrary: i)
  case (Cons x es)
  have "key_matches cop k (fst x) \<longleftrightarrow> canon (fst x) = canon k"
  proof (cases cop)
    case True
    then show ?thesis using Cons.prems assms(3) by (cases "fst x"; cases k) (auto simp: key_matches_def)
  next
    case False
    then show ?thesis using Cons.prems assms(1) mp_obj_equal_canon [of "fst x" k] by (auto simp: key_matches_def)
  qed
  moreover have "map_option ((+) (Suc i)) r = map_option ((+) i) (map_option Suc r)" for r
    by (cases r) auto
  ultimately show ?case using Cons by (simp add: fill_def)
qed simp

text \<open>What a lookup does to the elements and to the values behind them.\<close>

definition ordered_result ::
    "(mp_obj \<times> 'v option) list \<Rightarrow> 'v option list \<Rightarrow> mp_obj \<Rightarrow> lookup_kind
      \<Rightarrow> nat option \<times> (mp_obj \<times> 'v option) list \<times> 'v option list" where
  "ordered_result es vs k kind =
     (case position (canon k) es of
        Some i \<Rightarrow> if kind = REMOVE_IF_FOUND
                  then (Some (length es - 1), take i es @ drop (Suc i) es, snd (es ! i) # vs)
                  else (Some i, es, vs)
      | None \<Rightarrow> if kind = ADD_IF_NOT_FOUND
                then (Some (length es), es @ [(k, case vs of [] \<Rightarrow> None | v # _ \<Rightarrow> v)],
                      case vs of [] \<Rightarrow> [None, None, None] | _ # vs1 \<Rightarrow> vs1)
                else (None, es, vs))"

lemma position_qstrs:
  assumes "\<forall>x \<in> set es. MP_OBJ_IS_QSTR (fst x)" "\<not> MP_OBJ_IS_QSTR k" "\<not> IS_TYPE_str k"
  shows "position (canon k) es = None"
  using assms(1)
proof (induction es)
  case (Cons x es)
  then show ?case using assms(2,3) by (cases "fst x"; cases k) auto
qed simp

lemma distinct_delete: "distinct (map f es) \<Longrightarrow> distinct (map f (take i es @ drop (Suc i) es))"
proof (cases "i < length es")
  case True
  assume "distinct (map f es)"
  then have "distinct (map f (take i es @ es ! i # drop (Suc i) es))" using True by (simp add: id_take_nth_drop [symmetric])
  then show ?thesis by auto
qed simp

lemma ordered_lookup_rep:
  assumes rep: "ordered_rep es vs m" and k: "obj_ok k"
    and cop: "cop \<longrightarrow> all_keys_are_qstrs m \<and> \<not> IS_TYPE_str k" and kind: "kind \<noteq> ADD_IF_NOT_FOUND_OR_REMOVE_IF_FOUND"
    and res: "ordered_result es vs k kind = (r, es', vs')"
  shows "\<exists>m'. ordered_lookup cop m k kind = Some (r, m') \<and> ordered_rep es' vs' m'"
proof -
  note d = rep [unfolded ordered_rep_def]
  have tab: "table m = map fill es @ map (Pair Empty) vs" and u: "used m = length es"
    and a: "alloc m = length es + length vs" using d by blast+
  have find: "ordered_find cop k (take (used m) (table m)) 0 = position (canon k) es"
    using ordered_find_position [OF k, of es cop 0] d cop by (simp add: option.map_ident) (simp add: map_option_idI)
  show ?thesis
  proof (cases "position (canon k) es")
    case (Some i)
    note i = position_Some [OF Some]
    show ?thesis
    proof (cases "kind = REMOVE_IF_FOUND")
      case True
      let ?es = "take i es @ drop (Suc i) es"
      have res': "r = Some (length es - 1)" "es' = ?es" "vs' = snd (es ! i) # vs"
        using res Some True by (auto simp: ordered_result_def)
      let ?m = "m\<lparr>used := length es - 1, table := map fill ?es @ (Empty, snd (es ! i)) # map (Pair Empty) vs\<rparr>"
      have "ordered_lookup cop m k kind = Some (r, ?m)"
        using find Some True i by (simp add: ordered_lookup_def Let_def tab u res'(1) take_map drop_map nth_append fill_def)
      moreover have "ordered_rep es' vs' ?m"
        using d i distinct_delete [of "\<lambda>x. canon (fst x)" es i] 
        by (auto simp: ordered_rep_def res' dest!: in_set_takeD in_set_dropD)
      ultimately show ?thesis by blast
    next
      case False
      then have "r = Some i" "es' = es" "vs' = vs" using res Some by (auto simp: ordered_result_def)
      then show ?thesis using False find Some rep by (simp add: ordered_lookup_def)
    qed
  next
    case None
    show ?thesis
    proof (cases "kind = ADD_IF_NOT_FOUND")
      case False
      then have "r = None" "es' = es" "vs' = vs" using res None by (auto simp: ordered_result_def)
      then show ?thesis using False find None rep by (simp add: ordered_lookup_def)
    next
      case True
      define ws where "ws = (if vs = [] then replicate 4 None else vs)"
      have ws: "ws \<noteq> []" by (simp add: ws_def)
      have res': "r = Some (length es)" "es' = es @ [(k, hd ws)]" "vs' = tl ws"
        using res None True by (auto simp: ordered_result_def ws_def numeral_eq_Suc split: list.splits)
      define m1 where "m1 = (if used m = alloc m
        then m\<lparr>alloc := alloc m + 4, table := table m @ replicate 4 (Empty, None)\<rparr> else m)"
      have m1: "table m1 = map fill es @ map (Pair Empty) ws" "alloc m1 = length es + length ws"
        "used m1 = length es" "all_keys_are_qstrs m1 = all_keys_are_qstrs m" "is_fixed m1 = is_fixed m" "is_ordered m1 = is_ordered m"
        using u a tab by (auto simp: m1_def ws_def)
      have upd: "(map fill es @ map (Pair Empty) ws)[length es := (Filled k, hd ws)] =
          map fill (es @ [(k, hd ws)]) @ map (Pair Empty) (tl ws)"
        using ws by (cases ws) (auto simp: fill_def list_update_append)
      have nth: "(map fill es @ map (Pair Empty) ws) ! length es = (Empty, hd ws)"
        using ws by (cases ws) (auto simp: nth_append)
      let ?m2 = "m1\<lparr>used := length es + 1, table := map fill es' @ map (Pair Empty) vs'\<rparr>"
      let ?m3 = "if \<not> MP_OBJ_IS_QSTR k then ?m2\<lparr>all_keys_are_qstrs := False\<rparr> else ?m2"
      have "ordered_lookup cop m k kind = Some (r, ?m3)"
        using find None True unfolding ordered_lookup_def Let_def m1_def [symmetric]
        by (simp add: m1(1,3) nth upd res')
      moreover have new: "canon k \<notin> (\<lambda>x. canon (fst x)) ` set es"
        using None by (simp only: position_None alist_dict_None not_False_eq_True)
      then have "ordered_rep es' vs' ?m3"
        using d k m1 ws by (auto simp: ordered_rep_def res')
      ultimately show ?thesis by blast
    qed
  qed
qed

lemma ordered_lookup_body:
  assumes "ordered_rep es vs m"
    "\<not> (all_keys_are_qstrs m \<and> \<not> MP_OBJ_IS_QSTR k \<and> \<not> IS_TYPE_str k \<and> kind \<noteq> ADD_IF_NOT_FOUND)"
  shows "mp_map_lookup (Suc n) m k kind = ordered_lookup (pointer_compare k m) m k kind"
  using assms by (auto simp: ordered_rep_def lookup_body_def pointer_compare_def Let_def)

lemma ordered_map_lookup:
  assumes rep: "ordered_rep es vs m" and k: "obj_ok k" and kind: "kind \<noteq> ADD_IF_NOT_FOUND_OR_REMOVE_IF_FOUND"
    and res: "ordered_result es vs k kind = (r, es', vs')"
  shows "\<exists>m'. mp_map_lookup (Suc n) m k kind = Some (r, m') \<and> ordered_rep es' vs' m'"
proof -
  note d = rep [unfolded ordered_rep_def]
  show ?thesis
  proof (cases "all_keys_are_qstrs m \<and> \<not> MP_OBJ_IS_QSTR k \<and> \<not> IS_TYPE_str k \<and> kind \<noteq> ADD_IF_NOT_FOUND")
    case True
    then have "position (canon k) es = None" using position_qstrs [of es k] d by blast
    then show ?thesis using True res rep d by (auto simp: ordered_result_def lookup_body_def)
  next
    case False
    have "pointer_compare k m \<longrightarrow> all_keys_are_qstrs m \<and> \<not> IS_TYPE_str k"
      using pointer_compare_ok [of k m] by (auto simp: ptrs_suffice_def)
    note * = ordered_lookup_rep [OF rep k this kind res]
    then show ?thesis using ordered_lookup_body [OF rep False] by simp
  qed
qed

lemma ordered_map_unchanged:
  assumes rep: "ordered_rep es vs m" and k: "obj_ok k" and kind: "kind = LOOKUP \<or> kind = REMOVE_IF_FOUND \<and> position (canon k) es = None"
  shows "mp_map_lookup (Suc n) m k kind = Some (position (canon k) es, m)"
proof -
  note d = rep [unfolded ordered_rep_def]
  have find: "ordered_find (pointer_compare k m) k (map fill es) 0 = position (canon k) es"
    using ordered_find_position [OF k, of es "pointer_compare k m" 0] pointer_compare_ok [of k m] d
    by (auto simp: ptrs_suffice_def map_option_idI)
  show ?thesis
  proof (cases "all_keys_are_qstrs m \<and> \<not> MP_OBJ_IS_QSTR k \<and> \<not> IS_TYPE_str k")
    case True
    then have "position (canon k) es = None" using position_qstrs [of es k] d by blast
    then show ?thesis using True d kind by (auto simp: lookup_body_def)
  next
    case False
    then have "mp_map_lookup (Suc n) m k kind = ordered_lookup (pointer_compare k m) m k kind"
      by (intro ordered_lookup_body [OF rep]) blast
    also have "\<dots> = Some (position (canon k) es, m)"
      using find kind d by (auto simp: ordered_lookup_def split: option.splits)
    finally show ?thesis .
  qed
qed

lemma alist_dict_append: "alist_dict es c = None \<Longrightarrow> canon k = c \<Longrightarrow> alist_dict (es @ [(k, v)]) = (alist_dict es)(c \<mapsto> v)"
  by (induction es) (auto simp: alist_dict_def fun_upd_twist split: if_splits)

lemma alist_dict_remove:
  assumes "distinct (map (\<lambda>x. canon (fst x)) es)" "position c es = Some i"
  shows "alist_dict (take i es @ drop (Suc i) es) = (alist_dict es)(c := None)"
proof -
  note i = position_Some [OF assms(2)]
  have "map (\<lambda>x. (canon (fst x), snd x)) es = map (\<lambda>x. (canon (fst x), snd x)) (take i es) @
      (c, snd (es ! i)) # map (\<lambda>x. (canon (fst x), snd x)) (drop (Suc i) es)"
    using i by (metis (no_types, lifting) id_take_nth_drop list.simps(9) map_append)
  moreover have "distinct (map fst (map (\<lambda>x. (canon (fst x), snd x)) es))"
    using assms(1) by (simp add: comp_def)
  ultimately show ?thesis
    using map_of_delete_middle [of "map (\<lambda>x. (canon (fst x), snd x)) (take i es)" c "snd (es ! i)"
        "map (\<lambda>x. (canon (fst x), snd x)) (drop (Suc i) es)"]
    by (simp add: alist_dict_def)
qed

lemma ordered_set_value:
  assumes "ordered_rep es vs m" "i < length es"
  shows "ordered_rep (es[i := (fst (es ! i), v)]) vs (set_value i v m)"
    "alist_dict (es[i := (fst (es ! i), v)]) = (alist_dict es)(canon (fst (es ! i)) \<mapsto> v)"
proof -
  note d = assms(1) [unfolded ordered_rep_def]
  have keys: "map (\<lambda>x. canon (fst x)) (es[i := (fst (es ! i), v)]) = map (\<lambda>x. canon (fst x)) es"
    using assms(2) by (simp add: map_update) (metis list_update_id nth_map)
  have "set (es[i := (fst (es ! i), v)]) \<subseteq> insert (fst (es ! i), v) (set es)" by (rule set_update_subset_insert)
  then have good: "\<forall>x \<in> set (es[i := (fst (es ! i), v)]). obj_ok (fst x) \<and> (all_keys_are_qstrs m \<longrightarrow> MP_OBJ_IS_QSTR (fst x))"
    using d assms(2) nth_mem [OF assms(2)] by fastforce
  have tab: "(map fill es @ map (Pair Empty) vs)[i := (Filled (fst (es ! i)), v)] =
      map fill (es[i := (fst (es ! i), v)]) @ map (Pair Empty) vs"
    using assms(2) by (simp add: list_update_append map_update fill_def)
  have nth: "fst ((map fill es @ map (Pair Empty) vs) ! i) = Filled (fst (es ! i))"
    using assms(2) by (simp add: nth_append fill_def)
  show rep: "ordered_rep (es[i := (fst (es ! i), v)]) vs (set_value i v m)"
    using d good keys nth tab unfolding ordered_rep_def set_value_def by simp
  have "unique_keys (map fill es)" using d by (simp add: comp_def)
  from entries_value(2) [of i "map fill es" "fst (es ! i)" v, OF _ _ this]
  have "map_of (entries (map fill (es[i := (fst (es ! i), v)]))) = (map_of (entries (map fill es)))(canon (fst (es ! i)) \<mapsto> v)"
    using assms(2) by (simp add: map_update fill_def del: entries_fill)
  then show "alist_dict (es[i := (fst (es ! i), v)]) = (alist_dict es)(canon (fst (es ! i)) \<mapsto> v)"
    by (simp only: alist_dict_def entries_fill)
qed

lemma ordered_set_value_behind:
  assumes "ordered_rep es (v # vs) m"
  shows "ordered_rep es (w # vs) (set_value (length es) w m)" "snd (table m ! length es) = v"
proof -
  note d = assms [unfolded ordered_rep_def]
  show "ordered_rep es (w # vs) (set_value (length es) w m)" using d
    by (simp add: ordered_rep_def set_value_def nth_append list_update_append)
  show "snd (table m ! length es) = v" using d by (simp add: nth_append)
qed

end
