(* ===== verification/Py_Dict.thy ===== *)
theory Py_Dict
  imports Py_Ordered_Map
begin

text \<open>
  Dictionaries, \<open>py/objdict.c\<close>, on the maps of \<open>py/map.c\<close>: the types \<open>dict\<close> (a hash table) and
  \<open>OrderedDict\<close> (an ordered array). A result is an exception or a value, with the dictionary
  after the call; \<open>None\<close> is a lookup that raised (a key that is not hashable). Values are
  objects; \<open>mp_const_none\<close>, an object at an address the linker chooses, is the argument \<open>none\<close> of
  the operations that return it. An iterable argument is the list of the objects it yields.
  Printing and the check of the number of arguments are not modelled.
\<close>

section \<open>Model\<close>

datatype dict_type = Type_dict | Type_ordereddict

record mp_obj_dict =
  dtype :: dict_type
  dmap :: "mp_obj mp_map"

datatype dict_exc = TypeError | KeyError mp_obj | KeyError_empty | ValueError_length

type_synonym dict_result = "((dict_exc + mp_obj) \<times> mp_obj_dict) option"

abbreviation map_lookup :: "'v lookup_fn" where
  "map_lookup \<equiv> mp_map_lookup 2"

text \<open>\<open>mp_map_lookup(map, key, MP_MAP_LOOKUP_ADD_IF_NOT_FOUND)->value = value\<close>\<close>

definition put_value :: "mp_obj \<Rightarrow> 'v option \<Rightarrow> 'v mp_map \<Rightarrow> 'v mp_map option" where
  "put_value key v m =
     Option.bind (map_lookup m key ADD_IF_NOT_FOUND) (\<lambda>(elem, m1).
       case elem of None \<Rightarrow> None | Some p \<Rightarrow> Some (set_value p v m1))"

definition mp_obj_dict_init :: "nat \<Rightarrow> mp_obj_dict" where
  "mp_obj_dict_init n = \<lparr>dtype = Type_dict, dmap = mp_map_init n\<rparr>"

definition mp_obj_new_dict :: "nat \<Rightarrow> mp_obj_dict" where
  "mp_obj_new_dict n = mp_obj_dict_init n"

definition mp_obj_dict_len :: "mp_obj_dict \<Rightarrow> nat" where
  "mp_obj_dict_len self = used (dmap self)"

subsection \<open>Iteration\<close>

text \<open>The slot of the next element and the cursor after it.\<close>

definition dict_iter_next :: "'v mp_map \<Rightarrow> nat \<Rightarrow> (nat \<times> nat) option" where
  "dict_iter_next m cur =
     map_option (\<lambda>i. (i, i + 1)) (first_filled (drop cur (take (alloc m) (map fst (table m)))) cur)"

lemma dict_iter_next_bounds: "dict_iter_next m cur = Some (i, c) \<Longrightarrow> cur \<le> i \<and> i < alloc m \<and> c = i + 1"
  by (auto simp: dict_iter_next_def dest!: first_filled_bounds)

definition key_at :: "'v mp_map \<Rightarrow> nat \<Rightarrow> mp_obj" where
  "key_at m i = the (slot_obj (fst (table m ! i)))"

definition value_at :: "'v mp_map \<Rightarrow> nat \<Rightarrow> 'v option" where
  "value_at m i = snd (table m ! i)"

text \<open>A loop over the elements of a dictionary, with the slot of each.\<close>

function dict_each :: "(nat \<Rightarrow> 's \<Rightarrow> 's option) \<Rightarrow> 'v mp_map \<Rightarrow> nat \<Rightarrow> 's \<Rightarrow> 's option" where
  "dict_each f m cur s =
     (case dict_iter_next m cur of
        None \<Rightarrow> Some s
      | Some (i, cur1) \<Rightarrow> Option.bind (f i s) (dict_each f m cur1))"
  by pat_completeness auto
termination
  by (relation "measure (\<lambda>(f, m, cur, s). alloc m - cur)") (auto dest!: dict_iter_next_bounds)

datatype dict_view_kind = MP_DICT_VIEW_ITEMS | MP_DICT_VIEW_KEYS | MP_DICT_VIEW_VALUES

datatype view_item = Item mp_obj "mp_obj option" | Single "mp_obj option"

text \<open>The iterator of a dictionary or a view; \<open>None\<close> is \<open>MP_OBJ_STOP_ITERATION\<close>.\<close>

definition dict_view_it_iternext :: "dict_view_kind \<Rightarrow> mp_obj_dict \<Rightarrow> nat \<Rightarrow> (view_item \<times> nat) option" where
  "dict_view_it_iternext kind d cur =
     (case dict_iter_next (dmap d) cur of
        None \<Rightarrow> None
      | Some (i, cur1) \<Rightarrow>
          Some (case kind of
                  MP_DICT_VIEW_ITEMS \<Rightarrow> Item (key_at (dmap d) i) (value_at (dmap d) i)
                | MP_DICT_VIEW_KEYS \<Rightarrow> Single (Some (key_at (dmap d) i))
                | MP_DICT_VIEW_VALUES \<Rightarrow> Single (value_at (dmap d) i), cur1))"

subsection \<open>Subscripts and methods\<close>

definition mp_obj_dict_get :: "mp_obj_dict \<Rightarrow> mp_obj \<Rightarrow> dict_result" where
  "mp_obj_dict_get self index =
     Option.bind (map_lookup (dmap self) index LOOKUP) (\<lambda>(elem, m).
       case elem of
         None \<Rightarrow> Some (Inl (KeyError index), self\<lparr>dmap := m\<rparr>)
       | Some p \<Rightarrow> map_option (\<lambda>v. (Inr v, self\<lparr>dmap := m\<rparr>)) (value_at m p))"

definition mp_obj_dict_store :: "mp_obj_dict \<Rightarrow> mp_obj \<Rightarrow> mp_obj \<Rightarrow> ((dict_exc + unit) \<times> mp_obj_dict) option" where
  "mp_obj_dict_store self key value =
     (if is_fixed (dmap self) then Some (Inl TypeError, self)
      else map_option (\<lambda>m. (Inr (), self\<lparr>dmap := m\<rparr>)) (put_value key (Some value) (dmap self)))"

text \<open>\<open>dflt\<close> is the third argument, \<open>None\<close> when there are two.\<close>

definition dict_get_helper ::
    "mp_obj \<Rightarrow> mp_obj_dict \<Rightarrow> mp_obj \<Rightarrow> mp_obj option \<Rightarrow> lookup_kind \<Rightarrow> dict_result" where
  "dict_get_helper none self key dflt kind =
     (if kind \<noteq> LOOKUP \<and> is_fixed (dmap self) then Some (Inl TypeError, self)
      else Option.bind (map_lookup (dmap self) key kind) (\<lambda>(elem, m).
        case Option.bind elem (value_at m) of
          None \<Rightarrow>
            if dflt = None \<and> kind = REMOVE_IF_FOUND then Some (Inl (KeyError key), self\<lparr>dmap := m\<rparr>)
            else
              let value = (case dflt of None \<Rightarrow> none | Some v \<Rightarrow> v)
              in Some (Inr value,
                       self\<lparr>dmap := if kind = ADD_IF_NOT_FOUND then set_value (the elem) (Some value) m else m\<rparr>)
        | Some value \<Rightarrow>
            Some (Inr value, self\<lparr>dmap := if kind = REMOVE_IF_FOUND then set_value (the elem) None m else m\<rparr>)))"

definition dict_get :: "mp_obj \<Rightarrow> mp_obj_dict \<Rightarrow> mp_obj \<Rightarrow> mp_obj option \<Rightarrow> dict_result" where
  "dict_get none self key dflt = dict_get_helper none self key dflt LOOKUP"

definition dict_pop :: "mp_obj \<Rightarrow> mp_obj_dict \<Rightarrow> mp_obj \<Rightarrow> mp_obj option \<Rightarrow> dict_result" where
  "dict_pop none self key dflt = dict_get_helper none self key dflt REMOVE_IF_FOUND"

definition dict_setdefault :: "mp_obj \<Rightarrow> mp_obj_dict \<Rightarrow> mp_obj \<Rightarrow> mp_obj option \<Rightarrow> dict_result" where
  "dict_setdefault none self key dflt = dict_get_helper none self key dflt ADD_IF_NOT_FOUND"

definition mp_obj_dict_delete :: "mp_obj \<Rightarrow> mp_obj_dict \<Rightarrow> mp_obj \<Rightarrow> ((dict_exc + unit) \<times> mp_obj_dict) option" where
  "mp_obj_dict_delete none self key =
     map_option (\<lambda>(r, d). (map_sum (\<lambda>e. e) (\<lambda>_. ()) r, d)) (dict_get_helper none self key None REMOVE_IF_FOUND)"

datatype subscr = Delete | Load | Store mp_obj

definition dict_subscr :: "mp_obj \<Rightarrow> mp_obj_dict \<Rightarrow> mp_obj \<Rightarrow> subscr \<Rightarrow> dict_result" where
  "dict_subscr none self index value =
     (case value of
        Delete \<Rightarrow> map_option (\<lambda>(r, d). (map_sum (\<lambda>e. e) (\<lambda>_. none) r, d)) (mp_obj_dict_delete none self index)
      | Load \<Rightarrow> mp_obj_dict_get self index
      | Store v \<Rightarrow> map_option (\<lambda>(r, d). (map_sum (\<lambda>e. e) (\<lambda>_. none) r, d)) (mp_obj_dict_store self index v))"

definition dict_clear :: "mp_obj_dict \<Rightarrow> (dict_exc + unit) \<times> mp_obj_dict" where
  "dict_clear self =
     (if is_fixed (dmap self) then (Inl TypeError, self)
      else (Inr (), self\<lparr>dmap := mp_map_clear (dmap self)\<rparr>))"

definition dict_copy :: "mp_obj_dict \<Rightarrow> mp_obj_dict" where
  "dict_copy self =
     (let other = mp_obj_new_dict (alloc (dmap self));
          m = (dmap other)\<lparr>used := used (dmap self), all_keys_are_qstrs := all_keys_are_qstrs (dmap self),
                           is_fixed := False, is_ordered := is_ordered (dmap self),
                           table := take (alloc (dmap self)) (table (dmap self))\<rparr>
      in other\<lparr>dtype := dtype self, dmap := m\<rparr>)"

definition dict_popitem :: "mp_obj_dict \<Rightarrow> ((dict_exc + mp_obj \<times> mp_obj option) \<times> mp_obj_dict)" where
  "dict_popitem self =
     (if is_fixed (dmap self) then (Inl TypeError, self)
      else case dict_iter_next (dmap self) 0 of
        None \<Rightarrow> (Inl KeyError_empty, self)
      | Some (i, cur) \<Rightarrow>
          let m = dmap self
          in (Inr (key_at m i, value_at m i),
              self\<lparr>dmap := m\<lparr>used := used m - 1, table := (table m)[i := (Deleted, None)]\<rparr>\<rparr>))"

text \<open>The positional argument of \<open>update\<close>: the dictionary itself, another one, or an iterable of iterables.\<close>

datatype update_arg = The_dict | Other_dict mp_obj_dict | Pairs "mp_obj list list"

definition copy_elems :: "'v mp_map \<Rightarrow> 'v mp_map \<Rightarrow> 'v mp_map option" where
  "copy_elems other m = dict_each (\<lambda>i. put_value (key_at other i) (value_at other i)) other 0 m"

fun put_pairs :: "mp_obj list list \<Rightarrow> mp_obj mp_map \<Rightarrow> (bool \<times> mp_obj mp_map) option" where
  "put_pairs [] m = Some (True, m)"
| "put_pairs (p # ps) m =
     (case p of
        [key, value] \<Rightarrow> Option.bind (put_value key (Some value) m) (put_pairs ps)
      | _ \<Rightarrow> Some (False, m))"

definition dict_update ::
    "mp_obj_dict \<Rightarrow> update_arg option \<Rightarrow> mp_obj mp_map \<Rightarrow> ((dict_exc + unit) \<times> mp_obj_dict) option" where
  "dict_update self arg kwargs =
     (if is_fixed (dmap self) then Some (Inl TypeError, self)
      else
        Option.bind
          (case arg of
             None \<Rightarrow> Some (True, dmap self)
           | Some The_dict \<Rightarrow> Some (True, dmap self)
           | Some (Other_dict other) \<Rightarrow> map_option (Pair True) (copy_elems (dmap other) (dmap self))
           | Some (Pairs ps) \<Rightarrow> put_pairs ps (dmap self))
          (\<lambda>(fine, m1).
             if \<not> fine then Some (Inl ValueError_length, self\<lparr>dmap := m1\<rparr>)
             else map_option (\<lambda>m2. (Inr (), self\<lparr>dmap := m2\<rparr>)) (copy_elems kwargs m1)))"

definition dict_make_new ::
    "dict_type \<Rightarrow> update_arg option \<Rightarrow> mp_obj elem list \<Rightarrow> ((dict_exc + unit) \<times> mp_obj_dict) option" where
  "dict_make_new type arg kw =
     (let d = (mp_obj_new_dict 0)\<lparr>dtype := type\<rparr>;
          d1 = (if type = Type_ordereddict then d\<lparr>dmap := (dmap d)\<lparr>is_ordered := True\<rparr>\<rparr> else d)
      in if arg \<noteq> None \<or> kw \<noteq> [] then dict_update d1 arg (mp_map_init_fixed_table kw) else Some (Inr (), d1))"

text \<open>\<open>len\<close> is the length of the argument where its type has one, \<open>value\<close> the third argument.\<close>

fun put_keys :: "mp_obj list \<Rightarrow> mp_obj \<Rightarrow> mp_obj mp_map \<Rightarrow> mp_obj mp_map option" where
  "put_keys [] v m = Some m"
| "put_keys (k # ks) v m = Option.bind (put_value k (Some v) m) (put_keys ks v)"

definition dict_fromkeys :: "mp_obj \<Rightarrow> nat option \<Rightarrow> mp_obj list \<Rightarrow> mp_obj option \<Rightarrow> mp_obj_dict option" where
  "dict_fromkeys none len iter value =
     (let self = mp_obj_new_dict (case len of None \<Rightarrow> 0 | Some n \<Rightarrow> n)
      in map_option (\<lambda>m. self\<lparr>dmap := m\<rparr>)
           (put_keys iter (case value of None \<Rightarrow> none | Some v \<Rightarrow> v) (dmap self)))"

subsection \<open>Operators\<close>

definition dict_contains :: "mp_obj_dict \<Rightarrow> mp_obj \<Rightarrow> bool option" where
  "dict_contains self key = map_option (\<lambda>(elem, m). elem \<noteq> None) (map_lookup (dmap self) key LOOKUP)"

fun values_equal :: "mp_obj option \<Rightarrow> mp_obj option \<Rightarrow> bool" where
  "values_equal (Some v) (Some w) = mp_obj_equal v w"
| "values_equal v w = (v = w)"

function ordered_equal_loop :: "mp_obj mp_map \<Rightarrow> nat \<Rightarrow> mp_obj mp_map \<Rightarrow> nat \<Rightarrow> bool" where
  "ordered_equal_loop l c1 r c2 =
     (case (dict_iter_next l c1, dict_iter_next r c2) of
        (Some (i, c1'), Some (j, c2')) \<Rightarrow>
          if \<not> mp_obj_equal (key_at l i) (key_at r j) \<or> \<not> values_equal (value_at l i) (value_at r j) then False
          else ordered_equal_loop l c1' r c2'
      | (e1, e2) \<Rightarrow> e1 = None \<and> e2 = None)"
  by pat_completeness auto
termination
  by (relation "measure (\<lambda>(l, c1, r, c2). alloc l - c1)") (auto dest!: dict_iter_next_bounds [OF sym])

function dict_equal_loop :: "mp_obj mp_map \<Rightarrow> nat \<Rightarrow> mp_obj mp_map \<Rightarrow> bool option" where
  "dict_equal_loop l cur r =
     (case dict_iter_next l cur of
        None \<Rightarrow> Some True
      | Some (i, cur1) \<Rightarrow>
          Option.bind (map_lookup r (key_at l i) LOOKUP) (\<lambda>(elem, _).
            case elem of
              None \<Rightarrow> Some False
            | Some p \<Rightarrow> if \<not> values_equal (value_at l i) (value_at r p) then Some False
                         else dict_equal_loop l cur1 r))"
  by pat_completeness auto
termination
  by (relation "measure (\<lambda>(l, cur, r). alloc l - cur)") (auto dest!: dict_iter_next_bounds)

definition dict_equal :: "mp_obj_dict \<Rightarrow> mp_obj_dict \<Rightarrow> bool option" where
  "dict_equal o1 rhs =
     (if dtype o1 = Type_ordereddict \<and> dtype rhs = Type_ordereddict
      then Some (ordered_equal_loop (dmap o1) 0 (dmap rhs) 0)
      else if dtype rhs = Type_dict then
        if used (dmap o1) \<noteq> used (dmap rhs) then Some False else dict_equal_loop (dmap o1) 0 (dmap rhs)
      else Some False)"

declare dict_each.simps [simp del] ordered_equal_loop.simps [simp del] dict_equal_loop.simps [simp del]

end
