(* ===== verification/Py_Dict_Props.thy ===== *)
theory Py_Dict_Props
  imports Py_Dict
begin

text \<open>
  Correctness of dictionaries. What \<open>py/objdict.c\<close> relies on of \<open>py/map.c\<close> is the locale
  \<open>map_contract\<close>; hash tables and ordered arrays both provide it, and inside it the dictionary
  operations are shown to be those of a finite map from what the keys stand for to values.
\<close>

definition contents :: "mp_obj mp_map \<Rightarrow> key \<rightharpoonup> mp_obj" where
  "contents m = (\<lambda>c. Option.bind (dict m c) (\<lambda>v. v))"

section \<open>The reference: a map with exceptions\<close>

datatype dict_op =
    Op_load mp_obj | Op_store mp_obj mp_obj | Op_delete mp_obj | Op_get mp_obj "mp_obj option"
  | Op_pop mp_obj "mp_obj option" | Op_setdefault mp_obj "mp_obj option"

fun op_key :: "dict_op \<Rightarrow> mp_obj" where
  "op_key (Op_load k) = k"
| "op_key (Op_store k v) = k"
| "op_key (Op_delete k) = k"
| "op_key (Op_get k d) = k"
| "op_key (Op_pop k d) = k"
| "op_key (Op_setdefault k d) = k"

fun dict_exec :: "mp_obj \<Rightarrow> dict_op \<Rightarrow> mp_obj_dict \<Rightarrow> dict_result" where
  "dict_exec none (Op_load k) d = dict_subscr none d k Load"
| "dict_exec none (Op_store k v) d = dict_subscr none d k (Store v)"
| "dict_exec none (Op_delete k) d = dict_subscr none d k Delete"
| "dict_exec none (Op_get k dflt) d = dict_get none d k dflt"
| "dict_exec none (Op_pop k dflt) d = dict_pop none d k dflt"
| "dict_exec none (Op_setdefault k dflt) d = dict_setdefault none d k dflt"

fun dict_run :: "mp_obj \<Rightarrow> dict_op list \<Rightarrow> mp_obj_dict \<Rightarrow> ((dict_exc + mp_obj) list \<times> mp_obj_dict) option" where
  "dict_run none [] d = Some ([], d)"
| "dict_run none (op # ops) d =
     Option.bind (dict_exec none op d) (\<lambda>(r, d1). map_option (\<lambda>(rs, d2). (r # rs, d2)) (dict_run none ops d1))"

fun spec_exec :: "mp_obj \<Rightarrow> dict_op \<Rightarrow> (key \<rightharpoonup> mp_obj) \<Rightarrow> (dict_exc + mp_obj) \<times> (key \<rightharpoonup> mp_obj)" where
  "spec_exec none (Op_load k) c = (case c (canon k) of None \<Rightarrow> (Inl (KeyError k), c) | Some v \<Rightarrow> (Inr v, c))"
| "spec_exec none (Op_store k v) c = (Inr none, c(canon k \<mapsto> v))"
| "spec_exec none (Op_delete k) c =
     (case c (canon k) of None \<Rightarrow> (Inl (KeyError k), c) | Some v \<Rightarrow> (Inr none, c(canon k := None)))"
| "spec_exec none (Op_get k dflt) c =
     (case c (canon k) of None \<Rightarrow> (Inr (case dflt of None \<Rightarrow> none | Some w \<Rightarrow> w), c) | Some v \<Rightarrow> (Inr v, c))"
| "spec_exec none (Op_pop k dflt) c =
     (case c (canon k) of
        None \<Rightarrow> (case dflt of None \<Rightarrow> Inl (KeyError k) | Some w \<Rightarrow> Inr w, c)
      | Some v \<Rightarrow> (Inr v, c(canon k := None)))"
| "spec_exec none (Op_setdefault k dflt) c =
     (case c (canon k) of
        None \<Rightarrow> let w = (case dflt of None \<Rightarrow> none | Some w \<Rightarrow> w) in (Inr w, c(canon k \<mapsto> w))
      | Some v \<Rightarrow> (Inr v, c))"

fun spec_run :: "mp_obj \<Rightarrow> dict_op list \<Rightarrow> (key \<rightharpoonup> mp_obj) \<Rightarrow> (dict_exc + mp_obj) list \<times> (key \<rightharpoonup> mp_obj)" where
  "spec_run none [] c = ([], c)"
| "spec_run none (op # ops) c =
     (case spec_exec none op c of (r, c1) \<Rightarrow> case spec_run none ops c1 of (rs, c2) \<Rightarrow> (r # rs, c2))"

section \<open>What dictionaries rely on\<close>

locale map_contract =
  fixes inv :: "mp_obj mp_map \<Rightarrow> bool" and good :: "mp_obj \<Rightarrow> bool"
  assumes not_fixed: "inv m \<Longrightarrow> \<not> is_fixed m"
    and find: "inv m \<Longrightarrow> good k \<Longrightarrow>
      \<exists>e. map_lookup m k LOOKUP = Some (e, m) \<and> Option.bind e (value_at m) = contents m (canon k) \<and>
        (e = None \<longleftrightarrow> contents m (canon k) = None)"
    and add: "inv m \<Longrightarrow> good k \<Longrightarrow>
      \<exists>p m1. map_lookup m k ADD_IF_NOT_FOUND = Some (Some p, m1) \<and> value_at m1 p = contents m (canon k) \<and>
        (contents m (canon k) \<noteq> None \<longrightarrow> inv m1 \<and> contents m1 = contents m) \<and>
        (\<forall>v. inv (set_value p (Some v) m1) \<and> contents (set_value p (Some v) m1) = (contents m)(canon k \<mapsto> v))"
    and remove: "inv m \<Longrightarrow> good k \<Longrightarrow>
      \<exists>e m1. map_lookup m k REMOVE_IF_FOUND = Some (e, m1) \<and> Option.bind e (value_at m1) = contents m (canon k) \<and>
        (contents m (canon k) = None \<longrightarrow> m1 = m) \<and>
        (contents m (canon k) \<noteq> None \<longrightarrow> inv (set_value (the e) None m1) \<and>
           contents (set_value (the e) None m1) = (contents m)(canon k := None))"
begin

lemma put_value_spec:
  assumes "inv m" "good k"
  shows "\<exists>m1. put_value k (Some v) m = Some m1 \<and> inv m1 \<and> contents m1 = (contents m)(canon k \<mapsto> v)"
  using add [OF assms] by (auto simp: put_value_def)

lemma get_helper_spec:
  assumes "inv (dmap d)" "good k" "kind \<noteq> ADD_IF_NOT_FOUND_OR_REMOVE_IF_FOUND"
  shows "\<exists>r d1. dict_get_helper none d k dflt kind = Some (r, d1) \<and> inv (dmap d1) \<and>
    (r, contents (dmap d1)) = spec_exec none
      (case kind of REMOVE_IF_FOUND \<Rightarrow> Op_pop k dflt | ADD_IF_NOT_FOUND \<Rightarrow> Op_setdefault k dflt | _ \<Rightarrow> Op_get k dflt)
      (contents (dmap d))"
proof (cases kind)
  case LOOKUP
  then show ?thesis using find [OF assms(1,2)] assms(1)
    by (auto simp: dict_get_helper_def Let_def split: option.splits)
next
  case ADD_IF_NOT_FOUND
  then show ?thesis using add [OF assms(1,2)] not_fixed [OF assms(1)]
    by (auto simp: dict_get_helper_def Let_def split: option.splits)
next
  case REMOVE_IF_FOUND
  then show ?thesis using remove [OF assms(1,2)] not_fixed [OF assms(1)] assms(1)
    by (auto simp: dict_get_helper_def Let_def split: option.splits)
qed (use assms in simp)

lemma exec_spec:
  assumes "inv (dmap d)" "good (op_key op)"
  shows "\<exists>r d1. dict_exec none op d = Some (r, d1) \<and> inv (dmap d1) \<and>
    spec_exec none op (contents (dmap d)) = (r, contents (dmap d1))"
proof (cases op)
  case (Op_load k)
  then show ?thesis using find [of "dmap d" k] assms
    by (auto simp: dict_subscr_def mp_obj_dict_get_def split: option.splits)
next
  case (Op_store k v)
  then show ?thesis using put_value_spec [of "dmap d" k v] not_fixed [OF assms(1)] assms
    by (auto simp: dict_subscr_def mp_obj_dict_store_def)
next
  case (Op_delete k)
  then show ?thesis using get_helper_spec [of d k REMOVE_IF_FOUND none None] assms
    by (auto simp: dict_subscr_def mp_obj_dict_delete_def split: option.splits)
next
  case (Op_get k dflt)
  then show ?thesis using get_helper_spec [of d k LOOKUP none dflt] assms by (auto simp: dict_get_def)
next
  case (Op_pop k dflt)
  then show ?thesis using get_helper_spec [of d k REMOVE_IF_FOUND none dflt] assms by (auto simp: dict_pop_def)
next
  case (Op_setdefault k dflt)
  then show ?thesis using get_helper_spec [of d k ADD_IF_NOT_FOUND none dflt] assms by (auto simp: dict_setdefault_def)
qed

lemma run_spec:
  assumes "inv (dmap d)" "\<forall>op \<in> set ops. good (op_key op)"
  shows "\<exists>rs d1. dict_run none ops d = Some (rs, d1) \<and> inv (dmap d1) \<and>
    spec_run none ops (contents (dmap d)) = (rs, contents (dmap d1))"
  using assms
proof (induction ops arbitrary: d)
  case (Cons op ops)
  obtain r d1 where d1: "dict_exec none op d = Some (r, d1)" "inv (dmap d1)"
    "spec_exec none op (contents (dmap d)) = (r, contents (dmap d1))"
    using exec_spec [of d op none] Cons.prems by auto
  from Cons.IH [OF d1(2)] Cons.prems(2) obtain rs d2 where "dict_run none ops d1 = Some (rs, d2)" "inv (dmap d2)"
    "spec_run none ops (contents (dmap d1)) = (rs, contents (dmap d2))" by auto
  with d1 show ?case by simp
qed simp

end

section \<open>Hash tables provide it\<close>

definition hash_inv :: "mp_obj mp_map \<Rightarrow> bool" where
  "hash_inv m \<longleftrightarrow> map_ok m \<and> (\<forall>c. dict m c \<noteq> Some None)"

lemma contents_dict: "(\<And>c. dict m c \<noteq> Some None) \<Longrightarrow> contents m c = None \<longleftrightarrow> dict m c = None"
  by (cases "dict m c") (auto simp: contents_def, metis option.exhaust)

lemma set_value_vacant:
  assumes ok: "map_ok m" and p: "p < alloc m" "\<forall>k. fst (table m ! p) \<noteq> Filled k"
  shows "map_ok (set_value p v m)" "dict (set_value p v m) = dict m"
proof -
  note d = map_okD [OF ok]
  have pl: "p < length (table m)" using p d by simp
  have keys: "map fst ((table m)[p := (fst (table m ! p), v)]) = map fst (table m)"
    using pl by (simp add: map_update) (metis list_update_id nth_map)
  have "fst ((table m)[p := (fst (table m ! p), v)] ! q) = fst (table m ! q)" for q
    using pl by (cases "q = p") auto
  with keys show "map_ok (set_value p v m)" using ok by (simp add: map_ok_def set_value_def)
  have "entries ((table m)[p := (fst (table m ! p), v)]) = entries (table m)"
    unfolding entries_at [OF pl] using p(2) not_filled_entries [of "table m ! p"]
      not_filled_entries [of "(fst (table m ! p), v)"] by simp
  then show "dict (set_value p v m) = dict m" by (simp add: dict_def set_value_def)
qed

interpretation hash_dict: map_contract hash_inv key_ok
proof
  fix m :: "mp_obj mp_map" and k
  assume inv: "hash_inv m"
  then have ok: "map_ok m" and nn: "\<And>c. dict m c \<noteq> Some None" by (auto simp: hash_inv_def)
  show "\<not> is_fixed m" using ok by (simp add: map_ok_def)
  assume k: "key_ok k"
  show "\<exists>e. map_lookup m k LOOKUP = Some (e, m) \<and> Option.bind e (value_at m) = contents m (canon k) \<and>
      (e = None \<longleftrightarrow> contents m (canon k) = None)"
    using map_find_cases [OF ok k, of LOOKUP 1] dict_at [OF ok] contents_dict [OF nn]
    by (fastforce simp: numeral_2_eq_2 contents_def value_at_def simp del: mp_map_lookup.simps)
  from map_add_spec [OF ok k, of 0] obtain p m1 where
    m1: "map_lookup m k ADD_IF_NOT_FOUND = Some (Some p, m1)" "added k m p m1"
    unfolding numeral_2_eq_2 by blast
  then obtain l where l: "map_ok m1" "p < alloc m1" "fst (table m1 ! p) = Filled l" "canon l = canon k"
    "dict m1 = (if dict m (canon k) = None then (dict m)(canon k \<mapsto> None) else dict m)"
    unfolding added_def by blast
  have v: "value_at m1 p = contents m (canon k)"
    using dict_at [OF l(1-3)] l(4,5) by (auto simp: value_at_def contents_def split: if_splits)
  have present: "contents m (canon k) \<noteq> None \<longrightarrow> hash_inv m1 \<and> contents m1 = contents m"
    using l(1,5) nn contents_dict [OF nn] by (auto simp: hash_inv_def contents_def)
  have "dict (set_value p (Some v) m1) = (dict m)(canon k \<mapsto> Some v)" for v
    using set_value_ok(2) [OF l(1-3), of "Some v"] l(4,5) by (auto split: if_splits)
  then have "hash_inv (set_value p (Some v) m1) \<and> contents (set_value p (Some v) m1) = (contents m)(canon k \<mapsto> v)" for v
    using set_value_ok(1) [OF l(1-3)] nn by (auto simp: hash_inv_def contents_def)
  with m1(1) v present show "\<exists>p m1. map_lookup m k ADD_IF_NOT_FOUND = Some (Some p, m1) \<and> value_at m1 p = contents m (canon k) \<and>
        (contents m (canon k) \<noteq> None \<longrightarrow> hash_inv m1 \<and> contents m1 = contents m) \<and>
        (\<forall>v. hash_inv (set_value p (Some v) m1) \<and> contents (set_value p (Some v) m1) = (contents m)(canon k \<mapsto> v))"
    by blast
  from map_find_cases [OF ok k, of REMOVE_IF_FOUND 1] consider
    (found) p l where "map_lookup m k REMOVE_IF_FOUND = Some (Some p, delete_at p m)" "p < alloc m"
      "fst (table m ! p) = Filled l" "canon l = canon k"
    | (missing) "map_lookup m k REMOVE_IF_FOUND = Some (None, m)" "dict m (canon k) = None"
    by (auto simp: numeral_2_eq_2 simp del: mp_map_lookup.simps)
  then show "\<exists>e m1. map_lookup m k REMOVE_IF_FOUND = Some (e, m1) \<and> Option.bind e (value_at m1) = contents m (canon k) \<and>
        (contents m (canon k) = None \<longrightarrow> m1 = m) \<and>
        (contents m (canon k) \<noteq> None \<longrightarrow> hash_inv (set_value (the e) None m1) \<and>
           contents (set_value (the e) None m1) = (contents m)(canon k := None))"
  proof cases
    case (found p l)
    note del = delete_at_ok [OF ok found(2,3)]
    have vacant: "\<forall>k. fst (table (delete_at p m) ! p) \<noteq> Filled k" "p < alloc (delete_at p m)"
      using found(2) map_okD(3) [OF ok] by (auto simp: delete_at_def)
    note sv = set_value_vacant [OF del(1) vacant(2,1), of None]
    have some: "dict m (canon k) = Some (value_at m p)" using dict_at [OF ok found(2,3)] found(4) by (simp add: value_at_def)
    have "value_at (delete_at p m) p = contents m (canon k)"
      using del(3) some by (simp add: value_at_def contents_def)
    moreover have "hash_inv (set_value p None (delete_at p m))"
      "contents (set_value p None (delete_at p m)) = (contents m)(canon k := None)"
      using sv del(2) nn found(4) by (auto simp: hash_inv_def contents_def)
    moreover have "contents m (canon k) \<noteq> None" using contents_dict [OF nn] some by simp
    ultimately show ?thesis using found(1) by (intro exI [of _ "Some p"] exI [of _ "delete_at p m"]) auto
  next
    case missing
    then show ?thesis using contents_dict [OF nn, of "canon k"] by simp
  qed
qed

section \<open>Ordered arrays provide it\<close>

definition clean :: "(mp_obj \<times> 'v option) list \<Rightarrow> 'v option list \<Rightarrow> bool" where
  "clean es vs \<longleftrightarrow> (\<forall>x \<in> set es. snd x \<noteq> None) \<and> (\<forall>v \<in> set vs. v = None)"

definition ordered_inv :: "mp_obj mp_map \<Rightarrow> bool" where
  "ordered_inv m \<longleftrightarrow> (\<exists>es vs. ordered_rep es vs m \<and> clean es vs)"

lemma clean_dict: "clean es vs \<Longrightarrow> alist_dict es c \<noteq> Some None"
  by (induction es) (auto simp: clean_def alist_dict_def)

lemma ordered_contents:
  assumes "ordered_rep es vs m" "clean es vs"
  shows "position c es = None \<Longrightarrow> contents m c = None"
    "position c es = Some i \<Longrightarrow> contents m c = snd (es ! i) \<and> contents m c \<noteq> None"
  using ordered_rep_dict [OF assms(1)] position_None [of c es] position_Some [of c es i] assms(2)
  by (auto simp: contents_def clean_def)

lemma ordered_value_at: "ordered_rep es vs m \<Longrightarrow> i < length es \<Longrightarrow> value_at m i = snd (es ! i)"
  by (simp add: ordered_rep_def value_at_def nth_append fill_def)

lemma ordered_put:
  assumes "ordered_rep es vs m" "clean (take i es) vs" "clean (drop (Suc i) es) vs" "i < length es"
  shows "ordered_inv (set_value i (Some v) m)"
    "contents (set_value i (Some v) m) = (contents m)(canon (fst (es ! i)) \<mapsto> v)"
proof -
  note s = ordered_set_value [OF assms(1,4), of "Some v"]
  have "clean (es[i := (fst (es ! i), Some v)]) vs"
    using assms(2-4) by (auto simp: clean_def upd_conv_take_nth_drop)
  with s(1) show "ordered_inv (set_value i (Some v) m)" by (auto simp: ordered_inv_def)
  show "contents (set_value i (Some v) m) = (contents m)(canon (fst (es ! i)) \<mapsto> v)"
    using ordered_rep_dict [OF s(1)] s(2) ordered_rep_dict [OF assms(1)] by (auto simp: contents_def)
qed

lemma clean_take_drop: "clean es vs \<Longrightarrow> clean (take i es) vs" "clean es vs \<Longrightarrow> clean (drop i es) vs"
  by (auto simp: clean_def dest: in_set_takeD in_set_dropD)

interpretation ordered_dict: map_contract ordered_inv obj_ok
proof
  fix m :: "mp_obj mp_map" and k
  assume "ordered_inv m"
  then obtain es vs where rep: "ordered_rep es vs m" and cl: "clean es vs" by (auto simp: ordered_inv_def)
  show "\<not> is_fixed m" using rep by (simp add: ordered_rep_def)
  assume k: "obj_ok k"
  have step: "\<exists>m'. map_lookup m k kind = Some (fst R, m') \<and> ordered_rep (fst (snd R)) (snd (snd R)) m'"
    if "kind \<noteq> ADD_IF_NOT_FOUND_OR_REMOVE_IF_FOUND" "R = ordered_result es vs k kind" for kind R
    unfolding numeral_2_eq_2 using ordered_map_lookup [OF rep k that(1), of "fst R" "fst (snd R)" "snd (snd R)"] that(2)
    by (simp del: mp_map_lookup.simps)
  note c = ordered_contents [OF rep cl, of "canon k"]
  show "\<exists>e. map_lookup m k LOOKUP = Some (e, m) \<and> Option.bind e (value_at m) = contents m (canon k) \<and>
      (e = None \<longleftrightarrow> contents m (canon k) = None)"
  proof -
    have "\<exists>e. map_lookup m k LOOKUP = Some (e, m) \<and> e = position (canon k) es"
      unfolding numeral_2_eq_2 using ordered_map_unchanged [OF rep k, of LOOKUP 1] by simp
    then show ?thesis using c ordered_value_at [OF rep] position_Some [of "canon k" es]
      by (cases "position (canon k) es") (auto, metis)
  qed
  show "\<exists>p m1. map_lookup m k ADD_IF_NOT_FOUND = Some (Some p, m1) \<and> value_at m1 p = contents m (canon k) \<and>
        (contents m (canon k) \<noteq> None \<longrightarrow> ordered_inv m1 \<and> contents m1 = contents m) \<and>
        (\<forall>v. ordered_inv (set_value p (Some v) m1) \<and> contents (set_value p (Some v) m1) = (contents m)(canon k \<mapsto> v))"
  proof (cases "position (canon k) es")
    case (Some i)
    note i = position_Some [OF Some]
    from step [of ADD_IF_NOT_FOUND] Some obtain m' where m': "map_lookup m k ADD_IF_NOT_FOUND = Some (Some i, m')"
      "ordered_rep es vs m'" by (auto simp: ordered_result_def)
    have "contents m' = contents m"
      using ordered_rep_dict [OF m'(2)] ordered_rep_dict [OF rep] by (simp add: contents_def)
    moreover have "ordered_inv m'" using m'(2) cl by (auto simp: ordered_inv_def)
    ultimately show ?thesis
      using m'(1) ordered_put [OF m'(2) clean_take_drop [OF cl], of i] i ordered_value_at [OF m'(2), of i] c(2) [OF Some]
      by auto
  next
    case None
    let ?es = "es @ [(k, None)]" and ?vs = "if vs = [] then [None, None, None] else tl vs"
    have "ordered_result es vs k ADD_IF_NOT_FOUND = (Some (length es), ?es, ?vs)"
      using None cl by (auto simp: ordered_result_def clean_def split: list.splits)
    with step [of ADD_IF_NOT_FOUND] obtain m' where m': "map_lookup m k ADD_IF_NOT_FOUND = Some (Some (length es), m')"
      "ordered_rep ?es ?vs m'" by auto
    have cl': "clean es ?vs" "clean [] ?vs" using cl by (cases vs; auto simp: clean_def)+
    have new: "alist_dict es (canon k) = None" using None by (simp only: position_None)
    have d: "dict m' = (dict m)(canon k \<mapsto> None)"
      using ordered_rep_dict [OF m'(2)] ordered_rep_dict [OF rep] alist_dict_append [OF new, of k None] by simp
    have "ordered_inv (set_value (length es) (Some v) m') \<and> contents (set_value (length es) (Some v) m') = (contents m)(canon k \<mapsto> v)" for v
      using ordered_put [OF m'(2), of "length es" v] cl' d by (auto simp: contents_def)
    moreover have "value_at m' (length es) = None" using ordered_value_at [OF m'(2), of "length es"] by simp
    ultimately show ?thesis using m'(1) c(1) [OF None] by auto
  qed
  show "\<exists>e m1. map_lookup m k REMOVE_IF_FOUND = Some (e, m1) \<and> Option.bind e (value_at m1) = contents m (canon k) \<and>
        (contents m (canon k) = None \<longrightarrow> m1 = m) \<and>
        (contents m (canon k) \<noteq> None \<longrightarrow> ordered_inv (set_value (the e) None m1) \<and>
           contents (set_value (the e) None m1) = (contents m)(canon k := None))"
  proof (cases "position (canon k) es")
    case None
    then show ?thesis unfolding numeral_2_eq_2 using ordered_map_unchanged [OF rep k, of REMOVE_IF_FOUND 1] c(1) by simp
  next
    case (Some i)
    let ?es = "take i es @ drop (Suc i) es"
    note i = position_Some [OF Some]
    from step [of REMOVE_IF_FOUND] Some obtain m' where m': "map_lookup m k REMOVE_IF_FOUND = Some (Some (length es - 1), m')"
      "ordered_rep ?es (snd (es ! i) # vs) m'" by (auto simp: ordered_result_def)
    have len: "length ?es = length es - 1" using i by simp
    note b = ordered_set_value_behind [OF m'(2), unfolded len]
    have d: "alist_dict ?es = (alist_dict es)(canon k := None)"
      using alist_dict_remove [OF _ Some] rep by (simp add: ordered_rep_def)
    have "clean ?es (None # vs)" using clean_take_drop(1) [OF cl, of i] clean_take_drop(2) [OF cl, of "Suc i"] by (auto simp: clean_def)
    then have "ordered_inv (set_value (length es - 1) None m')" using b(1) by (auto simp: ordered_inv_def)
    moreover have "contents (set_value (length es - 1) None m') = (contents m)(canon k := None)"
      using ordered_rep_dict [OF b(1)] ordered_rep_dict [OF rep] d by (auto simp: contents_def)
    moreover have "value_at m' (length es - 1) = contents m (canon k)" using b(2) c(2) [OF Some] by (simp add: value_at_def)
    ultimately show ?thesis using m'(1) c(2) [OF Some] by auto
  qed
qed

section \<open>Iteration visits the elements in the order of the slots\<close>

fun elems :: "'v elem list \<Rightarrow> (mp_obj \<times> 'v option) list" where
  "elems [] = []"
| "elems ((Filled k, v) # T) = (k, v) # elems T"
| "elems (_ # T) = elems T"

lemma elems_entries: "entries T = map (\<lambda>(k, v). (canon k, v)) (elems T)"
  by (induction T rule: elems.induct) auto

lemma first_filled_elems:
  "case first_filled (map fst T) pos of
     None \<Rightarrow> elems T = []
   | Some i \<Rightarrow> pos \<le> i \<and> i - pos < length T \<and>
       (\<exists>k v. T ! (i - pos) = (Filled k, v) \<and> elems T = (k, v) # elems (drop (Suc (i - pos)) T))"
proof (induction T arbitrary: pos)
  case (Cons x T)
  obtain sl v where x: "x = (sl, v)" by (rule prod.exhaust)
  show ?case
  proof (cases sl)
    case (Filled k)
    then show ?thesis by (simp add: x)
  qed (use Cons.IH [of "Suc pos"] first_filled_bounds [of "map fst T" "Suc pos"] in
      \<open>auto simp: x Suc_diff_Suc nth_Cons' Suc_diff_le split: option.splits\<close>)
qed simp

lemma dict_iter_next_elems:
  assumes "length (table m) = alloc m"
  shows "case dict_iter_next m cur of
     None \<Rightarrow> elems (drop cur (table m)) = []
   | Some (i, c) \<Rightarrow> cur \<le> i \<and> i < alloc m \<and> c = Suc i \<and> (\<exists>k. fst (table m ! i) = Filled k) \<and>
       elems (drop cur (table m)) = (key_at m i, value_at m i) # elems (drop c (table m))"
  using first_filled_elems [of "drop cur (table m)" cur] assms
  by (auto simp: dict_iter_next_def drop_map key_at_def value_at_def split: option.splits)

lemma elems_append [simp]: "elems (S @ T) = elems S @ elems T"
  by (induction S rule: elems.induct) auto

lemma elems_drop: "set (elems (drop n T)) \<subseteq> set (elems T)"
  using elems_append [of "take n T" "drop n T"] by simp

fun put_elems :: "(mp_obj \<times> 'v option) list \<Rightarrow> 'v mp_map \<Rightarrow> 'v mp_map option" where
  "put_elems [] m = Some m"
| "put_elems ((k, v) # es) m = Option.bind (put_value k v m) (put_elems es)"

lemma copy_elems_eq:
  assumes "length (table other) = alloc other"
  shows "copy_elems other m = put_elems (elems (table other)) m"
proof -
  have "dict_each (\<lambda>i. put_value (key_at other i) (value_at other i)) other cur m =
      put_elems (elems (drop cur (table other))) m" for cur
  proof (induction "alloc other - cur" arbitrary: cur m rule: less_induct)
    case less
    note n = dict_iter_next_elems [OF assms, of cur]
    show ?case
    proof (cases "dict_iter_next other cur")
      case None
      with n show ?thesis by (subst dict_each.simps) simp
    next
      case (Some p)
      then obtain i c where p: "dict_iter_next other cur = Some (i, c)" by (cases p) auto
      with n have i: "cur \<le> i" "i < alloc other" "c = Suc i"
        "elems (drop cur (table other)) = (key_at other i, value_at other i) # elems (drop c (table other))" by auto
      then have "dict_each (\<lambda>i. put_value (key_at other i) (value_at other i)) other c =
          put_elems (elems (drop c (table other)))" by (intro ext less) auto
      then show ?thesis using p i(4) by (subst dict_each.simps) simp
    qed
  qed
  from this [of 0] show ?thesis by (simp add: copy_elems_def)
qed

context map_contract
begin

lemma put_elems_spec:
  assumes "inv m" "\<forall>x \<in> set es. good (fst x) \<and> snd x \<noteq> None"
  shows "\<exists>m1. put_elems es m = Some m1 \<and> inv m1 \<and>
    contents m1 = contents m ++ map_of (rev (map (\<lambda>x. (canon (fst x), the (snd x))) es))"
  using assms
proof (induction es arbitrary: m)
  case (Cons x es)
  obtain k v where x: "x = (k, Some v)" using Cons.prems(2) by (cases x) auto
  obtain m1 where m1: "put_value k (Some v) m = Some m1" "inv m1" "contents m1 = (contents m)(canon k \<mapsto> v)"
    using put_value_spec [OF Cons.prems(1), of k v] Cons.prems(2) x by auto
  obtain m2 where "put_elems es m1 = Some m2" "inv m2"
    "contents m2 = contents m1 ++ map_of (rev (map (\<lambda>x. (canon (fst x), the (snd x))) es))"
    using Cons.IH [OF m1(2)] Cons.prems(2) by auto
  then show ?case using m1 by (simp add: x)
qed simp

end

text \<open>A source of elements: its slots are all there, its keys distinct, no value missing.\<close>

definition source_ok :: "(mp_obj \<Rightarrow> bool) \<Rightarrow> mp_obj mp_map \<Rightarrow> bool" where
  "source_ok good m \<longleftrightarrow> length (table m) = alloc m \<and> unique_keys (table m) \<and>
     (\<forall>x \<in> set (elems (table m)). good (fst x) \<and> snd x \<noteq> None)"

lemma source_contents:
  assumes "source_ok good m"
  shows "map_of (rev (map (\<lambda>x. (canon (fst x), the (snd x))) (elems (table m)))) = contents m"
proof -
  have d: "distinct (map fst (map (\<lambda>x. (canon (fst x), the (snd x))) (elems (table m))))"
    using assms by (simp add: source_ok_def elems_entries comp_def case_prod_beta)
  have "map_of (map (\<lambda>x. (canon (fst x), the (snd x))) es) c = Option.bind (map_of (map (\<lambda>(k, v). (canon k, v)) es) c) (\<lambda>v. v)"
    if "\<forall>x \<in> set es. snd x \<noteq> None" for es c
    using that by (induction es) auto
  from this [of "elems (table m)"] have "map_of (map (\<lambda>x. (canon (fst x), the (snd x))) (elems (table m))) = contents m"
    using assms by (intro ext) (simp add: source_ok_def contents_def dict_def elems_entries)
  moreover have "map_of (rev xs) = map_of xs" if "distinct (map fst xs)" for xs :: "(key \<times> mp_obj) list"
    using that by (intro map_of_eqI) (auto simp: rev_map [symmetric] image_set [symmetric])
  ultimately show ?thesis using d by simp
qed

context map_contract
begin

lemma copy_elems_spec:
  assumes "inv m" "source_ok good other"
  shows "\<exists>m1. copy_elems other m = Some m1 \<and> inv m1 \<and> contents m1 = contents m ++ contents other"
  using put_elems_spec [OF assms(1), of "elems (table other)"] assms(2) source_contents [OF assms(2)]
  by (auto simp: source_ok_def copy_elems_eq)

lemma update_other_spec:
  assumes "inv (dmap self)" "source_ok good (dmap other)" "source_ok good kwargs"
  shows "\<exists>d. dict_update self (Some (Other_dict other)) kwargs = Some (Inr (), d) \<and> inv (dmap d) \<and>
    contents (dmap d) = contents (dmap self) ++ contents (dmap other) ++ contents kwargs"
proof -
  obtain m1 where m1: "copy_elems (dmap other) (dmap self) = Some m1" "inv m1"
    "contents m1 = contents (dmap self) ++ contents (dmap other)"
    using copy_elems_spec [OF assms(1,2)] by blast
  obtain m2 where "copy_elems kwargs m1 = Some m2" "inv m2" "contents m2 = contents m1 ++ contents kwargs"
    using copy_elems_spec [OF m1(2) assms(3)] by blast
  with m1 not_fixed [OF assms(1)] show ?thesis by (simp add: dict_update_def)
qed

end

section \<open>Equality\<close>

text \<open>What a dictionary stands for when values are compared with \<open>==\<close>.\<close>

definition denotes :: "mp_obj mp_map \<Rightarrow> key \<rightharpoonup> key" where
  "denotes m = (\<lambda>c. map_option canon (contents m c))"

definition values_ok :: "mp_obj mp_map \<Rightarrow> bool" where
  "values_ok m \<longleftrightarrow> (\<forall>v \<in> ran (contents m). obj_ok v)"

lemma elem_contents:
  assumes "unique_keys (table m)" "(k, Some v) \<in> set (elems (table m))"
  shows "contents m (canon k) = Some v"
proof -
  have "(canon k, Some v) \<in> set (entries (table m))" using assms(2) by (force simp: elems_entries)
  then have "map_of (entries (table m)) (canon k) = Some (Some v)" using assms(1) by simp
  then show ?thesis by (simp add: contents_def dict_def)
qed

lemma contents_elem: "contents m c = Some v \<Longrightarrow> \<exists>k. (k, Some v) \<in> set (elems (table m)) \<and> canon k = c"
  by (auto simp: contents_def dict_def elems_entries bind_eq_Some_conv dest!: map_of_SomeD)

definition agrees :: "mp_obj mp_map \<Rightarrow> mp_obj \<times> mp_obj option \<Rightarrow> bool" where
  "agrees r x \<longleftrightarrow> denotes r (canon (fst x)) = map_option canon (snd x)"

context map_contract
begin

lemma equal_loop_spec:
  assumes "inv r" "values_ok r" "source_ok good l" "values_ok l"
  shows "dict_equal_loop l cur r = Some (\<forall>x \<in> set (elems (drop cur (table l))). agrees r x)"
proof (induction "alloc l - cur" arbitrary: cur rule: less_induct)
  case less
  have len: "length (table l) = alloc l" using assms(3) by (simp add: source_ok_def)
  note n = dict_iter_next_elems [OF len, of cur]
  show ?case
  proof (cases "dict_iter_next l cur")
    case None
    with n show ?thesis by (subst dict_equal_loop.simps) simp
  next
    case (Some p)
    then obtain i c where p: "dict_iter_next l cur = Some (i, c)" by (cases p) auto
    let ?k = "key_at l i"
    from n p have i: "cur \<le> i" "i < alloc l" "c = Suc i"
      "elems (drop cur (table l)) = (?k, value_at l i) # elems (drop c (table l))" by auto
    then have "(?k, value_at l i) \<in> set (elems (drop cur (table l)))" by simp
    moreover have "set (elems (drop c (table l))) \<subseteq> set (elems (table l))" for c
      by (rule elems_drop)
    ultimately have mem: "(?k, value_at l i) \<in> set (elems (table l))" by blast
    then obtain v where v: "value_at l i = Some v" and k: "good ?k" using assms(3) by (auto simp: source_ok_def)
    then have "contents l (canon ?k) = Some v" using elem_contents [of l ?k v] mem assms(3) by (simp add: source_ok_def)
    then have vok: "obj_ok v" using assms(4) by (auto simp: values_ok_def ran_def)
    have ih: "dict_equal_loop l c r = Some (\<forall>x \<in> set (elems (drop c (table l))). agrees r x)"
      using i by (intro less) auto
    obtain e where e: "map_lookup r ?k LOOKUP = Some (e, r)" "Option.bind e (value_at r) = contents r (canon ?k)"
      "e = None \<longleftrightarrow> contents r (canon ?k) = None" using find [OF assms(1) k] by (elim exE conjE) (rule that)
    show ?thesis
    proof (cases "contents r (canon ?k)")
      case None
      then show ?thesis using p e i(4) v
        by (subst dict_equal_loop.simps) (simp add: agrees_def denotes_def)
    next
      case (Some w)
      then obtain q where q: "e = Some q" "value_at r q = Some w" using e by auto
      have "mp_obj_equal v w \<longleftrightarrow> canon v = canon w"
        using mp_obj_equal_canon [OF vok, of w] assms(2) Some by (auto simp: values_ok_def ran_def)
      then show ?thesis using p e(1) i(4) v q ih Some
        by (subst dict_equal_loop.simps) (auto simp: agrees_def denotes_def)
    qed
  qed
qed

end

lemma source_dom:
  assumes "source_ok good m"
  shows "dom (contents m) = (\<lambda>x. canon (fst x)) ` set (elems (table m))" "finite (dom (contents m))"
    "card (dom (contents m)) = length (elems (table m))"
proof -
  have u: "unique_keys (table m)" and some: "\<forall>x \<in> set (elems (table m)). snd x \<noteq> None"
    using assms by (auto simp: source_ok_def)
  show d: "dom (contents m) = (\<lambda>x. canon (fst x)) ` set (elems (table m))"
    using some contents_elem [of m] elem_contents [OF u] by force
  then show "finite (dom (contents m))" by simp
  have "distinct (map (\<lambda>x. canon (fst x)) (elems (table m)))"
    using u by (simp add: elems_entries comp_def case_prod_beta)
  then have "card (set (map (\<lambda>x. canon (fst x)) (elems (table m)))) = length (elems (table m))"
    using distinct_card by fastforce
  then show "card (dom (contents m)) = length (elems (table m))" by (simp add: d)
qed

lemma agrees_iff:
  assumes l: "source_ok good l" and r: "source_ok good' r"
    and len: "length (elems (table l)) = length (elems (table r))"
  shows "(\<forall>x \<in> set (elems (table l)). agrees r x) \<longleftrightarrow> denotes l = denotes r"
proof
  have u: "unique_keys (table l)" and some: "\<And>x. x \<in> set (elems (table l)) \<Longrightarrow> snd x \<noteq> None"
    using l by (auto simp: source_ok_def)
  assume a: "\<forall>x \<in> set (elems (table l)). agrees r x"
  have sub: "denotes r c = denotes l c" if "c \<in> dom (contents l)" for c
  proof -
    from that obtain v where v: "contents l c = Some v" by auto
    with contents_elem obtain k where "(k, Some v) \<in> set (elems (table l))" "canon k = c" by blast
    with a v show ?thesis by (auto simp: agrees_def denotes_def)
  qed
  then have "dom (contents l) \<subseteq> dom (contents r)" by (force simp: denotes_def)
  then have dom: "dom (contents l) = dom (contents r)"
    using source_dom [OF l] source_dom [OF r] len by (intro card_subset_eq) simp_all
  show "denotes l = denotes r"
  proof
    fix c
    show "denotes l c = denotes r c"
    proof (cases "c \<in> dom (contents l)")
      case False
      then have "contents l c = None" "contents r c = None" using dom by blast+
      then show ?thesis by (simp add: denotes_def)
    qed (use sub in simp)
  qed
next
  assume eq: "denotes l = denotes r"
  show "\<forall>x \<in> set (elems (table l)). agrees r x"
  proof
    fix x assume x: "x \<in> set (elems (table l))"
    then have "snd x \<noteq> None" using l by (simp add: source_ok_def)
    then obtain k v where "x = (k, Some v)" by (cases x) auto
    with x elem_contents [of l k v] l have "contents l (canon k) = Some v" by (simp add: source_ok_def)
    then have "denotes l (canon k) = Some (canon v)" by (simp add: denotes_def)
    then show "agrees r x" using eq \<open>x = (k, Some v)\<close> by (simp add: agrees_def)
  qed
qed

lemma hash_source:
  assumes "hash_inv m"
  shows "source_ok key_ok m" "used m = length (elems (table m))"
proof -
  have ok: "map_ok m" and nn: "\<And>c. dict m c \<noteq> Some None" using assms by (auto simp: hash_inv_def)
  note d = map_okD [OF ok]
  have "key_ok k \<and> v \<noteq> None" if "(k, v) \<in> set (elems (table m))" for k v
  proof -
    have "(Filled k, v) \<in> set T" if "(k, v) \<in> set (elems T)" for T
      using that by (induction T rule: elems.induct) auto
    with that obtain p where p: "p < length (table m)" "table m ! p = (Filled k, v)" by (auto simp: in_set_conv_nth)
    then show ?thesis using map_ok_key(1) [OF ok, of p k] dict_at [OF ok, of p k] nn [of "canon k"] d(3) by auto
  qed
  then show "source_ok key_ok m" using d by (auto simp: source_ok_def)
  have "length (elems T) = filled_count (map fst T)" for T :: "mp_obj elem list"
    by (induction T rule: elems.induct) (auto simp: filled_count_def)
  then show "used m = length (elems (table m))" using d(5) by simp
qed

section \<open>Dictionaries of both types\<close>

definition dict_inv :: "mp_obj_dict \<Rightarrow> bool" where
  "dict_inv d \<longleftrightarrow> (if dtype d = Type_dict then hash_inv (dmap d) else ordered_inv (dmap d))"

lemma key_ok_obj_ok: "key_ok k \<Longrightarrow> obj_ok k"
  by (simp add: key_ok_def)

lemma get_helper_dtype: "dict_get_helper none d k dflt kind = Some (r, d1) \<Longrightarrow> dtype d1 = dtype d"
  by (auto simp: dict_get_helper_def Let_def bind_eq_Some_conv split: if_splits option.splits)

lemma dict_exec_dtype: "dict_exec none op d = Some (r, d1) \<Longrightarrow> dtype d1 = dtype d"
  by (cases op)
    (auto simp: dict_subscr_def mp_obj_dict_get_def mp_obj_dict_store_def mp_obj_dict_delete_def dict_get_def dict_pop_def
      dict_setdefault_def bind_eq_Some_conv dest: get_helper_dtype split: if_splits option.splits)

lemma dict_run_dtype: "dict_run none ops d = Some (rs, d1) \<Longrightarrow> dtype d1 = dtype d"
  by (induction ops arbitrary: d rs) (fastforce simp: bind_eq_Some_conv dest: dict_exec_dtype)+

text \<open>
  C3: A dictionary of either type behaves as a finite map from what its keys stand for (so that
  \<open>1\<close> and \<open>True\<close>, or two copies of a string, are one key): any sequence of loads, stores,
  deletions, \<open>get\<close>, \<open>pop\<close> and \<open>setdefault\<close> returns, gives the results and exceptions the map
  gives, and leaves a well-formed dictionary with the map's contents, whatever collisions,
  reuse of deleted slots and growth happen on the way.
\<close>

theorem dict_refines_map:
  assumes "dict_inv d" "\<forall>op \<in> set ops. key_ok (op_key op)"
  shows "\<exists>rs d1. dict_run none ops d = Some (rs, d1) \<and> dict_inv d1 \<and>
    spec_run none ops (contents (dmap d)) = (rs, contents (dmap d1))"
proof (cases "dtype d")
  case Type_dict
  with assms hash_dict.run_spec [of d ops none] dict_run_dtype show ?thesis by (fastforce simp: dict_inv_def)
next
  case Type_ordereddict
  with assms ordered_dict.run_spec [of d ops none] dict_run_dtype key_ok_obj_ok show ?thesis
    by (fastforce simp: dict_inv_def)
qed

lemma new_dict_inv:
  "dict_make_new type None [] = Some (Inr (), d) \<Longrightarrow> dict_inv d \<and> contents (dmap d) = Map.empty \<and> dtype d = type"
proof -
  have "hash_inv (mp_map_init 0)" "contents (mp_map_init 0) = Map.empty"
    by (auto simp: hash_inv_def map_ok_def mp_map_init_def dict_def contents_def hk.table_ok_def filled_count_def)
  moreover have "ordered_rep [] [] ((mp_map_init 0)\<lparr>is_ordered := True\<rparr>)"
    by (simp add: ordered_rep_def mp_map_init_def)
  then have "ordered_inv ((mp_map_init 0)\<lparr>is_ordered := True\<rparr>)" by (force simp: ordered_inv_def clean_def)
  moreover have "contents ((mp_map_init 0)\<lparr>is_ordered := True\<rparr>) = Map.empty"
    by (auto simp: contents_def dict_def mp_map_init_def)
  moreover assume "dict_make_new type None [] = Some (Inr (), d)"
  ultimately show ?thesis
    by (cases type) (auto simp: dict_make_new_def mp_obj_new_dict_def mp_obj_dict_init_def dict_inv_def)
qed

lemma new_dict_exists: "\<exists>d. dict_make_new type None [] = Some (Inr (), d)"
  by (simp add: dict_make_new_def Let_def)

theorem dict_refines_map_witness:
  "\<exists>d rs d1. dict_make_new Type_dict None [] = Some (Inr (), d) \<and>
     dict_run (None_obj 0) [Op_store (Small_int 1) (Bool_obj False), Op_pop (Bool_obj True) None, Op_load (Small_int 1)] d =
       Some (rs, d1) \<and> rs = [Inr (None_obj 0), Inr (Bool_obj False), Inl (KeyError (Small_int 1))]"
proof -
  obtain d where d: "dict_make_new Type_dict None [] = Some (Inr (), d)" using new_dict_exists by blast
  let ?ops = "[Op_store (Small_int 1) (Bool_obj False), Op_pop (Bool_obj True) None, Op_load (Small_int 1)]"
  have "\<forall>op \<in> set ?ops. key_ok (op_key op)" by (simp add: key_ok_def)
  from dict_refines_map [OF _ this, of d "None_obj 0"] new_dict_inv [OF d] d show ?thesis by auto
qed

text \<open>
  \<open>update\<close> with another dictionary and keyword arguments: the values of the other dictionary
  replace those of the dictionary, the keyword arguments those of both, and nothing else changes.
\<close>

theorem dict_update_overrides:
  assumes "dict_inv self" "source_ok key_ok (dmap other)" "source_ok key_ok kwargs"
  shows "\<exists>d. dict_update self (Some (Other_dict other)) kwargs = Some (Inr (), d) \<and> dict_inv d \<and>
    contents (dmap d) = contents (dmap self) ++ contents (dmap other) ++ contents kwargs"
proof -
  have dt: "dtype d = dtype self" if "dict_update self (Some (Other_dict other)) kwargs = Some (Inr (), d)" for d
    using that by (auto simp: dict_update_def bind_eq_Some_conv split: if_splits)
  show ?thesis
  proof (cases "dtype self = Type_dict")
    case True
    then show ?thesis using hash_dict.update_other_spec [OF _ assms(2,3)] assms(1) dt unfolding dict_inv_def by metis
  next
    case False
    have "source_ok obj_ok (dmap other)" "source_ok obj_ok kwargs"
      using assms(2,3) key_ok_obj_ok by (auto simp: source_ok_def)
    with False show ?thesis using ordered_dict.update_other_spec assms(1) dt unfolding dict_inv_def by metis
  qed
qed

text \<open>
  C32: Two dictionaries of the type \<open>dict\<close>, whose values are objects with a right cached hash, compare
  equal exactly when they have the same keys with equal values, whatever the order of insertion
  and the size of their tables. An \<open>OrderedDict\<close> compares otherwise: its order counts, and its
  comparison with a \<open>dict\<close> is not symmetric.
\<close>

theorem dict_equal_iff:
  assumes "dtype d1 = Type_dict" "dtype d2 = Type_dict" "dict_inv d1" "dict_inv d2"
    "values_ok (dmap d1)" "values_ok (dmap d2)"
  shows "dict_equal d1 d2 = Some (denotes (dmap d1) = denotes (dmap d2))"
proof -
  have inv: "hash_inv (dmap d1)" "hash_inv (dmap d2)" using assms by (auto simp: dict_inv_def)
  note s1 = hash_source [OF inv(1)] and s2 = hash_source [OF inv(2)]
  show ?thesis
  proof (cases "used (dmap d1) = used (dmap d2)")
    case True
    have "dict_equal d1 d2 = dict_equal_loop (dmap d1) 0 (dmap d2)" using assms(1,2) True by (simp add: dict_equal_def)
    also have "\<dots> = Some (\<forall>x \<in> set (elems (table (dmap d1))). agrees (dmap d2) x)"
      using hash_dict.equal_loop_spec [OF inv(2) assms(6) s1(1) assms(5), of 0] by simp
    also have "\<dots> = Some (denotes (dmap d1) = denotes (dmap d2))"
      using agrees_iff [OF s1(1) s2(1)] True s1(2) s2(2) by simp
    finally show ?thesis .
  next
    case False
    have "dom (denotes m) = dom (contents m)" for m by (auto simp: denotes_def)
    then have "denotes (dmap d1) \<noteq> denotes (dmap d2)"
      using source_dom(3) [OF s1(1)] source_dom(3) [OF s2(1)] False s1(2) s2(2) by metis
    with False assms(1,2) show ?thesis by (simp add: dict_equal_def)
  qed
qed

end
