(* ===== verification/Py_Dict_Items.thy ===== *)
theory Py_Dict_Items
  imports Py_Dict_Props
begin

text \<open>
  Elements of dictionaries taken and kept in order: \<open>popitem\<close>, the insertion order of an
  \<open>OrderedDict\<close>, and three places where the code of \<open>py/objdict.c\<close> and \<open>py/map.c\<close> departs from
  what it means to do.
\<close>

section \<open>Taking an arbitrary item\<close>

text \<open>
  C34: \<open>popitem\<close> of a \<open>dict\<close>: an empty dictionary gives \<open>KeyError\<close>; otherwise an element of the
  dictionary is returned and exactly that element is gone.
\<close>

theorem dict_popitem_hash:
  assumes "dtype d = Type_dict" "dict_inv d"
  shows "(contents (dmap d) = Map.empty \<and> dict_popitem d = (Inl KeyError_empty, d)) \<or>
    (\<exists>k v d1. dict_popitem d = (Inr (k, Some v), d1) \<and> contents (dmap d) (canon k) = Some v \<and> dict_inv d1 \<and>
       contents (dmap d1) = (contents (dmap d))(canon k := None))"
proof -
  let ?m = "dmap d"
  have inv: "hash_inv ?m" using assms by (simp add: dict_inv_def)
  then have ok: "map_ok ?m" and nn: "\<And>c. dict ?m c \<noteq> Some None" by (auto simp: hash_inv_def)
  note d = map_okD [OF ok] and src = hash_source [OF inv]
  note n = dict_iter_next_elems [OF d(3), of 0]
  show ?thesis
  proof (cases "dict_iter_next ?m 0")
    case None
    with n have "elems (table ?m) = []" by simp
    then have "dom (contents ?m) = {}" using source_dom(1) [OF src(1)] by simp
    with None d(1) show ?thesis by (simp add: dict_popitem_def)
  next
    case (Some x)
    then obtain i c where i: "dict_iter_next ?m 0 = Some (i, c)" by (cases x) auto
    with n obtain k where k: "i < alloc ?m" "fst (table ?m ! i) = Filled k" by auto
    let ?m1 = "?m\<lparr>used := used ?m - 1, table := (table ?m)[i := (Deleted, None)]\<rparr>"
    have il: "i < length (table ?m)" using k(1) d(3) by simp
    have at: "dict ?m (canon k) = Some (value_at ?m i)" "key_at ?m i = k"
      using dict_at [OF ok k] k by (simp_all add: value_at_def key_at_def)
    then obtain v where v: "value_at ?m i = Some v" using nn [of "canon k"] by (cases "value_at ?m i") auto
    have dict1: "dict ?m1 = (dict ?m)(canon k := None)"
      using entries_delete [OF il k(2) d(6), of "(Deleted, None)"] by (simp add: dict_def)
    have t: "hk.table_ok (map fst (table ?m1))"
      using hk.table_ok_delete [OF d(4), of i Deleted] il by (simp add: map_update)
    have "filled_count (map fst (table ?m1)) = used ?m - 1"
      using filled_count_update [of i "map fst (table ?m)" Deleted] il k(2) d(5) by (simp add: map_update)
    then have "map_ok ?m1" using d(1-3) t map_ok_key(2) [OF ok] il
      by (auto simp: map_ok_def nth_list_update split: if_splits)
    then have inv1: "hash_inv ?m1" unfolding hash_inv_def dict1 using nn by simp
    have "contents ?m (canon k) = Some v" "contents ?m1 = (contents ?m)(canon k := None)"
      using at(1) v dict1 by (auto simp: contents_def)
    moreover have "dict_popitem d = (Inr (k, Some v), d\<lparr>dmap := ?m1\<rparr>)"
      using d(1) i at(2) v by (simp add: dict_popitem_def Let_def)
    moreover have "dict_inv (d\<lparr>dmap := ?m1\<rparr>)" using inv1 assms(1) by (simp add: dict_inv_def)
    ultimately show ?thesis by auto
  qed
qed

text \<open>A dictionary with the one element \<open>1: True\<close>, as storing it in a new dictionary makes it.\<close>

definition one_true :: mp_obj_dict where
  "one_true = \<lparr>dtype = Type_dict, dmap = \<lparr>all_keys_are_qstrs = False, is_fixed = False, is_ordered = False, used = 1,
     alloc = 2, table = [(Empty, None), (Filled (Small_int 1), Some (Bool_obj True))]\<rparr>\<rparr>"

lemma one_true_inv: "dict_inv one_true" "contents (dmap one_true) = [Key_int 1 \<mapsto> Bool_obj True]"
  "values_ok (dmap one_true)" "dtype one_true = Type_dict" "source_ok key_ok (dmap one_true)"
proof -
  have t: "hk.table_ok [Empty, Filled (Small_int 1)]"
    unfolding hk.table_ok_def
    by (auto simp: less_Suc_eq key_ok_def reached_def key_hash_def nth_Cons split: nat.splits intro!: exI [of _ 0])
  have dict: "dict (dmap one_true) = [Key_int 1 \<mapsto> Some (Bool_obj True)]" by (simp add: one_true_def dict_def)
  have ok: "map_ok (dmap one_true)" using t by (simp add: one_true_def map_ok_def filled_count_def)
  with dict have inv: "hash_inv (dmap one_true)" by (simp add: hash_inv_def)
  then show "dict_inv one_true" by (simp add: dict_inv_def one_true_def)
  show "contents (dmap one_true) = [Key_int 1 \<mapsto> Bool_obj True]" by (auto simp: contents_def dict)
  then show "values_ok (dmap one_true)" by (simp add: values_ok_def)
  show "dtype one_true = Type_dict" by (simp add: one_true_def)
  show "source_ok key_ok (dmap one_true)" by (rule hash_source(1) [OF inv])
qed

theorem dict_popitem_hash_witness:
  "\<exists>k v d1. dict_popitem one_true = (Inr (k, Some v), d1) \<and> contents (dmap d1) = Map.empty"
  using dict_popitem_hash [OF one_true_inv(4,1)] one_true_inv(2)
  by (auto simp: dict_popitem_def one_true_def dict_iter_next_def key_at_def value_at_def contents_def dict_def split: if_splits)

theorem dict_update_overrides_witness:
  "\<exists>d d1. dict_make_new Type_ordereddict None [] = Some (Inr (), d) \<and>
     dict_update d (Some (Other_dict one_true)) (mp_map_init_fixed_table [(Filled (Bool_obj True), Some (Small_int 5))]) =
       Some (Inr (), d1) \<and> contents (dmap d1) = [Key_int 1 \<mapsto> Small_int 5]"
proof -
  obtain d where d: "dict_make_new Type_ordereddict None [] = Some (Inr (), d)" using new_dict_exists by blast
  let ?kw = "mp_map_init_fixed_table [(Filled (Bool_obj True), Some (Small_int 5))]"
  have kw: "source_ok key_ok ?kw" "contents ?kw = [Key_int 1 \<mapsto> Small_int 5]"
    by (auto simp: source_ok_def mp_map_init_fixed_table_def key_ok_def contents_def dict_def)
  from dict_update_overrides [OF _ one_true_inv(5) kw(1), of d] new_dict_inv [OF d] kw(2) one_true_inv(2) d
  show ?thesis by auto
qed

theorem dict_equal_iff_witness: "dict_equal one_true one_true = Some True"
  using dict_equal_iff [OF one_true_inv(4,4,1,1,3,3)] by simp

section \<open>The order of an \<open>OrderedDict\<close>\<close>

lemma ordered_elems: "ordered_rep es vs m \<Longrightarrow> elems (table m) = es"
proof -
  have "elems (map fill es) = es" by (induction es) (auto simp: fill_def)
  moreover have "elems (map (Pair Empty) vs) = []" by (induction vs) auto
  ultimately show "ordered_rep es vs m \<Longrightarrow> elems (table m) = es" by (simp add: ordered_rep_def)
qed

lemma ordered_put_value:
  assumes rep: "ordered_rep es vs m" and cl: "clean es vs" and k: "obj_ok k"
  shows "\<exists>m1 vs1. put_value k (Some v) m = Some m1 \<and> clean [] vs1 \<and> ordered_rep
    (case position (canon k) es of None \<Rightarrow> es @ [(k, Some v)] | Some i \<Rightarrow> es[i := (fst (es ! i), Some v)]) vs1 m1"
proof (cases "position (canon k) es")
  case None
  let ?es = "es @ [(k, None)]" and ?vs = "if vs = [] then [None, None, None] else tl vs"
  have res: "ordered_result es vs k ADD_IF_NOT_FOUND = (Some (length es), ?es, ?vs)"
    using None cl by (auto simp: ordered_result_def clean_def split: list.splits)
  obtain m1 where m1: "map_lookup m k ADD_IF_NOT_FOUND = Some (Some (length es), m1)" "ordered_rep ?es ?vs m1"
    using ordered_map_lookup [OF rep k _ res, of 1] unfolding numeral_2_eq_2 by auto
  have "clean [] ?vs" using cl by (cases vs) (auto simp: clean_def)
  with ordered_set_value(1) [OF m1(2), of "length es" "Some v"] m1(1) None show ?thesis
    by (auto simp: put_value_def)
next
  case (Some i)
  have res: "ordered_result es vs k ADD_IF_NOT_FOUND = (Some i, es, vs)" using Some by (simp add: ordered_result_def)
  obtain m1 where m1: "map_lookup m k ADD_IF_NOT_FOUND = Some (Some i, m1)" "ordered_rep es vs m1"
    using ordered_map_lookup [OF rep k _ res, of 1] unfolding numeral_2_eq_2 by auto
  have "clean [] vs" using cl by (simp add: clean_def)
  with ordered_set_value(1) [OF m1(2), of i "Some v"] position_Some [OF Some] m1(1) Some show ?thesis
    by (auto simp: put_value_def)
qed

lemma ordered_delete:
  assumes rep: "ordered_rep es vs (dmap d)" and cl: "clean es vs" and k: "obj_ok k" "position (canon k) es = Some i"
  shows "\<exists>d1. mp_obj_dict_delete none d k = Some (Inr (), d1) \<and>
    ordered_rep (take i es @ drop (Suc i) es) (None # vs) (dmap d1)"
proof -
  let ?es = "take i es @ drop (Suc i) es"
  note i = position_Some [OF k(2)]
  have res: "ordered_result es vs k REMOVE_IF_FOUND = (Some (length es - 1), ?es, snd (es ! i) # vs)"
    using k(2) by (simp add: ordered_result_def)
  obtain m1 where m1: "map_lookup (dmap d) k REMOVE_IF_FOUND = Some (Some (length es - 1), m1)"
    "ordered_rep ?es (snd (es ! i) # vs) m1"
    using ordered_map_lookup [OF rep k(1) _ res, of 1] unfolding numeral_2_eq_2 by auto
  have len: "length ?es = length es - 1" using i by simp
  note b = ordered_set_value_behind [OF m1(2), unfolded len]
  obtain v where "snd (es ! i) = Some v" using cl i nth_mem [of i es] unfolding clean_def by blast
  with m1(1) b rep show ?thesis
    by (auto simp: mp_obj_dict_delete_def dict_get_helper_def value_at_def ordered_rep_def)
qed

text \<open>
  C29: An \<open>OrderedDict\<close> keeps the order of insertion: storing under a new key appends the element,
  storing under a key that is there changes its value in place, and deleting a key leaves the
  order of the others. Iteration visits the elements in this order (\<open>elems\<close> is the list of what
  the iterator of the dictionary yields).
\<close>

theorem ordered_dict_order:
  assumes "ordered_rep es vs (dmap d)" "clean es vs" "obj_ok k"
  shows "(\<exists>d1. mp_obj_dict_store d k v = Some (Inr (), d1) \<and> elems (table (dmap d1)) =
      (case position (canon k) es of None \<Rightarrow> es @ [(k, Some v)] | Some i \<Rightarrow> es[i := (fst (es ! i), Some v)])) \<and>
    (\<forall>i. position (canon k) es = Some i \<longrightarrow>
       (\<exists>d1. mp_obj_dict_delete none d k = Some (Inr (), d1) \<and>
          elems (table (dmap d1)) = take i es @ drop (Suc i) es))"
proof -
  have "\<not> is_fixed (dmap d)" using assms(1) by (simp add: ordered_rep_def)
  then show ?thesis
    using ordered_put_value [OF assms, of v] ordered_delete [OF assms] ordered_elems
    by (fastforce simp: mp_obj_dict_store_def)
qed

theorem ordered_dict_order_witness:
  "\<exists>d d1. dict_make_new Type_ordereddict None [] = Some (Inr (), d) \<and>
     mp_obj_dict_store d (Qstr [97]) (Small_int 1) = Some (Inr (), d1) \<and>
     elems (table (dmap d1)) = [(Qstr [97], Some (Small_int 1))]"
proof -
  obtain d where d: "dict_make_new Type_ordereddict None [] = Some (Inr (), d)" using new_dict_exists by blast
  then have "ordered_rep [] [] (dmap d)"
    by (auto simp: dict_make_new_def mp_obj_new_dict_def mp_obj_dict_init_def ordered_rep_def mp_map_init_def)
  from ordered_dict_order [OF this, of "Qstr [97]" "Small_int 1"] d show ?thesis by (auto simp: clean_def)
qed

section \<open>Where the code departs from its intent\<close>

text \<open>
  \<open>popitem\<close> of an \<open>OrderedDict\<close> marks the first slot as deleted and decrements \<open>used\<close>, which for
  an ordered array is the end of the search: the last element is no longer found.
\<close>

theorem ordered_popitem_loses_last:
  "\<exists>d d1 d2 d3. dict_make_new Type_ordereddict None [] = Some (Inr (), d) \<and>
     mp_obj_dict_store d (Qstr [97]) (Small_int 1) = Some (Inr (), d1) \<and>
     mp_obj_dict_store d1 (Qstr [98]) (Small_int 2) = Some (Inr (), d2) \<and>
     dict_popitem d2 = (Inr (Qstr [97], Some (Small_int 1)), d3) \<and>
     mp_obj_dict_get d2 (Qstr [98]) = Some (Inr (Small_int 2), d2) \<and>
     mp_obj_dict_get d3 (Qstr [98]) = Some (Inl (KeyError (Qstr [98])), d3)"
  by (simp add: dict_make_new_def mp_obj_new_dict_def mp_obj_dict_init_def mp_map_init_def mp_obj_dict_store_def
      put_value_def numeral_2_eq_2 lookup_body_def ordered_lookup_def Let_def set_value_def dict_popitem_def
      dict_iter_next_def key_at_def value_at_def mp_obj_dict_get_def key_matches_def numeral_eq_Suc)

text \<open>
  Equality is not symmetric: an empty \<open>OrderedDict\<close> equals an empty \<open>dict\<close>, which does not equal it.
\<close>

theorem dict_equal_asymmetric:
  "\<exists>d od. dict_make_new Type_dict None [] = Some (Inr (), d) \<and>
     dict_make_new Type_ordereddict None [] = Some (Inr (), od) \<and>
     dict_equal od d = Some True \<and> dict_equal d od = Some False"
  by (simp add: dict_make_new_def mp_obj_new_dict_def mp_obj_dict_init_def mp_map_init_def Let_def dict_equal_def
      dict_equal_loop.simps dict_iter_next_def)

text \<open>
  Adding a key to an ordered array after a removal leaves the removed value in the new element,
  where the description of the lookup promises \<open>MP_OBJ_NULL\<close>.
\<close>

theorem ordered_add_stale_value:
  "\<exists>m m1 m2. ordered_rep [(Qstr [97], Some (Small_int 1))] [] m \<and>
     map_lookup m (Qstr [97]) REMOVE_IF_FOUND = Some (Some 0, m1) \<and>
     map_lookup m1 (Qstr [98]) ADD_IF_NOT_FOUND = Some (Some 0, m2) \<and> value_at m2 0 = Some (Small_int 1)"
proof -
  let ?m = "\<lparr>all_keys_are_qstrs = True, is_fixed = False, is_ordered = True, used = 1, alloc = 1,
    table = [(Filled (Qstr [97]), Some (Small_int 1))]\<rparr>"
  have "ordered_rep [(Qstr [97], Some (Small_int 1))] [] ?m" by (simp add: ordered_rep_def fill_def)
  moreover have "\<exists>m1 m2. map_lookup ?m (Qstr [97]) REMOVE_IF_FOUND = Some (Some 0, m1) \<and>
     map_lookup m1 (Qstr [98]) ADD_IF_NOT_FOUND = Some (Some 0, m2) \<and> value_at m2 0 = Some (Small_int 1)"
    by (simp add: numeral_2_eq_2 lookup_body_def ordered_lookup_def Let_def key_matches_def value_at_def)
  ultimately show ?thesis by blast
qed

end
