(* ===== verification/Py_Set.thy ===== *)
theory Py_Set
  imports Py_Map
begin

text \<open>
  The sets of \<open>py/map.c\<close>: hash tables of objects with open addressing. A slot is \<open>Empty\<close>
  (\<open>MP_OBJ_NULL\<close>), \<open>Deleted\<close> (\<open>MP_OBJ_SENTINEL\<close>) or an object. The result \<open>None\<close> of a lookup is an
  exception for an object that is not hashable, or no return; as for maps, the fuel is the depth
  of the nesting of lookups in a growing table, and two levels are enough.
\<close>

section \<open>Model\<close>

record mp_set =
  s_alloc :: nat
  s_used :: nat
  s_table :: "mp_obj slot list"

fun adds :: "lookup_kind \<Rightarrow> bool" where
  "adds ADD_IF_NOT_FOUND = True"
| "adds ADD_IF_NOT_FOUND_OR_REMOVE_IF_FOUND = True"
| "adds _ = False"

fun removes :: "lookup_kind \<Rightarrow> bool" where
  "removes REMOVE_IF_FOUND = True"
| "removes ADD_IF_NOT_FOUND_OR_REMOVE_IF_FOUND = True"
| "removes _ = False"

definition mp_set_init :: "nat \<Rightarrow> mp_set" where
  "mp_set_init n = \<lparr>s_alloc = n, s_used = 0, s_table = replicate n Empty\<rparr>"

type_synonym set_lookup_fn = "mp_set \<Rightarrow> mp_obj \<Rightarrow> lookup_kind \<Rightarrow> (mp_obj option \<times> mp_set) option"

fun set_rehash_loop :: "set_lookup_fn \<Rightarrow> mp_obj slot list \<Rightarrow> mp_set \<Rightarrow> mp_set option" where
  "set_rehash_loop lk [] s = Some s"
| "set_rehash_loop lk (Filled k # old) s =
     Option.bind (lk s k ADD_IF_NOT_FOUND) (\<lambda>(_, s1). set_rehash_loop lk old s1)"
| "set_rehash_loop lk (_ # old) s = set_rehash_loop lk old s"

definition mp_set_rehash :: "set_lookup_fn \<Rightarrow> mp_set \<Rightarrow> mp_set option" where
  "mp_set_rehash lk s =
     (let new_alloc = get_hash_alloc_greater_or_equal_to (s_alloc s + 1)
      in set_rehash_loop lk (s_table s) \<lparr>s_alloc = new_alloc, s_used = 0, s_table = replicate new_alloc Empty\<rparr>)"

definition set_insert_at :: "mp_obj \<Rightarrow> nat \<Rightarrow> mp_set \<Rightarrow> mp_obj option \<times> mp_set" where
  "set_insert_at index p s =
     (Some index, s\<lparr>s_used := s_used s + 1, s_table := (s_table s)[p := Filled index]\<rparr>)"

definition set_delete_at :: "nat \<Rightarrow> mp_set \<Rightarrow> mp_set" where
  "set_delete_at p s =
     s\<lparr>s_used := s_used s - 1,
       s_table := (s_table s)[p := if s_table s ! ((p + 1) mod s_alloc s) = Empty then Empty else Deleted]\<rparr>"

partial_function (option) set_lookup_loop ::
    "(mp_set \<Rightarrow> mp_set option) \<Rightarrow> mp_obj \<Rightarrow> lookup_kind \<Rightarrow> nat \<Rightarrow> mp_set \<Rightarrow> nat \<Rightarrow> nat \<Rightarrow> nat option
      \<Rightarrow> (mp_obj option \<times> mp_set) option" where
  "set_lookup_loop rehash index kind hash s pos start_pos avail =
     (let elem = s_table s ! pos
      in if elem = Empty then
           Some (if adds kind then set_insert_at index (the (first_free avail pos)) s else (None, s))
         else if slot_matches (\<lambda>k. mp_obj_equal k index) elem then
           Some (slot_obj elem, if removes kind then set_delete_at pos s else s)
         else
           let avail1 = (if elem = Deleted then first_free avail pos else avail);
               pos1 = (pos + 1) mod s_alloc s
           in if pos1 = start_pos then
                if adds kind then
                  if avail1 \<noteq> None then Some (set_insert_at index (the avail1) s)
                  else Option.bind (rehash s) (\<lambda>s1.
                         let p = hash mod s_alloc s1 in set_lookup_loop rehash index kind hash s1 p p avail1)
                else Some (None, s)
              else set_lookup_loop rehash index kind hash s pos1 start_pos avail1)"

definition set_lookup_body :: "(mp_set \<Rightarrow> mp_set option) \<Rightarrow> set_lookup_fn" where
  "set_lookup_body rehash s index kind =
     (if s_alloc s = 0 \<and> \<not> adds kind then Some (None, s)
      else Option.bind (if s_alloc s = 0 then rehash s else Some s) (\<lambda>s1.
        Option.bind (obj_hash index) (\<lambda>hash.
          let pos = unat hash mod s_alloc s1
          in set_lookup_loop rehash index kind (unat hash) s1 pos pos None)))"

primrec mp_set_lookup :: "nat \<Rightarrow> set_lookup_fn" where
  "mp_set_lookup 0 = (\<lambda>s index kind. None)"
| "mp_set_lookup (Suc n) = set_lookup_body (mp_set_rehash (mp_set_lookup n))"

definition mp_set_remove_first :: "mp_set \<Rightarrow> mp_obj option \<times> mp_set" where
  "mp_set_remove_first s =
     (case first_filled (take (s_alloc s) (s_table s)) 0 of
        None \<Rightarrow> (None, s)
      | Some pos \<Rightarrow> (slot_obj (s_table s ! pos), set_delete_at pos s))"

definition mp_set_clear :: "mp_set \<Rightarrow> mp_set" where
  "mp_set_clear s = \<lparr>s_alloc = 0, s_used = 0, s_table = []\<rparr>"

section \<open>The search loop is a probe\<close>

definition after_set_probe ::
    "(mp_set \<Rightarrow> mp_set option) \<Rightarrow> mp_obj \<Rightarrow> lookup_kind \<Rightarrow> nat \<Rightarrow> mp_set \<Rightarrow> probe_result
      \<Rightarrow> (mp_obj option \<times> mp_set) option" where
  "after_set_probe rehash index kind h s r =
     (case r of
        Found p \<Rightarrow> Some (slot_obj (s_table s ! p), if removes kind then set_delete_at p s else s)
      | Missing a \<Rightarrow>
          if adds kind then
            (case a of
               Some q \<Rightarrow> Some (set_insert_at index q s)
             | None \<Rightarrow> Option.bind (rehash s) (\<lambda>s1.
                 let p = h mod s_alloc s1 in set_lookup_loop rehash index kind h s1 p p None))
          else Some (None, s))"

lemma set_lookup_loop_probe:
  assumes n: "length (s_table s) = s_alloc s" "0 < s_alloc s"
  shows "i < s_alloc s \<Longrightarrow>
    set_lookup_loop rehash index kind h s ((h + i) mod s_alloc s) (h mod s_alloc s) avail =
    after_set_probe rehash index kind h s
      (probe (\<lambda>k. mp_obj_equal k index) (s_table s) h i (s_alloc s - i) avail)"
proof (induction "s_alloc s - i" arbitrary: i avail)
  case (Suc r)
  let ?T = "s_table s" and ?p = "(h + i) mod s_alloc s"
  have r: "s_alloc s - i = Suc r" "s_alloc s - Suc i = r" using Suc.hyps(2) by auto
  have next1: "Suc ?p mod s_alloc s = h mod s_alloc s \<longleftrightarrow> Suc i = s_alloc s" "Suc ?p mod s_alloc s = (h + Suc i) mod s_alloc s"
    by (rule probe_step [OF Suc.prems n(2)])+
  have step: "probe (\<lambda>k. mp_obj_equal k index) ?T h (Suc i) r av = Missing av" if "Suc i = s_alloc s" for av
    using that r by simp
  have ih: "set_lookup_loop rehash index kind h s ((h + Suc i) mod s_alloc s) (h mod s_alloc s) av =
      after_set_probe rehash index kind h s (probe (\<lambda>k. mp_obj_equal k index) ?T h (Suc i) r av)"
    if "Suc i \<noteq> s_alloc s" for av
    using Suc.hyps(1) [of "Suc i" av] Suc.prems that r by simp
  show ?case
  proof (cases "?T ! ?p")
    case Empty
    then show ?thesis
      by (subst set_lookup_loop.simps, cases avail) (auto simp: r n(1) after_set_probe_def first_free_def Let_def)
  next
    case Deleted
    let ?av = "first_free avail ?p"
    obtain q where q: "?av = Some q" by (cases avail) (auto simp: first_free_def)
    show ?thesis
    proof (cases "Suc i = s_alloc s")
      case True
      then show ?thesis using next1(1) step [of ?av]
        by (subst set_lookup_loop.simps) (simp add: Deleted r n(1) Let_def q after_set_probe_def)
    next
      case False
      then show ?thesis using next1 ih [of ?av]
        by (subst set_lookup_loop.simps) (simp add: Deleted r n(1) Let_def)
    qed
  next
    case (Filled k)
    show ?thesis
    proof (cases "mp_obj_equal k index")
      case True
      then show ?thesis by (subst set_lookup_loop.simps) (simp add: Filled r n(1) Let_def after_set_probe_def)
    next
      case nomatch: False
      show ?thesis
      proof (cases "Suc i = s_alloc s")
        case True
        then show ?thesis using next1(1) step [of avail] nomatch
          by (subst set_lookup_loop.simps, cases avail) (simp_all add: Filled r n(1) Let_def after_set_probe_def)
      next
        case False
        then show ?thesis using next1 ih [of avail] nomatch
          by (subst set_lookup_loop.simps) (simp add: Filled r n(1) Let_def)
      qed
    qed
  qed
qed simp

section \<open>The invariant and what a set stands for\<close>

definition set_ok :: "mp_set \<Rightarrow> bool" where
  "set_ok s \<longleftrightarrow> length (s_table s) = s_alloc s \<and> hk.table_ok (s_table s) \<and> s_used s = filled_count (s_table s)"

definition members :: "mp_set \<Rightarrow> key set" where
  "members s = {canon k | k. Filled k \<in> set (s_table s)}"

lemma set_okD:
  assumes "set_ok s"
  shows "length (s_table s) = s_alloc s" "hk.table_ok (s_table s)" "s_used s = filled_count (s_table s)"
  using assms by (auto simp: set_ok_def)

lemma member_iff:
  "c \<in> members s \<longleftrightarrow> (\<exists>p k. p < length (s_table s) \<and> s_table s ! p = Filled k \<and> canon k = c)"
  unfolding members_def by (auto simp: in_set_conv_nth)

lemma set_insert_at_ok:
  assumes ok: "set_ok s" and k: "key_ok k" and q: "reached (s_table s) (key_hash k) q" "\<forall>l. s_table s ! q \<noteq> Filled l"
    and new: "canon k \<notin> members s"
  shows "\<exists>s'. set_insert_at k q s = (Some k, s') \<and> set_ok s' \<and> members s' = insert (canon k) (members s) \<and>
    s_used s' = Suc (s_used s) \<and> s_alloc s' = s_alloc s"
proof -
  note d = set_okD [OF ok]
  have ql: "q < length (s_table s)" by (rule hk.reached_less [OF q(1)])
  let ?T = "(s_table s)[q := Filled k]"
  have "\<forall>p l. p < length (s_table s) \<longrightarrow> s_table s ! p = Filled l \<longrightarrow> canon l \<noteq> canon k"
    using new by (auto simp: member_iff)
  from hk.table_ok_insert [OF d(2) k q this] have t: "hk.table_ok ?T" .
  have "slot_obj (s_table s ! q) = None" using q(2) by (cases "s_table s ! q") auto
  then have "Suc (s_used s) = filled_count ?T"
    using filled_count_update [OF ql, of "Filled k"] d(3) by simp
  with t d(1) have "set_ok (snd (set_insert_at k q s))" by (simp add: set_ok_def set_insert_at_def)
  moreover have "members (snd (set_insert_at k q s)) = insert (canon k) (members s)"
  proof (rule set_eqI)
    fix c
    show "c \<in> members (snd (set_insert_at k q s)) \<longleftrightarrow> c \<in> insert (canon k) (members s)"
      using ql q(2) by (auto simp: set_insert_at_def member_iff nth_list_update)
  qed
  ultimately show ?thesis by (simp add: set_insert_at_def)
qed

lemma set_delete_at_ok:
  assumes ok: "set_ok s" and p: "p < s_alloc s" "s_table s ! p = Filled k"
  shows "set_ok (set_delete_at p s)" "members (set_delete_at p s) = members s - {canon k}"
proof -
  note d = set_okD [OF ok]
  have pl: "p < length (s_table s)" using p d by simp
  let ?x = "if s_table s ! ((p + 1) mod s_alloc s) = Empty then Empty else Deleted"
  let ?T = "(s_table s)[p := ?x]"
  have t: "hk.table_ok ?T" using hk.table_ok_vacate [OF d(2) pl] d(1) by (simp add: vacate_def)
  have "filled_count ?T = s_used s - 1" using filled_count_update [OF pl, of ?x] d(3) p(2) by (simp split: if_splits)
  with t d(1) show "set_ok (set_delete_at p s)" by (simp add: set_ok_def set_delete_at_def)
  have nth: "?T ! q = Filled l \<longleftrightarrow> q \<noteq> p \<and> s_table s ! q = Filled l" for q l
    using pl by (cases "q = p") auto
  have tab: "s_table (set_delete_at p s) = ?T" by (simp add: set_delete_at_def)
  have uniq: "q \<noteq> p \<longleftrightarrow> canon l \<noteq> canon k" if "q < length (s_table s)" "s_table s ! q = Filled l" for q l
    using hk.table_ok_unique [OF d(2) that(1) pl that(2) p(2)] p(2) that(2) by auto
  show "members (set_delete_at p s) = members s - {canon k}"
    unfolding set_eq_iff Diff_iff member_iff tab nth length_list_update using uniq by blast
qed

lemma probe_set_cases:
  assumes ok: "set_ok s" "0 < s_alloc s" and k: "key_ok k"
  obtains (found) p l where "probe (\<lambda>l. mp_obj_equal l k) (s_table s) (key_hash k) 0 (s_alloc s) None = Found p"
      "p < s_alloc s" "s_table s ! p = Filled l" "canon l = canon k" "canon k \<in> members s"
  | (missing) q where "probe (\<lambda>l. mp_obj_equal l k) (s_table s) (key_hash k) 0 (s_alloc s) None = Missing (Some q)"
      "reached (s_table s) (key_hash k) q" "\<forall>l. s_table s ! q \<noteq> Filled l" "canon k \<notin> members s" "s_used s < s_alloc s"
  | (full) "probe (\<lambda>l. mp_obj_equal l k) (s_table s) (key_hash k) 0 (s_alloc s) None = Missing None"
      "canon k \<notin> members s" "s_used s = s_alloc s"
proof -
  note d = set_okD [OF ok(1)]
  let ?T = "s_table s"
  have eq: "mp_obj_equal l k \<longleftrightarrow> canon l = canon k" if "p < length ?T" "?T ! p = Filled l" for p l
    using mp_obj_equal_canon [of l k] hk.table_okD(1) [OF d(2) that] k by (simp add: key_ok_def)
  have none: "canon k \<notin> members s" if "\<forall>p l. p < length ?T \<longrightarrow> ?T ! p = Filled l \<longrightarrow> canon l \<noteq> canon k"
    using that by (auto simp: member_iff)
  show ?thesis
  proof (rule hk.probe_cases [OF d(2) _ k eq])
    show "0 < length ?T" using ok(2) d(1) by simp
  next
    fix p l assume "probe (\<lambda>l. mp_obj_equal l k) ?T (key_hash k) 0 (length ?T) None = Found p" "p < length ?T"
      "?T ! p = Filled l" "canon l = canon k"
    then show ?thesis using found [of p l] d(1) by (auto simp: member_iff)
  next
    fix q assume q: "probe (\<lambda>l. mp_obj_equal l k) ?T (key_hash k) 0 (length ?T) None = Missing (Some q)"
      "reached ?T (key_hash k) q" "\<forall>l. ?T ! q \<noteq> Filled l"
      "\<forall>p l. p < length ?T \<longrightarrow> ?T ! p = Filled l \<longrightarrow> canon l \<noteq> canon k"
    have "slot_obj (?T ! q) = None" using q(3) by (cases "?T ! q") auto
    then have "s_used s < s_alloc s" using filled_count_less [OF hk.reached_less [OF q(2)]] d(1,3) by simp
    with q none d(1) show ?thesis by (intro missing) simp_all
  next
    assume "probe (\<lambda>l. mp_obj_equal l k) ?T (key_hash k) 0 (length ?T) None = Missing None"
      "\<forall>p < length ?T. \<exists>l. ?T ! p = Filled l" "\<forall>p l. p < length ?T \<longrightarrow> ?T ! p = Filled l \<longrightarrow> canon l \<noteq> canon k"
    with none filled_count_full [of ?T] d(1,3) show ?thesis by (intro full) simp_all
  qed
qed

section \<open>Lookups\<close>

text \<open>What a lookup of each kind does.\<close>

definition set_lookup_result :: "mp_set \<Rightarrow> mp_obj \<Rightarrow> lookup_kind \<Rightarrow> mp_obj option \<Rightarrow> mp_set \<Rightarrow> bool" where
  "set_lookup_result s k kind r s' \<longleftrightarrow> set_ok s' \<and>
     (if canon k \<in> members s
      then (\<exists>l. r = Some l \<and> canon l = canon k) \<and>
        (if removes kind then members s' = members s - {canon k} else s' = s)
      else if adds kind then r = Some k \<and> members s' = insert (canon k) (members s)
      else r = None \<and> s' = s)"

lemma set_loop_room:
  assumes ok: "set_ok s" and room: "0 < s_alloc s" "adds kind \<longrightarrow> s_used s < s_alloc s" and k: "key_ok k"
  shows "\<exists>r s'. set_lookup_loop rehash k kind (key_hash k) s (key_hash k mod s_alloc s) (key_hash k mod s_alloc s) None =
      Some (r, s') \<and> set_lookup_result s k kind r s' \<and>
      (kind = ADD_IF_NOT_FOUND \<longrightarrow> s_alloc s' = s_alloc s \<and> s_used s' \<le> Suc (s_used s))"
proof -
  note d = set_okD [OF ok]
  have start: "set_lookup_loop rehash k kind (key_hash k) s (key_hash k mod s_alloc s) (key_hash k mod s_alloc s) None =
      after_set_probe rehash k kind (key_hash k) s (probe (\<lambda>l. mp_obj_equal l k) (s_table s) (key_hash k) 0 (s_alloc s) None)"
    using set_lookup_loop_probe [OF d(1) room(1), of 0 rehash k kind "key_hash k" None] room(1) by simp
  from ok room(1) k show ?thesis
  proof (cases rule: probe_set_cases)
    case (found p l)
    then show ?thesis using start set_delete_at_ok [OF ok found(2,3)] ok
      by (auto simp: after_set_probe_def set_lookup_result_def)
  next
    case (missing q)
    then show ?thesis using start set_insert_at_ok [OF ok k missing(2,3,4)] ok
      by (auto simp: after_set_probe_def set_lookup_result_def)
  next
    case full
    then show ?thesis using start room(2) ok by (auto simp: after_set_probe_def set_lookup_result_def)
  qed
qed

lemma set_lookup_body_loop:
  assumes "key_ok k" "\<not> (s_alloc s = 0 \<and> \<not> adds kind)"
  shows "set_lookup_body rehash s k kind =
    Option.bind (if s_alloc s = 0 then rehash s else Some s) (\<lambda>s1.
      set_lookup_loop rehash k kind (key_hash k) s1 (key_hash k mod s_alloc s1) (key_hash k mod s_alloc s1) None)"
  using assms key_ok_hash [OF assms(1)] by (auto simp: set_lookup_body_def Let_def)

lemma set_rehash_loop_ok:
  assumes "set_ok s" "s_used s + filled_count old < s_alloc s" "\<forall>k. Filled k \<in> set old \<longrightarrow> key_ok k"
  shows "\<exists>s'. set_rehash_loop (set_lookup_body rehash) old s = Some s' \<and> set_ok s' \<and> s_alloc s' = s_alloc s \<and>
    s_used s' \<le> s_used s + filled_count old \<and> members s' = members s \<union> {canon k | k. Filled k \<in> set old}"
  using assms
proof (induction old arbitrary: s)
  case Nil
  then show ?case by simp
next
  case (Cons x old)
  show ?case
  proof (cases x)
    case (Filled k)
    have k: "key_ok k" using Cons.prems(3) Filled by simp
    have room: "0 < s_alloc s" "s_used s < s_alloc s" using Cons.prems(2) by simp_all
    obtain r s1 where s1: "set_lookup_body rehash s k ADD_IF_NOT_FOUND = Some (r, s1)"
      "set_lookup_result s k ADD_IF_NOT_FOUND r s1" "s_alloc s1 = s_alloc s" "s_used s1 \<le> Suc (s_used s)"
      using set_loop_room [OF Cons.prems(1) room(1) _ k, of ADD_IF_NOT_FOUND rehash] room
        set_lookup_body_loop [OF k, of s ADD_IF_NOT_FOUND rehash] by auto
    have mem: "set_ok s1" "members s1 = insert (canon k) (members s)"
      using s1(2) by (auto simp: set_lookup_result_def split: if_splits)
    have count: "filled_count (x # old) = Suc (filled_count old)" using Filled by (simp add: filled_count_def)
    have "s_used s1 + filled_count old < s_alloc s1" using Cons.prems(2) s1(3,4) count by simp
    from Cons.IH [OF mem(1) this] Cons.prems(3) obtain s2 where
      "set_rehash_loop (set_lookup_body rehash) old s1 = Some s2" "set_ok s2" "s_alloc s2 = s_alloc s1"
      "s_used s2 \<le> s_used s1 + filled_count old" "members s2 = members s1 \<union> {canon k | k. Filled k \<in> set old}"
      by auto
    with s1 mem count Filled show ?thesis by (auto simp: set_eq_iff)
  qed (use Cons in \<open>auto simp: filled_count_def\<close>)
qed

lemma mp_set_rehash_ok:
  assumes ok: "set_ok s"
  shows "\<exists>s'. mp_set_rehash (mp_set_lookup (Suc n)) s = Some s' \<and> set_ok s' \<and> members s' = members s \<and>
    s_alloc s < s_alloc s' \<and> s_used s' < s_alloc s'"
proof -
  note d = set_okD [OF ok]
  let ?n = "get_hash_alloc_greater_or_equal_to (s_alloc s + 1)"
  let ?s0 = "\<lparr>s_alloc = ?n, s_used = 0, s_table = replicate ?n Empty\<rparr>"
  have big: "s_alloc s < ?n" using get_hash_alloc_ge [of "s_alloc s + 1"] by simp
  have count: "filled_count (s_table s) \<le> s_alloc s" using d(1) by (metis filled_count_def length_filter_le)
  have "set_ok ?s0" using hk.table_ok_replicate [of ?n] by (simp add: set_ok_def filled_count_def)
  moreover have "\<forall>k. Filled k \<in> set (s_table s) \<longrightarrow> key_ok k"
    using hk.table_okD(1) [OF d(2)] by (auto simp: in_set_conv_nth)
  moreover have "members ?s0 = {}" by (auto simp: members_def)
  ultimately obtain s' where s': "set_rehash_loop (mp_set_lookup (Suc n)) (s_table s) ?s0 = Some s'" "set_ok s'"
    "s_alloc s' = ?n" "s_used s' \<le> filled_count (s_table s)" "members s' = {canon k | k. Filled k \<in> set (s_table s)}"
    using set_rehash_loop_ok [of ?s0 "s_table s" "mp_set_rehash (mp_set_lookup n)"] big count by auto
  then show ?thesis using big count by (simp add: mp_set_rehash_def members_def Let_def)
qed

lemma set_lookup_spec:
  assumes ok: "set_ok s" and k: "key_ok k"
  shows "\<exists>r s'. mp_set_lookup (Suc (Suc n)) s k kind = Some (r, s') \<and> set_lookup_result s k kind r s'"
proof -
  note d = set_okD [OF ok]
  let ?rh = "mp_set_rehash (mp_set_lookup (Suc n))"
  obtain g where g: "?rh s = Some g" "set_ok g" "members g = members s" "s_alloc s < s_alloc g" "s_used g < s_alloc g"
    using mp_set_rehash_ok [OF ok, of n] by blast
  have grown: "\<exists>r s'. set_lookup_loop ?rh k kind (key_hash k) g (key_hash k mod s_alloc g) (key_hash k mod s_alloc g) None =
      Some (r, s') \<and> set_lookup_result s k kind r s'" if "adds kind" "canon k \<notin> members s"
    using set_loop_room [OF g(2) _ _ k, of kind ?rh] g(3-5) that by (fastforce simp: set_lookup_result_def)
  consider (empty) "s_alloc s = 0" "\<not> adds kind" | (grow) "s_alloc s = 0" "adds kind"
    | (room) "0 < s_alloc s" "adds kind \<longrightarrow> s_used s < s_alloc s" | (full) "0 < s_alloc s" "adds kind" "s_used s \<ge> s_alloc s"
    by linarith
  then show ?thesis
  proof cases
    case empty
    then have "members s = {}" using d(1) by (simp add: members_def)
    with empty ok show ?thesis by (auto simp: set_lookup_body_def set_lookup_result_def)
  next
    case grow
    then have "members s = {}" using d(1) by (simp add: members_def)
    with grow show ?thesis using set_lookup_body_loop [OF k, of s kind ?rh] g(1) grown by simp
  next
    case room
    then show ?thesis using set_lookup_body_loop [OF k, of s kind ?rh] set_loop_room [OF ok room k, of ?rh] by auto
  next
    case full
    have look: "mp_set_lookup (Suc (Suc n)) s k kind = after_set_probe ?rh k kind (key_hash k) s
        (probe (\<lambda>l. mp_obj_equal l k) (s_table s) (key_hash k) 0 (s_alloc s) None)"
      using set_lookup_body_loop [OF k, of s kind ?rh] full(1)
        set_lookup_loop_probe [OF d(1) full(1), of 0 ?rh k kind "key_hash k" None] by simp
    from ok full(1) k show ?thesis
    proof (cases rule: probe_set_cases)
      case (found p l)
      then show ?thesis using look set_delete_at_ok [OF ok found(2,3)] ok
        by (auto simp: after_set_probe_def set_lookup_result_def)
    next
      case (missing q)
      with full show ?thesis by simp
    next
      case probed: full
      then show ?thesis using look full(2) g(1) grown [OF full(2) probed(2)] by (simp add: after_set_probe_def Let_def)
    qed
  qed
qed

text \<open>The slot a stored object is found in.\<close>

lemma set_lookup_stored:
  assumes ok: "set_ok s" and p: "p < s_alloc s" "s_table s ! p = Filled k"
  shows "mp_set_lookup (Suc n) s k kind = Some (Some k, if removes kind then set_delete_at p s else s)"
proof -
  note d = set_okD [OF ok]
  let ?rh = "mp_set_rehash (mp_set_lookup n)"
  have pos: "0 < s_alloc s" and pl: "p < length (s_table s)" using p(1) d(1) by simp_all
  have k: "key_ok k" by (rule hk.table_okD(1) [OF d(2) pl p(2)])
  have mem: "canon k \<in> members s" using pl p(2) by (auto simp: member_iff)
  have look: "mp_set_lookup (Suc n) s k kind = after_set_probe ?rh k kind (key_hash k) s
      (probe (\<lambda>l. mp_obj_equal l k) (s_table s) (key_hash k) 0 (s_alloc s) None)"
    using set_lookup_body_loop [OF k, of s kind ?rh] pos
      set_lookup_loop_probe [OF d(1) pos, of 0 ?rh k kind "key_hash k" None] by simp
  from ok pos k show ?thesis
  proof (cases rule: probe_set_cases)
    case (found q l)
    have "q = p" using hk.table_ok_unique [OF d(2) _ pl _ p(2), of q l] found(2-4) d(1) by simp
    with found look p(2) show ?thesis by (simp add: after_set_probe_def)
  qed (use mem in simp_all)
qed

text \<open>
  C24: A set is a finite set of what its elements stand for: every lookup of a hashable object
  returns and keeps the invariant; an object that is there is returned (as it was stored) and is
  removed when the kind says so, one that is not there is added when the kind says so, and
  otherwise nothing changes. The slots a removal marks and growth are invisible.
\<close>

theorem set_lookup_refines:
  assumes "set_ok s" "key_ok k"
  shows "\<exists>r s'. mp_set_lookup (Suc (Suc n)) s k kind = Some (r, s') \<and> set_ok s' \<and>
    (r = None \<longleftrightarrow> canon k \<notin> members s \<and> \<not> adds kind) \<and>
    members s' =
      (if canon k \<in> members s then (if removes kind then members s - {canon k} else members s)
       else if adds kind then insert (canon k) (members s) else members s)"
  using set_lookup_spec [OF assms, of n kind] by (auto simp: set_lookup_result_def split: if_splits)

theorem set_lookup_refines_witness:
  "\<exists>r s'. mp_set_lookup 2 (mp_set_init 2) (Bool_obj True) ADD_IF_NOT_FOUND_OR_REMOVE_IF_FOUND = Some (r, s') \<and>
     members s' = {Key_int 1}"
proof -
  have "set_ok (mp_set_init 2)" "members (mp_set_init 2) = {}"
    using hk.table_ok_replicate [of 2] by (auto simp: set_ok_def mp_set_init_def filled_count_def members_def)
  with set_lookup_refines [of "mp_set_init 2" "Bool_obj True" 0 ADD_IF_NOT_FOUND_OR_REMOVE_IF_FOUND]
  show ?thesis unfolding numeral_2_eq_2 by (fastforce simp: key_ok_def)
qed

text \<open>
  Removing the first element: it was there, and it is the one that is gone; \<open>None\<close> comes back
  exactly from an empty set.
\<close>

lemma first_filled_Some: "first_filled T pos = Some i \<Longrightarrow> \<exists>k. T ! (i - pos) = Filled k"
proof (induction T arbitrary: pos)
  case (Cons x T)
  then show ?case using first_filled_bounds [of T "Suc pos" i] Cons.IH [of "Suc pos"]
    by (cases x) (auto simp: nth_Cons' Suc_diff_Suc)
qed simp

lemma first_filled_None: "first_filled T pos = None \<longleftrightarrow> (\<forall>k. Filled k \<notin> set T)"
  by (induction T pos rule: first_filled.induct) auto

lemma set_remove_first_spec:
  assumes "set_ok s"
  shows "(members s = {} \<and> mp_set_remove_first s = (None, s)) \<or>
    (\<exists>k s'. mp_set_remove_first s = (Some k, s') \<and> canon k \<in> members s \<and> set_ok s' \<and>
       members s' = members s - {canon k})"
proof -
  note d = set_okD [OF assms]
  have t: "take (s_alloc s) (s_table s) = s_table s" using d(1) by simp
  show ?thesis
  proof (cases "first_filled (s_table s) 0")
    case None
    then have "members s = {}" by (simp add: first_filled_None members_def)
    with None show ?thesis by (simp add: mp_set_remove_first_def t)
  next
    case (Some p)
    then obtain k where k: "s_table s ! p = Filled k" "p < length (s_table s)"
      using first_filled_Some [OF Some] first_filled_bounds [OF Some] by auto
    then have "canon k \<in> members s" by (auto simp: member_iff)
    with k Some set_delete_at_ok [OF assms, of p k] d(1) show ?thesis by (simp add: mp_set_remove_first_def t)
  qed
qed

end
