(* ===== verification/Py_Objset.thy ===== *)
theory Py_Objset
  imports Py_Set
begin

text \<open>
  The types \<open>set\<close> and \<open>frozenset\<close>, \<open>py/objset.c\<close>. An argument that is iterated is the set itself,
  another set, or the list of the objects an iterable yields. A loop over the set itself reads
  the table as it is when the loop gets there. The result \<open>None\<close> is a lookup that raised (an
  object that is not hashable). The checks of the type of \<open>self\<close> (\<open>mp_check_self\<close>, an assertion) and
  of the number of arguments, printing, and sets as elements of sets are not modelled.
\<close>

section \<open>Model\<close>

datatype set_type = Type_set | Type_frozenset

record mp_obj_set =
  stype :: set_type
  oset :: mp_set

datatype set_arg = Self | Set_arg mp_obj_set | Iterable "mp_obj list"

abbreviation set_lookup :: set_lookup_fn where
  "set_lookup \<equiv> mp_set_lookup 2"

subsection \<open>Iteration\<close>

definition set_it_iternext :: "mp_set \<Rightarrow> nat \<Rightarrow> (mp_obj \<times> nat) option" where
  "set_it_iternext s cur =
     (case first_filled (drop cur (take (s_alloc s) (s_table s))) cur of
        None \<Rightarrow> None
      | Some i \<Rightarrow> Some (the (slot_obj (s_table s ! i)), i + 1))"

lemma set_it_iternext_bounds: "set_it_iternext s cur = Some (x, c) \<Longrightarrow> cur < c \<and> c \<le> s_alloc s"
  by (auto simp: set_it_iternext_def split: option.splits dest!: first_filled_bounds)

text \<open>What the iterator of a set that does not change yields.\<close>

function set_items :: "mp_set \<Rightarrow> nat \<Rightarrow> mp_obj list" where
  "set_items s cur = (case set_it_iternext s cur of None \<Rightarrow> [] | Some (x, cur1) \<Rightarrow> x # set_items s cur1)"
  by pat_completeness auto
termination
  by (relation "measure (\<lambda>(s, cur). s_alloc s - cur)")
    (auto dest!: set_it_iternext_bounds)

declare set_items.simps [simp del]

fun each_item :: "(mp_obj \<Rightarrow> 's \<Rightarrow> 's option) \<Rightarrow> mp_obj list \<Rightarrow> 's \<Rightarrow> 's option" where
  "each_item f [] s = Some s"
| "each_item f (x # xs) s = Option.bind (f x s) (each_item f xs)"

text \<open>A loop over the items of the set the loop changes.\<close>

partial_function (option) each_self :: "(mp_obj \<Rightarrow> mp_set \<Rightarrow> mp_set option) \<Rightarrow> mp_set \<Rightarrow> nat \<Rightarrow> mp_set option" where
  "each_self f s cur =
     (case set_it_iternext s cur of
        None \<Rightarrow> Some s
      | Some (x, cur1) \<Rightarrow> Option.bind (f x s) (\<lambda>s1. each_self f s1 cur1))"

definition each_arg :: "(mp_obj \<Rightarrow> mp_set \<Rightarrow> mp_set option) \<Rightarrow> set_arg \<Rightarrow> mp_set \<Rightarrow> mp_set option" where
  "each_arg f arg s =
     (case arg of
        Self \<Rightarrow> each_self f s 0
      | Set_arg other \<Rightarrow> each_item f (set_items (oset other) 0) s
      | Iterable xs \<Rightarrow> each_item f xs s)"

text \<open>A lookup for its effect on the set.\<close>

definition lookup_do :: "lookup_kind \<Rightarrow> mp_obj \<Rightarrow> mp_set \<Rightarrow> mp_set option" where
  "lookup_do kind x s = map_option snd (set_lookup s x kind)"

subsection \<open>Construction\<close>

definition mp_obj_new_set :: "mp_obj list \<Rightarrow> mp_obj_set option" where
  "mp_obj_new_set items =
     map_option (\<lambda>s. \<lparr>stype = Type_set, oset = s\<rparr>)
       (each_item (lookup_do ADD_IF_NOT_FOUND) items (mp_set_init (length items)))"

definition mp_obj_set_store :: "mp_obj_set \<Rightarrow> mp_obj \<Rightarrow> mp_obj_set option" where
  "mp_obj_set_store self item = map_option (\<lambda>s. self\<lparr>oset := s\<rparr>) (lookup_do ADD_IF_NOT_FOUND item (oset self))"

text \<open>\<open>set()\<close> and \<open>set(iterable)\<close>; the argument is \<open>None\<close> when there is none.\<close>

definition set_make_new :: "set_type \<Rightarrow> mp_obj list option \<Rightarrow> mp_obj_set option" where
  "set_make_new type arg =
     Option.bind (mp_obj_new_set []) (\<lambda>new.
       map_option (\<lambda>st. st\<lparr>stype := type\<rparr>)
         (case arg of
            None \<Rightarrow> Some new
          | Some iterable \<Rightarrow> each_item (\<lambda>item st. mp_obj_set_store st item) iterable new))"

subsection \<open>Methods\<close>

definition set_add :: "mp_obj_set \<Rightarrow> mp_obj \<Rightarrow> mp_obj_set option" where
  "set_add self item = map_option (\<lambda>s. self\<lparr>oset := s\<rparr>) (lookup_do ADD_IF_NOT_FOUND item (oset self))"

definition set_clear :: "mp_obj_set \<Rightarrow> mp_obj_set" where
  "set_clear self = self\<lparr>oset := mp_set_clear (oset self)\<rparr>"

definition set_copy :: "mp_obj_set \<Rightarrow> mp_obj_set" where
  "set_copy self =
     \<lparr>stype = stype self,
      oset = (mp_set_init (s_alloc (oset self)))
        \<lparr>s_used := s_used (oset self), s_table := take (s_alloc (oset self)) (s_table (oset self))\<rparr>\<rparr>"

definition set_discard :: "mp_obj_set \<Rightarrow> mp_obj \<Rightarrow> mp_obj_set option" where
  "set_discard self item = map_option (\<lambda>s. self\<lparr>oset := s\<rparr>) (lookup_do REMOVE_IF_FOUND item (oset self))"

text \<open>
  \<open>orig\<close> is the first argument. In the update form the loop works on it, and an argument that is
  the set itself empties it; otherwise the loop works on a copy and may iterate the original.
\<close>

fun diff_args :: "mp_obj_set \<Rightarrow> bool \<Rightarrow> set_arg list \<Rightarrow> mp_set \<Rightarrow> mp_set option" where
  "diff_args orig update [] s = Some s"
| "diff_args orig update (other # args) s =
     Option.bind
       (if update \<and> other = Self then Some (mp_set_clear s)
        else each_arg (lookup_do REMOVE_IF_FOUND) (if other = Self then Set_arg orig else other) s)
       (diff_args orig update args)"

definition set_diff_int :: "mp_obj_set \<Rightarrow> set_arg list \<Rightarrow> bool \<Rightarrow> mp_obj_set option" where
  "set_diff_int self args update =
     (let out = (if update then self else set_copy self)
      in map_option (\<lambda>s. out\<lparr>oset := s\<rparr>) (diff_args self update args (oset out)))"

definition set_diff :: "mp_obj_set \<Rightarrow> set_arg list \<Rightarrow> mp_obj_set option" where
  "set_diff self args = set_diff_int self args False"

definition set_diff_update :: "mp_obj_set \<Rightarrow> set_arg list \<Rightarrow> mp_obj_set option" where
  "set_diff_update self args = set_diff_int self args True"

text \<open>The items of an argument that is not the set itself.\<close>

fun arg_items :: "mp_obj_set \<Rightarrow> set_arg \<Rightarrow> mp_obj list" where
  "arg_items self Self = set_items (oset self) 0"
| "arg_items self (Set_arg other) = set_items (oset other) 0"
| "arg_items self (Iterable xs) = xs"

definition intersect_step :: "mp_obj_set \<Rightarrow> mp_obj \<Rightarrow> mp_obj_set \<Rightarrow> mp_obj_set option" where
  "intersect_step self x out =
     Option.bind (set_lookup (oset self) x LOOKUP) (\<lambda>(found, _). if found \<noteq> None then set_add out x else Some out)"

text \<open>The result of the update form is the changed set, of the other form a new set.\<close>

definition set_intersect_int :: "mp_obj_set \<Rightarrow> set_arg \<Rightarrow> bool \<Rightarrow> mp_obj_set option" where
  "set_intersect_int self other update =
     (if other = Self then Some (if update then self else set_copy self)
      else
        Option.bind (mp_obj_new_set []) (\<lambda>new.
          Option.bind (each_item (intersect_step self) (arg_items self other) new) (\<lambda>out.
            Some (if update
                  then self\<lparr>oset := \<lparr>s_alloc = s_alloc (oset out), s_used = s_used (oset out),
                                     s_table = s_table (oset out)\<rparr>\<rparr>
                  else out))))"

definition set_intersect :: "mp_obj_set \<Rightarrow> set_arg \<Rightarrow> mp_obj_set option" where
  "set_intersect self other = set_intersect_int self other False"

definition set_intersect_update :: "mp_obj_set \<Rightarrow> set_arg \<Rightarrow> mp_obj_set option" where
  "set_intersect_update self other = set_intersect_int self other True"

fun disjoint_loop :: "mp_set \<Rightarrow> mp_obj list \<Rightarrow> bool option" where
  "disjoint_loop s [] = Some True"
| "disjoint_loop s (x # xs) =
     Option.bind (set_lookup s x LOOKUP) (\<lambda>(found, _). if found \<noteq> None then Some False else disjoint_loop s xs)"

definition set_isdisjoint :: "mp_obj_set \<Rightarrow> set_arg \<Rightarrow> bool option" where
  "set_isdisjoint self other = disjoint_loop (oset self) (arg_items self other)"

text \<open>An operand of the comparisons that is not a set is made one.\<close>

datatype operand = Is_set mp_obj_set | Is_iterable "mp_obj list"

fun operand_set :: "operand \<Rightarrow> mp_obj_set option" where
  "operand_set (Is_set st) = Some st"
| "operand_set (Is_iterable xs) = set_make_new Type_set (Some xs)"

fun subset_loop :: "mp_obj list \<Rightarrow> mp_set \<Rightarrow> bool option" where
  "subset_loop [] other = Some True"
| "subset_loop (x # xs) other =
     Option.bind (set_lookup other x LOOKUP) (\<lambda>(found, _). if found = None then Some False else subset_loop xs other)"

definition set_issubset_internal :: "operand \<Rightarrow> operand \<Rightarrow> bool \<Rightarrow> bool option" where
  "set_issubset_internal self_in other_in proper =
     Option.bind (operand_set self_in) (\<lambda>self. Option.bind (operand_set other_in) (\<lambda>other.
       if proper \<and> s_used (oset self) = s_used (oset other) then Some False
       else subset_loop (set_items (oset self) 0) (oset other)))"

definition set_issubset :: "operand \<Rightarrow> operand \<Rightarrow> bool option" where
  "set_issubset self other = set_issubset_internal self other False"

definition set_issubset_proper :: "operand \<Rightarrow> operand \<Rightarrow> bool option" where
  "set_issubset_proper self other = set_issubset_internal self other True"

definition set_issuperset :: "operand \<Rightarrow> operand \<Rightarrow> bool option" where
  "set_issuperset self other = set_issubset_internal other self False"

definition set_issuperset_proper :: "operand \<Rightarrow> operand \<Rightarrow> bool option" where
  "set_issuperset_proper self other = set_issubset_internal other self True"

definition set_equal :: "mp_obj_set \<Rightarrow> mp_obj_set \<Rightarrow> bool option" where
  "set_equal self other =
     (if s_used (oset self) \<noteq> s_used (oset other) then Some False else set_issubset (Is_set self) (Is_set other))"

text \<open>\<open>Inl\<close> is the exception \<open>KeyError\<close>.\<close>

definition set_pop :: "mp_obj_set \<Rightarrow> (unit + mp_obj) \<times> mp_obj_set" where
  "set_pop self =
     (case mp_set_remove_first (oset self) of
        (None, s) \<Rightarrow> (Inl (), self\<lparr>oset := s\<rparr>)
      | (Some obj, s) \<Rightarrow> (Inr obj, self\<lparr>oset := s\<rparr>))"

definition set_remove :: "mp_obj_set \<Rightarrow> mp_obj \<Rightarrow> ((mp_obj + unit) \<times> mp_obj_set) option" where
  "set_remove self item =
     map_option (\<lambda>(found, s). (if found = None then Inl item else Inr (), self\<lparr>oset := s\<rparr>))
       (set_lookup (oset self) item REMOVE_IF_FOUND)"

definition set_symmetric_difference_update :: "mp_obj_set \<Rightarrow> set_arg \<Rightarrow> mp_obj_set option" where
  "set_symmetric_difference_update self other =
     map_option (\<lambda>s. self\<lparr>oset := s\<rparr>)
       (each_arg (lookup_do ADD_IF_NOT_FOUND_OR_REMOVE_IF_FOUND) other (oset self))"

definition set_symmetric_difference :: "mp_obj_set \<Rightarrow> set_arg \<Rightarrow> mp_obj_set option" where
  "set_symmetric_difference self other =
     set_symmetric_difference_update (set_copy self) (if other = Self then Set_arg self else other)"

definition set_update_int :: "mp_obj_set \<Rightarrow> set_arg \<Rightarrow> mp_obj_set option" where
  "set_update_int self other =
     map_option (\<lambda>s. self\<lparr>oset := s\<rparr>) (each_arg (lookup_do ADD_IF_NOT_FOUND) other (oset self))"

fun set_update :: "mp_obj_set \<Rightarrow> set_arg list \<Rightarrow> mp_obj_set option" where
  "set_update self [] = Some self"
| "set_update self (other # args) = Option.bind (set_update_int self other) (\<lambda>self1. set_update self1 args)"

definition set_union :: "mp_obj_set \<Rightarrow> set_arg \<Rightarrow> mp_obj_set option" where
  "set_union self other = set_update_int (set_copy self) (if other = Self then Set_arg self else other)"

subsection \<open>Operators\<close>

text \<open>The hash of a \<open>frozenset\<close>; \<open>type_addr\<close> is the address of \<open>mp_type_frozenset\<close>.\<close>

fun sum_hashes :: "mp_obj slot list \<Rightarrow> 32 word \<Rightarrow> 32 word" where
  "sum_hashes [] hash = hash"
| "sum_hashes (Filled k # T) hash = sum_hashes T (hash + the (obj_hash k))"
| "sum_hashes (_ # T) hash = sum_hashes T hash"

datatype unary_result = Un_bool bool | Un_len nat | Un_hash "32 word" | Un_unsupported

datatype unary_op = MP_UNARY_OP_BOOL | MP_UNARY_OP_LEN | MP_UNARY_OP_HASH | MP_UNARY_OP_other

definition set_unary_op :: "32 word \<Rightarrow> unary_op \<Rightarrow> mp_obj_set \<Rightarrow> unary_result" where
  "set_unary_op type_addr op self =
     (case op of
        MP_UNARY_OP_BOOL \<Rightarrow> Un_bool (s_used (oset self) \<noteq> 0)
      | MP_UNARY_OP_LEN \<Rightarrow> Un_len (s_used (oset self))
      | MP_UNARY_OP_HASH \<Rightarrow>
          if stype self = Type_frozenset
          then Un_hash (small_int_word (sum_hashes (take (s_alloc (oset self)) (s_table (oset self))) type_addr))
          else Un_unsupported
      | _ \<Rightarrow> Un_unsupported)"

datatype binary_op = Op_or | Op_xor | Op_and | Op_subtract | Op_inplace_or | Op_inplace_xor | Op_inplace_and
  | Op_inplace_subtract | Op_less | Op_more | Op_equal | Op_less_equal | Op_more_equal | Op_contains | Op_other

text \<open>The right operand: the left one itself, another set, or an object that is not a set.\<close>

datatype rhs = Rhs_lhs | Rhs_set mp_obj_set | Rhs_obj mp_obj

text \<open>A new set, the left operand (changed), a boolean, or not supported.\<close>

datatype binary_result = New_set mp_obj_set | Lhs mp_obj_set | A_bool bool | Unsupported

definition set_binary_op :: "binary_op \<Rightarrow> mp_obj_set \<Rightarrow> rhs \<Rightarrow> binary_result option" where
  "set_binary_op op lhs rhs =
     (let update = (stype lhs = Type_set)
      in case rhs of
           Rhs_obj x \<Rightarrow>
             if op = Op_contains
             then map_option (\<lambda>(elem, _). A_bool (elem \<noteq> None)) (set_lookup (oset lhs) x LOOKUP)
             else Some Unsupported
         | _ \<Rightarrow>
             let arg = (case rhs of Rhs_set st \<Rightarrow> Set_arg st | _ \<Rightarrow> Self);
                 r = (case rhs of Rhs_set st \<Rightarrow> st | _ \<Rightarrow> lhs)
             in case op of
                  Op_or \<Rightarrow> map_option New_set (set_union lhs arg)
                | Op_xor \<Rightarrow> map_option New_set (set_symmetric_difference lhs arg)
                | Op_and \<Rightarrow> map_option New_set (set_intersect lhs arg)
                | Op_subtract \<Rightarrow> map_option New_set (set_diff lhs [arg])
                | Op_inplace_or \<Rightarrow>
                    if update then map_option Lhs (set_update lhs [arg]) else map_option New_set (set_union lhs arg)
                | Op_inplace_xor \<Rightarrow>
                    if update then map_option Lhs (set_symmetric_difference_update lhs arg)
                    else map_option New_set (set_symmetric_difference lhs arg)
                | Op_inplace_and \<Rightarrow> map_option (if update then Lhs else New_set) (set_intersect_int lhs arg update)
                | Op_inplace_subtract \<Rightarrow> map_option (if update then Lhs else New_set) (set_diff_int lhs [arg] update)
                | Op_less \<Rightarrow> map_option A_bool (set_issubset_proper (Is_set lhs) (Is_set r))
                | Op_more \<Rightarrow> map_option A_bool (set_issuperset_proper (Is_set lhs) (Is_set r))
                | Op_equal \<Rightarrow> map_option A_bool (set_equal lhs r)
                | Op_less_equal \<Rightarrow> map_option A_bool (set_issubset (Is_set lhs) (Is_set r))
                | Op_more_equal \<Rightarrow> map_option A_bool (set_issuperset (Is_set lhs) (Is_set r))
                | Op_contains \<Rightarrow> None
                | Op_other \<Rightarrow> Some Unsupported)"

end
