(* ===== verification/Py_Objset_Props.thy ===== *)
theory Py_Objset_Props
  imports Py_Objset
begin

text \<open>
  Correctness of \<open>py/objset.c\<close>: the operators and methods of sets are the operations of finite
  sets on what the elements stand for, also where the argument is the set itself.
\<close>

section \<open>Loops\<close>

fun kind_step :: "lookup_kind \<Rightarrow> key \<Rightarrow> key set \<Rightarrow> key set" where
  "kind_step LOOKUP c A = A"
| "kind_step ADD_IF_NOT_FOUND c A = insert c A"
| "kind_step REMOVE_IF_FOUND c A = A - {c}"
| "kind_step ADD_IF_NOT_FOUND_OR_REMOVE_IF_FOUND c A = (if c \<in> A then A - {c} else insert c A)"

lemma lookup_do_spec:
  assumes "set_ok s" "key_ok k"
  shows "\<exists>s'. lookup_do kind k s = Some s' \<and> set_ok s' \<and> members s' = kind_step kind (canon k) (members s)"
proof -
  obtain r s' where "set_lookup s k kind = Some (r, s')" "set_lookup_result s k kind r s'"
    using set_lookup_spec [OF assms, of 0 kind] unfolding numeral_2_eq_2 by blast
  then show ?thesis by (cases kind) (auto simp: lookup_do_def set_lookup_result_def split: if_splits)
qed

lemma lookup_find:
  assumes "set_ok s" "key_ok k"
  shows "\<exists>r. set_lookup s k LOOKUP = Some (r, s) \<and> (r = None \<longleftrightarrow> canon k \<notin> members s)"
  using set_lookup_spec [OF assms, of 0 LOOKUP] unfolding numeral_2_eq_2
  by (auto simp: set_lookup_result_def split: if_splits)

abbreviation all_ok :: "mp_obj list \<Rightarrow> bool" where
  "all_ok xs \<equiv> \<forall>x \<in> set xs. key_ok x"

lemma each_item_spec:
  assumes "set_ok s" "all_ok xs"
  shows "\<exists>s'. each_item (lookup_do kind) xs s = Some s' \<and> set_ok s' \<and>
    members s' = fold (kind_step kind) (map canon xs) (members s)"
  using assms
proof (induction xs arbitrary: s)
  case (Cons x xs)
  obtain s1 where s1: "lookup_do kind x s = Some s1" "set_ok s1" "members s1 = kind_step kind (canon x) (members s)"
    using lookup_do_spec [OF Cons.prems(1), of x kind] Cons.prems(2) by auto
  from Cons.IH [OF s1(2)] Cons.prems(2) s1 show ?case by simp
qed simp

lemma fold_add: "fold (kind_step ADD_IF_NOT_FOUND) cs A = A \<union> set cs"
  by (induction cs arbitrary: A) auto

lemma fold_remove: "fold (kind_step REMOVE_IF_FOUND) cs A = A - set cs"
  by (induction cs arbitrary: A) auto

lemma fold_toggle:
  "distinct cs \<Longrightarrow> fold (kind_step ADD_IF_NOT_FOUND_OR_REMOVE_IF_FOUND) cs A = (A - set cs) \<union> (set cs - A)"
  by (induction cs arbitrary: A) auto

section \<open>The items of a set\<close>

fun filled :: "mp_obj slot list \<Rightarrow> mp_obj list" where
  "filled [] = []"
| "filled (Filled k # T) = k # filled T"
| "filled (_ # T) = filled T"

lemma filled_set: "k \<in> set (filled T) \<longleftrightarrow> Filled k \<in> set T"
  by (induction T rule: filled.induct) auto

lemma first_filled_filled:
  "case first_filled T pos of
     None \<Rightarrow> filled T = []
   | Some i \<Rightarrow> pos \<le> i \<and> i - pos < length T \<and> (\<exists>k. T ! (i - pos) = Filled k \<and> filled T = k # filled (drop (Suc (i - pos)) T))"
proof (induction T arbitrary: pos)
  case (Cons x T)
  show ?case
    by (cases x) (use Cons.IH [of "Suc pos"] first_filled_bounds [of T "Suc pos"] in
      \<open>auto simp: Suc_diff_Suc nth_Cons' Suc_diff_le split: option.splits\<close>)
qed simp

lemma iternext_filled:
  assumes "length (s_table s) = s_alloc s"
  shows "case set_it_iternext s cur of
     None \<Rightarrow> filled (drop cur (s_table s)) = []
   | Some (x, c) \<Rightarrow> (\<exists>i. cur \<le> i \<and> i < s_alloc s \<and> c = Suc i \<and> s_table s ! i = Filled x \<and>
       filled (drop cur (s_table s)) = x # filled (drop c (s_table s)))"
  using first_filled_filled [of "drop cur (s_table s)" cur] assms
  by (auto simp: set_it_iternext_def split: option.splits)

lemma set_items_filled:
  assumes "length (s_table s) = s_alloc s"
  shows "set_items s cur = filled (drop cur (s_table s))"
proof (induction "s_alloc s - cur" arbitrary: cur rule: less_induct)
  case less
  note n = iternext_filled [OF assms, of cur]
  show ?case
  proof (cases "set_it_iternext s cur")
    case None
    with n show ?thesis by (simp add: set_items.simps [of s cur])
  next
    case (Some p)
    then obtain x c where p: "set_it_iternext s cur = Some (x, c)" by (cases p) auto
    with n have "set_items s c = filled (drop c (s_table s))" by (intro less) auto
    with n p show ?thesis by (auto simp: set_items.simps [of s cur])
  qed
qed

lemma set_items_ok:
  assumes "set_ok s"
  shows "all_ok (set_items s 0)" "canon ` set (set_items s 0) = members s" "distinct (map canon (set_items s 0))"
    "s_used s = length (set_items s 0)"
proof -
  note d = set_okD [OF assms]
  have items: "set_items s 0 = filled (s_table s)" using set_items_filled [OF d(1), of 0] by simp
  have "key_ok k" if "Filled k \<in> set (s_table s)" for k
    using that hk.table_okD(1) [OF d(2)] by (auto simp: in_set_conv_nth)
  then show "all_ok (set_items s 0)" by (simp add: items filled_set)
  show "canon ` set (set_items s 0) = members s" by (auto simp: items filled_set members_def)
  have "length (filled T) = filled_count T" for T by (induction T rule: filled.induct) (auto simp: filled_count_def)
  then show "s_used s = length (set_items s 0)" using d(3) items by simp
  have "distinct (map canon (filled T))"
    if "\<forall>p q k l. p < length T \<longrightarrow> q < length T \<longrightarrow> T ! p = Filled k \<longrightarrow> T ! q = Filled l \<longrightarrow> canon k = canon l \<longrightarrow> p = q" for T
    using that
  proof (induction T)
    case (Cons x T)
    have T: "\<forall>p q k l. p < length T \<longrightarrow> q < length T \<longrightarrow> T ! p = Filled k \<longrightarrow> T ! q = Filled l \<longrightarrow> canon k = canon l \<longrightarrow> p = q"
      using Cons.prems by (metis Suc_inject Suc_less_eq length_Cons nth_Cons_Suc)
    show ?case
    proof (cases x)
      case (Filled k)
      have "canon k \<notin> canon ` set (filled T)"
      proof
        assume "canon k \<in> canon ` set (filled T)"
        then obtain l where "Filled l \<in> set T" "canon k = canon l" by (auto simp: filled_set)
        then obtain q where "q < length T" "T ! q = Filled l" "canon k = canon l" by (auto simp: in_set_conv_nth)
        with Cons.prems [rule_format, of 0 "Suc q" k l] Filled show False by simp
      qed
      with Cons.IH [OF T] Filled show ?thesis by simp
    qed (use Cons.IH [OF T] in simp_all)
  qed simp
  then show "distinct (map canon (set_items s 0))" unfolding items using hk.table_ok_unique [OF d(2)] by blast
qed

lemma set_used_card: "set_ok s \<Longrightarrow> s_used s = card (members s) \<and> finite (members s)"
  using set_items_ok [of s] distinct_card [of "map canon (set_items s 0)"]
  by (metis List.finite_set image_set length_map)

text \<open>Loops over the set they change: adding leaves it as it is, toggling empties it.\<close>

lemma each_self_add:
  assumes "set_ok s"
  shows "each_self (lookup_do ADD_IF_NOT_FOUND) s cur = Some s"
proof (induction "s_alloc s - cur" arbitrary: cur rule: less_induct)
  case less
  note n = iternext_filled [OF set_okD(1) [OF assms], of cur]
  show ?case
  proof (cases "set_it_iternext s cur")
    case None
    then show ?thesis by (subst each_self.simps) simp
  next
    case (Some p)
    then obtain x c where p: "set_it_iternext s cur = Some (x, c)" by (cases p) auto
    with n obtain i where i: "cur \<le> i" "i < s_alloc s" "c = Suc i" "s_table s ! i = Filled x" by auto
    have "lookup_do ADD_IF_NOT_FOUND x s = Some s"
      using set_lookup_stored [OF assms i(2,4), of 1 ADD_IF_NOT_FOUND] by (simp add: lookup_do_def numeral_2_eq_2)
    with p i less show ?thesis by (subst each_self.simps) simp
  qed
qed

lemma each_self_toggle:
  assumes "set_ok s" "filled (take cur (s_table s)) = []"
  shows "\<exists>s'. each_self (lookup_do ADD_IF_NOT_FOUND_OR_REMOVE_IF_FOUND) s cur = Some s' \<and> set_ok s' \<and> members s' = {}"
  using assms
proof (induction "s_alloc s - cur" arbitrary: s cur rule: less_induct)
  case less
  note d = set_okD [OF less.prems(1)]
  note n = iternext_filled [OF d(1), of cur]
  have app: "filled (S @ T) = filled S @ filled T" for S T by (induction S rule: filled.induct) auto
  show ?case
  proof (cases "set_it_iternext s cur")
    case None
    with n have "filled (s_table s) = []" using app [of "take cur (s_table s)" "drop cur (s_table s)"] less.prems(2) by simp
    then have "members s = {}" using filled_set [of _ "s_table s"] by (auto simp: members_def)
    with None less.prems(1) show ?thesis by (subst each_self.simps) simp
  next
    case (Some p)
    then obtain x c where p: "set_it_iternext s cur = Some (x, c)" by (cases p) auto
    with n obtain i where i: "cur \<le> i" "i < s_alloc s" "c = Suc i" "s_table s ! i = Filled x"
      "filled (drop cur (s_table s)) = x # filled (drop c (s_table s))" by auto
    let ?s = "set_delete_at i s"
    have look: "lookup_do ADD_IF_NOT_FOUND_OR_REMOVE_IF_FOUND x s = Some ?s"
      using set_lookup_stored [OF less.prems(1) i(2,4), of 1 ADD_IF_NOT_FOUND_OR_REMOVE_IF_FOUND]
      by (simp add: lookup_do_def numeral_2_eq_2)
    have il: "i < length (s_table s)" using i(2) d(1) by simp
    have "s_table s = take cur (s_table s) @ drop cur (take i (s_table s)) @ s_table s ! i # drop c (s_table s)"
      using id_take_nth_drop [OF il] i(1,3) by (metis append.assoc append_take_drop_id min.absorb_iff1 take_take)
    then have "filled (drop cur (s_table s)) = filled (drop cur (take i (s_table s))) @ x # filled (drop c (s_table s))"
      using app i(4) less.prems(2) by (metis append_Nil append_take_drop_id filled.simps(2))
    then have gap: "filled (drop cur (take i (s_table s))) = []" using i(5) by simp
    have "take (Suc i) (s_table ?s) = take i (s_table s) @ [s_table ?s ! i]"
      using il by (simp add: set_delete_at_def take_Suc_conv_app_nth)
    moreover have "filled (take i (s_table s)) = []"
      using gap less.prems(2) i(1) app [of "take cur (s_table s)" "drop cur (take i (s_table s))"]
      by (metis append.right_neutral append_take_drop_id min.absorb1 take_take)
    moreover have "filled [s_table ?s ! i] = []" using il by (simp add: set_delete_at_def)
    ultimately have "filled (take c (s_table ?s)) = []" using app i(3) by simp
    moreover have "s_alloc ?s - c < s_alloc s - cur" using i by (simp add: set_delete_at_def)
    ultimately show ?thesis
      using less.hyps [of ?s c] set_delete_at_ok(1) [OF less.prems(1) i(2,4)] p look
      by (subst each_self.simps) simp
  qed
qed

section \<open>Operations\<close>

abbreviation oset_ok :: "mp_obj_set \<Rightarrow> bool" where
  "oset_ok st \<equiv> set_ok (oset st)"

abbreviation omembers :: "mp_obj_set \<Rightarrow> key set" where
  "omembers st \<equiv> members (oset st)"

text \<open>An argument whose items can be looked up, and what its items stand for.\<close>

fun arg_ok :: "set_arg \<Rightarrow> bool" where
  "arg_ok Self = True"
| "arg_ok (Set_arg st) = oset_ok st"
| "arg_ok (Iterable xs) = all_ok xs"

fun arg_members :: "mp_obj_set \<Rightarrow> set_arg \<Rightarrow> key set" where
  "arg_members self Self = omembers self"
| "arg_members self (Set_arg st) = omembers st"
| "arg_members self (Iterable xs) = canon ` set xs"

lemma arg_items_ok:
  assumes "oset_ok self" "arg_ok arg"
  shows "all_ok (arg_items self arg)" "canon ` set (arg_items self arg) = arg_members self arg"
  using assms set_items_ok(1,2) by (cases arg; simp)+

lemma set_copy_eq:
  assumes "oset_ok self"
  shows "oset (set_copy self) = oset self" "stype (set_copy self) = stype self"
  using set_okD(1) [OF assms] by (simp_all add: set_copy_def mp_set_init_def)

lemma new_set_empty: "mp_obj_new_set [] = Some \<lparr>stype = Type_set, oset = mp_set_init 0\<rparr>"
  by (simp add: mp_obj_new_set_def)

lemma init_ok: "set_ok (mp_set_init n)" "members (mp_set_init n) = {}"
  using hk.table_ok_replicate [of n] by (auto simp: set_ok_def mp_set_init_def filled_count_def members_def)

lemma clear_ok: "set_ok (mp_set_clear s)" "members (mp_set_clear s) = {}"
  by (auto simp: mp_set_clear_def set_ok_def members_def filled_count_def hk.table_ok_def)

lemma each_arg_add:
  assumes "oset_ok self" "arg_ok arg"
  shows "\<exists>s'. each_arg (lookup_do ADD_IF_NOT_FOUND) arg (oset self) = Some s' \<and> set_ok s' \<and>
    members s' = omembers self \<union> arg_members self arg"
proof (cases arg)
  case Self
  then show ?thesis using each_self_add [OF assms(1)] assms(1) by (simp add: each_arg_def)
next
  case (Set_arg st)
  then show ?thesis using each_item_spec [OF assms(1), of "set_items (oset st) 0" ADD_IF_NOT_FOUND] set_items_ok [of "oset st"] assms(2)
    by (auto simp: each_arg_def fold_add)
next
  case (Iterable xs)
  then show ?thesis using each_item_spec [OF assms(1), of xs ADD_IF_NOT_FOUND] assms(2) by (auto simp: each_arg_def fold_add)
qed

lemma each_arg_remove:
  assumes "set_ok s" "arg_ok arg" "arg \<noteq> Self"
  shows "\<exists>s'. each_arg (lookup_do REMOVE_IF_FOUND) arg s = Some s' \<and> set_ok s' \<and> members s' = members s - arg_members self arg"
proof (cases arg)
  case (Set_arg st)
  then show ?thesis using each_item_spec [OF assms(1), of "set_items (oset st) 0" REMOVE_IF_FOUND] set_items_ok [of "oset st"] assms(2)
    by (auto simp: each_arg_def fold_remove)
next
  case (Iterable xs)
  then show ?thesis using each_item_spec [OF assms(1), of xs REMOVE_IF_FOUND] assms(2) by (auto simp: each_arg_def fold_remove)
qed (use assms in simp)

lemma set_update_int_spec:
  assumes "oset_ok self" "arg_ok arg"
  shows "\<exists>st. set_update_int self arg = Some st \<and> oset_ok st \<and> stype st = stype self \<and>
    omembers st = omembers self \<union> arg_members self arg"
  using each_arg_add [OF assms] by (auto simp: set_update_int_def)

lemma set_union_spec:
  assumes "oset_ok self" "arg_ok arg"
  shows "\<exists>st. set_union self arg = Some st \<and> oset_ok st \<and> stype st = stype self \<and>
    omembers st = omembers self \<union> arg_members self arg"
  using set_update_int_spec [of "set_copy self" "if arg = Self then Set_arg self else arg"] set_copy_eq [OF assms(1)] assms
  by (cases arg) (auto simp: set_union_def)

lemma diff_args_spec:
  assumes "set_ok s" "oset_ok orig" "\<forall>a \<in> set args. arg_ok a"
  shows "\<exists>s'. diff_args orig update args s = Some s' \<and> set_ok s' \<and>
    (update \<longrightarrow> Self \<notin> set args \<longrightarrow> members s' = members s - \<Union> (arg_members orig ` set args)) \<and>
    (\<not> update \<longrightarrow> members s' = members s - \<Union> (arg_members orig ` set args)) \<and>
    (update \<longrightarrow> Self \<in> set args \<longrightarrow> members s' = {}) \<and> (members s = {} \<longrightarrow> members s' = {})"
  using assms
proof (induction args arbitrary: s)
  case (Cons a args)
  let ?a = "if a = Self then Set_arg orig else a"
  have "\<exists>s1. (if update \<and> a = Self then Some (mp_set_clear s) else each_arg (lookup_do REMOVE_IF_FOUND) ?a s) = Some s1 \<and>
      set_ok s1 \<and> members s1 = (if update \<and> a = Self then {} else members s - arg_members orig a)"
    using each_arg_remove [OF Cons.prems(1), of ?a orig] Cons.prems(2,3) clear_ok [of s] by auto
  then obtain s1 where s1: "(if update \<and> a = Self then Some (mp_set_clear s) else each_arg (lookup_do REMOVE_IF_FOUND) ?a s) = Some s1"
    "set_ok s1" "members s1 = (if update \<and> a = Self then {} else members s - arg_members orig a)" by blast
  from Cons.IH [OF s1(2) Cons.prems(2)] Cons.prems(3) obtain s2 where s2: "diff_args orig update args s1 = Some s2" "set_ok s2"
    "update \<longrightarrow> Self \<notin> set args \<longrightarrow> members s2 = members s1 - \<Union> (arg_members orig ` set args)"
    "\<not> update \<longrightarrow> members s2 = members s1 - \<Union> (arg_members orig ` set args)"
    "update \<longrightarrow> Self \<in> set args \<longrightarrow> members s2 = {}" "members s1 = {} \<longrightarrow> members s2 = {}" by auto
  have "diff_args orig update (a # args) s = Some s2" unfolding diff_args.simps s1(1) using s2(1) by simp
  moreover have "members s2 = {}" if "update" "Self \<in> set (a # args)" using s2(5,6) s1(3) that by auto
  moreover have "members s2 = members s - \<Union> (arg_members orig ` set (a # args))" if "\<not> update \<or> Self \<notin> set (a # args)"
    using s2(3,4) s1(3) that by auto
  moreover have "members s = {} \<longrightarrow> members s2 = {}" using s2(6) s1(3) by auto
  ultimately show ?case using s2(2) by auto
qed simp

lemma set_diff_spec:
  assumes "oset_ok self" "\<forall>a \<in> set args. arg_ok a"
  shows "\<exists>st. set_diff_int self args update = Some st \<and> oset_ok st \<and> stype st = stype self \<and>
    omembers st = omembers self - \<Union> (arg_members self ` set args)"
proof -
  have "oset (if update then self else set_copy self) = oset self" using set_copy_eq [OF assms(1)] by simp
  moreover obtain s where s: "diff_args self update args (oset self) = Some s" "set_ok s"
    "update \<longrightarrow> Self \<notin> set args \<longrightarrow> members s = omembers self - \<Union> (arg_members self ` set args)"
    "\<not> update \<longrightarrow> members s = omembers self - \<Union> (arg_members self ` set args)"
    "update \<longrightarrow> Self \<in> set args \<longrightarrow> members s = {}"
    using diff_args_spec [OF assms(1,1,2), of update] by blast
  moreover have "members s = omembers self - \<Union> (arg_members self ` set args)"
    using s(3-5) by (cases "update \<and> Self \<in> set args") force+
  ultimately show ?thesis using set_copy_eq(2) [OF assms(1)] by (simp add: set_diff_int_def Let_def)
qed

lemma intersect_loop:
  assumes "oset_ok self" "oset_ok out" "all_ok xs"
  shows "\<exists>st. each_item (intersect_step self) xs out = Some st \<and> oset_ok st \<and> stype st = stype out \<and>
    omembers st = omembers out \<union> (omembers self \<inter> canon ` set xs)"
  using assms(2,3)
proof (induction xs arbitrary: out)
  case (Cons x xs)
  have x: "key_ok x" using Cons.prems(2) by simp
  obtain r where r: "set_lookup (oset self) x LOOKUP = Some (r, oset self)" "r = None \<longleftrightarrow> canon x \<notin> omembers self"
    using lookup_find [OF assms(1) x] by blast
  obtain s1 where "lookup_do ADD_IF_NOT_FOUND x (oset out) = Some s1" "set_ok s1" "members s1 = insert (canon x) (omembers out)"
    using lookup_do_spec [OF Cons.prems(1) x, of ADD_IF_NOT_FOUND] by auto
  then obtain o1 where o1: "intersect_step self x out = Some o1" "oset_ok o1" "stype o1 = stype out"
    "omembers o1 = omembers out \<union> (omembers self \<inter> {canon x})"
    using r Cons.prems(1) by (cases "canon x \<in> omembers self") (auto simp: intersect_step_def set_add_def)
  from Cons.IH [OF o1(2)] Cons.prems(2) obtain st where "each_item (intersect_step self) xs o1 = Some st" "oset_ok st"
    "stype st = stype o1" "omembers st = omembers o1 \<union> (omembers self \<inter> canon ` set xs)" by auto
  with o1 show ?case by auto
qed simp

lemma set_intersect_spec:
  assumes "oset_ok self" "arg_ok arg"
  shows "\<exists>st. set_intersect_int self arg update = Some st \<and> oset_ok st \<and>
    (update \<longrightarrow> stype st = stype self) \<and> omembers st = omembers self \<inter> arg_members self arg"
proof (cases "arg = Self")
  case True
  then show ?thesis using set_copy_eq [OF assms(1)] assms(1) by (simp add: set_intersect_int_def)
next
  case False
  obtain st where "each_item (intersect_step self) (arg_items self arg) \<lparr>stype = Type_set, oset = mp_set_init 0\<rparr> = Some st"
    "oset_ok st" "omembers st = omembers self \<inter> arg_members self arg"
    using intersect_loop [OF assms(1), of "\<lparr>stype = Type_set, oset = mp_set_init 0\<rparr>" "arg_items self arg"]
      init_ok [of 0] arg_items_ok [OF assms] by auto
  moreover have copied: "\<lparr>s_alloc = s_alloc (oset st), s_used = s_used (oset st), s_table = s_table (oset st)\<rparr> = oset st"
    by simp
  ultimately show ?thesis using False by (simp add: set_intersect_int_def new_set_empty copied)
qed

lemma set_toggle_spec:
  assumes "oset_ok self" "arg_ok arg" "\<And>xs. arg = Iterable xs \<Longrightarrow> distinct (map canon xs)"
  shows "\<exists>st. set_symmetric_difference_update self arg = Some st \<and> oset_ok st \<and> stype st = stype self \<and>
    omembers st = (omembers self - arg_members self arg) \<union> (arg_members self arg - omembers self)"
proof (cases arg)
  case Self
  then show ?thesis using each_self_toggle [OF assms(1), of 0]
    by (auto simp: set_symmetric_difference_update_def each_arg_def)
next
  case (Set_arg other)
  then show ?thesis using each_item_spec [OF assms(1), of "set_items (oset other) 0" ADD_IF_NOT_FOUND_OR_REMOVE_IF_FOUND]
      set_items_ok [of "oset other"] assms(2) fold_toggle [of "map canon (set_items (oset other) 0)" "omembers self"]
    by (auto simp: set_symmetric_difference_update_def each_arg_def)
next
  case (Iterable xs)
  then show ?thesis using each_item_spec [OF assms(1), of xs ADD_IF_NOT_FOUND_OR_REMOVE_IF_FOUND] assms(2,3)
      fold_toggle [of "map canon xs" "omembers self"]
    by (auto simp: set_symmetric_difference_update_def each_arg_def)
qed

lemma set_symmetric_difference_spec:
  assumes "oset_ok self" "arg_ok arg" "\<And>xs. arg = Iterable xs \<Longrightarrow> distinct (map canon xs)"
  shows "\<exists>st. set_symmetric_difference self arg = Some st \<and> oset_ok st \<and> stype st = stype self \<and>
    omembers st = (omembers self - arg_members self arg) \<union> (arg_members self arg - omembers self)"
  using set_toggle_spec [of "set_copy self" "if arg = Self then Set_arg self else arg"] set_copy_eq [OF assms(1)] assms
  by (cases arg) (auto simp: set_symmetric_difference_def)

section \<open>Comparisons\<close>

lemma subset_loop_spec:
  assumes "set_ok s" "all_ok xs"
  shows "subset_loop xs s = Some (canon ` set xs \<subseteq> members s)"
  using assms(2)
proof (induction xs)
  case (Cons x xs)
  obtain r where "set_lookup s x LOOKUP = Some (r, s)" "r = None \<longleftrightarrow> canon x \<notin> members s"
    using lookup_find [OF assms(1), of x] Cons.prems by auto
  with Cons show ?case by auto
qed simp

lemma disjoint_loop_spec:
  assumes "set_ok s" "all_ok xs"
  shows "disjoint_loop s xs = Some (members s \<inter> canon ` set xs = {})"
  using assms(2)
proof (induction xs)
  case (Cons x xs)
  obtain r where "set_lookup s x LOOKUP = Some (r, s)" "r = None \<longleftrightarrow> canon x \<notin> members s"
    using lookup_find [OF assms(1), of x] Cons.prems by auto
  with Cons show ?case by auto
qed simp

fun operand_ok :: "operand \<Rightarrow> bool" where
  "operand_ok (Is_set st) = oset_ok st"
| "operand_ok (Is_iterable xs) = all_ok xs"

fun operand_members :: "operand \<Rightarrow> key set" where
  "operand_members (Is_set st) = omembers st"
| "operand_members (Is_iterable xs) = canon ` set xs"

lemma store_each:
  assumes "oset_ok st" "all_ok xs"
  shows "\<exists>st'. each_item (\<lambda>item st. mp_obj_set_store st item) xs st = Some st' \<and> oset_ok st' \<and>
    omembers st' = omembers st \<union> canon ` set xs"
  using assms
proof (induction xs arbitrary: st)
  case (Cons x xs)
  obtain s1 where "lookup_do ADD_IF_NOT_FOUND x (oset st) = Some s1" "set_ok s1" "members s1 = insert (canon x) (omembers st)"
    using lookup_do_spec [OF Cons.prems(1), of x ADD_IF_NOT_FOUND] Cons.prems(2) by auto
  then obtain st1 where st1: "mp_obj_set_store st x = Some st1" "oset_ok st1" "omembers st1 = insert (canon x) (omembers st)"
    by (simp add: mp_obj_set_store_def)
  from Cons.IH [OF st1(2)] Cons.prems(2) st1 show ?case by auto
qed simp

lemma set_make_new_spec:
  assumes "\<And>xs. arg = Some xs \<Longrightarrow> all_ok xs"
  shows "\<exists>st. set_make_new type arg = Some st \<and> oset_ok st \<and> stype st = type \<and>
    omembers st = (case arg of None \<Rightarrow> {} | Some xs \<Rightarrow> canon ` set xs)"
proof (cases arg)
  case None
  then show ?thesis using init_ok [of 0] by (simp add: set_make_new_def new_set_empty)
next
  case (Some xs)
  then show ?thesis using store_each [of "\<lparr>stype = Type_set, oset = mp_set_init 0\<rparr>" xs] assms init_ok [of 0]
    by (auto simp: set_make_new_def new_set_empty)
qed

lemma operand_set_spec:
  "operand_ok x \<Longrightarrow> \<exists>st. operand_set x = Some st \<and> oset_ok st \<and> omembers st = operand_members x"
  using set_make_new_spec [of "Some _" Type_set] by (cases x) fastforce+

lemma set_issubset_spec:
  assumes "operand_ok a" "operand_ok b"
  shows "set_issubset_internal a b proper =
    Some (if proper then operand_members a \<subset> operand_members b else operand_members a \<subseteq> operand_members b)"
proof -
  obtain s t where st: "operand_set a = Some s" "oset_ok s" "omembers s = operand_members a"
    "operand_set b = Some t" "oset_ok t" "omembers t = operand_members b"
    using operand_set_spec [OF assms(1)] operand_set_spec [OF assms(2)] by blast
  note items = set_items_ok [OF st(2)]
  have "subset_loop (set_items (oset s) 0) (oset t) = Some (omembers s \<subseteq> omembers t)"
    using subset_loop_spec [OF st(5) items(1)] items(2) by simp
  moreover have "omembers s \<subseteq> omembers t \<Longrightarrow> s_used (oset s) = s_used (oset t) \<longleftrightarrow> omembers s = omembers t"
    using set_used_card [OF st(2)] set_used_card [OF st(5)] card_subset_eq by metis
  moreover have "omembers s = omembers t \<Longrightarrow> s_used (oset s) = s_used (oset t)"
    using set_used_card [OF st(2)] set_used_card [OF st(5)] by simp
  ultimately show ?thesis using st by (auto simp: set_issubset_internal_def)
qed

lemma set_equal_spec:
  assumes "oset_ok s" "oset_ok t"
  shows "set_equal s t = Some (omembers s = omembers t)"
proof -
  have "card (omembers s) = card (omembers t) \<Longrightarrow> omembers s \<subseteq> omembers t \<longleftrightarrow> omembers s = omembers t"
    using set_used_card [OF assms(2)] card_subset_eq by (metis order_refl)
  then show ?thesis using set_issubset_spec [of "Is_set s" "Is_set t" False] assms set_used_card [OF assms(1)] set_used_card [OF assms(2)]
    by (auto simp: set_equal_def set_issubset_def)
qed

section \<open>Properties\<close>

fun rhs_ok :: "rhs \<Rightarrow> bool" where
  "rhs_ok Rhs_lhs = True"
| "rhs_ok (Rhs_set st) = oset_ok st"
| "rhs_ok (Rhs_obj x) = key_ok x"

fun rhs_members :: "mp_obj_set \<Rightarrow> rhs \<Rightarrow> key set" where
  "rhs_members lhs Rhs_lhs = omembers lhs"
| "rhs_members lhs (Rhs_set st) = omembers st"
| "rhs_members lhs (Rhs_obj x) = {canon x}"

fun is_obj :: "rhs \<Rightarrow> bool" where
  "is_obj (Rhs_obj x) = True"
| "is_obj _ = False"

fun op_sets :: "binary_op \<Rightarrow> key set \<Rightarrow> key set \<Rightarrow> key set" where
  "op_sets Op_or A B = A \<union> B"
| "op_sets Op_inplace_or A B = A \<union> B"
| "op_sets Op_and A B = A \<inter> B"
| "op_sets Op_inplace_and A B = A \<inter> B"
| "op_sets Op_subtract A B = A - B"
| "op_sets Op_inplace_subtract A B = A - B"
| "op_sets _ A B = (A - B) \<union> (B - A)"

fun op_compare :: "binary_op \<Rightarrow> key set \<Rightarrow> key set \<Rightarrow> bool" where
  "op_compare Op_less A B = (A \<subset> B)"
| "op_compare Op_less_equal A B = (A \<subseteq> B)"
| "op_compare Op_more A B = (B \<subset> A)"
| "op_compare Op_more_equal A B = (B \<subseteq> A)"
| "op_compare _ A B = (A = B)"

text \<open>
  C19: The set operators \<open>|\<close>, \<open>&\<close>, \<open>-\<close>, \<open>^\<close> and their in-place forms compute union, intersection,
  difference and symmetric difference of what the operands stand for, keep the invariant, and
  change the left operand exactly in the in-place forms on a \<open>set\<close>; also when both operands are the
  same object, whose table then changes while it is iterated.
\<close>

theorem set_operators:
  assumes "oset_ok lhs" "rhs_ok rhs" "\<not> is_obj rhs"
    "op \<in> {Op_or, Op_xor, Op_and, Op_subtract, Op_inplace_or, Op_inplace_xor, Op_inplace_and, Op_inplace_subtract}"
  shows "\<exists>st. set_binary_op op lhs rhs =
      Some (if stype lhs = Type_set \<and> op \<in> {Op_inplace_or, Op_inplace_xor, Op_inplace_and, Op_inplace_subtract}
            then Lhs st else New_set st) \<and>
    oset_ok st \<and> omembers st = op_sets op (omembers lhs) (rhs_members lhs rhs)"
proof -
  define arg where "arg = (case rhs of Rhs_set st \<Rightarrow> Set_arg st | _ \<Rightarrow> Self)"
  have arg: "arg_ok arg" "arg_members lhs arg = rhs_members lhs rhs" "\<And>xs. arg \<noteq> Iterable xs"
    using assms(2,3) by (cases rhs; simp add: arg_def)+
  have bin: "set_binary_op Op_or lhs rhs = map_option New_set (set_union lhs arg)"
    "set_binary_op Op_xor lhs rhs = map_option New_set (set_symmetric_difference lhs arg)"
    "set_binary_op Op_and lhs rhs = map_option New_set (set_intersect lhs arg)"
    "set_binary_op Op_subtract lhs rhs = map_option New_set (set_diff lhs [arg])"
    "set_binary_op Op_inplace_or lhs rhs = (if stype lhs = Type_set then map_option Lhs (set_update lhs [arg])
       else map_option New_set (set_union lhs arg))"
    "set_binary_op Op_inplace_xor lhs rhs = (if stype lhs = Type_set then map_option Lhs (set_symmetric_difference_update lhs arg)
       else map_option New_set (set_symmetric_difference lhs arg))"
    "set_binary_op Op_inplace_and lhs rhs = map_option (if stype lhs = Type_set then Lhs else New_set)
       (set_intersect_int lhs arg (stype lhs = Type_set))"
    "set_binary_op Op_inplace_subtract lhs rhs = map_option (if stype lhs = Type_set then Lhs else New_set)
       (set_diff_int lhs [arg] (stype lhs = Type_set))"
    using assms(3) by (cases rhs; simp add: set_binary_op_def arg_def Let_def)+
  note u = set_union_spec [OF assms(1) arg(1)] set_update_int_spec [OF assms(1) arg(1)]
  note i = set_intersect_spec [OF assms(1) arg(1)]
  have d: "\<exists>st. set_diff_int lhs [arg] update = Some st \<and> oset_ok st \<and> omembers st = omembers lhs - arg_members lhs arg" for update
    using set_diff_spec [OF assms(1), of "[arg]" update] arg(1) by auto
  have x: "\<exists>st. set_symmetric_difference lhs arg = Some st \<and> oset_ok st \<and>
      omembers st = (omembers lhs - arg_members lhs arg) \<union> (arg_members lhs arg - omembers lhs)"
    "\<exists>st. set_symmetric_difference_update lhs arg = Some st \<and> oset_ok st \<and>
      omembers st = (omembers lhs - arg_members lhs arg) \<union> (arg_members lhs arg - omembers lhs)"
    using set_symmetric_difference_spec [OF assms(1) arg(1)] set_toggle_spec [OF assms(1) arg(1)] arg(3) by auto
  consider (or) "op = Op_or \<or> op = Op_inplace_or" | (xor) "op = Op_xor \<or> op = Op_inplace_xor"
    | (and_op) "op = Op_and \<or> op = Op_inplace_and" | (sub) "op = Op_subtract \<or> op = Op_inplace_subtract"
    using assms(4) by blast
  then show ?thesis
  proof cases
    case or
    with u arg(2) show ?thesis by (cases "stype lhs = Type_set") (auto simp: bin)
  next
    case xor
    with x arg(2) show ?thesis by (cases "stype lhs = Type_set") (auto simp: bin)
  next
    case and_op
    with i [of "op = Op_inplace_and \<and> stype lhs = Type_set"] arg(2) show ?thesis by (auto simp: bin set_intersect_def)
  next
    case sub
    with d [of "op = Op_inplace_subtract \<and> stype lhs = Type_set"] arg(2) show ?thesis by (auto simp: bin set_diff_def)
  qed
qed

text \<open>
  The comparisons of sets: \<open><\<close>, \<open><=\<close>, \<open>>\<close>, \<open>>=\<close> are (proper) inclusion of what the operands
  stand for, \<open>==\<close> is equality, whatever the order of insertion and the sizes of the tables.
\<close>

theorem set_comparisons:
  assumes "oset_ok lhs" "rhs_ok rhs" "\<not> is_obj rhs" "op \<in> {Op_less, Op_less_equal, Op_more, Op_more_equal, Op_equal}"
  shows "set_binary_op op lhs rhs = Some (A_bool (op_compare op (omembers lhs) (rhs_members lhs rhs)))"
proof -
  define r where "r = (case rhs of Rhs_set st \<Rightarrow> st | _ \<Rightarrow> lhs)"
  have r: "oset_ok r" "omembers r = rhs_members lhs rhs" using assms(1-3) by (cases rhs; simp add: r_def)+
  have "set_issubset_internal (Is_set lhs) (Is_set r) p = Some (if p then omembers lhs \<subset> omembers r else omembers lhs \<subseteq> omembers r)"
    "set_issubset_internal (Is_set r) (Is_set lhs) p = Some (if p then omembers r \<subset> omembers lhs else omembers r \<subseteq> omembers lhs)" for p
    using set_issubset_spec [of "Is_set lhs" "Is_set r" p] set_issubset_spec [of "Is_set r" "Is_set lhs" p] assms(1) r(1) by simp_all
  with assms(3,4) r set_equal_spec [OF assms(1) r(1)] show ?thesis
    by (cases rhs)
      (auto simp: set_binary_op_def Let_def set_issubset_def set_issubset_proper_def set_issuperset_def
        set_issuperset_proper_def r_def)
qed

text \<open>Sets to apply the properties to: \<open>{1}\<close> and \<open>{True, "a"}\<close>, made by the constructor.\<close>

lemma sample_set: "\<exists>st. set_make_new type (Some xs) = Some st \<and> oset_ok st \<and> stype st = type \<and> omembers st = canon ` set xs"
  if "all_ok xs" for xs
  using set_make_new_spec [of "Some xs" type] that by auto

theorem set_operators_witness:
  "\<exists>a b st. set_make_new Type_set (Some [Small_int 1]) = Some a \<and>
     set_make_new Type_frozenset (Some [Bool_obj True, Qstr [97]]) = Some b \<and>
     set_binary_op Op_inplace_xor a (Rhs_set b) = Some (Lhs st) \<and> omembers st = {Key_str [97]}"
proof -
  obtain a b where ab: "set_make_new Type_set (Some [Small_int 1]) = Some a" "oset_ok a" "stype a = Type_set" "omembers a = {Key_int 1}"
    "set_make_new Type_frozenset (Some [Bool_obj True, Qstr [97]]) = Some b" "oset_ok b" "omembers b = {Key_int 1, Key_str [97]}"
    using sample_set [of "[Small_int 1]" Type_set] sample_set [of "[Bool_obj True, Qstr [97]]" Type_frozenset]
    by (auto simp: key_ok_def)
  with set_operators [OF ab(2), of "Rhs_set b" Op_inplace_xor] show ?thesis by auto
qed

theorem set_comparisons_witness:
  "\<exists>a b. set_make_new Type_set (Some [Small_int 1]) = Some a \<and>
     set_make_new Type_frozenset (Some [Bool_obj True, Qstr [97]]) = Some b \<and>
     set_binary_op Op_less a (Rhs_set b) = Some (A_bool True)"
proof -
  obtain a b where ab: "set_make_new Type_set (Some [Small_int 1]) = Some a" "oset_ok a" "stype a = Type_set" "omembers a = {Key_int 1}"
    "set_make_new Type_frozenset (Some [Bool_obj True, Qstr [97]]) = Some b" "oset_ok b" "omembers b = {Key_int 1, Key_str [97]}"
    using sample_set [of "[Small_int 1]" Type_set] sample_set [of "[Bool_obj True, Qstr [97]]" Type_frozenset]
    by (auto simp: key_ok_def)
  with set_comparisons [OF ab(2), of "Rhs_set b" Op_less] show ?thesis by auto
qed

section \<open>The hash of a \<open>frozenset\<close>\<close>

definition canon_hash :: "key \<Rightarrow> 32 word" where
  "canon_hash c =
     (case c of Key_int v \<Rightarrow> small_int_word (word_of_int v) | Key_str d \<Rightarrow> the (obj_hash (Qstr d)) | Key_obj x \<Rightarrow> the (obj_hash x))"

lemma obj_hash_canon_hash: "obj_ok k \<Longrightarrow> obj_hash k \<noteq> None \<Longrightarrow> the (obj_hash k) = canon_hash (canon k)"
  by (cases k) (auto simp: canon_hash_def of_bool_def)

lemma sum_hashes_eq: "sum_hashes T h = h + sum_list (map (\<lambda>k. the (obj_hash k)) (filled T))"
  by (induction T h rule: sum_hashes.induct) (auto simp: algebra_simps)

lemma sum_hashes_members:
  assumes "set_ok s"
  shows "sum_hashes (s_table s) h = h + (\<Sum>c \<in> members s. canon_hash c)"
proof -
  note items = set_items_ok [OF assms]
  have f: "filled (s_table s) = set_items s 0" using set_items_filled [OF set_okD(1) [OF assms], of 0] by simp
  have "map (\<lambda>k. the (obj_hash k)) (set_items s 0) = map canon_hash (map canon (set_items s 0))"
    using items(1) obj_hash_canon_hash by (auto simp: key_ok_def)
  then have "sum_list (map (\<lambda>k. the (obj_hash k)) (set_items s 0)) = sum canon_hash (canon ` set (set_items s 0))"
    using items(3) by (metis image_set sum_list_distinct_conv_sum_set)
  then show ?thesis using items(2) by (simp add: sum_hashes_eq f)
qed

text \<open>
  Frozen sets that compare equal have the same hash: it does not depend on the order of the
  elements in the table, on the table's size or on which of several equal objects was stored.
\<close>

theorem frozenset_hash:
  assumes "oset_ok a" "oset_ok b" "stype a = Type_frozenset" "stype b = Type_frozenset"
    "set_binary_op Op_equal a (Rhs_set b) = Some (A_bool True)"
  shows "set_unary_op type_addr MP_UNARY_OP_HASH a = set_unary_op type_addr MP_UNARY_OP_HASH b"
proof -
  have "omembers a = omembers b"
    using assms(5) set_equal_spec [OF assms(1,2)] by (simp add: set_binary_op_def Let_def)
  then show ?thesis using sum_hashes_members [OF assms(1)] sum_hashes_members [OF assms(2)] assms(3,4)
      set_okD(1) [OF assms(1)] set_okD(1) [OF assms(2)] by (simp add: set_unary_op_def)
qed

theorem frozenset_hash_witness:
  "\<exists>a b. set_make_new Type_frozenset (Some [Small_int 1, Qstr [97]]) = Some a \<and>
     set_make_new Type_frozenset (Some [Str_obj 3 0 [97], Bool_obj True]) = Some b \<and>
     set_unary_op 64 MP_UNARY_OP_HASH a = set_unary_op 64 MP_UNARY_OP_HASH b"
proof -
  obtain a b where ab: "set_make_new Type_frozenset (Some [Small_int 1, Qstr [97]]) = Some a" "oset_ok a"
      "stype a = Type_frozenset" "omembers a = {Key_int 1, Key_str [97]}"
    "set_make_new Type_frozenset (Some [Str_obj 3 0 [97], Bool_obj True]) = Some b" "oset_ok b"
      "stype b = Type_frozenset" "omembers b = {Key_str [97], Key_int 1}"
    using sample_set [of "[Small_int 1, Qstr [97]]" Type_frozenset] sample_set [of "[Str_obj 3 0 [97], Bool_obj True]" Type_frozenset]
    by (auto simp: key_ok_def)
  have "set_binary_op Op_equal a (Rhs_set b) = Some (A_bool True)"
    using set_equal_spec [OF ab(2,6)] ab(4,8) by (auto simp: set_binary_op_def Let_def)
  from frozenset_hash [OF ab(2,6,3,7) this, of 64] ab show ?thesis by auto
qed

section \<open>Methods that raise\<close>

text \<open>
  \<open>pop\<close> gives an element of the set and removes exactly it, and \<open>KeyError\<close> from an empty set;
  \<open>remove\<close> removes the element and gives \<open>KeyError\<close>, with the set unchanged, when it is not there.
\<close>

theorem set_pop_remove:
  assumes "oset_ok self" "key_ok item"
  shows "((omembers self = {} \<and> set_pop self = (Inl (), self)) \<or>
      (\<exists>k st. set_pop self = (Inr k, st) \<and> canon k \<in> omembers self \<and> oset_ok st \<and>
         omembers st = omembers self - {canon k})) \<and>
    (if canon item \<in> omembers self
     then \<exists>st. set_remove self item = Some (Inr (), st) \<and> oset_ok st \<and> omembers st = omembers self - {canon item}
     else set_remove self item = Some (Inl item, self))"
proof
  show "(omembers self = {} \<and> set_pop self = (Inl (), self)) \<or>
      (\<exists>k st. set_pop self = (Inr k, st) \<and> canon k \<in> omembers self \<and> oset_ok st \<and>
         omembers st = omembers self - {canon k})"
    using set_remove_first_spec [OF assms(1)] by (auto simp: set_pop_def)
  obtain r s' where "set_lookup (oset self) item REMOVE_IF_FOUND = Some (r, s')"
    "set_lookup_result (oset self) item REMOVE_IF_FOUND r s'"
    using set_lookup_spec [OF assms, of 0 REMOVE_IF_FOUND] unfolding numeral_2_eq_2 by blast
  then show "if canon item \<in> omembers self
     then \<exists>st. set_remove self item = Some (Inr (), st) \<and> oset_ok st \<and> omembers st = omembers self - {canon item}
     else set_remove self item = Some (Inl item, self)"
    by (auto simp: set_remove_def set_lookup_result_def split: if_splits)
qed

theorem set_pop_remove_witness:
  "\<exists>a st. set_make_new Type_set (Some [Small_int 1]) = Some a \<and> set_remove a (Bool_obj True) = Some (Inr (), st) \<and>
     omembers st = {}"
proof -
  obtain a where a: "set_make_new Type_set (Some [Small_int 1]) = Some a" "oset_ok a" "omembers a = {Key_int 1}"
    using sample_set [of "[Small_int 1]" Type_set] by (auto simp: key_ok_def)
  with set_pop_remove [OF a(2), of "Bool_obj True"] show ?thesis by (auto simp: key_ok_def)
qed

text \<open>
  The union of a \<open>frozenset\<close> with another set is a \<open>frozenset\<close>, but its intersection with one is a
  \<open>set\<close>: it starts from \<open>mp_obj_new_set\<close> and never takes the type of the operand.
\<close>

theorem frozenset_intersection_type:
  "set_intersect \<lparr>stype = Type_frozenset, oset = mp_set_init 0\<rparr> (Set_arg \<lparr>stype = Type_frozenset, oset = mp_set_init 0\<rparr>) =
     Some \<lparr>stype = Type_set, oset = mp_set_init 0\<rparr> \<and>
   set_union \<lparr>stype = Type_frozenset, oset = mp_set_init 0\<rparr> (Set_arg \<lparr>stype = Type_frozenset, oset = mp_set_init 0\<rparr>) =
     Some \<lparr>stype = Type_frozenset, oset = mp_set_init 0\<rparr>"
  by (simp add: set_intersect_def set_intersect_int_def new_set_empty set_items.simps set_it_iternext_def mp_set_init_def
      set_union_def set_update_int_def each_arg_def set_copy_def)

end
