(* ===== verification/Py_Gc.thy ===== *)
theory Py_Gc
  imports Nespy_Prelude
begin

unbundle bit_operations_syntax

text \<open>
  The garbage collector and allocator of MicroPython, \<open>py/gc.c\<close>. The heap is a pool of blocks of
  four words; a table with two bits per block says whether a block is free, the head of a chain,
  in its tail, or a marked head. The memory from \<open>gc_alloc_table_start\<close> on is the list \<open>gc_table\<close> of
  bytes: first the allocation table, then the finaliser table with one bit per block. The pool is
  the list \<open>gc_pool\<close> of its words. The configuration has words of four bytes,
  \<open>MICROPY_ENABLE_FINALISER\<close>, \<open>MICROPY_GC_ALLOC_THRESHOLD\<close>, \<open>MICROPY_GC_CONSERVATIVE_CLEAR\<close> and
  \<open>MICROPY_PY_GC_COLLECT_RETVAL\<close>. The root pointers of a collection (the root section of the state,
  registers and the stack) are its argument. A loop is \<open>None\<close> when it does not return; \<open>None\<close> of
  \<open>gc_free\<close> and \<open>gc_realloc\<close> is also a failed assertion. A call of a \<open>__del__\<close> method is the
  parameter \<open>del\<close>, what the call for the object at a block makes of the words of the heap: the
  collector is locked while it runs, so it neither allocates nor frees. Sizes in bytes and the
  counters of allocated blocks are \<open>size_t\<close>, words of 32 bits.
\<close>

type_synonym byte = "8 word"

definition BYTES_PER_BLOCK :: nat where "BYTES_PER_BLOCK = 16"

definition WORDS_PER_BLOCK :: nat where "WORDS_PER_BLOCK = 4"

definition BLOCKS_PER_ATB :: nat where "BLOCKS_PER_ATB = 4"

definition BLOCKS_PER_FTB :: nat where "BLOCKS_PER_FTB = 8"

definition AT_FREE :: byte where "AT_FREE = 0"

definition AT_HEAD :: byte where "AT_HEAD = 1"

definition AT_TAIL :: byte where "AT_TAIL = 2"

definition AT_MARK :: byte where "AT_MARK = 3"

definition MICROPY_ALLOC_GC_STACK_SIZE :: nat where "MICROPY_ALLOC_GC_STACK_SIZE = 64"

record gc =
  gc_table :: "byte list"
  gc_alloc_table_byte_len :: nat
  gc_pool :: "ptr list"
  gc_pool_start :: nat
  gc_pool_end :: nat
  gc_stack_overflow :: bool
  gc_lock_depth :: "16 word"
  gc_auto_collect_enabled :: bool
  gc_alloc_amount :: "32 word"
  gc_alloc_threshold :: "32 word"
  gc_last_free_atb_index :: nat
  gc_collected :: nat

section \<open>The tables\<close>

definition BLOCK_SHIFT :: "nat \<Rightarrow> nat" where
  "BLOCK_SHIFT block = 2 * (block AND (BLOCKS_PER_ATB - 1))"

definition ATB_GET_KIND :: "gc \<Rightarrow> nat \<Rightarrow> byte" where
  "ATB_GET_KIND g block = drop_bit (BLOCK_SHIFT block) (gc_table g ! (block div BLOCKS_PER_ATB)) AND 3"

definition atb_update :: "(byte \<Rightarrow> byte) \<Rightarrow> nat \<Rightarrow> gc \<Rightarrow> gc" where
  "atb_update f block g =
     g\<lparr>gc_table := (gc_table g)[block div BLOCKS_PER_ATB := f (gc_table g ! (block div BLOCKS_PER_ATB))]\<rparr>"

definition ATB_ANY_TO_FREE :: "nat \<Rightarrow> gc \<Rightarrow> gc" where
  "ATB_ANY_TO_FREE block = atb_update (\<lambda>a. a AND NOT (push_bit (BLOCK_SHIFT block) AT_MARK)) block"

definition ATB_FREE_TO_HEAD :: "nat \<Rightarrow> gc \<Rightarrow> gc" where
  "ATB_FREE_TO_HEAD block = atb_update (\<lambda>a. a OR push_bit (BLOCK_SHIFT block) AT_HEAD) block"

definition ATB_FREE_TO_TAIL :: "nat \<Rightarrow> gc \<Rightarrow> gc" where
  "ATB_FREE_TO_TAIL block = atb_update (\<lambda>a. a OR push_bit (BLOCK_SHIFT block) AT_TAIL) block"

definition ATB_HEAD_TO_MARK :: "nat \<Rightarrow> gc \<Rightarrow> gc" where
  "ATB_HEAD_TO_MARK block = atb_update (\<lambda>a. a OR push_bit (BLOCK_SHIFT block) AT_MARK) block"

definition ATB_MARK_TO_HEAD :: "nat \<Rightarrow> gc \<Rightarrow> gc" where
  "ATB_MARK_TO_HEAD block = atb_update (\<lambda>a. a AND NOT (push_bit (BLOCK_SHIFT block) AT_TAIL)) block"

definition ftb_update :: "(byte \<Rightarrow> byte) \<Rightarrow> nat \<Rightarrow> gc \<Rightarrow> gc" where
  "ftb_update f block g =
     (let i = gc_alloc_table_byte_len g + block div BLOCKS_PER_FTB
      in g\<lparr>gc_table := (gc_table g)[i := f (gc_table g ! i)]\<rparr>)"

definition FTB_GET :: "gc \<Rightarrow> nat \<Rightarrow> bool" where
  "FTB_GET g block \<longleftrightarrow>
     drop_bit (block AND 7) (gc_table g ! (gc_alloc_table_byte_len g + block div BLOCKS_PER_FTB)) AND 1 \<noteq> 0"

definition FTB_SET :: "nat \<Rightarrow> gc \<Rightarrow> gc" where
  "FTB_SET block = ftb_update (\<lambda>a. a OR push_bit (block AND 7) 1) block"

definition FTB_CLEAR :: "nat \<Rightarrow> gc \<Rightarrow> gc" where
  "FTB_CLEAR block = ftb_update (\<lambda>a. a AND NOT (push_bit (block AND 7) 1)) block"

definition n_blocks_total :: "gc \<Rightarrow> nat" where
  "n_blocks_total g = gc_alloc_table_byte_len g * BLOCKS_PER_ATB"

definition BLOCK_FROM_PTR :: "gc \<Rightarrow> ptr \<Rightarrow> nat" where
  "BLOCK_FROM_PTR g p = (p - gc_pool_start g) div BYTES_PER_BLOCK"

definition PTR_FROM_BLOCK :: "gc \<Rightarrow> nat \<Rightarrow> ptr" where
  "PTR_FROM_BLOCK g block = block * BYTES_PER_BLOCK + gc_pool_start g"

definition VERIFY_PTR :: "gc \<Rightarrow> ptr \<Rightarrow> bool" where
  "VERIFY_PTR g p \<longleftrightarrow> p AND (BYTES_PER_BLOCK - 1) = 0 \<and> gc_pool_start g \<le> p \<and> p < gc_pool_end g"

section \<open>Initialisation\<close>

text \<open>\<open>tables\<close> and \<open>pool\<close> are what the memory held before.\<close>

definition gc_init :: "nat \<Rightarrow> nat \<Rightarrow> byte list \<Rightarrow> ptr list \<Rightarrow> gc option" where
  "gc_init start end0 tables pool =
     (let end1 = end0 - end0 mod BYTES_PER_BLOCK;
          total_byte_len = end1 - start;
          alloc_len = total_byte_len * 8 div (8 + 8 * BLOCKS_PER_ATB div BLOCKS_PER_FTB + 8 * BLOCKS_PER_ATB * BYTES_PER_BLOCK);
          finaliser_len = (alloc_len * BLOCKS_PER_ATB + BLOCKS_PER_FTB - 1) div BLOCKS_PER_FTB;
          pool_block_len = alloc_len * BLOCKS_PER_ATB;
          pool_start = end1 - pool_block_len * BYTES_PER_BLOCK
      in if \<not> (pool_start \<ge> start + alloc_len + finaliser_len) then None
         else Some \<lparr>gc_table = replicate (alloc_len + finaliser_len) 0 @ drop (alloc_len + finaliser_len) tables,
                    gc_alloc_table_byte_len = alloc_len, gc_pool = pool, gc_pool_start = pool_start, gc_pool_end = end1,
                    gc_stack_overflow = False, gc_lock_depth = 0, gc_auto_collect_enabled = True,
                    gc_alloc_amount = 0, gc_alloc_threshold = - 1, gc_last_free_atb_index = 0,
                    gc_collected = 0\<rparr>)"

definition gc_lock :: "gc \<Rightarrow> gc" where
  "gc_lock g = g\<lparr>gc_lock_depth := gc_lock_depth g + 1\<rparr>"

definition gc_unlock :: "gc \<Rightarrow> gc" where
  "gc_unlock g = g\<lparr>gc_lock_depth := gc_lock_depth g - 1\<rparr>"

definition gc_is_locked :: "gc \<Rightarrow> bool" where
  "gc_is_locked g \<longleftrightarrow> gc_lock_depth g \<noteq> 0"

section \<open>Marking\<close>

text \<open>The number of blocks of the chain that starts at \<open>block\<close>, counted from \<open>n\<close> on.\<close>

partial_function (option) chain_loop :: "gc \<Rightarrow> nat \<Rightarrow> nat \<Rightarrow> nat option" where
  "chain_loop g block n = (if ATB_GET_KIND g (block + n) = AT_TAIL then chain_loop g block (n + 1) else Some n)"

definition chain_words :: "gc \<Rightarrow> nat \<Rightarrow> nat \<Rightarrow> ptr list" where
  "chain_words g block n = take (n * WORDS_PER_BLOCK) (drop (block * WORDS_PER_BLOCK) (gc_pool g))"

text \<open>The words of a chain; the stack has its top first.\<close>

fun mark_children :: "ptr list \<Rightarrow> nat list \<Rightarrow> gc \<Rightarrow> nat list \<times> gc" where
  "mark_children [] stack g = (stack, g)"
| "mark_children (p # ptrs) stack g =
     (let childblock = BLOCK_FROM_PTR g p
      in if VERIFY_PTR g p \<and> ATB_GET_KIND g childblock = AT_HEAD then
           let g1 = ATB_HEAD_TO_MARK childblock g
           in if length stack < MICROPY_ALLOC_GC_STACK_SIZE then mark_children ptrs (childblock # stack) g1
              else mark_children ptrs stack (g1\<lparr>gc_stack_overflow := True\<rparr>)
         else mark_children ptrs stack g)"

partial_function (option) mark_loop :: "nat \<Rightarrow> nat list \<Rightarrow> gc \<Rightarrow> gc option" where
  "mark_loop block stack g =
     Option.bind (chain_loop g block 1) (\<lambda>n_blocks.
       case mark_children (chain_words g block n_blocks) stack g of
         ([], g1) \<Rightarrow> Some g1
       | (block1 # stack1, g1) \<Rightarrow> mark_loop block1 stack1 g1)"

definition gc_mark_subtree :: "nat \<Rightarrow> gc \<Rightarrow> gc option" where
  "gc_mark_subtree block g = mark_loop block [] g"

fun remark_loop :: "nat list \<Rightarrow> gc \<Rightarrow> gc option" where
  "remark_loop [] g = Some g"
| "remark_loop (block # blocks) g =
     Option.bind (if ATB_GET_KIND g block = AT_MARK then gc_mark_subtree block g else Some g) (remark_loop blocks)"

partial_function (option) gc_deal_with_stack_overflow :: "gc \<Rightarrow> gc option" where
  "gc_deal_with_stack_overflow g =
     (if gc_stack_overflow g
      then Option.bind (remark_loop [0..<n_blocks_total g] (g\<lparr>gc_stack_overflow := False\<rparr>)) gc_deal_with_stack_overflow
      else Some g)"

fun gc_collect_root :: "ptr list \<Rightarrow> gc \<Rightarrow> gc option" where
  "gc_collect_root [] g = Some g"
| "gc_collect_root (p # ptrs) g =
     (let block = BLOCK_FROM_PTR g p
      in if VERIFY_PTR g p \<and> ATB_GET_KIND g block = AT_HEAD
         then Option.bind (gc_mark_subtree block (ATB_HEAD_TO_MARK block g)) (gc_collect_root ptrs)
         else gc_collect_root ptrs g)"

section \<open>Sweeping\<close>

definition call_del :: "(nat \<Rightarrow> ptr list \<Rightarrow> ptr list) \<Rightarrow> nat \<Rightarrow> gc \<Rightarrow> gc" where
  "call_del del block g =
     (if gc_pool g ! (block * WORDS_PER_BLOCK) \<noteq> NULL then g\<lparr>gc_pool := del block (gc_pool g)\<rparr> else g)"

fun sweep_loop :: "(nat \<Rightarrow> ptr list \<Rightarrow> ptr list) \<Rightarrow> nat list \<Rightarrow> bool \<Rightarrow> gc \<Rightarrow> gc" where
  "sweep_loop del [] free_tail g = g"
| "sweep_loop del (block # blocks) free_tail g =
     (let kind = ATB_GET_KIND g block
      in if kind = AT_HEAD then
           let g1 = (if FTB_GET g block then FTB_CLEAR block (call_del del block g) else g);
               g2 = g1\<lparr>gc_collected := gc_collected g1 + 1\<rparr>
           in sweep_loop del blocks True (ATB_ANY_TO_FREE block g2)
         else if kind = AT_TAIL then sweep_loop del blocks free_tail (if free_tail then ATB_ANY_TO_FREE block g else g)
         else if kind = AT_MARK then sweep_loop del blocks False (ATB_MARK_TO_HEAD block g)
         else sweep_loop del blocks free_tail g)"

definition gc_sweep :: "(nat \<Rightarrow> ptr list \<Rightarrow> ptr list) \<Rightarrow> gc \<Rightarrow> gc" where
  "gc_sweep del g = sweep_loop del [0..<n_blocks_total g] False (g\<lparr>gc_collected := 0\<rparr>)"

definition gc_collect_start :: "ptr list \<Rightarrow> gc \<Rightarrow> gc option" where
  "gc_collect_start roots g =
     gc_collect_root roots (g\<lparr>gc_lock_depth := gc_lock_depth g + 1, gc_alloc_amount := 0, gc_stack_overflow := False\<rparr>)"

definition gc_collect_end :: "(nat \<Rightarrow> ptr list \<Rightarrow> ptr list) \<Rightarrow> gc \<Rightarrow> gc option" where
  "gc_collect_end del g =
     map_option (\<lambda>g1. let g2 = gc_sweep del g1
                      in g2\<lparr>gc_last_free_atb_index := 0, gc_lock_depth := gc_lock_depth g2 - 1\<rparr>)
       (gc_deal_with_stack_overflow g)"

text \<open>A collection: the root section of the state, then the registers and the stack.\<close>

definition gc_collect :: "(nat \<Rightarrow> ptr list \<Rightarrow> ptr list) \<Rightarrow> ptr list \<Rightarrow> ptr list \<Rightarrow> gc \<Rightarrow> gc option" where
  "gc_collect del roots regs_and_stack g =
     Option.bind (gc_collect_start roots g) (\<lambda>g1.
       Option.bind (gc_collect_root regs_and_stack g1) (gc_collect_end del))"

definition gc_sweep_all :: "(nat \<Rightarrow> ptr list \<Rightarrow> ptr list) \<Rightarrow> gc \<Rightarrow> gc option" where
  "gc_sweep_all del g = gc_collect_end del (g\<lparr>gc_lock_depth := gc_lock_depth g + 1, gc_stack_overflow := False\<rparr>)"

section \<open>Statistics\<close>

record gc_info_t =
  info_total :: nat
  info_used :: nat
  info_free :: nat
  info_max_free :: nat
  info_num_1block :: nat
  info_num_2block :: nat
  info_max_block :: nat

text \<open>One block: counting it, then what is done at the end of a chain or of a run of free blocks.\<close>

definition info_count :: "byte \<Rightarrow> nat \<Rightarrow> nat \<Rightarrow> gc_info_t \<Rightarrow> nat \<times> nat \<times> gc_info_t" where
  "info_count kind len len_free info =
     (if kind = AT_FREE then (0, len_free + 1, info\<lparr>info_free := info_free info + 1\<rparr>)
      else if kind = AT_HEAD then (1, len_free, info\<lparr>info_used := info_used info + 1\<rparr>)
      else if kind = AT_TAIL then (len + 1, len_free, info\<lparr>info_used := info_used info + 1\<rparr>)
      else (len, len_free, info))"

definition info_boundary :: "bool \<Rightarrow> byte \<Rightarrow> nat \<Rightarrow> nat \<Rightarrow> gc_info_t \<Rightarrow> nat \<times> gc_info_t" where
  "info_boundary finish kind len len_free info =
     (if finish \<or> kind = AT_FREE \<or> kind = AT_HEAD then
        let info1 = (if len = 1 then info\<lparr>info_num_1block := info_num_1block info + 1\<rparr>
                     else if len = 2 then info\<lparr>info_num_2block := info_num_2block info + 1\<rparr> else info);
            info2 = (if len > info_max_block info1 then info1\<lparr>info_max_block := len\<rparr> else info1)
        in if finish \<or> kind = AT_HEAD
           then (0, if len_free > info_max_free info2 then info2\<lparr>info_max_free := len_free\<rparr> else info2)
           else (len_free, info2)
      else (len_free, info))"

partial_function (option) info_loop :: "gc \<Rightarrow> nat \<Rightarrow> nat \<Rightarrow> nat \<Rightarrow> gc_info_t \<Rightarrow> gc_info_t option" where
  "info_loop g block len len_free info =
     (let kind = ATB_GET_KIND g block;
          (len1, len_free1, info1) = info_count kind len len_free info;
          finish = (block + 1 = n_blocks_total g);
          kind1 = (if finish then kind else ATB_GET_KIND g (block + 1));
          (len_free2, info2) = info_boundary finish kind1 len1 len_free1 info1
      in if finish then Some info2 else info_loop g (block + 1) len1 len_free2 info2)"

definition gc_info :: "gc \<Rightarrow> gc_info_t option" where
  "gc_info g =
     map_option (\<lambda>info. info\<lparr>info_used := info_used info * BYTES_PER_BLOCK, info_free := info_free info * BYTES_PER_BLOCK\<rparr>)
       (info_loop g 0 0 0
          \<lparr>info_total = gc_pool_end g - gc_pool_start g, info_used = 0, info_free = 0, info_max_free = 0,
           info_num_1block = 0, info_num_2block = 0, info_max_block = 0\<rparr>)"

section \<open>Allocation\<close>

text \<open>\<open>ATB_0_IS_FREE\<close> to \<open>ATB_3_IS_FREE\<close>\<close>

definition ATB_IS_FREE :: "nat \<Rightarrow> byte \<Rightarrow> bool" where
  "ATB_IS_FREE j a \<longleftrightarrow> a AND push_bit (2 * j) 3 = 0"

text \<open>The tests of one byte: the block a long enough run ends at with its length, or the run so far.\<close>

fun find_in_byte :: "byte \<Rightarrow> nat list \<Rightarrow> nat \<Rightarrow> nat \<Rightarrow> nat \<Rightarrow> (nat \<times> nat) + nat" where
  "find_in_byte a [] i n_blocks n_free = Inr n_free"
| "find_in_byte a (j # js) i n_blocks n_free =
     (if ATB_IS_FREE j a then
        (if n_free + 1 \<ge> n_blocks then Inl (i * BLOCKS_PER_ATB + j, n_free + 1)
         else find_in_byte a js i n_blocks (n_free + 1))
      else find_in_byte a js i n_blocks 0)"

fun find_run :: "byte list \<Rightarrow> nat \<Rightarrow> nat \<Rightarrow> nat \<Rightarrow> (nat \<times> nat) option" where
  "find_run [] i n_blocks n_free = None"
| "find_run (a # bytes) i n_blocks n_free =
     (case find_in_byte a [0, 1, 2, 3] i n_blocks n_free of
        Inl found \<Rightarrow> Some found
      | Inr n_free1 \<Rightarrow> find_run bytes (i + 1) n_blocks n_free1)"

definition find_blocks :: "nat \<Rightarrow> gc \<Rightarrow> (nat \<times> nat) option" where
  "find_blocks n_blocks g =
     find_run (drop (gc_last_free_atb_index g) (take (gc_alloc_table_byte_len g) (gc_table g)))
       (gc_last_free_atb_index g) n_blocks 0"

text \<open>The search, with a collection in between when it fails and none has been made.\<close>

definition find_or_collect ::
    "(nat \<Rightarrow> ptr list \<Rightarrow> ptr list) \<Rightarrow> bool \<Rightarrow> ptr list \<Rightarrow> ptr list \<Rightarrow> nat \<Rightarrow> gc \<Rightarrow> ((nat \<times> nat) option \<times> gc) option" where
  "find_or_collect del collected roots stack n_blocks g =
     (case find_blocks n_blocks g of
        Some found \<Rightarrow> Some (Some found, g)
      | None \<Rightarrow> if collected then Some (None, g)
                else map_option (\<lambda>g1. (find_blocks n_blocks g1, g1)) (gc_collect del roots stack g))"

fun tails_loop :: "nat list \<Rightarrow> gc \<Rightarrow> gc" where
  "tails_loop [] g = g"
| "tails_loop (bl # bls) g = tails_loop bls (ATB_FREE_TO_TAIL bl g)"

definition clear_words :: "nat \<Rightarrow> nat \<Rightarrow> gc \<Rightarrow> gc" where
  "clear_words w n g = g\<lparr>gc_pool := take w (gc_pool g) @ replicate n 0 @ drop (w + n) (gc_pool g)\<rparr>"

definition take_blocks :: "nat \<Rightarrow> nat \<times> nat \<Rightarrow> bool \<Rightarrow> gc \<Rightarrow> ptr \<times> gc" where
  "take_blocks n_blocks found has_finaliser g =
     (let (i, n_free) = found;
          end_block = i;
          start_block = i + 1 - n_free;
          g1 = (if n_free = 1 then g\<lparr>gc_last_free_atb_index := (i + 1) div BLOCKS_PER_ATB\<rparr> else g);
          g2 = tails_loop [start_block + 1..<end_block + 1] (ATB_FREE_TO_HEAD start_block g1);
          ret_ptr = gc_pool_start g + start_block * BYTES_PER_BLOCK;
          g3 = g2\<lparr>gc_alloc_amount := gc_alloc_amount g2 + of_nat n_blocks\<rparr>;
          g4 = clear_words (start_block * WORDS_PER_BLOCK) ((end_block - start_block + 1) * WORDS_PER_BLOCK) g3
      in (ret_ptr, if has_finaliser then FTB_SET start_block (clear_words (start_block * WORDS_PER_BLOCK) 1 g4) else g4))"

definition gc_alloc ::
    "(nat \<Rightarrow> ptr list \<Rightarrow> ptr list) \<Rightarrow> 32 word \<Rightarrow> bool \<Rightarrow> ptr list \<Rightarrow> ptr list \<Rightarrow> gc \<Rightarrow> (ptr \<times> gc) option" where
  "gc_alloc del n_bytes has_finaliser roots stack g =
     (let n_blocks = unat ((n_bytes + 15) AND NOT 15) div BYTES_PER_BLOCK
      in if n_blocks = 0 then Some (NULL, g)
         else if gc_lock_depth g > 0 then Some (NULL, g)
         else
           let due = gc_auto_collect_enabled g \<and> gc_alloc_amount g \<ge> gc_alloc_threshold g
           in Option.bind (if due then gc_collect del roots stack g else Some g) (\<lambda>g1.
                map_option (\<lambda>(found, g2).
                    case found of None \<Rightarrow> (NULL, g2) | Some f \<Rightarrow> take_blocks n_blocks f has_finaliser g2)
                  (find_or_collect del (due \<or> \<not> gc_auto_collect_enabled g) roots stack n_blocks g1)))"

section \<open>Freeing and resizing\<close>

partial_function (option) free_loop :: "nat \<Rightarrow> gc \<Rightarrow> gc option" where
  "free_loop block g =
     (let g1 = ATB_ANY_TO_FREE block g
      in if ATB_GET_KIND g1 (block + 1) = AT_TAIL then free_loop (block + 1) g1 else Some g1)"

definition gc_free :: "ptr \<Rightarrow> gc \<Rightarrow> gc option" where
  "gc_free p g =
     (if gc_lock_depth g > 0 then Some g
      else if p = NULL then Some g
      else if \<not> VERIFY_PTR g p then None
      else
        let block = BLOCK_FROM_PTR g p
        in if ATB_GET_KIND g block \<noteq> AT_HEAD then None
           else
             let g1 = FTB_CLEAR block g;
                 g2 = (if block div BLOCKS_PER_ATB < gc_last_free_atb_index g1
                       then g1\<lparr>gc_last_free_atb_index := block div BLOCKS_PER_ATB\<rparr> else g1)
             in free_loop block g2)"

definition gc_nbytes :: "ptr \<Rightarrow> gc \<Rightarrow> nat option" where
  "gc_nbytes p g =
     (if VERIFY_PTR g p \<and> ATB_GET_KIND g (BLOCK_FROM_PTR g p) = AT_HEAD
      then map_option (\<lambda>n. n * BYTES_PER_BLOCK) (chain_loop g (BLOCK_FROM_PTR g p) 1)
      else Some 0)"

text \<open>The blocks of the chain and the free blocks after it, as far as they are needed.\<close>

fun count_loop :: "gc \<Rightarrow> nat \<Rightarrow> nat list \<Rightarrow> nat \<Rightarrow> nat \<Rightarrow> nat \<times> nat" where
  "count_loop g new_blocks [] n_blocks n_free = (n_blocks, n_free)"
| "count_loop g new_blocks (bl # bls) n_blocks n_free =
     (if ATB_GET_KIND g bl = AT_TAIL then count_loop g new_blocks bls (n_blocks + 1) n_free
      else if ATB_GET_KIND g bl = AT_FREE then
        (if n_blocks + (n_free + 1) \<ge> new_blocks then (n_blocks, n_free + 1)
         else count_loop g new_blocks bls n_blocks (n_free + 1))
      else (n_blocks, n_free))"

fun shrink_loop :: "nat list \<Rightarrow> gc \<Rightarrow> gc" where
  "shrink_loop [] g = g"
| "shrink_loop (bl # bls) g = shrink_loop bls (ATB_ANY_TO_FREE bl g)"

definition copy_words :: "nat \<Rightarrow> nat \<Rightarrow> nat \<Rightarrow> gc \<Rightarrow> gc" where
  "copy_words to from n g =
     g\<lparr>gc_pool := take to (gc_pool g) @ take n (drop from (gc_pool g)) @ drop (to + n) (gc_pool g)\<rparr>"

text \<open>\<open>None\<close>: the assertion that the blocks are free fails.\<close>

fun extend_loop :: "nat list \<Rightarrow> gc \<Rightarrow> gc option" where
  "extend_loop [] g = Some g"
| "extend_loop (bl # bls) g = (if ATB_GET_KIND g bl = AT_FREE then extend_loop bls (ATB_FREE_TO_TAIL bl g) else None)"

definition gc_realloc ::
    "(nat \<Rightarrow> ptr list \<Rightarrow> ptr list) \<Rightarrow> ptr \<Rightarrow> 32 word \<Rightarrow> bool \<Rightarrow> ptr list \<Rightarrow> ptr list \<Rightarrow> gc \<Rightarrow> (ptr \<times> gc) option" where
  "gc_realloc del ptr_in n_bytes allow_move roots stack g =
     (if ptr_in = NULL then gc_alloc del n_bytes False roots stack g
      else if n_bytes = 0 then map_option (Pair NULL) (gc_free ptr_in g)
      else if gc_lock_depth g > 0 then Some (NULL, g)
      else if \<not> VERIFY_PTR g ptr_in then None
      else
        let block = BLOCK_FROM_PTR g ptr_in
        in if ATB_GET_KIND g block \<noteq> AT_HEAD then None
           else
             let new_blocks = unat (n_bytes + 15) div BYTES_PER_BLOCK;
                 (n_blocks, n_free) = count_loop g new_blocks [block + 1..<n_blocks_total g] 1 0
             in if new_blocks = n_blocks then Some (ptr_in, g)
                else if new_blocks < n_blocks then
                  let g1 = shrink_loop [block + new_blocks..<block + n_blocks] g;
                      i = (block + new_blocks) div BLOCKS_PER_ATB
                  in Some (ptr_in, if i < gc_last_free_atb_index g1 then g1\<lparr>gc_last_free_atb_index := i\<rparr> else g1)
                else if new_blocks \<le> n_blocks + n_free then
                  map_option (\<lambda>g1. (ptr_in, clear_words ((block + n_blocks) * WORDS_PER_BLOCK)
                                              ((new_blocks - n_blocks) * WORDS_PER_BLOCK) g1))
                    (extend_loop [block + n_blocks..<block + new_blocks] g)
                else if \<not> allow_move then Some (NULL, g)
                else
                  Option.bind (gc_alloc del n_bytes (FTB_GET g block) roots stack g) (\<lambda>(ptr_out, g1).
                    if ptr_out = NULL then Some (NULL, g1)
                    else
                      let g2 = copy_words (BLOCK_FROM_PTR g1 ptr_out * WORDS_PER_BLOCK) (block * WORDS_PER_BLOCK)
                                 (n_blocks * WORDS_PER_BLOCK) g1
                      in map_option (Pair ptr_out) (gc_free ptr_in g2)))"

end
