(* ===== verification/Py_Gc_Table.thy ===== *)
theory Py_Gc_Table
  imports Py_Gc
begin

unbundle bit_operations_syntax

text \<open>
  The two-bit fields of the allocation table: what the macros of \<open>py/gc.c\<close> that change a block do
  to the kinds of all blocks, so that the proofs about the collector can speak of kinds only.
\<close>

lemmas block_consts = BYTES_PER_BLOCK_def WORDS_PER_BLOCK_def BLOCKS_PER_ATB_def BLOCKS_PER_FTB_def
lemmas kind_consts = AT_FREE_def AT_HEAD_def AT_TAIL_def AT_MARK_def

lemma kinds_distinct [simp]:
  "AT_FREE \<noteq> AT_HEAD" "AT_FREE \<noteq> AT_TAIL" "AT_FREE \<noteq> AT_MARK" "AT_HEAD \<noteq> AT_TAIL" "AT_HEAD \<noteq> AT_MARK" "AT_TAIL \<noteq> AT_MARK"
  "AT_HEAD \<noteq> AT_FREE" "AT_TAIL \<noteq> AT_FREE" "AT_MARK \<noteq> AT_FREE" "AT_TAIL \<noteq> AT_HEAD" "AT_MARK \<noteq> AT_HEAD" "AT_MARK \<noteq> AT_TAIL"
  by (simp_all add: kind_consts)

lemma block_shift: "BLOCK_SHIFT b = 2 * (b mod 4)"
proof -
  have "b AND 3 = b mod 4" using take_bit_eq_mask [of 2 b] by (simp add: take_bit_eq_mod mask_eq_exp_minus_1)
  then show ?thesis by (simp add: BLOCK_SHIFT_def BLOCKS_PER_ATB_def)
qed

section \<open>Fields of a byte\<close>

lemma three_mask: "(3 :: byte) = mask 2"
  by (simp add: mask_eq_exp_minus_1)

lemma field_or:
  fixes w v :: byte
  assumes "s \<le> 6"
  shows "drop_bit s (w OR push_bit s v) AND 3 = (drop_bit s w AND 3) OR (v AND 3)"
  using assms by (intro bit_eqI) (auto simp: three_mask bit_simps)

lemma field_clear:
  fixes w v :: byte
  assumes "s \<le> 6"
  shows "drop_bit s (w AND NOT (push_bit s v)) AND 3 = drop_bit s w AND 3 AND NOT v"
  using assms by (intro bit_eqI) (auto simp: three_mask bit_simps)

lemma field_other:
  fixes w v :: byte
  assumes "i < 4" "j < 4" "i \<noteq> j" "v AND 3 = v"
  shows "drop_bit (2 * i) (w OR push_bit (2 * j) v) AND 3 = drop_bit (2 * i) w AND 3"
    "drop_bit (2 * i) (w AND NOT (push_bit (2 * j) v)) AND 3 = drop_bit (2 * i) w AND 3"
proof -
  have v: "bit v n \<Longrightarrow> n < 2" for n using assms(4) by (metis bit_and_iff bit_mask_iff three_mask)
  have apart: "\<not> bit v (2 * i + n - 2 * j)" if "n < 2" "2 * j \<le> 2 * i + n" for n
  proof
    assume "bit v (2 * i + n - 2 * j)"
    then have "2 * i + n - 2 * j < 2" by (rule v)
    with that assms(3) show False by presburger
  qed
  show "drop_bit (2 * i) (w OR push_bit (2 * j) v) AND 3 = drop_bit (2 * i) w AND 3"
    "drop_bit (2 * i) (w AND NOT (push_bit (2 * j) v)) AND 3 = drop_bit (2 * i) w AND 3"
    using apart assms(1) by (intro bit_eqI; force simp: three_mask bit_simps)+
qed

section \<open>Kinds\<close>

abbreviation kind :: "gc \<Rightarrow> nat \<Rightarrow> byte" where
  "kind \<equiv> ATB_GET_KIND"

lemma kind_range: "kind g b = AT_FREE \<or> kind g b = AT_HEAD \<or> kind g b = AT_TAIL \<or> kind g b = AT_MARK"
proof -
  have "unat (kind g b) < 4"
    using and_mask_less_size [of 2 "drop_bit (BLOCK_SHIFT b) (gc_table g ! (b div BLOCKS_PER_ATB))"]
    by (simp add: ATB_GET_KIND_def three_mask word_less_nat_alt word_size)
  then have "unat (kind g b) = 0 \<or> unat (kind g b) = 1 \<or> unat (kind g b) = 2 \<or> unat (kind g b) = 3" by linarith
  moreover have "unat w = 0 \<Longrightarrow> w = 0" "unat w = 1 \<Longrightarrow> w = 1" "unat w = 2 \<Longrightarrow> w = 2" "unat w = 3 \<Longrightarrow> w = 3" for w :: byte
    by (simp_all add: word_unat_eq_iff)
  ultimately show ?thesis by (auto simp: kind_consts)
qed

lemma kind_atb_update:
  assumes "b div 4 < length (gc_table g)"
  shows "kind (atb_update f b g) b' =
    (if b' div 4 = b div 4 then drop_bit (BLOCK_SHIFT b') (f (gc_table g ! (b div 4))) AND 3 else kind g b')"
  using assms by (auto simp: ATB_GET_KIND_def atb_update_def BLOCKS_PER_ATB_def nth_list_update)

lemma same_block: "b' div 4 = b div 4 \<Longrightarrow> b' mod 4 = b mod 4 \<longleftrightarrow> b' = (b::nat)"
  by (metis div_mod_decomp)

lemma kind_or:
  assumes "b div 4 < length (gc_table g)" "v AND 3 = v"
  shows "kind (atb_update (\<lambda>a. a OR push_bit (BLOCK_SHIFT b) v) b g) b' = (if b' = b then kind g b OR v else kind g b')"
proof (cases "b' div 4 = b div 4")
  case True
  let ?w = "gc_table g ! (b div 4)"
  have new: "kind (atb_update (\<lambda>a. a OR push_bit (BLOCK_SHIFT b) v) b g) b' = drop_bit (2 * (b' mod 4)) (?w OR push_bit (BLOCK_SHIFT b) v) AND 3"
    using kind_atb_update [OF assms(1)] True by (simp add: block_shift)
  have old: "kind g b' = drop_bit (2 * (b' mod 4)) ?w AND 3"
    using True by (simp add: ATB_GET_KIND_def BLOCKS_PER_ATB_def block_shift)
  show ?thesis
  proof (cases "b' = b")
    case eq: True
    then show ?thesis using field_or [of "2 * (b mod 4)" ?w v] new old assms(2) by (simp add: block_shift)
  next
    case False
    then show ?thesis using field_other(1) [of "b' mod 4" "b mod 4" v ?w] new old assms(2) same_block [OF True]
      by (simp add: block_shift)
  qed
next
  case False
  then show ?thesis using assms by (auto simp: kind_atb_update)
qed

lemma kind_clear:
  assumes "b div 4 < length (gc_table g)" "v AND 3 = v"
  shows "kind (atb_update (\<lambda>a. a AND NOT (push_bit (BLOCK_SHIFT b) v)) b g) b' = (if b' = b then kind g b AND NOT v else kind g b')"
proof (cases "b' div 4 = b div 4")
  case True
  let ?w = "gc_table g ! (b div 4)"
  have new: "kind (atb_update (\<lambda>a. a AND NOT (push_bit (BLOCK_SHIFT b) v)) b g) b' = drop_bit (2 * (b' mod 4)) (?w AND NOT (push_bit (BLOCK_SHIFT b) v)) AND 3"
    using kind_atb_update [OF assms(1)] True by (simp add: block_shift)
  have old: "kind g b' = drop_bit (2 * (b' mod 4)) ?w AND 3"
    using True by (simp add: ATB_GET_KIND_def BLOCKS_PER_ATB_def block_shift)
  show ?thesis
  proof (cases "b' = b")
    case eq: True
    then show ?thesis using field_clear [of "2 * (b mod 4)" ?w v] new old assms(2) by (simp add: block_shift and.assoc)
  next
    case False
    then show ?thesis using field_other(2) [of "b' mod 4" "b mod 4" v ?w] new old assms(2) same_block [OF True]
      by (simp add: block_shift)
  qed
next
  case False
  then show ?thesis using assms by (auto simp: kind_atb_update)
qed

lemma atb_any_to_free:
  "b div 4 < length (gc_table g) \<Longrightarrow> kind (ATB_ANY_TO_FREE b g) b' = (if b' = b then AT_FREE else kind g b')"
  using kind_clear [of b g AT_MARK b'] kind_range [of g b] by (auto simp: ATB_ANY_TO_FREE_def kind_consts)

lemma atb_free_to_head:
  "b div 4 < length (gc_table g) \<Longrightarrow> kind g b = AT_FREE \<Longrightarrow> kind (ATB_FREE_TO_HEAD b g) b' = (if b' = b then AT_HEAD else kind g b')"
  using kind_or [of b g AT_HEAD b'] by (simp add: ATB_FREE_TO_HEAD_def kind_consts)

lemma atb_free_to_tail:
  "b div 4 < length (gc_table g) \<Longrightarrow> kind g b = AT_FREE \<Longrightarrow> kind (ATB_FREE_TO_TAIL b g) b' = (if b' = b then AT_TAIL else kind g b')"
  using kind_or [of b g AT_TAIL b'] by (simp add: ATB_FREE_TO_TAIL_def kind_consts)

lemma atb_head_to_mark:
  "b div 4 < length (gc_table g) \<Longrightarrow> kind (ATB_HEAD_TO_MARK b g) b' = (if b' = b then AT_MARK else kind g b')"
  using kind_or [of b g AT_MARK b'] kind_range [of g b] by (auto simp: ATB_HEAD_TO_MARK_def kind_consts)

lemma atb_mark_to_head:
  "b div 4 < length (gc_table g) \<Longrightarrow> kind g b = AT_MARK \<Longrightarrow> kind (ATB_MARK_TO_HEAD b g) b' = (if b' = b then AT_HEAD else kind g b')"
  using kind_clear [of b g AT_TAIL b'] by (simp add: ATB_MARK_TO_HEAD_def kind_consts)

section \<open>What the updates leave alone\<close>

lemma atb_update_sel [simp]:
  "length (gc_table (atb_update f b g)) = length (gc_table g)"
  "gc_alloc_table_byte_len (atb_update f b g) = gc_alloc_table_byte_len g" "gc_pool (atb_update f b g) = gc_pool g"
  "gc_pool_start (atb_update f b g) = gc_pool_start g" "gc_pool_end (atb_update f b g) = gc_pool_end g"
  "gc_stack_overflow (atb_update f b g) = gc_stack_overflow g" "gc_lock_depth (atb_update f b g) = gc_lock_depth g"
  "gc_auto_collect_enabled (atb_update f b g) = gc_auto_collect_enabled g"
  "gc_alloc_amount (atb_update f b g) = gc_alloc_amount g" "gc_alloc_threshold (atb_update f b g) = gc_alloc_threshold g"
  "gc_last_free_atb_index (atb_update f b g) = gc_last_free_atb_index g" "gc_collected (atb_update f b g) = gc_collected g"
  by (simp_all add: atb_update_def)

section \<open>The finaliser table\<close>

lemma and_7: "(b::nat) AND 7 = b mod 8"
  using take_bit_eq_mask [of 3 b] by (simp add: take_bit_eq_mod mask_eq_exp_minus_1)

lemma ftb_get_bit: "FTB_GET g b \<longleftrightarrow> bit (gc_table g ! (gc_alloc_table_byte_len g + b div 8)) (b mod 8)"
  by (simp add: FTB_GET_def BLOCKS_PER_FTB_def and_7 and_one_eq bit_iff_odd_drop_bit odd_iff_mod_2_eq_one)

lemma same_flag: "b' div 8 = b div 8 \<Longrightarrow> b' mod 8 = b mod 8 \<longleftrightarrow> b' = (b::nat)"
  by (metis div_mod_decomp)

lemma ftb_clear:
  assumes "gc_alloc_table_byte_len g + b div 8 < length (gc_table g)"
  shows "FTB_GET (FTB_CLEAR b g) b' \<longleftrightarrow> b' \<noteq> b \<and> FTB_GET g b'"
  using assms same_flag [of b' b]
  by (auto simp: ftb_get_bit FTB_CLEAR_def ftb_update_def Let_def BLOCKS_PER_FTB_def nth_list_update bit_simps and_7)

lemma ftb_set:
  assumes "gc_alloc_table_byte_len g + b div 8 < length (gc_table g)"
  shows "FTB_GET (FTB_SET b g) b' \<longleftrightarrow> b' = b \<or> FTB_GET g b'"
  using assms same_flag [of b' b]
  by (auto simp: ftb_get_bit FTB_SET_def ftb_update_def Let_def BLOCKS_PER_FTB_def nth_list_update bit_simps and_7)

lemma kind_ftb_update: "b' < n_blocks_total g \<Longrightarrow> kind (ftb_update f b g) b' = kind g b'"
  by (auto simp: ATB_GET_KIND_def ftb_update_def Let_def n_blocks_total_def BLOCKS_PER_ATB_def nth_list_update)

lemma ftb_atb_update: "b < n_blocks_total g \<Longrightarrow> FTB_GET (atb_update f b g) b' = FTB_GET g b'"
  by (auto simp: ftb_get_bit atb_update_def n_blocks_total_def BLOCKS_PER_ATB_def nth_list_update)

lemma ftb_update_sel [simp]:
  "length (gc_table (ftb_update f b g)) = length (gc_table g)"
  "gc_alloc_table_byte_len (ftb_update f b g) = gc_alloc_table_byte_len g" "gc_pool (ftb_update f b g) = gc_pool g"
  "gc_pool_start (ftb_update f b g) = gc_pool_start g" "gc_pool_end (ftb_update f b g) = gc_pool_end g"
  "gc_stack_overflow (ftb_update f b g) = gc_stack_overflow g" "gc_lock_depth (ftb_update f b g) = gc_lock_depth g"
  "gc_auto_collect_enabled (ftb_update f b g) = gc_auto_collect_enabled g"
  "gc_alloc_amount (ftb_update f b g) = gc_alloc_amount g" "gc_alloc_threshold (ftb_update f b g) = gc_alloc_threshold g"
  "gc_last_free_atb_index (ftb_update f b g) = gc_last_free_atb_index g" "gc_collected (ftb_update f b g) = gc_collected g"
  by (simp_all add: ftb_update_def Let_def)

lemmas atb_defs = ATB_ANY_TO_FREE_def ATB_FREE_TO_HEAD_def ATB_FREE_TO_TAIL_def ATB_HEAD_TO_MARK_def ATB_MARK_TO_HEAD_def

text \<open>Kinds and flags depend on the tables only.\<close>

lemma kind_cong: "gc_table g' = gc_table g \<Longrightarrow> kind g' = kind g"
  by (simp add: fun_eq_iff ATB_GET_KIND_def)

lemma flag_cong: "gc_table g' = gc_table g \<Longrightarrow> gc_alloc_table_byte_len g' = gc_alloc_table_byte_len g \<Longrightarrow> FTB_GET g' = FTB_GET g"
  by (simp add: fun_eq_iff FTB_GET_def)

end
