(* ===== verification/Py_Gc_Mark.thy ===== *)
theory Py_Gc_Mark
  imports Py_Gc_Table
begin

text \<open>
  The mark phase: from the root pointers, with a stack of bounded size and repeated passes over
  the table when it overflows, exactly the heads that can be reached are marked.
\<close>

section \<open>The shape of a heap\<close>

definition layout :: "gc \<Rightarrow> bool" where
  "layout g \<longleftrightarrow>
     gc_alloc_table_byte_len g + (n_blocks_total g + 7) div 8 \<le> length (gc_table g) \<and>
     gc_pool_end g = gc_pool_start g + n_blocks_total g * BYTES_PER_BLOCK \<and>
     0 < gc_pool_start g \<and> BYTES_PER_BLOCK dvd gc_pool_start g \<and>
     length (gc_pool g) = n_blocks_total g * WORDS_PER_BLOCK"

text \<open>
  The byte after the allocation table is the first of the finaliser table. The loops that look
  for the end of a chain read its two lowest bits when the last block is in use.
\<close>

definition gap :: "gc \<Rightarrow> bool" where
  "gap g \<longleftrightarrow> n_blocks_total g = 0 \<or> kind g (n_blocks_total g - 1) = AT_FREE \<or> kind g (n_blocks_total g) \<noteq> AT_TAIL"

definition heads :: "gc \<Rightarrow> nat set" where
  "heads g = {b. b < n_blocks_total g \<and> (kind g b = AT_HEAD \<or> kind g b = AT_MARK)}"

definition marked :: "gc \<Rightarrow> nat set" where
  "marked g = {b. b < n_blocks_total g \<and> kind g b = AT_MARK}"

lemma layout_block: "layout g \<Longrightarrow> b < n_blocks_total g \<Longrightarrow> b div 4 < length (gc_table g)"
  by (auto simp: layout_def n_blocks_total_def BLOCKS_PER_ATB_def)

lemma verify_block: "layout g \<Longrightarrow> VERIFY_PTR g p \<Longrightarrow> BLOCK_FROM_PTR g p < n_blocks_total g"
  by (auto simp: layout_def VERIFY_PTR_def BLOCK_FROM_PTR_def BYTES_PER_BLOCK_def less_mult_imp_div_less)

lemma heads_finite: "finite (heads g)"
  by (rule finite_subset [of _ "{..<n_blocks_total g}"]) (auto simp: heads_def)

lemma marked_heads: "marked g \<subseteq> heads g"
  by (auto simp: marked_def heads_def)

definition unmarked :: "gc \<Rightarrow> nat" where
  "unmarked g = card (heads g - marked g)"

section \<open>Chains and children\<close>

definition chain_end :: "gc \<Rightarrow> nat \<Rightarrow> nat \<Rightarrow> bool" where
  "chain_end g b n \<longleftrightarrow> 1 \<le> n \<and> (\<forall>i. 1 \<le> i \<and> i < n \<longrightarrow> kind g (b + i) = AT_TAIL) \<and> kind g (b + n) \<noteq> AT_TAIL"

lemma chain_end_unique: "chain_end g b n \<Longrightarrow> chain_end g b m \<Longrightarrow> n = m"
  by (metis chain_end_def linorder_neqE_nat)

lemma chain_loop_end:
  "kind g (b + m) \<noteq> AT_TAIL \<Longrightarrow> n \<le> m \<Longrightarrow> 1 \<le> n \<Longrightarrow> \<forall>i. 1 \<le> i \<and> i < n \<longrightarrow> kind g (b + i) = AT_TAIL \<Longrightarrow>
   \<exists>k. chain_loop g b n = Some k \<and> k \<le> m \<and> chain_end g b k"
proof (induction "m - n" arbitrary: n)
  case 0
  then show ?case by (subst chain_loop.simps) (auto simp: chain_end_def)
next
  case (Suc d)
  show ?case
  proof (cases "kind g (b + n) = AT_TAIL")
    case True
    have "\<exists>k. chain_loop g b (n + 1) = Some k \<and> k \<le> m \<and> chain_end g b k"
    proof (rule Suc.hyps(1))
      show "d = m - (n + 1)" "n + 1 \<le> m" using Suc.hyps(2) by auto
      show "\<forall>i. 1 \<le> i \<and> i < n + 1 \<longrightarrow> kind g (b + i) = AT_TAIL" using Suc.prems(4) True by (auto simp: less_Suc_eq)
    qed (use Suc.prems in auto)
    with True show ?thesis by (subst chain_loop.simps) simp
  next
    case False
    with Suc.prems show ?thesis by (subst chain_loop.simps) (auto simp: chain_end_def)
  qed
qed

lemma chain_loop_ok:
  assumes "gap g" "b \<in> heads g"
  shows "\<exists>n. chain_loop g b 1 = Some n \<and> chain_end g b n \<and> b + n \<le> n_blocks_total g"
proof -
  let ?N = "n_blocks_total g"
  have b: "b < ?N" "kind g b \<noteq> AT_FREE" using assms(2) by (auto simp: heads_def)
  obtain m where m: "1 \<le> m" "b + m \<le> ?N" "kind g (b + m) \<noteq> AT_TAIL"
  proof (cases "kind g ?N = AT_TAIL")
    case True
    then have f: "kind g (?N - 1) = AT_FREE" using assms(1) b by (auto simp: gap_def)
    with b have "b \<noteq> ?N - 1" by auto
    with b have "1 \<le> ?N - 1 - b" "b + (?N - 1 - b) = ?N - 1" by auto
    with f that [of "?N - 1 - b"] show ?thesis by auto
  next
    case False
    with b that [of "?N - b"] show ?thesis by auto
  qed
  from chain_loop_end [of g b m 1] m obtain k where "chain_loop g b 1 = Some k" "k \<le> m" "chain_end g b k" by auto
  with m show ?thesis by auto
qed

text \<open>The heads a chain points to.\<close>

definition children :: "gc \<Rightarrow> nat \<Rightarrow> nat set" where
  "children g b = {c \<in> heads g. \<exists>n p. chain_end g b n \<and> p \<in> set (chain_words g b n) \<and> VERIFY_PTR g p \<and> c = BLOCK_FROM_PTR g p}"

definition root_heads :: "ptr list \<Rightarrow> gc \<Rightarrow> nat set" where
  "root_heads roots g = {c \<in> heads g. \<exists>p \<in> set roots. VERIFY_PTR g p \<and> c = BLOCK_FROM_PTR g p}"

definition points_to :: "gc \<Rightarrow> (nat \<times> nat) set" where
  "points_to g = {(b, c). b \<in> heads g \<and> c \<in> children g b}"

section \<open>Marking changes marks only\<close>

text \<open>Everything but the tables and the overflow flag.\<close>

definition rest where
  "rest g = (gc_alloc_table_byte_len g, gc_pool g, gc_pool_start g, gc_pool_end g, gc_lock_depth g,
     gc_auto_collect_enabled g, gc_alloc_amount g, gc_alloc_threshold g, gc_last_free_atb_index g, gc_collected g)"

definition marks_grow :: "gc \<Rightarrow> gc \<Rightarrow> bool" where
  "marks_grow g g' \<longleftrightarrow>
     rest g' = rest g \<and>
     length (gc_table g') = length (gc_table g) \<and>
     (\<forall>b < n_blocks_total g. kind g' b = kind g b \<or> kind g b = AT_HEAD \<and> kind g' b = AT_MARK) \<and>
     kind g' (n_blocks_total g) = kind g (n_blocks_total g) \<and> FTB_GET g' = FTB_GET g"

lemma marks_growD:
  assumes "marks_grow g g'"
  shows "n_blocks_total g' = n_blocks_total g" "gc_pool g' = gc_pool g" "VERIFY_PTR g' = VERIFY_PTR g"
    "BLOCK_FROM_PTR g' = BLOCK_FROM_PTR g" "layout g \<Longrightarrow> layout g'"
    "b < n_blocks_total g \<Longrightarrow> kind g' b = AT_TAIL \<longleftrightarrow> kind g b = AT_TAIL"
    "b < n_blocks_total g \<Longrightarrow> kind g' b = AT_FREE \<longleftrightarrow> kind g b = AT_FREE"
    "kind g' (n_blocks_total g) = kind g (n_blocks_total g)"
    "gc_lock_depth g' = gc_lock_depth g"
proof -
  have r: "rest g' = rest g" "length (gc_table g') = length (gc_table g)" using assms by (simp_all add: marks_grow_def)
  show "n_blocks_total g' = n_blocks_total g" "gc_pool g' = gc_pool g" "gc_lock_depth g' = gc_lock_depth g"
    "layout g \<Longrightarrow> layout g'"
    using r by (auto simp: rest_def n_blocks_total_def layout_def)
  show "VERIFY_PTR g' = VERIFY_PTR g" "BLOCK_FROM_PTR g' = BLOCK_FROM_PTR g"
    using r by (auto simp: rest_def fun_eq_iff VERIFY_PTR_def BLOCK_FROM_PTR_def)
  show "b < n_blocks_total g \<Longrightarrow> kind g' b = AT_TAIL \<longleftrightarrow> kind g b = AT_TAIL"
    "b < n_blocks_total g \<Longrightarrow> kind g' b = AT_FREE \<longleftrightarrow> kind g b = AT_FREE"
    "kind g' (n_blocks_total g) = kind g (n_blocks_total g)"
    using assms by (auto simp: marks_grow_def)
qed

lemma marks_grow_refl: "marks_grow g g"
  by (simp add: marks_grow_def)

lemma marks_grow_trans:
  assumes "marks_grow g g1" "marks_grow g1 g2"
  shows "marks_grow g g2"
proof -
  have "kind g2 b = kind g b \<or> kind g b = AT_HEAD \<and> kind g2 b = AT_MARK" if "b < n_blocks_total g" for b
    using assms that marks_growD(1) [OF assms(1)] unfolding marks_grow_def by (metis kinds_distinct(11))
  then show ?thesis using assms marks_growD(1) [OF assms(1)] by (simp add: marks_grow_def)
qed

lemma marks_grow_overflow: "marks_grow g g' \<Longrightarrow> marks_grow g (g'\<lparr>gc_stack_overflow := ov\<rparr>)"
proof -
  have "kind (g'\<lparr>gc_stack_overflow := ov\<rparr>) = kind g'" "FTB_GET (g'\<lparr>gc_stack_overflow := ov\<rparr>) = FTB_GET g'"
    by (auto intro: kind_cong flag_cong)
  then show "marks_grow g g' \<Longrightarrow> marks_grow g (g'\<lparr>gc_stack_overflow := ov\<rparr>)" by (simp add: marks_grow_def rest_def)
qed

lemma marks_grow_heads: "marks_grow g g' \<Longrightarrow> heads g' = heads g" "marks_grow g g' \<Longrightarrow> marked g \<subseteq> marked g'"
  using marks_growD(1) [of g g'] by (auto simp: marks_grow_def heads_def marked_def)

lemma marks_grow_gap: "marks_grow g g' \<Longrightarrow> gap g' = gap g"
  using marks_growD(1) [of g g'] marks_growD(7) [of g g' "n_blocks_total g - 1"] marks_growD(8) [of g g']
  by (cases "n_blocks_total g") (auto simp: gap_def)

lemma marks_grow_chain:
  assumes "marks_grow g g'" "b + n \<le> n_blocks_total g"
  shows "chain_end g' b n \<longleftrightarrow> chain_end g b n"
proof -
  have "kind g' (b + i) = AT_TAIL \<longleftrightarrow> kind g (b + i) = AT_TAIL" if "i \<le> n" for i
    using marks_growD(6,8) [OF assms(1)] that assms(2) by (cases "b + i = n_blocks_total g") auto
  then show ?thesis by (auto simp: chain_end_def)
qed

lemma children_chain:
  assumes "chain_end g b n"
  shows "children g b = {c \<in> heads g. \<exists>p \<in> set (chain_words g b n). VERIFY_PTR g p \<and> c = BLOCK_FROM_PTR g p}"
  using chain_end_unique [OF assms] assms unfolding children_def by blast

lemma marks_grow_children:
  assumes "marks_grow g g'" "gap g" "b \<in> heads g"
  shows "children g' b = children g b"
proof -
  obtain n where n: "chain_end g b n" "b + n \<le> n_blocks_total g" using chain_loop_ok [OF assms(2,3)] by blast
  then have n': "chain_end g' b n" using marks_grow_chain [OF assms(1)] by blast
  note d = marks_growD [OF assms(1)]
  show ?thesis unfolding children_chain [OF n(1)] children_chain [OF n'] marks_grow_heads(1) [OF assms(1)] d(3,4)
    by (simp add: chain_words_def d(2))
qed

lemma marks_grow_root_heads: "marks_grow g g' \<Longrightarrow> root_heads roots g' = root_heads roots g"
  using marks_growD(3,4) [of g g'] by (simp add: root_heads_def marks_grow_heads)

lemma unmarked_less:
  assumes "marks_grow g g'" "\<exists>b \<in> marked g'. b \<notin> marked g"
  shows "unmarked g' < unmarked g"
proof -
  obtain b where b: "b \<in> marked g'" "b \<notin> marked g" using assms(2) by blast
  have "heads g' - marked g' \<subset> heads g - marked g"
    using marks_grow_heads [OF assms(1)] b marked_heads [of g'] by blast
  then show ?thesis unfolding unmarked_def by (intro psubset_card_mono) (simp_all add: heads_finite)
qed

lemma mark_one:
  assumes "layout g" "b < n_blocks_total g" "kind g b = AT_HEAD"
  shows "marks_grow g (ATB_HEAD_TO_MARK b g)" "marked (ATB_HEAD_TO_MARK b g) = insert b (marked g)"
    "unmarked g = Suc (unmarked (ATB_HEAD_TO_MARK b g))"
proof -
  note k = atb_head_to_mark [OF layout_block [OF assms(1,2)]]
  have tot: "n_blocks_total (ATB_HEAD_TO_MARK b g) = n_blocks_total g"
    by (simp add: n_blocks_total_def ATB_HEAD_TO_MARK_def)
  show grow: "marks_grow g (ATB_HEAD_TO_MARK b g)"
    unfolding marks_grow_def using k assms(2,3)
    by (auto simp: ATB_HEAD_TO_MARK_def rest_def ftb_atb_update)
  show m: "marked (ATB_HEAD_TO_MARK b g) = insert b (marked g)"
    using k assms(2) by (auto simp: marked_def tot)
  have "b \<in> heads g - marked g" using assms by (auto simp: heads_def marked_def)
  then have "card (heads g - marked g) = Suc (card (heads g - marked g - {b}))"
    using heads_finite [of g] card_Suc_Diff1 [of "heads g - marked g" b] by simp
  moreover have "heads g - insert b (marked g) = heads g - marked g - {b}" by blast
  ultimately show "unmarked g = Suc (unmarked (ATB_HEAD_TO_MARK b g))"
    by (simp add: unmarked_def m marks_grow_heads(1) [OF grow])
qed

section \<open>The loops\<close>

lemma root_heads_Cons:
  "root_heads (p # ps) g =
     (if VERIFY_PTR g p \<and> BLOCK_FROM_PTR g p \<in> heads g then {BLOCK_FROM_PTR g p} else {}) \<union> root_heads ps g"
  by (auto simp: root_heads_def)

text \<open>What marking the heads that some words point to does to the marks, the stack and the overflow flag.\<close>

definition marked_words :: "ptr list \<Rightarrow> nat list \<Rightarrow> gc \<Rightarrow> nat list \<Rightarrow> gc \<Rightarrow> bool" where
  "marked_words ps stack g stack' g' \<longleftrightarrow> marks_grow g g' \<and>
     (\<exists>news. stack' = news @ stack \<and> set news \<subseteq> marked g' - marked g \<and>
        (\<not> gc_stack_overflow g' \<longrightarrow> marked g' - marked g \<subseteq> set news)) \<and>
     marked g' = marked g \<union> root_heads ps g \<and> unmarked g' + length stack' \<le> unmarked g + length stack \<and>
     (gc_stack_overflow g \<longrightarrow> gc_stack_overflow g') \<and>
     (gc_stack_overflow g' \<longrightarrow> gc_stack_overflow g \<or> marked g \<subset> marked g')"

lemma overflow_fields:
  "marked (g\<lparr>gc_stack_overflow := x\<rparr>) = marked g" "unmarked (g\<lparr>gc_stack_overflow := x\<rparr>) = unmarked g"
  "layout (g\<lparr>gc_stack_overflow := x\<rparr>) = layout g" "heads (g\<lparr>gc_stack_overflow := x\<rparr>) = heads g"
  by (simp_all add: unmarked_def marked_def heads_def layout_def n_blocks_total_def ATB_GET_KIND_def)

lemma mark_children_spec:
  assumes "layout g" "mark_children ps stack g = (stack', g')"
  shows "marked_words ps stack g stack' g'"
  using assms
proof (induction ps arbitrary: stack g)
  case Nil
  then show ?case by (simp add: marked_words_def marks_grow_refl root_heads_def)
next
  case (Cons p ps)
  let ?c = "BLOCK_FROM_PTR g p"
  show ?case
  proof (cases "VERIFY_PTR g p \<and> kind g ?c = AT_HEAD")
    case True
    have c: "?c < n_blocks_total g" using verify_block [OF Cons.prems(1)] True by blast
    define ov where "ov = (gc_stack_overflow g \<or> \<not> length stack < MICROPY_ALLOC_GC_STACK_SIZE)"
    define g1 where "g1 = (ATB_HEAD_TO_MARK ?c g)\<lparr>gc_stack_overflow := ov\<rparr>"
    define st1 where "st1 = (if length stack < MICROPY_ALLOC_GC_STACK_SIZE then ?c # stack else stack)"
    note m = mark_one [OF Cons.prems(1) c conjunct2 [OF True]]
    have grow: "marks_grow g g1" unfolding g1_def by (rule marks_grow_overflow [OF m(1)])
    have new: "marked g1 = insert ?c (marked g)" "unmarked g = Suc (unmarked g1)" "gc_stack_overflow g1 = ov"
      using m(2,3) by (simp_all add: g1_def overflow_fields)
    have cm: "?c \<notin> marked g" using True by (simp add: marked_def)
    have "(ATB_HEAD_TO_MARK ?c g)\<lparr>gc_stack_overflow := gc_stack_overflow g\<rparr> = ATB_HEAD_TO_MARK ?c g"
      by (cases g) (simp add: ATB_HEAD_TO_MARK_def atb_update_def)
    then have "mark_children ps st1 g1 = (stack', g')"
      using Cons.prems(2) True by (auto simp: Let_def g1_def st1_def ov_def)
    from Cons.IH [OF marks_growD(5) [OF grow Cons.prems(1)] this]
    have ih: "marked_words ps st1 g1 stack' g'" .
    have rh: "root_heads (p # ps) g = insert ?c (root_heads ps g1)"
      using True c marks_grow_root_heads [OF grow] by (auto simp: root_heads_Cons heads_def)
    obtain news where news: "stack' = news @ st1" "set news \<subseteq> marked g' - marked g1"
      "\<not> gc_stack_overflow g' \<longrightarrow> marked g' - marked g1 \<subseteq> set news" using ih by (auto simp: marked_words_def)
    have "\<exists>news. stack' = news @ stack \<and> set news \<subseteq> marked g' - marked g \<and>
        (\<not> gc_stack_overflow g' \<longrightarrow> marked g' - marked g \<subseteq> set news)"
    proof (cases "length stack < MICROPY_ALLOC_GC_STACK_SIZE")
      case True
      then have "stack' = (news @ [?c]) @ stack" using news(1) by (simp add: st1_def)
      moreover have "?c \<in> marked g'" using new(1) marks_grow_heads(2) [of g1 g'] ih by (auto simp: marked_words_def)
      ultimately show ?thesis using news(2,3) new(1) cm by (intro exI [of _ "news @ [?c]"]) auto
    next
      case False
      then have "gc_stack_overflow g'" using ih new(3) by (simp add: marked_words_def ov_def)
      with False news new(1) cm show ?thesis by (intro exI [of _ news]) (auto simp: st1_def)
    qed
    moreover have "marked g' = marked g \<union> root_heads (p # ps) g" using ih new(1) rh by (auto simp: marked_words_def)
    moreover have "unmarked g' + length stack' \<le> unmarked g + length stack"
      using ih new(2) by (auto simp: marked_words_def st1_def split: if_splits)
    moreover have "marks_grow g g'" using ih grow marks_grow_trans by (auto simp: marked_words_def)
    moreover have "gc_stack_overflow g \<longrightarrow> gc_stack_overflow g'" using ih new(3) by (auto simp: marked_words_def ov_def)
    moreover have "marked g \<subset> marked g'" using ih new(1) cm by (auto simp: marked_words_def)
    ultimately show ?thesis by (simp add: marked_words_def)
  next
    case False
    then have "mark_children ps stack g = (stack', g')" using Cons.prems(2) by (auto simp: Let_def)
    from Cons.IH [OF Cons.prems(1) this] have ih: "marked_words ps stack g stack' g'" .
    have "root_heads (p # ps) g \<union> marked g = root_heads ps g \<union> marked g"
      using False by (auto simp: root_heads_Cons heads_def marked_def)
    with ih show ?thesis by (auto simp: marked_words_def)
  qed
qed

text \<open>
  What marking from some marked blocks \<open>todo\<close> achieves: new marks can be reached from old ones,
  and unless the stack overflowed, every new mark and every block of \<open>todo\<close> has its children marked.
\<close>

definition marked_from :: "nat set \<Rightarrow> gc \<Rightarrow> gc \<Rightarrow> bool" where
  "marked_from todo g g' \<longleftrightarrow> marks_grow g g' \<and> marked g' \<subseteq> (points_to g)\<^sup>* `` marked g \<and>
     (gc_stack_overflow g \<longrightarrow> gc_stack_overflow g') \<and>
     (gc_stack_overflow g' \<longrightarrow> gc_stack_overflow g \<or> marked g \<subset> marked g') \<and>
     (\<not> gc_stack_overflow g' \<longrightarrow> (\<forall>b \<in> (marked g' - marked g) \<union> todo. children g b \<subseteq> marked g'))"

lemma marked_from_children:
  "marked_from todo g g' \<Longrightarrow> \<not> gc_stack_overflow g' \<Longrightarrow> b \<in> (marked g' - marked g) \<union> todo \<Longrightarrow> children g b \<subseteq> marked g'"
  by (simp add: marked_from_def)

lemma points_to_grow: "marks_grow g g' \<Longrightarrow> gap g \<Longrightarrow> points_to g' = points_to g"
  using marks_grow_children [of g g'] by (auto simp: points_to_def marks_grow_heads)

lemma mark_loop_spec:
  assumes "layout g" "gap g" "block \<in> marked g" "set stack \<subseteq> marked g"
  shows "\<exists>g'. mark_loop block stack g = Some g' \<and> marked_from (insert block (set stack)) g g'"
  using assms
proof (induction "unmarked g + length stack" arbitrary: block stack g rule: less_induct)
  case less
  have head: "block \<in> heads g" using less.prems(3) marked_heads by blast
  obtain n where n: "chain_loop g block 1 = Some n" "chain_end g block n" using chain_loop_ok [OF less.prems(2) head] by blast
  obtain st1 g1 where mc: "mark_children (chain_words g block n) stack g = (st1, g1)" by (rule prod.exhaust)
  from mark_children_spec [OF less.prems(1) mc] have mw: "marked_words (chain_words g block n) stack g st1 g1" .
  have ch: "root_heads (chain_words g block n) g = children g block"
    by (auto simp: root_heads_def children_chain [OF n(2)])
  have grow: "marks_grow g g1" and m1: "marked g1 = marked g \<union> children g block"
    and meas: "unmarked g1 + length st1 \<le> unmarked g + length stack"
    and ov: "gc_stack_overflow g \<longrightarrow> gc_stack_overflow g1" "gc_stack_overflow g1 \<longrightarrow> gc_stack_overflow g \<or> marked g \<subset> marked g1"
    using mw by (auto simp: marked_words_def ch)
  obtain news where news: "st1 = news @ stack" "set news \<subseteq> marked g1 - marked g"
    "\<not> gc_stack_overflow g1 \<longrightarrow> marked g1 - marked g \<subseteq> set news" using mw by (auto simp: marked_words_def)
  have reach1: "marked g1 \<subseteq> (points_to g)\<^sup>* `` marked g"
  proof
    fix c assume "c \<in> marked g1"
    then consider "c \<in> marked g" | "(block, c) \<in> points_to g" using m1 head by (auto simp: points_to_def)
    then show "c \<in> (points_to g)\<^sup>* `` marked g" using less.prems(3) by cases auto
  qed
  show ?case
  proof (cases st1)
    case Nil
    then have "mark_loop block stack g = Some g1" using n(1) mc by (subst mark_loop.simps) simp
    moreover have "marked_from (insert block (set stack)) g g1"
      using grow reach1 ov m1 news Nil by (auto simp: marked_from_def)
    ultimately show ?thesis by blast
  next
    case (Cons b1 st2)
    have run: "mark_loop block stack g = mark_loop b1 st2 g1" using n(1) mc Cons by (subst mark_loop.simps) simp
    have st: "insert b1 (set st2) = set news \<union> set stack" using news(1) Cons by (metis list.simps(15) set_append)
    have "set news \<union> set stack \<subseteq> marked g1" using news(2) less.prems(4) marks_grow_heads(2) [OF grow] by blast
    then have pre: "b1 \<in> marked g1" "set st2 \<subseteq> marked g1" using st by blast+
    have "unmarked g1 + length st2 < unmarked g + length stack" using meas Cons by simp
    from less.hyps [OF this marks_growD(5) [OF grow less.prems(1)] _ pre] obtain g' where
      g': "mark_loop b1 st2 g1 = Some g'" "marked_from (insert b1 (set st2)) g1 g'"
      using marks_grow_gap [OF grow] less.prems(2) by auto
    note pt = points_to_grow [OF grow less.prems(2)]
    have grow': "marks_grow g1 g'" using g'(2) by (simp add: marked_from_def)
    have "marked g' \<subseteq> (points_to g)\<^sup>* `` marked g1" using g'(2) pt by (simp add: marked_from_def)
    also have "\<dots> \<subseteq> (points_to g)\<^sup>* `` ((points_to g)\<^sup>* `` marked g)" using reach1 by (rule Image_mono [OF subset_refl])
    also have "\<dots> = (points_to g)\<^sup>* `` marked g" by (metis relcomp_Image rtrancl_idemp_self_comp)
    finally have reach: "marked g' \<subseteq> (points_to g)\<^sup>* `` marked g" .
    have closed: "children g b \<subseteq> marked g'" if "\<not> gc_stack_overflow g'" "b \<in> (marked g' - marked g) \<union> insert block (set stack)" for b
    proof -
      have nov: "\<not> gc_stack_overflow g1" using that(1) g'(2) by (auto simp: marked_from_def)
      have "marked g1 - marked g \<subseteq> set news" using news(3) nov by blast
      then have "b = block \<or> b \<in> (marked g' - marked g1) \<union> (set news \<union> set stack)" using that(2) by blast
      then consider "b = block" | "b \<in> (marked g' - marked g1) \<union> insert b1 (set st2)" unfolding st [symmetric] by blast
      then show ?thesis
      proof cases
        case 1
        then show ?thesis using m1 marks_grow_heads(2) [OF grow'] by blast
      next
        case 2
        then have "b \<in> heads g" using pre marked_heads marks_grow_heads(1) [OF grow] marks_grow_heads(1) [OF grow'] by blast
        moreover have "children g1 b \<subseteq> marked g'" using 2 g'(2) that(1) by (auto simp: marked_from_def)
        ultimately show ?thesis using marks_grow_children [OF grow less.prems(2)] by simp
      qed
    qed
    have "marked_from (insert block (set stack)) g g'" unfolding marked_from_def
    proof (intro conjI)
      show "marks_grow g g'" by (rule marks_grow_trans [OF grow grow'])
      show "gc_stack_overflow g' \<longrightarrow> gc_stack_overflow g \<or> marked g \<subset> marked g'"
        using g'(2) ov(2) marks_grow_heads(2) [OF grow] marks_grow_heads(2) [OF grow'] by (auto simp: marked_from_def)
      show "gc_stack_overflow g \<longrightarrow> gc_stack_overflow g'" using ov(1) g'(2) by (auto simp: marked_from_def)
    qed (use reach closed in auto)
    with run g'(1) show ?thesis by auto
  qed
qed

lemma mark_subtree_spec:
  assumes "layout g" "gap g" "block \<in> marked g"
  shows "\<exists>g'. gc_mark_subtree block g = Some g' \<and> marked_from {block} g g'"
  using mark_loop_spec [OF assms, of "[]"] by (simp add: gc_mark_subtree_def)

lemma marked_from_trans:
  assumes "marked_from A g g1" "marked_from B g1 g2" "gap g" "A \<subseteq> heads g" "B \<subseteq> heads g"
  shows "marked_from (A \<union> B) g g2"
proof -
  have grow: "marks_grow g g1" "marks_grow g1 g2" using assms(1,2) by (simp_all add: marked_from_def)
  note sub = marks_grow_heads(2) [OF grow(1)] marks_grow_heads(2) [OF grow(2)]
  have "marked g2 \<subseteq> (points_to g)\<^sup>* `` marked g1" using assms(2) points_to_grow [OF grow(1) assms(3)] by (simp add: marked_from_def)
  also have "\<dots> \<subseteq> (points_to g)\<^sup>* `` ((points_to g)\<^sup>* `` marked g)"
    using assms(1) by (intro Image_mono [OF subset_refl]) (simp add: marked_from_def)
  also have "\<dots> = (points_to g)\<^sup>* `` marked g" by (metis relcomp_Image rtrancl_idemp_self_comp)
  finally have reach: "marked g2 \<subseteq> (points_to g)\<^sup>* `` marked g" .
  have closed: "children g b \<subseteq> marked g2" if "\<not> gc_stack_overflow g2" "b \<in> (marked g2 - marked g) \<union> (A \<union> B)" for b
  proof -
    have nov: "\<not> gc_stack_overflow g1" using that(1) assms(2) by (auto simp: marked_from_def)
    have b: "b \<in> heads g"
      using that(2) assms(4,5) marked_heads [of g2] marks_grow_heads(1) [OF grow(1)] marks_grow_heads(1) [OF grow(2)] by blast
    from that(2) consider "b \<in> (marked g1 - marked g) \<union> A" | "b \<in> (marked g2 - marked g1) \<union> B" by blast
    then show ?thesis
    proof cases
      case 1
      then have "children g b \<subseteq> marked g1" using assms(1) nov by (simp add: marked_from_def)
      then show ?thesis using sub(2) by blast
    next
      case 2
      then have "children g1 b \<subseteq> marked g2" using assms(2) that(1) by (simp add: marked_from_def)
      then show ?thesis using marks_grow_children [OF grow(1) assms(3) b] by simp
    qed
  qed
  show ?thesis unfolding marked_from_def
  proof (intro conjI)
    show "marks_grow g g2" by (rule marks_grow_trans [OF grow])
    show "gc_stack_overflow g2 \<longrightarrow> gc_stack_overflow g \<or> marked g \<subset> marked g2"
      using assms(1,2) sub by (auto simp: marked_from_def)
    show "gc_stack_overflow g \<longrightarrow> gc_stack_overflow g2" using assms(1,2) by (auto simp: marked_from_def)
  qed (use reach closed in auto)
qed

lemma marked_from_refl: "marked_from {} g g"
  by (auto simp: marked_from_def marks_grow_refl)

lemma marked_from_subset: "marked_from A g g' \<Longrightarrow> B \<subseteq> A \<Longrightarrow> marked_from B g g'"
  unfolding marked_from_def by blast

lemma remark_loop_spec:
  assumes "layout g" "gap g"
  and "set blocks \<subseteq> {..<n_blocks_total g}"
  shows "\<exists>g'. remark_loop blocks g = Some g' \<and> marked_from (marked g \<inter> set blocks) g g'"
  using assms
proof (induction blocks arbitrary: g)
  case Nil
  then show ?case by (simp add: marked_from_refl)
next
  case (Cons b blocks)
  obtain g1 where g1: "(if kind g b = AT_MARK then gc_mark_subtree b g else Some g) = Some g1" "marked_from (marked g \<inter> {b}) g g1"
  proof (cases "b \<in> marked g")
    case True
    with that mark_subtree_spec [OF Cons.prems(1,2) True] show ?thesis by (auto simp: marked_def)
  next
    case False
    then have "kind g b \<noteq> AT_MARK" using Cons.prems(3) by (simp add: marked_def)
    with that [of g] False marked_from_refl show ?thesis by simp
  qed
  then have grow: "marks_grow g g1" by (simp add: marked_from_def)
  obtain g2 where g2: "remark_loop blocks g1 = Some g2" "marked_from (marked g1 \<inter> set blocks) g1 g2"
    using Cons.IH [OF marks_growD(5) [OF grow Cons.prems(1)]] marks_grow_gap [OF grow] Cons.prems(2,3) marks_growD(1) [OF grow] by auto
  have "marked g \<inter> set blocks \<subseteq> marked g1 \<inter> set blocks" using marks_grow_heads(2) [OF grow] by blast
  then have f: "marked_from (marked g \<inter> set blocks) g1 g2" by (rule marked_from_subset [OF g2(2)])
  have s1: "marked g \<inter> {b} \<subseteq> heads g" using marked_heads [of g] by blast
  have s2: "marked g \<inter> set blocks \<subseteq> heads g" using marked_heads [of g] by blast
  have "marked_from (marked g \<inter> {b} \<union> marked g \<inter> set blocks) g g2"
    by (rule marked_from_trans [OF g1(2) f Cons.prems(2) s1 s2])
  moreover have "marked g \<inter> {b} \<union> marked g \<inter> set blocks = marked g \<inter> set (b # blocks)" by auto
  ultimately show ?case using g1(1) g2(1) by simp
qed

section \<open>The mark phase\<close>

definition closed :: "gc \<Rightarrow> bool" where
  "closed g \<longleftrightarrow> (\<forall>b \<in> marked g. children g b \<subseteq> marked g)"

lemma closed_grow:
  assumes "marks_grow g g'" "gap g"
  shows "closed g' \<longleftrightarrow> (\<forall>b \<in> marked g'. children g b \<subseteq> marked g')"
proof -
  have "children g' b = children g b" if "b \<in> marked g'" for b
    using that marks_grow_children [OF assms] marked_heads [of g'] marks_grow_heads(1) [OF assms(1)] by blast
  then show ?thesis by (simp add: closed_def)
qed

lemma image_rtrancl_mono: "A \<subseteq> R\<^sup>* `` B \<Longrightarrow> R\<^sup>* `` A \<subseteq> R\<^sup>* `` B"
  by (metis Image_mono relcomp_Image rtrancl_idemp_self_comp subset_refl)

lemma overflow_same:
  "marks_grow g (g\<lparr>gc_stack_overflow := x\<rparr>)" "gap (g\<lparr>gc_stack_overflow := x\<rparr>) = gap g"
  using marks_grow_overflow [OF marks_grow_refl, of g x] marks_grow_gap by blast+

lemma deal_with_stack_overflow_spec:
  assumes "layout g" "gap g" "gc_stack_overflow g \<or> closed g"
  shows "\<exists>g'. gc_deal_with_stack_overflow g = Some g' \<and> marks_grow g g' \<and> closed g' \<and>
    marked g' \<subseteq> (points_to g)\<^sup>* `` marked g"
  using assms
proof (induction "unmarked g" arbitrary: g rule: less_induct)
  case less
  show ?case
  proof (cases "gc_stack_overflow g")
    case False
    with less.prems(3) have "closed g" by blast
    with False show ?thesis by (subst gc_deal_with_stack_overflow.simps) (auto simp: marks_grow_refl)
  next
    case True
    let ?g0 = "g\<lparr>gc_stack_overflow := False\<rparr>"
    have g0: "layout ?g0" "gap ?g0" "marked ?g0 = marked g" "marks_grow g ?g0" "unmarked ?g0 = unmarked g"
      using less.prems by (simp_all add: overflow_fields overflow_same)
    have tot: "n_blocks_total ?g0 = n_blocks_total g" by (simp add: n_blocks_total_def)
    obtain g1 where g1: "remark_loop [0..<n_blocks_total g] ?g0 = Some g1"
      "marked_from (marked ?g0 \<inter> {0..<n_blocks_total g}) ?g0 g1"
    proof -
      have "set [0..<n_blocks_total g] \<subseteq> {..<n_blocks_total ?g0}" by (auto simp: tot)
      from remark_loop_spec [OF g0(1,2) this] show ?thesis by (elim exE conjE) (rule that, simp_all)
    qed
    have all: "marked ?g0 \<inter> {0..<n_blocks_total g} = marked g"
    proof -
      have "marked g \<subseteq> {0..<n_blocks_total g}" by (auto simp: marked_def)
      then show ?thesis unfolding g0(3) by (rule Int_absorb2)
    qed
    have grow0: "marks_grow ?g0 g1" using g1(2) by (simp add: marked_from_def)
    have grow: "marks_grow g g1" by (rule marks_grow_trans [OF g0(4) grow0])
    have run: "gc_deal_with_stack_overflow g = gc_deal_with_stack_overflow g1"
      using True g1(1) by (subst gc_deal_with_stack_overflow.simps) simp
    note pt = points_to_grow [OF g0(4) less.prems(2)] and pt1 = points_to_grow [OF grow less.prems(2)]
    have reach: "marked g1 \<subseteq> (points_to g)\<^sup>* `` marked g" using g1(2) pt g0(3) by (simp add: marked_from_def)
    have l1: "layout g1" "gap g1" using marks_growD(5) [OF grow less.prems(1)] marks_grow_gap [OF grow] less.prems(2) by simp_all
    show ?thesis
    proof (cases "gc_stack_overflow g1")
      case ov: True
      have "marked g \<subset> marked g1" using g1(2) ov g0(3) by (simp add: marked_from_def)
      then have "unmarked g1 < unmarked g" using unmarked_less [OF grow] by blast
      from less.hyps [OF this l1 disjI1 [OF ov]] obtain g' where
        g': "gc_deal_with_stack_overflow g1 = Some g'" "marks_grow g1 g'" "closed g'" "marked g' \<subseteq> (points_to g1)\<^sup>* `` marked g1"
        by blast
      have "marked g' \<subseteq> (points_to g)\<^sup>* `` marked g" using g'(4) image_rtrancl_mono [OF reach] pt1 by auto
      with g' run marks_grow_trans [OF grow g'(2)] show ?thesis by auto
    next
      case nov: False
      have "children ?g0 b \<subseteq> marked g1" if "b \<in> marked g1" for b
      proof (rule marked_from_children [OF g1(2) nov])
        show "b \<in> (marked g1 - marked ?g0) \<union> (marked ?g0 \<inter> {0..<n_blocks_total g})" using that unfolding all unfolding g0(3) by blast
      qed
      then have "closed g1" using closed_grow [OF grow0 g0(2)] by blast
      moreover have "gc_deal_with_stack_overflow g1 = Some g1" using nov by (subst gc_deal_with_stack_overflow.simps) simp
      ultimately show ?thesis using run grow reach by auto
    qed
  qed
qed

lemma collect_root_spec:
  assumes "layout g" "gap g" "gc_stack_overflow g \<or> closed g"
  shows "\<exists>g'. gc_collect_root ps g = Some g' \<and> marks_grow g g' \<and> root_heads ps g \<subseteq> marked g' \<and>
    marked g' \<subseteq> (points_to g)\<^sup>* `` (marked g \<union> root_heads ps g) \<and> (gc_stack_overflow g' \<or> closed g')"
  using assms
proof (induction ps arbitrary: g)
  case Nil
  then show ?case by (auto simp: marks_grow_refl root_heads_def)
next
  case (Cons p ps)
  let ?c = "BLOCK_FROM_PTR g p"
  show ?case
  proof (cases "VERIFY_PTR g p \<and> kind g ?c = AT_HEAD")
    case False
    then have "gc_collect_root (p # ps) g = gc_collect_root ps g" by (auto simp: Let_def)
    moreover have "root_heads (p # ps) g \<subseteq> root_heads ps g \<union> marked g" "root_heads ps g \<subseteq> root_heads (p # ps) g"
      using False by (auto simp: root_heads_Cons heads_def marked_def)
    moreover obtain g' where g': "gc_collect_root ps g = Some g'" "marks_grow g g'" "root_heads ps g \<subseteq> marked g'"
      "marked g' \<subseteq> (points_to g)\<^sup>* `` (marked g \<union> root_heads ps g)" "gc_stack_overflow g' \<or> closed g'"
      using Cons.IH [OF Cons.prems] by blast
    moreover have "marked g \<subseteq> marked g'" by (rule marks_grow_heads(2) [OF g'(2)])
    moreover have "(points_to g)\<^sup>* `` (marked g \<union> root_heads ps g) \<subseteq> (points_to g)\<^sup>* `` (marked g \<union> root_heads (p # ps) g)"
      using calculation(3) by (intro Image_mono) auto
    ultimately show ?thesis by (intro exI [of _ g']) auto
  next
    case True
    have c: "?c < n_blocks_total g" using verify_block [OF Cons.prems(1)] True by blast
    let ?g0 = "ATB_HEAD_TO_MARK ?c g"
    note m = mark_one [OF Cons.prems(1) c conjunct2 [OF True]]
    have l0: "layout ?g0" "gap ?g0" using marks_growD(5) [OF m(1) Cons.prems(1)] marks_grow_gap [OF m(1)] Cons.prems(2) by simp_all
    obtain g1 where g1: "gc_mark_subtree ?c ?g0 = Some g1" "marked_from {?c} ?g0 g1"
      using mark_subtree_spec [OF l0, of ?c] m(2) by auto
    have grow0: "marks_grow ?g0 g1" using g1(2) by (simp add: marked_from_def)
    have grow: "marks_grow g g1" by (rule marks_grow_trans [OF m(1) grow0])
    have l1: "layout g1" "gap g1" using marks_growD(5) [OF grow Cons.prems(1)] marks_grow_gap [OF grow] Cons.prems(2) by simp_all
    have ovsame: "gc_stack_overflow ?g0 = gc_stack_overflow g" by (simp add: ATB_HEAD_TO_MARK_def)
    have pre1: "gc_stack_overflow g1 \<or> closed g1"
    proof (rule disjCI)
      assume "\<not> closed g1"
      show "gc_stack_overflow g1"
      proof (rule ccontr)
        assume nov: "\<not> gc_stack_overflow g1"
        then have cl: "closed g" using g1(2) ovsame Cons.prems(3) by (auto simp: marked_from_def)
        have "children ?g0 b \<subseteq> marked g1" if "b \<in> marked g1" for b
        proof (cases "b \<in> (marked g1 - marked ?g0) \<union> {?c}")
          case True
          then show ?thesis by (rule marked_from_children [OF g1(2) nov])
        next
          case False
          then have b: "b \<in> marked g" using that m(2) by auto
          then have "children g b \<subseteq> marked g" using cl by (simp add: closed_def)
          moreover have "children ?g0 b = children g b" using marks_grow_children [OF m(1) Cons.prems(2)] b marked_heads by blast
          ultimately show ?thesis using marks_grow_heads(2) [OF grow] by blast
        qed
        then have "closed g1" using closed_grow [OF grow0 l0(2)] by blast
        with \<open>\<not> closed g1\<close> show False ..
      qed
    qed
    have rh: "root_heads (p # ps) g = insert ?c (root_heads ps g)" using True c by (auto simp: root_heads_Cons heads_def)
    obtain g' where g': "gc_collect_root ps g1 = Some g'" "marks_grow g1 g'" "root_heads ps g1 \<subseteq> marked g'"
      "marked g' \<subseteq> (points_to g1)\<^sup>* `` (marked g1 \<union> root_heads ps g1)" "gc_stack_overflow g' \<or> closed g'"
      using Cons.IH [OF l1 pre1] by blast
    let ?S = "marked g \<union> root_heads (p # ps) g"
    have "marked g1 \<subseteq> (points_to g)\<^sup>* `` marked ?g0" using g1(2) points_to_grow [OF m(1) Cons.prems(2)] by (simp add: marked_from_def)
    moreover have "marked ?g0 \<subseteq> ?S" using m(2) rh by auto
    ultimately have "marked g1 \<subseteq> (points_to g)\<^sup>* `` ?S" by blast
    moreover have "root_heads ps g1 \<subseteq> (points_to g)\<^sup>* `` ?S" using marks_grow_root_heads [OF grow] rh by blast
    ultimately have "(points_to g)\<^sup>* `` (marked g1 \<union> root_heads ps g1) \<subseteq> (points_to g)\<^sup>* `` ?S" by (intro image_rtrancl_mono) blast
    then have "marked g' \<subseteq> (points_to g)\<^sup>* `` ?S" using g'(4) points_to_grow [OF grow Cons.prems(2)] by simp
    moreover have "root_heads (p # ps) g \<subseteq> marked g'"
      using g'(3) marks_grow_root_heads [OF grow] rh m(2) marks_grow_heads(2) [OF grow0] marks_grow_heads(2) [OF g'(2)] by auto
    moreover have "gc_collect_root (p # ps) g = Some g'" using True g1(1) g'(1) by (simp add: Let_def)
    ultimately show ?thesis using marks_grow_trans [OF grow g'(2)] g'(5) by auto
  qed
qed

lemma closed_reach:
  assumes "closed g" "A \<subseteq> marked g"
  shows "(points_to g)\<^sup>* `` A \<subseteq> marked g"
proof
  fix c assume "c \<in> (points_to g)\<^sup>* `` A"
  then obtain a where "(a, c) \<in> (points_to g)\<^sup>*" "a \<in> marked g" using assms(2) by auto
  then show "c \<in> marked g"
    by (induction rule: rtrancl_induct) (use assms(1) in \<open>auto simp: closed_def points_to_def\<close>)
qed

end
