(* ===== verification/Py_Gc_Sweep.thy ===== *)
theory Py_Gc_Sweep
  imports Py_Gc_Mark
begin

text \<open>
  The sweep phase and a whole collection: what is left are the chains that can be reached from
  the roots, and nothing of them changes.
\<close>

section \<open>Chains\<close>

text \<open>Every block in a tail follows a block in use.\<close>

definition tails_ok :: "gc \<Rightarrow> bool" where
  "tails_ok g \<longleftrightarrow> (\<forall>b < n_blocks_total g. kind g b = AT_TAIL \<longrightarrow> 0 < b \<and> kind g (b - 1) \<noteq> AT_FREE)"

definition in_chain :: "gc \<Rightarrow> nat \<Rightarrow> nat \<Rightarrow> bool" where
  "in_chain g h b \<longleftrightarrow> h \<le> b \<and> (\<forall>i. h < i \<and> i \<le> b \<longrightarrow> kind g i = AT_TAIL)"

lemma in_chain_step: "kind g (Suc b) = AT_TAIL \<Longrightarrow> in_chain g h b \<Longrightarrow> in_chain g h (Suc b)"
  by (auto simp: in_chain_def le_Suc_eq)

lemma in_chain_refl [simp]: "in_chain g b b"
  by (auto simp: in_chain_def)

lemma in_chain_head: "in_chain g h b \<Longrightarrow> kind g b \<noteq> AT_TAIL \<Longrightarrow> h = b"
  by (metis in_chain_def le_neq_implies_less order_refl)

lemma in_chain_unique:
  assumes "in_chain g h b" "in_chain g h' b" "kind g h \<noteq> AT_TAIL" "kind g h' \<noteq> AT_TAIL"
  shows "h = h'"
  using assms by (metis in_chain_def linorder_neqE_nat)

section \<open>The sweep\<close>

text \<open>The flag \<open>free_tail\<close> when the sweep comes to a block.\<close>

fun sweep_flag :: "gc \<Rightarrow> nat \<Rightarrow> bool" where
  "sweep_flag g 0 = False"
| "sweep_flag g (Suc b) = (if kind g b = AT_HEAD then True else if kind g b = AT_MARK then False else sweep_flag g b)"

definition swept_kind :: "gc \<Rightarrow> nat \<Rightarrow> byte" where
  "swept_kind g b =
     (if kind g b = AT_MARK then AT_HEAD else if kind g b = AT_TAIL \<and> \<not> sweep_flag g b then AT_TAIL else AT_FREE)"

definition fixed where
  "fixed g = (gc_alloc_table_byte_len g, gc_pool_start g, gc_pool_end g, gc_stack_overflow g, gc_lock_depth g,
     gc_auto_collect_enabled g, gc_alloc_amount g, gc_alloc_threshold g, gc_last_free_atb_index g,
     length (gc_table g), length (gc_pool g))"

lemma fixed_total: "fixed g' = fixed g \<Longrightarrow> n_blocks_total g' = n_blocks_total g"
  by (simp add: fixed_def n_blocks_total_def)

lemma fixed_layout: "fixed g' = fixed g \<Longrightarrow> layout g' = layout g"
  by (simp add: fixed_def n_blocks_total_def layout_def)

lemma layout_flag: "layout g \<Longrightarrow> b < n_blocks_total g \<Longrightarrow> gc_alloc_table_byte_len g + b div 8 < length (gc_table g)"
  unfolding layout_def by linarith

text \<open>What the loop body makes of a block, in terms of the kinds before the sweep.\<close>

definition sweep_block :: "(nat \<Rightarrow> ptr list \<Rightarrow> ptr list) \<Rightarrow> nat \<Rightarrow> bool \<Rightarrow> gc \<Rightarrow> gc" where
  "sweep_block del b free_tail g =
     (if kind g b = AT_HEAD then
        (let g1 = (if FTB_GET g b then FTB_CLEAR b (call_del del b g) else g)
         in ATB_ANY_TO_FREE b (g1\<lparr>gc_collected := gc_collected g1 + 1\<rparr>))
      else if kind g b = AT_TAIL then (if free_tail then ATB_ANY_TO_FREE b g else g)
      else if kind g b = AT_MARK then ATB_MARK_TO_HEAD b g else g)"

lemma sweep_loop_step:
  "sweep_loop del (b # bs) free_tail g =
     sweep_loop del bs (if kind g b = AT_HEAD then True else if kind g b = AT_MARK then False else free_tail)
       (sweep_block del b free_tail g)"
  by (simp add: sweep_block_def Let_def)

lemma call_del_sel [simp]:
  "gc_table (call_del del b g) = gc_table g" "kind (call_del del b g) = kind g" "FTB_GET (call_del del b g) = FTB_GET g"
  "gc_alloc_table_byte_len (call_del del b g) = gc_alloc_table_byte_len g"
  "gc_collected (call_del del b g) = gc_collected g" "n_blocks_total (call_del del b g) = n_blocks_total g"
  by (auto simp: call_del_def n_blocks_total_def fun_eq_iff ATB_GET_KIND_def FTB_GET_def)

lemma fixed_updates:
  "fixed (atb_update f b g) = fixed g" "fixed (ftb_update f b g) = fixed g" "fixed (g\<lparr>gc_collected := n\<rparr>) = fixed g"
  "(\<And>ws. length (del b ws) = length ws) \<Longrightarrow> fixed (call_del del b g) = fixed g"
  by (simp_all add: fixed_def call_del_def)

lemma sweep_block:
  fixes free_tail :: bool
  assumes "layout g" "b < n_blocks_total g" "\<And>ws. length (del b ws) = length ws"
  defines "g' \<equiv> sweep_block del b free_tail g"
  shows "fixed g' = fixed g"
    "b' < n_blocks_total g \<Longrightarrow> kind g' b' =
       (if b' \<noteq> b then kind g b'
        else if kind g b = AT_MARK then AT_HEAD else if kind g b = AT_TAIL \<and> \<not> free_tail then AT_TAIL else AT_FREE)"
    "FTB_GET g' b' \<longleftrightarrow> FTB_GET g b' \<and> \<not> (b' = b \<and> kind g b = AT_HEAD)"
    "gc_collected g' = gc_collected g + (if kind g b = AT_HEAD then 1 else 0)"
    "\<not> (kind g b = AT_HEAD \<and> FTB_GET g b) \<Longrightarrow> gc_pool g' = gc_pool g"
proof -
  note upd = layout_block [OF assms(1,2)] layout_flag [OF assms(1,2)]
  define g1 where "g1 = (if FTB_GET g b then FTB_CLEAR b (call_del del b g) else g)"
  define g2 where "g2 = g1\<lparr>gc_collected := Suc (gc_collected g1)\<rparr>"
  have f1: "fixed g1 = fixed g" using assms(3) by (simp add: g1_def FTB_CLEAR_def fixed_updates)
  have f2: "fixed g2 = fixed g" using f1 by (simp add: g2_def fixed_updates)
  have k1: "kind g1 b' = kind g b'" if "b' < n_blocks_total g" for b'
    using that by (simp add: g1_def FTB_CLEAR_def kind_ftb_update)
  have flag: "FTB_GET g1 b' \<longleftrightarrow> FTB_GET g b' \<and> b' \<noteq> b" for b'
    using upd(2) assms(3) by (auto simp: g1_def ftb_clear)
  have c: "gc_collected g1 = gc_collected g" by (simp add: g1_def FTB_CLEAR_def)
  have g2: "kind g2 = kind g1" "FTB_GET g2 = FTB_GET g1" unfolding g2_def by (auto intro: kind_cong flag_cong)
  have len: "length (gc_table g2) = length (gc_table g)" "n_blocks_total g2 = n_blocks_total g"
    using f2 by (auto simp: fixed_def n_blocks_total_def)
  have free: "kind (ATB_ANY_TO_FREE b g2) b' = (if b' = b then AT_FREE else kind g b')" if "b' < n_blocks_total g" for b'
    using atb_any_to_free [of b g2 b'] upd(1) k1 [OF that] g2(1) len(1) by simp
  show "fixed g' = fixed g" using f2 f1 by (auto simp: g'_def sweep_block_def Let_def g1_def [symmetric] g2_def [symmetric] atb_defs fixed_updates)
  show "kind g' b' =
       (if b' \<noteq> b then kind g b'
        else if kind g b = AT_MARK then AT_HEAD else if kind g b = AT_TAIL \<and> \<not> free_tail then AT_TAIL else AT_FREE)"
    if "b' < n_blocks_total g"
    using kind_range [of g b] free [OF that] upd(1)
    by (auto simp: g'_def sweep_block_def Let_def g1_def [symmetric] g2_def [symmetric] atb_any_to_free atb_mark_to_head)
  show "FTB_GET g' b' \<longleftrightarrow> FTB_GET g b' \<and> \<not> (b' = b \<and> kind g b = AT_HEAD)"
    using flag g2(2) len(2) assms(2)
    by (auto simp: g'_def sweep_block_def Let_def g1_def [symmetric] g2_def [symmetric] atb_defs ftb_atb_update)
  show "gc_collected g' = gc_collected g + (if kind g b = AT_HEAD then 1 else 0)"
    using c by (auto simp: g'_def sweep_block_def Let_def g1_def [symmetric] atb_defs)
  show "gc_pool g' = gc_pool g" if "\<not> (kind g b = AT_HEAD \<and> FTB_GET g b)"
    using that by (auto simp: g'_def sweep_block_def Let_def atb_defs)
qed

lemma sweep_flag_cong: "\<forall>i < b. kind g' i = kind g i \<Longrightarrow> sweep_flag g' b = sweep_flag g b"
  by (induction b) auto

lemma sweep_loop:
  assumes "layout g" "a \<le> n_blocks_total g" "n_blocks_total g0 = n_blocks_total g"
    and "\<And>b ws. length (del b ws) = length ws"
    and "\<forall>b. a \<le> b \<and> b < n_blocks_total g \<longrightarrow> kind g b = kind g0 b"
  defines "g' \<equiv> sweep_loop del [a..<n_blocks_total g] (sweep_flag g0 a) g"
  shows "fixed g' = fixed g \<and>
    (\<forall>b < n_blocks_total g. kind g' b = (if b < a then kind g b else swept_kind g0 b)) \<and>
    (\<forall>b. FTB_GET g' b \<longleftrightarrow> FTB_GET g b \<and> \<not> (a \<le> b \<and> b < n_blocks_total g \<and> kind g0 b = AT_HEAD)) \<and>
    gc_collected g' = gc_collected g + card {b. a \<le> b \<and> b < n_blocks_total g \<and> kind g0 b = AT_HEAD} \<and>
    ((\<forall>b. a \<le> b \<and> b < n_blocks_total g \<and> kind g0 b = AT_HEAD \<longrightarrow> \<not> FTB_GET g b) \<longrightarrow> gc_pool g' = gc_pool g)"
  using assms(1,2,3,5) unfolding g'_def
proof (induction "n_blocks_total g - a" arbitrary: a g)
  case 0
  then have "a = n_blocks_total g" by simp
  then show ?case by (auto simp: card_eq_0_iff)
next
  case (Suc n)
  let ?N = "n_blocks_total g"
  define g1 where "g1 = sweep_block del a (sweep_flag g0 a) g"
  have a: "a < ?N" using Suc.hyps(2) by simp
  then have ka: "kind g a = kind g0 a" using Suc.prems(4) by simp
  note b = sweep_block [where del = del, OF Suc.prems(1) a assms(4), where free_tail = "sweep_flag g0 a", folded g1_def]
  have tot: "n_blocks_total g1 = ?N" by (rule fixed_total [OF b(1)])
  have run: "sweep_loop del [a..<?N] (sweep_flag g0 a) g = sweep_loop del [Suc a..<n_blocks_total g1] (sweep_flag g0 (Suc a)) g1"
    using a by (simp add: upt_conv_Cons sweep_loop_step g1_def [symmetric] tot ka del: sweep_loop.simps)
  have "layout g1" using fixed_layout [OF b(1)] Suc.prems(1) by simp
  moreover have "\<forall>i. Suc a \<le> i \<and> i < n_blocks_total g1 \<longrightarrow> kind g1 i = kind g0 i" using b(2) Suc.prems(4) tot by simp
  moreover have "n = n_blocks_total g1 - Suc a" "Suc a \<le> n_blocks_total g1" "n_blocks_total g0 = n_blocks_total g1"
    using Suc.hyps(2) a Suc.prems(3) tot by simp_all
  ultimately have ih: "fixed (sweep_loop del [a..<?N] (sweep_flag g0 a) g) = fixed g1"
    "\<forall>b < ?N. kind (sweep_loop del [a..<?N] (sweep_flag g0 a) g) b = (if b < Suc a then kind g1 b else swept_kind g0 b)"
    "\<forall>b. FTB_GET (sweep_loop del [a..<?N] (sweep_flag g0 a) g) b \<longleftrightarrow>
       FTB_GET g1 b \<and> \<not> (Suc a \<le> b \<and> b < ?N \<and> kind g0 b = AT_HEAD)"
    "gc_collected (sweep_loop del [a..<?N] (sweep_flag g0 a) g) =
       gc_collected g1 + card {b. Suc a \<le> b \<and> b < ?N \<and> kind g0 b = AT_HEAD}"
    "(\<forall>b. Suc a \<le> b \<and> b < ?N \<and> kind g0 b = AT_HEAD \<longrightarrow> \<not> FTB_GET g1 b) \<longrightarrow>
       gc_pool (sweep_loop del [a..<?N] (sweep_flag g0 a) g) = gc_pool g1"
    using Suc.hyps(1) [of g1 "Suc a"] unfolding run tot by blast+
  have "kind (sweep_loop del [a..<?N] (sweep_flag g0 a) g) i = (if i < a then kind g i else swept_kind g0 i)" if "i < ?N" for i
    using ih(2) that b(2) [OF that] ka by (auto simp: swept_kind_def less_Suc_eq)
  moreover have "FTB_GET (sweep_loop del [a..<?N] (sweep_flag g0 a) g) i \<longleftrightarrow>
      FTB_GET g i \<and> \<not> (a \<le> i \<and> i < ?N \<and> kind g0 i = AT_HEAD)" for i
    unfolding ih(3) [rule_format, of i] b(3) [of i] using a ka by (cases "i = a") (auto simp: Suc_le_eq)
  moreover have "card {b. a \<le> b \<and> b < ?N \<and> kind g0 b = AT_HEAD} =
      (if kind g0 a = AT_HEAD then 1 else 0) + card {b. Suc a \<le> b \<and> b < ?N \<and> kind g0 b = AT_HEAD}"
  proof (cases "kind g0 a = AT_HEAD")
    case True
    then have "{b. a \<le> b \<and> b < ?N \<and> kind g0 b = AT_HEAD} = insert a {b. Suc a \<le> b \<and> b < ?N \<and> kind g0 b = AT_HEAD}"
      using a by (auto simp: Suc_le_eq le_less)
    then show ?thesis using True by simp
  next
    case False
    then have "{b. a \<le> b \<and> b < ?N \<and> kind g0 b = AT_HEAD} = {b. Suc a \<le> b \<and> b < ?N \<and> kind g0 b = AT_HEAD}"
      by (auto simp: Suc_le_eq le_less)
    then show ?thesis using False by simp
  qed
  moreover have "gc_pool (sweep_loop del [a..<?N] (sweep_flag g0 a) g) = gc_pool g"
    if none: "\<forall>b. a \<le> b \<and> b < ?N \<and> kind g0 b = AT_HEAD \<longrightarrow> \<not> FTB_GET g b"
  proof -
    have "gc_pool g1 = gc_pool g" using b(5) none a ka by auto
    moreover have "\<forall>b. Suc a \<le> b \<and> b < ?N \<and> kind g0 b = AT_HEAD \<longrightarrow> \<not> FTB_GET g1 b" using none b(3) by auto
    ultimately show ?thesis using ih(5) by simp
  qed
  ultimately show ?case using ih(1,4) b(1,4) ka by simp
qed

section \<open>A collection\<close>

lemma tail_owner:
  assumes "tails_ok g" "b < n_blocks_total g" "kind g b = AT_TAIL"
  shows "\<exists>h \<in> heads g. in_chain g h b \<and> (sweep_flag g b \<longleftrightarrow> kind g h = AT_HEAD)"
  using assms(2,3)
proof (induction b)
  case 0
  then show ?case using assms(1) by (auto simp: tails_ok_def)
next
  case (Suc b)
  have "0 < Suc b \<and> kind g (Suc b - 1) \<noteq> AT_FREE" using assms(1) Suc.prems unfolding tails_ok_def by blast
  then have b: "kind g b \<noteq> AT_FREE" "b < n_blocks_total g" using Suc.prems(1) by simp_all
  show ?case
  proof (cases "kind g b = AT_TAIL")
    case True
    with Suc.IH b(2) obtain h where "h \<in> heads g" "in_chain g h b" "sweep_flag g b \<longleftrightarrow> kind g h = AT_HEAD" by blast
    then show ?thesis using in_chain_step [OF Suc.prems(2)] True by auto
  next
    case False
    then have "b \<in> heads g" using b kind_range [of g b] by (auto simp: heads_def)
    then show ?thesis using in_chain_step [OF Suc.prems(2) in_chain_refl] False b(1) kind_range [of g b] by auto
  qed
qed

lemma swept_kind_live:
  assumes "tails_ok g" "b < n_blocks_total g"
  shows "swept_kind g b =
    (if \<exists>h \<in> marked g. in_chain g h b then (if kind g b = AT_MARK then AT_HEAD else kind g b) else AT_FREE)"
proof (cases "kind g b = AT_TAIL")
  case True
  then obtain h where h: "h \<in> heads g" "in_chain g h b" "sweep_flag g b \<longleftrightarrow> kind g h = AT_HEAD"
    using tail_owner [OF assms] by blast
  have "h' = h" if "h' \<in> marked g" "in_chain g h' b" for h'
    using in_chain_unique [OF that(2) h(2)] that(1) h(1) by (auto simp: marked_def heads_def)
  then have "(\<exists>h \<in> marked g. in_chain g h b) \<longleftrightarrow> h \<in> marked g" using h(2) by blast
  also have "\<dots> \<longleftrightarrow> \<not> sweep_flag g b" using h(1,3) by (auto simp: heads_def marked_def)
  finally show ?thesis using True by (simp add: swept_kind_def)
next
  case False
  then have "(\<exists>h \<in> marked g. in_chain g h b) \<longleftrightarrow> kind g b = AT_MARK"
    using in_chain_head [of g _ b] in_chain_refl assms(2) by (force simp: marked_def)
  then show ?thesis using False by (simp add: swept_kind_def)
qed

text \<open>The heads that can be reached from some words, and the blocks of their chains.\<close>

definition live :: "ptr list \<Rightarrow> gc \<Rightarrow> nat set" where
  "live roots g = (points_to g)\<^sup>* `` root_heads roots g"

definition live_blocks :: "ptr list \<Rightarrow> gc \<Rightarrow> nat set" where
  "live_blocks roots g = {b. b < n_blocks_total g \<and> (\<exists>h \<in> live roots g. in_chain g h b)}"

text \<open>
  The invariant: no marks outside a collection, finaliser flags on heads only, and no free block
  before the byte where the search for free blocks starts.
\<close>

definition gc_ok :: "gc \<Rightarrow> bool" where
  "gc_ok g \<longleftrightarrow> layout g \<and> tails_ok g \<and> marked g = {} \<and>
     (\<forall>b < n_blocks_total g. FTB_GET g b \<longrightarrow> kind g b = AT_HEAD) \<and>
     (\<forall>b < n_blocks_total g. b < BLOCKS_PER_ATB * gc_last_free_atb_index g \<longrightarrow> kind g b \<noteq> AT_FREE)"

lemma root_heads_append: "root_heads (ps @ qs) g = root_heads ps g \<union> root_heads qs g"
  by (auto simp: root_heads_def)

lemma live_heads: "live roots g \<subseteq> heads g"
proof
  fix c assume "c \<in> live roots g"
  then obtain a where "(a, c) \<in> (points_to g)\<^sup>*" "a \<in> heads g" by (auto simp: live_def root_heads_def)
  then show "c \<in> heads g" by (induction rule: rtrancl_induct) (auto simp: points_to_def children_def)
qed

text \<open>The mark phase, from a heap without marks.\<close>

lemma mark_phase:
  assumes "layout g" "gap g" "marked g = {}" "\<not> gc_stack_overflow g"
  shows "\<exists>g1 g2 g3. gc_collect_root roots g = Some g1 \<and> gc_collect_root stack g1 = Some g2 \<and>
    gc_deal_with_stack_overflow g2 = Some g3 \<and> marks_grow g g3 \<and> marked g3 = live (roots @ stack) g"
proof -
  let ?R = "(points_to g)\<^sup>*"
  have pre: "gc_stack_overflow g \<or> closed g" using assms(3) by (simp add: closed_def)
  from collect_root_spec [OF assms(1,2) pre, of roots] obtain g1 where
    g1: "gc_collect_root roots g = Some g1" "marks_grow g g1" "root_heads roots g \<subseteq> marked g1"
      "marked g1 \<subseteq> ?R `` (marked g \<union> root_heads roots g)" "gc_stack_overflow g1 \<or> closed g1"
    by (elim exE conjE) (rule that)
  have l1: "layout g1" "gap g1" using marks_growD(5) [OF g1(2) assms(1)] marks_grow_gap [OF g1(2)] assms(2) by simp_all
  from collect_root_spec [OF l1 g1(5), of stack] obtain g2 where
    g2: "gc_collect_root stack g1 = Some g2" "marks_grow g1 g2" "root_heads stack g1 \<subseteq> marked g2"
      "marked g2 \<subseteq> (points_to g1)\<^sup>* `` (marked g1 \<union> root_heads stack g1)" "gc_stack_overflow g2 \<or> closed g2"
    by (elim exE conjE) (rule that)
  have gr2: "marks_grow g g2" by (rule marks_grow_trans [OF g1(2) g2(2)])
  have l2: "layout g2" "gap g2" using marks_growD(5) [OF gr2 assms(1)] marks_grow_gap [OF gr2] assms(2) by simp_all
  from deal_with_stack_overflow_spec [OF l2 g2(5)] obtain g3 where
    g3: "gc_deal_with_stack_overflow g2 = Some g3" "marks_grow g2 g3" "closed g3" "marked g3 \<subseteq> (points_to g2)\<^sup>* `` marked g2"
    by (elim exE conjE) (rule that)
  have gr3: "marks_grow g g3" by (rule marks_grow_trans [OF gr2 g3(2)])
  note pt = points_to_grow [OF g1(2) assms(2)] points_to_grow [OF gr2 assms(2)] points_to_grow [OF gr3 assms(2)]
  note rh = marks_grow_root_heads [OF g1(2), of stack]
  let ?S = "root_heads (roots @ stack) g"
  have "marked g1 \<subseteq> ?R `` ?S" using g1(4) assms(3) by (auto simp: root_heads_append)
  moreover have "root_heads stack g1 \<subseteq> ?R `` ?S" using rh by (auto simp: root_heads_append)
  ultimately have "?R `` (marked g1 \<union> root_heads stack g1) \<subseteq> ?R `` ?S" by (intro image_rtrancl_mono) simp
  then have "marked g2 \<subseteq> ?R `` ?S" using g2(4) pt(1) by simp
  then have "?R `` marked g2 \<subseteq> ?R `` ?S" by (rule image_rtrancl_mono)
  then have up: "marked g3 \<subseteq> ?R `` ?S" using g3(4) pt(2) by simp
  have "?S \<subseteq> marked g3"
    using g1(3) g2(3) marks_grow_heads(2) [OF g2(2)] marks_grow_heads(2) [OF g3(2)] unfolding root_heads_append rh by blast
  then have "?R `` ?S \<subseteq> marked g3" using closed_reach [OF g3(3)] pt(3) by simp
  with up have "marked g3 = live (roots @ stack) g" by (simp add: live_def)
  with g1(1) g2(1) g3(1) gr3 show ?thesis by blast
qed

lemma start_state:
  fixes g :: gc and d n
  defines "g0 \<equiv> g\<lparr>gc_lock_depth := d, gc_alloc_amount := n, gc_stack_overflow := False\<rparr>"
  shows "layout g0 = layout g" "gap g0 = gap g" "marked g0 = marked g" "kind g0 = kind g" "FTB_GET g0 = FTB_GET g"
    "n_blocks_total g0 = n_blocks_total g" "live roots g0 = live roots g" "tails_ok g0 = tails_ok g"
proof -
  show k: "kind g0 = kind g" "FTB_GET g0 = FTB_GET g" "n_blocks_total g0 = n_blocks_total g"
    by (simp_all add: g0_def fun_eq_iff ATB_GET_KIND_def FTB_GET_def n_blocks_total_def)
  have v: "VERIFY_PTR g0 = VERIFY_PTR g" "BLOCK_FROM_PTR g0 = BLOCK_FROM_PTR g" "chain_words g0 = chain_words g" "heads g0 = heads g"
    using k by (simp_all add: g0_def fun_eq_iff VERIFY_PTR_def BLOCK_FROM_PTR_def chain_words_def heads_def)
  show "layout g0 = layout g" "gap g0 = gap g" "marked g0 = marked g" "tails_ok g0 = tails_ok g"
    using k by (simp_all add: layout_def gap_def marked_def tails_ok_def) (simp add: g0_def)
  show "live roots g0 = live roots g"
    by (simp add: live_def points_to_def root_heads_def children_def chain_end_def k v)
qed

text \<open>What a collection does not change.\<close>

definition frame where
  "frame g = (n_blocks_total g, gc_alloc_table_byte_len g, gc_pool_start g, gc_pool_end g, gc_lock_depth g,
     gc_auto_collect_enabled g, gc_alloc_threshold g)"

lemma gc_collect_spec:
  assumes "gc_ok g" "gap g" "\<And>b ws. length (del b ws) = length ws"
  shows "\<exists>g'. gc_collect del roots stack g = Some g' \<and> layout g' \<and> frame g' = frame g \<and>
    gc_last_free_atb_index g' = 0 \<and> gc_alloc_amount g' = 0 \<and>
    (\<forall>b < n_blocks_total g. kind g' b = (if b \<in> live_blocks (roots @ stack) g then kind g b else AT_FREE)) \<and>
    (\<forall>b < n_blocks_total g. FTB_GET g' b \<longleftrightarrow> FTB_GET g b \<and> b \<in> live (roots @ stack) g) \<and>
    gc_collected g' = card (heads g - live (roots @ stack) g) \<and>
    ((\<forall>b \<in> heads g - live (roots @ stack) g. \<not> FTB_GET g b) \<longrightarrow> gc_pool g' = gc_pool g)"
proof -
  define g0 where "g0 = g\<lparr>gc_lock_depth := gc_lock_depth g + 1, gc_alloc_amount := 0, gc_stack_overflow := False\<rparr>"
  note s0 = start_state [where g = g and d = "gc_lock_depth g + 1" and n = 0, folded g0_def]
  have ok: "layout g" "tails_ok g" "marked g = {}" "\<forall>b < n_blocks_total g. FTB_GET g b \<longrightarrow> kind g b = AT_HEAD"
    using assms(1) by (simp_all add: gc_ok_def)
  let ?L = "live (roots @ stack) g" and ?N = "n_blocks_total g"
  have pre: "layout g0" "gap g0" "marked g0 = {}" "\<not> gc_stack_overflow g0" using ok assms(2) s0 by (simp_all add: g0_def)
  from mark_phase [OF pre, of roots stack, unfolded s0] obtain g1 g2 g3 where
    m: "gc_collect_root roots g0 = Some g1" "gc_collect_root stack g1 = Some g2" "gc_deal_with_stack_overflow g2 = Some g3"
      "marks_grow g0 g3" "marked g3 = ?L"
    by (elim exE conjE) (rule that)
  have tot: "n_blocks_total g3 = ?N" using marks_growD(1) [OF m(4)] s0(6) by simp
  have k3: "kind g3 b = kind g b \<or> kind g b = AT_HEAD \<and> kind g3 b = AT_MARK" if "b < ?N" for b
    using m(4) that s0(4,6) unfolding marks_grow_def by simp
  have hd: "kind g b = AT_HEAD \<longleftrightarrow> b \<in> heads g" if "b < ?N" for b using that ok(3) by (auto simp: heads_def marked_def)
  have mk: "kind g3 b = AT_MARK \<longleftrightarrow> b \<in> ?L" if "b < ?N" for b using m(5) that tot by (auto simp: marked_def)
  have tl: "kind g3 b = AT_TAIL \<longleftrightarrow> kind g b = AT_TAIL" "kind g3 b = AT_FREE \<longleftrightarrow> kind g b = AT_FREE" if "b < ?N" for b
    using k3 [OF that] by auto
  have tails3: "tails_ok g3" using ok(2) tl tot unfolding tails_ok_def by (metis less_imp_diff_less)
  have chain3: "in_chain g3 h b = in_chain g h b" if "b < ?N" for h b using tl(1) that by (auto simp: in_chain_def)
  define h0 where "h0 = g3\<lparr>gc_collected := 0\<rparr>"
  define g4 where "g4 = gc_sweep del g3"
  have h0: "kind h0 = kind g3" "FTB_GET h0 = FTB_GET g3" "n_blocks_total h0 = ?N" "fixed h0 = fixed g3" "gc_pool h0 = gc_pool g3"
    "gc_collected h0 = 0"
    unfolding h0_def using tot by (auto intro: kind_cong flag_cong simp: n_blocks_total_def fixed_def)
  have lay3: "layout g3" using marks_growD(5) [OF m(4)] ok(1) s0(1) by simp
  have lay: "layout h0" using fixed_layout [OF h0(4)] lay3 by simp
  have g4': "g4 = sweep_loop del [0..<n_blocks_total h0] (sweep_flag g3 0) h0" by (simp add: g4_def gc_sweep_def h0_def tot n_blocks_total_def)
  have n3: "n_blocks_total g3 = n_blocks_total h0" using tot h0(3) by simp
  have heads3: "{b. b < ?N \<and> kind g3 b = AT_HEAD} = heads g - ?L"
  proof -
    have "kind g3 b = AT_HEAD \<longleftrightarrow> b \<in> heads g \<and> b \<notin> ?L" if "b < ?N" for b
      using k3 [OF that] mk [OF that] hd [OF that] by auto
    then show ?thesis by (auto simp: heads_def)
  qed
  have fl: "FTB_GET g3 = FTB_GET g" using m(4) s0(5) by (simp add: marks_grow_def)
  note sw = sweep_loop [where del = del, OF lay le0 n3 assms(3), folded g4', unfolded h0]
  define g' where "g' = g4\<lparr>gc_last_free_atb_index := 0, gc_lock_depth := gc_lock_depth g4 - 1\<rparr>"
  have run: "gc_collect del roots stack g = Some g'"
    using m(1,2,3) by (simp add: gc_collect_def gc_collect_start_def g0_def [symmetric] gc_collect_end_def Let_def g'_def g4_def)
  have s': "kind g' = kind g4" "FTB_GET g' = FTB_GET g4" unfolding g'_def by (auto intro: kind_cong flag_cong)
  have r3: "rest g3 = rest g0" using m(4) by (simp add: marks_grow_def)
  have f4: "fixed g4 = fixed g3" using sw by simp
  have "layout g'" using fixed_layout [OF f4] lay3 by (simp add: g'_def layout_def n_blocks_total_def)
  moreover have "frame g' = frame g" "gc_alloc_amount g' = 0" using f4 r3
    by (auto simp: frame_def fixed_def rest_def g0_def g'_def n_blocks_total_def)
  moreover have "kind g' b = (if b \<in> live_blocks (roots @ stack) g then kind g b else AT_FREE)" if "b < ?N" for b
  proof -
    have "kind g' b = swept_kind g3 b" using sw that s' by simp
    also have "\<dots> = (if \<exists>h \<in> ?L. in_chain g h b then (if kind g3 b = AT_MARK then AT_HEAD else kind g3 b) else AT_FREE)"
      using swept_kind_live [OF tails3, of b] that chain3 [OF that] tot m(5) by simp
    also have "\<dots> = (if b \<in> live_blocks (roots @ stack) g then kind g b else AT_FREE)"
      using k3 [OF that] that ok(3) by (auto simp: live_blocks_def marked_def)
    finally show ?thesis .
  qed
  moreover have "FTB_GET g' b \<longleftrightarrow> FTB_GET g b \<and> b \<in> ?L" if "b < ?N" for b
    using sw s' fl that ok(4) k3 [OF that] mk [OF that] by auto
  moreover have "gc_collected g' = card (heads g - ?L)" using sw by (simp add: g'_def heads3)
  moreover have "gc_pool g' = gc_pool g" if none: "\<forall>b \<in> heads g - ?L. \<not> FTB_GET g b"
  proof -
    have "\<forall>b. b \<in> heads g - ?L \<longrightarrow> \<not> FTB_GET g3 b" using none fl by simp
    then have "gc_pool g4 = gc_pool g3" using sw heads3 by blast
    then show ?thesis using r3 by (simp add: g'_def rest_def g0_def)
  qed
  ultimately show ?thesis using run by (intro exI [of _ g']) (simp add: g'_def)
qed

end
