(* ===== verification/Py_Gc_Alloc.thy ===== *)
theory Py_Gc_Alloc
  imports Py_Gc_Sweep
begin

unbundle bit_operations_syntax

text \<open>
  Allocation: the search of the table byte by byte is a first-fit search over the blocks, and the
  blocks found become one chain of zeroed words. Every operation keeps the invariant \<open>gc_ok\<close>.
\<close>

section \<open>The search\<close>

text \<open>\<open>n\<close> free blocks, the last of them \<open>i\<close>, none before \<open>lo\<close>.\<close>

definition free_run :: "gc \<Rightarrow> nat \<Rightarrow> nat \<Rightarrow> nat \<Rightarrow> bool" where
  "free_run g lo i n \<longleftrightarrow> lo + n \<le> i + 1 \<and> (\<forall>j. i + 1 - n \<le> j \<and> j \<le> i \<longrightarrow> kind g j = AT_FREE)"

lemma free_run_one: "free_run g 0 i (Suc 0) \<longleftrightarrow> kind g i = AT_FREE"
  by (auto simp: free_run_def dest: le_antisym)

fun scan :: "gc \<Rightarrow> nat list \<Rightarrow> nat \<Rightarrow> nat \<Rightarrow> (nat \<times> nat) + nat" where
  "scan g [] n f = Inr f"
| "scan g (b # bs) n f =
     (if kind g b = AT_FREE then (if f + 1 \<ge> n then Inl (b, f + 1) else scan g bs n (f + 1)) else scan g bs n 0)"

lemma scan_append:
  "scan g (bs @ cs) n f = (case scan g bs n f of Inl r \<Rightarrow> Inl r | Inr f1 \<Rightarrow> scan g cs n f1)"
  by (induction bs arbitrary: f) auto

lemma atb_is_free: "j < 4 \<Longrightarrow> ATB_IS_FREE j (gc_table g ! i) \<longleftrightarrow> kind g (4 * i + j) = AT_FREE"
proof -
  assume "j < 4"
  then have "kind g (4 * i + j) = drop_bit (2 * j) (gc_table g ! i) AND 3"
    by (simp add: ATB_GET_KIND_def BLOCKS_PER_ATB_def block_shift)
  moreover have "a AND push_bit s 3 = 0 \<longleftrightarrow> drop_bit s a AND 3 = 0" if "s \<le> 6" for a :: byte and s
  proof -
    have "drop_bit s (a AND push_bit s 3) = drop_bit s a AND 3"
      using that by (intro bit_eqI) (auto simp: three_mask bit_simps)
    moreover have "push_bit s (drop_bit s a AND 3) = a AND push_bit s 3"
      using that by (intro bit_eqI) (auto simp: three_mask bit_simps)
    ultimately show ?thesis by (metis drop_bit_of_0 push_bit_of_0)
  qed
  ultimately show ?thesis using \<open>j < 4\<close> by (simp add: ATB_IS_FREE_def AT_FREE_def)
qed

lemma find_in_byte_scan:
  "set js \<subseteq> {..<4} \<Longrightarrow> find_in_byte (gc_table g ! i) js i n f = scan g (map (\<lambda>j. 4 * i + j) js) n f"
  by (induction js arbitrary: f) (auto simp: atb_is_free BLOCKS_PER_ATB_def mult.commute)

lemma find_run_scan:
  "k + i = m \<Longrightarrow> m \<le> length (gc_table g) \<Longrightarrow> find_run (drop i (take m (gc_table g))) i n f =
     (case scan g [4 * i..<4 * m] n f of Inl r \<Rightarrow> Some r | Inr _ \<Rightarrow> None)"
proof (induction k arbitrary: i f)
  case 0
  then show ?case by simp
next
  case (Suc k)
  have i: "i < length (take m (gc_table g))" using Suc.prems by simp
  have bytes: "drop i (take m (gc_table g)) = gc_table g ! i # drop (Suc i) (take m (gc_table g))"
    using Cons_nth_drop_Suc [OF i] i by simp
  have "[4 * i..<4 * m] = map (\<lambda>j. 4 * i + j) [0, 1, 2, 3] @ [4 * Suc i..<4 * m]"
    using Suc.prems(1) by (simp add: upt_conv_Cons numeral_eq_Suc)
  moreover have "find_in_byte (gc_table g ! i) [0, 1, 2, 3] i n f = scan g (map (\<lambda>j. 4 * i + j) [0, 1, 2, 3]) n f"
    by (rule find_in_byte_scan) auto
  moreover have "find_run (drop (Suc i) (take m (gc_table g))) (Suc i) n f1 =
      (case scan g [4 * Suc i..<4 * m] n f1 of Inl r \<Rightarrow> Some r | Inr _ \<Rightarrow> None)" for f1
    using Suc.prems by (intro Suc.IH) auto
  ultimately show ?case
    by (cases "scan g (map (\<lambda>j. 4 * i + j) [0, 1, 2, 3]) n f") (simp_all only: bytes find_run.simps scan_append Suc_eq_plus1 [symmetric] sum.case)
qed

lemma scan_first_fit:
  assumes "f < n" "lo + f \<le> a" "\<forall>j. a - f \<le> j \<and> j < a \<longrightarrow> kind g j = AT_FREE" "lo + f < a \<longrightarrow> kind g (a - f - 1) \<noteq> AT_FREE"
  shows "case scan g [a..<N] n f of
      Inl (i, m) \<Rightarrow> m = n \<and> a \<le> i \<and> i < N \<and> free_run g lo i n \<and> (\<forall>i'. a \<le> i' \<and> i' < i \<longrightarrow> \<not> free_run g lo i' n)
    | Inr _ \<Rightarrow> \<forall>i. a \<le> i \<and> i < N \<longrightarrow> \<not> free_run g lo i n"
  using assms
proof (induction "N - a" arbitrary: a f)
  case 0
  then show ?case by auto
next
  case (Suc d)
  have up: "[a..<N] = a # [Suc a..<N]" using Suc.hyps(2) by (simp add: upt_conv_Cons)
  have more: "(\<forall>i'. a \<le> i' \<and> i' < i \<longrightarrow> P i') \<longleftrightarrow> (a < i \<longrightarrow> P a) \<and> (\<forall>i'. Suc a \<le> i' \<and> i' < i \<longrightarrow> P i')" for P i
    by (metis Suc_le_eq le_eq_less_or_eq)
  show ?case
  proof (cases "kind g a = AT_FREE \<and> f + 1 \<ge> n")
    case True
    then have "n = f + 1" using Suc.prems(1) by simp
    moreover have "free_run g lo a (f + 1)"
      using Suc.prems(2,3) True by (auto simp: free_run_def) (metis le_neq_implies_less)
    ultimately show ?thesis using True Suc.hyps(2) up by auto
  next
    case False
    define f1 where "f1 = (if kind g a = AT_FREE then f + 1 else 0)"
    have no: "\<not> free_run g lo a n"
    proof
      assume run: "free_run g lo a n"
      then have "kind g a = AT_FREE" using Suc.prems(1) by (auto simp: free_run_def)
      with False have "f + 1 < n" by simp
      with run have "lo + f < a" "kind g (a - f - 1) = AT_FREE" by (auto simp: free_run_def)
      with Suc.prems(4) show False by simp
    qed
    have "case scan g [Suc a..<N] n f1 of
      Inl (i, m) \<Rightarrow> m = n \<and> Suc a \<le> i \<and> i < N \<and> free_run g lo i n \<and> (\<forall>i'. Suc a \<le> i' \<and> i' < i \<longrightarrow> \<not> free_run g lo i' n)
    | Inr _ \<Rightarrow> \<forall>i. Suc a \<le> i \<and> i < N \<longrightarrow> \<not> free_run g lo i n"
    proof (rule Suc.hyps(1))
      show "d = N - Suc a" "f1 < n" "lo + f1 \<le> Suc a" using Suc.hyps(2) Suc.prems(1,2) False by (auto simp: f1_def)
      show "\<forall>j. Suc a - f1 \<le> j \<and> j < Suc a \<longrightarrow> kind g j = AT_FREE"
        using Suc.prems(3) by (auto simp: f1_def less_Suc_eq)
      show "lo + f1 < Suc a \<longrightarrow> kind g (Suc a - f1 - 1) \<noteq> AT_FREE" using Suc.prems(4) by (auto simp: f1_def)
    qed
    moreover have "scan g [a..<N] n f = scan g [Suc a..<N] n f1" using False up by (auto simp: f1_def)
    ultimately show ?thesis using no more by (auto split: sum.splits simp: Suc_le_eq le_less)
  qed
qed

lemma find_blocks_first_fit:
  assumes "gc_ok g" "0 < n"
  shows "case find_blocks n g of
      Some (i, m) \<Rightarrow> m = n \<and> i < n_blocks_total g \<and> free_run g 0 i n \<and> (\<forall>i' < i. \<not> free_run g 0 i' n)
    | None \<Rightarrow> \<forall>i < n_blocks_total g. \<not> free_run g 0 i n"
proof -
  let ?N = "n_blocks_total g" and ?lo = "4 * gc_last_free_atb_index g"
  have ok: "\<forall>b < ?N. b < ?lo \<longrightarrow> kind g b \<noteq> AT_FREE" "layout g" using assms(1) by (simp_all add: gc_ok_def BLOCKS_PER_ATB_def)
  have below: "free_run g 0 i n \<longleftrightarrow> free_run g ?lo i n" if "i < ?N" for i
  proof
    assume r: "free_run g 0 i n"
    then have "kind g (i + 1 - n) = AT_FREE" using assms(2) by (auto simp: free_run_def)
    moreover have "i + 1 - n < ?N" using that assms(2) by simp
    ultimately have "\<not> i + 1 - n < ?lo" using ok(1) by blast
    with r show "free_run g ?lo i n" by (auto simp: free_run_def)
  qed (auto simp: free_run_def)
  have early: "\<not> free_run g 0 i n" if "i < ?lo" "i < ?N" for i
    using ok(1) that assms(2) by (auto simp: free_run_def)
  show ?thesis
  proof (cases "gc_last_free_atb_index g \<le> gc_alloc_table_byte_len g")
    case True
    have "gc_alloc_table_byte_len g \<le> length (gc_table g)" using ok(2) by (simp add: layout_def)
    with find_run_scan [of "gc_alloc_table_byte_len g - gc_last_free_atb_index g"] True
    have scan: "find_blocks n g = (case scan g [?lo..<?N] n 0 of Inl r \<Rightarrow> Some r | Inr _ \<Rightarrow> None)"
      by (simp add: find_blocks_def n_blocks_total_def BLOCKS_PER_ATB_def mult.commute)
    have fit: "case scan g [?lo..<?N] n 0 of
        Inl (i, m) \<Rightarrow> m = n \<and> ?lo \<le> i \<and> i < ?N \<and> free_run g ?lo i n \<and> (\<forall>i'. ?lo \<le> i' \<and> i' < i \<longrightarrow> \<not> free_run g ?lo i' n)
      | Inr _ \<Rightarrow> \<forall>i. ?lo \<le> i \<and> i < ?N \<longrightarrow> \<not> free_run g ?lo i n"
      using assms(2) by (intro scan_first_fit) auto
    show ?thesis
    proof (cases "scan g [?lo..<?N] n 0")
      case (Inl r)
      then obtain i m where r: "scan g [?lo..<?N] n 0 = Inl (i, m)" by (cases r) auto
      with fit have f: "m = n" "?lo \<le> i" "i < ?N" "free_run g ?lo i n" "\<forall>i'. ?lo \<le> i' \<and> i' < i \<longrightarrow> \<not> free_run g ?lo i' n" by auto
      have "\<not> free_run g 0 i' n" if "i' < i" for i'
        using f(3,5) that below [of i'] early [of i'] by (cases "i' < ?lo") auto
      then show ?thesis using f below scan r by simp
    next
      case (Inr k)
      with fit have "\<forall>i. ?lo \<le> i \<and> i < ?N \<longrightarrow> \<not> free_run g ?lo i n" by simp
      then have "\<not> free_run g 0 i n" if "i < ?N" for i using that below [OF that] early [of i] by (cases "i < ?lo") auto
      then show ?thesis using scan Inr by simp
    qed
  next
    case False
    then have "find_blocks n g = None" by (simp add: find_blocks_def)
    moreover have "\<not> free_run g 0 i n" if "i < ?N" for i
      using early [of i] that False by (simp add: n_blocks_total_def BLOCKS_PER_ATB_def)
    ultimately show ?thesis by simp
  qed
qed

section \<open>Taking the blocks\<close>

text \<open>\<open>retype g g' K\<close>: \<open>g'\<close> is \<open>g\<close> with the kinds \<open>K\<close> of blocks and nothing else changed.\<close>

definition retype :: "gc \<Rightarrow> gc \<Rightarrow> (nat \<Rightarrow> byte) \<Rightarrow> bool" where
  "retype g g' K \<longleftrightarrow> rest g' = rest g \<and> gc_stack_overflow g' = gc_stack_overflow g \<and>
     length (gc_table g') = length (gc_table g) \<and> FTB_GET g' = FTB_GET g \<and> (\<forall>b. kind g' b = K b)"

lemma retype_refl: "retype g g (kind g)"
  by (simp add: retype_def)

lemma retype_total: "retype g g' K \<Longrightarrow> n_blocks_total g' = n_blocks_total g"
  by (simp add: retype_def rest_def n_blocks_total_def)

lemma retype_layout: "retype g g' K \<Longrightarrow> layout g' = layout g"
  by (simp add: retype_def rest_def layout_def n_blocks_total_def)

lemma retype_trans: "retype g g1 K \<Longrightarrow> retype g1 g2 K' \<Longrightarrow> retype g g2 K'"
  by (simp add: retype_def)

lemma retype_atb_update:
  assumes "b < n_blocks_total g" "\<And>b'. kind (atb_update f b g) b' = K b'"
  shows "retype g (atb_update f b g) K"
  using assms by (auto simp: retype_def rest_def ftb_atb_update fun_eq_iff)

lemma retype_one:
  assumes "layout g" "b < n_blocks_total g"
  shows "kind g b = AT_FREE \<Longrightarrow> retype g (ATB_FREE_TO_HEAD b g) ((kind g)(b := AT_HEAD))"
    "kind g b = AT_FREE \<Longrightarrow> retype g (ATB_FREE_TO_TAIL b g) ((kind g)(b := AT_TAIL))"
    "retype g (ATB_ANY_TO_FREE b g) ((kind g)(b := AT_FREE))"
  using atb_free_to_head [OF layout_block [OF assms]] atb_free_to_tail [OF layout_block [OF assms]]
    atb_any_to_free [OF layout_block [OF assms]] retype_atb_update [OF assms(2)]
  by (simp_all add: ATB_FREE_TO_HEAD_def ATB_FREE_TO_TAIL_def ATB_ANY_TO_FREE_def)

lemma tails_loop:
  assumes "layout g" "\<forall>b \<in> set bs. b < n_blocks_total g \<and> kind g b = AT_FREE" "distinct bs"
  shows "retype g (tails_loop bs g) (\<lambda>b. if b \<in> set bs then AT_TAIL else kind g b)"
  using assms
proof (induction bs arbitrary: g)
  case Nil
  then show ?case by (simp add: retype_refl)
next
  case (Cons b bs)
  have r: "retype g (ATB_FREE_TO_TAIL b g) ((kind g)(b := AT_TAIL))" using retype_one(2) [OF Cons.prems(1)] Cons.prems(2) by simp
  then have k: "kind (ATB_FREE_TO_TAIL b g) = (kind g)(b := AT_TAIL)" by (simp add: retype_def fun_eq_iff)
  have "retype (ATB_FREE_TO_TAIL b g) (tails_loop bs (ATB_FREE_TO_TAIL b g))
      (\<lambda>b'. if b' \<in> set bs then AT_TAIL else kind (ATB_FREE_TO_TAIL b g) b')"
    using Cons.prems retype_layout [OF r] retype_total [OF r] k by (intro Cons.IH) auto
  then have "retype g (tails_loop (b # bs) g) (\<lambda>b'. if b' \<in> set bs then AT_TAIL else kind (ATB_FREE_TO_TAIL b g) b')"
    using retype_trans [OF r] by simp
  moreover have "(\<lambda>b'. if b' \<in> set bs then AT_TAIL else kind (ATB_FREE_TO_TAIL b g) b') = (\<lambda>b'. if b' \<in> set (b # bs) then AT_TAIL else kind g b')"
    by (auto simp: k)
  ultimately show ?case by simp
qed

lemma make_chain:
  assumes "layout g" "0 < n" "s + n \<le> n_blocks_total g" "\<forall>b. s \<le> b \<and> b < s + n \<longrightarrow> kind g b = AT_FREE"
  shows "retype g (tails_loop [s + 1..<s + n] (ATB_FREE_TO_HEAD s g))
    (\<lambda>b. if b = s then AT_HEAD else if s < b \<and> b < s + n then AT_TAIL else kind g b)"
proof -
  have h: "retype g (ATB_FREE_TO_HEAD s g) ((kind g)(s := AT_HEAD))" using assms by (intro retype_one(1)) auto
  then have kh: "kind (ATB_FREE_TO_HEAD s g) = (kind g)(s := AT_HEAD)" by (simp add: retype_def fun_eq_iff)
  have "retype (ATB_FREE_TO_HEAD s g) (tails_loop [s + 1..<s + n] (ATB_FREE_TO_HEAD s g))
      (\<lambda>b. if b \<in> set [s + 1..<s + n] then AT_TAIL else kind (ATB_FREE_TO_HEAD s g) b)"
    using retype_layout [OF h] retype_total [OF h] kh assms by (intro tails_loop) auto
  from retype_trans [OF h this] show ?thesis unfolding kh retype_def by auto
qed

lemma clear_words_nth:
  "w + n \<le> length (gc_pool g) \<Longrightarrow> i < length (gc_pool g) \<Longrightarrow>
   gc_pool (clear_words w n g) ! i = (if w \<le> i \<and> i < w + n then 0 else gc_pool g ! i)"
  by (auto simp: clear_words_def nth_append)

lemma clear_words_sel:
  "gc_table (clear_words w n g) = gc_table g" "gc_alloc_table_byte_len (clear_words w n g) = gc_alloc_table_byte_len g"
  "w + n \<le> length (gc_pool g) \<Longrightarrow> length (gc_pool (clear_words w n g)) = length (gc_pool g)"
  "gc_pool_start (clear_words w n g) = gc_pool_start g" "gc_pool_end (clear_words w n g) = gc_pool_end g"
  "gc_lock_depth (clear_words w n g) = gc_lock_depth g" "gc_last_free_atb_index (clear_words w n g) = gc_last_free_atb_index g"
  "gc_auto_collect_enabled (clear_words w n g) = gc_auto_collect_enabled g" "gc_alloc_threshold (clear_words w n g) = gc_alloc_threshold g"
  "gc_alloc_amount (clear_words w n g) = gc_alloc_amount g" "gc_stack_overflow (clear_words w n g) = gc_stack_overflow g"
  "gc_collected (clear_words w n g) = gc_collected g"
  by (simp_all add: clear_words_def)

text \<open>A chain of \<open>n\<close> zeroed blocks from \<open>s\<close> on, all else as in \<open>g\<close>.\<close>

definition new_chain :: "gc \<Rightarrow> gc \<Rightarrow> nat \<Rightarrow> nat \<Rightarrow> bool \<Rightarrow> bool" where
  "new_chain g g' s n fin \<longleftrightarrow> s + n \<le> n_blocks_total g \<and>
     (\<forall>b. s \<le> b \<and> b < s + n \<longrightarrow> kind g b = AT_FREE) \<and>
     (\<forall>b < n_blocks_total g. kind g' b = (if b = s then AT_HEAD else if s < b \<and> b < s + n then AT_TAIL else kind g b)) \<and>
     (\<forall>b < n_blocks_total g. FTB_GET g' b \<longleftrightarrow> FTB_GET g b \<or> fin \<and> b = s) \<and>
     length (gc_pool g') = length (gc_pool g) \<and>
     (\<forall>w < length (gc_pool g). gc_pool g' ! w =
        (if WORDS_PER_BLOCK * s \<le> w \<and> w < WORDS_PER_BLOCK * (s + n) then 0 else gc_pool g ! w))"

lemma new_chain_ok:
  assumes "gc_ok g" "new_chain g g' s n fin" "layout g'" "n_blocks_total g' = n_blocks_total g" "0 < n"
    and "\<forall>b < n_blocks_total g. b < BLOCKS_PER_ATB * gc_last_free_atb_index g' \<longrightarrow> kind g' b \<noteq> AT_FREE"
  shows "gc_ok g'"
proof -
  let ?N = "n_blocks_total g"
  have k: "kind g' b = (if b = s then AT_HEAD else if s < b \<and> b < s + n then AT_TAIL else kind g b)" if "b < ?N" for b
    using assms(2) that by (simp add: new_chain_def)
  have free: "kind g b = AT_FREE" if "s \<le> b" "b < s + n" for b using assms(2) that by (simp add: new_chain_def)
  have "tails_ok g'" unfolding tails_ok_def assms(4)
  proof (intro allI impI)
    fix b assume b: "b < ?N" "kind g' b = AT_TAIL"
    show "0 < b \<and> kind g' (b - 1) \<noteq> AT_FREE"
    proof (cases "s < b \<and> b < s + n")
      case True
      then have "s \<le> b - 1" "b - 1 < s + n" "b - 1 < ?N" using b(1) by auto
      then show ?thesis using k [of "b - 1"] True by auto
    next
      case False
      then have t: "kind g b = AT_TAIL" using k [OF b(1)] b(2) by (auto split: if_splits)
      then have p: "0 < b" "kind g (b - 1) \<noteq> AT_FREE" using assms(1) b(1) by (simp_all add: gc_ok_def tails_ok_def)
      then show ?thesis using k [of "b - 1"] b(1) by simp
    qed
  qed
  moreover have "marked g' = {}" using assms(1,4) k by (auto simp: gc_ok_def marked_def)
  moreover have "FTB_GET g' b \<longrightarrow> kind g' b = AT_HEAD" if "b < ?N" for b
  proof
    assume "FTB_GET g' b"
    then have "FTB_GET g b \<or> b = s" using assms(2) that by (auto simp: new_chain_def)
    then show "kind g' b = AT_HEAD" using k [OF that] free [of b] assms(1) that by (auto simp: gc_ok_def)
  qed
  ultimately show ?thesis using assms(3,4,6) by (simp add: gc_ok_def)
qed

lemma take_blocks_spec:
  assumes "gc_ok g" "0 < n" "i < n_blocks_total g" "free_run g 0 i n" "\<forall>i' < i. \<not> free_run g 0 i' n"
  defines "s \<equiv> i + 1 - n"
  shows "\<exists>g'. take_blocks n (i, n) fin g = (PTR_FROM_BLOCK g s, g') \<and> new_chain g g' s n fin \<and> gc_ok g' \<and> frame g' = frame g"
proof -
  let ?N = "n_blocks_total g"
  have lay: "layout g" using assms(1) by (simp add: gc_ok_def)
  have sn: "s + n = i + 1" "s \<le> i" using assms(2,4) by (auto simp: s_def free_run_def)
  have free: "kind g b = AT_FREE" if "s \<le> b" "b \<le> i" for b using assms(4) that by (auto simp: free_run_def s_def)
  define g1 where "g1 = (if n = 1 then g\<lparr>gc_last_free_atb_index := (i + 1) div BLOCKS_PER_ATB\<rparr> else g)"
  define g2 where "g2 = tails_loop [s + 1..<s + n] (ATB_FREE_TO_HEAD s g1)"
  have k1: "kind g1 = kind g" "FTB_GET g1 = FTB_GET g" "layout g1" "n_blocks_total g1 = ?N"
    using lay by (auto simp: g1_def layout_def n_blocks_total_def intro: kind_cong flag_cong)
  have r: "retype g1 g2 (\<lambda>b. if b = s then AT_HEAD else if s < b \<and> b < s + n then AT_TAIL else kind g b)"
    using make_chain [OF k1(3) assms(2), of s, unfolded k1(1,4)] free sn assms(3) unfolding g2_def by simp
  then have k2: "kind g2 b = (if b = s then AT_HEAD else if s < b \<and> b < s + n then AT_TAIL else kind g b)" for b
    by (simp add: retype_def)
  define w m where "w = s * WORDS_PER_BLOCK" and "m = (i - s + 1) * WORDS_PER_BLOCK"
  define g4 where "g4 = clear_words w m (g2\<lparr>gc_alloc_amount := gc_alloc_amount g2 + of_nat n\<rparr>)"
  define g' where "g' = (if fin then FTB_SET s (clear_words w 1 g4) else g4)"
  have up: "i + 1 = s + n" using sn by simp
  have run: "take_blocks n (i, n) fin g = (PTR_FROM_BLOCK g s, g')"
    unfolding take_blocks_def Let_def prod.case g'_def g4_def w_def m_def g2_def up [symmetric] unfolding g1_def s_def PTR_FROM_BLOCK_def
    by (simp only: add.commute)
  have rest2: "rest g2 = rest g1" using r by (simp add: retype_def)
  have len: "length (gc_pool g2) = length (gc_pool g)" "length (gc_pool g) = ?N * 4" using rest2 lay
    by (auto simp: rest_def g1_def layout_def WORDS_PER_BLOCK_def split: if_splits)
  have wm: "w + m \<le> length (gc_pool g2)" "w + 1 \<le> length (gc_pool g2)" "w + m = WORDS_PER_BLOCK * (s + n)"
    using sn assms(3) len by (auto simp: w_def m_def WORDS_PER_BLOCK_def)
  have t4: "gc_table g4 = gc_table g2" "gc_table (clear_words w 1 g4) = gc_table g2" by (simp_all add: g4_def clear_words_sel)
  have tot: "n_blocks_total g2 = ?N" "gc_alloc_table_byte_len g2 = gc_alloc_table_byte_len g"
    using rest2 by (auto simp: rest_def n_blocks_total_def g1_def split: if_splits)
  have a4: "gc_alloc_table_byte_len g4 = gc_alloc_table_byte_len g" "gc_alloc_table_byte_len (clear_words w 1 g4) = gc_alloc_table_byte_len g"
    using tot by (simp_all add: g4_def clear_words_sel)
  have "length (gc_table g2) = length (gc_table g)" using r by (simp add: retype_def g1_def split: if_splits)
  note tbl = this layout_flag [OF lay, of s]
  have kinds: "kind g' b = kind g2 b" if "b < ?N" for b
    using kind_cong [OF t4(1)] kind_cong [OF t4(2)] that a4(2) kind_ftb_update [of b "clear_words w 1 g4"]
    by (simp add: g'_def FTB_SET_def n_blocks_total_def)
  have "FTB_GET g2 = FTB_GET g" using r k1(2) by (simp add: retype_def)
  then have flags: "FTB_GET g' b \<longleftrightarrow> FTB_GET g b \<or> fin \<and> b = s" for b
    using flag_cong [OF t4(1)] flag_cong [OF t4(2)] a4 tot(2) tbl sn assms(3) t4 ftb_set [of "clear_words w 1 g4" s b]
    by (auto simp: g'_def)
  have pool: "gc_pool g' = gc_pool (clear_words w (if fin then 1 else 0) g4)" 
    by (simp add: g'_def FTB_SET_def clear_words_def)
  have p4: "length (gc_pool g4) = length (gc_pool g)" "gc_pool g4 ! j = (if w \<le> j \<and> j < w + m then 0 else gc_pool g ! j)"
    if "j < length (gc_pool g)" for j
    using wm(1) clear_words_nth [of w m "g2\<lparr>gc_alloc_amount := gc_alloc_amount g2 + of_nat n\<rparr>" j] len that rest2
    by (auto simp: g4_def clear_words_sel rest_def g1_def split: if_splits)
  have lp: "length (gc_pool g') = length (gc_pool g)"
    using p4(1) wm len by (auto simp: pool clear_words_sel g4_def)
  have words: "gc_pool g' ! j = (if w \<le> j \<and> j < w + m then 0 else gc_pool g ! j)" if "j < length (gc_pool g)" for j
    using p4 [OF that] wm(2) len(1) that clear_words_nth [of w 1 g4 j] clear_words_nth [of w 0 g4 j] sn
    by (auto simp: pool m_def WORDS_PER_BLOCK_def)
  have new: "new_chain g g' s n fin" unfolding new_chain_def
    using sn assms(3) free kinds k2 flags lp words wm(3) by (auto simp: w_def mult.commute)
  have sel: "frame g' = frame g" "gc_last_free_atb_index g' = gc_last_free_atb_index g1"
    "length (gc_table g') = length (gc_table g)"
    using rest2 tbl(1) by (auto simp: frame_def rest_def g'_def g4_def FTB_SET_def clear_words_sel n_blocks_total_def g1_def split: if_splits)
  have lay': "layout g'" using lay sel(1,3) lp by (auto simp: layout_def frame_def n_blocks_total_def)
  have "kind g' b \<noteq> AT_FREE" if "b < ?N" "b < BLOCKS_PER_ATB * gc_last_free_atb_index g'" for b
  proof (cases "n = 1 \<and> b < i + 1")
    case True
    have "kind g b \<noteq> AT_FREE" if "b \<noteq> i" using assms(5) that True by (auto simp: free_run_one)
    then show ?thesis using kinds [OF that(1)] k2 [of b] True sn by auto
  next
    case False
    then have "b < BLOCKS_PER_ATB * gc_last_free_atb_index g" using that(2) sel(2) by (auto simp: g1_def BLOCKS_PER_ATB_def split: if_splits)
    then have "kind g b \<noteq> AT_FREE" using assms(1) that(1) by (simp add: gc_ok_def)
    then show ?thesis using kinds [OF that(1)] k2 [of b] by simp
  qed
  then have "gc_ok g'" using new_chain_ok [OF assms(1) new lay' _ assms(2)] sel(1) by (simp add: frame_def)
  with run new sel(1) show ?thesis by blast
qed

section \<open>Allocation\<close>

lemma gc_collect_ok:
  assumes "gc_ok g" "gap g" "\<And>b ws. length (del b ws) = length ws" "gc_collect del roots stack g = Some g'"
  shows "gc_ok g'" "frame g' = frame g"
    "\<forall>b < n_blocks_total g. kind g' b = (if b \<in> live_blocks (roots @ stack) g then kind g b else AT_FREE)"
proof -
  let ?N = "n_blocks_total g"
  from gc_collect_spec [where del = del, OF assms(1,2,3), of roots stack] assms(4) have
    c: "layout g'" "frame g' = frame g" "gc_last_free_atb_index g' = 0"
      "\<forall>b < ?N. kind g' b = (if b \<in> live_blocks (roots @ stack) g then kind g b else AT_FREE)"
      "\<forall>b < ?N. FTB_GET g' b \<longleftrightarrow> FTB_GET g b \<and> b \<in> live (roots @ stack) g" by auto
  show "frame g' = frame g" "\<forall>b < ?N. kind g' b = (if b \<in> live_blocks (roots @ stack) g then kind g b else AT_FREE)" by (fact c)+
  have tot: "n_blocks_total g' = ?N" using c(2) by (simp add: frame_def)
  have "tails_ok g'" unfolding tails_ok_def tot
  proof (intro allI impI)
    fix b assume b: "b < ?N" "kind g' b = AT_TAIL"
    then have l: "b \<in> live_blocks (roots @ stack) g" "kind g b = AT_TAIL" using c(4) by (auto split: if_splits)
    then obtain h where h: "h \<in> live (roots @ stack) g" "in_chain g h b" by (auto simp: live_blocks_def)
    then have "h \<noteq> b" using live_heads l(2) by (fastforce simp: heads_def)
    then have "in_chain g h (b - 1)" "0 < b" using h(2) by (auto simp: in_chain_def)
    then have "b - 1 \<in> live_blocks (roots @ stack) g" using h(1) b(1) by (auto simp: live_blocks_def)
    moreover have "kind g (b - 1) \<noteq> AT_FREE" using assms(1) b(1) l(2) by (simp add: gc_ok_def tails_ok_def)
    ultimately show "0 < b \<and> kind g' (b - 1) \<noteq> AT_FREE" using c(4) \<open>0 < b\<close> b(1) by simp
  qed
  moreover have "marked g' = {}" using assms(1) c(4) tot by (auto simp: gc_ok_def marked_def)
  moreover have "FTB_GET g' b \<longrightarrow> kind g' b = AT_HEAD" if "b < ?N" for b
    using c(4,5) assms(1) that by (auto simp: gc_ok_def live_blocks_def)
  ultimately show "gc_ok g'" using c(1,3) tot by (simp add: gc_ok_def)
qed

text \<open>The number of blocks for a number of bytes.\<close>

lemma blocks_for:
  fixes n_bytes :: "32 word"
  assumes "unat n_bytes + 15 < 2 ^ 32"
  shows "unat ((n_bytes + 15) AND NOT 15) div 16 = (unat n_bytes + 15) div 16" "unat (n_bytes + 15) = unat n_bytes + 15"
proof -
  show u: "unat (n_bytes + 15) = unat n_bytes + 15" using assms by (simp add: unat_word_ariths)
  have m: "(15 :: 32 word) = mask 4" by (simp add: mask_eq_exp_minus_1)
  have "drop_bit 4 ((n_bytes + 15) AND NOT (mask 4)) = drop_bit 4 (n_bytes + 15)"
    by (intro bit_eqI) (auto simp: bit_simps dest: bit_imp_le_length)
  then have "unat (drop_bit 4 ((n_bytes + 15) AND NOT 15)) = unat (drop_bit 4 (n_bytes + 15))" by (simp only: m)
  then show "unat ((n_bytes + 15) AND NOT 15) div 16 = (unat n_bytes + 15) div 16"
    by (simp add: drop_bit_eq_div unat_div u)
qed

lemma blocks_wrap:
  fixes n_bytes :: "32 word"
  assumes "2 ^ 32 \<le> unat n_bytes + 15"
  shows "unat (n_bytes + 15) < 16"
proof -
  have lt: "unat n_bytes < 2 ^ 32" using unsigned_less [of n_bytes] by simp
  have "unat (n_bytes + 15) = unat n_bytes + 15 - 2 ^ 32" using assms lt by (simp add: unat_word_ariths mod_if)
  then show ?thesis using lt by simp
qed

lemma find_or_collect_spec:
  assumes "gc_ok g" "gap g" "\<And>b ws. length (del b ws) = length ws" "0 < n"
  shows "\<exists>found g2. find_or_collect del collected roots stack n g = Some (found, g2) \<and> gc_ok g2 \<and> frame g2 = frame g \<and>
    found = find_blocks n g2 \<and>
    (g2 = g \<or> gc_collect del roots stack g = Some g2 \<and> find_blocks n g = None) \<and>
    (found = None \<and> \<not> collected \<longrightarrow> gc_collect del roots stack g = Some g2)"
proof (cases "find_blocks n g = None \<and> \<not> collected")
  case True
  obtain g2 where g2: "gc_collect del roots stack g = Some g2"
    using gc_collect_spec [where del = del, OF assms(1,2,3)] by blast
  with True gc_collect_ok [where del = del, OF assms(1,2,3) g2] show ?thesis by (simp add: find_or_collect_def)
next
  case False
  then show ?thesis using assms(1) by (cases "find_blocks n g") (auto simp: find_or_collect_def)
qed

text \<open>
  An allocation returns: either the blocks of the first run that is long enough, or \<open>NULL\<close> when there
  is none, also after a collection if collections are enabled. It collects before it searches only
  when the threshold is reached, and otherwise only when there is no run.
\<close>

definition first_run :: "gc \<Rightarrow> nat \<Rightarrow> nat \<Rightarrow> bool" where
  "first_run g s n \<longleftrightarrow> free_run g 0 (s + n - 1) n \<and> (\<forall>i < s + n - 1. \<not> free_run g 0 i n)"

definition has_run :: "gc \<Rightarrow> nat \<Rightarrow> bool" where
  "has_run g n \<longleftrightarrow> (\<exists>i < n_blocks_total g. free_run g 0 i n)"

definition collection_due :: "gc \<Rightarrow> bool" where
  "collection_due g \<longleftrightarrow> gc_auto_collect_enabled g \<and> gc_alloc_threshold g \<le> gc_alloc_amount g"

lemma find_blocks_none: "gc_ok g \<Longrightarrow> 0 < n \<Longrightarrow> find_blocks n g = None \<longleftrightarrow> \<not> has_run g n"
  using find_blocks_first_fit [of g n] by (auto simp: has_run_def split: option.splits)

lemma gc_alloc_first:
  fixes n_bytes :: "32 word"
  assumes "gc_ok g" "gap g" "\<And>b ws. length (del b ws) = length ws" "gc_lock_depth g = 0"
    and "0 < n_bytes" "unat n_bytes + 15 < 2 ^ 32"
  defines "n \<equiv> (unat n_bytes + 15) div 16"
  shows "\<exists>p g1 g'. gc_alloc del n_bytes fin roots stack g = Some (p, g') \<and> gc_ok g' \<and> frame g' = frame g \<and>
    (if collection_due g then gc_collect del roots stack g = Some g1
     else g1 = g \<or> gc_collect del roots stack g = Some g1 \<and> \<not> has_run g n) \<and>
    (if p = NULL
     then g' = g1 \<and> (gc_auto_collect_enabled g \<longrightarrow> gc_collect del roots stack g = Some g1) \<and> \<not> has_run g1 n
     else \<exists>s. p = PTR_FROM_BLOCK g s \<and> new_chain g1 g' s n fin \<and> first_run g1 s n)"
proof -
  let ?C = "gc_collect del roots stack g"
  define due where "due = collection_due g"
  have "0 < unat n_bytes" using assms(5) by (simp add: word_less_nat_alt)
  then have n: "unat ((n_bytes + 15) AND NOT 15) div BYTES_PER_BLOCK = n" "0 < n"
    using blocks_for(1) [OF assms(6)] by (auto simp: n_def BYTES_PER_BLOCK_def)
  obtain h where h: "?C = Some h" "gc_ok h" "frame h = frame g"
    using gc_collect_spec [where del = del, OF assms(1,2,3), of roots stack] gc_collect_ok [where del = del, OF assms(1,2,3)] by blast
  obtain found g1 where f: "Option.bind (if due then ?C else Some g) (find_or_collect del (due \<or> \<not> gc_auto_collect_enabled g) roots stack n) = Some (found, g1)"
    "gc_ok g1" "frame g1 = frame g" "found = find_blocks n g1"
    "if due then ?C = Some g1 else g1 = g \<or> ?C = Some g1 \<and> \<not> has_run g n"
    "found = None \<and> gc_auto_collect_enabled g \<longrightarrow> ?C = Some g1"
  proof (cases due)
    case True
    have "find_or_collect del True roots stack n h = Some (find_blocks n h, h)"
      by (simp add: find_or_collect_def split: option.splits)
    with True h that [of "find_blocks n h" h] show ?thesis by simp
  next
    case False
    with find_or_collect_spec [where del = del, OF assms(1,2,3) n(2), of "\<not> gc_auto_collect_enabled g" roots stack] that
    show ?thesis by (auto simp: find_blocks_none [OF assms(1) n(2)])
  qed
  have run: "gc_alloc del n_bytes fin roots stack g =
      Some (case found of None \<Rightarrow> (NULL, g1) | Some fd \<Rightarrow> take_blocks n fd fin g1)"
    using n assms(4) f(1) by (auto simp: gc_alloc_def Let_def due_def collection_due_def split: Option.bind_splits)
  note fit = find_blocks_first_fit [OF f(2) n(2)]
  have tot: "n_blocks_total g1 = n_blocks_total g" "gc_pool_start g1 = gc_pool_start g" using f(3) by (auto simp: frame_def)
  show ?thesis
  proof (cases found)
    case None
    then have "\<not> has_run g1 n" using f(4) find_blocks_none [OF f(2) n(2)] by simp
    then show ?thesis using run f None by (auto simp: due_def [symmetric])
  next
    case (Some fd)
    then obtain i where i: "fd = (i, n)" "i < n_blocks_total g1" "free_run g1 0 i n" "\<forall>i' < i. \<not> free_run g1 0 i' n"
      using fit f(4) by (cases fd) auto
    obtain g' where g': "take_blocks n (i, n) fin g1 = (PTR_FROM_BLOCK g1 (i + 1 - n), g')"
      "new_chain g1 g' (i + 1 - n) n fin" "gc_ok g'" "frame g' = frame g1"
      using take_blocks_spec [OF f(2) n(2) i(2,3,4), of fin] by blast
    have "0 < gc_pool_start g1" using f(2) by (simp add: gc_ok_def layout_def)
    then have "PTR_FROM_BLOCK g (i + 1 - n) \<noteq> NULL" "PTR_FROM_BLOCK g1 = PTR_FROM_BLOCK g" using tot(2) by (simp_all add: PTR_FROM_BLOCK_def fun_eq_iff)
    moreover have "first_run g1 (i + 1 - n) n" using i(3,4) by (auto simp: first_run_def free_run_def)
    ultimately show ?thesis using run Some i(1) g' f(3,5) by (auto simp: due_def [symmetric])
  qed
qed

lemma gc_alloc_spec:
  fixes n_bytes :: "32 word"
  assumes "gc_ok g" "gap g" "\<And>b ws. length (del b ws) = length ws" "gc_lock_depth g = 0"
    and "0 < n_bytes" "unat n_bytes + 15 < 2 ^ 32"
  defines "n \<equiv> (unat n_bytes + 15) div 16"
  shows "\<exists>p g1 g'. gc_alloc del n_bytes fin roots stack g = Some (p, g') \<and> gc_ok g' \<and> frame g' = frame g \<and>
    (g1 = g \<or> gc_collect del roots stack g = Some g1) \<and>
    (if p = NULL
     then g' = g1 \<and> (gc_auto_collect_enabled g \<longrightarrow> gc_collect del roots stack g = Some g1) \<and> \<not> has_run g1 n
     else \<exists>s. p = PTR_FROM_BLOCK g s \<and> new_chain g1 g' s n fin)"
proof -
  obtain p g1 g' where a: "gc_alloc del n_bytes fin roots stack g = Some (p, g')" "gc_ok g'" "frame g' = frame g"
    and c: "if collection_due g then gc_collect del roots stack g = Some g1 else g1 = g \<or> gc_collect del roots stack g = Some g1 \<and> \<not> has_run g n"
    and b: "if p = NULL then g' = g1 \<and> (gc_auto_collect_enabled g \<longrightarrow> gc_collect del roots stack g = Some g1) \<and> \<not> has_run g1 n
      else \<exists>s. p = PTR_FROM_BLOCK g s \<and> new_chain g1 g' s n fin \<and> first_run g1 s n"
    using gc_alloc_first [where del = del, OF assms(1-6), of fin roots stack, folded n_def] by (elim exE conjE) (rule that)
  have "g1 = g \<or> gc_collect del roots stack g = Some g1" using c by (cases "collection_due g") auto
  moreover have "if p = NULL then g' = g1 \<and> (gc_auto_collect_enabled g \<longrightarrow> gc_collect del roots stack g = Some g1) \<and> \<not> has_run g1 n
      else \<exists>s. p = PTR_FROM_BLOCK g s \<and> new_chain g1 g' s n fin" using b by (cases "p = NULL") auto
  ultimately show ?thesis using a by (intro exI conjI)
qed

end
