(* ===== verification/Py_Gc_Free.thy ===== *)
theory Py_Gc_Free
  imports Py_Gc_Alloc
begin

unbundle bit_operations_syntax

text \<open>
  Freeing and the size of a chain. The byte after the allocation table holds the finaliser flags
  of the first blocks, and reads as the tail of a chain when block 1 has the flag and block 0 has
  not: then the loops over a chain that ends with the last block run on.
\<close>

lemma kind_after_table:
  assumes "layout g" "0 < n_blocks_total g"
  shows "kind g (n_blocks_total g) = AT_TAIL \<longleftrightarrow> FTB_GET g 1 \<and> \<not> FTB_GET g 0"
proof -
  let ?a = "gc_table g ! gc_alloc_table_byte_len g"
  have "kind g (n_blocks_total g) = ?a AND 3"
    by (simp add: ATB_GET_KIND_def n_blocks_total_def BLOCKS_PER_ATB_def block_shift)
  moreover have "?a AND 3 = 2 \<longleftrightarrow> bit ?a 1 \<and> \<not> bit ?a 0"
  proof
    assume "?a AND 3 = 2"
    then have "bit (?a AND 3) 1 = bit (2 :: byte) 1" "bit (?a AND 3) 0 = bit (2 :: byte) 0" by simp_all
    then show "bit ?a 1 \<and> \<not> bit ?a 0" by (simp add: bit_simps three_mask)
  next
    assume b: "bit ?a 1 \<and> \<not> bit ?a 0"
    show "?a AND 3 = 2"
    proof (rule bit_eqI)
      fix n assume "possible_bit TYPE(byte) n"
      show "bit (?a AND 3) n = bit (2 :: byte) n"
        using b by (cases n; cases "n - 1") (auto simp: bit_simps three_mask)
    qed
  qed
  ultimately show ?thesis by (simp add: ftb_get_bit AT_TAIL_def)
qed

lemma gap_no_flag: "layout g \<Longrightarrow> \<not> FTB_GET g 1 \<Longrightarrow> gap g"
  using kind_after_table [of g] by (auto simp: gap_def)

lemma in_chain_range: "chain_end g h n \<Longrightarrow> in_chain g h x \<longleftrightarrow> h \<le> x \<and> x < h + n"
proof
  assume c: "chain_end g h n" and "in_chain g h x"
  then have "h \<le> x" "\<forall>i. h < i \<and> i \<le> x \<longrightarrow> kind g i = AT_TAIL" by (simp_all add: in_chain_def)
  moreover have "h < h + n" "kind g (h + n) \<noteq> AT_TAIL" using c by (simp_all add: chain_end_def)
  ultimately show "h \<le> x \<and> x < h + n" by (meson not_le_imp_less)
next
  assume c: "chain_end g h n" and x: "h \<le> x \<and> x < h + n"
  have "kind g i = AT_TAIL" if "h < i" "i \<le> x" for i
  proof -
    have "1 \<le> i - h" "i - h < n" using that x by auto
    then have "kind g (h + (i - h)) = AT_TAIL" using c unfolding chain_end_def by blast
    then show ?thesis using that(1) by simp
  qed
  with x show "in_chain g h x" by (simp add: in_chain_def)
qed

lemma free_loop:
  assumes "layout g" "chain_end g b n" "b + n \<le> n_blocks_total g"
  shows "\<exists>g'. free_loop b g = Some g' \<and> retype g g' (\<lambda>x. if b \<le> x \<and> x < b + n then AT_FREE else kind g x)"
  using assms
proof (induction n arbitrary: b g)
  case 0
  then show ?case by (simp add: chain_end_def)
next
  case (Suc n)
  let ?g1 = "ATB_ANY_TO_FREE b g"
  have b: "b < n_blocks_total g" using Suc.prems(3) by simp
  have r: "retype g ?g1 ((kind g)(b := AT_FREE))" by (rule retype_one(3) [OF Suc.prems(1) b])
  then have k: "kind ?g1 = (kind g)(b := AT_FREE)" by (simp add: retype_def fun_eq_iff)
  show ?case
  proof (cases "n = 0")
    case True
    then have "kind g (b + 1) \<noteq> AT_TAIL" using Suc.prems(2) by (simp add: chain_end_def)
    then have "free_loop b g = Some ?g1" by (subst free_loop.simps) (simp add: k Let_def)
    moreover have "(\<lambda>x. if b \<le> x \<and> x < b + Suc n then AT_FREE else kind g x) = (kind g)(b := AT_FREE)" using True by auto
    ultimately show ?thesis using r by simp
  next
    case False
    have t: "kind g (b + i) = AT_TAIL" if "1 \<le> i" "i < Suc n" for i using Suc.prems(2) that by (simp add: chain_end_def)
    have "kind g (Suc (b + i)) = AT_TAIL" if "i < n" for i using t [of "Suc i"] that by simp
    then have "chain_end ?g1 (b + 1) n" using False Suc.prems(2) by (auto simp: chain_end_def k)
    from Suc.IH [OF _ this] obtain g' where g': "free_loop (b + 1) ?g1 = Some g'"
      "retype ?g1 g' (\<lambda>x. if b + 1 \<le> x \<and> x < b + 1 + n then AT_FREE else kind ?g1 x)"
      using retype_layout [OF r] retype_total [OF r] Suc.prems(1,3) by auto
    have "free_loop b g = Some g'" using t [of 1] False g'(1) by (subst free_loop.simps) (simp add: k Let_def)
    moreover have "(\<lambda>x. if b + 1 \<le> x \<and> x < b + 1 + n then AT_FREE else kind ?g1 x) =
        (\<lambda>x. if b \<le> x \<and> x < b + Suc n then AT_FREE else kind g x)" by (auto simp: k)
    ultimately show ?thesis using retype_trans [OF r g'(2)] by auto
  qed
qed

text \<open>Releasing some blocks of a chain, from \<open>lo\<close> on, keeps the invariant.\<close>

lemma release_ok:
  assumes "gc_ok g" "layout g'" "n_blocks_total g' = n_blocks_total g" "chain_end g h n" "h \<le> lo" "h \<in> heads g"
    and k: "\<And>x. x < n_blocks_total g \<Longrightarrow> kind g' x = (if lo \<le> x \<and> x < h + n then AT_FREE else kind g x)"
    and flag: "\<And>x. x < n_blocks_total g \<Longrightarrow> FTB_GET g' x \<longleftrightarrow> FTB_GET g x \<and> x \<noteq> lo"
    and idx: "gc_last_free_atb_index g' = min (gc_last_free_atb_index g) (lo div BLOCKS_PER_ATB)"
  shows "gc_ok g'"
proof -
  let ?N = "n_blocks_total g"
  have ok: "tails_ok g" "marked g = {}" "\<forall>b < ?N. FTB_GET g b \<longrightarrow> kind g b = AT_HEAD"
    "\<forall>b < ?N. b < BLOCKS_PER_ATB * gc_last_free_atb_index g \<longrightarrow> kind g b \<noteq> AT_FREE" using assms(1) by (simp_all add: gc_ok_def)
  have "tails_ok g'" unfolding tails_ok_def assms(3)
  proof (intro allI impI)
    fix b assume b: "b < ?N" "kind g' b = AT_TAIL"
    then have t: "kind g b = AT_TAIL" "\<not> (lo \<le> b \<and> b < h + n)" using k [OF b(1)] by (auto split: if_splits)
    then have p: "0 < b" "kind g (b - 1) \<noteq> AT_FREE" using ok(1) b(1) by (simp_all add: tails_ok_def)
    moreover have "b \<noteq> h + n" using assms(4) t(1) by (auto simp: chain_end_def)
    then have "\<not> (lo \<le> b - 1 \<and> b - 1 < h + n)" using t(2) p(1) by auto
    ultimately show "0 < b \<and> kind g' (b - 1) \<noteq> AT_FREE" using k [of "b - 1"] b(1) by simp
  qed
  moreover have "marked g' = {}" using ok(2) k assms(3) by (auto simp: marked_def)
  moreover have "FTB_GET g' x \<longrightarrow> kind g' x = AT_HEAD" if "x < ?N" for x
  proof
    assume "FTB_GET g' x"
    then have x: "kind g x = AT_HEAD" "x \<noteq> lo" using flag [OF that] ok(3) that by auto
    have "\<not> (lo \<le> x \<and> x < h + n)"
    proof
      assume "lo \<le> x \<and> x < h + n"
      then have "in_chain g h x" "h < x" using in_chain_range [OF assms(4), of x] assms(5) x(2) by auto
      then have "kind g x = AT_TAIL" by (simp add: in_chain_def)
      with x(1) show False by simp
    qed
    then show "kind g' x = AT_HEAD" using k [OF that] x(1) by simp
  qed
  moreover have "kind g' b \<noteq> AT_FREE" if "b < ?N" "b < BLOCKS_PER_ATB * gc_last_free_atb_index g'" for b
  proof -
    have "b < lo" "b < BLOCKS_PER_ATB * gc_last_free_atb_index g" using that(2) idx by (auto simp: BLOCKS_PER_ATB_def)
    then show ?thesis using k [OF that(1)] ok(4) that(1) by simp
  qed
  ultimately show ?thesis using assms(2,3) by (simp add: gc_ok_def)
qed

text \<open>The chain of a pointer to a head, and its size.\<close>

lemma gc_nbytes_chain:
  assumes "gc_ok g" "gap g" "VERIFY_PTR g p" "kind g (BLOCK_FROM_PTR g p) = AT_HEAD"
  shows "\<exists>n. gc_nbytes p g = Some (n * BYTES_PER_BLOCK) \<and> chain_end g (BLOCK_FROM_PTR g p) n \<and>
    BLOCK_FROM_PTR g p + n \<le> n_blocks_total g \<and> BLOCK_FROM_PTR g p \<in> heads g"
proof -
  have h: "BLOCK_FROM_PTR g p \<in> heads g" using verify_block [of g p] assms by (simp add: gc_ok_def heads_def)
  from chain_loop_ok [OF assms(2) this] show ?thesis using assms(3,4) h by (auto simp: gc_nbytes_def)
qed

lemma flag_clear_gap:
  assumes "gc_ok g" "gap g" "h \<in> heads g" "chain_end g h n" "h + n \<le> n_blocks_total g"
  shows "chain_end (FTB_CLEAR h g) h n"
proof -
  let ?N = "n_blocks_total g" and ?g1 = "FTB_CLEAR h g"
  have lay: "layout g" using assms(1) by (simp add: gc_ok_def)
  have h: "h < ?N" "kind g h \<noteq> AT_FREE" using assms(3) by (auto simp: heads_def)
  have N: "1 < ?N" using h(1) by (cases "gc_alloc_table_byte_len g") (auto simp: n_blocks_total_def BLOCKS_PER_ATB_def)
  have k: "kind ?g1 b = kind g b" if "b < ?N" for b using that by (simp add: FTB_CLEAR_def kind_ftb_update)
  have fl: "FTB_GET ?g1 b \<longleftrightarrow> b \<noteq> h \<and> FTB_GET g b" for b using ftb_clear [OF layout_flag [OF lay h(1)]] .
  have end_: "kind ?g1 (h + n) \<noteq> AT_TAIL"
  proof (cases "h + n = ?N")
    case True
    have "in_chain g h (?N - 1)" using in_chain_range [OF assms(4), of "?N - 1"] True h(1) assms(4) by (auto simp: chain_end_def)
    then have last: "kind g (?N - 1) \<noteq> AT_FREE" using h(2) by (cases "h = ?N - 1") (auto simp: in_chain_def)
    have tot: "n_blocks_total ?g1 = ?N" by (simp add: n_blocks_total_def FTB_CLEAR_def)
    have lay1: "layout ?g1" using lay tot by (simp add: layout_def FTB_CLEAR_def)
    show ?thesis
    proof
      assume "kind ?g1 (h + n) = AT_TAIL"
      then have f: "h \<noteq> 1" "FTB_GET g 1" "h = 0 \<or> \<not> FTB_GET g 0" using kind_after_table [OF lay1] tot True h(1) fl by auto
      then have "kind g 1 = AT_HEAD" using assms(1) N by (simp add: gc_ok_def)
      moreover have "kind g 1 = AT_TAIL" if "h = 0" using assms(4) True that N by (simp add: chain_end_def)
      ultimately have "h \<noteq> 0" by auto
      then have "kind g ?N = AT_TAIL" using f kind_after_table [OF lay] h(1) by simp
      then show False using assms(2) last h(1) by (simp add: gap_def)
    qed
  next
    case False
    then show ?thesis using k [of "h + n"] assms(4,5) by (simp add: chain_end_def)
  qed
  have "kind ?g1 (h + i) = AT_TAIL" if "1 \<le> i" "i < n" for i
    using k [of "h + i"] that assms(4,5) by (simp add: chain_end_def)
  then show ?thesis using end_ assms(4) by (simp add: chain_end_def)
qed

lemma gc_free_spec:
  assumes "gc_ok g" "gap g" "gc_lock_depth g = 0" "VERIFY_PTR g p" "kind g (BLOCK_FROM_PTR g p) = AT_HEAD"
  defines "h \<equiv> BLOCK_FROM_PTR g p"
  shows "\<exists>g'. gc_free p g = Some g' \<and> gc_ok g' \<and> frame g' = frame g \<and> gc_pool g' = gc_pool g \<and>
    (\<forall>b < n_blocks_total g. kind g' b = (if in_chain g h b then AT_FREE else kind g b)) \<and>
    (\<forall>b < n_blocks_total g. FTB_GET g' b \<longleftrightarrow> FTB_GET g b \<and> b \<noteq> h)"
proof -
  let ?N = "n_blocks_total g"
  have lay: "layout g" using assms(1) by (simp add: gc_ok_def)
  obtain n where n: "chain_end g h n" "h + n \<le> ?N" "h \<in> heads g" using gc_nbytes_chain [OF assms(1,2,4,5)] by (auto simp: h_def)
  then have h: "h < ?N" by (simp add: heads_def)
  define g1 where "g1 = FTB_CLEAR h g"
  define g2 where "g2 = (if h div BLOCKS_PER_ATB < gc_last_free_atb_index g1 then g1\<lparr>gc_last_free_atb_index := h div BLOCKS_PER_ATB\<rparr> else g1)"
  have s: "gc_table g2 = gc_table g1" "gc_alloc_table_byte_len g2 = gc_alloc_table_byte_len g1" by (simp_all add: g2_def)
  have k2: "kind g2 = kind g1" "FTB_GET g2 = FTB_GET g1" by (rule kind_cong [OF s(1)], rule flag_cong [OF s])
  have fl: "FTB_GET g1 b \<longleftrightarrow> b \<noteq> h \<and> FTB_GET g b" for b using ftb_clear [OF layout_flag [OF lay h]] by (simp add: g1_def)
  have k1: "kind g1 b = kind g b" if "b < ?N" for b using that by (simp add: g1_def FTB_CLEAR_def kind_ftb_update)
  have f2: "frame g2 = frame g" "gc_pool g2 = gc_pool g" "layout g2" "n_blocks_total g2 = ?N"
    "gc_last_free_atb_index g2 = min (gc_last_free_atb_index g) (h div BLOCKS_PER_ATB)"
    using lay by (auto simp: g2_def g1_def FTB_CLEAR_def frame_def layout_def n_blocks_total_def)
  have "chain_end g1 h n" using flag_clear_gap [OF assms(1,2) n(3,1,2)] by (simp add: g1_def)
  then have "chain_end g2 h n" by (simp add: chain_end_def k2)
  from free_loop [OF f2(3) this] n(2) f2(4) obtain g' where
    g': "free_loop h g2 = Some g'" "retype g2 g' (\<lambda>x. if h \<le> x \<and> x < h + n then AT_FREE else kind g2 x)" by auto
  have "p \<noteq> NULL" using assms(4) lay by (auto simp: VERIFY_PTR_def layout_def)
  then have run: "gc_free p g = Some g'"
    using assms(3-5) g'(1) unfolding gc_free_def Let_def g2_def g1_def h_def by simp
  have r: "frame g' = frame g" "gc_pool g' = gc_pool g" "gc_last_free_atb_index g' = gc_last_free_atb_index g2"
    using g'(2) f2 by (auto simp: retype_def rest_def frame_def n_blocks_total_def)
  have kinds: "kind g' b = (if h \<le> b \<and> b < h + n then AT_FREE else kind g b)" if "b < ?N" for b
    using g'(2) k2 k1 [OF that] by (simp add: retype_def)
  have flags: "FTB_GET g' b \<longleftrightarrow> FTB_GET g b \<and> b \<noteq> h" for b using g'(2) k2(2) fl by (auto simp: retype_def)
  have "gc_ok g'"
  proof (rule release_ok [OF assms(1) _ _ n(1) order_refl n(3) kinds flags])
    show "layout g'" using retype_layout [OF g'(2)] f2(3) by simp
    show "n_blocks_total g' = ?N" using r(1) by (simp add: frame_def)
    show "gc_last_free_atb_index g' = min (gc_last_free_atb_index g) (h div BLOCKS_PER_ATB)" using r(3) f2(5) by simp
  qed
  then show ?thesis using run r kinds flags in_chain_range [OF n(1)] by auto
qed

end
