(* ===== verification/Py_Gc_Realloc.thy ===== *)
theory Py_Gc_Realloc
  imports Py_Gc_Free
begin

unbundle bit_operations_syntax

text \<open>
  Resizing a chain: in place when it shrinks or when the blocks after it are free, otherwise by a
  new allocation and a copy.
\<close>

section \<open>Counting\<close>

lemma count_free:
  "\<forall>j < f. kind g (c + j) = AT_FREE \<Longrightarrow> c + f \<le> N \<Longrightarrow>
   (\<And>b. b < N \<Longrightarrow> kind g b = AT_TAIL \<Longrightarrow> 0 < b \<and> kind g (b - 1) \<noteq> AT_FREE) \<Longrightarrow> (f = 0 \<longrightarrow> c < N \<longrightarrow> kind g c \<noteq> AT_TAIL) \<Longrightarrow>
   \<exists>f'. count_loop g new [c + f..<N] n f = (n, f') \<and> c + f' \<le> N \<and> (\<forall>j < f'. kind g (c + j) = AT_FREE) \<and>
     (n + f' < new \<longrightarrow> c + f' = N \<or> kind g (c + f') \<noteq> AT_FREE)"
proof (induction "N - (c + f)" arbitrary: f)
  case 0
  then show ?case by simp
next
  case (Suc d)
  have up: "[c + f..<N] = (c + f) # [c + Suc f..<N]" using Suc.hyps(2) by (simp add: upt_conv_Cons)
  have notail: "kind g (c + f) \<noteq> AT_TAIL"
  proof
    assume t: "kind g (c + f) = AT_TAIL"
    then have "f \<noteq> 0" using Suc.prems(4) Suc.hyps(2) by (cases f) auto
    then have "kind g (c + f - 1) = AT_FREE" using Suc.prems(1) by (cases f) auto
    moreover have "c + f < N" using Suc.hyps(2) by simp
    ultimately show False using Suc.prems(3) [OF _ t] by simp
  qed
  show ?case
  proof (cases "kind g (c + f) = AT_FREE \<and> \<not> n + (f + 1) \<ge> new")
    case True
    then have free: "\<forall>j < Suc f. kind g (c + j) = AT_FREE" using Suc.prems(1) by (simp add: less_Suc_eq)
    have "\<exists>f'. count_loop g new [c + Suc f..<N] n (Suc f) = (n, f') \<and> c + f' \<le> N \<and> (\<forall>j < f'. kind g (c + j) = AT_FREE) \<and>
        (n + f' < new \<longrightarrow> c + f' = N \<or> kind g (c + f') \<noteq> AT_FREE)"
      using Suc.hyps(2) by (intro Suc.hyps(1) free Suc.prems(3)) auto
    then show ?thesis using True up by simp
  next
    case False
    show ?thesis
    proof (cases "kind g (c + f) = AT_FREE")
      case True
      then have "\<forall>j < Suc f. kind g (c + j) = AT_FREE" using Suc.prems(1) by (simp add: less_Suc_eq)
      then show ?thesis using True False up Suc.hyps(2) by auto
    next
      case nf: False
      then show ?thesis using notail up Suc.prems(1,2) by auto
    qed
  qed
qed

lemma count_chain:
  assumes "chain_end g b n" "b + n \<le> N" "1 \<le> k" "k \<le> n"
  shows "count_loop g new [b + k..<N] k 0 = count_loop g new [b + n..<N] n 0"
  using assms(3,4)
proof (induction "n - k" arbitrary: k)
  case 0
  then show ?case by simp
next
  case (Suc d)
  then have k: "k < n" by simp
  have "kind g (b + k) = AT_TAIL" using assms(1) Suc.prems(1) k by (simp add: chain_end_def)
  moreover have "[b + k..<N] = (b + k) # [b + Suc k..<N]" using k assms(2) by (simp add: upt_conv_Cons)
  moreover have "count_loop g new [b + Suc k..<N] (Suc k) 0 = count_loop g new [b + n..<N] n 0"
    using Suc.hyps(2) k by (intro Suc.hyps(1)) auto
  ultimately show ?case by simp
qed

lemma count_loop_spec:
  assumes "gc_ok g" "chain_end g b n" "b + n \<le> n_blocks_total g"
  shows "\<exists>f. count_loop g new [b + 1..<n_blocks_total g] 1 0 = (n, f) \<and> b + n + f \<le> n_blocks_total g \<and>
    (\<forall>j < f. kind g (b + n + j) = AT_FREE) \<and> (n + f < new \<longrightarrow> b + n + f = n_blocks_total g \<or> kind g (b + n + f) \<noteq> AT_FREE)"
proof -
  let ?N = "n_blocks_total g"
  have n: "1 \<le> n" "kind g (b + n) \<noteq> AT_TAIL" using assms(2) by (simp_all add: chain_end_def)
  have "\<exists>f. count_loop g new [b + n + 0..<?N] n 0 = (n, f) \<and> b + n + f \<le> ?N \<and> (\<forall>j < f. kind g (b + n + j) = AT_FREE) \<and>
      (n + f < new \<longrightarrow> b + n + f = ?N \<or> kind g (b + n + f) \<noteq> AT_FREE)"
    using assms n(2) by (intro count_free) (auto simp: gc_ok_def tails_ok_def)
  then show ?thesis using count_chain [OF assms(2,3) order_refl n(1), of new] by simp
qed

section \<open>Shrinking and growing\<close>

lemma shrink_loop:
  assumes "layout g" "set bs \<subseteq> {..<n_blocks_total g}"
  shows "retype g (shrink_loop bs g) (\<lambda>x. if x \<in> set bs then AT_FREE else kind g x)"
  using assms
proof (induction bs arbitrary: g)
  case Nil
  then show ?case by (simp add: retype_refl)
next
  case (Cons b bs)
  let ?g1 = "ATB_ANY_TO_FREE b g"
  have r: "retype g ?g1 ((kind g)(b := AT_FREE))" using Cons.prems by (intro retype_one(3)) auto
  then have k: "kind ?g1 = (kind g)(b := AT_FREE)" by (simp add: retype_def fun_eq_iff)
  have "retype ?g1 (shrink_loop bs ?g1) (\<lambda>x. if x \<in> set bs then AT_FREE else kind ?g1 x)"
    using Cons.prems retype_layout [OF r] retype_total [OF r] by (intro Cons.IH) auto
  from retype_trans [OF r this] show ?case unfolding k retype_def by auto
qed

lemma extend_loop:
  assumes "layout g" "\<forall>b \<in> set bs. b < n_blocks_total g \<and> kind g b = AT_FREE" "distinct bs"
  shows "extend_loop bs g = Some (tails_loop bs g)"
  using assms
proof (induction bs arbitrary: g)
  case Nil
  then show ?case by simp
next
  case (Cons b bs)
  have r: "retype g (ATB_FREE_TO_TAIL b g) ((kind g)(b := AT_TAIL))" using Cons.prems by (intro retype_one(2)) auto
  then have k: "kind (ATB_FREE_TO_TAIL b g) = (kind g)(b := AT_TAIL)" by (simp add: retype_def fun_eq_iff)
  have "extend_loop bs (ATB_FREE_TO_TAIL b g) = Some (tails_loop bs (ATB_FREE_TO_TAIL b g))"
    using Cons.prems retype_layout [OF r] retype_total [OF r] k by (intro Cons.IH) auto
  then show ?case using Cons.prems by simp
qed

definition is_chain :: "gc \<Rightarrow> nat \<Rightarrow> nat \<Rightarrow> bool" where
  "is_chain g s n \<longleftrightarrow> 1 \<le> n \<and> s + n \<le> n_blocks_total g \<and> kind g s = AT_HEAD \<and>
     (\<forall>b. s < b \<and> b < s + n \<longrightarrow> kind g b = AT_TAIL) \<and> (s + n < n_blocks_total g \<longrightarrow> kind g (s + n) \<noteq> AT_TAIL)"

text \<open>
  What resizing the chain of \<open>n\<close> blocks at \<open>h\<close> to \<open>new\<close> blocks at \<open>s\<close> leaves: the chain, with the
  words it had, and the kinds, the finaliser flags and the words of all other blocks; the old
  blocks are free if it moved.
\<close>

definition resized :: "gc \<Rightarrow> nat \<Rightarrow> nat \<Rightarrow> gc \<Rightarrow> nat \<Rightarrow> nat \<Rightarrow> bool" where
  "resized g h n g' s new \<longleftrightarrow> is_chain g' s new \<and>
     (\<forall>w < WORDS_PER_BLOCK * min n new. gc_pool g' ! (WORDS_PER_BLOCK * s + w) = gc_pool g ! (WORDS_PER_BLOCK * h + w)) \<and>
     (\<forall>b. s \<le> b \<and> b < s + new \<and> \<not> (h \<le> b \<and> b < h + n) \<longrightarrow> kind g b = AT_FREE) \<and>
     (\<forall>b < n_blocks_total g. \<not> (s \<le> b \<and> b < s + new) \<longrightarrow> kind g' b = (if h \<le> b \<and> b < h + n then AT_FREE else kind g b)) \<and>
     (\<forall>b < n_blocks_total g. FTB_GET g' b = FTB_GET g b) \<and> length (gc_pool g') = length (gc_pool g) \<and>
     (\<forall>w < length (gc_pool g). \<not> (WORDS_PER_BLOCK * s \<le> w \<and> w < WORDS_PER_BLOCK * (s + new)) \<longrightarrow> gc_pool g' ! w = gc_pool g ! w)"

text \<open>The chain can have \<open>new\<close> blocks where it is: it has them, or the blocks it needs after it are free.\<close>

definition room_after :: "gc \<Rightarrow> nat \<Rightarrow> nat \<Rightarrow> nat \<Rightarrow> bool" where
  "room_after g h n new \<longleftrightarrow> h + new \<le> n_blocks_total g \<and> (\<forall>b. h + n \<le> b \<and> b < h + new \<longrightarrow> kind g b = AT_FREE)"

lemma chain_endD:
  assumes "chain_end g h n" "h < b" "b < h + n"
  shows "kind g b = AT_TAIL"
  using in_chain_range [OF assms(1), of b] assms(2,3) by (simp add: in_chain_def)

lemma realloc_shrink:
  assumes "gc_ok g" "h \<in> heads g" "chain_end g h n" "h + n \<le> n_blocks_total g" "1 \<le> new" "new < n"
  defines "g1 \<equiv> shrink_loop [h + new..<h + n] g"
  defines "g' \<equiv> (if (h + new) div BLOCKS_PER_ATB < gc_last_free_atb_index g1
                 then g1\<lparr>gc_last_free_atb_index := (h + new) div BLOCKS_PER_ATB\<rparr> else g1)"
  shows "gc_ok g'" "frame g' = frame g" "resized g h n g' h new"
proof -
  let ?N = "n_blocks_total g"
  have lay: "layout g" using assms(1) by (simp add: gc_ok_def)
  have r: "retype g g1 (\<lambda>x. if x \<in> set [h + new..<h + n] then AT_FREE else kind g x)"
    unfolding g1_def using assms(4) by (intro shrink_loop lay) auto
  have s': "gc_table g' = gc_table g1" "gc_alloc_table_byte_len g' = gc_alloc_table_byte_len g1" by (simp_all add: g'_def)
  have k: "kind g' x = (if h + new \<le> x \<and> x < h + n then AT_FREE else kind g x)" for x
    using r kind_cong [OF s'(1)] by (simp add: retype_def)
  have fl: "FTB_GET g' = FTB_GET g" using r flag_cong [OF s'] by (simp add: retype_def)
  show fr: "frame g' = frame g" using r by (auto simp: g'_def frame_def retype_def rest_def n_blocks_total_def)
  have tot: "n_blocks_total g' = ?N" using fr by (simp add: frame_def)
  have tail: "kind g (h + new) = AT_TAIL" using chain_endD [OF assms(3)] assms(5,6) by simp
  show "gc_ok g'"
  proof (rule release_ok [OF assms(1) _ tot assms(3) _ assms(2) k])
    show "layout g'" using retype_layout [OF r] lay by (simp add: g'_def layout_def n_blocks_total_def)
    show "FTB_GET g' x \<longleftrightarrow> FTB_GET g x \<and> x \<noteq> h + new" if "x < ?N" for x
      using fl tail assms(1) that by (auto simp: gc_ok_def)
    show "gc_last_free_atb_index g' = min (gc_last_free_atb_index g) ((h + new) div BLOCKS_PER_ATB)"
      using r by (auto simp: g'_def retype_def rest_def)
  qed simp
  have "gc_pool g' = gc_pool g" using r by (simp add: g'_def retype_def rest_def)
  moreover have "kind g h = AT_HEAD" using assms(1,2) by (auto simp: gc_ok_def heads_def marked_def)
  ultimately show "resized g h n g' h new"
    using assms(4-6) chain_endD [OF assms(3)] fl by (auto simp: resized_def is_chain_def k tot)
qed

lemma gc_ok_more:
  assumes "gc_ok g" "layout g'" "n_blocks_total g' = n_blocks_total g" "FTB_GET g' = FTB_GET g"
    "gc_last_free_atb_index g' = gc_last_free_atb_index g" "0 < c" "kind g (c - 1) \<noteq> AT_FREE"
    and k: "\<And>x. x < n_blocks_total g \<Longrightarrow> kind g' x = (if c \<le> x \<and> x < e then AT_TAIL else kind g x)"
    and free: "\<And>x. c \<le> x \<Longrightarrow> x < e \<Longrightarrow> kind g x = AT_FREE"
  shows "gc_ok g'"
proof -
  let ?N = "n_blocks_total g"
  have "tails_ok g'" unfolding tails_ok_def assms(3)
  proof (intro allI impI)
    fix b assume b: "b < ?N" "kind g' b = AT_TAIL"
    show "0 < b \<and> kind g' (b - 1) \<noteq> AT_FREE"
    proof (cases "c \<le> b \<and> b < e")
      case True
      then show ?thesis using k [of "b - 1"] b(1) assms(6,7) by (cases "b = c") auto
    next
      case False
      then have "kind g b = AT_TAIL" using k [OF b(1)] b(2) by (simp split: if_splits)
      then have "0 < b" "kind g (b - 1) \<noteq> AT_FREE" using assms(1) b(1) by (simp_all add: gc_ok_def tails_ok_def)
      then show ?thesis using k [of "b - 1"] b(1) by simp
    qed
  qed
  moreover have "marked g' = {}" using assms(1,3) k by (auto simp: gc_ok_def marked_def)
  moreover have "FTB_GET g' b \<longrightarrow> kind g' b = AT_HEAD" if "b < ?N" for b
    using assms(1,4) k [OF that] free [of b] that by (auto simp: gc_ok_def)
  moreover have "kind g' b \<noteq> AT_FREE" if "b < ?N" "b < BLOCKS_PER_ATB * gc_last_free_atb_index g'" for b
    using assms(1,5) k [OF that(1)] that by (simp add: gc_ok_def)
  ultimately show ?thesis using assms(2,3) by (simp add: gc_ok_def)
qed

lemma realloc_grow:
  assumes "gc_ok g" "h \<in> heads g" "chain_end g h n" "h + n + f \<le> n_blocks_total g" "n < new" "new \<le> n + f"
    and free: "\<forall>j < f. kind g (h + n + j) = AT_FREE"
  shows "\<exists>g1. extend_loop [h + n..<h + new] g = Some g1 \<and>
    (\<forall>g'. g' = clear_words ((h + n) * WORDS_PER_BLOCK) ((new - n) * WORDS_PER_BLOCK) g1 \<longrightarrow>
       gc_ok g' \<and> frame g' = frame g \<and> resized g h n g' h new)"
proof -
  let ?N = "n_blocks_total g" and ?bs = "[h + n..<h + new]"
  have lay: "layout g" using assms(1) by (simp add: gc_ok_def)
  have fr: "kind g b = AT_FREE" if "h + n \<le> b" "b < h + new" for b
    using free [rule_format, of "b - (h + n)"] that assms(6) by simp
  have pre: "\<forall>b \<in> set ?bs. b < ?N \<and> kind g b = AT_FREE" using fr assms(4,6) by auto
  define g1 where "g1 = tails_loop ?bs g"
  have run: "extend_loop ?bs g = Some g1" unfolding g1_def by (rule extend_loop [OF lay pre]) simp
  have r: "retype g g1 (\<lambda>b. if b \<in> set ?bs then AT_TAIL else kind g b)" unfolding g1_def by (rule tails_loop [OF lay pre]) simp
  define w m where "w = (h + n) * WORDS_PER_BLOCK" and "m = (new - n) * WORDS_PER_BLOCK"
  define g' where "g' = clear_words w m g1"
  have s': "gc_table g' = gc_table g1" "gc_alloc_table_byte_len g' = gc_alloc_table_byte_len g1" by (simp_all add: g'_def clear_words_sel)
  have k: "kind g' x = (if h + n \<le> x \<and> x < h + new then AT_TAIL else kind g x)" for x
    using r kind_cong [OF s'(1)] by (simp add: retype_def)
  have lp: "length (gc_pool g) = ?N * WORDS_PER_BLOCK" "gc_pool g1 = gc_pool g" using lay r by (simp_all add: layout_def retype_def rest_def)
  have wmeq: "w + m = (h + new) * WORDS_PER_BLOCK" using assms(5) by (simp add: w_def m_def add_mult_distrib [symmetric])
  moreover have "h + new \<le> ?N" using assms(4,6) by simp
  ultimately have wm: "w + m \<le> length (gc_pool g1)" using lp by simp
  have frm: "frame g' = frame g" using r by (auto simp: g'_def clear_words_sel frame_def retype_def rest_def n_blocks_total_def)
  have tot: "n_blocks_total g' = ?N" using frm by (simp add: frame_def)
  have len: "length (gc_pool g') = length (gc_pool g)" "length (gc_table g') = length (gc_table g)"
    using wm r lp(2) by (simp_all add: g'_def clear_words_sel retype_def)
  have lay': "layout g'" using lay len frm by (auto simp: layout_def frame_def)
  have hd: "kind g h = AT_HEAD" using assms(1,2) by (auto simp: gc_ok_def heads_def marked_def)
  have n: "1 \<le> n" using assms(3) by (simp add: chain_end_def)
  have last: "kind g (h + n - 1) \<noteq> AT_FREE" using chain_endD [OF assms(3), of "h + n - 1"] hd n by (cases "n = 1") auto
  have fl: "FTB_GET g' = FTB_GET g" using r flag_cong [OF s'] by (simp add: retype_def)
  have beside: "gc_pool g' ! j = gc_pool g ! j" if "j < length (gc_pool g)" "\<not> (WORDS_PER_BLOCK * h \<le> j \<and> j < WORDS_PER_BLOCK * (h + new))" for j
  proof -
    have "\<not> (w \<le> j \<and> j < w + m)" using that(2) wmeq by (auto simp: w_def algebra_simps)
    then show ?thesis using clear_words_nth [of w m g1 j] wm lp(2) that(1) by (auto simp: g'_def)
  qed
  have "gc_ok g'"
  proof (rule gc_ok_more [OF assms(1) lay' tot _ _ _ last k fr])
    show "FTB_GET g' = FTB_GET g" by (rule fl)
    show "gc_last_free_atb_index g' = gc_last_free_atb_index g" using r by (simp add: g'_def clear_words_sel retype_def rest_def)
  qed (use n in auto)
  moreover have "gc_pool g' ! (WORDS_PER_BLOCK * h + j) = gc_pool g ! (WORDS_PER_BLOCK * h + j)" if "j < WORDS_PER_BLOCK * n" for j
  proof -
    have "WORDS_PER_BLOCK * h + j < w" using that by (simp add: w_def algebra_simps)
    then show ?thesis using clear_words_nth [of w m g1 "WORDS_PER_BLOCK * h + j"] wm lp(2) by (simp add: g'_def)
  qed
  moreover have "kind g (h + new) \<noteq> AT_TAIL" if "h + new < ?N"
  proof
    assume "kind g (h + new) = AT_TAIL"
    then have "kind g (h + new - 1) \<noteq> AT_FREE" using assms(1) that by (simp add: gc_ok_def tails_ok_def)
    moreover have "h + n \<le> h + new - 1" "h + new - 1 < h + new" using assms(5) by linarith+
    ultimately show False using fr [of "h + new - 1"] by blast
  qed
  ultimately have "gc_ok g' \<and> frame g' = frame g \<and> resized g h n g' h new"
    using assms(5) n frm hd chain_endD [OF assms(3)] fr \<open>h + new \<le> ?N\<close> fl beside len(1) by (auto simp: resized_def is_chain_def k tot)
  then show ?thesis using run by (auto simp: g'_def w_def m_def)
qed

section \<open>Moving\<close>

lemma gc_ok_cong:
  assumes "gc_ok g" "gc_table g' = gc_table g" "gc_alloc_table_byte_len g' = gc_alloc_table_byte_len g"
    "length (gc_pool g') = length (gc_pool g)" "gc_pool_start g' = gc_pool_start g" "gc_pool_end g' = gc_pool_end g"
    "gc_last_free_atb_index g' = gc_last_free_atb_index g"
  shows "gc_ok g'"
proof -
  have "n_blocks_total g' = n_blocks_total g" using assms(3) by (simp add: n_blocks_total_def)
  then show ?thesis
    using assms kind_cong [OF assms(2)] flag_cong [OF assms(2,3)] by (simp add: gc_ok_def layout_def tails_ok_def marked_def)
qed

text \<open>A chain whose head is a root is still there after a collection.\<close>

lemma root_chain_kept:
  assumes "gc_ok g" "gap g" "\<And>b ws. length (del b ws) = length ws" "g1 = g \<or> gc_collect del roots stack g = Some g1"
    and "p \<in> set (roots @ stack)" "VERIFY_PTR g p" "h = BLOCK_FROM_PTR g p" "h \<in> heads g" "chain_end g h n" "h + n \<le> n_blocks_total g"
  shows "gc_ok g1" "frame g1 = frame g" "b < n_blocks_total g \<Longrightarrow> h \<le> b \<Longrightarrow> b < h + n \<Longrightarrow> kind g1 b = kind g b"
    "b < n_blocks_total g \<Longrightarrow> kind g1 b = kind g b \<or> kind g1 b = AT_FREE"
    "b < n_blocks_total g \<Longrightarrow> FTB_GET g1 b \<longrightarrow> FTB_GET g b"
proof -
  have "h \<in> live (roots @ stack) g" using assms(5-8) by (auto simp: live_def root_heads_def)
  then have lb: "b \<in> live_blocks (roots @ stack) g" if "h \<le> b" "b < h + n" for b
    using in_chain_range [OF assms(9), of b] that assms(10) by (auto simp: live_blocks_def)
  note c = gc_collect_ok [where del = del, OF assms(1,2,3)]
  show "gc_ok g1" "frame g1 = frame g" using assms(1,4) c(1,2) by auto
  show "b < n_blocks_total g \<Longrightarrow> h \<le> b \<Longrightarrow> b < h + n \<Longrightarrow> kind g1 b = kind g b"
    "b < n_blocks_total g \<Longrightarrow> kind g1 b = kind g b \<or> kind g1 b = AT_FREE"
    using assms(4) c(3) lb by (auto split: if_splits)
  show "b < n_blocks_total g \<Longrightarrow> FTB_GET g1 b \<longrightarrow> FTB_GET g b"
    using assms(4) gc_collect_spec [where del = del, OF assms(1,2,3), of roots stack] by auto
qed

lemma copy_words_nth:
  "to + n \<le> length (gc_pool g) \<Longrightarrow> from + n \<le> length (gc_pool g) \<Longrightarrow> j < n \<Longrightarrow>
   gc_pool (copy_words to from n g) ! (to + j) = gc_pool g ! (from + j)"
  "to + n \<le> length (gc_pool g) \<Longrightarrow> from + n \<le> length (gc_pool g) \<Longrightarrow> length (gc_pool (copy_words to from n g)) = length (gc_pool g)"
  "to + n \<le> length (gc_pool g) \<Longrightarrow> from + n \<le> length (gc_pool g) \<Longrightarrow> i < length (gc_pool g) \<Longrightarrow> \<not> (to \<le> i \<and> i < to + n) \<Longrightarrow>
   gc_pool (copy_words to from n g) ! i = gc_pool g ! i"
  by (auto simp: copy_words_def nth_append)

lemma copy_words_sel:
  "gc_table (copy_words to from n g) = gc_table g" "gc_alloc_table_byte_len (copy_words to from n g) = gc_alloc_table_byte_len g"
  "gc_pool_start (copy_words to from n g) = gc_pool_start g" "gc_pool_end (copy_words to from n g) = gc_pool_end g"
  "gc_lock_depth (copy_words to from n g) = gc_lock_depth g" "gc_last_free_atb_index (copy_words to from n g) = gc_last_free_atb_index g"
  "frame (copy_words to from n g) = frame g"
  by (simp_all add: copy_words_def frame_def n_blocks_total_def)

lemma new_chain_is_chain:
  assumes "gc_ok g" "new_chain g g' s n fin" "0 < n" "n_blocks_total g' = n_blocks_total g"
  shows "is_chain g' s n"
proof -
  have "kind g (s + n) \<noteq> AT_TAIL" if "s + n < n_blocks_total g"
  proof
    assume "kind g (s + n) = AT_TAIL"
    then have "kind g (s + n - 1) \<noteq> AT_FREE" using assms(1) that by (simp add: gc_ok_def tails_ok_def)
    moreover have "s \<le> s + n - 1" "s + n - 1 < s + n" using assms(3) by linarith+
    ultimately show False using assms(2) unfolding new_chain_def by blast
  qed
  then show ?thesis using assms by (auto simp: is_chain_def new_chain_def)
qed

lemma in_chain_kept:
  assumes "chain_end g h n" "\<And>x. h \<le> x \<Longrightarrow> x < h + n \<Longrightarrow> kind g' x = kind g x"
    and "h + n < N \<Longrightarrow> kind g' (h + n) \<noteq> AT_TAIL" "b < N"
  shows "in_chain g' h b \<longleftrightarrow> h \<le> b \<and> b < h + n"
proof
  assume c: "in_chain g' h b"
  then have "h \<le> b" by (simp add: in_chain_def)
  moreover have "b < h + n"
  proof (rule ccontr)
    assume "\<not> b < h + n"
    then have "h < h + n" "h + n \<le> b" using assms(1) by (auto simp: chain_end_def)
    then have "kind g' (h + n) = AT_TAIL" using c by (simp add: in_chain_def)
    then show False using assms(3,4) \<open>h + n \<le> b\<close> by simp
  qed
  ultimately show "h \<le> b \<and> b < h + n" ..
next
  assume b: "h \<le> b \<and> b < h + n"
  then show "in_chain g' h b" using assms(2) chain_endD [OF assms(1)] by (simp add: in_chain_def)
qed

text \<open>The old chain beside the new one.\<close>

lemma old_chain_beside_new:
  assumes "gc_ok g1" "new_chain g1 g2 s m False" "n_blocks_total g2 = n_blocks_total g1" "chain_end g h n" "h + n \<le> n_blocks_total g1"
    and same: "\<And>b. h \<le> b \<Longrightarrow> b < h + n \<Longrightarrow> kind g1 b = kind g b"
    and out: "h + n < n_blocks_total g1 \<Longrightarrow> kind g1 (h + n) \<noteq> AT_TAIL"
    and "kind g h = AT_HEAD" "b < n_blocks_total g1" "0 < m"
  shows "in_chain g2 h b \<longleftrightarrow> h \<le> b \<and> b < h + n" "kind g2 h = AT_HEAD" "h \<le> b \<Longrightarrow> b < h + n \<Longrightarrow> \<not> (s \<le> b \<and> b < s + m)"
proof -
  let ?N = "n_blocks_total g1"
  have used: "kind g1 x \<noteq> AT_FREE" if "h \<le> x" "x < h + n" for x
    using same [OF that] chain_endD [OF assms(4), of x] assms(8) that by (cases "x = h") auto
  have dis: "\<not> (s \<le> x \<and> x < s + m)" if "h \<le> x" "x < h + n" for x
    using used [OF that] assms(2) by (auto simp: new_chain_def)
  then show "h \<le> b \<Longrightarrow> b < h + n \<Longrightarrow> \<not> (s \<le> b \<and> b < s + m)" by blast
  have n: "1 \<le> n" using assms(4) by (simp add: chain_end_def)
  have k2: "kind g2 x = kind g x" if "h \<le> x" "x < h + n" for x
    using assms(2,5,10) dis [OF that] same [OF that] that unfolding new_chain_def by auto
  then show hd: "kind g2 h = AT_HEAD" using n assms(8) by simp
  have stop: "kind g2 (h + n) \<noteq> AT_TAIL" if "h + n < ?N"
  proof -
    have "h \<le> h + n - 1" "h + n - 1 < h + n" using n by linarith+
    then have "\<not> (s \<le> h + n - 1 \<and> h + n - 1 < s + m)" by (rule dis)
    then have "\<not> (s < h + n \<and> h + n < s + m)" using n by linarith
    then show ?thesis using assms(2) out [OF that] that assms(10) unfolding new_chain_def by auto
  qed
  show "in_chain g2 h b \<longleftrightarrow> h \<le> b \<and> b < h + n" by (rule in_chain_kept [OF assms(4) k2 stop assms(9)])
qed

text \<open>The copy into the new chain and the release of the old one.\<close>

lemma realloc_move:
  assumes "gc_ok g1" "new_chain g1 g2 s m False" "gc_ok g2" "frame g2 = frame g1" "gc_lock_depth g1 = 0" "\<not> FTB_GET g2 1"
    and "VERIFY_PTR g1 p" "h = BLOCK_FROM_PTR g1 p" "h \<in> heads g" "chain_end g h n" "h + n \<le> n_blocks_total g1" "n < m"
    and same: "\<And>b. h \<le> b \<Longrightarrow> b < h + n \<Longrightarrow> kind g1 b = kind g b"
    and out: "h + n < n_blocks_total g1 \<Longrightarrow> kind g1 (h + n) \<noteq> AT_TAIL" and hd: "kind g h = AT_HEAD" and nofin: "\<not> FTB_GET g1 h"
  shows "\<exists>g'. gc_free p (copy_words (s * WORDS_PER_BLOCK) (h * WORDS_PER_BLOCK) (n * WORDS_PER_BLOCK) g2) = Some g' \<and>
    gc_ok g' \<and> frame g' = frame g1 \<and> resized g1 h n g' s m"
proof -
  let ?N = "n_blocks_total g1" and ?W = WORDS_PER_BLOCK
  define g3 where "g3 = copy_words (s * ?W) (h * ?W) (n * ?W) g2"
  have tot: "n_blocks_total g2 = ?N" "gc_lock_depth g2 = 0" using assms(4,5) by (auto simp: frame_def)
  have lay: "layout g2" "layout g1" using assms(1,3) by (simp_all add: gc_ok_def)
  have sn: "s + m \<le> ?N" using assms(2) by (simp add: new_chain_def)
  have fit: "s * ?W + n * ?W \<le> length (gc_pool g2)" "h * ?W + n * ?W \<le> length (gc_pool g2)"
  proof -
    have "length (gc_pool g2) = ?N * 4" using lay(1) tot(1) by (simp add: layout_def WORDS_PER_BLOCK_def)
    then show "s * ?W + n * ?W \<le> length (gc_pool g2)" "h * ?W + n * ?W \<le> length (gc_pool g2)"
      using sn assms(11,12) by (simp_all add: WORDS_PER_BLOCK_def)
  qed
  have ok3: "gc_ok g3" unfolding g3_def using fit by (intro gc_ok_cong [OF assms(3)]) (simp_all add: copy_words_sel copy_words_nth(2))
  have k3: "kind g3 = kind g2" "FTB_GET g3 = FTB_GET g2"
    unfolding g3_def by (rule kind_cong, simp add: copy_words_sel) (rule flag_cong, simp_all add: copy_words_sel)
  have f3: "frame g3 = frame g1" using assms(4) by (simp add: g3_def copy_words_sel)
  have v: "VERIFY_PTR g3 p" "BLOCK_FROM_PTR g3 p = h" "gc_lock_depth g3 = 0" "n_blocks_total g3 = ?N"
    using f3 assms(5,7,8) by (auto simp: frame_def VERIFY_PTR_def BLOCK_FROM_PTR_def)
  have gap3: "gap g3" using ok3 assms(6) k3(2) by (intro gap_no_flag) (simp_all add: gc_ok_def)
  have m: "0 < m" using assms(12) by simp
  have beside: "in_chain g2 h b \<longleftrightarrow> h \<le> b \<and> b < h + n" "kind g2 h = AT_HEAD" "h \<le> b \<Longrightarrow> b < h + n \<Longrightarrow> \<not> (s \<le> b \<and> b < s + m)"
    if "b < ?N" for b
    by (rule old_chain_beside_new [OF assms(1,2) tot(1) assms(10,11) _ _ hd that m]; (rule same out)?; assumption)+
  have n: "1 \<le> n" using assms(10) by (simp add: chain_end_def)
  have hN: "h < ?N" using assms(11) n by simp
  have hd3: "kind g3 h = AT_HEAD" using beside(2) [OF hN] k3(1) by simp
  obtain g' where g': "gc_free p g3 = Some g'" "gc_ok g'" "frame g' = frame g3" "gc_pool g' = gc_pool g3"
    "\<forall>b < ?N. kind g' b = (if in_chain g3 h b then AT_FREE else kind g3 b)" "\<forall>b < ?N. FTB_GET g' b \<longleftrightarrow> FTB_GET g3 b \<and> b \<noteq> h"
    using gc_free_spec [OF ok3 gap3 v(3,1)] v hd3 by auto
  have k': "kind g' b = (if h \<le> b \<and> b < h + n then AT_FREE else kind g2 b)" if "b < ?N" for b
    using g'(5) that beside(1) [OF that] k3(1) by (simp add: in_chain_def)
  have tot': "n_blocks_total g' = ?N" using g'(3) f3 by (simp add: frame_def)
  have dis: "\<not> (h \<le> b \<and> b < h + n)" if "s \<le> b" "b < s + m" for b
    using beside(3) [of b] that sn by auto
  have new: "kind g2 b = (if b = s then AT_HEAD else if s < b \<and> b < s + m then AT_TAIL else kind g1 b)" if "b < ?N" for b
    using assms(2) that by (simp add: new_chain_def)
  have chain2: "is_chain g2 s m" by (rule new_chain_is_chain [OF assms(1,2) m tot(1)])
  have "is_chain g' s m" unfolding is_chain_def tot'
  proof (intro conjI allI impI)
    show "1 \<le> m" "s + m \<le> ?N" using m sn by simp_all
    show "kind g' s = AT_HEAD" using k' [of s] dis [of s] m sn chain2 by (simp add: is_chain_def)
    show "kind g' b = AT_TAIL" if "s < b \<and> b < s + m" for b using k' [of b] dis [of b] that sn chain2 by (simp add: is_chain_def)
    show "kind g' (s + m) \<noteq> AT_TAIL" if "s + m < ?N" using k' [OF that] chain2 that tot(1) by (simp add: is_chain_def)
  qed
  moreover have "gc_pool g' ! (?W * s + j) = gc_pool g1 ! (?W * h + j)" if "j < ?W * n" for j
  proof -
    have "gc_pool g' ! (?W * s + j) = gc_pool g2 ! (?W * h + j)"
      using copy_words_nth(1) [OF fit, of j] that g'(4) by (simp add: g3_def mult.commute)
    moreover have "\<not> (?W * s \<le> ?W * h + j \<and> ?W * h + j < ?W * (s + m))"
    proof
      assume a: "?W * s \<le> ?W * h + j \<and> ?W * h + j < ?W * (s + m)"
      define q where "q = j div 4"
      have "j = 4 * q + j mod 4" "j mod 4 < 4" by (simp_all add: q_def)
      moreover have "4 * s \<le> 4 * h + j" "4 * h + j < 4 * s + 4 * m" "j < 4 * n" using a that by (simp_all add: WORDS_PER_BLOCK_def)
      ultimately have "s \<le> h + q" "h + q < s + m" "q < n" by linarith+
      then show False using dis [of "h + q"] by simp
    qed
    moreover have "?W * h + j < length (gc_pool g1)" using fit(2) that assms(2) by (simp add: new_chain_def algebra_simps)
    ultimately show ?thesis using assms(2) unfolding new_chain_def by presburger
  qed
  moreover have "kind g' b = (if h \<le> b \<and> b < h + n then AT_FREE else kind g1 b)" if "b < ?N" "\<not> (s \<le> b \<and> b < s + m)" for b
    using k' [OF that(1)] new [OF that(1)] that(2) m by auto
  moreover have "kind g1 b = AT_FREE" if "s \<le> b \<and> b < s + m" for b using assms(2) that by (simp add: new_chain_def)
  moreover have "FTB_GET g' b = FTB_GET g1 b" if "b < ?N" for b
    using g'(6) k3(2) assms(2) nofin that by (auto simp: new_chain_def)
  moreover have "length (gc_pool g') = length (gc_pool g1)"
    using g'(4) copy_words_nth(2) [OF fit] assms(2) by (simp add: g3_def new_chain_def)
  moreover have "gc_pool g' ! w = gc_pool g1 ! w" if "w < length (gc_pool g1)" "\<not> (?W * s \<le> w \<and> w < ?W * (s + m))" for w
  proof -
    have l: "w < length (gc_pool g2)" using that(1) assms(2) by (simp add: new_chain_def)
    have "\<not> (s * ?W \<le> w \<and> w < s * ?W + n * ?W)" using that(2) assms(12) by (auto simp: WORDS_PER_BLOCK_def)
    then have "gc_pool g' ! w = gc_pool g2 ! w" using copy_words_nth(3) [OF fit l] g'(4) by (simp add: g3_def)
    then show ?thesis using assms(2) that unfolding new_chain_def by presburger
  qed
  ultimately have "resized g1 h n g' s m" using assms(12) by (auto simp: resized_def)
  then show ?thesis using g' f3 by (simp add: g3_def)
qed

section \<open>Resizing\<close>

lemma ptr_of_block:
  assumes "layout g" "VERIFY_PTR g p"
  shows "PTR_FROM_BLOCK g (BLOCK_FROM_PTR g p) = p"
proof -
  have "p AND 15 = p mod 16" using take_bit_eq_mask [of 4 p] by (simp add: take_bit_eq_mod mask_eq_exp_minus_1)
  then have "16 dvd p" "gc_pool_start g \<le> p" using assms(2) by (auto simp: VERIFY_PTR_def BYTES_PER_BLOCK_def)
  moreover have "16 dvd gc_pool_start g" using assms(1) by (simp add: layout_def BYTES_PER_BLOCK_def)
  ultimately show ?thesis by (simp add: PTR_FROM_BLOCK_def BLOCK_FROM_PTR_def BYTES_PER_BLOCK_def)
qed

lemma block_of_ptr: "gc_pool_start g' = gc_pool_start g \<Longrightarrow> BLOCK_FROM_PTR g' (PTR_FROM_BLOCK g s) = s"
  by (simp add: PTR_FROM_BLOCK_def BLOCK_FROM_PTR_def BYTES_PER_BLOCK_def)

lemma resized_same:
  assumes "gc_ok g" "h \<in> heads g" "chain_end g h n" "h + n \<le> n_blocks_total g"
  shows "resized g h n g h n"
proof -
  have "kind g h = AT_HEAD" using assms(1,2) by (auto simp: gc_ok_def heads_def marked_def)
  then show ?thesis using assms(3,4) chain_endD [OF assms(3)] by (auto simp: resized_def is_chain_def chain_end_def)
qed

lemma gc_realloc_spec:
  fixes n_bytes :: "32 word"
  assumes "gc_ok g" "\<not> FTB_GET g 1" "\<And>b ws. length (del b ws) = length ws" "gc_lock_depth g = 0"
    and "VERIFY_PTR g p" "kind g (BLOCK_FROM_PTR g p) = AT_HEAD" "\<not> FTB_GET g (BLOCK_FROM_PTR g p)" "p \<in> set (roots @ stack)"
    and "0 < n_bytes" "unat n_bytes + 15 < 2 ^ 32"
  defines "h \<equiv> BLOCK_FROM_PTR g p" and "new \<equiv> (unat n_bytes + 15) div 16"
  shows "\<exists>p' n g1 g'. gc_realloc del p n_bytes allow_move roots stack g = Some (p', g') \<and> gc_ok g' \<and> frame g' = frame g \<and>
    gc_nbytes p g = Some (n * BYTES_PER_BLOCK) \<and>
    (if room_after g h n new then p' = p \<and> resized g h n g' h new
     else if \<not> allow_move then p' = NULL \<and> g' = g
     else (g1 = g \<or> gc_collect del roots stack g = Some g1) \<and>
       (if p' = NULL then g' = g1 \<and> (gc_auto_collect_enabled g \<longrightarrow> gc_collect del roots stack g = Some g1) \<and> \<not> has_run g1 new
        else \<exists>s. p' = PTR_FROM_BLOCK g s \<and> resized g1 h n g' s new))"
proof -
  let ?N = "n_blocks_total g"
  have lay: "layout g" using assms(1) by (simp add: gc_ok_def)
  have gap: "gap g" by (rule gap_no_flag [OF lay assms(2)])
  obtain n where n: "gc_nbytes p g = Some (n * BYTES_PER_BLOCK)" "chain_end g h n" "h + n \<le> ?N" "h \<in> heads g"
    using gc_nbytes_chain [OF assms(1) gap assms(5,6)] by (auto simp: h_def)
  obtain f where f: "count_loop g new [h + 1..<?N] 1 0 = (n, f)" "h + n + f \<le> ?N" "\<forall>j < f. kind g (h + n + j) = AT_FREE"
    "n + f < new \<longrightarrow> h + n + f = ?N \<or> kind g (h + n + f) \<noteq> AT_FREE"
    using count_loop_spec [OF assms(1) n(2,3)] by blast
  have ub: "unat (n_bytes + 15) div BYTES_PER_BLOCK = new" using blocks_for(2) [OF assms(10)] by (simp add: new_def BYTES_PER_BLOCK_def)
  have nz: "p \<noteq> NULL" "n_bytes \<noteq> 0" using assms(5,9) lay by (auto simp: VERIFY_PTR_def layout_def)
  have "0 < unat n_bytes" using assms(9) by (simp add: word_less_nat_alt)
  then have pos: "1 \<le> new" by (simp add: new_def)
  have pb: "PTR_FROM_BLOCK g h = p" unfolding h_def by (rule ptr_of_block [OF lay assms(5)])
  have body: "gc_realloc del p n_bytes allow_move roots stack g =
      (if new = n then Some (p, g)
       else if new < n then
         let g1 = shrink_loop [h + new..<h + n] g; i = (h + new) div BLOCKS_PER_ATB
         in Some (p, if i < gc_last_free_atb_index g1 then g1\<lparr>gc_last_free_atb_index := i\<rparr> else g1)
       else if new \<le> n + f then
         map_option (\<lambda>g1. (p, clear_words ((h + n) * WORDS_PER_BLOCK) ((new - n) * WORDS_PER_BLOCK) g1)) (extend_loop [h + n..<h + new] g)
       else if \<not> allow_move then Some (NULL, g)
       else Option.bind (gc_alloc del n_bytes False roots stack g) (\<lambda>(ptr_out, g1).
              if ptr_out = NULL then Some (NULL, g1)
              else map_option (Pair ptr_out) (gc_free p (copy_words (BLOCK_FROM_PTR g1 ptr_out * WORDS_PER_BLOCK)
                     (h * WORDS_PER_BLOCK) (n * WORDS_PER_BLOCK) g1))))"
    using nz assms(4-7) f(1) unfolding gc_realloc_def h_def [symmetric] Let_def ub by simp
  have fits: "room_after g h n new" if "new \<le> n + f"
  proof -
    have "kind g b = AT_FREE" if "h + n \<le> b" "b < h + new" for b
      using f(3) [rule_format, of "b - (h + n)"] that \<open>new \<le> n + f\<close> by simp
    then show ?thesis using that f(2) by (simp add: room_after_def)
  qed
  have no_fit: "\<not> room_after g h n new" if "n + f < new"
    using f(4) that f(2) by (auto simp: room_after_def intro: exI [of _ "h + n + f"])
  consider "new = n" | "new < n" | "n < new" "new \<le> n + f" | "n < new" "n + f < new" by linarith
  then show ?thesis
  proof cases
    case 1
    then have "gc_realloc del p n_bytes allow_move roots stack g = Some (p, g)"
      by (simp add: body)
    then show ?thesis using n resized_same [OF assms(1) n(4,2,3)] assms(1) nz(1) 1 pb fits by (intro exI [of _ p] exI [of _ n] exI [of _ g]) auto
  next
    case 2
    note s = realloc_shrink [OF assms(1) n(4,2,3) pos 2]
    define g' where "g' = (let g1 = shrink_loop [h + new..<h + n] g in if (h + new) div BLOCKS_PER_ATB < gc_last_free_atb_index g1
                 then g1\<lparr>gc_last_free_atb_index := (h + new) div BLOCKS_PER_ATB\<rparr> else g1)"
    have "gc_realloc del p n_bytes allow_move roots stack g = Some (p, g')"
      using 2 by (simp add: body g'_def Let_def)
    then show ?thesis using n s nz(1) pb by (intro exI [of _ p] exI [of _ n] exI [of _ g] exI [of _ g']) (use fits 2 in \<open>auto simp: g'_def Let_def\<close>)
  next
    case 3
    obtain g1 where g1: "extend_loop [h + n..<h + new] g = Some g1"
      "\<forall>g'. g' = clear_words ((h + n) * WORDS_PER_BLOCK) ((new - n) * WORDS_PER_BLOCK) g1 \<longrightarrow> gc_ok g' \<and> frame g' = frame g \<and> resized g h n g' h new"
      using realloc_grow [OF assms(1) n(4,2) f(2) 3 f(3)] by blast
    define g' where "g' = clear_words ((h + n) * WORDS_PER_BLOCK) ((new - n) * WORDS_PER_BLOCK) g1"
    have "gc_realloc del p n_bytes allow_move roots stack g = Some (p, g')"
      using 3 g1(1) by (simp add: body g'_def)
    then show ?thesis using n g1(2) g'_def nz(1) pb fits 3 by (intro exI [of _ p] exI [of _ n] exI [of _ g] exI [of _ g']) auto
  next
    case 4
    have stay: "gc_realloc del p n_bytes allow_move roots stack g = Some (NULL, g)" if "\<not> allow_move"
      unfolding body using 4 that by simp
    have move: "gc_realloc del p n_bytes allow_move roots stack g =
        Option.bind (gc_alloc del n_bytes False roots stack g) (\<lambda>(ptr_out, g1).
              if ptr_out = NULL then Some (NULL, g1)
              else map_option (Pair ptr_out) (gc_free p (copy_words (BLOCK_FROM_PTR g1 ptr_out * WORDS_PER_BLOCK)
                     (h * WORDS_PER_BLOCK) (n * WORDS_PER_BLOCK) g1)))" if allow_move
      unfolding body using 4 that by simp
    show ?thesis
    proof (cases allow_move)
      case False
      show ?thesis using stay [OF False] n no_fit [OF 4(2)] False assms(1) by auto
    next
      case True
      obtain p' g1 g2 where a: "gc_alloc del n_bytes False roots stack g = Some (p', g2)" "gc_ok g2" "frame g2 = frame g"
        "g1 = g \<or> gc_collect del roots stack g = Some g1"
        and br: "if p' = NULL
          then g2 = g1 \<and> (gc_auto_collect_enabled g \<longrightarrow> gc_collect del roots stack g = Some g1) \<and>
            \<not> has_run g1 new
          else \<exists>s. p' = PTR_FROM_BLOCK g s \<and> new_chain g1 g2 s new False"
        using gc_alloc_spec [where del = del, OF assms(1) gap assms(3,4,9,10), of False roots stack, folded new_def]
        by (elim exE conjE) (rule that)
      note kept = root_chain_kept [where del = del, OF assms(1) gap assms(3) a(4) assms(8,5) h_def [THEN meta_eq_to_obj_eq] n(4,2,3)]
      show ?thesis
      proof (cases "p' = NULL")
        case null: True
        then have "gc_realloc del p n_bytes allow_move roots stack g = Some (NULL, g2)" using move [OF True] a(1) by simp
        then show ?thesis using True null a(2-4) br n(1) no_fit [OF 4(2)] by (intro exI [of _ NULL] exI [of _ n] exI [of _ g1] exI [of _ g2]) auto
      next
        case False
        then obtain s where s: "p' = PTR_FROM_BLOCK g s" "new_chain g1 g2 s new False" using br by auto
        have fr: "frame g1 = frame g" "frame g2 = frame g1" using kept(2) a(3) by simp_all
        have tot: "n_blocks_total g1 = ?N" "gc_lock_depth g1 = 0" "gc_pool_start g2 = gc_pool_start g"
          "VERIFY_PTR g1 p" "h = BLOCK_FROM_PTR g1 p"
          using fr assms(4,5) by (auto simp: frame_def VERIFY_PTR_def BLOCK_FROM_PTR_def h_def)
        have "1 < ?N" using n(4) by (cases "gc_alloc_table_byte_len g") (auto simp: heads_def n_blocks_total_def BLOCKS_PER_ATB_def)
        then have nf: "\<not> FTB_GET g2 1" using s(2) tot(1) kept(5) [of 1] assms(2) by (auto simp: new_chain_def)
        have "\<not> FTB_GET g1 h" using kept(5) [of h] n(4) assms(7) by (auto simp: heads_def h_def)
        note nofin = this
        have "\<exists>g'. gc_free p (copy_words (s * WORDS_PER_BLOCK) (h * WORDS_PER_BLOCK) (n * WORDS_PER_BLOCK) g2) = Some g' \<and>
          gc_ok g' \<and> frame g' = frame g1 \<and> resized g1 h n g' s new"
        proof (rule realloc_move [OF kept(1) s(2) a(2) fr(2) tot(2) nf tot(4,5) n(4,2) _ 4(1)])
          show "kind g1 b = kind g b" if "h \<le> b" "b < h + n" for b using kept(3) that n(3) by simp
          show "kind g1 (h + n) \<noteq> AT_TAIL" if "h + n < n_blocks_total g1"
            using kept(4) [of "h + n"] that tot(1) n(2) by (auto simp: chain_end_def)
        qed (use tot(1) n(3) assms(6) nofin in \<open>simp_all add: h_def\<close>)
        then obtain g' where g': "gc_free p (copy_words (s * WORDS_PER_BLOCK) (h * WORDS_PER_BLOCK) (n * WORDS_PER_BLOCK) g2) = Some g'"
          "gc_ok g'" "frame g' = frame g1" "resized g1 h n g' s new" by blast
        have "gc_realloc del p n_bytes allow_move roots stack g = Some (p', g')"
          using move [OF True] a(1) False s(1) g'(1) block_of_ptr [OF tot(3)] by simp
        then show ?thesis using True False a(4) s(1) n(1) g' fr(1) no_fit [OF 4(2)]
          by (intro exI [of _ p'] exI [of _ n] exI [of _ g1] exI [of _ g']) auto
      qed
    qed
  qed
qed

end
