(* ===== verification/Py_Gc_Props.thy ===== *)
theory Py_Gc_Props
  imports Py_Gc_Realloc
begin

unbundle bit_operations_syntax

text \<open>
  The properties of the allocator and collector of \<open>py/gc.c\<close>: initialisation, collection,
  allocation, freeing, resizing and the statistics, and two inputs on which the code goes wrong.
\<close>

section \<open>Initialisation\<close>

lemma init_room:
  assumes "A = T * 8 div 524"
  shows "64 * A + A + (A * 4 + 7) div 8 \<le> (T :: nat)"
proof -
  have "524 * A \<le> T * 8" using assms by simp
  moreover have "8 * ((A * 4 + 7) div 8) \<le> A * 4 + 7" by simp
  ultimately show ?thesis by linarith
qed

lemma gc_init_spec:
  assumes "0 < start" "start \<le> end0 - end0 mod 16"
  defines "end1 \<equiv> end0 - end0 mod 16"
  defines "A \<equiv> (end1 - start) * 8 div 524"
  assumes "length pool = A * 16"
  shows "\<exists>g. gc_init start end0 tables pool = Some g \<and> gc_ok g \<and> gap g \<and> \<not> gc_is_locked g \<and>
    n_blocks_total g = A * 4 \<and> gc_pool_end g = end1 \<and> start + A + (A * 4 + 7) div 8 \<le> gc_pool_start g \<and>
    (\<forall>b < n_blocks_total g. kind g b = AT_FREE \<and> \<not> FTB_GET g b)"
proof -
  let ?F = "(A * 4 + 7) div 8"
  have room: "64 * A + A + ?F \<le> end1 - start" by (rule init_room) (simp add: A_def)
  define g where "g = \<lparr>gc_table = replicate (A + ?F) 0 @ drop (A + ?F) tables, gc_alloc_table_byte_len = A, gc_pool = pool,
      gc_pool_start = end1 - A * 4 * 16, gc_pool_end = end1, gc_stack_overflow = False, gc_lock_depth = 0,
      gc_auto_collect_enabled = True, gc_alloc_amount = 0, gc_alloc_threshold = - 1, gc_last_free_atb_index = 0, gc_collected = 0\<rparr>"
  have ps: "start + A + ?F \<le> end1 - A * 4 * 16" using room assms(2) by (simp add: end1_def)
  then have run: "gc_init start end0 tables pool = Some g"
    unfolding gc_init_def Let_def g_def block_consts end1_def [symmetric] by (simp add: A_def [symmetric] add.commute [of 7])
  have N: "n_blocks_total g = A * 4" by (simp add: g_def n_blocks_total_def BLOCKS_PER_ATB_def)
  have free: "kind g b = AT_FREE" if "b < A * 4" for b
  proof -
    have "b div 4 < A + ?F" using that by simp
    then show ?thesis by (simp add: ATB_GET_KIND_def g_def BLOCKS_PER_ATB_def nth_append AT_FREE_def)
  qed
  have flag: "\<not> FTB_GET g b" if "b < A * 4" for b
  proof -
    have "A + b div 8 < A + ?F" using that by linarith
    then show ?thesis by (simp add: ftb_get_bit g_def nth_append)
  qed
  have "16 dvd end1" unfolding end1_def by (simp add: minus_mod_eq_mult_div)
  then have "16 dvd end1 - A * 4 * 16" by simp
  then have lay: "layout g" using ps assms(1,5) room N
    by (auto simp: layout_def g_def block_consts N [unfolded g_def])
  have ok: "gc_ok g" using lay free flag N by (auto simp: gc_ok_def tails_ok_def marked_def g_def BLOCKS_PER_ATB_def)
  have "gap g" using free [of "A * 4 - 1"] N by (cases A) (auto simp: gap_def)
  then show ?thesis using run ok N ps free flag by (intro exI [of _ g]) (simp add: g_def gc_is_locked_def)
qed

section \<open>Statistics\<close>

lemma info_count_sel:
  assumes "info_count k len lf info = (len1, lf1, info1)" "k \<noteq> AT_MARK" "k = AT_FREE \<or> k = AT_HEAD \<or> k = AT_TAIL"
  shows "info_used info1 = info_used info + (if k = AT_FREE then 0 else 1)"
    "info_free info1 = info_free info + (if k = AT_FREE then 1 else 0)" "info_total info1 = info_total info"
  using assms by (auto simp: info_count_def split: if_splits)

lemma info_boundary_sel:
  assumes "info_boundary fin k len lf info = (lf1, info1)"
  shows "info_used info1 = info_used info" "info_free info1 = info_free info" "info_total info1 = info_total info"
  using assms by (auto simp: info_boundary_def Let_def split: if_splits)

lemma card_range_step:
  assumes "a < (N::nat)"
  shows "card {b. a \<le> b \<and> b < N \<and> P b} = (if P a then 1 else 0) + card {b. Suc a \<le> b \<and> b < N \<and> P b}"
proof -
  have "{b. a \<le> b \<and> b < N \<and> P b} = (if P a then {a} else {}) \<union> {b. Suc a \<le> b \<and> b < N \<and> P b}"
    using assms by (auto simp: Suc_le_eq le_less)
  moreover have "finite {b. Suc a \<le> b \<and> b < N \<and> P b}" by (rule finite_subset [of _ "{..<N}"]) auto
  ultimately show ?thesis by auto
qed

lemma info_loop:
  assumes "marked g = {}" "a < n_blocks_total g"
  shows "\<exists>r. info_loop g a len lf info = Some r \<and> info_total r = info_total info \<and>
    info_used r = info_used info + card {b. a \<le> b \<and> b < n_blocks_total g \<and> kind g b \<noteq> AT_FREE} \<and>
    info_free r = info_free info + card {b. a \<le> b \<and> b < n_blocks_total g \<and> kind g b = AT_FREE}"
  using assms(2)
proof (induction "n_blocks_total g - a" arbitrary: a len lf info)
  case 0
  then show ?case by simp
next
  case (Suc d)
  let ?N = "n_blocks_total g" and ?fin = "a + 1 = n_blocks_total g"
  obtain len1 lf1 info1 where c: "info_count (kind g a) len lf info = (len1, lf1, info1)" by (cases "info_count (kind g a) len lf info")
  obtain lf2 info2 where b: "info_boundary ?fin (if ?fin then kind g a else kind g (a + 1)) len1 lf1 info1 = (lf2, info2)"
    by (cases "info_boundary ?fin (if ?fin then kind g a else kind g (a + 1)) len1 lf1 info1")
  have "kind g a \<noteq> AT_MARK" using assms(1) Suc.prems by (auto simp: marked_def)
  note sel = info_count_sel [OF c this] info_boundary_sel [OF b]
  have kr: "kind g a = AT_FREE \<or> kind g a = AT_HEAD \<or> kind g a = AT_TAIL" using kind_range [of g a] \<open>kind g a \<noteq> AT_MARK\<close> by auto
  have run: "info_loop g a len lf info = (if ?fin then Some info2 else info_loop g (a + 1) len1 lf2 info2)"
    by (subst info_loop.simps) (simp add: c b [simplified] Let_def)
  note step = card_range_step [OF Suc.prems, of "\<lambda>b. kind g b \<noteq> AT_FREE"] card_range_step [OF Suc.prems, of "\<lambda>b. kind g b = AT_FREE"]
  show ?case
  proof (cases ?fin)
    case True
    then have "{b. Suc a \<le> b \<and> b < ?N \<and> P b} = {}" for P by auto
    then show ?thesis using run True sel kr step by simp
  next
    case False
    then have "Suc a < ?N" using Suc.prems by simp
    moreover have "d = ?N - Suc a" using Suc.hyps(2) by simp
    ultimately obtain r where "info_loop g (Suc a) len1 lf2 info2 = Some r" "info_total r = info_total info2"
      "info_used r = info_used info2 + card {b. Suc a \<le> b \<and> b < ?N \<and> kind g b \<noteq> AT_FREE}"
      "info_free r = info_free info2 + card {b. Suc a \<le> b \<and> b < ?N \<and> kind g b = AT_FREE}"
      using Suc.hyps(1) [of "Suc a" len1 lf2 info2] by blast
    then show ?thesis using run False sel kr step by simp
  qed
qed

section \<open>Inputs on which the code goes wrong\<close>

text \<open>
  Sizes within 15 bytes of the largest need zero blocks after the wrap; a resize to such a size
  frees the whole chain and returns the pointer to it.
\<close>

theorem gc_realloc_size_wraps:
  fixes n_bytes :: "32 word"
  assumes "gc_ok g" "gap g" "gc_lock_depth g = 0" "VERIFY_PTR g p" "kind g (BLOCK_FROM_PTR g p) = AT_HEAD"
    and "2 ^ 32 \<le> unat n_bytes + 15"
  shows "\<exists>g'. gc_realloc del p n_bytes allow_move roots stack g = Some (p, g') \<and>
    (\<forall>b < n_blocks_total g. kind g' b = (if in_chain g (BLOCK_FROM_PTR g p) b then AT_FREE else kind g b))"
proof -
  let ?N = "n_blocks_total g" and ?h = "BLOCK_FROM_PTR g p"
  have lay: "layout g" using assms(1) by (simp add: gc_ok_def)
  obtain n where n: "chain_end g ?h n" "?h + n \<le> ?N" using gc_nbytes_chain [OF assms(1,2,4,5)] by auto
  obtain f where f: "count_loop g 0 [?h + 1..<?N] 1 0 = (n, f)" using count_loop_spec [OF assms(1) n] by blast
  have z: "unat (n_bytes + 15) div BYTES_PER_BLOCK = 0" using blocks_wrap [OF assms(6)] by (simp add: BYTES_PER_BLOCK_def)
  have pos: "0 < n" using n(1) by (simp add: chain_end_def)
  define g1 where "g1 = shrink_loop [?h..<?h + n] g"
  define g' where "g' = (if ?h div BLOCKS_PER_ATB < gc_last_free_atb_index g1 then g1\<lparr>gc_last_free_atb_index := ?h div BLOCKS_PER_ATB\<rparr> else g1)"
  have "n_bytes \<noteq> 0" "p \<noteq> NULL" using assms(4,6) lay by (auto simp: VERIFY_PTR_def layout_def)
  then have run: "gc_realloc del p n_bytes allow_move roots stack g = Some (p, g')"
    using assms(3-5) f z pos by (simp add: gc_realloc_def Let_def g'_def g1_def)
  have "retype g g1 (\<lambda>x. if x \<in> set [?h..<?h + n] then AT_FREE else kind g x)"
    unfolding g1_def using n(2) by (intro shrink_loop lay) auto
  moreover have "kind g' = kind g1" unfolding g'_def by (auto intro: kind_cong)
  ultimately have "kind g' b = (if in_chain g ?h b then AT_FREE else kind g b)" for b
    using in_chain_range [OF n(1), of b] by (simp add: retype_def)
  then show ?thesis using run by blast
qed

text \<open>
  Blocks 1 and 3 of a heap of four are in use and block 1 has a finaliser. Freeing block 3 goes on
  into the finaliser table and clears the flag of block 1.
\<close>

definition two_objects :: gc where
  "two_objects = \<lparr>gc_table = [68, 2], gc_alloc_table_byte_len = 1, gc_pool = replicate 16 0, gc_pool_start = 64,
     gc_pool_end = 128, gc_stack_overflow = False, gc_lock_depth = 0, gc_auto_collect_enabled = True,
     gc_alloc_amount = 2, gc_alloc_threshold = - 1, gc_last_free_atb_index = 0, gc_collected = 0\<rparr>"

text \<open>The invariant as a test of the table.\<close>

lemma gc_ok_test:
  "gc_ok g \<longleftrightarrow> layout g \<and> list_all (\<lambda>b. (kind g b = AT_TAIL \<longrightarrow> 0 < b \<and> kind g (b - 1) \<noteq> AT_FREE) \<and> kind g b \<noteq> AT_MARK \<and>
     (FTB_GET g b \<longrightarrow> kind g b = AT_HEAD) \<and> (b < BLOCKS_PER_ATB * gc_last_free_atb_index g \<longrightarrow> kind g b \<noteq> AT_FREE))
     [0..<n_blocks_total g]"
  by (auto simp: gc_ok_def tails_ok_def marked_def list_all_iff)

theorem gc_free_clears_other_flag:
  "gc_ok two_objects \<and> FTB_GET two_objects 1 \<and>
   (\<exists>g'. gc_free 112 two_objects = Some g' \<and> kind g' 1 = AT_HEAD \<and> \<not> FTB_GET g' 1)"
proof -
  have ok: "gc_ok two_objects" "FTB_GET two_objects 1" unfolding gc_ok_test by code_simp+
  define g1 where "g1 = FTB_CLEAR 3 two_objects"
  define g2 where "g2 = ATB_ANY_TO_FREE 3 g1"
  define g3 where "g3 = ATB_ANY_TO_FREE 4 g2"
  have k: "kind g2 4 = AT_TAIL" "kind g3 5 \<noteq> AT_TAIL" "kind g3 1 = AT_HEAD" "\<not> FTB_GET g3 1" 
    unfolding g3_def g2_def g1_def by code_simp+
  have "free_loop 3 g1 = free_loop 4 g2" using k(1) by (subst free_loop.simps) (simp add: g2_def Let_def)
  also have "\<dots> = Some g3" using k(2) by (subst free_loop.simps) (simp add: g3_def Let_def)
  finally have l: "free_loop 3 g1 = Some g3" .
  have b: "kind two_objects 3 = AT_HEAD" "VERIFY_PTR two_objects 112" "BLOCK_FROM_PTR two_objects 112 = 3" "gc_lock_depth two_objects = 0" by code_simp+
  have i: "gc_last_free_atb_index g1 = 0" by (simp add: g1_def FTB_CLEAR_def two_objects_def)
  have "gc_free 112 two_objects = Some g3"
    using b l i by (simp add: gc_free_def g1_def [symmetric] Let_def)
  with k ok show ?thesis by blast
qed

section \<open>The properties\<close>

text \<open>A heap of four blocks: a chain of two blocks whose first word points to the object in block 2.\<close>

definition small_heap :: gc where
  "small_heap = two_objects\<lparr>gc_table := [25, 0], gc_pool := 96 # replicate 15 0\<rparr>"

lemma small_heap_ok:
  "gc_ok small_heap" "gap small_heap" "gc_lock_depth small_heap = 0" "VERIFY_PTR small_heap 64"
  "ATB_GET_KIND small_heap (BLOCK_FROM_PTR small_heap 64) = AT_HEAD"
  "\<not> FTB_GET small_heap 1" "\<not> FTB_GET small_heap (BLOCK_FROM_PTR small_heap 64)"
  unfolding gc_ok_test by code_simp+

lemma small_heap_no_flags: "\<forall>b < n_blocks_total small_heap. \<not> FTB_GET small_heap b"
proof -
  have "list_all (\<lambda>b. \<not> FTB_GET small_heap b) [0..<n_blocks_total small_heap]" by code_simp
  then show ?thesis by (auto simp: list_all_iff)
qed

text \<open>
  C1: A collection returns, whatever the finalisers do to the words of the heap, and keeps the
  invariant. Afterwards exactly the blocks of the chains that can be reached from the root
  pointers are in use, each as before; all other blocks are free. Finaliser flags are kept for
  the reached objects only, \<open>gc_collected\<close> is the number of chains freed, and no word of the heap
  changes unless an unreachable object has a finaliser. The mark stack may overflow any number
  of times. The hypothesis \<open>gap\<close> excludes the tables on which a chain seems to go on past the end.
\<close>

theorem gc_collect_frees_garbage:
  assumes "gc_ok g" "gap g" "\<And>b ws. length (del b ws) = length ws"
  shows "\<exists>g'. gc_collect del roots stack g = Some g' \<and> gc_ok g' \<and> frame g' = frame g \<and>
    (\<forall>b < n_blocks_total g. ATB_GET_KIND g' b = (if b \<in> live_blocks (roots @ stack) g then ATB_GET_KIND g b else AT_FREE)) \<and>
    (\<forall>b < n_blocks_total g. FTB_GET g' b \<longleftrightarrow> FTB_GET g b \<and> b \<in> live (roots @ stack) g) \<and>
    gc_collected g' = card (heads g - live (roots @ stack) g) \<and>
    ((\<forall>b \<in> heads g - live (roots @ stack) g. \<not> FTB_GET g b) \<longrightarrow> gc_pool g' = gc_pool g)"
  using gc_collect_spec [where del = del, OF assms, of roots stack] gc_collect_ok(1) [where del = del, OF assms] by blast

theorem gc_collect_frees_garbage_witness:
  "gc_ok small_heap \<and> gap small_heap \<and> (\<exists>g'. gc_collect (\<lambda>b ws. ws) [64] [] small_heap = Some g' \<and> gc_ok g')"
  using gc_collect_frees_garbage [of small_heap "\<lambda>b ws. ws" "[64]" "[]"] small_heap_ok(1,2) by auto

text \<open>
  C16: An allocation of a number of bytes from 1 to \<open>2^32 - 16\<close> returns and keeps the invariant. Its
  result is the first run of enough free blocks (no run of this length ends before it) in the heap
  \<open>g1\<close>; they become one chain, zeroed, with a finaliser flag if one is asked for, and nothing else
  changes. \<open>g1\<close> is the heap itself, or the heap after a collection when the threshold is reached or
  the heap has no such run. The result is \<open>NULL\<close> exactly when \<open>g1\<close> has no such run, and then it was
  collected if collections are enabled. The heap is not locked, and \<open>gap\<close> excludes the tables on
  which a chain seems to go on past the end.
\<close>

theorem gc_alloc_first_fit:
  fixes n_bytes :: "32 word"
  assumes "gc_ok g" "gap g" "\<And>b ws. length (del b ws) = length ws" "gc_lock_depth g = 0"
    and "0 < n_bytes" "unat n_bytes + 15 < 2 ^ 32"
  shows "\<exists>p g1 g'. gc_alloc del n_bytes has_finaliser roots stack g = Some (p, g') \<and> gc_ok g' \<and> frame g' = frame g \<and>
    (if collection_due g then gc_collect del roots stack g = Some g1
     else g1 = g \<or> gc_collect del roots stack g = Some g1 \<and> \<not> has_run g ((unat n_bytes + 15) div 16)) \<and>
    (if p = NULL
     then g' = g1 \<and> (gc_auto_collect_enabled g \<longrightarrow> gc_collect del roots stack g = Some g1) \<and>
          \<not> has_run g1 ((unat n_bytes + 15) div 16)
     else \<exists>s. p = PTR_FROM_BLOCK g s \<and> new_chain g1 g' s ((unat n_bytes + 15) div 16) has_finaliser \<and>
            first_run g1 s ((unat n_bytes + 15) div 16))"
  by (rule gc_alloc_first [where del = del, OF assms])

theorem gc_alloc_first_fit_witness:
  "\<exists>p g'. gc_alloc (\<lambda>b ws. ws) 10 False [64] [] small_heap = Some (p, g') \<and> gc_ok g'"
  using gc_alloc_first_fit [of small_heap "\<lambda>b ws. ws" 10 False "[64]" "[]"] small_heap_ok by auto

text \<open>
  Freeing a pointer to an allocated chain returns, makes exactly the blocks of this chain free,
  clears its finaliser flag and no other, leaves the words of the heap and keeps the invariant.
\<close>

theorem gc_free_frees_chain:
  assumes "gc_ok g" "gap g" "gc_lock_depth g = 0" "VERIFY_PTR g p" "ATB_GET_KIND g (BLOCK_FROM_PTR g p) = AT_HEAD"
  shows "\<exists>g'. gc_free p g = Some g' \<and> gc_ok g' \<and> frame g' = frame g \<and> gc_pool g' = gc_pool g \<and>
    (\<forall>b < n_blocks_total g. ATB_GET_KIND g' b = (if in_chain g (BLOCK_FROM_PTR g p) b then AT_FREE else ATB_GET_KIND g b)) \<and>
    (\<forall>b < n_blocks_total g. FTB_GET g' b \<longleftrightarrow> FTB_GET g b \<and> b \<noteq> BLOCK_FROM_PTR g p)"
  by (rule gc_free_spec [OF assms])

theorem gc_free_frees_chain_witness:
  "\<exists>g'. gc_free 64 small_heap = Some g' \<and> gc_ok g' \<and> gc_pool g' = gc_pool small_heap"
  using gc_free_frees_chain [OF small_heap_ok(1-5)] by blast

text \<open>
  C17: Resizing an object without a finaliser, while a root points to it, returns and keeps the
  invariant. When the object has the blocks or the blocks it needs after it are free, the result is
  the same pointer. Otherwise it is \<open>NULL\<close> and nothing changes if the object may not move; if it may,
  it is \<open>NULL\<close> only if there is no run of enough free blocks, after a collection if these are enabled,
  and then nothing but garbage was freed. A result that is not \<open>NULL\<close> is a chain of the size asked
  for that begins with the words the object had; the blocks the object no longer has are free, and
  the kinds, finaliser flags and words of all other blocks are unchanged. The heap is not locked and
  block 1 has no finaliser: its flag is what the search for the end of a chain reads past the table.
\<close>

theorem gc_realloc_keeps_contents:
  fixes n_bytes :: "32 word"
  assumes "gc_ok g" "\<not> FTB_GET g 1" "\<And>b ws. length (del b ws) = length ws" "gc_lock_depth g = 0"
    and "VERIFY_PTR g p" "ATB_GET_KIND g (BLOCK_FROM_PTR g p) = AT_HEAD" "\<not> FTB_GET g (BLOCK_FROM_PTR g p)" "p \<in> set (roots @ stack)"
    and "0 < n_bytes" "unat n_bytes + 15 < 2 ^ 32"
  shows "\<exists>p' n g1 g'. gc_realloc del p n_bytes allow_move roots stack g = Some (p', g') \<and> gc_ok g' \<and> frame g' = frame g \<and>
    gc_nbytes p g = Some (n * BYTES_PER_BLOCK) \<and>
    (if room_after g (BLOCK_FROM_PTR g p) n ((unat n_bytes + 15) div 16)
     then p' = p \<and> resized g (BLOCK_FROM_PTR g p) n g' (BLOCK_FROM_PTR g p) ((unat n_bytes + 15) div 16)
     else if \<not> allow_move then p' = NULL \<and> g' = g
     else (g1 = g \<or> gc_collect del roots stack g = Some g1) \<and>
       (if p' = NULL
        then g' = g1 \<and> (gc_auto_collect_enabled g \<longrightarrow> gc_collect del roots stack g = Some g1) \<and>
             \<not> has_run g1 ((unat n_bytes + 15) div 16)
        else \<exists>s. p' = PTR_FROM_BLOCK g s \<and> resized g1 (BLOCK_FROM_PTR g p) n g' s ((unat n_bytes + 15) div 16)))"
  by (rule gc_realloc_spec [where del = del, OF assms])

theorem gc_realloc_keeps_contents_witness:
  "\<exists>p' g'. gc_realloc (\<lambda>b ws. ws) 64 50 True [64] [] small_heap = Some (p', g') \<and> gc_ok g'"
  using gc_realloc_keeps_contents [of small_heap "\<lambda>b ws. ws" 64 "[64]" "[]" 50 True] small_heap_ok by auto

text \<open>
  Initialisation never fails its assertion: the tables and the pool of the computed sizes fit
  between \<open>start\<close> and \<open>end\<close>, the pool has four blocks for each byte of the allocation table and ends
  on a block boundary, every block is free, and the invariant holds.
\<close>

theorem gc_init_heap:
  assumes "0 < start" "start \<le> end0 - end0 mod 16"
    and "length pool = (end0 - end0 mod 16 - start) * 8 div 524 * 16"
  shows "\<exists>g. gc_init start end0 tables pool = Some g \<and> gc_ok g \<and> gap g \<and> \<not> gc_is_locked g \<and>
    gc_pool_end g = end0 - end0 mod 16 \<and>
    start + gc_alloc_table_byte_len g + (n_blocks_total g + 7) div 8 \<le> gc_pool_start g \<and>
    (\<forall>b < n_blocks_total g. ATB_GET_KIND g b = AT_FREE \<and> \<not> FTB_GET g b)"
proof -
  let ?A = "(end0 - end0 mod 16 - start) * 8 div 524"
  obtain g where g: "gc_init start end0 tables pool = Some g" "gc_ok g" "gap g" "\<not> gc_is_locked g" "n_blocks_total g = ?A * 4"
    "gc_pool_end g = end0 - end0 mod 16" "start + ?A + (?A * 4 + 7) div 8 \<le> gc_pool_start g"
    "\<forall>b < n_blocks_total g. kind g b = AT_FREE \<and> \<not> FTB_GET g b"
    using gc_init_spec [OF assms, of tables] by blast
  have "gc_alloc_table_byte_len g = ?A" using g(5) by (simp only: n_blocks_total_def BLOCKS_PER_ATB_def mult_cancel2) simp
  then have "start + gc_alloc_table_byte_len g + (n_blocks_total g + 7) div 8 \<le> gc_pool_start g" using g(5,7) by (simp only:)
  then show ?thesis using g by blast
qed

theorem gc_init_heap_witness:
  "\<exists>g. gc_init 8 1030 [] (replicate 240 0) = Some g \<and> gc_ok g"
  using gc_init_heap [of 8 1030 "replicate 240 0" "[]"] by auto

text \<open>
  The statistics of a heap count every block once: the bytes in use and the free bytes are those
  of the blocks in use and of the free blocks, and add up to the size of the pool.
\<close>

theorem gc_info_counts:
  assumes "gc_ok g" "0 < n_blocks_total g"
  shows "\<exists>info. gc_info g = Some info \<and>
    info_used info = BYTES_PER_BLOCK * card {b. b < n_blocks_total g \<and> ATB_GET_KIND g b \<noteq> AT_FREE} \<and>
    info_free info = BYTES_PER_BLOCK * card {b. b < n_blocks_total g \<and> ATB_GET_KIND g b = AT_FREE} \<and>
    info_used info + info_free info = info_total info"
proof -
  let ?N = "n_blocks_total g"
  let ?i = "\<lparr>info_total = gc_pool_end g - gc_pool_start g, info_used = 0, info_free = 0, info_max_free = 0,
      info_num_1block = 0, info_num_2block = 0, info_max_block = 0\<rparr>"
  let ?U = "{b. b < ?N \<and> kind g b \<noteq> AT_FREE}" and ?F = "{b. b < ?N \<and> kind g b = AT_FREE}"
  have "marked g = {}" using assms(1) by (simp add: gc_ok_def)
  from info_loop [OF this assms(2), of 0 0 ?i] obtain r where
    r: "info_loop g 0 0 0 ?i = Some r" "info_total r = info_total ?i" "info_used r = card ?U" "info_free r = card ?F" by auto
  have "?U \<union> ?F = {..<?N}" by auto
  moreover have "card (?U \<union> ?F) = card ?U + card ?F" by (rule card_Un_disjoint) auto
  ultimately have "card ?U + card ?F = ?N" by (simp only: card_lessThan)
  then have "card ?U * BYTES_PER_BLOCK + card ?F * BYTES_PER_BLOCK = ?N * BYTES_PER_BLOCK" by (simp only: add_mult_distrib [symmetric])
  moreover have "gc_pool_end g - gc_pool_start g = ?N * BYTES_PER_BLOCK" using assms(1) by (simp add: gc_ok_def layout_def)
  ultimately show ?thesis using r by (simp add: gc_info_def mult.commute)
qed

theorem gc_info_counts_witness:
  "\<exists>info. gc_info small_heap = Some info \<and> info_used info + info_free info = info_total info"
proof -
  have "0 < n_blocks_total small_heap" by code_simp
  from gc_info_counts [OF small_heap_ok(1) this] show ?thesis by blast
qed

end
