(* ===== verification/Object_Heap.thy ===== *)
theory Object_Heap
  imports Main
begin

text \<open>
  The interface of a heap of objects of varying size: what an allocator with a garbage collector
  promises a client, and that a client that keeps to it never holds two objects that overlap.
\<close>

section \<open>Heaps of objects\<close>

text \<open>
  A client of a heap asks for objects of some size and gives back objects it holds. An allocation
  is told the objects held, since it may reclaim others. The run returns the objects held.
\<close>

datatype 'n object_op = New 'n | Delete_nth nat

fun object_run ::
    "('n \<Rightarrow> 'b list \<Rightarrow> 'm \<Rightarrow> 'b option \<times> 'm) \<Rightarrow> ('b \<Rightarrow> 'm \<Rightarrow> 'm) \<Rightarrow> 'n object_op list \<Rightarrow> 'b list \<Rightarrow> 'm
      \<Rightarrow> 'b list \<times> 'm" where
  "object_run alloc free [] held m = (held, m)"
| "object_run alloc free (New n # ops) held m =
     (case alloc n held m of
        (None, m1) \<Rightarrow> object_run alloc free ops held m1
      | (Some b, m1) \<Rightarrow> object_run alloc free ops (b # held) m1)"
| "object_run alloc free (Delete_nth k # ops) held m =
     (if k < length held
      then object_run alloc free ops (take k held @ drop (Suc k) held) (free (held ! k) m)
      else object_run alloc free ops held m)"

locale object_heap =
  fixes alloc :: "'n \<Rightarrow> 'b list \<Rightarrow> 'm \<Rightarrow> 'b option \<times> 'm"
    and free :: "'b \<Rightarrow> 'm \<Rightarrow> 'm"
    and objects :: "'m \<Rightarrow> 'b set"
    and cells :: "'m \<Rightarrow> 'b \<Rightarrow> nat set"
    and invar :: "'m \<Rightarrow> bool"
  assumes cells_nonempty: "invar m \<Longrightarrow> b \<in> objects m \<Longrightarrow> cells m b \<noteq> {}"
    and alloc_keeps: "invar m \<Longrightarrow> set held \<subseteq> objects m \<Longrightarrow> alloc n held m = (r, m') \<Longrightarrow>
          invar m' \<and> (\<forall>c \<in> set held. c \<in> objects m' \<and> cells m' c = cells m c)"
    and alloc_disjoint: "invar m \<Longrightarrow> set held \<subseteq> objects m \<Longrightarrow> alloc n held m = (Some b, m') \<Longrightarrow>
          b \<in> objects m' \<and> (\<forall>c \<in> set held. cells m' b \<inter> cells m c = {})"
    and free_keeps: "invar m \<Longrightarrow> b \<in> objects m \<Longrightarrow>
          invar (free b m) \<and> (\<forall>c \<in> objects m. c \<noteq> b \<longrightarrow> c \<in> objects (free b m) \<and> cells (free b m) c = cells m c)"
begin

definition apart :: "'m \<Rightarrow> 'b list \<Rightarrow> bool" where
  "apart m held \<longleftrightarrow> distinct held \<and> set held \<subseteq> objects m \<and>
     (\<forall>c \<in> set held. \<forall>d \<in> set held. c \<noteq> d \<longrightarrow> cells m c \<inter> cells m d = {})"

lemma apart_alloc:
  assumes "invar m" "apart m held" "alloc n held m = (r, m')"
  shows "invar m'" "r = None \<Longrightarrow> apart m' held" "r = Some b \<Longrightarrow> apart m' (b # held)"
proof -
  have h: "distinct held" "set held \<subseteq> objects m" "\<forall>c \<in> set held. \<forall>d \<in> set held. c \<noteq> d \<longrightarrow> cells m c \<inter> cells m d = {}"
    using assms(2) by (simp_all add: apart_def)
  note k = alloc_keeps [OF assms(1) h(2) assms(3)]
  show "invar m'" using k by blast
  have same: "cells m' c = cells m c" "c \<in> objects m'" if "c \<in> set held" for c using k that by blast+
  show "r = None \<Longrightarrow> apart m' held" using h same by (auto simp: apart_def)
  assume r: "r = Some b"
  note d = alloc_disjoint [OF assms(1) h(2), of n b m'] 
  have b: "b \<in> objects m'" "\<forall>c \<in> set held. cells m' b \<inter> cells m c = {}" using d assms(3) r by blast+
  have "b \<notin> set held"
  proof
    assume "b \<in> set held"
    then have "cells m' b = {}" using b(2) same(1) by auto
    then show False using cells_nonempty \<open>invar m'\<close> b(1) by blast
  qed
  then show "apart m' (b # held)" unfolding apart_def using h b same by (auto simp: Int_commute)
qed

text \<open>The objects held never overlap.\<close>

lemma run_apart:
  assumes "invar m" "apart m held" "object_run alloc free ops held m = (held', m')"
  shows "invar m' \<and> apart m' held'"
  using assms
proof (induction ops arbitrary: held m)
  case Nil
  then show ?case by simp
next
  case (Cons op ops)
  show ?case
  proof (cases op)
    case (New n)
    obtain r m1 where a: "alloc n held m = (r, m1)" by (cases "alloc n held m")
    note s = apart_alloc [OF Cons.prems(1,2) a]
    show ?thesis using Cons.IH [OF s(1)] s(2,3) Cons.prems(3) New a by (cases r) auto
  next
    case (Delete_nth k)
    show ?thesis
    proof (cases "k < length held")
      case False
      with Cons Delete_nth show ?thesis by simp
    next
      case True
      let ?b = "held ! k" and ?rest = "take k held @ drop (Suc k) held"
      have split: "held = take k held @ ?b # drop (Suc k) held" using True by (rule id_take_nth_drop)
      have held: "distinct (take k held @ ?b # drop (Suc k) held)" "?b \<in> objects m" using Cons.prems(2) split True by (auto simp: apart_def)
      have sub: "set ?rest \<subseteq> set held" by (auto dest: in_set_takeD in_set_dropD)
      have dist: "distinct ?rest" "?b \<notin> set ?rest" using held(1) by auto
      note f = free_keeps [OF Cons.prems(1) held(2)]
      have "c \<in> objects m" "c \<noteq> ?b" if "c \<in> set ?rest" for c using that sub dist(2) Cons.prems(2) by (auto simp: apart_def)
      then have same: "c \<in> objects (free ?b m)" "cells (free ?b m) c = cells m c" if "c \<in> set ?rest" for c using f that by blast+
      have "apart (free ?b m) ?rest" unfolding apart_def
      proof (intro conjI ballI impI)
        show "set ?rest \<subseteq> objects (free ?b m)" using same(1) by blast
        show "cells (free ?b m) c \<inter> cells (free ?b m) d = {}" if "c \<in> set ?rest" "d \<in> set ?rest" "c \<noteq> d" for c d
          using same(2) that sub Cons.prems(2) unfolding apart_def by blast
      qed (rule dist(1))
      with Cons.IH [of "free ?b m" ?rest] f Cons.prems(3) Delete_nth True show ?thesis by simp
    qed
  qed
qed

end

end
