(* ===== verification/Py_Gc_Client.thy ===== *)
theory Py_Gc_Client
  imports Py_Gc_Props Object_Heap
begin

unbundle bit_operations_syntax

text \<open>
  The collector as a heap of objects: allocations without finaliser whose roots are the pointers
  the client holds, and frees of held pointers, satisfy the interface \<open>object_heap\<close>.
\<close>

definition gc_new :: "32 word \<Rightarrow> ptr list \<Rightarrow> gc \<Rightarrow> ptr option \<times> gc" where
  "gc_new n_bytes held g =
     (case gc_alloc (\<lambda>b ws. ws) n_bytes False held [] g of
        Some (p, g') \<Rightarrow> (if p = NULL then None else Some p, g')
      | None \<Rightarrow> (None, g))"

definition gc_delete :: "ptr \<Rightarrow> gc \<Rightarrow> gc" where
  "gc_delete p g = (case gc_free p g of Some g' \<Rightarrow> g' | None \<Rightarrow> g)"

definition gc_objects :: "gc \<Rightarrow> ptr set" where
  "gc_objects g = {p. VERIFY_PTR g p \<and> kind g (BLOCK_FROM_PTR g p) = AT_HEAD}"

definition gc_cells :: "gc \<Rightarrow> ptr \<Rightarrow> nat set" where
  "gc_cells g p = {b. b < n_blocks_total g \<and> in_chain g (BLOCK_FROM_PTR g p) b}"

definition gc_client_ok :: "gc \<Rightarrow> bool" where
  "gc_client_ok g \<longleftrightarrow> gc_ok g \<and> gc_lock_depth g = 0 \<and> (\<forall>b < n_blocks_total g. \<not> FTB_GET g b)"

lemma client_gap:
  assumes "gc_client_ok g"
  shows "gap g"
proof (cases "gc_alloc_table_byte_len g")
  case 0
  then show ?thesis by (simp add: gap_def n_blocks_total_def)
next
  case (Suc k)
  then have "1 < n_blocks_total g" by (simp add: n_blocks_total_def BLOCKS_PER_ATB_def)
  then show ?thesis using assms by (intro gap_no_flag) (simp_all add: gc_client_ok_def gc_ok_def)
qed

lemma frame_ptr:
  assumes "frame g' = frame g"
  shows "VERIFY_PTR g' = VERIFY_PTR g" "BLOCK_FROM_PTR g' = BLOCK_FROM_PTR g" "n_blocks_total g' = n_blocks_total g"
    "gc_lock_depth g' = gc_lock_depth g" "PTR_FROM_BLOCK g' = PTR_FROM_BLOCK g"
  using assms by (auto simp: frame_def fun_eq_iff VERIFY_PTR_def BLOCK_FROM_PTR_def PTR_FROM_BLOCK_def)

lemma object_chain:
  assumes "gc_client_ok g" "p \<in> gc_objects g"
  obtains n where "chain_end g (BLOCK_FROM_PTR g p) n" "BLOCK_FROM_PTR g p + n \<le> n_blocks_total g" "BLOCK_FROM_PTR g p \<in> heads g"
    "gc_cells g p = {BLOCK_FROM_PTR g p..<BLOCK_FROM_PTR g p + n}"
proof -
  obtain n where n: "chain_end g (BLOCK_FROM_PTR g p) n" "BLOCK_FROM_PTR g p + n \<le> n_blocks_total g" "BLOCK_FROM_PTR g p \<in> heads g"
    using gc_nbytes_chain [OF _ client_gap [OF assms(1)], of p] assms by (auto simp: gc_client_ok_def gc_objects_def)
  have "gc_cells g p = {BLOCK_FROM_PTR g p..<BLOCK_FROM_PTR g p + n}"
    unfolding gc_cells_def in_chain_range [OF n(1)] using n(2) by auto
  with n show ?thesis by (rule that)
qed

lemma block_ptr_valid:
  assumes "layout g" "s < n_blocks_total g"
  shows "VERIFY_PTR g (PTR_FROM_BLOCK g s)"
proof -
  have "p AND 15 = p mod 16" for p :: nat using take_bit_eq_mask [of 4 p] by (simp add: take_bit_eq_mod mask_eq_exp_minus_1)
  moreover have "16 dvd PTR_FROM_BLOCK g s" using assms(1) by (simp add: PTR_FROM_BLOCK_def layout_def BYTES_PER_BLOCK_def)
  ultimately show ?thesis using assms by (simp add: VERIFY_PTR_def BYTES_PER_BLOCK_def PTR_FROM_BLOCK_def layout_def)
qed

text \<open>What an allocation does to the objects held.\<close>

lemma alloc_held:
  assumes "gc_client_ok g" "set held \<subseteq> gc_objects g" "gc_new n_bytes held g = (r, g')"
  shows "gc_client_ok g' \<and> (\<forall>c \<in> set held. c \<in> gc_objects g' \<and> gc_cells g' c = gc_cells g c) \<and>
    (\<forall>b. r = Some b \<longrightarrow> b \<in> gc_objects g' \<and> (\<forall>c \<in> set held. gc_cells g' b \<inter> gc_cells g c = {}))"
proof (cases "unat ((n_bytes + 15) AND NOT 15) div BYTES_PER_BLOCK = 0")
  case True
  then have "r = None" "g' = g" using assms(3) by (auto simp: gc_new_def gc_alloc_def Let_def)
  then show ?thesis using assms(1,2) by auto
next
  case False
  have ok: "gc_ok g" "gc_lock_depth g = 0" using assms(1) by (simp_all add: gc_client_ok_def)
  note gap = client_gap [OF assms(1)]
  have nw: "unat n_bytes + 15 < 2 ^ 32"
  proof (rule ccontr)
    assume "\<not> ?thesis"
    then have "unat (n_bytes + 15) < 16" by (intro blocks_wrap) simp
    moreover have "unat ((n_bytes + 15) AND NOT 15) \<le> unat (n_bytes + 15)" by (simp add: word_and_le1 word_le_nat_alt [symmetric] word_and_le2)
    ultimately show False using False by (simp add: BYTES_PER_BLOCK_def)
  qed
  have nz: "0 < n_bytes"
  proof (rule ccontr)
    assume "\<not> 0 < n_bytes"
    then have "n_bytes = 0" by (simp add: word_gt_0)
    with False show False by (simp add: BYTES_PER_BLOCK_def)
  qed
  let ?n = "(unat n_bytes + 15) div 16" and ?C = "gc_collect (\<lambda>b ws. ws) held [] g"
  obtain p g1 g2 where a: "gc_alloc (\<lambda>b ws. ws) n_bytes False held [] g = Some (p, g2)" "gc_ok g2" "frame g2 = frame g"
      "g1 = g \<or> ?C = Some g1"
    and br: "if p = NULL then g2 = g1 \<and> (gc_auto_collect_enabled g \<longrightarrow> ?C = Some g1) \<and> \<not> has_run g1 ?n
      else \<exists>s. p = PTR_FROM_BLOCK g s \<and> new_chain g1 g2 s ?n False"
    using gc_alloc_spec [where del = "\<lambda>b ws. ws", OF ok(1) gap refl ok(2) nz nw, of False held "[]"]
    by (elim exE conjE) (rule that)
  note pf = frame_ptr [OF a(3)]
  have c1: "gc_ok g1" "frame g1 = frame g" "\<forall>b < n_blocks_total g. \<not> FTB_GET g1 b"
    using a(4) ok(1) assms(1) gc_collect_ok [where del = "\<lambda>b ws. ws", OF ok(1) gap refl] gc_collect_spec [where del = "\<lambda>b ws. ws", OF ok(1) gap refl, of held "[]"]
    by (auto simp: gc_client_ok_def)
  have tot: "n_blocks_total g1 = n_blocks_total g" using frame_ptr(3) [OF c1(2)] .
  have g': "g' = g2" "r = (if p = NULL then None else Some p)" using assms(3) a(1) by (simp_all add: gc_new_def)
  have "\<forall>b < n_blocks_total g. \<not> FTB_GET g2 b"
    using br c1(3) tot by (auto simp: new_chain_def split: if_splits)
  then have ok2: "gc_client_ok g2" using a(2) pf(3,4) ok(2) by (simp add: gc_client_ok_def)
  have held: "c \<in> gc_objects g2 \<and> gc_cells g2 c = gc_cells g c \<and>
      (\<forall>s. p = PTR_FROM_BLOCK g s \<and> new_chain g1 g2 s ?n False \<longrightarrow> {s..<s + ?n} \<inter> gc_cells g c = {})" if c: "c \<in> set held" for c
  proof -
    let ?h = "BLOCK_FROM_PTR g c"
    have obj: "VERIFY_PTR g c" "kind g ?h = AT_HEAD" "c \<in> set (held @ [])" "c \<in> gc_objects g" using assms(2) c by (auto simp: gc_objects_def)
    obtain n where n: "chain_end g ?h n" "?h + n \<le> n_blocks_total g" "?h \<in> heads g" "gc_cells g c = {?h..<?h + n}"
      by (rule object_chain [OF assms(1) obj(4)])
    note kept = root_chain_kept [where del = "\<lambda>b ws. ws", OF ok(1) gap refl a(4) obj(3,1) refl n(3,1,2)]
    have same: "kind g1 b = kind g b" if "?h \<le> b" "b < ?h + n" for b using kept(3) that n(2) by simp
    have out: "kind g1 (?h + n) \<noteq> AT_TAIL" if "?h + n < n_blocks_total g1"
      using kept(4) [of "?h + n"] that tot n(1) by (auto simp: chain_end_def)
    have pos: "0 < n" "0 < ?n" using n(1) nz by (auto simp: chain_end_def word_less_nat_alt)
    have in2: "(in_chain g2 ?h b \<longleftrightarrow> ?h \<le> b \<and> b < ?h + n) \<and> kind g2 ?h = AT_HEAD \<and>
        (\<forall>s. p = PTR_FROM_BLOCK g s \<and> new_chain g1 g2 s ?n False \<longrightarrow> ?h \<le> b \<longrightarrow> b < ?h + n \<longrightarrow> \<not> (s \<le> b \<and> b < s + ?n))"
      if b: "b < n_blocks_total g" for b
    proof (cases "p = NULL")
      case True
      then have "g2 = g1" using br by simp
      moreover have "p \<noteq> PTR_FROM_BLOCK g s" for s using True ok(1) by (simp add: PTR_FROM_BLOCK_def gc_ok_def layout_def)
      moreover have "in_chain g1 ?h b \<longleftrightarrow> ?h \<le> b \<and> b < ?h + n"
        by (rule in_chain_kept [OF n(1) same, of "n_blocks_total g1"]) (use out b tot in auto)
      ultimately show ?thesis using same [of ?h] obj(2) pos(1) by simp
    next
      case False
      then obtain s where s: "p = PTR_FROM_BLOCK g s" "new_chain g1 g2 s ?n False" using br by auto
      have t2: "n_blocks_total g2 = n_blocks_total g1" using pf(3) tot by simp
      have le: "?h + n \<le> n_blocks_total g1" and b1: "b < n_blocks_total g1" using n(2) b tot by simp_all
      note o = old_chain_beside_new [OF c1(1) s(2) t2 n(1) le _ _ obj(2) b1 pos(2)]
      have "s' = s" if "p = PTR_FROM_BLOCK g s'" for s' using that s(1) by (simp add: PTR_FROM_BLOCK_def BYTES_PER_BLOCK_def)
      moreover have "in_chain g2 ?h b \<longleftrightarrow> ?h \<le> b \<and> b < ?h + n" "kind g2 ?h = AT_HEAD" "?h \<le> b \<Longrightarrow> b < ?h + n \<Longrightarrow> \<not> (s \<le> b \<and> b < s + ?n)"
        by (rule o; (rule same out)?; assumption)+
      ultimately show ?thesis by blast
    qed
    have hN: "?h < n_blocks_total g" using n(2) pos(1) by simp
    have "gc_cells g2 c = {?h..<?h + n}" unfolding gc_cells_def pf(2,3) using in2 n(2) by auto
    then have cells: "gc_cells g2 c = gc_cells g c" using n(4) by simp
    have "c \<in> gc_objects g2" using obj(1) in2 [OF hN] pf(1,2) by (simp add: gc_objects_def)
    moreover have "{s..<s + ?n} \<inter> gc_cells g c = {}" if "p = PTR_FROM_BLOCK g s \<and> new_chain g1 g2 s ?n False" for s
      unfolding n(4) using in2 that n(2) by fastforce
    ultimately show ?thesis using cells by blast
  qed
  have "b \<in> gc_objects g2 \<and> (\<forall>c \<in> set held. gc_cells g2 b \<inter> gc_cells g c = {})" if rb: "r = Some b" for b
  proof -
    have pb: "p \<noteq> NULL" "b = p" using rb g'(2) by (auto split: if_splits)
    then obtain s where s: "p = PTR_FROM_BLOCK g s" "new_chain g1 g2 s ?n False" using br by auto
    have pos: "0 < ?n" using nz by (simp add: word_less_nat_alt)
    have ch: "is_chain g2 s ?n" by (rule new_chain_is_chain [OF c1(1) s(2) pos]) (use pf(3) tot in simp)
    have bl: "BLOCK_FROM_PTR g p = s" unfolding s(1) by (rule block_of_ptr) simp
    have "s < n_blocks_total g" using ch pos pf(3) by (simp add: is_chain_def)
    then have "VERIFY_PTR g p" using block_ptr_valid [of g s] ok(1) s(1) by (simp add: gc_ok_def)
    then have "p \<in> gc_objects g2" using ch bl pf(1,2) by (simp add: gc_objects_def is_chain_def)
    moreover have "gc_cells g2 p \<subseteq> {s..<s + ?n}"
    proof
      fix x assume "x \<in> gc_cells g2 p"
      then have x: "x < n_blocks_total g2" "s \<le> x" "\<forall>i. s < i \<and> i \<le> x \<longrightarrow> kind g2 i = AT_TAIL" using bl pf(2) by (auto simp: gc_cells_def in_chain_def)
      have "x < s + ?n"
      proof (rule ccontr)
        assume "\<not> x < s + ?n"
        then have "s < s + ?n \<and> s + ?n \<le> x" using pos by simp
        then have "kind g2 (s + ?n) = AT_TAIL" "s + ?n < n_blocks_total g2" using x by auto
        then show False using ch by (simp add: is_chain_def)
      qed
      with x(2) show "x \<in> {s..<s + ?n}" by simp
    qed
    ultimately show ?thesis using held s pb(2) by blast
  qed
  then show ?thesis using held ok2 g'(1) by blast
qed

lemma free_held:
  assumes "gc_client_ok g" "p \<in> gc_objects g"
  shows "gc_client_ok (gc_delete p g) \<and>
    (\<forall>c \<in> gc_objects g. c \<noteq> p \<longrightarrow> c \<in> gc_objects (gc_delete p g) \<and> gc_cells (gc_delete p g) c = gc_cells g c)"
proof -
  let ?h = "BLOCK_FROM_PTR g p" and ?N = "n_blocks_total g"
  have ok: "gc_ok g" "gc_lock_depth g = 0" "\<forall>b < ?N. \<not> FTB_GET g b" using assms(1) by (simp_all add: gc_client_ok_def)
  have lay: "layout g" using ok(1) by (simp add: gc_ok_def)
  have v: "VERIFY_PTR g p" "kind g ?h = AT_HEAD" using assms(2) by (simp_all add: gc_objects_def)
  obtain g' where g': "gc_free p g = Some g'" "gc_ok g'" "frame g' = frame g"
    "\<forall>b < ?N. kind g' b = (if in_chain g ?h b then AT_FREE else kind g b)" "\<forall>b < ?N. FTB_GET g' b \<longleftrightarrow> FTB_GET g b \<and> b \<noteq> ?h"
    using gc_free_spec [OF ok(1) client_gap [OF assms(1)] ok(2) v] by blast
  note pf = frame_ptr [OF g'(3)]
  have ok': "gc_client_ok g'" using g'(2,5) pf(3,4) ok(2,3) by (simp add: gc_client_ok_def)
  have "c \<in> gc_objects g' \<and> gc_cells g' c = gc_cells g c" if c: "c \<in> gc_objects g" "c \<noteq> p" for c
  proof -
    let ?c = "BLOCK_FROM_PTR g c"
    have vc: "VERIFY_PTR g c" "kind g ?c = AT_HEAD" using c(1) by (simp_all add: gc_objects_def)
    have "?c \<noteq> ?h" using ptr_of_block [OF lay vc(1)] ptr_of_block [OF lay v(1)] c(2) by auto
    obtain n where n: "chain_end g ?c n" "?c + n \<le> ?N" "?c \<in> heads g" "gc_cells g c = {?c..<?c + n}"
      by (rule object_chain [OF assms(1) c(1)])
    have dis: "\<not> in_chain g ?h x" if "in_chain g ?c x" for x
      using in_chain_unique [OF that, of ?h] vc(2) v(2) \<open>?c \<noteq> ?h\<close> by auto
    have same: "kind g' x = kind g x" if "?c \<le> x" "x < ?c + n" for x
      using g'(4) dis [of x] in_chain_range [OF n(1), of x] that n(2) by simp
    have out: "kind g' (?c + n) \<noteq> AT_TAIL" if "?c + n < ?N"
      using g'(4) that n(1) by (auto simp: chain_end_def)
    have "in_chain g' ?c x \<longleftrightarrow> ?c \<le> x \<and> x < ?c + n" if "x < ?N" for x by (rule in_chain_kept [OF n(1) same out that])
    then have "gc_cells g' c = {?c..<?c + n}" unfolding gc_cells_def pf(2,3) using n(2) by auto
    then have "gc_cells g' c = gc_cells g c" using n(4) by simp
    moreover have "0 < n" using n(1) by (simp add: chain_end_def)
    then have "c \<in> gc_objects g'" using vc same [of ?c] pf(1,2) by (simp add: gc_objects_def)
    ultimately show ?thesis by blast
  qed
  then show ?thesis using ok' g'(1) by (simp add: gc_delete_def)
qed

lemma object_cells_nonempty: "gc_client_ok g \<Longrightarrow> p \<in> gc_objects g \<Longrightarrow> gc_cells g p \<noteq> {}"
  by (erule (1) object_chain) (simp add: chain_end_def)

interpretation gc: object_heap gc_new gc_delete gc_objects gc_cells gc_client_ok
proof unfold_locales
  show "gc_cells m b \<noteq> {}" if "gc_client_ok m" "b \<in> gc_objects m" for m b by (rule object_cells_nonempty [OF that])
  fix m held and n :: "32 word" and r m' b
  assume m: "gc_client_ok m" "set held \<subseteq> gc_objects m"
  show "gc_client_ok m' \<and> (\<forall>c \<in> set held. c \<in> gc_objects m' \<and> gc_cells m' c = gc_cells m c)" if "gc_new n held m = (r, m')"
    using alloc_held [OF m that] by blast
  show "b \<in> gc_objects m' \<and> (\<forall>c \<in> set held. gc_cells m' b \<inter> gc_cells m c = {})" if "gc_new n held m = (Some b, m')"
    using alloc_held [OF m that] by blast
next
  show "gc_client_ok (gc_delete b m) \<and>
      (\<forall>c \<in> gc_objects m. c \<noteq> b \<longrightarrow> c \<in> gc_objects (gc_delete b m) \<and> gc_cells (gc_delete b m) c = gc_cells m c)"
    if "gc_client_ok m" "b \<in> gc_objects m" for m b by (rule free_held [OF that])
qed

text \<open>
  C8: Whatever objects a client allocates and frees, of any sizes, with collections in between
  whose roots are the pointers it holds: the objects it holds are distinct, each still allocated,
  and no two of them share a block of the heap.
\<close>

theorem gc_client_objects_disjoint:
  assumes "gc_client_ok g" "object_run gc_new gc_delete ops [] g = (held, g')"
  shows "gc_client_ok g' \<and> distinct held \<and> set held \<subseteq> gc_objects g' \<and>
    (\<forall>c \<in> set held. \<forall>d \<in> set held. c \<noteq> d \<longrightarrow> gc_cells g' c \<inter> gc_cells g' d = {})"
  using gc.run_apart [OF assms(1) _ assms(2)] by (simp add: gc.apart_def)

theorem gc_client_objects_disjoint_witness:
  "\<exists>held g'. object_run gc_new gc_delete [New 10, New 20, Delete_nth 0, New 5] [] small_heap = (held, g') \<and> distinct held"
proof -
  have ok: "gc_client_ok small_heap" unfolding gc_client_ok_def using small_heap_ok(1,3) by (simp add: small_heap_no_flags)
  obtain held g' where run: "object_run gc_new gc_delete [New 10, New 20, Delete_nth 0, New 5] [] small_heap = (held, g')"
    by (rule prod.exhaust)
  with gc_client_objects_disjoint [OF ok run] show ?thesis by blast
qed

end
