(* ===== verification/Contiki_Heapmem.thy ===== *)
theory Contiki_Heapmem
  imports Nespy_Prelude
begin

unbundle bit_operations_syntax

text \<open>
  The heap allocator of \<open>ns/lib/heapmem.c\<close>. The heap is an array of bytes from the address
  \<open>heap_base\<close> on, of which the first \<open>heap_usage\<close> are tiled by chunks: a header of 16 bytes
  (\<open>sizeof(chunk_t)\<close> with words of four bytes) and the object. Free chunks are on a doubly linked
  list. The headers are a store of their own, indexed by address; \<open>heap_data\<close> holds the other
  bytes. Sizes are natural numbers, with the wrap-around of \<open>size_t\<close> written out; the debug
  build is left out.
\<close>

record chunk =
  ch_prev :: ptr
  ch_next :: ptr
  chunk_size :: nat
  flags :: "8 word"

record heapmem =
  heap_base :: ptr
  HEAPMEM_ARENA_SIZE :: nat
  heap_usage :: nat
  free_list :: ptr
  chunk_at :: "ptr \<Rightarrow> chunk"
  heap_data :: "ptr \<Rightarrow> 8 word"

definition size_t :: "nat \<Rightarrow> nat" where "size_t x = x mod 2 ^ 32"

definition sizeof_chunk :: nat where "sizeof_chunk = 16"

definition CHUNK_SEARCH_MAX :: nat where "CHUNK_SEARCH_MAX = 16"

definition ALIGN :: "nat \<Rightarrow> nat" where "ALIGN sz = size_t (sz + 3) div 4 * 4"

definition NEXT_CHUNK :: "heapmem \<Rightarrow> ptr \<Rightarrow> ptr" where
  "NEXT_CHUNK h chunk = chunk + sizeof_chunk + chunk_size (chunk_at h chunk)"

definition IS_LAST_CHUNK :: "heapmem \<Rightarrow> ptr \<Rightarrow> bool" where
  "IS_LAST_CHUNK h chunk \<longleftrightarrow> NEXT_CHUNK h chunk = heap_base h + heap_usage h"

definition GET_CHUNK :: "ptr \<Rightarrow> ptr" where "GET_CHUNK p = p - sizeof_chunk"

definition GET_PTR :: "ptr \<Rightarrow> ptr" where "GET_PTR chunk = chunk + sizeof_chunk"

definition CHUNK_FLAG_ALLOCATED :: "8 word" where "CHUNK_FLAG_ALLOCATED = 1"

definition CHUNK_ALLOCATED :: "heapmem \<Rightarrow> ptr \<Rightarrow> bool" where
  "CHUNK_ALLOCATED h chunk \<longleftrightarrow> flags (chunk_at h chunk) AND CHUNK_FLAG_ALLOCATED \<noteq> 0"

definition CHUNK_FREE :: "heapmem \<Rightarrow> ptr \<Rightarrow> bool" where
  "CHUNK_FREE h chunk \<longleftrightarrow> NOT (flags (chunk_at h chunk)) AND CHUNK_FLAG_ALLOCATED \<noteq> 0"

definition set_chunk :: "ptr \<Rightarrow> (chunk \<Rightarrow> chunk) \<Rightarrow> heapmem \<Rightarrow> heapmem" where
  "set_chunk c f h = h\<lparr>chunk_at := (chunk_at h)(c := f (chunk_at h c))\<rparr>"

definition extend_space :: "nat \<Rightarrow> heapmem \<Rightarrow> ptr \<times> heapmem" where
  "extend_space sz h =
     (if size_t (heap_usage h + sz) > HEAPMEM_ARENA_SIZE h then (NULL, h)
      else (heap_base h + heap_usage h, h\<lparr>heap_usage := size_t (heap_usage h + sz)\<rparr>))"

definition free_chunk :: "ptr \<Rightarrow> heapmem \<Rightarrow> heapmem" where
  "free_chunk chunk h =
     (let h1 = set_chunk chunk (\<lambda>k. k\<lparr>flags := flags k AND NOT CHUNK_FLAG_ALLOCATED\<rparr>) h
      in if IS_LAST_CHUNK h1 chunk
         then h1\<lparr>heap_usage := heap_usage h1 - (sizeof_chunk + chunk_size (chunk_at h1 chunk))\<rparr>
         else
           let h2 = set_chunk chunk (\<lambda>k. k\<lparr>ch_prev := NULL, ch_next := free_list h1\<rparr>) h1;
               h3 = (if free_list h2 \<noteq> NULL then set_chunk (free_list h2) (\<lambda>k. k\<lparr>ch_prev := chunk\<rparr>) h2 else h2)
           in h3\<lparr>free_list := chunk\<rparr>)"

definition allocate_chunk :: "ptr \<Rightarrow> heapmem \<Rightarrow> heapmem" where
  "allocate_chunk chunk h =
     (let h1 = set_chunk chunk (\<lambda>k. k\<lparr>flags := flags k OR CHUNK_FLAG_ALLOCATED\<rparr>) h;
          c = chunk_at h1 chunk;
          h2 = (if chunk = free_list h1 then
                  let h' = h1\<lparr>free_list := ch_next c\<rparr>
                  in if free_list h' \<noteq> NULL then set_chunk (free_list h') (\<lambda>k. k\<lparr>ch_prev := NULL\<rparr>) h' else h'
                else set_chunk (ch_prev c) (\<lambda>k. k\<lparr>ch_next := ch_next c\<rparr>) h1);
          c2 = chunk_at h2 chunk
      in if ch_next c2 \<noteq> NULL then set_chunk (ch_next c2) (\<lambda>k. k\<lparr>ch_prev := ch_prev c2\<rparr>) h2 else h2)"

definition split_chunk :: "ptr \<Rightarrow> nat \<Rightarrow> heapmem \<Rightarrow> heapmem" where
  "split_chunk chunk offset0 h =
     (let offset = ALIGN offset0
      in if size_t (offset + sizeof_chunk) < chunk_size (chunk_at h chunk) then
           let new_chunk = GET_PTR chunk + offset;
               h1 = set_chunk new_chunk (\<lambda>k. k\<lparr>chunk_size := chunk_size (chunk_at h chunk) - sizeof_chunk - offset, flags := 0\<rparr>) h;
               h2 = free_chunk new_chunk h1
           in set_chunk chunk (\<lambda>k. k\<lparr>chunk_size := offset, ch_next := NULL, ch_prev := NULL\<rparr>) h2
         else h)"

lemma set_chunk_sel [simp]:
  "heap_base (set_chunk c f h) = heap_base h" "HEAPMEM_ARENA_SIZE (set_chunk c f h) = HEAPMEM_ARENA_SIZE h"
  "heap_usage (set_chunk c f h) = heap_usage h" "free_list (set_chunk c f h) = free_list h"
  "heap_data (set_chunk c f h) = heap_data h"
  "chunk_at (set_chunk c f h) x = (if x = c then f (chunk_at h c) else chunk_at h x)"
  by (simp_all add: set_chunk_def)

lemma allocate_chunk_sel [simp]:
  "heap_base (allocate_chunk c h) = heap_base h" "HEAPMEM_ARENA_SIZE (allocate_chunk c h) = HEAPMEM_ARENA_SIZE h"
  "heap_usage (allocate_chunk c h) = heap_usage h" "heap_data (allocate_chunk c h) = heap_data h"
  "chunk_size (chunk_at (allocate_chunk c h) x) = chunk_size (chunk_at h x)"
  by (simp_all add: allocate_chunk_def Let_def)

text \<open>The loop of \<open>coalesce_chunks\<close>: the next chunk is further on and the end stays where it is.\<close>

function coalesce_loop :: "ptr \<Rightarrow> ptr \<Rightarrow> heapmem \<Rightarrow> heapmem" where
  "coalesce_loop chunk nxt h =
     (if nxt < heap_base h + heap_usage h \<and> CHUNK_FREE h nxt then
        let h1 = set_chunk chunk (\<lambda>k. k\<lparr>chunk_size := size_t (chunk_size k + (sizeof_chunk + chunk_size (chunk_at h nxt)))\<rparr>) h;
            h2 = allocate_chunk nxt h1
        in coalesce_loop chunk (NEXT_CHUNK h2 nxt) h2
      else h)"
  by pat_completeness auto
termination
  by (relation "measure (\<lambda>(chunk, nxt, h). heap_base h + heap_usage h - nxt)")
    (auto simp: NEXT_CHUNK_def sizeof_chunk_def Let_def)

declare coalesce_loop.simps [simp del]

definition coalesce_chunks :: "ptr \<Rightarrow> heapmem \<Rightarrow> heapmem" where
  "coalesce_chunks chunk h = coalesce_loop chunk (NEXT_CHUNK h chunk) h"

text \<open>\<open>i\<close> bounds the search of the free list.\<close>

fun defrag_loop :: "nat \<Rightarrow> ptr \<Rightarrow> heapmem \<Rightarrow> heapmem" where
  "defrag_loop 0 chunk h = h"
| "defrag_loop (Suc i) chunk h =
     (if chunk = NULL then h
      else let h1 = coalesce_chunks chunk h in defrag_loop i (ch_next (chunk_at h1 chunk)) h1)"

definition defrag_chunks :: "heapmem \<Rightarrow> heapmem" where
  "defrag_chunks h = defrag_loop CHUNK_SEARCH_MAX (free_list h) h"

fun best_loop :: "nat \<Rightarrow> ptr \<Rightarrow> ptr \<Rightarrow> nat \<Rightarrow> heapmem \<Rightarrow> ptr" where
  "best_loop 0 chunk best sz h = best"
| "best_loop (Suc i) chunk best sz h =
     (if chunk = NULL then best
      else if sz \<le> chunk_size (chunk_at h chunk) then
        let best1 = (if best = NULL \<or> chunk_size (chunk_at h chunk) < chunk_size (chunk_at h best) then chunk else best)
        in if chunk_size (chunk_at h best1) = sz then best1
           else best_loop i (ch_next (chunk_at h chunk)) best1 sz h
      else best_loop i (ch_next (chunk_at h chunk)) best sz h)"

definition get_free_chunk :: "nat \<Rightarrow> heapmem \<Rightarrow> ptr \<times> heapmem" where
  "get_free_chunk sz h =
     (let h1 = defrag_chunks h;
          best = best_loop CHUNK_SEARCH_MAX (free_list h1) NULL sz h1
      in if best \<noteq> NULL then (best, split_chunk best sz (allocate_chunk best h1)) else (best, h1))"

definition heapmem_alloc :: "nat \<Rightarrow> heapmem \<Rightarrow> ptr \<times> heapmem" where
  "heapmem_alloc sz0 h =
     (let sz = ALIGN sz0;
          (chunk, h1) = get_free_chunk sz h;
          (chunk2, h2) =
            (if chunk = NULL then
               let (c, h') = extend_space (size_t (sizeof_chunk + sz)) h1
               in (c, if c = NULL then h' else set_chunk c (\<lambda>k. k\<lparr>chunk_size := sz\<rparr>) h')
             else (chunk, h1))
      in if chunk2 = NULL then (NULL, h2)
         else (GET_PTR chunk2, set_chunk chunk2 (\<lambda>k. k\<lparr>flags := CHUNK_FLAG_ALLOCATED\<rparr>) h2))"

definition heapmem_free :: "ptr \<Rightarrow> heapmem \<Rightarrow> heapmem" where
  "heapmem_free p h = (if p \<noteq> NULL then free_chunk (GET_CHUNK p) h else h)"

definition copy_bytes :: "ptr \<Rightarrow> ptr \<Rightarrow> nat \<Rightarrow> heapmem \<Rightarrow> heapmem" where
  "copy_bytes dest src n h =
     h\<lparr>heap_data := (\<lambda>a. if dest \<le> a \<and> a < dest + n then heap_data h (src + (a - dest)) else heap_data h a)\<rparr>"

text \<open>\<open>size_adj\<close>: the difference as an \<open>int\<close>.\<close>

definition size_adj :: "nat \<Rightarrow> nat \<Rightarrow> int" where
  "size_adj sz old = (int sz - int old + 2 ^ 31) mod 2 ^ 32 - 2 ^ 31"

definition heapmem_realloc :: "ptr \<Rightarrow> nat \<Rightarrow> heapmem \<Rightarrow> ptr \<times> heapmem" where
  "heapmem_realloc p sz0 h =
     (if p = NULL then heapmem_alloc sz0 h
      else if sz0 = 0 then (NULL, heapmem_free p h)
      else
        let chunk = GET_CHUNK p;
            sz = ALIGN sz0;
            adj = size_adj sz (chunk_size (chunk_at h chunk))
        in if adj \<le> 0 then (p, split_chunk chunk sz h)
           else
             let (fits, h1) =
                   (if IS_LAST_CHUNK h chunk then
                      let (e, h') = extend_space (nat adj) h
                      in (e \<noteq> NULL, if e \<noteq> NULL then set_chunk chunk (\<lambda>k. k\<lparr>chunk_size := sz\<rparr>) h' else h')
                    else
                      let h' = coalesce_chunks chunk h
                      in if chunk_size (chunk_at h' chunk) \<ge> sz then (True, split_chunk chunk sz h') else (False, h'))
             in if fits then (p, h1)
                else
                  let (newptr, h2) = heapmem_alloc sz h1
                  in if newptr = NULL then (NULL, h2)
                     else (newptr, free_chunk chunk (copy_bytes newptr p (chunk_size (chunk_at h2 chunk)) h2)))"

record heapmem_stats_t =
  st_allocated :: nat
  st_overhead :: nat
  st_available :: nat
  st_footprint :: nat
  st_chunks :: nat

lemma coalesce_sel [simp]:
  "heap_base (coalesce_loop c n h) = heap_base h" "HEAPMEM_ARENA_SIZE (coalesce_loop c n h) = HEAPMEM_ARENA_SIZE h"
  "heap_usage (coalesce_loop c n h) = heap_usage h" "heap_data (coalesce_loop c n h) = heap_data h"
  by (induction c n h rule: coalesce_loop.induct; subst coalesce_loop.simps; simp add: Let_def)+

lemma coalesce_chunks_sel [simp]:
  "heap_base (coalesce_chunks c h) = heap_base h" "HEAPMEM_ARENA_SIZE (coalesce_chunks c h) = HEAPMEM_ARENA_SIZE h"
  "heap_usage (coalesce_chunks c h) = heap_usage h" "heap_data (coalesce_chunks c h) = heap_data h"
  by (simp_all add: coalesce_chunks_def)

function stats_loop :: "ptr \<Rightarrow> heapmem_stats_t \<Rightarrow> heapmem \<Rightarrow> heapmem_stats_t \<times> heapmem" where
  "stats_loop chunk st h =
     (if chunk < heap_base h + heap_usage h then
        let (st1, h1) =
              (if CHUNK_ALLOCATED h chunk then (st\<lparr>st_allocated := st_allocated st + chunk_size (chunk_at h chunk)\<rparr>, h)
               else let h' = coalesce_chunks chunk h
                    in (st\<lparr>st_available := st_available st + chunk_size (chunk_at h' chunk)\<rparr>, h'))
        in stats_loop (NEXT_CHUNK h1 chunk) (st1\<lparr>st_overhead := st_overhead st1 + sizeof_chunk\<rparr>) h1
      else (st, h))"
  by pat_completeness auto
termination
  by (relation "measure (\<lambda>(chunk, st, h). heap_base h + heap_usage h - chunk)")
    (auto simp: NEXT_CHUNK_def sizeof_chunk_def Let_def split: if_splits)

declare stats_loop.simps [simp del]

definition heapmem_stats :: "heapmem \<Rightarrow> heapmem_stats_t \<times> heapmem" where
  "heapmem_stats h =
     (let (st, h1) = stats_loop (heap_base h) \<lparr>st_allocated = 0, st_overhead = 0, st_available = 0, st_footprint = 0, st_chunks = 0\<rparr> h
      in (st\<lparr>st_available := st_available st + (HEAPMEM_ARENA_SIZE h1 - heap_usage h1), st_footprint := heap_usage h1,
             st_chunks := st_overhead st div sizeof_chunk\<rparr>, h1))"

end
