(* ===== verification/Contiki_Heapmem_Inv.thy ===== *)
theory Contiki_Heapmem_Inv
  imports Contiki_Heapmem
begin

unbundle bit_operations_syntax

text \<open>
  The invariant of the heap allocator: the chunks tile the used part of the heap, and the free
  list is a doubly linked list of exactly the free chunks.
\<close>

abbreviation csize :: "heapmem \<Rightarrow> ptr \<Rightarrow> nat" where "csize h c \<equiv> chunk_size (chunk_at h c)"

section \<open>Tiling\<close>

fun tiles :: "heapmem \<Rightarrow> ptr \<Rightarrow> ptr list \<Rightarrow> ptr \<Rightarrow> bool" where
  "tiles h a [] e \<longleftrightarrow> a = e"
| "tiles h a (c # cs) e \<longleftrightarrow> c = a \<and> tiles h (NEXT_CHUNK h c) cs e"

lemma tiles_append: "tiles h a (xs @ ys) e \<longleftrightarrow> (\<exists>m. tiles h a xs m \<and> tiles h m ys e)"
  by (induction xs arbitrary: a) auto

lemma tiles_cong: "(\<And>c. c \<in> set cs \<Longrightarrow> csize h' c = csize h c) \<Longrightarrow> tiles h' a cs e = tiles h a cs e"
  by (induction cs arbitrary: a) (auto simp: NEXT_CHUNK_def)

lemma next_chunk_greater: "c < NEXT_CHUNK h c"
  by (simp add: NEXT_CHUNK_def sizeof_chunk_def)

lemma tiles_bounds: "tiles h a cs e \<Longrightarrow> a \<le> e \<and> (\<forall>c \<in> set cs. a \<le> c \<and> NEXT_CHUNK h c \<le> e)"
proof (induction cs arbitrary: a)
  case (Cons c cs)
  then show ?case using next_chunk_greater [of c h] by fastforce
qed simp

lemma tiles_apart: "tiles h a cs e \<Longrightarrow> c \<in> set cs \<Longrightarrow> d \<in> set cs \<Longrightarrow> c \<noteq> d \<Longrightarrow> NEXT_CHUNK h c \<le> d \<or> NEXT_CHUNK h d \<le> c"
  by (induction cs arbitrary: a) (auto dest: tiles_bounds)

lemma tiles_distinct: "tiles h a cs e \<Longrightarrow> distinct cs"
proof (induction cs arbitrary: a)
  case (Cons c cs)
  then show ?case using tiles_bounds [of h "NEXT_CHUNK h c" cs e] next_chunk_greater [of c h] by fastforce
qed simp

lemma tiles_unique: "tiles h a cs e \<Longrightarrow> tiles h a cs' e \<Longrightarrow> cs = cs'"
proof (induction cs arbitrary: a cs')
  case Nil
  then show ?case using tiles_bounds [of h _ _ e] next_chunk_greater [of a h] by (cases cs') fastforce+
next
  case (Cons c cs)
  then show ?case using tiles_bounds [of h "NEXT_CHUNK h c" cs e] next_chunk_greater [of c h] by (cases cs') auto
qed

section \<open>The free list\<close>

fun dll :: "heapmem \<Rightarrow> ptr \<Rightarrow> ptr \<Rightarrow> ptr list \<Rightarrow> bool" where
  "dll h p c [] \<longleftrightarrow> c = NULL"
| "dll h p c (x # xs) \<longleftrightarrow> c = x \<and> x \<noteq> NULL \<and> ch_prev (chunk_at h x) = p \<and> dll h x (ch_next (chunk_at h x)) xs"

lemma dll_cong:
  "(\<And>x. x \<in> set xs \<Longrightarrow> ch_prev (chunk_at h' x) = ch_prev (chunk_at h x) \<and> ch_next (chunk_at h' x) = ch_next (chunk_at h x)) \<Longrightarrow>
   dll h' p c xs = dll h p c xs"
  by (induction xs arbitrary: p c) auto

lemma dll_not_NULL: "dll h p c xs \<Longrightarrow> NULL \<notin> set xs"
  by (induction xs arbitrary: p c) auto

lemma dll_next: "dll h p c xs \<Longrightarrow> x \<in> set xs \<Longrightarrow> ch_next (chunk_at h x) = NULL \<or> ch_next (chunk_at h x) \<in> set xs"
proof (induction xs arbitrary: p c)
  case (Cons y ys)
  then show ?case by (cases ys) auto
qed simp

lemma dll_first: "dll h p c xs \<Longrightarrow> c = NULL \<or> c \<in> set xs"
  by (cases xs) auto

lemma dll_prev_change:
  assumes "dll h p c ys" "distinct ys"
    and "\<And>x. x \<in> set ys \<Longrightarrow> ch_next (chunk_at h' x) = ch_next (chunk_at h x)"
    and "\<And>x. x \<in> set ys \<Longrightarrow> ch_prev (chunk_at h' x) = (if x = c then q else ch_prev (chunk_at h x))"
  shows "dll h' q c ys"
proof (cases ys)
  case (Cons y zs)
  have "dll h' y (ch_next (chunk_at h y)) zs = dll h y (ch_next (chunk_at h y)) zs"
    using assms Cons by (intro dll_cong) auto
  then show ?thesis using assms Cons by simp
qed (use assms in simp)

lemma dll_remove:
  assumes "dll h p c (xs @ w # x # ys)" "distinct (xs @ w # x # ys)"
    and "\<And>y. y \<in> set (xs @ w # ys) \<Longrightarrow> ch_next (chunk_at h' y) = (if y = w then ch_next (chunk_at h x) else ch_next (chunk_at h y))"
    and "\<And>y. y \<in> set (xs @ w # ys) \<Longrightarrow> ch_prev (chunk_at h' y) = (if y = ch_next (chunk_at h x) then w else ch_prev (chunk_at h y))"
  shows "dll h' p c (xs @ w # ys)"
  using assms
proof (induction xs arbitrary: p c)
  case Nil
  have nx: "dll h x (ch_next (chunk_at h x)) ys" using Nil.prems(1) by simp
  then have "ch_next (chunk_at h x) \<noteq> w" using dll_first [OF nx] Nil.prems(1,2) by auto
  moreover have "dll h' w (ch_next (chunk_at h x)) ys"
    using Nil.prems(2,3,4) by (intro dll_prev_change [OF nx]) auto
  ultimately show ?case using Nil.prems by simp
next
  case (Cons z zs)
  have "ch_next (chunk_at h x) \<noteq> z"
  proof -
    have "dll h z (ch_next (chunk_at h z)) (zs @ w # x # ys)" using Cons.prems(1) by simp
    then have "ch_next (chunk_at h x) = NULL \<or> ch_next (chunk_at h x) \<in> set (zs @ w # x # ys)" by (rule dll_next) simp
    then show ?thesis using Cons.prems(1,2) by auto
  qed
  moreover have "dll h' z (ch_next (chunk_at h z)) (zs @ w # ys)"
    using Cons.prems by (intro Cons.IH) auto
  ultimately show ?case using Cons.prems by simp
qed

lemma allocated_bit: "CHUNK_ALLOCATED h c \<longleftrightarrow> bit (flags (chunk_at h c)) 0"
  by (simp add: CHUNK_ALLOCATED_def CHUNK_FLAG_ALLOCATED_def and_one_eq bit_0 odd_iff_mod_2_eq_one)

lemma chunk_free_iff: "CHUNK_FREE h c \<longleftrightarrow> \<not> CHUNK_ALLOCATED h c"
proof -
  have "CHUNK_FREE h c \<longleftrightarrow> bit (NOT (flags (chunk_at h c))) 0"
    unfolding CHUNK_FREE_def CHUNK_FLAG_ALLOCATED_def by (simp only: and_one_eq bit_0 odd_iff_mod_2_eq_one) simp
  then show ?thesis by (simp add: allocated_bit bit_not_iff)
qed

section \<open>The invariant\<close>

definition heap_ok :: "heapmem \<Rightarrow> ptr list \<Rightarrow> ptr list \<Rightarrow> bool" where
  "heap_ok h cs fs \<longleftrightarrow>
     0 < heap_base h \<and> HEAPMEM_ARENA_SIZE h < 2 ^ 31 \<and> heap_usage h \<le> HEAPMEM_ARENA_SIZE h \<and>
     tiles h (heap_base h) cs (heap_base h + heap_usage h) \<and> (\<forall>c \<in> set cs. 4 dvd csize h c) \<and>
     dll h NULL (free_list h) fs \<and> distinct fs \<and> set fs = {c \<in> set cs. \<not> CHUNK_ALLOCATED h c}"

text \<open>The allocated chunks other than \<open>c\<close>, with their sizes.\<close>

definition others :: "ptr \<Rightarrow> heapmem \<Rightarrow> ptr list \<Rightarrow> (ptr \<times> nat) set" where
  "others c h cs = {(d, csize h d) | d. d \<in> set cs \<and> d \<noteq> c \<and> CHUNK_ALLOCATED h d}"

lemma heap_okD:
  assumes "heap_ok h cs fs"
  shows "tiles h (heap_base h) cs (heap_base h + heap_usage h)" "dll h NULL (free_list h) fs" "distinct fs"
    "set fs = {c \<in> set cs. \<not> CHUNK_ALLOCATED h c}" "\<And>c. c \<in> set cs \<Longrightarrow> 4 dvd csize h c" "distinct cs"
    "\<And>c. c \<in> set cs \<Longrightarrow> 0 < c \<and> heap_base h \<le> c \<and> NEXT_CHUNK h c \<le> heap_base h + heap_usage h"
    "\<And>c. c \<in> set cs \<Longrightarrow> csize h c < 2 ^ 31"
proof -
  show t: "tiles h (heap_base h) cs (heap_base h + heap_usage h)" and "dll h NULL (free_list h) fs" "distinct fs"
    "set fs = {c \<in> set cs. \<not> CHUNK_ALLOCATED h c}" "\<And>c. c \<in> set cs \<Longrightarrow> 4 dvd csize h c" "distinct cs"
    using assms tiles_distinct by (auto simp: heap_ok_def)
  show b: "\<And>c. c \<in> set cs \<Longrightarrow> 0 < c \<and> heap_base h \<le> c \<and> NEXT_CHUNK h c \<le> heap_base h + heap_usage h"
    using tiles_bounds [OF t] assms by (auto simp: heap_ok_def)
  show "csize h c < 2 ^ 31" if "c \<in> set cs" for c
    using b [OF that] assms by (auto simp: heap_ok_def NEXT_CHUNK_def)
qed

section \<open>Taking a chunk off the free list\<close>

lemma allocate_flags: "CHUNK_ALLOCATED (allocate_chunk c h) d \<longleftrightarrow> d = c \<or> CHUNK_ALLOCATED h d"
proof -
  have "flags (chunk_at (allocate_chunk c h) d) = (if d = c then flags (chunk_at h c) OR 1 else flags (chunk_at h d))"
    unfolding allocate_chunk_def Let_def CHUNK_FLAG_ALLOCATED_def
    by (cases "d = c"; cases "c = free_list h"; cases "ch_next (chunk_at h c) = NULL") (simp_all cong: if_cong)
  then show ?thesis by (simp add: allocated_bit bit_or_iff)
qed

lemma allocate_chunk_dll:
  assumes "dll h NULL (free_list h) fs" "distinct fs" "x \<in> set fs"
  shows "dll (allocate_chunk x h) NULL (free_list (allocate_chunk x h)) (remove1 x fs)"
proof -
  let ?h' = "allocate_chunk x h" and ?nx = "ch_next (chunk_at h x)"
  have x0: "x \<noteq> NULL" using dll_not_NULL [OF assms(1)] assms(3) by metis
  obtain xs ys where fs: "fs = xs @ x # ys" using split_list [OF assms(3)] by blast
  show ?thesis
  proof (cases xs rule: rev_cases)
    case Nil
    then have d: "free_list h = x" "ch_prev (chunk_at h x) = NULL" "dll h x ?nx ys" using assms(1) fs by auto
    have nx: "?nx \<noteq> x" using dll_first [OF d(3)] assms(2) fs Nil x0 by auto
    have l: "ch_next (chunk_at ?h' y) = ch_next (chunk_at h y)" "free_list ?h' = ?nx"
      "ch_prev (chunk_at ?h' y) = (if y = ?nx then NULL else ch_prev (chunk_at h y))" if "y \<noteq> NULL" for y
      using d(1,2) nx that by (auto simp: allocate_chunk_def Let_def)
    have nn: "y \<noteq> NULL" if "y \<in> set ys" for y using dll_not_NULL [OF d(3)] that by metis
    have "dll ?h' NULL ?nx ys" using assms(2) fs Nil by (intro dll_prev_change [OF d(3)] l nn) auto
    then show ?thesis using fs Nil l(2) [OF x0] by simp
  next
    case (snoc zs w)
    have p: "ch_prev (chunk_at h x) = w" "w \<noteq> NULL"
    proof -
      have "dll h p c (us @ w # x # vs) \<Longrightarrow> ch_prev (chunk_at h x) = w \<and> w \<noteq> NULL" for p c us vs
        by (induction us arbitrary: p c) auto
      then show "ch_prev (chunk_at h x) = w" "w \<noteq> NULL" using assms(1) fs snoc by auto
    qed
    have nf: "free_list h \<noteq> x" using assms(1,2) fs snoc by (cases zs) auto
    have wx: "w \<noteq> x" using assms(2) fs snoc by simp
    have nx: "?nx \<noteq> x"
    proof -
      have "dll h p c (us @ x # vs) \<Longrightarrow> dll h x ?nx vs" for p c us vs by (induction us arbitrary: p c) auto
      then have "?nx = NULL \<or> ?nx \<in> set ys" using assms(1) fs dll_first by blast
      then show ?thesis using assms(2) fs x0 by auto
    qed
    have l: "ch_next (chunk_at ?h' y) = (if y = w then ?nx else ch_next (chunk_at h y))" "free_list ?h' = free_list h"
      "ch_prev (chunk_at ?h' y) = (if y = ?nx then w else ch_prev (chunk_at h y))" if "y \<noteq> NULL" for y
      using nf p wx nx that by (auto simp: allocate_chunk_def Let_def)
    have nn: "y \<noteq> NULL" if "y \<in> set (zs @ w # ys)" for y proof -
      have "y \<in> set fs" using that fs snoc by auto
      then show ?thesis using dll_not_NULL [OF assms(1)] by metis
    qed
    have "dll ?h' NULL (free_list h) (zs @ w # ys)"
      using assms(1,2) fs snoc by (intro dll_remove [of h _ _ zs w x ys] l nn) auto
    moreover have "remove1 x fs = zs @ w # ys" using fs snoc assms(2) by (auto simp: remove1_append)
    ultimately show ?thesis using l(2) [OF p(2)] by simp
  qed
qed

lemma allocate_ok:
  assumes "heap_ok h cs fs" "x \<in> set fs"
  shows "heap_ok (allocate_chunk x h) cs (remove1 x fs)"
proof -
  note d = heap_okD [OF assms(1)]
  have "dll (allocate_chunk x h) NULL (free_list (allocate_chunk x h)) (remove1 x fs)" by (rule allocate_chunk_dll [OF d(2,3) assms(2)])
  moreover have "tiles (allocate_chunk x h) (heap_base h) cs (heap_base h + heap_usage h)"
    using d(1) tiles_cong [of cs "allocate_chunk x h" h] by simp
  moreover have "set (remove1 x fs) = {c \<in> set cs. \<not> CHUNK_ALLOCATED (allocate_chunk x h) c}"
    using d(3,4) by (auto simp: allocate_flags)
  ultimately show ?thesis using assms(1) d(3) by (simp add: heap_ok_def)
qed

section \<open>Coalescing\<close>

lemma resize_links:
  "dll (set_chunk c (\<lambda>k. k\<lparr>chunk_size := n\<rparr>) h) p q xs = dll h p q xs"
  "CHUNK_ALLOCATED (set_chunk c (\<lambda>k. k\<lparr>chunk_size := n\<rparr>) h) d = CHUNK_ALLOCATED h d"
  by (rule dll_cong) (simp_all add: CHUNK_ALLOCATED_def)

definition merged :: "ptr \<Rightarrow> ptr \<Rightarrow> heapmem \<Rightarrow> heapmem" where
  "merged c n h = allocate_chunk n
     (set_chunk c (\<lambda>k. k\<lparr>chunk_size := size_t (chunk_size k + (sizeof_chunk + chunk_size (chunk_at h n)))\<rparr>) h)"

lemma set_chunk_resize: "set_chunk c (\<lambda>k. k\<lparr>chunk_size := f (chunk_size k)\<rparr>) h = set_chunk c (\<lambda>k. k\<lparr>chunk_size := f (csize h c)\<rparr>) h"
  by (simp add: set_chunk_def)

lemma merge_ok:
  assumes "heap_ok h (xs @ c # n # ys) fs" "n \<in> set fs"
  defines "h' \<equiv> merged c n h"
  shows "heap_ok h' (xs @ c # ys) (remove1 n fs)" "CHUNK_ALLOCATED h' d \<longleftrightarrow> d = n \<or> CHUNK_ALLOCATED h d"
    "csize h' d = (if d = c then csize h c + 16 + csize h n else csize h d)"
    "NEXT_CHUNK h' n = NEXT_CHUNK h' c"
proof -
  let ?cs = "xs @ c # n # ys"
  note ok = heap_okD [OF assms(1)]
  define N where "N = size_t (csize h c + (sizeof_chunk + csize h n))"
  define h1 where "h1 = set_chunk c (\<lambda>k. k\<lparr>chunk_size := N\<rparr>) h"
  have h': "h' = allocate_chunk n h1"
    by (simp add: h'_def merged_def h1_def N_def set_chunk_resize [where f = "\<lambda>s. size_t (s + (sizeof_chunk + csize h n))"])
  have nc: "n = NEXT_CHUNK h c" "n \<noteq> c" using ok(1,6) by (auto simp: tiles_append)
  have "NEXT_CHUNK h n < 2 ^ 31 + heap_base h" using ok(7) [of n] assms(1) by (auto simp: heap_ok_def)
  moreover have "heap_base h \<le> c" using ok(7) [of c] by simp
  ultimately have N: "N = csize h c + 16 + csize h n"
    using nc(1) by (simp add: N_def size_t_def NEXT_CHUNK_def sizeof_chunk_def)
  have al: "CHUNK_ALLOCATED h1 d = CHUNK_ALLOCATED h d" for d by (simp add: h1_def resize_links)
  show alloc: "CHUNK_ALLOCATED h' d \<longleftrightarrow> d = n \<or> CHUNK_ALLOCATED h d" for d by (simp add: h' allocate_flags al)
  show sz: "csize h' d = (if d = c then csize h c + 16 + csize h n else csize h d)" for d by (simp add: h' h1_def N)
  show "NEXT_CHUNK h' n = NEXT_CHUNK h' c" using nc sz by (simp add: NEXT_CHUNK_def sizeof_chunk_def)
  have nx: "NEXT_CHUNK h' c = NEXT_CHUNK h n" using nc sz by (simp add: NEXT_CHUNK_def sizeof_chunk_def)
  have cx: "c \<notin> set xs" "c \<notin> set ys" using ok(6) by auto
  have "tiles h' (heap_base h) (xs @ c # ys) (heap_base h + heap_usage h)"
  proof -
    have "tiles h' a xs e = tiles h a xs e" "tiles h' a ys e = tiles h a ys e" for a e
      by (rule tiles_cong; use sz cx in auto)+
    then show ?thesis using ok(1) nx nc(1) by (auto simp: tiles_append)
  qed
  moreover have "dll h' NULL (free_list h') (remove1 n fs)"
    unfolding h' using ok(2,3) assms(2) by (intro allocate_chunk_dll) (simp_all add: h1_def resize_links)
  moreover have "set (remove1 n fs) = {d \<in> set (xs @ c # ys). \<not> CHUNK_ALLOCATED h' d}"
    using ok(3,4,6) alloc by auto
  moreover have "4 dvd csize h' d" if "d \<in> set (xs @ c # ys)" for d
  proof -
    have "4 dvd csize h c" "4 dvd csize h n" "4 dvd csize h d" using ok(5) that by auto
    then show ?thesis using sz [of d] by (auto intro: dvd_add)
  qed
  ultimately show "heap_ok h' (xs @ c # ys) (remove1 n fs)" using assms(1) ok(3) by (simp add: heap_ok_def h' h1_def)
qed

text \<open>The chunks after coalescing: \<open>c\<close> is larger, some free chunks are gone, nothing else changed.\<close>

definition coalesced :: "ptr \<Rightarrow> heapmem \<Rightarrow> ptr list \<Rightarrow> ptr list \<Rightarrow> heapmem \<Rightarrow> ptr list \<Rightarrow> ptr list \<Rightarrow> bool" where
  "coalesced c h cs fs h' cs' fs' \<longleftrightarrow> heap_ok h' cs' fs' \<and> c \<in> set cs' \<and> set cs' \<subseteq> set cs \<and> others c h' cs' = others c h cs \<and>
     (CHUNK_ALLOCATED h' c \<longleftrightarrow> CHUNK_ALLOCATED h c) \<and> csize h c \<le> csize h' c"

lemma coalesce_ok:
  assumes "heap_ok h cs fs" "c \<in> set cs"
  shows "\<exists>cs' fs'. coalesced c h cs fs (coalesce_chunks c h) cs' fs'"
proof -
  have "heap_ok h cs fs \<Longrightarrow> c \<in> set cs \<Longrightarrow> nxt = NEXT_CHUNK h c \<Longrightarrow> \<exists>cs' fs'. coalesced c h cs fs (coalesce_loop c nxt h) cs' fs'" for nxt h cs fs
  proof (induction c nxt h arbitrary: cs fs rule: coalesce_loop.induct)
    case (1 c nxt h)
    note ok = heap_okD [OF 1(2)]
    show ?case
    proof (cases "nxt < heap_base h + heap_usage h \<and> CHUNK_FREE h nxt")
      case False
      have "coalesce_loop c nxt h = h" by (subst coalesce_loop.simps, rule if_not_P, rule False)
      then show ?thesis using 1(2,3) by (auto simp: coalesced_def)
    next
      case True
      obtain xs zs where cs: "cs = xs @ c # zs" using split_list [OF 1(3)] by blast
      have "tiles h nxt zs (heap_base h + heap_usage h)" using ok(1) cs 1(4) by (auto simp: tiles_append)
      then obtain ys where zs: "zs = nxt # ys" using True by (cases zs) auto
      have nf: "nxt \<in> set fs" using ok(4) cs zs True by (simp add: chunk_free_iff)
      have cs': "cs = xs @ c # nxt # ys" using cs zs by simp
      note m = merge_ok [OF 1(2) [unfolded cs'] nf]
      have run: "coalesce_loop c nxt h = coalesce_loop c (NEXT_CHUNK (merged c nxt h) nxt) (merged c nxt h)"
        using True by (subst coalesce_loop.simps) (simp add: Let_def merged_def)
      obtain cs2 fs2 where r: "coalesced c (merged c nxt h) (xs @ c # ys) (remove1 nxt fs) (coalesce_loop c nxt h) cs2 fs2"
        using 1(1) [OF True refl refl, of "xs @ c # ys" "remove1 nxt fs"] m(1,4) unfolding run by (auto simp: merged_def)
      have nal: "\<not> CHUNK_ALLOCATED h nxt" "nxt \<noteq> c" using True ok(6) cs' by (auto simp: chunk_free_iff)
      have "others c (merged c nxt h) (xs @ c # ys) = others c h cs"
        using m(2,3) nal ok(6) cs' by (auto simp: others_def)
      moreover have "CHUNK_ALLOCATED (merged c nxt h) c = CHUNK_ALLOCATED h c" "csize h c \<le> csize (merged c nxt h) c"
        using m(2,3) nal(2) by auto
      ultimately show ?thesis using r cs' by (fastforce simp: coalesced_def)
    qed
  qed
  from this [OF assms refl] show ?thesis by (simp add: coalesce_chunks_def)
qed

end
