(* ===== verification/Contiki_Heapmem_Ops.thy ===== *)
theory Contiki_Heapmem_Ops
  imports Contiki_Heapmem_Inv
begin

unbundle bit_operations_syntax

text \<open>
  What the operations of the heap allocator do to the allocated chunks. The data bytes are
  written by \<open>heapmem_realloc\<close> only.
\<close>

definition allocs :: "heapmem \<Rightarrow> ptr list \<Rightarrow> (ptr \<times> nat) set" where
  "allocs h cs = {(d, csize h d) | d. d \<in> set cs \<and> CHUNK_ALLOCATED h d}"

lemma allocs_others:
  "allocs h cs = others c h cs \<union> (if c \<in> set cs \<and> CHUNK_ALLOCATED h c then {(c, csize h c)} else {})"
  by (auto simp: allocs_def others_def)

text \<open>The parts of the state no operation changes.\<close>

definition arena :: "heapmem \<Rightarrow> ptr \<times> nat" where
  "arena h = (heap_base h, HEAPMEM_ARENA_SIZE h)"

lemma arena_set_chunk [simp]:
  "arena (set_chunk c f h) = arena h" "arena (allocate_chunk c h) = arena h" "arena (coalesce_chunks c h) = arena h"
  "arena (h\<lparr>heap_usage := n\<rparr>) = arena h" "arena (h\<lparr>free_list := p\<rparr>) = arena h"
  by (simp_all add: arena_def)

lemma free_chunk_sel [simp]:
  "arena (free_chunk c h) = arena h" "heap_base (free_chunk c h) = heap_base h" "HEAPMEM_ARENA_SIZE (free_chunk c h) = HEAPMEM_ARENA_SIZE h"
  "heap_data (free_chunk c h) = heap_data h" "chunk_size (chunk_at (free_chunk c h) d) = csize h d"
  by (simp_all add: free_chunk_def Let_def arena_def)

lemma split_chunk_sel [simp]:
  "arena (split_chunk c n h) = arena h" "heap_data (split_chunk c n h) = heap_data h"
  by (simp_all add: split_chunk_def Let_def)

section \<open>Freeing a chunk\<close>

lemma free_flags: "CHUNK_ALLOCATED (free_chunk c h) d \<longleftrightarrow> d \<noteq> c \<and> CHUNK_ALLOCATED h d"
proof -
  have "flags (chunk_at (free_chunk c h) d) = (if d = c then flags (chunk_at h c) AND NOT 1 else flags (chunk_at h d))"
    by (simp add: free_chunk_def Let_def CHUNK_FLAG_ALLOCATED_def)
  then show ?thesis by (simp add: allocated_bit bit_and_iff bit_not_iff)
qed

lemma is_last_iff:
  assumes "tiles h a (xs @ c # ys) (heap_base h + heap_usage h)"
  shows "IS_LAST_CHUNK h c \<longleftrightarrow> ys = []"
proof -
  have "tiles h (NEXT_CHUNK h c) ys (heap_base h + heap_usage h)" using assms by (auto simp: tiles_append)
  then show ?thesis using tiles_bounds next_chunk_greater [of "hd ys" h] by (cases ys) (fastforce simp: IS_LAST_CHUNK_def)+
qed

text \<open>
  Stated for a chunk that is neither allocated nor on the free list yet, so that it covers the
  remainder of a split as well.
\<close>

lemma free_chunk_cases:
  assumes "tiles h (heap_base h) (xs @ c # ys) (heap_base h + heap_usage h)"
  shows "ys = [] \<Longrightarrow> heap_usage (free_chunk c h) = c - heap_base h \<and> free_list (free_chunk c h) = free_list h \<and>
      (\<forall>d. ch_prev (chunk_at (free_chunk c h) d) = ch_prev (chunk_at h d) \<and> ch_next (chunk_at (free_chunk c h) d) = ch_next (chunk_at h d))"
    "ys \<noteq> [] \<Longrightarrow> heap_usage (free_chunk c h) = heap_usage h \<and> free_list (free_chunk c h) = c"
proof -
  have last: "IS_LAST_CHUNK (set_chunk c (\<lambda>k. k\<lparr>flags := f k\<rparr>) h) c \<longleftrightarrow> ys = []" for f
    using is_last_iff [OF assms] by (simp add: IS_LAST_CHUNK_def NEXT_CHUNK_def)
  show "ys \<noteq> [] \<Longrightarrow> heap_usage (free_chunk c h) = heap_usage h \<and> free_list (free_chunk c h) = c"
    using last by (simp add: free_chunk_def Let_def)
  assume ys: "ys = []"
  then have "NEXT_CHUNK h c = heap_base h + heap_usage h" using assms by (auto simp: tiles_append)
  moreover have "heap_base h \<le> c" using tiles_bounds [OF assms] by simp
  ultimately have "heap_usage h - (sizeof_chunk + csize h c) = c - heap_base h" by (simp add: NEXT_CHUNK_def)
  then show "heap_usage (free_chunk c h) = c - heap_base h \<and> free_list (free_chunk c h) = free_list h \<and>
      (\<forall>d. ch_prev (chunk_at (free_chunk c h) d) = ch_prev (chunk_at h d) \<and> ch_next (chunk_at (free_chunk c h) d) = ch_next (chunk_at h d))"
    using last ys by (simp add: free_chunk_def Let_def)
qed

lemma free_chunk_push:
  assumes "dll h NULL (free_list h) fs" "c \<notin> set fs" "c \<noteq> NULL" "distinct fs" "free_list (free_chunk c h) = c"
  shows "dll (free_chunk c h) NULL c (c # fs)"
proof (cases "free_list h = c")
  case True
  then show ?thesis using assms(1,2,3) by (cases fs) auto
next
  case False
  have nl: "\<not> IS_LAST_CHUNK (set_chunk c (\<lambda>k. k\<lparr>flags := flags k AND NOT CHUNK_FLAG_ALLOCATED\<rparr>) h) c"
    using assms(5) False by (auto simp: free_chunk_def Let_def)
  have l: "ch_next (chunk_at (free_chunk c h) d) = (if d = c then free_list h else ch_next (chunk_at h d))"
    "ch_prev (chunk_at (free_chunk c h) d) = (if d = c then NULL else if d = free_list h \<and> d \<noteq> NULL then c else ch_prev (chunk_at h d))" for d
    using nl False by (simp_all add: free_chunk_def Let_def)
  have nn: "d \<noteq> NULL" if "d \<in> set fs" for d using dll_not_NULL [OF assms(1)] that by metis
  have "dll (free_chunk c h) c (free_list h) fs"
    using assms(2) nn by (intro dll_prev_change [OF assms(1,4)]) (auto simp: l)
  then show ?thesis using assms(3) by (simp add: l)
qed

definition heap_but :: "ptr \<Rightarrow> heapmem \<Rightarrow> ptr list \<Rightarrow> ptr list \<Rightarrow> bool" where
  "heap_but c h cs fs \<longleftrightarrow>
     0 < heap_base h \<and> HEAPMEM_ARENA_SIZE h < 2 ^ 31 \<and> heap_usage h \<le> HEAPMEM_ARENA_SIZE h \<and>
     tiles h (heap_base h) cs (heap_base h + heap_usage h) \<and> (\<forall>d \<in> set cs. 4 dvd csize h d) \<and>
     dll h NULL (free_list h) fs \<and> distinct fs \<and> set fs = {d \<in> set cs. d \<noteq> c \<and> \<not> CHUNK_ALLOCATED h d}"

lemma heap_but_allocated: "heap_ok h cs fs \<Longrightarrow> CHUNK_ALLOCATED h c \<Longrightarrow> heap_but c h cs fs"
  by (auto simp: heap_ok_def heap_but_def)

lemma free_but:
  assumes "heap_but c h cs fs" "c \<in> set cs"
  shows "\<exists>cs' fs'. heap_ok (free_chunk c h) cs' fs' \<and> allocs (free_chunk c h) cs' = others c h cs \<and>
    (\<forall>d \<in> set cs. d \<noteq> c \<longrightarrow> d \<in> set cs') \<and> set cs' \<subseteq> set cs"
proof -
  let ?h' = "free_chunk c h"
  have ok: "tiles h (heap_base h) cs (heap_base h + heap_usage h)" "dll h NULL (free_list h) fs" "distinct fs"
    "set fs = {d \<in> set cs. d \<noteq> c \<and> \<not> CHUNK_ALLOCATED h d}" "\<forall>d \<in> set cs. 4 dvd csize h d" "0 < heap_base h"
    using assms(1) by (auto simp: heap_but_def)
  obtain xs ys where cs: "cs = xs @ c # ys" using split_list [OF assms(2)] by blast
  have cb: "heap_base h \<le> c" "NEXT_CHUNK h c \<le> heap_base h + heap_usage h" using tiles_bounds [OF ok(1)] assms(2) by auto
  have c: "c \<notin> set fs" "c \<noteq> NULL" using ok(4,6) cb(1) by auto
  have dist: "distinct cs" by (rule tiles_distinct [OF ok(1)])
  have t': "tiles ?h' a zs e = tiles h a zs e" for a zs e by (rule tiles_cong) simp
  note fc = free_chunk_cases [OF ok(1) [unfolded cs]]
  have four: "4 dvd csize ?h' d" if "d \<in> set cs" for d using ok(5) that by simp
  show ?thesis
  proof (cases "ys = []")
    case True
    have "tiles ?h' (heap_base h) xs c" using ok(1) cs t' by (auto simp: tiles_append)
    moreover have "dll ?h' NULL (free_list h) fs" using ok(2) fc(1) [OF True] by (subst dll_cong) auto
    moreover have "set fs = {d \<in> set xs. \<not> CHUNK_ALLOCATED ?h' d}" using ok(4) dist cs True by (auto simp: free_flags)
    moreover have "c - heap_base h \<le> HEAPMEM_ARENA_SIZE h"
      using cb next_chunk_greater [of c h] assms(1) by (auto simp: heap_but_def)
    ultimately have "heap_ok ?h' xs fs" using assms(1) fc(1) [OF True] cb(1) four cs by (simp add: heap_ok_def heap_but_def)
    moreover have "allocs ?h' xs = others c h cs" using cs True dist by (auto simp: allocs_def others_def free_flags)
    ultimately show ?thesis using cs True by auto
  next
    case False
    have "dll ?h' NULL (free_list ?h') (c # fs)" using free_chunk_push [OF ok(2) c ok(3)] fc(2) [OF False] by simp
    moreover have "set (c # fs) = {d \<in> set cs. \<not> CHUNK_ALLOCATED ?h' d}" using ok(4) assms(2) by (auto simp: free_flags)
    ultimately have "heap_ok ?h' cs (c # fs)" using assms(1) fc(2) [OF False] t' c(1) ok(3) four by (simp add: heap_ok_def heap_but_def)
    moreover have "allocs ?h' cs = others c h cs" by (auto simp: allocs_def others_def free_flags)
    ultimately show ?thesis by auto
  qed
qed

lemma free_ok:
  assumes "heap_ok h cs fs" "c \<in> set cs" "CHUNK_ALLOCATED h c"
  shows "\<exists>cs' fs'. heap_ok (free_chunk c h) cs' fs' \<and> allocs (free_chunk c h) cs' = others c h cs"
  using free_but [OF heap_but_allocated [OF assms(1,3)] assms(2)] by blast

section \<open>Defragmentation\<close>

lemma defrag_sel [simp]:
  "heap_base (defrag_loop i c h) = heap_base h" "HEAPMEM_ARENA_SIZE (defrag_loop i c h) = HEAPMEM_ARENA_SIZE h"
  "heap_usage (defrag_loop i c h) = heap_usage h" "heap_data (defrag_loop i c h) = heap_data h"
  by (induction i c h rule: defrag_loop.induct) (simp_all add: Let_def)

lemma defrag_ok:
  assumes "heap_ok h cs fs" "c = NULL \<or> c \<in> set fs"
  shows "\<exists>cs' fs'. heap_ok (defrag_loop i c h) cs' fs' \<and> allocs (defrag_loop i c h) cs' = allocs h cs"
  using assms
proof (induction i c h arbitrary: cs fs rule: defrag_loop.induct)
  case (1 c h)
  then show ?case by auto
next
  case (2 i c h)
  show ?case
  proof (cases "c = NULL")
    case True
    with 2 show ?thesis by auto
  next
    case False
    let ?h1 = "coalesce_chunks c h"
    have c: "c \<in> set cs" "\<not> CHUNK_ALLOCATED h c" using 2(3) False heap_okD(4) [OF 2(2)] by auto
    obtain cs1 fs1 where co: "coalesced c h cs fs ?h1 cs1 fs1" using coalesce_ok [OF 2(2) c(1)] by blast
    then have ok1: "heap_ok ?h1 cs1 fs1" and a1: "allocs ?h1 cs1 = allocs h cs" and "c \<in> set cs1" "\<not> CHUNK_ALLOCATED ?h1 c"
      using c(2) by (auto simp: coalesced_def allocs_others [of _ _ c])
    then have "c \<in> set fs1" using heap_okD(4) [OF ok1] by simp
    then have "ch_next (chunk_at ?h1 c) = NULL \<or> ch_next (chunk_at ?h1 c) \<in> set fs1" by (rule dll_next [OF heap_okD(2) [OF ok1]])
    from 2(1) [OF False refl ok1 this] a1 show ?thesis using False by (simp add: Let_def)
  qed
qed

section \<open>The best fit\<close>

text \<open>\<open>best\<close> is the first of the smallest candidates that are large enough.\<close>

definition best_of :: "heapmem \<Rightarrow> nat \<Rightarrow> ptr set \<Rightarrow> ptr \<Rightarrow> bool" where
  "best_of h sz A best \<longleftrightarrow>
     (if best = NULL then \<forall>c \<in> A. csize h c < sz
      else best \<in> A \<and> sz \<le> csize h best \<and> (\<forall>c \<in> A. sz \<le> csize h c \<longrightarrow> csize h best \<le> csize h c))"

lemma best_loop_spec:
  assumes "dll h p c fs" "best_of h sz A best" "NULL \<notin> A"
  shows "best_of h sz (A \<union> set (take i fs)) (best_loop i c best sz h)"
  using assms
proof (induction i c best sz h arbitrary: p fs A rule: best_loop.induct)
  case (1 c best sz h)
  then show ?case by simp
next
  case (2 i c best sz h)
  show ?case
  proof (cases fs)
    case Nil
    then show ?thesis using 2 by simp
  next
    case (Cons x xs)
    then have x: "x = c" "c \<noteq> NULL" "dll h c (ch_next (chunk_at h c)) xs" using 2(3) by auto
    let ?A = "insert c A"
    have nA: "NULL \<notin> ?A" using 2(5) x(2) by auto
    have eq: "A \<union> set (take (Suc i) fs) = ?A \<union> set (take i xs)" using Cons x(1) by auto
    show ?thesis
    proof (cases "sz \<le> csize h c")
      case False
      then have "best_of h sz ?A best" using 2(4) by (auto simp: best_of_def)
      from 2(2) [OF x(2) False x(3) this nA] show ?thesis unfolding eq using x(2) False by simp
    next
      case True
      define best1 where "best1 = (if best = NULL \<or> csize h c < csize h best then c else best)"
      have b1: "best_of h sz ?A best1" "best1 \<noteq> NULL"
        using 2(4) True x(2) by (auto simp: best_of_def best1_def split: if_splits)
      show ?thesis
      proof (cases "csize h best1 = sz")
        case exact: True
        then have "best_of h sz (?A \<union> B) best1" for B using b1 by (auto simp: best_of_def)
        moreover have "best_loop (Suc i) c best sz h = best1" using x(2) True exact by (simp add: best1_def Let_def)
        ultimately show ?thesis unfolding eq by simp
      next
        case more: False
        have "best_loop (Suc i) c best sz h = best_loop i (ch_next (chunk_at h c)) best1 sz h"
          using x(2) True more by (simp add: best1_def Let_def)
        moreover have "best_of h sz (?A \<union> set (take i xs)) (best_loop i (ch_next (chunk_at h c)) best1 sz h)"
          using 2(1) [OF x(2) True best1_def more x(3) b1(1) nA] .
        ultimately show ?thesis unfolding eq by simp
      qed
    qed
  qed
qed

end
