(* ===== verification/Contiki_Heapmem_Alloc.thy ===== *)
theory Contiki_Heapmem_Alloc
  imports Contiki_Heapmem_Ops
begin

unbundle bit_operations_syntax

text \<open>
  Splitting a chunk, allocation and reallocation: which chunks are allocated afterwards, how large
  they are, and that the invariant holds.
\<close>

section \<open>Alignment\<close>

lemma ALIGN_eq: "sz + 3 < 2 ^ 32 \<Longrightarrow> ALIGN sz = (sz + 3) div 4 * 4"
  by (simp add: ALIGN_def size_t_def)

lemma ALIGN_dvd [simp]: "4 dvd ALIGN sz"
  by (simp add: ALIGN_def)

lemma ALIGN_bounds:
  assumes "sz + 3 < 2 ^ 32"
  shows "sz \<le> ALIGN sz" "ALIGN sz \<le> sz + 3"
  unfolding ALIGN_eq [OF assms] by linarith+

lemma ALIGN_aligned:
  assumes "4 dvd sz" "sz < 2 ^ 32"
  shows "ALIGN sz = sz"
proof -
  from assms(1) obtain k where "sz = 4 * k" by blast
  with assms(2) show ?thesis by (subst ALIGN_eq) auto
qed

section \<open>Splitting a chunk\<close>

lemma in_others: "(d, s) \<in> others c h cs \<longleftrightarrow> d \<in> set cs \<and> d \<noteq> c \<and> CHUNK_ALLOCATED h d \<and> s = csize h d"
  by (auto simp: others_def)

lemma in_allocs: "(d, s) \<in> allocs h cs \<longleftrightarrow> d \<in> set cs \<and> CHUNK_ALLOCATED h d \<and> s = csize h d"
  by (auto simp: allocs_def)

lemmas chunk_sets = set_eq_iff split_paired_All in_others in_allocs

lemma others_allocs: "others c h cs = {x \<in> allocs h cs. fst x \<noteq> c}"
  by (auto simp: chunk_sets)

lemma free_chunk_commute:
  assumes "c \<noteq> n" "c \<noteq> free_list h"
  shows "set_chunk c f (free_chunk n h) = free_chunk n (set_chunk c f h)"
proof -
  have "free_list h \<noteq> c" "n \<noteq> c" using assms by auto
  note ne = this assms
  then show ?thesis
    unfolding free_chunk_def Let_def IS_LAST_CHUNK_def NEXT_CHUNK_def
    by (cases "free_list h = NULL"; cases "n = free_list h") (simp_all add: set_chunk_def fun_upd_def fun_eq_iff cong: if_cong)
qed

text \<open>
  The chunk \<open>c\<close> stays allocated, with room for \<open>n\<close> bytes and at most a header more; the other
  allocated chunks are as they were.
\<close>

definition holds_chunk :: "ptr \<Rightarrow> nat \<Rightarrow> (ptr \<times> nat) set \<Rightarrow> heapmem \<Rightarrow> bool" where
  "holds_chunk c n rest h \<longleftrightarrow> (\<exists>cs fs. heap_ok h cs fs \<and> c \<in> set cs \<and> CHUNK_ALLOCATED h c \<and> others c h cs = rest \<and>
     n \<le> csize h c \<and> csize h c \<le> n + sizeof_chunk)"

lemma inner_not_chunk:
  assumes "tiles h a cs e" "c \<in> set cs" "c < n" "n < NEXT_CHUNK h c"
  shows "n \<notin> set cs"
  using tiles_apart [OF assms(1,2), of n] next_chunk_greater [of n h] assms(3,4) by force

lemma split_ok:
  assumes "heap_ok h cs fs" "c \<in> set cs" "CHUNK_ALLOCATED h c" "ALIGN off0 \<le> csize h c"
  shows "holds_chunk c (ALIGN off0) (others c h cs) (split_chunk c off0 h)"
proof -
  note ok = heap_okD [OF assms(1)]
  define off where "off = ALIGN off0"
  have off: "off \<le> csize h c" "4 dvd off" using assms(4) by (simp_all add: off_def)
  have nw: "size_t (off + sizeof_chunk) = off + 16" using off(1) ok(8) [OF assms(2)] by (simp add: size_t_def sizeof_chunk_def)
  show ?thesis
  proof (cases "off + 16 < csize h c")
    case False
    then have "split_chunk c off0 h = h" using nw by (simp add: split_chunk_def off_def)
    then show ?thesis using assms(1,2,3) off(1) False unfolding holds_chunk_def off_def by (auto simp: sizeof_chunk_def)
  next
    case True
    define n where "n = GET_PTR c + off"
    define h1 where "h1 = set_chunk n (\<lambda>k. k\<lparr>chunk_size := csize h c - sizeof_chunk - off, flags := 0\<rparr>) h"
    define g where "g = set_chunk c (\<lambda>k. k\<lparr>chunk_size := off, ch_next := NULL, ch_prev := NULL\<rparr>) h1"
    have n: "n = c + 16 + off" "c < n" "n < NEXT_CHUNK h c"
      using True by (simp_all add: n_def GET_PTR_def NEXT_CHUNK_def sizeof_chunk_def)
    have ncs: "n \<notin> set cs" by (rule inner_not_chunk [OF ok(1) assms(2) n(2,3)])
    have fs: "c \<notin> set fs" "n \<notin> set fs" using ok(4) assms(3) ncs by auto
    have cf: "c \<noteq> free_list h" using dll_first [OF ok(2)] fs(1) ok(7) [OF assms(2)] by auto
    have run: "split_chunk c off0 h = free_chunk n g"
    proof -
      have "split_chunk c off0 h = set_chunk c (\<lambda>k. k\<lparr>chunk_size := off, ch_next := NULL, ch_prev := NULL\<rparr>) (free_chunk n h1)"
        using True nw unfolding split_chunk_def Let_def off_def [symmetric] h1_def n_def by simp
      also have "\<dots> = free_chunk n g" unfolding g_def using n(2) cf by (intro free_chunk_commute) (simp_all add: h1_def)
      finally show ?thesis .
    qed
    obtain xs ys where cs: "cs = xs @ c # ys" using split_list [OF assms(2)] by blast
    let ?cs = "xs @ c # n # ys"
    have sz: "csize g d = (if d = c then off else if d = n then csize h c - 16 - off else csize h d)" for d
      using n(2) by (simp add: g_def h1_def sizeof_chunk_def)
    have al: "CHUNK_ALLOCATED g d \<longleftrightarrow> CHUNK_ALLOCATED h d" if "d \<noteq> n" for d using that by (simp add: g_def h1_def CHUNK_ALLOCATED_def)
    have nx: "NEXT_CHUNK g c = n" "NEXT_CHUNK g n = NEXT_CHUNK h c"
      using n True sz by (simp_all add: NEXT_CHUNK_def sizeof_chunk_def)
    have cx: "c \<notin> set xs" "c \<notin> set ys" "n \<notin> set xs" "n \<notin> set ys" using ok(6) cs ncs by auto
    have "tiles g a xs e = tiles h a xs e" "tiles g a ys e = tiles h a ys e" for a e
      by (rule tiles_cong; use sz cx in auto)+
    then have "tiles g (heap_base h) ?cs (heap_base h + heap_usage h)" using ok(1) cs nx by (auto simp: tiles_append)
    moreover have "4 dvd csize g d" if "d \<in> set ?cs" for d
    proof -
      have "4 dvd csize h c - 16 - off" using ok(5) [OF assms(2)] off(2) by (intro dvd_diff_nat) simp_all
      then show ?thesis using sz [of d] off(2) ok(5) that cs by auto
    qed
    moreover have "dll g NULL (free_list h) fs" using ok(2) fs by (subst dll_cong) (auto simp: g_def h1_def)
    moreover have "set fs = {d \<in> set ?cs. d \<noteq> n \<and> \<not> CHUNK_ALLOCATED g d}" unfolding ok(4) using al cs ncs by (intro Collect_cong) (metis Un_iff list.set_intros(1,2) set_ConsD set_append)
    ultimately have "heap_but n g ?cs fs" using assms(1) ok(3) by (simp add: heap_but_def heap_ok_def g_def h1_def)
    then obtain cs' fs' where f: "heap_ok (free_chunk n g) cs' fs'" "allocs (free_chunk n g) cs' = others n g ?cs"
        "\<forall>d \<in> set ?cs. d \<noteq> n \<longrightarrow> d \<in> set cs'"
      using free_but [of n g ?cs fs] by auto
    have "others n g ?cs = insert (c, off) (others c h cs)" using cs al sz ncs assms(3) n(2) by (auto simp: chunk_sets)
    then have "others c (free_chunk n g) cs' = others c h cs" unfolding others_allocs [of c "free_chunk n g"] f(2) by (auto simp: chunk_sets)
    moreover have "CHUNK_ALLOCATED (free_chunk n g) c" "csize (free_chunk n g) c = off"
      using n(2) al assms(3) sz by (auto simp: free_flags)
    ultimately show ?thesis unfolding run holds_chunk_def off_def [symmetric] using f(1,3) n(2) by auto
  qed
qed

section \<open>Allocation\<close>

lemma holds_chunk_flag:
  assumes "holds_chunk c n rest h"
  shows "holds_chunk c n rest (set_chunk c (\<lambda>k. k\<lparr>flags := CHUNK_FLAG_ALLOCATED\<rparr>) h)"
proof -
  let ?h' = "set_chunk c (\<lambda>k. k\<lparr>flags := CHUNK_FLAG_ALLOCATED\<rparr>) h"
  obtain cs fs where h: "heap_ok h cs fs" "c \<in> set cs" "CHUNK_ALLOCATED h c" "others c h cs = rest" "n \<le> csize h c" "csize h c \<le> n + sizeof_chunk"
    using assms by (auto simp: holds_chunk_def)
  have al: "CHUNK_ALLOCATED ?h' d = CHUNK_ALLOCATED h d" for d using h(3) by (simp add: CHUNK_ALLOCATED_def CHUNK_FLAG_ALLOCATED_def)
  have "tiles ?h' a xs e = tiles h a xs e" for a xs e by (rule tiles_cong) simp
  moreover have "dll ?h' p q xs = dll h p q xs" for p q xs by (rule dll_cong) simp
  ultimately have "heap_ok ?h' cs fs" using h(1) al by (simp add: heap_ok_def)
  moreover have "others c ?h' cs = rest" unfolding h(4) [symmetric] others_def using al by auto
  ultimately show ?thesis using h al unfolding holds_chunk_def by (intro exI [of _ cs] exI [of _ fs]) auto
qed

lemma get_free_chunk_spec:
  assumes "heap_ok h cs fs" "4 dvd sz" "sz < 2 ^ 32" "get_free_chunk sz h = (best, h')"
  shows "if best = NULL
    then \<exists>cs' fs'. heap_ok h' cs' fs' \<and> allocs h' cs' = allocs h cs \<and> (\<forall>c \<in> set (take CHUNK_SEARCH_MAX fs'). csize h' c < sz)
    else holds_chunk best sz (allocs h cs) h'"
proof -
  define h1 where "h1 = defrag_chunks h"
  obtain cs1 fs1 where d: "heap_ok h1 cs1 fs1" "allocs h1 cs1 = allocs h cs"
    using defrag_ok [OF assms(1) dll_first [OF heap_okD(2) [OF assms(1)]], of CHUNK_SEARCH_MAX] by (auto simp: h1_def defrag_chunks_def)
  note ok = heap_okD [OF d(1)]
  have best: "best = best_loop CHUNK_SEARCH_MAX (free_list h1) NULL sz h1"
    and h': "h' = (if best \<noteq> NULL then split_chunk best sz (allocate_chunk best h1) else h1)"
    using assms(4) by (auto simp: get_free_chunk_def Let_def h1_def split: if_splits)
  have b: "best_of h1 sz (set (take CHUNK_SEARCH_MAX fs1)) best"
    using best_loop_spec [OF ok(2), of sz "{}" NULL CHUNK_SEARCH_MAX] unfolding best by (simp add: best_of_def)
  show ?thesis
  proof (cases "best = NULL")
    case True
    then show ?thesis using d b h' unfolding best_of_def by auto
  next
    case False
    then have bf: "best \<in> set fs1" "sz \<le> csize h1 best" using b by (auto simp: best_of_def dest: in_set_takeD)
    then have bc: "best \<in> set cs1" "\<not> CHUNK_ALLOCATED h1 best" using ok(4) by auto
    let ?h2 = "allocate_chunk best h1"
    have "others best ?h2 cs1 = allocs h cs" unfolding d(2) [symmetric] using bc by (auto simp: chunk_sets allocate_flags)
    moreover have "ALIGN sz = sz" by (rule ALIGN_aligned [OF assms(2,3)])
    ultimately have "holds_chunk best sz (allocs h cs) (split_chunk best sz ?h2)"
      using split_ok [OF allocate_ok [OF d(1) bf(1)] bc(1), of sz] bf(2) by (simp add: allocate_flags)
    then show ?thesis using False h' by simp
  qed
qed

lemma get_free_chunk_sel:
  assumes "get_free_chunk sz h = (best, h')"
  shows "arena h' = arena h" "heap_data h' = heap_data h" "best = NULL \<Longrightarrow> heap_usage h' = heap_usage h"
proof -
  have d: "arena (defrag_chunks h) = arena h" "heap_data (defrag_chunks h) = heap_data h" "heap_usage (defrag_chunks h) = heap_usage h"
    by (simp_all add: defrag_chunks_def arena_def)
  have h': "h' = (if best \<noteq> NULL then split_chunk best sz (allocate_chunk best (defrag_chunks h)) else defrag_chunks h)"
    using assms by (auto simp: get_free_chunk_def Let_def split: if_splits)
  show "arena h' = arena h" "heap_data h' = heap_data h" "best = NULL \<Longrightarrow> heap_usage h' = heap_usage h" using d by (simp_all add: h')
qed

text \<open>A new chunk at the end of the used part.\<close>

lemma append_chunk_ok:
  assumes "heap_ok h cs fs" "4 dvd sz" "heap_usage h + (sizeof_chunk + sz) \<le> HEAPMEM_ARENA_SIZE h"
  defines "c \<equiv> heap_base h + heap_usage h"
  defines "h' \<equiv> set_chunk c (\<lambda>k. k\<lparr>flags := CHUNK_FLAG_ALLOCATED\<rparr>)
    (set_chunk c (\<lambda>k. k\<lparr>chunk_size := sz\<rparr>) (h\<lparr>heap_usage := heap_usage h + (sizeof_chunk + sz)\<rparr>))"
  shows "holds_chunk c sz (allocs h cs) h'"
proof -
  note ok = heap_okD [OF assms(1)]
  have ncs: "c \<notin> set cs" using ok(7) [of c] next_chunk_greater [of c h] by (auto simp: c_def)
  have sz: "csize h' d = (if d = c then sz else csize h d)" for d by (simp add: h'_def)
  have al: "CHUNK_ALLOCATED h' d \<longleftrightarrow> d = c \<or> CHUNK_ALLOCATED h d" for d
    by (simp add: h'_def CHUNK_ALLOCATED_def CHUNK_FLAG_ALLOCATED_def)
  have cfs: "c \<notin> set fs" using ncs ok(4) by simp
  have "tiles h' (heap_base h) cs c" using ok(1) ncs sz by (subst tiles_cong [of cs h' h]) (auto simp: c_def)
  then have "tiles h' (heap_base h) (cs @ [c]) (c + (sizeof_chunk + sz))"
    by (auto simp: tiles_append NEXT_CHUNK_def sz)
  moreover have "dll h' NULL (free_list h) fs" using ok(2) cfs by (subst dll_cong [of fs h' h]) (auto simp: h'_def)
  moreover have "set fs = {d \<in> set (cs @ [c]). \<not> CHUNK_ALLOCATED h' d}" using ok(4) al cfs by auto
  moreover have "4 dvd csize h' d" if "d \<in> set (cs @ [c])" for d using ok(5) that assms(2) sz by auto
  ultimately have "heap_ok h' (cs @ [c]) fs" using assms(1,3) ok(3) by (simp add: heap_ok_def h'_def c_def add.assoc)
  moreover have "others c h' (cs @ [c]) = allocs h cs" using ncs sz al by (auto simp: chunk_sets)
  ultimately show ?thesis unfolding holds_chunk_def using al sz by (intro exI [of _ "cs @ [c]"] exI [of _ fs]) simp
qed

lemma heapmem_alloc_ok:
  assumes "heap_ok h cs fs" "heap_usage h + sz0 + 19 < 2 ^ 32" "heapmem_alloc sz0 h = (p, h')"
  shows "if p = NULL
    then \<exists>cs' fs'. heap_ok h' cs' fs' \<and> allocs h' cs' = allocs h cs \<and>
      (\<forall>c \<in> set (take CHUNK_SEARCH_MAX fs'). csize h' c < ALIGN sz0) \<and>
      HEAPMEM_ARENA_SIZE h < heap_usage h + sizeof_chunk + ALIGN sz0
    else p = GET_PTR (GET_CHUNK p) \<and> holds_chunk (GET_CHUNK p) (ALIGN sz0) (allocs h cs) h'"
    "arena h' = arena h" "heap_data h' = heap_data h"
proof -
  define sz where "sz = ALIGN sz0"
  have sz: "4 dvd sz" "sz \<le> sz0 + 3" "sz < 2 ^ 32" using ALIGN_bounds [of sz0] assms(2) by (auto simp: sz_def)
  obtain best h1 where g: "get_free_chunk sz h = (best, h1)" by (cases "get_free_chunk sz h")
  note gs = get_free_chunk_spec [OF assms(1) sz(1,3) g] and gl = get_free_chunk_sel [OF g]
  have base: "heap_base h1 = heap_base h" "HEAPMEM_ARENA_SIZE h1 = HEAPMEM_ARENA_SIZE h" using gl(1) by (simp_all add: arena_def)
  have "(if p = NULL
    then \<exists>cs' fs'. heap_ok h' cs' fs' \<and> allocs h' cs' = allocs h cs \<and>
      (\<forall>c \<in> set (take CHUNK_SEARCH_MAX fs'). csize h' c < sz) \<and> HEAPMEM_ARENA_SIZE h < heap_usage h + sizeof_chunk + sz
    else p = GET_PTR (GET_CHUNK p) \<and> holds_chunk (GET_CHUNK p) sz (allocs h cs) h') \<and> arena h' = arena h \<and> heap_data h' = heap_data h"
  proof (cases "best = NULL")
    case False
    then have "p = GET_PTR best" "h' = set_chunk best (\<lambda>k. k\<lparr>flags := CHUNK_FLAG_ALLOCATED\<rparr>) h1"
      using assms(3) g by (simp_all add: heapmem_alloc_def Let_def sz_def [symmetric])
    moreover have "holds_chunk best sz (allocs h cs) h1" using gs False by simp
    ultimately show ?thesis using gl holds_chunk_flag [of best sz "allocs h cs" h1] by (simp add: GET_PTR_def GET_CHUNK_def sizeof_chunk_def)
  next
    case True
    obtain cs1 fs1 where c1: "heap_ok h1 cs1 fs1" "allocs h1 cs1 = allocs h cs" "\<forall>c \<in> set (take CHUNK_SEARCH_MAX fs1). csize h1 c < sz"
      using gs True by auto
    have us: "heap_usage h1 = heap_usage h" "size_t (sizeof_chunk + sz) = sizeof_chunk + sz"
      "size_t (heap_usage h + (sizeof_chunk + sz)) = heap_usage h + (sizeof_chunk + sz)"
      using gl(3) [OF True] sz(2) assms(2) by (simp_all add: size_t_def sizeof_chunk_def)
    let ?c = "heap_base h1 + heap_usage h1"
    let ?fits = "heap_usage h + (sizeof_chunk + sz) \<le> HEAPMEM_ARENA_SIZE h"
    have c0: "?c \<noteq> NULL" using c1(1) by (simp add: heap_ok_def)
    show ?thesis
    proof (cases ?fits)
      case f: False
      then have "p = NULL" "h' = h1"
        using assms(3) g True us base by (simp_all add: heapmem_alloc_def Let_def sz_def [symmetric] extend_space_def)
      then show ?thesis using c1 f gl by auto
    next
      case f: True
      have r: "p = GET_PTR ?c" "h' = set_chunk ?c (\<lambda>k. k\<lparr>flags := CHUNK_FLAG_ALLOCATED\<rparr>)
          (set_chunk ?c (\<lambda>k. k\<lparr>chunk_size := sz\<rparr>) (h1\<lparr>heap_usage := heap_usage h1 + (sizeof_chunk + sz)\<rparr>))"
        using assms(3) g True f us base c0 by (auto simp: heapmem_alloc_def Let_def sz_def [symmetric] extend_space_def)
      have "holds_chunk ?c sz (allocs h cs) h'"
        unfolding r(2) c1(2) [symmetric] by (rule append_chunk_ok [OF c1(1) sz(1)]) (use f us base in simp)
      then show ?thesis using r gl by (simp add: GET_PTR_def GET_CHUNK_def sizeof_chunk_def)
    qed
  qed
  from this [unfolded sz_def] show "if p = NULL
    then \<exists>cs' fs'. heap_ok h' cs' fs' \<and> allocs h' cs' = allocs h cs \<and>
      (\<forall>c \<in> set (take CHUNK_SEARCH_MAX fs'). csize h' c < ALIGN sz0) \<and>
      HEAPMEM_ARENA_SIZE h < heap_usage h + sizeof_chunk + ALIGN sz0
    else p = GET_PTR (GET_CHUNK p) \<and> holds_chunk (GET_CHUNK p) (ALIGN sz0) (allocs h cs) h'"
    "arena h' = arena h" "heap_data h' = heap_data h" by blast+
qed

end
