(* ===== verification/Contiki_Heapmem_Realloc.thy ===== *)
theory Contiki_Heapmem_Realloc
  imports Contiki_Heapmem_Alloc
begin

text \<open>Reallocation and the statistics of the heap allocator.\<close>

section \<open>Reallocation\<close>

lemma size_adj_eq: "sz < 2 ^ 31 \<Longrightarrow> old < 2 ^ 31 \<Longrightarrow> size_adj sz old = int sz - int old"
  by (simp add: size_adj_def)

lemma heap_ok_data [simp]: "heap_ok (h\<lparr>heap_data := d\<rparr>) cs fs = heap_ok h cs fs" "others c (h\<lparr>heap_data := d\<rparr>) cs = others c h cs"
  "allocs (h\<lparr>heap_data := d\<rparr>) cs = allocs h cs"
proof -
  have t: "tiles (h\<lparr>heap_data := d\<rparr>) a cs e = tiles h a cs e" for a cs e by (rule tiles_cong) simp
  have l: "dll (h\<lparr>heap_data := d\<rparr>) a b cs = dll h a b cs" for a b cs by (rule dll_cong) simp
  have c: "CHUNK_ALLOCATED (h\<lparr>heap_data := d\<rparr>) x = CHUNK_ALLOCATED h x" for x by (simp add: CHUNK_ALLOCATED_def)
  show "heap_ok (h\<lparr>heap_data := d\<rparr>) cs fs = heap_ok h cs fs" by (simp add: heap_ok_def t l c)
  show "others c (h\<lparr>heap_data := d\<rparr>) cs = others c h cs" "allocs (h\<lparr>heap_data := d\<rparr>) cs = allocs h cs"
    by (simp_all add: others_def allocs_def c)
qed

lemma grow_last_ok:
  assumes "heap_ok h cs fs" "c \<in> set cs" "CHUNK_ALLOCATED h c" "IS_LAST_CHUNK h c" "4 dvd sz" "csize h c \<le> sz"
    "heap_usage h + (sz - csize h c) \<le> HEAPMEM_ARENA_SIZE h"
  shows "holds_chunk c sz (others c h cs) (set_chunk c (\<lambda>k. k\<lparr>chunk_size := sz\<rparr>) (h\<lparr>heap_usage := heap_usage h + (sz - csize h c)\<rparr>))"
    (is "holds_chunk c sz _ ?h'")
proof -
  note ok = heap_okD [OF assms(1)]
  obtain xs ys where "cs = xs @ c # ys" using split_list [OF assms(2)] by blast
  then have cs: "cs = xs @ [c]" using is_last_iff [of h _ xs c ys] ok(1) assms(4) by auto
  then have cx: "c \<notin> set xs" using ok(6) by auto
  have last: "c + sizeof_chunk + csize h c = heap_base h + heap_usage h" using assms(4) by (simp add: IS_LAST_CHUNK_def NEXT_CHUNK_def)
  have al: "CHUNK_ALLOCATED ?h' d = CHUNK_ALLOCATED h d" for d by (simp add: CHUNK_ALLOCATED_def)
  have "tiles ?h' (heap_base h) xs c" using ok(1) cs cx by (subst tiles_cong [of xs ?h' h]) (auto simp: tiles_append)
  then have "tiles ?h' (heap_base h) cs (heap_base h + (heap_usage h + (sz - csize h c)))"
    unfolding cs tiles_append using last assms(6) by (auto simp: NEXT_CHUNK_def)
  moreover have "dll ?h' NULL (free_list h) fs" using ok(2) by (subst dll_cong [of fs ?h' h]) auto
  moreover have "4 dvd csize ?h' d" if "d \<in> set cs" for d using ok(5) [OF that] assms(5) by simp
  ultimately have "heap_ok ?h' cs fs" using assms(1,7) ok(3,4) al by (simp add: heap_ok_def)
  moreover have "others c ?h' cs = others c h cs" using al by (auto simp: chunk_sets)
  ultimately show ?thesis unfolding holds_chunk_def using assms(2,3) al by (intro exI [of _ cs] exI [of _ fs]) simp
qed

text \<open>The chunk moves: a new one is taken, the bytes are copied and the old one is freed.\<close>

lemma holds_others_free:
  assumes "holds_chunk d n (allocs h cs) h2" "heap_ok h cs fs" "c \<in> set cs" "CHUNK_ALLOCATED h c"
  shows "holds_chunk d n (others c h cs) (free_chunk c (h2\<lparr>heap_data := f\<rparr>))" "csize h2 c = csize h c" "d \<noteq> c"
    "csize h2 d = csize (free_chunk c (h2\<lparr>heap_data := f\<rparr>)) d"
proof -
  obtain cs2 fs2 where h2: "heap_ok h2 cs2 fs2" "d \<in> set cs2" "CHUNK_ALLOCATED h2 d" "others d h2 cs2 = allocs h cs"
      "n \<le> csize h2 d" "csize h2 d \<le> n + sizeof_chunk"
    using assms(1) by (auto simp: holds_chunk_def)
  have "(c, csize h c) \<in> others d h2 cs2" using assms(3,4) h2(4) by (simp add: in_allocs)
  then have c2: "c \<in> set cs2" "c \<noteq> d" "CHUNK_ALLOCATED h2 c" "csize h2 c = csize h c" by (auto simp: in_others)
  then show "csize h2 c = csize h c" "d \<noteq> c" by auto
  let ?g = "h2\<lparr>heap_data := f\<rparr>"
  have g: "heap_ok ?g cs2 fs2" "CHUNK_ALLOCATED ?g c" using h2(1) c2(3) by (simp_all add: CHUNK_ALLOCATED_def)
  obtain cs' fs' where f: "heap_ok (free_chunk c ?g) cs' fs'" "allocs (free_chunk c ?g) cs' = others c ?g cs2"
    using free_ok [OF g(1) c2(1) g(2)] by blast
  show sz: "csize h2 d = csize (free_chunk c ?g) d" by simp
  have "(d, csize h2 d) \<in> allocs (free_chunk c ?g) cs'" unfolding f(2) using h2 c2 by (simp add: in_others)
  then have d: "d \<in> set cs'" "CHUNK_ALLOCATED (free_chunk c ?g) d" by (simp_all add: in_allocs)
  have "others d (free_chunk c ?g) cs' = {x \<in> others d h2 cs2. fst x \<noteq> c}"
    unfolding others_allocs [of d "free_chunk c ?g"] f(2) by (auto simp: chunk_sets)
  also have "\<dots> = others c h cs" by (simp only: h2(4) others_allocs [of c h cs])
  finally have "others d (free_chunk c ?g) cs' = others c h cs" .
  moreover have "n \<le> csize (free_chunk c ?g) d" "csize (free_chunk c ?g) d \<le> n + sizeof_chunk" using h2(5,6) by simp_all
  ultimately show "holds_chunk d n (others c h cs) (free_chunk c ?g)"
    unfolding holds_chunk_def using f(1) d by blast
qed

text \<open>\<open>kept h' q h p n\<close>: the \<open>n\<close> bytes at \<open>p\<close> are at \<open>q\<close> now, and no byte outside the object at \<open>q\<close> changed.\<close>

definition kept :: "heapmem \<Rightarrow> ptr \<Rightarrow> heapmem \<Rightarrow> ptr \<Rightarrow> nat \<Rightarrow> bool" where
  "kept h' q h p n \<longleftrightarrow> (\<forall>i < n. heap_data h' (q + i) = heap_data h (p + i)) \<and>
     (\<forall>a. \<not> (q \<le> a \<and> a < q + csize h' (GET_CHUNK q)) \<longrightarrow> heap_data h' a = heap_data h a)"

lemma kept_refl: "heap_data h' = heap_data h \<Longrightarrow> kept h' p h p n"
  by (simp add: kept_def)

lemma heapmem_move:
  assumes "heap_ok h cs fs" "c \<in> set cs" "CHUNK_ALLOCATED h c" "p = GET_PTR c" "csize h c < sz" "4 dvd sz" "sz < 2 ^ 31 - 20"
    "heapmem_alloc sz h = (q, h2)" "q \<noteq> NULL"
  defines "h' \<equiv> free_chunk c (copy_bytes q p (csize h2 c) h2)"
  shows "holds_chunk (GET_CHUNK q) sz (others c h cs) h' \<and> kept h' q h p (csize h c) \<and> arena h' = arena h \<and> q = GET_PTR (GET_CHUNK q)"
proof -
  have us: "heap_usage h < 2 ^ 31" using assms(1) by (auto simp: heap_ok_def)
  then have "heap_usage h + sz + 19 < 2 ^ 32" using assms(7) by simp
  note a = heapmem_alloc_ok [OF assms(1) this assms(8)]
  have sz: "ALIGN sz = sz" using assms(6,7) by (intro ALIGN_aligned) simp_all
  have q: "q = GET_PTR (GET_CHUNK q)" "holds_chunk (GET_CHUNK q) sz (allocs h cs) h2" using a(1) assms(9) sz by simp_all
  define f where "f = heap_data (copy_bytes q p (csize h2 c) h2)"
  have h': "h' = free_chunk c (h2\<lparr>heap_data := f\<rparr>)" by (simp add: h'_def f_def copy_bytes_def)
  note m = holds_others_free(1) [OF q(2) assms(1,2,3), of f] holds_others_free(2) [OF q(2) assms(1,2,3)]
  have big: "csize h c \<le> csize h' (GET_CHUNK q)" using m(1) assms(5) by (auto simp: h' holds_chunk_def)
  have "heap_data h' = f" by (simp add: h')
  then have "kept h' q h p (csize h c)"
    unfolding kept_def using big m(2) a(3) by (auto simp: f_def copy_bytes_def)
  moreover have "arena h' = arena h" using a(2) by (simp add: h' arena_def)
  ultimately show ?thesis using m(1) q(1) by (simp add: h')
qed

lemma heapmem_realloc_ok:
  assumes "heap_ok h cs fs" "c \<in> set cs" "CHUNK_ALLOCATED h c" "p = GET_PTR c" "0 < sz0" "sz0 < 2 ^ 31 - 32"
    "heapmem_realloc p sz0 h = (q, h')"
  shows "if q = NULL
    then \<exists>cs' fs'. heap_ok h' cs' fs' \<and> c \<in> set cs' \<and> CHUNK_ALLOCATED h' c \<and> csize h c \<le> csize h' c \<and>
      others c h' cs' = others c h cs \<and> heap_data h' = heap_data h
    else q = GET_PTR (GET_CHUNK q) \<and> holds_chunk (GET_CHUNK q) (ALIGN sz0) (others c h cs) h' \<and>
      kept h' q h p (min (csize h c) (ALIGN sz0))"
proof -
  define sz where "sz = ALIGN sz0"
  have sz: "4 dvd sz" "sz \<le> sz0 + 3" "sz < 2 ^ 31 - 20" "ALIGN sz = sz"
    using ALIGN_bounds [of sz0] assms(6) by (auto simp: sz_def intro: ALIGN_aligned)
  note ok = heap_okD [OF assms(1)]
  have p: "GET_CHUNK p = c" "p \<noteq> NULL" "GET_PTR c = p" using assms(4) by (simp_all add: GET_CHUNK_def GET_PTR_def sizeof_chunk_def)
  have us: "heap_usage h < 2 ^ 31" using assms(1) by (auto simp: heap_ok_def)
  have adj: "size_adj sz (csize h c) = int sz - int (csize h c)" using sz(3) ok(8) [OF assms(2)] by (intro size_adj_eq) simp_all
  have move: ?thesis if g: "heap_ok g gs gf" "c \<in> set gs" "CHUNK_ALLOCATED g c" "csize g c < sz" "csize h c \<le> csize g c"
      "others c g gs = others c h cs" "heap_data g = heap_data h"
    and r: "(q, h') = (let (newptr, h2) = heapmem_alloc sz g in if newptr = NULL then (NULL, h2)
        else (newptr, free_chunk c (copy_bytes newptr p (csize h2 c) h2)))" for g gs gf
  proof -
    obtain n h2 where n: "heapmem_alloc sz g = (n, h2)" by (cases "heapmem_alloc sz g")
    show ?thesis
    proof (cases "n = NULL")
      case False
      then have "q = n" "h' = free_chunk c (copy_bytes q p (csize h2 c) h2)" using r n by simp_all
      then show ?thesis
        using heapmem_move [OF g(1,2,3) assms(4) g(4) sz(1,3) n False] False g(4,5,6,7) by (auto simp: kept_def sz_def)
    next
      case True
      have "heap_usage g + sz + 19 < 2 ^ 32" using g(1) sz(3) by (auto simp: heap_ok_def)
      note a = heapmem_alloc_ok [OF g(1) this n]
      have e: "q = NULL" "h' = h2" using r n True by simp_all
      obtain cs' fs' where c': "heap_ok h2 cs' fs'" "allocs h2 cs' = allocs g gs" using a(1) True by auto
      have "(c, csize g c) \<in> allocs h2 cs'" using c'(2) g(2,3) by (simp add: in_allocs)
      then have "c \<in> set cs'" "CHUNK_ALLOCATED h2 c" "csize h2 c = csize g c" by (auto simp: in_allocs)
      moreover have "others c h2 cs' = others c h cs" unfolding g(6) [symmetric] others_allocs [of c g] others_allocs [of c h2] c'(2) by simp
      ultimately show ?thesis using e c'(1) g(5,7) a(3) by auto
    qed
  qed
  show ?thesis
  proof (cases "sz \<le> csize h c")
    case True
    then have r: "q = p" "h' = split_chunk c sz h"
      using assms(5,7) p adj by (simp_all add: heapmem_realloc_def Let_def sz_def [symmetric])
    then show ?thesis
      using p split_ok [OF assms(1,2,3), of sz] True sz(4) kept_refl [of h' h] by (simp add: sz_def [symmetric])
  next
    case False
    define rest where "rest g = (let (newptr, h2) = heapmem_alloc sz g in if newptr = NULL then (NULL, h2)
        else (newptr, free_chunk c (copy_bytes newptr p (csize h2 c) h2)))" for g
    have n: "nat (size_adj sz (csize h c)) = sz - csize h c" "\<not> size_adj sz (csize h c) \<le> 0" using False adj by simp_all
    show ?thesis
    proof (cases "IS_LAST_CHUNK h c")
      case True
      have st: "size_t (heap_usage h + (sz - csize h c)) = heap_usage h + (sz - csize h c)" using us sz(3) by (simp add: size_t_def)
      let ?fits = "heap_usage h + (sz - csize h c) \<le> HEAPMEM_ARENA_SIZE h"
      have b0: "heap_base h + heap_usage h \<noteq> NULL" using assms(1) by (simp add: heap_ok_def)
      have run: "(q, h') = (if ?fits then (p, set_chunk c (\<lambda>k. k\<lparr>chunk_size := sz\<rparr>) (h\<lparr>heap_usage := heap_usage h + (sz - csize h c)\<rparr>)) else rest h)"
        using assms(5,7) p n True st b0
        by (auto simp: heapmem_realloc_def Let_def sz_def [symmetric] extend_space_def rest_def)
      show ?thesis
      proof (cases ?fits)
        case f: True
        then have r: "q = p" "h' = set_chunk c (\<lambda>k. k\<lparr>chunk_size := sz\<rparr>) (h\<lparr>heap_usage := heap_usage h + (sz - csize h c)\<rparr>)"
          using run by simp_all
        have "holds_chunk c sz (others c h cs) h'" unfolding r(2) by (rule grow_last_ok [OF assms(1,2,3) True sz(1) _ f]) (use False in simp)
        moreover have "heap_data h' = heap_data h" by (simp add: r)
        ultimately show ?thesis using p r(1) kept_refl [of h' h] by (simp add: sz_def)
      next
        case f: False
        then show ?thesis using run False by (intro move [OF assms(1,2,3)]) (simp_all add: rest_def)
      qed
    next
      case nl: False
      let ?g = "coalesce_chunks c h"
      obtain gs gf where "coalesced c h cs fs ?g gs gf" using coalesce_ok [OF assms(1,2)] by blast
      then have g: "heap_ok ?g gs gf" "c \<in> set gs" "CHUNK_ALLOCATED ?g c" "csize h c \<le> csize ?g c" "others c ?g gs = others c h cs"
        using assms(3) by (auto simp: coalesced_def)
      have run: "(q, h') = (if sz \<le> csize ?g c then (p, split_chunk c sz ?g) else rest ?g)"
        using assms(5,7) p n nl by (auto simp: heapmem_realloc_def Let_def sz_def [symmetric] rest_def)
      show ?thesis
      proof (cases "sz \<le> csize ?g c")
        case f: True
        then have r: "q = p" "h' = split_chunk c sz ?g" using run by simp_all
        then show ?thesis
          using p split_ok [OF g(1,2,3), of sz] f sz(4) g(5) kept_refl [of h' h] by (simp add: sz_def [symmetric])
      next
        case f: False
        then show ?thesis using run g by (intro move [OF g(1,2,3)]) (simp_all add: rest_def)
      qed
    qed
  qed
qed

end
