(* ===== verification/Contiki_Heapmem_Props.thy ===== *)
theory Contiki_Heapmem_Props
  imports Contiki_Heapmem_Realloc Object_Heap
begin

text \<open>
  What \<open>ns/lib/heapmem.c\<close> promises its callers: objects of at least the size asked for that do not
  overlap, contents kept by a reallocation, the statistics, and the client interface.
\<close>

section \<open>The objects of a heap\<close>

text \<open>The chunks in the order of memory, found by following their sizes.\<close>

function chunks_from :: "heapmem \<Rightarrow> ptr \<Rightarrow> ptr list" where
  "chunks_from h a = (if a < heap_base h + heap_usage h then a # chunks_from h (NEXT_CHUNK h a) else [])"
  by pat_completeness auto
termination by (relation "measure (\<lambda>(h, a). heap_base h + heap_usage h - a)") (auto simp: NEXT_CHUNK_def sizeof_chunk_def)

declare chunks_from.simps [simp del]

definition heap_chunks :: "heapmem \<Rightarrow> ptr list" where
  "heap_chunks h = chunks_from h (heap_base h)"

definition heapmem_ok :: "heapmem \<Rightarrow> bool" where
  "heapmem_ok h \<longleftrightarrow> (\<exists>fs. heap_ok h (heap_chunks h) fs)"

text \<open>The objects in use: the pointer a client has and the size of its chunk.\<close>

definition heap_objects :: "heapmem \<Rightarrow> (ptr \<times> nat) set" where
  "heap_objects h = {(GET_PTR c, csize h c) | c. c \<in> set (heap_chunks h) \<and> CHUNK_ALLOCATED h c}"

lemma chunks_from_tiles: "tiles h a cs (heap_base h + heap_usage h) \<Longrightarrow> chunks_from h a = cs"
proof (induction cs arbitrary: a)
  case Nil
  then show ?case by (simp add: chunks_from.simps)
next
  case (Cons c cs)
  then have "a < heap_base h + heap_usage h" using tiles_bounds [of h a "c # cs" "heap_base h + heap_usage h"] next_chunk_greater [of a h] by auto
  with Cons show ?case by (subst chunks_from.simps) auto
qed

lemma heap_ok_chunks: "heap_ok h cs fs \<Longrightarrow> heap_chunks h = cs"
  unfolding heap_chunks_def by (rule chunks_from_tiles [OF heap_okD(1)])

lemma heapmem_okI: "heap_ok h cs fs \<Longrightarrow> heapmem_ok h"
  using heap_ok_chunks [of h cs fs] by (auto simp: heapmem_ok_def)

lemma in_heap_objects: "(p, n) \<in> heap_objects h \<longleftrightarrow> sizeof_chunk \<le> p \<and> (GET_CHUNK p, n) \<in> allocs h (heap_chunks h)"
  by (auto simp: heap_objects_def in_allocs GET_PTR_def GET_CHUNK_def intro!: exI [of _ "p - sizeof_chunk"])

lemma heap_ok_objects: "heap_ok h cs fs \<Longrightarrow> heap_objects h = (\<lambda>(c, n). (GET_PTR c, n)) ` allocs h cs"
  by (auto simp: heap_ok_chunks heap_objects_def allocs_def)

lemma tiles_aligned: "tiles h a cs e \<Longrightarrow> (\<And>c. c \<in> set cs \<Longrightarrow> 4 dvd csize h c) \<Longrightarrow> c \<in> set cs \<Longrightarrow> 4 dvd c - a"
proof (induction cs arbitrary: a)
  case (Cons d cs)
  show ?case
  proof (cases "c = d")
    case False
    then have c: "c \<in> set cs" "d = a" using Cons.prems by simp_all
    then have n: "4 dvd c - NEXT_CHUNK h d" "NEXT_CHUNK h d \<le> c"
      using Cons.IH [of "NEXT_CHUNK h d"] Cons.prems tiles_bounds [of h "NEXT_CHUNK h d" cs e] by simp_all
    have "4 dvd NEXT_CHUNK h d - a" using Cons.prems(2) [of d] c(2) by (simp add: NEXT_CHUNK_def sizeof_chunk_def)
    moreover have "c - a = (c - NEXT_CHUNK h d) + (NEXT_CHUNK h d - a)" using next_chunk_greater [of d h] c(2) n(2) by linarith
    ultimately show ?thesis using n(1) by (simp only: dvd_add)
  qed (use Cons.prems in simp)
qed simp

text \<open>A chunk that is held beside others is an object of its own.\<close>

definition apart_from :: "ptr \<Rightarrow> nat \<Rightarrow> (ptr \<times> nat) set \<Rightarrow> bool" where
  "apart_from p n A \<longleftrightarrow> (\<forall>(q, m) \<in> A. p + n + sizeof_chunk \<le> q \<or> q + m + sizeof_chunk \<le> p)"

lemma holds_chunk_objects:
  assumes "holds_chunk c n rest h"
  defines "R \<equiv> (\<lambda>(d, m). (GET_PTR d, m)) ` rest"
  shows "heapmem_ok h \<and> heap_objects h = insert (GET_PTR c, csize h c) R \<and> apart_from (GET_PTR c) (csize h c) R \<and>
    n \<le> csize h c \<and> csize h c \<le> n + sizeof_chunk \<and> heap_base h + sizeof_chunk \<le> GET_PTR c \<and>
    GET_PTR c + csize h c \<le> heap_base h + heap_usage h \<and> 4 dvd GET_PTR c - heap_base h"
proof -
  obtain cs fs where h: "heap_ok h cs fs" "c \<in> set cs" "CHUNK_ALLOCATED h c" "others c h cs = rest" "n \<le> csize h c" "csize h c \<le> n + sizeof_chunk"
    using assms(1) by (auto simp: holds_chunk_def)
  note ok = heap_okD [OF h(1)]
  have "heap_objects h = insert (GET_PTR c, csize h c) R"
    unfolding heap_ok_objects [OF h(1)] allocs_others [of h cs c] R_def using h(2,3,4) by auto
  moreover have "apart_from (GET_PTR c) (csize h c) R"
    unfolding apart_from_def
  proof (clarify)
    fix q m assume "(q, m) \<in> R" and f: "\<not> q + m + sizeof_chunk \<le> GET_PTR c"
    then obtain d where d: "d \<in> set cs" "d \<noteq> c" "m = csize h d" "q = GET_PTR d" unfolding R_def h(4) [symmetric] by (auto simp: others_def)
    then show "GET_PTR c + csize h c + sizeof_chunk \<le> q"
      using tiles_apart [OF ok(1) h(2) d(1)] f by (auto simp: NEXT_CHUNK_def GET_PTR_def)
  qed
  moreover have "heap_base h \<le> c" "c + sizeof_chunk + csize h c \<le> heap_base h + heap_usage h" using ok(7) [OF h(2)] by (simp_all add: NEXT_CHUNK_def)
  moreover have "4 dvd (c - heap_base h) + 16" using tiles_aligned [OF ok(1,5) h(2)] by (intro dvd_add) simp_all
  ultimately show ?thesis using h(5,6) heapmem_okI [OF h(1)] by (simp add: GET_PTR_def sizeof_chunk_def)
qed

lemma object_chunk:
  assumes "heapmem_ok h" "(p, n) \<in> heap_objects h"
  obtains fs where "heap_ok h (heap_chunks h) fs" "GET_CHUNK p \<in> set (heap_chunks h)" "CHUNK_ALLOCATED h (GET_CHUNK p)"
    "p = GET_PTR (GET_CHUNK p)" "n = csize h (GET_CHUNK p)"
    "(\<lambda>(d, m). (GET_PTR d, m)) ` others (GET_CHUNK p) h (heap_chunks h) = heap_objects h - {(p, n)}"
proof -
  obtain fs where h: "heap_ok h (heap_chunks h) fs" using assms(1) by (auto simp: heapmem_ok_def)
  have p: "GET_CHUNK p \<in> set (heap_chunks h)" "CHUNK_ALLOCATED h (GET_CHUNK p)" "n = csize h (GET_CHUNK p)" "p = GET_PTR (GET_CHUNK p)"
    using assms(2) by (auto simp: in_heap_objects in_allocs GET_PTR_def GET_CHUNK_def)
  have "(p, n) \<notin> (\<lambda>(d, m). (GET_PTR d, m)) ` others (GET_CHUNK p) h (heap_chunks h)"
    using p(4) by (auto simp: others_def GET_PTR_def)
  then have "(\<lambda>(d, m). (GET_PTR d, m)) ` others (GET_CHUNK p) h (heap_chunks h) = heap_objects h - {(p, n)}"
    unfolding heap_ok_objects [OF h] allocs_others [of h _ "GET_CHUNK p"] using p by auto
  then show ?thesis by (rule that [OF h p(1,2,4,3)])
qed

section \<open>Statistics\<close>

lemma tiles_next:
  assumes "tiles h a cs e" "c \<in> set cs"
  shows "NEXT_CHUNK h c = e \<or> NEXT_CHUNK h c \<in> set cs"
proof -
  obtain xs ys where "cs = xs @ c # ys" using split_list [OF assms(2)] by blast
  with assms(1) show ?thesis by (cases ys) (auto simp: tiles_append)
qed

lemma allocs_from_next:
  assumes "heap_ok h cs fs" "c \<in> set cs"
  shows "{x \<in> allocs h cs. c \<le> fst x} =
    (if CHUNK_ALLOCATED h c then insert (c, csize h c) else id) {x \<in> allocs h cs. NEXT_CHUNK h c \<le> fst x}"
proof -
  have "c \<le> d \<longleftrightarrow> d = c \<or> NEXT_CHUNK h c \<le> d" if "d \<in> set cs" for d
    using tiles_apart [OF heap_okD(1) [OF assms(1)] assms(2) that] next_chunk_greater [of c h] next_chunk_greater [of d h] by linarith
  then show ?thesis using assms(2) by (auto simp: chunk_sets)
qed

abbreviation st_total :: "heapmem_stats_t \<Rightarrow> nat" where
  "st_total st \<equiv> st_allocated st + st_available st + st_overhead st"

lemma stats_loop_spec:
  assumes "heap_ok h cs fs" "c = heap_base h + heap_usage h \<or> c \<in> set cs" "stats_loop c st h = (st', h')"
  shows "\<exists>cs' fs'. heap_ok h' cs' fs' \<and> allocs h' cs' = allocs h cs \<and> arena h' = arena h \<and> heap_usage h' = heap_usage h \<and>
    heap_data h' = heap_data h \<and> st_allocated st' = st_allocated st + (\<Sum>x \<in> {x \<in> allocs h cs. c \<le> fst x}. snd x) \<and>
    st_total st' + c = st_total st + heap_base h + heap_usage h"
  using assms
proof (induction c st h arbitrary: cs fs rule: stats_loop.induct)
  case (1 c st h)
  note ok = heap_okD [OF 1(2)]
  have fin: "finite {x \<in> allocs h cs. P x}" for P h cs by (simp add: allocs_def)
  show ?case
  proof (cases "c < heap_base h + heap_usage h")
    case False
    then have "c = heap_base h + heap_usage h" using 1(3) ok(7) [of c] next_chunk_greater [of c h] by auto
    moreover have "stats_loop c st h = (st, h)" by (subst stats_loop.simps, rule if_not_P, rule False)
    moreover have "{x \<in> allocs h cs. heap_base h + heap_usage h \<le> fst x} = {}"
      using ok(7) next_chunk_greater by (auto simp: allocs_def) (meson leD le_trans order_less_le_trans)
    ultimately show ?thesis using 1(2,4) by (auto simp only: prod.inject) auto
  next
    case True
    then have c: "c \<in> set cs" using 1(3) by simp
    define h1 where "h1 = (if CHUNK_ALLOCATED h c then h else coalesce_chunks c h)"
    define st1 where "st1 = (if CHUNK_ALLOCATED h c then st\<lparr>st_allocated := st_allocated st + csize h c\<rparr>
      else st\<lparr>st_available := st_available st + csize h1 c\<rparr>)"
    define st2 where "st2 = st1\<lparr>st_overhead := st_overhead st1 + sizeof_chunk\<rparr>"
    have eq: "(st1, h1) = (if CHUNK_ALLOCATED h c then (st\<lparr>st_allocated := st_allocated st + chunk_size (chunk_at h c)\<rparr>, h)
        else let h' = coalesce_chunks c h in (st\<lparr>st_available := st_available st + chunk_size (chunk_at h' c)\<rparr>, h'))"
      by (simp add: st1_def h1_def Let_def)
    have run: "stats_loop (NEXT_CHUNK h1 c) st2 h1 = (st', h')"
      using 1(4) True by (subst (asm) stats_loop.simps) (simp add: eq [symmetric] st2_def)
    obtain cs1 fs1 where h1: "heap_ok h1 cs1 fs1" "allocs h1 cs1 = allocs h cs" "c \<in> set cs1" "CHUNK_ALLOCATED h1 c = CHUNK_ALLOCATED h c"
    proof (cases "CHUNK_ALLOCATED h c")
      case True
      then show ?thesis using that [of cs fs] 1(2) c by (simp add: h1_def)
    next
      case False
      obtain cs1 fs1 where "coalesced c h cs fs (coalesce_chunks c h) cs1 fs1" using coalesce_ok [OF 1(2) c] by blast
      then show ?thesis using that [of cs1 fs1] False by (auto simp: coalesced_def h1_def allocs_others [of _ _ c])
    qed
    have sel: "heap_base h1 = heap_base h" "heap_usage h1 = heap_usage h" "arena h1 = arena h" "heap_data h1 = heap_data h"
      by (simp_all add: h1_def)
    have nx: "NEXT_CHUNK h1 c = heap_base h1 + heap_usage h1 \<or> NEXT_CHUNK h1 c \<in> set cs1" by (rule tiles_next [OF heap_okD(1) [OF h1(1)] h1(3)])
    obtain cs' fs' where r: "heap_ok h' cs' fs'" "allocs h' cs' = allocs h cs" "arena h' = arena h" "heap_usage h' = heap_usage h" "heap_data h' = heap_data h"
      "st_allocated st' = st_allocated st2 + (\<Sum>x \<in> {x \<in> allocs h cs. NEXT_CHUNK h1 c \<le> fst x}. snd x)"
      "st_total st' + NEXT_CHUNK h1 c = st_total st2 + heap_base h + heap_usage h"
      using 1(1) [OF True eq refl h1(1), unfolded st2_def [symmetric]] nx run sel h1(2) by (auto simp: st2_def)
    have sum: "st_allocated st2 + (\<Sum>x \<in> {x \<in> allocs h cs. NEXT_CHUNK h1 c \<le> fst x}. snd x) =
        st_allocated st + (\<Sum>x \<in> {x \<in> allocs h cs. c \<le> fst x}. snd x)"
    proof (cases "CHUNK_ALLOCATED h c")
      case True
      have "(c, csize h c) \<notin> {x \<in> allocs h cs. NEXT_CHUNK h c \<le> fst x}" using next_chunk_greater [of c h] by auto
      then show ?thesis using allocs_from_next [OF 1(2) c] True fin [of h cs] by (simp add: st2_def st1_def h1_def)
    next
      case False
      have "{x \<in> allocs h1 cs1. c \<le> fst x} = {x \<in> allocs h1 cs1. NEXT_CHUNK h1 c \<le> fst x}"
        using allocs_from_next [OF h1(1,3)] h1(4) False by simp
      then show ?thesis using False h1(2) by (simp add: st2_def st1_def)
    qed
    have tot: "st_total st2 + c = st_total st + NEXT_CHUNK h1 c"
      by (simp add: st2_def st1_def h1_def NEXT_CHUNK_def)
    have "st_total st' + c = st_total st + heap_base h + heap_usage h" using r(7) tot by linarith
    then show ?thesis using r(1-6) sum by auto
  qed
qed

section \<open>What the operations promise\<close>

lemma heapmem_alloc_objects:
  assumes "heapmem_ok h" "heap_usage h + sz + 19 < 2 ^ 32" "heapmem_alloc sz h = (p, h')"
  shows "heapmem_ok h' \<and> arena h' = arena h \<and> heap_data h' = heap_data h \<and>
    (if p = NULL then heap_objects h' = heap_objects h \<and> HEAPMEM_ARENA_SIZE h < heap_usage h + sizeof_chunk + ALIGN sz
     else \<exists>n. sz \<le> n \<and> n \<le> sz + 3 + sizeof_chunk \<and> heap_objects h' = insert (p, n) (heap_objects h) \<and> apart_from p n (heap_objects h) \<and>
       heap_base h + sizeof_chunk \<le> p \<and> p + n \<le> heap_base h + HEAPMEM_ARENA_SIZE h \<and> 4 dvd p - heap_base h)"
proof -
  obtain fs where h: "heap_ok h (heap_chunks h) fs" using assms(1) by (auto simp: heapmem_ok_def)
  note a = heapmem_alloc_ok [OF h assms(2,3)]
  show ?thesis
  proof (cases "p = NULL")
    case True
    then obtain cs' fs' where c: "heap_ok h' cs' fs'" "allocs h' cs' = allocs h (heap_chunks h)" "HEAPMEM_ARENA_SIZE h < heap_usage h + sizeof_chunk + ALIGN sz"
      using a(1) by auto
    have "heap_objects h' = heap_objects h" by (simp add: heap_ok_objects [OF h] heap_ok_objects [OF c(1)] c(2))
    then show ?thesis using True c(3) heapmem_okI [OF c(1)] a(2,3) by simp
  next
    case False
    have p: "GET_PTR (GET_CHUNK p) = p" "holds_chunk (GET_CHUNK p) (ALIGN sz) (allocs h (heap_chunks h)) h'" using a(1) False by simp_all
    note o = holds_chunk_objects [OF p(2), unfolded p(1) heap_ok_objects [OF h, symmetric]]
    have "heap_usage h' \<le> HEAPMEM_ARENA_SIZE h'" using o by (auto simp: heapmem_ok_def heap_ok_def)
    moreover have "sz \<le> ALIGN sz" "ALIGN sz \<le> sz + 3" using ALIGN_bounds [of sz] assms(2) by simp_all
    moreover have "heap_base h' = heap_base h" "HEAPMEM_ARENA_SIZE h' = HEAPMEM_ARENA_SIZE h" using a(2) by (simp_all add: arena_def)
    ultimately show ?thesis using o a(2,3) False by (auto intro!: exI [of _ "csize h' (GET_CHUNK p)"])
  qed
qed

lemma heapmem_free_objects:
  assumes "heapmem_ok h" "(p, n) \<in> heap_objects h"
  shows "heapmem_ok (heapmem_free p h)" "heap_objects (heapmem_free p h) = heap_objects h - {(p, n)}"
    "arena (heapmem_free p h) = arena h" "heap_data (heapmem_free p h) = heap_data h"
proof -
  obtain fs where o: "heap_ok h (heap_chunks h) fs" "GET_CHUNK p \<in> set (heap_chunks h)" "CHUNK_ALLOCATED h (GET_CHUNK p)"
    "p = GET_PTR (GET_CHUNK p)" "n = csize h (GET_CHUNK p)"
    "(\<lambda>(d, m). (GET_PTR d, m)) ` others (GET_CHUNK p) h (heap_chunks h) = heap_objects h - {(p, n)}"
    by (rule object_chunk [OF assms])
  have f: "heapmem_free p h = free_chunk (GET_CHUNK p) h" using o(4) by (auto simp: heapmem_free_def GET_PTR_def sizeof_chunk_def)
  obtain cs' fs' where c: "heap_ok (free_chunk (GET_CHUNK p) h) cs' fs'"
      "allocs (free_chunk (GET_CHUNK p) h) cs' = others (GET_CHUNK p) h (heap_chunks h)"
    using free_ok [OF o(1,2,3)] by blast
  show "heapmem_ok (heapmem_free p h)" unfolding f by (rule heapmem_okI [OF c(1)])
  show "heap_objects (heapmem_free p h) = heap_objects h - {(p, n)}" unfolding f heap_ok_objects [OF c(1)] c(2) by (rule o(6))
  show "arena (heapmem_free p h) = arena h" "heap_data (heapmem_free p h) = heap_data h" by (simp_all add: f)
qed

text \<open>The state before the first call: the static variables are zero.\<close>

definition heapmem_init :: "ptr \<Rightarrow> nat \<Rightarrow> heapmem" where
  "heapmem_init base n = \<lparr>heap_base = base, HEAPMEM_ARENA_SIZE = n, heap_usage = 0, free_list = NULL,
     chunk_at = (\<lambda>_. \<lparr>ch_prev = NULL, ch_next = NULL, chunk_size = 0, flags = 0\<rparr>), heap_data = (\<lambda>_. 0)\<rparr>"

lemma heapmem_init_ok:
  assumes "0 < base" "n < 2 ^ 31"
  shows "heapmem_ok (heapmem_init base n)" "heap_objects (heapmem_init base n) = {}"
proof -
  have h: "heap_ok (heapmem_init base n) [] []" using assms by (simp add: heap_ok_def heapmem_init_def)
  show "heapmem_ok (heapmem_init base n)" by (rule heapmem_okI [OF h])
  show "heap_objects (heapmem_init base n) = {}" by (simp add: heap_ok_objects [OF h] allocs_def)
qed

section \<open>The client interface\<close>

text \<open>A client that never asks for a gigabyte, and the bytes of a chunk, header included.\<close>

definition heapmem_new :: "nat \<Rightarrow> ptr list \<Rightarrow> heapmem \<Rightarrow> ptr option \<times> heapmem" where
  "heapmem_new n held h =
     (if 2 ^ 30 \<le> n then (None, h) else case heapmem_alloc n h of (p, h') \<Rightarrow> (if p = NULL then None else Some p, h'))"

definition heapmem_held :: "heapmem \<Rightarrow> ptr set" where
  "heapmem_held h = fst ` heap_objects h"

definition heapmem_cells :: "heapmem \<Rightarrow> ptr \<Rightarrow> nat set" where
  "heapmem_cells h p = {GET_CHUNK p..<p + csize h (GET_CHUNK p)}"

lemma heapmem_cells_object: "(p, n) \<in> heap_objects h \<Longrightarrow> heapmem_cells h p = {p - sizeof_chunk..<p + n}"
  by (auto simp: in_heap_objects in_allocs heapmem_cells_def GET_CHUNK_def)

lemma heapmem_new_keeps:
  assumes "heapmem_ok h" "heapmem_new n held h = (r, h')"
  shows "heapmem_ok h'" "c \<in> heapmem_held h \<Longrightarrow> c \<in> heapmem_held h' \<and> heapmem_cells h' c = heapmem_cells h c"
    "r = Some b \<Longrightarrow> b \<in> heapmem_held h' \<and> (\<forall>c \<in> heapmem_held h. heapmem_cells h' b \<inter> heapmem_cells h c = {})"
proof -
  have "heapmem_ok h' \<and> heap_objects h \<subseteq> heap_objects h' \<and>
    (r = Some b \<longrightarrow> (\<exists>m. (b, m) \<in> heap_objects h' \<and> sizeof_chunk \<le> b \<and> apart_from b m (heap_objects h)))"
  proof (cases "2 ^ 30 \<le> n")
    case True
    then show ?thesis using assms by (simp add: heapmem_new_def)
  next
    case False
    obtain p h2 where a: "heapmem_alloc n h = (p, h2)" by (cases "heapmem_alloc n h")
    have "heap_usage h < 2 ^ 31" using assms(1) by (auto simp: heapmem_ok_def heap_ok_def)
    then have "heap_usage h + n + 19 < 2 ^ 32" using False by simp
    note s = heapmem_alloc_objects [OF assms(1) this a]
    have "h' = h2" "r = (if p = NULL then None else Some p)" using assms(2) False a by (simp_all add: heapmem_new_def)
    then show ?thesis using s by (auto split: if_splits)
  qed
  note k = this
  show "heapmem_ok h'" using k by blast
  have same: "(q, m) \<in> heap_objects h' \<and> heapmem_cells h' q = {q - sizeof_chunk..<q + m} \<and> heapmem_cells h q = {q - sizeof_chunk..<q + m}"
    if "(q, m) \<in> heap_objects h" for q m using k that heapmem_cells_object by blast
  show "c \<in> heapmem_held h \<Longrightarrow> c \<in> heapmem_held h' \<and> heapmem_cells h' c = heapmem_cells h c"
    using same by (force simp: heapmem_held_def)
  assume "r = Some b"
  then obtain m where m: "(b, m) \<in> heap_objects h'" "sizeof_chunk \<le> b" "apart_from b m (heap_objects h)" using k by blast
  have "heapmem_cells h' b \<inter> heapmem_cells h c = {}" if c: "c \<in> heapmem_held h" for c
  proof -
    obtain s where s: "(c, s) \<in> heap_objects h" using c by (auto simp: heapmem_held_def)
    then have "b + m + sizeof_chunk \<le> c \<or> c + s + sizeof_chunk \<le> b" using m(3) by (auto simp: apart_from_def)
    then show ?thesis using same [OF s] heapmem_cells_object [OF m(1)] by auto
  qed
  then show "b \<in> heapmem_held h' \<and> (\<forall>c \<in> heapmem_held h. heapmem_cells h' b \<inter> heapmem_cells h c = {})"
    using m(1) by (force simp: heapmem_held_def)
qed

interpretation hm: object_heap heapmem_new heapmem_free heapmem_held heapmem_cells heapmem_ok
proof unfold_locales
  show "heapmem_cells m b \<noteq> {}" if "heapmem_ok m" "b \<in> heapmem_held m" for m b
    using that by (auto simp: heapmem_held_def heapmem_cells_object in_heap_objects sizeof_chunk_def)
  fix m held and n :: nat and r m' b
  assume m: "heapmem_ok m" "set held \<subseteq> heapmem_held m"
  show "heapmem_ok m' \<and> (\<forall>c \<in> set held. c \<in> heapmem_held m' \<and> heapmem_cells m' c = heapmem_cells m c)" if "heapmem_new n held m = (r, m')"
    using heapmem_new_keeps(1,2) [OF m(1) that] m(2) by blast
  show "b \<in> heapmem_held m' \<and> (\<forall>c \<in> set held. heapmem_cells m' b \<inter> heapmem_cells m c = {})" if "heapmem_new n held m = (Some b, m')"
    using heapmem_new_keeps(3) [OF m(1) that refl] m(2) by blast
next
  show "heapmem_ok (heapmem_free b m) \<and>
      (\<forall>c \<in> heapmem_held m. c \<noteq> b \<longrightarrow> c \<in> heapmem_held (heapmem_free b m) \<and> heapmem_cells (heapmem_free b m) c = heapmem_cells m c)"
    if ok: "heapmem_ok m" and b: "b \<in> heapmem_held m" for m b
  proof -
    obtain n where n: "(b, n) \<in> heap_objects m" using b by (auto simp: heapmem_held_def)
    note f = heapmem_free_objects [OF ok n]
    have "c \<in> heapmem_held (heapmem_free b m) \<and> heapmem_cells (heapmem_free b m) c = heapmem_cells m c" if c: "c \<in> heapmem_held m" "c \<noteq> b" for c
    proof -
      obtain s where s: "(c, s) \<in> heap_objects m" using c(1) by (auto simp: heapmem_held_def)
      then have s': "(c, s) \<in> heap_objects (heapmem_free b m)" using f(2) c(2) by simp
      show ?thesis using heapmem_cells_object [OF s] heapmem_cells_object [OF s'] s' by (force simp: heapmem_held_def)
    qed
    then show ?thesis using f(1) by blast
  qed
qed

section \<open>Properties\<close>

lemma empty_free_list [simp]: "defrag_loop i NULL h = h" "best_loop i NULL best sz h = best"
  by (cases i; simp)+

lemma get_free_chunk_empty: "free_list h = NULL \<Longrightarrow> get_free_chunk sz h = (NULL, h)"
  by (simp add: get_free_chunk_def defrag_chunks_def)

text \<open>A heap with one object of twelve bytes, for the examples.\<close>

definition one_object :: heapmem where
  "one_object = snd (heapmem_alloc 10 (heapmem_init 1000 100))"

lemma first_alloc:
  "heapmem_alloc 10 (heapmem_init 1000 100) = (1016, one_object)" "heapmem_ok one_object" "heap_objects one_object = {(1016, 12)}"
proof -
  have f: "free_list (heapmem_init 1000 100) = NULL" by (simp add: heapmem_init_def)
  show a: "heapmem_alloc 10 (heapmem_init 1000 100) = (1016, one_object)"
    by (simp add: one_object_def heapmem_alloc_def get_free_chunk_empty [OF f] Let_def extend_space_def size_t_def ALIGN_def)
      (simp add: heapmem_init_def GET_PTR_def sizeof_chunk_def)
  have h: "heapmem_ok (heapmem_init 1000 100)" "heap_objects (heapmem_init 1000 100) = {}" by (rule heapmem_init_ok; simp)+
  have "heap_usage (heapmem_init 1000 100) + 10 + 19 < 2 ^ 32" by (simp add: heapmem_init_def)
  note o = heapmem_alloc_objects [OF h(1) this a]
  then show "heapmem_ok one_object" by blast
  obtain n where n: "heap_objects one_object = {(1016, n)}" using o h(2) by auto
  have "csize one_object 1000 = 12"
    by (simp add: one_object_def heapmem_alloc_def get_free_chunk_empty [OF f] Let_def extend_space_def size_t_def ALIGN_def)
      (simp add: heapmem_init_def sizeof_chunk_def)
  moreover have "(1016, n) \<in> heap_objects one_object" using n by simp
  ultimately have "n = 12" by (simp add: in_heap_objects in_allocs GET_CHUNK_def sizeof_chunk_def)
  then show "heap_objects one_object = {(1016, 12)}" using n by simp
qed

text \<open>
  C7: An allocation returns an aligned object inside the arena, at least as large as asked for and at
  most 19 bytes larger, that is new and overlaps no object in use nor its header; or NULL, and then
  the unused part of the arena is too small. No object in use and no byte of one is touched. The
  hypothesis keeps the sum of the sizes below the wrap-around of \<open>size_t\<close>.
\<close>

theorem heapmem_alloc_fresh:
  assumes "heapmem_ok h" "heap_usage h + sz + 19 < 2 ^ 32" "heapmem_alloc sz h = (p, h')"
  shows "heapmem_ok h' \<and> heap_data h' = heap_data h \<and>
    (if p = NULL then heap_objects h' = heap_objects h \<and> HEAPMEM_ARENA_SIZE h < heap_usage h + sizeof_chunk + ALIGN sz
     else \<exists>n. sz \<le> n \<and> n \<le> sz + 19 \<and> heap_objects h' = insert (p, n) (heap_objects h) \<and>
       (\<forall>(q, m) \<in> heap_objects h. p + n + sizeof_chunk \<le> q \<or> q + m + sizeof_chunk \<le> p) \<and>
       heap_base h + sizeof_chunk \<le> p \<and> p + n \<le> heap_base h + HEAPMEM_ARENA_SIZE h \<and> 4 dvd p - heap_base h)"
  using heapmem_alloc_objects [OF assms] by (auto simp: apart_from_def sizeof_chunk_def add.assoc)

theorem heapmem_alloc_fresh_witness: "\<exists>n \<ge> 10. heap_objects one_object = insert (1016, n) {}"
proof -
  have h: "heapmem_ok (heapmem_init 1000 100)" "heap_objects (heapmem_init 1000 100) = {}" by (rule heapmem_init_ok; simp)+
  have "heap_usage (heapmem_init 1000 100) + 10 + 19 < 2 ^ 32" by (simp add: heapmem_init_def)
  from heapmem_alloc_fresh [OF h(1) this first_alloc(1)] show ?thesis using h(2) by auto
qed

text \<open>
  C5: A reallocation to a positive size returns an object with room for the new size that holds the
  bytes of the old one, as many as fit, in place or somewhere new, in which case the old one is
  freed; or NULL, and then the old object is still there with its bytes. The other objects keep
  their place and their bytes either way.
\<close>

theorem heapmem_realloc_keeps_contents:
  assumes "heapmem_ok h" "(p, n) \<in> heap_objects h" "0 < sz" "sz < 2 ^ 31 - 32" "heapmem_realloc p sz h = (q, h')"
  shows "heapmem_ok h' \<and>
    (let rest = heap_objects h - {(p, n)}
     in if q = NULL then (\<exists>m \<ge> n. heap_objects h' = insert (p, m) rest) \<and> heap_data h' = heap_data h
        else \<exists>m. sz \<le> m \<and> m \<le> sz + 19 \<and> heap_objects h' = insert (q, m) rest \<and> apart_from q m rest \<and>
          (\<forall>i < min n sz. heap_data h' (q + i) = heap_data h (p + i)) \<and>
          (\<forall>(r, k) \<in> rest. \<forall>i < k. heap_data h' (r + i) = heap_data h (r + i)))"
proof -
  define rest where "rest = heap_objects h - {(p, n)}"
  obtain fs where o: "heap_ok h (heap_chunks h) fs" "GET_CHUNK p \<in> set (heap_chunks h)" "CHUNK_ALLOCATED h (GET_CHUNK p)"
    "p = GET_PTR (GET_CHUNK p)" "n = csize h (GET_CHUNK p)"
    "(\<lambda>(d, m). (GET_PTR d, m)) ` others (GET_CHUNK p) h (heap_chunks h) = rest"
    unfolding rest_def by (rule object_chunk [OF assms(1,2)])
  note r = heapmem_realloc_ok [OF o(1,2,3,4) assms(3,4,5)]
  show ?thesis
  proof (cases "q = NULL")
    case True
    then obtain cs' fs' where c: "heap_ok h' cs' fs'" "GET_CHUNK p \<in> set cs'" "CHUNK_ALLOCATED h' (GET_CHUNK p)"
        "n \<le> csize h' (GET_CHUNK p)" "others (GET_CHUNK p) h' cs' = others (GET_CHUNK p) h (heap_chunks h)" "heap_data h' = heap_data h"
      using r o(5) by auto
    have "heap_objects h' = insert (p, csize h' (GET_CHUNK p)) rest"
      unfolding heap_ok_objects [OF c(1)] allocs_others [of h' cs' "GET_CHUNK p"] o(6) [symmetric] c(5) [symmetric] using c(2,3) o(4) by auto
    then show ?thesis using True c(4,6) heapmem_okI [OF c(1)] by (auto simp: rest_def Let_def)
  next
    case False
    have q: "GET_PTR (GET_CHUNK q) = q" "holds_chunk (GET_CHUNK q) (ALIGN sz) (others (GET_CHUNK p) h (heap_chunks h)) h'"
      "kept h' q h p (min n (ALIGN sz))" using r False o(5) by simp_all
    define m where "m = csize h' (GET_CHUNK q)"
    note u = holds_chunk_objects [OF q(2), unfolded q(1) o(6) m_def [symmetric]]
    have sz: "sz \<le> ALIGN sz" "ALIGN sz \<le> sz + 3" using ALIGN_bounds [of sz] assms(4) by simp_all
    have keep: "heap_data h' (k + i) = heap_data h (k + i)" if "(k, s) \<in> rest" "i < s" for k s i
    proof -
      have "q + m + sizeof_chunk \<le> k \<or> k + s + sizeof_chunk \<le> q" using u that(1) by (auto simp: apart_from_def)
      then show ?thesis using q(3) that(2) by (auto simp: kept_def m_def)
    qed
    have "heap_data h' (q + i) = heap_data h (p + i)" if "i < min n sz" for i using q(3) that sz(1) by (auto simp: kept_def)
    then show ?thesis unfolding Let_def rest_def [symmetric] using False u sz keep
      by (auto simp: sizeof_chunk_def intro!: exI [of _ m])
  qed
qed

theorem heapmem_realloc_keeps_contents_witness:
  "\<exists>q h'. heapmem_realloc 1016 40 one_object = (q, h') \<and> heapmem_ok h'"
proof -
  obtain q h' where r: "heapmem_realloc 1016 40 one_object = (q, h')" by (rule prod.exhaust)
  have "(1016, 12) \<in> heap_objects one_object" using first_alloc(3) by simp
  from heapmem_realloc_keeps_contents [OF first_alloc(2) this _ _ r] r show ?thesis by simp
qed

text \<open>
  Freeing an object takes it, and it alone, from the objects in use; no byte of another changes.
\<close>

theorem heapmem_free_removes:
  assumes "heapmem_ok h" "(p, n) \<in> heap_objects h"
  shows "heapmem_ok (heapmem_free p h) \<and> heap_objects (heapmem_free p h) = heap_objects h - {(p, n)} \<and>
    heap_data (heapmem_free p h) = heap_data h"
  using heapmem_free_objects [OF assms] by simp

theorem heapmem_free_removes_witness: "heap_objects (heapmem_free 1016 one_object) = {}"
  using heapmem_free_removes [OF first_alloc(2), of 1016 12] first_alloc(3) by simp

text \<open>
  The statistics account for every byte of the arena: the bytes of the objects in use, the bytes
  available and the headers add up to the size of the arena. Computing them merges free chunks but
  changes no object.
\<close>

theorem heapmem_stats_account:
  assumes "heapmem_ok h" "heapmem_stats h = (st, h')"
  shows "heapmem_ok h' \<and> heap_objects h' = heap_objects h \<and> heap_data h' = heap_data h \<and>
    st_allocated st + st_available st + st_overhead st = HEAPMEM_ARENA_SIZE h \<and>
    st_allocated st = (\<Sum>x \<in> heap_objects h. snd x) \<and> st_footprint st = heap_usage h"
proof -
  obtain fs where h: "heap_ok h (heap_chunks h) fs" using assms(1) by (auto simp: heapmem_ok_def)
  let ?z = "\<lparr>st_allocated = 0, st_overhead = 0, st_available = 0, st_footprint = 0, st_chunks = 0\<rparr>"
  obtain s1 h1 where l: "stats_loop (heap_base h) ?z h = (s1, h1)" by (rule prod.exhaust)
  have "heap_base h = heap_base h + heap_usage h \<or> heap_base h \<in> set (heap_chunks h)" using heap_okD(1) [OF h] by (cases "heap_chunks h") auto
  from stats_loop_spec [OF h this l] obtain cs' fs' where s: "heap_ok h1 cs' fs'" "allocs h1 cs' = allocs h (heap_chunks h)" "arena h1 = arena h"
    "heap_usage h1 = heap_usage h" "heap_data h1 = heap_data h"
    "st_allocated s1 = (\<Sum>x \<in> {x \<in> allocs h (heap_chunks h). heap_base h \<le> fst x}. snd x)"
    "st_total s1 = heap_usage h" by auto
  have e: "h' = h1" "st = s1\<lparr>st_available := st_available s1 + (HEAPMEM_ARENA_SIZE h - heap_usage h), st_footprint := heap_usage h,
      st_chunks := st_overhead s1 div sizeof_chunk\<rparr>"
    using assms(2) l s(3,4) by (auto simp: heapmem_stats_def arena_def)
  have "{x \<in> allocs h (heap_chunks h). heap_base h \<le> fst x} = allocs h (heap_chunks h)"
    using heap_okD(7) [OF h] by (auto simp: chunk_sets)
  moreover have "(\<Sum>x \<in> (\<lambda>(c, n). (GET_PTR c, n)) ` A. snd x) = (\<Sum>x \<in> A. snd x)" for A :: "(ptr \<times> nat) set"
    by (subst sum.reindex) (auto simp: inj_on_def GET_PTR_def intro!: sum.cong)
  ultimately have "st_allocated st = (\<Sum>x \<in> heap_objects h. snd x)"
    unfolding heap_ok_objects [OF h] using s(6) e(2) by simp
  moreover have "heap_usage h \<le> HEAPMEM_ARENA_SIZE h" using h by (simp add: heap_ok_def)
  moreover have "heap_objects h1 = heap_objects h" by (simp add: heap_ok_objects [OF h] heap_ok_objects [OF s(1)] s(2))
  ultimately show ?thesis using heapmem_okI [OF s(1)] s(5,7) e by simp
qed

theorem heapmem_stats_account_witness:
  "\<exists>st h'. heapmem_stats one_object = (st, h') \<and> st_allocated st = 12"
proof -
  obtain st h' where r: "heapmem_stats one_object = (st, h')" by (rule prod.exhaust)
  from heapmem_stats_account [OF first_alloc(2) r] r first_alloc(3) show ?thesis by auto
qed

text \<open>
  Whatever objects a client allocates and frees, the objects it holds are distinct and no two of
  them share a byte, headers included.
\<close>

theorem heapmem_client_objects_disjoint:
  assumes "heapmem_ok h" "object_run heapmem_new heapmem_free ops [] h = (held, h')"
  shows "heapmem_ok h' \<and> distinct held \<and> set held \<subseteq> heapmem_held h' \<and>
    (\<forall>c \<in> set held. \<forall>d \<in> set held. c \<noteq> d \<longrightarrow> heapmem_cells h' c \<inter> heapmem_cells h' d = {})"
  using hm.run_apart [OF assms(1) _ assms(2)] by (simp add: hm.apart_def)

theorem heapmem_client_objects_disjoint_witness:
  "\<exists>held h'. object_run heapmem_new heapmem_free [New 10, New 20, Delete_nth 1, New 5] [] (heapmem_init 1000 100) = (held, h') \<and> distinct held"
proof -
  have ok: "heapmem_ok (heapmem_init 1000 100)" by (rule heapmem_init_ok) simp_all
  obtain held h' where run: "object_run heapmem_new heapmem_free [New 10, New 20, Delete_nth 1, New 5] [] (heapmem_init 1000 100) = (held, h')"
    by (rule prod.exhaust)
  with heapmem_client_objects_disjoint [OF ok run] show ?thesis by blast
qed

section \<open>Where the sizes wrap around\<close>

text \<open>
  A request of \<open>2 ^ 32 - 4\<close> bytes succeeds on an empty heap of a hundred bytes: the sum with the
  header wraps around to twelve, and the chunk reaches far beyond the arena.
\<close>

theorem heapmem_alloc_wraps:
  "fst (heapmem_alloc (2 ^ 32 - 4) (heapmem_init 1000 100)) = 1016"
  "heap_usage (snd (heapmem_alloc (2 ^ 32 - 4) (heapmem_init 1000 100))) = 12"
  "csize (snd (heapmem_alloc (2 ^ 32 - 4) (heapmem_init 1000 100))) 1000 = 2 ^ 32 - 4"
proof -
  have f: "free_list (heapmem_init 1000 100) = NULL" by (simp add: heapmem_init_def)
  note d = heapmem_alloc_def get_free_chunk_empty [OF f] Let_def extend_space_def size_t_def ALIGN_def sizeof_chunk_def
  show "fst (heapmem_alloc (2 ^ 32 - 4) (heapmem_init 1000 100)) = 1016"
    "heap_usage (snd (heapmem_alloc (2 ^ 32 - 4) (heapmem_init 1000 100))) = 12"
    "csize (snd (heapmem_alloc (2 ^ 32 - 4) (heapmem_init 1000 100))) 1000 = 2 ^ 32 - 4"
    by (simp add: d, simp add: heapmem_init_def GET_PTR_def sizeof_chunk_def)+
qed

text \<open>
  A reallocation to a size that is \<open>2 ^ 31\<close> or more above the size of the chunk is taken for a
  request to shrink it: it succeeds and changes nothing.
\<close>

theorem heapmem_realloc_wraps:
  assumes "p \<noteq> NULL" "4 dvd sz" "csize h (GET_CHUNK p) + 2 ^ 31 \<le> sz" "sz + sizeof_chunk < 2 ^ 32"
  shows "heapmem_realloc p sz h = (p, h)"
proof -
  have sz: "ALIGN sz = sz" "sz \<noteq> 0" using assms(2,3,4) by (auto intro: ALIGN_aligned simp: sizeof_chunk_def)
  have "size_adj sz (csize h (GET_CHUNK p)) = int sz - int (csize h (GET_CHUNK p)) - 2 ^ 32"
  proof -
    have "(int sz - int (csize h (GET_CHUNK p)) + 2 ^ 31) mod 2 ^ 32 = int sz - int (csize h (GET_CHUNK p)) + 2 ^ 31 - 2 ^ 32"
      using assms(3,4) by (subst mod_pos_geq) (auto simp: sizeof_chunk_def)
    then show ?thesis by (simp add: size_adj_def)
  qed
  then have "size_adj sz (csize h (GET_CHUNK p)) \<le> 0" using assms(4) by simp
  moreover have "split_chunk (GET_CHUNK p) sz h = h" using assms(3,4) sz(1) by (simp add: split_chunk_def size_t_def)
  ultimately show ?thesis using assms(1) sz by (simp add: heapmem_realloc_def Let_def)
qed

end
