(* ===== verification/Contiki_Frame802154.thy ===== *)
theory Contiki_Frame802154
  imports Nespy_Prelude "HOL-Library.Monad_Syntax"
begin

unbundle bit_operations_syntax

text \<open>
  The headers of IEEE 802.15.4 frames, \<open>ns/net/mac/framer/frame802154.c\<close>: from a structure to bytes
  and back. A buffer is a list of bytes; an access outside it, or outside an array of the
  structure, is \<open>None\<close>. The options of the build that change the header are a record of the
  configuration; link addresses have eight bytes, the default.
\<close>

section \<open>Frames\<close>

type_synonym octet = "8 word"

record frame802154_fcf_t =
  frame_type :: octet
  security_enabled :: octet
  frame_pending :: octet
  ack_required :: octet
  panid_compression :: octet
  sequence_number_suppression :: octet
  ie_list_present :: octet
  dest_addr_mode :: octet
  frame_version :: octet
  src_addr_mode :: octet

record frame802154_scf_t =
  security_level :: octet
  key_id_mode :: octet
  frame_counter_suppression :: octet
  frame_counter_size :: octet
  scf_reserved :: octet

record frame802154_aux_hdr_t =
  security_control :: frame802154_scf_t
  frame_counter :: "octet list"
  key_source :: "octet list"
  key_index :: octet

text \<open>\<open>payload\<close> is an index into the bytes of the frame.\<close>

record frame802154_t =
  dest_addr :: "octet list"
  src_addr :: "octet list"
  fcf :: frame802154_fcf_t
  seqno :: octet
  dest_pid :: "16 word"
  src_pid :: "16 word"
  aux_hdr :: frame802154_aux_hdr_t
  payload :: nat
  payload_len :: int

record llsec_cfg =
  USES_AUX_HEADER :: bool
  USES_EXPLICIT_KEYS :: bool

abbreviation (input) FRAME802154_ACKFRAME :: octet where "FRAME802154_ACKFRAME \<equiv> 2"
abbreviation (input) FRAME802154_NOADDR :: octet where "FRAME802154_NOADDR \<equiv> 0"
abbreviation (input) FRAME802154_SHORTADDRMODE :: octet where "FRAME802154_SHORTADDRMODE \<equiv> 2"
abbreviation (input) FRAME802154_LONGADDRMODE :: octet where "FRAME802154_LONGADDRMODE \<equiv> 3"
abbreviation (input) FRAME802154_IEEE802154_2015 :: octet where "FRAME802154_IEEE802154_2015 \<equiv> 2"
abbreviation (input) FRAME802154_BROADCASTPANDID :: "16 word" where "FRAME802154_BROADCASTPANDID \<equiv> 0xFFFF"

definition LINKADDR_SIZE :: nat where "LINKADDR_SIZE = 8"

definition linkaddr_null :: "octet list" where "linkaddr_null = replicate LINKADDR_SIZE 0"

definition linkaddr_copy :: "octet list \<Rightarrow> octet list \<Rightarrow> octet list" where
  "linkaddr_copy dest src = take LINKADDR_SIZE src @ drop LINKADDR_SIZE dest"

definition linkaddr_cmp :: "octet list \<Rightarrow> octet list \<Rightarrow> bool" where
  "linkaddr_cmp addr1 addr2 \<longleftrightarrow> take LINKADDR_SIZE addr1 = take LINKADDR_SIZE addr2"

section \<open>Which fields a frame has\<close>

definition addr_len :: "octet \<Rightarrow> nat" where
  "addr_len mode = (if mode = FRAME802154_SHORTADDRMODE then 2 else if mode = FRAME802154_LONGADDRMODE then 8 else 0)"

definition get_key_id_len :: "octet \<Rightarrow> nat" where
  "get_key_id_len mode = (if mode = 1 then 1 else if mode = 2 then 5 else if mode = 3 then 9 else 0)"

text \<open>Whether there is a source and a destination PAN identifier.\<close>

definition frame802154_has_panid :: "frame802154_fcf_t \<Rightarrow> bool \<times> bool" where
  "frame802154_has_panid f =
     (let d = dest_addr_mode f; s = src_addr_mode f; c = panid_compression f
      in if frame_version f = FRAME802154_IEEE802154_2015 then
           (c = 0 \<and> (d = FRAME802154_NOADDR \<and> s = FRAME802154_LONGADDRMODE \<or>
                d = FRAME802154_NOADDR \<and> s = FRAME802154_SHORTADDRMODE \<or>
                d = FRAME802154_SHORTADDRMODE \<and> s = FRAME802154_SHORTADDRMODE \<or>
                d = FRAME802154_SHORTADDRMODE \<and> s = FRAME802154_LONGADDRMODE \<or>
                d = FRAME802154_LONGADDRMODE \<and> s = FRAME802154_SHORTADDRMODE),
            d = FRAME802154_NOADDR \<and> s = FRAME802154_NOADDR \<and> c = 1 \<or>
            d \<noteq> FRAME802154_NOADDR \<and> s = FRAME802154_NOADDR \<and> c = 0 \<or>
            d = FRAME802154_LONGADDRMODE \<and> s = FRAME802154_LONGADDRMODE \<and> c = 0 \<or>
            (d = FRAME802154_SHORTADDRMODE \<and> s \<noteq> FRAME802154_NOADDR \<or>
             d \<noteq> FRAME802154_NOADDR \<and> s = FRAME802154_SHORTADDRMODE))
         else if frame_type f \<noteq> FRAME802154_ACKFRAME then (c = 0 \<and> s AND 3 \<noteq> 0, d AND 3 \<noteq> 0)
         else (False, False))"

definition frame802154_check_dest_panid :: "16 word \<Rightarrow> frame802154_t \<Rightarrow> bool" where
  "frame802154_check_dest_panid mac_pan_id frame =
     (let (_, has_dest_panid) = frame802154_has_panid (fcf frame)
      in if \<not> has_dest_panid \<or> dest_pid frame \<noteq> mac_pan_id \<and> dest_pid frame \<noteq> FRAME802154_BROADCASTPANDID
         then False else True)"

fun broadcast_addr_loop :: "nat \<Rightarrow> octet list \<Rightarrow> bool" where
  "broadcast_addr_loop 0 addr = True"
| "broadcast_addr_loop (Suc i) addr = (if addr ! i \<noteq> 0xff then False else broadcast_addr_loop i addr)"

definition frame802154_is_broadcast_addr :: "octet \<Rightarrow> octet list \<Rightarrow> bool" where
  "frame802154_is_broadcast_addr mode addr = broadcast_addr_loop (if mode = FRAME802154_SHORTADDRMODE then 2 else 8) addr"

definition extract_one :: "octet \<Rightarrow> octet list \<Rightarrow> octet list \<Rightarrow> octet list option" where
  "extract_one mode addr out =
     (let alen = (if mode \<noteq> 0 then if mode = FRAME802154_SHORTADDRMODE then 2 else 8 else 0) :: nat
      in if alen = 0 \<or> frame802154_is_broadcast_addr mode addr then Some (linkaddr_copy out linkaddr_null)
         else if alen \<noteq> LINKADDR_SIZE then None
         else Some (linkaddr_copy out addr))"

text \<open>The result and the two addresses, of which the source may have been written before a failure.\<close>

definition frame802154_extract_linkaddr :: "frame802154_t \<Rightarrow> octet list \<Rightarrow> octet list \<Rightarrow> bool \<times> octet list \<times> octet list" where
  "frame802154_extract_linkaddr frame source dest =
     (case extract_one (src_addr_mode (fcf frame)) (src_addr frame) source of
        None \<Rightarrow> (False, source, dest)
      | Some s \<Rightarrow>
          (case extract_one (dest_addr_mode (fcf frame)) (dest_addr frame) dest of
             None \<Rightarrow> (False, s, dest)
           | Some d \<Rightarrow> (True, s, d)))"

record field_length_t =
  seqno_len :: nat
  dest_pid_len :: nat
  dest_addr_len :: nat
  src_pid_len :: nat
  src_addr_len :: nat
  aux_sec_len :: nat

definition aux_len :: "llsec_cfg \<Rightarrow> frame802154_t \<Rightarrow> nat" where
  "aux_len cfg p =
     (if USES_AUX_HEADER cfg \<and> security_enabled (fcf p) AND 1 \<noteq> 0 then
        1 + (if frame_counter_suppression (security_control (aux_hdr p)) = 0
             then if frame_counter_size (security_control (aux_hdr p)) = 1 then 5 else 4 else 0)
          + (if USES_EXPLICIT_KEYS cfg then get_key_id_len (key_id_mode (security_control (aux_hdr p))) else 0)
      else 0)"

text \<open>Sets the compression bit of frames before version 2015.\<close>

definition set_compression :: "frame802154_t \<Rightarrow> frame802154_t" where
  "set_compression p =
     (if frame_version (fcf p) < FRAME802154_IEEE802154_2015 then
        p\<lparr>fcf := (fcf p)\<lparr>panid_compression :=
          (if dest_addr_mode (fcf p) AND 3 \<noteq> 0 \<and> src_addr_mode (fcf p) AND 3 \<noteq> 0 \<and> src_pid p = dest_pid p then 1 else 0)\<rparr>\<rparr>
      else p)"

definition field_len :: "llsec_cfg \<Rightarrow> frame802154_t \<Rightarrow> frame802154_t \<times> field_length_t" where
  "field_len cfg p0 =
     (let p = set_compression p0;
          (has_src_panid, has_dest_panid) = frame802154_has_panid (fcf p)
      in (p, \<lparr>seqno_len = (if sequence_number_suppression (fcf p) AND 1 = 0 then 1 else 0),
             dest_pid_len = (if has_dest_panid then 2 else 0),
             dest_addr_len = addr_len (dest_addr_mode (fcf p) AND 3),
             src_pid_len = (if has_src_panid then 2 else 0),
             src_addr_len = addr_len (src_addr_mode (fcf p) AND 3),
             aux_sec_len = aux_len cfg p\<rparr>))"

definition frame802154_hdrlen :: "llsec_cfg \<Rightarrow> frame802154_t \<Rightarrow> nat \<times> frame802154_t" where
  "frame802154_hdrlen cfg p0 =
     (let (p, flen) = field_len cfg p0
      in (2 + seqno_len flen + dest_pid_len flen + dest_addr_len flen + src_pid_len flen + src_addr_len flen + aux_sec_len flen, p))"

section \<open>Writing a header\<close>

text \<open>The position and the buffer: \<open>buf[pos++] = b\<close>.\<close>

definition put :: "octet \<Rightarrow> nat \<times> octet list \<Rightarrow> (nat \<times> octet list) option" where
  "put b st = (case st of (pos, buf) \<Rightarrow> if pos < length buf then Some (pos + 1, buf[pos := b]) else None)"

fun put_all :: "octet list \<Rightarrow> nat \<times> octet list \<Rightarrow> (nat \<times> octet list) option" where
  "put_all [] st = Some st"
| "put_all (b # bs) st = do { st1 \<leftarrow> put b st; put_all bs st1 }"

fun put_addr :: "nat \<Rightarrow> octet list \<Rightarrow> nat \<times> octet list \<Rightarrow> (nat \<times> octet list) option" where
  "put_addr 0 addr st = Some st"
| "put_addr (Suc c) addr st = (if c < length addr then do { st1 \<leftarrow> put (addr ! c) st; put_addr c addr st1 } else None)"

definition put_copy :: "nat \<Rightarrow> octet list \<Rightarrow> nat \<times> octet list \<Rightarrow> (nat \<times> octet list) option" where
  "put_copy n src st = (if n \<le> length src then put_all (take n src) st else None)"

definition low_high :: "16 word \<Rightarrow> octet list" where
  "low_high w = [ucast (w AND 0xff), ucast (drop_bit 8 w AND 0xff)]"

definition frame802154_create_fcf :: "frame802154_fcf_t \<Rightarrow> octet list" where
  "frame802154_create_fcf f =
     [frame_type f AND 7 OR push_bit 3 (security_enabled f AND 1) OR push_bit 4 (frame_pending f AND 1) OR
        push_bit 5 (ack_required f AND 1) OR push_bit 6 (panid_compression f AND 1),
      sequence_number_suppression f AND 1 OR push_bit 1 (ie_list_present f AND 1) OR push_bit 2 (dest_addr_mode f AND 3) OR
        push_bit 4 (frame_version f AND 3) OR push_bit 6 (src_addr_mode f AND 3)]"

definition create_aux :: "llsec_cfg \<Rightarrow> frame802154_t \<Rightarrow> nat \<times> octet list \<Rightarrow> (nat \<times> octet list) option" where
  "create_aux cfg p st =
     (let sc = security_control (aux_hdr p) in
      do {
        st1 \<leftarrow> put (security_level sc OR (if USES_EXPLICIT_KEYS cfg then push_bit 3 (key_id_mode sc) else 0) OR
                  push_bit 5 (frame_counter_suppression sc) OR push_bit 6 (frame_counter_size sc)) st;
        st2 \<leftarrow> (if frame_counter_suppression sc = 0 then do {
                   (pos, buf) \<leftarrow> put_copy 4 (frame_counter (aux_hdr p)) st1;
                   Some (if frame_counter_size sc = 1 then pos + 1 else pos, buf) }
                 else Some st1);
        (if USES_EXPLICIT_KEYS cfg \<and> key_id_mode sc \<noteq> 0 then do {
           st3 \<leftarrow> put_copy ((unat (key_id_mode sc) - 1) * 4) (key_source (aux_hdr p)) st2;
           put (key_index (aux_hdr p)) st3 }
         else Some st2)
      })"

definition frame802154_create :: "llsec_cfg \<Rightarrow> frame802154_t \<Rightarrow> octet list \<Rightarrow> (nat \<times> frame802154_t \<times> octet list) option" where
  "frame802154_create cfg p0 buf =
     (let (p, flen) = field_len cfg p0 in
      do {
        st \<leftarrow> put_all (frame802154_create_fcf (fcf p)) (0, buf);
        st \<leftarrow> (if seqno_len flen = 1 then put (seqno p) st else Some st);
        st \<leftarrow> (if dest_pid_len flen = 2 then put_all (low_high (dest_pid p)) st else Some st);
        st \<leftarrow> put_addr (dest_addr_len flen) (dest_addr p) st;
        st \<leftarrow> (if src_pid_len flen = 2 then put_all (low_high (src_pid p)) st else Some st);
        st \<leftarrow> put_addr (src_addr_len flen) (src_addr p) st;
        (pos, buf1) \<leftarrow> (if USES_AUX_HEADER cfg \<and> aux_sec_len flen \<noteq> 0 then create_aux cfg p st else Some st);
        Some (pos, p, buf1)
      })"

section \<open>Reading a header\<close>

definition get :: "octet list \<Rightarrow> nat \<Rightarrow> octet option" where
  "get data i = (if i < length data then Some (data ! i) else None)"

definition get_pid :: "octet list \<Rightarrow> nat \<Rightarrow> (16 word) option" where
  "get_pid data p = do { lo \<leftarrow> get data p; hi \<leftarrow> get data (p + 1); Some (ucast lo + push_bit 8 (ucast hi)) }"

text \<open>The loop over a long address: \<open>n\<close> bytes are left, the index \<open>c\<close> is \<open>8 - n\<close>.\<close>

fun get_long :: "nat \<Rightarrow> octet list \<Rightarrow> nat \<Rightarrow> octet list \<Rightarrow> octet list option" where
  "get_long 0 data p addr = Some addr"
| "get_long (Suc n) data p addr = do { b \<leftarrow> get data (p + n); get_long n data p (addr[7 - n := b]) }"

definition get_copy :: "nat \<Rightarrow> octet list \<Rightarrow> nat \<Rightarrow> octet list \<Rightarrow> octet list option" where
  "get_copy n data p dest = (if p + n \<le> length data then Some (take n (drop p data) @ drop n dest) else None)"

definition get_addr :: "octet \<Rightarrow> octet list \<Rightarrow> nat \<Rightarrow> octet list \<Rightarrow> (octet list \<times> nat) option" where
  "get_addr mode data p addr =
     (if mode = FRAME802154_SHORTADDRMODE then do {
        b1 \<leftarrow> get data (p + 1);
        b0 \<leftarrow> get data p;
        Some ((linkaddr_copy addr linkaddr_null)[0 := b1, 1 := b0], p + 2) }
      else if mode = FRAME802154_LONGADDRMODE then do { a \<leftarrow> get_long 8 data p addr; Some (a, p + 8) }
      else Some (addr, p))"

definition frame802154_parse_fcf :: "octet list \<Rightarrow> frame802154_fcf_t option" where
  "frame802154_parse_fcf data = do {
     d0 \<leftarrow> get data 0;
     d1 \<leftarrow> get data 1;
     Some \<lparr>frame_type = d0 AND 7, security_enabled = drop_bit 3 d0 AND 1, frame_pending = drop_bit 4 d0 AND 1,
       ack_required = drop_bit 5 d0 AND 1, panid_compression = drop_bit 6 d0 AND 1,
       sequence_number_suppression = d1 AND 1, ie_list_present = drop_bit 1 d1 AND 1, dest_addr_mode = drop_bit 2 d1 AND 3,
       frame_version = drop_bit 4 d1 AND 3, src_addr_mode = drop_bit 6 d1 AND 3\<rparr> }"

definition parse_dest :: "octet list \<Rightarrow> nat \<Rightarrow> frame802154_t \<Rightarrow> (frame802154_t \<times> nat) option" where
  "parse_dest data p pf =
     (let (has_src_panid, has_dest_panid) = frame802154_has_panid (fcf pf)
      in if dest_addr_mode (fcf pf) \<noteq> 0 then do {
           (pf, p) \<leftarrow> (if has_dest_panid then do { w \<leftarrow> get_pid data p; Some (pf\<lparr>dest_pid := w\<rparr>, p + 2) }
                       else Some (pf\<lparr>dest_pid := 0\<rparr>, p));
           (a, p) \<leftarrow> get_addr (dest_addr_mode (fcf pf)) data p (dest_addr pf);
           Some (pf\<lparr>dest_addr := a\<rparr>, p) }
         else Some (pf\<lparr>dest_addr := linkaddr_copy (dest_addr pf) linkaddr_null, dest_pid := 0\<rparr>, p))"

definition parse_src :: "octet list \<Rightarrow> nat \<Rightarrow> frame802154_t \<Rightarrow> (frame802154_t \<times> nat) option" where
  "parse_src data p pf =
     (let (has_src_panid, has_dest_panid) = frame802154_has_panid (fcf pf)
      in if src_addr_mode (fcf pf) \<noteq> 0 then do {
           (pf, p) \<leftarrow> (if has_src_panid then do {
                          w \<leftarrow> get_pid data p;
                          Some (if \<not> has_dest_panid then pf\<lparr>src_pid := w, dest_pid := w\<rparr> else pf\<lparr>src_pid := w\<rparr>, p + 2) }
                       else Some (pf\<lparr>src_pid := dest_pid pf\<rparr>, p));
           (a, p) \<leftarrow> get_addr (src_addr_mode (fcf pf)) data p (src_addr pf);
           Some (pf\<lparr>src_addr := a\<rparr>, p) }
         else Some (pf\<lparr>src_addr := linkaddr_copy (src_addr pf) linkaddr_null, src_pid := 0\<rparr>, p))"

definition parse_aux :: "llsec_cfg \<Rightarrow> octet list \<Rightarrow> nat \<Rightarrow> frame802154_aux_hdr_t \<Rightarrow> (frame802154_aux_hdr_t \<times> nat) option" where
  "parse_aux cfg data p aux = do {
     b \<leftarrow> get data p;
     let sc = (security_control aux)\<lparr>security_level := b AND 7,
                key_id_mode := (if USES_EXPLICIT_KEYS cfg then drop_bit 3 b AND 3 else key_id_mode (security_control aux)),
                frame_counter_suppression := drop_bit 5 b, frame_counter_size := drop_bit 6 b\<rparr>;
     let aux = aux\<lparr>security_control := sc\<rparr>;
     let p = p + 1;
     (aux, p) \<leftarrow> (if frame_counter_suppression sc = 0 then do {
                     fc \<leftarrow> get_copy 4 data p (frame_counter aux);
                     Some (aux\<lparr>frame_counter := fc\<rparr>, if frame_counter_size sc = 1 then p + 5 else p + 4) }
                   else Some (aux, p));
     (if USES_EXPLICIT_KEYS cfg \<and> key_id_mode sc \<noteq> 0 then do {
        let c = (unat (key_id_mode sc) - 1) * 4;
        ks \<leftarrow> get_copy c data p (key_source aux);
        ki \<leftarrow> get data (p + c);
        Some (aux\<lparr>key_source := ks, key_index := ki\<rparr>, p + c + 1) }
      else Some (aux, p)) }"

definition frame802154_parse :: "llsec_cfg \<Rightarrow> octet list \<Rightarrow> int \<Rightarrow> frame802154_t \<Rightarrow> (nat \<times> frame802154_t) option" where
  "frame802154_parse cfg data len pf0 =
     (if len < 2 then Some (0, pf0)
      else do {
        f \<leftarrow> frame802154_parse_fcf data;
        let pf = pf0\<lparr>fcf := f\<rparr>;
        (pf, p) \<leftarrow> (if sequence_number_suppression f = 0 then do { s \<leftarrow> get data 2; Some (pf\<lparr>seqno := s\<rparr>, 3) } else Some (pf, 2));
        (pf, p) \<leftarrow> parse_dest data p pf;
        (pf, p) \<leftarrow> parse_src data p pf;
        (pf, p) \<leftarrow> (if USES_AUX_HEADER cfg \<and> security_enabled f \<noteq> 0 then do {
                        (aux, p) \<leftarrow> parse_aux cfg data p (aux_hdr pf); Some (pf\<lparr>aux_hdr := aux\<rparr>, p) }
                    else Some (pf, p));
        let pf = pf\<lparr>payload_len := len - int p, payload := p\<rparr>;
        Some (if int p > len then 0 else p, pf) })"

end
