(* ===== verification/Contiki_Packetbuf.thy ===== *)
theory Contiki_Packetbuf
  imports Contiki_Frame802154
begin

text \<open>
  The packet buffer, \<open>ns/net/packetbuf.c\<close>, which holds the packet being sent or received: a header
  that grows to the left by moving the data, the data, and the attributes of the packet. Lengths
  are natural numbers, with the wrap-around of their types written out; the size is the default.
\<close>

section \<open>State and operations\<close>

datatype packetbuf_attr_type =
    PACKETBUF_ATTR_NONE | PACKETBUF_ATTR_CHANNEL | PACKETBUF_ATTR_NETWORK_ID | PACKETBUF_ATTR_LINK_QUALITY | PACKETBUF_ATTR_RSSI
  | PACKETBUF_ATTR_TIMESTAMP | PACKETBUF_ATTR_MAX_MAC_TRANSMISSIONS | PACKETBUF_ATTR_MAC_SEQNO | PACKETBUF_ATTR_MAC_ACK
  | PACKETBUF_ATTR_MAC_METADATA | PACKETBUF_ATTR_MAC_NO_SRC_ADDR | PACKETBUF_ATTR_MAC_NO_DEST_ADDR | PACKETBUF_ATTR_FRAME_TYPE
  | PACKETBUF_ATTR_SECURITY_LEVEL | PACKETBUF_ATTR_KEY_ID_MODE | PACKETBUF_ATTR_KEY_INDEX

datatype packetbuf_addr_type = PACKETBUF_ADDR_SENDER | PACKETBUF_ADDR_RECEIVER

definition PACKETBUF_SIZE :: nat where "PACKETBUF_SIZE = 128"

record packetbuf =
  pb_bytes :: "octet list"
  buflen :: nat
  bufptr :: nat
  pb_hdrlen :: nat
  packetbuf_attrs :: "packetbuf_attr_type \<Rightarrow> 16 word"
  packetbuf_addrs :: "packetbuf_addr_type \<Rightarrow> octet list"

definition packetbuf_attr_clear :: "packetbuf \<Rightarrow> packetbuf" where
  "packetbuf_attr_clear pb = pb\<lparr>packetbuf_attrs := (\<lambda>_. 0), packetbuf_addrs := (\<lambda>i. linkaddr_copy (packetbuf_addrs pb i) linkaddr_null)\<rparr>"

definition packetbuf_clear :: "packetbuf \<Rightarrow> packetbuf" where
  "packetbuf_clear pb = packetbuf_attr_clear (pb\<lparr>buflen := 0, bufptr := 0, pb_hdrlen := 0\<rparr>)"

definition packetbuf_hdrlen :: "packetbuf \<Rightarrow> nat" where
  "packetbuf_hdrlen pb = (bufptr pb + pb_hdrlen pb) mod 2 ^ 8"

definition packetbuf_datalen :: "packetbuf \<Rightarrow> nat" where
  "packetbuf_datalen pb = buflen pb"

definition packetbuf_totlen :: "packetbuf \<Rightarrow> nat" where
  "packetbuf_totlen pb = (packetbuf_hdrlen pb + packetbuf_datalen pb) mod 2 ^ 16"

definition packetbuf_remaininglen :: "packetbuf \<Rightarrow> nat" where
  "packetbuf_remaininglen pb = nat ((int PACKETBUF_SIZE - int (packetbuf_totlen pb)) mod 2 ^ 16)"

text \<open>Pointers into the buffer are the bytes from there on.\<close>

definition packetbuf_dataptr :: "packetbuf \<Rightarrow> octet list" where
  "packetbuf_dataptr pb = drop (packetbuf_hdrlen pb) (pb_bytes pb)"

definition packetbuf_hdrptr :: "packetbuf \<Rightarrow> octet list" where
  "packetbuf_hdrptr pb = pb_bytes pb"

definition packetbuf_copyfrom :: "octet list \<Rightarrow> nat \<Rightarrow> packetbuf \<Rightarrow> nat \<times> packetbuf" where
  "packetbuf_copyfrom from len pb =
     (let pb1 = packetbuf_clear pb; l = min PACKETBUF_SIZE len
      in (l, pb1\<lparr>pb_bytes := take l from @ drop l (pb_bytes pb1), buflen := l\<rparr>))"

definition packetbuf_copyto :: "octet list \<Rightarrow> packetbuf \<Rightarrow> nat \<times> octet list" where
  "packetbuf_copyto to pb =
     (if pb_hdrlen pb + buflen pb > PACKETBUF_SIZE then (0, to)
      else (pb_hdrlen pb + buflen pb,
            take (pb_hdrlen pb) (packetbuf_hdrptr pb) @ take (buflen pb) (packetbuf_dataptr pb) @ drop (pb_hdrlen pb + buflen pb) to))"

text \<open>The loop that moves the bytes to the right: \<open>i\<close> bytes are left to move.\<close>

fun shift_loop :: "nat \<Rightarrow> nat \<Rightarrow> octet list \<Rightarrow> octet list" where
  "shift_loop 0 sz bs = bs"
| "shift_loop (Suc i) sz bs = shift_loop i sz (bs[i + sz := bs ! i])"

definition packetbuf_hdralloc :: "nat \<Rightarrow> packetbuf \<Rightarrow> bool \<times> packetbuf" where
  "packetbuf_hdralloc sz pb =
     (if sz + packetbuf_totlen pb > PACKETBUF_SIZE then (False, pb)
      else (True, pb\<lparr>pb_bytes := shift_loop (packetbuf_totlen pb) sz (pb_bytes pb), pb_hdrlen := (pb_hdrlen pb + sz) mod 2 ^ 8\<rparr>))"

definition packetbuf_hdrreduce :: "nat \<Rightarrow> packetbuf \<Rightarrow> bool \<times> packetbuf" where
  "packetbuf_hdrreduce sz pb =
     (if buflen pb < sz then (False, pb)
      else (True, pb\<lparr>bufptr := (bufptr pb + sz) mod 2 ^ 16, buflen := buflen pb - sz\<rparr>))"

definition packetbuf_set_datalen :: "nat \<Rightarrow> packetbuf \<Rightarrow> packetbuf" where
  "packetbuf_set_datalen len pb = pb\<lparr>buflen := len\<rparr>"

definition packetbuf_set_attr :: "packetbuf_attr_type \<Rightarrow> 16 word \<Rightarrow> packetbuf \<Rightarrow> packetbuf" where
  "packetbuf_set_attr t val pb = pb\<lparr>packetbuf_attrs := (packetbuf_attrs pb)(t := val)\<rparr>"

definition packetbuf_attr :: "packetbuf \<Rightarrow> packetbuf_attr_type \<Rightarrow> 16 word" where
  "packetbuf_attr pb t = packetbuf_attrs pb t"

definition packetbuf_set_addr :: "packetbuf_addr_type \<Rightarrow> octet list \<Rightarrow> packetbuf \<Rightarrow> packetbuf" where
  "packetbuf_set_addr t addr pb = pb\<lparr>packetbuf_addrs := (packetbuf_addrs pb)(t := linkaddr_copy (packetbuf_addrs pb t) addr)\<rparr>"

definition packetbuf_addr :: "packetbuf \<Rightarrow> packetbuf_addr_type \<Rightarrow> octet list" where
  "packetbuf_addr pb t = packetbuf_addrs pb t"

definition packetbuf_holds_broadcast :: "packetbuf \<Rightarrow> bool" where
  "packetbuf_holds_broadcast pb = linkaddr_cmp (packetbuf_addrs pb PACKETBUF_ADDR_RECEIVER) linkaddr_null"

definition packetbuf_attr_copyto :: "packetbuf \<Rightarrow> (packetbuf_attr_type \<Rightarrow> 16 word) \<times> (packetbuf_addr_type \<Rightarrow> octet list)" where
  "packetbuf_attr_copyto pb = (packetbuf_attrs pb, packetbuf_addrs pb)"

definition packetbuf_attr_copyfrom ::
    "(packetbuf_attr_type \<Rightarrow> 16 word) \<Rightarrow> (packetbuf_addr_type \<Rightarrow> octet list) \<Rightarrow> packetbuf \<Rightarrow> packetbuf" where
  "packetbuf_attr_copyfrom attrs addrs pb = pb\<lparr>packetbuf_attrs := attrs, packetbuf_addrs := addrs\<rparr>"

section \<open>The invariant, and what the operations do to header and data\<close>

definition pb_ok :: "packetbuf \<Rightarrow> bool" where
  "pb_ok pb \<longleftrightarrow> length (pb_bytes pb) = PACKETBUF_SIZE \<and> bufptr pb + pb_hdrlen pb + buflen pb \<le> PACKETBUF_SIZE \<and>
     (\<forall>i. length (packetbuf_addrs pb i) = LINKADDR_SIZE)"

definition pb_data :: "packetbuf \<Rightarrow> octet list" where
  "pb_data pb = take (buflen pb) (packetbuf_dataptr pb)"

lemma pb_lengths:
  assumes "pb_ok pb"
  shows "packetbuf_hdrlen pb = bufptr pb + pb_hdrlen pb" "packetbuf_totlen pb = bufptr pb + pb_hdrlen pb + buflen pb"
proof -
  have le: "bufptr pb + pb_hdrlen pb + buflen pb \<le> 128" using assms by (simp add: pb_ok_def PACKETBUF_SIZE_def)
  then show "packetbuf_hdrlen pb = bufptr pb + pb_hdrlen pb" by (simp add: packetbuf_hdrlen_def)
  then show "packetbuf_totlen pb = bufptr pb + pb_hdrlen pb + buflen pb" using le by (simp add: packetbuf_totlen_def packetbuf_datalen_def)
qed

lemma shift_loop_spec:
  assumes "i + sz \<le> length bs"
  shows "length (shift_loop i sz bs) = length bs" "j < length bs \<Longrightarrow> shift_loop i sz bs ! j = (if sz \<le> j \<and> j < i + sz then bs ! (j - sz) else bs ! j)"
proof -
  show "length (shift_loop i sz bs) = length bs" by (induction i sz bs rule: shift_loop.induct) simp_all
  show "shift_loop i sz bs ! j = (if sz \<le> j \<and> j < i + sz then bs ! (j - sz) else bs ! j)" if "j < length bs"
    using assms that
  proof (induction i sz bs rule: shift_loop.induct)
    case (2 i sz bs)
    then show ?case by (cases "sz = 0") (auto simp: nth_list_update)
  qed auto
qed

lemma drop_shift_loop:
  assumes "i + sz \<le> length bs"
  shows "take i (drop sz (shift_loop i sz bs)) = take i bs"
proof (rule nth_equalityI)
  show "length (take i (drop sz (shift_loop i sz bs))) = length (take i bs)" using assms shift_loop_spec(1) [OF assms] by simp
  fix j assume "j < length (take i (drop sz (shift_loop i sz bs)))"
  then have "j < i" "sz + j < length bs" using shift_loop_spec(1) [OF assms] by auto
  then show "take i (drop sz (shift_loop i sz bs)) ! j = take i bs ! j"
    using shift_loop_spec [OF assms] by simp
qed

lemma hdralloc_ok:
  assumes "pb_ok pb" "packetbuf_hdralloc sz pb = (ok, pb')"
  shows "pb_ok pb'" "ok \<longleftrightarrow> sz + bufptr pb + pb_hdrlen pb + buflen pb \<le> PACKETBUF_SIZE" "pb_data pb' = pb_data pb" "buflen pb' = buflen pb"
    "bufptr pb' = bufptr pb" "packetbuf_attrs pb' = packetbuf_attrs pb" "packetbuf_addrs pb' = packetbuf_addrs pb" "\<not> ok \<Longrightarrow> pb' = pb"
    "ok \<Longrightarrow> pb_hdrlen pb' = pb_hdrlen pb + sz"
proof -
  note l = pb_lengths [OF assms(1)]
  let ?n = "bufptr pb + pb_hdrlen pb + buflen pb"
  have len: "length (pb_bytes pb) = 128" "?n \<le> 128" using assms(1) by (simp_all add: pb_ok_def PACKETBUF_SIZE_def)
  show ok: "ok \<longleftrightarrow> sz + bufptr pb + pb_hdrlen pb + buflen pb \<le> PACKETBUF_SIZE"
    using assms(2) l(2) by (auto simp: packetbuf_hdralloc_def split: if_splits)
  show nok: "\<not> ok \<Longrightarrow> pb' = pb" using assms(2) by (auto simp: packetbuf_hdralloc_def split: if_splits)
  have pb': "pb' = pb\<lparr>pb_bytes := shift_loop ?n sz (pb_bytes pb), pb_hdrlen := pb_hdrlen pb + sz\<rparr>" if ok
    using assms(2) l(2) len(2) ok that by (auto simp: packetbuf_hdralloc_def PACKETBUF_SIZE_def split: if_splits)
  show "ok \<Longrightarrow> pb_hdrlen pb' = pb_hdrlen pb + sz" using pb' by simp
  show "buflen pb' = buflen pb" "bufptr pb' = bufptr pb" "packetbuf_attrs pb' = packetbuf_attrs pb" "packetbuf_addrs pb' = packetbuf_addrs pb"
    using pb' nok by (cases ok; simp)+
  show ok': "pb_ok pb'"
  proof (cases ok)
    case True
    then have "?n + sz \<le> length (pb_bytes pb)" using ok len by (simp add: PACKETBUF_SIZE_def)
    then show ?thesis using pb' [OF True] True ok assms(1) shift_loop_spec(1) by (simp add: pb_ok_def PACKETBUF_SIZE_def)
  qed (use nok assms(1) in simp)
  show "pb_data pb' = pb_data pb"
  proof (cases ok)
    case True
    then have le: "?n + sz \<le> length (pb_bytes pb)" using ok len by (simp add: PACKETBUF_SIZE_def)
    let ?h = "bufptr pb + pb_hdrlen pb"
    have "pb_data pb' = take (buflen pb) (drop (?h + sz) (shift_loop ?n sz (pb_bytes pb)))"
      using pb_lengths(1) [OF ok'] by (simp add: pb_data_def packetbuf_dataptr_def pb' [OF True] add.assoc)
    also have "\<dots> = drop ?h (take ?n (drop sz (shift_loop ?n sz (pb_bytes pb))))" by (simp add: drop_take add.commute)
    also have "\<dots> = pb_data pb" unfolding drop_shift_loop [OF le] using l(1) by (simp add: pb_data_def packetbuf_dataptr_def drop_take)
    finally show ?thesis .
  qed (use nok in simp)
qed

lemma hdrreduce_ok:
  assumes "pb_ok pb" "packetbuf_hdrreduce sz pb = (ok, pb')"
  shows "pb_ok pb'" "ok \<longleftrightarrow> sz \<le> buflen pb" "ok \<Longrightarrow> pb_data pb' = drop sz (pb_data pb)" "\<not> ok \<Longrightarrow> pb' = pb"
    "packetbuf_attrs pb' = packetbuf_attrs pb" "packetbuf_addrs pb' = packetbuf_addrs pb"
proof -
  have le: "bufptr pb + pb_hdrlen pb + buflen pb \<le> 128" using assms(1) by (simp add: pb_ok_def PACKETBUF_SIZE_def)
  show ok: "ok \<longleftrightarrow> sz \<le> buflen pb" and nok: "\<not> ok \<Longrightarrow> pb' = pb"
    and "packetbuf_attrs pb' = packetbuf_attrs pb" "packetbuf_addrs pb' = packetbuf_addrs pb"
    using assms(2) by (auto simp: packetbuf_hdrreduce_def split: if_splits)
  have pb': "pb' = pb\<lparr>bufptr := bufptr pb + sz, buflen := buflen pb - sz\<rparr>" if ok
    using assms(2) le ok that by (auto simp: packetbuf_hdrreduce_def split: if_splits)
  show ok': "pb_ok pb'" using assms(1) pb' ok nok by (cases ok) (auto simp: pb_ok_def)
  show "pb_data pb' = drop sz (pb_data pb)" if ok
    using pb_lengths(1) [OF ok'] pb_lengths(1) [OF assms(1)] pb' [OF that]
    by (simp add: pb_data_def packetbuf_dataptr_def drop_take add.commute add.left_commute)
qed

lemma copyfrom_ok:
  assumes "length (pb_bytes pb) = PACKETBUF_SIZE" "\<forall>i. length (packetbuf_addrs pb i) = LINKADDR_SIZE" "len \<le> length from"
    "packetbuf_copyfrom from len pb = (l, pb')"
  shows "pb_ok pb'" "l = min PACKETBUF_SIZE len" "pb_data pb' = take l from" "bufptr pb' = 0" "pb_hdrlen pb' = 0" "buflen pb' = l"
    "packetbuf_attrs pb' = (\<lambda>_. 0)" "packetbuf_addrs pb' i = linkaddr_null"
  using assms by (auto simp: packetbuf_copyfrom_def packetbuf_clear_def packetbuf_attr_clear_def pb_ok_def pb_data_def packetbuf_dataptr_def
      packetbuf_hdrlen_def linkaddr_copy_def linkaddr_null_def Let_def min_def)

end
