(* ===== verification/Contiki_Frame802154_Props.thy ===== *)
theory Contiki_Frame802154_Props
  imports Contiki_Frame802154
begin

unbundle bit_operations_syntax

text \<open>
  The header of an 802.15.4 frame: what the writer writes, that it keeps within the length it
  announces, and that the reader gets the frame back.
\<close>

section \<open>Writing\<close>

text \<open>\<open>emits f bs\<close>: the writer \<open>f\<close> writes the bytes \<open>bs\<close> and nothing else, where there is room.\<close>

definition emits :: "(nat \<times> octet list \<Rightarrow> (nat \<times> octet list) option) \<Rightarrow> octet list \<Rightarrow> bool" where
  "emits f bs \<longleftrightarrow> (\<forall>w r. length bs \<le> length r \<longrightarrow>
     f (length w, w @ r) = Some (length w + length bs, w @ bs @ drop (length bs) r))"

lemma emits_Some: "emits Some []"
  by (simp add: emits_def)

lemma emits_start: "emits f bs \<Longrightarrow> length bs \<le> length buf \<Longrightarrow> f (0, buf) = Some (length bs, bs @ drop (length bs) buf)"
  unfolding emits_def by (metis add_0 append_Nil list.size(3))

lemma emits_bind:
  assumes "emits f as" "emits g bs"
  shows "emits (\<lambda>st. Option.bind (f st) g) (as @ bs)"
  unfolding emits_def
proof (intro allI impI)
  fix w r :: "octet list"
  assume len: "length (as @ bs) \<le> length r"
  then have f: "f (length w, w @ r) = Some (length w + length as, w @ as @ drop (length as) r)"
    using assms(1) by (simp add: emits_def)
  have "g (length (w @ as), (w @ as) @ drop (length as) r) =
      Some (length (w @ as) + length bs, (w @ as) @ bs @ drop (length bs) (drop (length as) r))"
    using assms(2) [unfolded emits_def, rule_format, of "drop (length as) r" "w @ as"] len by simp
  then show "Option.bind (f (length w, w @ r)) g = Some (length w + length (as @ bs), w @ (as @ bs) @ drop (length (as @ bs)) r)"
    using f by (simp add: add.commute add.left_commute)
qed

lemma emits_put: "emits (put b) [b]"
proof -
  have "(w @ r)[length w := b] = w @ b # drop (Suc 0) r" if "Suc 0 \<le> length r" for w r
    using that by (cases r) simp_all
  then show ?thesis by (auto simp: emits_def put_def)
qed

lemma emits_put_all: "emits (put_all bs) bs"
proof (induction bs)
  case Nil
  then show ?case by (simp add: emits_def)
next
  case (Cons b bs)
  have "put_all (b # bs) = (\<lambda>st. Option.bind (put b st) (put_all bs))" by (simp add: fun_eq_iff)
  with emits_bind [OF emits_put Cons, of b] show ?case by simp
qed

lemma put_addr_all: "n \<le> length addr \<Longrightarrow> put_addr n addr st = put_all (rev (take n addr)) st"
proof (induction n arbitrary: st)
  case (Suc n)
  then have "put_addr n addr = put_all (rev (take n addr))" by (simp add: fun_eq_iff)
  with Suc.prems show ?case by (simp add: take_Suc_conv_app_nth)
qed simp

lemma emits_put_addr: "n \<le> length addr \<Longrightarrow> emits (put_addr n addr) (rev (take n addr))"
  using emits_put_all [of "rev (take n addr)"] by (simp add: emits_def put_addr_all)

lemma emits_put_copy: "n \<le> length src \<Longrightarrow> emits (put_copy n src) (take n src)"
  using emits_put_all [of "take n src"] by (simp add: emits_def put_copy_def)

lemma emits_if: "emits f as \<Longrightarrow> emits g bs \<Longrightarrow> emits (\<lambda>st. if P then f st else g st) (if P then as else bs)"
  by (cases P) (simp_all add: emits_def)

section \<open>The bytes of a header\<close>

definition frame_ok :: "frame802154_t \<Rightarrow> bool" where
  "frame_ok p \<longleftrightarrow> length (dest_addr p) = 8 \<and> length (src_addr p) = 8 \<and>
     length (frame_counter (aux_hdr p)) = 4 \<and> length (key_source (aux_hdr p)) = 8 \<and> key_id_mode (security_control (aux_hdr p)) < 4"

definition dest_bytes :: "frame802154_t \<Rightarrow> octet list" where
  "dest_bytes p = (if snd (frame802154_has_panid (fcf p)) then low_high (dest_pid p) else []) @
     rev (take (addr_len (dest_addr_mode (fcf p) AND 3)) (dest_addr p))"

definition src_bytes :: "frame802154_t \<Rightarrow> octet list" where
  "src_bytes p = (if fst (frame802154_has_panid (fcf p)) then low_high (src_pid p) else []) @
     rev (take (addr_len (src_addr_mode (fcf p) AND 3)) (src_addr p))"

definition control_byte :: "llsec_cfg \<Rightarrow> frame802154_scf_t \<Rightarrow> octet" where
  "control_byte cfg sc = security_level sc OR (if USES_EXPLICIT_KEYS cfg then push_bit 3 (key_id_mode sc) else 0) OR
     push_bit 5 (frame_counter_suppression sc) OR push_bit 6 (frame_counter_size sc)"

definition key_bytes :: "llsec_cfg \<Rightarrow> frame802154_aux_hdr_t \<Rightarrow> octet list" where
  "key_bytes cfg aux =
     (let mode = key_id_mode (security_control aux)
      in if USES_EXPLICIT_KEYS cfg \<and> mode \<noteq> 0 then take ((unat mode - 1) * 4) (key_source aux) @ [key_index aux] else [])"

definition aux_bytes :: "llsec_cfg \<Rightarrow> frame802154_t \<Rightarrow> octet list" where
  "aux_bytes cfg p =
     (if USES_AUX_HEADER cfg \<and> security_enabled (fcf p) AND 1 \<noteq> 0 then
        control_byte cfg (security_control (aux_hdr p)) #
        (if frame_counter_suppression (security_control (aux_hdr p)) = 0 then frame_counter (aux_hdr p) else []) @
        key_bytes cfg (aux_hdr p)
      else [])"

definition header_bytes :: "llsec_cfg \<Rightarrow> frame802154_t \<Rightarrow> octet list" where
  "header_bytes cfg p = frame802154_create_fcf (fcf p) @ (if sequence_number_suppression (fcf p) AND 1 = 0 then [seqno p] else []) @
     dest_bytes p @ src_bytes p @ aux_bytes cfg p"

text \<open>Frames whose counter is not five bytes long: the writer skips the fifth byte.\<close>

definition no_long_counter :: "frame802154_t \<Rightarrow> bool" where
  "no_long_counter p \<longleftrightarrow> frame_counter_suppression (security_control (aux_hdr p)) \<noteq> 0 \<or> frame_counter_size (security_control (aux_hdr p)) \<noteq> 1"

lemma mode_cases:
  fixes mode :: octet
  assumes "mode < 4"
  shows "mode = 0 \<or> mode = 1 \<or> mode = 2 \<or> mode = 3"
proof -
  have "unat mode < 4" using assms by (simp add: word_less_nat_alt)
  then have "unat mode = 0 \<or> unat mode = 1 \<or> unat mode = 2 \<or> unat mode = 3" by linarith
  then show ?thesis by (simp add: word_unat_eq_iff)
qed

lemma emits_aux:
  assumes "frame_ok p" "no_long_counter p" "USES_AUX_HEADER cfg" "security_enabled (fcf p) AND 1 \<noteq> 0"
  shows "emits (create_aux cfg p) (aux_bytes cfg p)"
proof -
  let ?sc = "security_control (aux_hdr p)" and ?aux = "aux_hdr p"
  have cnt: "emits (\<lambda>st. if frame_counter_suppression ?sc = 0 then
        Option.bind (put_copy 4 (frame_counter ?aux) st) (\<lambda>(pos, buf). Some (if frame_counter_size ?sc = 1 then pos + 1 else pos, buf))
      else Some st) (if frame_counter_suppression ?sc = 0 then frame_counter ?aux else [])"
    using assms(1,2) emits_put_copy [of 4 "frame_counter ?aux"] emits_Some
    by (auto simp: no_long_counter_def frame_ok_def emits_def)
  have "(unat (key_id_mode ?sc) - 1) * 4 \<le> 8"
    using assms(1) by (auto simp: frame_ok_def word_less_nat_alt)
  then have "emits (put_copy ((unat (key_id_mode ?sc) - 1) * 4) (key_source ?aux)) (take ((unat (key_id_mode ?sc) - 1) * 4) (key_source ?aux))"
    using assms(1) by (intro emits_put_copy) (simp add: frame_ok_def)
  from emits_if [OF emits_bind [OF this emits_put] emits_Some, of "USES_EXPLICIT_KEYS cfg \<and> key_id_mode ?sc \<noteq> 0" "key_index ?aux"]
  have keys: "emits (\<lambda>st. if USES_EXPLICIT_KEYS cfg \<and> key_id_mode ?sc \<noteq> 0 then
      Option.bind (put_copy ((unat (key_id_mode ?sc) - 1) * 4) (key_source ?aux) st) (put (key_index ?aux)) else Some st) (key_bytes cfg ?aux)"
    by (simp only: key_bytes_def Let_def)
  from emits_bind [OF emits_put emits_bind [OF cnt keys], of "control_byte cfg ?sc"]
  show ?thesis using assms(3,4) by (simp add: create_aux_def [abs_def] aux_bytes_def control_byte_def Let_def)
qed

lemma emits_pid: "emits (\<lambda>st. if (if P then 2 else 0 :: nat) = 2 then put_all bs st else Some st) (if P then bs else [])"
  using emits_put_all emits_Some by (cases P) simp_all

lemma frame802154_create_eq:
  assumes "frame_ok p0" "no_long_counter p0" "length (header_bytes cfg (set_compression p0)) \<le> length buf"
  defines "p \<equiv> set_compression p0"
  shows "frame802154_create cfg p0 buf =
    Some (length (header_bytes cfg p), p, header_bytes cfg p @ drop (length (header_bytes cfg p)) buf)"
proof -
  have same: "dest_addr p = dest_addr p0" "src_addr p = src_addr p0" "aux_hdr p = aux_hdr p0" by (simp_all add: p_def set_compression_def)
  have ok: "frame_ok p" "no_long_counter p" using assms(1,2) by (simp_all add: frame_ok_def no_long_counter_def same)
  obtain hs hd where pan: "frame802154_has_panid (fcf p) = (hs, hd)" by (cases "frame802154_has_panid (fcf p)")
  have al: "addr_len m \<le> 8" for m by (simp add: addr_len_def)
  have d: "emits (put_addr (addr_len m) (dest_addr p)) (rev (take (addr_len m) (dest_addr p)))"
    "emits (put_addr (addr_len m) (src_addr p)) (rev (take (addr_len m) (src_addr p)))" for m
    using ok(1) al by (auto intro!: emits_put_addr simp: frame_ok_def)
  define l where "l = snd (field_len cfg p0)"
  have l: "field_len cfg p0 = (p, l)" "seqno_len l = (if sequence_number_suppression (fcf p) AND 1 = 0 then 1 else 0)"
    "dest_pid_len l = (if hd then 2 else 0)" "dest_addr_len l = addr_len (dest_addr_mode (fcf p) AND 3)" "src_pid_len l = (if hs then 2 else 0)"
    "src_addr_len l = addr_len (src_addr_mode (fcf p) AND 3)" "aux_sec_len l = aux_len cfg p"
    using pan by (simp_all add: l_def field_len_def Let_def p_def)
  have s: "emits (\<lambda>st. if seqno_len l = 1 then put (seqno p) st else Some st) (if sequence_number_suppression (fcf p) AND 1 = 0 then [seqno p] else [])"
    using emits_put emits_Some by (simp add: l)
  have ax: "emits (\<lambda>st. if USES_AUX_HEADER cfg \<and> aux_sec_len l \<noteq> 0 then create_aux cfg p st else Some st) (aux_bytes cfg p)"
  proof (cases "USES_AUX_HEADER cfg \<and> security_enabled (fcf p) AND 1 \<noteq> 0")
    case True
    then show ?thesis using emits_aux [OF ok] by (simp add: l aux_len_def)
  next
    case False
    then show ?thesis using emits_Some by (auto simp: l aux_len_def aux_bytes_def)
  qed
  have "emits (\<lambda>st. Option.bind (put_all (frame802154_create_fcf (fcf p)) st) (\<lambda>st.
      Option.bind (if seqno_len l = 1 then put (seqno p) st else Some st) (\<lambda>st.
      Option.bind (if dest_pid_len l = 2 then put_all (low_high (dest_pid p)) st else Some st) (\<lambda>st.
      Option.bind (put_addr (dest_addr_len l) (dest_addr p) st) (\<lambda>st.
      Option.bind (if src_pid_len l = 2 then put_all (low_high (src_pid p)) st else Some st) (\<lambda>st.
      Option.bind (put_addr (src_addr_len l) (src_addr p) st) (\<lambda>st.
      if USES_AUX_HEADER cfg \<and> aux_sec_len l \<noteq> 0 then create_aux cfg p st else Some st))))))) (header_bytes cfg p)"
    (is "emits ?w _")
    using emits_bind [OF emits_put_all emits_bind [OF s emits_bind [OF emits_pid emits_bind [OF d(1) emits_bind [OF emits_pid
        emits_bind [OF d(2) ax]]]]], of "frame802154_create_fcf (fcf p)" hd "low_high (dest_pid p)" "dest_addr_mode (fcf p) AND 3"
        hs "low_high (src_pid p)" "src_addr_mode (fcf p) AND 3"]
    by (simp add: header_bytes_def dest_bytes_def src_bytes_def pan l(3-6))
  from emits_start [OF this] assms(3)
  have w: "?w (0, buf) = Some (length (header_bytes cfg p), header_bytes cfg p @ drop (length (header_bytes cfg p)) buf)"
    unfolding p_def by blast
  have "frame802154_create cfg p0 buf = Option.bind (?w (0, buf)) (\<lambda>(pos, buf1). Some (pos, p, buf1))"
    unfolding frame802154_create_def l(1) prod.case by (simp add: Let_def Option.bind_assoc)
  then show ?thesis unfolding w by simp
qed

section \<open>The announced length\<close>

lemma length_aux_bytes:
  assumes "frame_ok p" "no_long_counter p"
  shows "length (aux_bytes cfg p) = aux_len cfg p"
proof -
  have "key_id_mode (security_control (aux_hdr p)) < 4" using assms(1) by (simp add: frame_ok_def)
  from mode_cases [OF this] assms show ?thesis
    by (elim disjE) (simp_all add: aux_bytes_def aux_len_def key_bytes_def frame_ok_def no_long_counter_def get_key_id_len_def)
qed

lemma length_header_bytes:
  assumes "frame_ok p0" "no_long_counter p0"
  shows "frame802154_hdrlen cfg p0 = (length (header_bytes cfg (set_compression p0)), set_compression p0)"
    "length (header_bytes cfg (set_compression p0)) \<le> 37"
proof -
  let ?p = "set_compression p0"
  have same: "dest_addr ?p = dest_addr p0" "src_addr ?p = src_addr p0" "aux_hdr ?p = aux_hdr p0" by (simp_all add: set_compression_def)
  have ok: "frame_ok ?p" "no_long_counter ?p" using assms by (simp_all add: frame_ok_def no_long_counter_def same)
  obtain hs hd where pan: "frame802154_has_panid (fcf ?p) = (hs, hd)" by (cases "frame802154_has_panid (fcf ?p)")
  have al: "addr_len m \<le> 8" for m by (simp add: addr_len_def)
  have aux: "aux_len cfg ?p \<le> 14" using ok(2) by (simp add: aux_len_def get_key_id_len_def no_long_counter_def)
  have len: "length (dest_addr ?p) = 8" "length (src_addr ?p) = 8" using ok(1) by (simp_all add: frame_ok_def)
  have eq: "length (header_bytes cfg ?p) = 2 + (if sequence_number_suppression (fcf ?p) AND 1 = 0 then 1 else 0) + (if hd then 2 else 0) +
      addr_len (dest_addr_mode (fcf ?p) AND 3) + (if hs then 2 else 0) + addr_len (src_addr_mode (fcf ?p) AND 3) + aux_len cfg ?p"
    using pan al len by (simp add: header_bytes_def frame802154_create_fcf_def dest_bytes_def src_bytes_def low_high_def
        length_aux_bytes [OF ok] min_absorb2)
  then show "frame802154_hdrlen cfg p0 = (length (header_bytes cfg ?p), ?p)"
    using pan by (simp add: frame802154_hdrlen_def field_len_def Let_def)
  show "length (header_bytes cfg ?p) \<le> 37" unfolding eq using al [of "dest_addr_mode (fcf ?p) AND 3"] al [of "src_addr_mode (fcf ?p) AND 3"] aux by simp
qed

section \<open>Reading what was written\<close>

lemma get_append: "i < length bs \<Longrightarrow> get (w @ bs @ r) (length w + i) = Some (bs ! i)"
  by (simp add: get_def nth_append)

lemma pid_bytes: "ucast (ucast (x AND 0xff) :: octet) + push_bit 8 (ucast (ucast (drop_bit 8 x AND 0xff) :: octet)) = (x :: 16 word)"
proof -
  have m: "(0xff :: 16 word) = mask 8" by (simp add: mask_eq_exp_minus_1)
  have "ucast (ucast (x AND 0xff) :: octet) = x AND mask 8"
    unfolding m by (rule bit_word_eqI) (auto simp: bit_simps)
  moreover have "push_bit 8 (ucast (ucast (drop_bit 8 x AND 0xff) :: octet)) = x AND NOT (mask 8)"
    unfolding m by (rule bit_word_eqI) (auto simp: bit_simps)
  moreover have "(x AND mask 8) + (x AND NOT (mask 8)) = x"
  proof -
    have "(x AND mask 8) AND (x AND NOT (mask 8)) = 0" "(x AND mask 8) OR (x AND NOT (mask 8)) = x"
      by (rule bit_word_eqI; auto simp: bit_simps)+
    then show ?thesis using word_plus_and_or [of "x AND mask 8" "x AND NOT (mask 8)"] by simp
  qed
  ultimately show ?thesis by simp
qed

lemma get_pid_written: "get_pid (w @ low_high x @ r) (length w) = Some x"
  using get_append [of 0 "low_high x" w r] get_append [of 1 "low_high x" w r] pid_bytes [of x]
  by (simp add: get_pid_def low_high_def)

definition on_air :: "octet \<Rightarrow> octet list \<Rightarrow> octet list" where
  "on_air mode addr = (if mode = FRAME802154_SHORTADDRMODE then take 2 addr @ replicate 6 0
     else if mode = FRAME802154_LONGADDRMODE then addr else replicate 8 0)"

lemma length8: "length addr = 8 \<Longrightarrow> \<exists>a b c d e f g h. addr = [a, b, c, d, e, f, g, h]"
  by (auto simp: length_Suc_conv eval_nat_numeral)

lemma get_addr_written:
  assumes "length addr = 8" "length old = 8" "mode = 2 \<or> mode = 3"
  shows "get_addr mode (w @ rev (take (addr_len mode) addr) @ r) (length w) old = Some (on_air mode addr, length w + addr_len mode)"
proof -
  obtain a b c d e f g h where addr: "addr = [a, b, c, d, e, f, g, h]" using length8 [OF assms(1)] by blast
  obtain a' b' c' d' e' f' g' h' where old: "old = [a', b', c', d', e', f', g', h']" using length8 [OF assms(2)] by blast
  note g = get_append [of _ "[h, g, f, e, d, c, b, a]" w r] get_append [of _ "[b, a]" w r]
  from assms(3) show ?thesis
  proof
    assume "mode = 2"
    then show ?thesis using g(2) [of 0] g(2) [of 1]
      by (simp add: get_addr_def addr_len_def addr on_air_def linkaddr_copy_def linkaddr_null_def LINKADDR_SIZE_def old eval_nat_numeral)
  next
    assume "mode = 3"
    then show ?thesis using g(1) [of 0] g(1) [of 1] g(1) [of 2] g(1) [of 3] g(1) [of 4] g(1) [of 5] g(1) [of 6] g(1) [of 7]
      by (simp add: get_addr_def addr_len_def addr on_air_def old eval_nat_numeral)
  qed
qed

section \<open>The frame control field\<close>

definition fcf_mask :: "frame802154_fcf_t \<Rightarrow> frame802154_fcf_t" where
  "fcf_mask f = \<lparr>frame_type = frame_type f AND 7, security_enabled = security_enabled f AND 1, frame_pending = frame_pending f AND 1,
     ack_required = ack_required f AND 1, panid_compression = panid_compression f AND 1,
     sequence_number_suppression = sequence_number_suppression f AND 1, ie_list_present = ie_list_present f AND 1,
     dest_addr_mode = dest_addr_mode f AND 3, frame_version = frame_version f AND 3, src_addr_mode = src_addr_mode f AND 3\<rparr>"

text \<open>\<open>fld j k x\<close>: the \<open>k\<close> bits of \<open>x\<close> from bit \<open>j\<close> on.\<close>

definition fld :: "nat \<Rightarrow> nat \<Rightarrow> octet \<Rightarrow> octet" where
  "fld j k x = take_bit k (drop_bit j x)"

lemma fld_or: "fld j k (a OR b) = fld j k a OR fld j k b"
  by (simp add: fld_def)

lemma fld_below: "i + m \<le> j \<Longrightarrow> fld j k (push_bit i (take_bit m a)) = 0"
  by (rule bit_word_eqI) (auto simp: fld_def bit_simps)

lemma fld_above: "j + k \<le> i \<Longrightarrow> fld j k (push_bit i a) = 0"
  by (rule bit_word_eqI) (auto simp: fld_def bit_simps)

lemma fld_same: "i + k \<le> 8 \<Longrightarrow> fld i k (push_bit i (take_bit k a)) = take_bit k a"
  by (rule bit_word_eqI) (auto simp: fld_def bit_simps)

lemma octet_take: "a AND 7 = take_bit 3 a" "a AND 3 = take_bit 2 a" "a AND 1 = take_bit 1 a" for a :: octet
  by (simp_all add: take_bit_eq_mask mask_eq_exp_minus_1)

lemma take_fld: "take_bit k (drop_bit j x) = fld j k x" "take_bit k x = fld 0 k x" for x :: octet
  by (simp_all add: fld_def)

lemma field_bits:
  fixes a b c d e :: octet
  defines "x \<equiv> a AND 7 OR push_bit 3 (b AND 1) OR push_bit 4 (c AND 1) OR push_bit 5 (d AND 1) OR push_bit 6 (e AND 1)"
  shows "x AND 7 = a AND 7" "drop_bit 3 x AND 1 = b AND 1" "drop_bit 4 x AND 1 = c AND 1" "drop_bit 5 x AND 1 = d AND 1" "drop_bit 6 x AND 1 = e AND 1"
proof -
  have x: "x = push_bit 0 (take_bit 3 a) OR push_bit 3 (take_bit 1 b) OR push_bit 4 (take_bit 1 c) OR push_bit 5 (take_bit 1 d) OR push_bit 6 (take_bit 1 e)"
    by (simp only: x_def octet_take push_bit_0_id id_apply)
  have "fld 0 3 x = take_bit 3 a" "fld 3 1 x = take_bit 1 b" "fld 4 1 x = take_bit 1 c" "fld 5 1 x = take_bit 1 d" "fld 6 1 x = take_bit 1 e"
    unfolding x fld_or by (simp_all add: fld_below fld_above fld_same del: push_bit_0_id push_bit_take_bit push_bit_Suc One_nat_def)
  then show "x AND 7 = a AND 7" "drop_bit 3 x AND 1 = b AND 1" "drop_bit 4 x AND 1 = c AND 1" "drop_bit 5 x AND 1 = d AND 1" "drop_bit 6 x AND 1 = e AND 1"
    by (simp_all only: octet_take fld_def drop_bit_0 id_apply)
qed

lemma field_bits2:
  fixes a b c d e :: octet
  defines "x \<equiv> a AND 1 OR push_bit 1 (b AND 1) OR push_bit 2 (c AND 3) OR push_bit 4 (d AND 3) OR push_bit 6 (e AND 3)"
  shows "x AND 1 = a AND 1" "drop_bit 1 x AND 1 = b AND 1" "drop_bit 2 x AND 3 = c AND 3" "drop_bit 4 x AND 3 = d AND 3" "drop_bit 6 x AND 3 = e AND 3"
proof -
  have x: "x = push_bit 0 (take_bit 1 a) OR push_bit 1 (take_bit 1 b) OR push_bit 2 (take_bit 2 c) OR push_bit 4 (take_bit 2 d) OR push_bit 6 (take_bit 2 e)"
    by (simp only: x_def octet_take push_bit_0_id id_apply)
  have "fld 0 1 x = take_bit 1 a" "fld 1 1 x = take_bit 1 b" "fld 2 2 x = take_bit 2 c" "fld 4 2 x = take_bit 2 d" "fld 6 2 x = take_bit 2 e"
    unfolding x fld_or by (simp_all add: fld_below fld_above fld_same del: push_bit_0_id push_bit_take_bit push_bit_Suc One_nat_def)
  then show "x AND 1 = a AND 1" "drop_bit 1 x AND 1 = b AND 1" "drop_bit 2 x AND 3 = c AND 3" "drop_bit 4 x AND 3 = d AND 3" "drop_bit 6 x AND 3 = e AND 3"
    by (simp_all only: octet_take fld_def drop_bit_0 id_apply)
qed

lemma parse_fcf_pair:
  "frame802154_parse_fcf (a # b # r) =
    Some \<lparr>frame_type = a AND 7, security_enabled = drop_bit 3 a AND 1, frame_pending = drop_bit 4 a AND 1,
       ack_required = drop_bit 5 a AND 1, panid_compression = drop_bit 6 a AND 1,
       sequence_number_suppression = b AND 1, ie_list_present = drop_bit 1 b AND 1, dest_addr_mode = drop_bit 2 b AND 3,
       frame_version = drop_bit 4 b AND 3, src_addr_mode = drop_bit 6 b AND 3\<rparr>"
  by (simp add: frame802154_parse_fcf_def get_def)

lemma parse_fcf_written: "frame802154_parse_fcf (frame802154_create_fcf f @ r) = Some (fcf_mask f)"
  unfolding frame802154_create_fcf_def append.simps parse_fcf_pair field_bits field_bits2 fcf_mask_def ..

section \<open>Reading a whole header\<close>

text \<open>
  Frames the reader understands: the fields of the control field within their width, no reserved
  address mode, and not the one combination in which a PAN identifier stands without an address.
\<close>

definition readable :: "frame802154_t \<Rightarrow> bool" where
  "readable p \<longleftrightarrow> fcf_mask (fcf p) = fcf p \<and> dest_addr_mode (fcf p) \<noteq> 1 \<and> src_addr_mode (fcf p) \<noteq> 1 \<and>
     \<not> (frame_version (fcf p) = 2 \<and> dest_addr_mode (fcf p) = 0 \<and> src_addr_mode (fcf p) = 0 \<and> panid_compression (fcf p) = 1)"

lemma readable_modes:
  assumes "readable p"
  shows "dest_addr_mode (fcf p) AND 3 = dest_addr_mode (fcf p)" "src_addr_mode (fcf p) AND 3 = src_addr_mode (fcf p)"
    "dest_addr_mode (fcf p) = 0 \<or> dest_addr_mode (fcf p) = 2 \<or> dest_addr_mode (fcf p) = 3"
    "src_addr_mode (fcf p) = 0 \<or> src_addr_mode (fcf p) = 2 \<or> src_addr_mode (fcf p) = 3"
    "snd (frame802154_has_panid (fcf p)) \<Longrightarrow> dest_addr_mode (fcf p) \<noteq> 0" "fst (frame802154_has_panid (fcf p)) \<Longrightarrow> src_addr_mode (fcf p) \<noteq> 0"
    "sequence_number_suppression (fcf p) AND 1 = sequence_number_suppression (fcf p)" "security_enabled (fcf p) AND 1 = security_enabled (fcf p)"
proof -
  have m: "fcf_mask (fcf p) = fcf p" using assms by (simp add: readable_def)
  have "dest_addr_mode (fcf_mask (fcf p)) = dest_addr_mode (fcf p) AND 3" "src_addr_mode (fcf_mask (fcf p)) = src_addr_mode (fcf p) AND 3"
    "sequence_number_suppression (fcf_mask (fcf p)) = sequence_number_suppression (fcf p) AND 1"
    "security_enabled (fcf_mask (fcf p)) = security_enabled (fcf p) AND 1" by (simp_all add: fcf_mask_def)
  then show d: "dest_addr_mode (fcf p) AND 3 = dest_addr_mode (fcf p)" "src_addr_mode (fcf p) AND 3 = src_addr_mode (fcf p)"
    "sequence_number_suppression (fcf p) AND 1 = sequence_number_suppression (fcf p)" "security_enabled (fcf p) AND 1 = security_enabled (fcf p)"
    unfolding m by simp_all
  have lt: "x AND 3 = x \<Longrightarrow> x < 4" for x :: octet
  proof -
    assume "x AND 3 = x"
    then have "x \<le> 3" using word_and_le2 [of x 3] word_and_le1 [of x 3] by metis
    then show "x < 4" by (simp add: word_le_nat_alt word_less_nat_alt)
  qed
  show "dest_addr_mode (fcf p) = 0 \<or> dest_addr_mode (fcf p) = 2 \<or> dest_addr_mode (fcf p) = 3"
    using mode_cases [OF lt [OF d(1)]] assms by (simp add: readable_def)
  show "src_addr_mode (fcf p) = 0 \<or> src_addr_mode (fcf p) = 2 \<or> src_addr_mode (fcf p) = 3"
    using mode_cases [OF lt [OF d(2)]] assms by (simp add: readable_def)
  show "snd (frame802154_has_panid (fcf p)) \<Longrightarrow> dest_addr_mode (fcf p) \<noteq> 0" "fst (frame802154_has_panid (fcf p)) \<Longrightarrow> src_addr_mode (fcf p) \<noteq> 0"
    using assms by (auto simp: frame802154_has_panid_def Let_def readable_def split: if_splits)
qed

text \<open>The PAN identifiers the reader reports.\<close>

definition read_dest_pid :: "frame802154_t \<Rightarrow> 16 word" where
  "read_dest_pid p = (if snd (frame802154_has_panid (fcf p)) then dest_pid p else 0)"

lemma parse_dest_written:
  assumes "frame_ok p" "readable p" "fcf pf = fcf p" "length (dest_addr pf) = 8"
  shows "parse_dest (w @ dest_bytes p @ r) (length w) pf =
    Some (pf\<lparr>dest_pid := read_dest_pid p, dest_addr := on_air (dest_addr_mode (fcf p)) (dest_addr p)\<rparr>, length w + length (dest_bytes p))"
proof -
  note m = readable_modes [OF assms(2)]
  obtain hs hd where pan: "frame802154_has_panid (fcf p) = (hs, hd)" by (cases "frame802154_has_panid (fcf p)")
  have len: "length (dest_addr p) = 8" using assms(1) by (simp add: frame_ok_def)
  show ?thesis
  proof (cases "dest_addr_mode (fcf p) = 0")
    case True
    then have "\<not> hd" using m(5) pan by auto
    then show ?thesis using True assms(3,4) pan
      by (simp add: parse_dest_def dest_bytes_def read_dest_pid_def on_air_def addr_len_def linkaddr_copy_def linkaddr_null_def LINKADDR_SIZE_def)
  next
    case False
    then have mode: "dest_addr_mode (fcf p) = 2 \<or> dest_addr_mode (fcf p) = 3" using m(3) by auto
    let ?a = "rev (take (addr_len (dest_addr_mode (fcf p))) (dest_addr p))"
    have la: "length ?a = addr_len (dest_addr_mode (fcf p))" using len by (simp add: addr_len_def)
    show ?thesis
    proof (cases hd)
      case True
      have "get_addr (dest_addr_mode (fcf p)) (w @ low_high (dest_pid p) @ ?a @ r) (length w + 2) (dest_addr pf) =
          Some (on_air (dest_addr_mode (fcf p)) (dest_addr p), length w + 2 + addr_len (dest_addr_mode (fcf p)))"
        using get_addr_written [OF len assms(4) mode, of "w @ low_high (dest_pid p)" r] by (simp add: low_high_def)
      then show ?thesis using True False assms(3) pan m(1) get_pid_written [of w "dest_pid p" "?a @ r"] la
        by (simp add: parse_dest_def dest_bytes_def read_dest_pid_def low_high_def)
    next
      case nd: False
      have "get_addr (dest_addr_mode (fcf p)) (w @ ?a @ r) (length w) (dest_addr pf) =
          Some (on_air (dest_addr_mode (fcf p)) (dest_addr p), length w + addr_len (dest_addr_mode (fcf p)))"
        using get_addr_written [OF len assms(4) mode] .
      then show ?thesis using nd False assms(3) pan m(1) la
        by (simp add: parse_dest_def dest_bytes_def read_dest_pid_def)
    qed
  qed
qed

lemma parse_src_written:
  fixes hs hde :: bool
  assumes "frame_ok p" "readable p" "fcf pf = fcf p" "length (src_addr pf) = 8"
  defines "hs \<equiv> fst (frame802154_has_panid (fcf p))" and "hde \<equiv> snd (frame802154_has_panid (fcf p))"
  shows "parse_src (w @ src_bytes p @ r) (length w) pf =
    Some (pf\<lparr>src_pid := (if src_addr_mode (fcf p) = 0 then 0 else if hs then src_pid p else dest_pid pf),
        dest_pid := (if hs \<and> \<not> hde then src_pid p else dest_pid pf), src_addr := on_air (src_addr_mode (fcf p)) (src_addr p)\<rparr>,
      length w + length (src_bytes p))"
proof -
  note m = readable_modes [OF assms(2)]
  have pan: "frame802154_has_panid (fcf p) = (hs, hde)" by (simp add: hs_def hde_def)
  have len: "length (src_addr p) = 8" using assms(1) by (simp add: frame_ok_def)
  show ?thesis
  proof (cases "src_addr_mode (fcf p) = 0")
    case True
    then have "\<not> hs" using m(6) pan by auto
    then show ?thesis using True assms(3,4) pan
      by (simp add: parse_src_def src_bytes_def on_air_def addr_len_def linkaddr_copy_def linkaddr_null_def LINKADDR_SIZE_def)
  next
    case False
    then have mode: "src_addr_mode (fcf p) = 2 \<or> src_addr_mode (fcf p) = 3" using m(4) by auto
    let ?a = "rev (take (addr_len (src_addr_mode (fcf p))) (src_addr p))"
    have la: "length ?a = addr_len (src_addr_mode (fcf p))" using len by (simp add: addr_len_def)
    show ?thesis
    proof (cases hs)
      case True
      have "get_addr (src_addr_mode (fcf p)) (w @ low_high (src_pid p) @ ?a @ r) (length w + 2) (src_addr pf) =
          Some (on_air (src_addr_mode (fcf p)) (src_addr p), length w + 2 + addr_len (src_addr_mode (fcf p)))"
        using get_addr_written [OF len assms(4) mode, of "w @ low_high (src_pid p)" r] by (simp add: low_high_def)
      then show ?thesis using True False assms(3) pan m(2) get_pid_written [of w "src_pid p" "?a @ r"] la
        by (simp add: parse_src_def src_bytes_def low_high_def)
    next
      case ns: False
      have "get_addr (src_addr_mode (fcf p)) (w @ ?a @ r) (length w) (src_addr pf) =
          Some (on_air (src_addr_mode (fcf p)) (src_addr p), length w + addr_len (src_addr_mode (fcf p)))"
        using get_addr_written [OF len assms(4) mode] .
      then show ?thesis using ns False assms(3) pan m(2) la
        by (simp add: parse_src_def src_bytes_def)
    qed
  qed
qed

definition scf_ok :: "frame802154_scf_t \<Rightarrow> bool" where
  "scf_ok sc \<longleftrightarrow> security_level sc AND 7 = security_level sc \<and> key_id_mode sc AND 3 = key_id_mode sc \<and>
     frame_counter_suppression sc AND 1 = frame_counter_suppression sc \<and> frame_counter_size sc AND 1 = frame_counter_size sc"

lemma control_byte_fields:
  assumes "scf_ok sc"
  shows "control_byte cfg sc AND 7 = security_level sc"
    "drop_bit 3 (control_byte cfg sc) AND 3 = (if USES_EXPLICIT_KEYS cfg then key_id_mode sc else 0)"
    "drop_bit 5 (control_byte cfg sc) = frame_counter_suppression sc OR push_bit 1 (frame_counter_size sc)"
    "drop_bit 6 (control_byte cfg sc) = frame_counter_size sc"
proof -
  define k where "k = (if USES_EXPLICIT_KEYS cfg then key_id_mode sc else 0)"
  have sc: "take_bit 3 (security_level sc) = security_level sc" "take_bit 2 k = k"
    "take_bit 1 (frame_counter_suppression sc) = frame_counter_suppression sc" "take_bit 1 (frame_counter_size sc) = frame_counter_size sc"
    using assms unfolding scf_ok_def octet_take k_def by simp_all
  have c: "control_byte cfg sc = push_bit 0 (take_bit 3 (security_level sc)) OR push_bit 3 (take_bit 2 k) OR
      push_bit 5 (take_bit 1 (frame_counter_suppression sc)) OR push_bit 6 (take_bit 1 (frame_counter_size sc))"
    unfolding sc by (simp add: control_byte_def k_def)
  have "fld 0 3 (control_byte cfg sc) = security_level sc" "fld 3 2 (control_byte cfg sc) = k"
    unfolding c fld_or by (simp_all add: fld_above fld_below fld_same del: push_bit_0_id push_bit_take_bit push_bit_Suc One_nat_def) (simp_all add: sc)
  then show "control_byte cfg sc AND 7 = security_level sc"
    "drop_bit 3 (control_byte cfg sc) AND 3 = (if USES_EXPLICIT_KEYS cfg then key_id_mode sc else 0)"
    by (simp_all only: octet_take fld_def drop_bit_0 id_apply k_def [symmetric])
  have bit1: "\<not> bit (frame_counter_suppression sc) n" "\<not> bit (frame_counter_size sc) n" if "0 < n" for n
    using sc(3,4) that by (metis bit_take_bit_iff less_one not_gr_zero)+
  have bit3: "\<not> bit (security_level sc) n" if "3 \<le> n" for n using sc(1) that by (metis bit_take_bit_iff leD)
  have bit2: "\<not> bit k n" if "2 \<le> n" for n using sc(2) that by (metis bit_take_bit_iff leD)
  have cb: "bit (control_byte cfg sc) n \<longleftrightarrow> bit (security_level sc) n \<or> 3 \<le> n \<and> n < 8 \<and> bit k (n - 3) \<or>
      5 \<le> n \<and> n < 8 \<and> bit (frame_counter_suppression sc) (n - 5) \<or> 6 \<le> n \<and> n < 8 \<and> bit (frame_counter_size sc) (n - 6)" for n
    unfolding c sc by (auto simp: bit_simps dest: bit_imp_le_length)
  show "drop_bit 6 (control_byte cfg sc) = frame_counter_size sc"
  proof (rule bit_word_eqI)
    fix n assume "n < LENGTH(8)"
    then show "bit (drop_bit 6 (control_byte cfg sc)) n = bit (frame_counter_size sc) n"
      using bit1(2) [of n] by (cases "n = 0") (auto simp: bit_drop_bit_eq cb bit1 bit2 bit3)
  qed
  show "drop_bit 5 (control_byte cfg sc) = frame_counter_suppression sc OR push_bit 1 (frame_counter_size sc)"
  proof (rule bit_word_eqI)
    fix n assume "n < LENGTH(8)"
    then show "bit (drop_bit 5 (control_byte cfg sc)) n = bit (frame_counter_suppression sc OR push_bit 1 (frame_counter_size sc)) n"
      using bit1 [of n] bit1 [of "n - 1"] by (cases "Suc 0 < n") (auto simp: bit_drop_bit_eq cb bit2 bit3 bit_or_iff bit_push_bit_iff simp del: push_bit_Suc)
  qed
qed

lemma get_copy_written: "n = length bs \<Longrightarrow> get_copy n (w @ bs @ r) (length w) dest = Some (bs @ drop n dest)"
  by (simp add: get_copy_def)

definition key_src_len :: "octet \<Rightarrow> nat" where
  "key_src_len mode = (unat mode - 1) * 4"

text \<open>The security header as read: what the frame carries replaces what was there.\<close>

definition read_aux :: "llsec_cfg \<Rightarrow> frame802154_aux_hdr_t \<Rightarrow> frame802154_aux_hdr_t \<Rightarrow> frame802154_aux_hdr_t" where
  "read_aux cfg a old =
     (let sc = security_control a; mode = key_id_mode sc; n = key_src_len mode
      in old\<lparr>security_control := (security_control old)\<lparr>security_level := security_level sc,
             key_id_mode := (if USES_EXPLICIT_KEYS cfg then mode else key_id_mode (security_control old)),
             frame_counter_suppression := frame_counter_suppression sc OR push_bit 1 (frame_counter_size sc),
             frame_counter_size := frame_counter_size sc\<rparr>,
           frame_counter := (if frame_counter_suppression sc = 0 then frame_counter a else frame_counter old),
           key_source := (if USES_EXPLICIT_KEYS cfg \<and> mode \<noteq> 0 then take n (key_source a) @ drop n (key_source old) else key_source old),
           key_index := (if USES_EXPLICIT_KEYS cfg \<and> mode \<noteq> 0 then key_index a else key_index old)\<rparr>)"

lemma parse_aux_written:
  assumes "frame_ok p" "no_long_counter p" "scf_ok (security_control (aux_hdr p))" "USES_AUX_HEADER cfg" "security_enabled (fcf p) AND 1 \<noteq> 0"
    "length (frame_counter old) = 4"
  shows "parse_aux cfg (w @ aux_bytes cfg p @ r) (length w) old = Some (read_aux cfg (aux_hdr p) old, length w + length (aux_bytes cfg p))"
proof -
  let ?a = "aux_hdr p" and ?sc = "security_control (aux_hdr p)"
  let ?m = "key_id_mode ?sc"
  define fc where "fc = (if frame_counter_suppression ?sc = 0 then frame_counter ?a else [])"
  have ab: "aux_bytes cfg p = control_byte cfg ?sc # fc @ key_bytes cfg ?a" using assms(4,5) by (simp add: aux_bytes_def fc_def)
  note cb = control_byte_fields [OF assms(3)]
  have lens: "length (frame_counter ?a) = 4" "length (key_source ?a) = 8" "?m < 4" using assms(1) by (simp_all add: frame_ok_def)
  have size01: "frame_counter_size ?sc = 0 \<or> frame_counter_size ?sc = 1"
  proof -
    have "frame_counter_size ?sc \<le> 1" using assms(3) word_and_le1 [of "frame_counter_size ?sc" 1] by (simp add: scf_ok_def)
    then show ?thesis by (auto simp: word_le_nat_alt word_unat_eq_iff le_Suc_eq)
  qed
  have supp: "frame_counter_suppression ?sc OR push_bit 1 (frame_counter_size ?sc) = 0 \<longleftrightarrow> frame_counter_suppression ?sc = 0"
    using size01 assms(2) or_eq_0_iff [of "frame_counter_suppression ?sc" 2] by (auto simp: no_long_counter_def)
  have nsz: "frame_counter_size ?sc = 0" if "frame_counter_suppression ?sc = 0" using size01 assms(2) that by (auto simp: no_long_counter_def)
  have b: "get (w @ aux_bytes cfg p @ r) (length w) = Some (control_byte cfg ?sc)" using get_append [of 0 "aux_bytes cfg p" w r] by (simp add: ab)
  have kl: "key_src_len ?m \<le> 8" using lens(3) by (auto simp: key_src_len_def word_less_nat_alt)
  let ?data = "w @ aux_bytes cfg p @ r" and ?q = "length w + 1 + length fc"
  have fcr: "get_copy 4 ?data (length w + 1) d = Some (frame_counter ?a @ drop 4 d)" if "frame_counter_suppression ?sc = 0" for d
    using get_copy_written [of 4 "frame_counter ?a" "w @ [control_byte cfg ?sc]" "key_bytes cfg ?a @ r" d] lens(1) that by (simp add: ab fc_def)
  have keys: "get_copy (key_src_len ?m) ?data ?q d = Some (take (key_src_len ?m) (key_source ?a) @ drop (key_src_len ?m) d)"
    "get ?data (?q + key_src_len ?m) = Some (key_index ?a)" "length (key_bytes cfg ?a) = key_src_len ?m + 1"
    if "USES_EXPLICIT_KEYS cfg" "?m \<noteq> 0" for d
  proof -
    have kb: "key_bytes cfg ?a = take (key_src_len ?m) (key_source ?a) @ [key_index ?a]" using that by (simp add: key_bytes_def key_src_len_def)
    have lt: "length (take (key_src_len ?m) (key_source ?a)) = key_src_len ?m" using kl lens(2) by simp
    show "get_copy (key_src_len ?m) ?data ?q d = Some (take (key_src_len ?m) (key_source ?a) @ drop (key_src_len ?m) d)"
      using get_copy_written [OF lt [symmetric], of "w @ control_byte cfg ?sc # fc" "[key_index ?a] @ r" d] by (simp add: ab kb)
    show "length (key_bytes cfg ?a) = key_src_len ?m + 1" using lt by (simp add: kb)
    show "get ?data (?q + key_src_len ?m) = Some (key_index ?a)"
      using get_append [of 0 "[key_index ?a]" "w @ control_byte cfg ?sc # fc @ take (key_src_len ?m) (key_source ?a)" r] lt
      by (simp add: ab kb add.assoc)
  qed
  have none: "length (key_bytes cfg ?a) = 0" if "\<not> (USES_EXPLICIT_KEYS cfg \<and> ?m \<noteq> 0)" using that by (auto simp: key_bytes_def)
  show ?thesis
  proof (cases "USES_EXPLICIT_KEYS cfg \<and> ?m \<noteq> 0")
    case True
    then have k: "USES_EXPLICIT_KEYS cfg" "?m \<noteq> 0" by simp_all
    from k b cb supp nsz fcr keys(1) [OF k, of "key_source old"] keys(2,3) [OF k] lens(1) assms(6) show ?thesis
      unfolding parse_aux_def read_aux_def key_src_len_def [symmetric]
      by (cases "frame_counter_suppression ?sc = 0") (simp_all add: Let_def ab key_src_len_def fc_def)
  next
    case False
    with b cb supp nsz fcr none lens(1) assms(6) show ?thesis
      unfolding parse_aux_def read_aux_def
      by (cases "frame_counter_suppression ?sc = 0") (simp_all add: Let_def ab fc_def)
  qed
qed

text \<open>The frame as read back, over what the structure held before.\<close>

definition read_frame :: "llsec_cfg \<Rightarrow> frame802154_t \<Rightarrow> int \<Rightarrow> frame802154_t \<Rightarrow> frame802154_t" where
  "read_frame cfg p len pf =
     (let hs = fst (frame802154_has_panid (fcf p)); hde = snd (frame802154_has_panid (fcf p)); n = length (header_bytes cfg p)
      in pf\<lparr>fcf := fcf p, seqno := (if sequence_number_suppression (fcf p) = 0 then seqno p else seqno pf),
           dest_addr := on_air (dest_addr_mode (fcf p)) (dest_addr p), src_addr := on_air (src_addr_mode (fcf p)) (src_addr p),
           dest_pid := (if hs \<and> \<not> hde then src_pid p else read_dest_pid p),
           src_pid := (if src_addr_mode (fcf p) = 0 then 0 else if hs then src_pid p else read_dest_pid p),
           aux_hdr := (if USES_AUX_HEADER cfg \<and> security_enabled (fcf p) \<noteq> 0 then read_aux cfg (aux_hdr p) (aux_hdr pf) else aux_hdr pf),
           payload_len := len - int n, payload := n\<rparr>)"

lemma parse_written:
  assumes "frame_ok p" "readable p" "no_long_counter p" "scf_ok (security_control (aux_hdr p))" "frame_ok pf" "2 \<le> len"
  shows "frame802154_parse cfg (header_bytes cfg p @ r) len pf =
    Some (if int (length (header_bytes cfg p)) > len then 0 else length (header_bytes cfg p), read_frame cfg p len pf)"
proof -
  let ?f = "frame802154_create_fcf (fcf p)" and ?s = "if sequence_number_suppression (fcf p) = 0 then [seqno p] else []"
  note m = readable_modes [OF assms(2)]
  let ?data = "header_bytes cfg p @ r"
  have data: "?data = ?f @ ?s @ dest_bytes p @ src_bytes p @ aux_bytes cfg p @ r" by (simp add: header_bytes_def m(7))
  have lf: "length ?f = 2" by (simp add: frame802154_create_fcf_def)
  have f: "frame802154_parse_fcf ?data = Some (fcf p)"
    using parse_fcf_written [of "fcf p"] assms(2) unfolding data by (simp add: readable_def)
  have lens: "length (dest_addr pf) = 8" "length (src_addr pf) = 8" "length (frame_counter (aux_hdr pf)) = 4" using assms(5) by (simp_all add: frame_ok_def)
  define pf1 where "pf1 = (if sequence_number_suppression (fcf p) = 0 then pf\<lparr>fcf := fcf p, seqno := seqno p\<rparr> else pf\<lparr>fcf := fcf p\<rparr>)"
  define w1 where "w1 = ?f @ ?s"
  have s: "(if sequence_number_suppression (fcf p) = 0 then do { s \<leftarrow> get ?data 2; Some (pf\<lparr>fcf := fcf p, seqno := s\<rparr>, 3) } else Some (pf\<lparr>fcf := fcf p\<rparr>, 2)) =
      Some (pf1, length w1)"
    using get_append [of 0 ?s ?f "dest_bytes p @ src_bytes p @ aux_bytes cfg p @ r"] unfolding data
    by (cases "sequence_number_suppression (fcf p) = 0") (simp_all add: pf1_def w1_def lf)
  have f1: "fcf pf1 = fcf p" "dest_addr pf1 = dest_addr pf" "src_addr pf1 = src_addr pf" "aux_hdr pf1 = aux_hdr pf" by (simp_all add: pf1_def)
  define pf2 where "pf2 = pf1\<lparr>dest_pid := read_dest_pid p, dest_addr := on_air (dest_addr_mode (fcf p)) (dest_addr p)\<rparr>"
  have d: "parse_dest ?data (length w1) pf1 = Some (pf2, length (w1 @ dest_bytes p))"
    using parse_dest_written [OF assms(1,2) f1(1), of w1 "src_bytes p @ aux_bytes cfg p @ r"] lens(1) f1(2)
    unfolding data by (simp add: w1_def pf2_def)
  have f2: "fcf pf2 = fcf p" "src_addr pf2 = src_addr pf" "aux_hdr pf2 = aux_hdr pf" "dest_pid pf2 = read_dest_pid p" by (simp_all add: pf2_def f1)
  define pf3 where "pf3 = snd (pf2, fst (the (parse_src ?data (length (w1 @ dest_bytes p)) pf2)))"
  have sr: "parse_src ?data (length (w1 @ dest_bytes p)) pf2 = Some (pf3, length (w1 @ dest_bytes p @ src_bytes p))"
    and f3: "pf3 = pf2\<lparr>src_pid := (if src_addr_mode (fcf p) = 0 then 0 else if fst (frame802154_has_panid (fcf p)) then src_pid p else read_dest_pid p),
        dest_pid := (if fst (frame802154_has_panid (fcf p)) \<and> \<not> snd (frame802154_has_panid (fcf p)) then src_pid p else read_dest_pid p),
        src_addr := on_air (src_addr_mode (fcf p)) (src_addr p)\<rparr>"
    using parse_src_written [OF assms(1,2) f2(1), of "w1 @ dest_bytes p" "aux_bytes cfg p @ r"] lens(2) f2(2,4)
    unfolding data pf3_def by (simp_all add: w1_def)
  have f3': "aux_hdr pf3 = aux_hdr pf" by (simp add: f3 f2)
  have a: "(if USES_AUX_HEADER cfg \<and> security_enabled (fcf p) \<noteq> 0 then do {
        (aux, p) \<leftarrow> parse_aux cfg ?data (length (w1 @ dest_bytes p @ src_bytes p)) (aux_hdr pf3); Some (pf3\<lparr>aux_hdr := aux\<rparr>, p) }
      else Some (pf3, length (w1 @ dest_bytes p @ src_bytes p))) =
    Some (if USES_AUX_HEADER cfg \<and> security_enabled (fcf p) \<noteq> 0 then pf3\<lparr>aux_hdr := read_aux cfg (aux_hdr p) (aux_hdr pf)\<rparr> else pf3,
      length (header_bytes cfg p))"
  proof (cases "USES_AUX_HEADER cfg \<and> security_enabled (fcf p) \<noteq> 0")
    case True
    then have t: "USES_AUX_HEADER cfg" "security_enabled (fcf p) AND 1 \<noteq> 0" using m(8) by simp_all
    from parse_aux_written [OF assms(1,3,4) t lens(3), of "w1 @ dest_bytes p @ src_bytes p" r]
    show ?thesis using True f3' m(7) unfolding data by (simp add: w1_def header_bytes_def)
  next
    case False
    then have "aux_bytes cfg p = []" using m(8) by (auto simp: aux_bytes_def)
    then show ?thesis using False m(7) by (auto simp: header_bytes_def w1_def)
  qed
  have n: "\<not> len < 2" using assms(6) by simp
  have fields: "(if USES_AUX_HEADER cfg \<and> security_enabled (fcf p) \<noteq> 0 then pf3\<lparr>aux_hdr := read_aux cfg (aux_hdr p) (aux_hdr pf)\<rparr> else pf3)
      \<lparr>payload_len := len - int (length (header_bytes cfg p)), payload := length (header_bytes cfg p)\<rparr> = read_frame cfg p len pf"
    by (simp add: read_frame_def Let_def f3 pf2_def pf1_def)
  show ?thesis
    unfolding frame802154_parse_def if_not_P [OF n] f Option.bind.bind_lunit Let_def s prod.case d sr a fields ..
qed

section \<open>Bounds of the reader\<close>

lemma get_ok: "i < length data \<Longrightarrow> get data i = Some (data ! i)"
  by (simp add: get_def)

lemma get_long_ok: "p + n \<le> length data \<Longrightarrow> \<exists>a. get_long n data p addr = Some a"
  by (induction n arbitrary: addr) (auto simp: get_ok)

lemma get_addr_ok:
  assumes "p + 8 \<le> length data"
  shows "\<exists>a q. get_addr mode data p addr = Some (a, q) \<and> q \<le> p + 8"
  using assms get_long_ok [of p 8 data addr] by (auto simp: get_addr_def get_ok)

lemma get_pid_ok: "p + 2 \<le> length data \<Longrightarrow> \<exists>w. get_pid data p = Some w"
  by (auto simp: get_pid_def get_ok)

lemma parse_dest_ok:
  assumes "p + 10 \<le> length data"
  shows "\<exists>pf' q. parse_dest data p pf = Some (pf', q) \<and> q \<le> p + 10"
proof -
  obtain w where "get_pid data p = Some w" using get_pid_ok [of p data] assms by auto
  then show ?thesis
    using get_addr_ok [of p data "dest_addr_mode (fcf pf)" "dest_addr pf"] get_addr_ok [of "p + 2" data "dest_addr_mode (fcf pf)" "dest_addr pf"] assms
    by (cases "frame802154_has_panid (fcf pf)") (fastforce simp: parse_dest_def)
qed

lemma parse_src_ok:
  assumes "p + 10 \<le> length data"
  shows "\<exists>pf' q. parse_src data p pf = Some (pf', q) \<and> q \<le> p + 10"
proof -
  obtain w where "get_pid data p = Some w" using get_pid_ok [of p data] assms by auto
  then show ?thesis
    using get_addr_ok [of p data "src_addr_mode (fcf pf)" "src_addr pf"] get_addr_ok [of "p + 2" data "src_addr_mode (fcf pf)" "src_addr pf"] assms
    by (cases "frame802154_has_panid (fcf pf)") (fastforce simp: parse_src_def)
qed

lemma parse_aux_ok:
  assumes "p + 15 \<le> length data"
  shows "\<exists>a q. parse_aux cfg data p aux = Some (a, q) \<and> q \<le> p + 15"
proof -
  have m: "unat (x AND 3) \<le> 3" for x :: octet using word_and_le1 [of x 3] by (simp add: word_le_nat_alt)
  have k: "(unat (drop_bit 3 (data ! p) AND 3) - 1) * 4 \<le> 8" using m [of "drop_bit 3 (data ! p)"] by simp
  then show ?thesis using assms by (auto simp: parse_aux_def get_ok get_copy_def Let_def)
qed

lemma parse_ok:
  assumes "38 \<le> length data"
  shows "\<exists>n q. frame802154_parse cfg data len pf = Some (n, q) \<and> n \<le> 38 \<and> int n \<le> max len 0"
proof (cases "len < 2")
  case True
  then show ?thesis by (simp add: frame802154_parse_def)
next
  case False
  have "get data 0 = Some (data ! 0)" "get data 1 = Some (data ! 1)" by (rule get_ok; use assms in linarith)+
  then obtain f where f: "frame802154_parse_fcf data = Some f" by (auto simp: frame802154_parse_fcf_def)
  obtain pf1 and p1 :: nat where s: "(if sequence_number_suppression f = 0 then do { s \<leftarrow> get data 2; Some (pf\<lparr>fcf := f, seqno := s\<rparr>, 3) } else Some (pf\<lparr>fcf := f\<rparr>, 2)) = Some (pf1, p1)"
      "p1 \<le> 3" using get_ok [of 2 data] assms by (cases "sequence_number_suppression f = 0") auto
  obtain pf2 p2 where d: "parse_dest data p1 pf1 = Some (pf2, p2)" "p2 \<le> 13" using parse_dest_ok [of p1 data pf1] s(2) assms by auto
  obtain pf3 p3 where r: "parse_src data p2 pf2 = Some (pf3, p3)" "p3 \<le> 23" using parse_src_ok [of p2 data pf2] d(2) assms by auto
  obtain pf4 p4 where a: "(if USES_AUX_HEADER cfg \<and> security_enabled f \<noteq> 0 then do {
        (aux, p) \<leftarrow> parse_aux cfg data p3 (aux_hdr pf3); Some (pf3\<lparr>aux_hdr := aux\<rparr>, p) } else Some (pf3, p3)) = Some (pf4, p4)" "p4 \<le> 38"
    using parse_aux_ok [of p3 data cfg "aux_hdr pf3"] r(2) assms by (cases "USES_AUX_HEADER cfg \<and> security_enabled f \<noteq> 0") auto
  have "frame802154_parse cfg data len pf = Some (if int p4 > len then 0 else p4, pf4\<lparr>payload_len := len - int p4, payload := p4\<rparr>)"
    unfolding frame802154_parse_def if_not_P [OF False] f Option.bind.bind_lunit Let_def s(1) prod.case d(1) r(1) a(1) ..
  then show ?thesis using a(2) by auto
qed

section \<open>Properties\<close>

text \<open>A frame between two nodes with long addresses, for the examples.\<close>

definition sample_fcf :: frame802154_fcf_t where
  "sample_fcf = \<lparr>frame_type = 1, security_enabled = 0, frame_pending = 0, ack_required = 1, panid_compression = 0,
     sequence_number_suppression = 0, ie_list_present = 0, dest_addr_mode = 3, frame_version = 1, src_addr_mode = 3\<rparr>"

definition sample_frame :: frame802154_t where
  "sample_frame = \<lparr>dest_addr = [1, 2, 3, 4, 5, 6, 7, 8], src_addr = [8, 7, 6, 5, 4, 3, 2, 1], fcf = sample_fcf,
     seqno = 42, dest_pid = 0xABCD, src_pid = 0xABCD,
     aux_hdr = \<lparr>security_control = \<lparr>security_level = 0, key_id_mode = 0, frame_counter_suppression = 0, frame_counter_size = 0, scf_reserved = 0\<rparr>,
       frame_counter = replicate 4 0, key_source = replicate 8 0, key_index = 0\<rparr>, payload = 0, payload_len = 0\<rparr>"

lemma sample_ok:
  "frame_ok sample_frame" "no_long_counter sample_frame" "readable (set_compression sample_frame)" "scf_ok (security_control (aux_hdr sample_frame))"
  by (simp_all add: frame_ok_def no_long_counter_def readable_def scf_ok_def set_compression_def sample_frame_def sample_fcf_def fcf_mask_def)

text \<open>
  What a frame carries of its security header: the level, the mode of the key when keys are explicit,
  then also its index and the bytes of its source (none, four or eight), and the counter unless it is suppressed.
\<close>

definition aux_carried :: "llsec_cfg \<Rightarrow> frame802154_aux_hdr_t \<Rightarrow> frame802154_aux_hdr_t \<Rightarrow> bool" where
  "aux_carried cfg a b \<longleftrightarrow>
     security_level (security_control b) = security_level (security_control a) \<and>
     frame_counter_size (security_control b) = frame_counter_size (security_control a) \<and>
     (frame_counter_suppression (security_control a) = 0 \<longrightarrow>
        frame_counter_suppression (security_control b) = 0 \<and> frame_counter b = frame_counter a) \<and>
     (USES_EXPLICIT_KEYS cfg \<longrightarrow> key_id_mode (security_control b) = key_id_mode (security_control a)) \<and>
     (USES_EXPLICIT_KEYS cfg \<and> key_id_mode (security_control a) \<noteq> 0 \<longrightarrow> key_index b = key_index a \<and>
        take (key_src_len (key_id_mode (security_control a))) (key_source b) = take (key_src_len (key_id_mode (security_control a))) (key_source a))"

lemma read_aux_carried:
  assumes "frame_ok p" "no_long_counter p" "scf_ok (security_control (aux_hdr p))"
  shows "aux_carried cfg (aux_hdr p) (read_aux cfg (aux_hdr p) old)"
proof -
  let ?sc = "security_control (aux_hdr p)"
  have "frame_counter_size ?sc = 0" if "frame_counter_suppression ?sc = 0"
    using that assms(2,3) and_one_eq [of "frame_counter_size ?sc"] by (auto simp: no_long_counter_def scf_ok_def mod2_eq_if split: if_splits)
  moreover have "key_src_len (key_id_mode ?sc) \<le> length (key_source (aux_hdr p))"
    using mode_cases [of "key_id_mode ?sc"] assms(1) by (auto simp: frame_ok_def key_src_len_def)
  ultimately show ?thesis by (auto simp: aux_carried_def read_aux_def Let_def)
qed

text \<open>A frame with an auxiliary security header, for the examples.\<close>

definition secured_frame :: frame802154_t where
  "secured_frame = sample_frame\<lparr>fcf := sample_fcf\<lparr>security_enabled := 1\<rparr>,
     aux_hdr := \<lparr>security_control = \<lparr>security_level = 5, key_id_mode = 1, frame_counter_suppression = 0, frame_counter_size = 0, scf_reserved = 0\<rparr>,
       frame_counter = [1, 2, 3, 4], key_source = replicate 8 0, key_index = 7\<rparr>\<rparr>"

lemma secured_ok:
  "frame_ok secured_frame" "no_long_counter secured_frame" "readable (set_compression secured_frame)" "scf_ok (security_control (aux_hdr secured_frame))"
  by (simp_all add: frame_ok_def no_long_counter_def readable_def scf_ok_def set_compression_def secured_frame_def sample_frame_def sample_fcf_def fcf_mask_def)

text \<open>
  C6: A header that is written and read back is the same frame: the writer fills exactly the bytes it
  announces, at most 37, and the reader finds the same control field and header length, and the
  sequence number, PAN identifiers and addresses the frame carries; of a short address the two
  bytes on air, followed by zeros. Before version 2015 a source identifier that is left out
  because it equals the destination's is restored. Of the auxiliary security header it finds the
  security level and, where the frame carries them, the frame counter, and the key mode, source and
  index. This holds of frames whose fields are within their width, with no reserved address mode,
  not of the frame of version 2015 with a PAN identifier and no address, and not of a frame counter
  of five bytes: the last two are read wrongly.
\<close>

theorem frame802154_roundtrip:
  assumes "frame_ok p0" "no_long_counter p0" "readable (set_compression p0)" "scf_ok (security_control (aux_hdr p0))" "frame_ok pf"
    and "frame802154_hdrlen cfg p0 = (n, p)" "n \<le> length buf" "int n \<le> len"
  shows "\<exists>buf' q. frame802154_create cfg p0 buf = Some (n, p, buf') \<and> n \<le> 37 \<and> length buf' = length buf \<and> drop n buf' = drop n buf \<and>
    frame802154_parse cfg buf' len pf = Some (n, q) \<and> fcf q = fcf p \<and> payload q = n \<and> payload_len q = len - int n \<and>
    (sequence_number_suppression (fcf p) = 0 \<longrightarrow> seqno q = seqno p0) \<and>
    dest_addr q = on_air (dest_addr_mode (fcf p)) (dest_addr p0) \<and> src_addr q = on_air (src_addr_mode (fcf p)) (src_addr p0) \<and>
    (snd (frame802154_has_panid (fcf p)) \<longrightarrow> dest_pid q = dest_pid p0) \<and> (fst (frame802154_has_panid (fcf p)) \<longrightarrow> src_pid q = src_pid p0) \<and>
    (frame_version (fcf p) < 2 \<and> frame_type (fcf p) \<noteq> FRAME802154_ACKFRAME \<and> src_addr_mode (fcf p) \<noteq> 0 \<longrightarrow> src_pid q = src_pid p0) \<and>
    (USES_AUX_HEADER cfg \<and> security_enabled (fcf p) \<noteq> 0 \<longrightarrow> aux_carried cfg (aux_hdr p0) (aux_hdr q))"
proof -
  have p: "p = set_compression p0" "n = length (header_bytes cfg p)" "n \<le> 37"
    using length_header_bytes [OF assms(1,2), of cfg] assms(6) by auto
  have same: "dest_addr p = dest_addr p0" "src_addr p = src_addr p0" "aux_hdr p = aux_hdr p0" "seqno p = seqno p0" "dest_pid p = dest_pid p0"
    "src_pid p = src_pid p0" by (simp_all add: p(1) set_compression_def)
  have ok: "frame_ok p" "no_long_counter p" "readable p" "scf_ok (security_control (aux_hdr p))"
    using assms(1-4) by (simp_all add: frame_ok_def no_long_counter_def same p(1) [symmetric])
  let ?buf' = "header_bytes cfg p @ drop n buf" and ?q = "read_frame cfg p len pf"
  have c: "frame802154_create cfg p0 buf = Some (n, p, ?buf')"
    using frame802154_create_eq [OF assms(1,2), of cfg buf] assms(7) unfolding p(2) p(1) [symmetric] by simp
  have "2 \<le> n" unfolding p(2) by (simp add: header_bytes_def frame802154_create_fcf_def)
  then have r: "frame802154_parse cfg ?buf' len pf = Some (n, ?q)"
    using parse_written [OF ok(1,3,2,4) assms(5), of len cfg "drop n buf"] assms(8) by (simp add: p(2) [symmetric])
  have pid: "src_pid ?q = src_pid p0" if v: "frame_version (fcf p) < 2" "frame_type (fcf p) \<noteq> FRAME802154_ACKFRAME" "src_addr_mode (fcf p) \<noteq> 0"
  proof -
    have "frame_version (fcf p0) < 2" using v(1) by (auto simp: p(1) set_compression_def split: if_splits)
    then have "panid_compression (fcf p) = (if dest_addr_mode (fcf p) AND 3 \<noteq> 0 \<and> src_addr_mode (fcf p) AND 3 \<noteq> 0 \<and> src_pid p = dest_pid p then 1 else 0)"
      by (simp add: p(1) set_compression_def)
    moreover have "frame_version (fcf p) \<noteq> 2" using v(1) by auto
    ultimately show ?thesis using v(2,3) readable_modes(1,2) [OF ok(3)] same
      by (auto simp: read_frame_def Let_def frame802154_has_panid_def read_dest_pid_def split: if_splits)
  qed
  have aux: "aux_carried cfg (aux_hdr p0) (aux_hdr ?q)" if "USES_AUX_HEADER cfg" "security_enabled (fcf p) \<noteq> 0"
    using that read_aux_carried [OF ok(1,2,4), of cfg "aux_hdr pf"] by (simp add: read_frame_def Let_def same)
  show ?thesis
    using p(3) assms(7) c r pid aux same readable_modes(6) [OF ok(3)]
    by (intro exI [of _ ?buf'] exI [of _ ?q]) (auto simp: read_frame_def Let_def read_dest_pid_def p(2) [symmetric])
qed

theorem frame802154_roundtrip_witness:
  "\<exists>n p buf' q. frame802154_create \<lparr>USES_AUX_HEADER = True, USES_EXPLICIT_KEYS = True\<rparr> secured_frame (replicate 128 0) = Some (n, p, buf') \<and>
    frame802154_parse \<lparr>USES_AUX_HEADER = True, USES_EXPLICIT_KEYS = True\<rparr> buf' 60 sample_frame = Some (n, q) \<and> src_pid q = 0xABCD \<and>
    frame_counter (aux_hdr q) = [1, 2, 3, 4] \<and> key_index (aux_hdr q) = 7"
proof -
  let ?cfg = "\<lparr>USES_AUX_HEADER = True, USES_EXPLICIT_KEYS = True\<rparr>"
  obtain n p where h: "frame802154_hdrlen ?cfg secured_frame = (n, p)" by (rule prod.exhaust)
  have n: "n \<le> 37" "p = set_compression secured_frame" using length_header_bytes [OF secured_ok(1,2), of ?cfg] h by auto
  have f: "frame_version (fcf p) < 2" "frame_type (fcf p) \<noteq> 2" "src_addr_mode (fcf p) \<noteq> 0" "src_pid secured_frame = 0xABCD" "security_enabled (fcf p) \<noteq> 0"
    by (simp_all add: n(2) set_compression_def secured_frame_def sample_frame_def sample_fcf_def)
  have aux: "frame_counter (aux_hdr q) = [1, 2, 3, 4] \<and> key_index (aux_hdr q) = 7" if "aux_carried ?cfg (aux_hdr secured_frame) (aux_hdr q)" for q
    using that by (simp add: aux_carried_def secured_frame_def)
  have "n \<le> length (replicate 128 (0 :: octet))" "int n \<le> 60" using n by simp_all
  from frame802154_roundtrip [OF secured_ok sample_ok(1) h this] f obtain buf' q where
    "frame802154_create ?cfg secured_frame (replicate 128 0) = Some (n, p, buf')" "frame802154_parse ?cfg buf' 60 sample_frame = Some (n, q)"
    "src_pid q = 0xABCD" "aux_carried ?cfg (aux_hdr secured_frame) (aux_hdr q)" by auto
  with aux show ?thesis by blast
qed

text \<open>
  C35: Whatever bytes arrive and whatever their length, the reader never looks beyond the first 38, so
  that it returns on any buffer of that size, and the header length it reports is at most the
  length of the data.
\<close>

theorem frame802154_parse_bounded:
  assumes "38 \<le> length data"
  shows "\<exists>n q. frame802154_parse cfg data len pf = Some (n, q) \<and> n \<le> 38 \<and> int n \<le> max len 0"
  using parse_ok [OF assms] .

theorem frame802154_parse_bounded_witness:
  "\<exists>n q. frame802154_parse \<lparr>USES_AUX_HEADER = True, USES_EXPLICIT_KEYS = True\<rparr> (replicate 128 0xff) 5 sample_frame = Some (n, q) \<and> n \<le> 38"
  using frame802154_parse_bounded [of "replicate 128 0xff" "\<lparr>USES_AUX_HEADER = True, USES_EXPLICIT_KEYS = True\<rparr>" 5 sample_frame] by auto

text \<open>The reader looks beyond the length it is told before it compares the header length with it.\<close>

theorem frame802154_parse_reads_past_length:
  "frame802154_parse \<lparr>USES_AUX_HEADER = False, USES_EXPLICIT_KEYS = False\<rparr> [0x41, 0xD8] 2 sample_frame = None"
  by (simp add: frame802154_parse_def frame802154_parse_fcf_def get_def Let_def)

text \<open>
  A frame of version 2015 with no address and the compression bit set has a destination PAN
  identifier: the writer writes it, the reader takes it for the payload.
\<close>

definition pan_only_frame :: frame802154_t where
  "pan_only_frame = sample_frame\<lparr>fcf := sample_fcf\<lparr>panid_compression := 1, dest_addr_mode := 0, frame_version := 2, src_addr_mode := 0\<rparr>\<rparr>"

theorem frame802154_pan_without_address:
  "\<exists>buf' q. frame802154_create \<lparr>USES_AUX_HEADER = False, USES_EXPLICIT_KEYS = False\<rparr> pan_only_frame (replicate 40 0) = Some (5, pan_only_frame, buf') \<and>
    frame802154_parse \<lparr>USES_AUX_HEADER = False, USES_EXPLICIT_KEYS = False\<rparr> buf' 40 sample_frame = Some (3, q)"
proof -
  let ?cfg = "\<lparr>USES_AUX_HEADER = False, USES_EXPLICIT_KEYS = False\<rparr>"
  have c: "frame802154_create ?cfg pan_only_frame (replicate 40 0) = Some (5, pan_only_frame, [0x61, 0x20, 42, 0xCD, 0xAB] @ replicate 35 0)"
    by code_simp
  have "\<exists>q. frame802154_parse ?cfg ([0x61, 0x20, 42, 0xCD, 0xAB] @ replicate 35 0) 40 sample_frame = Some (3, q)"
    by (simp add: frame802154_parse_def frame802154_parse_fcf_def get_def Let_def parse_dest_def parse_src_def frame802154_has_panid_def)
  with c show ?thesis by blast
qed

text \<open>
  A frame counter of five bytes: the reader takes the two upper bits of the control byte for the
  suppression bit as well, and skips the counter.
\<close>

definition long_counter_frame :: frame802154_t where
  "long_counter_frame = sample_frame\<lparr>fcf := sample_fcf\<lparr>security_enabled := 1\<rparr>,
     aux_hdr := (aux_hdr sample_frame)\<lparr>security_control := (security_control (aux_hdr sample_frame))\<lparr>frame_counter_size := 1\<rparr>\<rparr>\<rparr>"

theorem frame802154_long_counter_lost:
  "map_option fst (frame802154_create \<lparr>USES_AUX_HEADER = True, USES_EXPLICIT_KEYS = True\<rparr> long_counter_frame (replicate 40 0)) = Some 27"
  "map_option fst (Option.bind (frame802154_create \<lparr>USES_AUX_HEADER = True, USES_EXPLICIT_KEYS = True\<rparr> long_counter_frame (replicate 40 0))
     (\<lambda>(n, p, buf). frame802154_parse \<lparr>USES_AUX_HEADER = True, USES_EXPLICIT_KEYS = True\<rparr> buf 40 sample_frame)) = Some 22"
  by code_simp+

end
