(* ===== verification/Contiki_Framer.thy ===== *)
theory Contiki_Framer
  imports Contiki_Packetbuf Contiki_Frame802154_Props
begin

text \<open>
  The framer of IEEE 802.15.4, \<open>ns/net/mac/framer/framer-802154.c\<close>: it puts the header of the packet
  in the packet buffer in front of the data, and takes it off again, with the attributes of the
  packet as its input and output. The options of the build are a record; the counters of frames
  that \<open>LLSEC802154_USES_FRAME_COUNTER\<close> would add have no packet attribute in this tree.
\<close>

section \<open>State and operations\<close>

record framer_cfg =
  llsec :: llsec_cfg
  FRAME802154_VERSION :: octet
  FRAME802154_SUPPR_SEQNO :: octet

record framer_state =
  mac_dsn :: octet
  initialized :: bool
  mac_pan_id :: "16 word"
  pbuf :: packetbuf

abbreviation (input) FRAMER_FAILED :: int where "FRAMER_FAILED \<equiv> -1"

definition frame802154_get_pan_id :: "framer_state \<Rightarrow> 16 word" where
  "frame802154_get_pan_id s = mac_pan_id s"

definition frame802154_set_pan_id :: "16 word \<Rightarrow> framer_state \<Rightarrow> framer_state" where
  "frame802154_set_pan_id pan_id s = s\<lparr>mac_pan_id := pan_id\<rparr>"

definition zero_frame :: frame802154_t where
  "zero_frame = \<lparr>dest_addr = replicate 8 0, src_addr = replicate 8 0,
     fcf = \<lparr>frame_type = 0, security_enabled = 0, frame_pending = 0, ack_required = 0, panid_compression = 0,
       sequence_number_suppression = 0, ie_list_present = 0, dest_addr_mode = 0, frame_version = 0, src_addr_mode = 0\<rparr>,
     seqno = 0, dest_pid = 0, src_pid = 0,
     aux_hdr = \<lparr>security_control = \<lparr>security_level = 0, key_id_mode = 0, frame_counter_suppression = 0, frame_counter_size = 0, scf_reserved = 0\<rparr>,
       frame_counter = replicate 4 0, key_source = replicate 8 0, key_index = 0\<rparr>, payload = 0, payload_len = 0\<rparr>"

definition setup_security :: "llsec_cfg \<Rightarrow> (packetbuf_attr_type \<Rightarrow> 16 word) \<Rightarrow> frame802154_t \<Rightarrow> frame802154_t" where
  "setup_security cfg get_attr params =
     (if USES_AUX_HEADER cfg then
        let f = (if get_attr PACKETBUF_ATTR_SECURITY_LEVEL \<noteq> 0 then (fcf params)\<lparr>security_enabled := 1\<rparr> else fcf params);
            sc = (security_control (aux_hdr params))\<lparr>security_level := ucast (get_attr PACKETBUF_ATTR_SECURITY_LEVEL),
                   frame_counter_suppression := 1, frame_counter_size := 1\<rparr>;
            sc1 = (if USES_EXPLICIT_KEYS cfg then sc\<lparr>key_id_mode := ucast (get_attr PACKETBUF_ATTR_KEY_ID_MODE)\<rparr> else sc);
            aux = (aux_hdr params)\<lparr>security_control := sc1\<rparr>
        in params\<lparr>fcf := f,
             aux_hdr := (if USES_EXPLICIT_KEYS cfg then aux\<lparr>key_index := ucast (get_attr PACKETBUF_ATTR_KEY_INDEX)\<rparr> else aux)\<rparr>
      else params\<lparr>fcf := (fcf params)\<lparr>security_enabled := 0\<rparr>\<rparr>)"

definition framer_802154_setup_params ::
    "framer_cfg \<Rightarrow> 16 word \<Rightarrow> (packetbuf_attr_type \<Rightarrow> 16 word) \<Rightarrow> bool \<Rightarrow> frame802154_t \<Rightarrow> frame802154_t" where
  "framer_802154_setup_params cfg pan_id get_attr dest_is_broadcast params =
     (let f = (fcf params)\<lparr>frame_type := ucast (get_attr PACKETBUF_ATTR_FRAME_TYPE), frame_pending := 0\<rparr>;
          f = (if dest_is_broadcast
               then f\<lparr>ack_required := 0,
                      sequence_number_suppression := (if FRAME802154_VERSION cfg \<ge> FRAME802154_IEEE802154_2015 then 1 else 0)\<rparr>
               else f\<lparr>ack_required := ucast (get_attr PACKETBUF_ATTR_MAC_ACK), sequence_number_suppression := FRAME802154_SUPPR_SEQNO cfg\<rparr>);
          f = f\<lparr>ie_list_present := ucast (get_attr PACKETBUF_ATTR_MAC_METADATA), frame_version := FRAME802154_VERSION cfg\<rparr>;
          params = setup_security (llsec cfg) get_attr (params\<lparr>fcf := f\<rparr>);
          params = params\<lparr>seqno := ucast (get_attr PACKETBUF_ATTR_MAC_SEQNO), src_pid := pan_id, dest_pid := pan_id\<rparr>;
          sm = (if get_attr PACKETBUF_ATTR_MAC_NO_SRC_ADDR = 1 then FRAME802154_NOADDR
                else if LINKADDR_SIZE = 2 then FRAME802154_SHORTADDRMODE else FRAME802154_LONGADDRMODE);
          dm = (if get_attr PACKETBUF_ATTR_MAC_NO_DEST_ADDR = 1 then FRAME802154_NOADDR
                else if dest_is_broadcast then FRAME802154_SHORTADDRMODE
                else if LINKADDR_SIZE = 2 then FRAME802154_SHORTADDRMODE else FRAME802154_LONGADDRMODE)
      in params\<lparr>fcf := (fcf params)\<lparr>src_addr_mode := sm, dest_addr_mode := dm,
           panid_compression := (if sm = FRAME802154_SHORTADDRMODE \<or> dm = FRAME802154_SHORTADDRMODE then 1 else 0)\<rparr>\<rparr>)"

text \<open>\<open>rnd\<close> is what \<open>random_rand\<close> returns when it is called. \<open>None\<close> is an access outside the buffer.\<close>

definition next_seqno :: "bool \<Rightarrow> 16 word \<Rightarrow> framer_state \<Rightarrow> framer_state" where
  "next_seqno do_create rnd s =
     (let s1 = (if \<not> initialized s then s\<lparr>initialized := True, mac_dsn := ucast (and rnd 0xff)\<rparr> else s)
      in if do_create \<and> packetbuf_attr (pbuf s1) PACKETBUF_ATTR_MAC_SEQNO = 0 then
           let s2 = (if mac_dsn s1 = 0 then s1\<lparr>mac_dsn := mac_dsn s1 + 1\<rparr> else s1)
           in s2\<lparr>pbuf := packetbuf_set_attr PACKETBUF_ATTR_MAC_SEQNO (ucast (mac_dsn s2)) (pbuf s2), mac_dsn := mac_dsn s2 + 1\<rparr>
         else s1)"

definition frame_params :: "framer_cfg \<Rightarrow> framer_state \<Rightarrow> frame802154_t" where
  "frame_params cfg s =
     (let pb = pbuf s; bc = packetbuf_holds_broadcast pb;
          params = framer_802154_setup_params cfg (frame802154_get_pan_id s) (packetbuf_attr pb) bc zero_frame;
          params = (if bc then params\<lparr>dest_addr := (dest_addr params)[0 := 0xff, 1 := 0xff]\<rparr>
                    else params\<lparr>dest_addr := linkaddr_copy (dest_addr params) (packetbuf_addr pb PACKETBUF_ADDR_RECEIVER)\<rparr>)
      in params\<lparr>src_addr := linkaddr_copy (src_addr params) (packetbuf_addr pb PACKETBUF_ADDR_SENDER),
           payload := packetbuf_hdrlen pb, payload_len := int (packetbuf_datalen pb)\<rparr>)"

definition create_frame :: "framer_cfg \<Rightarrow> bool \<Rightarrow> 16 word \<Rightarrow> framer_state \<Rightarrow> (int \<times> framer_state) option" where
  "create_frame cfg do_create rnd s =
     (if frame802154_get_pan_id s = 0xffff then Some (-1, s)
      else
        let s1 = next_seqno do_create rnd s;
            (hdr_len, params) = frame802154_hdrlen (llsec cfg) (frame_params cfg s1)
        in if \<not> do_create then Some (int hdr_len, s1)
           else
             let (ok, pb) = packetbuf_hdralloc hdr_len (pbuf s1)
             in if ok then
                  do { (n, p, buf) \<leftarrow> frame802154_create (llsec cfg) params (packetbuf_hdrptr pb);
                       Some (int hdr_len, s1\<lparr>pbuf := pb\<lparr>pb_bytes := buf\<rparr>\<rparr>) }
                else Some (FRAMER_FAILED, s1\<lparr>pbuf := pb\<rparr>))"

definition hdr_length :: "framer_cfg \<Rightarrow> 16 word \<Rightarrow> framer_state \<Rightarrow> (int \<times> framer_state) option" where
  "hdr_length cfg rnd s = create_frame cfg False rnd s"

definition framer_create :: "framer_cfg \<Rightarrow> 16 word \<Rightarrow> framer_state \<Rightarrow> (int \<times> framer_state) option" where
  "framer_create cfg rnd s = create_frame cfg True rnd s"

definition store_security :: "llsec_cfg \<Rightarrow> frame802154_t \<Rightarrow> packetbuf \<Rightarrow> packetbuf" where
  "store_security cfg frame pb =
     (if USES_AUX_HEADER cfg \<and> security_enabled (fcf frame) \<noteq> 0 then
        let sc = security_control (aux_hdr frame);
            pb1 = packetbuf_set_attr PACKETBUF_ATTR_SECURITY_LEVEL (ucast (security_level sc)) pb
        in if USES_EXPLICIT_KEYS cfg
           then packetbuf_set_attr PACKETBUF_ATTR_KEY_INDEX (ucast (key_index (aux_hdr frame)))
                  (packetbuf_set_attr PACKETBUF_ATTR_KEY_ID_MODE (ucast (key_id_mode sc)) pb1)
           else pb1
      else pb)"

text \<open>\<open>frame0\<close> is what the local variable \<open>frame\<close> holds before it is filled.\<close>

definition framer_parse :: "framer_cfg \<Rightarrow> frame802154_t \<Rightarrow> framer_state \<Rightarrow> (int \<times> framer_state) option" where
  "framer_parse cfg frame0 s = do {
     (hdr_len, frame) \<leftarrow> frame802154_parse (llsec cfg) (packetbuf_dataptr (pbuf s)) (int (packetbuf_datalen (pbuf s))) frame0;
     let (ok, pb) = (if hdr_len \<noteq> 0 then packetbuf_hdrreduce hdr_len (pbuf s) else (False, pbuf s));
     if ok then
       let pb = packetbuf_set_attr PACKETBUF_ATTR_FRAME_TYPE (ucast (frame_type (fcf frame))) pb
       in if dest_addr_mode (fcf frame) \<noteq> 0 \<and> dest_pid frame \<noteq> frame802154_get_pan_id s \<and> dest_pid frame \<noteq> FRAME802154_BROADCASTPANDID
          then Some (FRAMER_FAILED, s\<lparr>pbuf := pb\<rparr>)
          else
            let pb = (if dest_addr_mode (fcf frame) \<noteq> 0 \<and> \<not> frame802154_is_broadcast_addr (dest_addr_mode (fcf frame)) (dest_addr frame)
                      then packetbuf_set_addr PACKETBUF_ADDR_RECEIVER (dest_addr frame) pb else pb);
                pb = packetbuf_set_addr PACKETBUF_ADDR_SENDER (src_addr frame) pb;
                pb = packetbuf_set_attr PACKETBUF_ATTR_MAC_SEQNO
                       (if sequence_number_suppression (fcf frame) = 0 then ucast (seqno frame) else 0xffff) pb
            in Some (int hdr_len, s\<lparr>pbuf := store_security (llsec cfg) frame pb\<rparr>)
     else Some (FRAMER_FAILED, s\<lparr>pbuf := pb\<rparr>) }"

end
