(* ===== verification/Contiki_Framer_Props.thy ===== *)
theory Contiki_Framer_Props
  imports Contiki_Framer
begin

unbundle bit_operations_syntax

text \<open>
  A packet that one node frames and sends arrives at another: the composition of the framer, the
  packet buffer and the header codec.
\<close>

section \<open>The frame the framer builds\<close>

text \<open>Attributes within the width of the header fields, and both addresses in the header.\<close>

definition sendable :: "framer_cfg \<Rightarrow> packetbuf \<Rightarrow> bool" where
  "sendable cfg pb \<longleftrightarrow>
     packetbuf_attr pb PACKETBUF_ATTR_FRAME_TYPE < 8 \<and> packetbuf_attr pb PACKETBUF_ATTR_FRAME_TYPE \<noteq> ucast FRAME802154_ACKFRAME \<and>
     packetbuf_attr pb PACKETBUF_ATTR_MAC_ACK < 2 \<and> packetbuf_attr pb PACKETBUF_ATTR_MAC_METADATA < 2 \<and>
     packetbuf_attr pb PACKETBUF_ATTR_SECURITY_LEVEL < 8 \<and> packetbuf_attr pb PACKETBUF_ATTR_KEY_ID_MODE < 4 \<and>
     packetbuf_attr pb PACKETBUF_ATTR_MAC_NO_SRC_ADDR \<noteq> 1 \<and> packetbuf_attr pb PACKETBUF_ATTR_MAC_NO_DEST_ADDR \<noteq> 1 \<and>
     FRAME802154_VERSION cfg < 4 \<and> FRAME802154_SUPPR_SEQNO cfg < 2 \<and>
     packetbuf_addr pb PACKETBUF_ADDR_RECEIVER \<noteq> replicate 8 0xff"

lemma small_take_bit: "unat x < 2 ^ k \<Longrightarrow> take_bit k x = x" for x :: octet
  by (simp add: word_unat_eq_iff unsigned_take_bit_eq take_bit_nat_eq_self)

lemma narrow_unat: "w < 256 \<Longrightarrow> unat (ucast w :: octet) = unat w" for w :: "16 word"
  by (simp add: unsigned_ucast_eq take_bit_nat_eq_self word_less_nat_alt)

lemma widen_unat: "unat (ucast x :: 16 word) = unat x" for x :: octet
proof -
  have "unat x < 2 ^ 8" using unsigned_less [of x, where ?'a = nat] by simp
  then have "unat x < 2 ^ 16" by simp
  then show ?thesis by (simp add: unsigned_ucast_eq take_bit_nat_eq_self)
qed

lemma narrow_bits:
  fixes w :: "16 word"
  shows "w < 8 \<Longrightarrow> (ucast w :: octet) AND 7 = ucast w" "w < 4 \<Longrightarrow> (ucast w :: octet) AND 3 = ucast w" "w < 2 \<Longrightarrow> (ucast w :: octet) AND 1 = ucast w"
  unfolding octet_take by (rule small_take_bit; subst narrow_unat; simp add: word_less_nat_alt)+

lemma octet_bits:
  fixes x :: octet
  shows "x < 4 \<Longrightarrow> x AND 3 = x" "x < 2 \<Longrightarrow> x AND 1 = x"
  unfolding octet_take by (rule small_take_bit; simp add: word_less_nat_alt)+

lemma next_seqno_fields:
  assumes "s1 = next_seqno True rnd s"
  shows "packetbuf_attr (pbuf s1) t = (if t = PACKETBUF_ATTR_MAC_SEQNO then packetbuf_attr (pbuf s1) t else packetbuf_attr (pbuf s) t)"
    "packetbuf_addrs (pbuf s1) = packetbuf_addrs (pbuf s)" "pb_bytes (pbuf s1) = pb_bytes (pbuf s)" "buflen (pbuf s1) = buflen (pbuf s)"
    "bufptr (pbuf s1) = bufptr (pbuf s)" "pb_hdrlen (pbuf s1) = pb_hdrlen (pbuf s)" "mac_pan_id s1 = mac_pan_id s"
  unfolding assms by (simp_all add: next_seqno_def Let_def packetbuf_attr_def packetbuf_set_attr_def)

lemma mask_compression: "fcf_mask (f\<lparr>panid_compression := c\<rparr>) = (fcf_mask f)\<lparr>panid_compression := c AND 1\<rparr>"
  by (simp add: fcf_mask_def)

lemma frame_params_ok:
  fixes cfg s
  assumes "pb_ok (pbuf s)" "sendable cfg (pbuf s)"
  defines "p \<equiv> frame_params cfg s" and "bc \<equiv> packetbuf_holds_broadcast (pbuf s)"
  shows "frame_ok p" "no_long_counter p" "readable (set_compression p)" "scf_ok (security_control (aux_hdr p))"
    "dest_pid p = mac_pan_id s" "src_pid p = mac_pan_id s" "seqno p = ucast (packetbuf_attr (pbuf s) PACKETBUF_ATTR_MAC_SEQNO)"
    "dest_addr_mode (fcf p) = (if bc then 2 else 3)" "src_addr_mode (fcf p) = 3" "frame_version (fcf p) = FRAME802154_VERSION cfg"
    "frame_type (fcf p) = ucast (packetbuf_attr (pbuf s) PACKETBUF_ATTR_FRAME_TYPE)"
    "dest_addr p = (if bc then [0xff, 0xff, 0, 0, 0, 0, 0, 0] else packetbuf_addrs (pbuf s) PACKETBUF_ADDR_RECEIVER)"
    "src_addr p = packetbuf_addrs (pbuf s) PACKETBUF_ADDR_SENDER"
    "panid_compression (fcf p) = (if bc then 1 else 0)"
    "sequence_number_suppression (fcf p) = (if bc then if FRAME802154_VERSION cfg \<ge> FRAME802154_IEEE802154_2015 then 1 else 0 else FRAME802154_SUPPR_SEQNO cfg)"
proof -
  have addrs: "length (packetbuf_addrs (pbuf s) i) = 8" for i using assms(1) by (simp add: pb_ok_def LINKADDR_SIZE_def)
  note so = assms(2) [unfolded sendable_def packetbuf_attr_def packetbuf_addr_def]
  note defs = p_def frame_params_def framer_802154_setup_params_def setup_security_def Let_def packetbuf_attr_def packetbuf_addr_def LINKADDR_SIZE_def
    zero_frame_def bc_def [symmetric] frame802154_get_pan_id_def linkaddr_copy_def
  show "dest_pid p = mac_pan_id s" "src_pid p = mac_pan_id s" "seqno p = ucast (packetbuf_attr (pbuf s) PACKETBUF_ATTR_MAC_SEQNO)"
    and mode: "dest_addr_mode (fcf p) = (if bc then 2 else 3)" "src_addr_mode (fcf p) = 3" "frame_version (fcf p) = FRAME802154_VERSION cfg"
    and ty: "frame_type (fcf p) = ucast (packetbuf_attr (pbuf s) PACKETBUF_ATTR_FRAME_TYPE)"
    and comp: "panid_compression (fcf p) = (if bc then 1 else 0)"
    and "sequence_number_suppression (fcf p) = (if bc then if FRAME802154_VERSION cfg \<ge> FRAME802154_IEEE802154_2015 then 1 else 0 else FRAME802154_SUPPR_SEQNO cfg)"
    using so by (simp_all add: defs)
  show da: "dest_addr p = (if bc then [0xff, 0xff, 0, 0, 0, 0, 0, 0] else packetbuf_addrs (pbuf s) PACKETBUF_ADDR_RECEIVER)"
    and sa: "src_addr p = packetbuf_addrs (pbuf s) PACKETBUF_ADDR_SENDER"
    using addrs by (simp_all add: defs eval_nat_numeral)
  have aux: "security_level (security_control (aux_hdr p)) = (if USES_AUX_HEADER (llsec cfg) then ucast (packetbuf_attrs (pbuf s) PACKETBUF_ATTR_SECURITY_LEVEL) else 0)"
    "key_id_mode (security_control (aux_hdr p)) =
      (if USES_AUX_HEADER (llsec cfg) \<and> USES_EXPLICIT_KEYS (llsec cfg) then ucast (packetbuf_attrs (pbuf s) PACKETBUF_ATTR_KEY_ID_MODE) else 0)"
    "frame_counter_suppression (security_control (aux_hdr p)) = (if USES_AUX_HEADER (llsec cfg) then 1 else 0)"
    "frame_counter_size (security_control (aux_hdr p)) = (if USES_AUX_HEADER (llsec cfg) then 1 else 0)"
    "length (frame_counter (aux_hdr p)) = 4" "length (key_source (aux_hdr p)) = 8"
    by (simp_all add: defs)
  show "no_long_counter p" by (simp add: no_long_counter_def aux)
  show "scf_ok (security_control (aux_hdr p))" using so by (simp add: scf_ok_def aux narrow_bits)
  have "ucast (packetbuf_attrs (pbuf s) PACKETBUF_ATTR_KEY_ID_MODE) < (4 :: octet)"
    using so narrow_unat [of "packetbuf_attrs (pbuf s) PACKETBUF_ATTR_KEY_ID_MODE"] by (simp add: word_less_nat_alt)
  then show "frame_ok p" using addrs aux by (simp add: frame_ok_def da sa)
  have f: "fcf p = \<lparr>frame_type = ucast (packetbuf_attrs (pbuf s) PACKETBUF_ATTR_FRAME_TYPE),
      security_enabled = (if USES_AUX_HEADER (llsec cfg) \<and> packetbuf_attrs (pbuf s) PACKETBUF_ATTR_SECURITY_LEVEL \<noteq> 0 then 1 else 0),
      frame_pending = 0, ack_required = (if bc then 0 else ucast (packetbuf_attrs (pbuf s) PACKETBUF_ATTR_MAC_ACK)),
      panid_compression = (if bc then 1 else 0),
      sequence_number_suppression = (if bc then if FRAME802154_VERSION cfg \<ge> 2 then 1 else 0 else FRAME802154_SUPPR_SEQNO cfg),
      ie_list_present = ucast (packetbuf_attrs (pbuf s) PACKETBUF_ATTR_MAC_METADATA), dest_addr_mode = (if bc then 2 else 3),
      frame_version = FRAME802154_VERSION cfg, src_addr_mode = 3\<rparr>"
    using so by (simp add: defs)
  have "fcf_mask (fcf p) = fcf p" using so by (simp add: f fcf_mask_def narrow_bits octet_bits)
  then have "fcf_mask (fcf (set_compression p)) = fcf (set_compression p)" by (simp add: set_compression_def mask_compression)
  moreover have "dest_addr_mode (fcf (set_compression p)) = dest_addr_mode (fcf p)" "src_addr_mode (fcf (set_compression p)) = src_addr_mode (fcf p)"
    by (simp_all add: set_compression_def)
  ultimately show "readable (set_compression p)" using mode by (simp add: readable_def)
qed

lemma sent_panids:
  fixes p :: frame802154_t
  assumes "src_pid p = dest_pid p" "dest_addr_mode (fcf p) = (if bc then 2 else 3)" "src_addr_mode (fcf p) = 3" "frame_type (fcf p) \<noteq> 2"
    "panid_compression (fcf p) = (if bc then 1 else 0)"
  shows "snd (frame802154_has_panid (fcf (set_compression p)))"
  using assms by (auto simp: frame802154_has_panid_def Let_def set_compression_def)

lemma broadcast_iff: "length addr = 8 \<Longrightarrow> broadcast_addr_loop 8 addr \<longleftrightarrow> addr = replicate 8 0xff"
proof -
  have "broadcast_addr_loop n addr \<longleftrightarrow> (\<forall>i < n. addr ! i = 0xff)" for n by (induction n) (auto simp: less_Suc_eq)
  then show "length addr = 8 \<Longrightarrow> broadcast_addr_loop 8 addr \<longleftrightarrow> addr = replicate 8 0xff" by (auto simp: list_eq_iff_nth_eq)
qed

section \<open>Sending\<close>

lemma sendable_seqno:
  assumes "s1 = next_seqno True rnd s"
  shows "sendable cfg (pbuf s1) = sendable cfg (pbuf s)" "pb_ok (pbuf s1) = pb_ok (pbuf s)" "pb_data (pbuf s1) = pb_data (pbuf s)"
    "packetbuf_holds_broadcast (pbuf s1) = packetbuf_holds_broadcast (pbuf s)"
proof -
  note f = next_seqno_fields [OF assms]
  have a: "packetbuf_attr (pbuf s1) t = packetbuf_attr (pbuf s) t" if "t \<noteq> PACKETBUF_ATTR_MAC_SEQNO" for t using f(1) [of t] that by simp
  show "sendable cfg (pbuf s1) = sendable cfg (pbuf s)" by (simp add: sendable_def a packetbuf_addr_def f)
  show "pb_ok (pbuf s1) = pb_ok (pbuf s)" "pb_data (pbuf s1) = pb_data (pbuf s)" "packetbuf_holds_broadcast (pbuf s1) = packetbuf_holds_broadcast (pbuf s)"
    by (simp_all add: pb_ok_def pb_data_def packetbuf_dataptr_def packetbuf_hdrlen_def packetbuf_holds_broadcast_def f)
qed

text \<open>The header goes in front of the data.\<close>

lemma framer_create_spec:
  fixes rnd :: "16 word" and cfg s
  assumes "pb_ok (pbuf s)" "bufptr (pbuf s) = 0" "pb_hdrlen (pbuf s) = 0" "buflen (pbuf s) \<le> PACKETBUF_SIZE - 37" "sendable cfg (pbuf s)" "mac_pan_id s \<noteq> 0xffff"
  defines "s1 \<equiv> next_seqno True rnd s"
  defines "h \<equiv> header_bytes (llsec cfg) (set_compression (frame_params cfg s1))"
  shows "\<exists>s'. framer_create cfg rnd s = Some (int (length h), s') \<and> packetbuf_attrs (pbuf s') = packetbuf_attrs (pbuf s1) \<and>
    (\<forall>to. packetbuf_copyto to (pbuf s') = (length h + buflen (pbuf s), h @ pb_data (pbuf s) @ drop (length h + buflen (pbuf s)) to)) \<and>
    length h \<le> 37"
proof -
  note q = sendable_seqno [OF s1_def [THEN meta_eq_to_obj_eq]] and f = next_seqno_fields [OF s1_def [THEN meta_eq_to_obj_eq]]
  let ?p = "frame_params cfg s1" and ?n = "length h"
  have ok1: "pb_ok (pbuf s1)" "sendable cfg (pbuf s1)" using assms(1,5) q by simp_all
  note fp = frame_params_ok [OF ok1]
  have hl: "frame802154_hdrlen (llsec cfg) ?p = (?n, set_compression ?p)" "?n \<le> 37"
    using length_header_bytes [OF fp(1,2), of "llsec cfg"] by (simp_all add: h_def)
  obtain ok pb where al: "packetbuf_hdralloc ?n (pbuf s1) = (ok, pb)" by (cases "packetbuf_hdralloc ?n (pbuf s1)")
  note a = hdralloc_ok [OF ok1(1) al]
  have ok: ok using a(2) hl(2) assms(2,3,4) f by (simp add: PACKETBUF_SIZE_def)
  have c: "set_compression (set_compression ?p) = set_compression ?p" by (simp add: set_compression_def)
  have fp2: "frame_ok (set_compression ?p)" "no_long_counter (set_compression ?p)"
    using fp(1,2) by (simp_all add: frame_ok_def no_long_counter_def set_compression_def)
  have len: "length (pb_bytes pb) = 128" using a(1) by (simp add: pb_ok_def PACKETBUF_SIZE_def)
  have cr: "frame802154_create (llsec cfg) (set_compression ?p) (packetbuf_hdrptr pb) = Some (?n, set_compression ?p, h @ drop ?n (pb_bytes pb))"
    using frame802154_create_eq [OF fp2, of "llsec cfg" "packetbuf_hdrptr pb"] hl(2) len
    by (simp add: c h_def [symmetric] packetbuf_hdrptr_def)
  let ?s' = "s1\<lparr>pbuf := pb\<lparr>pb_bytes := h @ drop ?n (pb_bytes pb)\<rparr>\<rparr>"
  have run: "framer_create cfg rnd s = Some (int ?n, ?s')"
    using assms(6) hl(1) al ok cr by (simp add: framer_create_def create_frame_def frame802154_get_pan_id_def s1_def [symmetric] Let_def)
  have hp: "pb_hdrlen pb = ?n" "bufptr pb = 0" "buflen pb = buflen (pbuf s)" using a(9) [OF ok] a(4,5) f assms(2,3) by simp_all
  have "take (buflen pb) (drop ?n (pb_bytes pb)) = pb_data (pbuf s)"
    using a(3) q(3) hp hl(2) by (simp add: pb_data_def packetbuf_dataptr_def packetbuf_hdrlen_def)
  moreover have "?n + buflen (pbuf s) \<le> PACKETBUF_SIZE" using assms(4) hl(2) by (simp add: PACKETBUF_SIZE_def)
  ultimately have "packetbuf_copyto to (pbuf ?s') = (?n + buflen (pbuf s), h @ pb_data (pbuf s) @ drop (?n + buflen (pbuf s)) to)" for to
    using hp hl(2) by (simp add: packetbuf_copyto_def packetbuf_hdrptr_def packetbuf_dataptr_def packetbuf_hdrlen_def)
  moreover have "packetbuf_attrs (pbuf ?s') = packetbuf_attrs (pbuf s1)" using a(6) by simp
  ultimately show ?thesis using run hl(2) by blast
qed

section \<open>Receiving\<close>

lemma store_security_fields [simp]:
  "pb_bytes (store_security cfg fr pb) = pb_bytes pb" "buflen (store_security cfg fr pb) = buflen pb" "bufptr (store_security cfg fr pb) = bufptr pb"
  "pb_hdrlen (store_security cfg fr pb) = pb_hdrlen pb" "packetbuf_addrs (store_security cfg fr pb) = packetbuf_addrs pb"
  "t \<notin> {PACKETBUF_ATTR_SECURITY_LEVEL, PACKETBUF_ATTR_KEY_ID_MODE, PACKETBUF_ATTR_KEY_INDEX} \<Longrightarrow>
     packetbuf_attrs (store_security cfg fr pb) t = packetbuf_attrs pb t"
  by (simp_all add: store_security_def Let_def packetbuf_set_attr_def)

lemma received_header:
  assumes "pb_ok pb" "bufptr pb = 0" "pb_hdrlen pb = 0" "pb_data pb = h @ data" "h = header_bytes (llsec cfg) p"
    "frame_ok p" "readable p" "no_long_counter p" "scf_ok (security_control (aux_hdr p))" "frame_ok frame0" "pbuf r = pb"
  shows "frame802154_parse (llsec cfg) (packetbuf_dataptr (pbuf r)) (int (packetbuf_datalen (pbuf r))) frame0 =
      Some (length h, read_frame (llsec cfg) p (int (buflen pb)) frame0)"
    "h \<noteq> []" "length h \<le> buflen pb"
proof -
  have dp: "packetbuf_dataptr pb = pb_bytes pb" using assms(2,3) by (simp add: packetbuf_dataptr_def packetbuf_hdrlen_def)
  have lb: "length (pb_bytes pb) = 128" "buflen pb \<le> 128" using assms(1) by (simp_all add: pb_ok_def PACKETBUF_SIZE_def)
  have bytes: "take (buflen pb) (pb_bytes pb) = h @ data" using assms(4) dp by (simp add: pb_data_def)
  then have nb: "length h + length data = buflen pb" using lb by (metis length_append length_take min.absorb2)
  then show "length h \<le> buflen pb" by simp
  have h2: "2 \<le> length h" unfolding assms(5) by (simp add: header_bytes_def frame802154_create_fcf_def)
  then show "h \<noteq> []" by auto
  have split: "pb_bytes pb = h @ (data @ drop (buflen pb) (pb_bytes pb))" using bytes by (metis append_assoc append_take_drop_id)
  show "frame802154_parse (llsec cfg) (packetbuf_dataptr (pbuf r)) (int (packetbuf_datalen (pbuf r))) frame0 =
      Some (length h, read_frame (llsec cfg) p (int (buflen pb)) frame0)"
    using parse_written [OF assms(6-10), of "int (buflen pb)" "llsec cfg" "data @ drop (buflen pb) (pb_bytes pb)"] h2 nb
    unfolding assms(11) dp packetbuf_datalen_def assms(5) [symmetric] split [symmetric] by simp
qed

lemma framer_parse_spec:
  assumes "pb_ok pb" "bufptr pb = 0" "pb_hdrlen pb = 0" "pb_data pb = h @ data" "h = header_bytes (llsec cfg) p"
    "frame_ok p" "readable p" "no_long_counter p" "scf_ok (security_control (aux_hdr p))" "frame_ok frame0"
    "dest_pid p = mac_pan_id r" "snd (frame802154_has_panid (fcf p))" "pbuf r = pb"
  shows "\<exists>r'. framer_parse cfg frame0 r = Some (int (length h), r') \<and> pb_data (pbuf r') = data \<and>
    packetbuf_attr (pbuf r') PACKETBUF_ATTR_FRAME_TYPE = ucast (frame_type (fcf p)) \<and>
    packetbuf_attr (pbuf r') PACKETBUF_ATTR_MAC_SEQNO = (if sequence_number_suppression (fcf p) = 0 then ucast (seqno p) else 0xffff) \<and>
    packetbuf_addr (pbuf r') PACKETBUF_ADDR_SENDER = on_air (src_addr_mode (fcf p)) (src_addr p) \<and>
    packetbuf_addr (pbuf r') PACKETBUF_ADDR_RECEIVER =
      (let a = on_air (dest_addr_mode (fcf p)) (dest_addr p)
       in if frame802154_is_broadcast_addr (dest_addr_mode (fcf p)) a then packetbuf_addrs pb PACKETBUF_ADDR_RECEIVER else a)"
proof -
  let ?q = "read_frame (llsec cfg) p (int (buflen pb)) frame0" and ?n = "length h"
  note ps = received_header [OF assms(1-10,13)]
  obtain ok pb1 where red: "packetbuf_hdrreduce ?n pb = (ok, pb1)" by (cases "packetbuf_hdrreduce ?n pb")
  note d = hdrreduce_ok [OF assms(1) red]
  have ok: ok using d(2) ps(3) by simp
  have data: "pb_data pb1 = data" using d(3) [OF ok] assms(4) by simp
  have qf: "fcf ?q = fcf p" "dest_pid ?q = mac_pan_id r" "dest_addr ?q = on_air (dest_addr_mode (fcf p)) (dest_addr p)"
    "src_addr ?q = on_air (src_addr_mode (fcf p)) (src_addr p)" "sequence_number_suppression (fcf p) = 0 \<Longrightarrow> seqno ?q = seqno p"
    using assms(11,12) by (simp_all add: read_frame_def Let_def read_dest_pid_def)
  have dm: "dest_addr_mode (fcf p) \<noteq> 0" using readable_modes(5) [OF assms(7)] assms(12) by blast
  have al: "length (on_air m a) = 8" if "length a = 8" for m a using that by (simp add: on_air_def)
  have l8: "length (src_addr p) = 8" "length (dest_addr p) = 8" "length (packetbuf_addrs pb1 i) = 8" for i
    using assms(6) d(1) by (simp_all add: frame_ok_def pb_ok_def LINKADDR_SIZE_def)
  define pb2 where "pb2 = packetbuf_set_attr PACKETBUF_ATTR_FRAME_TYPE (ucast (frame_type (fcf p))) pb1"
  define pb3 where "pb3 = (if \<not> frame802154_is_broadcast_addr (dest_addr_mode (fcf p)) (dest_addr ?q) then packetbuf_set_addr PACKETBUF_ADDR_RECEIVER (dest_addr ?q) pb2 else pb2)"
  define pb4 where "pb4 = packetbuf_set_attr PACKETBUF_ATTR_MAC_SEQNO (if sequence_number_suppression (fcf p) = 0 then ucast (seqno ?q) else 0xffff)
    (packetbuf_set_addr PACKETBUF_ADDR_SENDER (src_addr ?q) pb3)"
  let ?r' = "r\<lparr>pbuf := store_security (llsec cfg) ?q pb4\<rparr>"
  have run: "framer_parse cfg frame0 r = Some (int ?n, ?r')"
    unfolding framer_parse_def ps(1) using ps(2) red ok qf dm
    by (simp add: Let_def assms(13) frame802154_get_pan_id_def pb2_def [symmetric] pb3_def [symmetric] pb4_def [symmetric])
      (simp add: pb4_def pb3_def pb2_def)
  have "pb_data (pbuf ?r') = pb_data pb1"
    by (simp add: pb_data_def packetbuf_dataptr_def packetbuf_hdrlen_def pb4_def pb3_def pb2_def packetbuf_set_attr_def packetbuf_set_addr_def)
  moreover have "packetbuf_addrs pb1 = packetbuf_addrs pb" using d(6) .
  ultimately show ?thesis using run data qf(5) l8 al
    by (simp add: packetbuf_attr_def packetbuf_addr_def pb4_def pb3_def pb2_def packetbuf_set_attr_def packetbuf_set_addr_def Let_def qf(3,4)
        linkaddr_copy_def LINKADDR_SIZE_def)
qed

section \<open>Properties\<close>

definition sample_packet :: framer_state where
  "sample_packet = \<lparr>mac_dsn = 0, initialized = False, mac_pan_id = 0xABCD,
     pbuf = \<lparr>pb_bytes = replicate 128 7, buflen = 10, bufptr = 0, pb_hdrlen = 0,
       packetbuf_attrs = (\<lambda>_. 0)(PACKETBUF_ATTR_FRAME_TYPE := 1), packetbuf_addrs = (\<lambda>_. [1, 2, 3, 4, 5, 6, 7, 8])\<rparr>\<rparr>"

lemma sample_packet_ok: "pb_ok (pbuf sample_packet)"
  by (simp add: pb_ok_def sample_packet_def PACKETBUF_SIZE_def LINKADDR_SIZE_def)

lemma sample_packet_sendable:
  assumes "FRAME802154_VERSION cfg < 4" "FRAME802154_SUPPR_SEQNO cfg < 2"
  shows "sendable cfg (pbuf sample_packet)"
proof -
  have "[1, 2, 3, 4, 5, 6, 7, 8] ! 0 \<noteq> replicate 8 (0xff :: octet) ! 0" by simp
  then have "[1, 2, 3, 4, 5, 6, 7, 8] \<noteq> replicate 8 (0xff :: octet)" by metis
  then show ?thesis using assms by (simp add: sendable_def sample_packet_def packetbuf_attr_def packetbuf_addr_def)
qed

text \<open>
  C4: A packet of up to 91 bytes that one node frames, takes out of its packet buffer and sends, and
  that another node of the same network puts in its packet buffer and parses, arrives with its
  data, sender, receiver (null for a broadcast), frame type and the low byte of its sequence
  number, whatever was in the receiver's buffer and in its local frame variable before. The number
  is 0xffff exactly when the frame leaves it out: a broadcast of version 2015 or later, or a
  unicast with the suppression configured. The packet starts at the beginning of the buffer with no
  header, its attributes are within the width of the header fields, its type is not an
  acknowledgement, both addresses are put in the header, the receiver's is not eight bytes 0xff, and
  the network has a PAN identifier other than the broadcast one.
\<close>

theorem framer_delivers:
  assumes "pb_ok (pbuf s)" "bufptr (pbuf s) = 0" "pb_hdrlen (pbuf s) = 0" "buflen (pbuf s) \<le> PACKETBUF_SIZE - 37"
    and "sendable cfg (pbuf s)" "mac_pan_id s \<noteq> 0xffff" "mac_pan_id r = mac_pan_id s"
    and "length (pb_bytes (pbuf r)) = PACKETBUF_SIZE" "\<forall>i. length (packetbuf_addrs (pbuf r) i) = LINKADDR_SIZE" "frame_ok frame0"
  shows "\<exists>n s' l air l' pb r'. framer_create cfg rnd s = Some (n, s') \<and> packetbuf_copyto to (pbuf s') = (l, air) \<and>
    packetbuf_copyfrom air l (pbuf r) = (l', pb) \<and> framer_parse cfg frame0 (r\<lparr>pbuf := pb\<rparr>) = Some (n, r') \<and> 0 < n \<and>
    pb_data (pbuf r') = pb_data (pbuf s) \<and>
    packetbuf_addr (pbuf r') PACKETBUF_ADDR_SENDER = packetbuf_addr (pbuf s) PACKETBUF_ADDR_SENDER \<and>
    packetbuf_addr (pbuf r') PACKETBUF_ADDR_RECEIVER = packetbuf_addr (pbuf s) PACKETBUF_ADDR_RECEIVER \<and>
    packetbuf_attr (pbuf r') PACKETBUF_ATTR_FRAME_TYPE = packetbuf_attr (pbuf s) PACKETBUF_ATTR_FRAME_TYPE \<and>
    packetbuf_attr (pbuf r') PACKETBUF_ATTR_MAC_SEQNO =
      (if (if packetbuf_holds_broadcast (pbuf s) then FRAME802154_VERSION cfg \<ge> FRAME802154_IEEE802154_2015 else FRAME802154_SUPPR_SEQNO cfg \<noteq> 0)
       then 0xffff else packetbuf_attr (pbuf s') PACKETBUF_ATTR_MAC_SEQNO AND 0xff)"
proof -
  define s1 where "s1 = next_seqno True rnd s"
  note q = sendable_seqno [OF s1_def] and f = next_seqno_fields [OF s1_def]
  have ok1: "pb_ok (pbuf s1)" "sendable cfg (pbuf s1)" using assms(1,5) q by simp_all
  note fp = frame_params_ok [OF ok1]
  define p where "p = set_compression (frame_params cfg s1)"
  define h where "h = header_bytes (llsec cfg) p"
  obtain s' where cr: "framer_create cfg rnd s = Some (int (length h), s')" "packetbuf_attrs (pbuf s') = packetbuf_attrs (pbuf s1)"
      "packetbuf_copyto to (pbuf s') = (length h + buflen (pbuf s), h @ pb_data (pbuf s) @ drop (length h + buflen (pbuf s)) to)" "length h \<le> 37"
    using framer_create_spec [OF assms(1-6), of rnd] unfolding s1_def [symmetric] p_def [symmetric] h_def [symmetric] by blast
  let ?air = "h @ pb_data (pbuf s) @ drop (length h + buflen (pbuf s)) to" and ?l = "length h + buflen (pbuf s)"
  have ld: "length (pb_data (pbuf s)) = buflen (pbuf s)"
    using assms(1-3) by (simp add: pb_data_def packetbuf_dataptr_def packetbuf_hdrlen_def pb_ok_def)
  obtain l' pb where cf: "packetbuf_copyfrom ?air ?l (pbuf r) = (l', pb)" by (cases "packetbuf_copyfrom ?air ?l (pbuf r)")
  have "?l \<le> length ?air" using ld by simp
  note c = copyfrom_ok [OF assms(8,9) this cf]
  have "?l \<le> PACKETBUF_SIZE" using cr(4) assms(4) by (simp add: PACKETBUF_SIZE_def)
  then have data: "pb_data pb = h @ pb_data (pbuf s)" using c(2,3) ld by simp
  have same: "dest_addr p = dest_addr (frame_params cfg s1)" "src_addr p = src_addr (frame_params cfg s1)" "aux_hdr p = aux_hdr (frame_params cfg s1)"
    "seqno p = seqno (frame_params cfg s1)" "dest_pid p = dest_pid (frame_params cfg s1)" "dest_addr_mode (fcf p) = dest_addr_mode (fcf (frame_params cfg s1))"
    "src_addr_mode (fcf p) = src_addr_mode (fcf (frame_params cfg s1))" "frame_type (fcf p) = frame_type (fcf (frame_params cfg s1))"
    by (simp_all add: p_def set_compression_def)
  have pok: "frame_ok p" "readable p" "no_long_counter p" "scf_ok (security_control (aux_hdr p))"
    using fp(1-4) by (simp_all add: frame_ok_def no_long_counter_def same p_def [symmetric])
  have ty: "packetbuf_attr (pbuf s1) PACKETBUF_ATTR_FRAME_TYPE = packetbuf_attr (pbuf s) PACKETBUF_ATTR_FRAME_TYPE" by (subst f(1)) simp
  have t8: "packetbuf_attr (pbuf s) PACKETBUF_ATTR_FRAME_TYPE < 8" "packetbuf_attr (pbuf s) PACKETBUF_ATTR_FRAME_TYPE \<noteq> 2" using assms(5) by (simp_all add: sendable_def)
  have tu: "unat (ucast (packetbuf_attr (pbuf s) PACKETBUF_ATTR_FRAME_TYPE) :: octet) = unat (packetbuf_attr (pbuf s) PACKETBUF_ATTR_FRAME_TYPE)"
    using t8(1) by (intro narrow_unat) (simp add: word_less_nat_alt)
  have na: "frame_type (fcf (frame_params cfg s1)) \<noteq> 2" using fp(11) ty tu t8(2) by (auto simp: word_unat_eq_iff)
  have wide: "(ucast (ucast (packetbuf_attr (pbuf s) PACKETBUF_ATTR_FRAME_TYPE) :: octet) :: 16 word) = packetbuf_attr (pbuf s) PACKETBUF_ATTR_FRAME_TYPE"
    by (simp only: word_unat_eq_iff widen_unat tu)
  have pan: "dest_pid p = mac_pan_id (r\<lparr>pbuf := pb\<rparr>)" using fp(5) same(5) assms(7) f(7) by simp
  have hd: "snd (frame802154_has_panid (fcf p))" unfolding p_def using fp(5,6) by (intro sent_panids [OF _ fp(8,9) na fp(14)]) simp
  obtain r' where r': "framer_parse cfg frame0 (r\<lparr>pbuf := pb\<rparr>) = Some (int (length h), r')" "pb_data (pbuf r') = pb_data (pbuf s)"
    "packetbuf_attr (pbuf r') PACKETBUF_ATTR_FRAME_TYPE = ucast (frame_type (fcf p))"
    "packetbuf_attr (pbuf r') PACKETBUF_ATTR_MAC_SEQNO = (if sequence_number_suppression (fcf p) = 0 then ucast (seqno p) else 0xffff)"
    "packetbuf_addr (pbuf r') PACKETBUF_ADDR_SENDER = on_air (src_addr_mode (fcf p)) (src_addr p)"
    "packetbuf_addr (pbuf r') PACKETBUF_ADDR_RECEIVER =
      (let a = on_air (dest_addr_mode (fcf p)) (dest_addr p)
       in if frame802154_is_broadcast_addr (dest_addr_mode (fcf p)) a then packetbuf_addrs pb PACKETBUF_ADDR_RECEIVER else a)"
    using framer_parse_spec [OF c(1,4,5) data h_def pok assms(10) pan hd] by auto
  have rec: "packetbuf_addr (pbuf r') PACKETBUF_ADDR_RECEIVER = packetbuf_addr (pbuf s) PACKETBUF_ADDR_RECEIVER"
  proof -
    have l8: "length (packetbuf_addrs (pbuf s) PACKETBUF_ADDR_RECEIVER) = 8" using assms(1) by (simp add: pb_ok_def LINKADDR_SIZE_def)
    show ?thesis
    proof (cases "packetbuf_holds_broadcast (pbuf s)")
      case True
      then have "packetbuf_addrs (pbuf s) PACKETBUF_ADDR_RECEIVER = linkaddr_null"
        using l8 by (simp add: packetbuf_holds_broadcast_def linkaddr_cmp_def linkaddr_null_def LINKADDR_SIZE_def)
      then show ?thesis using r'(6) fp(8,12) same True q(4) c(8)
        by (simp add: frame802154_is_broadcast_addr_def on_air_def packetbuf_addr_def eval_nat_numeral)
    next
      case False
      have "packetbuf_addrs (pbuf s) PACKETBUF_ADDR_RECEIVER \<noteq> replicate 8 0xff" using assms(5) by (simp add: sendable_def packetbuf_addr_def)
      then show ?thesis using r'(6) fp(8,12) same False q(4) f(2) broadcast_iff [OF l8]
        by (simp add: frame802154_is_broadcast_addr_def on_air_def packetbuf_addr_def)
    qed
  qed
  have snd: "packetbuf_addr (pbuf r') PACKETBUF_ADDR_SENDER = packetbuf_addr (pbuf s) PACKETBUF_ADDR_SENDER"
    using r'(5) fp(9,13) same f(2) by (simp add: on_air_def packetbuf_addr_def)
  have low: "(ucast (ucast w :: octet) :: 16 word) = w AND 0xff" for w :: "16 word"
  proof -
    have m: "(0xff :: 16 word) = mask 8" by (simp add: mask_eq_exp_minus_1)
    show ?thesis unfolding m by (rule bit_word_eqI) (auto simp: bit_simps)
  qed
  have "sequence_number_suppression (fcf p) = sequence_number_suppression (fcf (frame_params cfg s1))" by (simp add: p_def set_compression_def)
  then have sq: "packetbuf_attr (pbuf r') PACKETBUF_ATTR_MAC_SEQNO =
      (if (if packetbuf_holds_broadcast (pbuf s) then FRAME802154_VERSION cfg \<ge> FRAME802154_IEEE802154_2015 else FRAME802154_SUPPR_SEQNO cfg \<noteq> 0)
       then 0xffff else packetbuf_attr (pbuf s') PACKETBUF_ATTR_MAC_SEQNO AND 0xff)"
    using r'(4) fp(7,15) same(4) cr(2) low q(4) by (simp add: packetbuf_attr_def)
  have pos: "0 < int (length h)" by (simp add: h_def header_bytes_def frame802154_create_fcf_def)
  show ?thesis using cr(1,3) cf r'(1,2) rec snd sq pos r'(3) fp(11) ty wide same(8) by (auto intro!: exI)
qed

theorem framer_delivers_witness:
  "\<exists>n s' l air l' pb r'. framer_create \<lparr>llsec = \<lparr>USES_AUX_HEADER = False, USES_EXPLICIT_KEYS = False\<rparr>, FRAME802154_VERSION = 1, FRAME802154_SUPPR_SEQNO = 0\<rparr> 9 sample_packet = Some (n, s') \<and>
     packetbuf_copyto [] (pbuf s') = (l, air) \<and> packetbuf_copyfrom air l (pbuf sample_packet) = (l', pb) \<and>
     framer_parse \<lparr>llsec = \<lparr>USES_AUX_HEADER = False, USES_EXPLICIT_KEYS = False\<rparr>, FRAME802154_VERSION = 1, FRAME802154_SUPPR_SEQNO = 0\<rparr> zero_frame
       (sample_packet\<lparr>pbuf := pb\<rparr>) = Some (n, r') \<and> pb_data (pbuf r') = replicate 10 7 \<and>
     packetbuf_attr (pbuf r') PACKETBUF_ATTR_MAC_SEQNO = packetbuf_attr (pbuf s') PACKETBUF_ATTR_MAC_SEQNO AND 0xff"
proof -
  let ?cfg = "\<lparr>llsec = \<lparr>USES_AUX_HEADER = False, USES_EXPLICIT_KEYS = False\<rparr>, FRAME802154_VERSION = 1, FRAME802154_SUPPR_SEQNO = 0\<rparr>"
  have ok: "pb_ok (pbuf sample_packet)" "sendable ?cfg (pbuf sample_packet)" by (rule sample_packet_ok, rule sample_packet_sendable) simp_all
  have f: "bufptr (pbuf sample_packet) = 0" "pb_hdrlen (pbuf sample_packet) = 0" "buflen (pbuf sample_packet) \<le> PACKETBUF_SIZE - 37" "mac_pan_id sample_packet \<noteq> 0xffff"
    "length (pb_bytes (pbuf sample_packet)) = PACKETBUF_SIZE" "\<forall>i. length (packetbuf_addrs (pbuf sample_packet) i) = LINKADDR_SIZE" "frame_ok zero_frame"
    by (simp_all add: sample_packet_def PACKETBUF_SIZE_def LINKADDR_SIZE_def frame_ok_def zero_frame_def)
  have "pb_data (pbuf sample_packet) = replicate 10 7" by (simp add: pb_data_def packetbuf_dataptr_def packetbuf_hdrlen_def sample_packet_def)
  moreover have "(if packetbuf_holds_broadcast (pbuf sample_packet) then FRAME802154_VERSION ?cfg \<ge> FRAME802154_IEEE802154_2015
      else FRAME802154_SUPPR_SEQNO ?cfg \<noteq> 0) \<longleftrightarrow> False" by (simp add: word_le_nat_alt)
  note framer_delivers [OF ok(1) f(1-3) ok(2) f(4) refl f(5-7), of 9 "[]", unfolded this if_False]
  ultimately show ?thesis by fastforce
qed

section \<open>Packets that do not arrive as they were sent\<close>

text \<open>
  A broadcast without source address in a frame of version 2015: the framer sets the compression
  bit, which for these address modes means that there is no PAN identifier at all, and the
  receiver takes the frame for one of another network and drops it.
\<close>

theorem framer_anonymous_broadcast_no_panid:
  assumes "packetbuf_holds_broadcast (pbuf s)" "packetbuf_attr (pbuf s) PACKETBUF_ATTR_MAC_NO_SRC_ADDR = 1"
    "packetbuf_attr (pbuf s) PACKETBUF_ATTR_MAC_NO_DEST_ADDR \<noteq> 1" "FRAME802154_VERSION cfg = FRAME802154_IEEE802154_2015"
  shows "frame802154_has_panid (fcf (frame_params cfg s)) = (False, False) \<and> dest_addr_mode (fcf (frame_params cfg s)) \<noteq> 0"
  using assms by (simp add: frame_params_def framer_802154_setup_params_def setup_security_def Let_def frame802154_has_panid_def)

theorem framer_drops_without_panid:
  assumes "pb_ok pb" "bufptr pb = 0" "pb_hdrlen pb = 0" "pb_data pb = header_bytes (llsec cfg) p @ data"
    "frame_ok p" "readable p" "no_long_counter p" "scf_ok (security_control (aux_hdr p))" "frame_ok frame0"
    "frame802154_has_panid (fcf p) = (False, False)" "dest_addr_mode (fcf p) \<noteq> 0" "pbuf r = pb" "mac_pan_id r \<noteq> 0"
  shows "\<exists>r'. framer_parse cfg frame0 r = Some (FRAMER_FAILED, r')"
proof -
  note ps = received_header [OF assms(1-4) refl assms(5-9,12)]
  obtain ok pb1 where red: "packetbuf_hdrreduce (length (header_bytes (llsec cfg) p)) pb = (ok, pb1)" by (rule prod.exhaust)
  have q: "fcf (read_frame (llsec cfg) p (int (buflen pb)) frame0) = fcf p" "dest_pid (read_frame (llsec cfg) p (int (buflen pb)) frame0) = 0"
    using assms(10) by (simp_all add: read_frame_def Let_def read_dest_pid_def)
  show ?thesis unfolding framer_parse_def ps(1) using q assms(11,12,13) red ps(2)
    by (cases ok) (auto simp: Let_def frame802154_get_pan_id_def)
qed

text \<open>
  A source address mode that is reserved: no address is read, and the sender that is reported is
  what the local variable held before.
\<close>

theorem framer_reserved_mode_sender:
  assumes "length (pb_bytes pb) = PACKETBUF_SIZE" "\<forall>i. length (packetbuf_addrs pb i) = LINKADDR_SIZE" "frame_ok frame0" "\<not> USES_AUX_HEADER (llsec cfg)"
    "packetbuf_copyfrom [0x01, 0x40, 0, 0xCD, 0xAB] 5 pb = (5, pb')" "pbuf r = pb'"
  shows "\<exists>r'. framer_parse cfg frame0 r = Some (5, r') \<and> packetbuf_addr (pbuf r') PACKETBUF_ADDR_SENDER = src_addr frame0"
proof -
  have "(5 :: nat) \<le> length [0x01, 0x40, 0, 0xCD, 0xAB :: octet]" by simp
  note c = copyfrom_ok [OF assms(1,2) this assms(5)]
  have dp: "packetbuf_dataptr pb' = [0x01, 0x40, 0, 0xCD, 0xAB] @ drop 5 (pb_bytes pb)"
    using assms(5) by (auto simp: packetbuf_copyfrom_def Let_def PACKETBUF_SIZE_def packetbuf_dataptr_def packetbuf_hdrlen_def packetbuf_clear_def packetbuf_attr_clear_def)
  have len: "length (src_addr frame0) = 8" "length (packetbuf_addrs pb' i) = 8" for i
    using assms(3) c(1) by (simp_all add: frame_ok_def pb_ok_def LINKADDR_SIZE_def)
  have "\<exists>q. frame802154_parse (llsec cfg) (packetbuf_dataptr pb') 5 frame0 = Some (5, q) \<and> src_addr q = src_addr frame0 \<and> fcf q = fcf q \<and>
      dest_addr_mode (fcf q) = 0"
    unfolding dp using assms(4)
    by (simp add: frame802154_parse_def frame802154_parse_fcf_def get_def Let_def parse_dest_def parse_src_def frame802154_has_panid_def get_pid_def get_addr_def)
  then obtain q where q: "frame802154_parse (llsec cfg) (packetbuf_dataptr pb') 5 frame0 = Some (5, q)" "src_addr q = src_addr frame0" "dest_addr_mode (fcf q) = 0" by blast
  obtain pb1 where red: "packetbuf_hdrreduce 5 pb' = (True, pb1)" "packetbuf_addrs pb1 = packetbuf_addrs pb'"
    using c(6) by (simp add: packetbuf_hdrreduce_def PACKETBUF_SIZE_def)
  show ?thesis unfolding framer_parse_def
    using q red c(6) assms(6) len
    by (simp add: Let_def packetbuf_datalen_def PACKETBUF_SIZE_def packetbuf_addr_def packetbuf_set_addr_def packetbuf_set_attr_def linkaddr_copy_def LINKADDR_SIZE_def)
qed

end
