(* ===== verification/Py_Unicode.thy ===== *)
theory Py_Unicode
  imports Py_Obj "HOL-Library.Monad_Syntax"
begin

unbundle bit_operations_syntax

text \<open>
  Characters and UTF-8 text (\<open>py/unicode.c\<close>): the classification table of the ASCII characters, the
  routines that walk over UTF-8 text by reading memory until a byte that does not continue a
  character, and the validity check. Memory is a list of bytes and a pointer an index into it;
  \<^term>\<open>None\<close> is a read outside the memory. The configuration is the one with
  \<open>MICROPY_PY_BUILTINS_STR_UNICODE\<close>, and machine words have 32 bits.
\<close>

type_synonym unichar = "32 word"

section \<open>Classes of ASCII characters\<close>

definition FL_PRINT :: byte where "FL_PRINT = 0x01"
definition FL_SPACE :: byte where "FL_SPACE = 0x02"
definition FL_DIGIT :: byte where "FL_DIGIT = 0x04"
definition FL_ALPHA :: byte where "FL_ALPHA = 0x08"
definition FL_UPPER :: byte where "FL_UPPER = 0x10"
definition FL_LOWER :: byte where "FL_LOWER = 0x20"
definition FL_XDIGIT :: byte where "FL_XDIGIT = 0x40"

definition AT_PR :: byte where "AT_PR = FL_PRINT"
definition AT_SP :: byte where "AT_SP = FL_SPACE OR FL_PRINT"
definition AT_DI :: byte where "AT_DI = FL_DIGIT OR FL_PRINT OR FL_XDIGIT"
definition AT_UP :: byte where "AT_UP = FL_UPPER OR FL_ALPHA OR FL_PRINT"
definition AT_LO :: byte where "AT_LO = FL_LOWER OR FL_ALPHA OR FL_PRINT"
definition AT_UX :: byte where "AT_UX = FL_UPPER OR FL_ALPHA OR FL_PRINT OR FL_XDIGIT"
definition AT_LX :: byte where "AT_LX = FL_LOWER OR FL_ALPHA OR FL_PRINT OR FL_XDIGIT"

definition attr :: "byte list" where
  "attr = [
    0, 0, 0, 0, 0, 0, 0, 0,
    0, AT_SP, AT_SP, AT_SP, AT_SP, AT_SP, 0, 0,
    0, 0, 0, 0, 0, 0, 0, 0,
    0, 0, 0, 0, 0, 0, 0, 0,
    AT_SP, AT_PR, AT_PR, AT_PR, AT_PR, AT_PR, AT_PR, AT_PR,
    AT_PR, AT_PR, AT_PR, AT_PR, AT_PR, AT_PR, AT_PR, AT_PR,
    AT_DI, AT_DI, AT_DI, AT_DI, AT_DI, AT_DI, AT_DI, AT_DI,
    AT_DI, AT_DI, AT_PR, AT_PR, AT_PR, AT_PR, AT_PR, AT_PR,
    AT_PR, AT_UX, AT_UX, AT_UX, AT_UX, AT_UX, AT_UX, AT_UP,
    AT_UP, AT_UP, AT_UP, AT_UP, AT_UP, AT_UP, AT_UP, AT_UP,
    AT_UP, AT_UP, AT_UP, AT_UP, AT_UP, AT_UP, AT_UP, AT_UP,
    AT_UP, AT_UP, AT_UP, AT_PR, AT_PR, AT_PR, AT_PR, AT_PR,
    AT_PR, AT_LX, AT_LX, AT_LX, AT_LX, AT_LX, AT_LX, AT_LO,
    AT_LO, AT_LO, AT_LO, AT_LO, AT_LO, AT_LO, AT_LO, AT_LO,
    AT_LO, AT_LO, AT_LO, AT_LO, AT_LO, AT_LO, AT_LO, AT_LO,
    AT_LO, AT_LO, AT_LO, AT_PR, AT_PR, AT_PR, AT_PR, 0]"

definition unichar_isspace :: "unichar \<Rightarrow> bool" where
  "unichar_isspace c \<longleftrightarrow> c < 128 \<and> attr ! unat c AND FL_SPACE \<noteq> 0"

definition unichar_isalpha :: "unichar \<Rightarrow> bool" where
  "unichar_isalpha c \<longleftrightarrow> c < 128 \<and> attr ! unat c AND FL_ALPHA \<noteq> 0"

definition unichar_isdigit :: "unichar \<Rightarrow> bool" where
  "unichar_isdigit c \<longleftrightarrow> c < 128 \<and> attr ! unat c AND FL_DIGIT \<noteq> 0"

definition unichar_isxdigit :: "unichar \<Rightarrow> bool" where
  "unichar_isxdigit c \<longleftrightarrow> c < 128 \<and> attr ! unat c AND FL_XDIGIT \<noteq> 0"

definition unichar_isident :: "unichar \<Rightarrow> bool" where
  "unichar_isident c \<longleftrightarrow> c < 128 \<and> (attr ! unat c AND (FL_ALPHA OR FL_DIGIT) \<noteq> 0 \<or> c = 0x5F)"

definition unichar_isupper :: "unichar \<Rightarrow> bool" where
  "unichar_isupper c \<longleftrightarrow> c < 128 \<and> attr ! unat c AND FL_UPPER \<noteq> 0"

definition unichar_islower :: "unichar \<Rightarrow> bool" where
  "unichar_islower c \<longleftrightarrow> c < 128 \<and> attr ! unat c AND FL_LOWER \<noteq> 0"

definition unichar_tolower :: "unichar \<Rightarrow> unichar" where
  "unichar_tolower c = (if unichar_isupper c then c + 0x20 else c)"

definition unichar_toupper :: "unichar \<Rightarrow> unichar" where
  "unichar_toupper c = (if unichar_islower c then c - 0x20 else c)"

definition unichar_xdigit_value :: "unichar \<Rightarrow> 32 word" where
  "unichar_xdigit_value c =
     (let n = c - 0x30
      in if n > 9 then (n AND NOT (0x61 - 0x41)) - (0x41 - (0x39 + 1)) else n)"

text \<open>The classes, read off the table.\<close>

lemma below_128:
  fixes c :: unichar
  assumes "c < 128" "list_all P (map of_nat [0..<128])"
  shows "P c"
proof -
  have "unat c < 128" using assms(1) by (simp add: word_less_nat_alt)
  then have "(of_nat (unat c) :: unichar) \<in> set (map of_nat [0..<128])" by (metis atLeast_upt image_eqI lessThan_iff list.set_map)
  then have "P (of_nat (unat c))" using assms(2) by (metis list_all_iff)
  then show ?thesis by simp
qed

lemma class_table:
  "list_all (\<lambda>c :: unichar.
     ((attr ! unat c AND FL_SPACE \<noteq> 0) = (c = 32 \<or> 9 \<le> c \<and> c \<le> 13)) \<and>
     ((attr ! unat c AND FL_DIGIT \<noteq> 0) = (48 \<le> c \<and> c \<le> 57)) \<and>
     ((attr ! unat c AND FL_UPPER \<noteq> 0) = (65 \<le> c \<and> c \<le> 90)) \<and>
     ((attr ! unat c AND FL_LOWER \<noteq> 0) = (97 \<le> c \<and> c \<le> 122)) \<and>
     ((attr ! unat c AND FL_ALPHA \<noteq> 0) = (65 \<le> c \<and> c \<le> 90 \<or> 97 \<le> c \<and> c \<le> 122)) \<and>
     ((attr ! unat c AND FL_XDIGIT \<noteq> 0) = (48 \<le> c \<and> c \<le> 57 \<or> 65 \<le> c \<and> c \<le> 70 \<or> 97 \<le> c \<and> c \<le> 102)))
     (map of_nat [0..<128])"
  by code_simp

lemmas class_defs = unichar_isspace_def unichar_isalpha_def unichar_isdigit_def unichar_isxdigit_def
  unichar_isupper_def unichar_islower_def

lemma unichar_classes:
  "unichar_isspace c \<longleftrightarrow> c = 32 \<or> 9 \<le> c \<and> c \<le> 13"
  "unichar_isdigit c \<longleftrightarrow> 48 \<le> c \<and> c \<le> 57"
  "unichar_isupper c \<longleftrightarrow> 65 \<le> c \<and> c \<le> 90"
  "unichar_islower c \<longleftrightarrow> 97 \<le> c \<and> c \<le> 122"
  "unichar_isalpha c \<longleftrightarrow> 65 \<le> c \<and> c \<le> 90 \<or> 97 \<le> c \<and> c \<le> 122"
  "unichar_isxdigit c \<longleftrightarrow> 48 \<le> c \<and> c \<le> 57 \<or> 65 \<le> c \<and> c \<le> 70 \<or> 97 \<le> c \<and> c \<le> 102"
proof -
  have high: "\<not> (c \<le> 13)" "c \<noteq> 32" "\<not> (c \<le> 57)" "\<not> (c \<le> 90)" "\<not> (c \<le> 122)" "\<not> (c \<le> 70)" "\<not> (c \<le> 102)" if "\<not> c < 128"
    using that by (auto simp: word_less_nat_alt word_le_nat_alt)
  note t = below_128 [OF _ class_table, of c]
  show
    "unichar_isspace c \<longleftrightarrow> c = 32 \<or> 9 \<le> c \<and> c \<le> 13"
    "unichar_isdigit c \<longleftrightarrow> 48 \<le> c \<and> c \<le> 57"
    "unichar_isupper c \<longleftrightarrow> 65 \<le> c \<and> c \<le> 90"
    "unichar_islower c \<longleftrightarrow> 97 \<le> c \<and> c \<le> 122"
    "unichar_isalpha c \<longleftrightarrow> 65 \<le> c \<and> c \<le> 90 \<or> 97 \<le> c \<and> c \<le> 122"
    "unichar_isxdigit c \<longleftrightarrow> 48 \<le> c \<and> c \<le> 57 \<or> 65 \<le> c \<and> c \<le> 70 \<or> 97 \<le> c \<and> c \<le> 102"
    unfolding class_defs using t high by (cases "c < 128"; blast)+
qed

section \<open>Walking over UTF-8 text\<close>

definition UTF8_IS_NONASCII :: "'a::len word \<Rightarrow> bool" where
  "UTF8_IS_NONASCII ch \<longleftrightarrow> ch AND 0x80 \<noteq> 0"

definition UTF8_IS_CONT :: "byte \<Rightarrow> bool" where
  "UTF8_IS_CONT ch \<longleftrightarrow> ch AND 0xC0 = 0x80"

definition deref :: "byte list \<Rightarrow> nat \<Rightarrow> byte option" where
  "deref mem p = (if p < length mem then Some (mem ! p) else None)"

function mask_loop :: "unichar \<Rightarrow> unichar \<Rightarrow> unichar" where
  "mask_loop msk ord =
     (if ord AND msk \<noteq> 0 then mask_loop (drop_bit 1 msk) (ord AND NOT msk) else ord)"
  by pat_completeness auto
termination
proof (relation "measure (\<lambda>(msk, ord). unat msk)")
  fix msk ord :: unichar
  assume "ord AND msk \<noteq> 0"
  then have "msk \<noteq> 0" by auto
  then have "0 < unat msk" by (simp add: unat_gt_0)
  then have "unat (drop_bit 1 msk) < unat msk" by (simp add: drop_bit_Suc unat_div_distrib)
  then show "((drop_bit 1 msk, ord AND NOT msk), (msk, ord)) \<in> measure (\<lambda>(msk, ord). unat msk)" by simp
qed simp

function cont_loop :: "byte list \<Rightarrow> nat \<Rightarrow> unichar \<Rightarrow> unichar option" where
  "cont_loop mem s ord =
     (if s < length mem
      then if UTF8_IS_CONT (mem ! s)
           then cont_loop mem (Suc s) (push_bit 6 ord OR (ucast (mem ! s) AND 0x3F))
           else Some ord
      else None)"
  by pat_completeness auto
termination by (relation "measure (\<lambda>(mem, s, ord). length mem - s)") auto

definition utf8_get_char :: "byte list \<Rightarrow> nat \<Rightarrow> unichar option" where
  "utf8_get_char mem s = do {
     b \<leftarrow> deref mem s;
     let ord = ucast b;
     if \<not> UTF8_IS_NONASCII ord then Some ord
     else cont_loop mem (Suc s) (mask_loop 0x40 (ord AND 0x7F))
   }"

function skip_cont :: "byte list \<Rightarrow> nat \<Rightarrow> nat option" where
  "skip_cont mem s =
     (if s < length mem then if UTF8_IS_CONT (mem ! s) then skip_cont mem (Suc s) else Some s else None)"
  by pat_completeness auto
termination by (relation "measure (\<lambda>(mem, s). length mem - s)") auto

definition utf8_next_char :: "byte list \<Rightarrow> nat \<Rightarrow> nat option" where
  "utf8_next_char mem s = skip_cont mem (Suc s)"

fun ptr_to_index_loop :: "byte list \<Rightarrow> nat \<Rightarrow> nat \<Rightarrow> 32 word \<Rightarrow> 32 word option" where
  "ptr_to_index_loop mem s ptr i =
     (if ptr > s
      then do {
        b \<leftarrow> deref mem (ptr - 1);
        ptr_to_index_loop mem s (ptr - 1) (if \<not> UTF8_IS_CONT b then i + 1 else i)
      }
      else Some i)"

declare ptr_to_index_loop.simps [simp del] cont_loop.simps [simp del] skip_cont.simps [simp del] mask_loop.simps [simp del]

definition utf8_ptr_to_index :: "byte list \<Rightarrow> nat \<Rightarrow> nat \<Rightarrow> 32 word option" where
  "utf8_ptr_to_index mem s ptr = ptr_to_index_loop mem s ptr 0"

fun charlen_loop :: "byte list \<Rightarrow> nat \<Rightarrow> nat \<Rightarrow> 32 word \<Rightarrow> 32 word option" where
  "charlen_loop mem str 0 charlen = Some charlen"
| "charlen_loop mem str (Suc n) charlen = do {
     b \<leftarrow> deref mem str;
     charlen_loop mem (Suc str) n (if \<not> UTF8_IS_CONT b then charlen + 1 else charlen)
   }"

definition utf8_charlen :: "byte list \<Rightarrow> nat \<Rightarrow> nat \<Rightarrow> 32 word option" where
  "utf8_charlen mem str len = charlen_loop mem str len 0"

fun check_loop :: "byte list \<Rightarrow> byte \<Rightarrow> bool" where
  "check_loop [] need = (need = 0)"
| "check_loop (c # p) need =
     (if need \<noteq> 0 then
        if c \<ge> 0x80 then check_loop p (need - 1) else False
      else if c \<ge> 0xc0 then
        if c \<ge> 0xf8 then False
        else check_loop p (drop_bit (unat (drop_bit 3 c AND 0x6)) 0xe5 AND 3)
      else if c \<ge> 0x80 then False
      else check_loop p need)"

definition utf8_check :: "byte list \<Rightarrow> bool" where
  "utf8_check p = check_loop p 0"

end
