(* ===== verification/Py_Utf8.thy ===== *)
theory Py_Utf8
  imports Py_Unicode
begin

unbundle bit_operations_syntax

text \<open>
  UTF-8 as RFC 3629 defines it, by arithmetic on code points, and what the routines of
  \<open>py/unicode.c\<close> do on text encoded that way: every code point is read back, the walk visits exactly
  the characters, and the validity check accepts the text.
\<close>

section \<open>The encoding\<close>

definition utf8_of :: "nat \<Rightarrow> nat list" where
  "utf8_of n =
     (if n < 0x80 then [n]
      else if n < 0x800 then [0xC0 + n div 64, 0x80 + n mod 64]
      else if n < 0x10000 then [0xE0 + n div 4096, 0x80 + n div 64 mod 64, 0x80 + n mod 64]
      else [0xF0 + n div 262144, 0x80 + n div 4096 mod 64, 0x80 + n div 64 mod 64, 0x80 + n mod 64])"

definition utf8_char :: "unichar \<Rightarrow> byte list" where
  "utf8_char c = map of_nat (utf8_of (unat c))"

definition utf8_text :: "unichar list \<Rightarrow> byte list" where
  "utf8_text cs = concat (map utf8_char cs)"

definition code_points :: "unichar list \<Rightarrow> bool" where
  "code_points cs \<longleftrightarrow> (\<forall>c \<in> set cs. c < 0x110000)"

lemma utf8_text_simps [simp]:
  "utf8_text [] = []" "utf8_text (c # cs) = utf8_char c @ utf8_text cs" "utf8_text (cs @ ds) = utf8_text cs @ utf8_text ds"
  by (simp_all add: utf8_text_def)

lemma code_points_simps [simp]:
  "code_points []" "code_points (c # cs) \<longleftrightarrow> c < 0x110000 \<and> code_points cs"
  "code_points (cs @ ds) \<longleftrightarrow> code_points cs \<and> code_points ds"
  by (auto simp: code_points_def)

section \<open>Bytes by value\<close>

lemma every_byte:
  fixes b :: byte
  assumes "list_all P (map of_nat [0..<256])"
  shows "P b"
proof -
  have "unat b < 256" using unsigned_less [of b, where ?'a = nat] by simp
  then have "(of_nat (unat b) :: byte) \<in> set (map of_nat [0..<256])" by (metis atLeast_upt image_eqI lessThan_iff list.set_map)
  then have "P (of_nat (unat b))" using assms by (metis list_all_iff)
  then show ?thesis by simp
qed

lemma byte_table:
  "list_all (\<lambda>b :: byte.
     (UTF8_IS_CONT b = (128 \<le> b \<and> b < 192)) \<and>
     (UTF8_IS_NONASCII (ucast b :: unichar) = (128 \<le> b)) \<and>
     (if 192 \<le> b \<and> b < 248 then
        mask_loop 0x40 (ucast b AND 0x7F) = ucast b - (if b < 224 then 192 else if b < 240 then 224 else 240) \<and>
        drop_bit (unat (drop_bit 3 b AND 0x6)) 0xe5 AND 3 = (if b < 224 then 1 else if b < 240 then 2 else 3 :: byte)
      else True))
     (map of_nat [0..<256])"
  by code_simp

lemma byte_kinds:
  fixes b :: byte
  shows "UTF8_IS_CONT b \<longleftrightarrow> 128 \<le> b \<and> b < 192"
    "UTF8_IS_NONASCII (ucast b :: unichar) \<longleftrightarrow> 128 \<le> b"
    "192 \<le> b \<Longrightarrow> b < 248 \<Longrightarrow>
       mask_loop 0x40 (ucast b AND 0x7F) = ucast b - (if b < 224 then 192 else if b < 240 then 224 else 240)"
    "192 \<le> b \<Longrightarrow> b < 248 \<Longrightarrow>
       drop_bit (unat (drop_bit 3 b AND 0x6)) 0xe5 AND 3 = (if b < 224 then 1 else if b < 240 then 2 else 3 :: byte)"
  using every_byte [OF byte_table, of b] by auto

lemma suffix_head:
  assumes "drop s mem = b # r"
  shows "s < length mem" "mem ! s = b" "drop (Suc s) mem = r" "deref mem s = Some b"
proof -
  show *: "s < length mem" using assms by (metis drop_all linorder_not_le list.distinct(1))
  then have "mem ! s # drop (Suc s) mem = b # r" using assms by (metis Cons_nth_drop_Suc)
  then show "mem ! s = b" "drop (Suc s) mem = r" by simp_all
  with * show "deref mem s = Some b" by (simp add: deref_def)
qed

lemma of_nat_byte [simp]:
  assumes "n < 256"
  shows "unat (of_nat n :: byte) = n" "(ucast (of_nat n :: byte) :: unichar) = of_nat n"
proof -
  show *: "unat (of_nat n :: byte) = n" using assms by (simp add: unat_of_nat)
  have "unat (ucast (of_nat n :: byte) :: unichar) = n" using assms
    by (simp add: unsigned_ucast_eq * take_bit_nat_eq_self)
  then show "(ucast (of_nat n :: byte) :: unichar) = of_nat n" using assms by (simp add: word_unat_eq_iff unat_of_nat)
qed

lemma of_nat_byte_compare [simp]:
  assumes "n < 256"
  shows "UTF8_IS_CONT (of_nat n) \<longleftrightarrow> 128 \<le> n \<and> n < 192" "(0x80 \<le> (of_nat n :: byte)) = (0x80 \<le> n)" "(0xc0 \<le> (of_nat n :: byte)) = (0xc0 \<le> n)"
    "(0xf8 \<le> (of_nat n :: byte)) = (0xf8 \<le> n)" "((of_nat n :: byte) < 224) = (n < 224)" "((of_nat n :: byte) < 240) = (n < 240)"
    "((of_nat n :: byte) < 248) = (n < 248)"
  using assms by (simp_all add: byte_kinds word_le_nat_alt word_less_nat_alt)

lemma or_low_bits:
  assumes "k < 2 ^ j"
  shows "push_bit j (v :: nat) OR k = v * 2 ^ j + k"
proof -
  have "push_bit j v AND take_bit j k = 0" by (rule bit_eqI) (auto simp: bit_simps)
  moreover have "take_bit j k = k" using assms by (simp add: take_bit_nat_eq_self)
  ultimately have "push_bit j v AND k = 0" by simp
  then have "push_bit j v OR k = push_bit j v + k" by (rule disjunctive_add_eq_or [symmetric])
  then show ?thesis by (simp add: push_bit_eq_mult)
qed

lemma six_more_bits:
  assumes "v < 2 ^ 26" "k < 64"
  shows "push_bit 6 (of_nat v :: unichar) OR (of_nat (128 + k) AND 0x3F) = of_nat (v * 64 + k)"
proof -
  have m: "(0x3F :: unichar) = mask 6" by (simp add: mask_eq_exp_minus_1)
  have "(128 + k) mod 64 = k" using mod_mult_self1 [of k 2 64] assms(2) by (simp add: add.commute)
  then have "(of_nat (128 + k) :: unichar) AND 0x3F = of_nat k"
    unfolding m take_bit_eq_mask [symmetric] take_bit_of_nat by (simp add: take_bit_eq_mod)
  moreover have "push_bit 6 (of_nat v :: unichar) OR of_nat k = of_nat (push_bit 6 v OR k)"
    by (simp only: of_nat_or_eq push_bit_of_nat)
  ultimately show ?thesis using or_low_bits [of k 6 v] assms(2) by (simp del: of_nat_add of_nat_mult)
qed

lemma cont_loop_step:
  assumes "drop s mem = of_nat (128 + k) # r" "v < 2 ^ 26" "k < 64"
  shows "cont_loop mem s (of_nat v) = cont_loop mem (Suc s) (of_nat (v * 64 + k))"
  using suffix_head [OF assms(1)] assms(3)
  by (subst cont_loop.simps) (simp add: six_more_bits [OF assms(2,3)] del: of_nat_add of_nat_mult)

lemma cont_loop_end:
  assumes "drop s mem = b # r" "\<not> UTF8_IS_CONT b"
  shows "cont_loop mem s v = Some v"
  using suffix_head [OF assms(1)] assms(2) by (subst cont_loop.simps) simp

section \<open>Reading one character\<close>

lemma lead_value:
  assumes "192 \<le> n" "n < 248"
  shows "mask_loop 0x40 (of_nat n AND 0x7F) = of_nat (n - (if n < 224 then 192 else if n < 240 then 224 else 240))"
proof -
  have "n < 256" using assms by simp
  then show ?thesis using byte_kinds(3) [of "of_nat n"] assms by (auto simp: of_nat_diff)
qed

lemma utf8_get_char_encoded:
  assumes "c < 0x110000" "drop s mem = utf8_char c @ b # r" "\<not> UTF8_IS_CONT b"
  shows "utf8_get_char mem s = Some c"
proof -
  define n where "n = unat c"
  have n: "n < 0x110000" using assms(1) by (simp add: n_def word_less_nat_alt)
  have c: "c = of_nat n" by (simp add: n_def)
  have d: "drop s mem = map of_nat (utf8_of n) @ b # r" using assms(2) by (simp add: utf8_char_def n_def)
  have non: "UTF8_IS_NONASCII (of_nat k :: unichar) \<longleftrightarrow> 128 \<le> k" if "k < 256" for k
    using byte_kinds(2) [of "of_nat k"] that by simp
  consider "n < 0x80" | "0x80 \<le> n" "n < 0x800" | "0x800 \<le> n" "n < 0x10000" | "0x10000 \<le> n" by linarith
  then show ?thesis
  proof cases
    case 1
    then have "drop s mem = of_nat n # b # r" using d by (simp add: utf8_of_def)
    from suffix_head [OF this] show ?thesis using 1 non [of n] by (simp add: utf8_get_char_def c)
  next
    case 2
    then have "drop s mem = of_nat (192 + n div 64) # of_nat (128 + n mod 64) # b # r" using d by (simp add: utf8_of_def)
    note h = suffix_head [OF this]
    note h2 = suffix_head [OF h(3)]
    have k: "192 + n div 64 < 224" using 2 by linarith
    show ?thesis
      using k cont_loop_step [OF h(3), of "n div 64"] cont_loop_end [OF h2(3) assms(3)] non [of "192 + n div 64"]
        lead_value [of "192 + n div 64"]
      by (simp add: utf8_get_char_def c h(4) Let_def del: of_nat_add of_nat_mult)
  next
    case 3
    then have "drop s mem = of_nat (224 + n div 4096) # of_nat (128 + n div 64 mod 64) # of_nat (128 + n mod 64) # b # r"
      using d by (simp add: utf8_of_def)
    note h = suffix_head [OF this]
    note h2 = suffix_head [OF h(3)]
    note h3 = suffix_head [OF h2(3)]
    have k: "224 + n div 4096 < 240" using 3 by linarith
    have e: "n div 4096 * 64 + n div 64 mod 64 = n div 64" using div_mult_mod_eq [of "n div 64" 64] by (simp add: div_mult2_eq [symmetric])
    show ?thesis
      using k cont_loop_step [OF h(3), of "n div 4096"] cont_loop_step [OF h2(3), of "n div 64"] cont_loop_end [OF h3(3) assms(3)]
        non [of "224 + n div 4096"] lead_value [of "224 + n div 4096"] n
      by (simp add: utf8_get_char_def c h(4) Let_def e del: of_nat_add of_nat_mult)
  next
    case 4
    then have "drop s mem = of_nat (240 + n div 262144) # of_nat (128 + n div 4096 mod 64) # of_nat (128 + n div 64 mod 64) # of_nat (128 + n mod 64) # b # r"
      using d by (simp add: utf8_of_def)
    note h = suffix_head [OF this]
    note h2 = suffix_head [OF h(3)]
    note h3 = suffix_head [OF h2(3)]
    note h4 = suffix_head [OF h3(3)]
    have k: "240 + n div 262144 < 248" using n by linarith
    have e: "n div 262144 * 64 + n div 4096 mod 64 = n div 4096" "n div 4096 * 64 + n div 64 mod 64 = n div 64"
      using div_mult_mod_eq [of "n div 4096" 64] div_mult_mod_eq [of "n div 64" 64] by (simp_all add: div_mult2_eq [symmetric])
    show ?thesis
      using k cont_loop_step [OF h(3), of "n div 262144"] cont_loop_step [OF h2(3), of "n div 4096"] cont_loop_step [OF h3(3), of "n div 64"]
        cont_loop_end [OF h4(3) assms(3)] non [of "240 + n div 262144"] lead_value [of "240 + n div 262144"] n
      by (simp add: utf8_get_char_def c h(4) Let_def e del: of_nat_add of_nat_mult)
  qed
qed

section \<open>Walking over the text\<close>

lemma utf8_char_shape:
  assumes "c < 0x110000"
  obtains b bs where "utf8_char c = b # bs" "\<not> UTF8_IS_CONT b" "\<forall>x \<in> set bs. UTF8_IS_CONT x"
    "check_loop (b # bs @ r) 0 = check_loop r 0" "bs = [] \<longleftrightarrow> c < 0x80" "b < 0x80 \<longleftrightarrow> c < 0x80"
    "c < 0x80 \<Longrightarrow> b = ucast c"
proof -
  define n where "n = unat c"
  have n: "n < 0x110000" "c < 0x80 \<longleftrightarrow> n < 0x80" using assms by (simp_all add: n_def word_less_nat_alt)
  have need: "drop_bit (unat (drop_bit 3 (of_nat k :: byte) AND 0x6)) 0xe5 AND 3 = (if k < 224 then 1 else if k < 240 then 2 else 3 :: byte)"
    if "192 \<le> k" "k < 248" for k using byte_kinds(4) [of "of_nat k"] that by simp
  have low: "(of_nat k :: byte) < 0x80 \<longleftrightarrow> k < 0x80" if "k < 256" for k using that by (simp add: word_less_nat_alt)
  have m: "128 + x mod 64 < 256 \<and> 128 + x mod 64 < 192" for x :: nat by (simp add: less_imp_le_nat trans_less_add1)
  consider "n < 0x80" | "0x80 \<le> n" "n < 0x800" | "0x800 \<le> n" "n < 0x10000" | "0x10000 \<le> n" by linarith
  then show ?thesis
  proof cases
    case 1
    have "ucast c = (of_nat n :: byte)" unfolding n_def by (simp add: word_unat_eq_iff unsigned_ucast_eq unat_of_nat take_bit_eq_mod)
    then show ?thesis using 1 n by (intro that [of "of_nat n" "[]"]) (simp_all add: utf8_char_def utf8_of_def n_def [symmetric] low)
  next
    case 2
    then have k: "192 + n div 64 < 224" by linarith
    show ?thesis using 2 n k m need [of "192 + n div 64"] low [of "192 + n div 64"]
      by (intro that [of "of_nat (192 + n div 64)" "[of_nat (128 + n mod 64)]"])
        (simp_all add: utf8_char_def utf8_of_def n_def [symmetric] del: of_nat_add)
  next
    case 3
    then have k: "224 + n div 4096 < 240" by linarith
    show ?thesis using 3 n k m need [of "224 + n div 4096"] low [of "224 + n div 4096"]
      by (intro that [of "of_nat (224 + n div 4096)" "[of_nat (128 + n div 64 mod 64), of_nat (128 + n mod 64)]"])
        (simp_all add: utf8_char_def utf8_of_def n_def [symmetric] del: of_nat_add)
  next
    case 4
    then have k: "240 + n div 262144 < 248" using n by linarith
    show ?thesis using 4 n k m need [of "240 + n div 262144"] low [of "240 + n div 262144"]
      by (intro that [of "of_nat (240 + n div 262144)" "[of_nat (128 + n div 4096 mod 64), of_nat (128 + n div 64 mod 64), of_nat (128 + n mod 64)]"])
        (simp_all add: utf8_char_def utf8_of_def n_def [symmetric] del: of_nat_add)
  qed
qed

lemma utf8_check_text:
  "code_points cs \<Longrightarrow> utf8_check (utf8_text cs)"
proof (induction cs)
  case (Cons c cs)
  then have c: "c < 0x110000" by simp
  show ?case using Cons
    by (rule_tac utf8_char_shape [OF c, of "utf8_text cs"]) (simp add: utf8_check_def)
qed (simp add: utf8_check_def)

lemma skip_cont_bytes:
  "drop s mem = bs @ b # r \<Longrightarrow> \<forall>x \<in> set bs. UTF8_IS_CONT x \<Longrightarrow> \<not> UTF8_IS_CONT b \<Longrightarrow> skip_cont mem s = Some (s + length bs)"
proof (induction bs arbitrary: s)
  case Nil
  note h = suffix_head [OF Nil(1) [unfolded append_Nil]]
  show ?case using h Nil(3) by (subst skip_cont.simps) simp
next
  case (Cons x bs)
  note h = suffix_head [OF Cons.prems(1) [unfolded append_Cons]]
  show ?case using h Cons.IH [OF h(3)] Cons.prems(2,3) by (subst skip_cont.simps) simp
qed

text \<open>The offset of a character in the text.\<close>

definition char_offset :: "unichar list \<Rightarrow> nat \<Rightarrow> nat" where
  "char_offset cs i = length (utf8_text (take i cs))"

lemma text_from_offset:
  assumes "i \<le> length cs"
  shows "drop (char_offset cs i) (utf8_text cs @ r) = utf8_text (drop i cs) @ r"
proof -
  have "utf8_text cs = utf8_text (take i cs) @ utf8_text (drop i cs)" by (metis append_take_drop_id utf8_text_simps(3))
  then show ?thesis by (simp add: char_offset_def)
qed

lemma char_offset_0 [simp]: "char_offset cs 0 = 0"
  by (simp add: char_offset_def)

lemma char_offset_length [simp]: "length cs \<le> i \<Longrightarrow> char_offset cs i = length (utf8_text cs)"
  by (simp add: char_offset_def)

lemma char_offset_Suc:
  "i < length cs \<Longrightarrow> char_offset cs (Suc i) = char_offset cs i + length (utf8_char (cs ! i))"
  by (simp add: char_offset_def take_Suc_conv_app_nth)

lemma text_suffix_lead:
  assumes "code_points cs" "\<not> UTF8_IS_CONT b"
  obtains b' r' where "utf8_text cs @ b # r = b' # r'" "\<not> UTF8_IS_CONT b'"
proof (cases cs)
  case Nil
  then show ?thesis using assms(2) that by simp
next
  case (Cons c ds)
  then have "c < 0x110000" using assms(1) by simp
  from utf8_char_shape [OF this, of "[]"] show ?thesis using Cons that by (metis append_Cons utf8_text_simps(2))
qed

lemma char_at_offset:
  assumes "code_points cs" "i < length cs" "\<not> UTF8_IS_CONT b"
  obtains b' r' where "drop (char_offset cs i) (utf8_text cs @ b # r) = utf8_char (cs ! i) @ b' # r'" "\<not> UTF8_IS_CONT b'"
    "cs ! i < 0x110000"
proof -
  have d: "drop i cs = cs ! i # drop (Suc i) cs" using assms(2) by (simp add: Cons_nth_drop_Suc)
  have cp: "cs ! i < 0x110000" "code_points (drop (Suc i) cs)"
    using assms(1,2) by (auto simp: code_points_def dest: in_set_dropD)
  obtain b' r' where "utf8_text (drop (Suc i) cs) @ b # r = b' # r'" "\<not> UTF8_IS_CONT b'"
    using text_suffix_lead [OF cp(2) assms(3)] by blast
  then show ?thesis using text_from_offset [of i cs "b # r"] assms(2) d cp(1) by (intro that [of b' r']) simp_all
qed

lemma utf8_get_char_at:
  assumes "code_points cs" "i < length cs" "\<not> UTF8_IS_CONT b"
  shows "utf8_get_char (utf8_text cs @ b # r) (char_offset cs i) = Some (cs ! i)"
  by (rule char_at_offset [OF assms, of r]) (simp add: utf8_get_char_encoded)

lemma utf8_next_char_at:
  assumes "code_points cs" "i < length cs" "\<not> UTF8_IS_CONT b"
  shows "utf8_next_char (utf8_text cs @ b # r) (char_offset cs i) = Some (char_offset cs (Suc i))"
proof -
  obtain b' r' where d: "drop (char_offset cs i) (utf8_text cs @ b # r) = utf8_char (cs ! i) @ b' # r'" "\<not> UTF8_IS_CONT b'"
    "cs ! i < 0x110000" using char_at_offset [OF assms] by blast
  obtain x bs where x: "utf8_char (cs ! i) = x # bs" "\<forall>y \<in> set bs. UTF8_IS_CONT y" using utf8_char_shape [OF d(3)] by metis
  have "drop (Suc (char_offset cs i)) (utf8_text cs @ b # r) = bs @ b' # r'"
    using suffix_head(3) [of "char_offset cs i" "utf8_text cs @ b # r"] d(1) x(1) by simp
  from skip_cont_bytes [OF this x(2) d(2)] show ?thesis
    using assms(2) x(1) by (simp add: utf8_next_char_def char_offset_Suc)
qed

section \<open>Counting characters\<close>

definition leads :: "byte list \<Rightarrow> nat" where
  "leads bs = length (filter (\<lambda>b. \<not> UTF8_IS_CONT b) bs)"

lemma leads_simps [simp]:
  "leads [] = 0" "leads (b # bs) = (if UTF8_IS_CONT b then leads bs else Suc (leads bs))" "leads (xs @ ys) = leads xs + leads ys"
  by (simp_all add: leads_def)

lemma leads_conts: "\<forall>x \<in> set bs. UTF8_IS_CONT x \<Longrightarrow> leads bs = 0"
  by (induction bs) auto

lemma leads_text: "code_points cs \<Longrightarrow> leads (utf8_text cs) = length cs"
proof (induction cs)
  case (Cons c cs)
  then have c: "c < 0x110000" by simp
  show ?case using Cons by (rule_tac utf8_char_shape [OF c, of "[]"]) (simp add: leads_conts)
qed simp

lemma charlen_loop_leads:
  "str + n \<le> length mem \<Longrightarrow> charlen_loop mem str n k = Some (k + of_nat (leads (take n (drop str mem))))"
proof (induction n arbitrary: str k)
  case (Suc n)
  then have "drop str mem = mem ! str # drop (Suc str) mem" by (simp add: Cons_nth_drop_Suc)
  then show ?case using Suc by (simp add: deref_def)
qed simp

lemma utf8_charlen_leads:
  "str + len \<le> length mem \<Longrightarrow> utf8_charlen mem str len = Some (of_nat (leads (take len (drop str mem))))"
  by (simp add: utf8_charlen_def charlen_loop_leads)

lemma ptr_to_index_loop_leads:
  "s \<le> p \<Longrightarrow> p \<le> length mem \<Longrightarrow> ptr_to_index_loop mem s p k = Some (k + of_nat (leads (take (p - s) (drop s mem))))"
proof (induction "p - s" arbitrary: p k)
  case 0
  then show ?case by (subst ptr_to_index_loop.simps) simp
next
  case (Suc n)
  then obtain q where p: "p = Suc q" "s \<le> q" "q < length mem" "n = q - s" by (cases p) auto
  have "take (p - s) (drop s mem) = take (q - s) (drop s mem) @ [mem ! q]"
    using p take_Suc_conv_app_nth [of "q - s" "drop s mem"] by (simp add: Suc_diff_le)
  then show ?case using p Suc.hyps(1) [OF p(4,2)] by (subst ptr_to_index_loop.simps) (simp add: deref_def)
qed

lemma utf8_ptr_to_index_leads:
  "s \<le> p \<Longrightarrow> p \<le> length mem \<Longrightarrow> utf8_ptr_to_index mem s p = Some (of_nat (leads (take (p - s) (drop s mem))))"
  by (simp add: utf8_ptr_to_index_def ptr_to_index_loop_leads)

end
