(* ===== verification/Py_Vstr.thy ===== *)
theory Py_Vstr
  imports Py_Utf8
begin

unbundle bit_operations_syntax

text \<open>
  Variable strings (\<open>py/vstr.c\<close>): a growing byte buffer with the number of bytes allocated and the
  number in use, or a fixed buffer of the caller's that cannot grow. Sizes are 32 bit words, so the
  size computations wrap as the code's do. A buffer is the list of its bytes; the null pointer is
  the empty buffer. An operation that raises leaves the string as it was, so its result is either
  the exception or the new string. The heap is abstracted to whether it has room for a block of
  some size and to what fresh memory holds; \<open>m_renew\<close> keeps the bytes of the old block.
\<close>

section \<open>Exceptions and memory\<close>

datatype py_exc = IndexError | TypeError | ValueError | OverflowError | NotImplementedError | MemoryError | RuntimeError
  | UnicodeError | Assertion_failed | Out_of_bounds

fun res_bind :: "'e + 'a \<Rightarrow> ('a \<Rightarrow> 'e + 'b) \<Rightarrow> 'e + 'b" where
  "res_bind (Inl e) f = Inl e"
| "res_bind (Inr x) f = f x"

record mem_env =
  room :: "nat \<Rightarrow> bool"
  fresh :: "nat \<Rightarrow> byte"

definition m_new :: "mem_env \<Rightarrow> 32 word \<Rightarrow> py_exc + byte list" where
  "m_new E num = (if room E (unat num) then Inr (map (fresh E) [0..<unat num]) else Inl MemoryError)"

definition m_renew :: "mem_env \<Rightarrow> byte list \<Rightarrow> 32 word \<Rightarrow> py_exc + byte list" where
  "m_renew E buf new_num =
     (if room E (unat new_num)
      then Inr (take (unat new_num) buf @ map (fresh E) [length buf..<unat new_num])
      else Inl MemoryError)"

text \<open>Stores and moves of several bytes inside a buffer.\<close>

definition put_bytes :: "byte list \<Rightarrow> nat \<Rightarrow> byte list \<Rightarrow> py_exc + byte list" where
  "put_bytes buf i bs =
     (if i + length bs \<le> length buf then Inr (take i buf @ bs @ drop (i + length bs) buf)
      else Inl Out_of_bounds)"

definition memmove_in :: "byte list \<Rightarrow> nat \<Rightarrow> nat \<Rightarrow> nat \<Rightarrow> py_exc + byte list" where
  "memmove_in buf dst src n =
     (if src + n \<le> length buf then put_bytes buf dst (take n (drop src buf)) else Inl Out_of_bounds)"

section \<open>The structure and its operations\<close>

record vstr =
  alloc :: "32 word"
  len :: "32 word"
  buf :: "byte list"
  fixed_buf :: bool

definition ROUND_ALLOC :: "32 word \<Rightarrow> 32 word" where
  "ROUND_ALLOC a = (a AND (NOT 0 - 7)) + 8"

definition vstr_init :: "mem_env \<Rightarrow> 32 word \<Rightarrow> py_exc + vstr" where
  "vstr_init E n =
     (let a = (if n < 1 then 1 else n)
      in res_bind (m_new E a) (\<lambda>b. Inr \<lparr>alloc = a, len = 0, buf = b, fixed_buf = False\<rparr>))"

definition vstr_init_len :: "mem_env \<Rightarrow> 32 word \<Rightarrow> py_exc + vstr" where
  "vstr_init_len E l = res_bind (vstr_init E (l + 1)) (\<lambda>v. Inr (v\<lparr>len := l\<rparr>))"

definition vstr_init_fixed_buf :: "byte list \<Rightarrow> vstr" where
  "vstr_init_fixed_buf b = \<lparr>alloc = of_nat (length b), len = 0, buf = b, fixed_buf = True\<rparr>"

definition vstr_clear :: "vstr \<Rightarrow> vstr" where
  "vstr_clear v = v\<lparr>buf := []\<rparr>"

definition vstr_reset :: "vstr \<Rightarrow> vstr" where
  "vstr_reset v = v\<lparr>len := 0\<rparr>"

definition vstr_extend :: "mem_env \<Rightarrow> 32 word \<Rightarrow> vstr \<Rightarrow> py_exc + nat \<times> vstr" where
  "vstr_extend E sz v =
     (if fixed_buf v then Inl RuntimeError
      else res_bind (m_renew E (buf v) (alloc v + sz))
        (\<lambda>new_buf. Inr (unat (alloc v), v\<lparr>alloc := alloc v + sz, buf := new_buf\<rparr>)))"

definition vstr_ensure_extra :: "mem_env \<Rightarrow> 32 word \<Rightarrow> vstr \<Rightarrow> py_exc + vstr" where
  "vstr_ensure_extra E sz v =
     (if len v + sz > alloc v
      then if fixed_buf v then Inl RuntimeError
           else let new_alloc = ROUND_ALLOC ((len v + sz) + 16)
                in res_bind (m_renew E (buf v) new_alloc) (\<lambda>new_buf. Inr (v\<lparr>alloc := new_alloc, buf := new_buf\<rparr>))
      else Inr v)"

definition vstr_hint_size :: "mem_env \<Rightarrow> 32 word \<Rightarrow> vstr \<Rightarrow> py_exc + vstr" where
  "vstr_hint_size E sz v = vstr_ensure_extra E sz v"

definition vstr_add_len :: "mem_env \<Rightarrow> 32 word \<Rightarrow> vstr \<Rightarrow> py_exc + nat \<times> vstr" where
  "vstr_add_len E l v = res_bind (vstr_ensure_extra E l v) (\<lambda>v. Inr (unat (len v), v\<lparr>len := len v + l\<rparr>))"

definition store :: "nat \<Rightarrow> byte list \<Rightarrow> vstr \<Rightarrow> py_exc + vstr" where
  "store p bs v = res_bind (put_bytes (buf v) p bs) (\<lambda>b. Inr (v\<lparr>buf := b\<rparr>))"

definition vstr_null_terminated_str :: "mem_env \<Rightarrow> vstr \<Rightarrow> py_exc + vstr" where
  "vstr_null_terminated_str E v =
     res_bind (if alloc v = len v then res_bind (vstr_extend E 1 v) (\<lambda>(p, v). Inr v) else Inr v)
       (\<lambda>v. store (unat (len v)) [0] v)"

definition vstr_add_byte :: "mem_env \<Rightarrow> byte \<Rightarrow> vstr \<Rightarrow> py_exc + vstr" where
  "vstr_add_byte E b v = res_bind (vstr_add_len E 1 v) (\<lambda>(p, v). store p [b] v)"

definition vstr_add_char :: "mem_env \<Rightarrow> unichar \<Rightarrow> vstr \<Rightarrow> py_exc + vstr" where
  "vstr_add_char E c v =
     (if c < 0x80 then res_bind (vstr_add_len E 1 v) (\<lambda>(p, v). store p [ucast c] v)
      else if c < 0x800 then
        res_bind (vstr_add_len E 2 v) (\<lambda>(p, v). store p
          [ucast (drop_bit 6 c OR 0xC0), ucast ((c AND 0x3F) OR 0x80)] v)
      else if c < 0x10000 then
        res_bind (vstr_add_len E 3 v) (\<lambda>(p, v). store p
          [ucast (drop_bit 12 c OR 0xE0), ucast ((drop_bit 6 c AND 0x3F) OR 0x80), ucast ((c AND 0x3F) OR 0x80)] v)
      else if \<not> c < 0x110000 then Inl Assertion_failed
      else
        res_bind (vstr_add_len E 4 v) (\<lambda>(p, v). store p
          [ucast (drop_bit 18 c OR 0xF0), ucast ((drop_bit 12 c AND 0x3F) OR 0x80),
           ucast ((drop_bit 6 c AND 0x3F) OR 0x80), ucast ((c AND 0x3F) OR 0x80)] v))"

text \<open>The string added is \<open>str\<close>, its length the number of its bytes.\<close>

definition vstr_add_strn :: "mem_env \<Rightarrow> byte list \<Rightarrow> vstr \<Rightarrow> py_exc + vstr" where
  "vstr_add_strn E str v =
     res_bind (vstr_ensure_extra E (of_nat (length str)) v)
       (\<lambda>v. res_bind (store (unat (len v)) str v) (\<lambda>v. Inr (v\<lparr>len := len v + of_nat (length str)\<rparr>)))"

definition vstr_add_str :: "mem_env \<Rightarrow> byte list \<Rightarrow> vstr \<Rightarrow> py_exc + vstr" where
  "vstr_add_str E str v = vstr_add_strn E (takeWhile (\<lambda>b. b \<noteq> 0) str) v"

definition vstr_ins_blank_bytes :: "mem_env \<Rightarrow> 32 word \<Rightarrow> 32 word \<Rightarrow> vstr \<Rightarrow> py_exc + nat \<times> vstr" where
  "vstr_ins_blank_bytes E byte_pos byte_len v =
     (let l = len v; byte_pos = (if byte_pos > l then l else byte_pos)
      in res_bind
        (if byte_len > 0 then
           res_bind (vstr_ensure_extra E byte_len v)
             (\<lambda>v. res_bind (memmove_in (buf v) (unat byte_pos + unat byte_len) (unat byte_pos) (unat (l - byte_pos)))
               (\<lambda>b. Inr (v\<lparr>buf := b, len := len v + byte_len\<rparr>)))
         else Inr v)
        (\<lambda>v. Inr (unat byte_pos, v)))"

definition vstr_ins_byte :: "mem_env \<Rightarrow> 32 word \<Rightarrow> byte \<Rightarrow> vstr \<Rightarrow> py_exc + vstr" where
  "vstr_ins_byte E byte_pos b v = res_bind (vstr_ins_blank_bytes E byte_pos 1 v) (\<lambda>(s, v). store s [b] v)"

definition vstr_ins_char :: "mem_env \<Rightarrow> 32 word \<Rightarrow> unichar \<Rightarrow> vstr \<Rightarrow> py_exc + vstr" where
  "vstr_ins_char E char_pos chr v = res_bind (vstr_ins_blank_bytes E char_pos 1 v) (\<lambda>(s, v). store s [ucast chr] v)"

definition vstr_cut_out_bytes :: "32 word \<Rightarrow> 32 word \<Rightarrow> vstr \<Rightarrow> py_exc + vstr" where
  "vstr_cut_out_bytes byte_pos bytes_to_cut v =
     (if byte_pos \<ge> len v then Inr v
      else if byte_pos + bytes_to_cut \<ge> len v then Inr (v\<lparr>len := byte_pos\<rparr>)
      else res_bind
        (memmove_in (buf v) (unat byte_pos) (unat byte_pos + unat bytes_to_cut) (unat (len v - byte_pos - bytes_to_cut)))
        (\<lambda>b. Inr (v\<lparr>buf := b, len := len v - bytes_to_cut\<rparr>)))"

definition vstr_cut_head_bytes :: "32 word \<Rightarrow> vstr \<Rightarrow> py_exc + vstr" where
  "vstr_cut_head_bytes bytes_to_cut v = vstr_cut_out_bytes 0 bytes_to_cut v"

definition vstr_cut_tail_bytes :: "32 word \<Rightarrow> vstr \<Rightarrow> vstr" where
  "vstr_cut_tail_bytes l v = (if l > len v then v\<lparr>len := 0\<rparr> else v\<lparr>len := len v - l\<rparr>)"

end
