(* ===== verification/Py_Vstr_Props.thy ===== *)
theory Py_Vstr_Props
  imports Py_Vstr
begin

unbundle bit_operations_syntax

text \<open>
  The variable string as a list of bytes: every operation does to the contents what its name says,
  raises only where the buffer cannot grow, and never touches memory outside the buffer.
\<close>

section \<open>Invariant, contents and outcomes\<close>

definition vstr_ok :: "vstr \<Rightarrow> bool" where
  "vstr_ok v \<longleftrightarrow> unat (alloc v) = length (buf v) \<and> len v \<le> alloc v"

definition vstr_contents :: "vstr \<Rightarrow> byte list" where
  "vstr_contents v = take (unat (len v)) (buf v)"

text \<open>Which exceptions an operation on a string may raise.\<close>

definition growth_fails :: "mem_env \<Rightarrow> bool \<Rightarrow> py_exc \<Rightarrow> bool" where
  "growth_fails E fixed e \<longleftrightarrow>
     (if fixed then e = RuntimeError else e = MemoryError \<and> (\<exists>n < 2 ^ 32. \<not> room E n))"

definition outcome :: "mem_env \<Rightarrow> bool \<Rightarrow> py_exc + 'a \<Rightarrow> ('a \<Rightarrow> bool) \<Rightarrow> bool" where
  "outcome E fixed r P \<longleftrightarrow> (case r of Inl e \<Rightarrow> growth_fails E fixed e | Inr x \<Rightarrow> P x)"

lemma outcome_simps [simp]:
  "outcome E fixed (Inl e) P \<longleftrightarrow> growth_fails E fixed e" "outcome E fixed (Inr x) P \<longleftrightarrow> P x"
  by (simp_all add: outcome_def)

lemma outcome_bind:
  "outcome E fixed m P \<Longrightarrow> (\<And>x. P x \<Longrightarrow> outcome E fixed (f x) Q) \<Longrightarrow> outcome E fixed (res_bind m f) Q"
  by (cases m) auto

lemma outcome_mono: "outcome E fixed m P \<Longrightarrow> (\<And>x. P x \<Longrightarrow> Q x) \<Longrightarrow> outcome E fixed m Q"
  by (cases m) auto

lemma length_contents: "vstr_ok v \<Longrightarrow> length (vstr_contents v) = unat (len v)"
  by (simp add: vstr_ok_def vstr_contents_def word_le_nat_alt)

lemma ROUND_ALLOC_bounds:
  assumes "unat a + 8 < 2 ^ 32"
  shows "unat a < unat (ROUND_ALLOC a)" "unat (ROUND_ALLOC a) \<le> unat a + 8"
proof -
  have m: "(7 :: 32 word) = mask 3" by (simp add: mask_eq_exp_minus_1)
  have n: "(NOT 0 - 7 :: 32 word) = NOT 7" by simp
  have "(a AND NOT 7) AND (a AND 7) = 0" by (rule bit_eqI) (auto simp: bit_simps)
  then have "(a AND NOT 7) + (a AND 7) = (a AND NOT 7) OR (a AND 7)" by (rule disjunctive_add_eq_or)
  also have "\<dots> = a" by (rule bit_eqI) (auto simp: bit_simps)
  finally have e: "a AND NOT 7 = a - (a AND 7)" by (simp add: eq_diff_eq)
  have l: "unat (a AND 7) = unat a mod 8"
    unfolding m take_bit_eq_mask [symmetric] by (simp add: take_bit_eq_mod unat_mod_distrib)
  then have "a AND 7 \<le> a" by (simp add: word_le_nat_alt)
  then have f: "unat (a AND NOT 7) = unat a - unat a mod 8" unfolding e by (simp add: unat_sub l)
  have "unat (ROUND_ALLOC a) = unat a - unat a mod 8 + 8"
    unfolding ROUND_ALLOC_def n using assms f by (subst unat_add_lem [THEN iffD1]) simp_all
  then show "unat a < unat (ROUND_ALLOC a)" "unat (ROUND_ALLOC a) \<le> unat a + 8"
    using mod_less_divisor [of 8 "unat a"] mod_less_eq_dividend [of "unat a" 8] by linarith+
qed

section \<open>Making room\<close>

text \<open>Adding sizes that do not wrap.\<close>

lemma unat_plus_of_nat:
  assumes "unat (x :: 32 word) + n < 2 ^ 32"
  shows "unat (x + of_nat n) = unat x + n"
proof -
  have "unat (of_nat n :: 32 word) = n" using assms by (simp add: unat_of_nat)
  then show ?thesis using assms by (subst unat_add_lem [THEN iffD1]) simp_all
qed

definition grown :: "vstr \<Rightarrow> nat \<Rightarrow> vstr \<Rightarrow> bool" where
  "grown v n v' \<longleftrightarrow> vstr_ok v' \<and> len v' = len v \<and> fixed_buf v' = fixed_buf v \<and> vstr_contents v' = vstr_contents v \<and>
     unat (len v) + n \<le> length (buf v')"

lemma m_renew_outcome:
  "outcome E False (m_renew E b n) (\<lambda>b'. length b' = unat n \<and> take (min (length b) (unat n)) b' = take (min (length b) (unat n)) b)"
proof -
  have "unat n < 2 ^ 32" using unsigned_less [of n, where ?'a = nat] by simp
  then show ?thesis by (auto simp: m_renew_def growth_fails_def min_def)
qed

lemma take_from_take: "n \<le> k \<Longrightarrow> take k xs = take k ys \<Longrightarrow> take n xs = take n ys"
  by (metis min.absorb1 take_take)

lemma ensure_extra:
  assumes "vstr_ok v" "unat (len v) + n + 24 < 2 ^ 32"
  shows "outcome E (fixed_buf v) (vstr_ensure_extra E (of_nat n) v) (grown v n)"
proof -
  have s: "unat (len v + of_nat n) = unat (len v) + n" by (rule unat_plus_of_nat) (use assms(2) in simp)
  show ?thesis
  proof (cases "len v + of_nat n > alloc v")
    case False
    then have "unat (len v) + n \<le> length (buf v)" using s assms(1) by (simp add: word_less_nat_alt vstr_ok_def)
    then show ?thesis using False assms(1) by (simp add: vstr_ensure_extra_def grown_def)
  next
    case True
    let ?a = "ROUND_ALLOC (len v + of_nat n + 16)"
    have "unat (len v + of_nat n + 16) = unat (len v) + n + 16"
      using unat_plus_of_nat [of "len v + of_nat n" 16] assms(2) by (simp add: s)
    then have a: "unat (len v) + n + 16 < unat ?a" using ROUND_ALLOC_bounds(1) [of "len v + of_nat n + 16"] assms(2) by simp
    have l: "unat (len v) \<le> length (buf v)" "len v \<le> ?a" using assms(1) a by (simp_all add: vstr_ok_def word_le_nat_alt)
    show ?thesis
    proof (cases "fixed_buf v")
      case False
      have "grown v n (v\<lparr>alloc := ?a, buf := b'\<rparr>)"
        if b: "length b' = unat ?a \<and> take (min (length (buf v)) (unat ?a)) b' = take (min (length (buf v)) (unat ?a)) (buf v)" for b'
        using b a l False take_from_take [of "unat (len v)" "min (length (buf v)) (unat ?a)" b' "buf v"]
        by (simp add: grown_def vstr_ok_def vstr_contents_def)
      then show ?thesis using True False
        by (auto simp: vstr_ensure_extra_def Let_def intro!: outcome_bind [OF m_renew_outcome])
    qed (use True in \<open>simp add: vstr_ensure_extra_def growth_fails_def\<close>)
  qed
qed

text \<open>Adding bytes at the end.\<close>

definition becomes :: "vstr \<Rightarrow> byte list \<Rightarrow> vstr \<Rightarrow> bool" where
  "becomes v bs v' \<longleftrightarrow> vstr_ok v' \<and> fixed_buf v' = fixed_buf v \<and> vstr_contents v' = bs"

lemma becomes_same: "fixed_buf v1 = fixed_buf v \<Longrightarrow> becomes v1 = becomes v"
  by (simp add: becomes_def fun_eq_iff)

lemma store_at_end:
  assumes "grown v (length bs) v1"
  shows "store (unat (len v)) bs v1 = Inr (v1\<lparr>buf := take (unat (len v)) (buf v1) @ bs @ drop (unat (len v) + length bs) (buf v1)\<rparr>)"
  using assms by (simp add: store_def put_bytes_def grown_def)

lemma appended:
  assumes "grown v (length bs) v1" "unat (len v) + length bs < 2 ^ 32"
  shows "becomes v (vstr_contents v @ bs)
    (v1\<lparr>buf := take (unat (len v)) (buf v1) @ bs @ drop (unat (len v) + length bs) (buf v1), len := len v + of_nat (length bs)\<rparr>)"
  using assms by (auto simp: becomes_def grown_def vstr_ok_def vstr_contents_def unat_plus_of_nat word_le_nat_alt)

lemma add_len_store:
  assumes "vstr_ok v" "unat (len v) + length bs + 24 < 2 ^ 32" "k = of_nat (length bs)"
  shows "outcome E (fixed_buf v) (res_bind (vstr_add_len E k v) (\<lambda>(p, v). store p bs v)) (becomes v (vstr_contents v @ bs))"
proof -
  have "outcome E (fixed_buf v) (vstr_add_len E k v) (\<lambda>(p, v2). \<exists>v1. grown v (length bs) v1 \<and> p = unat (len v) \<and> v2 = v1\<lparr>len := len v + k\<rparr>)"
    unfolding vstr_add_len_def assms(3)
    by (rule outcome_bind [OF ensure_extra [OF assms(1,2)]]) (auto simp: grown_def)
  then show ?thesis
  proof (rule outcome_bind, clarsimp)
    fix v1 assume g: "grown v (length bs) v1"
    have "store (unat (len v)) bs (v1\<lparr>len := len v + k\<rparr>) =
      Inr (v1\<lparr>buf := take (unat (len v)) (buf v1) @ bs @ drop (unat (len v) + length bs) (buf v1), len := len v + k\<rparr>)"
      using g by (simp add: store_def put_bytes_def grown_def)
    then show "outcome E (fixed_buf v) (store (unat (len v)) bs (v1\<lparr>len := len v + k\<rparr>)) (becomes v (vstr_contents v @ bs))"
      using appended [OF g] assms(2,3) by simp
  qed
qed

text \<open>The bytes of a character are its UTF-8 encoding.\<close>

lemma or_tag:
  assumes "k < 2 ^ j"
  shows "(of_nat k :: unichar) OR of_nat (v * 2 ^ j) = of_nat (v * 2 ^ j + k)"
proof -
  have "(of_nat k :: unichar) OR of_nat (v * 2 ^ j) = of_nat (push_bit j v OR k)"
    by (simp only: of_nat_or_eq push_bit_eq_mult of_nat_mult or.commute)
  then show ?thesis by (simp only: or_low_bits [OF assms])
qed

lemma drop_bit_unichar: "drop_bit j (c :: unichar) = of_nat (unat c div 2 ^ j)"
proof -
  have "unat c < 2 ^ 32" using unsigned_less [of c, where ?'a = nat] by simp
  moreover from this have "unat c div 2 ^ j < 2 ^ 32" by (rule le_less_trans [OF div_le_dividend])
  ultimately show ?thesis
    unfolding word_unat_eq_iff unsigned_drop_bit_eq
    by (simp add: drop_bit_eq_div take_bit_nat_eq_self unat_of_nat)
qed

lemma low_six: "(of_nat k :: unichar) AND 0x3F = of_nat (k mod 64)"
proof -
  have m: "(0x3F :: unichar) = mask 6" by (simp add: mask_eq_exp_minus_1)
  show ?thesis unfolding m take_bit_eq_mask [symmetric] take_bit_of_nat by (simp add: take_bit_eq_mod)
qed

lemma ucast_of_nat_byte: "ucast (of_nat k :: unichar) = (of_nat k :: byte)"
  by (simp add: word_unat_eq_iff unsigned_ucast_eq unat_of_nat take_bit_eq_mod mod_mod_cancel)

lemmas encode_bits = or_tag [of _ 6 2] or_tag [of _ 5 6] or_tag [of _ 4 14] or_tag [of _ 3 30]

lemma lead_bytes:
  "k < 32 \<Longrightarrow> ucast (of_nat k OR 0xC0 :: unichar) = (of_nat (0xC0 + k) :: byte)"
  "k < 16 \<Longrightarrow> ucast (of_nat k OR 0xE0 :: unichar) = (of_nat (0xE0 + k) :: byte)"
  "k < 8 \<Longrightarrow> ucast (of_nat k OR 0xF0 :: unichar) = (of_nat (0xF0 + k) :: byte)"
  "ucast (of_nat (k mod 64) OR 0x80 :: unichar) = (of_nat (0x80 + k mod 64) :: byte)"
  using encode_bits [of k] or_tag [of "k mod 64" 6 2] ucast_of_nat_byte [of "0xC0 + k"] ucast_of_nat_byte [of "0xE0 + k"]
    ucast_of_nat_byte [of "0xF0 + k"] ucast_of_nat_byte [of "0x80 + k mod 64"]
  by simp_all

lemma vstr_add_char_appends:
  assumes "vstr_ok v" "unat (len v) + length (utf8_char c) + 24 < 2 ^ 32" "c < 0x110000"
  shows "outcome E (fixed_buf v) (vstr_add_char E c v) (becomes v (vstr_contents v @ utf8_char c))"
proof -
  define n where "n = unat c"
  have c: "c = of_nat n" and n: "n < 0x110000" using assms(3) by (simp_all add: n_def word_less_nat_alt)
  have lt: "c < 0x80 \<longleftrightarrow> n < 0x80" "c < 0x800 \<longleftrightarrow> n < 0x800" "c < 0x10000 \<longleftrightarrow> n < 0x10000" "c < 0x110000 \<longleftrightarrow> n < 0x110000"
    by (simp_all add: n_def word_less_nat_alt)
  have d: "drop_bit j c = of_nat (n div 2 ^ j)" for j by (simp add: drop_bit_unichar n_def)
  have six: "c AND 0x3F = of_nat (n mod 64)" by (simp add: c low_six)
  have e: "utf8_char c = map of_nat (utf8_of n)" by (simp add: utf8_char_def n_def)
  note w = add_len_store [OF assms(1), of "utf8_char c" _ E, OF assms(2)]
  consider "n < 0x80" | "0x80 \<le> n" "n < 0x800" | "0x800 \<le> n" "n < 0x10000" | "0x10000 \<le> n" by linarith
  then show ?thesis
  proof cases
    case 1
    have u: "utf8_char c = [ucast c]" using 1 unfolding e by (simp add: utf8_of_def ucast_of_nat_byte c)
    show ?thesis using w [of 1] 1 unfolding vstr_add_char_def lt u by simp
  next
    case 2
    then have "n div 2 ^ 6 < 32" by (simp add: less_mult_imp_div_less)
    then have u: "utf8_char c = [ucast (drop_bit 6 c OR 0xC0), ucast ((c AND 0x3F) OR 0x80)]"
      using 2 unfolding d six by (simp only: lead_bytes e) (simp add: utf8_of_def)
    show ?thesis using w [of 2] 2 unfolding vstr_add_char_def lt u by simp
  next
    case 3
    then have "n div 2 ^ 12 < 16" by (simp add: less_mult_imp_div_less)
    then have u: "utf8_char c = [ucast (drop_bit 12 c OR 0xE0), ucast ((drop_bit 6 c AND 0x3F) OR 0x80), ucast ((c AND 0x3F) OR 0x80)]"
      using 3 unfolding d six low_six by (simp only: lead_bytes e) (simp add: utf8_of_def)
    show ?thesis using w [of 3] 3 unfolding vstr_add_char_def lt u by simp
  next
    case 4
    have "n div 2 ^ 18 < 8" using n by (simp add: less_mult_imp_div_less)
    then have u: "utf8_char c = [ucast (drop_bit 18 c OR 0xF0), ucast ((drop_bit 12 c AND 0x3F) OR 0x80),
        ucast ((drop_bit 6 c AND 0x3F) OR 0x80), ucast ((c AND 0x3F) OR 0x80)]"
      using 4 unfolding d six low_six by (simp only: lead_bytes e) (simp add: utf8_of_def)
    show ?thesis using w [of 4] 4 n unfolding vstr_add_char_def lt u by simp
  qed
qed

section \<open>The other operations\<close>

lemma vstr_add_strn_appends:
  assumes "vstr_ok v" "unat (len v) + length bs + 24 < 2 ^ 32"
  shows "outcome E (fixed_buf v) (vstr_add_strn E bs v) (becomes v (vstr_contents v @ bs))"
  unfolding vstr_add_strn_def
proof (rule outcome_bind [OF ensure_extra [OF assms]])
  fix v1 assume g: "grown v (length bs) v1"
  then have "len v1 = len v" by (simp add: grown_def)
  then show "outcome E (fixed_buf v) (res_bind (store (unat (len v1)) bs v1) (\<lambda>v. Inr (v\<lparr>len := len v + of_nat (length bs)\<rparr>)))
      (becomes v (vstr_contents v @ bs))"
    using appended [OF g] assms(2) by (simp add: store_at_end [OF g])
qed

lemma vstr_add_byte_appends:
  assumes "vstr_ok v" "unat (len v) + 25 < 2 ^ 32"
  shows "outcome E (fixed_buf v) (vstr_add_byte E b v) (becomes v (vstr_contents v @ [b]))"
  unfolding vstr_add_byte_def using assms by (intro add_len_store) simp_all

lemma gap_filled:
  assumes "p \<le> l" "Suc l \<le> length B" "B1 = take (Suc p) B @ take (l - p) (drop p B) @ drop (Suc l) B"
    "B2 = take p B1 @ b # drop (Suc p) B1"
  shows "length B2 = length B" "take (Suc l) B2 = take p (take l B) @ b # drop p (take l B)"
  using assms by (auto simp: drop_take Suc_diff_le)

lemma insert_one:
  assumes "vstr_ok v" "unat (len v) + 25 < 2 ^ 32"
  shows "outcome E (fixed_buf v) (res_bind (vstr_ins_blank_bytes E p 1 v) (\<lambda>(s, v). store s [b] v))
    (becomes v (take (unat p) (vstr_contents v) @ b # drop (unat p) (vstr_contents v)))"
proof -
  define p' where "p' = (if p > len v then len v else p)"
  define l where "l = unat (len v)"
  have p': "unat p' \<le> l" "take (unat p) (vstr_contents v) = take (unat p') (vstr_contents v)" "drop (unat p) (vstr_contents v) = drop (unat p') (vstr_contents v)"
    "unat (len v - p') = l - unat p'"
    using length_contents [OF assms(1)] by (auto simp: p'_def l_def word_less_nat_alt unat_sub word_le_nat_alt)
  have g: "outcome E (fixed_buf v) (vstr_ensure_extra E 1 v) (grown v 1)" using ensure_extra [OF assms(1), of 1 E] assms(2) by simp
  have "outcome E (fixed_buf v) (vstr_ins_blank_bytes E p 1 v)
    (\<lambda>(s, v2). \<exists>v1. grown v 1 v1 \<and> s = unat p' \<and>
       v2 = v1\<lparr>buf := take (Suc (unat p')) (buf v1) @ take (l - unat p') (drop (unat p') (buf v1)) @ drop (Suc l) (buf v1), len := len v + 1\<rparr>)"
    unfolding vstr_ins_blank_bytes_def Let_def p'_def [symmetric]
  proof (simp, rule outcome_bind [OF outcome_bind [OF g]])
    fix v1 assume v1: "grown v 1 v1"
    then have "Suc l \<le> length (buf v1)" "len v1 = len v" by (simp_all add: grown_def l_def)
    then show "outcome E (fixed_buf v)
        (res_bind (memmove_in (buf v1) (Suc (unat p')) (unat p') (unat (len v - p'))) (\<lambda>b. Inr (v1\<lparr>buf := b, len := len v1 + 1\<rparr>)))
        (\<lambda>v2. \<exists>v1. grown v 1 v1 \<and>
          v2 = v1\<lparr>buf := take (Suc (unat p')) (buf v1) @ take (l - unat p') (drop (unat p') (buf v1)) @ drop (Suc l) (buf v1), len := len v + 1\<rparr>)"
      using v1 p'(1) by (auto simp: memmove_in_def put_bytes_def p'(4) intro!: exI [of _ v1])
  qed auto
  then show ?thesis
  proof (rule outcome_bind, clarsimp)
    fix v1 assume v1: "grown v (Suc 0) v1"
    define B1 where "B1 = take (Suc (unat p')) (buf v1) @ take (l - unat p') (drop (unat p') (buf v1)) @ drop (Suc l) (buf v1)"
    define B2 where "B2 = take (unat p') B1 @ b # drop (Suc (unat p')) B1"
    have lb: "Suc l \<le> length (buf v1)" "vstr_ok v1" "fixed_buf v1 = fixed_buf v" "len v1 = len v"
      using v1 by (auto simp: grown_def l_def)
    have "vstr_contents v = vstr_contents v1" using v1 by (simp add: grown_def)
    then have c: "vstr_contents v = take l (buf v1)" using lb(4) by (simp only: vstr_contents_def [of v1] l_def)
    note f = gap_filled [OF p'(1) lb(1) B1_def B2_def]
    have "Suc (unat p') \<le> length B1" using p'(1) lb(1) by (simp add: B1_def)
    then have st: "store (unat p') [b] (v1\<lparr>buf := B1, len := len v + 1\<rparr>) = Inr (v1\<lparr>buf := B2, len := len v + 1\<rparr>)"
      by (simp add: store_def put_bytes_def B2_def)
    have w: "unat (len v + 1) = Suc l" using unat_plus_of_nat [of "len v" 1] assms(2) by (simp add: l_def)
    have "take (unat (len v + 1)) B2 = take (unat p) (vstr_contents v) @ b # drop (unat p) (vstr_contents v)"
      unfolding w f(2) p'(2,3) c [symmetric] ..
    then have "becomes v (take (unat p) (vstr_contents v) @ b # drop (unat p) (vstr_contents v)) (v1\<lparr>buf := B2, len := len v + 1\<rparr>)"
      using f(1) lb w by (simp add: becomes_def vstr_ok_def word_le_nat_alt vstr_contents_def [of "v1\<lparr>buf := B2, len := len v + 1\<rparr>"])
    then show "outcome E (fixed_buf v) (store (unat p') [b] (v1\<lparr>buf := take (Suc (unat p')) (buf v1) @ take (l - unat p') (drop (unat p') (buf v1)) @ drop (Suc l) (buf v1), len := len v + 1\<rparr>))
        (becomes v (take (unat p) (vstr_contents v) @ b # drop (unat p) (vstr_contents v)))"
      unfolding B1_def [symmetric] st by simp
  qed
qed

lemma cut_out:
  assumes "vstr_ok v" "unat p + unat n < 2 ^ 32"
  shows "\<exists>v'. vstr_cut_out_bytes p n v = Inr v' \<and> becomes v (take (unat p) (vstr_contents v) @ drop (unat p + unat n) (vstr_contents v)) v'"
proof -
  have s: "unat (p + n) = unat p + unat n" using assms(2) by (subst unat_add_lem [THEN iffD1]) simp_all
  note l = length_contents [OF assms(1)]
  consider "p \<ge> len v" | "\<not> p \<ge> len v" "p + n \<ge> len v" | "\<not> p \<ge> len v" "\<not> p + n \<ge> len v" by blast
  then show ?thesis
  proof cases
    case 1
    then show ?thesis using l assms(1) by (simp add: vstr_cut_out_bytes_def becomes_def word_le_nat_alt)
  next
    case 2
    then show ?thesis using l assms(1) s
      by (auto simp: vstr_cut_out_bytes_def becomes_def word_le_nat_alt vstr_ok_def vstr_contents_def min_def)
  next
    case 3
    have le: "unat p + unat n < unat (len v)" "unat (len v) \<le> length (buf v)" using 3 s assms(1) by (simp_all add: word_le_nat_alt vstr_ok_def)
    have d: "unat (len v - p - n) = unat (len v) - unat p - unat n" "unat (len v - n) = unat (len v) - unat n"
      using le by (simp_all add: unat_sub word_le_nat_alt)
    show ?thesis using 3 le assms(1)
      by (auto simp: vstr_cut_out_bytes_def memmove_in_def put_bytes_def d becomes_def vstr_ok_def vstr_contents_def word_le_nat_alt drop_take min_def
          add.commute [of "unat n" "unat p"])
  qed
qed

lemma cut_tail:
  "vstr_ok v \<Longrightarrow> becomes v (take (length (vstr_contents v) - unat n) (vstr_contents v)) (vstr_cut_tail_bytes n v)"
  by (auto simp: vstr_cut_tail_bytes_def becomes_def vstr_ok_def vstr_contents_def word_less_nat_alt word_le_nat_alt unat_sub)

lemma null_terminated:
  assumes "vstr_ok v" "unat (len v) + 1 < 2 ^ 32"
  shows "outcome E (fixed_buf v) (vstr_null_terminated_str E v) (\<lambda>v'. becomes v (vstr_contents v) v' \<and> take (Suc (length (vstr_contents v))) (buf v') = vstr_contents v @ [0])"
proof -
  note l = length_contents [OF assms(1)]
  have g: "outcome E (fixed_buf v) (if alloc v = len v then res_bind (vstr_extend E 1 v) (\<lambda>(p, v). Inr v) else Inr v) (grown v 1)"
  proof (cases "alloc v = len v")
    case True
    have w: "unat (len v + 1) = Suc (unat (len v))" using unat_plus_of_nat [of "len v" 1] assms(2) by simp
    show ?thesis
    proof (cases "fixed_buf v")
      case False
      have "grown v 1 (v\<lparr>alloc := len v + 1, buf := b'\<rparr>)"
        if "length b' = Suc (unat (len v)) \<and> take (min (length (buf v)) (Suc (unat (len v)))) b' = take (min (length (buf v)) (Suc (unat (len v)))) (buf v)" for b'
        using that True assms(1) w by (simp add: grown_def vstr_ok_def vstr_contents_def word_le_nat_alt)
      then have "outcome E False (m_renew E (buf v) (len v + 1)) (\<lambda>b'. grown v 1 (v\<lparr>alloc := len v + 1, buf := b'\<rparr>))"
        using m_renew_outcome [of E "buf v" "len v + 1"] unfolding w by (rule_tac outcome_mono)
      then show ?thesis using True False by (cases "m_renew E (buf v) (len v + 1)") (simp_all add: vstr_extend_def)
    qed (use True in \<open>simp add: vstr_extend_def growth_fails_def\<close>)
  next
    case False
    then have "len v < alloc v" using assms(1) by (simp add: vstr_ok_def word_le_nat_alt word_less_nat_alt le_less word_unat_eq_iff)
    then show ?thesis using False assms(1) by (simp add: grown_def vstr_ok_def word_less_nat_alt)
  qed
  show ?thesis unfolding vstr_null_terminated_str_def
  proof (rule outcome_bind [OF g])
    fix v1 assume "grown v 1 v1"
    then show "outcome E (fixed_buf v) (store (unat (len v1)) [0] v1) (\<lambda>v'. becomes v (vstr_contents v) v' \<and> take (Suc (length (vstr_contents v))) (buf v') = vstr_contents v @ [0])"
      using assms(1) by (auto simp: store_def put_bytes_def grown_def becomes_def vstr_ok_def word_le_nat_alt vstr_contents_def min_def)
  qed
qed

section \<open>Sequences of operations\<close>

datatype vstr_op = Add_byte byte | Add_char unichar | Add_strn "byte list" | Add_str "byte list" | Hint_size "32 word"
  | Ins_byte "32 word" byte | Ins_char "32 word" unichar | Cut_out "32 word" "32 word" | Cut_head "32 word"
  | Cut_tail "32 word" | Null_terminate | Reset

fun vstr_step :: "mem_env \<Rightarrow> vstr_op \<Rightarrow> vstr \<Rightarrow> py_exc + vstr" where
  "vstr_step E (Add_byte b) v = vstr_add_byte E b v"
| "vstr_step E (Add_char c) v = vstr_add_char E c v"
| "vstr_step E (Add_strn bs) v = vstr_add_strn E bs v"
| "vstr_step E (Add_str bs) v = vstr_add_str E bs v"
| "vstr_step E (Hint_size n) v = vstr_hint_size E n v"
| "vstr_step E (Ins_byte p b) v = vstr_ins_byte E p b v"
| "vstr_step E (Ins_char p c) v = vstr_ins_char E p c v"
| "vstr_step E (Cut_out p n) v = vstr_cut_out_bytes p n v"
| "vstr_step E (Cut_head n) v = vstr_cut_head_bytes n v"
| "vstr_step E (Cut_tail n) v = Inr (vstr_cut_tail_bytes n v)"
| "vstr_step E Null_terminate v = vstr_null_terminated_str E v"
| "vstr_step E Reset v = Inr (vstr_reset v)"

fun vstr_run :: "mem_env \<Rightarrow> vstr_op list \<Rightarrow> vstr \<Rightarrow> py_exc + vstr" where
  "vstr_run E [] v = Inr v"
| "vstr_run E (x # xs) v = res_bind (vstr_step E x v) (vstr_run E xs)"

text \<open>What the operations mean for the bytes of the string, and by how much they lengthen it.\<close>

fun bytes_step :: "vstr_op \<Rightarrow> byte list \<Rightarrow> byte list" where
  "bytes_step (Add_byte b) s = s @ [b]"
| "bytes_step (Add_char c) s = s @ utf8_char c"
| "bytes_step (Add_strn bs) s = s @ bs"
| "bytes_step (Add_str bs) s = s @ takeWhile (\<lambda>b. b \<noteq> 0) bs"
| "bytes_step (Hint_size n) s = s"
| "bytes_step (Ins_byte p b) s = take (unat p) s @ b # drop (unat p) s"
| "bytes_step (Ins_char p c) s = take (unat p) s @ ucast c # drop (unat p) s"
| "bytes_step (Cut_out p n) s = take (unat p) s @ drop (unat p + unat n) s"
| "bytes_step (Cut_head n) s = drop (unat n) s"
| "bytes_step (Cut_tail n) s = take (length s - unat n) s"
| "bytes_step Null_terminate s = s"
| "bytes_step Reset s = []"

fun demand :: "vstr_op \<Rightarrow> nat" where
  "demand (Add_char c) = 4"
| "demand (Add_strn bs) = length bs"
| "demand (Add_str bs) = length bs"
| "demand (Hint_size n) = unat n"
| "demand (Cut_out p n) = 0"
| "demand (Cut_head n) = 0"
| "demand (Cut_tail n) = 0"
| "demand Reset = 0"
| "demand _ = 1"

fun op_ok :: "vstr_op \<Rightarrow> bool" where
  "op_ok (Add_char c) \<longleftrightarrow> c < 0x110000"
| "op_ok (Cut_out p n) \<longleftrightarrow> unat p + unat n < 2 ^ 32"
| "op_ok _ \<longleftrightarrow> True"

lemma length_utf8_char: "length (utf8_char c) \<le> 4"
  by (simp add: utf8_char_def utf8_of_def)

lemma demand_bounds: "length (bytes_step x s) \<le> length s + demand x"
  using length_utf8_char le_trans [OF length_takeWhile_le] by (cases x) (auto simp: min_def add.commute)

lemma vstr_step_refines:
  assumes "vstr_ok v" "unat (len v) + demand x + 24 < 2 ^ 32" "op_ok x"
  shows "outcome E (fixed_buf v) (vstr_step E x v) (becomes v (bytes_step x (vstr_contents v)))"
proof (cases x)
  case (Add_byte b)
  then show ?thesis using vstr_add_byte_appends [OF assms(1)] assms(2) by simp
next
  case (Add_char c)
  then show ?thesis using vstr_add_char_appends [OF assms(1)] length_utf8_char [of c] assms(2,3) by simp
next
  case (Add_strn bs)
  then show ?thesis using vstr_add_strn_appends [OF assms(1)] assms(2) by simp
next
  case (Add_str bs)
  then show ?thesis using vstr_add_strn_appends [OF assms(1), of "takeWhile (\<lambda>b. b \<noteq> 0) bs"] length_takeWhile_le [of "\<lambda>b. b \<noteq> 0" bs] assms(2)
    by (simp add: vstr_add_str_def)
next
  case (Hint_size n)
  then show ?thesis using outcome_mono [OF ensure_extra [OF assms(1), of "unat n" E]] assms(2)
    by (simp add: vstr_hint_size_def grown_def becomes_def)
next
  case (Ins_byte p b)
  then show ?thesis using insert_one [OF assms(1)] assms(2) by (simp add: vstr_ins_byte_def)
next
  case (Ins_char p c)
  then show ?thesis using insert_one [OF assms(1)] assms(2) by (simp add: vstr_ins_char_def)
next
  case (Cut_out p n)
  then show ?thesis using cut_out [OF assms(1), of p n] assms(3) by auto
next
  case (Cut_head n)
  then show ?thesis using cut_out [OF assms(1), of 0 n] unsigned_less [of n, where ?'a = nat] by (auto simp: vstr_cut_head_bytes_def)
next
  case (Cut_tail n)
  then show ?thesis using cut_tail [OF assms(1)] by simp
next
  case Null_terminate
  then show ?thesis using outcome_mono [OF null_terminated [OF assms(1)]] assms(2) by simp
next
  case Reset
  then show ?thesis using assms(1) by (simp add: vstr_reset_def becomes_def vstr_ok_def vstr_contents_def)
qed

lemma vstr_run_refines:
  assumes "vstr_ok v" "unat (len v) + sum_list (map demand xs) + 24 < 2 ^ 32" "\<forall>x \<in> set xs. op_ok x"
  shows "outcome E (fixed_buf v) (vstr_run E xs v) (becomes v (fold bytes_step xs (vstr_contents v)))"
  using assms
proof (induction xs arbitrary: v)
  case (Cons x xs)
  have s: "outcome E (fixed_buf v) (vstr_step E x v) (becomes v (bytes_step x (vstr_contents v)))"
    using Cons.prems by (intro vstr_step_refines) simp_all
  show ?case unfolding vstr_run.simps
  proof (rule outcome_bind [OF s])
    fix v1 assume b: "becomes v (bytes_step x (vstr_contents v)) v1"
    then have v1: "vstr_ok v1" "fixed_buf v1 = fixed_buf v" "vstr_contents v1 = bytes_step x (vstr_contents v)" by (simp_all add: becomes_def)
    have "unat (len v1) \<le> unat (len v) + demand x"
      using demand_bounds [of x "vstr_contents v"] length_contents [OF v1(1)] length_contents [OF Cons.prems(1)] v1(3) by simp
    then have "outcome E (fixed_buf v1) (vstr_run E xs v1) (becomes v1 (fold bytes_step xs (vstr_contents v1)))"
      using Cons.prems v1(1) by (intro Cons.IH) simp_all
    then show "outcome E (fixed_buf v) (vstr_run E xs v1) (becomes v (fold bytes_step (x # xs) (vstr_contents v)))"
      by (simp add: v1(2,3) becomes_same [OF v1(2)])
  qed
qed (simp add: becomes_def)

end
