(* ===== verification/Py_Sequence.thy ===== *)
theory Py_Sequence
  imports Py_Vstr_Props
begin

text \<open>
  What the sequence types share (\<open>py/sequence.c\<close>, \<open>mp_get_index\<close> and \<open>mp_obj_get_int\<close> of \<open>py/obj.c\<close>):
  conversion of index and slice objects to positions, extraction of slices, repetition, comparison
  of byte sequences, and search by equality. Index objects are the objects of \<open>Py_Obj\<close>; an integer on
  the heap is converted to a machine integer or raises. Machine integers (\<open>mp_int_t\<close>) are integers
  of 32 bits: the two additions of an index, a step and one that can leave their range wrap around.
  Lengths are below \<open>2^31\<close>, so that no other sum does.
\<close>

section \<open>Indices\<close>

text \<open>\<open>mpz_as_int_checked\<close> takes the values whose magnitude has 31 bits (\<open>mpz_as_int_checked_correct\<close>).\<close>

definition mp_obj_int_get_checked :: "int \<Rightarrow> py_exc + int" where
  "mp_obj_int_get_checked v = (if \<bar>v\<bar> < 2 ^ 31 then Inr v else Inl OverflowError)"

fun mp_obj_get_int_maybe :: "mp_obj \<Rightarrow> py_exc + int option" where
  "mp_obj_get_int_maybe (Bool_obj b) = Inr (Some (of_bool b))"
| "mp_obj_get_int_maybe (Small_int v) = Inr (Some v)"
| "mp_obj_get_int_maybe (Int_obj p v) = res_bind (mp_obj_int_get_checked v) (\<lambda>i. Inr (Some i))"
| "mp_obj_get_int_maybe _ = Inr None"

fun mp_obj_get_int :: "mp_obj \<Rightarrow> py_exc + int" where
  "mp_obj_get_int (Bool_obj b) = Inr (of_bool b)"
| "mp_obj_get_int (Small_int v) = Inr v"
| "mp_obj_get_int (Int_obj p v) = mp_obj_int_get_checked v"
| "mp_obj_get_int _ = Inl TypeError"

definition mp_get_index :: "nat \<Rightarrow> mp_obj \<Rightarrow> bool \<Rightarrow> py_exc + nat" where
  "mp_get_index l index is_slice =
     res_bind (mp_obj_get_int_maybe index) (\<lambda>v.
       case v of
         None \<Rightarrow> Inl TypeError
       | Some i0 \<Rightarrow>
           let i = (if i0 < 0 then i0 + int l else i0)
           in if is_slice then Inr (nat (if i < 0 then 0 else if i > int l then int l else i))
              else if i < 0 \<or> i \<ge> int l then Inl IndexError
              else Inr (nat i))"

text \<open>The sum of machine integers.\<close>

definition mp_int_add :: "int \<Rightarrow> int \<Rightarrow> int" where
  "mp_int_add a b = (a + b + 2 ^ 31) mod 2 ^ 32 - 2 ^ 31"

definition mp_int_fits :: "int \<Rightarrow> bool" where
  "mp_int_fits v \<longleftrightarrow> - (2 ^ 31) \<le> v \<and> v < 2 ^ 31"

lemma mp_int_add_exact: "mp_int_fits (a + b) \<Longrightarrow> mp_int_add a b = a + b"
  by (simp add: mp_int_add_def mp_int_fits_def mod_pos_pos_trivial)

lemma mp_int_add_wraps:
  assumes "2 ^ 31 \<le> a + b" "mp_int_fits a" "mp_int_fits b"
  shows "mp_int_add a b < 0"
proof -
  have "(a + b + 2 ^ 31) mod 2 ^ 32 = (a + b - 2 ^ 31) mod 2 ^ 32"
    using mod_add_self2 [of "a + b - 2 ^ 31" "2 ^ 32 :: int"] by (simp add: add.commute)
  also have "\<dots> = a + b - 2 ^ 31" using assms by (intro mod_pos_pos_trivial) (auto simp: mp_int_fits_def)
  finally show ?thesis using assms by (simp add: mp_int_add_def mp_int_fits_def)
qed

section \<open>Slices\<close>

record slice_obj =
  ostart :: mp_obj
  ostop :: mp_obj
  ostep :: mp_obj

record bound_slice =
  start :: int
  stop :: int
  step :: int

definition slice_step :: "mp_obj \<Rightarrow> py_exc + int" where
  "slice_step o1 =
     (if \<not> is_none o1 \<and> o1 \<noteq> Small_int 1
      then res_bind (mp_obj_get_int o1) (\<lambda>st. if st = 0 then Inl ValueError else Inr st)
      else Inr 1)"

definition slice_start :: "nat \<Rightarrow> int \<Rightarrow> mp_obj \<Rightarrow> py_exc + int" where
  "slice_start l st o1 =
     (if is_none o1 then Inr (if st > 0 then 0 else int l - 1) else mp_obj_get_int o1)"

definition slice_stop :: "nat \<Rightarrow> int \<Rightarrow> mp_obj \<Rightarrow> py_exc + int" where
  "slice_stop l st o1 =
     (if is_none o1 then Inr (if st > 0 then int l else 0)
      else res_bind (mp_obj_get_int o1) (\<lambda>sp. Inr (if sp \<ge> 0 \<and> st < 0 then mp_int_add sp 1 else sp)))"

definition clip_start :: "nat \<Rightarrow> int \<Rightarrow> int \<Rightarrow> int" where
  "clip_start l st sa =
     (if sa < 0 then
        let sa = int l + sa
        in if sa < 0 then if st < 0 then -1 else 0 else sa
      else if st > 0 \<and> sa > int l then int l
      else if st < 0 \<and> sa \<ge> int l then int l - 1
      else sa)"

definition clip_stop :: "nat \<Rightarrow> int \<Rightarrow> int \<Rightarrow> int" where
  "clip_stop l st so =
     (if so < 0 then
        let so = int l + so; so = (if so < 0 then -1 else so)
        in if st < 0 then so + 1 else so
      else if so > int l then int l
      else so)"

definition mp_seq_get_fast_slice_indexes :: "nat \<Rightarrow> slice_obj \<Rightarrow> py_exc + bool \<times> bound_slice" where
  "mp_seq_get_fast_slice_indexes l sl =
     res_bind (slice_step (ostep sl)) (\<lambda>st.
     res_bind (slice_start l st (ostart sl)) (\<lambda>sa.
     res_bind (slice_stop l st (ostop sl)) (\<lambda>so.
       let sa = clip_start l st sa; so = clip_stop l st so;
         so = (if st > 0 \<and> sa > so then sa else if st < 0 \<and> sa < so then sa + 1 else so)
       in Inr (st = 1, \<lparr>start = sa, stop = so, step = st\<rparr>))))"

text \<open>
  The two loops that copy out a slice; reading outside the sequence is an error of the model. Where
  the addition of the step wraps around, the next position is outside. A step of zero has been
  refused before and all numbers are machine integers, which the guards of the loops repeat.
\<close>

function slice_down :: "'a list \<Rightarrow> int \<Rightarrow> int \<Rightarrow> int \<Rightarrow> 'a list \<Rightarrow> (py_exc + 'a list)" where
  "slice_down sq sa so st res =
     (if st < 0 \<and> sa \<ge> so
      then if 0 \<le> sa \<and> sa < int (length sq) \<and> mp_int_fits sa \<and> mp_int_fits st
           then slice_down sq (mp_int_add sa st) so st (res @ [sq ! nat sa]) else Inl Out_of_bounds
      else Inr res)"
  by pat_completeness auto
termination
  by (relation "measure (\<lambda>(sq, sa, so, st, res). nat (sa + 1))") (auto simp: mp_int_add_exact mp_int_fits_def)

lemma slice_up_decreases:
  assumes "0 < st" "sa < so" "0 \<le> sa" "mp_int_fits sa" "mp_int_fits st"
  defines "m \<equiv> \<lambda>sa. if sa < 0 then 0 else nat (so - sa) + (1 :: nat)"
  shows "m (mp_int_add sa st) < m sa"
  using assms mp_int_add_exact [of sa st] mp_int_add_wraps [of sa st] by (cases "sa + st < 2 ^ 31") (auto simp: mp_int_fits_def)

function slice_up :: "'a list \<Rightarrow> int \<Rightarrow> int \<Rightarrow> int \<Rightarrow> 'a list \<Rightarrow> (py_exc + 'a list)" where
  "slice_up sq sa so st res =
     (if \<not> st < 0 \<and> sa < so
      then if 0 \<le> sa \<and> sa < int (length sq) \<and> st \<noteq> 0 \<and> mp_int_fits sa \<and> mp_int_fits st
           then slice_up sq (mp_int_add sa st) so st (res @ [sq ! nat sa]) else Inl Out_of_bounds
      else Inr res)"
  by pat_completeness auto
termination
  by (relation "measure (\<lambda>(sq, sa, so, st, res). if sa < 0 then 0 else nat (so - sa) + 1)")
    (use slice_up_decreases in \<open>auto simp del: less_Suc_eq_le\<close>)

declare slice_down.simps [simp del] slice_up.simps [simp del]

definition mp_seq_extract_slice :: "'a list \<Rightarrow> bound_slice \<Rightarrow> py_exc + 'a list" where
  "mp_seq_extract_slice sq ix =
     (if step ix < 0 then slice_down sq (start ix) (stop ix) (step ix) []
      else slice_up sq (start ix) (stop ix) (step ix) [])"

section \<open>Repetition, comparison and search\<close>

fun mp_seq_multiply :: "byte list \<Rightarrow> nat \<Rightarrow> nat \<Rightarrow> byte list \<Rightarrow> py_exc + byte list" where
  "mp_seq_multiply items 0 dest mem = Inr mem"
| "mp_seq_multiply items (Suc n) dest mem =
     res_bind (put_bytes mem dest items) (mp_seq_multiply items n (dest + length items))"

datatype cmp_op = MP_BINARY_OP_LESS | MP_BINARY_OP_MORE | MP_BINARY_OP_EQUAL | MP_BINARY_OP_LESS_EQUAL | MP_BINARY_OP_MORE_EQUAL

text \<open>The C library's \<open>memcmp\<close>: the sign of the first difference.\<close>

fun memcmp :: "byte list \<Rightarrow> byte list \<Rightarrow> nat \<Rightarrow> int" where
  "memcmp (x # xs) (y # ys) (Suc n) = (if x < y then -1 else if y < x then 1 else memcmp xs ys n)"
| "memcmp _ _ _ = 0"

definition seq_cmp_more :: "cmp_op \<Rightarrow> byte list \<Rightarrow> byte list \<Rightarrow> bool" where
  "seq_cmp_more op1 data1 data2 =
     (let res = memcmp data1 data2 (min (length data1) (length data2))
      in if op1 = MP_BINARY_OP_EQUAL then res = 0
         else if res < 0 then False
         else if res > 0 then True
         else if length data1 \<noteq> length data2 then \<not> length data1 < length data2
         else op1 \<noteq> MP_BINARY_OP_MORE)"

definition mp_seq_cmp_bytes :: "cmp_op \<Rightarrow> byte list \<Rightarrow> byte list \<Rightarrow> bool" where
  "mp_seq_cmp_bytes op1 data1 data2 =
     (if op1 = MP_BINARY_OP_EQUAL \<and> length data1 \<noteq> length data2 then False
      else if op1 = MP_BINARY_OP_LESS then seq_cmp_more MP_BINARY_OP_MORE data2 data1
      else if op1 = MP_BINARY_OP_LESS_EQUAL then seq_cmp_more MP_BINARY_OP_MORE_EQUAL data2 data1
      else seq_cmp_more op1 data1 data2)"

fun index_loop :: "mp_obj list \<Rightarrow> mp_obj \<Rightarrow> nat \<Rightarrow> nat \<Rightarrow> py_exc + nat" where
  "index_loop items v i 0 = Inl ValueError"
| "index_loop items v i (Suc n) =
     (if mp_obj_equal (items ! i) v then Inr i else index_loop items v (Suc i) n)"

definition mp_seq_index_obj :: "mp_obj list \<Rightarrow> mp_obj \<Rightarrow> mp_obj option \<Rightarrow> mp_obj option \<Rightarrow> py_exc + nat" where
  "mp_seq_index_obj items v a2 a3 =
     res_bind (case a2 of None \<Rightarrow> Inr 0 | Some o1 \<Rightarrow> mp_get_index (length items) o1 True) (\<lambda>sa.
     res_bind (case (a2, a3) of (Some _, Some o1) \<Rightarrow> mp_get_index (length items) o1 True | _ \<Rightarrow> Inr (length items)) (\<lambda>so.
       index_loop items v sa (so - sa)))"

fun mp_seq_count_obj :: "mp_obj list \<Rightarrow> mp_obj \<Rightarrow> nat" where
  "mp_seq_count_obj [] v = 0"
| "mp_seq_count_obj (x # items) v = (if mp_obj_equal x v then 1 else 0) + mp_seq_count_obj items v"

section \<open>Slices as the language defines them\<close>

definition range_count :: "int \<Rightarrow> int \<Rightarrow> int \<Rightarrow> nat" where
  "range_count a b st =
     (if st > 0 then if a < b then nat ((b - a - 1) div st + 1) else 0
      else if a > b then nat ((a - b - 1) div (- st) + 1) else 0)"

definition py_range :: "int \<Rightarrow> int \<Rightarrow> int \<Rightarrow> int list" where
  "py_range a b st = map (\<lambda>k. a + int k * st) [0..<range_count a b st]"

text \<open>Bounds that are missing, negative or too large, as the language reference adjusts them.\<close>

definition py_bound :: "nat \<Rightarrow> int \<Rightarrow> int \<Rightarrow> int" where
  "py_bound l st i =
     (let lower = (if st > 0 then 0 else -1); upper = (if st > 0 then int l else int l - 1)
      in if i < 0 then max (i + int l) lower else min i upper)"

definition py_start :: "nat \<Rightarrow> int \<Rightarrow> int option \<Rightarrow> int" where
  "py_start l st i = (case i of Some i \<Rightarrow> py_bound l st i | None \<Rightarrow> if st > 0 then 0 else int l - 1)"

definition py_stop :: "nat \<Rightarrow> int \<Rightarrow> int option \<Rightarrow> int" where
  "py_stop l st i = (case i of Some i \<Rightarrow> py_bound l st i | None \<Rightarrow> if st > 0 then int l else -1)"

definition py_slice :: "'a list \<Rightarrow> int option \<Rightarrow> int option \<Rightarrow> int \<Rightarrow> 'a list" where
  "py_slice sq a b st = map (\<lambda>i. sq ! nat i) (py_range (py_start (length sq) st a) (py_stop (length sq) st b) st)"

lemma range_count_pos:
  assumes "0 < st" "a < b"
  shows "range_count a b st = Suc (range_count (a + st) b st)"
proof (cases "a + st < b")
  case True
  have "(b - a - 1) div st = (b - (a + st) - 1) div st + 1"
    using assms(1) div_add_self2 [of st "b - (a + st) - 1"] by (simp add: algebra_simps)
  moreover have "0 \<le> (b - (a + st) - 1) div st" using True assms(1) by (simp add: pos_imp_zdiv_nonneg_iff)
  ultimately show ?thesis using assms True by (simp add: range_count_def nat_add_distrib)
next
  case False
  then have "(b - a - 1) div st = 0" using assms by (intro div_pos_pos_trivial) simp_all
  then show ?thesis using assms False by (simp add: range_count_def)
qed

lemma range_count_flip: "st < 0 \<Longrightarrow> range_count a b st = range_count (- a) (- b) (- st)"
  by (simp add: range_count_def)

lemma py_range_step:
  assumes "st > 0 \<and> a < b \<or> st < 0 \<and> a > b"
  shows "py_range a b st = a # py_range (a + st) b st"
proof -
  have "range_count a b st = Suc (range_count (a + st) b st)"
    using assms range_count_pos [of st a b] range_count_pos [of "- st" "- a" "- b"]
      range_count_flip [of st a b] range_count_flip [of st "a + st" b] by auto
  moreover have "[0..<Suc n] = 0 # map Suc [0..<n]" for n by (simp add: upt_conv_Cons map_Suc_upt del: upt_Suc)
  ultimately show ?thesis by (simp add: py_range_def algebra_simps comp_def del: upt_Suc)
qed

lemma py_range_empty: "\<not> (st > 0 \<and> a < b) \<Longrightarrow> \<not> (st < 0 \<and> a > b) \<Longrightarrow> st \<noteq> 0 \<Longrightarrow> py_range a b st = []"
  by (auto simp: py_range_def range_count_def)

lemma slice_up_range:
  "0 < st \<Longrightarrow> 0 \<le> sa \<Longrightarrow> so \<le> int (length sq) \<Longrightarrow> int (length sq) + st \<le> 2 ^ 31 \<Longrightarrow> slice_up sq sa so st res = Inr (res @ map (\<lambda>i. sq ! nat i) (py_range sa so st))"
proof (induction sq sa so st res rule: slice_up.induct)
  case (1 sq sa so st res)
  show ?case
  proof (cases "sa < so")
    case True
    have fits: "mp_int_fits sa" "mp_int_fits st" "mp_int_fits (sa + st)" using True "1.prems" by (auto simp: mp_int_fits_def)
    then have "slice_up sq sa so st res = slice_up sq (sa + st) so st (res @ [sq ! nat sa])"
      using True "1.prems" by (subst slice_up.simps) (simp add: mp_int_add_exact)
    also have "\<dots> = Inr ((res @ [sq ! nat sa]) @ map (\<lambda>i. sq ! nat i) (py_range (sa + st) so st))"
      using "1.IH" True "1.prems" fits mp_int_add_exact [OF fits(3)] by simp
    finally show ?thesis using True "1.prems" by (simp add: py_range_step)
  next
    case False
    then show ?thesis using "1.prems" by (subst slice_up.simps) (simp add: py_range_empty)
  qed
qed

lemma slice_down_range:
  "st < 0 \<Longrightarrow> mp_int_fits st \<Longrightarrow> 0 \<le> so \<Longrightarrow> sa < int (length sq) \<Longrightarrow> int (length sq) < 2 ^ 31 \<Longrightarrow> slice_down sq sa so st res = Inr (res @ map (\<lambda>i. sq ! nat i) (py_range sa (so - 1) st))"
proof (induction sq sa so st res rule: slice_down.induct)
  case (1 sq sa so st res)
  show ?case
  proof (cases "sa \<ge> so")
    case True
    have fits: "mp_int_fits sa" "mp_int_fits (sa + st)" using True "1.prems" by (auto simp: mp_int_fits_def)
    then have "slice_down sq sa so st res = slice_down sq (sa + st) so st (res @ [sq ! nat sa])"
      using True "1.prems" by (subst slice_down.simps) (simp add: mp_int_add_exact)
    also have "\<dots> = Inr ((res @ [sq ! nat sa]) @ map (\<lambda>i. sq ! nat i) (py_range (sa + st) (so - 1) st))"
      using "1.IH" True "1.prems" fits mp_int_add_exact [OF fits(2)] by simp
    finally show ?thesis using True "1.prems" by (simp add: py_range_step)
  next
    case False
    then show ?thesis using "1.prems" by (subst slice_down.simps) (simp add: py_range_empty)
  qed
qed

text \<open>The objects a slice takes as a bound or a step, and the integers they stand for.\<close>

fun int_or_none :: "mp_obj \<Rightarrow> bool" where
  "int_or_none (None_obj _) \<longleftrightarrow> True"
| "int_or_none (Bool_obj _) \<longleftrightarrow> True"
| "int_or_none (Small_int _) \<longleftrightarrow> True"
| "int_or_none (Int_obj _ v) \<longleftrightarrow> \<bar>v\<bar> < 2 ^ 31"
| "int_or_none _ \<longleftrightarrow> False"

fun int_value :: "mp_obj \<Rightarrow> int option" where
  "int_value (Bool_obj b) = Some (of_bool b)"
| "int_value (Small_int v) = Some v"
| "int_value (Int_obj _ v) = Some v"
| "int_value _ = None"

lemma get_int_value:
  assumes "int_or_none o1"
  shows "mp_obj_get_int_maybe o1 = Inr (int_value o1)" "\<not> is_none o1 \<Longrightarrow> mp_obj_get_int o1 = Inr (the (int_value o1))"
    "is_none o1 \<longleftrightarrow> int_value o1 = None"
  using assms by (cases o1; simp add: mp_obj_int_get_checked_def)+

definition step_value :: "mp_obj \<Rightarrow> int" where
  "step_value o1 = (case int_value o1 of Some i \<Rightarrow> i | None \<Rightarrow> 1)"

text \<open>
  A slice of a sequence of length \<open>l\<close> whose positions are machine integers: its bounds and its step are
  \<open>None\<close> or integers (the stop and the step) in their range, the length and an increasing step together
  do not leave it, and with a decreasing step the stop is not the largest of them. This holds of all
  small integers when the sequence has at most \<open>2^30\<close> elements.
\<close>

definition slice_fits :: "nat \<Rightarrow> slice_obj \<Rightarrow> bool" where
  "slice_fits l sl \<longleftrightarrow> int_or_none (ostart sl) \<and> int_or_none (ostop sl) \<and> int_or_none (ostep sl) \<and> int l < 2 ^ 31 \<and>
     (\<forall>v. int_value (ostop sl) = Some v \<longrightarrow> mp_int_fits v) \<and> mp_int_fits (step_value (ostep sl)) \<and>
     (if step_value (ostep sl) < 0 then int_value (ostop sl) \<noteq> Some (2 ^ 31 - 1) else int l + step_value (ostep sl) \<le> 2 ^ 31)"

lemma slice_fits_small:
  assumes "l \<le> 2 ^ 30" "\<And>o1. o1 \<in> {ostart sl, ostop sl, ostep sl} \<Longrightarrow> is_none o1 \<or> (\<exists>v. o1 = Small_int v \<and> - (2 ^ 30) \<le> v \<and> v < 2 ^ 30)"
  shows "slice_fits l sl"
proof -
  have bounds: "int_or_none o1 \<and> (\<forall>v. int_value o1 = Some v \<longrightarrow> - (2 ^ 30) \<le> v \<and> v < 2 ^ 30)" if "o1 \<in> {ostart sl, ostop sl, ostep sl}" for o1
    using assms(2) [OF that] by (cases o1) auto
  have "- (2 ^ 30) \<le> step_value (ostep sl) \<and> step_value (ostep sl) < 2 ^ 30"
    using bounds [of "ostep sl"] by (auto simp: step_value_def split: option.splits)
  moreover have "int l \<le> 2 ^ 30" using assms(1) by simp
  ultimately show ?thesis using bounds [of "ostart sl"] bounds [of "ostop sl"] bounds [of "ostep sl"]
    by (auto simp: slice_fits_def mp_int_fits_def)
qed

lemma slice_parts:
  assumes "int_or_none o1"
  shows "step_value o1 \<noteq> 0 \<Longrightarrow> slice_step o1 = Inr (step_value o1)"
    "slice_start l st o1 = Inr (case int_value o1 of Some i \<Rightarrow> i | None \<Rightarrow> if st > 0 then 0 else int l - 1)"
    "st < 0 \<longrightarrow> int_value o1 \<noteq> Some (2 ^ 31 - 1) \<Longrightarrow> \<forall>v. int_value o1 = Some v \<longrightarrow> mp_int_fits v \<Longrightarrow>
     slice_stop l st o1 = Inr (case int_value o1 of Some i \<Rightarrow> if i \<ge> 0 \<and> st < 0 then i + 1 else i | None \<Rightarrow> if st > 0 then int l else 0)"
proof -
  show "step_value o1 \<noteq> 0 \<Longrightarrow> slice_step o1 = Inr (step_value o1)"
    "slice_start l st o1 = Inr (case int_value o1 of Some i \<Rightarrow> i | None \<Rightarrow> if st > 0 then 0 else int l - 1)"
    using assms by (cases o1; simp add: slice_step_def slice_start_def step_value_def mp_obj_int_get_checked_def)+
  have "mp_int_add i 1 = i + 1" if "mp_int_fits i" "0 \<le> i" "i \<noteq> 2 ^ 31 - 1" for i
    using that by (intro mp_int_add_exact) (auto simp: mp_int_fits_def)
  then show "st < 0 \<longrightarrow> int_value o1 \<noteq> Some (2 ^ 31 - 1) \<Longrightarrow> \<forall>v. int_value o1 = Some v \<longrightarrow> mp_int_fits v \<Longrightarrow>
     slice_stop l st o1 = Inr (case int_value o1 of Some i \<Rightarrow> if i \<ge> 0 \<and> st < 0 then i + 1 else i | None \<Rightarrow> if st > 0 then int l else 0)"
    using assms by (cases o1) (auto simp: slice_stop_def mp_obj_int_get_checked_def)
qed

lemma clip_start_bound:
  "st \<noteq> 0 \<Longrightarrow> clip_start l st (case a of Some i \<Rightarrow> i | None \<Rightarrow> if st > 0 then 0 else int l - 1) = py_start l st a"
  by (auto simp: clip_start_def py_start_def py_bound_def Let_def split: option.splits)

lemma clip_stop_up:
  assumes "st > 0"
  shows "max 0 (clip_stop l st (case a of Some i \<Rightarrow> if i \<ge> 0 \<and> st < 0 then i + 1 else i | None \<Rightarrow> if st > 0 then int l else 0)) = py_stop l st a"
    "clip_stop l st (case a of Some i \<Rightarrow> if i \<ge> 0 \<and> st < 0 then i + 1 else i | None \<Rightarrow> if st > 0 then int l else 0) \<le> int l"
  using assms by (auto simp: clip_stop_def py_stop_def py_bound_def Let_def split: option.splits)

lemma clip_stop_down:
  assumes "st < 0"
  shows "clip_stop l st (case a of Some i \<Rightarrow> if i \<ge> 0 \<and> st < 0 then i + 1 else i | None \<Rightarrow> if st > 0 then int l else 0) = py_stop l st a + 1"
  using assms by (auto simp: clip_stop_def py_stop_def py_bound_def Let_def split: option.splits)

lemma extract_up:
  assumes "st > 0" "0 \<le> sa" "so \<le> int (length sq)" "sb = max 0 so" "int (length sq) + st \<le> 2 ^ 31"
  shows "slice_up sq sa (if sa > so then sa else so) st [] = Inr (map (\<lambda>i. sq ! nat i) (py_range sa sb st))"
proof (cases "sa > so")
  case True
  then have "py_range sa sb st = []" "slice_up sq sa sa st [] = Inr []"
    using assms by (auto simp: py_range_empty slice_up.simps)
  then show ?thesis using True by simp
next
  case False
  then show ?thesis using assms slice_up_range [of st sa so sq "[]"] by simp
qed

lemma extract_down:
  assumes "st < 0" "sa < int (length sq)" "0 \<le> so" "mp_int_fits st" "int (length sq) < 2 ^ 31"
  shows "slice_down sq sa (if sa < so then sa + 1 else so) st [] = Inr (map (\<lambda>i. sq ! nat i) (py_range sa (so - 1) st))"
proof (cases "sa < so")
  case True
  then have "py_range sa (so - 1) st = []" "slice_down sq sa (sa + 1) st [] = Inr []"
    using assms by (auto simp: py_range_empty slice_down.simps)
  then show ?thesis using True by simp
next
  case False
  then show ?thesis using assms slice_down_range [of st so sa sq "[]"] by simp
qed

lemma py_start_range:
  "st > 0 \<Longrightarrow> 0 \<le> py_start l st a" "st < 0 \<Longrightarrow> py_start l st a < int l" "st < 0 \<Longrightarrow> 0 \<le> py_stop l st a + 1"
  by (auto simp: py_start_def py_stop_def py_bound_def Let_def split: option.splits)

lemma slice_of_object:
  assumes "slice_fits (length sq) sl" "step_value (ostep sl) \<noteq> 0"
  shows "res_bind (mp_seq_get_fast_slice_indexes (length sq) sl) (\<lambda>(fast, ix). mp_seq_extract_slice sq ix) =
    Inr (py_slice sq (int_value (ostart sl)) (int_value (ostop sl)) (step_value (ostep sl)))"
proof -
  define st where "st = step_value (ostep sl)"
  define a where "a = int_value (ostart sl)"
  define b where "b = int_value (ostop sl)"
  define so where "so = clip_stop (length sq) st (case b of Some i \<Rightarrow> if i \<ge> 0 \<and> st < 0 then i + 1 else i | None \<Rightarrow> if st > 0 then int (length sq) else 0)"
  have objs: "int_or_none (ostart sl)" "int_or_none (ostop sl)" "int_or_none (ostep sl)" "int (length sq) < 2 ^ 31"
    "st > 0 \<Longrightarrow> int (length sq) + st \<le> 2 ^ 31" "st < 0 \<longrightarrow> int_value (ostop sl) \<noteq> Some (2 ^ 31 - 1)" "\<forall>v. int_value (ostop sl) = Some v \<longrightarrow> mp_int_fits v"
    using assms(1) by (auto simp: slice_fits_def st_def [symmetric] split: if_splits)
  have fits: "mp_int_fits st" using assms(1) by (simp add: slice_fits_def st_def)
  have st: "st \<noteq> 0" using assms(2) by (simp add: st_def)
  have ix: "mp_seq_get_fast_slice_indexes (length sq) sl = Inr (st = 1,
    \<lparr>start = py_start (length sq) st a,
     stop = (if st > 0 \<and> py_start (length sq) st a > so then py_start (length sq) st a
        else if st < 0 \<and> py_start (length sq) st a < so then py_start (length sq) st a + 1 else so), step = st\<rparr>)"
    unfolding mp_seq_get_fast_slice_indexes_def
    using slice_parts(1) [OF objs(3) assms(2)] slice_parts(2) [OF objs(1)] slice_parts(3) [OF objs(2), of st] objs(6,7)
    by (simp add: st_def [symmetric] a_def [symmetric] b_def [symmetric] so_def [symmetric] clip_start_bound [OF st] Let_def)
  show ?thesis
  proof (cases "st > 0")
    case True
    then show ?thesis
      using extract_up [OF True py_start_range(1) [OF True, of "length sq" a] clip_stop_up(2) [OF True, of "length sq" b] clip_stop_up(1) [OF True, symmetric] objs(5) [OF True],
          folded so_def]
      by (simp add: ix mp_seq_extract_slice_def py_slice_def st_def [symmetric] a_def [symmetric] b_def [symmetric] split: if_splits)
  next
    case False
    then have neg: "st < 0" using st by simp
    have "so = py_stop (length sq) st b + 1" unfolding so_def by (rule clip_stop_down [OF neg])
    then show ?thesis
      using extract_down [OF neg py_start_range(2) [OF neg, of "length sq" a] _ fits objs(4), of so] py_start_range(3) [OF neg, of "length sq" b] neg
      by (simp add: ix mp_seq_extract_slice_def py_slice_def st_def [symmetric] a_def [symmetric] b_def [symmetric])
  qed
qed

section \<open>Comparison is lexicographic\<close>

lemma memcmp_zero: "length xs = length ys \<Longrightarrow> memcmp xs ys (length xs) = 0 \<longleftrightarrow> xs = ys"
  by (induction xs ys rule: list_induct2) auto

lemma memcmp_swap: "memcmp ys xs n = - memcmp xs ys n"
  by (induction xs ys n rule: memcmp.induct) auto

lemma memcmp_less:
  "memcmp xs ys (min (length xs) (length ys)) < 0 \<or> memcmp xs ys (min (length xs) (length ys)) = 0 \<and> length xs < length ys \<longleftrightarrow>
     ord_class.lexordp xs ys"
proof (induction xs arbitrary: ys)
  case Nil
  then show ?case by (cases ys) auto
next
  case (Cons x xs)
  show ?case
  proof (cases ys)
    case (Cons y zs)
    consider "x < y" | "y < x" | "x = y" by (rule linorder_cases)
    then show ?thesis using Cons.IH [of zs] by cases (simp_all add: Cons)
  qed simp
qed

lemma cmp_more:
  "seq_cmp_more MP_BINARY_OP_MORE xs ys \<longleftrightarrow> ord_class.lexordp ys xs"
  "seq_cmp_more MP_BINARY_OP_MORE_EQUAL xs ys \<longleftrightarrow> xs = ys \<or> ord_class.lexordp ys xs"
  "length xs = length ys \<Longrightarrow> seq_cmp_more MP_BINARY_OP_EQUAL xs ys \<longleftrightarrow> xs = ys"
proof -
  note m = memcmp_less [of ys xs, unfolded memcmp_swap [of ys xs] min.commute [of "length ys"]]
  note z = memcmp_zero [of xs ys]
  show "seq_cmp_more MP_BINARY_OP_MORE xs ys \<longleftrightarrow> ord_class.lexordp ys xs"
    unfolding m [symmetric] seq_cmp_more_def Let_def by auto
  show "seq_cmp_more MP_BINARY_OP_MORE_EQUAL xs ys \<longleftrightarrow> xs = ys \<or> ord_class.lexordp ys xs"
    unfolding m [symmetric] seq_cmp_more_def Let_def using z by auto
  show "length xs = length ys \<Longrightarrow> seq_cmp_more MP_BINARY_OP_EQUAL xs ys \<longleftrightarrow> xs = ys"
    unfolding seq_cmp_more_def Let_def using z by auto
qed

lemma seq_cmp_bytes_lexicographic:
  "mp_seq_cmp_bytes op1 xs ys \<longleftrightarrow>
     (case op1 of MP_BINARY_OP_LESS \<Rightarrow> ord_class.lexordp xs ys
      | MP_BINARY_OP_MORE \<Rightarrow> ord_class.lexordp ys xs
      | MP_BINARY_OP_EQUAL \<Rightarrow> xs = ys
      | MP_BINARY_OP_LESS_EQUAL \<Rightarrow> xs = ys \<or> ord_class.lexordp xs ys
      | MP_BINARY_OP_MORE_EQUAL \<Rightarrow> xs = ys \<or> ord_class.lexordp ys xs)"
  by (cases op1) (auto simp: mp_seq_cmp_bytes_def cmp_more)

section \<open>Search and repetition\<close>

lemma seq_multiply_fills:
  assumes "dest + n * length items \<le> length mem"
  shows "mp_seq_multiply items n dest mem = Inr (take dest mem @ concat (replicate n items) @ drop (dest + n * length items) mem)"
  using assms
proof (induction n arbitrary: dest mem)
  case (Suc n)
  then have "dest + length items \<le> length mem" by simp
  moreover have "dest + length items + n * length items \<le> length (take dest mem @ items @ drop (dest + length items) mem)"
    using Suc.prems by simp
  ultimately show ?case using Suc.prems Suc.IH [of "dest + length items" "take dest mem @ items @ drop (dest + length items) mem"]
    by (simp add: put_bytes_def algebra_simps)
qed simp

end
