(* ===== verification/Py_Str.thy ===== *)
theory Py_Str
  imports Py_Sequence
begin

unbundle bit_operations_syntax

text \<open>
  Strings of Unicode characters (\<open>py/objstrunicode.c\<close>): length, indexing, slices and iteration over
  UTF-8 data. The data of a string object is followed in memory by a null byte, which the loops
  that look for the end of a character read. Interned and other strings differ in identity only,
  so a string is given by its bytes.
\<close>

datatype str_type = mp_type_str | mp_type_bytes

record mp_obj_str =
  base_type :: str_type
  data :: "byte list"

abbreviation memory_of :: "byte list \<Rightarrow> byte list" where
  "memory_of d \<equiv> d @ [0]"

section \<open>From indices to pointers\<close>

text \<open>
  The loop for a negative index runs a pointer \<open>s\<close> down from the last byte; the model counts \<open>s + 1\<close>,
  which is the pointer returned and is zero when \<open>s\<close> has left the data.
\<close>

fun negative_loop :: "byte list \<Rightarrow> nat \<Rightarrow> int \<Rightarrow> bool \<Rightarrow> py_exc + nat" where
  "negative_loop d 0 i is_slice = (if i = 0 \<or> is_slice then Inr 0 else Inl IndexError)"
| "negative_loop d (Suc s) i is_slice =
     (if i = 0 then Inr (Suc s)
      else negative_loop d s (if \<not> UTF8_IS_CONT (d ! s) then i + 1 else i) is_slice)"

lemma skip_cont_ge: "skip_cont mem s = Some t \<Longrightarrow> s \<le> t"
proof (induction mem s rule: skip_cont.induct)
  case (1 mem s)
  then show ?case by (subst (asm) skip_cont.simps) (force split: if_splits)
qed

function positive_loop :: "byte list \<Rightarrow> nat \<Rightarrow> int \<Rightarrow> bool \<Rightarrow> py_exc + nat" where
  "positive_loop d s i is_slice =
     (if s \<ge> length d then if is_slice then Inr (length d) else Inl IndexError
      else if i = 0 then Inr s
      else case skip_cont (memory_of d) (Suc s) of
             None \<Rightarrow> Inl Out_of_bounds
           | Some s' \<Rightarrow> positive_loop d s' (i - 1) is_slice)"
  by pat_completeness auto
termination
  by (relation "measure (\<lambda>(d, s, i, is_slice). length d - s)") (auto dest: skip_cont_ge)

declare positive_loop.simps [simp del]

definition str_index_to_ptr :: "str_type \<Rightarrow> byte list \<Rightarrow> mp_obj \<Rightarrow> bool \<Rightarrow> py_exc + nat" where
  "str_index_to_ptr type self_data index is_slice =
     (if type = mp_type_bytes then mp_get_index (length self_data) index is_slice
      else res_bind (mp_obj_get_int_maybe index) (\<lambda>v.
             case v of
               None \<Rightarrow> Inl TypeError
             | Some i \<Rightarrow> if i < 0 then negative_loop self_data (length self_data) i is_slice
                         else positive_loop self_data 0 i is_slice))"

section \<open>Subscripts\<close>

text \<open>The number of bytes of a character, counted from the leading bits of its first byte.\<close>

function lead_count :: "byte \<Rightarrow> byte \<Rightarrow> nat \<Rightarrow> nat" where
  "lead_count b msk n = (if b AND msk \<noteq> 0 then lead_count b (drop_bit 1 msk) (Suc n) else n)"
  by pat_completeness auto
termination
proof (relation "measure (\<lambda>(b, msk, n). unat msk)")
  fix b msk :: byte and n :: nat
  assume "b AND msk \<noteq> 0"
  then have "msk \<noteq> 0" by auto
  then have "0 < unat msk" by (simp add: unat_gt_0)
  then show "((b, drop_bit 1 msk, Suc n), (b, msk, n)) \<in> measure (\<lambda>(b, msk, n). unat msk)"
    by (simp add: drop_bit_Suc unat_div_distrib)
qed simp

declare lead_count.simps [simp del]

datatype subscript = Index mp_obj | Slice slice_obj

definition new_str_bytes :: "byte list \<Rightarrow> nat \<Rightarrow> nat \<Rightarrow> py_exc + byte list" where
  "new_str_bytes mem p n = (if p + n \<le> length mem then Inr (take n (drop p mem)) else Inl Out_of_bounds)"

fun str_load :: "byte list \<Rightarrow> subscript \<Rightarrow> py_exc + byte list" where
  "str_load self_data (Slice sl) =
     (if \<not> is_none (ostep sl) \<and> ostep sl \<noteq> Small_int 1 then Inl NotImplementedError
      else
        res_bind (if \<not> is_none (ostart sl) then str_index_to_ptr mp_type_str self_data (ostart sl) True else Inr 0) (\<lambda>pstart.
        res_bind (if \<not> is_none (ostop sl) then str_index_to_ptr mp_type_str self_data (ostop sl) True
                  else Inr (length self_data)) (\<lambda>pstop.
          if pstop < pstart then Inr [] else new_str_bytes (memory_of self_data) pstart (pstop - pstart))))"
| "str_load self_data (Index index) =
     res_bind (str_index_to_ptr mp_type_str self_data index False) (\<lambda>s.
       let b = memory_of self_data ! s;
         n = (if UTF8_IS_NONASCII b then lead_count b 0x40 1 else 1)
       in new_str_bytes (memory_of self_data) s n)"

text \<open>Only loading is supported: \<^term>\<open>None\<close> is the answer that the operation is not supported.\<close>

definition str_subscr :: "byte list \<Rightarrow> subscript \<Rightarrow> mp_obj option \<Rightarrow> py_exc + byte list option" where
  "str_subscr self_data index val =
     (if val = None then res_bind (str_load self_data index) (\<lambda>s. Inr (Some s)) else Inr None)"

section \<open>Length, truth value and iteration\<close>

datatype str_unary_op = MP_UNARY_OP_BOOL | MP_UNARY_OP_LEN | MP_UNARY_OP_OTHER

datatype str_unary_result = Uni_bool bool | Uni_int "32 word" | Uni_unsupported

definition uni_unary_op :: "str_unary_op \<Rightarrow> byte list \<Rightarrow> str_unary_result option" where
  "uni_unary_op op1 str_data =
     (case op1 of
        MP_UNARY_OP_BOOL \<Rightarrow> Some (Uni_bool (length str_data \<noteq> 0))
      | MP_UNARY_OP_LEN \<Rightarrow> map_option Uni_int (utf8_charlen (memory_of str_data) 0 (length str_data))
      | MP_UNARY_OP_OTHER \<Rightarrow> Some Uni_unsupported)"

record mp_obj_str_it =
  it_str :: "byte list"
  cur :: nat

definition mp_obj_new_str_iterator :: "byte list \<Rightarrow> mp_obj_str_it" where
  "mp_obj_new_str_iterator str = \<lparr>it_str = str, cur = 0\<rparr>"

text \<open>The next one-character string, or \<^term>\<open>None\<close> at the end; an error is a read outside the memory.\<close>

definition str_it_iternext :: "mp_obj_str_it \<Rightarrow> py_exc + byte list option \<times> mp_obj_str_it" where
  "str_it_iternext self =
     (if cur self < length (it_str self)
      then case utf8_next_char (memory_of (it_str self)) (cur self) of
             None \<Rightarrow> Inl Out_of_bounds
           | Some e \<Rightarrow> res_bind (new_str_bytes (memory_of (it_str self)) (cur self) (e - cur self))
               (\<lambda>o_out. Inr (Some o_out, self\<lparr>cur := cur self + (e - cur self)\<rparr>))
      else Inr (None, self))"

section \<open>Quoted form\<close>

text \<open>What \<open>mp_printf\<close> writes for hexadecimal numbers of a least width, and for a character.\<close>

definition hex_digit :: "nat \<Rightarrow> byte" where
  "hex_digit n = (if n < 10 then of_nat (0x30 + n) else of_nat (0x61 + (n - 10)))"

fun hex_digits :: "nat \<Rightarrow> nat \<Rightarrow> byte list" where
  "hex_digits 0 n = []"
| "hex_digits (Suc w) n = hex_digits w (n div 16) @ [hex_digit (n mod 16)]"

text \<open>
  The two quotes seen so far in the data; as in the code, the scan stops at the first double quote.
\<close>

fun scan_quotes :: "byte list \<Rightarrow> bool \<Rightarrow> bool \<Rightarrow> bool \<times> bool" where
  "scan_quotes [] sq dq = (sq, dq)"
| "scan_quotes (b # s) sq dq =
     (if dq then (sq, dq)
      else if b = 0x27 then scan_quotes s True dq
      else if b = 0x22 then scan_quotes s sq True
      else scan_quotes s sq dq)"

definition quote_char_of :: "byte list \<Rightarrow> unichar" where
  "quote_char_of d = (let (sq, dq) = scan_quotes d False False in if sq \<and> \<not> dq then 0x22 else 0x27)"

definition print_char :: "unichar \<Rightarrow> unichar \<Rightarrow> byte list" where
  "print_char quote_char ch =
     (if ch = quote_char then [0x5c, ucast quote_char]
      else if ch = 0x5c then [0x5c, 0x5c]
      else if 32 \<le> ch \<and> ch \<le> 126 then [ucast ch]
      else if ch = 0x0a then [0x5c, 0x6e]
      else if ch = 0x0d then [0x5c, 0x72]
      else if ch = 0x09 then [0x5c, 0x74]
      else if ch < 0x100 then [0x5c, 0x78] @ hex_digits 2 (unat ch)
      else if ch < 0x10000 then [0x5c, 0x75] @ hex_digits 4 (unat ch)
      else [0x5c, 0x55] @ hex_digits 8 (unat ch))"

function print_loop :: "byte list \<Rightarrow> unichar \<Rightarrow> nat \<Rightarrow> byte list \<Rightarrow> byte list option" where
  "print_loop d quote_char s out =
     (if s < length d
      then case (utf8_get_char (memory_of d) s, utf8_next_char (memory_of d) s) of
             (Some ch, Some s') \<Rightarrow> print_loop d quote_char s' (out @ print_char quote_char ch)
           | _ \<Rightarrow> None
      else Some out)"
  by pat_completeness auto
termination
  by (relation "measure (\<lambda>(d, q, s, out). length d - s)") (auto simp: utf8_next_char_def dest!: skip_cont_ge [OF sym])

declare print_loop.simps [simp del]

definition uni_print_quoted :: "byte list \<Rightarrow> byte list option" where
  "uni_print_quoted str_data =
     (let quote_char = quote_char_of str_data
      in map_option (\<lambda>out. out @ [ucast quote_char]) (print_loop str_data quote_char 0 [ucast quote_char]))"

end
