(* ===== verification/Py_Strmethods.thy ===== *)
theory Py_Strmethods
  imports Py_Str
begin

text \<open>
  The methods of strings and bytes (\<open>py/objstr.c\<close>): search, split, strip, replace, count, partition,
  case, join, repetition, concatenation and comparison. A string is a type and its data; a pointer
  into the data is an offset. An argument of another type is \<open>Other_arg\<close>. New strings are built in
  variable strings whose sizes are 32 bit words. The allocation of the small object that holds a
  string, and whether the string is interned, are left out: neither shows in the value.
\<close>

section \<open>Search\<close>

definition match_at :: "byte list \<Rightarrow> nat \<Rightarrow> byte list \<Rightarrow> bool" where
  "match_at s p needle \<longleftrightarrow> take (length needle) (drop p s) = needle"

text \<open>The upward scan counts the positions left, the downward one the position itself.\<close>

fun find_up :: "byte list \<Rightarrow> byte list \<Rightarrow> nat \<Rightarrow> nat \<Rightarrow> nat option" where
  "find_up h n i 0 = (if match_at h i n then Some i else None)"
| "find_up h n i (Suc k) = (if match_at h i n then Some i else find_up h n (Suc i) k)"

fun find_down :: "byte list \<Rightarrow> byte list \<Rightarrow> nat \<Rightarrow> nat option" where
  "find_down h n 0 = (if match_at h 0 n then Some 0 else None)"
| "find_down h n (Suc i) = (if match_at h (Suc i) n then Some (Suc i) else find_down h n i)"

definition find_subbytes :: "byte list \<Rightarrow> byte list \<Rightarrow> int \<Rightarrow> nat option" where
  "find_subbytes haystack needle direction =
     (if length haystack \<ge> length needle
      then if direction > 0 then find_up haystack needle 0 (length haystack - length needle)
           else find_down haystack needle (length haystack - length needle)
      else None)"

datatype str_arg = Str_arg mp_obj_str | Other_arg

text \<open>The data of an argument that must have the type of \<open>self\<close>.\<close>

fun same_type_data :: "mp_obj_str \<Rightarrow> str_arg \<Rightarrow> py_exc + byte list" where
  "same_type_data self (Str_arg s) = (if base_type s = base_type self then Inr (data s) else Inl TypeError)"
| "same_type_data self Other_arg = Inl TypeError"

definition opt_index :: "mp_obj_str \<Rightarrow> mp_obj option \<Rightarrow> nat \<Rightarrow> py_exc + nat" where
  "opt_index self a dflt =
     (case a of Some o1 \<Rightarrow> if \<not> is_none o1 then str_index_to_ptr (base_type self) (data self) o1 True else Inr dflt
      | None \<Rightarrow> Inr dflt)"

definition str_finder :: "mp_obj_str \<Rightarrow> str_arg \<Rightarrow> mp_obj option \<Rightarrow> mp_obj option \<Rightarrow> int \<Rightarrow> bool \<Rightarrow> py_exc + int" where
  "str_finder self arg a2 a3 direction is_index =
     res_bind (same_type_data self arg) (\<lambda>needle.
     res_bind (opt_index self a2 0) (\<lambda>start.
     res_bind (opt_index self a3 (length (data self))) (\<lambda>stop.
       let not_found = (if is_index then Inl ValueError else Inr (-1))
       in if stop < start then not_found
          else case find_subbytes (take (stop - start) (drop start (data self))) needle direction of
                 None \<Rightarrow> not_found
               | Some p \<Rightarrow>
                   if base_type self = mp_type_str
                   then case utf8_ptr_to_index (memory_of (data self)) 0 (start + p) of
                          None \<Rightarrow> Inl Out_of_bounds
                        | Some i \<Rightarrow> Inr (uint i)
                   else Inr (int (start + p)))))"

definition str_find :: "mp_obj_str \<Rightarrow> str_arg \<Rightarrow> mp_obj option \<Rightarrow> mp_obj option \<Rightarrow> py_exc + int" where
  "str_find self arg a2 a3 = str_finder self arg a2 a3 1 False"

definition str_rfind :: "mp_obj_str \<Rightarrow> str_arg \<Rightarrow> mp_obj option \<Rightarrow> mp_obj option \<Rightarrow> py_exc + int" where
  "str_rfind self arg a2 a3 = str_finder self arg a2 a3 (-1) False"

definition str_index :: "mp_obj_str \<Rightarrow> str_arg \<Rightarrow> mp_obj option \<Rightarrow> mp_obj option \<Rightarrow> py_exc + int" where
  "str_index self arg a2 a3 = str_finder self arg a2 a3 1 True"

definition str_rindex :: "mp_obj_str \<Rightarrow> str_arg \<Rightarrow> mp_obj option \<Rightarrow> mp_obj option \<Rightarrow> py_exc + int" where
  "str_rindex self arg a2 a3 = str_finder self arg a2 a3 (-1) True"

text \<open>Strings and bytes are both accepted as a prefix or suffix.\<close>

fun any_str_data :: "str_arg \<Rightarrow> py_exc + byte list" where
  "any_str_data (Str_arg s) = Inr (data s)"
| "any_str_data Other_arg = Inl TypeError"

definition str_startswith :: "mp_obj_str \<Rightarrow> str_arg \<Rightarrow> mp_obj option \<Rightarrow> py_exc + bool" where
  "str_startswith self arg a2 =
     res_bind (any_str_data arg) (\<lambda>prefix.
     res_bind (case a2 of Some o1 \<Rightarrow> str_index_to_ptr (base_type self) (data self) o1 True | None \<Rightarrow> Inr 0) (\<lambda>start.
       if length prefix + start > length (data self) then Inr False
       else Inr (match_at (data self) start prefix)))"

definition str_endswith :: "mp_obj_str \<Rightarrow> str_arg \<Rightarrow> mp_obj option \<Rightarrow> py_exc + bool" where
  "str_endswith self arg a2 =
     res_bind (any_str_data arg) (\<lambda>suffix.
       if a2 \<noteq> None then Inl NotImplementedError
       else if length suffix > length (data self) then Inr False
       else Inr (match_at (data self) (length (data self) - length suffix) suffix))"

section \<open>Splitting\<close>

function scan_while :: "(byte \<Rightarrow> bool) \<Rightarrow> byte list \<Rightarrow> nat \<Rightarrow> nat" where
  "scan_while P s p = (if p < length s \<and> P (s ! p) then scan_while P s (Suc p) else p)"
  by pat_completeness auto
termination by (relation "measure (\<lambda>(P, s, p). length s - p)") auto

declare scan_while.simps [simp del]

definition is_space_byte :: "byte \<Rightarrow> bool" where
  "is_space_byte b = unichar_isspace (ucast b)"

abbreviation slice_of :: "byte list \<Rightarrow> nat \<Rightarrow> nat \<Rightarrow> byte list" where
  "slice_of s p q \<equiv> take (q - p) (drop p s)"

lemma scan_while_bounds: "p \<le> length s \<Longrightarrow> p \<le> scan_while P s p \<and> scan_while P s p \<le> length s"
proof (induction P s p rule: scan_while.induct)
  case (1 P s p)
  then show ?case using scan_while.simps [of P s p] by auto
qed

function split_space_loop :: "byte list \<Rightarrow> int \<Rightarrow> nat \<Rightarrow> byte list list \<Rightarrow> nat \<times> byte list list" where
  "split_space_loop s splits p res =
     (if p < length s \<and> splits \<noteq> 0
      then let q = scan_while (\<lambda>b. \<not> is_space_byte b) s p; res = res @ [slice_of s p q]
           in if q \<ge> length s then (q, res)
              else split_space_loop s (if splits > 0 then splits - 1 else splits) (scan_while is_space_byte s q) res
      else (p, res))"
  by pat_completeness auto
termination
proof (relation "measure (\<lambda>(s, splits, p, res). length s - p)")
  fix s :: "byte list" and splits :: int and p :: nat and res :: "byte list list" and q res'
  assume a: "p < length s \<and> splits \<noteq> 0" "q = scan_while (\<lambda>b. \<not> is_space_byte b) s p" "\<not> length s \<le> q"
  have q: "p \<le> q" using scan_while_bounds [of p s "\<lambda>b. \<not> is_space_byte b"] a by simp
  have "is_space_byte (s ! q)"
    using a(2,3) by (induction "\<lambda>b. \<not> is_space_byte b" s p arbitrary: q rule: scan_while.induct)
      (metis (no_types, lifting) linorder_not_le scan_while.simps)
  then have "scan_while is_space_byte s q = scan_while is_space_byte s (Suc q)" using a(3) by (subst scan_while.simps) simp
  then have "q < scan_while is_space_byte s q" using scan_while_bounds [of "Suc q" s is_space_byte] a(3) by simp
  then show "((s, if 0 < splits then splits - 1 else splits, scan_while is_space_byte s q, res'), (s, splits, p, res))
      \<in> measure (\<lambda>(s, splits, p, res). length s - p)"
    using q a by simp
qed simp

declare split_space_loop.simps [simp del]

function split_scan :: "byte list \<Rightarrow> byte list \<Rightarrow> int \<Rightarrow> nat \<Rightarrow> nat" where
  "split_scan s sep splits p =
     (if splits = 0 \<or> p + length sep > length s then length s
      else if match_at s p sep then p
      else split_scan s sep splits (Suc p))"
  by pat_completeness auto
termination by (relation "measure (\<lambda>(s, sep, splits, p). Suc (length s) - p)") auto

declare split_scan.simps [simp del]

lemma split_scan_ge: "p \<le> length s \<Longrightarrow> p \<le> split_scan s sep splits p"
proof (induction s sep splits p rule: split_scan.induct)
  case (1 s sep splits p)
  show ?case
  proof (cases "splits = 0 \<or> p + length sep > length s \<or> match_at s p sep")
    case True
    then show ?thesis using 1(2) by (subst split_scan.simps) auto
  next
    case False
    moreover from False have "Suc p \<le> length s" using 1(2) by (cases sep) (auto simp: match_at_def)
    ultimately show ?thesis using 1(1) by (subst split_scan.simps) auto
  qed
qed

lemma split_scan_ge2: "split_scan s sep splits p < length s \<Longrightarrow> p \<le> split_scan s sep splits p"
  using split_scan_ge [of p s sep splits] split_scan.simps [of s sep splits p] by (cases "p \<le> length s") auto

text \<open>The separator is not empty here: the caller has raised otherwise, and the test on it only makes the loop total.\<close>

function split_sep_loop :: "byte list \<Rightarrow> byte list \<Rightarrow> int \<Rightarrow> nat \<Rightarrow> byte list list \<Rightarrow> byte list list" where
  "split_sep_loop s sep splits p res =
     (let q = split_scan s sep splits p; res = res @ [slice_of s p q]
      in if q \<ge> length s \<or> sep = [] then res
         else split_sep_loop s sep (if splits > 0 then splits - 1 else splits) (q + length sep) res)"
  by pat_completeness auto
termination
proof (relation "measure (\<lambda>(s, sep, splits, p, res). Suc (length s) - p)")
  fix s sep :: "byte list" and splits :: int and p q :: nat and res res' :: "byte list list"
  assume a: "q = split_scan s sep splits p" "\<not> (length s \<le> q \<or> sep = [])"
  then have "p \<le> q" "q < length s" "0 < length sep" using split_scan_ge2 [of s sep splits p] by simp_all
  then show "((s, sep, if 0 < splits then splits - 1 else splits, q + length sep, res'), (s, sep, splits, p, res))
      \<in> measure (\<lambda>(s, sep, splits, p, res). Suc (length s) - p)"
    by (simp del: length_greater_0_conv)
qed simp

declare split_sep_loop.simps [simp del]

datatype sep_arg = No_sep | Sep str_arg

definition mp_obj_str_split :: "mp_obj_str \<Rightarrow> sep_arg \<Rightarrow> int \<Rightarrow> py_exc + byte list list" where
  "mp_obj_str_split self sep splits =
     (case sep of
        No_sep \<Rightarrow>
          let s = data self; (p, res) = split_space_loop s splits (scan_while is_space_byte s 0) []
          in Inr (if p < length s then res @ [slice_of s p (length s)] else res)
      | Sep arg \<Rightarrow>
          res_bind (same_type_data self arg) (\<lambda>sep_str.
            if length sep_str = 0 then Inl ValueError
            else Inr (split_sep_loop (data self) sep_str splits 0 [])))"

text \<open>
  Splitting from the right fills a list of \<open>splits + 1\<close> entries from its end and then moves the
  entries used to the front. The pointer \<open>s\<close> runs below the data when no separator is left.
\<close>

function rsplit_scan :: "byte list \<Rightarrow> byte list \<Rightarrow> int \<Rightarrow> int \<Rightarrow> int" where
  "rsplit_scan d sep splits s =
     (if splits = 0 \<or> s < 0 then s else if match_at d (nat s) sep then s else rsplit_scan d sep splits (s - 1))"
  by pat_completeness auto
termination by (relation "measure (\<lambda>(d, sep, splits, s). nat (s + 1))") auto

declare rsplit_scan.simps [simp del]

definition put_item :: "'a list \<Rightarrow> nat \<Rightarrow> 'a \<Rightarrow> py_exc + 'a list" where
  "put_item items i x = (if i < length items then Inr (items[i := x]) else Inl Out_of_bounds)"

fun rsplit_loop :: "byte list \<Rightarrow> byte list \<Rightarrow> nat \<Rightarrow> nat \<Rightarrow> nat \<Rightarrow> byte list list \<Rightarrow> py_exc + nat \<times> byte list list" where
  "rsplit_loop d sep 0 last1 idx items =
     res_bind (put_item items idx (slice_of d 0 last1)) (\<lambda>items. Inr (idx, items))"
| "rsplit_loop d sep (Suc splits) last1 idx items =
     (let s = rsplit_scan d sep (int (Suc splits)) (int last1 - int (length sep))
      in if s < 0 then res_bind (put_item items idx (slice_of d 0 last1)) (\<lambda>items. Inr (idx, items))
         else res_bind (put_item items idx (slice_of d (nat s + length sep) last1))
           (rsplit_loop d sep splits (nat s) (idx - 1)))"

text \<open>The items of a new list of a given length: at least four, and the size in bytes is a word.\<close>

definition new_list_items :: "mem_env \<Rightarrow> nat \<Rightarrow> py_exc + byte list list" where
  "new_list_items E n =
     (let bytes = (of_nat (if n < 4 then 4 else n) * 4 :: 32 word)
      in if room E (unat bytes) then Inr (replicate (unat bytes div 4) []) else Inl MemoryError)"

definition str_rsplit :: "mem_env \<Rightarrow> mp_obj_str \<Rightarrow> sep_arg \<Rightarrow> int option \<Rightarrow> py_exc + byte list list" where
  "str_rsplit E self sep limit =
     (case limit of
        None \<Rightarrow> mp_obj_str_split self sep (-1)
      | Some splits \<Rightarrow>
          if splits < 0 then mp_obj_str_split self sep splits
          else res_bind (new_list_items E (nat splits + 1)) (\<lambda>items.
            case sep of
              No_sep \<Rightarrow> Inl NotImplementedError
            | Sep arg \<Rightarrow>
                res_bind (any_str_data arg) (\<lambda>sep_str.
                  if length sep_str = 0 then Inl ValueError
                  else res_bind (rsplit_loop (data self) sep_str (nat splits) (length (data self)) (nat splits) items)
                    (\<lambda>(idx, items). Inr (take (nat splits + 1 - idx) (drop idx items))))))"

text \<open>Lines end at a line feed, a carriage return, or both; the byte after the data is the null byte.\<close>

function line_scan :: "byte list \<Rightarrow> nat \<Rightarrow> nat \<times> nat" where
  "line_scan d s =
     (if s < length d
      then if d ! s = 0x0a then (s, 1)
           else if d ! s = 0x0d then (s, if memory_of d ! Suc s = 0x0a then 2 else 1)
           else line_scan d (Suc s)
      else (s, 0))"
  by pat_completeness auto
termination by (relation "measure (\<lambda>(d, s). length d - s)") auto

declare line_scan.simps [simp del]

lemma line_scan_bounds:
  "s \<le> length d \<Longrightarrow> s \<le> fst (line_scan d s) \<and> fst (line_scan d s) \<le> length d \<and> (fst (line_scan d s) < length d \<longrightarrow> 0 < snd (line_scan d s))"
proof (induction d s rule: line_scan.induct)
  case (1 d s)
  then show ?case using line_scan.simps [of d s] by auto
qed

function splitlines_loop :: "byte list \<Rightarrow> bool \<Rightarrow> nat \<Rightarrow> byte list list \<Rightarrow> byte list list" where
  "splitlines_loop d keepends s res =
     (if s < length d
      then let (e, n) = line_scan d s
           in splitlines_loop d keepends (e + n) (res @ [slice_of d s (if keepends then e + n else e)])
      else res)"
  by pat_completeness auto
termination
proof (relation "measure (\<lambda>(d, keepends, s, res). length d - s)")
  fix d :: "byte list" and keepends s res x e n
  assume a: "s < length d" "x = line_scan d s" "(e, n) = x"
  then have "s < e + n" using line_scan_bounds [of s d] by (cases "e < length d") (auto simp: prod_eq_iff)
  then show "((d, keepends, e + n, res @ [slice_of d s (if keepends then e + n else e)]), (d, keepends, s, res))
      \<in> measure (\<lambda>(d, keepends, s, res). length d - s)"
    using a(1) by simp
qed simp

declare splitlines_loop.simps [simp del]

definition str_splitlines :: "mp_obj_str \<Rightarrow> bool \<Rightarrow> byte list list" where
  "str_splitlines self keepends = splitlines_loop (data self) keepends 0 []"

section \<open>Stripping\<close>

datatype strip_type = LSTRIP | RSTRIP | STRIP

text \<open>The state of the loop: whether a byte to keep was seen, and the first and the last one.\<close>

fun strip_loop :: "strip_type \<Rightarrow> byte list \<Rightarrow> byte list \<Rightarrow> int \<Rightarrow> nat \<Rightarrow> bool \<times> nat \<times> nat \<Rightarrow> bool \<times> nat \<times> nat" where
  "strip_loop type chars str i 0 st = st"
| "strip_loop type chars str i (Suc n) (fset, first, lst) =
     (let nxt = i + (if type = RSTRIP then -1 else 1)
      in if find_subbytes chars [str ! nat i] 1 = None
         then if \<not> fset
              then case type of
                     LSTRIP \<Rightarrow> (True, nat i, length str - 1)
                   | RSTRIP \<Rightarrow> (True, 0, nat i)
                   | STRIP \<Rightarrow> strip_loop type chars str nxt n (True, nat i, nat i)
              else strip_loop type chars str nxt n (fset, first, nat i)
         else strip_loop type chars str nxt n (fset, first, lst))"

definition whitespace :: "byte list" where
  "whitespace = [0x20, 0x09, 0x0a, 0x0d, 0x0b, 0x0c]"

definition str_uni_strip :: "strip_type \<Rightarrow> mp_obj_str \<Rightarrow> str_arg option \<Rightarrow> py_exc + byte list" where
  "str_uni_strip type self arg =
     res_bind (case arg of None \<Rightarrow> Inr whitespace | Some a \<Rightarrow> same_type_data self a) (\<lambda>chars_to_del.
       let orig_str = data self;
         (fset, first, lst) = strip_loop type chars_to_del orig_str
           (if type = RSTRIP then int (length orig_str) - 1 else 0) (length orig_str) (False, 0, 0)
       in if \<not> fset then Inr []
          else if \<not> first \<le> lst then Inl Assertion_failed
          else let stripped_len = lst - first + 1
               in if stripped_len = length orig_str then if first = 0 then Inr orig_str else Inl Assertion_failed
                  else Inr (take stripped_len (drop first orig_str)))"

definition str_strip :: "mp_obj_str \<Rightarrow> str_arg option \<Rightarrow> py_exc + byte list" where
  "str_strip self arg = str_uni_strip STRIP self arg"

definition str_lstrip :: "mp_obj_str \<Rightarrow> str_arg option \<Rightarrow> py_exc + byte list" where
  "str_lstrip self arg = str_uni_strip LSTRIP self arg"

definition str_rstrip :: "mp_obj_str \<Rightarrow> str_arg option \<Rightarrow> py_exc + byte list" where
  "str_rstrip self arg = str_uni_strip RSTRIP self arg"

section \<open>New strings in variable strings\<close>

definition mp_obj_new_str_from_vstr :: "mem_env \<Rightarrow> vstr \<Rightarrow> py_exc + byte list" where
  "mp_obj_new_str_from_vstr E v =
     res_bind (if len v + 1 = alloc v then Inr (buf v) else m_renew E (buf v) (len v + 1)) (\<lambda>d.
     res_bind (put_bytes d (unat (len v)) [0]) (\<lambda>d. Inr (take (unat (len v)) d)))"

text \<open>
  The replacement runs twice: once to find the length of the result, once to write it. The target
  of the second run is the buffer of the new string; the first has none. The lengths are words.
\<close>

definition put_opt :: "byte list option \<Rightarrow> 32 word \<Rightarrow> byte list \<Rightarrow> py_exc + byte list option" where
  "put_opt target i bs =
     (case target of None \<Rightarrow> Inr None | Some b \<Rightarrow> res_bind (put_bytes b (unat i) bs) (\<lambda>b. Inr (Some b)))"

lemma find_up_bounds: "find_up h n i k = Some j \<Longrightarrow> i \<le> j \<and> j \<le> i + k"
proof (induction k arbitrary: i)
  case (Suc k)
  then show ?case by (fastforce split: if_splits)
qed (simp split: if_splits)

lemma find_subbytes_up_bounds: "find_subbytes h n 1 = Some j \<Longrightarrow> j + length n \<le> length h"
  using find_up_bounds [of h n 0 "length h - length n" j] by (auto simp: find_subbytes_def split: if_splits)

function replace_loop ::
    "byte list \<Rightarrow> byte list \<Rightarrow> byte list \<Rightarrow> 32 word \<Rightarrow> byte list option \<Rightarrow> 32 word \<Rightarrow> 32 word \<Rightarrow> nat
      \<Rightarrow> py_exc + byte list option \<times> 32 word \<times> 32 word" where
  "replace_loop str old new max_rep target idx nrep off =
     (case (if nrep \<noteq> max_rep \<and> length str - off > 0 then find_subbytes (drop off str) old 1 else None) of
        None \<Rightarrow>
          res_bind (put_opt target idx (drop off str)) (\<lambda>target. Inr (target, idx + of_nat (length str - off), nrep))
      | Some k \<Rightarrow>
          let occ = off + k + (if length old = 0 then 1 else 0)
          in res_bind (put_opt target idx (slice_of str off occ)) (\<lambda>target.
             let idx = idx + of_nat (occ - off)
             in res_bind (put_opt target idx new) (\<lambda>target.
               replace_loop str old new max_rep target (idx + of_nat (length new)) (nrep + 1) (occ + length old))))"
  by pat_completeness auto
termination
proof (relation "measure (\<lambda>(str, old, new, max_rep, target, idx, nrep, off). length str - off)")
  fix str old new :: "byte list" and max_rep idx nrep idx' :: "32 word" and target t1 t2 :: "byte list option" and off k occ
  assume a: "(if nrep \<noteq> max_rep \<and> length str - off > 0 then find_subbytes (drop off str) old 1 else None) = Some k"
    "occ = off + k + (if length old = 0 then 1 else 0)"
  then have "0 < length str - off" by (auto split: if_splits)
  moreover have "off < occ + length old" using a(2) by (cases old) auto
  ultimately show "((str, old, new, max_rep, t2, idx' + of_nat (length new), nrep + 1, occ + length old),
      (str, old, new, max_rep, target, idx, nrep, off))
      \<in> measure (\<lambda>(str, old, new, max_rep, target, idx, nrep, off). length str - off)"
    by simp
qed simp

declare replace_loop.simps [simp del]

definition replace_pass ::
    "byte list \<Rightarrow> byte list \<Rightarrow> byte list \<Rightarrow> 32 word \<Rightarrow> byte list option \<Rightarrow> py_exc + byte list option \<times> 32 word \<times> 32 word" where
  "replace_pass str old new max_rep target =
     (if length old = 0
      then res_bind (put_opt target 0 new) (\<lambda>target. replace_loop str old new max_rep target (of_nat (length new)) 1 0)
      else replace_loop str old new max_rep target 0 0 0)"

definition str_replace :: "mem_env \<Rightarrow> mp_obj_str \<Rightarrow> str_arg \<Rightarrow> str_arg \<Rightarrow> int option \<Rightarrow> py_exc + byte list" where
  "str_replace E self arg1 arg2 count =
     (if count = Some 0 then Inr (data self)
      else
          let max_rep = (case count of Some m \<Rightarrow> if m < 0 then -1 else word_of_int m | None \<Rightarrow> -1)
          in res_bind (same_type_data self arg1) (\<lambda>old.
             res_bind (same_type_data self arg2) (\<lambda>new.
               if length old > length (data self) then Inr (data self)
               else res_bind (replace_pass (data self) old new max_rep None) (\<lambda>(_, total, nrep).
                 if nrep = 0 then Inr (data self)
                 else res_bind (vstr_init_len E total) (\<lambda>v.
                   res_bind (replace_pass (data self) old new max_rep (Some (buf v))) (\<lambda>(target, _, _).
                     case target of
                       Some b \<Rightarrow> mp_obj_new_str_from_vstr E (v\<lparr>buf := b\<rparr>)
                     | None \<Rightarrow> Inl Assertion_failed))))))"

section \<open>Counting and partitioning\<close>

text \<open>
  The scan advances by a whole UTF-8 character where the needle does not match. \<^term>\<open>None\<close> is a
  read outside the memory.
\<close>

function str_count_loop :: "byte list \<Rightarrow> byte list \<Rightarrow> nat \<Rightarrow> nat \<Rightarrow> nat \<Rightarrow> nat option" where
  "str_count_loop d needle p e n =
     (if p + length needle \<le> e \<and> needle \<noteq> []
      then if match_at d p needle then str_count_loop d needle (p + length needle) e (Suc n)
           else case utf8_next_char (memory_of d) p of
                  None \<Rightarrow> None
                | Some q \<Rightarrow> str_count_loop d needle q e n
      else Some n)"
  by pat_completeness auto
termination
proof (relation "measure (\<lambda>(d, needle, p, e, n). Suc e - p)")
  fix d needle :: "byte list" and p e n q :: nat
  assume "p + length needle \<le> e \<and> needle \<noteq> []"
  then have "p < e" by (cases needle) auto
  then show "((d, needle, p + length needle, e, Suc n), (d, needle, p, e, n)) \<in> measure (\<lambda>(d, needle, p, e, n). Suc e - p)"
    using \<open>p + length needle \<le> e \<and> needle \<noteq> []\<close> by (cases needle) auto
  show "((d, needle, q, e, n), (d, needle, p, e, n)) \<in> measure (\<lambda>(d, needle, p, e, n). Suc e - p)"
    if "utf8_next_char (memory_of d) p = Some q"
    using that skip_cont_ge [of "memory_of d" "Suc p" q] \<open>p < e\<close> by (simp add: utf8_next_char_def)
qed simp

declare str_count_loop.simps [simp del]

definition str_count :: "mp_obj_str \<Rightarrow> str_arg \<Rightarrow> mp_obj option \<Rightarrow> mp_obj option \<Rightarrow> py_exc + nat" where
  "str_count self arg a2 a3 =
     res_bind (same_type_data self arg) (\<lambda>needle.
     res_bind (opt_index self a2 0) (\<lambda>start.
     res_bind (opt_index self a3 (length (data self))) (\<lambda>stop.
       if length needle = 0
       then case utf8_charlen (memory_of (data self)) start (stop - start) of
              None \<Rightarrow> Inl Out_of_bounds
            | Some n \<Rightarrow> Inr (unat (n + 1))
       else case str_count_loop (data self) needle start stop 0 of None \<Rightarrow> Inl Out_of_bounds | Some n \<Rightarrow> Inr n)))"

definition str_partitioner :: "mp_obj_str \<Rightarrow> str_arg \<Rightarrow> int \<Rightarrow> py_exc + byte list \<times> byte list \<times> byte list" where
  "str_partitioner self arg direction =
     res_bind (same_type_data self arg) (\<lambda>sep.
       if length sep = 0 then Inl ValueError
       else case find_subbytes (data self) sep direction of
              None \<Rightarrow> Inr (if direction > 0 then (data self, [], []) else ([], [], data self))
            | Some p \<Rightarrow> Inr (take p (data self), sep, drop (p + length sep) (data self)))"

definition str_partition :: "mp_obj_str \<Rightarrow> str_arg \<Rightarrow> py_exc + byte list \<times> byte list \<times> byte list" where
  "str_partition self arg = str_partitioner self arg 1"

definition str_rpartition :: "mp_obj_str \<Rightarrow> str_arg \<Rightarrow> py_exc + byte list \<times> byte list \<times> byte list" where
  "str_rpartition self arg = str_partitioner self arg (-1)"

section \<open>Case and classes\<close>

definition conv_byte :: "(unichar \<Rightarrow> unichar) \<Rightarrow> byte \<Rightarrow> byte" where
  "conv_byte f b = ucast (f (ucast b))"

definition str_caseconv :: "mem_env \<Rightarrow> (unichar \<Rightarrow> unichar) \<Rightarrow> mp_obj_str \<Rightarrow> py_exc + byte list" where
  "str_caseconv E f self =
     res_bind (vstr_init_len E (of_nat (length (data self)))) (\<lambda>v.
     res_bind (put_bytes (buf v) 0 (map (conv_byte f) (data self))) (\<lambda>b.
       mp_obj_new_str_from_vstr E (v\<lparr>buf := b\<rparr>)))"

definition str_lower :: "mem_env \<Rightarrow> mp_obj_str \<Rightarrow> py_exc + byte list" where
  "str_lower E self = str_caseconv E unichar_tolower self"

definition str_upper :: "mem_env \<Rightarrow> mp_obj_str \<Rightarrow> py_exc + byte list" where
  "str_upper E self = str_caseconv E unichar_toupper self"

fun all_bytes :: "(unichar \<Rightarrow> bool) \<Rightarrow> byte list \<Rightarrow> bool" where
  "all_bytes f [] = True"
| "all_bytes f (b # d) = (if \<not> f (ucast b) then False else all_bytes f d)"

fun alpha_bytes :: "(unichar \<Rightarrow> bool) \<Rightarrow> byte list \<Rightarrow> bool \<Rightarrow> bool" where
  "alpha_bytes f [] contains_alpha = contains_alpha"
| "alpha_bytes f (b # d) contains_alpha =
     (if unichar_isalpha (ucast b) then if \<not> f (ucast b) then False else alpha_bytes f d True
      else alpha_bytes f d contains_alpha)"

datatype char_class = Is_space | Is_alpha | Is_digit | Is_upper | Is_lower

fun class_fun :: "char_class \<Rightarrow> unichar \<Rightarrow> bool" where
  "class_fun Is_space = unichar_isspace"
| "class_fun Is_alpha = unichar_isalpha"
| "class_fun Is_digit = unichar_isdigit"
| "class_fun Is_upper = unichar_isupper"
| "class_fun Is_lower = unichar_islower"

definition str_uni_istype :: "char_class \<Rightarrow> mp_obj_str \<Rightarrow> bool" where
  "str_uni_istype f self =
     (if length (data self) = 0 then False
      else if f \<noteq> Is_upper \<and> f \<noteq> Is_lower then all_bytes (class_fun f) (data self)
      else alpha_bytes (class_fun f) (data self) False)"

section \<open>Joining, padding, repetition and concatenation\<close>

fun join_length :: "mp_obj_str \<Rightarrow> str_arg list \<Rightarrow> bool \<Rightarrow> 32 word \<Rightarrow> py_exc + 32 word" where
  "join_length self [] first n = Inr n"
| "join_length self (x # xs) first n =
     res_bind (same_type_data self x) (\<lambda>d.
       join_length self xs False ((if \<not> first then n + of_nat (length (data self)) else n) + of_nat (length d)))"

fun join_copy :: "mp_obj_str \<Rightarrow> str_arg list \<Rightarrow> bool \<Rightarrow> nat \<Rightarrow> byte list \<Rightarrow> py_exc + byte list" where
  "join_copy self [] first p b = Inr b"
| "join_copy self (x # xs) first p b =
     res_bind (if \<not> first then put_bytes b p (data self) else Inr b) (\<lambda>b.
       let p = (if \<not> first then p + length (data self) else p)
       in res_bind (same_type_data self x) (\<lambda>d.
          res_bind (put_bytes b p d) (join_copy self xs False (p + length d))))"

definition str_join :: "mem_env \<Rightarrow> mp_obj_str \<Rightarrow> str_arg list \<Rightarrow> py_exc + byte list" where
  "str_join E self items =
     res_bind (join_length self items True 0) (\<lambda>required_len.
     res_bind (vstr_init_len E required_len) (\<lambda>v.
     res_bind (join_copy self items True 0 (buf v)) (\<lambda>b.
       mp_obj_new_str_from_vstr E (v\<lparr>buf := b\<rparr>))))"

definition str_center :: "mem_env \<Rightarrow> mp_obj_str \<Rightarrow> int \<Rightarrow> py_exc + byte list" where
  "str_center E self width_in =
     (let width = (word_of_int width_in :: 32 word); str_len = (of_nat (length (data self)) :: 32 word)
      in if str_len \<ge> width then Inr (data self)
         else res_bind (vstr_init_len E width) (\<lambda>v.
           res_bind (put_bytes (buf v) 0 (replicate (unat width) 0x20)) (\<lambda>b.
           res_bind (put_bytes b (unat ((width - str_len) div 2)) (data self)) (\<lambda>b.
             mp_obj_new_str_from_vstr E (v\<lparr>buf := b\<rparr>)))))"

datatype str_binary_op = Op_multiply | Op_add | Op_contains | Op_compare cmp_op | Op_other

datatype str_binary_rhs = Rhs_str mp_obj_str | Rhs_int int | Rhs_buffer "byte list" | Rhs_other

datatype str_binary_result = Bin_str "byte list" | Bin_bool bool | Bin_unsupported

text \<open>The data of the right operand: the same type, or for bytes anything with a buffer.\<close>

fun rhs_data :: "mp_obj_str \<Rightarrow> str_binary_rhs \<Rightarrow> py_exc + byte list option" where
  "rhs_data lhs (Rhs_str s) =
     (if base_type s = base_type lhs then Inr (Some (data s))
      else if base_type lhs = mp_type_bytes then Inr (Some (data s)) else Inl TypeError)"
| "rhs_data lhs (Rhs_buffer d) = (if base_type lhs = mp_type_bytes then Inr (Some d) else Inl TypeError)"
| "rhs_data lhs _ = (if base_type lhs = mp_type_bytes then Inr None else Inl TypeError)"

fun rhs_same_type :: "mp_obj_str \<Rightarrow> str_binary_rhs \<Rightarrow> bool" where
  "rhs_same_type lhs (Rhs_str s) \<longleftrightarrow> base_type s = base_type lhs"
| "rhs_same_type lhs _ \<longleftrightarrow> False"

definition str_multiply :: "mem_env \<Rightarrow> mp_obj_str \<Rightarrow> int \<Rightarrow> py_exc + byte list" where
  "str_multiply E lhs n =
     (if n \<le> 0 then Inr []
      else res_bind (vstr_init_len E (of_nat (length (data lhs)) * word_of_int n)) (\<lambda>v.
           res_bind (mp_seq_multiply (data lhs) (nat n) 0 (buf v)) (\<lambda>b.
             mp_obj_new_str_from_vstr E (v\<lparr>buf := b\<rparr>))))"

definition str_add :: "mem_env \<Rightarrow> byte list \<Rightarrow> byte list \<Rightarrow> bool \<Rightarrow> py_exc + byte list" where
  "str_add E ld rd same =
     (if length ld = 0 \<and> same then Inr rd
      else if length rd = 0 then Inr ld
      else res_bind (vstr_init_len E (of_nat (length ld) + of_nat (length rd))) (\<lambda>v.
           res_bind (put_bytes (buf v) 0 ld) (\<lambda>b.
           res_bind (put_bytes b (length ld) rd) (\<lambda>b.
             mp_obj_new_str_from_vstr E (v\<lparr>buf := b\<rparr>)))))"

text \<open>The operators other than formatting.\<close>

definition mp_obj_str_binary_op :: "mem_env \<Rightarrow> str_binary_op \<Rightarrow> mp_obj_str \<Rightarrow> str_binary_rhs \<Rightarrow> py_exc + str_binary_result" where
  "mp_obj_str_binary_op E op1 lhs rhs =
     (if op1 = Op_multiply
      then case rhs of
             Rhs_int n \<Rightarrow> res_bind (str_multiply E lhs n) (\<lambda>s. Inr (Bin_str s))
           | _ \<Rightarrow> Inr Bin_unsupported
      else res_bind (rhs_data lhs rhs) (\<lambda>rd.
        case rd of
          None \<Rightarrow> Inr Bin_unsupported
        | Some rd \<Rightarrow>
            (case op1 of
               Op_add \<Rightarrow> res_bind (str_add E (data lhs) rd (rhs_same_type lhs rhs)) (\<lambda>s. Inr (Bin_str s))
             | Op_contains \<Rightarrow> Inr (Bin_bool (find_subbytes (data lhs) rd 1 \<noteq> None))
             | Op_compare c \<Rightarrow> Inr (Bin_bool (mp_seq_cmp_bytes c (data lhs) rd))
             | _ \<Rightarrow> Inr Bin_unsupported)))"

end
