(* ===== verification/Py_Strmethods_Props.thy ===== *)
theory Py_Strmethods_Props
  imports Py_Strmethods
begin

text \<open>
  Search, split, join and replacement on bytes: the first or last occurrence of a needle, a split that
  joins back to the string, and replacement as a split followed by a join.
\<close>

section \<open>Occurrences\<close>

definition occurs_at :: "byte list \<Rightarrow> nat \<Rightarrow> byte list \<Rightarrow> bool" where
  "occurs_at h p n \<longleftrightarrow> p + length n \<le> length h \<and> match_at h p n"

lemma find_up_first:
  "case find_up h n i k of
     None \<Rightarrow> \<forall>m. i \<le> m \<and> m \<le> i + k \<longrightarrow> \<not> match_at h m n
   | Some j \<Rightarrow> i \<le> j \<and> j \<le> i + k \<and> match_at h j n \<and> (\<forall>m. i \<le> m \<and> m < j \<longrightarrow> \<not> match_at h m n)"
proof (induction k arbitrary: i)
  case 0
  then show ?case by (auto simp: le_antisym)
next
  case (Suc k)
  have cut: "i \<le> m \<longleftrightarrow> m = i \<or> Suc i \<le> m" for m by auto
  show ?case using Suc.IH [of "Suc i"] by (auto simp: cut split: option.splits)
qed

lemma find_down_last:
  "case find_down h n i of
     None \<Rightarrow> \<forall>m \<le> i. \<not> match_at h m n
   | Some j \<Rightarrow> j \<le> i \<and> match_at h j n \<and> (\<forall>m. j < m \<and> m \<le> i \<longrightarrow> \<not> match_at h m n)"
proof (induction i)
  case (Suc i)
  then show ?case by (auto simp: le_Suc_eq split: option.splits)
qed auto

lemma find_first:
  "find_subbytes h n 1 = Some j \<longleftrightarrow> occurs_at h j n \<and> (\<forall>m < j. \<not> occurs_at h m n)"
  "find_subbytes h n 1 = None \<longleftrightarrow> (\<forall>m. \<not> occurs_at h m n)"
proof -
  note f = find_up_first [where h = h and n = n and i = 0 and k = "length h - length n"]
  have le: "m \<le> length h - length n \<longleftrightarrow> m + length n \<le> length h" if "length n \<le> length h" for m using that by linarith
  show "find_subbytes h n 1 = Some j \<longleftrightarrow> occurs_at h j n \<and> (\<forall>m < j. \<not> occurs_at h m n)"
  proof (cases "length n \<le> length h")
    case True
    then show ?thesis using f
      by (cases "find_up h n 0 (length h - length n)") (auto simp: find_subbytes_def occurs_at_def le, (metis le linorder_neqE_nat le_trans less_imp_le_nat)+)
  qed (auto simp: find_subbytes_def occurs_at_def)
  show "find_subbytes h n 1 = None \<longleftrightarrow> (\<forall>m. \<not> occurs_at h m n)"
  proof (cases "length n \<le> length h")
    case True
    then show ?thesis using f
      by (cases "find_up h n 0 (length h - length n)") (auto simp: find_subbytes_def occurs_at_def le)
  qed (auto simp: find_subbytes_def occurs_at_def)
qed

lemma find_last:
  "find_subbytes h n (-1) = Some j \<longleftrightarrow> occurs_at h j n \<and> (\<forall>m > j. \<not> occurs_at h m n)"
  "find_subbytes h n (-1) = None \<longleftrightarrow> (\<forall>m. \<not> occurs_at h m n)"
proof -
  note f = find_down_last [where h = h and n = n and i = "length h - length n"]
  have le: "m \<le> length h - length n \<longleftrightarrow> m + length n \<le> length h" if "length n \<le> length h" for m using that by linarith
  show "find_subbytes h n (-1) = Some j \<longleftrightarrow> occurs_at h j n \<and> (\<forall>m > j. \<not> occurs_at h m n)"
  proof (cases "length n \<le> length h")
    case True
    then show ?thesis using f
      by (cases "find_down h n (length h - length n)") (auto simp: find_subbytes_def occurs_at_def le, (metis le linorder_neqE_nat)+)
  qed (auto simp: find_subbytes_def occurs_at_def)
  show "find_subbytes h n (-1) = None \<longleftrightarrow> (\<forall>m. \<not> occurs_at h m n)"
  proof (cases "length n \<le> length h")
    case True
    then show ?thesis using f
      by (cases "find_down h n (length h - length n)") (auto simp: find_subbytes_def occurs_at_def le)
  qed (auto simp: find_subbytes_def occurs_at_def)
qed

lemma occurs_split:
  "occurs_at h p n \<longleftrightarrow> (\<exists>a b. h = a @ n @ b \<and> length a = p)"
proof
  assume "occurs_at h p n"
  then have "take (length n) (drop p h) = n" "p \<le> length h" by (auto simp: occurs_at_def match_at_def)
  then have "h = take p h @ n @ drop (length n) (drop p h)" by (metis append_take_drop_id)
  then show "\<exists>a b. h = a @ n @ b \<and> length a = p" using \<open>p \<le> length h\<close> by (metis length_take min.absorb2)
qed (auto simp: occurs_at_def match_at_def)

section \<open>Split and join\<close>

fun intercalate :: "byte list \<Rightarrow> byte list list \<Rightarrow> byte list" where
  "intercalate sep [] = []"
| "intercalate sep [x] = x"
| "intercalate sep (x # y # ys) = x @ sep @ intercalate sep (y # ys)"

lemma intercalate_Cons: "xs \<noteq> [] \<Longrightarrow> intercalate sep (x # xs) = x @ sep @ intercalate sep xs"
  by (cases xs) auto

lemma split_scan_find:
  assumes "p \<le> length s" "sep \<noteq> []"
  shows "split_scan s sep k p =
    (if k = 0 then length s else case find_subbytes (drop p s) sep 1 of None \<Rightarrow> length s | Some j \<Rightarrow> p + j)"
  using assms
proof (induction s sep k p rule: split_scan.induct)
  case (1 s sep k p)
  have sl: "0 < length sep" using 1(3) by simp
  have up: "occurs_at (drop p s) m sep \<longleftrightarrow> (m = 0 \<and> occurs_at (drop p s) 0 sep) \<or> (\<exists>m'. m = Suc m' \<and> occurs_at (drop (Suc p) s) m' sep)" for m
  proof (cases m)
    case (Suc m')
    have "Suc m' + length sep \<le> length s - p \<longleftrightarrow> m' + length sep \<le> length s - Suc p" using sl by linarith
    then show ?thesis using Suc by (auto simp: occurs_at_def match_at_def add.commute)
  qed auto
  consider "k = 0" | "k \<noteq> 0" "p + length sep > length s" | "k \<noteq> 0" "p + length sep \<le> length s" "match_at s p sep"
    | "k \<noteq> 0" "p + length sep \<le> length s" "\<not> match_at s p sep" by linarith
  then show ?case
  proof cases
    case 1
    then show ?thesis by (subst split_scan.simps) simp
  next
    case 2
    then have "\<not> m + length sep \<le> length s - p" for m using 1(2) by linarith
    then have "find_subbytes (drop p s) sep 1 = None" by (simp add: find_first occurs_at_def)
    then show ?thesis using 2 by (subst split_scan.simps) simp
  next
    case 3
    then have "find_subbytes (drop p s) sep 1 = Some 0" by (auto simp: find_first occurs_at_def match_at_def)
    then show ?thesis using 3 by (subst split_scan.simps) simp
  next
    case 4
    have no: "\<not> occurs_at (drop p s) 0 sep" using 4(3) by (simp add: occurs_at_def match_at_def)
    have Suc: "find_subbytes (drop p s) sep 1 = map_option Suc (find_subbytes (drop (Suc p) s) sep 1)"
    proof (cases "find_subbytes (drop (Suc p) s) sep 1")
      case None
      from None have "\<forall>m. \<not> occurs_at (drop (Suc p) s) m sep" unfolding find_first(2) .
      then have "find_subbytes (drop p s) sep 1 = None" unfolding find_first using up no by blast
      then show ?thesis using None by simp
    next
      case (Some j)
      then have "occurs_at (drop (Suc p) s) j sep" "\<forall>m < j. \<not> occurs_at (drop (Suc p) s) m sep" by (simp_all add: find_first)
      then have "find_subbytes (drop p s) sep 1 = Some (Suc j)" unfolding find_first using up no by (auto simp: less_Suc_eq_0_disj)
      then show ?thesis using Some by simp
    qed
    have "Suc p \<le> length s" using 4(2) 1(3) by (cases sep) auto
    then have "split_scan s sep k p = (case find_subbytes (drop (Suc p) s) sep 1 of None \<Rightarrow> length s | Some j \<Rightarrow> Suc p + j)"
      using 1(1) 4 1(3) by (subst split_scan.simps) simp
    then show ?thesis using 4(1) unfolding Suc by (simp split: option.splits)
  qed
qed

text \<open>One step of the loop, as an equation.\<close>

lemma split_sep_loop_acc: "split_sep_loop s sep k p res = res @ split_sep_loop s sep k p []"
proof (induction "Suc (length s) - p" arbitrary: k p res rule: less_induct)
  case less
  let ?q = "split_scan s sep k p"
  let ?rest = "split_sep_loop s sep (if k > 0 then k - 1 else k) (?q + length sep)"
  have step: "split_sep_loop s sep k p res =
      (if ?q \<ge> length s \<or> sep = [] then res @ [slice_of s p ?q] else ?rest (res @ [slice_of s p ?q]))" for res
    by (subst split_sep_loop.simps) (simp add: Let_def)
  show ?case
  proof (cases "?q \<ge> length s \<or> sep = []")
    case False
    then have "p \<le> ?q" "?q < length s" "length sep \<noteq> 0" using split_scan_ge2 [of s sep k p] by simp_all
    then have "Suc (length s) - (?q + length sep) < Suc (length s) - p" by linarith
    then have "?rest res = res @ ?rest []" for res by (rule less)
    from this [of "res @ [slice_of s p ?q]"] this [of "[slice_of s p ?q]"] show ?thesis
      using False step [of res] step [of "[]"] by simp
  qed (simp add: step)
qed

definition split_pieces :: "byte list \<Rightarrow> byte list \<Rightarrow> int \<Rightarrow> nat \<Rightarrow> byte list list" where
  "split_pieces s sep k p = split_sep_loop s sep k p []"

definition next_limit :: "int \<Rightarrow> int" where
  "next_limit k = (if k > 0 then k - 1 else k)"

lemma split_pieces_step:
  assumes "p \<le> length s" "sep \<noteq> []"
  shows "split_pieces s sep k p =
    (case (if k = 0 then None else find_subbytes (drop p s) sep 1) of
       None \<Rightarrow> [drop p s]
     | Some j \<Rightarrow> slice_of s p (p + j) # split_pieces s sep (next_limit k) (p + j + length sep))"
proof -
  have lt: "p + j < length s" if "find_subbytes (drop p s) sep 1 = Some j" for j
    using that assms by (cases sep) (auto simp: find_first occurs_at_def)
  show ?thesis unfolding split_pieces_def next_limit_def
    using split_scan_find [OF assms, of k] lt assms
    by (subst split_sep_loop.simps, subst split_sep_loop_acc) (auto simp: Let_def split: option.splits)
qed

lemma split_pieces_nonempty [simp]: "split_pieces s sep k p \<noteq> []"
  unfolding split_pieces_def by (subst split_sep_loop.simps, subst split_sep_loop_acc) (simp add: Let_def)

lemma split_induct:
  assumes "p \<le> length s" "sep \<noteq> []"
    and last: "\<And>k p. p \<le> length s \<Longrightarrow> k = 0 \<or> (\<forall>m. \<not> occurs_at (drop p s) m sep) \<Longrightarrow> P k p [drop p s]"
    and step: "\<And>k p j ps. k \<noteq> 0 \<Longrightarrow> p \<le> length s \<Longrightarrow> find_subbytes (drop p s) sep 1 = Some j \<Longrightarrow>
      p + j + length sep \<le> length s \<Longrightarrow> ps \<noteq> [] \<Longrightarrow> P (next_limit k) (p + j + length sep) ps \<Longrightarrow> P k p (slice_of s p (p + j) # ps)"
  shows "P k p (split_pieces s sep k p)"
  using assms(1)
proof (induction "length s - p" arbitrary: k p rule: less_induct)
  case less
  show ?case
  proof (cases "if k = 0 then None else find_subbytes (drop p s) sep 1")
    case None
    then have "k = 0 \<or> (\<forall>m. \<not> occurs_at (drop p s) m sep)" by (auto simp: find_first split: if_splits)
    then show ?thesis using last [OF less.prems] None by (simp add: split_pieces_step [OF less.prems assms(2)])
  next
    case (Some j)
    then have j: "k \<noteq> 0" "find_subbytes (drop p s) sep 1 = Some j" by (auto split: if_splits)
    have "j + length sep \<le> length s - p" using find_first(1) j(2) by (auto simp: occurs_at_def)
    moreover have "length sep \<noteq> 0" using assms(2) by simp
    ultimately have le: "p + j + length sep \<le> length s" "length s - (p + j + length sep) < length s - p" using less.prems by linarith+
    show ?thesis using step [OF j(1) less.prems j(2) le(1) split_pieces_nonempty less.hyps [OF le(2,1)]] j
      by (simp add: split_pieces_step [OF less.prems assms(2)])
  qed
qed

lemma found_at:
  assumes "find_subbytes (drop p s) sep 1 = Some j"
  shows "drop p s = slice_of s p (p + j) @ sep @ drop (p + j + length sep) s"
proof -
  have t: "take (length sep) (drop j (drop p s)) = sep" using assms by (simp add: find_first occurs_at_def match_at_def)
  have f: "drop (length sep) (drop j (drop p s)) = drop (p + j + length sep) s" by (simp add: ac_simps)
  have e: "sep @ drop (p + j + length sep) s = drop j (drop p s)"
    using append_take_drop_id [of "length sep" "drop j (drop p s)"] unfolding t f .
  show ?thesis unfolding e diff_add_inverse by (simp only: append_take_drop_id)
qed

lemma split_join:
  assumes "p \<le> length s" "sep \<noteq> []"
  shows "intercalate sep (split_pieces s sep k p) = drop p s"
proof (rule split_induct [OF assms, where P = "\<lambda>k p ps. intercalate sep ps = drop p s"])
  fix k p j ps
  assume "find_subbytes (drop p s) sep 1 = Some j" "ps \<noteq> []" "intercalate sep ps = drop (p + j + length sep) s"
  then show "intercalate sep (slice_of s p (p + j) # ps) = drop p s"
    using found_at [of p s sep j] by (simp only: intercalate_Cons not_False_eq_True)
qed simp

lemma split_free:
  assumes "p \<le> length s" "sep \<noteq> []" "k < 0"
  shows "\<forall>x \<in> set (split_pieces s sep k p). \<forall>m. \<not> occurs_at x m sep"
proof -
  have "k < 0 \<longrightarrow> (\<forall>x \<in> set (split_pieces s sep k p). \<forall>m. \<not> occurs_at x m sep)"
  proof (rule split_induct [OF assms(1,2), where P = "\<lambda>k p ps. k < 0 \<longrightarrow> (\<forall>x \<in> set ps. \<forall>m. \<not> occurs_at x m sep)"])
    fix k p j ps
    assume a: "find_subbytes (drop p s) sep 1 = Some j" "p \<le> length s" "p + j + length sep \<le> length s"
      "next_limit k < 0 \<longrightarrow> (\<forall>x \<in> set ps. \<forall>m. \<not> occurs_at x m sep)"
    have "\<not> occurs_at (slice_of s p (p + j)) m sep" for m
    proof
      assume o: "occurs_at (slice_of s p (p + j)) m sep"
      then have m: "m + length sep \<le> j" by (simp add: occurs_at_def)
      then have "occurs_at (drop p s) m sep" using o a(2,3) by (auto simp: occurs_at_def match_at_def min_def drop_take split: if_splits)
      moreover have "m < j" using m assms(2) by (cases sep) auto
      ultimately show False using a(1) by (simp add: find_first)
    qed
    then show "k < 0 \<longrightarrow> (\<forall>x \<in> set (slice_of s p (p + j) # ps). \<forall>m. \<not> occurs_at x m sep)"
      using a(4) by (auto simp: next_limit_def)
  qed auto
  then show ?thesis using assms(3) by simp
qed

lemma split_limit:
  assumes "p \<le> length s" "sep \<noteq> []" "0 \<le> k"
  shows "length (split_pieces s sep k p) \<le> nat k + 1"
proof -
  have "0 \<le> k \<longrightarrow> length (split_pieces s sep k p) \<le> nat k + 1"
    by (rule split_induct [OF assms(1,2), where P = "\<lambda>k p ps. 0 \<le> k \<longrightarrow> length ps \<le> nat k + 1"])
      (auto simp: next_limit_def split: if_splits)
  then show ?thesis using assms(3) by simp
qed

section \<open>New strings\<close>

lemma put_bytes_fits:
  "i + length bs \<le> length b \<Longrightarrow> put_bytes b i bs = Inr (take i b @ bs @ drop (i + length bs) b)"
  by (simp add: put_bytes_def)

lemma vstr_init_len_fits:
  assumes "unat l + 1 < 2 ^ 32" "room E (unat l + 1)"
  shows "vstr_init_len E l = Inr \<lparr>alloc = l + 1, len = l, buf = map (fresh E) [0..<unat l + 1], fixed_buf = False\<rparr>"
proof -
  have u: "unat (l + 1) = unat l + 1" using unat_plus_of_nat [of l 1] assms(1) by simp
  then have "\<not> l + 1 < 1" by (simp add: word_less_nat_alt)
  then show ?thesis using assms(2) u by (simp add: vstr_init_len_def vstr_init_def m_new_def)
qed

text \<open>A buffer of the right size, filled by some routine, becomes the string.\<close>

lemma built_string:
  assumes "unat l + 1 < 2 ^ 32" "room E (unat l + 1)"
    and fill: "\<And>b. length b = unat l + 1 \<Longrightarrow> f b = Inr (bs @ drop (unat l) b)" and "length bs = unat l"
  shows "res_bind (vstr_init_len E l) (\<lambda>v. res_bind (f (buf v)) (\<lambda>b. mp_obj_new_str_from_vstr E (v\<lparr>buf := b\<rparr>))) = Inr bs"
  using vstr_init_len_fits [OF assms(1,2)] fill [of "map (fresh E) [0..<unat l + 1]"] assms(4)
  by (simp add: mp_obj_new_str_from_vstr_def put_bytes_def)

definition joined :: "byte list \<Rightarrow> bool \<Rightarrow> byte list list \<Rightarrow> byte list" where
  "joined sep first ds = (if first then intercalate sep ds else concat (map (\<lambda>d. sep @ d) ds))"

lemma joined_Cons: "joined sep first (d # ds) = (if first then [] else sep) @ d @ joined sep False ds"
proof -
  have "intercalate sep (d # ds) = d @ concat (map (\<lambda>d. sep @ d) ds)" by (induction ds arbitrary: d) auto
  then show ?thesis by (simp add: joined_def)
qed

lemma joined_Nil [simp]: "joined sep first [] = []"
  by (simp add: joined_def)

definition items_of :: "mp_obj_str \<Rightarrow> byte list list \<Rightarrow> str_arg list" where
  "items_of self ds = map (\<lambda>d. Str_arg \<lparr>base_type = base_type self, data = d\<rparr>) ds"

lemma join_length_joined:
  "join_length self (items_of self ds) first n = Inr (n + of_nat (length (joined (data self) first ds)))"
  by (induction ds arbitrary: first n) (simp_all add: items_of_def joined_Cons algebra_simps)

lemma join_copy_joined:
  "p + length (joined (data self) first ds) \<le> length b \<Longrightarrow>
   join_copy self (items_of self ds) first p b = Inr (take p b @ joined (data self) first ds @ drop (p + length (joined (data self) first ds)) b)"
proof (induction ds arbitrary: first p b)
  case (Cons d ds)
  let ?sep = "if first then [] else data self"
  let ?J = "joined (data self) False ds"
  let ?b1 = "take p b @ ?sep @ drop (p + length ?sep) b"
  let ?p1 = "p + length ?sep"
  let ?b2 = "take ?p1 ?b1 @ d @ drop (?p1 + length d) ?b1"
  have l: "p + length ?sep + length d + length ?J \<le> length b" using Cons.prems by (simp add: joined_Cons)
  have "join_copy self (items_of self (d # ds)) first p b = join_copy self (items_of self ds) False (?p1 + length d) ?b2"
    using l by (cases first) (simp_all add: items_of_def put_bytes_def Let_def add.commute)
  also have "\<dots> = Inr (take (?p1 + length d) ?b2 @ ?J @ drop (?p1 + length d + length ?J) ?b2)"
    using l by (intro Cons.IH) simp
  also have "take (?p1 + length d) ?b2 = take p b @ ?sep @ d" using l by simp
  also have "drop (?p1 + length d + length ?J) ?b2 = drop (p + length ?sep + length d + length ?J) b" using l by (simp add: ac_simps)
  finally show ?case by (simp add: joined_Cons ac_simps)
qed (simp add: items_of_def)

lemma str_join_intercalate:
  assumes "length (intercalate (data self) ds) + 1 < 2 ^ 32" "room E (length (intercalate (data self) ds) + 1)"
  shows "str_join E self (items_of self ds) = Inr (intercalate (data self) ds)"
proof -
  let ?J = "intercalate (data self) ds"
  have J: "joined (data self) True ds = ?J" by (simp add: joined_def)
  have u: "unat (of_nat (length ?J) :: 32 word) = length ?J" using assms(1) by (simp add: unat_of_nat)
  have "join_length self (items_of self ds) True 0 = Inr (of_nat (length ?J))" using join_length_joined [of self ds True 0] J by simp
  then show ?thesis unfolding str_join_def
    using built_string [of "of_nat (length ?J)" E "join_copy self (items_of self ds) True 0" ?J] assms u
      join_copy_joined [of 0 self True ds] J by simp
qed

section \<open>Replacement\<close>

text \<open>The limit on the number of replacements, against the counter of replacements made.\<close>

definition limit_rel :: "nat \<Rightarrow> 32 word \<Rightarrow> 32 word \<Rightarrow> int \<Rightarrow> nat \<Rightarrow> bool" where
  "limit_rel n max_rep nrep k p \<longleftrightarrow>
     (if k < 0 then max_rep = -1 \<and> unat nrep + (n - p) < 2 ^ 32 - 1 else max_rep = nrep + word_of_int k \<and> k < 2 ^ 32)"

lemma limit_rel_zero:
  assumes "limit_rel n max_rep nrep k p"
  shows "nrep \<noteq> max_rep \<longleftrightarrow> k \<noteq> 0"
proof (cases "k < 0")
  case True
  have "unat (-1 :: 32 word) = 2 ^ 32 - 1" by (simp add: unsigned_minus_1_eq_mask mask_eq_exp_minus_1)
  then have "nrep \<noteq> -1" using assms True by (auto simp: limit_rel_def)
  then show ?thesis using assms True by (simp add: limit_rel_def)
next
  case False
  then have "max_rep = nrep + word_of_int k" "k < 2 ^ 32" using assms by (simp_all add: limit_rel_def)
  moreover have "uint (word_of_int k :: 32 word) = k" using False calculation(2) by (simp add: uint_word_of_int)
  then have "(word_of_int k :: 32 word) = 0 \<longleftrightarrow> k = 0" by (metis of_int_0 uint_0_eq)
  ultimately show ?thesis by (metis add.right_neutral add_left_cancel)
qed

lemma limit_rel_step:
  assumes "limit_rel n max_rep nrep k p" "k \<noteq> 0" "p < p'" "p' \<le> n"
  shows "limit_rel n max_rep (nrep + 1) (next_limit k) p'"
proof (cases "k < 0")
  case True
  have "unat nrep + (n - p) < 2 ^ 32 - 1" using assms(1) True by (simp add: limit_rel_def)
  moreover have "0 < n - p" using assms(3,4) by simp
  ultimately have "unat nrep + 1 < 2 ^ 32" by linarith
  then have "unat (nrep + 1) = unat nrep + 1" using unat_plus_of_nat [of nrep 1] by simp
  then show ?thesis using assms True by (auto simp: limit_rel_def next_limit_def)
qed (use assms in \<open>auto simp: limit_rel_def next_limit_def\<close>)

text \<open>What the loop writes, where the target has room for it.\<close>

definition target_fits :: "byte list option \<Rightarrow> 32 word \<Rightarrow> byte list \<Rightarrow> bool" where
  "target_fits target idx bs \<longleftrightarrow> (case target of None \<Rightarrow> True | Some b \<Rightarrow> unat idx + length bs \<le> length b \<and> length b < 2 ^ 32)"

definition written :: "byte list option \<Rightarrow> 32 word \<Rightarrow> byte list \<Rightarrow> byte list option" where
  "written target idx bs = map_option (\<lambda>b. take (unat idx) b @ bs @ drop (unat idx + length bs) b) target"

lemma put_opt_written: "target_fits target idx bs \<Longrightarrow> put_opt target idx bs = Inr (written target idx bs)"
  by (cases target) (simp_all add: put_opt_def target_fits_def written_def put_bytes_def)

lemma written_append:
  assumes "target_fits target idx (bs @ cs)"
  shows "target_fits target idx bs" "target_fits (written target idx bs) (idx + of_nat (length bs)) cs"
    "written (written target idx bs) (idx + of_nat (length bs)) cs = written target idx (bs @ cs)"
proof -
  show "target_fits target idx bs" using assms by (auto simp: target_fits_def split: option.splits)
  have "unat (idx + of_nat (length bs)) = unat idx + length bs" if "target = Some b" for b
    using assms that by (intro unat_plus_of_nat) (simp add: target_fits_def)
  then show "target_fits (written target idx bs) (idx + of_nat (length bs)) cs"
    "written (written target idx bs) (idx + of_nat (length bs)) cs = written target idx (bs @ cs)"
    using assms by (cases target; simp add: target_fits_def written_def ac_simps)+
qed

lemma replace_loop_pieces:
  assumes "old \<noteq> []" "p \<le> length str"
  shows "\<forall>target idx nrep. limit_rel (length str) max_rep nrep k p \<longrightarrow> target_fits target idx (intercalate new (split_pieces str old k p)) \<longrightarrow>
    replace_loop str old new max_rep target idx nrep p =
      Inr (written target idx (intercalate new (split_pieces str old k p)),
        idx + of_nat (length (intercalate new (split_pieces str old k p))), nrep + of_nat (length (split_pieces str old k p) - 1))"
proof (rule split_induct [OF assms(2,1), where P = "\<lambda>k p ps. \<forall>target idx nrep. limit_rel (length str) max_rep nrep k p \<longrightarrow>
    target_fits target idx (intercalate new ps) \<longrightarrow> replace_loop str old new max_rep target idx nrep p =
      Inr (written target idx (intercalate new ps), idx + of_nat (length (intercalate new ps)), nrep + of_nat (length ps - 1))"]; clarify)
  fix k p target idx nrep
  assume a: "p \<le> length str" "k = 0 \<or> (\<forall>m. \<not> occurs_at (drop p str) m old)" "limit_rel (length str) max_rep nrep k p"
    "target_fits target idx (intercalate new [drop p str])"
  then have "(if nrep \<noteq> max_rep \<and> length str - p > 0 then find_subbytes (drop p str) old 1 else None) = None"
    by (auto simp: limit_rel_zero find_first)
  then show "replace_loop str old new max_rep target idx nrep p =
      Inr (written target idx (intercalate new [drop p str]), idx + of_nat (length (intercalate new [drop p str])), nrep + of_nat (length [drop p str] - 1))"
    using a(4) by (subst replace_loop.simps) (simp add: put_opt_written)
next
  fix k p j ps target idx nrep
  assume a: "k \<noteq> 0" "p \<le> length str" "find_subbytes (drop p str) old 1 = Some j" "p + j + length old \<le> length str" "ps \<noteq> []"
    and IH: "\<forall>target idx nrep. limit_rel (length str) max_rep nrep (next_limit k) (p + j + length old) \<longrightarrow>
      target_fits target idx (intercalate new ps) \<longrightarrow> replace_loop str old new max_rep target idx nrep (p + j + length old) =
        Inr (written target idx (intercalate new ps), idx + of_nat (length (intercalate new ps)), nrep + of_nat (length ps - 1))"
    and l: "limit_rel (length str) max_rep nrep k p" and t: "target_fits target idx (intercalate new (slice_of str p (p + j) # ps))"
  have o: "length old > 0" using assms(1) by simp
  have "p < length str" using a(4) o by linarith
  then have g: "(if nrep \<noteq> max_rep \<and> length str - p > 0 then find_subbytes (drop p str) old 1 else None) = Some j"
    using a(1,3) limit_rel_zero [OF l] by simp
  have sl: "length (slice_of str p (p + j)) = j" using a(4) by simp
  define i1 where "i1 = idx + of_nat j"
  have t': "target_fits target idx (slice_of str p (p + j) @ (new @ intercalate new ps))" using t a(5) by (simp add: intercalate_Cons)
  note w1 = written_append [OF t', unfolded sl, folded i1_def]
  note w2 = written_append [OF w1(2)]
  have lim: "limit_rel (length str) max_rep (nrep + 1) (next_limit k) (p + j + length old)"
    using limit_rel_step [OF l a(1), of "p + j + length old"] a(4) o by simp
  have "replace_loop str old new max_rep target idx nrep p =
      replace_loop str old new max_rep (written (written target idx (slice_of str p (p + j))) i1 new) (i1 + of_nat (length new)) (nrep + 1) (p + j + length old)"
    using o put_opt_written [OF w1(1)] put_opt_written [OF w2(1)]
    by (subst replace_loop.simps, subst g) (simp add: Let_def i1_def [symmetric])
  also have "\<dots> = Inr (written target idx (slice_of str p (p + j) @ new @ intercalate new ps),
      i1 + of_nat (length new) + of_nat (length (intercalate new ps)), nrep + 1 + of_nat (length ps - 1))"
    using IH lim w2(2,3) w1(3) by simp
  finally show "replace_loop str old new max_rep target idx nrep p =
      Inr (written target idx (intercalate new (slice_of str p (p + j) # ps)), idx + of_nat (length (intercalate new (slice_of str p (p + j) # ps))),
        nrep + of_nat (length (slice_of str p (p + j) # ps) - 1))"
    using a(4,5) by (simp add: intercalate_Cons i1_def add.assoc of_nat_diff Suc_le_eq)
qed

lemma split_length:
  assumes "p \<le> length s" "sep \<noteq> []"
  shows "length (split_pieces s sep k p) \<le> Suc (length s - p)"
proof (rule split_induct [OF assms, where P = "\<lambda>k p ps. length ps \<le> Suc (length s - p)"])
  fix p j and ps :: "byte list list"
  assume "p + j + length sep \<le> length s" "length ps \<le> Suc (length s - (p + j + length sep))"
  moreover have "length sep \<noteq> 0" using assms(2) by simp
  ultimately have "Suc (length ps) \<le> Suc (length s - p)" by linarith
  then show "length (slice_of s p (p + j) # ps) \<le> Suc (length s - p)" by simp
qed simp

definition count_limit :: "int option \<Rightarrow> int" where
  "count_limit count = (case count of None \<Rightarrow> -1 | Some m \<Rightarrow> if m < 0 then -1 else m)"

lemma replace_pass_pieces:
  assumes "old \<noteq> []" "length str < 2 ^ 32 - 1" "k < 2 ^ 31" "max_rep = (if k < 0 then -1 else word_of_int k)"
    and "target_fits target 0 (intercalate new (split_pieces str old k 0))"
  shows "replace_pass str old new max_rep target =
    Inr (written target 0 (intercalate new (split_pieces str old k 0)), of_nat (length (intercalate new (split_pieces str old k 0))),
      of_nat (length (split_pieces str old k 0) - 1))"
  using replace_loop_pieces [OF assms(1), of 0 str max_rep k new] assms by (simp add: replace_pass_def limit_rel_def)

lemma str_replace_pieces:
  assumes "base_type old = base_type self" "base_type new = base_type self" "data old \<noteq> []"
    and "length (data self) < 2 ^ 32 - 1" "\<forall>m. count = Some m \<longrightarrow> m < 2 ^ 31"
    and r: "r = intercalate (data new) (split_pieces (data self) (data old) (count_limit count) 0)" and "length r + 1 < 2 ^ 32" "room E (length r + 1)"
  shows "str_replace E self (Str_arg old) (Str_arg new) count = Inr r"
proof -
  define k where "k = count_limit count"
  define ps where "ps = split_pieces (data self) (data old) k 0"
  define mr where "mr = (if k < 0 then -1 else word_of_int k :: 32 word)"
  have r: "r = intercalate (data new) ps" using r by (simp add: ps_def k_def)
  have k: "k < 2 ^ 31" using assms(5) by (auto simp: k_def count_limit_def split: option.splits)
  have mr: "(case count of Some m \<Rightarrow> if m < 0 then -1 else word_of_int m | None \<Rightarrow> -1) = mr"
    by (auto simp: mr_def k_def count_limit_def split: option.splits)
  have single: "r = data self" if "length ps = 1"
    using that split_join [of 0 "data self" "data old" k] assms(3) by (auto simp: r ps_def length_Suc_conv)
  have none: "length ps = 1" if "count = Some 0 \<or> length (data old) > length (data self)"
  proof -
    have "\<not> occurs_at (data self) m (data old)" if "length (data old) > length (data self)" for m using that by (simp add: occurs_at_def)
    then have "(if k = 0 then None else find_subbytes (data self) (data old) 1) = None"
      using that by (auto simp: k_def count_limit_def find_first)
    then show ?thesis using split_pieces_step [of 0 "data self" "data old" k] assms(3) by (auto simp: ps_def split: if_splits)
  qed
  note pass = replace_pass_pieces [OF assms(3,4) k mr_def, of _ "data new", folded ps_def, folded r]
  have u: "unat (of_nat (length r) :: 32 word) = length r" using assms(7) by (simp add: unat_of_nat)
  have first: "replace_pass (data self) (data old) (data new) mr None = Inr (None, of_nat (length r), of_nat (length ps - 1))"
    using pass [of None] by (simp add: target_fits_def written_def)
  have second: "replace_pass (data self) (data old) (data new) mr (Some b) = Inr (Some (r @ drop (length r) b), of_nat (length r), of_nat (length ps - 1))"
    if "length b = length r + 1" for b using pass [of "Some b"] that assms(7) by (simp add: target_fits_def written_def)
  have "length ps \<le> Suc (length (data self))" using split_length [of 0 "data self" "data old" k] assms(3) by (simp add: ps_def)
  then have one: "length ps = 1" if "(of_nat (length ps - 1) :: 32 word) = 0"
  proof -
    have "length ps - 1 < 2 ^ 32" using \<open>length ps \<le> Suc (length (data self))\<close> assms(4) by simp
    then have "unat (of_nat (length ps - 1) :: 32 word) = length ps - 1" by (simp add: unat_of_nat)
    then have "length ps - 1 = 0" using that by simp
    moreover have "length ps \<noteq> 0" by (simp add: ps_def)
    ultimately show ?thesis by linarith
  qed
  have build: "res_bind (vstr_init_len E (of_nat (length r))) (\<lambda>v. res_bind (replace_pass (data self) (data old) (data new) mr (Some (buf v)))
      (\<lambda>(target, _, _). case target of Some b \<Rightarrow> mp_obj_new_str_from_vstr E (v\<lparr>buf := b\<rparr>) | None \<Rightarrow> Inl Assertion_failed)) = Inr r"
    using vstr_init_len_fits [of "of_nat (length r)" E] assms(7,8) u second
    by (simp add: mp_obj_new_str_from_vstr_def put_bytes_def)
  show ?thesis
    unfolding str_replace_def using assms(1,2) none single first one build
    by (simp add: Let_def mr)
qed

end
