(* ===== verification/Py_Str_Props.thy ===== *)
theory Py_Str_Props
  imports Py_Str
begin

unbundle bit_operations_syntax

text \<open>
  A string object as a sequence of characters: on data that is the UTF-8 encoding of a list of code
  points, length, subscripts, slices and iteration are those of the list.
\<close>

section \<open>Pointers to characters\<close>

lemma nul_no_cont [simp]: "\<not> UTF8_IS_CONT 0"
  by (simp add: byte_kinds)

lemma char_offset_le: "char_offset cs i \<le> length (utf8_text cs)"
proof -
  have "utf8_text cs = utf8_text (take i cs) @ utf8_text (drop i cs)" by (metis append_take_drop_id utf8_text_simps(3))
  then show ?thesis by (simp add: char_offset_def)
qed

lemma utf8_char_nonempty: "utf8_char c \<noteq> []"
  by (simp add: utf8_char_def utf8_of_def)

lemma char_offset_less:
  assumes "i < length cs"
  shows "char_offset cs i < length (utf8_text cs)"
proof -
  have "char_offset cs i < char_offset cs (Suc i)" using char_offset_Suc [OF assms] utf8_char_nonempty [of "cs ! i"] by simp
  then show ?thesis using char_offset_le [of cs "Suc i"] by simp
qed

text \<open>The positive scan.\<close>

lemma positive_loop_text:
  assumes "code_points cs" "j \<le> length cs"
  shows "positive_loop (utf8_text cs) (char_offset cs j) (int i) is_slice =
    (if j + i < length cs then Inr (char_offset cs (j + i)) else if is_slice then Inr (length (utf8_text cs)) else Inl IndexError)"
  using assms(2)
proof (induction i arbitrary: j)
  case 0
  then show ?case using char_offset_less [of j cs] by (cases "j < length cs") (simp_all add: positive_loop.simps)
next
  case (Suc i)
  show ?case
  proof (cases "j < length cs")
    case True
    then have "skip_cont (memory_of (utf8_text cs)) (Suc (char_offset cs j)) = Some (char_offset cs (Suc j))"
      using utf8_next_char_at [OF assms(1) True nul_no_cont, of "[]"] by (simp add: utf8_next_char_def)
    then show ?thesis using True char_offset_less [OF True] Suc.IH [of "Suc j"] Suc.prems by (subst positive_loop.simps) simp
  next
    case False
    then show ?thesis using Suc.prems by (subst positive_loop.simps) simp
  qed
qed

text \<open>The negative scan, one character at a time.\<close>

lemma negative_conts:
  assumes "i \<noteq> 0" "\<forall>x \<in> set bs. UTF8_IS_CONT x"
  shows "negative_loop (xs @ bs @ ys) (length xs + length bs) i sl = negative_loop (xs @ bs @ ys) (length xs) i sl"
  using assms(2)
proof (induction bs arbitrary: ys rule: rev_induct)
  case (snoc b bs)
  have "negative_loop (xs @ (bs @ [b]) @ ys) (length xs + length (bs @ [b])) i sl = negative_loop (xs @ bs @ (b # ys)) (length xs + length bs) i sl"
    using assms(1) snoc.prems by (simp add: nth_append)
  then show ?case using snoc.IH [of "b # ys"] snoc.prems by simp
qed simp

lemma negative_char:
  assumes "i \<noteq> 0" "c < 0x110000"
  shows "negative_loop (xs @ utf8_char c @ ys) (length xs + length (utf8_char c)) i sl = negative_loop (xs @ utf8_char c @ ys) (length xs) (i + 1) sl"
proof -
  obtain b bs where b: "utf8_char c = b # bs" "\<not> UTF8_IS_CONT b" "\<forall>x \<in> set bs. UTF8_IS_CONT x" using utf8_char_shape [OF assms(2)] by metis
  have "negative_loop ((xs @ [b]) @ bs @ ys) (length (xs @ [b]) + length bs) i sl = negative_loop ((xs @ [b]) @ bs @ ys) (length (xs @ [b])) i sl"
    by (rule negative_conts [OF assms(1) b(3)])
  then show ?thesis using assms(1) b(1,2) by (simp add: nth_append)
qed

lemma negative_loop_text:
  assumes "code_points cs" "j \<le> length cs"
  shows "negative_loop (utf8_text cs) (char_offset cs j) (- int i) is_slice =
    (if i \<le> j then Inr (char_offset cs (j - i)) else if is_slice then Inr 0 else Inl IndexError)"
  using assms(2)
proof (induction i arbitrary: j)
  case 0
  then show ?case by (cases "char_offset cs j") auto
next
  case (Suc i)
  show ?case
  proof (cases j)
    case 0
    then show ?thesis by simp
  next
    case (Suc k)
    then have k: "k < length cs" using Suc.prems by simp
    have c: "cs ! k < 0x110000" using assms(1) k by (simp add: code_points_def)
    have t: "utf8_text cs = utf8_text (take k cs) @ utf8_char (cs ! k) @ utf8_text (drop (Suc k) cs)"
      using k by (metis id_take_nth_drop utf8_text_simps(2,3))
    have "negative_loop (utf8_text cs) (char_offset cs (Suc k)) (- int (Suc i)) is_slice = negative_loop (utf8_text cs) (char_offset cs k) (- int i) is_slice"
      using negative_char [of "- int (Suc i)" "cs ! k" "utf8_text (take k cs)" "utf8_text (drop (Suc k) cs)" is_slice] c
      unfolding t [symmetric] char_offset_Suc [OF k] by (simp add: char_offset_def)
    then show ?thesis using Suc.IH [of k] k Suc by simp
  qed
qed

text \<open>Indices as the language counts them.\<close>

definition py_position :: "nat \<Rightarrow> int \<Rightarrow> int" where
  "py_position n i = (if i < 0 then i + int n else i)"

lemma str_index_to_ptr_index:
  assumes "code_points cs" "mp_obj_get_int_maybe index = Inr (Some i)"
  shows "str_index_to_ptr mp_type_str (utf8_text cs) index False =
    (let p = py_position (length cs) i
     in if 0 \<le> p \<and> p < int (length cs) then Inr (char_offset cs (nat p)) else Inl IndexError)"
proof (cases "i < 0")
  case True
  moreover have "length cs - nat (- i) = nat (i + int (length cs))" using True by simp
  ultimately show ?thesis using negative_loop_text [OF assms(1), of "length cs" "nat (- i)" False] True assms(2)
    by (auto simp: str_index_to_ptr_def py_position_def Let_def)
next
  case False
  then show ?thesis using positive_loop_text [OF assms(1), of 0 "nat i" False] assms(2)
    by (auto simp: str_index_to_ptr_def py_position_def Let_def)
qed

lemma str_index_to_ptr_slice:
  assumes "code_points cs" "mp_obj_get_int_maybe index = Inr (Some i)"
  shows "str_index_to_ptr mp_type_str (utf8_text cs) index True = Inr (char_offset cs (nat (py_bound (length cs) 1 i)))"
proof (cases "i < 0")
  case True
  moreover have "length cs - nat (- i) = nat (i + int (length cs))" using True by simp
  ultimately show ?thesis using negative_loop_text [OF assms(1), of "length cs" "nat (- i)" True] assms(2)
    by (auto simp: str_index_to_ptr_def py_bound_def Let_def max_def)
next
  case False
  then show ?thesis using positive_loop_text [OF assms(1), of 0 "nat i" True] assms(2)
    by (auto simp: str_index_to_ptr_def py_bound_def Let_def min_def)
qed

section \<open>Subscripts and slices\<close>

lemma lead_table:
  "list_all (\<lambda>b :: byte. UTF8_IS_NONASCII b = (128 \<le> b) \<and>
     (if 192 \<le> b \<and> b < 248 then lead_count b 0x40 1 = (if b < 224 then 2 else if b < 240 then 3 else 4) else True)) (map of_nat [0..<256])"
  by code_simp

lemma lead_length:
  assumes "c < 0x110000"
  shows "(if UTF8_IS_NONASCII (hd (utf8_char c)) then lead_count (hd (utf8_char c)) 0x40 1 else 1) = length (utf8_char c)"
proof -
  define n where "n = unat c"
  have n: "n < 0x110000" using assms by (simp add: n_def word_less_nat_alt)
  have t: "UTF8_IS_NONASCII (of_nat k :: byte) = (128 \<le> k)"
    "192 \<le> k \<Longrightarrow> k < 248 \<Longrightarrow> lead_count (of_nat k) 0x40 1 = (if k < 224 then 2 else if k < 240 then 3 else 4)" if "k < 256" for k
    using every_byte [OF lead_table, of "of_nat k"] that by (simp_all add: word_le_nat_alt)
  have "n < 0x800 \<Longrightarrow> 192 + n div 64 < 224" "n < 0x10000 \<Longrightarrow> 224 + n div 4096 < 240" "240 + n div 262144 < 248" using n by linarith+
  then show ?thesis using t [of n] t [of "192 + n div 64"] t [of "224 + n div 4096"] t [of "240 + n div 262144"]
    by (auto simp: utf8_char_def n_def [symmetric] utf8_of_def simp del: of_nat_add)
qed

lemma text_slice:
  assumes "i \<le> j" "j \<le> length cs"
  shows "new_str_bytes (memory_of (utf8_text cs)) (char_offset cs i) (char_offset cs j - char_offset cs i) = Inr (utf8_text (take (j - i) (drop i cs)))"
proof -
  define a b c where "a = take i cs" "b = take (j - i) (drop i cs)" "c = drop j cs"
  have "cs = a @ b @ c" unfolding a_b_c_def using assms(1)
    by (metis append.assoc append_take_drop_id drop_drop le_add_diff_inverse2)
  moreover have "take j cs = a @ b" "take i cs = a" using assms by (simp_all add: a_b_c_def take_add [symmetric])
  ultimately show ?thesis unfolding a_b_c_def(2) [symmetric] by (simp add: char_offset_def new_str_bytes_def)
qed

lemma str_load_index:
  assumes "code_points cs" "mp_obj_get_int_maybe index = Inr (Some i)"
  shows "str_load (utf8_text cs) (Index index) =
    (let p = py_position (length cs) i
     in if 0 \<le> p \<and> p < int (length cs) then Inr (utf8_char (cs ! nat p)) else Inl IndexError)"
proof (cases "0 \<le> py_position (length cs) i \<and> py_position (length cs) i < int (length cs)")
  case True
  define p where "p = nat (py_position (length cs) i)"
  have p: "p < length cs" using True by (simp add: p_def nat_less_iff)
  obtain b r where d: "drop (char_offset cs p) (memory_of (utf8_text cs)) = utf8_char (cs ! p) @ b # r" "cs ! p < 0x110000"
    using char_at_offset [OF assms(1) p nul_no_cont, of "[]"] by metis
  have f: "memory_of (utf8_text cs) ! char_offset cs p = hd (utf8_char (cs ! p))"
    using suffix_head(2) [of "char_offset cs p" "memory_of (utf8_text cs)" "hd (utf8_char (cs ! p))" "tl (utf8_char (cs ! p)) @ b # r"]
      d(1) utf8_char_nonempty [of "cs ! p"] by simp
  have t: "new_str_bytes (memory_of (utf8_text cs)) (char_offset cs p) (length (utf8_char (cs ! p))) = Inr (utf8_char (cs ! p))"
    using text_slice [of p "Suc p" cs] p char_offset_Suc [OF p] by (simp add: take_Suc_conv_app_nth hd_drop_conv_nth take_Suc)
  note n = lead_length [OF d(2), folded f]
  show ?thesis using True str_index_to_ptr_index [OF assms]
    by (simp add: Let_def p_def [symmetric] t n del: One_nat_def append_assoc split del: if_split)
next
  case False
  then show ?thesis using str_index_to_ptr_index [OF assms] by (auto simp: Let_def)
qed

definition slice_bound :: "nat \<Rightarrow> nat \<Rightarrow> int option \<Rightarrow> nat" where
  "slice_bound n dflt i = (case i of Some i \<Rightarrow> nat (py_bound n 1 i) | None \<Rightarrow> dflt)"

lemma slice_bound_le: "dflt \<le> n \<Longrightarrow> slice_bound n dflt i \<le> n"
  by (auto simp: slice_bound_def py_bound_def Let_def split: option.splits)

lemma str_load_slice:
  assumes "code_points cs" "int_or_none (ostart sl)" "int_or_none (ostop sl)" "is_none (ostep sl) \<or> ostep sl = Small_int 1"
    and "a = slice_bound (length cs) 0 (int_value (ostart sl))" "b = slice_bound (length cs) (length cs) (int_value (ostop sl))"
  shows "str_load (utf8_text cs) (Slice sl) = Inr (utf8_text (take (b - a) (drop a cs)))"
proof -
  have ends: "(if \<not> is_none o1 then str_index_to_ptr mp_type_str (utf8_text cs) o1 True else Inr (char_offset cs dflt)) =
      Inr (char_offset cs (slice_bound (length cs) dflt (int_value o1)))" if "int_or_none o1" for o1 dflt
    using that str_index_to_ptr_slice [OF assms(1), of o1] by (cases o1) (auto simp: slice_bound_def mp_obj_int_get_checked_def)
  have le: "a \<le> length cs" "b \<le> length cs" using slice_bound_le assms(5,6) by simp_all
  have mono: "char_offset cs i \<le> char_offset cs j" if "i \<le> j" for i j
    using that take_add [of i "j - i" cs] by (simp add: char_offset_def)
  have eq: "a = b" if "b \<le> a" "\<not> char_offset cs b < char_offset cs a"
  proof (rule ccontr)
    assume "a \<noteq> b"
    then have "b < length cs" "Suc b \<le> a" using that(1) le by simp_all
    then have "char_offset cs b < char_offset cs (Suc b)" "char_offset cs (Suc b) \<le> char_offset cs a"
      using char_offset_Suc [of b cs] utf8_char_nonempty [of "cs ! b"] mono [of "Suc b" a] by simp_all
    then show False using that(2) by simp
  qed
  have "str_load (utf8_text cs) (Slice sl) =
    (if char_offset cs b < char_offset cs a then Inr []
     else new_str_bytes (memory_of (utf8_text cs)) (char_offset cs a) (char_offset cs b - char_offset cs a))"
    using assms(4) ends [OF assms(2), of 0] ends [OF assms(3), of "length cs"] unfolding assms(5,6) by auto
  then show ?thesis
    using text_slice [of a b cs] le eq mono [of a b] by (cases "a \<le> b") auto
qed

section \<open>Iteration and length\<close>

text \<open>All the strings an iterator yields, up to a bound on the number of steps.\<close>

fun iterate :: "nat \<Rightarrow> mp_obj_str_it \<Rightarrow> py_exc + byte list list" where
  "iterate 0 it = Inr []"
| "iterate (Suc n) it =
     res_bind (str_it_iternext it) (\<lambda>(r, it').
       case r of None \<Rightarrow> Inr [] | Some s \<Rightarrow> res_bind (iterate n it') (\<lambda>ss. Inr (s # ss)))"

lemma iternext_text:
  assumes "code_points cs" "j < length cs"
  shows "str_it_iternext \<lparr>it_str = utf8_text cs, cur = char_offset cs j\<rparr> =
    Inr (Some (utf8_char (cs ! j)), \<lparr>it_str = utf8_text cs, cur = char_offset cs (Suc j)\<rparr>)"
proof -
  have t: "new_str_bytes (memory_of (utf8_text cs)) (char_offset cs j) (length (utf8_char (cs ! j))) = Inr (utf8_char (cs ! j))"
    using text_slice [of j "Suc j" cs] assms(2) char_offset_Suc [OF assms(2)] by (simp add: hd_drop_conv_nth take_Suc)
  show ?thesis using char_offset_less [OF assms(2)] utf8_next_char_at [OF assms nul_no_cont, of "[]"] t
    by (simp add: str_it_iternext_def char_offset_Suc [OF assms(2)])
qed

lemma iterate_text:
  assumes "code_points cs" "j \<le> length cs" "length cs - j < n"
  shows "iterate n \<lparr>it_str = utf8_text cs, cur = char_offset cs j\<rparr> = Inr (map utf8_char (drop j cs))"
  using assms(2,3)
proof (induction n arbitrary: j)
  case (Suc n)
  show ?case
  proof (cases "j < length cs")
    case True
    then show ?thesis using Suc.IH [of "Suc j"] Suc.prems iternext_text [OF assms(1) True]
      by (simp add: Cons_nth_drop_Suc [symmetric])
  next
    case False
    then show ?thesis using Suc.prems by (simp add: str_it_iternext_def)
  qed
qed simp

lemma charlen_text:
  assumes "code_points cs"
  shows "uni_unary_op MP_UNARY_OP_LEN (utf8_text cs) = Some (Uni_int (of_nat (length cs)))"
  using utf8_charlen_leads [of 0 "length (utf8_text cs)" "memory_of (utf8_text cs)"] leads_text [OF assms]
  by (simp add: uni_unary_op_def)

section \<open>The quoted form\<close>

lemma print_loop_text:
  assumes "code_points cs" "j \<le> length cs"
  shows "print_loop (utf8_text cs) q (char_offset cs j) out = Some (out @ concat (map (print_char q) (drop j cs)))"
  using assms(2)
proof (induction "length cs - j" arbitrary: j out)
  case 0
  then show ?case by (subst print_loop.simps) simp
next
  case (Suc n)
  then have j: "j < length cs" by simp
  note r = utf8_get_char_at [OF assms(1) j nul_no_cont, of "[]"] utf8_next_char_at [OF assms(1) j nul_no_cont, of "[]"]
  show ?case using Suc.hyps(1) [of "Suc j"] Suc.hyps(2) j r char_offset_less [OF j]
    by (subst print_loop.simps) (simp add: Cons_nth_drop_Suc [symmetric])
qed

lemma uni_print_quoted_text:
  assumes "code_points cs"
  shows "uni_print_quoted (utf8_text cs) =
    (let q = quote_char_of (utf8_text cs) in Some ([ucast q] @ concat (map (print_char q) cs) @ [ucast q]))"
  using print_loop_text [OF assms, of 0] by (simp add: uni_print_quoted_def Let_def)

text \<open>
  Reading a literal back, as the language defines the escapes: the characters up to the closing
  quote, which ends the text.
\<close>

definition digit_value :: "byte \<Rightarrow> nat" where
  "digit_value b = (if b < 0x3a then unat b - 0x30 else unat b - 0x57)"

definition hex_value :: "byte list \<Rightarrow> nat" where
  "hex_value bs = foldl (\<lambda>v b. 16 * v + digit_value b) 0 bs"

definition escape_length :: "byte \<Rightarrow> nat" where
  "escape_length e = (if e = 0x78 then 2 else if e = 0x75 then 4 else if e = 0x55 then 8 else 0)"

definition escape_value :: "byte \<Rightarrow> byte list \<Rightarrow> unichar" where
  "escape_value e t =
     (if e = 0x6e then 0x0a else if e = 0x72 then 0x0d else if e = 0x74 then 0x09
      else if escape_length e > 0 then of_nat (hex_value (take (escape_length e) t))
      else ucast e)"

function unquote :: "byte \<Rightarrow> byte list \<Rightarrow> unichar list option" where
  "unquote q [] = None"
| "unquote q (b # s) =
     (if b = q then if s = [] then Some [] else None
      else if b \<noteq> 0x5c then map_option (Cons (ucast b)) (unquote q s)
      else case s of
             [] \<Rightarrow> None
           | e # t \<Rightarrow> map_option (Cons (escape_value e t)) (unquote q (drop (escape_length e) t)))"
  by pat_completeness auto
termination by (relation "measure (\<lambda>(q, s). length s)") auto

fun unquote_literal :: "byte list \<Rightarrow> unichar list option" where
  "unquote_literal [] = None"
| "unquote_literal (q # s) = unquote q s"

lemma digit_value_hex_digit: "n < 16 \<Longrightarrow> digit_value (hex_digit n) = n"
  by (auto simp: digit_value_def hex_digit_def word_less_nat_alt simp del: of_nat_add)

lemma length_hex_digits [simp]: "length (hex_digits w n) = w"
  by (induction w arbitrary: n) simp_all

lemma hex_value_digits: "n < 16 ^ w \<Longrightarrow> hex_value (hex_digits w n) = n"
proof (induction w arbitrary: n)
  case (Suc w)
  then have "n div 16 < 16 ^ w" by (simp add: less_mult_imp_div_less mult.commute)
  then show ?case using Suc.IH [of "n div 16"] by (simp add: hex_value_def digit_value_hex_digit)
qed (simp add: hex_value_def)

lemma unquote_escape:
  assumes "q = 0x22 \<or> q = 0x27" "n < 16 ^ escape_length e" "0 < escape_length e"
  shows "unquote q (0x5c # e # hex_digits (escape_length e) n @ r) = map_option (Cons (of_nat n)) (unquote q r)"
  using assms hex_value_digits [OF assms(2)] by (auto simp: escape_value_def escape_length_def split: if_splits)

lemma ucast_ascii:
  assumes "(ch :: unichar) < 0x80"
  shows "(ucast (ucast ch :: byte) :: unichar) = ch" "(ucast ch = (b :: byte)) \<longleftrightarrow> ch = ucast b"
proof -
  have "unat ch < 256" using assms by (simp add: word_less_nat_alt)
  then show *: "(ucast (ucast ch :: byte) :: unichar) = ch"
    using ucast_of_nat_byte [of "unat ch"] of_nat_byte(2) [of "unat ch"] by simp
  have "ucast (ucast b :: unichar) = b" using unsigned_less [of b, where ?'a = nat]
    ucast_of_nat_byte [of "unat b"] of_nat_byte(2) [of "unat b"] by simp
  then show "(ucast ch = (b :: byte)) \<longleftrightarrow> ch = ucast b" using * by metis
qed

lemma unquote_print_char:
  assumes "q = 0x22 \<or> q = 0x27"
  shows "unquote (ucast q) (print_char q ch @ r) = map_option (Cons ch) (unquote (ucast q) r)"
proof -
  have q: "(ucast q :: byte) = 0x22 \<or> (ucast q :: byte) = 0x27" using assms by auto
  have qq: "(ucast q :: byte) \<noteq> 0x5c" using q by auto
  consider "ch = q" | "ch = 0x5c" "ch \<noteq> q" | "32 \<le> ch" "ch \<le> 126" "ch \<noteq> q" "ch \<noteq> 0x5c" | "\<not> (32 \<le> ch \<and> ch \<le> 126)" "ch \<noteq> q" "ch \<noteq> 0x5c"
    by blast
  then show ?thesis
  proof cases
    case 1
    then show ?thesis using assms qq by (auto simp: print_char_def escape_value_def escape_length_def)
  next
    case 2
    then show ?thesis using qq by (auto simp: print_char_def escape_value_def escape_length_def)
  next
    case 3
    then have a: "ch < 0x80" by (simp add: word_le_nat_alt word_less_nat_alt)
    have "(ucast ch :: byte) \<noteq> 0x5c" "(ucast ch :: byte) \<noteq> ucast q"
      using 3(3,4) assms by (auto simp: ucast_ascii(2) [OF a])
    then show ?thesis using 3 by (simp add: print_char_def ucast_ascii(1) [OF a])
  next
    case 4
    have hex: "print_char q ch = 0x5c # e # hex_digits (escape_length e) (unat ch) \<Longrightarrow> unat ch < 16 ^ escape_length e \<Longrightarrow>
        0 < escape_length e \<Longrightarrow> ?thesis" for e
      using unquote_escape [OF q, where n = "unat ch" and e = e and r = r] by (simp del: unquote.simps)
    have "unat ch < 0x100 \<Longrightarrow> ?thesis" if "ch \<notin> {0x0a, 0x0d, 0x09}"
      by (rule hex [of "0x78"]) (use 4 that in \<open>simp_all add: print_char_def escape_length_def word_less_nat_alt\<close>)
    moreover have "unat ch < 0x10000 \<Longrightarrow> \<not> unat ch < 0x100 \<Longrightarrow> ?thesis"
      by (rule hex [of "0x75"]) (use 4 in \<open>auto simp: print_char_def escape_length_def word_less_nat_alt\<close>)
    moreover have "\<not> unat ch < 0x10000 \<Longrightarrow> ?thesis"
      by (rule hex [of "0x55"]) (use 4 unsigned_less [of ch, where ?'a = nat] in \<open>auto simp: print_char_def escape_length_def word_less_nat_alt\<close>)
    moreover have "ch \<in> {0x0a, 0x0d, 0x09} \<Longrightarrow> ?thesis"
      using qq 4(2) by (elim insertE emptyE) (simp_all add: print_char_def escape_value_def escape_length_def)
    ultimately show ?thesis by blast
  qed
qed

lemma repr_read_back:
  assumes "code_points cs"
  shows "\<exists>out. uni_print_quoted (utf8_text cs) = Some out \<and> unquote_literal out = Some cs"
proof -
  define q where "q = quote_char_of (utf8_text cs)"
  have q: "q = 0x22 \<or> q = 0x27" by (auto simp: q_def quote_char_of_def Let_def split: prod.splits if_splits)
  have "unquote (ucast q) (concat (map (print_char q) ds) @ [ucast q]) = Some ds" for ds
    by (induction ds) (simp_all add: unquote_print_char [OF q])
  then show ?thesis using uni_print_quoted_text [OF assms] by (simp add: Let_def q_def [symmetric])
qed

end
