(* ===== verification/Py_Strtext.thy ===== *)
theory Py_Strtext
  imports Py_Strmethods_Props Py_Str_Props
begin

unbundle bit_operations_syntax

text \<open>
  The methods on text: searching finds characters and never the middle of one, stripping removes bytes
  from the ends, splitting on white space yields the words, and changing case changes characters.
\<close>

section \<open>Searching text\<close>

text \<open>UTF-8 is self-synchronising: a first byte that starts a character starts one of the text.\<close>

lemma char_boundary:
  "code_points hs \<Longrightarrow> utf8_text hs = a @ x # c \<Longrightarrow> \<not> UTF8_IS_CONT x \<Longrightarrow> \<exists>i < length hs. length a = char_offset hs i"
proof (induction hs arbitrary: a)
  case (Cons h hs)
  then have h: "h < 0x110000" "code_points hs" by simp_all
  obtain b bs where b: "utf8_char h = b # bs" "\<forall>y \<in> set bs. UTF8_IS_CONT y" using utf8_char_shape [OF h(1)] by metis
  have off: "char_offset (h # hs) (Suc i) = length (utf8_char h) + char_offset hs i" for i by (simp add: char_offset_def)
  show ?case
  proof (cases "length (utf8_char h) \<le> length a")
    case True
    have e: "utf8_char h @ utf8_text hs = a @ x # c" using Cons.prems(2) by simp
    have "take (length (utf8_char h)) a = utf8_char h" using arg_cong [OF e, of "take (length (utf8_char h))"] True by simp
    moreover have "utf8_text hs = drop (length (utf8_char h)) a @ x # c" using arg_cong [OF e, of "drop (length (utf8_char h))"] True by simp
    then obtain i where "i < length hs" "length (drop (length (utf8_char h)) a) = char_offset hs i" using Cons.IH [OF h(2) _ Cons.prems(3)] by blast
    ultimately show ?thesis using True off by (intro exI [of _ "Suc i"]) simp
  next
    case False
    have "(utf8_char h @ utf8_text hs) ! length a = x" using Cons.prems(2) by simp
    then have "x = utf8_char h ! length a" using False by (simp add: nth_append)
    then have "a = []" using Cons.prems(3) b False by (cases a) auto
    then show ?thesis by (intro exI [of _ 0]) simp
  qed
qed simp

lemma utf8_char_inj:
  assumes "x < 0x110000" "y < 0x110000" "utf8_char x = utf8_char y"
  shows "x = y"
proof -
  have "utf8_get_char (utf8_char c @ [0]) 0 = Some c" if "c < 0x110000" for c
    by (rule utf8_get_char_encoded [OF that, where b = 0 and r = "[]"]) simp_all
  from this [OF assms(1)] this [OF assms(2)] show ?thesis unfolding assms(3) by simp
qed

lemma utf8_char_prefix:
  assumes "x < 0x110000" "y < 0x110000" "utf8_char x @ r = utf8_char y @ r'"
  shows "x = y" "r = r'"
proof -
  have "hd (utf8_char x) = hd (utf8_char y)" using arg_cong [OF assms(3), of hd] utf8_char_nonempty by simp
  then have "length (utf8_char x) = length (utf8_char y)" unfolding lead_length [OF assms(1), symmetric] lead_length [OF assms(2), symmetric] by simp
  then have "utf8_char x = utf8_char y" "r = r'" using assms(3) by simp_all
  then show "x = y" "r = r'" using utf8_char_inj [OF assms(1,2)] by simp_all
qed

lemma text_prefix:
  "code_points xs \<Longrightarrow> code_points ns \<Longrightarrow> utf8_text xs = utf8_text ns @ r \<Longrightarrow> take (length ns) xs = ns \<and> length ns \<le> length xs"
proof (induction ns arbitrary: xs)
  case (Cons n ns)
  show ?case
  proof (cases xs)
    case Nil
    then show ?thesis using Cons.prems(3) utf8_char_nonempty [of n] by simp
  next
    case (Cons x ys)
    have e: "utf8_char x @ utf8_text ys = utf8_char n @ utf8_text ns @ r" using Cons.prems(3) Cons by simp
    have "x = n" "utf8_text ys = utf8_text ns @ r" using utf8_char_prefix [OF _ _ e] Cons.prems(1,2) Cons by simp_all
    then show ?thesis using Cons.IH [of ys] Cons.prems(1,2) Cons by simp
  qed
qed simp

definition sub_at :: "'a list \<Rightarrow> nat \<Rightarrow> 'a list \<Rightarrow> bool" where
  "sub_at hs i ns \<longleftrightarrow> i + length ns \<le> length hs \<and> take (length ns) (drop i hs) = ns"

lemma occurs_text:
  assumes "code_points hs" "code_points ns" "ns \<noteq> []"
  shows "occurs_at (utf8_text hs) p (utf8_text ns) \<longleftrightarrow> (\<exists>i. p = char_offset hs i \<and> sub_at hs i ns)"
proof
  assume "occurs_at (utf8_text hs) p (utf8_text ns)"
  then obtain a b where ab: "utf8_text hs = a @ utf8_text ns @ b" "length a = p" by (auto simp: occurs_split)
  obtain x c where x: "utf8_text ns = x # c" "\<not> UTF8_IS_CONT x"
  proof (cases ns)
    case (Cons n ms)
    then have "n < 0x110000" using assms(2) by simp
    from utf8_char_shape [OF this, of "[]"] show ?thesis using Cons that by (metis append_Cons utf8_text_simps(2))
  qed (use assms(3) in simp)
  obtain i where i: "i < length hs" "p = char_offset hs i" using char_boundary [OF assms(1), of a x "c @ b"] ab x by auto
  have "utf8_text (drop i hs) = utf8_text ns @ b"
    using text_from_offset [of i hs "[]"] i ab by simp
  moreover have "code_points (drop i hs)" using assms(1) by (auto simp: code_points_def dest: in_set_dropD)
  ultimately have "take (length ns) (drop i hs) = ns \<and> length ns \<le> length (drop i hs)" using text_prefix assms(2) by blast
  then show "\<exists>i. p = char_offset hs i \<and> sub_at hs i ns" using i by (intro exI [of _ i]) (auto simp: sub_at_def)
next
  assume "\<exists>i. p = char_offset hs i \<and> sub_at hs i ns"
  then obtain i where i: "p = char_offset hs i" "i + length ns \<le> length hs" "take (length ns) (drop i hs) = ns" by (auto simp: sub_at_def)
  have "hs = take i hs @ ns @ drop (length ns) (drop i hs)" using i(3) by (metis append_take_drop_id)
  then have "utf8_text hs = utf8_text (take i hs) @ utf8_text ns @ utf8_text (drop (length ns) (drop i hs))" by (metis utf8_text_simps(3))
  then show "occurs_at (utf8_text hs) p (utf8_text ns)" using i(1) by (auto simp: occurs_split char_offset_def)
qed

lemma char_offset_strict: "i < j \<Longrightarrow> j \<le> length hs \<Longrightarrow> char_offset hs i < char_offset hs j"
proof (induction j)
  case (Suc j)
  then have "char_offset hs i \<le> char_offset hs j" by (cases "i = j") auto
  moreover have "char_offset hs j < char_offset hs (Suc j)" using Suc.prems char_offset_Suc [of j hs] utf8_char_nonempty [of "hs ! j"] by simp
  ultimately show ?case by simp
qed simp

lemma char_offset_less_iff: "i \<le> length hs \<Longrightarrow> j \<le> length hs \<Longrightarrow> char_offset hs i < char_offset hs j \<longleftrightarrow> i < j"
  using char_offset_strict [of i j hs] char_offset_strict [of j i hs] by (metis linorder_neqE_nat order_less_asym order_less_irrefl)

lemma ptr_to_index_text:
  assumes "code_points hs" "i \<le> length hs"
  shows "utf8_ptr_to_index (memory_of (utf8_text hs)) 0 (char_offset hs i) = Some (of_nat i)"
proof -
  have "take (char_offset hs i) (memory_of (utf8_text hs)) = utf8_text (take i hs)"
  proof -
    have "utf8_text hs = utf8_text (take i hs) @ utf8_text (drop i hs)" by (metis append_take_drop_id utf8_text_simps(3))
    then show ?thesis by (simp add: char_offset_def)
  qed
  moreover have "leads (utf8_text (take i hs)) = i"
    using leads_text [of "take i hs"] assms by (simp add: code_points_def) (meson in_set_takeD)
  ultimately show ?thesis using utf8_ptr_to_index_leads [of 0 "char_offset hs i" "memory_of (utf8_text hs)"] char_offset_le [of hs i] by simp
qed

lemma text_nonempty: "ns \<noteq> [] \<Longrightarrow> utf8_text ns \<noteq> []"
  using utf8_char_nonempty by (cases ns) auto

lemma str_finder_text:
  assumes "code_points hs" "code_points ns" "ns \<noteq> []" "length hs < 2 ^ 32" "direction = 1 \<or> direction = -1"
    and "self = \<lparr>base_type = mp_type_str, data = utf8_text hs\<rparr>" "arg = Str_arg \<lparr>base_type = mp_type_str, data = utf8_text ns\<rparr>"
  shows "(\<exists>i. str_finder self arg None None direction is_index = Inr (int i) \<and> sub_at hs i ns \<and>
      (\<forall>j. sub_at hs j ns \<longrightarrow> (if direction = 1 then i \<le> j else j \<le> i))) \<or>
    ((\<forall>j. \<not> sub_at hs j ns) \<and> str_finder self arg None None direction is_index = (if is_index then Inl ValueError else Inr (-1)))"
proof (cases "find_subbytes (utf8_text hs) (utf8_text ns) direction")
  case None
  then have "\<forall>m. \<not> occurs_at (utf8_text hs) m (utf8_text ns)" using assms(5) by (auto simp: find_first find_last)
  then have "\<forall>j. \<not> sub_at hs j ns" using occurs_text [OF assms(1,2,3)] by blast
  then show ?thesis using None by (simp add: str_finder_def opt_index_def assms(6,7))
next
  case (Some p)
  have occ: "occurs_at (utf8_text hs) p (utf8_text ns)" "\<forall>m. occurs_at (utf8_text hs) m (utf8_text ns) \<longrightarrow> (if direction = 1 then p \<le> m else m \<le> p)"
    using Some assms(5) by (auto simp: find_first find_last not_le [symmetric])
  then obtain i where i: "p = char_offset hs i" "sub_at hs i ns" using occurs_text [OF assms(1,2,3)] by blast
  have le: "j \<le> length hs" if "sub_at hs j ns" for j using that by (simp add: sub_at_def)
  have "if direction = 1 then i \<le> j else j \<le> i" if "sub_at hs j ns" for j
  proof -
    have "if direction = 1 then p \<le> char_offset hs j else char_offset hs j \<le> p" using occ(2) occurs_text [OF assms(1,2,3)] that by blast
    then show ?thesis using char_offset_less_iff [OF le [OF that] le [OF i(2)]] char_offset_less_iff [OF le [OF i(2)] le [OF that]] i(1)
      by (auto simp: not_less [symmetric] split: if_splits)
  qed
  moreover have "uint (of_nat i :: 32 word) = int i" using le [OF i(2)] assms(4) by (simp add: uint_nat unat_of_nat)
  ultimately show ?thesis using Some i ptr_to_index_text [OF assms(1) le [OF i(2)]]
    by (intro disjI1 exI [of _ i]) (simp add: str_finder_def opt_index_def assms(6,7))
qed

section \<open>Stripping\<close>

definition strip_left :: "byte list \<Rightarrow> byte list \<Rightarrow> byte list" where
  "strip_left chars s = dropWhile (\<lambda>b. b \<in> set chars) s"

definition strip_right :: "byte list \<Rightarrow> byte list \<Rightarrow> byte list" where
  "strip_right chars s = rev (dropWhile (\<lambda>b. b \<in> set chars) (rev s))"

lemma find_byte: "find_subbytes chars [b] 1 = None \<longleftrightarrow> b \<notin> set chars"
proof -
  have "occurs_at chars m [b] \<longleftrightarrow> m < length chars \<and> chars ! m = b" for m
    by (auto simp: occurs_at_def match_at_def take_Suc_conv_app_nth Suc_le_eq hd_drop_conv_nth take_Suc)
  then show ?thesis by (auto simp: find_first in_set_conv_nth)
qed

lemma strip_right_simps [simp]:
  "strip_right chars [] = []"
  "strip_right chars (s @ [x]) = (if x \<in> set chars then strip_right chars s else s @ [x])"
  by (simp_all add: strip_right_def)

lemma strip_right_Cons:
  "strip_right chars (x # s) = (if strip_right chars s \<noteq> [] then x # strip_right chars s else if x \<in> set chars then [] else [x])"
  by (simp add: strip_right_def dropWhile_append)

lemma lstrip_loop:
  "i + n = length s \<Longrightarrow> strip_loop LSTRIP chars s (int i) n (False, 0, 0) =
    (let t = strip_left chars (drop i s) in if t = [] then (False, 0, 0) else (True, length s - length t, length s - 1))"
proof (induction n arbitrary: i)
  case (Suc n)
  then have "drop i s = s ! i # drop (Suc i) s" by (simp add: Cons_nth_drop_Suc)
  then show ?case using Suc.IH [of "Suc i"] Suc.prems by (simp add: Let_def find_byte strip_left_def add.commute)
qed (simp add: strip_left_def)

lemma rstrip_loop:
  "n \<le> length s \<Longrightarrow> strip_loop RSTRIP chars s (int n - 1) n (False, 0, 0) =
    (let t = strip_right chars (take n s) in if t = [] then (False, 0, 0) else (True, 0, length t - 1))"
proof (induction n)
  case (Suc n)
  then have "take (Suc n) s = take n s @ [s ! n]" by (simp add: take_Suc_conv_app_nth)
  then show ?case using Suc by (simp add: Let_def find_byte)
qed simp

lemma strip_loop_kept:
  "i + n = length s \<Longrightarrow> strip_loop STRIP chars s (int i) n (True, f, l) =
    (let t = strip_right chars (drop i s) in if t = [] then (True, f, l) else (True, f, i + length t - 1))"
proof (induction n arbitrary: i l)
  case (Suc n)
  then have d: "drop i s = s ! i # drop (Suc i) s" by (simp add: Cons_nth_drop_Suc)
  have n: "int i + 1 = int (Suc i)" by simp
  show ?case using Suc.IH [of "Suc i"] Suc.prems unfolding d
    by (simp add: Let_def find_byte strip_right_Cons add.commute)
qed simp

lemma strip_loop_both:
  "i + n = length s \<Longrightarrow> strip_loop STRIP chars s (int i) n (False, 0, 0) =
    (let t = strip_left chars (drop i s) in if t = [] then (False, 0, 0)
     else (True, length s - length t, length s - length t + length (strip_right chars t) - 1))"
proof (induction n arbitrary: i)
  case (Suc n)
  then have d: "drop i s = s ! i # drop (Suc i) s" by (simp add: Cons_nth_drop_Suc)
  show ?case
  proof (cases "s ! i \<in> set chars")
    case True
    then show ?thesis using Suc.IH [of "Suc i"] Suc.prems d by (simp add: Let_def find_byte strip_left_def add.commute)
  next
    case False
    then have "strip_left chars (drop i s) = drop i s" using d by (simp add: strip_left_def)
    moreover have "length s - length (drop i s) = i" using Suc.prems by simp
    ultimately show ?thesis using False Suc.prems strip_loop_kept [of "Suc i" n s chars i i] d
      by (simp add: Let_def find_byte strip_right_Cons add.commute)
  qed
qed (simp add: strip_left_def)

lemma strip_right_prefix: "\<exists>r. s = strip_right chars s @ r"
  by (rule exI [of _ "rev (takeWhile (\<lambda>b. b \<in> set chars) (rev s))"]) (simp add: strip_right_def flip: rev_append)

lemma strip_left_suffix: "strip_left chars s = drop (length s - length (strip_left chars s)) s"
proof -
  have "s = takeWhile (\<lambda>b. b \<in> set chars) s @ strip_left chars s" by (simp add: strip_left_def)
  then show ?thesis by (metis append_eq_conv_conj diff_add_inverse2 length_append)
qed

definition stripped :: "strip_type \<Rightarrow> byte list \<Rightarrow> byte list \<Rightarrow> byte list" where
  "stripped type chars s =
     (case type of LSTRIP \<Rightarrow> strip_left chars s | RSTRIP \<Rightarrow> strip_right chars s | STRIP \<Rightarrow> strip_right chars (strip_left chars s))"

lemma strip_left_last: "strip_left chars s \<noteq> [] \<Longrightarrow> strip_right chars (strip_left chars s) \<noteq> []"
proof (induction s)
  case (Cons x s)
  then show ?case by (auto simp: strip_left_def strip_right_Cons split: if_splits)
qed (simp add: strip_left_def)

lemma strip_pieces:
  assumes "f \<le> length s" "t = drop f s" "t \<noteq> []"
  shows "take (length (strip_right chars t)) (drop f s) = strip_right chars t" "length (strip_right chars t) \<le> length s - f"
proof -
  obtain r where r: "t = strip_right chars t @ r" using strip_right_prefix by blast
  show "take (length (strip_right chars t)) (drop f s) = strip_right chars t" using r assms(2) by (metis append_eq_conv_conj)
  show "length (strip_right chars t) \<le> length s - f" using arg_cong [OF r, of length] assms(2) by simp
qed

lemma strip_result:
  assumes "(case arg of None \<Rightarrow> Inr whitespace | Some a \<Rightarrow> same_type_data self a) = Inr chars"
    and "strip_loop type chars (data self) (if type = RSTRIP then int (length (data self)) - 1 else 0) (length (data self)) (False, 0, 0) =
      (if t = [] then (False, 0, 0) else (True, f, f + length t - 1))"
    and "take (length t) (drop f (data self)) = t" "f + length t \<le> length (data self)"
  shows "str_uni_strip type self arg = Inr t"
proof (cases "t = []")
  case True
  then show ?thesis using assms(1,2) by (simp add: str_uni_strip_def)
next
  case False
  then have n: "f \<le> f + length t - 1" "f + length t - 1 - f + 1 = length t" using length_greater_0_conv [of t] by linarith+
  have "f = 0 \<and> t = data self" if "length t = length (data self)" using that assms(3,4) by simp
  then show ?thesis using assms(1,2,3) False n by (auto simp: str_uni_strip_def Let_def)
qed

lemma strip_correct:
  assumes "(case arg of None \<Rightarrow> Inr whitespace | Some a \<Rightarrow> same_type_data self a) = Inr chars"
  shows "str_uni_strip type self arg = Inr (stripped type chars (data self))"
proof -
  define s where "s = data self"
  define l where "l = strip_left chars s"
  define f where "f = length s - length l"
  have l: "drop f s = l" "f + length l = length s" using strip_left_suffix [of chars s] 
    by (simp_all add: l_def f_def strip_left_def length_dropWhile_le)
  show ?thesis
  proof (cases type)
    case LSTRIP
    have "strip_loop LSTRIP chars s 0 (length s) (False, 0, 0) = (if l = [] then (False, 0, 0) else (True, f, f + length l - 1))"
      using lstrip_loop [of 0 "length s" s chars] l(2) by (simp add: Let_def l_def f_def)
    then show ?thesis using LSTRIP strip_result [OF assms, of LSTRIP l f] l by (simp add: stripped_def s_def l_def)
  next
    case RSTRIP
    obtain r where r: "s = strip_right chars s @ r" using strip_right_prefix by blast
    have "strip_loop RSTRIP chars s (int (length s) - 1) (length s) (False, 0, 0) =
        (if strip_right chars s = [] then (False, 0, 0) else (True, 0, 0 + length (strip_right chars s) - 1))"
      using rstrip_loop [of "length s" s chars] by (simp add: Let_def)
    moreover have "take (length (strip_right chars s)) (drop 0 s) = strip_right chars s" using r by (metis append_eq_conv_conj drop0)
    moreover have "0 + length (strip_right chars s) \<le> length s" using arg_cong [OF r, of length] by simp
    ultimately show ?thesis using RSTRIP strip_result [OF assms, of RSTRIP "strip_right chars s" 0] by (simp add: stripped_def s_def)
  next
    case STRIP
    let ?t = "strip_right chars l"
    have "strip_loop STRIP chars s 0 (length s) (False, 0, 0) = (if l = [] then (False, 0, 0) else (True, f, f + length ?t - 1))"
      using strip_loop_both [of 0 "length s" s chars] by (simp add: Let_def l_def f_def)
    moreover have "l = [] \<longleftrightarrow> ?t = []" using strip_left_last [of chars s] by (auto simp: l_def)
    moreover have "take (length ?t) (drop f s) = ?t" "f + length ?t \<le> length s"
      using strip_pieces [of f s l chars] l by (cases "l = []"; auto)+
    ultimately show ?thesis using STRIP strip_result [OF assms, of STRIP ?t f] by (simp add: stripped_def s_def l_def)
  qed
qed

section \<open>Words\<close>

function words :: "byte list \<Rightarrow> byte list list" where
  "words s = (let t = dropWhile is_space_byte s in if t = [] then [] else
     takeWhile (\<lambda>b. \<not> is_space_byte b) t # words (dropWhile (\<lambda>b. \<not> is_space_byte b) t))"
  by pat_completeness auto
termination
proof (relation "measure length")
  fix s t :: "byte list"
  assume t: "t = dropWhile is_space_byte s" "t \<noteq> []"
  then have "\<not> is_space_byte (hd t)" using hd_dropWhile by blast
  then have "length (dropWhile (\<lambda>b. \<not> is_space_byte b) t) < length t"
    using t(2) by (cases t) (auto simp: le_imp_less_Suc length_dropWhile_le)
  also have "length t \<le> length s" using t(1) by (simp add: length_dropWhile_le)
  finally show "(dropWhile (\<lambda>b. \<not> is_space_byte b) t, s) \<in> measure length" by simp
qed simp

declare words.simps [simp del]

lemma scan_while_takeWhile: "p \<le> length s \<Longrightarrow> scan_while P s p = p + length (takeWhile P (drop p s))"
proof (induction P s p rule: scan_while.induct)
  case (1 P s p)
  show ?case
  proof (cases "p < length s")
    case True
    then have "drop p s = s ! p # drop (Suc p) s" by (simp add: Cons_nth_drop_Suc)
    then show ?thesis using 1 True by (subst scan_while.simps) simp
  next
    case False
    then show ?thesis using 1(2) by (subst scan_while.simps) simp
  qed
qed

lemma scan_while_rest:
  assumes "p \<le> length s"
  shows "drop (scan_while P s p) s = dropWhile P (drop p s)" "slice_of s p (scan_while P s p) = takeWhile P (drop p s)"
proof -
  show "drop (scan_while P s p) s = dropWhile P (drop p s)"
    by (simp add: scan_while_takeWhile [OF assms] dropWhile_eq_drop add.commute)
  show "slice_of s p (scan_while P s p) = takeWhile P (drop p s)"
    by (simp add: scan_while_takeWhile [OF assms] takeWhile_eq_take [symmetric])
qed

lemma split_space_words:
  "p \<le> length s \<Longrightarrow> dropWhile is_space_byte (drop p s) = drop p s \<Longrightarrow> k < 0 \<Longrightarrow>
   split_space_loop s k p res = (length s, res @ words (drop p s))"
proof (induction s k p res rule: split_space_loop.induct)
  case (1 s k p res)
  show ?case
  proof (cases "p < length s")
    case False
    then show ?thesis using 1(2) by (subst split_space_loop.simps) (simp add: words.simps)
  next
    case True
    let ?P = "\<lambda>b. \<not> is_space_byte b"
    define q where "q = scan_while ?P s p"
    have q: "q \<le> length s" using scan_while_bounds [of p s ?P] 1(2) by (simp add: q_def)
    note r = scan_while_rest [OF 1(2), of ?P, folded q_def]
    have w: "words (drop p s) = slice_of s p q # words (drop q s)"
      using True 1(3) r by (subst words.simps) (simp add: Let_def)
    show ?thesis
    proof (cases "q \<ge> length s")
      case True
      then have "words (drop q s) = []" "q = length s" using q by (simp_all add: words.simps)
      then show ?thesis using \<open>p < length s\<close> 1(4) w by (subst split_space_loop.simps) (simp add: Let_def q_def [symmetric])
    next
      case False
      let ?n = "scan_while is_space_byte s q"
      note n = scan_while_rest(1) [OF q, of is_space_byte]
      have "words (drop ?n s) = words (drop q s)" unfolding n by (subst (1 2) words.simps) simp
      moreover have "?n \<le> length s" using scan_while_bounds [OF q, of is_space_byte] by simp
      ultimately show ?thesis
        using 1(1) [OF _ q_def refl False] \<open>p < length s\<close> 1(4) False w n
        by (subst split_space_loop.simps) (simp add: Let_def q_def [symmetric])
    qed
  qed
qed

lemma split_words: "mp_obj_str_split self No_sep (-1) = Inr (words (data self))"
proof -
  let ?s = "data self"
  note n = scan_while_rest(1) [of 0 ?s is_space_byte]
  have "words (drop (scan_while is_space_byte ?s 0) ?s) = words ?s" unfolding n [simplified] by (subst (1 2) words.simps) simp
  moreover have "scan_while is_space_byte ?s 0 \<le> length ?s" using scan_while_bounds [of 0 ?s is_space_byte] by simp
  ultimately show ?thesis using split_space_words [of "scan_while is_space_byte ?s 0" ?s "-1" "[]"] n
    by (simp add: mp_obj_str_split_def Let_def)
qed

section \<open>Case\<close>

lemma caseconv_bytes:
  assumes "length (data self) + 1 < 2 ^ 32" "room E (length (data self) + 1)"
  shows "str_caseconv E f self = Inr (map (conv_byte f) (data self))"
proof -
  have u: "unat (of_nat (length (data self)) :: 32 word) = length (data self)" using assms(1) by (simp add: unat_of_nat)
  show ?thesis unfolding str_caseconv_def
    using built_string [of "of_nat (length (data self))" E "\<lambda>b. put_bytes b 0 (map (conv_byte f) (data self))" "map (conv_byte f) (data self)"] assms u
    by (simp add: put_bytes_def)
qed

definition ascii_only :: "(unichar \<Rightarrow> unichar) \<Rightarrow> bool" where
  "ascii_only f \<longleftrightarrow> (\<forall>c. if c < 0x80 then f c < 0x80 else f c = c)"

lemma ascii_only_case: "ascii_only unichar_tolower" "ascii_only unichar_toupper"
proof -
  have "65 \<le> c \<and> c \<le> 90 \<Longrightarrow> c + 0x20 < 0x80 \<and> c < 0x80" for c :: unichar
    by (auto simp: word_le_nat_alt word_less_nat_alt unat_word_ariths)
  then show "ascii_only unichar_tolower" by (auto simp: ascii_only_def unichar_tolower_def unichar_classes)
  have "97 \<le> c \<and> c \<le> 122 \<Longrightarrow> c - 0x20 < 0x80 \<and> c < 0x80" for c :: unichar
    by (auto simp: word_le_nat_alt word_less_nat_alt unat_sub)
  then show "ascii_only unichar_toupper" by (auto simp: ascii_only_def unichar_toupper_def unichar_classes)
qed

lemma conv_byte_high: "ascii_only f \<Longrightarrow> \<not> b < 0x80 \<Longrightarrow> conv_byte f b = b"
proof -
  assume f: "ascii_only f" and b: "\<not> b < 0x80"
  have "unat (ucast b :: unichar) = unat b" using unsigned_less [of b, where ?'a = nat]
    by (simp add: unsigned_ucast_eq take_bit_nat_eq_self)
  then have "\<not> (ucast b :: unichar) < 0x80" using b by (simp add: word_less_nat_alt)
  then have "f (ucast b) = ucast b" using f by (metis ascii_only_def)
  then show ?thesis using ucast_of_nat_byte [of "unat b"] of_nat_byte(2) [of "unat b"] unsigned_less [of b, where ?'a = nat]
    by (simp add: conv_byte_def)
qed

lemma case_char:
  assumes "ascii_only f" "c < 0x110000"
  shows "map (conv_byte f) (utf8_char c) = utf8_char (f c)"
proof -
  obtain b bs where b: "utf8_char c = b # bs" "\<forall>x \<in> set bs. UTF8_IS_CONT x" "bs = [] \<longleftrightarrow> c < 0x80" "b < 0x80 \<longleftrightarrow> c < 0x80" "c < 0x80 \<Longrightarrow> b = ucast c"
    using utf8_char_shape [OF assms(2), of "[]"] by metis
  show ?thesis
  proof (cases "c < 0x80")
    case True
    then have "f c < 0x80" using assms(1) by (metis ascii_only_def)
    moreover have "utf8_char d = [ucast d]" if "d < 0x80" for d
      using that ucast_of_nat_byte [of "unat d"] by (simp add: utf8_char_def utf8_of_def word_less_nat_alt)
    ultimately show ?thesis using True by (simp add: conv_byte_def ucast_ascii)
  next
    case False
    then have "f c = c" using assms(1) by (metis ascii_only_def)
    moreover have "map (conv_byte f) bs = bs"
      using b(2) conv_byte_high [OF assms(1)] by (auto simp: byte_kinds intro!: map_idI)
    ultimately show ?thesis using b(1,4) False conv_byte_high [OF assms(1)] by simp
  qed
qed

lemma case_text:
  assumes "ascii_only f" "code_points cs"
  shows "map (conv_byte f) (utf8_text cs) = utf8_text (map f cs)"
  using assms(2) by (induction cs) (simp_all add: case_char [OF assms(1)])

lemma case_code_points: "ascii_only f \<Longrightarrow> code_points cs \<Longrightarrow> code_points (map f cs)"
proof (induction cs)
  case (Cons c cs)
  have "f c < 0x110000"
  proof (cases "c < 0x80")
    case True
    then have "f c < 0x80" using Cons.prems(1) by (metis ascii_only_def)
    then show ?thesis by (rule less_trans) simp
  next
    case False
    then show ?thesis using Cons.prems by (metis ascii_only_def code_points_simps(2))
  qed
  then show ?case using Cons by simp
qed simp

end
