(* ===== verification/Py_String_Properties.thy ===== *)
theory Py_String_Properties
  imports Py_Strtext
begin

text \<open>
  The properties of the string component: the variable string as a list of bytes, UTF-8 written and
  read back, slices as the language defines them, a string object as a sequence of characters, the
  methods on text, and what the code does where it does not keep to its contract.
\<close>

section \<open>Variable strings\<close>

text \<open>C14: Any sequence of additions, insertions, cuts and resets on a well-formed variable string, whose
  sizes stay below the machine's, either raises the error of a buffer that cannot grow
  (RuntimeError for a fixed buffer, MemoryError only where the heap has no room) or ends in a
  well-formed string that holds exactly the bytes the same edits give on a list; it never touches
  memory outside the buffer.\<close>
theorem vstr_refines_bytes:
  assumes "vstr_ok v" "unat (len v) + sum_list (map demand ops) + 24 < 2 ^ 32" "\<forall>x \<in> set ops. op_ok x"
  shows "case vstr_run E ops v of
      Inl e \<Rightarrow> if fixed_buf v then e = RuntimeError else e = MemoryError \<and> (\<exists>n < 2 ^ 32. \<not> room E n)
    | Inr v' \<Rightarrow> vstr_ok v' \<and> fixed_buf v' = fixed_buf v \<and> vstr_contents v' = fold bytes_step ops (vstr_contents v)"
  using vstr_run_refines [OF assms, of E] by (auto simp: outcome_def growth_fails_def becomes_def split: sum.splits)

definition ample :: mem_env where
  "ample = \<lparr>room = \<lambda>_. True, fresh = \<lambda>_. 0xAA\<rparr>"

definition sample_vstr :: vstr where
  "sample_vstr = \<lparr>alloc = 4, len = 2, buf = [0x61, 0x62, 0, 0], fixed_buf = False\<rparr>"

theorem vstr_refines_bytes_witness:
  "case vstr_run ample [Add_char 0x20AC, Ins_byte 1 0x2D, Cut_tail 1] sample_vstr of
      Inl e \<Rightarrow> False
    | Inr v' \<Rightarrow> vstr_contents v' = [0x61, 0x2D, 0x62, 0xE2, 0x82]"
proof -
  have "vstr_ok sample_vstr" by (simp add: vstr_ok_def sample_vstr_def)
  moreover have "unat (len sample_vstr) + sum_list (map demand [Add_char 0x20AC, Ins_byte 1 0x2D, Cut_tail 1]) + 24 < 2 ^ 32"
    by (simp add: sample_vstr_def)
  moreover have "\<forall>x \<in> set [Add_char 0x20AC, Ins_byte 1 0x2D, Cut_tail 1]. op_ok x" by simp
  ultimately have "case vstr_run ample [Add_char 0x20AC, Ins_byte 1 0x2D, Cut_tail 1] sample_vstr of
      Inl e \<Rightarrow> if fixed_buf sample_vstr then e = RuntimeError else e = MemoryError \<and> (\<exists>n < 2 ^ 32. \<not> room ample n)
    | Inr v' \<Rightarrow> vstr_ok v' \<and> fixed_buf v' = fixed_buf sample_vstr \<and>
        vstr_contents v' = fold bytes_step [Add_char 0x20AC, Ins_byte 1 0x2D, Cut_tail 1] (vstr_contents sample_vstr)"
    by (rule vstr_refines_bytes)
  moreover have "vstr_contents sample_vstr = [0x61, 0x62]" by (simp add: vstr_contents_def sample_vstr_def)
  then have "fold bytes_step [Add_char 0x20AC, Ins_byte 1 0x2D, Cut_tail 1] (vstr_contents sample_vstr) = [0x61, 0x2D, 0x62, 0xE2, 0x82]"
    by (simp add: utf8_char_def utf8_of_def)
  moreover have "\<not> fixed_buf sample_vstr" "room ample n" for n by (simp_all add: sample_vstr_def ample_def)
  ultimately show ?thesis by (simp split: sum.splits)
qed

text \<open>Reading characters one after the other, as a walk over the text does.\<close>

fun read_chars :: "nat \<Rightarrow> byte list \<Rightarrow> nat \<Rightarrow> unichar list option" where
  "read_chars 0 mem p = Some []"
| "read_chars (Suc n) mem p =
     (case (utf8_get_char mem p, utf8_next_char mem p) of
        (Some c, Some q) \<Rightarrow> map_option (Cons c) (read_chars n mem q)
      | _ \<Rightarrow> None)"

lemma read_chars_text:
  assumes "code_points cs" "j + n \<le> length cs" "\<not> UTF8_IS_CONT b"
  shows "read_chars n (utf8_text cs @ b # r) (char_offset cs j) = Some (take n (drop j cs))"
  using assms(2)
proof (induction n arbitrary: j)
  case (Suc n)
  then have j: "j < length cs" by simp
  show ?case using Suc.IH [of "Suc j"] Suc.prems utf8_get_char_at [OF assms(1) j assms(3)] utf8_next_char_at [OF assms(1) j assms(3)]
    by (simp add: Cons_nth_drop_Suc [OF j, symmetric])
qed simp

lemma fold_add_chars: "fold bytes_step (map Add_char cs) s = s @ utf8_text cs"
  by (induction cs arbitrary: s) simp_all

lemma demand_chars: "sum_list (map demand (map Add_char cs)) = 4 * length cs"
  by (induction cs) simp_all

lemma vstr_run_append: "vstr_run E (xs @ ys) v = res_bind (vstr_run E xs v) (vstr_run E ys)"
proof (induction xs arbitrary: v)
  case (Cons x xs)
  then show ?case by (cases "vstr_step E x v") simp_all
qed simp

lemma built_text:
  assumes "vstr_ok v" "vstr_contents v = []" "\<not> fixed_buf v" "\<forall>n < 2 ^ 32. room E n" "code_points cs" "4 * length cs + 25 < 2 ^ 32"
  shows "\<exists>v' r. vstr_run E (map Add_char cs @ [Null_terminate]) v = Inr v' \<and> vstr_contents v' = utf8_text cs \<and>
    unat (len v') = length (utf8_text cs) \<and> buf v' = utf8_text cs @ 0 # r"
proof -
  have l: "unat (len v) = 0" using length_contents [OF assms(1)] assms(2) by simp
  have "\<forall>x \<in> set (map Add_char cs). op_ok x" using assms(5) by (auto simp: code_points_def)
  then have "outcome E (fixed_buf v) (vstr_run E (map Add_char cs) v) (becomes v (utf8_text cs))"
    using vstr_run_refines [OF assms(1), of "map Add_char cs" E] l assms(2,6) by (simp only: fold_add_chars demand_chars) simp
  then obtain v1 where v1: "vstr_run E (map Add_char cs) v = Inr v1" "becomes v (utf8_text cs) v1"
    using assms(3,4) by (cases "vstr_run E (map Add_char cs) v") (auto simp: growth_fails_def)
  then have ok: "vstr_ok v1" "vstr_contents v1 = utf8_text cs" "\<not> fixed_buf v1" using assms(3) by (simp_all add: becomes_def)
  have "length (utf8_text cs) \<le> 4 * length cs" using length_utf8_char by (induction cs) (auto intro: le_trans add_mono)
  then have "unat (len v1) + 1 < 2 ^ 32" using length_contents [OF ok(1)] ok(2) assms(6) by simp
  from null_terminated [OF ok(1) this, of E] ok(3) assms(4) obtain v2 where
    v2: "vstr_null_terminated_str E v1 = Inr v2" "becomes v1 (vstr_contents v1) v2" "take (Suc (length (vstr_contents v1))) (buf v2) = vstr_contents v1 @ [0]"
    by (cases "vstr_null_terminated_str E v1") (auto simp: growth_fails_def)
  define r where "r = drop (Suc (length (vstr_contents v1))) (buf v2)"
  have "buf v2 = utf8_text cs @ 0 # r"
    using append_take_drop_id [of "Suc (length (vstr_contents v1))" "buf v2", folded r_def] v2(3) ok(2) by simp
  moreover have "vstr_ok v2" "vstr_contents v2 = utf8_text cs" using v2(2) ok(2) by (simp_all add: becomes_def)
  ultimately show ?thesis using v1(1) v2(1) length_contents [of v2]
    by (intro exI [of _ v2] exI [of _ r]) (simp add: vstr_run_append)
qed

text \<open>C11: Characters added to an empty variable string and a terminating null byte make UTF-8 text that the
  validity check accepts, whose length in characters is their number, and from which the routines
  that read a character and move to the next one give back exactly the characters.\<close>
theorem utf8_roundtrip:
  assumes "vstr_ok v" "vstr_contents v = []" "\<not> fixed_buf v" "\<forall>n < 2 ^ 32. room E n" "code_points cs" "4 * length cs + 25 < 2 ^ 32"
  shows "\<exists>v'. vstr_run E (map Add_char cs @ [Null_terminate]) v = Inr v' \<and> utf8_check (vstr_contents v') \<and>
    utf8_charlen (buf v') 0 (unat (len v')) = Some (of_nat (length cs)) \<and> read_chars (length cs) (buf v') 0 = Some cs"
proof -
  obtain v' r where v': "vstr_run E (map Add_char cs @ [Null_terminate]) v = Inr v'" "vstr_contents v' = utf8_text cs"
    "unat (len v') = length (utf8_text cs)" "buf v' = utf8_text cs @ 0 # r"
    using built_text [OF assms] by blast
  have "read_chars (length cs) (buf v') 0 = Some cs" using read_chars_text [OF assms(5), of 0 "length cs" 0 r] v'(4) by simp
  moreover have "utf8_charlen (buf v') 0 (unat (len v')) = Some (of_nat (length cs))"
    using utf8_charlen_leads [of 0 "length (utf8_text cs)" "buf v'"] leads_text [OF assms(5)] v'(3,4) by simp
  ultimately show ?thesis using v'(1,2) utf8_check_text [OF assms(5)] by auto
qed

definition empty_vstr :: vstr where
  "empty_vstr = \<lparr>alloc = 1, len = 0, buf = [0xAA], fixed_buf = False\<rparr>"

theorem utf8_roundtrip_witness:
  "\<exists>v'. vstr_run ample (map Add_char [0x41, 0xE9, 0x20AC, 0x1F40D] @ [Null_terminate]) empty_vstr = Inr v' \<and> utf8_check (vstr_contents v') \<and>
    utf8_charlen (buf v') 0 (unat (len v')) = Some (of_nat (length [0x41, 0xE9, 0x20AC, 0x1F40D :: unichar])) \<and>
    read_chars (length [0x41, 0xE9, 0x20AC, 0x1F40D :: unichar]) (buf v') 0 = Some [0x41, 0xE9, 0x20AC, 0x1F40D]"
  by (rule utf8_roundtrip) (simp_all add: vstr_ok_def vstr_contents_def empty_vstr_def ample_def)

section \<open>Slices and strings as sequences\<close>

text \<open>C12: The positions computed for a slice object and the elements copied out for them are those of the
  language definition, for every combination of missing, negative and out-of-range bounds and every
  step except zero, given as booleans, small integers or integers on the heap; no element outside the
  sequence is read. The sums of positions are within the machine integers of 32 bits: the length of the
  sequence and an increasing step together are at most \<open>2^31\<close>, and the stop for a decreasing step is
  not \<open>2^31 - 1\<close>. All slices by small integers of sequences of up to \<open>2^30\<close> elements are so.\<close>
theorem slice_language:
  assumes "slice_fits (length sq) sl" "step_value (ostep sl) \<noteq> 0"
  shows "res_bind (mp_seq_get_fast_slice_indexes (length sq) sl) (\<lambda>(fast, ix). mp_seq_extract_slice sq ix) =
    Inr (py_slice sq (int_value (ostart sl)) (int_value (ostop sl)) (step_value (ostep sl)))"
  by (rule slice_of_object [OF assms])

theorem slice_language_witness:
  "res_bind (mp_seq_get_fast_slice_indexes (length [10, 11, 12, 13, 14 :: nat]) \<lparr>ostart = None_obj 0, ostop = Small_int (-5), ostep = Int_obj 7 (-2)\<rparr>)
     (\<lambda>(fast, ix). mp_seq_extract_slice [10, 11, 12, 13, 14 :: nat] ix) = Inr [14, 12]"
proof -
  let ?sl = "\<lparr>ostart = None_obj 0, ostop = Small_int (-5), ostep = Int_obj 7 (-2)\<rparr>"
  have "py_slice [10, 11, 12, 13, 14 :: nat] None (Some (-5)) (-2) = [14, 12]" by code_simp
  moreover have "res_bind (mp_seq_get_fast_slice_indexes (length [10, 11, 12, 13, 14 :: nat]) ?sl) (\<lambda>(fast, ix). mp_seq_extract_slice [10, 11, 12, 13, 14 :: nat] ix) =
    Inr (py_slice [10, 11, 12, 13, 14 :: nat] (int_value (ostart ?sl)) (int_value (ostop ?sl)) (step_value (ostep ?sl)))"
    by (rule slice_language) (simp_all add: slice_fits_def step_value_def mp_int_fits_def)
  ultimately show ?thesis by (simp add: step_value_def)
qed

text \<open>C10: A string object over UTF-8 data is the sequence of its characters: its length is their number, a
  subscript is the one-character string at the position counted from either end or an IndexError
  outside the string, and an iterator yields the characters in order and stops.\<close>
theorem str_refines_characters:
  assumes "code_points cs" "mp_obj_get_int_maybe index = Inr (Some i)"
  shows "uni_unary_op MP_UNARY_OP_LEN (utf8_text cs) = Some (Uni_int (of_nat (length cs))) \<and>
    str_subscr (utf8_text cs) (Index index) None =
      (let p = py_position (length cs) i
       in if 0 \<le> p \<and> p < int (length cs) then Inr (Some (utf8_char (cs ! nat p))) else Inl IndexError) \<and>
    iterate (Suc (length cs)) (mp_obj_new_str_iterator (utf8_text cs)) = Inr (map utf8_char cs)"
proof -
  have "iterate (Suc (length cs)) (mp_obj_new_str_iterator (utf8_text cs)) = Inr (map utf8_char cs)"
    using iterate_text [OF assms(1), of 0 "Suc (length cs)"] by (simp add: mp_obj_new_str_iterator_def)
  moreover have "str_subscr (utf8_text cs) (Index index) None =
      (let p = py_position (length cs) i
       in if 0 \<le> p \<and> p < int (length cs) then Inr (Some (utf8_char (cs ! nat p))) else Inl IndexError)"
    unfolding str_subscr_def using str_load_index [OF assms] by (simp add: Let_def)
  ultimately show ?thesis using charlen_text [OF assms(1)] by blast
qed

theorem str_refines_characters_witness:
  "str_subscr (utf8_text [0x41, 0x20AC, 0xE9]) (Index (Small_int (-2))) None = Inr (Some [0xE2, 0x82, 0xAC])"
proof -
  have "str_subscr (utf8_text [0x41, 0x20AC, 0xE9]) (Index (Small_int (-2))) None =
      (let p = py_position (length [0x41, 0x20AC, 0xE9 :: unichar]) (-2)
       in if 0 \<le> p \<and> p < int (length [0x41, 0x20AC, 0xE9 :: unichar]) then Inr (Some (utf8_char ([0x41, 0x20AC, 0xE9] ! nat p))) else Inl IndexError)"
    by (rule conjunct1 [OF conjunct2 [OF str_refines_characters]]) simp_all
  then show ?thesis by (simp add: py_position_def utf8_char_def utf8_of_def)
qed

text \<open>C36: A slice of a string with step one is the text of the slice of its characters.\<close>
theorem str_slice_characters:
  assumes "code_points cs" "int_or_none (ostart sl)" "int_or_none (ostop sl)" "is_none (ostep sl) \<or> ostep sl = Small_int 1"
  shows "str_subscr (utf8_text cs) (Slice sl) None =
    (let a = slice_bound (length cs) 0 (int_value (ostart sl));
       b = slice_bound (length cs) (length cs) (int_value (ostop sl))
     in Inr (Some (utf8_text (take (b - a) (drop a cs)))))"
  unfolding str_subscr_def using str_load_slice [OF assms refl refl] by (simp add: Let_def)

theorem str_slice_characters_witness:
  "str_subscr (utf8_text [0x41, 0x20AC, 0xE9]) (Slice \<lparr>ostart = Small_int 1, ostop = Small_int (-1), ostep = None_obj 0\<rparr>) None =
    Inr (Some [0xE2, 0x82, 0xAC])"
proof -
  let ?sl = "\<lparr>ostart = Small_int 1, ostop = Small_int (-1), ostep = None_obj 0\<rparr>"
  have "str_subscr (utf8_text [0x41, 0x20AC, 0xE9]) (Slice ?sl) None =
    (let a = slice_bound (length [0x41, 0x20AC, 0xE9 :: unichar]) 0 (int_value (ostart ?sl));
       b = slice_bound (length [0x41, 0x20AC, 0xE9 :: unichar]) (length [0x41, 0x20AC, 0xE9 :: unichar]) (int_value (ostop ?sl))
     in Inr (Some (utf8_text (take (b - a) (drop a [0x41, 0x20AC, 0xE9])))))"
    by (rule str_slice_characters) simp_all
  then show ?thesis by (simp add: slice_bound_def py_bound_def utf8_char_def utf8_of_def)
qed

text \<open>C37: The quoted form of a string reads back, by the escapes of the language, as exactly the characters
  of the string: printing escapes enough and loses nothing.\<close>
theorem repr_roundtrip:
  assumes "code_points cs"
  shows "\<exists>out. uni_print_quoted (utf8_text cs) = Some out \<and> unquote_literal out = Some cs"
  by (rule repr_read_back [OF assms])

theorem repr_roundtrip_witness:
  "\<exists>out. uni_print_quoted (utf8_text [0x27, 0x5C, 0x0A, 0xE9, 0x20AC]) = Some out \<and> unquote_literal out = Some [0x27, 0x5C, 0x0A, 0xE9, 0x20AC]"
  by (rule repr_roundtrip) simp

section \<open>Methods\<close>

text \<open>C38: Searching a string for another counts in characters: \<open>find\<close> and \<open>index\<close> return the first, \<open>rfind\<close> and
  \<open>rindex\<close> the last position at which the characters of the needle stand in the string, and the
  answer for absence exactly when there is none; a match never starts inside a character.\<close>
theorem str_find_characters:
  assumes "code_points hs" "code_points ns" "ns \<noteq> []" "length hs < 2 ^ 32" "direction = 1 \<or> direction = -1"
    and "self = \<lparr>base_type = mp_type_str, data = utf8_text hs\<rparr>" "arg = Str_arg \<lparr>base_type = mp_type_str, data = utf8_text ns\<rparr>"
  shows "(\<exists>i. str_finder self arg None None direction is_index = Inr (int i) \<and> sub_at hs i ns \<and>
      (\<forall>j. sub_at hs j ns \<longrightarrow> (if direction = 1 then i \<le> j else j \<le> i))) \<or>
    ((\<forall>j. \<not> sub_at hs j ns) \<and> str_finder self arg None None direction is_index = (if is_index then Inl ValueError else Inr (-1)))"
  by (rule str_finder_text [OF assms])

theorem str_find_characters_witness:
  "str_find \<lparr>base_type = mp_type_str, data = utf8_text [0xE9, 0x41, 0x20AC]\<rparr> (Str_arg \<lparr>base_type = mp_type_str, data = utf8_text [0x20AC]\<rparr>) None None = Inr 2"
proof -
  let ?hs = "[0xE9, 0x41, 0x20AC] :: unichar list"
  let ?r = "str_finder \<lparr>base_type = mp_type_str, data = utf8_text ?hs\<rparr> (Str_arg \<lparr>base_type = mp_type_str, data = utf8_text [0x20AC]\<rparr>) None None 1 False"
  have "(\<exists>i. ?r = Inr (int i) \<and> sub_at ?hs i [0x20AC] \<and> (\<forall>j. sub_at ?hs j [0x20AC] \<longrightarrow> (if (1 :: int) = 1 then i \<le> j else j \<le> i))) \<or>
    ((\<forall>j. \<not> sub_at ?hs j [0x20AC]) \<and> ?r = (if False then Inl ValueError else Inr (-1)))"
    by (rule str_find_characters) simp_all
  moreover have at2: "sub_at ?hs 2 [0x20AC]" by (simp add: sub_at_def)
  moreover have only: "i = 2" if "sub_at ?hs i [0x20AC]" for i
  proof -
    have "i < 3" using that by (simp add: sub_at_def)
    then have "i = 0 \<or> i = 1 \<or> i = 2" by linarith
    then show ?thesis using that by (auto simp: sub_at_def)
  qed
  ultimately obtain i where "?r = Inr (int i)" "sub_at ?hs i [0x20AC]" using at2 by blast
  then have "?r = Inr (int 2)" using only by blast
  then show ?thesis by (simp only: str_find_def of_nat_numeral)
qed

text \<open>C39: Splitting a string at a separator always succeeds, the pieces joined again by \<open>join\<close> give back the
  string, and without a limit no piece contains the separator, while a limit bounds the number of
  pieces.\<close>
theorem str_split_join:
  assumes "base_type sep = base_type self" "data sep \<noteq> []" "length (data self) + 1 < 2 ^ 32" "room E (length (data self) + 1)"
  shows "\<exists>ps. mp_obj_str_split self (Sep (Str_arg sep)) k = Inr ps \<and> str_join E sep (items_of sep ps) = Inr (data self) \<and>
    (if k < 0 then \<forall>x \<in> set ps. \<forall>m. \<not> occurs_at x m (data sep) else length ps \<le> nat k + 1)"
proof -
  let ?ps = "split_pieces (data self) (data sep) k 0"
  have "mp_obj_str_split self (Sep (Str_arg sep)) k = Inr ?ps" using assms(1,2) by (simp add: mp_obj_str_split_def split_pieces_def)
  moreover have "intercalate (data sep) ?ps = data self" using split_join [of 0 "data self" "data sep" k] assms(2) by simp
  then have "str_join E sep (items_of sep ?ps) = Inr (data self)" using str_join_intercalate [of sep ?ps E] assms(3,4) by simp
  moreover have "if k < 0 then \<forall>x \<in> set ?ps. \<forall>m. \<not> occurs_at x m (data sep) else length ?ps \<le> nat k + 1"
    using split_free [of 0 "data self" "data sep" k] split_limit [of 0 "data self" "data sep" k] assms(2) by simp
  ultimately show ?thesis by blast
qed

definition str_of :: "byte list \<Rightarrow> mp_obj_str" where
  "str_of d = \<lparr>base_type = mp_type_str, data = d\<rparr>"

theorem str_split_join_witness:
  "\<exists>ps. mp_obj_str_split (str_of [1, 9, 2, 9]) (Sep (Str_arg (str_of [9]))) (-1) = Inr ps \<and>
     str_join ample (str_of [9]) (items_of (str_of [9]) ps) = Inr (data (str_of [1, 9, 2, 9])) \<and>
     (if (-1 :: int) < 0 then \<forall>x \<in> set ps. \<forall>m. \<not> occurs_at x m (data (str_of [9])) else length ps \<le> nat (-1) + 1)"
  by (rule str_split_join) (simp_all add: str_of_def ample_def)

text \<open>C13: Replacing a non-empty substring, in two passes over the string and with a limit or without, is
  splitting at it and joining the pieces with the replacement, as long as the result fits in the
  memory; in particular the second pass writes exactly the buffer the first pass measured.\<close>
theorem str_replace_split_join:
  assumes "base_type old = base_type self" "base_type new = base_type self" "data old \<noteq> []"
    and "length (data self) < 2 ^ 32 - 1" "\<forall>m. count = Some m \<longrightarrow> m < 2 ^ 31"
    and "mp_obj_str_split self (Sep (Str_arg old)) (count_limit count) = Inr ps"
    and "length (intercalate (data new) ps) + 1 < 2 ^ 32" "room E (length (intercalate (data new) ps) + 1)"
  shows "str_replace E self (Str_arg old) (Str_arg new) count = str_join E new (items_of new ps)"
proof -
  have ps: "ps = split_pieces (data self) (data old) (count_limit count) 0"
    using assms(1,3,6) by (simp add: mp_obj_str_split_def split_pieces_def)
  have "str_replace E self (Str_arg old) (Str_arg new) count = Inr (intercalate (data new) ps)"
    using assms(1-5,7,8) ps by (intro str_replace_pieces) simp_all
  moreover have "str_join E new (items_of new ps) = Inr (intercalate (data new) ps)"
    by (rule str_join_intercalate) (use assms(7,8) in simp_all)
  ultimately show ?thesis by simp
qed

theorem str_replace_split_join_witness:
  "str_replace ample (str_of [1, 9, 2, 9]) (Str_arg (str_of [9])) (Str_arg (str_of [5, 5])) (Some 1) =
   str_join ample (str_of [5, 5]) (items_of (str_of [5, 5]) [[1], [2, 9]])"
proof (rule str_replace_split_join)
  show "mp_obj_str_split (str_of [1, 9, 2, 9]) (Sep (Str_arg (str_of [9]))) (count_limit (Some 1)) = Inr [[1], [2, 9]]"
    by code_simp
qed (simp_all add: str_of_def ample_def)

text \<open>Stripping removes from the chosen ends exactly the longest runs of bytes of the given set.\<close>
theorem str_strip_bytes:
  assumes "(case arg of None \<Rightarrow> Inr whitespace | Some a \<Rightarrow> same_type_data self a) = Inr chars"
  shows "str_uni_strip type self arg = Inr (stripped type chars (data self))"
  by (rule strip_correct [OF assms])

theorem str_strip_bytes_witness:
  "str_uni_strip STRIP (str_of [0x20, 0x41, 0x20, 0x42, 0x0a]) None = Inr (stripped STRIP whitespace (data (str_of [0x20, 0x41, 0x20, 0x42, 0x0a])))"
  by (rule str_strip_bytes) simp

text \<open>The case of letters as the alphabet has it: a capital and the small letter at the same place.\<close>

definition capitals :: "unichar list" where
  "capitals = map of_char ''ABCDEFGHIJKLMNOPQRSTUVWXYZ''"

definition smalls :: "unichar list" where
  "smalls = map of_char ''abcdefghijklmnopqrstuvwxyz''"

definition exchange :: "unichar list \<Rightarrow> unichar list \<Rightarrow> unichar \<Rightarrow> unichar" where
  "exchange xs ys c = (case map_of (zip xs ys) c of Some d \<Rightarrow> d | None \<Rightarrow> c)"

lemma exchange_outside:
  assumes "list_all (\<lambda>x. x < 128) xs" "\<not> c < 128"
  shows "exchange xs ys c = c"
proof -
  have "c \<notin> fst ` set (zip xs ys)" using assms by (auto simp: list_all_iff dest: set_zip_leftD)
  then show ?thesis by (simp add: exchange_def map_of_eq_None_iff [THEN iffD2])
qed

lemma case_of_letters: "unichar_tolower = exchange capitals smalls" "unichar_toupper = exchange smalls capitals"
proof -
  have lower: "list_all (\<lambda>c. unichar_tolower c = exchange capitals smalls c) (map of_nat [0..<128])" by code_simp
  have upper: "list_all (\<lambda>c. unichar_toupper c = exchange smalls capitals c) (map of_nat [0..<128])" by code_simp
  have ascii: "list_all (\<lambda>x. x < 128) capitals" "list_all (\<lambda>x. x < 128) smalls" by code_simp+
  show "unichar_tolower = exchange capitals smalls"
  proof
    show "unichar_tolower c = exchange capitals smalls c" for c
      using below_128 [OF _ lower] exchange_outside [OF ascii(1), of c smalls]
      by (cases "c < 128") (simp_all add: unichar_tolower_def unichar_isupper_def)
  qed
  show "unichar_toupper = exchange smalls capitals"
  proof
    show "unichar_toupper c = exchange smalls capitals c" for c
      using below_128 [OF _ upper] exchange_outside [OF ascii(2), of c capitals]
      by (cases "c < 128") (simp_all add: unichar_toupper_def unichar_islower_def)
  qed
qed

text \<open>C40: \<open>lower\<close> and \<open>upper\<close> exchange the capital and the small letters of the alphabet from A to Z and leave
  every other character alone: on UTF-8 data the result is the UTF-8 data of the characters so
  changed, and these are characters again. The heap has room for the result.\<close>
theorem str_case_text:
  assumes "code_points cs" "base_type self = mp_type_str" "data self = utf8_text cs"
    and "length (utf8_text cs) + 1 < 2 ^ 32" "room E (length (utf8_text cs) + 1)"
  shows "str_lower E self = Inr (utf8_text (map (exchange capitals smalls) cs)) \<and> code_points (map (exchange capitals smalls) cs) \<and>
    str_upper E self = Inr (utf8_text (map (exchange smalls capitals) cs)) \<and> code_points (map (exchange smalls capitals) cs)"
  using caseconv_bytes [of self E] assms ascii_only_case case_text case_code_points
  unfolding case_of_letters [symmetric] by (simp add: str_lower_def str_upper_def)

theorem str_case_text_witness:
  "str_upper ample (str_of (utf8_text [0x61, 0xE9])) = Inr (utf8_text [0x41, 0xE9])"
proof -
  have "str_upper ample (str_of (utf8_text [0x61, 0xE9])) = Inr (utf8_text (map (exchange smalls capitals) [0x61, 0xE9]))"
    by (rule conjunct1 [OF conjunct2 [OF conjunct2 [OF str_case_text]]])
      (simp_all add: str_of_def ample_def utf8_char_def utf8_of_def)
  moreover have "map (exchange smalls capitals) [0x61, 0xE9] = [0x41, 0xE9]" by code_simp
  ultimately show ?thesis by simp
qed

section \<open>Where the code does not keep to its contract\<close>

text \<open>A step close to the largest machine integer makes the next position wrap around: the loop goes on
  with a negative position and reads outside the sequence.\<close>
lemma slice_step_overflows:
  "res_bind (mp_seq_get_fast_slice_indexes 3 \<lparr>ostart = Small_int 1, ostop = None_obj 0, ostep = Int_obj 7 0x7fffffff\<rparr>)
     (\<lambda>(fast, ix). mp_seq_extract_slice [10, 11, 12 :: nat] ix) = Inl Out_of_bounds"
  by code_simp

text \<open>With a decreasing step the largest machine integer as stop wraps around as well: the slice from the
  third element down to that position, which is empty, is the whole sequence.\<close>
lemma slice_stop_overflows:
  "res_bind (mp_seq_get_fast_slice_indexes 3 \<lparr>ostart = Small_int 2, ostop = Int_obj 7 0x7fffffff, ostep = Small_int (-1)\<rparr>)
     (\<lambda>(fast, ix). mp_seq_extract_slice [10, 11, 12 :: nat] ix) = Inr [12, 11, 10]"
  "py_slice [10, 11, 12 :: nat] (Some 2) (Some 0x7fffffff) (-1) = []"
  by code_simp+

text \<open>The validity check takes any byte from 0x80 up as a continuation byte, so it accepts a lead byte
  followed by another lead byte.\<close>
lemma utf8_check_accepts_lead_as_continuation:
  "utf8_check [0xC3, 0xC3]" "\<not> UTF8_IS_CONT 0xC3" "\<forall>cs. code_points cs \<longrightarrow> utf8_text cs \<noteq> [0xC3, 0xC3]"
proof -
  show "utf8_check [0xC3, 0xC3]" by code_simp
  show c: "\<not> UTF8_IS_CONT 0xC3" by code_simp
  show "\<forall>cs. code_points cs \<longrightarrow> utf8_text cs \<noteq> [0xC3, 0xC3]"
  proof (intro allI impI notI)
    fix cs assume cs: "code_points cs" "utf8_text cs = [0xC3, 0xC3]"
    then obtain d ds where d: "cs = d # ds" "d < 0x110000" by (cases cs) auto
    then have e: "utf8_char d @ utf8_text ds = [0xC3, 0xC3]" using cs(2) by simp
    then have "hd (utf8_char d) = 0xC3" using utf8_char_nonempty [of d] by (cases "utf8_char d") auto
    then have "length (utf8_char d) = lead_count 0xC3 0x40 1" using lead_length [OF d(2)] by (simp add: UTF8_IS_NONASCII_def)
    moreover have "lead_count 0xC3 0x40 1 = 2" by code_simp
    ultimately have "utf8_char d = [0xC3, 0xC3]" using e by (cases "utf8_char d"; cases "tl (utf8_char d)") auto
    then show False using c by (rule_tac utf8_char_shape [OF d(2), of "[]"]) auto
  qed
qed

text \<open>Counting in bytes moves by UTF-8 characters, so an occurrence after another byte is missed.\<close>
lemma bytes_count_misses:
  "str_count \<lparr>base_type = mp_type_bytes, data = [0x01, 0x80]\<rparr> (Str_arg \<lparr>base_type = mp_type_bytes, data = [0x80]\<rparr>) None None = Inr 0"
  by code_simp

text \<open>Counting the empty string in an empty range whose end is before its start gives one.\<close>
lemma count_empty_backwards:
  "str_count (str_of [0x61, 0x62]) (Str_arg (str_of [])) (Some (Small_int 2)) (Some (Small_int 1)) = Inr 1"
  by code_simp

text \<open>A negative width is taken as a huge one: the size wraps to one byte and the padding is written far
  outside the buffer.\<close>
lemma center_negative_width:
  assumes "length (data self) < 2 ^ 32 - 1" "room E 1"
  shows "str_center E self (-1) = Inl Out_of_bounds"
proof -
  have u: "unat (of_nat (length (data self)) :: 32 word) = length (data self)" using assms(1) by (simp add: unat_of_nat)
  have m: "unat (-1 :: 32 word) = 2 ^ 32 - 1" by (simp add: unsigned_minus_1_eq_mask mask_eq_exp_minus_1)
  then have "\<not> (of_nat (length (data self)) :: 32 word) \<ge> -1" using u assms(1) by (simp add: word_le_nat_alt)
  moreover have "vstr_init_len E (-1) = Inr \<lparr>alloc = 1, len = -1, buf = [fresh E 0], fixed_buf = False\<rparr>"
    using assms(2) by (simp add: vstr_init_len_def vstr_init_def m_new_def)
  moreover have "put_bytes b 0 (replicate (unat (-1 :: 32 word)) 0x20) = Inl Out_of_bounds" if "length b = 1" for b
    using that by (simp add: put_bytes_def m)
  ultimately show ?thesis by (simp add: str_center_def)
qed

text \<open>The size of a repeated string wraps: eight bytes repeated 2 to the 29 plus one times are written to
  a buffer of nine bytes.\<close>
lemma multiply_overflows:
  assumes "length (data self) = 8" "room E 9"
  shows "str_multiply E self 0x20000001 = Inl Out_of_bounds"
proof -
  have l: "of_nat (length (data self)) * word_of_int 0x20000001 = (8 :: 32 word)" using assms(1) by simp
  have "vstr_init_len E 8 = Inr \<lparr>alloc = 9, len = 8, buf = map (fresh E) [0..<9], fixed_buf = False\<rparr>"
    using assms(2) vstr_init_len_fits [of 8 E] by simp
  moreover have "mp_seq_multiply (data self) (nat 0x20000001) 0 b = Inl Out_of_bounds" if "length b = 9" for b
  proof -
    have full: "mp_seq_multiply (data self) (Suc n) 8 b' = Inl Out_of_bounds" if "length b' = 9" for n b'
      using assms(1) that by (simp add: put_bytes_def)
    have "mp_seq_multiply (data self) (Suc (Suc n)) 0 b = mp_seq_multiply (data self) (Suc n) 8 (data self @ drop 8 b)" for n
      using assms(1) that by (simp add: put_bytes_def)
    then have two: "mp_seq_multiply (data self) (Suc (Suc n)) 0 b = Inl Out_of_bounds" for n using full assms(1) that by simp
    show ?thesis using two [where n = "0x1FFFFFFF"] by simp
  qed
  ultimately show ?thesis unfolding str_multiply_def l by simp
qed

text \<open>The list a limited split from the right allocates first has a size that wraps to zero.\<close>
lemma rsplit_limit_overflows:
  assumes "room E 0"
  shows "str_rsplit E (str_of [0x61]) (Sep (Str_arg (str_of [0x2C]))) (Some 0x3FFFFFFF) = Inl Out_of_bounds"
proof -
  have "of_nat 0x40000000 * 4 = (0 :: 32 word)" by simp
  then have n: "new_list_items E 0x40000000 = Inr []" using assms by (simp add: new_list_items_def)
  have "rsplit_scan [0x61] [0x2C] 0x3FFFFFFF 0 = -1" by code_simp
  then have "rsplit_loop [0x61] [0x2C] (Suc 0x3FFFFFFE) 1 0x3FFFFFFF [] = Inl Out_of_bounds"
    by (simp only: rsplit_loop.simps) (simp add: put_item_def)
  then show ?thesis using n by (simp add: str_rsplit_def str_of_def)
qed

text \<open>Stripping works on bytes: taking the characters of a set of one letter with accent off another
  leaves a continuation byte, and replacing the empty string cuts characters apart.\<close>
lemma strip_breaks_characters:
  "str_strip (str_of (utf8_text [0xE9])) (Some (Str_arg (str_of (utf8_text [0xE8])))) = Inr [0xA9]"
  by code_simp

lemma replace_empty_breaks_characters:
  "str_replace ample (str_of (utf8_text [0xE9])) (Str_arg (str_of [])) (Str_arg (str_of [0x2D])) None = Inr [0x2D, 0xC3, 0x2D, 0xA9, 0x2D]"
  by code_simp

text \<open>Inserting a character writes the low byte of its code point.\<close>
lemma ins_char_low_byte:
  "vstr_ins_char ample 0 0x20AC empty_vstr = Inr \<lparr>alloc = 1, len = 1, buf = [0xAC], fixed_buf = False\<rparr>"
  by code_simp

end
