(* ===== verification/Py_Quicksort.thy ===== *)
theory Py_Quicksort
  imports Main "HOL-Library.Multiset"
begin

text \<open>
  The sort of list objects (\<open>mp_quicksort\<close> of \<open>py/objlist.c\<close>): partition around the last element with
  two scans that stop at each other, a recursive call for the smaller part and a loop for the other.
  The array is a list and the pointers into it are integers, since the first scan starts one before
  the range. The key function and the comparison are code of the Python program: they are arguments,
  which answer an object or raise (\<open>None\<close>), and are taken not to change the array. The stack check
  at the entry of the routine is the number of calls that may be nested.

  The result is the array, which is changed in place also when the sort is left by an exception, and
  whether the routine returned. The lemmas: whatever the comparisons answer the array is a
  permutation (\<open>sort_permutes\<close>); when they answer as an order does and there is room for
  logarithmically many nested calls, the routine returns and computes \<open>pure_sort\<close>, the same
  algorithm over a comparison that always answers (\<open>sort_is_pure\<close>), which sorts (\<open>quicksort_sorts\<close>).
\<close>

section \<open>The routine\<close>

record 'a sort_by =
  key_fn :: "('a \<Rightarrow> 'a option) option"
  less_op :: "'a \<Rightarrow> 'a \<Rightarrow> 'a option"
  less_result :: 'a

definition key_of :: "'a sort_by \<Rightarrow> 'a \<Rightarrow> 'a option" where
  "key_of s x = (case key_fn s of None \<Rightarrow> Some x | Some f \<Rightarrow> f x)"

text \<open>The tests of the two scans: the key of an element against the key of the pivot.\<close>

definition up_test :: "'a sort_by \<Rightarrow> 'a \<Rightarrow> 'a \<Rightarrow> bool option" where
  "up_test s x v = (case key_of s x of None \<Rightarrow> None | Some k \<Rightarrow> map_option (\<lambda>r. r = less_result s) (less_op s k v))"

definition down_test :: "'a sort_by \<Rightarrow> 'a \<Rightarrow> 'a \<Rightarrow> bool option" where
  "down_test s v x = (case key_of s x of None \<Rightarrow> None | Some k \<Rightarrow> map_option (\<lambda>r. r = less_result s) (less_op s v k))"

function scan_up :: "'a sort_by \<Rightarrow> 'a list \<Rightarrow> 'a \<Rightarrow> int \<Rightarrow> int \<Rightarrow> int option" where
  "scan_up s a v h t =
     (let h = h + 1
      in if h < t
         then case up_test s (a ! nat h) v of
                None \<Rightarrow> None
              | Some go_on \<Rightarrow> if go_on then scan_up s a v h t else Some h
         else Some h)"
  by pat_completeness auto
termination by (relation "measure (\<lambda>(s, a, v, h, t). nat (t - h))") auto

function scan_down :: "'a sort_by \<Rightarrow> 'a list \<Rightarrow> 'a \<Rightarrow> int \<Rightarrow> int \<Rightarrow> int option" where
  "scan_down s a v h t =
     (let t = t - 1
      in if h < t
         then case down_test s v (a ! nat t) of
                None \<Rightarrow> None
              | Some go_on \<Rightarrow> if go_on then scan_down s a v h t else Some t
         else Some t)"
  by pat_completeness auto
termination by (relation "measure (\<lambda>(s, a, v, h, t). nat (t - h))") auto

declare scan_up.simps [simp del] scan_down.simps [simp del]

definition swap :: "'a list \<Rightarrow> int \<Rightarrow> int \<Rightarrow> 'a list" where
  "swap a i j = a[nat i := a ! nat j, nat j := a ! nat i]"

lemma scan_up_bounds: "scan_up s a v h t = Some h' \<Longrightarrow> h < t \<Longrightarrow> h < h' \<and> h' \<le> t"
proof (induction s a v h t rule: scan_up.induct)
  case (1 s a v h t)
  then show ?case using scan_up.simps [of s a v h t] by (fastforce simp: Let_def split: if_splits option.splits)
qed

lemma scan_down_bounds: "scan_down s a v h t = Some t' \<Longrightarrow> h \<le> t \<Longrightarrow> t' < t \<and> h - 1 \<le> t'"
proof (induction s a v h t rule: scan_down.induct)
  case (1 s a v h t)
  then show ?case using scan_down.simps [of s a v h t] by (fastforce simp: Let_def split: if_splits option.splits)
qed

text \<open>Two scans that have not met have at least come closer.\<close>

lemma scans_approach:
  assumes "scan_up s a v h t = Some h'" "scan_down s a v h' t = Some t'" "h' < t'"
  shows "h < t \<and> h < h' \<and> t' < t"
proof -
  have "h < t"
  proof (rule ccontr)
    assume "\<not> h < t"
    then have h': "h' = h + 1" using assms(1) by (simp add: scan_up.simps Let_def)
    then have "t' = t - 1" using assms(2) \<open>\<not> h < t\<close> by (simp add: scan_down.simps Let_def)
    then show False using assms(3) h' \<open>\<not> h < t\<close> by simp
  qed
  then show ?thesis using scan_up_bounds [OF assms(1)] scan_down_bounds [OF assms(2)] by simp
qed

function partition_loop :: "'a sort_by \<Rightarrow> 'a \<Rightarrow> 'a list \<Rightarrow> int \<Rightarrow> int \<Rightarrow> 'a list \<times> (int \<times> int) option" where
  "partition_loop s v a h t =
     (case scan_up s a v h t of
        None \<Rightarrow> (a, None)
      | Some h' \<Rightarrow>
          (case scan_down s a v h' t of
             None \<Rightarrow> (a, None)
           | Some t' \<Rightarrow> if h' \<ge> t' then (a, Some (h', t')) else partition_loop s v (swap a h' t') h' t'))"
  by pat_completeness auto
termination
  by (relation "measure (\<lambda>(s, v, a, h, t). nat (t - h))") (use scans_approach in fastforce)+

declare partition_loop.simps [simp del]

lemma partition_bounds:
  "partition_loop s v a h t = (a', Some (h', t')) \<Longrightarrow> h < t \<Longrightarrow> h < h' \<and> h' \<le> t \<and> t' < t \<and> t' \<le> h' \<and> h' - 1 \<le> t'"
proof (induction s v a h t rule: partition_loop.induct)
  case (1 s v a h t)
  obtain p q where pq: "scan_up s a v h t = Some p" "scan_down s a v p t = Some q"
    using 1(2) partition_loop.simps [of s v a h t] by (auto split: option.splits)
  have p: "h < p" "p \<le> t" using scan_up_bounds [OF pq(1) 1(3)] by simp_all
  have q: "q < t" "p - 1 \<le> q" using scan_down_bounds [OF pq(2) p(2)] by simp_all
  show ?case
  proof (cases "p \<ge> q")
    case True
    then show ?thesis using 1(2) partition_loop.simps [of s v a h t] pq p q by simp
  next
    case False
    then have "partition_loop s v (swap a p q) p q = (a', Some (h', t'))"
      using 1(2) partition_loop.simps [of s v a h t] pq by simp
    then show ?thesis using 1(1) [OF pq] False p q by fastforce
  qed
qed

lemma parts_smaller:
  assumes "(a', Some (h, t)) = partition_loop s v a (head - 1) tail" "head < tail"
  shows "nat (t - head) < nat (tail - head)" "nat (tail - (h + 1)) < nat (tail - head)"
  using partition_bounds [OF assms(1) [symmetric]] assms(2) by auto

text \<open>\<open>room\<close> is what the stack check leaves: the calls that may be nested, this one included.\<close>

function mp_quicksort :: "'a sort_by \<Rightarrow> nat \<Rightarrow> 'a list \<Rightarrow> int \<Rightarrow> int \<Rightarrow> 'a list \<times> bool"
  and quicksort_loop :: "'a sort_by \<Rightarrow> nat \<Rightarrow> 'a list \<Rightarrow> int \<Rightarrow> int \<Rightarrow> 'a list \<times> bool" where
  "mp_quicksort s room a head tail = (if room = 0 then (a, False) else quicksort_loop s room a head tail)"
| "quicksort_loop s room a head tail =
     (if head < tail
      then (case key_of s (a ! nat tail) of
              None \<Rightarrow> (a, False)
            | Some v \<Rightarrow>
                (case partition_loop s v a (head - 1) tail of
                   (a, None) \<Rightarrow> (a, False)
                 | (a, Some (h, t)) \<Rightarrow>
                     let a = swap a h tail
                     in if t - head < tail - h - 1
                        then (case mp_quicksort s (room - 1) a head t of
                                (a, returned) \<Rightarrow> if returned then quicksort_loop s room a (h + 1) tail else (a, False))
                        else (case mp_quicksort s (room - 1) a (h + 1) tail of
                                (a, returned) \<Rightarrow> if returned then quicksort_loop s room a head t else (a, False))))
      else (a, True))"
  by pat_completeness auto
termination
proof (relation "measures [\<lambda>x. case x of Inl (s, r, a, head, tail) \<Rightarrow> nat (tail - head) | Inr (s, r, a, head, tail) \<Rightarrow> nat (tail - head),
    \<lambda>x. case x of Inl _ \<Rightarrow> 1 | Inr _ \<Rightarrow> 0]")
qed (auto dest: parts_smaller)

declare mp_quicksort.simps [simp del] quicksort_loop.simps [simp del]

section \<open>The same routine over comparisons that always answer\<close>

function pure_up :: "('a \<Rightarrow> 'a \<Rightarrow> bool) \<Rightarrow> 'a list \<Rightarrow> 'a \<Rightarrow> int \<Rightarrow> int \<Rightarrow> int" where
  "pure_up c a v h t = (let h = h + 1 in if h < t \<and> c (a ! nat h) v then pure_up c a v h t else h)"
  by pat_completeness auto
termination by (relation "measure (\<lambda>(c, a, v, h, t). nat (t - h))") auto

function pure_down :: "('a \<Rightarrow> 'a \<Rightarrow> bool) \<Rightarrow> 'a list \<Rightarrow> 'a \<Rightarrow> int \<Rightarrow> int \<Rightarrow> int" where
  "pure_down c a v h t = (let t = t - 1 in if h < t \<and> c v (a ! nat t) then pure_down c a v h t else t)"
  by pat_completeness auto
termination by (relation "measure (\<lambda>(c, a, v, h, t). nat (t - h))") auto

declare pure_up.simps [simp del] pure_down.simps [simp del]

lemma pure_up_bounds: "h < t \<Longrightarrow> h < pure_up c a v h t \<and> pure_up c a v h t \<le> t"
proof (induction c a v h t rule: pure_up.induct)
  case (1 c a v h t)
  then show ?case using pure_up.simps [of c a v h t] by (auto simp: Let_def)
qed

lemma pure_down_bounds: "h \<le> t \<Longrightarrow> pure_down c a v h t < t \<and> h - 1 \<le> pure_down c a v h t"
proof (induction c a v h t rule: pure_down.induct)
  case (1 c a v h t)
  then show ?case using pure_down.simps [of c a v h t] by (auto simp: Let_def)
qed

function pure_partition :: "('a \<Rightarrow> 'a \<Rightarrow> bool) \<Rightarrow> 'a \<Rightarrow> 'a list \<Rightarrow> int \<Rightarrow> int \<Rightarrow> 'a list \<times> int \<times> int" where
  "pure_partition c v a h t =
     (let h' = pure_up c a v h t; t' = pure_down c a v h' t
      in if h' \<ge> t' then (a, h', t') else pure_partition c v (swap a h' t') h' t')"
  by pat_completeness auto
termination
proof (relation "measure (\<lambda>(c, v, a, h, t). nat (t - h))")
  fix c v and a :: "'a list" and h t h' t' :: int
  assume a: "h' = pure_up c a v h t" "t' = pure_down c a v h' t" "\<not> t' \<le> h'"
  have "h < t"
  proof (rule ccontr)
    assume "\<not> h < t"
    then have h': "h' = h + 1" using a(1) by (simp add: pure_up.simps Let_def)
    then have "t' = t - 1" using a(2) \<open>\<not> h < t\<close> by (simp add: pure_down.simps Let_def)
    then show False using a(3) h' \<open>\<not> h < t\<close> by simp
  qed
  then have "h < h'" "h' \<le> t" using pure_up_bounds [of h t c a v] a(1) by simp_all
  moreover have "t' < t" using pure_down_bounds [of h' t c a v] a(2) calculation(2) by simp
  ultimately show "((c, v, swap a h' t', h', t'), (c, v, a, h, t)) \<in> measure (\<lambda>(c, v, a, h, t). nat (t - h))"
    using a(3) by simp
qed simp

declare pure_partition.simps [simp del]

lemma pure_partition_bounds:
  "pure_partition c v a h t = (a', h', t') \<Longrightarrow> h < t \<Longrightarrow> h < h' \<and> h' \<le> t \<and> t' < t \<and> t' \<le> h' \<and> h' - 1 \<le> t'"
proof (induction c v a h t rule: pure_partition.induct)
  case (1 c v a h t)
  define p where "p = pure_up c a v h t"
  define q where "q = pure_down c a v p t"
  have p: "h < p" "p \<le> t" using pure_up_bounds [OF 1(3), of c a v] by (simp_all add: p_def)
  have q: "q < t" "p - 1 \<le> q" using pure_down_bounds [OF p(2), of c a v] by (simp_all add: q_def)
  show ?case
  proof (cases "p \<ge> q")
    case True
    then have "(a', h', t') = (a, p, q)" using 1(2) pure_partition.simps [of c v a h t] by (simp add: Let_def p_def [symmetric] q_def [symmetric])
    then show ?thesis using p q True by simp
  next
    case False
    then have "pure_partition c v (swap a p q) p q = (a', h', t')"
      using 1(2) pure_partition.simps [of c v a h t] by (simp add: Let_def p_def [symmetric] q_def [symmetric])
    then show ?thesis using 1(1) [OF p_def q_def] False p q by fastforce
  qed
qed

text \<open>The array after the pivot is put in its place, and the ends of the two parts.\<close>

definition pure_split :: "('a \<Rightarrow> 'a \<Rightarrow> bool) \<Rightarrow> 'a list \<Rightarrow> int \<Rightarrow> int \<Rightarrow> 'a list \<times> int \<times> int" where
  "pure_split c a head tail =
     (let (a, h, t) = pure_partition c (a ! nat tail) a (head - 1) tail in (swap a h tail, h, t))"

function pure_sort :: "('a \<Rightarrow> 'a \<Rightarrow> bool) \<Rightarrow> 'a list \<Rightarrow> int \<Rightarrow> int \<Rightarrow> 'a list" where
  "pure_sort c a head tail =
     (if head < tail
      then let (a, h, t) = pure_split c a head tail
           in if t - head < tail - h - 1
              then pure_sort c (pure_sort c a head t) (h + 1) tail
              else pure_sort c (pure_sort c a (h + 1) tail) head t
      else a)"
  by pat_completeness auto
termination
proof (relation "measure (\<lambda>(c, a, head, tail). nat (tail - head))")
  fix c and a a1 :: "'a list" and head tail h t :: int and x y
  assume "head < tail" "x = pure_split c a head tail" "(a1, y) = x" "(h, t) = y"
  then have "head - 1 < h \<and> h \<le> tail \<and> t < tail"
    using pure_partition_bounds [of c "a ! nat tail" a "head - 1" tail] by (auto simp: pure_split_def split: prod.splits)
  then show "((c, a1, head, t), (c, a, head, tail)) \<in> measure (\<lambda>(c, a, head, tail). nat (tail - head))"
    and "((c, a1, h + 1, tail), (c, a, head, tail)) \<in> measure (\<lambda>(c, a, head, tail). nat (tail - head))"
    and "((c, a', h + 1, tail), (c, a, head, tail)) \<in> measure (\<lambda>(c, a, head, tail). nat (tail - head))"
    and "((c, a', head, t), (c, a, head, tail)) \<in> measure (\<lambda>(c, a, head, tail). nat (tail - head))" for a'
    using \<open>head < tail\<close> by auto
qed auto

declare pure_sort.simps [simp del]

section \<open>Rearrangements of a range\<close>

definition elem :: "'a list \<Rightarrow> int \<Rightarrow> 'a" where
  "elem a i = a ! nat i"

definition rearranged :: "int \<Rightarrow> int \<Rightarrow> 'a list \<Rightarrow> 'a list \<Rightarrow> bool" where
  "rearranged lo hi a a' \<longleftrightarrow> length a' = length a \<and> mset a' = mset a \<and>
     (\<forall>i. 0 \<le> i \<and> i < int (length a) \<and> \<not> (lo \<le> i \<and> i \<le> hi) \<longrightarrow> elem a' i = elem a i) \<and>
     elem a' ` {lo..hi} \<subseteq> elem a ` {lo..hi}"

lemma rearranged_refl [simp]: "rearranged lo hi a a"
  by (simp add: rearranged_def)

lemma rearranged_trans: "rearranged lo hi a b \<Longrightarrow> rearranged lo hi b d \<Longrightarrow> rearranged lo hi a d"
  unfolding rearranged_def by (metis (no_types, lifting) subset_trans)

lemma rearranged_wider:
  assumes "rearranged lo' hi' a a'" "lo \<le> lo'" "hi' \<le> hi" "0 \<le> lo" "hi < int (length a)"
  shows "rearranged lo hi a a'"
proof -
  have "elem a' i \<in> elem a ` {lo..hi}" if "lo \<le> i" "i \<le> hi" for i
  proof (cases "lo' \<le> i \<and> i \<le> hi'")
    case True
    then have "elem a' i \<in> elem a ` {lo'..hi'}" using assms(1) by (auto simp: rearranged_def)
    then show ?thesis using assms(2,3) by auto
  next
    case False
    then show ?thesis using assms that by (auto simp: rearranged_def)
  qed
  then show ?thesis using assms by (auto simp: rearranged_def)
qed

lemma elem_swap:
  assumes "0 \<le> i" "i < int (length a)" "0 \<le> j" "j < int (length a)" "0 \<le> k" "k < int (length a)"
  shows "elem (swap a i j) k = (if k = i then elem a j else if k = j then elem a i else elem a k)"
  using assms by (auto simp: elem_def swap_def nth_list_update eq_nat_nat_iff)

lemma swap_rearranged:
  assumes "lo \<le> i" "i \<le> hi" "lo \<le> j" "j \<le> hi" "0 \<le> lo" "hi < int (length a)"
  shows "rearranged lo hi a (swap a i j)"
proof -
  have l: "length (swap a i j) = length a" by (simp add: swap_def)
  have "mset (swap a i j) = mset a" unfolding swap_def using assms by (intro mset_swap) simp_all
  moreover have "elem (swap a i j) ` {lo..hi} \<subseteq> elem a ` {lo..hi}"
  proof
    fix x assume "x \<in> elem (swap a i j) ` {lo..hi}"
    then obtain k where k: "lo \<le> k" "k \<le> hi" "x = elem (swap a i j) k" by auto
    then have "x = elem a j \<or> x = elem a i \<or> x = elem a k" using elem_swap [of i a j k] assms by auto
    then show "x \<in> elem a ` {lo..hi}" using assms k by auto
  qed
  ultimately show ?thesis using l elem_swap [of i a j] assms by (auto simp: rearranged_def)
qed

section \<open>Orders and comparisons\<close>

text \<open>
  What the sort needs of the comparison: an order in which a true answer puts the first element
  before the second, and a false one the second before the first.
\<close>

locale sort_order =
  fixes c :: "'a \<Rightarrow> 'a \<Rightarrow> bool" and le :: "'a \<Rightarrow> 'a \<Rightarrow> bool"
  assumes le_trans: "le x y \<Longrightarrow> le y z \<Longrightarrow> le x z"
    and before: "c x y \<Longrightarrow> le x y"
    and after: "\<not> c x y \<Longrightarrow> le y x"
begin

lemma pure_up_passes:
  "h < t \<Longrightarrow> (\<forall>i. h < i \<and> i < pure_up c a v h t \<longrightarrow> le (elem a i) v) \<and> (pure_up c a v h t < t \<longrightarrow> le v (elem a (pure_up c a v h t)))"
proof (induction "nat (t - h)" arbitrary: h rule: less_induct)
  case less
  show ?case
  proof (cases "h + 1 < t \<and> c (elem a (h + 1)) v")
    case True
    then have e: "pure_up c a v h t = pure_up c a v (h + 1) t" by (subst pure_up.simps) (simp add: Let_def elem_def)
    have first: "le (elem a (h + 1)) v" using True before by blast
    have "nat (t - (h + 1)) < nat (t - h)" using True by simp
    then have ih: "(\<forall>i. h + 1 < i \<and> i < pure_up c a v (h + 1) t \<longrightarrow> le (elem a i) v) \<and>
        (pure_up c a v (h + 1) t < t \<longrightarrow> le v (elem a (pure_up c a v (h + 1) t)))" using less.hyps [of "h + 1"] True by blast
    have "le (elem a i) v" if "h < i" "i < pure_up c a v (h + 1) t" for i
      using that ih first by (cases "i = h + 1") auto
    then show ?thesis unfolding e using ih by blast
  next
    case False
    then have "pure_up c a v h t = h + 1" by (subst pure_up.simps) (auto simp: Let_def elem_def)
    then show ?thesis using False after less.prems by auto
  qed
qed

lemma pure_down_passes:
  "h \<le> t \<Longrightarrow> (\<forall>i. pure_down c a v h t < i \<and> i < t \<longrightarrow> le v (elem a i)) \<and> (h < pure_down c a v h t \<longrightarrow> le (elem a (pure_down c a v h t)) v)"
proof (induction "nat (t - h)" arbitrary: t rule: less_induct)
  case less
  show ?case
  proof (cases "h < t - 1 \<and> c v (elem a (t - 1))")
    case True
    then have e: "pure_down c a v h t = pure_down c a v h (t - 1)" by (subst pure_down.simps) (simp add: Let_def elem_def)
    have last: "le v (elem a (t - 1))" using True before by blast
    have "nat (t - 1 - h) < nat (t - h)" "h \<le> t - 1" using True by simp_all
    then have ih: "(\<forall>i. pure_down c a v h (t - 1) < i \<and> i < t - 1 \<longrightarrow> le v (elem a i)) \<and>
        (h < pure_down c a v h (t - 1) \<longrightarrow> le (elem a (pure_down c a v h (t - 1))) v)" using less.hyps [of "t - 1"] by blast
    have "le v (elem a i)" if "pure_down c a v h (t - 1) < i" "i < t" for i
      using that ih last by (cases "i = t - 1") auto
    then show ?thesis unfolding e using ih by blast
  next
    case False
    then have "pure_down c a v h t = t - 1" by (subst pure_down.simps) (auto simp: Let_def elem_def)
    then show ?thesis using False after less.prems by auto
  qed
qed

text \<open>The loop of the partition: what is before the scans and behind them.\<close>

lemma pure_partition_sides:
  assumes "head - 1 \<le> h" "h < t" "t \<le> tail" "0 \<le> head" "tail < int (length a)" "elem a tail = v"
    and "\<forall>i. head \<le> i \<and> i \<le> h \<longrightarrow> le (elem a i) v" "\<forall>i. t \<le> i \<and> i < tail \<longrightarrow> le v (elem a i)"
    and "pure_partition c v a h t = (a', p, q)"
  shows "rearranged head tail a a' \<and> elem a' tail = v \<and> (\<forall>i. head \<le> i \<and> i < p \<longrightarrow> le (elem a' i) v) \<and> (\<forall>i. p \<le> i \<and> i < tail \<longrightarrow> le v (elem a' i))"
  using assms
proof (induction "nat (t - h)" arbitrary: a h t rule: less_induct)
  case less
  define x where "x = pure_up c a v h t"
  define y where "y = pure_down c a v x t"
  note u = pure_up_bounds [OF less.prems(2), of c a v, folded x_def]
  note d = pure_down_bounds [OF conjunct2 [OF u], of c a v, folded y_def]
  note up = pure_up_passes [OF less.prems(2), of a v, folded x_def]
  note down = pure_down_passes [OF conjunct2 [OF u], of a v, folded y_def]
  have before_x: "le (elem a i) v" if "head \<le> i" "i < x" for i
    using up less.prems(7) that by (cases "i \<le> h") auto
  have x_side: "le v (elem a x)" if "x < tail" using up less.prems(8) that by (cases "x < t") auto
  have after_y: "le v (elem a i)" if "y < i" "i < tail" for i
    using down less.prems(8) that by (cases "i < t") auto
  show ?case
  proof (cases "x \<ge> y")
    case True
    then have e: "a' = a" "p = x" using less.prems(9) pure_partition.simps [of c v a h t] by (simp_all add: Let_def x_def [symmetric] y_def [symmetric])
    have "le v (elem a i)" if "x \<le> i" "i < tail" for i
      using x_side after_y that True by (cases "i = x") auto
    then show ?thesis using e before_x less.prems(6) by auto
  next
    case False
    have r: "pure_partition c v (swap a x y) x y = (a', p, q)"
      using False less.prems(9) pure_partition.simps [of c v a h t] by (simp add: Let_def x_def [symmetric] y_def [symmetric])
    have b: "head \<le> x" "x < y" "y < t" "y < tail" using u d False less.prems(1,3) by auto
    have s: "rearranged head tail a (swap a x y)" using b less.prems(4,5) by (intro swap_rearranged) auto
    then have l: "length (swap a x y) = length a" by (simp add: rearranged_def)
    have elem': "elem (swap a x y) k = (if k = x then elem a y else if k = y then elem a x else elem a k)" if "head \<le> k" "k \<le> tail" for k
      using that b less.prems(4,5) by (intro elem_swap) auto
    have "le (elem (swap a x y) i) v" if "head \<le> i" "i \<le> x" for i
      using elem' [of i] that b before_x [of i] down by auto
    moreover have "le v (elem (swap a x y) i)" if "y \<le> i" "i < tail" for i
      using elem' [of i] that b after_y [of i] x_side by auto
    moreover have "elem (swap a x y) tail = v" using elem' [of tail] b less.prems(6) by auto
    moreover have "nat (y - x) < nat (t - h)" "head - 1 \<le> x" "y \<le> tail" using b u less.prems(1) by auto
    ultimately have "rearranged head tail (swap a x y) a' \<and> elem a' tail = v \<and> (\<forall>i. head \<le> i \<and> i < p \<longrightarrow> le (elem a' i) v) \<and> (\<forall>i. p \<le> i \<and> i < tail \<longrightarrow> le v (elem a' i))"
      using less.hyps [of y x "swap a x y"] b(2) less.prems(4,5) l r by auto
    then show ?thesis using rearranged_trans [OF s] by blast
  qed
qed

lemma pure_split_sides:
  assumes "head < tail" "0 \<le> head" "tail < int (length a)" "pure_split c a head tail = (a', p, q)"
  shows "rearranged head tail a a'" "head \<le> p" "p \<le> tail" "q < tail" "q \<le> p" "p - 1 \<le> q"
    "head \<le> i \<Longrightarrow> i < p \<Longrightarrow> le (elem a' i) (elem a' p)" "p < i \<Longrightarrow> i \<le> tail \<Longrightarrow> le (elem a' p) (elem a' i)"
proof -
  define v where "v = elem a tail"
  obtain b where b: "pure_partition c v a (head - 1) tail = (b, p, q)" "a' = swap b p tail"
    using assms(4) by (auto simp: pure_split_def v_def elem_def split: prod.splits)
  have bd: "head - 1 < p \<and> p \<le> tail \<and> q < tail \<and> q \<le> p \<and> p - 1 \<le> q" using pure_partition_bounds [OF b(1)] assms(1) by simp
  then show "head \<le> p" "p \<le> tail" "q < tail" "q \<le> p" "p - 1 \<le> q" by simp_all
  have none: "\<forall>i. head \<le> i \<and> i \<le> head - 1 \<longrightarrow> le (elem a i) v" "\<forall>i. tail \<le> i \<and> i < tail \<longrightarrow> le v (elem a i)" by auto
  have sides: "rearranged head tail a b" "elem b tail = v" "\<forall>i. head \<le> i \<and> i < p \<longrightarrow> le (elem b i) v" "\<forall>i. p \<le> i \<and> i < tail \<longrightarrow> le v (elem b i)"
    using pure_partition_sides [OF _ _ _ assms(2,3) v_def [symmetric] none(1,2) b(1)] assms(1) by auto
  have l: "length b = length a" using sides(1) by (simp add: rearranged_def)
  have "rearranged head tail b a'" unfolding b(2) using bd assms l by (intro swap_rearranged) auto
  then show "rearranged head tail a a'" using rearranged_trans [OF sides(1)] by blast
  have elem': "elem a' k = (if k = p then v else if k = tail then elem b p else elem b k)" if "head \<le> k" "k \<le> tail" for k
    using elem_swap [of p b tail k] that bd assms l sides(2) by (auto simp: b(2))
  show "le (elem a' i) (elem a' p)" if "head \<le> i" "i < p" using elem' [of i] elem' [of p] that bd sides(3) by auto
  show "le (elem a' p) (elem a' i)" if "p < i" "i \<le> tail" using elem' [of i] elem' [of p] that bd sides(4) by auto
qed

text \<open>The order of a range, and how it follows from that of the two parts of the partition.\<close>

definition in_order :: "'a list \<Rightarrow> int \<Rightarrow> int \<Rightarrow> bool" where
  "in_order a lo hi \<longleftrightarrow> (\<forall>i j. lo \<le> i \<and> i < j \<and> j \<le> hi \<longrightarrow> le (elem a i) (elem a j))"

lemma le_refl: "le x x"
  using before after by blast

lemma parts_in_order:
  assumes "in_order d head q" "in_order d (p + 1) tail" "q = p \<or> (q = p - 1 \<and> elem d p = v)"
    and "\<And>i. head \<le> i \<Longrightarrow> i \<le> q \<Longrightarrow> le (elem d i) v" "\<And>i. p < i \<Longrightarrow> i \<le> tail \<Longrightarrow> le v (elem d i)"
  shows "in_order d head tail"
  unfolding in_order_def
proof (intro allI impI)
  fix i j assume ij: "head \<le> i \<and> i < j \<and> j \<le> tail"
  have upto_p: "le (elem d k) v" if "head \<le> k" "k \<le> p" for k
    using that assms(3) assms(4) [of k] le_refl by (cases "k \<le> q") auto
  show "le (elem d i) (elem d j)"
  proof (cases "j \<le> q \<or> p < i")
    case True
    then show ?thesis using assms(1,2) ij by (auto simp: in_order_def)
  next
    case False
    then have "le (elem d i) v" using upto_p [of i] ij by simp
    moreover have "le v (elem d j)"
    proof (cases "j = p")
      case True
      then show ?thesis using False assms(3) le_refl by auto
    next
      case ne: False
      then show ?thesis using False assms(3) assms(5) [of j] ij by auto
    qed
    ultimately show ?thesis using le_trans by blast
  qed
qed

text \<open>Rearranging two ranges one after the other, neither of which overlaps the other.\<close>

lemma disjoint_ranges:
  assumes "rearranged lo hi b m" "rearranged lo' hi' m d" "hi < lo' \<or> hi' < lo"
    and "0 \<le> lo" "hi < int (length b)" "0 \<le> lo'" "hi' < int (length b)"
  shows "lo \<le> i \<Longrightarrow> i \<le> hi \<Longrightarrow> elem d i \<in> elem b ` {lo..hi}"
    and "lo' \<le> i \<Longrightarrow> i \<le> hi' \<Longrightarrow> elem d i \<in> elem b ` {lo'..hi'}"
    and "in_order m lo hi \<Longrightarrow> in_order d lo hi"
proof -
  have l: "length m = length b" using assms(1) by (simp add: rearranged_def)
  have dm: "elem d k = elem m k" if "lo \<le> k" "k \<le> hi" for k using assms that l unfolding rearranged_def by auto
  have mb: "elem m k = elem b k" if "lo' \<le> k" "k \<le> hi'" for k using assms that unfolding rearranged_def by auto
  show "elem d i \<in> elem b ` {lo..hi}" if "lo \<le> i" "i \<le> hi" using dm [OF that] that assms(1) unfolding rearranged_def by auto
  show "elem d i \<in> elem b ` {lo'..hi'}" if "lo' \<le> i" "i \<le> hi'"
  proof -
    have "elem d i \<in> elem m ` {lo'..hi'}" using that assms(2) unfolding rearranged_def by auto
    also have "elem m ` {lo'..hi'} = elem b ` {lo'..hi'}" using mb by (intro image_cong) auto
    finally show ?thesis .
  qed
  show "in_order d lo hi" if "in_order m lo hi" using that dm by (simp add: in_order_def)
qed

text \<open>The two parts sorted one after the other, in either order, give the whole range.\<close>

lemma sorted_parts:
  assumes head: "head < tail" "0 \<le> head" "tail < int (length a)" and s: "pure_split c a head tail = (b, p, q)"
    and parts: "rearranged lo hi b m" "rearranged lo' hi' m d" "in_order m lo hi" "in_order d lo' hi'"
    and lh: "(lo, hi, lo', hi') = (head, q, p + 1, tail) \<or> (lo, hi, lo', hi') = (p + 1, tail, head, q)"
  shows "rearranged head tail a d \<and> in_order d head tail"
proof -
  note sides = pure_split_sides [OF head s]
  have lb: "length b = length a" using sides(1) by (simp add: rearranged_def)
  note bounds = head sides(2-6) lb
  have ranges: "hi < lo' \<or> hi' < lo" "0 \<le> lo" "hi < int (length b)" "0 \<le> lo'" "hi' < int (length b)"
    "head \<le> lo" "hi \<le> tail" "head \<le> lo'" "hi' \<le> tail" using lh bounds by auto
  note dis = disjoint_ranges [OF parts(1,2) ranges(1-5)]
  have lm: "length m = length b" using parts(1) by (simp add: rearranged_def)
  have "rearranged head tail b m" by (rule rearranged_wider [OF parts(1)]) (use ranges bounds in auto)
  moreover have "rearranged head tail m d" by (rule rearranged_wider [OF parts(2)]) (use ranges bounds lm in auto)
  ultimately have whole: "rearranged head tail a d" using rearranged_trans sides(1) by blast
  have orders: "in_order d head q" "in_order d (p + 1) tail" using dis(3) parts(3,4) lh by auto
  have left: "le (elem d i) (elem b p)" if "head \<le> i" "i \<le> q" for i
  proof -
    have "elem d i \<in> elem b ` {head..q}" using dis(1,2) [of i] lh that by auto
    then obtain k where "head \<le> k" "k \<le> q" "elem d i = elem b k" by auto
    then show ?thesis using sides(7) [of k] bounds le_refl by (cases "k = p") auto
  qed
  have right: "le (elem b p) (elem d i)" if "p < i" "i \<le> tail" for i
  proof -
    have "elem d i \<in> elem b ` {p + 1..tail}" using dis(1,2) [of i] lh that by auto
    then show ?thesis using sides(8) by auto
  qed
  have "elem d p = elem b p" if "q = p - 1"
  proof -
    have "elem d p = elem m p" using parts(2) lh that bounds lm unfolding rearranged_def by auto
    also have "\<dots> = elem b p" using parts(1) lh that bounds unfolding rearranged_def by auto
    finally show ?thesis .
  qed
  moreover have "q = p \<or> q = p - 1" using bounds by auto
  ultimately have "in_order d head tail" using parts_in_order [OF orders _ left right] by blast
  then show ?thesis using whole by blast
qed

text \<open>The range the sort was called for is rearranged and in order; nothing else of the array changes.\<close>

lemma quicksort_sorts:
  assumes "0 \<le> head" "tail < int (length a)"
  shows "rearranged head tail a (pure_sort c a head tail) \<and> in_order (pure_sort c a head tail) head tail"
  using assms
proof (induction "nat (tail - head)" arbitrary: a head tail rule: less_induct)
  case less
  show ?case
  proof (cases "head < tail")
    case False
    then show ?thesis by (subst (1 2) pure_sort.simps) (auto simp: in_order_def)
  next
    case True
    obtain b p q where s: "pure_split c a head tail = (b, p, q)" using prod_cases3 by blast
    note sides = pure_split_sides [OF True less.prems s]
    have lb: "length b = length a" using sides(1) by (simp add: rearranged_def)
    note bounds = True sides(2-6) less.prems lb
    note whole = sorted_parts [OF True less.prems s]
    have smaller: "nat (q - head) < nat (tail - head)" "nat (tail - (p + 1)) < nat (tail - head)" using bounds by auto
    have left: "rearranged head q x (pure_sort c x head q) \<and> in_order (pure_sort c x head q) head q"
      if "length x = length b" for x using less.hyps [OF smaller(1), of x] bounds that by auto
    have right: "rearranged (p + 1) tail x (pure_sort c x (p + 1) tail) \<and> in_order (pure_sort c x (p + 1) tail) (p + 1) tail"
      if "length x = length b" for x using less.hyps [OF smaller(2), of x] bounds that by auto
    have keep: "length (pure_sort c b head q) = length b" "length (pure_sort c b (p + 1) tail) = length b"
      using left [of b] right [of b] by (auto simp: rearranged_def)
    show ?thesis
    proof (cases "q - head < tail - p - 1")
      case t: True
      then have "pure_sort c a head tail = pure_sort c (pure_sort c b head q) (p + 1) tail"
        using True s by (subst pure_sort.simps) simp
      then show ?thesis using whole [of head q _ "p + 1" tail] left [of b] right [OF keep(1)] by auto
    next
      case f: False
      then have "pure_sort c a head tail = pure_sort c (pure_sort c b (p + 1) tail) head q"
        using True s by (subst pure_sort.simps) simp
      then show ?thesis using whole [of "p + 1" tail _ head q] right [of b] left [OF keep(2)] by auto
    qed
  qed
qed

text \<open>A range at the start of the array, as a sorted list.\<close>

lemma in_order_sorted:
  assumes "in_order d 0 (int n - 1)" "n \<le> length d"
  shows "sorted_wrt le (take n d)"
  unfolding sorted_wrt_iff_nth_less
proof (intro allI impI)
  fix i j assume "i < j" "j < length (take n d)"
  then show "le (take n d ! i) (take n d ! j)"
    using assms(1) [unfolded in_order_def, rule_format, of "int i" "int j"] assms(2) by (simp add: elem_def)
qed

end

section \<open>The routine whatever the comparisons do\<close>

lemma partition_rearranged:
  assumes "partition_loop s v a h t = (a', r)" "head - 1 \<le> h" "h < t" "t \<le> tail" "0 \<le> head" "tail < int (length a)"
  shows "rearranged head tail a a'"
  using assms
proof (induction s v a h t rule: partition_loop.induct)
  case (1 s v a h t)
  show ?case
  proof (cases "\<exists>p q. scan_up s a v h t = Some p \<and> scan_down s a v p t = Some q \<and> p < q")
    case False
    then have "a' = a" using 1(2) partition_loop.simps [of s v a h t] by (auto split: option.splits if_splits)
    then show ?thesis by simp
  next
    case True
    then obtain p q where pq: "scan_up s a v h t = Some p" "scan_down s a v p t = Some q" "p < q" by blast
    have b: "h < p" "q < t" using scans_approach [OF pq] by simp_all
    have "partition_loop s v (swap a p q) p q = (a', r)" using 1(2) partition_loop.simps [of s v a h t] pq by simp
    moreover have sw: "rearranged head tail a (swap a p q)" using b pq(3) 1(3-7) by (intro swap_rearranged) auto
    moreover have "length (swap a p q) = length a" by (simp add: swap_def)
    ultimately have "rearranged head tail (swap a p q) a'" using 1(1) [OF pq(1,2)] b pq(3) 1(3-7) by simp
    then show ?thesis using rearranged_trans [OF sw] by blast
  qed
qed

lemma split_rearranged:
  assumes "partition_loop s v a (head - 1) tail = (b, Some (h, t))" "head < tail" "0 \<le> head" "tail < int (length a)"
  shows "rearranged head tail a (swap b h tail)" "head \<le> h" "t < tail"
proof -
  have r: "rearranged head tail a b" using partition_rearranged [OF assms(1)] assms(2-4) by simp
  show "head \<le> h" "t < tail" using partition_bounds [OF assms(1)] assms(2) by auto
  have "rearranged head tail b (swap b h tail)"
    by (rule swap_rearranged) (use partition_bounds [OF assms(1)] assms(2-4) r in \<open>auto simp: rearranged_def\<close>)
  then show "rearranged head tail a (swap b h tail)" using rearranged_trans [OF r] by blast
qed

text \<open>One turn of the loop, once the pivot is in its place.\<close>

lemma loop_step:
  assumes "head < tail" "key_of s (a ! nat tail) = Some v" "partition_loop s v a (head - 1) tail = (b, Some (h, t))"
  shows "quicksort_loop s room a head tail = (let d = swap b h tail in if t - head < tail - h - 1
        then (case mp_quicksort s (room - 1) d head t of (a, returned) \<Rightarrow> if returned then quicksort_loop s room a (h + 1) tail else (a, False))
        else (case mp_quicksort s (room - 1) d (h + 1) tail of (a, returned) \<Rightarrow> if returned then quicksort_loop s room a head t else (a, False)))"
  by (subst quicksort_loop.simps) (simp only: assms if_True option.case prod.case Let_def)

text \<open>The loop and a call leave a rearrangement of the range, returned or not.\<close>

lemma loop_permutes:
  assumes "0 \<le> head" "tail < int (length a)"
  shows "rearranged head tail a (fst (quicksort_loop s room a head tail))"
  using assms
proof (induction "nat (tail - head)" arbitrary: room a head tail rule: less_induct)
  case less
  show ?case
  proof (cases "\<exists>v b h t. head < tail \<and> key_of s (a ! nat tail) = Some v \<and> partition_loop s v a (head - 1) tail = (b, Some (h, t))")
    case False
    then show ?thesis using less.prems partition_rearranged [of s _ a "head - 1" tail _ None head tail]
      by (subst quicksort_loop.simps) (auto split: option.splits prod.splits)
  next
    case True
    then obtain v b h t where ht: "head < tail" "key_of s (a ! nat tail) = Some v"
      and p: "partition_loop s v a (head - 1) tail = (b, Some (h, t))" by blast
    define d where "d = swap b h tail"
    note split = split_rearranged [OF p ht(1) less.prems, folded d_def]
    have l: "length d = length a" using split(1) by (simp add: rearranged_def)
    have part: "rearranged head tail x (fst (quicksort_loop s r x lo hi))" "rearranged head tail x (fst (mp_quicksort s r x lo hi))"
      if "(lo, hi) = (head, t) \<or> (lo, hi) = (h + 1, tail)" "length x = length a" for r x lo hi
    proof -
      have "nat (hi - lo) < nat (tail - head)" using that(1) parts_smaller [OF p [symmetric] ht(1)] by auto
      then have "rearranged lo hi x (fst (quicksort_loop s r x lo hi))"
        using less.hyps [of hi lo x r] that less.prems split(2,3) ht(1) by auto
      then show "rearranged head tail x (fst (quicksort_loop s r x lo hi))"
        using rearranged_wider [of lo hi x _ head tail] that less.prems split(2,3) ht(1) by auto
      then show "rearranged head tail x (fst (mp_quicksort s r x lo hi))" by (simp add: mp_quicksort.simps)
    qed
    have two: "rearranged head tail d (fst (case mp_quicksort s (room - 1) d lo hi of (a, returned) \<Rightarrow>
        if returned then quicksort_loop s room a lo' hi' else (a, False)))"
      if "(lo, hi) = (head, t) \<or> (lo, hi) = (h + 1, tail)" "(lo', hi') = (head, t) \<or> (lo', hi') = (h + 1, tail)" for lo hi lo' hi'
    proof -
      obtain m r where m: "mp_quicksort s (room - 1) d lo hi = (m, r)" by fastforce
      have dm: "rearranged head tail d m" using part(2) [OF that(1) l, of "room - 1"] by (simp only: m fst_conv)
      then have "length m = length a" using l by (simp add: rearranged_def)
      then show ?thesis using rearranged_trans [OF dm part(1) [OF that(2)]] dm unfolding m by simp
    qed
    note step = loop_step [OF ht p, of room, folded d_def, unfolded Let_def]
    have "rearranged head tail d (fst (quicksort_loop s room a head tail))"
      unfolding step using two [of head t "h + 1" tail] two [of "h + 1" tail head t] by simp
    then show ?thesis using rearranged_trans [OF split(1)] by blast
  qed
qed

lemma sort_permutes:
  "0 \<le> head \<Longrightarrow> tail < int (length a) \<Longrightarrow> rearranged head tail a (fst (mp_quicksort s room a head tail))"
  by (simp add: mp_quicksort.simps loop_permutes)

section \<open>The routine over an order\<close>

text \<open>On the elements of \<open>D\<close> keys and comparisons answer, and as \<open>c\<close> does.\<close>

definition compares :: "'a sort_by \<Rightarrow> ('a \<Rightarrow> 'a \<Rightarrow> bool) \<Rightarrow> 'a set \<Rightarrow> bool" where
  "compares s c D \<longleftrightarrow> (\<forall>x\<in>D. key_of s x \<noteq> None) \<and>
     (\<forall>x\<in>D. \<forall>y\<in>D. map_option (\<lambda>r. r = less_result s) (less_op s (the (key_of s x)) (the (key_of s y))) = Some (c x y))"

lemma compares_tests:
  assumes "compares s c D" "x \<in> D" "y \<in> D" "key_of s y = Some v"
  shows "up_test s x v = Some (c x y)" "down_test s v x = Some (c y x)"
proof -
  obtain k where k: "key_of s x = Some k" using assms(1,2) unfolding compares_def by blast
  have "map_option (\<lambda>r. r = less_result s) (less_op s k v) = Some (c x y)"
    "map_option (\<lambda>r. r = less_result s) (less_op s v k) = Some (c y x)"
    using assms k unfolding compares_def by (metis option.sel)+
  then show "up_test s x v = Some (c x y)" "down_test s v x = Some (c y x)"
    by (simp_all add: up_test_def down_test_def k)
qed

lemma scan_up_pure:
  assumes "compares s c (set a)" "y \<in> set a" "key_of s y = Some v" "-1 \<le> h" "t \<le> int (length a)"
  shows "scan_up s a v h t = Some (pure_up c a y h t)"
  using assms(4,5)
proof (induction "nat (t - h)" arbitrary: h rule: less_induct)
  case less
  show ?case
  proof (cases "h + 1 < t")
    case True
    then have "up_test s (a ! nat (h + 1)) v = Some (c (a ! nat (h + 1)) y)"
      using compares_tests(1) [OF assms(1) _ assms(2,3)] less.prems by simp
    then show ?thesis using True less.hyps [of "h + 1"] less.prems
      by (subst scan_up.simps, subst pure_up.simps) (simp add: Let_def)
  next
    case False
    then show ?thesis by (subst scan_up.simps, subst pure_up.simps) (simp add: Let_def)
  qed
qed

lemma scan_down_pure:
  assumes "compares s c (set a)" "y \<in> set a" "key_of s y = Some v" "-1 \<le> h" "t \<le> int (length a)"
  shows "scan_down s a v h t = Some (pure_down c a y h t)"
  using assms(4,5)
proof (induction "nat (t - h)" arbitrary: t rule: less_induct)
  case less
  show ?case
  proof (cases "h < t - 1")
    case True
    then have "down_test s v (a ! nat (t - 1)) = Some (c y (a ! nat (t - 1)))"
      using compares_tests(2) [OF assms(1) _ assms(2,3)] less.prems by simp
    then show ?thesis using True less.hyps [of "t - 1"] less.prems
      by (subst scan_down.simps, subst pure_down.simps) (simp add: Let_def)
  next
    case False
    then show ?thesis by (subst scan_down.simps, subst pure_down.simps) (simp add: Let_def)
  qed
qed

lemma set_swap:
  assumes "0 \<le> i" "i < int (length a)" "0 \<le> j" "j < int (length a)"
  shows "set (swap a i j) = set a"
proof -
  have "mset (swap a i j) = mset a" unfolding swap_def using assms by (intro mset_swap) simp_all
  then show ?thesis by (metis set_mset_mset)
qed

lemma partition_pure:
  assumes "compares s c (set a)" "y \<in> set a" "key_of s y = Some v" "-1 \<le> h" "h < t" "t < int (length a)"
    and "pure_partition c y a h t = (a', h', t')"
  shows "partition_loop s v a h t = (a', Some (h', t'))"
  using assms
proof (induction "nat (t - h)" arbitrary: a h t rule: less_induct)
  case less
  define p where "p = pure_up c a y h t"
  define q where "q = pure_down c a y p t"
  have p: "h < p" "p \<le> t" using pure_up_bounds [OF less.prems(5), of c a y] by (simp_all add: p_def)
  have q: "q < t" "p - 1 \<le> q" using pure_down_bounds [OF p(2), of c a y] by (simp_all add: q_def)
  have "scan_up s a v h t = Some p" unfolding p_def by (rule scan_up_pure) (use less.prems in auto)
  moreover have "scan_down s a v p t = Some q" unfolding q_def by (rule scan_down_pure) (use less.prems p in auto)
  ultimately have step: "partition_loop s v a h t = (if p \<ge> q then (a, Some (p, q)) else partition_loop s v (swap a p q) p q)"
    by (subst partition_loop.simps) simp
  have pure: "pure_partition c y a h t = (if p \<ge> q then (a, p, q) else pure_partition c y (swap a p q) p q)"
    by (subst pure_partition.simps) (simp add: Let_def p_def q_def)
  show ?case
  proof (cases "p \<ge> q")
    case True
    then show ?thesis using step pure less.prems(7) by simp
  next
    case False
    have "set (swap a p q) = set a" "length (swap a p q) = length a" 
      using False p q less.prems(4,6) by (auto intro!: set_swap simp: swap_def)
    then have "partition_loop s v (swap a p q) p q = (a', Some (h', t'))"
      using less.hyps [of q p "swap a p q"] False p q less.prems pure by simp
    then show ?thesis using step False by simp
  qed
qed

text \<open>
  With room for \<open>n\<close> nested calls a range of less than \<open>2 ^ n\<close> elements is sorted: the nested call gets
  the smaller part, at most half of the range.
\<close>

lemma smaller_part_fits:
  fixes x y n :: int
  assumes "x + y \<le> n" "2 \<le> n" "n < 2 ^ room" "0 < room"
  shows "room - 1 \<noteq> 0 \<and> min x y < 2 ^ (room - 1)"
proof -
  have "(2::int) ^ room = 2 * 2 ^ (room - 1)" using assms(4) by (simp add: power_eq_if)
  then have "min x y < 2 ^ (room - 1)" using assms(1,3) by linarith
  moreover have "room \<noteq> 1" using assms(2,3) by auto
  ultimately show ?thesis using assms(4) by simp
qed

lemma loop_is_pure:
  assumes "compares s c (set a)" "0 \<le> head" "tail < int (length a)" "tail - head + 1 < 2 ^ room" "0 < room"
  shows "quicksort_loop s room a head tail = (pure_sort c a head tail, True)"
  using assms
proof (induction "nat (tail - head)" arbitrary: room a head tail rule: less_induct)
  case less
  show ?case
  proof (cases "head < tail")
    case False
    then show ?thesis by (subst quicksort_loop.simps, subst pure_sort.simps) simp
  next
    case True
    have y: "a ! nat tail \<in> set a" using True less.prems(2,3) by simp
    then obtain v where v: "key_of s (a ! nat tail) = Some v" using less.prems(1) unfolding compares_def by blast
    obtain b h t where p: "pure_partition c (a ! nat tail) a (head - 1) tail = (b, h, t)" using prod_cases3 by blast
    have q: "partition_loop s v a (head - 1) tail = (b, Some (h, t))"
      by (rule partition_pure [OF less.prems(1) y v _ _ _ p]) (use True less.prems in auto)
    define d where "d = swap b h tail"
    note split = split_rearranged [OF q True less.prems(2,3), folded d_def]
    have hs: "h \<le> tail" "h - 1 \<le> t" "t \<le> h" using partition_bounds [OF q] True by auto
    have l: "length d = length a" and D: "set d = set a" using split(1) unfolding rearranged_def by (simp, metis set_mset_mset)
    have e: "room - 1 \<noteq> 0 \<and> min (t - head + 1) (tail - h) < 2 ^ (room - 1)"
      by (rule smaller_part_fits) (use True hs less.prems(4,5) in auto)
    have part: "quicksort_loop s r x lo hi = (pure_sort c x lo hi, True) \<and> length (pure_sort c x lo hi) = length a \<and> set (pure_sort c x lo hi) = set a"
      if "(lo, hi) = (head, t) \<or> (lo, hi) = (h + 1, tail)" "length x = length a \<and> set x = set a" "0 < r" "hi - lo + 1 < 2 ^ r" for r x lo hi
    proof -
      have b: "nat (hi - lo) < nat (tail - head)" "0 \<le> lo" "hi < int (length x)"
        using that(1,2) parts_smaller [OF q [symmetric] True] less.prems(2,3) split(2,3) by auto
      then have "quicksort_loop s r x lo hi = (pure_sort c x lo hi, True)" using less.hyps that less.prems(1) by simp
      then show ?thesis using loop_permutes [OF b(2,3), of s r] that(2) unfolding rearranged_def by (metis fst_conv set_mset_mset)
    qed
    have two: "(case mp_quicksort s (room - 1) d lo hi of (a, returned) \<Rightarrow> if returned then quicksort_loop s room a lo' hi' else (a, False))
        = (pure_sort c (pure_sort c d lo hi) lo' hi', True)"
      if lh: "(lo, hi) = (head, t) \<or> (lo, hi) = (h + 1, tail)" "(lo', hi') = (head, t) \<or> (lo', hi') = (h + 1, tail)"
        and small: "hi - lo + 1 < 2 ^ (room - 1)" for lo hi lo' hi'
    proof -
      have first: "quicksort_loop s (room - 1) d lo hi = (pure_sort c d lo hi, True)"
        "length (pure_sort c d lo hi) = length a \<and> set (pure_sort c d lo hi) = set a"
        using part [OF lh(1) _ _ small] l D e by blast+
      have "hi' - lo' + 1 < 2 ^ room" using lh(2) less.prems(4) split(2,3) by auto
      then have "quicksort_loop s room (pure_sort c d lo hi) lo' hi' = (pure_sort c (pure_sort c d lo hi) lo' hi', True)"
        using part [OF lh(2) first(2) less.prems(5)] by blast
      then show ?thesis unfolding mp_quicksort.simps using first(1) e by (simp only: if_False if_True prod.case simp_thms)
    qed
    have pure: "pure_sort c a head tail = (if t - head < tail - h - 1
        then pure_sort c (pure_sort c d head t) (h + 1) tail else pure_sort c (pure_sort c d (h + 1) tail) head t)"
      using True p by (subst pure_sort.simps) (simp add: pure_split_def d_def)
    note step = loop_step [OF True v q, of room, folded d_def, unfolded Let_def]
    have "t - head + 1 < 2 ^ (room - 1)" if "t - head < tail - h - 1" using e that by (simp add: min_def)
    moreover have "tail - (h + 1) + 1 < 2 ^ (room - 1)" if "\<not> t - head < tail - h - 1" using e that by (simp add: min_def split: if_splits)
    ultimately show ?thesis unfolding pure step using two [of head t "h + 1" tail] two [of "h + 1" tail head t] by (cases "t - head < tail - h - 1") (simp_all only: if_True if_False simp_thms)
  qed
qed

lemma sort_is_pure:
  "compares s c (set a) \<Longrightarrow> 0 \<le> head \<Longrightarrow> tail < int (length a) \<Longrightarrow> tail - head + 1 < 2 ^ room \<Longrightarrow> 0 < room \<Longrightarrow>
    mp_quicksort s room a head tail = (pure_sort c a head tail, True)"
  by (simp add: mp_quicksort.simps loop_is_pure)

end
