(* ===== verification/Py_List_Sort.thy ===== *)
theory Py_List_Sort
  imports Py_Quicksort Py_Obj
begin

text \<open>
  The method \<open>sort\<close> of lists (\<open>mp_obj_list_sort\<close> of \<open>py/objlist.c\<close>) and what it promises: the laws of
  \<open>sort_order\<close> hold of the comparison with \<open>true\<close>, which sorts upwards, and of the comparison with
  \<open>false\<close>, which sorts downwards.
\<close>

section \<open>The method\<close>

definition mp_obj_list_sort ::
    "(mp_obj \<Rightarrow> mp_obj \<Rightarrow> mp_obj option) \<Rightarrow> nat \<Rightarrow> (mp_obj \<Rightarrow> mp_obj option) option \<Rightarrow> bool \<Rightarrow> mp_obj list \<Rightarrow> mp_obj list \<times> bool" where
  "mp_obj_list_sort lt room key reverse items =
     (if length items > 1
      then mp_quicksort \<lparr>key_fn = key, less_op = lt, less_result = Bool_obj (\<not> reverse)\<rparr> room items 0 (int (length items) - 1)
      else (items, True))"

section \<open>Upwards and downwards\<close>

interpretation upwards: sort_order "\<lambda>x y. rank x < rank y" "\<lambda>x y. rank x \<le> rank y" for rank :: "'a \<Rightarrow> 'b::linorder"
  by unfold_locales auto

interpretation downwards: sort_order "\<lambda>x y. \<not> rank x < rank y" "\<lambda>x y. rank x \<ge> rank y" for rank :: "'a \<Rightarrow> 'b::linorder"
  by unfold_locales auto


text \<open>The method sets up the sort with the comparison that \<open>c\<close> is.\<close>

lemma sort_is_pure_sort:
  assumes "compares \<lparr>key_fn = key, less_op = lt, less_result = Bool_obj (\<not> reverse)\<rparr> c (set items)" "length items < 2 ^ room"
  shows "mp_obj_list_sort lt room key reverse items = (pure_sort c items 0 (int (length items) - 1), True)"
proof (cases "length items > 1")
  case True
  have "int (length items) < int (2 ^ room)" using assms(2) by (simp only: of_nat_less_iff)
  moreover have "room \<noteq> 0" using True assms(2) by (cases room) auto
  ultimately have "mp_quicksort \<lparr>key_fn = key, less_op = lt, less_result = Bool_obj (\<not> reverse)\<rparr> room items 0 (int (length items) - 1)
      = (pure_sort c items 0 (int (length items) - 1), True)"
    by (intro sort_is_pure [OF assms(1)]) simp_all
  then show ?thesis using True by (simp add: mp_obj_list_sort_def)
next
  case False
  then have "\<not> 0 < int (length items) - 1" by simp
  then have "pure_sort c items 0 (int (length items) - 1) = items" by (subst pure_sort.simps) simp
  then show ?thesis using False by (simp add: mp_obj_list_sort_def)
qed

lemma sort_keeps_items: "mset (fst (mp_obj_list_sort lt room key reverse items)) = mset items"
  unfolding mp_obj_list_sort_def using sort_permutes [of 0 "int (length items) - 1" items]
  by (simp add: rearranged_def)

text \<open>Keys that answer and are compared as their ranks are.\<close>

definition ranks_keys ::
    "(mp_obj \<Rightarrow> 'b::linorder) \<Rightarrow> (mp_obj \<Rightarrow> mp_obj option) option \<Rightarrow> (mp_obj \<Rightarrow> mp_obj \<Rightarrow> mp_obj option) \<Rightarrow> mp_obj set \<Rightarrow> bool" where
  "ranks_keys rank key lt D \<longleftrightarrow> (\<forall>x\<in>D. \<forall>y\<in>D. \<exists>k l.
     (case key of None \<Rightarrow> k = x \<and> l = y | Some f \<Rightarrow> f x = Some k \<and> f y = Some l) \<and>
     lt k l = Some (Bool_obj (rank x < rank y)))"

lemma ranks_compare:
  assumes "ranks_keys rank key lt D"
  shows "compares \<lparr>key_fn = key, less_op = lt, less_result = Bool_obj (\<not> reverse)\<rparr>
    (\<lambda>x y. (rank x < rank y) = (\<not> reverse)) D"
proof -
  let ?s = "\<lparr>key_fn = key, less_op = lt, less_result = Bool_obj (\<not> reverse)\<rparr>"
  have keys: "\<exists>k l. key_of ?s x = Some k \<and> key_of ?s y = Some l \<and> lt k l = Some (Bool_obj (rank x < rank y))"
    if "x \<in> D" "y \<in> D" for x y
    using assms that unfolding ranks_keys_def key_of_def by (cases key) fastforce+
  have "key_of ?s x \<noteq> None" if "x \<in> D" for x using keys [OF that that] by auto
  moreover have "map_option (\<lambda>r. r = less_result ?s) (less_op ?s (the (key_of ?s x)) (the (key_of ?s y))) = Some ((rank x < rank y) = (\<not> reverse))"
    if "x \<in> D" "y \<in> D" for x y using keys [OF that] by auto
  ultimately show ?thesis unfolding compares_def by blast
qed

lemma pure_sort_sorted:
  fixes rank :: "mp_obj \<Rightarrow> 'b::linorder"
  shows "sorted_wrt (if reverse then (\<ge>) else (\<le>))
    (map rank (pure_sort (\<lambda>x y. (rank x < rank y) = (\<not> reverse)) items 0 (int (length items) - 1)))"
proof (cases reverse)
  case True
  define d where "d = pure_sort (\<lambda>x y. \<not> rank x < rank y) items 0 (int (length items) - 1)"
  note sorts = downwards.quicksort_sorts [of 0 "int (length items) - 1" items rank, folded d_def]
  then have l: "length d = length items" by (simp add: rearranged_def)
  then show ?thesis using downwards.in_order_sorted [of rank d "length items"] sorts True by (simp add: sorted_wrt_map d_def)
next
  case False
  define d where "d = pure_sort (\<lambda>x y. rank x < rank y) items 0 (int (length items) - 1)"
  note sorts = upwards.quicksort_sorts [of 0 "int (length items) - 1" items rank, folded d_def]
  then have l: "length d = length items" by (simp add: rearranged_def)
  then show ?thesis using upwards.in_order_sorted [of rank d "length items"] sorts False by (simp add: sorted_wrt_map d_def)
qed

text \<open>
  C15: Sorting a list. Whatever the key function and the comparisons answer, and also when one of
  them raises or the stack is used up, the list holds the same objects afterwards. When every item
  has a key and comparing two keys answers whether the rank of the first item is below that of the
  second, for some linear order of ranks, and calls may be nested \<open>room\<close> deep for a list of less than
  \<open>2 ^ room\<close> items, the method returns and leaves the items in the order of their ranks, upwards or,
  with \<open>reverse\<close>, downwards. The key function and the comparison are taken not to change the list
  that is being sorted.
\<close>

theorem list_sort_sorts:
  fixes rank :: "mp_obj \<Rightarrow> 'b::linorder"
  shows "mset (fst (mp_obj_list_sort lt room key reverse items)) = mset items \<and>
    (ranks_keys rank key lt (set items) \<and> length items < 2 ^ room \<longrightarrow>
       (\<exists>sorted_items. mp_obj_list_sort lt room key reverse items = (sorted_items, True) \<and>
          sorted_wrt (if reverse then (\<ge>) else (\<le>)) (map rank sorted_items)))"
  using sort_keeps_items sort_is_pure_sort [OF ranks_compare] pure_sort_sorted [of reverse rank items] by blast

text \<open>Three small integers sorted downwards, with the comparison of small integers and no key.\<close>

fun small_int_less :: "mp_obj \<Rightarrow> mp_obj \<Rightarrow> mp_obj option" where
  "small_int_less (Small_int v) (Small_int w) = Some (Bool_obj (v < w))"
| "small_int_less _ _ = None"

fun small_int_value :: "mp_obj \<Rightarrow> int" where
  "small_int_value (Small_int v) = v"
| "small_int_value _ = 0"

theorem list_sort_sorts_witness:
  "\<exists>sorted_items. mp_obj_list_sort small_int_less 2 None True [Small_int 4, Small_int 9, Small_int 4] = (sorted_items, True) \<and>
     mset sorted_items = {#Small_int 4, Small_int 4, Small_int 9#} \<and> sorted_wrt (\<ge>) (map small_int_value sorted_items)"
proof -
  have "ranks_keys small_int_value None small_int_less (set [Small_int 4, Small_int 9, Small_int 4])"
    by (simp add: ranks_keys_def)
  then show ?thesis
    using list_sort_sorts [of small_int_less 2 None True "[Small_int 4, Small_int 9, Small_int 4]" small_int_value] by auto
qed

end
