(* ===== verification/Spec2Isabelle.thy ===== *)
theory Spec2Isabelle
  imports Contiki_List Contiki_Ringbuf Contiki_Memb Contiki_Process_Run Contiki_Etimer Mpz_Props Py_Dict_Items
    Py_Objset_Props Py_Gc_Client Contiki_Heapmem_Props
    Contiki_Framer_Props Py_String_Properties Py_List_Sort
begin

text \<open>
  \<^bold>\<open>nespy\<close> joins two programs: the run-time system of Contiki-NG (\<open>src/src/ns\<close>), an event-driven
  operating system for sensor nodes, and the core of MicroPython (\<open>src/src/py\<close>). This development
  models the parts both rest on and proves them correct. C code becomes definitions of HOL under
  its own names: a struct is a record, an unsigned integer a machine word (or a natural number
  where the code cannot overflow it), a pointer a natural number with \<open>NULL\<close> as 0, shared memory a
  function from addresses, an error return a value. A loop that may not end is a partial function
  into \<open>option\<close>, where \<open>None\<close> is not returning; that the code returns is then a theorem.

  \<^bold>\<open>The system side.\<close> The kernel is in \<open>ns/sys/process.c\<close>: a linked list of processes, each a thread
  that handles events, a ring of pending events and a poll flag. Event timers (\<open>ns/sys/etimer.c\<close>) are
  a process of it that keeps a list of timers (\<open>ns/sys/timer.c\<close>) and posts an event for each that has
  expired. Lists, ring buffers and block pools (\<open>ns/lib\<close>) are the containers of the rest.

  \<^item> \<open>Contiki_List\<close> -- \<open>ns/lib/list.c\<close>: a heap of next pointers and head cells. Any sequence of
    operations on a well-formed list returns and refines the operations on sequences, touching no
    other list; \<open>list_insert\<close>.
  \<^item> \<open>Contiki_Ringbuf\<close> -- \<open>ns/lib/ringbuf.c\<close>, \<open>ns/lib/ringbufindex.c\<close> with 8-bit pointers, and
    \<open>Contiki_Memb\<close> -- \<open>ns/lib/memb.c\<close>. The interfaces they provide are the locales \<open>bounded_fifo\<close> and
    \<open>block_pool\<close> of \<open>Interfaces\<close>, interpreted on the models; first-in first-out order and the absence
    of double allocation are proved once inside the locales.
  \<^item> \<open>Contiki_Process\<close>, \<open>Contiki_Process_Run\<close> -- \<open>ns/sys/process.c\<close>: the state is the record
    \<open>kernel\<close>; a thread is a tree of the calls it makes, so that the re-entrant delivery of events
    (\<open>process_post_synch\<close>, \<open>process_start\<close>, \<open>process_exit\<close> from inside a thread) is explicit. The fuel of
    \<open>kernel_fns\<close> is the depth of nested calls; as a process that is being called is not called
    again, the number of processes is enough for threads that only post, poll and exit by returning,
    which is how \<open>process_run\<close> is shown to return. The order of broadcasts and polls, and what every
    run keeps of the list and the queue, whatever the threads do.
  \<^item> \<open>Contiki_Timer\<close> -- \<open>ns/sys/timer.c\<close>, \<open>ns/sys/stimer.c\<close> over clocks that wrap around, and
    \<open>Contiki_Etimer\<close> -- \<open>ns/sys/etimer.c\<close> on top of the kernel: arming, firing, stopping, and the exit
    of a process. Every reading of the clock may return another time.
  \<^item> \<open>Contiki_Heapmem\<close> -- the allocator of \<open>ns/lib/heapmem.c\<close>, with the wrap-around of \<open>size_t\<close> written
    out; \<open>Contiki_Heapmem_Inv\<close>, \<open>Contiki_Heapmem_Ops\<close>, \<open>Contiki_Heapmem_Alloc\<close>, \<open>Contiki_Heapmem_Realloc\<close> --
    chunks tile the heap, the free list is a doubly linked list of exactly the free chunks, and what
    freeing, coalescing, splitting, the best fit, allocation and reallocation do to the allocated
    chunks; \<open>Contiki_Heapmem_Props\<close> -- the same in terms of the objects a client holds, the statistics,
    the interpretation of the locale \<open>object_heap\<close>, and the sizes at which the code wraps around.
  \<^item> \<open>Contiki_Frame802154\<close>, \<open>Contiki_Frame802154_Props\<close> -- the headers of radio frames,
    \<open>ns/net/mac/framer/frame802154.c\<close>: writing and reading are inverse, within bounds. \<open>Contiki_Packetbuf\<close>
    -- \<open>ns/net/packetbuf.c\<close>; \<open>Contiki_Framer\<close>, \<open>Contiki_Framer_Props\<close> --
    \<open>ns/net/mac/framer/framer-802154.c\<close>: a packet that one node frames and another parses arrives. An
    access outside a buffer is \<open>None\<close>, so that every theorem that something is returned is also one
    about bounds. The options of the build are arguments.

  \<^bold>\<open>The Python side.\<close> Objects are looked up by equality and hash; maps and sets (\<open>py/map.c\<close>) are hash
  tables with open addressing and ordered arrays; dictionaries and sets of the language
  (\<open>py/objdict.c\<close>, \<open>py/objset.c\<close>) are built on them. Big integers (\<open>py/mpz.c\<close>) are sign and digits.

  \<^item> \<open>Mpn\<close>, \<open>Mpn_Bits\<close>, \<open>Mpn_Div\<close> -- the digit arrays of \<open>py/mpz.c\<close> (16-bit digits, 32-bit double digits with
    their wrap-around); \<open>Mpn_Memory\<close> -- addition and subtraction in one memory, where the destination may
    be an operand, give the same digits (\<open>mpn_in_place\<close>); \<open>Mpz\<close>, \<open>Mpz_Pow\<close>, \<open>Mpz_Conv\<close> -- the big integers and their conversions;
    \<open>Mpz_Props\<close> -- exactness of the arithmetic, bitwise operations as two's complement, round trips
    through text and bytes, bounds of the machine conversions, and the inputs where the code is wrong.
  \<^item> \<open>Py_Obj\<close> -- \<open>mp_obj_equal\<close>, \<open>mp_obj_str_equal\<close> and the hash: objects stand for keys (\<open>canon\<close>),
    equality is equality of keys, and the hash depends on the key only.
  \<^item> \<open>Py_Hash\<close> -- the theory of open addressing with deleted slots, in the locale \<open>hash_keys\<close>;
    \<open>Py_Map\<close> -- the maps of \<open>py/map.c\<close>, with \<open>hash_keys\<close> interpreted on objects; \<open>Py_Ordered_Map\<close> -- its
    ordered arrays. Growing a table calls the lookup again; the fuel of \<open>mp_map_lookup\<close> is the depth of
    this nesting, and two levels are enough because a table that has just grown has room.
  \<^item> \<open>Py_Dict\<close> -- \<open>py/objdict.c\<close>; \<open>Py_Dict_Props\<close> -- what dictionaries rely on of maps is the locale
    \<open>map_contract\<close>, interpreted on hash tables and on ordered arrays; inside it every run of operations
    refines a finite map with exceptions; \<open>update\<close>, equality. \<open>Py_Dict_Items\<close> -- \<open>popitem\<close> and the
    order of \<open>OrderedDict\<close>.
  \<^item> \<open>Py_Set\<close> -- the sets of \<open>py/map.c\<close>; \<open>Py_Objset\<close>, \<open>Py_Objset_Props\<close> -- \<open>py/objset.c\<close>: operators,
    comparisons and methods are those of finite sets, also when a set is its own argument.
  \<^item> \<open>Py_Quicksort\<close> -- the sort of \<open>py/objlist.c\<close> with keys and comparisons that may raise, and the room on
    the stack as the number of nested calls; what makes the result sorted is the locale \<open>sort_order\<close>,
    interpreted upwards and downwards in \<open>Py_List_Sort\<close>, the method \<open>sort\<close> of lists. A list of less
    than \<open>2 ^ n\<close> items needs at most \<open>n\<close> nested calls, as the smaller part gets the nested one.
  \<^item> \<open>Py_Unicode\<close> -- \<open>py/unicode.c\<close> over byte sequences; \<open>Py_Utf8\<close> -- UTF-8 as arithmetic on code points, and
    that the code agrees with it; \<open>Py_Vstr\<close>, \<open>Py_Vstr_Props\<close> -- the growing buffers of \<open>py/vstr.c\<close> with
    32-bit sizes, fixed buffers and their errors; \<open>Py_Sequence\<close> -- indices and slices of \<open>py/sequence.c\<close>
    and \<open>py/obj.c\<close>, with index objects that are small or heap integers and machine integers that
    overflow; \<open>Py_Str\<close>, \<open>Py_Str_Props\<close> -- the strings of \<open>py/objstrunicode.c\<close>; \<open>Py_Strmethods\<close>,
    \<open>Py_Strmethods_Props\<close> -- the methods of \<open>py/objstr.c\<close>, where an access outside a string or buffer is the
    error \<open>Out_of_bounds\<close>; \<open>Py_Strtext\<close> -- the same in terms of characters; \<open>Py_String_Properties\<close> -- the
    properties, and the inputs where the code breaks its contract. Memory for new strings is given by
    the record \<open>mem_env\<close>: which sizes an allocation can get, and what it finds there. Lengths
    and indices become small integers unchanged, which the code does up to \<open>2 ^ 30\<close> characters.
  \<^item> \<open>Py_Gc\<close> -- the garbage collector of \<open>py/gc.c\<close>, for words of four bytes and blocks of sixteen, with
    finalisers, the allocation threshold and conservative clearing: the tables as bytes, the pool as
    words, the mark stack with its overflow. The words scanned as roots and what a finaliser does to
    the heap (\<open>del\<close>) are arguments. \<open>Py_Gc_Table\<close>, \<open>Py_Gc_Mark\<close>, \<open>Py_Gc_Sweep\<close> -- marking ends and marks what
    is reachable, with any number of overflows, and sweeping frees the rest; \<open>Py_Gc_Alloc\<close>,
    \<open>Py_Gc_Free\<close>, \<open>Py_Gc_Realloc\<close> -- first fit, freeing and resizing; \<open>Py_Gc_Props\<close> -- the properties. The
    hypothesis \<open>gap\<close> states that a chain that ends with the pool is followed by a byte that does
    not read as one more tail, which the code relies on and \<open>gc_free_clears_other_flag\<close> shows it
    does not ensure. \<open>Object_Heap\<close> -- the locale \<open>object_heap\<close>, what an allocator promises a client;
    \<open>Py_Gc_Client\<close> -- its interpretation on the collector.

  \<open>Nespy_Prelude\<close> holds the shared types, the collections of rewrite rules and lemmas on lists, words
  and maps.

  \<^bold>\<open>Not modelled.\<close> Debug output; locking (the code runs single-threaded); allocation failure in \<open>py\<close>
  outside the collector and the strings; floating point; objects with user-defined equality; of
  strings the formatting, the construction from other objects and the printing of bytes and JSON; of lists
  everything but the sort. Signed overflow, which C leaves undefined, wraps around in the model.
  Whole parts: the compiler and virtual machine of Python and its other types, which are far larger than
  their services modelled here; the network stack of Contiki-NG above the framer and its services; the
  other linked lists of \<open>ns/lib\<close>, variants of \<open>ns/lib/list.c\<close>; callback timers; device drivers and
  ports, which are input and output; and the vendored libraries.
\<close>

end
